(* ===== verification/Prelude.thy ===== *)
theory Prelude
  imports Main "HOL-Library.Word"
begin

text \<open>
  Vocabulary shared by every component of the kernel model.

  \<^item> Machine integers.  Bit-level code (ChaCha20, CRC-32, checksums, TCP flags) works on
    \<^typ>\<open>8 word\<close>, \<^typ>\<open>32 word\<close> and so on.  Addresses, sizes and counters, on which the
    code only does linear arithmetic, are natural numbers, and every place where the C
    expression could leave its 64-bit range uses \<open>add64\<close> or \<open>sub64\<close>, which
    reduce modulo \<open>2 ^ 64\<close> as the C types do.
  \<^item> Linear scans.  The kernel looks everything up with \<open>for (i = 0; i < N; i++) if (P) return i\<close>;
    \<open>first_index\<close> is that loop, with \<open>None\<close> for the \<open>-1\<close> it returns on a miss.
  \<^item> C strings as lists of characters that end at the first NUL.
  \<^item> Little-endian encodings of 32-bit words.
\<close>

unbundle bit_operations_syntax

type_synonym byte = "8 word"
type_synonym u16 = "16 word"
type_synonym u32 = "32 word"
type_synonym u64 = "64 word"

named_theorems frame \<open>fields an operation leaves unchanged\<close>
named_theorems arith64 \<open>64-bit arithmetic that stays in range\<close>

section \<open>64-bit arithmetic on natural numbers\<close>

definition add64 :: "nat \<Rightarrow> nat \<Rightarrow> nat" where
  "add64 a b = (a + b) mod 2 ^ 64"

definition sub64 :: "nat \<Rightarrow> nat \<Rightarrow> nat" where
  "sub64 a b = (a + 2 ^ 64 - b) mod 2 ^ 64"

text \<open>\<open>x & ~(a - 1)\<close> for a power of two \<open>a\<close>, the rounding the allocators use.\<close>

definition align_down :: "nat \<Rightarrow> nat \<Rightarrow> nat" where
  "align_down a x = x - x mod a"

definition align_up64 :: "nat \<Rightarrow> nat \<Rightarrow> nat" where
  "align_up64 a x = align_down a (add64 x (a - 1))"

lemma add64_exact [arith64]: "a + b < 2 ^ 64 \<Longrightarrow> add64 a b = a + b"
  by (simp add: add64_def)

lemma add64_less [simp]: "add64 a b < 2 ^ 64"
  by (simp add: add64_def)

lemma add64_less_numeral [simp]: "add64 a b < 18446744073709551616"
  using add64_less [of a b] by simp

lemma sub64_exact [arith64]: "b \<le> a \<Longrightarrow> a < 2 ^ 64 \<Longrightarrow> sub64 a b = a - b"
proof -
  assume "b \<le> a" and "a < 2 ^ 64"
  then have "a + 2 ^ 64 - b = (a - b) + 2 ^ 64" by simp
  then have "(a + 2 ^ 64 - b) mod 2 ^ 64 = (a - b) mod 2 ^ 64"
    by (metis mod_add_self2)
  also have "\<dots> = a - b" using \<open>a < 2 ^ 64\<close> by simp
  finally show ?thesis by (simp only: sub64_def)
qed

lemma align_down_dvd [simp, intro]: "a dvd align_down a x"
  by (simp add: align_down_def dvd_minus_mod)

lemma align_down_le [simp]: "align_down a x \<le> x"
  by (simp add: align_down_def)

lemma align_down_gt: "0 < a \<Longrightarrow> x < align_down a x + a"
  using mod_less_divisor [of a x] mod_less_eq_dividend [of x a]
  by (simp add: align_down_def del: mod_less_divisor)

lemma align_down_id [simp]: "a dvd x \<Longrightarrow> align_down a x = x"
  by (simp add: align_down_def)

lemma align_up_ge: "0 < a \<Longrightarrow> x + (a - 1) < 2 ^ 64 \<Longrightarrow> x \<le> align_up64 a x"
  using align_down_gt [of a "x + (a - 1)"] by (simp add: align_up64_def add64_exact)

lemma align_up_lt: "0 < a \<Longrightarrow> x + (a - 1) < 2 ^ 64 \<Longrightarrow> align_up64 a x < x + a"
  using align_down_le [of a "x + (a - 1)"]
  by (simp add: align_up64_def add64_exact del: align_down_le)

lemma align_up_dvd [simp, intro]: "a dvd align_up64 a x"
  by (simp add: align_up64_def)

lemma align_up_id: "a dvd x \<Longrightarrow> 0 < a \<Longrightarrow> x + (a - 1) < 2 ^ 64 \<Longrightarrow> align_up64 a x = x"
proof -
  assume a: "a dvd x" "0 < a" "x + (a - 1) < 2 ^ 64"
  obtain k where k: "x = a * k" using a(1) by (elim dvdE)
  have "(x + (a - 1)) mod a = (a - 1) mod a" by (simp only: k mod_mult_self4)
  then have "(x + (a - 1)) mod a = a - 1" using a(2) by simp
  then show ?thesis using a by (simp add: align_up64_def add64_exact align_down_def)
qed

text \<open>The rounding on numbers is the bit operation of the C source on 64-bit words.\<close>

lemma align_down_is_mask:
  "unat ((x :: u64) AND NOT (mask k)) = align_down (2 ^ k) (unat x)"
proof -
  have split: "x AND NOT (mask k) = push_bit k (drop_bit k x)"
    by (rule bit_word_eqI) (auto simp: bit_simps)
  have "unat (take_bit k x) = unat x mod 2 ^ k"
    by (simp add: unsigned_take_bit_eq flip: take_bit_eq_mod)
  moreover have "take_bit k x \<le> x"
    by (metis calculation mod_less_eq_dividend word_le_nat_alt)
  moreover have "x AND NOT (mask k) = x - take_bit k x"
    by (metis split add_diff_cancel_right' bits_ident)
  ultimately show ?thesis
    by (simp add: align_down_def unat_sub)
qed

text \<open>Positions in a ring of \<open>N\<close> places, counted from \<open>a\<close>.\<close>

lemma ring_inj:
  assumes "i < N" "j < N" "(a + i) mod N = (a + j) mod (N :: nat)"
  shows "i = j"
proof (rule ccontr)
  assume "i \<noteq> j"
  then have "N dvd (if i < j then j - i else i - j)" "0 < (if i < j then j - i else i - j)"
    using mod_eq_dvd_iff_nat [of "a + i" "a + j" N] mod_eq_dvd_iff_nat [of "a + j" "a + i" N] assms(3)
    by (auto split: if_splits)
  then have "N \<le> (if i < j then j - i else i - j)" by (rule dvd_imp_le)
  then show False using assms(1,2) by (auto split: if_splits)
qed

section \<open>Linear scans\<close>

fun first_index :: "('a \<Rightarrow> bool) \<Rightarrow> 'a list \<Rightarrow> nat option" where
  "first_index P [] = None"
| "first_index P (x # xs) = (if P x then Some 0 else map_option Suc (first_index P xs))"

lemma first_index_None: "first_index P xs = None \<longleftrightarrow> (\<forall>x\<in>set xs. \<not> P x)"
  by (induction xs) auto

lemma first_index_Some:
  "first_index P xs = Some i \<longleftrightarrow> i < length xs \<and> P (xs ! i) \<and> (\<forall>j<i. \<not> P (xs ! j))"
proof (induction xs arbitrary: i)
  case Nil
  then show ?case by simp
next
  case (Cons x xs)
  then show ?case
    by (cases i) (auto simp: less_Suc_eq_0_disj)
qed

lemma first_indexD:
  assumes "first_index P xs = Some i"
  shows "i < length xs" "P (xs ! i)" "\<And>j. j < i \<Longrightarrow> \<not> P (xs ! j)"
  using assms by (auto simp: first_index_Some)

lemma first_index_ex: "x \<in> set xs \<Longrightarrow> P x \<Longrightarrow> \<exists>i. first_index P xs = Some i"
  by (cases "first_index P xs") (auto simp: first_index_None)

lemma first_index_cong:
  "length xs = length ys \<Longrightarrow> (\<And>i. i < length xs \<Longrightarrow> P (xs ! i) = Q (ys ! i)) \<Longrightarrow>
   first_index P xs = first_index Q ys"
proof (induction xs ys rule: list_induct2)
  case Nil
  then show ?case by simp
next
  case (Cons x xs y ys)
  have "P x = Q y" using Cons.prems [of 0] by simp
  moreover have "first_index P xs = first_index Q ys"
    using Cons.prems [of "Suc _"] by (intro Cons.IH) force
  ultimately show ?case by simp
qed

lemma bex_nth: "(\<exists>x\<in>set xs. P x) \<longleftrightarrow> (\<exists>i<length xs. P (xs ! i))"
  by (metis in_set_conv_nth)

section \<open>C strings\<close>

text \<open>The string held by a character array: everything before the first NUL.\<close>

abbreviation NUL :: char where
  "NUL \<equiv> CHR 0x00"

definition cstr :: "char list \<Rightarrow> char list" where
  "cstr buf = takeWhile (\<lambda>c. c \<noteq> NUL) buf"

text \<open>
  The comparison loop \<open>while (*a && *b) { if (*a != *b) return 0; a++; b++; } return *a == *b;\<close>
  that \<open>tmpfs.c\<close> (\<open>name_eq\<close>), \<open>osfs2.c\<close> (\<open>str_eq\<close>) and \<open>vfs.c\<close>
  (\<open>strings_equal\<close>) each carry a copy of.  The end of a list stands for the NUL that ends the
  C string.
\<close>

fun name_eq :: "char list \<Rightarrow> char list \<Rightarrow> bool" where
  "name_eq [] [] = True"
| "name_eq [] (b # bs) = (b = NUL)"
| "name_eq (a # as) [] = (a = NUL)"
| "name_eq (a # as) (b # bs) =
     (if a \<noteq> NUL \<and> b \<noteq> NUL then (if a \<noteq> b then False else name_eq as bs) else a = b)"

lemma name_eq_iff: "name_eq a b \<longleftrightarrow> cstr a = cstr b"
  by (induction a b rule: name_eq.induct) (auto simp: cstr_def)

lemma cstr_id: "NUL \<notin> set s \<Longrightarrow> cstr s = s"
  by (auto simp: cstr_def takeWhile_eq_all_conv)

lemma cstr_append_NUL [simp]: "NUL \<notin> set s \<Longrightarrow> cstr (s @ NUL # t) = s"
  by (induction s) (auto simp: cstr_def)

lemma NUL_notin_cstr [simp]: "NUL \<notin> set (cstr s)"
  by (auto simp: cstr_def dest: set_takeWhileD)

section \<open>Words as numbers\<close>

lemma unat_eq_0 [simp]: "unat (w :: 'a :: len word) = 0 \<longleftrightarrow> w = 0"
  by (rule unsigned_eq_0_iff)

lemma unat_eq_1 [simp]: "unat (w :: 'a :: len word) = Suc 0 \<longleftrightarrow> w = 1"
  by (metis One_nat_def unsigned_1 word_unat_eq_iff)

lemma word_less_2: "\<not> 2 \<le> (c :: u16) \<longleftrightarrow> c = 0 \<or> c = 1"
  by (auto simp: word_le_nat_alt not_le less_2_cases_iff)

section \<open>Little-endian words\<close>

definition le32_bytes :: "u32 \<Rightarrow> byte list" where
  "le32_bytes w = [ucast w, ucast (drop_bit 8 w), ucast (drop_bit 16 w), ucast (drop_bit 24 w)]"

definition le32_of :: "byte \<Rightarrow> byte \<Rightarrow> byte \<Rightarrow> byte \<Rightarrow> u32" where
  "le32_of b0 b1 b2 b3 =
     ucast b0 OR push_bit 8 (ucast b1) OR push_bit 16 (ucast b2) OR push_bit 24 (ucast b3)"

definition le32_at :: "byte list \<Rightarrow> nat \<Rightarrow> u32" where
  "le32_at bs off = le32_of (bs ! off) (bs ! (off + 1)) (bs ! (off + 2)) (bs ! (off + 3))"

lemma le32_roundtrip [simp]:
  "le32_of (ucast w) (ucast (drop_bit 8 w)) (ucast (drop_bit 16 w)) (ucast (drop_bit 24 w)) = w"
proof (rule bit_word_eqI)
  fix n assume n: "n < LENGTH(32)"
  have "n < 8 \<or> 8 \<le> n \<and> n < 16 \<or> 16 \<le> n \<and> n < 24 \<or> 24 \<le> n \<and> n < 32"
    using n by auto
  then show "bit (le32_of (ucast w) (ucast (drop_bit 8 w)) (ucast (drop_bit 16 w))
               (ucast (drop_bit 24 w))) n = bit w n"
    by (elim disjE) (auto simp: le32_of_def bit_simps)
qed

lemma length_le32_bytes [simp]: "length (le32_bytes w) = 4"
  by (simp add: le32_bytes_def)

lemma le32_at_bytes:
  "off = length xs \<Longrightarrow> le32_at (xs @ le32_bytes w @ ys) off = w"
  by (simp add: le32_at_def le32_bytes_def nth_append)

lemma le32_bytes_inj [simp]: "le32_bytes v = le32_bytes w \<longleftrightarrow> v = w"
  by (metis append_Nil append_Nil2 le32_at_bytes list.size(3))

section \<open>Lists updated by index\<close>

lemma take_drop_update: "i < length xs \<Longrightarrow> xs[i := x] = take i xs @ x # drop (Suc i) xs"
  by (rule upd_conv_take_nth_drop)

text \<open>Overwriting a run of elements, the copy loops \<open>for (i < n) dst[off + i] = src[i]\<close>.\<close>

definition splice :: "'a list \<Rightarrow> nat \<Rightarrow> 'a list \<Rightarrow> 'a list" where
  "splice dst off src = take off dst @ src @ drop (off + length src) dst"

lemma length_splice [simp]: "off + length src \<le> length dst \<Longrightarrow> length (splice dst off src) = length dst"
  by (simp add: splice_def)

lemma nth_splice:
  "off + length src \<le> length dst \<Longrightarrow> i < length dst \<Longrightarrow>
   splice dst off src ! i = (if off \<le> i \<and> i < off + length src then src ! (i - off) else dst ! i)"
  by (auto simp: splice_def nth_append min_def)

lemma splice_same [simp]: "off + length src \<le> length dst \<Longrightarrow>
   take (length src) (drop off (splice dst off src)) = src"
  by (simp add: splice_def)

lemma take_splice: "off \<le> length dst \<Longrightarrow> n \<le> off \<Longrightarrow> take n (splice dst off src) = take n dst"
  by (simp add: splice_def min_def)

end
