(* ===== verification/Contracts.thy ===== *)
theory Contracts
  imports Prelude
begin

text \<open>
  The contracts the components rely on, as locales.  Each provider interprets its contract on its
  own definitions, in its own theory; each client takes the facts it needs from that
  interpretation.

  \<^item> \<open>allocator\<close>: \<open>kmalloc\<close>/\<open>kfree\<close> as the clients of the heap see them: a set of live
    regions that are pairwise disjoint, grown by an allocation and shrunk by a free.
  \<^item> \<open>fifo\<close>: a bounded first-in first-out queue, the ring of a pipe, the message queues of the
    service layer and the socket buffers of TCP.
  \<^item> \<open>block_reader\<close>, \<open>block_store\<close>: keyed blocks behind a cache.  The view is what a client
    can read back; a failed operation leaves it as it was.
\<close>

section \<open>A memory allocator\<close>

locale allocator =
  fixes alloc :: "'h \<Rightarrow> nat \<Rightarrow> ('h \<times> nat) option"
    and free :: "'h \<Rightarrow> nat \<Rightarrow> 'h option"
    and live :: "'h \<Rightarrow> (nat \<times> nat) set \<Rightarrow> bool"
  assumes alloc_cases:
      "live h R \<Longrightarrow> 0 < n \<Longrightarrow> n + 31 < 2 ^ 64 \<Longrightarrow>
       alloc h n = Some (h, 0) \<or>
       (\<exists>h' p k. alloc h n = Some (h', p) \<and> p \<noteq> 0 \<and> n \<le> k \<and> (p, k) \<notin> R \<and> live h' (insert (p, k) R))"
    and free_live: "live h R \<Longrightarrow> (p, k) \<in> R \<Longrightarrow> \<exists>h'. free h p = Some h' \<and> live h' (R - {(p, k)})"
    and free_null: "free h 0 = Some h"
    and live_disjoint: "live h R \<Longrightarrow> (p, k) \<in> R \<Longrightarrow> (q, l) \<in> R \<Longrightarrow> (p, k) \<noteq> (q, l) \<Longrightarrow>
       p + k \<le> q \<or> q + l \<le> p"
    and live_nonempty: "live h R \<Longrightarrow> (p, k) \<in> R \<Longrightarrow> p \<noteq> 0 \<and> 0 < k"
begin

text \<open>A live pointer names one region.\<close>

lemma live_pointer: "live h R \<Longrightarrow> (p, k) \<in> R \<Longrightarrow> (p, l) \<in> R \<Longrightarrow> k = l"
  using live_disjoint [of h R p k p l] live_nonempty [of h R p k] live_nonempty [of h R p l] by auto

text \<open>An allocation always returns; a pointer it hands out is none of the live ones.\<close>

lemma alloc_returns:
  assumes "live h R" "0 < n" "n + 31 < 2 ^ 64"
  obtains "alloc h n = Some (h, 0)"
  | h' p k where "alloc h n = Some (h', p)" "p \<noteq> 0" "n \<le> k" "live h' (insert (p, k) R)" "p \<notin> fst ` R"
proof -
  note alloc_cases [OF assms]
  then show thesis
  proof
    assume "alloc h n = Some (h, 0)"
    then show thesis by (rule that(1))
  next
    assume "\<exists>h' p k. alloc h n = Some (h', p) \<and> p \<noteq> 0 \<and> n \<le> k \<and> (p, k) \<notin> R \<and> live h' (insert (p, k) R)"
    then obtain h' p k where a: "alloc h n = Some (h', p)" "p \<noteq> 0" "n \<le> k" "(p, k) \<notin> R"
      "live h' (insert (p, k) R)" by blast
    have "p \<notin> fst ` R"
    proof
      assume "p \<in> fst ` R"
      then obtain l where "(p, l) \<in> R" by auto
      then have "k = l" using live_pointer [OF a(5), of p k l] by simp
      then show False using a(4) \<open>(p, l) \<in> R\<close> by simp
    qed
    then show thesis by (intro that(2) [of h' p k]) (use a in auto)
  qed
qed

text \<open>Giving back what was just allocated restores the live set.\<close>

lemma alloc_then_free:
  assumes "live h R" "0 < n" "n + 31 < 2 ^ 64" "alloc h n = Some (h', p)"
  shows "\<exists>h''. free h' p = Some h'' \<and> live h'' R"
  using assms(1-3)
proof (cases rule: alloc_returns)
  case 1
  then show ?thesis using assms by (auto simp: free_null)
next
  case (2 h1 q k)
  have "(q, k) \<notin> R" using 2(5) by force
  then show ?thesis using free_live [OF 2(4), of q k] 2(1) assms(4) by auto
qed

end

section \<open>A bounded queue\<close>

locale fifo =
  fixes ok :: "'q \<Rightarrow> bool"
    and contents :: "'q \<Rightarrow> 'a list"
    and cap :: nat
    and push :: "'a list \<Rightarrow> 'q \<Rightarrow> 'q"
    and pop :: "nat \<Rightarrow> 'q \<Rightarrow> 'a list \<times> 'q"
  assumes push_ok: "ok q \<Longrightarrow> length (contents q) + length xs \<le> cap \<Longrightarrow> ok (push xs q)"
    and push_contents: "ok q \<Longrightarrow> length (contents q) + length xs \<le> cap \<Longrightarrow>
       contents (push xs q) = contents q @ xs"
    and pop_ok: "ok q \<Longrightarrow> n \<le> length (contents q) \<Longrightarrow> ok (snd (pop n q))"
    and pop_result: "ok q \<Longrightarrow> n \<le> length (contents q) \<Longrightarrow> fst (pop n q) = take n (contents q)"
    and pop_contents: "ok q \<Longrightarrow> n \<le> length (contents q) \<Longrightarrow>
       contents (snd (pop n q)) = drop n (contents q)"
begin

text \<open>
  Any sequence of insertions and removals that the queue has room and elements for, with what went
  in and what came out.
\<close>

inductive runs :: "'q \<Rightarrow> 'a list \<Rightarrow> 'a list \<Rightarrow> 'q \<Rightarrow> bool" where
  nil: "runs q [] [] q"
| put: "runs q ins outs q' \<Longrightarrow> length (contents q') + length xs \<le> cap \<Longrightarrow>
    runs q (ins @ xs) outs (push xs q')"
| get: "runs q ins outs q' \<Longrightarrow> n \<le> length (contents q') \<Longrightarrow> pop n q' = (ys, q'') \<Longrightarrow>
    runs q ins (outs @ ys) q''"

text \<open>Nothing is lost, invented, reordered or duplicated: what was in the queue and what went in is
  what came out followed by what is still there.\<close>

lemma stream:
  "runs q ins outs q' \<Longrightarrow> ok q \<Longrightarrow> ok q' \<and> contents q @ ins = outs @ contents q'"
proof (induction rule: runs.induct)
  case (nil q)
  then show ?case by simp
next
  case (put q ins outs q' xs)
  then show ?case by (simp add: push_ok push_contents flip: append_assoc)
next
  case (get q ins outs q' n ys q'')
  then have "ok q''" "ys = take n (contents q')" "contents q'' = drop n (contents q')"
    using pop_ok [of q' n] pop_result [of q' n] pop_contents [of q' n] by auto
  then show ?case using get by simp
qed

lemma push_then_pop:
  "ok q \<Longrightarrow> contents q = [] \<Longrightarrow> length xs \<le> cap \<Longrightarrow> fst (pop (length xs) (push xs q)) = xs"
  by (simp add: pop_result push_ok push_contents)

end

section \<open>Blocks behind a cache\<close>

text \<open>
  \<open>adm\<close> are the keys a client may use; the load reports failure by \<open>None\<close>, the store by
  \<open>False\<close>.
\<close>

locale block_reader =
  fixes ok :: "'s \<Rightarrow> bool"
    and adm :: "'s \<Rightarrow> 'k \<Rightarrow> bool"
    and view :: "'s \<Rightarrow> 'k \<Rightarrow> 'v"
    and load :: "'s \<Rightarrow> 'k \<Rightarrow> 's \<times> 'v option"
  assumes read_ok: "ok s \<Longrightarrow> adm s k \<Longrightarrow> ok (fst (load s k)) \<and> adm (fst (load s k)) = adm s"
    and read_view: "ok s \<Longrightarrow> adm s k \<Longrightarrow> adm s q \<Longrightarrow> view (fst (load s k)) q = view s q"
    and read_value: "ok s \<Longrightarrow> adm s k \<Longrightarrow> snd (load s k) = Some v \<Longrightarrow> v = view s k"
begin

text \<open>Reads in any number and order return the same data.\<close>

fun reads :: "'s \<Rightarrow> 'k list \<Rightarrow> 's \<times> ('k \<times> 'v option) list" where
  "reads s [] = (s, [])"
| "reads s (k # ks) =
     (let (s1, r) = load s k; (s2, rs) = reads s1 ks in (s2, (k, r) # rs))"

lemma reads_stable:
  "ok s \<Longrightarrow> \<forall>k\<in>set ks. adm s k \<Longrightarrow>
   ok (fst (reads s ks)) \<and> adm (fst (reads s ks)) = adm s \<and>
   (\<forall>q. adm s q \<longrightarrow> view (fst (reads s ks)) q = view s q) \<and>
   (\<forall>(k, r)\<in>set (snd (reads s ks)). r = None \<or> r = Some (view s k))"
proof (induction ks arbitrary: s)
  case Nil
  then show ?case by simp
next
  case (Cons k ks)
  let ?s = "fst (load s k)"
  have k: "adm s k" and ks: "\<forall>q\<in>set ks. adm s q" using Cons.prems(2) by simp_all
  note r = read_ok [OF Cons.prems(1) k]
  have v: "\<And>q. adm s q \<Longrightarrow> view ?s q = view s q" using read_view [OF Cons.prems(1) k] .
  have ih: "ok (fst (reads ?s ks)) \<and> adm (fst (reads ?s ks)) = adm ?s \<and>
      (\<forall>q. adm ?s q \<longrightarrow> view (fst (reads ?s ks)) q = view ?s q) \<and>
      (\<forall>(k, r)\<in>set (snd (reads ?s ks)). r = None \<or> r = Some (view ?s k))"
    using Cons.IH [of ?s] r ks by simp
  have "k' \<in> set ks" if "(k', r') \<in> set (snd (reads s' ks'))" "set ks' \<subseteq> set ks" for k' r' s' ks'
    using that by (induction ks' arbitrary: s') (auto simp: case_prod_beta Let_def)
  then have "\<forall>(k', r')\<in>set (snd (reads ?s ks)). r' = None \<or> r' = Some (view s k')"
    using ih ks v by (auto split: prod.splits)
  moreover have "snd (load s k) = None \<or> snd (load s k) = Some (view s k)"
    using read_value [OF Cons.prems(1) k] by (cases "snd (load s k)") auto
  ultimately show ?case using ih r v by (auto simp: case_prod_beta Let_def)
qed

end

locale block_store = block_reader ok adm view load
  for ok :: "'s \<Rightarrow> bool" and adm :: "'s \<Rightarrow> 'k \<Rightarrow> bool" and view :: "'s \<Rightarrow> 'k \<Rightarrow> 'v"
    and load :: "'s \<Rightarrow> 'k \<Rightarrow> 's \<times> 'v option" +
  fixes fits :: "'v \<Rightarrow> bool"
    and store :: "'s \<Rightarrow> 'k \<Rightarrow> 'v \<Rightarrow> 's \<times> bool"
  assumes write_ok: "ok s \<Longrightarrow> adm s k \<Longrightarrow> fits v \<Longrightarrow> ok (fst (store s k v)) \<and> adm (fst (store s k v)) = adm s"
    and write_view: "ok s \<Longrightarrow> adm s k \<Longrightarrow> fits v \<Longrightarrow> adm s q \<Longrightarrow>
       view (fst (store s k v)) q = (if snd (store s k v) \<and> q = k then v else view s q)"
begin

text \<open>A block is read, changed and written back: the pattern of every metadata update.\<close>

definition rmw :: "('v \<Rightarrow> 'v) \<Rightarrow> 's \<Rightarrow> 'k \<Rightarrow> 's \<times> bool" where
  "rmw f s k =
     (let (s1, r) = load s k in case r of None \<Rightarrow> (s1, False) | Some v \<Rightarrow> store s1 k (f v))"

lemma rmw_effect:
  assumes "ok s" "adm s k" "fits (f (view s k))" "adm s q"
  shows "ok (fst (rmw f s k)) \<and> adm (fst (rmw f s k)) = adm s \<and>
    view (fst (rmw f s k)) q = (if snd (rmw f s k) \<and> q = k then f (view s k) else view s q)"
proof (cases "snd (load s k)")
  case None
  then show ?thesis
    using read_ok [OF assms(1,2)] read_view [OF assms(1,2,4)] by (simp add: rmw_def case_prod_beta)
next
  case (Some v)
  then have v: "v = view s k" using read_value [OF assms(1,2)] by simp
  let ?s = "fst (load s k)"
  have s: "ok ?s" "adm ?s = adm s" using read_ok [OF assms(1,2)] by simp_all
  show ?thesis
    using Some v write_ok [OF s(1), of k "f v"] write_view [OF s(1), of k "f v" q] s assms
      read_view [OF assms(1,2,4)]
    by (simp add: rmw_def case_prod_beta)
qed

lemma read_after_write:
  assumes "ok s" "adm s k" "fits v" "snd (store s k v)" "snd (load (fst (store s k v)) k) = Some w"
  shows "w = v"
  using write_ok [OF assms(1-3)] write_view [OF assms(1-3,2)] assms(2,4,5)
    read_value [of "fst (store s k v)" k w] by simp

end

end
