(* ===== verification/Heap.thy ===== *)
theory Heap
  imports Contracts
begin

text \<open>
  The kernel heap, \<open>kernel/core/heap.c\<close>: first fit over an implicit list of blocks, with
  forward and backward coalescing on free.

  A block is the 16-byte header that starts it (\<open>struct block\<close>); \<open>hdr\<close> maps an address
  to the header stored there, and the heap region is \<open>[heap_start, heap_end)\<close>.  Addresses and
  sizes are natural numbers; the one expression that can leave the 64-bit range, the rounding of
  the request in \<open>kmalloc\<close>, is written with the wrap-around.  A walk over the list does not
  end when a header holds size 0, so the walks are partial functions whose value \<open>None\<close> is
  "does not return"; a pointer result 0 is \<open>NULL\<close>.

  \<open>heap_rep h bs\<close> says that the headers of \<open>h\<close> lay out the abstract block list \<open>bs\<close>
  (sizes and in-use flags).  The lemmas show that \<open>kmalloc\<close> and \<open>kfree\<close> return, and
  compute \<open>afit\<close> and \<open>afree\<close> of that list.
\<close>

section \<open>The code\<close>

record block =
  total_size :: nat
  prev_size :: nat

record heap =
  heap_start :: nat
  heap_end :: nat
  hdr :: "nat \<Rightarrow> block"

abbreviation (input) HEADER_SIZE :: nat where
  "HEADER_SIZE \<equiv> 16"

abbreviation (input) MIN_BLOCK_SIZE :: nat where
  "MIN_BLOCK_SIZE \<equiv> 32"

definition blk_in_use :: "heap \<Rightarrow> nat \<Rightarrow> bool" where
  "blk_in_use h b = odd (total_size (hdr h b))"

definition blk_size :: "heap \<Rightarrow> nat \<Rightarrow> nat" where
  "blk_size h b = total_size (hdr h b) - total_size (hdr h b) mod 2"

definition blk_set :: "heap \<Rightarrow> nat \<Rightarrow> nat \<Rightarrow> bool \<Rightarrow> heap" where
  "blk_set h b sz in_use =
     h\<lparr>hdr := (hdr h)(b := (hdr h b)\<lparr>total_size := sz OR (if in_use then 1 else 0)\<rparr>)\<rparr>"

definition set_prev :: "heap \<Rightarrow> nat \<Rightarrow> nat \<Rightarrow> heap" where
  "set_prev h b sz = h\<lparr>hdr := (hdr h)(b := (hdr h b)\<lparr>prev_size := sz\<rparr>)\<rparr>"

definition blk_next :: "heap \<Rightarrow> nat \<Rightarrow> nat option" where
  "blk_next h b = (let p = b + blk_size h b in if p \<ge> heap_end h then None else Some p)"

definition blk_prev :: "heap \<Rightarrow> nat \<Rightarrow> nat option" where
  "blk_prev h b = (if prev_size (hdr h b) = 0 then None else Some (b - prev_size (hdr h b)))"

definition blk_payload :: "nat \<Rightarrow> nat" where
  "blk_payload b = b + HEADER_SIZE"

definition blk_from_payload :: "nat \<Rightarrow> nat" where
  "blk_from_payload p = p - HEADER_SIZE"

text \<open>\<open>None\<close>: a region smaller than one block stops the boot in a \<open>wfe\<close> loop.\<close>

definition kheap_init :: "heap \<Rightarrow> nat \<Rightarrow> nat \<Rightarrow> heap option" where
  "kheap_init h base sz =
     (if sz < MIN_BLOCK_SIZE then None
      else let h1 = h\<lparr>heap_start := base, heap_end := base + sz\<rparr>;
               h2 = blk_set h1 base sz False
           in Some (set_prev h2 base 0))"

text \<open>The size a request is rounded to; the sum with \<open>HEADER_SIZE\<close> and the rounding wrap.\<close>

definition kmalloc_need :: "nat \<Rightarrow> nat" where
  "kmalloc_need sz =
     (let need = align_up64 16 (add64 sz HEADER_SIZE)
      in if need < MIN_BLOCK_SIZE then MIN_BLOCK_SIZE else need)"

text \<open>What \<open>kmalloc\<close> does with the first block that fits: split it, or take all of it.\<close>

definition take_block :: "heap \<Rightarrow> nat \<Rightarrow> nat \<Rightarrow> heap" where
  "take_block h b need =
     (let bsize = blk_size h b in
      if bsize \<ge> need + MIN_BLOCK_SIZE then
        let tail = b + need;
            h1 = blk_set h tail (bsize - need) False;
            h2 = set_prev h1 tail need;
            h3 = blk_set h2 b need True
        in (case blk_next h3 tail of
              None \<Rightarrow> h3
            | Some after_tail \<Rightarrow> set_prev h3 after_tail (blk_size h3 tail))
      else blk_set h b bsize True)"

partial_function (option) kmalloc_walk :: "heap \<Rightarrow> nat \<Rightarrow> nat option \<Rightarrow> (heap \<times> nat) option" where
  "kmalloc_walk h need cur =
     (case cur of
        None \<Rightarrow> Some (h, 0)
      | Some b \<Rightarrow>
          if blk_in_use h b then kmalloc_walk h need (blk_next h b)
          else if blk_size h b < need then kmalloc_walk h need (blk_next h b)
          else Some (take_block h b need, blk_payload b))"

definition kmalloc :: "heap \<Rightarrow> nat \<Rightarrow> (heap \<times> nat) option" where
  "kmalloc h sz =
     (if sz = 0 then Some (h, 0)
      else kmalloc_walk h (kmalloc_need sz) (Some (heap_start h)))"

text \<open>
  The tail both coalescing steps of \<open>kfree\<close> share: block \<open>b\<close> becomes free with size
  \<open>merged\<close>, and the block after it, if there is one, records that size.
\<close>

definition absorb :: "heap \<Rightarrow> nat \<Rightarrow> nat \<Rightarrow> heap" where
  "absorb h b merged =
     (let h1 = blk_set h b merged False
      in (case blk_next h1 b of None \<Rightarrow> h1 | Some after \<Rightarrow> set_prev h1 after merged))"

definition coalesce_next :: "heap \<Rightarrow> nat \<Rightarrow> heap" where
  "coalesce_next h b =
     (case blk_next h b of
        None \<Rightarrow> h
      | Some nxt \<Rightarrow>
          if blk_in_use h nxt then h else absorb h b (blk_size h b + blk_size h nxt))"

definition coalesce_prev :: "heap \<Rightarrow> nat \<Rightarrow> heap" where
  "coalesce_prev h b =
     (case blk_prev h b of
        None \<Rightarrow> h
      | Some prev \<Rightarrow>
          if blk_in_use h prev then h else absorb h prev (blk_size h prev + blk_size h b))"

text \<open>\<open>None\<close>: a pointer outside the region panics and stops in a \<open>wfe\<close> loop.\<close>

definition kfree :: "heap \<Rightarrow> nat \<Rightarrow> heap option" where
  "kfree h ptr =
     (if ptr = 0 then Some h
      else if ptr < heap_start h \<or> ptr \<ge> heap_end h then None
      else let b = blk_from_payload ptr;
               h1 = blk_set h b (blk_size h b) False;
               h2 = coalesce_next h1 b
           in Some (coalesce_prev h2 b))"

partial_function (option) used_walk :: "heap \<Rightarrow> nat \<Rightarrow> nat option \<Rightarrow> nat option" where
  "used_walk h used cur =
     (case cur of
        None \<Rightarrow> Some used
      | Some b \<Rightarrow>
          used_walk h (if blk_in_use h b then used + (blk_size h b - HEADER_SIZE) else used)
            (blk_next h b))"

definition kheap_used :: "heap \<Rightarrow> nat option" where
  "kheap_used h = used_walk h 0 (Some (heap_start h))"

partial_function (option) count_walk :: "heap \<Rightarrow> nat \<Rightarrow> nat option \<Rightarrow> nat option" where
  "count_walk h n cur =
     (case cur of None \<Rightarrow> Some n | Some b \<Rightarrow> count_walk h (n + 1) (blk_next h b))"

definition kheap_block_count :: "heap \<Rightarrow> nat option" where
  "kheap_block_count h = count_walk h 0 (Some (heap_start h))"

section \<open>The abstract block list\<close>

text \<open>An abstract block is its size (header included) and whether it is in use.\<close>

type_synonym ablk = "nat \<times> bool"

definition offset :: "ablk list \<Rightarrow> nat" where
  "offset xs = sum_list (map fst xs)"

text \<open>The headers from address \<open>a\<close> up to address \<open>e\<close> spell out \<open>bs\<close>, the first one
  recording \<open>p\<close> as the size of its predecessor.\<close>

fun tiles :: "heap \<Rightarrow> nat \<Rightarrow> nat \<Rightarrow> ablk list \<Rightarrow> nat \<Rightarrow> bool" where
  "tiles h a p [] e = (a = e)"
| "tiles h a p ((s, u) # bs) e =
     (hdr h a = \<lparr>total_size = s + (if u then 1 else 0), prev_size = p\<rparr> \<and>
      16 dvd s \<and> 32 \<le> s \<and> tiles h (a + s) s bs e)"

definition heap_rep :: "heap \<Rightarrow> ablk list \<Rightarrow> bool" where
  "heap_rep h bs \<longleftrightarrow> 16 dvd heap_start h \<and> 16 \<le> heap_start h \<and> heap_end h < 2 ^ 64 \<and>
     bs \<noteq> [] \<and> tiles h (heap_start h) 0 bs (heap_end h)"

text \<open>First fit on the list: the offset of the chosen block and the list afterwards.\<close>

definition split_blk :: "nat \<Rightarrow> nat \<Rightarrow> ablk list \<Rightarrow> ablk list" where
  "split_blk need s bs =
     (if s \<ge> need + 32 then (need, True) # (s - need, False) # bs else (s, True) # bs)"

fun afit :: "nat \<Rightarrow> ablk list \<Rightarrow> (nat \<times> ablk list) option" where
  "afit need [] = None"
| "afit need ((s, u) # bs) =
     (if u \<or> s < need then map_option (\<lambda>(off, bs'). (s + off, (s, u) # bs')) (afit need bs)
      else Some (0, split_blk need s bs))"

text \<open>Freeing the block between \<open>xs\<close> and \<open>ys\<close>, merging it with free neighbours.\<close>

fun merge_next :: "nat \<Rightarrow> ablk list \<Rightarrow> ablk list" where
  "merge_next s ((t, False) # ys) = (s + t, False) # ys"
| "merge_next s ys = (s, False) # ys"

fun merge_prev :: "ablk list \<Rightarrow> ablk list \<Rightarrow> ablk list" where
  "merge_prev [] zs = zs"
| "merge_prev [(r, False)] ((m, u) # zs) = (r + m, False) # zs"
| "merge_prev [(r, True)] zs = (r, True) # zs"
| "merge_prev (x # y # xs) zs = x # merge_prev (y # xs) zs"
| "merge_prev [(r, False)] [] = [(r, False)]"

definition afree :: "ablk list \<Rightarrow> nat \<Rightarrow> ablk list \<Rightarrow> ablk list" where
  "afree xs s ys = merge_prev xs (merge_next s ys)"

text \<open>No two free blocks are neighbours: what complete coalescing keeps true.\<close>

abbreviation coalesced :: "ablk list \<Rightarrow> bool" where
  "coalesced bs \<equiv> successively (\<lambda>b c. snd b \<or> snd c) bs"

section \<open>Reading and writing one header\<close>

definition blk_at :: "heap \<Rightarrow> nat \<Rightarrow> nat \<Rightarrow> bool \<Rightarrow> nat \<Rightarrow> bool" where
  "blk_at h a s u p \<longleftrightarrow>
     hdr h a = \<lparr>total_size = s + (if u then 1 else 0), prev_size = p\<rparr> \<and> 16 dvd s"

lemma even_of_16: "16 dvd (s::nat) \<Longrightarrow> even s"
  by (metis dvd_trans even_numeral)

lemma blk_at_size: "blk_at h a s u p \<Longrightarrow> blk_size h a = s"
  by (auto simp: blk_at_def blk_size_def dest!: even_of_16)

lemma blk_at_in_use: "blk_at h a s u p \<Longrightarrow> blk_in_use h a = u"
  by (auto simp: blk_at_def blk_in_use_def dest!: even_of_16)

lemma blk_at_prev: "blk_at h a s u p \<Longrightarrow> prev_size (hdr h a) = p"
  by (auto simp: blk_at_def)

lemma or_one_even: "even (s::nat) \<Longrightarrow> s OR 1 = s + 1"
  by (simp add: or_Suc_0_eq)

lemma blk_set_at:
  "16 dvd s \<Longrightarrow> prev_size (hdr h a) = p \<Longrightarrow> blk_at (blk_set h a s u) a s u p"
  by (cases "hdr h a") (auto simp: blk_at_def blk_set_def or_Suc_0_eq dest!: even_of_16)

lemma set_prev_at: "blk_at h a s u p \<Longrightarrow> blk_at (set_prev h a q) a s u q"
  by (auto simp: blk_at_def set_prev_def)

lemma blk_set_frame [frame]:
  "x \<noteq> a \<Longrightarrow> hdr (blk_set h a s u) x = hdr h x"
  "heap_start (blk_set h a s u) = heap_start h" "heap_end (blk_set h a s u) = heap_end h"
  by (simp_all add: blk_set_def)

lemma set_prev_frame [frame]:
  "x \<noteq> a \<Longrightarrow> hdr (set_prev h a q) x = hdr h x"
  "heap_start (set_prev h a q) = heap_start h" "heap_end (set_prev h a q) = heap_end h"
  by (simp_all add: set_prev_def)

lemma blk_at_cong: "hdr h' a = hdr h a \<Longrightarrow> blk_at h' a s u p = blk_at h a s u p"
  by (simp add: blk_at_def)

section \<open>Tilings\<close>

lemma offset_simps [simp]:
  "offset [] = 0" "offset (b # bs) = fst b + offset bs"
  "offset (xs @ ys) = offset xs + offset ys"
  by (simp_all add: offset_def)

lemma tiles_Cons:
  "tiles h a p ((s, u) # bs) e \<longleftrightarrow> blk_at h a s u p \<and> 32 \<le> s \<and> tiles h (a + s) s bs e"
  by (auto simp: blk_at_def)

declare tiles.simps(2) [simp del]
declare tiles_Cons [simp]

lemma tiles_end: "tiles h a p bs e \<Longrightarrow> e = a + offset bs"
proof (induction bs arbitrary: a p)
  case Nil
  then show ?case by simp
next
  case (Cons b bs)
  obtain s u where b: "b = (s, u)" by force
  from Cons.prems have "tiles h (a + s) s bs e" by (simp add: b)
  then have "e = a + s + offset bs" by (rule Cons.IH)
  then show ?case by (simp add: b)
qed

lemma tiles_empty: "tiles h a p bs e \<Longrightarrow> bs = [] \<longleftrightarrow> e \<le> a"
proof (cases bs)
  case (Cons b cs)
  assume t: "tiles h a p bs e"
  obtain s u where "b = (s, u)" by force
  then have "32 \<le> s" and "e = a + (s + offset cs)"
    using t tiles_end [OF t] by (auto simp: Cons)
  then show ?thesis by (simp add: Cons)
qed simp

definition last_size :: "nat \<Rightarrow> ablk list \<Rightarrow> nat" where
  "last_size p xs = (if xs = [] then p else fst (last xs))"

lemma last_size_simps [simp]:
  "last_size p [] = p" "last_size p ((s, u) # xs) = last_size s xs"
  "last_size p (xs @ [(s, u)]) = s"
  by (auto simp: last_size_def)

lemma tiles_append:
  "tiles h a p (xs @ ys) e \<longleftrightarrow>
     tiles h a p xs (a + offset xs) \<and> tiles h (a + offset xs) (last_size p xs) ys e"
  by (induction xs arbitrary: a p) (auto simp: add.assoc)

lemma tiles_frame:
  "tiles h a p bs e \<Longrightarrow> (\<And>x. a \<le> x \<Longrightarrow> x < e \<Longrightarrow> hdr h' x = hdr h x) \<Longrightarrow> tiles h' a p bs e"
proof (induction bs arbitrary: a p)
  case Nil
  then show ?case by simp
next
  case (Cons b bs)
  obtain s u where b: "b = (s, u)" by force
  have "e = a + s + offset bs" "32 \<le> s"
    using tiles_end [of h "a + s" s bs e] Cons.prems(1) by (auto simp: b)
  then have "a < e" by simp
  then have "hdr h' a = hdr h a" using Cons.prems(2) by simp
  then have "blk_at h' a s u p = blk_at h a s u p" by (rule blk_at_cong)
  moreover have "tiles h' (a + s) s bs e"
    using Cons.prems by (intro Cons.IH) (auto simp: b)
  ultimately show ?case using Cons.prems(1) by (simp add: b)
qed

lemma tiles_dvd: "tiles h a p bs e \<Longrightarrow> 16 dvd a \<Longrightarrow> 16 dvd e"
  by (induction bs arbitrary: a p) (auto simp: blk_at_def)

lemma tiles_offset_dvd: "tiles h a p bs e \<Longrightarrow> 16 dvd offset bs"
  by (induction bs arbitrary: a p) (auto simp: blk_at_def)

lemma tiles_set_prev:
  "tiles h a p bs e \<Longrightarrow> bs \<noteq> [] \<Longrightarrow> tiles (set_prev h a q) a q bs e"
proof (cases bs)
  case (Cons b cs)
  assume t: "tiles h a p bs e"
  obtain s u where b: "b = (s, u)" by force
  from t have t': "tiles h (a + s) s cs e" and "blk_at h a s u p" "32 \<le> s"
    by (simp_all add: Cons b)
  from t' have "tiles (set_prev h a q) (a + s) s cs e"
    by (rule tiles_frame) (use \<open>32 \<le> s\<close> in \<open>simp add: frame\<close>)
  then show ?thesis
    using \<open>blk_at h a s u p\<close> \<open>32 \<le> s\<close> by (simp add: Cons b set_prev_at)
qed simp

lemma blk_next_tiles:
  assumes "tiles h a p ((s, u) # bs) (heap_end h)"
  shows "blk_next h a = (if bs = [] then None else Some (a + s))"
proof -
  have "blk_size h a = s" using assms by (auto intro: blk_at_size)
  moreover have "bs = [] \<longleftrightarrow> heap_end h \<le> a + s"
    using assms tiles_empty [of h "a + s" s bs "heap_end h"] by simp
  ultimately show ?thesis by (simp add: blk_next_def)
qed

section \<open>\<open>kmalloc\<close> computes first fit\<close>

lemma kmalloc_need_dvd [simp]: "16 dvd kmalloc_need sz"
  by (simp add: kmalloc_need_def Let_def)

lemma kmalloc_need_ge [simp]: "32 \<le> kmalloc_need sz"
  by (simp add: kmalloc_need_def Let_def)

lemma kmalloc_need_fits: "sz + 31 < 2 ^ 64 \<Longrightarrow> sz + 16 \<le> kmalloc_need sz"
  using align_up_ge [of 16 "sz + 16"] by (auto simp: kmalloc_need_def Let_def add64_exact)

lemma afit_Some:
  assumes "afit need bs = Some (off, bs')"
  obtains xs s ys where "bs = xs @ (s, False) # ys" "off = offset xs" "need \<le> s"
    "bs' = xs @ split_blk need s ys" "\<forall>b\<in>set xs. snd b \<or> fst b < need"
  using assms
proof (induction need bs arbitrary: off bs' thesis rule: afit.induct)
  case (1 need)
  then show ?case by simp
next
  case (2 need s u bs)
  show ?case
  proof (cases "u \<or> s < need")
    case True
    with 2(3) obtain off1 bs1 where r: "afit need bs = Some (off1, bs1)"
      and o: "off = s + off1" "bs' = (s, u) # bs1" by auto
    obtain xs t ys where "bs = xs @ (t, False) # ys" "off1 = offset xs" "need \<le> t"
      "bs1 = xs @ split_blk need t ys" "\<forall>b\<in>set xs. snd b \<or> fst b < need"
      using 2(1) [OF True _ r] by blast
    then show ?thesis using o True by (intro 2(2) [of "(s, u) # xs" t ys]) auto
  next
    case False
    then show ?thesis using 2(3) by (intro 2(2) [of "[]" s bs]) auto
  qed
qed

lemma kmalloc_walk_tiles:
  assumes "tiles h a p bs (heap_end h)" "bs \<noteq> []"
  shows "kmalloc_walk h need (Some a) =
    Some (case afit need bs of None \<Rightarrow> (h, 0)
          | Some (off, _) \<Rightarrow> (take_block h (a + off) need, a + off + 16))"
  using assms
proof (induction bs arbitrary: a p)
  case Nil
  then show ?case by simp
next
  case (Cons b bs)
  obtain s u where b: "b = (s, u)" by force
  from Cons.prems have at: "blk_at h a s u p" and rest: "tiles h (a + s) s bs (heap_end h)"
    by (auto simp: b)
  note hd = blk_at_size [OF at] blk_at_in_use [OF at]
  have nxt: "kmalloc_walk h need (blk_next h a) =
    Some (case afit need bs of None \<Rightarrow> (h, 0)
          | Some (off, _) \<Rightarrow> (take_block h (a + s + off) need, a + s + off + 16))"
    using Cons.IH [OF rest] blk_next_tiles [OF Cons.prems(1) [unfolded b]]
    by (cases "bs = []") (simp_all add: kmalloc_walk.simps)
  show ?case
    by (subst kmalloc_walk.simps)
      (auto simp: hd nxt b blk_payload_def add.assoc split: option.split prod.split)
qed

lemma take_block_frame [frame]:
  "x < b \<Longrightarrow> hdr (take_block h b need) x = hdr h x"
  "heap_start (take_block h b need) = heap_start h" "heap_end (take_block h b need) = heap_end h"
  by (auto simp: take_block_def Let_def frame blk_next_def split: option.split)

lemma take_block_tiles:
  assumes t: "tiles h a p ((s, False) # ys) (heap_end h)"
    and need: "need \<le> s" "16 dvd need" "32 \<le> need"
  shows "tiles (take_block h a need) a p (split_blk need s ys) (heap_end h)"
proof (cases "need + 32 \<le> s")
  case True
  from t have at: "blk_at h a s False p" and rest: "tiles h (a + s) s ys (heap_end h)" by auto
  have "16 dvd s" using at by (simp add: blk_at_def)
  define h3 where "h3 = blk_set (set_prev (blk_set h (a + need) (s - need) False) (a + need) need) a need True"
  have fr: "heap_end h3 = heap_end h" by (simp add: h3_def frame)
  have same: "hdr h3 x = hdr h x" if "x \<noteq> a" "x \<noteq> a + need" for x
    using that by (simp add: h3_def frame)
  have at1: "blk_at h3 a need True p"
    unfolding h3_def by (rule blk_set_at) (use need at in \<open>auto simp: frame blk_at_def\<close>)
  have "blk_at (set_prev (blk_set h (a + need) (s - need) False) (a + need) need)
      (a + need) (s - need) False need"
    by (rule set_prev_at, rule blk_set_at) (use need \<open>16 dvd s\<close> in \<open>auto intro: dvd_diff_nat\<close>)
  then have at2: "blk_at h3 (a + need) (s - need) False need"
    using need by (subst blk_at_cong) (auto simp: h3_def frame)
  have rest3: "tiles h3 (a + s) s ys (heap_end h)"
    using rest by (rule tiles_frame) (use True in \<open>simp add: same\<close>)
  have nxt: "blk_next h3 (a + need) = (if ys = [] then None else Some (a + s))"
    using tiles_empty [OF rest] True fr blk_at_size [OF at2]
    by (simp add: blk_next_def)
  have bs: "blk_size h a = s" by (rule blk_at_size [OF at])
  have tb: "take_block h a need = (case blk_next h3 (a + need) of None \<Rightarrow> h3
      | Some after \<Rightarrow> set_prev h3 after (s - need))"
    unfolding take_block_def Let_def bs h3_def [symmetric]
    using True by (simp add: blk_at_size [OF at2] split: option.split)
  show ?thesis
  proof (cases "ys = []")
    case yes: True
    have "heap_end h = a + s" using rest yes by simp
    then show ?thesis using True at1 at2 need by (simp add: tb nxt yes split_blk_def)
  next
    case no: False
    have "tiles (set_prev h3 (a + s) (s - need)) (a + s) (s - need) ys (heap_end h)"
      by (rule tiles_set_prev [OF rest3 no])
    moreover have "blk_at (set_prev h3 (a + s) (s - need)) a need True p"
      using at1 need by (subst blk_at_cong) (auto simp: frame)
    moreover have "blk_at (set_prev h3 (a + s) (s - need)) (a + need) (s - need) False need"
      using at2 True by (subst blk_at_cong) (auto simp: frame)
    ultimately show ?thesis using True need by (simp add: tb nxt no split_blk_def)
  qed
next
  case False
  from t have at: "blk_at h a s False p" and rest: "tiles h (a + s) s ys (heap_end h)"
    and s: "32 \<le> s" by auto
  have "take_block h a need = blk_set h a s True"
    using False by (simp add: take_block_def Let_def blk_at_size [OF at])
  moreover have "blk_at (blk_set h a s True) a s True p"
    by (rule blk_set_at) (use at in \<open>auto simp: blk_at_def\<close>)
  moreover have "tiles (blk_set h a s True) (a + s) s ys (heap_end h)"
    using rest by (rule tiles_frame) (use s in \<open>simp add: frame\<close>)
  ultimately show ?thesis using False s by (simp add: split_blk_def)
qed

lemma heap_rep_replace:
  assumes rep: "heap_rep h (xs @ ys)" and a: "a = heap_start h + offset xs"
    and fr: "\<And>x. x < a \<Longrightarrow> hdr h' x = hdr h x" "heap_start h' = heap_start h" "heap_end h' = heap_end h"
    and t: "tiles h' a (last_size 0 xs) zs (heap_end h)" and ne: "zs \<noteq> []"
  shows "heap_rep h' (xs @ zs)"
proof -
  have "tiles h (heap_start h) 0 xs a" using rep by (simp add: heap_rep_def tiles_append a)
  then have "tiles h' (heap_start h) 0 xs a" by (rule tiles_frame) (simp add: fr)
  then show ?thesis using rep t ne by (simp add: heap_rep_def fr tiles_append a)
qed

lemma split_blk_not_Nil [simp]: "split_blk need s ys \<noteq> []"
  by (simp add: split_blk_def)

text \<open>The walk of \<open>kmalloc\<close> returns on every well-formed heap, and is first fit on its blocks.\<close>

lemma kmalloc_first_fit:
  assumes rep: "heap_rep h bs" and sz: "0 < sz"
  shows "case afit (kmalloc_need sz) bs of
           None \<Rightarrow> kmalloc h sz = Some (h, 0)
         | Some (off, bs') \<Rightarrow> \<exists>h'. kmalloc h sz = Some (h', heap_start h + off + 16) \<and>
             heap_rep h' bs' \<and> heap_start h' = heap_start h \<and> heap_end h' = heap_end h"
proof -
  let ?need = "kmalloc_need sz"
  have eq: "kmalloc h sz = Some (case afit ?need bs of None \<Rightarrow> (h, 0)
      | Some (off, _) \<Rightarrow> (take_block h (heap_start h + off) ?need, heap_start h + off + 16))"
    using rep sz kmalloc_walk_tiles [of h "heap_start h" 0 bs ?need]
    by (simp add: kmalloc_def heap_rep_def)
  show ?thesis
  proof (cases "afit ?need bs")
    case None
    then show ?thesis by (simp add: eq)
  next
    case (Some r)
    then obtain off bs' where r: "afit ?need bs = Some (off, bs')" by (cases r) auto
    from r obtain xs s ys where sp: "bs = xs @ (s, False) # ys" "off = offset xs" "?need \<le> s"
      "bs' = xs @ split_blk ?need s ys" by (rule afit_Some)
    let ?a = "heap_start h + off" and ?h' = "take_block h (heap_start h + off) ?need"
    have "tiles h ?a (last_size 0 xs) ((s, False) # ys) (heap_end h)"
      using rep by (simp add: heap_rep_def sp tiles_append)
    then have "tiles ?h' ?a (last_size 0 xs) (split_blk ?need s ys) (heap_end h)"
      by (rule take_block_tiles) (simp_all add: sp(3))
    then have "heap_rep ?h' (xs @ split_blk ?need s ys)"
      by (intro heap_rep_replace [OF rep [unfolded sp(1)], of ?a]) (simp_all add: sp(2) frame)
    then have "heap_rep ?h' bs'" by (simp only: sp(4))
    then show ?thesis using eq by (simp add: r frame)
  qed
qed

section \<open>\<open>kfree\<close> merges the freed block with its free neighbours\<close>

lemma absorb_frame [frame]:
  "x < b \<Longrightarrow> hdr (absorb h b m) x = hdr h x"
  "heap_start (absorb h b m) = heap_start h" "heap_end (absorb h b m) = heap_end h"
  by (auto simp: absorb_def Let_def frame blk_next_def split: option.split)

lemma absorb_tiles:
  assumes t: "tiles h a p ((s, u) # (t, v) # ys) (heap_end h)"
  shows "tiles (absorb h a (s + t)) a p ((s + t, False) # ys) (heap_end h)"
proof -
  from t have at: "blk_at h a s u p" and s: "32 \<le> s" and dv: "16 dvd s" "16 dvd t"
    and rest: "tiles h (a + (s + t)) t ys (heap_end h)" by (auto simp: blk_at_def add.assoc)
  define h1 where "h1 = blk_set h a (s + t) False"
  have at1: "blk_at h1 a (s + t) False p"
    unfolding h1_def by (rule blk_set_at) (use dv in \<open>simp_all add: blk_at_prev [OF at]\<close>)
  have rest1: "tiles h1 (a + (s + t)) t ys (heap_end h)"
    using rest by (rule tiles_frame) (use s in \<open>simp add: h1_def frame\<close>)
  have nxt: "blk_next h1 a = (if ys = [] then None else Some (a + (s + t)))"
    using tiles_empty [OF rest] by (simp add: blk_next_def blk_at_size [OF at1]) (simp add: h1_def frame)
  show ?thesis
  proof (cases "ys = []")
    case True
    then show ?thesis using at1 s rest1
      by (simp add: absorb_def nxt flip: h1_def)
  next
    case False
    have "tiles (set_prev h1 (a + (s + t)) (s + t)) (a + (s + t)) (s + t) ys (heap_end h)"
      by (rule tiles_set_prev [OF rest1 False])
    moreover have "blk_at (set_prev h1 (a + (s + t)) (s + t)) a (s + t) False p"
      using at1 s by (subst blk_at_cong) (auto simp: frame)
    ultimately show ?thesis using False s
      by (simp add: absorb_def nxt flip: h1_def)
  qed
qed

lemma coalesce_next_frame [frame]:
  "x < b \<Longrightarrow> hdr (coalesce_next h b) x = hdr h x"
  "heap_start (coalesce_next h b) = heap_start h" "heap_end (coalesce_next h b) = heap_end h"
  by (auto simp: coalesce_next_def frame split: option.split)

lemma coalesce_next_tiles:
  assumes t: "tiles h b p ((s, False) # ys) (heap_end h)"
  shows "tiles (coalesce_next h b) b p (merge_next s ys) (heap_end h)"
proof (cases ys)
  case Nil
  then show ?thesis using t by (simp add: coalesce_next_def blk_next_tiles [OF t])
next
  case (Cons c zs)
  obtain r v where c: "c = (r, v)" by force
  from t have at: "blk_at h b s False p" and at': "blk_at h (b + s) r v s"
    by (simp_all add: Cons c)
  have "coalesce_next h b = (if v then h else absorb h b (s + r))"
    by (simp add: coalesce_next_def blk_next_tiles [OF t] Cons blk_at_in_use [OF at']
        blk_at_size [OF at] blk_at_size [OF at'])
  then show ?thesis
    using t absorb_tiles [of h b p s False r v zs] by (cases v) (simp_all add: Cons c)
qed

lemma merge_prev_snoc:
  "merge_prev (xs @ [(r, v)]) ((m, u) # zs) =
     (if v then xs @ (r, v) # (m, u) # zs else xs @ (r + m, False) # zs)"
  by (induction xs rule: induct_list012) (cases v; auto)+

lemma coalesce_prev_rep:
  assumes rep: "heap_rep h (xs @ (m, False) # zs)"
  shows "heap_rep (coalesce_prev h (heap_start h + offset xs)) (merge_prev xs ((m, False) # zs)) \<and>
    heap_start (coalesce_prev h (heap_start h + offset xs)) = heap_start h \<and>
    heap_end (coalesce_prev h (heap_start h + offset xs)) = heap_end h"
proof (cases xs rule: rev_cases)
  case Nil
  then have "blk_prev h (heap_start h) = None"
    using rep by (auto simp: heap_rep_def blk_prev_def blk_at_def)
  then show ?thesis using rep by (simp add: Nil coalesce_prev_def)
next
  case (snoc ws w)
  obtain r v where w: "w = (r, v)" by force
  let ?b = "heap_start h + offset xs" and ?a = "heap_start h + offset ws"
  have t: "tiles h ?a (last_size 0 ws) ((r, v) # (m, False) # zs) (heap_end h)"
    using rep by (simp add: heap_rep_def snoc w tiles_append)
  then have at: "blk_at h ?a r v (last_size 0 ws)" and atb: "blk_at h ?b m False r" and r: "32 \<le> r"
    by (simp_all add: snoc w add.assoc)
  have prev: "blk_prev h ?b = Some ?a"
    using blk_at_prev [OF atb] r by (simp add: blk_prev_def snoc w)
  show ?thesis
  proof (cases v)
    case True
    then have eq: "coalesce_prev h ?b = h"
      by (simp add: coalesce_prev_def prev blk_at_in_use [OF at])
    show ?thesis using rep True
      by (simp only: eq) (simp add: snoc w merge_prev_snoc)
  next
    case False
    have eq: "coalesce_prev h ?b = absorb h ?a (r + m)"
      using False by (simp add: coalesce_prev_def prev blk_at_in_use [OF at] blk_at_size [OF at]
          blk_at_size [OF atb])
    have "heap_rep (absorb h ?a (r + m)) (ws @ (r + m, False) # zs)"
    proof (rule heap_rep_replace [OF _ refl])
      show "heap_rep h (ws @ (r, v) # (m, False) # zs)" using rep by (simp add: snoc w)
    qed (use absorb_tiles [OF t] in \<open>simp_all add: frame\<close>)
    then show ?thesis using False
      by (simp only: eq) (simp add: snoc w merge_prev_snoc frame)
  qed
qed

lemma merge_next_Cons: obtains m zs where "merge_next s ys = (m, False) # zs"
  by (cases "(s, ys)" rule: merge_next.cases) auto

text \<open>Freeing the payload of any block returns, and coalesces on both sides.\<close>

lemma kfree_coalesces:
  assumes rep: "heap_rep h (xs @ (s, u) # ys)"
  shows "\<exists>h'. kfree h (heap_start h + offset xs + 16) = Some h' \<and> heap_rep h' (afree xs s ys) \<and>
    heap_start h' = heap_start h \<and> heap_end h' = heap_end h"
proof -
  let ?b = "heap_start h + offset xs"
  have t: "tiles h ?b (last_size 0 xs) ((s, u) # ys) (heap_end h)"
    using rep by (simp add: heap_rep_def tiles_append)
  then have at: "blk_at h ?b s u (last_size 0 xs)" and s: "32 \<le> s" and d: "16 dvd s"
    and rest: "tiles h (?b + s) s ys (heap_end h)" by (auto simp: blk_at_def)
  have fin: "?b + 16 < heap_end h" using tiles_end [OF t] s by simp
  define h1 where "h1 = blk_set h ?b s False"
  have "blk_at h1 ?b s False (last_size 0 xs)"
    unfolding h1_def by (rule blk_set_at) (use d in \<open>simp_all add: blk_at_prev [OF at]\<close>)
  moreover have "tiles h1 (?b + s) s ys (heap_end h)"
    using rest by (rule tiles_frame) (use s in \<open>simp add: h1_def frame\<close>)
  ultimately have "tiles h1 ?b (last_size 0 xs) ((s, False) # ys) (heap_end h1)"
    using s by (simp add: h1_def frame)
  from coalesce_next_tiles [OF this]
  have t2: "tiles (coalesce_next h1 ?b) ?b (last_size 0 xs) (merge_next s ys) (heap_end h)"
    by (simp add: h1_def frame)
  obtain m zs where mz: "merge_next s ys = (m, False) # zs" by (rule merge_next_Cons)
  have fr: "heap_start (coalesce_next h1 ?b) = heap_start h" "heap_end (coalesce_next h1 ?b) = heap_end h"
    by (simp_all add: h1_def frame)
  have "heap_rep (coalesce_next h1 ?b) (xs @ (m, False) # zs)"
    using t2 by (intro heap_rep_replace [OF rep refl]) (simp_all add: mz frame h1_def)
  from coalesce_prev_rep [OF this]
  have "heap_rep (coalesce_prev (coalesce_next h1 ?b) ?b) (afree xs s ys) \<and>
    heap_start (coalesce_prev (coalesce_next h1 ?b) ?b) = heap_start h \<and>
    heap_end (coalesce_prev (coalesce_next h1 ?b) ?b) = heap_end h"
    by (simp add: fr mz afree_def)
  moreover have "kfree h (?b + 16) = Some (coalesce_prev (coalesce_next h1 ?b) ?b)"
    using fin by (simp add: kfree_def Let_def blk_from_payload_def blk_at_size [OF at] h1_def)
  ultimately show ?thesis by simp
qed

section \<open>Coalescing is complete\<close>

lemma afit_coalesced:
  assumes "afit need bs = Some (off, bs')" "coalesced bs"
  shows "coalesced bs'"
proof -
  from assms(1) obtain xs s ys where sp: "bs = xs @ (s, False) # ys"
    "bs' = xs @ split_blk need s ys" by (rule afit_Some)
  then show ?thesis using assms(2)
    by (cases ys) (auto simp: split_blk_def successively_append_iff)
qed

lemma merge_next_coalesced: "coalesced ys \<Longrightarrow> coalesced (merge_next s ys)"
  by (cases "(s, ys)" rule: merge_next.cases) (auto simp: successively_Cons)

lemma merge_next_hd: "merge_next s ys = (m, False) # zs \<Longrightarrow> coalesced ys \<Longrightarrow> zs \<noteq> [] \<Longrightarrow> snd (hd zs)"
  by (cases "(s, ys)" rule: merge_next.cases) (auto simp: successively_Cons)

lemma afree_coalesced:
  assumes "coalesced (xs @ (s, u) # ys)"
  shows "coalesced (afree xs s ys)"
proof -
  obtain m zs where mz: "merge_next s ys = (m, False) # zs" by (rule merge_next_Cons)
  have ys: "coalesced ys" and xs: "coalesced xs"
    using assms by (auto simp: successively_append_iff successively_Cons)
  have mc: "coalesced ((m, False) # zs)"
    using merge_next_coalesced [OF ys, of s] by (simp add: mz)
  show ?thesis
  proof (cases xs rule: rev_cases)
    case Nil
    then show ?thesis using mc by (simp add: afree_def mz)
  next
    case (snoc ws w)
    obtain r v where w: "w = (r, v)" by force
    show ?thesis
      using mc xs by (cases v) (auto simp: afree_def mz snoc w merge_prev_snoc successively_append_iff
          successively_Cons)
  qed
qed

text \<open>Freeing what was just allocated gives back the list before.\<close>

lemma afree_afit:
  assumes "afit need bs = Some (off, bs')" "coalesced bs" "0 < need"
  obtains xs s ys where "bs' = xs @ (s, True) # ys" "off = offset xs" "afree xs s ys = bs" "need \<le> s"
proof -
  from assms(1) obtain xs s ys where sp: "bs = xs @ (s, False) # ys" "off = offset xs" "need \<le> s"
    "bs' = xs @ split_blk need s ys" by (rule afit_Some)
  have last: "merge_prev xs ((s, False) # ys) = xs @ (s, False) # ys"
  proof (cases xs rule: rev_cases)
    case (snoc ws w)
    then have "snd w" using assms(2) by (auto simp: sp successively_append_iff)
    then show ?thesis by (cases w) (simp add: snoc merge_prev_snoc)
  qed simp
  have ys: "merge_next s ys = (s, False) # ys"
    using assms(2) by (cases "(s, ys)" rule: merge_next.cases)
      (auto simp: sp successively_append_iff)
  show ?thesis
  proof (cases "need + 32 \<le> s")
    case True
    then show ?thesis
      by (intro that [of xs need "(s - need, False) # ys"])
        (simp_all add: sp split_blk_def afree_def last)
  next
    case False
    then show ?thesis
      by (intro that [of xs s ys]) (simp_all add: sp split_blk_def afree_def last ys)
  qed
qed

section \<open>Live regions\<close>

text \<open>The payloads handed out: address and usable length of every block in use.\<close>

fun payloads :: "nat \<Rightarrow> ablk list \<Rightarrow> (nat \<times> nat) set" where
  "payloads a [] = {}"
| "payloads a ((s, u) # bs) = (if u then {(a + 16, s - 16)} else {}) \<union> payloads (a + s) bs"

definition heap_live :: "heap \<Rightarrow> (nat \<times> nat) set \<Rightarrow> bool" where
  "heap_live h R \<longleftrightarrow> (\<exists>bs. heap_rep h bs \<and> coalesced bs \<and> R = payloads (heap_start h) bs)"

lemma payloads_append: "payloads a (xs @ ys) = payloads a xs \<union> payloads (a + offset xs) ys"
  by (induction xs arbitrary: a) (auto simp: add.assoc)

lemma payloads_bounds:
  "tiles h a p bs e \<Longrightarrow> (q, k) \<in> payloads a bs \<Longrightarrow> a + 16 \<le> q \<and> q + k \<le> e \<and> 16 \<le> k"
proof (induction bs arbitrary: a p)
  case Nil
  then show ?case by simp
next
  case (Cons b bs)
  obtain s u where b: "b = (s, u)" by force
  have e: "e = a + s + offset bs" using Cons.prems tiles_end by (auto simp: b)
  show ?case using Cons.prems Cons.IH [of "a + s" s] e by (auto simp: b split: if_splits)
qed

lemma payloads_disjoint:
  "tiles h a p bs e \<Longrightarrow> (q, k) \<in> payloads a bs \<Longrightarrow> (r, l) \<in> payloads a bs \<Longrightarrow>
   (q, k) \<noteq> (r, l) \<Longrightarrow> q + k \<le> r \<or> r + l \<le> q"
proof (induction bs arbitrary: a p)
  case Nil
  then show ?case by simp
next
  case (Cons b bs)
  obtain s u where b: "b = (s, u)" by force
  have t: "tiles h (a + s) s bs e" "32 \<le> s" using Cons.prems by (auto simp: b)
  show ?case using Cons.prems Cons.IH [OF t(1)] payloads_bounds [OF t(1)] t(2)
    by (auto simp: b split: if_splits; fastforce)
qed

lemma payloads_split:
  assumes "tiles h a p bs e" "(q, k) \<in> payloads a bs"
  obtains xs s ys where "bs = xs @ (s, True) # ys" "q = a + offset xs + 16" "k = s - 16" "32 \<le> s"
  using assms
proof (induction bs arbitrary: a p thesis)
  case Nil
  then show ?case by simp
next
  case (Cons b bs)
  obtain s u where b: "b = (s, u)" by force
  have t: "tiles h (a + s) s bs e" "32 \<le> s" using Cons.prems by (auto simp: b)
  show ?case
  proof (cases "u \<and> q = a + 16 \<and> k = s - 16")
    case True
    then show ?thesis using t by (intro Cons.prems(1) [of "[]" s bs]) (auto simp: b)
  next
    case False
    then have "(q, k) \<in> payloads (a + s) bs" using Cons.prems(3) by (auto simp: b split: if_splits)
    from Cons.IH [OF _ t(1) this] obtain xs r ys where "bs = xs @ (r, True) # ys"
      "q = a + s + offset xs + 16" "k = r - 16" "32 \<le> r" by blast
    then show ?thesis by (intro Cons.prems(1) [of "(s, u) # xs" r ys]) (auto simp: b)
  qed
qed

lemma payloads_split_blk:
  "payloads a (split_blk need s ys) =
     insert (a + 16, (if need + 32 \<le> s then need else s) - 16) (payloads (a + s) ys)"
  by (simp add: split_blk_def)

lemma payloads_merge_next: "payloads a (merge_next s ys) = payloads (a + s) ys"
  by (cases "(s, ys)" rule: merge_next.cases) (auto simp: add.assoc)

lemma payloads_merge_prev: "payloads a (merge_prev xs ((m, False) # zs)) = payloads a (xs @ (m, False) # zs)"
proof (cases xs rule: rev_cases)
  case (snoc ws w)
  then show ?thesis
    by (cases w) (simp add: merge_prev_snoc payloads_append add.assoc)
qed simp

lemma payloads_afree: "payloads a (afree xs s ys) = payloads a xs \<union> payloads (a + offset xs + s) ys"
proof -
  obtain m zs where mz: "merge_next s ys = (m, False) # zs" by (rule merge_next_Cons)
  have "payloads (a + offset xs) ((m, False) # zs) = payloads (a + offset xs + s) ys"
    by (metis mz payloads_merge_next)
  then show ?thesis by (simp add: afree_def mz payloads_merge_prev payloads_append)
qed

lemma payloads_aligned: "tiles h a p bs e \<Longrightarrow> 16 dvd a \<Longrightarrow> (q, k) \<in> payloads a bs \<Longrightarrow> 16 dvd q"
  by (induction bs arbitrary: a p) (auto simp: blk_at_def split: if_splits)

lemma kmalloc_live:
  assumes live: "heap_live h R" and n: "0 < n" "n + 31 < 2 ^ 64"
  shows "kmalloc h n = Some (h, 0) \<or>
    (\<exists>h' p k. kmalloc h n = Some (h', p) \<and> p \<noteq> 0 \<and> n \<le> k \<and> (p, k) \<notin> R \<and> heap_live h' (insert (p, k) R))"
proof -
  from live obtain bs where rep: "heap_rep h bs" and co: "coalesced bs"
    and R: "R = payloads (heap_start h) bs" by (auto simp: heap_live_def)
  let ?need = "kmalloc_need n" and ?a = "heap_start h"
  note ff = kmalloc_first_fit [OF rep n(1)]
  show ?thesis
  proof (cases "afit ?need bs")
    case None
    then show ?thesis using ff by simp
  next
    case (Some r)
    then obtain off bs' where r: "afit ?need bs = Some (off, bs')" by (cases r) auto
    with ff obtain h' where h': "kmalloc h n = Some (h', ?a + off + 16)" "heap_rep h' bs'"
      "heap_start h' = ?a" by auto
    from r obtain xs s ys where sp: "bs = xs @ (s, False) # ys" "off = offset xs" "?need \<le> s"
      "bs' = xs @ split_blk ?need s ys" by (rule afit_Some)
    define k where "k = (if ?need + 32 \<le> s then ?need else s) - 16"
    have pay: "payloads ?a bs' = insert (?a + off + 16, k) R"
      by (auto simp: sp R payloads_append payloads_split_blk k_def add.assoc)
    have "n \<le> k" using kmalloc_need_fits [OF n(2)] sp(3) by (auto simp: k_def)
    have t: "tiles h ?a 0 bs (heap_end h)" using rep by (simp add: heap_rep_def)
    have fresh: "(?a + off + 16, k) \<notin> R"
    proof
      assume "(?a + off + 16, k) \<in> R"
      moreover have tx: "tiles h ?a 0 xs (?a + off)" and ty: "tiles h (?a + off + s) s ys (heap_end h)"
        using t by (simp_all add: sp tiles_append)
      ultimately show False
        using payloads_bounds [OF tx, of "?a + off + 16" k] payloads_bounds [OF ty, of "?a + off + 16" k]
          kmalloc_need_ge [of n] sp(3)
        by (auto simp: R sp payloads_append add.assoc)
    qed
    moreover have "heap_live h' (insert (?a + off + 16, k) R)"
      unfolding heap_live_def using h' afit_coalesced [OF r co] pay by (intro exI [of _ bs']) simp
    moreover have "?a + off + 16 \<noteq> 0" by simp
    ultimately show ?thesis using h'(1) \<open>n \<le> k\<close> by blast
  qed
qed

lemma kfree_live:
  assumes live: "heap_live h R" and pk: "(p, k) \<in> R"
  shows "\<exists>h'. kfree h p = Some h' \<and> heap_live h' (R - {(p, k)})"
proof -
  from live obtain bs where rep: "heap_rep h bs" and co: "coalesced bs"
    and R: "R = payloads (heap_start h) bs" by (auto simp: heap_live_def)
  let ?a = "heap_start h"
  have t: "tiles h ?a 0 bs (heap_end h)" using rep by (simp add: heap_rep_def)
  from payloads_split [OF t pk [unfolded R]] obtain xs s ys
    where sp: "bs = xs @ (s, True) # ys" "p = ?a + offset xs + 16" "k = s - 16" "32 \<le> s"
    by blast
  from kfree_coalesces [OF rep [unfolded sp(1)]] obtain h' where
    h': "kfree h p = Some h'" "heap_rep h' (afree xs s ys)" "heap_start h' = ?a" by (auto simp: sp(2))
  have tx: "tiles h ?a 0 xs (?a + offset xs)" and ty: "tiles h (?a + offset xs + s) s ys (heap_end h)"
    using t by (simp_all add: sp tiles_append)
  have "(p, k) \<notin> payloads ?a xs" "(p, k) \<notin> payloads (?a + offset xs + s) ys"
    using payloads_bounds [OF tx, of p k] payloads_bounds [OF ty, of p k] sp(2,4) by auto
  then have "payloads ?a (afree xs s ys) = R - {(p, k)}"
    by (auto simp: payloads_afree R sp(1,2,3) payloads_append add.assoc)
  moreover have "coalesced (afree xs s ys)" using co by (simp add: sp(1) afree_coalesced)
  ultimately show ?thesis using h' unfolding heap_live_def by (metis (no_types))
qed

lemma kfree_NULL [simp]: "kfree h 0 = Some h"
  by (simp add: kfree_def)

lemma heap_live_disjoint:
  "heap_live h R \<Longrightarrow> (p, k) \<in> R \<Longrightarrow> (q, l) \<in> R \<Longrightarrow> (p, k) \<noteq> (q, l) \<Longrightarrow> p + k \<le> q \<or> q + l \<le> p"
  by (auto simp: heap_live_def heap_rep_def dest: payloads_disjoint)

lemma heap_live_region:
  assumes "heap_live h R" "(p, k) \<in> R"
  shows "16 dvd p" "heap_start h + 16 \<le> p" "p + k \<le> heap_end h" "0 < k" "p \<noteq> 0"
proof -
  from assms obtain bs where t: "tiles h (heap_start h) 0 bs (heap_end h)" "16 dvd heap_start h"
    "(p, k) \<in> payloads (heap_start h) bs" by (auto simp: heap_live_def heap_rep_def)
  show "16 dvd p" by (rule payloads_aligned [OF t])
  from payloads_bounds [OF t(1,3)]
  show "heap_start h + 16 \<le> p" "p + k \<le> heap_end h" "0 < k" "p \<noteq> 0" by auto
qed

interpretation ka: allocator kmalloc kfree heap_live
proof
  fix h R p k q l
  fix n :: nat
  show "kfree h 0 = Some h" by simp
  show "heap_live h R \<Longrightarrow> 0 < n \<Longrightarrow> n + 31 < 2 ^ 64 \<Longrightarrow>
    kmalloc h n = Some (h, 0) \<or>
    (\<exists>h' p k. kmalloc h n = Some (h', p) \<and> p \<noteq> 0 \<and> n \<le> k \<and> (p, k) \<notin> R \<and>
      heap_live h' (insert (p, k) R))" by (rule kmalloc_live)
  show "heap_live h R \<Longrightarrow> (p, k) \<in> R \<Longrightarrow> \<exists>h'. kfree h p = Some h' \<and> heap_live h' (R - {(p, k)})"
    by (rule kfree_live)
  show "heap_live h R \<Longrightarrow> (p, k) \<in> R \<Longrightarrow> (q, l) \<in> R \<Longrightarrow> (p, k) \<noteq> (q, l) \<Longrightarrow> p + k \<le> q \<or> q + l \<le> p"
    by (rule heap_live_disjoint)
  show "heap_live h R \<Longrightarrow> (p, k) \<in> R \<Longrightarrow> p \<noteq> 0 \<and> 0 < k"
    using heap_live_region by blast
qed

section \<open>Initialisation and the diagnostics\<close>

lemma kheap_init_rep:
  assumes "16 dvd base" "16 \<le> base" "16 dvd sz" "32 \<le> sz" "base + sz < 2 ^ 64"
  shows "\<exists>h'. kheap_init h base sz = Some h' \<and> heap_rep h' [(sz, False)] \<and>
    heap_start h' = base \<and> heap_end h' = base + sz"
proof -
  let ?h1 = "h\<lparr>heap_start := base, heap_end := base + sz\<rparr>"
  have "blk_at (blk_set ?h1 base sz False) base sz False (prev_size (hdr h base))"
    by (rule blk_set_at) (simp_all add: assms)
  then have "blk_at (set_prev (blk_set ?h1 base sz False) base 0) base sz False 0"
    by (rule set_prev_at)
  then show ?thesis using assms by (simp add: kheap_init_def Let_def heap_rep_def frame)
qed

lemma heap_rep_live: "heap_rep h [(sz, False)] \<Longrightarrow> heap_live h {}"
  unfolding heap_live_def by (rule exI [of _ "[(sz, False)]"]) simp

lemma count_walk_tiles:
  "tiles h a p bs (heap_end h) \<Longrightarrow> bs \<noteq> [] \<Longrightarrow> count_walk h n (Some a) = Some (n + length bs)"
proof (induction bs arbitrary: a p n)
  case Nil
  then show ?case by simp
next
  case (Cons b bs)
  obtain s u where b: "b = (s, u)" by force
  show ?case using Cons.IH [of "a + s" s "n + 1"] Cons.prems(1) blk_next_tiles [OF Cons.prems(1) [unfolded b]]
    by (cases "bs = []") (simp_all add: b count_walk.simps)
qed

lemma used_walk_tiles:
  "tiles h a p bs (heap_end h) \<Longrightarrow> bs \<noteq> [] \<Longrightarrow>
   used_walk h n (Some a) = Some (n + sum_list (map (\<lambda>(s, u). if u then s - 16 else 0) bs))"
proof (induction bs arbitrary: a p n)
  case Nil
  then show ?case by simp
next
  case (Cons b bs)
  obtain s u where b: "b = (s, u)" by force
  from Cons.prems(1) have at: "blk_at h a s u p" and rest: "tiles h (a + s) s bs (heap_end h)"
    by (auto simp: b)
  have step: "used_walk h n (Some a) = used_walk h (n + (if u then s - 16 else 0)) (blk_next h a)"
    by (subst used_walk.simps) (simp add: blk_at_in_use [OF at] blk_at_size [OF at])
  have none: "used_walk h m None = Some m" for m by (simp add: used_walk.simps)
  show ?case
    using Cons.IH [OF rest] blk_next_tiles [OF Cons.prems(1) [unfolded b]]
    by (cases "bs = []") (auto simp: step b none)
qed

section \<open>Properties\<close>

text \<open>A 8 KiB heap at address 4096, for the witnesses.\<close>

definition example_heap :: heap where
  "example_heap = the (kheap_init \<lparr>heap_start = 0, heap_end = 0,
     hdr = (\<lambda>_. \<lparr>total_size = 0, prev_size = 0\<rparr>)\<rparr> 4096 8192)"

lemma example_heap_init:
  "kheap_init \<lparr>heap_start = 0, heap_end = 0, hdr = (\<lambda>_. \<lparr>total_size = 0, prev_size = 0\<rparr>)\<rparr>
     4096 8192 = Some example_heap \<and>
   heap_rep example_heap [(8192, False)] \<and> heap_start example_heap = 4096 \<and>
   heap_end example_heap = 12288"
  using kheap_init_rep [of 4096 8192 "\<lparr>heap_start = 0, heap_end = 0,
    hdr = (\<lambda>_. \<lparr>total_size = 0, prev_size = 0\<rparr>)\<rparr>"]
  by (auto simp: example_heap_def)

lemma example_heap_rep:
  "heap_rep example_heap [(8192, False)]" "heap_start example_heap = 4096"
  "heap_end example_heap = 12288"
  using example_heap_init by simp_all

text \<open>C2. On every well-formed heap \<open>kmalloc\<close> returns, and what it does to the list of
  blocks is first fit: it takes the first free block that is large enough, splits off the rest
  when a block of 32 bytes remains, and returns \<open>NULL\<close> without touching the heap when no
  block fits.\<close>

theorem kmalloc_refines_first_fit:
  assumes "heap_rep h bs" and "0 < sz"
  shows "case afit (kmalloc_need sz) bs of
           None \<Rightarrow> kmalloc h sz = Some (h, 0)
         | Some (off, bs') \<Rightarrow> \<exists>h'. kmalloc h sz = Some (h', heap_start h + off + 16) \<and> heap_rep h' bs'"
  using kmalloc_first_fit [OF assms] by (auto split: option.splits)

lemma kmalloc_refines_first_fit_witness:
  "\<exists>h'. kmalloc example_heap 100 = Some (h', 4112) \<and> heap_rep h' [(128, True), (8064, False)]"
proof -
  have "afit (kmalloc_need 100) [(8192, False)] = Some (0, [(128, True), (8064, False)])"
    by (simp add: kmalloc_need_def align_up64_def align_down_def add64_def split_blk_def)
  then show ?thesis
    using kmalloc_refines_first_fit [OF example_heap_rep(1), of 100]
    by (simp add: example_heap_rep)
qed

text \<open>C3. \<open>kfree\<close> of the payload of a block in use returns, marks the block free and merges
  it with a free successor and a free predecessor, and afterwards no two neighbouring blocks are
  free if none were before.\<close>

theorem kfree_merges_neighbours:
  assumes "heap_rep h (xs @ (s, True) # ys)" and "coalesced (xs @ (s, True) # ys)"
  shows "\<exists>h'. kfree h (heap_start h + offset xs + 16) = Some h' \<and> heap_rep h' (afree xs s ys) \<and>
    coalesced (afree xs s ys)"
  using kfree_coalesces [OF assms(1)] afree_coalesced [OF assms(2)] by auto

lemma kfree_merges_neighbours_witness:
  "\<exists>h h'. heap_rep h [(128, True), (8064, False)] \<and> kfree h 4112 = Some h' \<and>
     heap_rep h' [(8192, False)]"
proof -
  have "afit (kmalloc_need 100) [(8192, False)] = Some (0, [(128, True), (8064, False)])"
    by (simp add: kmalloc_need_def align_up64_def align_down_def add64_def split_blk_def)
  then obtain h where h: "heap_rep h [(128, True), (8064, False)]" "heap_start h = 4096"
    using kmalloc_first_fit [OF example_heap_rep(1), of 100] by (auto simp: example_heap_rep)
  then show ?thesis
    using kfree_merges_neighbours [of h "[]" 128 "[(8064, False)]"] by (auto simp: afree_def)
qed

text \<open>Freeing what \<open>kmalloc\<close> just returned gives back exactly the blocks the heap had
  before: nothing is leaked and no fragment remains.\<close>

lemma kmalloc_kfree_roundtrip:
  assumes rep: "heap_rep h bs" and co: "coalesced bs" and sz: "0 < sz"
    and al: "kmalloc h sz = Some (h', p)"
  shows "\<exists>h''. kfree h' p = Some h'' \<and> heap_rep h'' bs"
proof (cases "afit (kmalloc_need sz) bs")
  case None
  then show ?thesis using kmalloc_first_fit [OF rep sz] al rep by simp
next
  case (Some r)
  then obtain off bs' where r: "afit (kmalloc_need sz) bs = Some (off, bs')" by (cases r) auto
  with kmalloc_first_fit [OF rep sz] al
  have h': "heap_rep h' bs'" "p = heap_start h' + off + 16" by auto
  have "0 < kmalloc_need sz" using kmalloc_need_ge [of sz] by linarith
  from afit_Some r afree_afit [OF r co this] obtain xs s ys
    where sp: "bs' = xs @ (s, True) # ys" "off = offset xs" "afree xs s ys = bs" by metis
  from kfree_coalesces [OF h'(1) [unfolded sp(1)]] show ?thesis
    by (auto simp: h'(2) sp(2,3))
qed

lemma kmalloc_kfree_roundtrip_witness:
  "\<exists>h' h''. kmalloc example_heap 100 = Some (h', 4112) \<and> kfree h' 4112 = Some h'' \<and>
     heap_rep h'' [(8192, False)]"
proof -
  obtain h' where h': "kmalloc example_heap 100 = Some (h', 4112)"
    using kmalloc_first_fit [OF example_heap_rep(1), of 100]
    by (auto simp: example_heap_rep kmalloc_need_def align_up64_def align_down_def add64_def split_blk_def)
  from kmalloc_kfree_roundtrip [OF example_heap_rep(1) _ _ h'] h' show ?thesis by auto
qed

text \<open>
  The states a client can bring the heap to: it starts from \<open>kheap_init\<close>, allocates any number of
  bytes, and frees pointers it was given and has not freed.  \<open>R\<close> is the client's view, the pointers
  it holds with the sizes it asked for.
\<close>

inductive heap_reach :: "heap \<Rightarrow> (nat \<times> nat) set \<Rightarrow> bool" where
  init: "kheap_init h0 base sz = Some h \<Longrightarrow> 16 dvd base \<Longrightarrow> 16 \<le> base \<Longrightarrow> 16 dvd sz \<Longrightarrow>
    base + sz < 2 ^ 64 \<Longrightarrow> heap_reach h {}"
| malloc: "heap_reach h R \<Longrightarrow> n < 2 ^ 64 \<Longrightarrow> kmalloc h n = Some (h', p) \<Longrightarrow> p \<noteq> 0 \<Longrightarrow>
    heap_reach h' (insert (p, n) R)"
| malloc_null: "heap_reach h R \<Longrightarrow> n < 2 ^ 64 \<Longrightarrow> kmalloc h n = Some (h', 0) \<Longrightarrow> heap_reach h' R"
| free: "heap_reach h R \<Longrightarrow> (p, n) \<in> R \<Longrightarrow> kfree h p = Some h' \<Longrightarrow> heap_reach h' (R - {(p, n)})"

text \<open>The bytes a client may use: what it asked for, unless the rounding of the request wraps, when the
  code grants a minimum block (\<open>kmalloc_huge_request_wraps\<close> below).\<close>

definition granted :: "nat \<Rightarrow> nat" where
  "granted n = (if n + 31 < 2 ^ 64 then n else 16)"

lemma kmalloc_need_wraps:
  assumes "2 ^ 64 \<le> sz + 31" "sz < 2 ^ 64"
  shows "kmalloc_need sz = 32"
proof -
  have "add64 (add64 sz 16) 15 = (sz + 16 + 15) mod 2 ^ 64"
    unfolding add64_def by (rule mod_add_left_eq)
  also have "sz + 16 + 15 = sz + 31" by simp
  also have "(sz + 31) mod 2 ^ 64 = (sz + 31 - 2 ^ 64) mod 2 ^ 64"
    using assms(1) by (rule le_mod_geq)
  also have "\<dots> < 32"
    using assms(2) mod_less_eq_dividend [of "sz + 31 - 2 ^ 64" "2 ^ 64"] by linarith
  finally have "add64 (add64 sz 16) 15 < 32" .
  then have "align_up64 16 (add64 sz 16) < 32"
    using align_down_le [of 16 "add64 (add64 sz 16) 15"]
    by (simp add: align_up64_def del: align_down_le)
  then show ?thesis by (simp add: kmalloc_need_def)
qed

lemma kmalloc_granted:
  assumes "0 < n" "n < 2 ^ 64"
  shows "kmalloc h n = kmalloc h (granted n)" "0 < granted n" "granted n + 31 < 2 ^ 64"
proof -
  have "kmalloc_need (granted n) = kmalloc_need n"
    using kmalloc_need_wraps [of n] assms(2)
    by (auto simp: granted_def kmalloc_need_def align_up64_def align_down_def add64_def)
  then show "kmalloc h n = kmalloc h (granted n)" using assms(1) by (auto simp: kmalloc_def granted_def)
  show "0 < granted n" "granted n + 31 < 2 ^ 64" using assms(1) by (auto simp: granted_def)
qed

text \<open>The invariant behind it: every pointer the client holds is a distinct live region of at
  least the size granted.\<close>

definition client_view :: "(nat \<times> nat) set \<Rightarrow> (nat \<times> nat) set \<Rightarrow> (nat \<Rightarrow> nat) \<Rightarrow> bool" where
  "client_view L R f \<longleftrightarrow> inj_on fst R \<and> (\<forall>p n. (p, n) \<in> R \<longrightarrow> (p, f p) \<in> L \<and> granted n \<le> f p)"

lemma client_view_insert:
  assumes v: "client_view L R f" and p: "p \<notin> fst ` L" and n: "granted n \<le> k"
  shows "client_view (insert (p, k) L) (insert (p, n) R) (f(p := k))"
proof -
  have fresh: "(p, m) \<notin> R" for m using v p by (force simp: client_view_def)
  then have "inj_on fst (insert (p, n) R)" using v by (force simp: client_view_def)
  then show ?thesis using v n fresh by (auto simp: client_view_def)
qed

lemma client_view_remove:
  assumes v: "client_view L R f" and p: "(p, n) \<in> R"
  shows "client_view (L - {(p, f p)}) (R - {(p, n)}) f"
proof -
  have "q \<noteq> p" if "(q, m) \<in> R - {(p, n)}" for q m
    using v p that inj_onD [of fst R "(p, n)" "(q, m)"] by (auto simp: client_view_def)
  moreover have "inj_on fst (R - {(p, n)})"
    using v by (auto simp: client_view_def intro: inj_on_subset)
  ultimately show ?thesis using v by (auto simp: client_view_def)
qed

lemma heap_reach_live:
  "heap_reach h R \<Longrightarrow> \<exists>L f. heap_live h L \<and> client_view L R f"
proof (induction rule: heap_reach.induct)
  case (init h0 base sz h)
  have "32 \<le> sz" using init(1) by (auto simp: kheap_init_def split: if_splits)
  then have "heap_rep h [(sz, False)]"
    using kheap_init_rep [of base sz h0] init by auto
  then have "heap_live h {}" by (rule heap_rep_live)
  then show ?case by (auto simp: client_view_def)
next
  case (malloc h R n h' p)
  then obtain L f where L: "heap_live h L" "client_view L R f" by blast
  have "kmalloc h 0 = Some (h, 0)" by (simp add: kmalloc_def)
  then have "n \<noteq> 0" using malloc(3,4) by (cases "n = 0") simp_all
  then have g: "kmalloc h n = kmalloc h (granted n)" "0 < granted n" "granted n + 31 < 2 ^ 64"
    using kmalloc_granted malloc(2) by auto
  from L(1) g(2,3) show ?case
  proof (cases rule: ka.alloc_returns)
    case 1
    then show ?thesis using malloc g(1) by simp
  next
    case (2 h1 q k)
    then have "heap_live h' (insert (p, k) L)" "p \<notin> fst ` L" "granted n \<le> k" using malloc(3) g(1) by auto
    then show ?thesis using client_view_insert [OF L(2)] by blast
  qed
next
  case (malloc_null h R n h')
  then obtain L f where L: "heap_live h L" "client_view L R f" by blast
  have "h' = h"
  proof (cases "n = 0")
    case True
    then show ?thesis using malloc_null(3) by (simp add: kmalloc_def)
  next
    case False
    then have g: "kmalloc h n = kmalloc h (granted n)" "0 < granted n" "granted n + 31 < 2 ^ 64"
      using kmalloc_granted malloc_null(2) by auto
    from L(1) g(2,3) show ?thesis using malloc_null(3) g(1) by (cases rule: ka.alloc_returns) auto
  qed
  then show ?case using L by blast
next
  case (free h R p n h')
  then obtain L f where L: "heap_live h L" "client_view L R f" by blast
  have "(p, f p) \<in> L" using L(2) free(2) by (simp add: client_view_def)
  from kfree_live [OF L(1) this] free(3) have "heap_live h' (L - {(p, f p)})" by simp
  then show ?case using client_view_remove [OF L(2) free(2)] by blast
qed

text \<open>C4. However a client allocates, any number of bytes at a time, and frees, every buffer it holds
  is 16-byte aligned, lies inside the heap, overlaps none of the others, and is as long as it asked
  for; the exception are requests within 31 bytes of \<open>2 ^ 64\<close>, whose size wraps and which are granted
  16 bytes.\<close>

theorem heap_buffers_disjoint:
  assumes "heap_reach h R" and "(p, n) \<in> R"
  shows "16 dvd p \<and> heap_start h \<le> p \<and> p + granted n \<le> heap_end h \<and>
    (\<forall>q m. (q, m) \<in> R \<and> (q, m) \<noteq> (p, n) \<longrightarrow> p + granted n \<le> q \<or> q + granted m \<le> p)"
proof -
  obtain L f where L: "heap_live h L" "client_view L R f"
    using heap_reach_live [OF assms(1)] by blast
  then have p: "(p, f p) \<in> L" "granted n \<le> f p" and inj: "inj_on fst R"
    using assms(2) by (auto simp: client_view_def)
  have "p + granted n \<le> q \<or> q + granted m \<le> p" if q: "(q, m) \<in> R" "(q, m) \<noteq> (p, n)" for q m
  proof -
    have "(q, f q) \<in> L" "granted m \<le> f q" using L(2) q(1) by (auto simp: client_view_def)
    moreover have "p \<noteq> q" using inj_onD [OF inj, of "(p, n)" "(q, m)"] assms(2) q by auto
    ultimately show ?thesis using heap_live_disjoint [OF L(1) p(1), of q "f q"] p(2) by auto
  qed
  then show ?thesis using heap_live_region [OF L(1) p(1)] p(2) by auto
qed

lemma heap_buffers_disjoint_witness:
  "\<exists>h p q. heap_reach h {(q, 64), (p, 100)} \<and> (p + 100 \<le> q \<or> q + 64 \<le> p)"
proof -
  have r0: "heap_reach example_heap {}"
    using example_heap_init by (intro heap_reach.init [of _ 4096 8192]) auto
  have f1: "afit (kmalloc_need 100) [(8192, False)] = Some (0, [(128, True), (8064, False)])"
    and f2: "afit (kmalloc_need 64) [(128, True), (8064, False)] = Some (128, [(128, True), (80, True), (7984, False)])"
    by (simp_all add: kmalloc_need_def align_up64_def align_down_def add64_def split_blk_def)
  from kmalloc_first_fit [OF example_heap_rep(1), of 100] f1 obtain h1 where
    h1: "kmalloc example_heap 100 = Some (h1, 4112)" "heap_rep h1 [(128, True), (8064, False)]"
      "heap_start h1 = 4096" by (auto simp: example_heap_rep)
  from kmalloc_first_fit [OF h1(2), of 64] f2 obtain h2 where
    h2: "kmalloc h1 64 = Some (h2, 4240)" by (auto simp: h1(3))
  have "heap_reach h1 {(4112, 100)}" using heap_reach.malloc [OF r0 _ h1(1)] by simp
  then have r: "heap_reach h2 {(4240, 64), (4112, 100)}"
    using heap_reach.malloc [OF _ _ h2] by simp
  have "4112 + 100 \<le> (4240 :: nat) \<or> 4240 + 64 \<le> (4112 :: nat)"
    using heap_buffers_disjoint [OF r, of 4112 100] by (auto simp: granted_def)
  then show ?thesis using r by blast
qed

text \<open>The rounding of the request is not checked for overflow: a request within 31 bytes of
  \<open>2 ^ 64\<close> wraps to the minimum block and is granted with 16 usable bytes.\<close>

theorem kmalloc_huge_request_wraps:
  assumes "heap_rep h ((s, False) # bs)" and "2 ^ 64 \<le> sz + 31" and "sz < 2 ^ 64" and "64 \<le> s"
  shows "\<exists>h'. kmalloc h sz = Some (h', heap_start h + 16) \<and>
    heap_rep h' ((32, True) # (s - 32, False) # bs)"
proof -
  have "kmalloc_need sz = 32" by (rule kmalloc_need_wraps [OF assms(2,3)])
  moreover have "0 < sz" using assms(2) by simp
  ultimately show ?thesis
    using kmalloc_first_fit [OF assms(1), of sz] assms(4)
    by (auto simp: split_blk_def split: option.splits if_splits)
qed

lemma kmalloc_huge_request_wraps_witness:
  "\<exists>h'. kmalloc example_heap (2 ^ 64 - 16) = Some (h', 4112) \<and>
     heap_rep h' [(32, True), (8160, False)]"
  using kmalloc_huge_request_wraps [OF example_heap_rep(1), of "2 ^ 64 - 16"]
  by (simp add: example_heap_rep)

text \<open>The two diagnostics count what they say: the number of blocks, and the bytes of
  payload in use.\<close>

lemma heap_diagnostics:
  assumes "heap_rep h bs"
  shows "kheap_block_count h = Some (length bs) \<and>
    kheap_used h = Some (sum_list (map (\<lambda>(s, u). if u then s - 16 else 0) bs))"
  using assms count_walk_tiles [of h "heap_start h" 0 bs 0] used_walk_tiles [of h "heap_start h" 0 bs 0]
  by (auto simp: heap_rep_def kheap_block_count_def kheap_used_def)

lemma heap_diagnostics_witness:
  "kheap_block_count example_heap = Some 1 \<and> kheap_used example_heap = Some 0"
  using heap_diagnostics [OF example_heap_rep(1)] by simp

end
