(* ===== verification/Pmem.thy ===== *)
theory Pmem
  imports Heap
begin

unbundle bit_operations_syntax

text \<open>
  Physical frames: the page allocator \<open>kernel/core/pmem.c\<close> and the copy-on-write reference
  counts \<open>kernel/core/pmem_refcount.c\<close>.

  The free list is stored in the free pages themselves: \<open>mem\<close> is the 64-bit word at each
  8-byte aligned physical address, and the first word of a free page is the address of the next.
  \<open>linked\<close> and \<open>pmem_rep\<close> read the list back; every operation is shown to act on that list.
  The reference counts are 16-bit words, with the increment wrapping as in the code.  The
  relation \<open>frames_reach\<close> lets any number of owners allocate, share, write and release frames
  in any order, and counts the owners of each frame; its invariant is what makes copy-on-write
  sound: a frame is on the free list exactly when nobody holds it.
\<close>

section \<open>The page allocator\<close>

record pmem =
  free_head :: nat
  total_pages :: nat
  free_pages :: nat
  mem :: "nat \<Rightarrow> nat"

abbreviation (input) PAGE_SIZE :: nat where
  "PAGE_SIZE \<equiv> 4096"

text \<open>A region of memory or a carve-out: base and size.\<close>

type_synonym region = "nat \<times> nat"

definition range_overlaps :: "nat \<Rightarrow> nat \<Rightarrow> nat \<Rightarrow> nat \<Rightarrow> bool" where
  "range_overlaps a_base a_size b_base b_size =
     (let a_end = add64 a_base a_size; b_end = add64 b_base b_size
      in \<not> (a_end \<le> b_base \<or> b_end \<le> a_base))"

fun page_excluded :: "nat \<Rightarrow> region list \<Rightarrow> bool" where
  "page_excluded pa [] = False"
| "page_excluded pa ((base, sz) # carve) =
     (if range_overlaps pa PAGE_SIZE base sz then True else page_excluded pa carve)"

definition push_free :: "pmem \<Rightarrow> nat \<Rightarrow> pmem" where
  "push_free s pa =
     s\<lparr>mem := (mem s)(pa := free_head s), free_head := pa, free_pages := add64 (free_pages s) 1\<rparr>"

fun init_pages :: "pmem \<Rightarrow> region list \<Rightarrow> nat \<Rightarrow> nat \<Rightarrow> pmem" where
  "init_pages s carve pa start =
     (if start < pa then
        let pa1 = pa - PAGE_SIZE;
            s1 = s\<lparr>total_pages := add64 (total_pages s) 1\<rparr>;
            s2 = (if page_excluded pa1 carve then s1 else push_free s1 pa1)
        in init_pages s2 carve pa1 start
      else s)"

declare init_pages.simps [simp del]

definition region_start :: "region \<Rightarrow> nat" where
  "region_start r = align_up64 PAGE_SIZE (fst r)"

definition region_end :: "region \<Rightarrow> nat" where
  "region_end r = align_down PAGE_SIZE (add64 (fst r) (snd r))"

definition pmem_init :: "pmem \<Rightarrow> region list \<Rightarrow> region list \<Rightarrow> pmem \<times> nat" where
  "pmem_init s regions carve =
     (let s0 = s\<lparr>free_head := 0, total_pages := 0, free_pages := 0\<rparr>;
          s1 = fold (\<lambda>r s. init_pages s carve (region_end r) (region_start r)) (rev regions) s0
      in (s1, free_pages s1))"

definition zero_page :: "(nat \<Rightarrow> nat) \<Rightarrow> nat \<Rightarrow> (nat \<Rightarrow> nat)" where
  "zero_page m pa = fold (\<lambda>i m. m(pa + 8 * i := 0)) [0..<PAGE_SIZE div 8] m"

definition pmem_alloc_page :: "pmem \<Rightarrow> pmem \<times> nat" where
  "pmem_alloc_page s =
     (if free_head s = 0 then (s, 0)
      else let pa = free_head s;
               s1 = s\<lparr>free_head := mem s pa, free_pages := sub64 (free_pages s) 1\<rparr>
           in (s1\<lparr>mem := zero_page (mem s1) pa\<rparr>, pa))"

text \<open>The loop of \<open>pmem_alloc_contig\<close>: \<open>n\<close> more pages, the next one expected at \<open>expected\<close>.\<close>

fun contig_rest :: "nat \<Rightarrow> pmem \<Rightarrow> nat \<Rightarrow> nat \<Rightarrow> pmem \<times> nat" where
  "contig_rest 0 s first expected = (s, first)"
| "contig_rest (Suc n) s first expected =
     (let (s1, got) = pmem_alloc_page s
      in if got = 0 \<or> got \<noteq> expected then (s1, 0)
         else contig_rest n s1 first (add64 expected PAGE_SIZE))"

definition pmem_alloc_contig :: "pmem \<Rightarrow> nat \<Rightarrow> pmem \<times> nat" where
  "pmem_alloc_contig s npages =
     (if npages = 0 then (s, 0)
      else let (s1, first) = pmem_alloc_page s
           in if first = 0 then (s1, 0)
              else contig_rest (npages - 1) s1 first (add64 first PAGE_SIZE))"

definition pmem_free_page :: "pmem \<Rightarrow> nat \<Rightarrow> pmem" where
  "pmem_free_page s pa = (if pa = 0 \<or> pa mod PAGE_SIZE \<noteq> 0 then s else push_free s pa)"

definition pmem_total_pages :: "pmem \<Rightarrow> nat" where
  "pmem_total_pages s = total_pages s"

definition pmem_free_pages :: "pmem \<Rightarrow> nat" where
  "pmem_free_pages s = free_pages s"

section \<open>Reference counts\<close>

text \<open>\<open>g_rc\<close> is \<open>None\<close> until the table has been allocated.\<close>

record refcounts =
  g_rc :: "u16 list option"
  g_base :: nat
  g_npages :: nat

definition pa_in_range :: "refcounts \<Rightarrow> nat \<Rightarrow> bool" where
  "pa_in_range r pa \<longleftrightarrow>
     g_rc r \<noteq> None \<and> g_base r \<le> pa \<and> (pa - g_base r) div 4096 < g_npages r"

definition pa_to_idx :: "refcounts \<Rightarrow> nat \<Rightarrow> nat" where
  "pa_to_idx r pa = (pa - g_base r) div 4096"

text \<open>\<open>None\<close>: the table does not fit in the heap, which stops the boot in a \<open>wfe\<close> loop.\<close>

definition pmem_refcount_init :: "heap \<Rightarrow> nat \<Rightarrow> nat \<Rightarrow> (heap \<times> refcounts \<times> nat) option" where
  "pmem_refcount_init h dram_base dram_size =
     (let npages = dram_size div 4096; bytes = npages * 2 in
      case kmalloc h bytes of
        None \<Rightarrow> None
      | Some (h1, p) \<Rightarrow>
          if p = 0 then None
          else Some (h1, \<lparr>g_rc = Some (replicate npages 0), g_base = dram_base, g_npages = npages\<rparr>,
                     npages))"

definition pmem_refcount_set :: "refcounts \<Rightarrow> nat \<Rightarrow> u16 \<Rightarrow> refcounts" where
  "pmem_refcount_set r pa v =
     (if \<not> pa_in_range r pa then r
      else r\<lparr>g_rc := map_option (\<lambda>t. t[pa_to_idx r pa := v]) (g_rc r)\<rparr>)"

definition pmem_refcount_get :: "refcounts \<Rightarrow> nat \<Rightarrow> u16" where
  "pmem_refcount_get r pa =
     (if \<not> pa_in_range r pa then 0 else the (g_rc r) ! pa_to_idx r pa)"

definition pmem_refcount_share :: "refcounts \<Rightarrow> nat \<Rightarrow> refcounts" where
  "pmem_refcount_share r pa =
     (if \<not> pa_in_range r pa then r
      else let i = pa_to_idx r pa; c = the (g_rc r) ! i
           in if c = 0 then r\<lparr>g_rc := map_option (\<lambda>t. t[i := 2]) (g_rc r)\<rparr>
              else r\<lparr>g_rc := map_option (\<lambda>t. t[i := c + 1]) (g_rc r)\<rparr>)"

definition pmem_refcount_dec :: "refcounts \<Rightarrow> nat \<Rightarrow> refcounts \<times> u16" where
  "pmem_refcount_dec r pa =
     (if \<not> pa_in_range r pa then (r, 0)
      else let i = pa_to_idx r pa; c = the (g_rc r) ! i
           in if c = 0 then (r, 0)
              else (r\<lparr>g_rc := map_option (\<lambda>t. t[i := c - 1]) (g_rc r)\<rparr>, c - 1))"

definition pmem_dec_and_free :: "pmem \<Rightarrow> refcounts \<Rightarrow> nat \<Rightarrow> pmem \<times> refcounts" where
  "pmem_dec_and_free s r pa =
     (if pa = 0 then (s, r)
      else let cur = pmem_refcount_get r pa
           in if 2 \<le> cur then (s, fst (pmem_refcount_dec r pa))
              else let r1 = (if cur = 1 then pmem_refcount_set r pa 0 else r)
                   in (pmem_free_page s pa, r1))"

section \<open>The free list\<close>

fun linked :: "(nat \<Rightarrow> nat) \<Rightarrow> nat \<Rightarrow> nat list \<Rightarrow> bool" where
  "linked m p [] = (p = 0)"
| "linked m p (x # xs) = (p = x \<and> x \<noteq> 0 \<and> linked m (m x) xs)"

definition page_ok :: "nat \<Rightarrow> bool" where
  "page_ok x \<longleftrightarrow> x \<noteq> 0 \<and> 4096 dvd x \<and> x < 2 ^ 64"

definition pmem_rep :: "pmem \<Rightarrow> nat list \<Rightarrow> bool" where
  "pmem_rep s xs \<longleftrightarrow> linked (mem s) (free_head s) xs \<and> distinct xs \<and> (\<forall>x\<in>set xs. page_ok x) \<and>
     free_pages s = length xs"

text \<open>The pages of a region, lowest first, and those of them that are not carved out.\<close>

definition pages_between :: "nat \<Rightarrow> nat \<Rightarrow> nat list" where
  "pages_between s e = map (\<lambda>k. s + 4096 * k) [0..<(e - s) div 4096]"

definition all_pages :: "region list \<Rightarrow> nat list" where
  "all_pages regions = concat (map (\<lambda>r. pages_between (region_start r) (region_end r)) regions)"

definition usable_pages :: "region list \<Rightarrow> region list \<Rightarrow> nat list" where
  "usable_pages regions carve = filter (\<lambda>pa. \<not> page_excluded pa carve) (all_pages regions)"

lemma linked_upd [simp]: "x \<notin> set xs \<Longrightarrow> linked (m(x := v)) p xs = linked m p xs"
  by (induction xs arbitrary: p) auto

lemma linked_cong: "(\<And>x. x \<in> set xs \<Longrightarrow> m x = m' x) \<Longrightarrow> linked m p xs = linked m' p xs"
  by (induction xs arbitrary: p) auto

lemma linked_nil_iff: "linked m p xs \<Longrightarrow> p = 0 \<longleftrightarrow> xs = []"
  by (cases xs) auto

lemma pages_bounded: "distinct xs \<Longrightarrow> (\<forall>x\<in>set xs. page_ok x) \<Longrightarrow> length xs < 2 ^ 64"
proof -
  assume "distinct xs" "\<forall>x\<in>set xs. page_ok x"
  then have "set xs \<subseteq> {1..<2 ^ 64}" by (auto simp: page_ok_def)
  then have "card (set xs) \<le> card {1..<(2 :: nat) ^ 64}" by (intro card_mono) simp_all
  then show "length xs < 2 ^ 64" using distinct_card [OF \<open>distinct xs\<close>] by simp
qed

lemma pmem_rep_length: "pmem_rep s xs \<Longrightarrow> length xs < 2 ^ 64"
  unfolding pmem_rep_def by (blast intro: pages_bounded)

lemma push_free_rep:
  assumes "pmem_rep s xs" "page_ok pa" "pa \<notin> set xs"
  shows "pmem_rep (push_free s pa) (pa # xs)"
proof -
  have "length (pa # xs) < 2 ^ 64"
    using assms by (intro pages_bounded) (auto simp: pmem_rep_def)
  then show ?thesis using assms by (simp add: pmem_rep_def push_free_def add64_def page_ok_def)
qed

lemma push_free_frame [frame]:
  "total_pages (push_free s pa) = total_pages s"
  "a \<noteq> pa \<Longrightarrow> mem (push_free s pa) a = mem s a"
  by (simp_all add: push_free_def)

lemma zero_page_apply:
  "zero_page m pa a = (if \<exists>i<512. a = pa + 8 * i then 0 else m a)"
proof -
  have "fold (\<lambda>i m. m(pa + 8 * i := 0)) [0..<n] m a = (if \<exists>i<n. a = pa + 8 * i then 0 else m a)"
    for n by (induction n) (auto simp: less_Suc_eq)
  from this [of 512] show ?thesis unfolding zero_page_def by simp
qed

lemma page_offset_unique:
  assumes "4096 dvd x" "4096 dvd (y :: nat)" "x \<noteq> y"
  shows "x + d = y + e \<Longrightarrow> d < 4096 \<Longrightarrow> \<not> e < 4096"
  using assms by (auto elim!: dvdE)

lemma zero_page_other: "4096 dvd x \<Longrightarrow> 4096 dvd pa \<Longrightarrow> x \<noteq> pa \<Longrightarrow> zero_page m pa x = m x"
  using page_offset_unique [of x pa 0] by (auto simp: zero_page_apply)

lemma alloc_rep:
  assumes "pmem_rep s xs"
  shows "case xs of [] \<Rightarrow> pmem_alloc_page s = (s, 0)
    | pa # ys \<Rightarrow> snd (pmem_alloc_page s) = pa \<and> pmem_rep (fst (pmem_alloc_page s)) ys \<and>
        total_pages (fst (pmem_alloc_page s)) = total_pages s \<and>
        (\<forall>a. mem (fst (pmem_alloc_page s)) a = zero_page (mem s) pa a)"
proof (cases xs)
  case Nil
  then show ?thesis using assms by (simp add: pmem_rep_def pmem_alloc_page_def)
next
  case (Cons pa ys)
  have l: "linked (mem s) (mem s pa) ys" "free_head s = pa" "pa \<noteq> 0" "pa \<notin> set ys"
    and ok: "\<forall>x\<in>set ys. page_ok x" "page_ok pa"
    using assms by (auto simp: pmem_rep_def Cons)
  have "linked (zero_page (mem s) pa) (mem s pa) ys = linked (mem s) (mem s pa) ys"
    using l(4) ok by (intro linked_cong zero_page_other) (auto simp: page_ok_def)
  moreover have "sub64 (Suc (length ys)) 1 = length ys"
    using pmem_rep_length [OF assms] by (simp add: sub64_exact Cons)
  ultimately show ?thesis
    using assms l by (simp add: pmem_rep_def pmem_alloc_page_def Cons)
qed


section \<open>Building the free list\<close>

lemma pages_between_Suc:
  "pages_between s (s + 4096 * Suc n) = pages_between s (s + 4096 * n) @ [s + 4096 * n]"
  by (simp add: pages_between_def)

lemma pages_between_empty [simp]: "e \<le> s \<Longrightarrow> pages_between s e = []"
  by (simp add: pages_between_def)

lemma region_aligned [simp]: "4096 dvd region_start r" "4096 dvd region_end r"
  by (simp_all add: region_start_def region_end_def)

lemma region_end_bound: "region_end r < 2 ^ 64"
  using add64_less [of "fst r" "snd r"] align_down_le [of 4096 "add64 (fst r) (snd r)"]
  by (simp only: region_end_def)

lemma init_pages_rep:
  assumes "pmem_rep s xs" "4096 dvd start"
    and "distinct (filter (\<lambda>pa. \<not> page_excluded pa carve) (pages_between start (start + 4096 * n)) @ xs)"
    and "0 \<notin> set (filter (\<lambda>pa. \<not> page_excluded pa carve) (pages_between start (start + 4096 * n)))"
    and "start + 4096 * n < 2 ^ 64" and "total_pages s + n < 2 ^ 64"
  shows "pmem_rep (init_pages s carve (start + 4096 * n) start)
           (filter (\<lambda>pa. \<not> page_excluded pa carve) (pages_between start (start + 4096 * n)) @ xs) \<and>
         total_pages (init_pages s carve (start + 4096 * n) start) = total_pages s + n"
  using assms
proof (induction n arbitrary: s xs)
  case 0
  then show ?case by (simp add: init_pages.simps)
next
  case (Suc n)
  define pa where "pa = start + 4096 * n"
  define s1 where "s1 = s\<lparr>total_pages := add64 (total_pages s) 1\<rparr>"
  define s2 where "s2 = (if page_excluded pa carve then s1 else push_free s1 pa)"
  have step: "init_pages s carve (start + 4096 * Suc n) start = init_pages s2 carve pa start"
    by (subst init_pages.simps) (simp add: s2_def s1_def pa_def Let_def)
  have s1: "pmem_rep s1 xs" "total_pages s1 = Suc (total_pages s)"
    using Suc.prems by (simp_all add: s1_def pmem_rep_def add64_def)
  note split = pages_between_Suc [of start n, folded pa_def]
  have ok: "page_ok pa" if "\<not> page_excluded pa carve"
  proof -
    have "pa \<in> set (pages_between start (start + 4096 * Suc n))"
      unfolding pages_between_Suc by (simp add: pa_def)
    then have "pa \<noteq> 0" using Suc.prems(4) that by (metis (no_types, lifting) set_filter mem_Collect_eq)
    then show ?thesis using Suc.prems(2,5) by (simp add: page_ok_def pa_def)
  qed
  define ys where "ys = (if page_excluded pa carve then xs else pa # xs)"
  have "pa \<notin> set xs" if "\<not> page_excluded pa carve"
    using Suc.prems(3) that unfolding pages_between_Suc by (auto simp: pa_def)
  then have s2: "pmem_rep s2 ys" "total_pages s2 = Suc (total_pages s)"
    using s1 ok by (auto simp: s2_def ys_def frame intro: push_free_rep)
  have eq: "filter (\<lambda>pa. \<not> page_excluded pa carve) (pages_between start pa) @ ys =
     filter (\<lambda>pa. \<not> page_excluded pa carve) (pages_between start (start + 4096 * Suc n)) @ xs"
    by (simp add: pages_between_Suc [of start n] ys_def pa_def del: mult_Suc_right)
  have "pmem_rep (init_pages s2 carve pa start)
          (filter (\<lambda>pa. \<not> page_excluded pa carve) (pages_between start pa) @ ys) \<and>
        total_pages (init_pages s2 carve pa start) = total_pages s2 + n"
    unfolding pa_def
  proof (rule Suc.IH [OF s2(1) Suc.prems(2)])
    show "distinct (filter (\<lambda>pa. \<not> page_excluded pa carve) (pages_between start (start + 4096 * n)) @ ys)"
      using Suc.prems(3) eq by (simp add: pa_def)
    show "0 \<notin> set (filter (\<lambda>pa. \<not> page_excluded pa carve) (pages_between start (start + 4096 * n)))"
      using Suc.prems(4) unfolding pages_between_Suc by simp
  qed (use Suc.prems(5,6) s2 in simp_all)
  then show ?case unfolding step eq s2(2) by simp
qed

lemma init_region_rep:
  assumes "pmem_rep s xs" "distinct (usable_pages [r] carve @ xs)" "0 \<notin> set (usable_pages [r] carve)"
    and "total_pages s + length (all_pages [r]) < 2 ^ 64"
  shows "pmem_rep (init_pages s carve (region_end r) (region_start r)) (usable_pages [r] carve @ xs) \<and>
    total_pages (init_pages s carve (region_end r) (region_start r)) =
      total_pages s + length (all_pages [r])"
proof (cases "region_start r \<le> region_end r")
  case True
  define n where "n = (region_end r - region_start r) div 4096"
  have "4096 dvd (region_end r - region_start r)" by (intro dvd_diff_nat) simp_all
  then have e: "region_end r = region_start r + 4096 * n" using True by (simp add: n_def)
  have l: "length (all_pages [r]) = n" by (simp add: all_pages_def pages_between_def n_def)
  show ?thesis
    using init_pages_rep [OF assms(1), of "region_start r" carve n] assms(2-4) region_end_bound [of r] l
    by (simp add: usable_pages_def all_pages_def e)
next
  case False
  then have "init_pages s carve (region_end r) (region_start r) = s" "all_pages [r] = []"
    by (simp_all add: init_pages.simps all_pages_def)
  then show ?thesis using assms(1) by (simp add: usable_pages_def)
qed

lemma init_regions_rep:
  assumes "pmem_rep s xs" "distinct (usable_pages regions carve @ xs)"
    and "0 \<notin> set (usable_pages regions carve)"
    and "total_pages s + length (all_pages regions) < 2 ^ 64"
  defines "s' \<equiv> fold (\<lambda>r s. init_pages s carve (region_end r) (region_start r)) (rev regions) s"
  shows "pmem_rep s' (usable_pages regions carve @ xs) \<and>
    total_pages s' = total_pages s + length (all_pages regions)"
  using assms(1-4) unfolding s'_def
proof (induction regions)
  case Nil
  then show ?case by (simp add: usable_pages_def all_pages_def)
next
  case (Cons r rs)
  let ?s = "fold (\<lambda>r s. init_pages s carve (region_end r) (region_start r)) (rev rs) s"
  have u: "usable_pages (r # rs) carve = usable_pages [r] carve @ usable_pages rs carve"
    and a: "length (all_pages (r # rs)) = length (all_pages [r]) + length (all_pages rs)"
    by (simp_all add: usable_pages_def all_pages_def)
  have "pmem_rep ?s (usable_pages rs carve @ xs) \<and>
      total_pages ?s = total_pages s + length (all_pages rs)"
    using Cons.prems by (intro Cons.IH) (auto simp: u a)
  then show ?case
    using init_region_rep [of ?s "usable_pages rs carve @ xs" r carve] Cons.prems
    by (simp add: u a)
qed

lemma page_excluded_iff:
  "page_excluded pa carve \<longleftrightarrow> (\<exists>(b, n)\<in>set carve. range_overlaps pa 4096 b n)"
  by (induction carve) auto

lemma all_pages_bounded:
  "pa \<in> set (all_pages regions) \<Longrightarrow> 4096 dvd pa \<and> pa + 4096 \<le> 2 ^ 64"
proof -
  assume "pa \<in> set (all_pages regions)"
  then obtain r k where k: "k < (region_end r - region_start r) div 4096" "pa = region_start r + 4096 * k"
    by (auto simp: all_pages_def pages_between_def)
  have "Suc k * 4096 \<le> (region_end r - region_start r) div 4096 * 4096"
    using k(1) by (intro mult_le_mono1) simp
  also have "\<dots> \<le> region_end r - region_start r" by (rule div_times_less_eq_dividend)
  finally have "Suc k * 4096 \<le> region_end r - region_start r" .
  then have "pa + 4096 \<le> region_end r" using k(2) by simp
  then show ?thesis using k region_end_bound [of r] by simp
qed

section \<open>Contiguous runs\<close>

text \<open>The \<open>n\<close> pages that start at \<open>p\<close>.\<close>

primrec run :: "nat \<Rightarrow> nat \<Rightarrow> nat list" where
  "run p 0 = []"
| "run p (Suc n) = p # run (p + 4096) n"

lemma length_run [simp]: "length (run p n) = n"
  by (induction n arbitrary: p) auto

lemma alloc_nonempty:
  assumes "pmem_rep s (x # xs)"
  obtains s' where "pmem_alloc_page s = (s', x)" "pmem_rep s' xs" "x \<noteq> 0" "page_ok x"
    "mem s' = zero_page (mem s) x" "total_pages s' = total_pages s"
proof
  show "pmem_alloc_page s = (fst (pmem_alloc_page s), x)"
    using alloc_rep [OF assms] by (cases "pmem_alloc_page s") auto
  show "mem (fst (pmem_alloc_page s)) = zero_page (mem s) x"
    using alloc_rep [OF assms] by (intro ext) auto
qed (use alloc_rep [OF assms] assms in \<open>auto simp: pmem_rep_def page_ok_def\<close>)

lemma alloc_empty: "pmem_rep s [] \<Longrightarrow> pmem_alloc_page s = (s, 0)"
  using alloc_rep [of s "[]"] by simp

lemma add64_page:
  assumes "page_ok q" "page_ok y"
  shows "y = add64 q 4096 \<longleftrightarrow> y = q + 4096"
proof -
  have "q + 4096 \<le> 2 ^ 64"
    using assms(1) unfolding page_ok_def by (auto elim!: dvdE)
  then consider "q + 4096 < 2 ^ 64" | "q + 4096 = 2 ^ 64" by linarith
  then show ?thesis
    by cases (use assms(2) in \<open>auto simp: add64_def page_ok_def\<close>)
qed

lemma contig_rest_run:
  assumes "pmem_rep s xs" "page_ok q" "first \<noteq> 0"
  shows "\<exists>s' k. pmem_rep s' (drop k xs) \<and> k \<le> n \<and>
    contig_rest n s first (add64 q 4096) =
      (if take n xs = run (q + 4096) n then (s', first) else (s', 0)) \<and>
    (take n xs = run (q + 4096) n \<longrightarrow> k = n)"
  using assms
proof (induction n arbitrary: s xs q)
  case 0
  then show ?case by auto
next
  case (Suc n)
  show ?case
  proof (cases xs)
    case Nil
    then show ?thesis
      using Suc.prems(1) by (intro exI [of _ s] exI [of _ 0]) (simp add: alloc_empty)
  next
    case (Cons x ys)
    obtain s1 where s1: "pmem_alloc_page s = (s1, x)" "pmem_rep s1 ys" "x \<noteq> 0" "page_ok x"
      using alloc_nonempty Suc.prems(1) unfolding Cons by metis
    show ?thesis
    proof (cases "x = q + 4096")
      case True
      then have x: "x = add64 q 4096" using add64_page [OF Suc.prems(2) s1(4)] by simp
      have "contig_rest (Suc n) s first (add64 q 4096) = contig_rest n s1 first (add64 x 4096)"
        using s1 by (simp flip: x)
      moreover obtain s' k where "pmem_rep s' (drop k ys)" "k \<le> n"
        "contig_rest n s1 first (add64 x 4096) =
          (if take n ys = run (x + 4096) n then (s', first) else (s', 0))"
        "take n ys = run (x + 4096) n \<longrightarrow> k = n"
        using Suc.IH [OF s1(2,4) Suc.prems(3)] by blast
      ultimately show ?thesis unfolding Cons
        by (intro exI [of _ s'] exI [of _ "Suc k"]) (use True in \<open>simp del: contig_rest.simps\<close>)
    next
      case False
      then have x: "x \<noteq> add64 q 4096" using add64_page [OF Suc.prems(2) s1(4)] by simp
      show ?thesis unfolding Cons
        by (intro exI [of _ s1] exI [of _ 1]) (use s1 x False in simp)
    qed
  qed
qed

lemma contig_run:
  assumes "pmem_rep s xs" "0 < n"
  shows "\<exists>s' k. pmem_rep s' (drop k xs) \<and> k \<le> n \<and>
    pmem_alloc_contig s n = (if n \<le> length xs \<and> take n xs = run (hd xs) n then (s', hd xs) else (s', 0)) \<and>
    (n \<le> length xs \<and> take n xs = run (hd xs) n \<longrightarrow> k = n)"
proof (cases xs)
  case Nil
  then show ?thesis
    using assms by (intro exI [of _ s] exI [of _ 0]) (simp add: alloc_empty pmem_alloc_contig_def)
next
  case (Cons x ys)
  obtain m where n: "n = Suc m" using assms(2) by (cases n) auto
  obtain s1 where s1: "pmem_alloc_page s = (s1, x)" "pmem_rep s1 ys" "x \<noteq> 0" "page_ok x"
    using alloc_nonempty assms(1) unfolding Cons by metis
  have len: "take m ys = run (x + 4096) m \<Longrightarrow> m \<le> length ys"
    by (metis length_run length_take min.cobounded1)
  obtain s' k where "pmem_rep s' (drop k ys)" "k \<le> m"
    "contig_rest m s1 x (add64 x 4096) =
      (if take m ys = run (x + 4096) m then (s', x) else (s', 0))"
    "take m ys = run (x + 4096) m \<longrightarrow> k = m"
    using contig_rest_run [OF s1(2,4,3)] by blast
  then show ?thesis unfolding Cons n
    by (intro exI [of _ s'] exI [of _ "Suc k"])
      (use s1 len in \<open>auto simp: pmem_alloc_contig_def\<close>)
qed

section \<open>Reference counts\<close>

definition rc_ok :: "refcounts \<Rightarrow> bool" where
  "rc_ok r \<longleftrightarrow> (\<exists>t. g_rc r = Some t \<and> length t = g_npages r)"

lemma refcount_init_returns:
  assumes "pmem_refcount_init h base sz = Some (h', r, n)"
  shows "rc_ok r" "n = sz div 4096" "pmem_refcount_get r pa = 0"
    "pa_in_range r pa \<longleftrightarrow> base \<le> pa \<and> (pa - base) div 4096 < sz div 4096"
  using assms
  by (auto simp: pmem_refcount_init_def Let_def rc_ok_def pmem_refcount_get_def pa_in_range_def pa_to_idx_def
      split: option.splits if_splits)

lemma idx_inj:
  assumes "pa_in_range r pa" "pa_in_range r q" "4096 dvd pa" "4096 dvd q" "pa_to_idx r pa = pa_to_idx r q"
  shows "pa = q"
proof (rule ccontr)
  assume "pa \<noteq> q"
  have le: "g_base r \<le> pa" "g_base r \<le> q" using assms by (auto simp: pa_in_range_def)
  let ?k = "pa_to_idx r pa"
  have "pa - g_base r = ?k * 4096 + (pa - g_base r) mod 4096" "q - g_base r = ?k * 4096 + (q - g_base r) mod 4096"
    using assms(5) unfolding pa_to_idx_def by (metis div_mult_mod_eq)+
  then have "pa + (q - g_base r) mod 4096 = q + (pa - g_base r) mod 4096" using le by linarith
  then show False
    using page_offset_unique [OF assms(3,4) \<open>pa \<noteq> q\<close>, of "(q - g_base r) mod 4096" "(pa - g_base r) mod 4096"]
    by simp
qed

lemma rc_table_update:
  assumes "rc_ok r" "pa_in_range r pa"
    and r'_def: "r' = r\<lparr>g_rc := map_option (\<lambda>t. t[pa_to_idx r pa := v]) (g_rc r)\<rparr>"
  shows "rc_ok r'" "pa_in_range r' q = pa_in_range r q" "pmem_refcount_get r' pa = v"
    "4096 dvd pa \<Longrightarrow> 4096 dvd q \<Longrightarrow> q \<noteq> pa \<Longrightarrow> pmem_refcount_get r' q = pmem_refcount_get r q"
proof -
  obtain t where t: "g_rc r = Some t" "length t = g_npages r" using assms by (auto simp: rc_ok_def)
  have i: "pa_to_idx r pa < length t" using assms t by (simp add: pa_in_range_def pa_to_idx_def)
  show "rc_ok r'" using t by (simp add: rc_ok_def r'_def)
  show rng: "pa_in_range r' q = pa_in_range r q" for q using t by (simp add: pa_in_range_def r'_def)
  have idx: "pa_to_idx r' q = pa_to_idx r q" for q by (simp add: pa_to_idx_def r'_def)
  show "pmem_refcount_get r' pa = v"
    using t i assms(2) by (simp add: pmem_refcount_get_def rng idx) (simp add: r'_def)
  show "4096 dvd pa \<Longrightarrow> 4096 dvd q \<Longrightarrow> q \<noteq> pa \<Longrightarrow> pmem_refcount_get r' q = pmem_refcount_get r q"
  proof -
    assume q: "4096 dvd pa" "4096 dvd q" "q \<noteq> pa"
    have "g_rc r' = Some (t[pa_to_idx r pa := v])" using t by (simp add: r'_def)
    moreover have "pa_to_idx r pa \<noteq> pa_to_idx r q" if "pa_in_range r q"
      using idx_inj [OF assms(2) that q(1,2)] q(3) by blast
    ultimately show "pmem_refcount_get r' q = pmem_refcount_get r q"
      using t by (cases "pa_in_range r q") (simp_all add: pmem_refcount_get_def rng idx)
  qed
qed

text \<open>The operations in terms of what \<open>pmem_refcount_get\<close> reads.\<close>

lemma share_table:
  "pa_in_range r pa \<Longrightarrow> pmem_refcount_share r pa = r\<lparr>g_rc := map_option (\<lambda>t. t[pa_to_idx r pa :=
     if pmem_refcount_get r pa = 0 then 2 else pmem_refcount_get r pa + 1]) (g_rc r)\<rparr>"
  by (simp add: pmem_refcount_share_def pmem_refcount_get_def Let_def)

lemma set_table:
  "pa_in_range r pa \<Longrightarrow> pmem_refcount_set r pa v = r\<lparr>g_rc := map_option (\<lambda>t. t[pa_to_idx r pa := v]) (g_rc r)\<rparr>"
  by (simp add: pmem_refcount_set_def)

lemma dec_table:
  "pa_in_range r pa \<Longrightarrow> pmem_refcount_get r pa \<noteq> 0 \<Longrightarrow> fst (pmem_refcount_dec r pa) =
     r\<lparr>g_rc := map_option (\<lambda>t. t[pa_to_idx r pa := pmem_refcount_get r pa - 1]) (g_rc r)\<rparr>"
  by (simp add: pmem_refcount_dec_def pmem_refcount_get_def Let_def)


section \<open>Owners\<close>

text \<open>
  What the holders of frames can do, over the ghost count \<open>H\<close> of the owners of each frame:
  allocate a frame, write inside a frame they hold, share it with one more owner (a copy-on-write
  clone), release one reference, and give back a frame that has one owner.  A share is only allowed below 65535 owners;
  \<open>share_count_wraps\<close> below shows what happens beyond.
\<close>

inductive frames_reach :: "nat set \<Rightarrow> pmem \<Rightarrow> refcounts \<Rightarrow> (nat \<Rightarrow> nat) \<Rightarrow> bool" for pool :: "nat set" where
  boot: "frames_reach pool s r (\<lambda>_. 0)"
    if "fst (pmem_init s0 regions carve) = s" "pool = set (usable_pages regions carve)"
      "distinct (all_pages regions)" "0 \<notin> pool"
      "pmem_refcount_init h base sz = Some (h', r, n)"
      "\<forall>pa\<in>pool. base \<le> pa \<and> pa < base + 4096 * (sz div 4096)"
| alloc: "frames_reach pool s' r (H(pa := H pa + 1))"
    if "frames_reach pool s r H" "pmem_alloc_page s = (s', pa)" "pa \<noteq> 0"
| poke: "frames_reach pool (s\<lparr>mem := m\<rparr>) r H"
    if "frames_reach pool s r H" "1 \<le> H pa" "\<forall>a. m a \<noteq> mem s a \<longrightarrow> pa \<le> a \<and> a < pa + 4096"
| share: "frames_reach pool s (pmem_refcount_share r pa) (H(pa := H pa + 1))"
    if "frames_reach pool s r H" "1 \<le> H pa" "H pa < 65535"
| release: "frames_reach pool s' r' (H(pa := H pa - 1))"
    if "frames_reach pool s r H" "1 \<le> H pa" "pmem_dec_and_free s r pa = (s', r')"
| give_back: "frames_reach pool (pmem_free_page s pa) r (H(pa := 0))"
    if "frames_reach pool s r H" "H pa = 1"

text \<open>
  The count read from the table: 0 and 1 stand for at most one owner.  A frame that was shared
  once and freed with \<open>pmem_free_page\<close> keeps the 1 it had.
\<close>

definition count_ok :: "u16 \<Rightarrow> nat \<Rightarrow> bool" where
  "count_ok c n \<longleftrightarrow> unat c = n \<or> (c \<le> 1 \<and> n \<le> 1)"

definition frames_ok :: "nat set \<Rightarrow> pmem \<Rightarrow> refcounts \<Rightarrow> (nat \<Rightarrow> nat) \<Rightarrow> nat list \<Rightarrow> bool" where
  "frames_ok pool s r H xs \<longleftrightarrow> finite pool \<and> pmem_rep s xs \<and> set xs = {pa \<in> pool. H pa = 0} \<and>
     rc_ok r \<and> (\<forall>pa. pa \<notin> pool \<longrightarrow> H pa = 0) \<and>
     (\<forall>pa\<in>pool. page_ok pa \<and> pa_in_range r pa \<and> count_ok (pmem_refcount_get r pa) (H pa))"

lemma pmem_init_rep:
  assumes "distinct (all_pages regions)" "0 \<notin> set (usable_pages regions carve)"
  shows "pmem_rep (fst (pmem_init s regions carve)) (usable_pages regions carve)"
    "total_pages (fst (pmem_init s regions carve)) = length (all_pages regions)"
    "snd (pmem_init s regions carve) = length (usable_pages regions carve)"
proof -
  have "length (all_pages regions) = card (set (all_pages regions))"
    using assms(1) by (simp add: distinct_card)
  also have "\<dots> \<le> card {..<(2 :: nat) ^ 64 - 4095}"
    using all_pages_bounded [of _ regions] by (intro card_mono) force+
  finally have len: "length (all_pages regions) < 2 ^ 64" by simp
  have d: "distinct (usable_pages regions carve)" using assms(1) by (simp add: usable_pages_def)
  let ?s0 = "s\<lparr>free_head := 0, total_pages := 0, free_pages := 0\<rparr>"
  have "pmem_rep ?s0 []" by (simp add: pmem_rep_def)
  note init_regions_rep [OF this, of regions carve]
  then show "pmem_rep (fst (pmem_init s regions carve)) (usable_pages regions carve)"
    "total_pages (fst (pmem_init s regions carve)) = length (all_pages regions)"
    "snd (pmem_init s regions carve) = length (usable_pages regions carve)"
    using d assms(2) len by (simp_all add: pmem_init_def Let_def pmem_rep_def)
qed


lemma count_okD:
  "count_ok c n \<Longrightarrow> 2 \<le> c \<Longrightarrow> unat c = n" "count_ok c n \<Longrightarrow> \<not> 2 \<le> c \<Longrightarrow> n \<le> 1"
  by (auto simp: count_ok_def word_le_nat_alt)

lemma word_le_1: "c \<le> 1 \<longleftrightarrow> c = 0 \<or> c = (1 :: u16)"
  by (auto simp: word_le_nat_alt le_Suc_eq)

lemma count_ok_small: "m \<le> 1 \<Longrightarrow> count_ok c m \<Longrightarrow> n \<le> 1 \<Longrightarrow> count_ok c n"
  by (auto simp: count_ok_def word_le_1 le_Suc_eq)

lemma count_ok_0 [simp]: "count_ok c 0 \<longleftrightarrow> c \<le> 1"
  by (auto simp: count_ok_def)

lemma frames_boot:
  assumes "pool = set (usable_pages regions carve)" "distinct (all_pages regions)" "0 \<notin> pool"
    and "pmem_refcount_init h base sz = Some (h', r, n)"
    and "\<forall>pa\<in>pool. base \<le> pa \<and> pa < base + 4096 * (sz div 4096)"
  shows "frames_ok pool (fst (pmem_init s0 regions carve)) r (\<lambda>_. 0) (usable_pages regions carve)"
proof -
  note rep = pmem_init_rep(1) [OF assms(2), of carve s0] and r = refcount_init_returns [OF assms(4)]
  have "(pa - base) div 4096 < sz div 4096" if "pa \<in> pool" for pa
    using assms(5) that by (auto simp: div_less_iff_less_mult mult.commute)
  then show ?thesis
    using assms(1,3,5) rep r by (auto simp: frames_ok_def count_ok_def pmem_rep_def)
qed

lemma frames_alloc:
  assumes ok: "frames_ok pool s r H xs" and al: "pmem_alloc_page s = (s', pa)" "pa \<noteq> 0"
  obtains ys where "xs = pa # ys" "frames_ok pool s' r (H(pa := H pa + 1)) ys" "mem s' = zero_page (mem s) pa"
proof (cases xs)
  case Nil
  then show ?thesis using ok al alloc_empty by (auto simp: frames_ok_def)
next
  case (Cons x ys)
  then have rep: "pmem_rep s (x # ys)" using ok by (simp add: frames_ok_def)
  from alloc_nonempty [OF rep] al have s': "x = pa" "pmem_rep s' ys" "mem s' = zero_page (mem s) pa"
    by auto
  have x: "set (pa # ys) = {q \<in> pool. H q = 0}" "distinct (pa # ys)"
    using ok rep by (simp_all add: frames_ok_def pmem_rep_def Cons s'(1))
  then have "set ys = {q \<in> pool. (H(pa := H pa + 1)) q = 0}" "pa \<in> pool" "H pa = 0" by auto
  moreover from this have "pmem_refcount_get r pa \<le> 1" using ok by (auto simp: frames_ok_def)
  ultimately have "frames_ok pool s' r (H(pa := H pa + 1)) ys"
    using ok s'(2) by (auto simp: frames_ok_def count_ok_def)
  then show ?thesis using that s' Cons by simp
qed

lemma frames_poke:
  assumes ok: "frames_ok pool s r H xs" and "1 \<le> H pa"
    and m: "\<forall>a. m a \<noteq> mem s a \<longrightarrow> pa \<le> a \<and> a < pa + 4096"
  shows "frames_ok pool (s\<lparr>mem := m\<rparr>) r H xs"
proof -
  have pa: "page_ok pa" using ok assms(2) by (force simp: frames_ok_def)
  have "m x = mem s x" if x: "x \<in> set xs" for x
  proof (rule ccontr)
    assume "m x \<noteq> mem s x"
    then have "pa \<le> x" "x < pa + 4096" using m by auto
    moreover have "x \<noteq> pa" "page_ok x" using ok x assms(2) by (auto simp: frames_ok_def)
    ultimately show False
      using page_offset_unique [of x pa 0 "x - pa"] pa by (auto simp: page_ok_def)
  qed
  then have "linked m (free_head s) xs = linked (mem s) (free_head s) xs" by (rule linked_cong)
  then show ?thesis using ok by (simp add: frames_ok_def pmem_rep_def)
qed

lemma frames_update:
  assumes ok: "frames_ok pool s r H xs" and pa: "pa \<in> pool"
    and r': "r' = r\<lparr>g_rc := map_option (\<lambda>t. t[pa_to_idx r pa := v]) (g_rc r)\<rparr>"
    and n: "count_ok v n" and s': "pmem_rep s' ys" "set ys = {q \<in> pool. (H(pa := n)) q = 0}"
  shows "frames_ok pool s' r' (H(pa := n)) ys"
proof -
  have a: "rc_ok r" "pa_in_range r pa" and al: "\<And>q. q \<in> pool \<Longrightarrow> 4096 dvd q"
    using ok pa by (auto simp: frames_ok_def page_ok_def)
  note tab = rc_table_update [OF a r']
  have "count_ok (pmem_refcount_get r' q) ((H(pa := n)) q)" if "q \<in> pool" for q
    using tab(3) tab(4) [of q] ok al pa that n by (cases "q = pa") (auto simp: frames_ok_def)
  then show ?thesis using ok tab(1,2) s' pa by (auto simp: frames_ok_def)
qed

lemma unat_succ16: "unat (c :: u16) < 65535 \<Longrightarrow> unat (c + 1) = Suc (unat c)"
  by (simp add: unat_word_ariths)

lemma unat_pred16: "2 \<le> (c :: u16) \<Longrightarrow> unat (c - 1) = unat c - 1"
  by (simp add: unat_sub word_le_nat_alt)

lemma frames_share:
  assumes ok: "frames_ok pool s r H xs" and H: "1 \<le> H pa" "H pa < 65535"
  shows "frames_ok pool s (pmem_refcount_share r pa) (H(pa := H pa + 1)) xs"
proof -
  have pa: "pa \<in> pool" using ok H by (force simp: frames_ok_def)
  let ?c = "pmem_refcount_get r pa"
  have "pa_in_range r pa" and c: "count_ok ?c (H pa)" using ok pa by (auto simp: frames_ok_def)
  moreover have "count_ok (if ?c = 0 then 2 else ?c + 1) (H pa + 1)"
    using c H unat_succ16 [of ?c] by (auto simp: count_ok_def word_le_1)
  ultimately show ?thesis
    using ok H by (intro frames_update [OF ok pa share_table]) (auto simp: frames_ok_def)
qed

lemma frames_release:
  assumes ok: "frames_ok pool s r H xs" and H: "1 \<le> H pa" and d: "pmem_dec_and_free s r pa = (s', r')"
  shows "\<exists>ys. frames_ok pool s' r' (H(pa := H pa - 1)) ys"
proof -
  have pa: "pa \<in> pool" using ok H by (force simp: frames_ok_def)
  let ?c = "pmem_refcount_get r pa"
  have rng: "pa_in_range r pa" and c: "count_ok ?c (H pa)" and p: "page_ok pa" and rep: "pmem_rep s xs"
    and xs: "set xs = {q \<in> pool. H q = 0}"
    using ok pa by (auto simp: frames_ok_def)
  then have nz: "pa \<noteq> 0" "pa mod 4096 = 0" by (auto simp: page_ok_def)
  show ?thesis
  proof (cases "2 \<le> ?c")
    case True
    then have "H pa = unat ?c" "1 < H pa" using count_okD(1) [OF c] by (auto simp: word_le_nat_alt)
    then have "count_ok (?c - 1) (H pa - 1)" using unat_pred16 [OF True] by (simp add: count_ok_def)
    moreover have "s' = s" "r' = fst (pmem_refcount_dec r pa)" "?c \<noteq> 0"
      using d nz True by (auto simp: pmem_dec_and_free_def Let_def)
    moreover have "set xs = {q \<in> pool. (H(pa := H pa - 1)) q = 0}" using xs \<open>1 < H pa\<close> by auto
    ultimately have "frames_ok pool s' r' (H(pa := H pa - 1)) xs"
      using frames_update [OF ok pa, of r' "?c - 1" "H pa - 1" s xs] dec_table [OF rng] rep by simp
    then show ?thesis by blast
  next
    case False
    then have h: "H pa = 1" using count_okD(2) [OF c] H by auto
    have s': "s' = push_free s pa" "r' = (if ?c = 1 then pmem_refcount_set r pa 0 else r)"
      using d nz False by (auto simp: pmem_dec_and_free_def Let_def pmem_free_page_def)
    have rep': "pmem_rep s' (pa # xs)" unfolding s' using rep p xs h by (intro push_free_rep) auto
    have c0: "r' = r\<lparr>g_rc := map_option (\<lambda>t. t[pa_to_idx r pa := 0]) (g_rc r)\<rparr> \<or> r' = r \<and> ?c = 0"
      using s'(2) set_table [OF rng, of 0] False by (auto simp: word_less_2)
    then show ?thesis
    proof
      assume "r' = r\<lparr>g_rc := map_option (\<lambda>t. t[pa_to_idx r pa := 0]) (g_rc r)\<rparr>"
      then have "frames_ok pool s' r' (H(pa := 0)) (pa # xs)"
        using rep' xs pa by (intro frames_update [OF ok pa]) (auto simp: count_ok_def)
      then show ?thesis using h by auto
    next
      assume "r' = r \<and> ?c = 0"
      then have "frames_ok pool s' r' (H(pa := 0)) (pa # xs)"
        using ok rep' xs pa by (auto simp: frames_ok_def count_ok_def)
      then show ?thesis using h by auto
    qed
  qed
qed

lemma frames_free:
  assumes ok: "frames_ok pool s r H xs" and H: "H pa = 1"
  shows "frames_ok pool (pmem_free_page s pa) r (H(pa := 0)) (pa # xs)"
proof -
  have pa: "pa \<in> pool" using ok H by (force simp: frames_ok_def)
  then have p: "page_ok pa" and rep: "pmem_rep s xs" and xs: "set xs = {q \<in> pool. H q = 0}"
    using ok by (auto simp: frames_ok_def)
  have "pmem_free_page s pa = push_free s pa" using p by (auto simp: pmem_free_page_def page_ok_def)
  moreover have "pmem_rep (push_free s pa) (pa # xs)" using rep p xs H by (intro push_free_rep) auto
  moreover have "count_ok (pmem_refcount_get r pa) 1" using ok pa H by (auto simp: frames_ok_def)
  then have "pmem_refcount_get r pa \<le> 1" by (auto simp: count_ok_def)
  ultimately show ?thesis using ok pa xs H by (auto simp: frames_ok_def)
qed

lemma frames_reach_ok: "frames_reach pool s r H \<Longrightarrow> \<exists>xs. frames_ok pool s r H xs"
proof (induction rule: frames_reach.induct)
  case boot
  then show ?case using frames_boot by blast
next
  case alloc
  then show ?case using frames_alloc by metis
next
  case poke
  then show ?case using frames_poke by blast
next
  case share
  then show ?case using frames_share by blast
next
  case release
  then show ?case using frames_release by blast
next
  case give_back
  then show ?case using frames_free by blast
qed


section \<open>Properties\<close>

definition example_pmem :: pmem where
  "example_pmem = \<lparr>free_head = 0, total_pages = 0, free_pages = 0, mem = (\<lambda>_. 0)\<rparr>"

lemma example_regions:
  "all_pages [(4000, 16500)] = [4096, 8192, 12288, 16384]"
  "usable_pages [(4000, 16500)] [(8200, 100)] = [4096, 12288, 16384]"
  "usable_pages [(4000, 16500)] [] = [4096, 8192, 12288, 16384]"
proof -
  have r: "region_start (4000, 16500) = 4096" "region_end (4000, 16500) = 20480"
    by (simp_all add: region_start_def region_end_def align_up64_def align_down_def add64_def)
  then show "all_pages [(4000, 16500)] = [4096, 8192, 12288, 16384]"
    by (simp add: all_pages_def pages_between_def upt_rec)
  then show "usable_pages [(4000, 16500)] [(8200, 100)] = [4096, 12288, 16384]"
    "usable_pages [(4000, 16500)] [] = [4096, 8192, 12288, 16384]"
    by (simp_all add: usable_pages_def range_overlaps_def add64_def)
qed

text \<open>The memory map in terms of bytes: the whole pages inside a region, and the pages a carve-out keeps
  back because they share a byte with it.  The code also keeps back a page with an empty carve-out
  strictly inside it.\<close>

definition bytes_of :: "region \<Rightarrow> nat set" where
  "bytes_of r = {fst r..<fst r + snd r}"

definition page_bytes :: "nat \<Rightarrow> nat set" where
  "page_bytes pa = {pa..<pa + 4096}"

definition whole_page :: "region list \<Rightarrow> nat \<Rightarrow> bool" where
  "whole_page regions pa \<longleftrightarrow> 4096 dvd pa \<and> (\<exists>r\<in>set regions. page_bytes pa \<subseteq> bytes_of r)"

definition withheld :: "region list \<Rightarrow> nat \<Rightarrow> bool" where
  "withheld carve pa \<longleftrightarrow> (\<exists>r\<in>set carve. page_bytes pa \<inter> bytes_of r \<noteq> {} \<or>
     snd r = 0 \<and> pa < fst r \<and> fst r < pa + 4096)"

lemma region_bounds:
  assumes "fst r + snd r + 4095 < 2 ^ 64" "4096 dvd pa"
  shows "region_start r \<le> pa \<and> pa + 4096 \<le> region_end r \<longleftrightarrow> page_bytes pa \<subseteq> bytes_of r"
proof -
  obtain k where pa: "pa = 4096 * k" using assms(2) by (rule dvdE)
  have "align_up64 4096 (fst r) \<le> pa \<longleftrightarrow> fst r \<le> pa"
    using assms(1) div_mult_mod_eq [of "fst r + 4095" 4096]
    by (simp add: align_up64_def align_down_def add64_exact pa minus_mod_eq_mult_div) linarith
  moreover have "pa + 4096 \<le> align_down 4096 (fst r + snd r) \<longleftrightarrow> pa + 4096 \<le> fst r + snd r"
    using less_eq_div_iff_mult_less_eq [of 4096 "Suc k" "fst r + snd r"]
    by (simp add: align_down_def pa minus_mod_eq_mult_div) linarith
  moreover have "page_bytes pa \<subseteq> bytes_of r \<longleftrightarrow> fst r \<le> pa \<and> pa + 4096 \<le> fst r + snd r"
    by (simp add: page_bytes_def bytes_of_def)
  ultimately show ?thesis using assms(1) by (simp add: region_start_def region_end_def add64_exact)
qed

lemma pages_between_set:
  assumes "4096 dvd s" "4096 dvd e"
  shows "set (pages_between s e) = {pa. 4096 dvd pa \<and> s \<le> pa \<and> pa + 4096 \<le> e}"
proof -
  obtain k l where s: "s = 4096 * k" and e: "e = 4096 * l" using assms by (auto elim!: dvdE)
  have d: "(e - s) div 4096 = l - k" by (simp add: s e flip: diff_mult_distrib2)
  have "pa \<in> set (pages_between s e) \<longleftrightarrow> 4096 dvd pa \<and> s \<le> pa \<and> pa + 4096 \<le> e" for pa
  proof
    assume "pa \<in> set (pages_between s e)"
    then show "4096 dvd pa \<and> s \<le> pa \<and> pa + 4096 \<le> e" by (auto simp: pages_between_def d s e)
  next
    assume a: "4096 dvd pa \<and> s \<le> pa \<and> pa + 4096 \<le> e"
    then obtain m where "pa = 4096 * m" by (auto elim: dvdE)
    then have "pa = s + 4096 * (m - k)" "m - k < l - k" using a by (auto simp: s e algebra_simps)
    then show "pa \<in> set (pages_between s e)" by (auto simp: pages_between_def d)
  qed
  then show ?thesis by blast
qed

lemma pages_between_sorted: "sorted_wrt (<) (pages_between s e)"
  by (simp add: pages_between_def sorted_wrt_map)

definition region_pages :: "region \<Rightarrow> nat list" where
  "region_pages r = pages_between (region_start r) (region_end r)"

lemma distinct_concat_map:
  assumes "\<And>r. r \<in> set rs \<Longrightarrow> distinct (f r)" "\<forall>j<length rs. \<forall>i<j. set (f (rs ! i)) \<inter> set (f (rs ! j)) = {}"
  shows "distinct (concat (map f rs))"
  using assms
proof (induction rs)
  case (Cons r rs)
  have "set (f r) \<inter> set (f x) = {}" if x: "x \<in> set rs" for x
  proof -
    obtain j where "j < length rs" "x = rs ! j" using x unfolding in_set_conv_nth by metis
    then show ?thesis using Cons.prems(2) [rule_format, of "Suc j" 0] by simp
  qed
  moreover have "\<forall>j<length rs. \<forall>i<j. set (f (rs ! i)) \<inter> set (f (rs ! j)) = {}"
    using Cons.prems(2) by (metis Suc_less_eq length_Cons nth_Cons_Suc)
  ultimately show ?case using Cons by auto
qed simp

lemma region_pages_set:
  assumes "fst r + snd r + 4095 < 2 ^ 64"
  shows "set (region_pages r) = {pa. whole_page [r] pa}"
  using region_bounds [OF assms]
  by (auto simp: region_pages_def pages_between_set region_start_def region_end_def align_up64_def whole_page_def)

lemma page_excluded_withheld:
  assumes "\<forall>r\<in>set carve. fst r + snd r < 2 ^ 64" "pa + 4096 < 2 ^ 64"
  shows "page_excluded pa carve = withheld carve pa"
proof -
  have "range_overlaps pa 4096 (fst r) (snd r) \<longleftrightarrow> page_bytes pa \<inter> bytes_of r \<noteq> {} \<or> snd r = 0 \<and> pa < fst r \<and> fst r < pa + 4096"
    if "r \<in> set carve" for r
  proof -
    have "page_bytes pa \<inter> bytes_of r \<noteq> {} \<longleftrightarrow> max pa (fst r) < min (pa + 4096) (fst r + snd r)"
      unfolding page_bytes_def bytes_of_def by auto
    then show ?thesis using assms that by (auto simp: range_overlaps_def add64_exact)
  qed
  then show ?thesis by (auto simp: page_excluded_iff withheld_def split: prod.splits) force+
qed

text \<open>C5. \<open>pmem_init\<close> puts on the free list exactly the pages that lie whole inside a region of the
  memory map and that no carve-out keeps back, region by region and lowest address first, and
  counts them and the pages of the map.  Regions are disjoint and, like the carve-outs, do not wrap;
  page 0 is not usable, 0 being the end of the list.\<close>

theorem pmem_init_low_first:
  assumes "\<forall>r\<in>set regions. fst r + snd r + 4095 < 2 ^ 64" and "\<forall>r\<in>set carve. fst r + snd r < 2 ^ 64"
    and "\<forall>j<length regions. \<forall>i<j. bytes_of (regions ! i) \<inter> bytes_of (regions ! j) = {}"
    and "whole_page regions 0 \<longrightarrow> withheld carve 0"
  shows "\<exists>pages. pmem_rep (fst (pmem_init s regions carve)) (concat pages) \<and> length pages = length regions \<and>
    (\<forall>i<length regions. sorted_wrt (<) (pages ! i) \<and>
       set (pages ! i) = {pa. whole_page [regions ! i] pa \<and> \<not> withheld carve pa}) \<and>
    snd (pmem_init s regions carve) = card {pa. whole_page regions pa \<and> \<not> withheld carve pa} \<and>
    pmem_total_pages (fst (pmem_init s regions carve)) = card {pa. whole_page regions pa}"
proof -
  have all: "all_pages regions = concat (map region_pages regions)"
    unfolding all_pages_def region_pages_def by (rule arg_cong [where f = concat]) simp
  have whole: "set (region_pages r) = {pa. whole_page [r] pa}" if "r \<in> set regions" for r
    using region_pages_set assms(1) that by blast
  have set_all: "set (all_pages regions) = {pa. whole_page regions pa}"
    using whole by (auto simp: all) (auto simp: whole_page_def)
  have ex: "page_excluded pa carve = withheld carve pa" if w: "whole_page regions pa" for pa
  proof (rule page_excluded_withheld [OF assms(2)])
    obtain r where "r \<in> set regions" "page_bytes pa \<subseteq> bytes_of r" using w unfolding whole_page_def by blast
    then show "pa + 4096 < 2 ^ 64" using assms(1) by (fastforce simp: page_bytes_def bytes_of_def)
  qed
  have "set (region_pages (regions ! i)) \<inter> set (region_pages (regions ! j)) = {}"
    if ij: "j < length regions" "i < j" for i j
  proof -
    have "\<not> (whole_page [regions ! i] pa \<and> whole_page [regions ! j] pa)" for pa
    proof -
      have "pa \<in> page_bytes pa" by (simp add: page_bytes_def)
      moreover have "bytes_of (regions ! i) \<inter> bytes_of (regions ! j) = {}" using assms(3) ij by blast
      ultimately show ?thesis by (auto simp: whole_page_def)
    qed
    then show ?thesis using whole [of "regions ! i"] whole [of "regions ! j"] ij by auto
  qed
  then have dist: "distinct (all_pages regions)"
    unfolding all using pages_between_sorted
    by (intro distinct_concat_map) (auto simp: region_pages_def strict_sorted_iff)
  have usable: "set (usable_pages regions carve) = {pa. whole_page regions pa \<and> \<not> withheld carve pa}"
    using ex by (auto simp: usable_pages_def set_all)
  then have "0 \<notin> set (usable_pages regions carve)" using assms(4) by simp
  note rep = pmem_init_rep [OF dist this, of s]
  define pages where "pages = map (\<lambda>r. filter (\<lambda>pa. \<not> page_excluded pa carve) (region_pages r)) regions"
  have cat: "concat pages = usable_pages regions carve"
    by (simp add: pages_def usable_pages_def all filter_concat o_def)
  have "sorted_wrt (<) (pages ! i) \<and> set (pages ! i) = {pa. whole_page [regions ! i] pa \<and> \<not> withheld carve pa}"
    if "i < length regions" for i
  proof
    show "sorted_wrt (<) (pages ! i)"
      using that pages_between_sorted by (simp add: pages_def region_pages_def sorted_wrt_filter)
    have "whole_page regions pa" if "whole_page [regions ! i] pa" for pa
      using that \<open>i < length regions\<close> by (auto simp: whole_page_def)
    then show "set (pages ! i) = {pa. whole_page [regions ! i] pa \<and> \<not> withheld carve pa}"
      using that whole [of "regions ! i"] ex by (auto simp: pages_def)
  qed
  moreover have "length (usable_pages regions carve) = card {pa. whole_page regions pa \<and> \<not> withheld carve pa}"
    using dist distinct_card [of "usable_pages regions carve"] usable by (simp add: usable_pages_def)
  moreover have "length (all_pages regions) = card {pa. whole_page regions pa}"
    using distinct_card [OF dist] set_all by simp
  moreover have "length pages = length regions" by (simp add: pages_def)
  ultimately show ?thesis using rep cat unfolding pmem_total_pages_def by metis
qed

lemma pmem_init_low_first_witness:
  "pmem_rep (fst (pmem_init example_pmem [(4000, 16500)] [(8200, 100), (16384, 0)])) [4096, 12288, 16384] \<and>
   snd (pmem_init example_pmem [(4000, 16500)] [(8200, 100), (16384, 0)]) = 3"
proof -
  let ?r = "[(4000, 16500)] :: region list" and ?c = "[(8200, 100), (16384, 0)] :: region list"
  have free: "{pa. whole_page ?r pa \<and> \<not> withheld ?c pa} = set [4096, 12288, 16384]"
  proof (rule set_eqI)
    fix pa :: nat
    show "pa \<in> {pa. whole_page ?r pa \<and> \<not> withheld ?c pa} \<longleftrightarrow> pa \<in> set [4096, 12288, 16384]"
    proof (cases "4096 dvd pa \<and> 4000 \<le> pa \<and> pa + 4096 \<le> 20500")
      case True
      then obtain k where "pa = 4096 * k" "1 \<le> k" "k \<le> 4" by (auto elim!: dvdE)
      then have "pa = 4096 \<or> pa = 8192 \<or> pa = 12288 \<or> pa = 16384" by auto
      then show ?thesis
        by (auto simp: whole_page_def withheld_def page_bytes_def bytes_of_def)
    next
      case False
      then show ?thesis by (auto simp: whole_page_def page_bytes_def bytes_of_def)
    qed
  qed
  have pre: "\<forall>r\<in>set ?r. fst r + snd r + 4095 < 2 ^ 64" "\<forall>r\<in>set ?c. fst r + snd r < 2 ^ 64"
    "\<forall>j<length ?r. \<forall>i<j. bytes_of (?r ! i) \<inter> bytes_of (?r ! j) = {}" "whole_page ?r 0 \<longrightarrow> withheld ?c 0"
    by (simp_all add: whole_page_def page_bytes_def bytes_of_def)
  obtain pages where p: "pmem_rep (fst (pmem_init example_pmem ?r ?c)) (concat pages)" "length pages = length ?r"
    "\<forall>i<length ?r. sorted_wrt (<) (pages ! i) \<and> set (pages ! i) = {pa. whole_page [?r ! i] pa \<and> \<not> withheld ?c pa}"
    "snd (pmem_init example_pmem ?r ?c) = card {pa. whole_page ?r pa \<and> \<not> withheld ?c pa}"
    using pmem_init_low_first [OF pre, of example_pmem] by blast
  obtain xs where xs: "pages = [xs]" using p(2) by (auto simp: length_Suc_conv)
  have "sorted_wrt (<) xs" "set xs = set [4096, 12288, 16384]" using p(3) free xs by auto
  then have "xs = [4096, 12288, 16384]" by (intro strict_sorted_equal) simp_all
  then show ?thesis using p(1,4) xs free by simp
qed

text \<open>C6. However frames are shared, written and released, an allocation never hands out a
  frame that somebody still holds; the frame comes zeroed, and no other frame's contents change.\<close>

theorem frame_exclusive:
  assumes "frames_reach pool s r H" and "pmem_alloc_page s = (s', pa)" and "pa \<noteq> 0"
  shows "pa \<in> pool \<and> H pa = 0 \<and> (\<forall>i<512. mem s' (pa + 8 * i) = 0) \<and>
    (\<forall>a. a < pa \<or> pa + 4096 \<le> a \<longrightarrow> mem s' a = mem s a)"
proof -
  obtain xs where ok: "frames_ok pool s r H xs" using frames_reach_ok [OF assms(1)] by blast
  obtain ys where ys: "xs = pa # ys" "mem s' = zero_page (mem s) pa"
    using frames_alloc [OF ok assms(2,3)] by metis
  have "pa \<in> set xs" by (simp add: ys)
  then show ?thesis using ok ys by (auto simp: frames_ok_def zero_page_apply)
qed

text \<open>C7. No frame is lost and none is on the free list twice: the free count is always the
  number of frames of the pool without an owner.\<close>

theorem frames_conserved:
  assumes "frames_reach pool s r H"
  shows "pmem_free_pages s = card {pa \<in> pool. H pa = 0}"
proof -
  obtain xs where ok: "frames_ok pool s r H xs" using frames_reach_ok [OF assms] by blast
  then have "card (set xs) = length xs" by (intro distinct_card) (simp add: frames_ok_def pmem_rep_def)
  then show ?thesis using ok by (simp add: frames_ok_def pmem_rep_def pmem_free_pages_def)
qed

lemma example_frames:
  "\<exists>s r. frames_reach {4096, 8192, 12288, 16384} s r (\<lambda>_. 0) \<and>
     pmem_rep s [4096, 8192, 12288, 16384]"
proof -
  let ?s = "fst (pmem_init example_pmem [(4000, 16500)] [])"
  have "afit (kmalloc_need 8) [(8192, False)] = Some (0, [(32, True), (8160, False)])"
    by (simp add: kmalloc_need_def align_up64_def align_down_def add64_def split_blk_def)
  then obtain h where "kmalloc example_heap 8 = Some (h, 4112)"
    using kmalloc_first_fit [OF example_heap_rep(1), of 8] by (auto simp: example_heap_rep)
  then have rc: "pmem_refcount_init example_heap 4096 16384 =
     Some (h, \<lparr>g_rc = Some (replicate 4 0), g_base = 4096, g_npages = 4\<rparr>, 4)"
    by (simp add: pmem_refcount_init_def)
  have "frames_reach (set (usable_pages [(4000, 16500)] [])) ?s
     \<lparr>g_rc = Some (replicate 4 0), g_base = 4096, g_npages = 4\<rparr> (\<lambda>_. 0)"
    by (rule frames_reach.boot [OF refl refl _ _ rc]) (simp_all add: example_regions)
  moreover have "pmem_rep ?s [4096, 8192, 12288, 16384]"
    using pmem_init_rep(1) [of "[(4000, 16500)]" "[]" example_pmem] by (simp add: example_regions)
  ultimately show ?thesis by (auto simp: example_regions)
qed

lemma frame_exclusive_witness:
  "\<exists>s r H s'. frames_reach {4096, 8192, 12288, 16384} s r H \<and> H 4096 = 2 \<and>
     pmem_alloc_page s = (s', 8192) \<and> H 8192 = 0 \<and> mem s' (8192 + 8 * 3) = 0"
proof -
  obtain s r where s: "frames_reach {4096, 8192, 12288, 16384} s r (\<lambda>_. 0)"
    "pmem_rep s [4096, 8192, 12288, 16384]" using example_frames by blast
  obtain s1 where s1: "pmem_alloc_page s = (s1, 4096)" "pmem_rep s1 [8192, 12288, 16384]"
    using alloc_nonempty [OF s(2)] by metis
  have "frames_reach {4096, 8192, 12288, 16384} s1 r ((\<lambda>_. 0)(4096 := 1))"
    using frames_reach.alloc [OF s(1) s1(1)] by simp
  then have r2: "frames_reach {4096, 8192, 12288, 16384} s1 (pmem_refcount_share r 4096) ((\<lambda>_. 0)(4096 := 2))"
    using frames_reach.share [of _ s1 r "(\<lambda>_. 0)(4096 := 1)" 4096] by (simp add: numeral_2_eq_2)
  obtain s2 where s2: "pmem_alloc_page s1 = (s2, 8192)"
    using alloc_nonempty [OF s1(2)] by metis
  from frame_exclusive [OF r2 s2] have "mem s2 (8192 + 8 * 3) = 0"
    by (simp only: simp_thms)
  then show ?thesis using r2 s2
    by (intro exI [of _ s1] exI [of _ "pmem_refcount_share r 4096"] exI [of _ "(\<lambda>_. 0)(4096 := 2)"]
        exI [of _ s2]) simp
qed

lemma frames_conserved_witness:
  "\<exists>s r. frames_reach {4096, 8192, 12288, 16384} s r (\<lambda>_. 0) \<and> pmem_free_pages s = 4"
proof -
  obtain s r where s: "frames_reach {4096, 8192, 12288, 16384} s r (\<lambda>_. 0)" using example_frames by blast
  have "{pa \<in> {4096, 8192, 12288, 16384}. (0 :: nat) = 0} = {4096, 8192, 12288, 16384 :: nat}" by auto
  then have "pmem_free_pages s = 4" using frames_conserved [OF s] by simp
  then show ?thesis using s by blast
qed

text \<open>\<open>pmem_alloc_contig\<close> succeeds exactly when the first \<open>n\<close> free pages are
  physically consecutive, and then takes those; otherwise it returns 0, and the pages it had
  popped are on no list any more.\<close>

lemma pmem_alloc_contig_run:
  assumes "pmem_rep s xs" and "0 < n"
  shows "\<exists>s' k. pmem_rep s' (drop k xs) \<and> k \<le> n \<and>
    pmem_alloc_contig s n =
      (if n \<le> length xs \<and> take n xs = run (hd xs) n then (s', hd xs) else (s', 0)) \<and>
    (n \<le> length xs \<and> take n xs = run (hd xs) n \<longrightarrow> k = n)"
  using assms by (rule contig_run)

lemma pmem_alloc_contig_run_witness:
  "\<exists>s s'. pmem_rep s [4096, 8192, 12288, 16384] \<and> pmem_alloc_contig s 3 = (s', 4096) \<and>
     pmem_rep s' [16384]"
proof -
  obtain s r where s: "pmem_rep s [4096, 8192, 12288, 16384]" using example_frames by blast
  from pmem_alloc_contig_run [OF s, of 3] show ?thesis
    using s by (auto simp: numeral_3_eq_3)
qed

text \<open>C11. The count of a frame is 16 bits wide and the increment is unchecked: the share that
  makes 65536 owners stores 0, after which the first release returns the frame to the free list
  while 65535 owners still map it.\<close>

theorem share_count_wraps:
  assumes "rc_ok r" and "pa_in_range r pa" and "pmem_refcount_get r pa = 65535"
    and "page_ok pa"
  shows "pmem_refcount_get (pmem_refcount_share r pa) pa = 0 \<and>
    fst (pmem_dec_and_free s (pmem_refcount_share r pa) pa) = push_free s pa"
proof -
  have "pmem_refcount_get (pmem_refcount_share r pa) pa = 65535 + 1"
    using rc_table_update(3) [OF assms(1,2) share_table] assms by simp
  then have "pmem_refcount_get (pmem_refcount_share r pa) pa = 0" by simp
  then show ?thesis
    using assms(4) by (auto simp: pmem_dec_and_free_def Let_def pmem_free_page_def page_ok_def)
qed

lemma share_count_wraps_witness:
  "pmem_refcount_get (pmem_refcount_share \<lparr>g_rc = Some [65535], g_base = 4096, g_npages = 1\<rparr> 4096) 4096 = 0 \<and>
   free_head (fst (pmem_dec_and_free example_pmem
     (pmem_refcount_share \<lparr>g_rc = Some [65535], g_base = 4096, g_npages = 1\<rparr> 4096) 4096)) = 4096"
  using share_count_wraps [of "\<lparr>g_rc = Some [65535], g_base = 4096, g_npages = 1\<rparr>" 4096 example_pmem]
  by (simp add: rc_ok_def pa_in_range_def pmem_refcount_get_def pa_to_idx_def page_ok_def push_free_def)

end
