(* ===== verification/Pipe.thy ===== *)
theory Pipe
  imports Heap "HOL-Library.Monad_Syntax"
begin

text \<open>
  Anonymous pipes and pseudo-terminals: \<open>kernel/core/pipe.c\<close> and \<open>kernel/core/pty.c\<close>.

  \<open>kstate\<close> is the kernel memory these objects live in: the heap of \<open>Heap\<close>, the bytes fresh
  memory happens to hold, and the pipe and pty structures at the addresses \<open>kmalloc\<close> returned.
  A pointer that is not (or no longer) the address of such a structure makes a dereference
  \<open>Fault\<close>.  Calls into the scheduler (\<open>thread_wake_blocked\<close>, \<open>thread_signal_pid\<close>) are
  recorded in \<open>log\<close>.

  A thread that blocks hands the processor to the others, and finds whatever state they leave when
  it is woken.  The blocking operations therefore take the list of their wake-ups: the kernel
  state, the clock and the pending-signal flag the thread finds each time
  \<open>thread_block_on\<close> returns.  A call whose wake-ups run out is still asleep (\<open>Blocked\<close>).
  Between two blocking points an operation runs without interleaving, as kernel code does.
\<close>

section \<open>Kernel memory\<close>

record pipe =
  buf :: "byte list"
  head :: nat
  tail :: nat
  count :: nat
  r_refs :: nat
  w_refs :: nat

record pty =
  m2s :: nat
  s2m :: nat
  fg_pid :: int
  refs :: int

datatype event = Wake nat | Signal int nat

record kstate =
  kheap :: heap
  ram :: "nat \<Rightarrow> byte"
  pipes :: "nat \<Rightarrow> pipe option"
  ptys :: "nat \<Rightarrow> pty option"
  log :: "event list"

text \<open>What a thread finds when \<open>thread_block_on\<close> returns.\<close>

record wakeup =
  wk_state :: kstate
  wk_now :: nat
  wk_sig :: bool

text \<open>The clock in milliseconds at the call comes with the remaining wake-ups.\<close>

type_synonym env = "nat \<times> wakeup list"

datatype 'r outcome = Ret kstate env 'r | Blocked kstate | Fault

abbreviation (input) PIPE_BUF_SIZE :: nat where "PIPE_BUF_SIZE \<equiv> 4096"
abbreviation (input) EPIPE :: int where "EPIPE \<equiv> 32"
abbreviation (input) EINTR :: int where "EINTR \<equiv> 4"
abbreviation (input) EINVAL :: int where "EINVAL \<equiv> 22"
abbreviation (input) ETIMEDOUT :: int where "ETIMEDOUT \<equiv> 110"

definition thread_wake_blocked :: "kstate \<Rightarrow> nat \<Rightarrow> kstate" where
  "thread_wake_blocked k p = k\<lparr>log := log k @ [Wake p]\<rparr>"

definition thread_signal_pid :: "kstate \<Rightarrow> int \<Rightarrow> nat \<Rightarrow> kstate" where
  "thread_signal_pid k pid sig = k\<lparr>log := log k @ [Signal pid sig]\<rparr>"

definition put_pipe :: "kstate \<Rightarrow> nat \<Rightarrow> pipe \<Rightarrow> kstate" where
  "put_pipe k p v = k\<lparr>pipes := (pipes k)(p := Some v)\<rparr>"

section \<open>Pipes\<close>

text \<open>What the \<open>n\<close> bytes at \<open>p\<close> happen to hold.\<close>

definition junk :: "kstate \<Rightarrow> nat \<Rightarrow> nat \<Rightarrow> byte list" where
  "junk k p n = map (ram k) [p..<p + n]"

lemma length_junk [simp]: "length (junk k p n) = n"
  by (simp add: junk_def)

definition pipe_alloc :: "kstate \<Rightarrow> (kstate \<times> nat) option" where
  "pipe_alloc k =
     (case kmalloc (kheap k) 4116 of
        None \<Rightarrow> None
      | Some (h, p) \<Rightarrow>
          if p = 0 then Some (k\<lparr>kheap := h\<rparr>, 0)
          else Some (put_pipe (k\<lparr>kheap := h\<rparr>) p
                 \<lparr>buf = junk k p PIPE_BUF_SIZE, head = 0, tail = 0, count = 0,
                  r_refs = 1, w_refs = 1\<rparr>, p))"

datatype pipe_ref = PIPE_REF_R | PIPE_REF_W

text \<open>\<open>None\<close>: a dereference of freed memory, or the panic of \<open>kfree\<close>.\<close>

definition pipe_free :: "kstate \<Rightarrow> nat \<Rightarrow> kstate option" where
  "pipe_free k p =
     (case kfree (kheap k) p of
        None \<Rightarrow> None
      | Some h \<Rightarrow> Some (k\<lparr>kheap := h, pipes := (pipes k)(p := None)\<rparr>))"

definition pipe_unref :: "kstate \<Rightarrow> nat \<Rightarrow> pipe_ref \<Rightarrow> kstate option" where
  "pipe_unref k p which =
     (if p = 0 then Some k
      else case pipes k p of
        None \<Rightarrow> None
      | Some v \<Rightarrow>
          let v1 = (case which of PIPE_REF_R \<Rightarrow> v\<lparr>r_refs := r_refs v - 1\<rparr>
                                | PIPE_REF_W \<Rightarrow> v\<lparr>w_refs := w_refs v - 1\<rparr>);
              k1 = put_pipe k p v1;
              k2 = (if (case which of PIPE_REF_R \<Rightarrow> r_refs v1 | PIPE_REF_W \<Rightarrow> w_refs v1) = 0
                    then thread_wake_blocked k1 p else k1)
          in if r_refs v1 = 0 \<and> w_refs v1 = 0 then pipe_free k2 p else Some k2)"

text \<open>The two copy loops, one byte at a time around the ring.\<close>

fun drain_loop :: "nat \<Rightarrow> pipe \<Rightarrow> byte list \<times> pipe" where
  "drain_loop 0 v = ([], v)"
| "drain_loop (Suc n) v =
     (let b = buf v ! head v;
          (bs, v') = drain_loop n (v\<lparr>head := (head v + 1) mod PIPE_BUF_SIZE\<rparr>)
      in (b # bs, v'))"

definition drain :: "nat \<Rightarrow> pipe \<Rightarrow> byte list \<times> pipe" where
  "drain n v = (let (bs, v1) = drain_loop n v in (bs, v1\<lparr>count := count v1 - n\<rparr>))"

fun fill_loop :: "byte list \<Rightarrow> pipe \<Rightarrow> pipe" where
  "fill_loop [] v = v"
| "fill_loop (b # bs) v =
     fill_loop bs (v\<lparr>buf := (buf v)[tail v := b], tail := (tail v + 1) mod PIPE_BUF_SIZE\<rparr>)"

definition fill :: "byte list \<Rightarrow> pipe \<Rightarrow> pipe" where
  "fill bs v = (let v1 = fill_loop bs v in v1\<lparr>count := count v1 + length bs\<rparr>)"

text \<open>The part of \<open>pipe_read_until\<close> after its loop.\<close>

definition read_drain :: "kstate \<Rightarrow> nat \<Rightarrow> pipe \<Rightarrow> nat \<Rightarrow> env \<Rightarrow> (int \<times> byte list) outcome" where
  "read_drain k p v len env =
     (let n = (if len < count v then len else count v);
          (bs, v1) = drain n v
      in Ret (thread_wake_blocked (put_pipe k p v1) p) env (int n, bs))"

fun read_loop :: "kstate \<Rightarrow> nat \<Rightarrow> nat \<Rightarrow> nat \<Rightarrow> nat \<Rightarrow> wakeup list \<Rightarrow> (int \<times> byte list) outcome" where
  "read_loop k p len deadline now ws =
     (case pipes k p of
        None \<Rightarrow> Fault
      | Some v \<Rightarrow>
          if count v \<noteq> 0 then read_drain k p v len (now, ws)
          else if w_refs v = 0 then Ret k (now, ws) (0, [])
          else if deadline \<noteq> 0 \<and> deadline \<le> now then Ret k (now, ws) (- ETIMEDOUT, [])
          else (case ws of
                  [] \<Rightarrow> Blocked k
                | w # ws' \<Rightarrow>
                    (case pipes (wk_state w) p of
                       None \<Rightarrow> Fault
                     | Some v' \<Rightarrow>
                         if 0 < count v' then read_loop (wk_state w) p len deadline (wk_now w) ws'
                         else if wk_sig w then Ret (wk_state w) (wk_now w, ws') (- EINTR, [])
                         else read_loop (wk_state w) p len deadline (wk_now w) ws')))"

declare read_loop.simps [simp del]

definition pipe_read_until ::
    "kstate \<Rightarrow> nat \<Rightarrow> bool \<Rightarrow> nat \<Rightarrow> nat \<Rightarrow> env \<Rightarrow> (int \<times> byte list) outcome" where
  "pipe_read_until k p buf_null len deadline env =
     (if p = 0 \<or> buf_null then Ret k env (- EINVAL, [])
      else if len = 0 then Ret k env (0, [])
      else read_loop k p len deadline (fst env) (snd env))"

definition pipe_read :: "kstate \<Rightarrow> nat \<Rightarrow> bool \<Rightarrow> nat \<Rightarrow> env \<Rightarrow> (int \<times> byte list) outcome" where
  "pipe_read k p buf_null len env = pipe_read_until k p buf_null len 0 env"

text \<open>\<open>PIPE_BUF_SIZE - p->count\<close> in 32-bit unsigned arithmetic.\<close>

definition ring_space :: "pipe \<Rightarrow> nat" where
  "ring_space v = (if count v \<le> PIPE_BUF_SIZE then PIPE_BUF_SIZE - count v
                   else PIPE_BUF_SIZE + 2 ^ 32 - count v mod 2 ^ 32)"

function write_loop :: "kstate \<Rightarrow> nat \<Rightarrow> byte list \<Rightarrow> nat \<Rightarrow> nat \<Rightarrow> nat \<Rightarrow> wakeup list \<Rightarrow> int outcome" where
  "write_loop k p src written deadline now ws =
     (if \<not> written < length src then Ret k (now, ws) (int written)
      else case pipes k p of
        None \<Rightarrow> Fault
      | Some v \<Rightarrow>
          if r_refs v = 0 then Ret k (now, ws) (if written > 0 then int written else - EPIPE)
          else if count v = PIPE_BUF_SIZE then
            (if deadline \<noteq> 0 \<and> deadline \<le> now
             then Ret k (now, ws) (if written > 0 then int written else - ETIMEDOUT)
             else case ws of
               [] \<Rightarrow> Blocked k
             | w # ws' \<Rightarrow> write_loop (wk_state w) p src written deadline (wk_now w) ws')
          else
            let can = ring_space v;
                want = (if length src - written > can then can else length src - written);
                v1 = fill (take want (drop written src)) v
            in write_loop (thread_wake_blocked (put_pipe k p v1) p) p src (written + want)
                 deadline now ws)"
  by pat_completeness auto
termination
  by (relation "measures [\<lambda>(k, p, src, written, d, n, ws). length ws,
        \<lambda>(k, p, src, written, d, n, ws). length src - written]")
    (auto simp: ring_space_def intro!: diff_less_mono2)

declare write_loop.simps [simp del]

definition pipe_write_until ::
    "kstate \<Rightarrow> nat \<Rightarrow> bool \<Rightarrow> byte list \<Rightarrow> nat \<Rightarrow> env \<Rightarrow> int outcome" where
  "pipe_write_until k p buf_null src deadline env =
     (if p = 0 \<or> buf_null then Ret k env (- EINVAL)
      else if length src = 0 then Ret k env 0
      else write_loop k p src 0 deadline (fst env) (snd env))"

definition pipe_write :: "kstate \<Rightarrow> nat \<Rightarrow> bool \<Rightarrow> byte list \<Rightarrow> env \<Rightarrow> int outcome" where
  "pipe_write k p buf_null src env = pipe_write_until k p buf_null src 0 env"


section \<open>Pseudo-terminals\<close>

definition pty_free :: "kstate \<Rightarrow> nat \<Rightarrow> kstate option" where
  "pty_free k p =
     do { h \<leftarrow> kfree (kheap k) p; Some (k\<lparr>kheap := h, ptys := (ptys k)(p := None)\<rparr>) }"

definition drop_both :: "kstate \<Rightarrow> nat \<Rightarrow> kstate option" where
  "drop_both k p =
     (if p \<noteq> 0 then do { k1 \<leftarrow> pipe_unref k p PIPE_REF_R; pipe_unref k1 p PIPE_REF_W } else Some k)"

definition pty_alloc :: "kstate \<Rightarrow> (kstate \<times> nat) option" where
  "pty_alloc k =
     do { (h, p) \<leftarrow> kmalloc (kheap k) 24;
          if p = 0 then Some (k\<lparr>kheap := h\<rparr>, 0)
          else do {
            (k1, a) \<leftarrow> pipe_alloc (k\<lparr>kheap := h\<rparr>);
            (k2, b) \<leftarrow> pipe_alloc k1;
            let k3 = k2\<lparr>ptys := (ptys k2)(p := Some \<lparr>m2s = a, s2m = b, fg_pid = 0, refs = 2\<rparr>)\<rparr>;
            if a = 0 \<or> b = 0 then do {
              k4 \<leftarrow> drop_both k3 a;
              k5 \<leftarrow> drop_both k4 b;
              k6 \<leftarrow> pty_free k5 p;
              Some (k6, 0) }
            else Some (k3, p) } }"

definition pty_master_read :: "kstate \<Rightarrow> nat \<Rightarrow> bool \<Rightarrow> nat \<Rightarrow> env \<Rightarrow> (int \<times> byte list) outcome" where
  "pty_master_read k p buf_null len env =
     (if p = 0 \<or> buf_null then Ret k env (0, [])
      else if len = 0 then Ret k env (0, [])
      else case ptys k p of
        None \<Rightarrow> Fault
      | Some t \<Rightarrow>
          (case pipes k (s2m t) of
             None \<Rightarrow> Fault
           | Some v \<Rightarrow> if count v = 0 then Ret k env (0, []) else pipe_read k (s2m t) False len env))"

fun master_write_loop :: "kstate \<Rightarrow> nat \<Rightarrow> byte list \<Rightarrow> nat \<Rightarrow> env \<Rightarrow> int outcome" where
  "master_write_loop k p [] accepted env = Ret k env (int accepted)"
| "master_write_loop k p (c # cs) accepted env =
     (case ptys k p of
        None \<Rightarrow> Fault
      | Some t \<Rightarrow>
          if c = 0x03 then
            let k1 = (if fg_pid t > 0 then thread_signal_pid k (fg_pid t) 2 else k)
            in master_write_loop k1 p cs (accepted + 1) env
          else
            (case pipe_write k (m2s t) False [c] env of
               Fault \<Rightarrow> Fault
             | Blocked k1 \<Rightarrow> Blocked k1
             | Ret k1 env1 w \<Rightarrow>
                 if w \<le> 0 then Ret k1 env1 (if accepted > 0 then int accepted else w)
                 else master_write_loop k1 p cs (accepted + 1) env1))"

definition pty_master_write :: "kstate \<Rightarrow> nat \<Rightarrow> bool \<Rightarrow> byte list \<Rightarrow> env \<Rightarrow> int outcome" where
  "pty_master_write k p buf_null src env =
     (if p = 0 \<or> buf_null then Ret k env 0 else master_write_loop k p src 0 env)"

definition pty_slave_read :: "kstate \<Rightarrow> nat \<Rightarrow> bool \<Rightarrow> nat \<Rightarrow> env \<Rightarrow> (int \<times> byte list) outcome" where
  "pty_slave_read k p buf_null len env =
     (if p = 0 then Ret k env (0, [])
      else case ptys k p of None \<Rightarrow> Fault | Some t \<Rightarrow> pipe_read k (m2s t) buf_null len env)"

definition pty_slave_write :: "kstate \<Rightarrow> nat \<Rightarrow> bool \<Rightarrow> byte list \<Rightarrow> env \<Rightarrow> int outcome" where
  "pty_slave_write k p buf_null src env =
     (if p = 0 then Ret k env 0
      else case ptys k p of None \<Rightarrow> Fault | Some t \<Rightarrow> pipe_write k (s2m t) buf_null src env)"

text \<open>The end of both close paths: \<open>if (--p->refs == 0) kfree(p)\<close>.\<close>

definition pty_put :: "kstate \<Rightarrow> nat \<Rightarrow> kstate option" where
  "pty_put k p =
     do { t \<leftarrow> ptys k p;
          let t1 = t\<lparr>refs := refs t - 1\<rparr>;
          let k1 = k\<lparr>ptys := (ptys k)(p := Some t1)\<rparr>;
          if refs t1 = 0 then pty_free k1 p else Some k1 }"

definition pty_close_master :: "kstate \<Rightarrow> nat \<Rightarrow> kstate option" where
  "pty_close_master k p =
     (if p = 0 then Some k
      else do { t \<leftarrow> ptys k p;
                k1 \<leftarrow> pipe_unref k (s2m t) PIPE_REF_R;
                k2 \<leftarrow> pipe_unref k1 (m2s t) PIPE_REF_W;
                pty_put k2 p })"

definition pty_close_slave :: "kstate \<Rightarrow> nat \<Rightarrow> kstate option" where
  "pty_close_slave k p =
     (if p = 0 then Some k
      else do { t \<leftarrow> ptys k p;
                k1 \<leftarrow> pipe_unref k (m2s t) PIPE_REF_R;
                k2 \<leftarrow> pipe_unref k1 (s2m t) PIPE_REF_W;
                pty_put k2 p })"

section \<open>The ring\<close>

definition pipe_ok :: "pipe \<Rightarrow> bool" where
  "pipe_ok v \<longleftrightarrow> length (buf v) = 4096 \<and> head v < 4096 \<and> count v \<le> 4096 \<and>
     tail v = (head v + count v) mod 4096"

definition pipe_bytes :: "pipe \<Rightarrow> byte list" where
  "pipe_bytes v = map (\<lambda>i. buf v ! ((head v + i) mod 4096)) [0..<count v]"

lemma length_pipe_bytes [simp]: "length (pipe_bytes v) = count v"
  by (simp add: pipe_bytes_def)

lemma drain_loop_eq:
  "head v < 4096 \<Longrightarrow> drain_loop n v =
     (map (\<lambda>i. buf v ! ((head v + i) mod 4096)) [0..<n], v\<lparr>head := (head v + n) mod 4096\<rparr>)"
proof (induction n arbitrary: v)
  case 0
  then show ?case by simp
next
  case (Suc n)
  have "map (\<lambda>i. buf v ! ((head v + i) mod 4096)) [0..<Suc n] =
     buf v ! head v # map (\<lambda>i. buf v ! (((head v + 1) mod 4096 + i) mod 4096)) [0..<n]"
    using Suc.prems by (simp only: upt_conv_Cons zero_less_Suc list.map map_Suc_upt [symmetric])
      (simp add: mod_add_left_eq)
  moreover have "((head v + 1) mod 4096 + n) mod 4096 = (head v + Suc n) mod 4096"
    by (simp add: mod_add_left_eq)
  ultimately show ?case using Suc.IH [of "v\<lparr>head := (head v + 1) mod 4096\<rparr>"] by simp
qed

lemma fill_loop_frame [frame]:
  "head (fill_loop bs v) = head v" "count (fill_loop bs v) = count v"
  "r_refs (fill_loop bs v) = r_refs v" "w_refs (fill_loop bs v) = w_refs v"
  "length (buf (fill_loop bs v)) = length (buf v)"
  by (induction bs arbitrary: v) auto

lemma fill_loop_tail: "tail v < 4096 \<Longrightarrow> tail (fill_loop bs v) = (tail v + length bs) mod 4096"
proof (induction bs arbitrary: v)
  case Nil
  then show ?case by simp
next
  case (Cons b bs)
  have "((tail v + 1) mod 4096 + length bs) mod 4096 = (tail v + length (b # bs)) mod 4096"
    by (simp add: mod_add_left_eq)
  then show ?case using Cons.IH [of "v\<lparr>buf := (buf v)[tail v := b], tail := (tail v + 1) mod 4096\<rparr>"]
    by simp
qed

text \<open>The loop writes the positions behind the tail and no others.\<close>

lemma fill_loop_buf:
  assumes "length (buf v) = 4096" "tail v < 4096" "length bs \<le> 4096" "j < 4096"
  shows "buf (fill_loop bs v) ! ((tail v + j) mod 4096) =
    (if j < length bs then bs ! j else buf v ! ((tail v + j) mod 4096))"
  using assms
proof (induction bs arbitrary: v j)
  case Nil
  then show ?case by simp
next
  case (Cons b bs)
  let ?v = "v\<lparr>buf := (buf v)[tail v := b], tail := (tail v + 1) mod 4096\<rparr>"
  have first: "buf (fill_loop bs ?v) ! tail v = b"
  proof -
    have "(tail ?v + 4095) mod 4096 = tail v" using Cons.prems(2) by (simp add: mod_add_left_eq)
    moreover have "\<not> 4095 < length bs" using Cons.prems(3) by simp
    ultimately show ?thesis using Cons.IH [of ?v 4095] Cons.prems by simp
  qed
  show ?case
  proof (cases j)
    case 0
    then show ?thesis using first Cons.prems by simp
  next
    case (Suc i)
    have e: "(tail ?v + i) mod 4096 = (tail v + j) mod 4096" by (simp add: Suc mod_add_left_eq)
    have "(tail v + j) mod 4096 \<noteq> (tail v + 0) mod 4096"
      using ring_inj [of j 4096 0 "tail v"] Cons.prems(4) Suc by auto
    then have "buf ?v ! ((tail v + j) mod 4096) = buf v ! ((tail v + j) mod 4096)"
      using Cons.prems(2) by simp
    then show ?thesis using Cons.IH [of ?v i] Cons.prems e Suc by simp
  qed
qed

lemma fill_ok:
  assumes "pipe_ok v" "count v + length bs \<le> 4096"
  shows "pipe_ok (fill bs v)" "pipe_bytes (fill bs v) = pipe_bytes v @ bs"
proof -
  have v: "length (buf v) = 4096" "head v < 4096" "tail v < 4096" "tail v = (head v + count v) mod 4096"
    using assms(1) by (auto simp: pipe_ok_def)
  have t: "tail (fill_loop bs v) = (head v + (count v + length bs)) mod 4096"
    using fill_loop_tail [OF v(3), of bs] v(4) by (simp add: mod_add_left_eq add.assoc)
  then show "pipe_ok (fill bs v)"
    using assms v by (simp add: pipe_ok_def fill_def frame Let_def)
  show "pipe_bytes (fill bs v) = pipe_bytes v @ bs"
  proof (rule nth_equalityI)
    fix i assume "i < length (pipe_bytes (fill bs v))"
    then have i: "i < count v + length bs" by (simp add: fill_def frame Let_def)
    define j where "j = (if i < count v then i + 4096 - count v else i - count v)"
    have j: "j < 4096" using i assms(2) by (auto simp: j_def)
    have "(tail v + j) mod 4096 = (head v + i) mod 4096"
    proof -
      have "(tail v + j) mod 4096 = (head v + (count v + j)) mod 4096"
        unfolding v(4) by (simp add: mod_add_left_eq add.assoc)
      also have "head v + (count v + j) = (if i < count v then head v + i + 4096 else head v + i)"
        using i assms(2) by (auto simp: j_def)
      finally show ?thesis by (simp split: if_splits)
    qed
    then have "buf (fill_loop bs v) ! ((head v + i) mod 4096) =
        (if j < length bs then bs ! j else buf v ! ((head v + i) mod 4096))"
      using fill_loop_buf [OF v(1,3) _ j, of bs] assms(2) by simp
    moreover have "j < length bs \<longleftrightarrow> \<not> i < count v" "\<not> i < count v \<Longrightarrow> j = i - count v"
      using i assms(2) by (auto simp: j_def)
    ultimately show "pipe_bytes (fill bs v) ! i = (pipe_bytes v @ bs) ! i"
      using i by (auto simp: pipe_bytes_def fill_def frame Let_def nth_append)
  qed (simp add: fill_def frame Let_def)
qed

lemma drain_ok:
  assumes "pipe_ok v" "n \<le> count v"
  shows "pipe_ok (snd (drain n v))" "fst (drain n v) = take n (pipe_bytes v)"
    "pipe_bytes (snd (drain n v)) = drop n (pipe_bytes v)"
proof -
  have v: "head v < 4096" using assms by (simp add: pipe_ok_def)
  have d: "drain n v = (map (\<lambda>i. buf v ! ((head v + i) mod 4096)) [0..<n],
      v\<lparr>head := (head v + n) mod 4096, count := count v - n\<rparr>)"
    by (simp add: drain_def drain_loop_eq [OF v])
  show "pipe_ok (snd (drain n v))"
  proof -
    have "((head v + n) mod 4096 + (count v - n)) mod 4096 = (head v + count v) mod 4096"
      unfolding mod_add_left_eq using assms(2) by (simp add: add.assoc)
    then show ?thesis using assms by (auto simp: d pipe_ok_def)
  qed
  show "fst (drain n v) = take n (pipe_bytes v)"
    using assms(2) by (simp add: d pipe_bytes_def take_map)
  show "pipe_bytes (snd (drain n v)) = drop n (pipe_bytes v)"
    by (rule nth_equalityI) (use assms(2) in \<open>auto simp: d pipe_bytes_def mod_add_left_eq add.assoc\<close>)
qed

text \<open>The ring is a queue of bytes.\<close>

interpretation pq: fifo pipe_ok pipe_bytes 4096 fill drain
  by unfold_locales (auto simp: fill_ok drain_ok)

lemma fill_frame [frame]:
  "r_refs (fill bs v) = r_refs v" "w_refs (fill bs v) = w_refs v" "count (fill bs v) = count v + length bs"
  by (simp_all add: fill_def frame Let_def)

lemma drain_frame [frame]:
  "pipe_ok v \<Longrightarrow> r_refs (snd (drain n v)) = r_refs v" "pipe_ok v \<Longrightarrow> w_refs (snd (drain n v)) = w_refs v"
  "pipe_ok v \<Longrightarrow> count (snd (drain n v)) = count v - n"
  by (simp_all add: drain_def drain_loop_eq pipe_ok_def)


section \<open>Reads and writes that do not sleep\<close>

definition chunk :: "kstate \<Rightarrow> nat \<Rightarrow> pipe \<Rightarrow> byte list \<Rightarrow> kstate" where
  "chunk k p v bs = thread_wake_blocked (put_pipe k p (fill bs v)) p"

lemma kstate_frame [frame]:
  "pipes (thread_wake_blocked k p) = pipes k" "ptys (thread_wake_blocked k p) = ptys k"
  "kheap (thread_wake_blocked k p) = kheap k" "log (thread_wake_blocked k p) = log k @ [Wake p]"
  "pipes (put_pipe k p v) = (pipes k)(p := Some v)" "ptys (put_pipe k p v) = ptys k"
  "kheap (put_pipe k p v) = kheap k" "log (put_pipe k p v) = log k"
  "pipes (thread_signal_pid k i n) = pipes k" "ptys (thread_signal_pid k i n) = ptys k"
  "kheap (thread_signal_pid k i n) = kheap k" "log (thread_signal_pid k i n) = log k @ [Signal i n]"
  by (simp_all add: thread_wake_blocked_def put_pipe_def thread_signal_pid_def)

lemma chunk_frame [frame]:
  "pipes (chunk k p v bs) = (pipes k)(p := Some (fill bs v))" "ptys (chunk k p v bs) = ptys k"
  "kheap (chunk k p v bs) = kheap k" "log (chunk k p v bs) = log k @ [Wake p]"
  by (simp_all add: chunk_def frame)

lemma write_loop_done: "length src \<le> written \<Longrightarrow> write_loop k p src written d now ws = Ret k (now, ws) (int written)"
  by (subst write_loop.simps) simp

lemma write_loop_no_reader:
  "pipes k p = Some v \<Longrightarrow> written < length src \<Longrightarrow> r_refs v = 0 \<Longrightarrow>
   write_loop k p src written d now ws = Ret k (now, ws) (if written > 0 then int written else - EPIPE)"
  by (subst write_loop.simps) simp

lemma write_loop_full:
  "pipes k p = Some v \<Longrightarrow> written < length src \<Longrightarrow> r_refs v \<noteq> 0 \<Longrightarrow> count v = 4096 \<Longrightarrow>
   write_loop k p src written d now ws =
     (if d \<noteq> 0 \<and> d \<le> now then Ret k (now, ws) (if written > 0 then int written else - ETIMEDOUT)
      else case ws of [] \<Rightarrow> Blocked k
        | w # ws' \<Rightarrow> write_loop (wk_state w) p src written d (wk_now w) ws')"
  by (subst write_loop.simps) simp

lemma write_loop_room:
  assumes "pipes k p = Some v" "written < length src" "r_refs v \<noteq> 0" "count v < 4096"
  shows "write_loop k p src written d now ws =
    write_loop (chunk k p v (take (min (4096 - count v) (length src - written)) (drop written src))) p src
      (written + min (4096 - count v) (length src - written)) d now ws"
proof -
  have "(if 4096 - count v < length src - written then 4096 - count v else length src - written) =
      min (4096 - count v) (length src - written)" by auto
  then show ?thesis
    by (subst write_loop.simps) (use assms in \<open>simp add: ring_space_def chunk_def Let_def\<close>)
qed

text \<open>A call that finds no wake-up: what it returns, and where it falls asleep.\<close>

lemma pipe_write_nonblocking:
  assumes "pipes k p = Some v" "p \<noteq> 0" "src \<noteq> []" "r_refs v \<noteq> 0" "pipe_ok v"
  defines "S \<equiv> 4096 - count v"
  shows "length src \<le> S \<Longrightarrow>
      pipe_write_until k p False src d (now, ws) = Ret (chunk k p v src) (now, ws) (int (length src))"
    "S < length src \<Longrightarrow> pipe_write_until k p False src d (now, []) =
      (let k1 = (if S = 0 then k else chunk k p v (take S src))
       in if d \<noteq> 0 \<and> d \<le> now then Ret k1 (now, []) (if S > 0 then int S else - ETIMEDOUT) else Blocked k1)"
proof -
  have le: "count v \<le> 4096" using assms(5) by (simp add: pipe_ok_def)
  { assume r: "length src \<le> S"
    then have "count v < 4096" using assms(3) by (cases src) (auto simp: S_def)
    then show "pipe_write_until k p False src d (now, ws) = Ret (chunk k p v src) (now, ws) (int (length src))"
      using write_loop_room [OF assms(1), of 0 src d now ws] r assms(2-4)
      by (simp add: pipe_write_until_def S_def min_def write_loop_done split: if_splits) }
  assume r: "S < length src"
  show "pipe_write_until k p False src d (now, []) =
      (let k1 = (if S = 0 then k else chunk k p v (take S src))
       in if d \<noteq> 0 \<and> d \<le> now then Ret k1 (now, []) (if S > 0 then int S else - ETIMEDOUT) else Blocked k1)"
  proof (cases "count v = 4096")
    case True
    then show ?thesis
      using write_loop_full [OF assms(1), of 0 src d now "[]"] assms(2-4)
      by (simp add: pipe_write_until_def S_def)
  next
    case False
    then have lt: "count v < 4096" using le by simp
    have "write_loop k p src 0 d now [] = write_loop (chunk k p v (take S src)) p src S d now []"
      using write_loop_room [OF assms(1) _ assms(4) lt, of 0 src d now "[]"] r assms(3) by (auto simp: S_def)
    also have "\<dots> = (if d \<noteq> 0 \<and> d \<le> now then Ret (chunk k p v (take S src)) (now, [])
        (if S > 0 then int S else - ETIMEDOUT) else Blocked (chunk k p v (take S src)))"
      by (subst write_loop_full [of _ _ "fill (take S src) v"])
        (use r lt assms(4) in \<open>simp_all add: frame S_def\<close>)
    finally show ?thesis using lt assms(2,3) by (simp add: pipe_write_until_def S_def)
  qed
qed

lemma read_drain_eq:
  assumes "pipe_ok v"
  shows "read_drain k p v len env =
    Ret (thread_wake_blocked (put_pipe k p (snd (drain (min len (count v)) v))) p) env
      (int (min len (count v)), take len (pipe_bytes v))"
proof -
  have "fst (drain (min len (count v)) v) = take (min len (count v)) (pipe_bytes v)"
    using assms by (intro drain_ok) simp_all
  also have "\<dots> = take len (pipe_bytes v)" by (simp add: min_def)
  finally show ?thesis
    by (cases "drain (min len (count v)) v") (auto simp: read_drain_def Let_def min_def)
qed


section \<open>Any number of readers and writers\<close>

text \<open>
  What happens to the pipe at \<open>p\<close> from state \<open>k0\<close> on, in any interleaving of calls from any
  number of threads.  A write call is followed from its start to its return: \<open>writer\<close> is what it
  was called with and in which state, the wake-ups it has had, and what it returned (\<open>None\<close> while
  it is asleep).  Each time it is woken it finds the state the other threads have left, and the
  state it leaves behind is what the whole call, with one wake-up more, leads to.
\<close>

record writer =
  wr_k :: kstate
  wr_now :: nat
  wr_src :: "byte list"
  wr_deadline :: nat
  wr_wakes :: "wakeup list"
  wr_ret :: "int option"

definition leaves :: "nat \<Rightarrow> writer \<Rightarrow> kstate \<Rightarrow> bool" where
  "leaves p w k' \<longleftrightarrow>
     (case pipe_write_until (wr_k w) p False (wr_src w) (wr_deadline w) (wr_now w, wr_wakes w) of
        Ret k1 e r \<Rightarrow> k1 = k' \<and> wr_ret w = Some r
      | Blocked k1 \<Rightarrow> k1 = k' \<and> wr_ret w = None
      | Fault \<Rightarrow> False)"

text \<open>
  \<open>W\<close> are the write calls in the order they were made and \<open>outs\<close> the bytes delivered, in the order
  the reads returned: a read returns at once, or it was asleep and returns when it is woken.  References may be
  dropped in between as long as the pipe exists, and anything may happen elsewhere in the kernel.
\<close>

inductive pipe_run :: "nat \<Rightarrow> kstate \<Rightarrow> writer list \<Rightarrow> byte list \<Rightarrow> kstate \<Rightarrow> bool" for p k0 where
  start: "pipe_run p k0 [] [] k0"
| calls: "pipe_run p k0 (W @ [w]) outs k'"
    if "pipe_run p k0 W outs k" "wr_k w = k" "wr_wakes w = []" "leaves p w k'"
| woken: "pipe_run p k0 (W[i := w]) outs k'"
    if "pipe_run p k0 W outs k" "i < length W" "wr_ret (W ! i) = None" "wk_state x = k"
      "w = (W ! i)\<lparr>wr_wakes := wr_wakes (W ! i) @ [x], wr_ret := r\<rparr>" "leaves p w k'"
| reads: "pipe_run p k0 W (outs @ bs) k'"
    if "pipe_run p k0 W outs k" "pipe_read_until k p False len d (now, []) = Ret k' e (r, bs)"
| reads_woken: "pipe_run p k0 W (outs @ bs) k'"
    if "pipe_run p k0 W outs k" "pipe_read_until k1 p False len d (now, ws) = Blocked k2"
      "wk_state x = k" "pipe_read_until k1 p False len d (now, ws @ [x]) = Ret k' e (r, bs)"
| drops: "pipe_run p k0 W outs k'"
    if "pipe_run p k0 W outs k" "pipe_unref k p which = Some k'" "pipes k' p \<noteq> None"
| elsewhere: "pipe_run p k0 W outs k'"
    if "pipe_run p k0 W outs k" "pipes k' p = pipes k p"

lemma read_nonblocking:
  assumes "pipes k p = Some v" "pipe_ok v" "pipe_read_until k p False len d (now, []) = Ret k' e (r, bs)"
  shows "(k' = k \<and> bs = []) \<or>
    (0 < count v \<and> pipes k' p = Some (snd (drain (min len (count v)) v)) \<and> bs = take len (pipe_bytes v))"
  using assms
  by (auto simp: pipe_read_until_def read_loop.simps [of k] read_drain_eq frame split: if_splits)

text \<open>A reader that is woken decides as one that has just called, or reports the signal.\<close>

lemma read_drain_returns: "read_drain k p v len env \<noteq> Blocked k2"
  by (cases "drain (if len < count v then len else count v) v") (simp add: read_drain_def Let_def)

lemma read_loop_asleep:
  assumes "read_loop k p len d now ws = Blocked k2"
  obtains v where "pipes k p = Some v" "count v = 0" "w_refs v \<noteq> 0" "\<not> (d \<noteq> 0 \<and> d \<le> now)"
  using assms by (subst (asm) read_loop.simps) (auto simp: read_drain_returns split: if_splits option.splits)

lemma read_loop_woken:
  "read_loop k p len d now ws = Blocked k2 \<Longrightarrow>
   read_loop k p len d now (ws @ [x]) =
     (case pipes (wk_state x) p of
        None \<Rightarrow> Fault
      | Some v \<Rightarrow> if 0 < count v \<or> \<not> wk_sig x then read_loop (wk_state x) p len d (wk_now x) []
                 else Ret (wk_state x) (wk_now x, []) (- EINTR, []))"
proof (induction ws arbitrary: k now)
  case Nil
  obtain v where "pipes k p = Some v" "count v = 0" "w_refs v \<noteq> 0" "\<not> (d \<noteq> 0 \<and> d \<le> now)"
    by (rule read_loop_asleep [OF Nil])
  then have "read_loop k p len d now [x] =
     (case pipes (wk_state x) p of
        None \<Rightarrow> Fault
      | Some v \<Rightarrow> if 0 < count v then read_loop (wk_state x) p len d (wk_now x) []
                 else if wk_sig x then Ret (wk_state x) (wk_now x, []) (- EINTR, [])
                 else read_loop (wk_state x) p len d (wk_now x) [])"
    by (subst read_loop.simps) auto
  then show ?case by (simp split: option.split)
next
  case (Cons w ws)
  obtain v where v: "pipes k p = Some v" "count v = 0" "w_refs v \<noteq> 0" "\<not> (d \<noteq> 0 \<and> d \<le> now)"
    by (rule read_loop_asleep [OF Cons.prems])
  then have e: "read_loop k p len d now (w # us) =
     (case pipes (wk_state w) p of
        None \<Rightarrow> Fault
      | Some v \<Rightarrow> if 0 < count v then read_loop (wk_state w) p len d (wk_now w) us
                 else if wk_sig w then Ret (wk_state w) (wk_now w, us) (- EINTR, [])
                 else read_loop (wk_state w) p len d (wk_now w) us)" for us
    by (subst read_loop.simps) auto
  have b: "read_loop (wk_state w) p len d (wk_now w) ws = Blocked k2"
    and f: "read_loop k p len d now (w # us) = read_loop (wk_state w) p len d (wk_now w) us" for us
    using Cons.prems unfolding e by (auto split: option.splits if_splits)
  show ?case using Cons.IH [OF b] by (simp add: f)
qed

lemma read_woken:
  assumes "pipe_read_until k1 p False len d (now, ws) = Blocked k2"
    and "pipe_read_until k1 p False len d (now, ws @ [x]) = Ret k' e (r, bs)"
  shows "(k' = wk_state x \<and> bs = []) \<or>
    pipe_read_until (wk_state x) p False len d (wk_now x, []) = Ret k' e (r, bs)"
proof -
  have p: "p \<noteq> 0" "len \<noteq> 0" and b: "read_loop k1 p len d now ws = Blocked k2"
    using assms(1) by (auto simp: pipe_read_until_def split: if_splits)
  then show ?thesis
    using assms(2) read_loop_woken [OF b, of x] by (auto simp: pipe_read_until_def split: option.splits if_splits)
qed

text \<open>
  One stretch of a write call between two sleeps, from position \<open>n\<close> of its buffer: the bytes it puts
  in the ring are the next ones, it returns how many it wrote in all, and if it falls asleep it goes
  on from there.
\<close>

lemma write_stretch:
  assumes v: "pipes k p = Some v" "pipe_ok v" and n: "n < length src"
  obtains (returned) bs v' k' r where "\<And>ws. write_loop k p src n d now ws = Ret k' (now, ws) r"
      "pipes k' p = Some v'" "pipe_ok v'" "pipe_bytes v' = pipe_bytes v @ bs" "r \<le> int (length src)"
      "take n src @ bs = take (nat r) src \<or> n = 0 \<and> bs = [] \<and> r < 0"
      "r = int (length src) \<or> r_refs v = 0 \<or> d \<noteq> 0 \<and> d \<le> now"
  | (asleep) bs v' k' where "write_loop k p src n d now [] = Blocked k'"
      "pipes k' p = Some v'" "pipe_ok v'" "pipe_bytes v' = pipe_bytes v @ bs"
      "n + length bs < length src" "take n src @ bs = take (n + length bs) src"
      "\<And>x ws. write_loop k p src n d now (x # ws) =
        write_loop (wk_state x) p src (n + length bs) d (wk_now x) ws"
proof -
  have le: "count v \<le> 4096" using v(2) by (simp add: pipe_ok_def)
  consider "r_refs v = 0" | "r_refs v \<noteq> 0" "count v = 4096" | "r_refs v \<noteq> 0" "count v < 4096"
    using le by linarith
  then show thesis
  proof cases
    case 1
    show thesis
      by (rule returned [OF write_loop_no_reader [OF v(1) n 1], of v "[]"]) (use v n 1 in auto)
  next
    case 2
    note full = write_loop_full [OF v(1) n 2, of d now]
    show thesis
    proof (cases "d \<noteq> 0 \<and> d \<le> now")
      case True
      show thesis
        by (rule returned [of k "if n > 0 then int n else - ETIMEDOUT" v "[]"])
          (use v n True in \<open>auto simp: full\<close>)
    next
      case False
      show thesis by (rule asleep [of k v "[]"]) (use v n False in \<open>auto simp: full\<close>)
    qed
  next
    case 3
    define m where "m = min (4096 - count v) (length src - n)"
    define bs where "bs = take m (drop n src)"
    have bs: "length bs = m" "m \<le> length src - n" "count v + length bs \<le> 4096"
      "take n src @ bs = take (n + m) src"
      using le by (auto simp: bs_def m_def take_add)
    note room = write_loop_room [OF v(1) n 3, of d now, folded m_def bs_def]
    let ?k = "chunk k p v bs" and ?v = "fill bs v"
    have v': "pipes ?k p = Some ?v" "pipe_ok ?v" "pipe_bytes ?v = pipe_bytes v @ bs"
      using fill_ok [OF v(2) bs(3)] by (simp_all add: frame)
    show thesis
    proof (cases "length src \<le> n + m")
      case True
      show thesis
        by (rule returned [of ?k "int (length src)" ?v bs])
          (use True bs n v' in \<open>auto simp: room write_loop_done\<close>)
    next
      case False
      then have full: "count ?v = 4096" "r_refs ?v \<noteq> 0" "n + m < length src"
        using bs le 3 by (auto simp: frame m_def)
      note stop = write_loop_full [OF v'(1) full(3,2,1), of d now]
      have m0: "0 < n + m" using 3 n by (simp add: m_def)
      show thesis
      proof (cases "d \<noteq> 0 \<and> d \<le> now")
        case True
        show thesis
          by (rule returned [of ?k "int (n + m)" ?v bs])
            (use True bs v' m0 full in \<open>auto simp: room stop simp del: of_nat_add\<close>)
      next
        case f: False
        show thesis
          by (rule asleep [of ?k ?v bs]) (use f bs v' full in \<open>auto simp: room stop\<close>)
      qed
    qed
  qed
qed

text \<open>The last state a write call saw, and its clock there.\<close>

definition wr_seen :: "writer \<Rightarrow> kstate" where
  "wr_seen w = (if wr_wakes w = [] then wr_k w else wk_state (last (wr_wakes w)))"

definition wr_clock :: "writer \<Rightarrow> nat" where
  "wr_clock w = (if wr_wakes w = [] then wr_now w else wk_now (last (wr_wakes w)))"

text \<open>
  What a write call owes: a call that returned \<open>r\<close> has put the first \<open>r\<close> bytes of its buffer in the
  pipe (none for an error), and \<open>r\<close> is the whole buffer unless it found no reader or its deadline
  had passed; a call that is asleep has put in a proper beginning of its buffer.
\<close>

definition accepted :: "nat \<Rightarrow> writer \<Rightarrow> byte list \<Rightarrow> bool" where
  "accepted p w bs \<longleftrightarrow>
     (case wr_ret w of
        Some r \<Rightarrow> bs = take (nat r) (wr_src w) \<and> r \<le> int (length (wr_src w)) \<and>
          (r = int (length (wr_src w)) \<or> (\<exists>v. pipes (wr_seen w) p = Some v \<and> r_refs v = 0) \<or>
           wr_deadline w \<noteq> 0 \<and> wr_deadline w \<le> wr_clock w)
      | None \<Rightarrow> length bs < length (wr_src w) \<and> bs = take (length bs) (wr_src w))"

definition by_writer :: "nat \<Rightarrow> (nat \<times> byte) list \<Rightarrow> byte list" where
  "by_writer i tagged = map snd (filter (\<lambda>t. fst t = i) tagged)"

lemma by_writer_append:
  "by_writer i (tagged @ map (Pair j) bs) = by_writer i tagged @ (if i = j then bs else [])"
  by (induction bs) (auto simp: by_writer_def)

text \<open>A sleeping call goes on, when it is woken, behind the bytes it has put in.\<close>

definition goes_on :: "nat \<Rightarrow> writer \<Rightarrow> nat \<Rightarrow> bool" where
  "goes_on p w n \<longleftrightarrow> (\<forall>x ws.
     pipe_write_until (wr_k w) p False (wr_src w) (wr_deadline w) (wr_now w, wr_wakes w @ x # ws) =
     write_loop (wk_state x) p (wr_src w) n (wr_deadline w) (wk_now x) ws)"

definition writer_inv :: "nat \<Rightarrow> writer \<Rightarrow> byte list \<Rightarrow> bool" where
  "writer_inv p w bs \<longleftrightarrow> accepted p w bs \<and> (wr_ret w = None \<longrightarrow> goes_on p w (length bs))"

text \<open>A stretch of a call that had put in \<open>bs0\<close> before it.\<close>

lemma writer_stretch:
  assumes v: "pipes k p = Some v" "pipe_ok v" and w: "wr_seen w = k"
    and bs0: "length bs0 < length (wr_src w)" "bs0 = take (length bs0) (wr_src w)"
    and eq: "\<And>ws. pipe_write_until (wr_k w) p False (wr_src w) (wr_deadline w) (wr_now w, wr_wakes w @ ws) =
      write_loop k p (wr_src w) (length bs0) (wr_deadline w) (wr_clock w) ws"
    and l: "leaves p w k'"
  shows "\<exists>v' bs. pipes k' p = Some v' \<and> pipe_ok v' \<and> pipe_bytes v' = pipe_bytes v @ bs \<and>
    writer_inv p w (bs0 @ bs)"
proof (rule write_stretch [OF v bs0(1), of "wr_deadline w" "wr_clock w"])
  fix bs v' k1 r
  assume a: "\<And>ws. write_loop k p (wr_src w) (length bs0) (wr_deadline w) (wr_clock w) ws =
      Ret k1 (wr_clock w, ws) r"
    and b: "pipes k1 p = Some v'" "pipe_ok v'" "pipe_bytes v' = pipe_bytes v @ bs"
      "r \<le> int (length (wr_src w))"
    and c: "take (length bs0) (wr_src w) @ bs = take (nat r) (wr_src w) \<or> length bs0 = 0 \<and> bs = [] \<and> r < 0"
    and d: "r = int (length (wr_src w)) \<or> r_refs v = 0 \<or> wr_deadline w \<noteq> 0 \<and> wr_deadline w \<le> wr_clock w"
  have r: "k1 = k'" "wr_ret w = Some r" using l eq [of "[]"] a by (simp_all add: leaves_def)
  have "bs0 @ bs = take (nat r) (wr_src w)" using c bs0(2) by auto
  then have "writer_inv p w (bs0 @ bs)" using r b(4) d v(1) w by (auto simp: writer_inv_def accepted_def)
  then show ?thesis using b r by blast
next
  fix bs v' k1
  assume a: "write_loop k p (wr_src w) (length bs0) (wr_deadline w) (wr_clock w) [] = Blocked k1"
    and b: "pipes k1 p = Some v'" "pipe_ok v'" "pipe_bytes v' = pipe_bytes v @ bs"
    and c: "length bs0 + length bs < length (wr_src w)"
      "take (length bs0) (wr_src w) @ bs = take (length bs0 + length bs) (wr_src w)"
    and d: "\<And>x ws. write_loop k p (wr_src w) (length bs0) (wr_deadline w) (wr_clock w) (x # ws) =
      write_loop (wk_state x) p (wr_src w) (length bs0 + length bs) (wr_deadline w) (wk_now x) ws"
  have r: "k1 = k'" "wr_ret w = None" using l eq [of "[]"] a by (simp_all add: leaves_def)
  have "writer_inv p w (bs0 @ bs)"
    using r c d bs0(2) by (simp add: writer_inv_def accepted_def goes_on_def eq)
  then show ?thesis using b r by blast
qed

lemma unref_pipe:
  assumes "pipe_unref k p which = Some k'" "pipes k p = Some v" "pipes k' p \<noteq> None"
  shows "\<exists>v'. pipes k' p = Some v' \<and> pipe_bytes v' = pipe_bytes v \<and> pipe_ok v' = pipe_ok v"
  using assms
  by (cases which) (auto simp: pipe_unref_def Let_def pipe_free_def frame pipe_bytes_def pipe_ok_def
      split: if_splits option.splits)

text \<open>The bytes in the order they went in, each with the number of its write call.\<close>

definition run_inv :: "nat \<Rightarrow> byte list \<Rightarrow> writer list \<Rightarrow> byte list \<Rightarrow> kstate \<Rightarrow> (nat \<times> byte) list \<Rightarrow> bool" where
  "run_inv p old W outs k tagged \<longleftrightarrow>
     (\<exists>v. pipes k p = Some v \<and> pipe_ok v \<and> old @ map snd tagged = outs @ pipe_bytes v) \<and>
     (\<forall>t\<in>set tagged. fst t < length W) \<and> (\<forall>i<length W. writer_inv p (W ! i) (by_writer i tagged))"

lemma run_inv_reads:
  assumes "run_inv p old W outs k tagged"
    and "pipe_read_until k p False len d (now, []) = Ret k' e (r, bs) \<or> k' = k \<and> bs = []"
  shows "run_inv p old W (outs @ bs) k' tagged"
proof -
  obtain v where v: "pipes k p = Some v" "pipe_ok v" "old @ map snd tagged = outs @ pipe_bytes v"
    using assms(1) by (auto simp: run_inv_def)
  have "(k' = k \<and> bs = []) \<or> (0 < count v \<and> pipes k' p = Some (snd (drain (min len (count v)) v)) \<and>
      bs = take len (pipe_bytes v))"
    using assms(2) read_nonblocking [OF v(1,2)] by blast
  moreover have "take len (pipe_bytes v) = take (min len (count v)) (pipe_bytes v)" by (simp add: min_def)
  ultimately show ?thesis
    using assms(1) v pq.pop_ok [OF v(2), of "min len (count v)"]
      pq.pop_contents [OF v(2), of "min len (count v)"]
    by (auto simp: run_inv_def)
qed

text \<open>The call with number \<open>i\<close> puts \<open>bs\<close> in.\<close>

lemma run_inv_push:
  assumes inv: "run_inv p old W outs k tagged"
    and "pipes k p = Some v" "pipes k' p = Some v'" "pipe_ok v'" "pipe_bytes v' = pipe_bytes v @ bs"
    and W: "i < length W'" "length W \<le> length W'" "\<And>j. j < length W' \<Longrightarrow> j \<noteq> i \<Longrightarrow> j < length W \<and> W' ! j = W ! j"
    and w: "writer_inv p (W' ! i) (by_writer i tagged @ bs)"
  shows "run_inv p old W' outs k' (tagged @ map (Pair i) bs)"
proof -
  have "writer_inv p (W' ! j) (by_writer j (tagged @ map (Pair i) bs))" if "j < length W'" for j
    using inv w W(3) [of j] that by (cases "j = i") (auto simp: by_writer_append run_inv_def)
  then show ?thesis using assms(1-7) by (fastforce simp: run_inv_def comp_def)
qed

lemma pipe_run_invariant:
  assumes "pipe_run p k0 W outs k" "pipes k0 p = Some v0" "pipe_ok v0" "p \<noteq> 0"
  shows "\<exists>tagged. run_inv p (pipe_bytes v0) W outs k tagged"
  using assms
proof (induction rule: pipe_run.induct)
  case start
  then show ?case by (auto simp: run_inv_def)
next
  case (calls W outs k w k')
  then obtain tagged where inv: "run_inv p (pipe_bytes v0) W outs k tagged" by blast
  then obtain v where v: "pipes k p = Some v" "pipe_ok v" by (auto simp: run_inv_def)
  have none: "by_writer (length W) tagged = []"
    using inv by (fastforce simp: run_inv_def by_writer_def filter_empty_conv)
  have "\<exists>v' bs. pipes k' p = Some v' \<and> pipe_ok v' \<and> pipe_bytes v' = pipe_bytes v @ bs \<and> writer_inv p w bs"
  proof (cases "wr_src w = []")
    case True
    then have "k' = k" "wr_ret w = Some 0"
      using calls.hyps calls.prems(3) by (simp_all add: leaves_def pipe_write_until_def)
    then show ?thesis using v True by (auto simp: writer_inv_def accepted_def)
  next
    case False
    then show ?thesis
      using writer_stretch [OF v, of w "[]" k'] calls.hyps calls.prems(3)
      by (simp add: wr_seen_def wr_clock_def pipe_write_until_def)
  qed
  then obtain v' bs where n: "pipes k' p = Some v'" "pipe_ok v'" "pipe_bytes v' = pipe_bytes v @ bs"
    "writer_inv p w bs" by blast
  have "run_inv p (pipe_bytes v0) (W @ [w]) outs k' (tagged @ map (Pair (length W)) bs)"
    by (rule run_inv_push [OF inv v(1) n(1-3)]) (use n(4) none in \<open>auto simp: nth_append\<close>)
  then show ?case by blast
next
  case (woken W outs k i x w r k')
  then obtain tagged where inv: "run_inv p (pipe_bytes v0) W outs k tagged" by blast
  then obtain v where v: "pipes k p = Some v" "pipe_ok v" by (auto simp: run_inv_def)
  let ?b = "by_writer i tagged"
  have old: "length ?b < length (wr_src w)" "?b = take (length ?b) (wr_src w)" "goes_on p (W ! i) (length ?b)"
    using inv woken.hyps(2,3,5) by (auto simp: run_inv_def writer_inv_def accepted_def)
  have "\<exists>v' bs. pipes k' p = Some v' \<and> pipe_ok v' \<and> pipe_bytes v' = pipe_bytes v @ bs \<and>
      writer_inv p w (?b @ bs)"
    by (rule writer_stretch [OF v _ old(1,2) _ woken.hyps(6)])
      (use old(3) woken.hyps(4,5) in \<open>auto simp: wr_seen_def wr_clock_def goes_on_def\<close>)
  then obtain v' bs where n: "pipes k' p = Some v'" "pipe_ok v'" "pipe_bytes v' = pipe_bytes v @ bs"
    "writer_inv p w (?b @ bs)" by blast
  have "run_inv p (pipe_bytes v0) (W[i := w]) outs k' (tagged @ map (Pair i) bs)"
    by (rule run_inv_push [OF inv v(1) n(1-3)]) (use n(4) woken.hyps(2) in auto)
  then show ?case by blast
next
  case (reads W outs k len d now k' e r bs)
  then show ?case using run_inv_reads by blast
next
  case (reads_woken W outs k k1 len d now ws k2 x k' e r bs)
  then show ?case using run_inv_reads read_woken by metis
next
  case (drops W outs k which k')
  then obtain tagged where inv: "run_inv p (pipe_bytes v0) W outs k tagged" by blast
  then obtain v where v: "pipes k p = Some v" by (auto simp: run_inv_def)
  have "run_inv p (pipe_bytes v0) W outs k' tagged"
    using inv unref_pipe [OF drops.hyps(2) v drops.hyps(3)] v by (auto simp: run_inv_def)
  then show ?case by blast
next
  case (elsewhere W outs k k')
  then show ?case by (simp add: run_inv_def)
qed

text \<open>C12. Whatever the number of readers and writers and however their calls interleave, sleep and
  wake, the pipe delivers the bytes written in order, without loss or duplication, and never holds
  more than 4096 bytes: what the readers got, followed by what is still in the ring, is the bytes
  that went in, and of these each write call contributed, in order, exactly the bytes it reported as
  written, the whole of its buffer unless it found the last reader gone or its deadline passed, and
  while it is asleep a proper beginning of its buffer, each byte once.\<close>

theorem pipe_order:
  assumes "pipe_run p k0 W outs k" and "pipes k0 p = Some v0" and "pipe_ok v0" and "count v0 = 0"
    and "p \<noteq> 0"
  shows "\<exists>v tagged. pipes k p = Some v \<and> count v \<le> 4096 \<and> map snd tagged = outs @ pipe_bytes v \<and>
    (\<forall>t\<in>set tagged. fst t < length W) \<and> (\<forall>i<length W. accepted p (W ! i) (by_writer i tagged))"
proof -
  have "pipe_bytes v0 = []" using assms(4) by (simp add: pipe_bytes_def)
  then show ?thesis
    using pipe_run_invariant [OF assms(1-3,5)] by (fastforce simp: run_inv_def writer_inv_def pipe_ok_def)
qed

definition readable :: "kstate \<Rightarrow> nat \<Rightarrow> bool" where
  "readable k p \<longleftrightarrow> (\<exists>v. pipes k p = Some v \<and> pipe_ok v)"

text \<open>What a call decides in the last state \<open>k0\<close> it saw.\<close>

definition read_decides ::
    "nat \<Rightarrow> nat \<Rightarrow> nat \<Rightarrow> wakeup list \<Rightarrow> kstate \<Rightarrow> (int \<times> byte list) outcome \<Rightarrow> bool" where
  "read_decides p len d ws k0 res \<longleftrightarrow> (\<exists>v. pipes k0 p = Some v \<and>
     (case res of
        Fault \<Rightarrow> False
      | Blocked k' \<Rightarrow> k' = k0 \<and> count v = 0 \<and> w_refs v \<noteq> 0
      | Ret k' e (r, bs) \<Rightarrow>
          (if 0 < count v then r = int (length bs) \<and> 0 < r \<and> bs = take len (pipe_bytes v) \<and>
             (\<exists>v'. pipes k' p = Some v' \<and> pipe_bytes v' = drop len (pipe_bytes v)) \<and> last (log k') = Wake p
           else k' = k0 \<and> bs = [] \<and>
             (r = 0 \<and> w_refs v = 0 \<or> r = - ETIMEDOUT \<and> d \<noteq> 0 \<and> d \<le> fst e \<or>
              r = - EINTR \<and> (\<exists>w\<in>set ws. wk_sig w \<and> wk_state w = k0)))))"

lemma read_decides_now:
  assumes v: "pipes k p = Some v" "pipe_ok v" "0 < count v" "0 < len"
  shows "read_decides p len d ws k (read_drain k p v len env)"
proof -
  have "drop (min len (count v)) (pipe_bytes v) = drop len (pipe_bytes v)" by (simp add: min_def)
  then show ?thesis
    using v pq.pop_contents [OF v(2), of "min len (count v)"]
    by (auto simp: read_decides_def read_drain_eq frame)
qed

lemma read_loop_decides:
  assumes "readable k p" "\<forall>w\<in>set ws. readable (wk_state w) p" "0 < len"
  shows "\<exists>k0\<in>set (k # map wk_state ws). read_decides p len d ws k0 (read_loop k p len d now ws)"
  using assms(1,2)
proof (induction ws arbitrary: k now)
  case Nil
  then obtain v where v: "pipes k p = Some v" "pipe_ok v" by (auto simp: readable_def)
  show ?case
  proof (cases "0 < count v")
    case True
    then show ?thesis
      using read_decides_now [OF v _ assms(3)] v by (simp add: read_loop.simps [of k])
  next
    case False
    then show ?thesis using v by (simp add: read_loop.simps [of k] read_decides_def)
  qed
next
  case (Cons w ws)
  then obtain v v' where v: "pipes k p = Some v" "pipe_ok v" "pipes (wk_state w) p = Some v'" "pipe_ok v'"
    by (auto simp: readable_def)
  consider "0 < count v" | "count v = 0" "w_refs v = 0 \<or> d \<noteq> 0 \<and> d \<le> now"
    | "count v = 0" "w_refs v \<noteq> 0" "\<not> (d \<noteq> 0 \<and> d \<le> now)" "count v' = 0" "wk_sig w"
    | "count v = 0" "w_refs v \<noteq> 0" "\<not> (d \<noteq> 0 \<and> d \<le> now)" "0 < count v' \<or> \<not> wk_sig w" by blast
  then show ?case
  proof cases
    case 1
    then show ?thesis using read_decides_now [OF v(1,2) _ assms(3)] v by (simp add: read_loop.simps [of k])
  next
    case 2
    then show ?thesis using v by (auto simp: read_loop.simps [of k] read_decides_def)
  next
    case 3
    then show ?thesis using v by (simp add: read_loop.simps [of k] read_decides_def)
  next
    case 4
    then have e: "read_loop k p len d now (w # ws) = read_loop (wk_state w) p len d (wk_now w) ws"
      using v by (subst read_loop.simps) auto
    have "\<exists>k0\<in>set (wk_state w # map wk_state ws).
        read_decides p len d ws k0 (read_loop (wk_state w) p len d (wk_now w) ws)"
      using Cons.prems by (intro Cons.IH) simp_all
    then obtain k0 where k0: "k0 \<in> set (wk_state w # map wk_state ws)"
      "read_decides p len d ws k0 (read_loop (wk_state w) p len d (wk_now w) ws)" by blast
    then have "read_decides p len d (w # ws) k0 (read_loop (wk_state w) p len d (wk_now w) ws)"
      by (auto simp: read_decides_def split: outcome.splits prod.splits if_splits)
    then show ?thesis using k0(1) unfolding e by (intro bexI [of _ k0]) auto
  qed
qed

text \<open>C13. Whatever a reader finds each time it wakes up, its call decides on the last state it saw:
  bytes are delivered in ring order, at most as many as asked for, and the writers are woken; end of
  file only when the pipe is empty and has no writer; \<open>ETIMEDOUT\<close> only past the deadline,
  \<open>EINTR\<close> only for a signal that came with no data; it stays asleep only on an empty pipe
  with a writer.\<close>

theorem pipe_read_outcome:
  assumes "readable k p" and "\<forall>w\<in>set ws. readable (wk_state w) p" and "0 < len" and "p \<noteq> 0"
  shows "\<exists>k0\<in>set (k # map wk_state ws).
    read_decides p len d ws k0 (pipe_read_until k p False len d (now, ws))"
  using read_loop_decides [OF assms(1-3)] assms(3,4) by (simp add: pipe_read_until_def)


section \<open>Wake-ups\<close>

text \<open>One call on the pipe at \<open>p\<close>, up to its return or its falling asleep.\<close>

inductive pipe_call :: "nat \<Rightarrow> kstate \<Rightarrow> kstate \<Rightarrow> bool" where
  read: "pipe_call p k k'" if "pipe_read_until k p False len d (now, []) = Ret k' e r"
| wrote: "pipe_call p k k'" if "pipe_write_until k p False src d (now, []) = Ret k' e n"
| write_sleeps: "pipe_call p k k'" if "pipe_write_until k p False src d (now, []) = Blocked k'"
| unref: "pipe_call p k k'" if "pipe_unref k p which = Some k'"

text \<open>A reader and a writer asleep on the pipe.\<close>

definition read_waits :: "kstate \<Rightarrow> nat \<Rightarrow> bool" where
  "read_waits k p \<longleftrightarrow> (\<exists>v. pipes k p = Some v \<and> count v = 0 \<and> w_refs v \<noteq> 0)"

definition write_waits :: "kstate \<Rightarrow> nat \<Rightarrow> bool" where
  "write_waits k p \<longleftrightarrow> (\<exists>v. pipes k p = Some v \<and> count v = 4096 \<and> r_refs v \<noteq> 0)"

lemma write_log:
  "pipe_write_until k p False src d (now, []) = Ret k' e n \<or>
   pipe_write_until k p False src d (now, []) = Blocked k' \<Longrightarrow>
   pipes k p = Some v \<Longrightarrow> pipe_ok v \<Longrightarrow> k' = k \<or> log k' = log k @ [Wake p]"
proof -
  assume c: "pipe_write_until k p False src d (now, []) = Ret k' e n \<or>
      pipe_write_until k p False src d (now, []) = Blocked k'"
    and v: "pipes k p = Some v" "pipe_ok v"
  show ?thesis
  proof (cases "p = 0 \<or> src = [] \<or> r_refs v = 0")
    case True
    then show ?thesis
      using c write_loop_no_reader [OF v(1), of 0 src d now "[]"]
      by (cases "p = 0"; cases "src = []") (auto simp: pipe_write_until_def)
  next
    case False
    then show ?thesis
      using c pipe_write_nonblocking [OF v(1) _ _ _ v(2), of src d now]
      by (cases "length src \<le> 4096 - count v") (auto simp: frame Let_def not_le split: if_splits)
  qed
qed

lemma read_log:
  "pipe_read_until k p False len d (now, []) = Ret k' e r \<Longrightarrow> pipes k p = Some v \<Longrightarrow> pipe_ok v \<Longrightarrow>
   k' = k \<or> log k' = log k @ [Wake p]"
  by (auto simp: pipe_read_until_def read_loop.simps [of k] read_drain_eq frame split: if_splits)

lemma unref_log:
  assumes "pipe_unref k p which = Some k'" "pipes k p = Some v"
  shows "log k' = log k @ [Wake p] \<or> k' = k \<or>
    (\<exists>v'. pipes k' p = Some v' \<and> count v' = count v \<and>
      (r_refs v' = 0 \<longleftrightarrow> r_refs v = 0) \<and> (w_refs v' = 0 \<longleftrightarrow> w_refs v = 0))"
proof (cases which)
  case PIPE_REF_R
  then show ?thesis
    using assms by (cases "r_refs v - 1 = 0"; cases "w_refs v = 0")
      (auto simp: pipe_unref_def Let_def pipe_free_def frame split: if_splits option.splits)
next
  case PIPE_REF_W
  then show ?thesis
    using assms by (cases "w_refs v - 1 = 0"; cases "r_refs v = 0")
      (auto simp: pipe_unref_def Let_def pipe_free_def frame split: if_splits option.splits)
qed


section \<open>The life of a pseudo-terminal\<close>

definition fresh_pipe :: "pipe \<Rightarrow> bool" where
  "fresh_pipe v \<longleftrightarrow> pipe_ok v \<and> count v = 0 \<and> r_refs v = 1 \<and> w_refs v = 1"

lemma pipe_alloc_cases:
  assumes "heap_live (kheap k) R"
  obtains "pipe_alloc k = Some (k, 0)"
  | k' p l v where "pipe_alloc k = Some (k', p)" "p \<noteq> 0" "heap_live (kheap k') (insert (p, l) R)"
    "p \<notin> fst ` R" "pipes k' = (pipes k)(p := Some v)" "fresh_pipe v" "ptys k' = ptys k" "log k' = log k"
proof -
  show thesis
  proof (rule ka.alloc_returns [OF assms, of 4116])
    assume "kmalloc (kheap k) 4116 = Some (kheap k, 0)"
    then have "pipe_alloc k = Some (k\<lparr>kheap := kheap k\<rparr>, 0)" by (simp add: pipe_alloc_def)
    then show thesis by (intro that(1)) simp
  next
    fix h p l
    assume a: "kmalloc (kheap k) 4116 = Some (h, p)" "p \<noteq> 0" "heap_live h (insert (p, l) R)" "p \<notin> fst ` R"
    let ?v = "\<lparr>buf = junk k p 4096, head = 0, tail = 0, count = 0, r_refs = 1, w_refs = 1\<rparr>"
    let ?k = "put_pipe (k\<lparr>kheap := h\<rparr>) p ?v"
    have k: "pipe_alloc k = Some (?k, p)" using a(1,2) by (simp add: pipe_alloc_def)
    have v: "fresh_pipe ?v" by (simp add: fresh_pipe_def pipe_ok_def)
    have f: "heap_live (kheap ?k) (insert (p, l) R)" "pipes ?k = (pipes k)(p := Some ?v)"
      "ptys ?k = ptys k" "log ?k = log k"
      using a(3) by (simp_all add: frame)
    show thesis by (rule that(2) [OF k a(2) f(1) a(4) f(2) v f(3,4)])
  qed simp_all
qed

text \<open>Dropping one of two references of a pipe, and dropping the last.\<close>

lemma unref_keeps:
  assumes "pipes k p = Some v" "p \<noteq> 0"
    and "which = PIPE_REF_R \<and> w_refs v = 1 \<or> which = PIPE_REF_W \<and> r_refs v = 1"
  shows "\<exists>k' v'. pipe_unref k p which = Some k' \<and> pipes k' = (pipes k)(p := Some v') \<and>
    kheap k' = kheap k \<and> ptys k' = ptys k \<and>
    v' = (if which = PIPE_REF_R then v\<lparr>r_refs := r_refs v - 1\<rparr> else v\<lparr>w_refs := w_refs v - 1\<rparr>)"
  using assms by (cases which) (auto simp: pipe_unref_def Let_def frame)

lemma unref_frees:
  assumes "pipes k p = Some v" "p \<noteq> 0" "heap_live (kheap k) R" "(p, l) \<in> R"
    and "which = PIPE_REF_R \<and> r_refs v = 1 \<and> w_refs v = 0 \<or> which = PIPE_REF_W \<and> w_refs v = 1 \<and> r_refs v = 0"
  shows "\<exists>k'. pipe_unref k p which = Some k' \<and> pipes k' = (pipes k)(p := None) \<and>
    heap_live (kheap k') (R - {(p, l)}) \<and> ptys k' = ptys k"
proof -
  obtain h where "kfree (kheap k) p = Some h" "heap_live h (R - {(p, l)})"
    using ka.free_live [OF assms(3,4)] by blast
  then show ?thesis
    using assms by (cases which) (auto simp: pipe_unref_def Let_def frame pipe_free_def)
qed


text \<open>A pty both of whose ends are open, its three blocks held on top of \<open>R\<close>.\<close>

definition pty_live :: "kstate \<Rightarrow> nat \<Rightarrow> (nat \<times> nat) set \<Rightarrow> bool" where
  "pty_live k p R \<longleftrightarrow> (\<exists>t va vb lp la lb. ptys k p = Some t \<and> refs t = 2 \<and>
     pipes k (m2s t) = Some va \<and> r_refs va = 1 \<and> w_refs va = 1 \<and>
     pipes k (s2m t) = Some vb \<and> r_refs vb = 1 \<and> w_refs vb = 1 \<and>
     p \<noteq> 0 \<and> m2s t \<noteq> 0 \<and> s2m t \<noteq> 0 \<and> m2s t \<noteq> s2m t \<and> p \<noteq> m2s t \<and> p \<noteq> s2m t \<and>
     p \<notin> fst ` R \<and> m2s t \<notin> fst ` R \<and> s2m t \<notin> fst ` R \<and>
     heap_live (kheap k) (insert (s2m t, lb) (insert (m2s t, la) (insert (p, lp) R))))"

lemma drop_both_frees:
  assumes "pipes k p = Some v" "fresh_pipe v" "p \<noteq> 0" "heap_live (kheap k) (insert (p, l) R)" "p \<notin> fst ` R"
  shows "\<exists>k'. drop_both k p = Some k' \<and> pipes k' = (pipes k)(p := None) \<and> heap_live (kheap k') R \<and>
    ptys k' = ptys k"
proof -
  have R: "insert (p, l) R - {(p, l)} = R" using assms(5) by force
  obtain k1 v1 where k1: "pipe_unref k p PIPE_REF_R = Some k1" "pipes k1 = (pipes k)(p := Some v1)"
    "kheap k1 = kheap k" "ptys k1 = ptys k" "r_refs v1 = 0" "w_refs v1 = 1"
    using unref_keeps [OF assms(1,3), of PIPE_REF_R] assms(2) by (auto simp: fresh_pipe_def)
  from unref_frees [of k1 p v1 "insert (p, l) R" l PIPE_REF_W] obtain k2 where
    "pipe_unref k1 p PIPE_REF_W = Some k2" "pipes k2 = (pipes k1)(p := None)"
    "heap_live (kheap k2) (insert (p, l) R - {(p, l)})" "ptys k2 = ptys k1"
    using assms(3,4) k1 by auto
  then show ?thesis using k1 assms(3) R by (auto simp: drop_both_def)
qed

lemma pty_free_live:
  assumes "heap_live (kheap k) (insert (p, l) R)" "p \<notin> fst ` R"
  shows "\<exists>k'. pty_free k p = Some k' \<and> heap_live (kheap k') R \<and> pipes k' = pipes k \<and>
    ptys k' = (ptys k)(p := None)"
proof -
  have R: "insert (p, l) R - {(p, l)} = R" using assms(2) by force
  obtain h where "kfree (kheap k) p = Some h" "heap_live h (insert (p, l) R - {(p, l)})"
    using ka.free_live [OF assms(1), of p l] by auto
  then show ?thesis using R by (simp add: pty_free_def)
qed

lemma pty_alloc_live:
  assumes live: "heap_live (kheap k) R"
  shows "\<exists>k' p. pty_alloc k = Some (k', p) \<and>
    (if p = 0 then heap_live (kheap k') R else pty_live k' p R)"
proof (rule ka.alloc_returns [OF live, of 24])
  assume "kmalloc (kheap k) 24 = Some (kheap k, 0)"
  then show ?thesis using live by (simp add: pty_alloc_def)
next
  fix h p lp
  assume a: "kmalloc (kheap k) 24 = Some (h, p)" "p \<noteq> 0" "heap_live h (insert (p, lp) R)" "p \<notin> fst ` R"
  let ?k = "k\<lparr>kheap := h\<rparr>" and ?R1 = "insert (p, lp) R"
  let ?t = "\<lambda>a b. \<lparr>m2s = a, s2m = b, fg_pid = 0, refs = 2\<rparr>"
  let ?inst = "\<lambda>k2 a b. k2\<lparr>ptys := (ptys k2)(p := Some (?t a b))\<rparr>"
  have live1: "heap_live (kheap ?k) ?R1" using a by simp
  show ?thesis
  proof (rule pipe_alloc_cases [OF live1])
    assume a0: "pipe_alloc ?k = Some (?k, 0)"
    show ?thesis
    proof (rule pipe_alloc_cases [OF live1])
      assume b0: "pipe_alloc ?k = Some (?k, 0)"
      obtain k6 where "pty_free (?inst ?k 0 0) p = Some k6" "heap_live (kheap k6) R"
        using pty_free_live [of "?inst ?k 0 0" p lp R] live1 a(4) by auto
      then show ?thesis using a a0 by (simp add: pty_alloc_def drop_both_def)
    next
      fix k2 b lb vb
      assume "pipe_alloc ?k = Some (k2, b)" "b \<noteq> 0"
      then show ?thesis using a0 by simp
    qed
  next
    fix k1 q la va
    assume q: "pipe_alloc ?k = Some (k1, q)" "q \<noteq> 0" "heap_live (kheap k1) (insert (q, la) ?R1)"
      "q \<notin> fst ` ?R1" "pipes k1 = (pipes ?k)(q := Some va)" "fresh_pipe va" "ptys k1 = ptys ?k"
    show ?thesis
    proof (rule pipe_alloc_cases [OF q(3)])
      assume b0: "pipe_alloc k1 = Some (k1, 0)"
      let ?k3 = "?inst k1 q 0"
      obtain k4 where k4: "drop_both ?k3 q = Some k4" "heap_live (kheap k4) ?R1" "ptys k4 = ptys ?k3"
        using drop_both_frees [of ?k3 q va la ?R1] q by auto
      obtain k6 where "pty_free k4 p = Some k6" "heap_live (kheap k6) R"
        using pty_free_live [OF k4(2) a(4)] by blast
      then show ?thesis using a q b0 k4 by (simp add: pty_alloc_def drop_both_def [of _ 0])
    next
      fix k2 b lb vb
      assume b: "pipe_alloc k1 = Some (k2, b)" "b \<noteq> 0" "heap_live (kheap k2) (insert (b, lb) (insert (q, la) ?R1))"
        "b \<notin> fst ` insert (q, la) ?R1" "pipes k2 = (pipes k1)(b := Some vb)" "fresh_pipe vb"
        "ptys k2 = ptys k1"
      have alloc: "pty_alloc k = Some (?inst k2 q b, p)"
        using a q b by (simp add: pty_alloc_def)
      have "pty_live (?inst k2 q b) p R"
        unfolding pty_live_def
        using a q b by (intro exI [of _ "?t q b"] exI [of _ va] exI [of _ vb] exI [of _ lp] exI [of _ la] exI [of _ lb])
          (auto simp: fresh_pipe_def)
      then show ?thesis using alloc a(2) by auto
    qed
  qed
qed simp_all


text \<open>One half of both pipes released, and then the other half, each pipe by its last reference.\<close>

definition half_closed :: "kstate \<Rightarrow> nat \<Rightarrow> pipe_ref \<Rightarrow> (nat \<times> nat) set \<Rightarrow> bool" where
  "half_closed k p m2s_left R \<longleftrightarrow> (\<exists>t va vb lp la lb. ptys k p = Some t \<and> refs t = 1 \<and>
     pipes k (m2s t) = Some va \<and> pipes k (s2m t) = Some vb \<and>
     (if m2s_left = PIPE_REF_R then r_refs va = 1 \<and> w_refs va = 0 \<and> r_refs vb = 0 \<and> w_refs vb = 1
      else r_refs va = 0 \<and> w_refs va = 1 \<and> r_refs vb = 1 \<and> w_refs vb = 0) \<and>
     p \<noteq> 0 \<and> m2s t \<noteq> 0 \<and> s2m t \<noteq> 0 \<and> m2s t \<noteq> s2m t \<and> p \<noteq> m2s t \<and> p \<noteq> s2m t \<and>
     p \<notin> fst ` R \<and> m2s t \<notin> fst ` R \<and> s2m t \<notin> fst ` R \<and>
     heap_live (kheap k) (insert (s2m t, lb) (insert (m2s t, la) (insert (p, lp) R))))"

lemma close_master_first:
  assumes "pty_live k p R"
  shows "\<exists>k'. pty_close_master k p = Some k' \<and> half_closed k' p PIPE_REF_R R"
proof -
  obtain t va vb lp la lb where t: "ptys k p = Some t" "refs t = 2"
    "pipes k (m2s t) = Some va" "r_refs va = 1" "w_refs va = 1"
    "pipes k (s2m t) = Some vb" "r_refs vb = 1" "w_refs vb = 1"
    and d: "p \<noteq> 0" "m2s t \<noteq> 0" "s2m t \<noteq> 0" "m2s t \<noteq> s2m t" "p \<noteq> m2s t" "p \<noteq> s2m t"
     "p \<notin> fst ` R" "m2s t \<notin> fst ` R" "s2m t \<notin> fst ` R"
    and live: "heap_live (kheap k) (insert (s2m t, lb) (insert (m2s t, la) (insert (p, lp) R)))"
    using assms unfolding pty_live_def by blast
  obtain k1 where k1: "pipe_unref k (s2m t) PIPE_REF_R = Some k1"
    "pipes k1 = (pipes k)(s2m t := Some (vb\<lparr>r_refs := 0\<rparr>))" "kheap k1 = kheap k" "ptys k1 = ptys k"
    using unref_keeps [OF t(6) d(3), of PIPE_REF_R] t by auto
  then have a: "pipes k1 (m2s t) = Some va" using t d by simp
  obtain k2 where k2: "pipe_unref k1 (m2s t) PIPE_REF_W = Some k2"
    "pipes k2 = (pipes k1)(m2s t := Some (va\<lparr>w_refs := 0\<rparr>))" "kheap k2 = kheap k1" "ptys k2 = ptys k1"
    using unref_keeps [OF a d(2), of PIPE_REF_W] t by auto
  let ?k = "k2\<lparr>ptys := (ptys k2)(p := Some (t\<lparr>refs := 1\<rparr>))\<rparr>"
  have "pty_close_master k p = Some ?k"
    using t d k1 k2 by (simp add: pty_close_master_def pty_put_def)
  moreover have "half_closed ?k p PIPE_REF_R R"
    unfolding half_closed_def
    by (intro exI [of _ "t\<lparr>refs := 1\<rparr>"] exI [of _ "va\<lparr>w_refs := 0\<rparr>"] exI [of _ "vb\<lparr>r_refs := 0\<rparr>"]
        exI [of _ lp] exI [of _ la] exI [of _ lb]) (use t d live k1 k2 in simp)
  ultimately show ?thesis by blast
qed

lemma close_slave_first:
  assumes "pty_live k p R"
  shows "\<exists>k'. pty_close_slave k p = Some k' \<and> half_closed k' p PIPE_REF_W R"
proof -
  obtain t va vb lp la lb where t: "ptys k p = Some t" "refs t = 2"
    "pipes k (m2s t) = Some va" "r_refs va = 1" "w_refs va = 1"
    "pipes k (s2m t) = Some vb" "r_refs vb = 1" "w_refs vb = 1"
    and d: "p \<noteq> 0" "m2s t \<noteq> 0" "s2m t \<noteq> 0" "m2s t \<noteq> s2m t" "p \<noteq> m2s t" "p \<noteq> s2m t"
     "p \<notin> fst ` R" "m2s t \<notin> fst ` R" "s2m t \<notin> fst ` R"
    and live: "heap_live (kheap k) (insert (s2m t, lb) (insert (m2s t, la) (insert (p, lp) R)))"
    using assms unfolding pty_live_def by blast
  obtain k1 where k1: "pipe_unref k (m2s t) PIPE_REF_R = Some k1"
    "pipes k1 = (pipes k)(m2s t := Some (va\<lparr>r_refs := 0\<rparr>))" "kheap k1 = kheap k" "ptys k1 = ptys k"
    using unref_keeps [OF t(3) d(2), of PIPE_REF_R] t by auto
  then have b: "pipes k1 (s2m t) = Some vb" using t d by simp
  obtain k2 where k2: "pipe_unref k1 (s2m t) PIPE_REF_W = Some k2"
    "pipes k2 = (pipes k1)(s2m t := Some (vb\<lparr>w_refs := 0\<rparr>))" "kheap k2 = kheap k1" "ptys k2 = ptys k1"
    using unref_keeps [OF b d(3), of PIPE_REF_W] t by auto
  let ?k = "k2\<lparr>ptys := (ptys k2)(p := Some (t\<lparr>refs := 1\<rparr>))\<rparr>"
  have "pty_close_slave k p = Some ?k"
    using t d k1 k2 by (simp add: pty_close_slave_def pty_put_def)
  moreover have "half_closed ?k p PIPE_REF_W R"
    unfolding half_closed_def
    by (intro exI [of _ "t\<lparr>refs := 1\<rparr>"] exI [of _ "va\<lparr>r_refs := 0\<rparr>"] exI [of _ "vb\<lparr>w_refs := 0\<rparr>"]
        exI [of _ lp] exI [of _ la] exI [of _ lb]) (use t d live k1 k2 in simp)
  ultimately show ?thesis by blast
qed

text \<open>The last references: both pipes are freed and then the pty.\<close>

lemma close_last:
  assumes "ptys k p = Some t" "refs t = 1" "p \<noteq> 0"
    and a: "pipes k a = Some va" "a \<noteq> 0" and b: "pipes k b = Some vb" "b \<noteq> 0" "a \<noteq> b"
    and ra: "r_refs va = 1 \<and> w_refs va = 0" and wb: "r_refs vb = 0 \<and> w_refs vb = 1"
    and live: "heap_live (kheap k) (insert (b, lb) (insert (a, la) (insert (p, lp) R)))"
    and out: "a \<notin> fst ` insert (p, lp) R" "b \<notin> fst ` insert (p, lp) R" "p \<notin> fst ` R"
  shows "\<exists>k1 k2 k3. pipe_unref k a PIPE_REF_R = Some k1 \<and> pipe_unref k1 b PIPE_REF_W = Some k2 \<and>
    pty_put k2 p = Some k3 \<and> heap_live (kheap k3) R \<and> ptys k3 p = None \<and>
    pipes k3 a = None \<and> pipes k3 b = None"
proof -
  let ?R = "insert (p, lp) R"
  have e1: "insert (b, lb) (insert (a, la) ?R) - {(a, la)} = insert (b, lb) ?R" using out(1) b(3) by force
  obtain k1 where k1: "pipe_unref k a PIPE_REF_R = Some k1" "pipes k1 = (pipes k)(a := None)"
    "heap_live (kheap k1) (insert (b, lb) ?R)" "ptys k1 = ptys k"
    using unref_frees [OF a live, of la PIPE_REF_R] ra e1 by auto
  have e2: "insert (b, lb) ?R - {(b, lb)} = ?R" using out(2) by force
  have b1: "pipes k1 b = Some vb" using k1 b by simp
  obtain k2 where k2: "pipe_unref k1 b PIPE_REF_W = Some k2" "pipes k2 = (pipes k1)(b := None)"
    "heap_live (kheap k2) ?R" "ptys k2 = ptys k1"
    using unref_frees [OF b1 b(2) k1(3), of lb PIPE_REF_W] wb e2 by auto
  let ?k = "k2\<lparr>ptys := (ptys k2)(p := Some (t\<lparr>refs := 0\<rparr>))\<rparr>"
  obtain k3 where "pty_free ?k p = Some k3" "heap_live (kheap k3) R" "pipes k3 = pipes ?k"
    "ptys k3 = (ptys ?k)(p := None)"
    using pty_free_live [of ?k p lp R] k2(3) out(3) by auto
  then show ?thesis using k1 k2 assms(1,2) by (simp add: pty_put_def)
qed

lemma close_second:
  assumes "half_closed k p m2s_left R"
  shows "\<exists>k'. (if m2s_left = PIPE_REF_R then pty_close_slave k p else pty_close_master k p) = Some k' \<and>
    heap_live (kheap k') R \<and> ptys k' p = None"
proof -
  obtain t va vb lp la lb where t: "ptys k p = Some t" "refs t = 1"
    "pipes k (m2s t) = Some va" "pipes k (s2m t) = Some vb"
    "if m2s_left = PIPE_REF_R then r_refs va = 1 \<and> w_refs va = 0 \<and> r_refs vb = 0 \<and> w_refs vb = 1
      else r_refs va = 0 \<and> w_refs va = 1 \<and> r_refs vb = 1 \<and> w_refs vb = 0"
    and d: "p \<noteq> 0" "m2s t \<noteq> 0" "s2m t \<noteq> 0" "m2s t \<noteq> s2m t" "p \<noteq> m2s t" "p \<noteq> s2m t"
     "p \<notin> fst ` R" "m2s t \<notin> fst ` R" "s2m t \<notin> fst ` R"
    and live: "heap_live (kheap k) (insert (s2m t, lb) (insert (m2s t, la) (insert (p, lp) R)))"
    using assms unfolding half_closed_def by blast
  show ?thesis
  proof (cases "m2s_left = PIPE_REF_R")
    case True
    then show ?thesis
      using close_last [OF t(1,2) d(1) t(3) d(2) t(4) d(3,4) _ _ live] t d
      by (auto simp: pty_close_slave_def)
  next
    case False
    then show ?thesis
      using close_last [OF t(1,2) d(1) t(4) d(3) t(3) d(2) _ _ _ live [THEN subst [OF insert_commute, of "heap_live (kheap k)"]]] t d
      by (auto simp: pty_close_master_def)
  qed
qed


text \<open>C15. Allocating a pty either fails leaving nothing allocated, or yields a pty from which both
  orders of closing its two ends free the structure and both pipes exactly once: afterwards the heap
  holds what it held before.\<close>

theorem pty_lifecycle:
  assumes "heap_live (kheap k) R"
  shows "\<exists>k' p. pty_alloc k = Some (k', p) \<and>
    (if p = 0 then heap_live (kheap k') R
     else (\<exists>k1 k2. pty_close_master k' p = Some k1 \<and> pty_close_slave k1 p = Some k2 \<and>
             heap_live (kheap k2) R \<and> ptys k2 p = None) \<and>
          (\<exists>k1 k2. pty_close_slave k' p = Some k1 \<and> pty_close_master k1 p = Some k2 \<and>
             heap_live (kheap k2) R \<and> ptys k2 p = None))"
proof -
  obtain k' p where k': "pty_alloc k = Some (k', p)"
    "if p = 0 then heap_live (kheap k') R else pty_live k' p R"
    using pty_alloc_live [OF assms] by blast
  show ?thesis
  proof (cases "p = 0")
    case True
    then show ?thesis using k' by auto
  next
    case False
    then have live: "pty_live k' p R" using k' by simp
    obtain k1 k2 where "pty_close_master k' p = Some k1" "pty_close_slave k1 p = Some k2"
      "heap_live (kheap k2) R" "ptys k2 p = None"
      using close_master_first [OF live] close_second [of _ p PIPE_REF_R R] by (metis (full_types))
    moreover obtain k3 k4 where "pty_close_slave k' p = Some k3" "pty_close_master k3 p = Some k4"
      "heap_live (kheap k4) R" "ptys k4 p = None"
      using close_slave_first [OF live] close_second [of _ p PIPE_REF_W R] by (metis pipe_ref.distinct(1))
    ultimately show ?thesis using k' False by auto
  qed
qed

definition is_signal :: "event \<Rightarrow> bool" where
  "is_signal e = (case e of Signal _ _ \<Rightarrow> True | Wake _ \<Rightarrow> False)"

lemma is_signal_simps [simp]: "is_signal (Signal i n)" "\<not> is_signal (Wake p)"
  by (simp_all add: is_signal_def)

lemma master_write_line:
  assumes "ptys k p = Some t" "pipes k (m2s t) = Some v" "pipe_ok v" "r_refs v \<noteq> 0" "m2s t \<noteq> 0"
    and "count v + length (filter (\<lambda>c. c \<noteq> 3) src) \<le> 4096"
  shows "\<exists>k' v' evs. master_write_loop k p src acc env = Ret k' env (int (acc + length src)) \<and>
    pipes k' (m2s t) = Some v' \<and> pipe_bytes v' = pipe_bytes v @ filter (\<lambda>c. c \<noteq> 3) src \<and>
    log k' = log k @ evs \<and> filter is_signal evs =
      (if fg_pid t > 0 then replicate (length (filter (\<lambda>c. c = 3) src)) (Signal (fg_pid t) 2) else [])"
  using assms
proof (induction src arbitrary: k v acc)
  case Nil
  then show ?case by simp
next
  case (Cons c cs)
  show ?case
  proof (cases "c = 3")
    case True
    let ?k = "if fg_pid t > 0 then thread_signal_pid k (fg_pid t) 2 else k"
    have "ptys ?k p = Some t" "pipes ?k (m2s t) = Some v" using Cons.prems by (simp_all add: frame)
    then obtain k' v' evs where "master_write_loop ?k p cs (acc + 1) env = Ret k' env (int (acc + 1 + length cs))"
      "pipes k' (m2s t) = Some v'" "pipe_bytes v' = pipe_bytes v @ filter (\<lambda>c. c \<noteq> 3) cs"
      "log k' = log ?k @ evs" "filter is_signal evs =
        (if fg_pid t > 0 then replicate (length (filter (\<lambda>c. c = 3) cs)) (Signal (fg_pid t) 2) else [])"
      using Cons.IH [of ?k v "acc + 1"] Cons.prems True by auto
    then show ?thesis
      using Cons.prems True
      by (intro exI [of _ k'] exI [of _ v'] exI [of _ "(if fg_pid t > 0 then [Signal (fg_pid t) 2] else []) @ evs"])
        (auto simp: frame Let_def)
  next
    case False
    let ?k = "chunk k (m2s t) v [c]"
    have room: "count v + 1 \<le> 4096" using Cons.prems(6) False by simp
    have w: "pipe_write k (m2s t) False [c] env = Ret ?k env 1"
      using pipe_write_nonblocking(1) [OF Cons.prems(2,5) _ Cons.prems(4,3), of "[c]" 0 "fst env" "snd env"] room
      by (simp add: pipe_write_def)
    have "ptys ?k p = Some t" "pipes ?k (m2s t) = Some (fill [c] v)" "pipe_ok (fill [c] v)"
      "r_refs (fill [c] v) \<noteq> 0" "pipe_bytes (fill [c] v) = pipe_bytes v @ [c]"
      using Cons.prems room by (simp_all add: frame fill_ok)
    then obtain k' v' evs where "master_write_loop ?k p cs (acc + 1) env = Ret k' env (int (acc + 1 + length cs))"
      "pipes k' (m2s t) = Some v'" "pipe_bytes v' = (pipe_bytes v @ [c]) @ filter (\<lambda>c. c \<noteq> 3) cs"
      "log k' = log ?k @ evs" "filter is_signal evs =
        (if fg_pid t > 0 then replicate (length (filter (\<lambda>c. c = 3) cs)) (Signal (fg_pid t) 2) else [])"
      using Cons.IH [of ?k "fill [c] v" "acc + 1"] Cons.prems False by (auto simp: frame)
    then show ?thesis
      using Cons.prems False w
      by (intro exI [of _ k'] exI [of _ v'] exI [of _ "Wake (m2s t) # evs"])
        (auto simp: frame)
  qed
qed


section \<open>Instances\<close>

definition example_pipe :: pipe where
  "example_pipe = \<lparr>buf = replicate 4096 0, head = 0, tail = 0, count = 0, r_refs = 1, w_refs = 1\<rparr>"

definition example_k :: kstate where
  "example_k = \<lparr>kheap = example_heap, ram = (\<lambda>_. 0), pipes = [4112 \<mapsto> example_pipe],
     ptys = [64 \<mapsto> \<lparr>m2s = 4112, s2m = 4112, fg_pid = 7, refs = 2\<rparr>], log = []\<rparr>"

lemma example_k_pipe:
  "pipes example_k 4112 = Some example_pipe" "pipe_ok example_pipe" "r_refs example_pipe \<noteq> 0"
  "count example_pipe = 0" "pipe_bytes example_pipe = []" "w_refs example_pipe = 1"
  by (simp_all add: example_k_def example_pipe_def pipe_ok_def pipe_bytes_def)

lemma example_write:
  "pipe_write_until example_k 4112 False [1, 2, 3] 0 (0, []) =
     Ret (chunk example_k 4112 example_pipe [1, 2, 3]) (0, []) 3"
  using pipe_write_nonblocking(1) [OF example_k_pipe(1) _ _ example_k_pipe(3,2), of "[1, 2, 3]" 0 0 "[]"]
  by (simp add: example_k_pipe)

text \<open>A write of 4097 bytes fills the ring, sleeps, and is woken when a reader has taken two bytes.\<close>

lemma pipe_order_witness:
  "\<exists>z W k v. length z = 4096 \<and> pipe_run 4112 example_k W (take 2 z) k \<and> map wr_src W = [z @ [7]] \<and>
     map wr_ret W = [Some 4097] \<and> pipes k 4112 = Some v \<and> pipe_bytes v = drop 2 z @ [7]"
proof -
  obtain z :: "byte list" where z: "length z = 4096" using Ex_list_of_length by blast
  let ?src = "z @ [7]"
  let ?k1 = "chunk example_k 4112 example_pipe z" and ?v1 = "fill z example_pipe"
  let ?w0 = "\<lparr>wr_k = example_k, wr_now = 0, wr_src = ?src, wr_deadline = 0, wr_wakes = [], wr_ret = None\<rparr>"
  have v1: "pipes ?k1 4112 = Some ?v1" "pipe_ok ?v1" "count ?v1 = 4096" "pipe_bytes ?v1 = z" "r_refs ?v1 \<noteq> 0"
    using fill_ok [OF example_k_pipe(2), of z] by (simp_all add: frame example_k_pipe z)
  have first: "pipe_write_until example_k 4112 False ?src 0 (0, ws) = write_loop ?k1 4112 ?src 4096 0 0 ws" for ws
    using write_loop_room [OF example_k_pipe(1) _ example_k_pipe(3), of 0 ?src 0 0 ws]
    by (simp add: pipe_write_until_def example_k_pipe z)
  note full = write_loop_full [OF v1(1) _ v1(5,3), of 4096 ?src 0 0]
  have "leaves 4112 ?w0 ?k1" by (simp add: leaves_def first full z)
  then have r1: "pipe_run 4112 example_k ([] @ [?w0]) [] ?k1" by (intro pipe_run.calls [OF pipe_run.start]) simp_all
  let ?v2 = "snd (drain 2 ?v1)"
  let ?k2 = "thread_wake_blocked (put_pipe ?k1 4112 ?v2) 4112"
  have "pipe_read_until ?k1 4112 False 2 0 (0, []) = Ret ?k2 (0, []) (2, take 2 z)"
    using v1(1-4) by (simp add: pipe_read_until_def read_loop.simps [of ?k1] read_drain_eq)
  from pipe_run.reads [OF r1 this] have r2: "pipe_run 4112 example_k [?w0] (take 2 z) ?k2" by simp
  have v2: "pipes ?k2 4112 = Some ?v2" "count ?v2 = 4094" "r_refs ?v2 \<noteq> 0"
    using v1(2,3,5) by (simp_all add: frame)
  let ?x = "\<lparr>wk_state = ?k2, wk_now = 5, wk_sig = False\<rparr>"
  let ?w = "?w0\<lparr>wr_wakes := wr_wakes ?w0 @ [?x], wr_ret := Some 4097\<rparr>"
  let ?k3 = "chunk ?k2 4112 ?v2 [7]"
  have "write_loop ?k2 4112 ?src 4096 0 5 [] = Ret ?k3 (5, []) 4097"
    using write_loop_room [OF v2(1) _ v2(3), of 4096 ?src 0 5 "[]"] v2(2) by (simp add: write_loop_done z)
  then have "leaves 4112 ?w ?k3" by (simp add: leaves_def first full z)
  then have r3: "pipe_run 4112 example_k [?w] (take 2 z) ?k3"
    using pipe_run.woken [OF r2, of 0 ?x ?w "Some 4097" ?k3] by simp
  from pipe_order [OF r3 example_k_pipe(1,2,4)] obtain v tagged where
    v: "pipes ?k3 4112 = Some v" "map snd tagged = take 2 z @ pipe_bytes v" "\<forall>t\<in>set tagged. fst t = 0"
      "accepted 4112 ?w (by_writer 0 tagged)" by auto
  have "by_writer 0 tagged = map snd tagged" using v(3) by (simp add: by_writer_def)
  then have "take 2 z @ pipe_bytes v = take 2 z @ (drop 2 z @ [7])"
    using v(2,4) z by (simp add: accepted_def flip: append_assoc)
  then have "pipe_bytes v = drop 2 z @ [7]" by (simp only: same_append_eq)
  then show ?thesis
    using r3 v(1) z by (intro exI [of _ z] exI [of _ "[?w]"] exI [of _ ?k3] exI [of _ v]) simp
qed

lemma pipe_read_outcome_witness:
  "\<exists>k0\<in>{example_k, chunk example_k 4112 example_pipe [1, 2, 3]}.
     read_decides 4112 8 0 [\<lparr>wk_state = chunk example_k 4112 example_pipe [1, 2, 3], wk_now = 5, wk_sig = False\<rparr>] k0
       (pipe_read_until example_k 4112 False 8 0
         (0, [\<lparr>wk_state = chunk example_k 4112 example_pipe [1, 2, 3], wk_now = 5, wk_sig = False\<rparr>]))"
  using pipe_read_outcome [of example_k 4112
      "[\<lparr>wk_state = chunk example_k 4112 example_pipe [1, 2, 3], wk_now = 5, wk_sig = False\<rparr>]" 8 0 0]
    fill_ok [OF example_k_pipe(2), of "[1, 2, 3]"]
  by (simp add: readable_def example_k_pipe frame)


lemma large_heap:
  "\<exists>h h1 h2 h3. heap_live h {} \<and> kmalloc h 24 = Some (h1, 4112) \<and> kmalloc h1 4116 = Some (h2, 4160) \<and>
     kmalloc h2 4116 = Some (h3, 8304)"
proof -
  obtain h where h: "heap_rep h [(65536, False)]" "heap_start h = 4096"
    using kheap_init_rep [of 4096 65536 "\<lparr>heap_start = 0, heap_end = 0,
      hdr = (\<lambda>_. \<lparr>total_size = 0, prev_size = 0\<rparr>)\<rparr>"] by auto
  have need: "kmalloc_need 24 = 48" "kmalloc_need 4116 = 4144"
    by (simp_all add: kmalloc_need_def align_up64_def align_down_def add64_def)
  obtain h1 where h1: "kmalloc h 24 = Some (h1, 4112)" "heap_rep h1 [(48, True), (65488, False)]"
    "heap_start h1 = 4096"
    using kmalloc_first_fit [OF h(1), of 24] h(2) by (auto simp: need split_blk_def)
  obtain h2 where h2: "kmalloc h1 4116 = Some (h2, 4160)"
    "heap_rep h2 [(48, True), (4144, True), (61344, False)]" "heap_start h2 = 4096"
    using kmalloc_first_fit [OF h1(2), of 4116] h1(3) by (auto simp: need split_blk_def)
  obtain h3 where "kmalloc h2 4116 = Some (h3, 8304)"
    using kmalloc_first_fit [OF h2(2), of 4116] h2(3) by (auto simp: need split_blk_def)
  then show ?thesis using h1 h2 heap_rep_live [OF h(1)] by blast
qed

lemma pty_lifecycle_witness:
  "\<exists>k k' k1 k2. heap_live (kheap k) {} \<and> pty_alloc k = Some (k', 4112) \<and>
     pty_close_master k' 4112 = Some k1 \<and> pty_close_slave k1 4112 = Some k2 \<and> heap_live (kheap k2) {}"
proof -
  obtain h h1 h2 h3 where h: "heap_live h {}" "kmalloc h 24 = Some (h1, 4112)"
    "kmalloc h1 4116 = Some (h2, 4160)" "kmalloc h2 4116 = Some (h3, 8304)" using large_heap by blast
  let ?k = "example_k\<lparr>kheap := h\<rparr>"
  have "heap_live (kheap ?k) {}" using h by simp
  from pty_lifecycle [OF this] obtain k' p where a: "pty_alloc ?k = Some (k', p)"
    "if p = 0 then heap_live (kheap k') {}
     else (\<exists>k1 k2. pty_close_master k' p = Some k1 \<and> pty_close_slave k1 p = Some k2 \<and>
             heap_live (kheap k2) {} \<and> ptys k2 p = None) \<and>
          (\<exists>k1 k2. pty_close_slave k' p = Some k1 \<and> pty_close_master k1 p = Some k2 \<and>
             heap_live (kheap k2) {} \<and> ptys k2 p = None)" by blast
  have "p = 4112" using a(1) h by (simp add: pty_alloc_def pipe_alloc_def frame)
  then obtain k1 k2 where "pty_close_master k' 4112 = Some k1" "pty_close_slave k1 4112 = Some k2"
      "heap_live (kheap k2) {}" using a(2) by auto
  then show ?thesis using a(1) h(1) \<open>p = 4112\<close>
    by (intro exI [of _ ?k] exI [of _ k'] exI [of _ k1] exI [of _ k2]) simp
qed


end
