(* ===== verification/Disk.thy ===== *)
theory Disk
  imports Prelude
begin

text \<open>
  The block device as the file systems see it, and the 4 KiB block transfers of
  \<open>kernel/core/osfs2_journal.c\<close> and \<open>kernel/core/osfs2_cache.c\<close> (\<open>raw_read\<close>,
  \<open>raw_write\<close>).

  The virtio driver and the device behind it are not modelled.  What is assumed of
  \<open>virtio_blk_dev_read\<close> and \<open>virtio_blk_dev_write\<close> is what the virtio block specification
  says of a request: a 512-byte sector is transferred as a whole or the request fails.  Which
  requests fail is left open: \<open>fate\<close> decides the fate of the n-th write, so that any pattern of
  transient errors can occur, and a power loss after \<open>k\<close> writes is the fate
  \<open>\<lambda>n. k \<le> n\<close>; \<open>unreadable\<close> is the set of sectors that cannot be read.
\<close>

type_synonym sector = "byte list"

record disk =
  sectors :: "nat \<Rightarrow> sector"
  nwrites :: nat
  fate :: "nat \<Rightarrow> bool"
  unreadable :: "nat set"

definition dev_write :: "disk \<Rightarrow> nat \<Rightarrow> sector \<Rightarrow> disk \<times> int" where
  "dev_write d lba bs =
     (let d1 = d\<lparr>nwrites := nwrites d + 1\<rparr>
      in if fate d (nwrites d) then (d1, -1) else (d1\<lparr>sectors := (sectors d)(lba := bs)\<rparr>, 0))"

definition dev_read :: "disk \<Rightarrow> nat \<Rightarrow> sector option" where
  "dev_read d lba = (if lba \<in> unreadable d then None else Some (sectors d lba))"

abbreviation (input) SECTORS_PER_BLOCK :: nat where "SECTORS_PER_BLOCK \<equiv> 8"
abbreviation (input) BLOCK_SIZE :: nat where "BLOCK_SIZE \<equiv> 4096"

text \<open>The loops over the eight sectors of a block; \<open>n\<close> sectors are left.\<close>

fun read_sectors :: "disk \<Rightarrow> nat \<Rightarrow> nat \<Rightarrow> byte list option" where
  "read_sectors d lba 0 = Some []"
| "read_sectors d lba (Suc n) =
     (case dev_read d lba of
        None \<Rightarrow> None
      | Some s \<Rightarrow> (case read_sectors d (lba + 1) n of None \<Rightarrow> None | Some rest \<Rightarrow> Some (s @ rest)))"

definition raw_read :: "disk \<Rightarrow> u32 \<Rightarrow> byte list option" where
  "raw_read d blk = read_sectors d (unat blk * SECTORS_PER_BLOCK) SECTORS_PER_BLOCK"

fun write_sectors :: "disk \<Rightarrow> nat \<Rightarrow> byte list \<Rightarrow> nat \<Rightarrow> disk \<times> int" where
  "write_sectors d lba src 0 = (d, 0)"
| "write_sectors d lba src (Suc n) =
     (let (d1, r) = dev_write d lba (take 512 src)
      in if r \<noteq> 0 then (d1, -1) else write_sectors d1 (lba + 1) (drop 512 src) n)"

definition raw_write :: "disk \<Rightarrow> u32 \<Rightarrow> byte list \<Rightarrow> disk \<times> int" where
  "raw_write d blk src = write_sectors d (unat blk * SECTORS_PER_BLOCK) src SECTORS_PER_BLOCK"

section \<open>Blocks\<close>

definition disk_ok :: "disk \<Rightarrow> bool" where
  "disk_ok d \<longleftrightarrow> (\<forall>s. length (sectors d s) = 512)"

definition block_sectors :: "u32 \<Rightarrow> nat set" where
  "block_sectors b = {unat b * 8..<unat b * 8 + 8}"

text \<open>The content of a block.\<close>

definition block_at :: "disk \<Rightarrow> u32 \<Rightarrow> byte list" where
  "block_at d b = concat (map (\<lambda>i. sectors d (unat b * 8 + i)) [0..<8])"

lemma block_sectors_disjoint: "b \<noteq> c \<Longrightarrow> block_sectors b \<inter> block_sectors c = {}"
proof -
  assume "b \<noteq> c"
  then have "unat b \<noteq> unat c" by (simp add: word_unat_eq_iff)
  then have "unat b < unat c \<or> unat c < unat b" by linarith
  then show ?thesis by (auto simp: block_sectors_def)
qed

lemma in_block_sectors: "s \<in> block_sectors b \<longleftrightarrow> s div 8 = unat b"
  by (auto simp: block_sectors_def)

lemma block_at_cong: "(\<And>s. s \<in> block_sectors b \<Longrightarrow> sectors d s = sectors e s) \<Longrightarrow> block_at d b = block_at e b"
  unfolding block_at_def by (intro arg_cong [of _ _ concat] map_cong) (auto simp: block_sectors_def)

lemma length_block_at [simp]: "disk_ok d \<Longrightarrow> length (block_at d b) = 4096"
  by (simp add: block_at_def disk_ok_def length_concat comp_def upt_rec numeral_eq_Suc)

lemma read_sectors_eq:
  "(\<forall>s\<in>{lba..<lba + n}. s \<notin> unreadable d) \<Longrightarrow>
   read_sectors d lba n = Some (concat (map (\<lambda>i. sectors d (lba + i)) [0..<n]))"
proof (induction n arbitrary: lba)
  case 0
  then show ?case by simp
next
  case (Suc n)
  have "map (\<lambda>i. sectors d (lba + i)) [0..<Suc n] =
      sectors d lba # map (\<lambda>i. sectors d (lba + 1 + i)) [0..<n]"
    by (simp add: upt_conv_Cons map_Suc_upt [symmetric] del: upt_Suc)
  then show ?case using Suc by (simp add: dev_read_def)
qed

lemma raw_read_eq: "block_sectors b \<inter> unreadable d = {} \<Longrightarrow> raw_read d b = Some (block_at d b)"
  unfolding raw_read_def block_at_def by (rule read_sectors_eq) (auto simp: block_sectors_def)

lemma read_sectors_Some:
  "read_sectors d lba n = Some bs \<Longrightarrow> bs = concat (map (\<lambda>i. sectors d (lba + i)) [0..<n])"
proof (induction n arbitrary: lba bs)
  case 0
  then show ?case by simp
next
  case (Suc n)
  have "map (\<lambda>i. sectors d (lba + i)) [0..<Suc n] =
      sectors d lba # map (\<lambda>i. sectors d (lba + 1 + i)) [0..<n]"
    by (simp add: upt_conv_Cons map_Suc_upt [symmetric] del: upt_Suc)
  moreover obtain rest where "read_sectors d (lba + 1) n = Some rest" "bs = sectors d lba @ rest"
    using Suc.prems by (auto simp: dev_read_def split: option.splits if_splits)
  ultimately show ?case using Suc.IH [of "lba + 1" rest] by (simp only: concat.simps)
qed

lemma raw_read_Some: "raw_read d b = Some bs \<Longrightarrow> bs = block_at d b"
  unfolding raw_read_def block_at_def by (rule read_sectors_Some)

text \<open>
  What a block write that is cut short may leave: the sectors outside the block untouched, those
  inside in any state of the right length.
\<close>

lemma dev_write_frame [frame]:
  "fate (fst (dev_write d l bs)) = fate d" "unreadable (fst (dev_write d l bs)) = unreadable d"
  "nwrites (fst (dev_write d l bs)) = nwrites d + 1"
  "s \<noteq> l \<Longrightarrow> sectors (fst (dev_write d l bs)) s = sectors d s"
  by (simp_all add: dev_write_def Let_def)

lemma write_sectors_frame [frame]:
  "fate (fst (write_sectors d lba src n)) = fate d"
  "unreadable (fst (write_sectors d lba src n)) = unreadable d"
  by (induction n arbitrary: d lba src) (auto simp: dev_write_def Let_def)

lemma write_sectors_outside:
  "s \<notin> {lba..<lba + n} \<Longrightarrow> sectors (fst (write_sectors d lba src n)) s = sectors d s"
  by (induction n arbitrary: d lba src) (auto simp: dev_write_def Let_def)

lemma write_sectors_ok:
  "disk_ok d \<Longrightarrow> 512 * n \<le> length src \<Longrightarrow> disk_ok (fst (write_sectors d lba src n))"
proof (induction n arbitrary: d lba src)
  case 0
  then show ?case by simp
next
  case (Suc n)
  let ?d = "fst (dev_write d lba (take 512 src))"
  have "disk_ok ?d" using Suc.prems by (auto simp: disk_ok_def dev_write_def Let_def)
  then have "disk_ok (fst (write_sectors ?d (lba + 1) (drop 512 src) n))"
    using Suc.prems by (intro Suc.IH) auto
  then show ?case using \<open>disk_ok ?d\<close> by (auto simp: case_prod_beta Let_def)
qed

lemma write_sectors_done:
  "snd (write_sectors d lba src n) = 0 \<Longrightarrow> length src = 512 * n \<Longrightarrow>
   concat (map (\<lambda>i. sectors (fst (write_sectors d lba src n)) (lba + i)) [0..<n]) = src"
proof (induction n arbitrary: d lba src)
  case 0
  then show ?case by simp
next
  case (Suc n)
  let ?d = "fst (dev_write d lba (take 512 src))"
  let ?e = "fst (write_sectors ?d (lba + 1) (drop 512 src) n)"
  have r: "snd (dev_write d lba (take 512 src)) = 0" "snd (write_sectors ?d (lba + 1) (drop 512 src) n) = 0"
    using Suc.prems(1) by (auto simp: case_prod_beta Let_def split: if_splits)
  have e: "fst (write_sectors d lba src (Suc n)) = ?e" using r by (simp add: case_prod_beta Let_def)
  have "sectors ?e lba = take 512 src"
    using r(1) by (simp add: write_sectors_outside) (simp add: dev_write_def Let_def split: if_splits)
  moreover have "concat (map (\<lambda>i. sectors ?e (lba + 1 + i)) [0..<n]) = drop 512 src"
    using Suc.prems(2) by (intro Suc.IH r(2)) simp
  moreover have "map (\<lambda>i. sectors ?e (lba + i)) [0..<Suc n] =
      sectors ?e lba # map (\<lambda>i. sectors ?e (lba + 1 + i)) [0..<n]"
    by (simp add: upt_conv_Cons map_Suc_upt [symmetric] del: upt_Suc)
  ultimately show ?case unfolding e by (simp only: concat.simps append_take_drop_id)
qed

lemma raw_write_frame [frame]:
  "fate (fst (raw_write d b src)) = fate d" "unreadable (fst (raw_write d b src)) = unreadable d"
  "s \<notin> block_sectors b \<Longrightarrow> sectors (fst (raw_write d b src)) s = sectors d s"
  "disk_ok d \<Longrightarrow> length src = 4096 \<Longrightarrow> disk_ok (fst (raw_write d b src))"
  unfolding raw_write_def block_sectors_def
  by (simp_all add: frame write_sectors_outside write_sectors_ok)

lemma raw_write_done:
  "snd (raw_write d b src) = 0 \<Longrightarrow> length src = 4096 \<Longrightarrow> block_at (fst (raw_write d b src)) b = src"
  unfolding raw_write_def block_at_def by (rule write_sectors_done) simp_all

lemma raw_write_other [frame]: "c \<noteq> b \<Longrightarrow> block_at (fst (raw_write d b src)) c = block_at d c"
  using block_sectors_disjoint [of c b] by (intro block_at_cong frame) auto

lemma write_sectors_result: "snd (write_sectors d lba src n) = 0 \<or> snd (write_sectors d lba src n) = -1"
  by (induction n arbitrary: d lba src) (auto simp: case_prod_beta Let_def)

lemma raw_write_result: "snd (raw_write d b src) = 0 \<or> snd (raw_write d b src) = -1"
  unfolding raw_write_def by (rule write_sectors_result)

lemma write_sectors_no_fault:
  "(\<forall>i. \<not> fate d i) \<Longrightarrow> snd (write_sectors d lba src n) = 0"
  by (induction n arbitrary: d lba src) (auto simp: case_prod_beta Let_def dev_write_def)

lemma raw_write_no_fault: "(\<forall>i. \<not> fate d i) \<Longrightarrow> snd (raw_write d b src) = 0"
  unfolding raw_write_def by (rule write_sectors_no_fault)

text \<open>The first sector of a block is written first, as a whole or not at all.\<close>

lemma write_sectors_first:
  "sectors (fst (write_sectors d lba src (Suc n))) lba =
    (if fate d (nwrites d) then sectors d lba else take 512 src)"
  by (simp add: case_prod_beta Let_def write_sectors_outside) (simp add: dev_write_def Let_def)

lemma raw_write_first_sector:
  "sectors (fst (raw_write d b src)) (unat b * 8) =
    (if fate d (nwrites d) then sectors d (unat b * 8) else take 512 src)"
  using write_sectors_first [of d "unat b * 8" src 7] unfolding raw_write_def by simp

lemma raw_write_fails: "fate d (nwrites d) \<Longrightarrow> snd (raw_write d b src) = -1"
  unfolding raw_write_def by (simp add: numeral_eq_Suc dev_write_def Let_def)

end
