(* ===== verification/Journal.thy ===== *)
theory Journal
  imports Disk
begin

unbundle bit_operations_syntax

text \<open>
  The write-ahead journal of OSFS-2, \<open>kernel/core/osfs2_journal.c\<close>.

  A batch is the list of (destination block, payload) pairs the cache hands over.  The state
  record holds the module's counters; the header block is the byte layout of
  \<open>struct osfs2_journal_header\<close>.  The lemmas follow one disk through a commit and any number of
  recoveries: it is always \<open>settled\<close> (no committed header, the destinations all old or all new)
  or \<open>pending\<close> (a committed header whose payload is intact).
\<close>

section \<open>State\<close>

record journal =
  header_block :: u32
  data_block0 :: u32
  max_blocks :: nat
  next_txn_id :: u32
  commit_count :: nat
  replay_count :: nat
  journalled_blocks :: nat

record jheader =
  h_magic :: "byte list"
  h_txn_id :: u32
  h_block_count :: u32
  h_crc32 :: u32
  h_reserved :: u32
  h_dest :: "u32 list"

abbreviation (input) DATA_BLOCKS :: nat where "DATA_BLOCKS \<equiv> 32"

type_synonym batch = "(u32 \<times> byte list) list"

text \<open>The packed little-endian layout of the header in its 4096-byte block.\<close>

definition header_bytes :: "jheader \<Rightarrow> byte list" where
  "header_bytes h = h_magic h @ le32_bytes (h_txn_id h) @ le32_bytes (h_block_count h) @
     le32_bytes (h_crc32 h) @ le32_bytes (h_reserved h) @ concat (map le32_bytes (h_dest h)) @
     replicate (BLOCK_SIZE - 24 - DATA_BLOCKS * 4) 0"

definition header_of_bytes :: "byte list \<Rightarrow> jheader" where
  "header_of_bytes bs = \<lparr>h_magic = take 8 bs, h_txn_id = le32_at bs 8, h_block_count = le32_at bs 12,
     h_crc32 = le32_at bs 16, h_reserved = le32_at bs 20,
     h_dest = map (\<lambda>i. le32_at bs (24 + 4 * i)) [0..<DATA_BLOCKS]\<rparr>"

definition JMAGIC :: "byte list" where
  "JMAGIC = map (of_nat \<circ> of_char) ''OSFSJRNL''"

section \<open>CRC-32\<close>

definition crc32_step :: "u32 \<Rightarrow> byte \<Rightarrow> u32" where
  "crc32_step crc b =
     ((\<lambda>c. let mask = - (c AND 1) in drop_bit 1 c XOR (0xEDB88320 AND mask)) ^^ 8) (crc XOR ucast b)"

definition crc32_buf :: "u32 \<Rightarrow> byte list \<Rightarrow> u32" where
  "crc32_buf crc bs = foldl crc32_step crc bs"

definition compute_commit_crc :: "batch \<Rightarrow> u32" where
  "compute_commit_crc batch =
     (let crc = foldl (\<lambda>c (d, _). crc32_buf c (le32_bytes d)) 0xFFFFFFFF batch;
          crc = foldl (\<lambda>c (_, bs). crc32_buf c bs) crc batch
      in crc XOR 0xFFFFFFFF)"

definition compute_replay_crc :: "u32 list \<Rightarrow> byte list list \<Rightarrow> u32" where
  "compute_replay_crc dest payload =
     (let crc = foldl (\<lambda>c d. crc32_buf c (le32_bytes d)) 0xFFFFFFFF dest;
          crc = foldl crc32_buf crc payload
      in crc XOR 0xFFFFFFFF)"

section \<open>The header\<close>

definition zero_header :: jheader where
  "zero_header = \<lparr>h_magic = replicate 8 0, h_txn_id = 0, h_block_count = 0, h_crc32 = 0,
     h_reserved = 0, h_dest = replicate DATA_BLOCKS 0\<rparr>"

definition header_is_committed :: "journal \<Rightarrow> jheader \<Rightarrow> bool" where
  "header_is_committed j h =
     (if h_magic h \<noteq> JMAGIC then False
      else if h_block_count h = 0 then False
      else if unat (h_block_count h) > max_blocks j then False
      else True)"

definition committed_header :: "u32 \<Rightarrow> u32 list \<Rightarrow> u32 \<Rightarrow> jheader" where
  "committed_header txn_id dest crc =
     zero_header\<lparr>h_magic := JMAGIC, h_txn_id := txn_id, h_block_count := of_nat (length dest),
       h_crc32 := crc, h_reserved := 0,
       h_dest := splice (h_dest zero_header) 0 dest\<rparr>"

definition write_committed_header ::
    "journal \<Rightarrow> disk \<Rightarrow> u32 \<Rightarrow> u32 list \<Rightarrow> u32 \<Rightarrow> disk \<times> int" where
  "write_committed_header j d txn_id dest crc =
     raw_write d (header_block j) (header_bytes (committed_header txn_id dest crc))"

definition write_zero_header :: "journal \<Rightarrow> disk \<Rightarrow> disk \<times> int" where
  "write_zero_header j d = raw_write d (header_block j) (header_bytes zero_header)"

section \<open>Operations\<close>

definition osfs2_journal_init :: "u32 \<Rightarrow> nat \<Rightarrow> journal" where
  "osfs2_journal_init hdr_block data_blocks =
     \<lparr>header_block = hdr_block, data_block0 = hdr_block + 1,
      max_blocks = (if data_blocks > DATA_BLOCKS then DATA_BLOCKS else data_blocks),
      next_txn_id = 1, commit_count = 0, replay_count = 0, journalled_blocks = 0\<rparr>"

text \<open>The three write loops and the read loop, each stopping at the first failure.\<close>

fun write_blocks :: "disk \<Rightarrow> batch \<Rightarrow> disk \<times> int" where
  "write_blocks d [] = (d, 0)"
| "write_blocks d ((b, bs) # rest) =
     (let (d1, r) = raw_write d b bs in if r \<noteq> 0 then (d1, -1) else write_blocks d1 rest)"

fun write_slots :: "disk \<Rightarrow> u32 \<Rightarrow> byte list list \<Rightarrow> disk \<times> int" where
  "write_slots d slot [] = (d, 0)"
| "write_slots d slot (bs # rest) =
     (let (d1, r) = raw_write d slot bs in if r \<noteq> 0 then (d1, -1) else write_slots d1 (slot + 1) rest)"

fun read_slots :: "disk \<Rightarrow> u32 \<Rightarrow> nat \<Rightarrow> byte list list option" where
  "read_slots d slot 0 = Some []"
| "read_slots d slot (Suc n) =
     (case raw_read d slot of
        None \<Rightarrow> None
      | Some bs \<Rightarrow> (case read_slots d (slot + 1) n of None \<Rightarrow> None | Some rest \<Rightarrow> Some (bs # rest)))"

definition osfs2_journal_replay :: "journal \<Rightarrow> disk \<Rightarrow> journal \<times> disk \<times> int" where
  "osfs2_journal_replay j d =
     (if max_blocks j = 0 then (j, d, 0)
      else case raw_read d (header_block j) of
        None \<Rightarrow> (j, d, -1)
      | Some bs \<Rightarrow>
          let h = header_of_bytes bs in
          if \<not> header_is_committed j h then (j, d, 0)
          else
            let n = unat (h_block_count h); saved_dest = take n (h_dest h) in
            case read_slots d (data_block0 j) n of
              None \<Rightarrow> (j, d, -1)
            | Some payload \<Rightarrow>
                if compute_replay_crc saved_dest payload \<noteq> h_crc32 h then
                  (let (d1, r) = write_zero_header j d in if r \<noteq> 0 then (j, d1, -1) else (j, d1, 0))
                else
                  (let (d1, r) = write_blocks d (zip saved_dest payload) in
                   if r \<noteq> 0 then (j, d1, -1)
                   else
                     let (d2, r2) = write_zero_header j d1 in
                     if r2 \<noteq> 0 then (j, d2, -1)
                     else
                       let j1 = j\<lparr>replay_count := replay_count j + 1\<rparr>;
                           j2 = (if h_txn_id h \<ge> next_txn_id j then j1\<lparr>next_txn_id := h_txn_id h + 1\<rparr> else j1)
                       in (j2, d2, 0)))"

definition osfs2_journal_commit :: "journal \<Rightarrow> disk \<Rightarrow> batch \<Rightarrow> journal \<times> disk \<times> int" where
  "osfs2_journal_commit j d batch =
     (if length batch = 0 then (j, d, 0)
      else if length batch > max_blocks j then (j, d, -1)
      else
        let (d1, r1) = write_slots d (data_block0 j) (map snd batch) in
        if r1 \<noteq> 0 then (j, d1, -1)
        else
          let crc = compute_commit_crc batch;
              txn = next_txn_id j;
              j1 = j\<lparr>next_txn_id := txn + 1\<rparr>;
              (d2, r2) = write_committed_header j1 d1 txn (map fst batch) crc in
          if r2 \<noteq> 0 then (j1, d2, -1)
          else
            let (d3, r3) = write_blocks d2 batch in
            if r3 \<noteq> 0 then (j1, d3, -1)
            else
              let (d4, r4) = write_zero_header j1 d3
              in (j1\<lparr>commit_count := commit_count j1 + 1,
                     journalled_blocks := journalled_blocks j1 + length batch\<rparr>, d4, 0))"

definition osfs2_journal_commits :: "journal \<Rightarrow> nat" where
  "osfs2_journal_commits j = commit_count j"

definition osfs2_journal_replays :: "journal \<Rightarrow> nat" where
  "osfs2_journal_replays j = replay_count j"

definition osfs2_journal_blocks_journalled :: "journal \<Rightarrow> nat" where
  "osfs2_journal_blocks_journalled j = journalled_blocks j"

section \<open>Layout\<close>

lemma length_JMAGIC [simp]: "length JMAGIC = 8"
  by (simp add: JMAGIC_def)

lemma JMAGIC_not_zero: "JMAGIC \<noteq> replicate 8 0"
proof
  assume "JMAGIC = replicate 8 0"
  then have "hd JMAGIC = hd (replicate 8 0)" by (rule arg_cong)
  then show False by (simp add: JMAGIC_def hd_replicate)
qed

lemma le32_at_append: "i + 4 \<le> length xs \<Longrightarrow> le32_at (xs @ ys) i = le32_at xs i"
  by (simp add: le32_at_def nth_append)

lemma length_concat_le32 [simp]: "length (concat (map le32_bytes ws)) = 4 * length ws"
  by (induction ws) auto

lemma le32_at_concat: "i < length ws \<Longrightarrow> le32_at (xs @ concat (map le32_bytes ws) @ ys) (length xs + 4 * i) = ws ! i"
proof (induction ws arbitrary: xs i)
  case Nil
  then show ?case by simp
next
  case (Cons w ws)
  show ?case
  proof (cases i)
    case 0
    then show ?thesis using le32_at_bytes [of "length xs" xs w "concat (map le32_bytes ws) @ ys"] by simp
  next
    case (Suc k)
    then show ?thesis using Cons.IH [of k "xs @ le32_bytes w"] Cons.prems by (simp add: add.assoc)
  qed
qed

definition header_ok :: "jheader \<Rightarrow> bool" where
  "header_ok h \<longleftrightarrow> length (h_magic h) = 8 \<and> length (h_dest h) = 32"

lemma length_header_bytes: "header_ok h \<Longrightarrow> length (header_bytes h) = 4096"
  by (simp add: header_bytes_def header_ok_def)

lemma header_roundtrip: "header_ok h \<Longrightarrow> header_of_bytes (header_bytes h) = h"
proof -
  assume h: "header_ok h"
  let ?tail = "replicate (4096 - 24 - 32 * 4) 0"
  let ?d = "concat (map le32_bytes (h_dest h))"
  have "le32_at (header_bytes h) (24 + 4 * i) = h_dest h ! i" if "i < 32" for i
    using le32_at_concat [of i "h_dest h" "h_magic h @ le32_bytes (h_txn_id h) @ le32_bytes (h_block_count h) @
     le32_bytes (h_crc32 h) @ le32_bytes (h_reserved h)" ?tail] h that
    by (simp add: header_ok_def header_bytes_def)
  then have "map (\<lambda>i. le32_at (header_bytes h) (24 + 4 * i)) [0..<32] = h_dest h"
    using h by (intro nth_equalityI) (auto simp: header_ok_def)
  moreover have "le32_at (header_bytes h) 8 = h_txn_id h"
    using le32_at_bytes [of 8 "h_magic h" "h_txn_id h"] h by (simp add: header_bytes_def header_ok_def)
  moreover have "le32_at (header_bytes h) 12 = h_block_count h"
    using le32_at_bytes [of 12 "h_magic h @ le32_bytes (h_txn_id h)" "h_block_count h"] h
    by (simp add: header_bytes_def header_ok_def)
  moreover have "le32_at (header_bytes h) 16 = h_crc32 h"
    using le32_at_bytes [of 16 "h_magic h @ le32_bytes (h_txn_id h) @ le32_bytes (h_block_count h)" "h_crc32 h"] h
    by (simp add: header_bytes_def header_ok_def)
  moreover have "le32_at (header_bytes h) 20 = h_reserved h"
    using le32_at_bytes [of 20 "h_magic h @ le32_bytes (h_txn_id h) @ le32_bytes (h_block_count h) @
      le32_bytes (h_crc32 h)" "h_reserved h"] h
    by (simp add: header_bytes_def header_ok_def)
  moreover have "take 8 (header_bytes h) = h_magic h" using h by (simp add: header_bytes_def header_ok_def)
  ultimately show ?thesis by (simp add: header_of_bytes_def)
qed

text \<open>All fields lie in the first sector of the block.\<close>

lemma header_prefix: "length xs = 512 \<Longrightarrow> header_of_bytes (xs @ ys) = header_of_bytes xs"
  by (auto simp: header_of_bytes_def le32_at_append intro!: map_cong)


lemma zero_header_ok [simp]: "header_ok zero_header"
  by (simp add: header_ok_def zero_header_def)

lemma committed_header_ok [simp]: "length dest \<le> 32 \<Longrightarrow> header_ok (committed_header txn dest crc)"
  by (simp add: header_ok_def committed_header_def zero_header_def)

lemma committed_header_fields [simp]:
  "h_magic (committed_header txn dest crc) = JMAGIC" "h_txn_id (committed_header txn dest crc) = txn"
  "h_block_count (committed_header txn dest crc) = of_nat (length dest)"
  "h_crc32 (committed_header txn dest crc) = crc"
  "length dest \<le> 32 \<Longrightarrow> take (length dest) (h_dest (committed_header txn dest crc)) = dest"
  using splice_same [of 0 dest "replicate 32 0"]
  by (simp_all add: committed_header_def zero_header_def)

lemma zero_header_not_committed [simp]: "\<not> header_is_committed j zero_header"
  using JMAGIC_not_zero by (simp add: header_is_committed_def zero_header_def)

lemma committed_header_committed:
  "0 < length dest \<Longrightarrow> length dest \<le> max_blocks j \<Longrightarrow> max_blocks j \<le> 32 \<Longrightarrow>
   header_is_committed j (committed_header txn dest crc)"
proof -
  assume a: "0 < length dest" "length dest \<le> max_blocks j" "max_blocks j \<le> 32"
  have u: "unat (of_nat (length dest) :: u32) = length dest"
    using a by (simp add: unat_of_nat)
  then have "of_nat (length dest) \<noteq> (0 :: u32)" using a(1) by (metis unat_eq_0 not_less_zero)
  then show ?thesis using a u by (simp add: header_is_committed_def)
qed

section \<open>The journal on disk\<close>

text \<open>The geometry fixed by the superblock: the header block and, right behind it, the payload
  slots, all within 32-bit block numbers.\<close>

definition geometry_ok :: "journal \<Rightarrow> bool" where
  "geometry_ok j \<longleftrightarrow> 0 < max_blocks j \<and> max_blocks j \<le> 32 \<and> data_block0 j = header_block j + 1 \<and>
     unat (header_block j) + 33 \<le> 2 ^ 32"

definition slot_block :: "journal \<Rightarrow> nat \<Rightarrow> u32" where
  "slot_block j i = data_block0 j + of_nat i"

definition journal_blocks :: "journal \<Rightarrow> u32 set" where
  "journal_blocks j = insert (header_block j) (slot_block j ` {..<max_blocks j})"

definition header_at :: "journal \<Rightarrow> disk \<Rightarrow> jheader" where
  "header_at j d = header_of_bytes (block_at d (header_block j))"

lemma header_at_first_sector:
  assumes "disk_ok d"
  shows "header_at j d = header_of_bytes (sectors d (unat (header_block j) * 8))"
proof -
  have "block_at d (header_block j) = sectors d (unat (header_block j) * 8) @
      concat (map (\<lambda>i. sectors d (unat (header_block j) * 8 + i)) [1..<8])"
    by (simp add: block_at_def upt_conv_Cons)
  then show ?thesis using assms by (simp add: header_at_def header_prefix disk_ok_def)
qed

lemma slot_block_unat:
  assumes "geometry_ok j" "i < max_blocks j"
  shows "unat (slot_block j i) = unat (header_block j) + 1 + i"
proof -
  have "i < 2 ^ 32" "unat (header_block j) + 1 + i < 2 ^ 32" using assms by (auto simp: geometry_ok_def)
  then show ?thesis
    using assms(1) by (simp add: slot_block_def geometry_ok_def unat_word_ariths unat_of_nat)
qed

lemma slot_block_inj: "geometry_ok j \<Longrightarrow> inj_on (slot_block j) {..<max_blocks j}"
  by (rule inj_onI) (metis slot_block_unat lessThan_iff add_left_cancel)

lemma slot_not_header: "geometry_ok j \<Longrightarrow> i < max_blocks j \<Longrightarrow> slot_block j i \<noteq> header_block j"
  using slot_block_unat [of j i] by auto

text \<open>The effect of a batch on the contents of the blocks.\<close>

definition apply_batch :: "batch \<Rightarrow> (u32 \<Rightarrow> byte list) \<Rightarrow> (u32 \<Rightarrow> byte list)" where
  "apply_batch batch f = fold (\<lambda>(b, bs) f. f(b := bs)) batch f"

lemma apply_batch_simps [simp]:
  "apply_batch [] f = f" "apply_batch ((b, bs) # rest) f = apply_batch rest (f(b := bs))"
  by (simp_all add: apply_batch_def)

lemma apply_batch_other: "c \<notin> fst ` set batch \<Longrightarrow> apply_batch batch f c = f c"
  by (induction batch arbitrary: f) auto

lemma apply_batch_cong:
  "f c = g c \<or> c \<in> fst ` set batch \<Longrightarrow> apply_batch batch f c = apply_batch batch g c"
proof (induction batch arbitrary: f g)
  case Nil
  then show ?case by simp
next
  case (Cons x xs)
  then show ?case
    using Cons.IH [of "f(fst x := snd x)" "g(fst x := snd x)"] by (cases x) auto
qed

lemma write_blocks_Cons:
  "write_blocks d (x # rest) =
    (if snd (raw_write d (fst x) (snd x)) \<noteq> 0 then (fst (raw_write d (fst x) (snd x)), -1)
     else write_blocks (fst (raw_write d (fst x) (snd x))) rest)"
  by (cases x) (simp add: case_prod_beta Let_def)

lemma write_blocks_frame [frame]:
  "fate (fst (write_blocks d batch)) = fate d" "unreadable (fst (write_blocks d batch)) = unreadable d"
  by (induction batch arbitrary: d) (simp_all add: write_blocks_Cons frame)

lemma write_blocks_ok:
  "disk_ok d \<Longrightarrow> \<forall>bs\<in>snd ` set batch. length bs = 4096 \<Longrightarrow> disk_ok (fst (write_blocks d batch))"
  by (induction batch arbitrary: d) (auto simp: case_prod_beta Let_def frame)

lemma write_blocks_other:
  "c \<notin> fst ` set batch \<Longrightarrow> block_at (fst (write_blocks d batch)) c = block_at d c"
  by (induction batch arbitrary: d) (auto simp: case_prod_beta Let_def frame)

lemma write_blocks_sector_other:
  "(\<forall>b\<in>fst ` set batch. s \<notin> block_sectors b) \<Longrightarrow> sectors (fst (write_blocks d batch)) s = sectors d s"
  by (induction batch arbitrary: d) (auto simp: case_prod_beta Let_def frame)

lemma write_blocks_done:
  "snd (write_blocks d batch) = 0 \<Longrightarrow> \<forall>bs\<in>snd ` set batch. length bs = 4096 \<Longrightarrow>
   block_at (fst (write_blocks d batch)) = apply_batch batch (block_at d)"
proof (induction batch arbitrary: d)
  case Nil
  then show ?case by simp
next
  case (Cons x rest)
  obtain b bs where x: "x = (b, bs)" by (cases x)
  let ?d = "fst (raw_write d b bs)"
  have r: "snd (raw_write d b bs) = 0" "snd (write_blocks ?d rest) = 0"
    using Cons.prems(1) by (auto simp: x case_prod_beta Let_def split: if_splits)
  have "block_at ?d = (block_at d)(b := bs)"
    using raw_write_done [OF r(1)] Cons.prems(2) by (auto simp: frame x)
  moreover have "block_at (fst (write_blocks ?d rest)) = apply_batch rest (block_at ?d)"
    using Cons.IH [OF r(2)] Cons.prems(2) by simp
  ultimately show ?case using r by (simp add: x case_prod_beta Let_def)
qed

lemma write_blocks_no_fault: "(\<forall>i. \<not> fate d i) \<Longrightarrow> snd (write_blocks d batch) = 0"
  by (induction batch arbitrary: d) (auto simp: case_prod_beta Let_def frame raw_write_no_fault)

text \<open>Writing the slots is a batch write to consecutive blocks.\<close>

lemma write_slots_batch:
  "write_slots d s bss = write_blocks d (zip (map (\<lambda>i. s + of_nat i) [0..<length bss]) bss)"
proof (induction bss arbitrary: d s)
  case Nil
  then show ?case by simp
next
  case (Cons bs rest)
  have "map (\<lambda>i. s + of_nat i) [0..<length (bs # rest)] = s # map (\<lambda>i. s + 1 + of_nat i) [0..<length rest]"
    by (simp add: upt_conv_Cons map_Suc_upt [symmetric] add.assoc del: upt_Suc)
  then show ?case using Cons by (simp add: case_prod_beta Let_def del: upt_Suc)
qed

lemma read_slots_eq:
  "(\<forall>i<n. block_sectors (s + of_nat i) \<inter> unreadable d = {}) \<Longrightarrow>
   read_slots d s n = Some (map (\<lambda>i. block_at d (s + of_nat i)) [0..<n])"
proof (induction n arbitrary: s)
  case 0
  then show ?case by simp
next
  case (Suc n)
  have e: "map (\<lambda>i. block_at d (s + of_nat i)) [0..<Suc n] = block_at d s # map (\<lambda>i. block_at d (s + 1 + of_nat i)) [0..<n]"
    by (simp add: upt_conv_Cons map_Suc_upt [symmetric] add.assoc del: upt_Suc)
  have "raw_read d s = Some (block_at d s)"
    using Suc.prems [rule_format, of 0] by (simp add: raw_read_eq)
  moreover have "block_sectors (s + 1 + of_nat i) \<inter> unreadable d = {}" if "i < n" for i
    using Suc.prems [rule_format, of "Suc i"] that by (simp add: add.assoc)
  then have "read_slots d (s + 1) n = Some (map (\<lambda>i. block_at d (s + 1 + of_nat i)) [0..<n])"
    by (intro Suc.IH) blast
  ultimately show ?case unfolding e by simp
qed


section \<open>Recoverable states\<close>

text \<open>
  \<open>base\<close> stands for the contents of the blocks outside the journal.  \<open>settled\<close>: no committed
  header, and the disk holds \<open>base\<close>.  \<open>pending\<close>: a committed header for \<open>batch\<close> whose
  payload is in the slots; blocks that are not destinations hold \<open>base\<close>, the destinations may be
  in any state, torn included.
\<close>

definition settled :: "journal \<Rightarrow> disk \<Rightarrow> (u32 \<Rightarrow> byte list) \<Rightarrow> bool" where
  "settled j d base \<longleftrightarrow> disk_ok d \<and> \<not> header_is_committed j (header_at j d) \<and>
     (\<forall>b. b \<notin> journal_blocks j \<longrightarrow> block_at d b = base b)"

definition batch_ok :: "journal \<Rightarrow> batch \<Rightarrow> bool" where
  "batch_ok j batch \<longleftrightarrow> 0 < length batch \<and> length batch \<le> max_blocks j \<and>
     (\<forall>bs\<in>snd ` set batch. length bs = 4096) \<and> fst ` set batch \<inter> journal_blocks j = {}"

definition pending :: "journal \<Rightarrow> disk \<Rightarrow> (u32 \<Rightarrow> byte list) \<Rightarrow> batch \<Rightarrow> bool" where
  "pending j d base batch \<longleftrightarrow> disk_ok d \<and> batch_ok j batch \<and>
     (\<exists>txn. header_at j d = committed_header txn (map fst batch) (compute_commit_crc batch)) \<and>
     (\<forall>i<length batch. block_at d (slot_block j i) = snd (batch ! i)) \<and>
     (\<forall>b. b \<notin> journal_blocks j \<and> b \<notin> fst ` set batch \<longrightarrow> block_at d b = base b)"

definition readable :: "journal \<Rightarrow> disk \<Rightarrow> bool" where
  "readable j d \<longleftrightarrow> (\<forall>b\<in>journal_blocks j. block_sectors b \<inter> unreadable d = {})"

lemma crc_agree: "compute_replay_crc (map fst batch) (map snd batch) = compute_commit_crc batch"
  by (simp add: compute_replay_crc_def compute_commit_crc_def foldl_map case_prod_unfold)

lemma header_write_cases:
  fixes j :: journal
  assumes "disk_ok d" "header_ok h"
  defines "d' \<equiv> fst (raw_write d (header_block j) (header_bytes h))"
  shows "disk_ok d' \<and> (\<forall>b. b \<noteq> header_block j \<longrightarrow> block_at d' b = block_at d b) \<and>
    (if fate d (nwrites d) then header_at j d' = header_at j d \<and>
       snd (raw_write d (header_block j) (header_bytes h)) = -1
     else header_at j d' = h)"
proof -
  have l: "length (header_bytes h) = 4096" using assms(2) by (rule length_header_bytes)
  have ok: "disk_ok d'" unfolding d'_def using assms(1) l by (simp add: frame)
  have "header_of_bytes (take 512 (header_bytes h)) = header_of_bytes (header_bytes h)"
    using header_prefix [of "take 512 (header_bytes h)" "drop 512 (header_bytes h)"] l by simp
  then have "header_at j d' = (if fate d (nwrites d) then header_at j d else h)"
    using raw_write_first_sector [of d "header_block j" "header_bytes h"] assms(1,2)
    by (simp add: header_at_first_sector [OF ok] header_at_first_sector d'_def [symmetric] header_roundtrip)
  then show ?thesis using ok raw_write_fails by (auto simp: d'_def frame)
qed

text \<open>Recovery.\<close>

lemma replay_settled:
  assumes "settled j d base" "readable j d"
  shows "osfs2_journal_replay j d = (j, d, 0)"
proof -
  have "raw_read d (header_block j) = Some (block_at d (header_block j))"
    using assms(2) by (intro raw_read_eq) (simp add: readable_def journal_blocks_def)
  then show ?thesis
    using assms(1) by (simp add: osfs2_journal_replay_def settled_def header_at_def)
qed

lemma replay_pending_eq:
  assumes p: "pending j d base batch" and r: "readable j d" and g: "geometry_ok j"
  shows "\<exists>txn. osfs2_journal_replay j d =
    (let (d1, r) = write_blocks d batch in
     if r \<noteq> 0 then (j, d1, -1)
     else let (d2, r2) = write_zero_header j d1 in
       if r2 \<noteq> 0 then (j, d2, -1)
       else let j1 = j\<lparr>replay_count := replay_count j + 1\<rparr>;
                j2 = (if txn \<ge> next_txn_id j then j1\<lparr>next_txn_id := txn + 1\<rparr> else j1)
            in (j2, d2, 0))"
proof -
  obtain txn where h: "header_at j d = committed_header txn (map fst batch) (compute_commit_crc batch)"
    using p by (auto simp: pending_def)
  have b: "0 < length batch" "length batch \<le> max_blocks j" "max_blocks j \<le> 32" "0 < max_blocks j"
    using p g by (auto simp: pending_def batch_ok_def geometry_ok_def)
  have hr: "raw_read d (header_block j) = Some (block_at d (header_block j))"
    using r by (intro raw_read_eq) (simp add: readable_def journal_blocks_def)
  have c: "header_is_committed j (header_at j d)"
    unfolding h using b by (intro committed_header_committed) simp_all
  have n: "unat (h_block_count (header_at j d)) = length batch"
    unfolding h using b by (simp add: unat_of_nat)
  have slots: "\<forall>i<length batch. block_sectors (data_block0 j + of_nat i) \<inter> unreadable d = {}"
    using r b(2) by (auto simp: readable_def journal_blocks_def slot_block_def)
  have pay: "read_slots d (data_block0 j) (length batch) = Some (map snd batch)"
    unfolding read_slots_eq [OF slots]
    using p by (auto simp: pending_def slot_block_def intro!: nth_equalityI)
  have dest: "take (length batch) (h_dest (header_at j d)) = map fst batch"
    using committed_header_fields(5) [of "map fst batch"] b unfolding h by simp
  show ?thesis
    using b(4) c n pay dest crc_agree [of batch] h
    by (intro exI [of _ txn]) (simp add: osfs2_journal_replay_def hr zip_map_fst_snd Let_def case_prod_unfold flip: header_at_def)
qed

lemma apply_batch_base:
  "c \<notin> journal_blocks j \<Longrightarrow> \<forall>b. b \<notin> journal_blocks j \<and> b \<notin> fst ` set batch \<longrightarrow> f b = base b \<Longrightarrow>
   apply_batch batch f c = apply_batch batch base c"
  by (rule apply_batch_cong) blast

text \<open>Writing the destinations and zeroing the header, from a pending state, under any faults.\<close>

lemma pending_blocks:
  assumes p: "pending j d base batch"
  shows "pending j (fst (write_blocks d batch)) base batch"
proof -
  let ?d1 = "fst (write_blocks d batch)"
  have bt: "batch_ok j batch" and ok: "disk_ok d" using p by (simp_all add: pending_def)
  then have ok1: "disk_ok ?d1" by (intro write_blocks_ok) (simp_all add: batch_ok_def)
  have same: "block_at ?d1 c = block_at d c" if "c \<in> journal_blocks j" for c
    using that bt by (intro write_blocks_other) (auto simp: batch_ok_def)
  have "header_at j ?d1 = header_at j d"
    using same [of "header_block j"] by (simp add: header_at_def journal_blocks_def)
  moreover have "block_at ?d1 (slot_block j i) = block_at d (slot_block j i)" if "i < length batch" for i
    using that bt by (intro same) (auto simp: batch_ok_def journal_blocks_def)
  moreover have "block_at ?d1 b = block_at d b" if "b \<notin> fst ` set batch" for b
    using that by (rule write_blocks_other)
  ultimately show ?thesis using p ok1 by (simp add: pending_def)
qed

lemma pending_checkpoint:
  assumes p: "pending j d base batch" and g: "geometry_ok j"
    and applied: "\<forall>b. b \<notin> journal_blocks j \<longrightarrow> block_at d b = apply_batch batch base b"
  defines "d' \<equiv> fst (write_zero_header j d)"
  shows "settled j d' (apply_batch batch base) \<or>
    pending j d' base batch \<and> snd (write_zero_header j d) \<noteq> 0"
proof -
  have ok: "disk_ok d" and bt: "batch_ok j batch" using p by (simp_all add: pending_def)
  have hw: "disk_ok d'" "\<And>b. b \<noteq> header_block j \<Longrightarrow> block_at d' b = block_at d b"
    "if fate d (nwrites d) then header_at j d' = header_at j d \<and> snd (write_zero_header j d) = -1
     else header_at j d' = zero_header"
    using header_write_cases [OF ok zero_header_ok, of j] by (simp_all add: write_zero_header_def d'_def)
  show ?thesis
  proof (cases "fate d (nwrites d)")
    case True
    then have "header_at j d' = header_at j d" using hw(3) by simp
    moreover have "block_at d' (slot_block j i) = block_at d (slot_block j i)" if "i < length batch" for i
      using that bt slot_not_header [OF g, of i] by (intro hw) (auto simp: batch_ok_def)
    moreover have "block_at d' b = block_at d b" if "b \<notin> journal_blocks j" for b
      using that by (intro hw) (auto simp: journal_blocks_def)
    ultimately have "pending j d' base batch" using p hw(1) by (simp add: pending_def)
    then show ?thesis using True hw(3) by simp
  next
    case False
    have "block_at d' b = apply_batch batch base b" if "b \<notin> journal_blocks j" for b
      using that hw(2) [of b] applied by (auto simp: journal_blocks_def)
    then show ?thesis using hw False by (simp add: settled_def)
  qed
qed

lemma pending_applied:
  assumes p: "pending j d base batch" and "snd (write_blocks d batch) = 0" and b: "b \<notin> journal_blocks j"
  shows "block_at (fst (write_blocks d batch)) b = apply_batch batch base b"
proof -
  have "block_at (fst (write_blocks d batch)) b = apply_batch batch (block_at d) b"
    using write_blocks_done [OF assms(2)] p by (simp add: pending_def batch_ok_def)
  also have "\<dots> = apply_batch batch base b"
    using p by (intro apply_batch_base [OF b]) (simp add: pending_def)
  finally show ?thesis .
qed

text \<open>The parts of a result the operations never change.\<close>

definition same_device :: "journal \<Rightarrow> disk \<Rightarrow> journal \<Rightarrow> disk \<Rightarrow> bool" where
  "same_device j d j' d' \<longleftrightarrow> header_block j' = header_block j \<and> data_block0 j' = data_block0 j \<and>
     max_blocks j' = max_blocks j \<and> fate d' = fate d \<and> unreadable d' = unreadable d"

lemma replay_pending:
  assumes p: "pending j d base batch" and r: "readable j d" and g: "geometry_ok j"
  shows "case osfs2_journal_replay j d of (j', d', res) \<Rightarrow>
    (settled j d' (apply_batch batch base) \<or> pending j d' base batch \<and> res \<noteq> 0) \<and>
    same_device j d j' d' \<and> ((\<forall>i. \<not> fate d i) \<longrightarrow> res = 0)"
proof -
  let ?d1 = "fst (write_blocks d batch)" and ?d2 = "fst (write_zero_header j (fst (write_blocks d batch)))"
  note p1 = pending_blocks [OF p]
  have p2: "settled j ?d2 (apply_batch batch base) \<or>
      pending j ?d2 base batch \<and> snd (write_zero_header j ?d1) \<noteq> 0"
    if "snd (write_blocks d batch) = 0"
    using pending_checkpoint [OF p1 g] pending_applied [OF p that] by blast
  have f: "fate ?d1 = fate d" "fate ?d2 = fate d" "unreadable ?d1 = unreadable d" "unreadable ?d2 = unreadable d"
    by (simp_all add: frame write_zero_header_def)
  have nf: "snd (write_blocks d batch) = 0 \<and> snd (write_zero_header j ?d1) = 0" if "\<forall>i. \<not> fate d i"
    using that write_blocks_no_fault [OF that, of batch] f
    by (simp add: write_zero_header_def raw_write_no_fault)
  obtain txn where "osfs2_journal_replay j d =
    (let (d1, r) = write_blocks d batch in
     if r \<noteq> 0 then (j, d1, -1)
     else let (d2, r2) = write_zero_header j d1 in
       if r2 \<noteq> 0 then (j, d2, -1)
       else let j1 = j\<lparr>replay_count := replay_count j + 1\<rparr>;
                j2 = (if txn \<ge> next_txn_id j then j1\<lparr>next_txn_id := txn + 1\<rparr> else j1)
            in (j2, d2, 0))" using replay_pending_eq [OF p r g] by blast
  then show ?thesis
    using p1 p2 f nf by (auto simp: case_prod_beta Let_def same_device_def)
qed

lemma apply_batch_distinct:
  "distinct (map fst batch) \<Longrightarrow> i < length batch \<Longrightarrow> apply_batch batch f (fst (batch ! i)) = snd (batch ! i)"
proof (induction batch arbitrary: f i)
  case Nil
  then show ?case by simp
next
  case (Cons x rest)
  obtain b bs where x: "x = (b, bs)" by (cases x)
  show ?case
  proof (cases i)
    case 0
    then show ?thesis using Cons.prems by (simp add: x apply_batch_other)
  next
    case (Suc k)
    then show ?thesis using Cons by (simp add: x)
  qed
qed

text \<open>Step 1 of a commit.\<close>

lemma write_slots_effect:
  assumes bt: "batch_ok j batch" and g: "geometry_ok j" and ok: "disk_ok d"
  defines "d1 \<equiv> fst (write_slots d (data_block0 j) (map snd batch))"
  shows "disk_ok d1 \<and> header_at j d1 = header_at j d \<and> fate d1 = fate d \<and> unreadable d1 = unreadable d \<and>
    (\<forall>b. b \<notin> journal_blocks j \<longrightarrow> block_at d1 b = block_at d b) \<and>
    (snd (write_slots d (data_block0 j) (map snd batch)) = 0 \<longrightarrow>
       (\<forall>i<length batch. block_at d1 (slot_block j i) = snd (batch ! i)))"
proof -
  let ?z = "zip (map (slot_block j) [0..<length batch]) (map snd batch)"
  have z: "write_slots d (data_block0 j) (map snd batch) = write_blocks d ?z"
    by (simp add: write_slots_batch slot_block_def [abs_def])
  have m: "map fst ?z = map (slot_block j) [0..<length batch]" "map snd ?z = map snd batch" by simp_all
  then have f: "fst ` set ?z = slot_block j ` {0..<length batch}" "snd ` set ?z = snd ` set batch"
    by (metis list.set_map set_upt)+
  have sub: "slot_block j ` {0..<length batch} \<subseteq> journal_blocks j - {header_block j}"
    using bt slot_not_header [OF g] by (auto simp: batch_ok_def journal_blocks_def)
  have len: "\<forall>bs\<in>snd ` set ?z. length bs = 4096" using bt f by (simp add: batch_ok_def)
  have other: "block_at d1 b = block_at d b" if "b \<notin> slot_block j ` {0..<length batch}" for b
    unfolding d1_def z using that f by (intro write_blocks_other) simp
  have "block_at d1 (slot_block j i) = snd (batch ! i)"
    if "snd (write_slots d (data_block0 j) (map snd batch)) = 0" and i: "i < length batch" for i
  proof -
    have "distinct (map fst ?z)"
      unfolding m using inj_on_subset [OF slot_block_inj [OF g], of "{0..<length batch}"] bt
      by (simp add: distinct_map batch_ok_def subset_eq)
    then have "apply_batch ?z (block_at d) (fst (?z ! i)) = snd (?z ! i)"
      using i by (intro apply_batch_distinct) simp_all
    then show ?thesis
      using write_blocks_done [of d ?z] that len unfolding d1_def z by simp
  qed
  moreover have "disk_ok d1" unfolding d1_def z using ok len by (rule write_blocks_ok)
  moreover have "header_at j d1 = header_at j d"
  proof -
    have "header_block j \<notin> slot_block j ` {0..<length batch}" using sub by blast
    then show ?thesis using other by (simp add: header_at_def)
  qed
  ultimately show ?thesis
    using other sub by (auto simp: d1_def z frame)
qed

text \<open>Step 2: the header decides.\<close>

lemma write_header_effect:
  fixes txn :: u32
  assumes s: "settled j d base" and bt: "batch_ok j batch" and g: "geometry_ok j"
    and slots: "\<forall>i<length batch. block_at d (slot_block j i) = snd (batch ! i)"
  defines "w \<equiv> write_committed_header j d txn (map fst batch) (compute_commit_crc batch)"
  shows "settled j (fst w) base \<and> snd w \<noteq> 0 \<or> pending j (fst w) base batch"
proof -
  let ?h = "committed_header txn (map fst batch) (compute_commit_crc batch)"
  have hok: "header_ok ?h" using bt g by (intro committed_header_ok) (auto simp: batch_ok_def geometry_ok_def)
  have ok: "disk_ok d" using s by (simp add: settled_def)
  have hw: "disk_ok (fst w)" "\<And>b. b \<noteq> header_block j \<Longrightarrow> block_at (fst w) b = block_at d b"
    "if fate d (nwrites d) then header_at j (fst w) = header_at j d \<and> snd w = -1 else header_at j (fst w) = ?h"
    using header_write_cases [OF ok hok, of j] by (simp_all add: write_committed_header_def w_def)
  have outside: "block_at (fst w) b = base b" if "b \<notin> journal_blocks j" for b
    using that hw(2) [of b] s by (auto simp: journal_blocks_def settled_def)
  show ?thesis
  proof (cases "fate d (nwrites d)")
    case True
    then show ?thesis using hw outside s by (simp add: settled_def)
  next
    case False
    have "block_at (fst w) (slot_block j i) = snd (batch ! i)" if "i < length batch" for i
      using that slots bt slot_not_header [OF g, of i] hw(2) by (simp add: batch_ok_def)
    then show ?thesis using False hw outside bt by (auto simp: pending_def)
  qed
qed

lemma commit_settled:
  assumes s: "settled j d base" and bt: "batch_ok j batch" and g: "geometry_ok j"
  shows "case osfs2_journal_commit j d batch of (j', d', res) \<Rightarrow>
    (settled j d' base \<and> res \<noteq> 0 \<or> pending j d' base batch \<or> settled j d' (apply_batch batch base)) \<and>
    (res = 0 \<longrightarrow> (\<forall>b. b \<notin> journal_blocks j \<longrightarrow> block_at d' b = apply_batch batch base b)) \<and>
    same_device j d j' d' \<and> ((\<forall>i. \<not> fate d i) \<longrightarrow> res = 0 \<and> settled j d' (apply_batch batch base))"
proof -
  let ?w1 = "write_slots d (data_block0 j) (map snd batch)"
  let ?w2 = "write_committed_header j (fst ?w1) (next_txn_id j) (map fst batch) (compute_commit_crc batch)"
  let ?w3 = "write_blocks (fst ?w2) batch"
  let ?w4 = "write_zero_header j (fst ?w3)"
  have ok: "disk_ok d" using s by (simp add: settled_def)
  note w1 = write_slots_effect [OF bt g ok]
  have s1: "settled j (fst ?w1) base" using w1 s by (simp add: settled_def)
  have w2: "settled j (fst ?w2) base \<and> snd ?w2 \<noteq> 0 \<or> pending j (fst ?w2) base batch" if "snd ?w1 = 0"
    using write_header_effect [OF s1 bt g] w1 that by simp
  have w3: "pending j (fst ?w3) base batch" if "pending j (fst ?w2) base batch"
    using pending_blocks [OF that] .
  have w3a: "\<forall>b. b \<notin> journal_blocks j \<longrightarrow> block_at (fst ?w3) b = apply_batch batch base b"
    if "pending j (fst ?w2) base batch" "snd ?w3 = 0"
    using pending_applied [OF that] by blast
  have w4: "settled j (fst ?w4) (apply_batch batch base) \<or> pending j (fst ?w4) base batch \<and> snd ?w4 \<noteq> 0"
    if "pending j (fst ?w2) base batch" "snd ?w3 = 0"
    using pending_checkpoint [OF w3 [OF that(1)] g w3a [OF that]] .
  have w4a: "block_at (fst ?w4) b = block_at (fst ?w3) b" if "b \<notin> journal_blocks j" for b
    using that by (simp add: write_zero_header_def frame journal_blocks_def)
  have f: "fate (fst ?w1) = fate d" "fate (fst ?w2) = fate d" "fate (fst ?w3) = fate d" "fate (fst ?w4) = fate d"
    "unreadable (fst ?w1) = unreadable d" "unreadable (fst ?w2) = unreadable d"
    "unreadable (fst ?w3) = unreadable d" "unreadable (fst ?w4) = unreadable d"
    using w1 by (simp_all add: write_committed_header_def write_zero_header_def frame)
  have nf: "snd ?w1 = 0" "snd ?w2 = 0" "snd ?w3 = 0" "snd ?w4 = 0" if "\<forall>i. \<not> fate d i"
    using that f by (simp_all add: write_slots_batch write_blocks_no_fault raw_write_no_fault
        write_committed_header_def write_zero_header_def)
  have len: "length batch \<noteq> 0" "\<not> length batch > max_blocks j" using bt by (auto simp: batch_ok_def)
  have wh: "write_committed_header (j\<lparr>next_txn_id := x\<rparr>) = write_committed_header j"
    "write_zero_header (j\<lparr>next_txn_id := x\<rparr>) = write_zero_header j" for x
    by (simp_all add: fun_eq_iff write_committed_header_def write_zero_header_def)
  consider "snd ?w1 \<noteq> 0" | "snd ?w1 = 0" "snd ?w2 \<noteq> 0" | "snd ?w1 = 0" "snd ?w2 = 0" "snd ?w3 \<noteq> 0"
    | "snd ?w1 = 0" "snd ?w2 = 0" "snd ?w3 = 0" by blast
  then show ?thesis
  proof cases
    case 1
    then have "osfs2_journal_commit j d batch = (j, fst ?w1, -1)"
      using len by (simp add: osfs2_journal_commit_def case_prod_beta Let_def)
    then show ?thesis using s1 f nf 1 by (auto simp: same_device_def)
  next
    case 2
    then have "osfs2_journal_commit j d batch = (j\<lparr>next_txn_id := next_txn_id j + 1\<rparr>, fst ?w2, -1)"
      using len by (simp add: osfs2_journal_commit_def case_prod_beta Let_def wh)
    then show ?thesis using w2 f nf 2 by (auto simp: same_device_def)
  next
    case 3
    then have "osfs2_journal_commit j d batch = (j\<lparr>next_txn_id := next_txn_id j + 1\<rparr>, fst ?w3, -1)"
      using len by (simp add: osfs2_journal_commit_def case_prod_beta Let_def wh)
    then show ?thesis using w2 w3 f nf 3 by (auto simp: same_device_def)
  next
    case 4
    then have c: "\<exists>j'. osfs2_journal_commit j d batch = (j', fst ?w4, 0) \<and> same_device j d j' (fst ?w4)"
      using len f by (simp add: osfs2_journal_commit_def case_prod_beta Let_def wh same_device_def)
    have p: "pending j (fst ?w2) base batch" using w2 4 by simp
    note w4 [OF p 4(3)] w3a [OF p 4(3)] w4a
    then show ?thesis using c nf by auto
  qed
qed


text \<open>What a commit does to the other blocks, from any state of the journal.\<close>

lemma write_slots_outside:
  assumes "geometry_ok j" "length bss \<le> max_blocks j" "\<forall>bs\<in>set bss. length bs = 4096" "disk_ok d"
  shows "disk_ok (fst (write_slots d (data_block0 j) bss)) \<and>
    (\<forall>b. b \<notin> journal_blocks j \<longrightarrow> block_at (fst (write_slots d (data_block0 j) bss)) b = block_at d b)"
proof -
  let ?z = "zip (map (slot_block j) [0..<length bss]) bss"
  have z: "write_slots d (data_block0 j) bss = write_blocks d ?z"
    by (simp add: write_slots_batch slot_block_def [abs_def])
  have "set (map fst ?z) = slot_block j ` {0..<length bss}" "set (map snd ?z) = set bss" by simp_all
  then have "fst ` set ?z \<subseteq> journal_blocks j" "\<forall>bs\<in>snd ` set ?z. length bs = 4096"
    using assms(2,3) by (auto simp: journal_blocks_def simp del: map_fst_zip map_snd_zip)
  then show ?thesis
    unfolding z using write_blocks_ok [OF assms(4)] by (auto intro: write_blocks_other)
qed

lemma commit_outside:
  assumes ok: "disk_ok d" and g: "geometry_ok j" and bt: "batch_ok j batch"
  shows "case osfs2_journal_commit j d batch of (j', d', res) \<Rightarrow>
    disk_ok d' \<and> same_device j d j' d' \<and>
    (\<forall>b. b \<notin> journal_blocks j \<and> b \<notin> fst ` set batch \<longrightarrow> block_at d' b = block_at d b) \<and>
    (res = 0 \<longrightarrow> (\<forall>b. b \<notin> journal_blocks j \<longrightarrow> block_at d' b = apply_batch batch (block_at d) b))"
proof -
  let ?w1 = "write_slots d (data_block0 j) (map snd batch)"
  let ?w2 = "write_committed_header j (fst ?w1) (next_txn_id j) (map fst batch) (compute_commit_crc batch)"
  let ?w3 = "write_blocks (fst ?w2) batch"
  let ?w4 = "write_zero_header j (fst ?w3)"
  have len: "\<forall>bs\<in>snd ` set batch. length bs = 4096" "length batch \<le> max_blocks j" "max_blocks j \<le> 32"
    using bt g by (auto simp: batch_ok_def geometry_ok_def)
  have w1: "disk_ok (fst ?w1)" "\<And>b. b \<notin> journal_blocks j \<Longrightarrow> block_at (fst ?w1) b = block_at d b"
    using write_slots_outside [OF g _ _ ok, of "map snd batch"] len by auto
  have hok: "header_ok (committed_header (next_txn_id j) (map fst batch) (compute_commit_crc batch))"
    using len by (intro committed_header_ok) simp
  have w2: "disk_ok (fst ?w2)" "\<And>b. b \<notin> journal_blocks j \<Longrightarrow> block_at (fst ?w2) b = block_at d b"
    using header_write_cases [OF w1(1) hok, of j] w1(2)
    by (auto simp: write_committed_header_def journal_blocks_def)
  have w3: "disk_ok (fst ?w3)" using write_blocks_ok [OF w2(1) len(1)] .
  have w3o: "\<And>b. b \<notin> journal_blocks j \<Longrightarrow> b \<notin> fst ` set batch \<Longrightarrow> block_at (fst ?w3) b = block_at d b"
    using write_blocks_other [of _ batch "fst ?w2"] w2(2) by simp
  have w3d: "block_at (fst ?w3) b = apply_batch batch (block_at d) b" if "snd ?w3 = 0" "b \<notin> journal_blocks j" for b
    using write_blocks_done [OF that(1) len(1)] apply_batch_cong [of "block_at (fst ?w2)" b "block_at d" batch] w2(2) that(2)
    by simp
  have w4: "disk_ok (fst ?w4)" "\<And>b. b \<notin> journal_blocks j \<Longrightarrow> block_at (fst ?w4) b = block_at (fst ?w3) b"
    using header_write_cases [OF w3 zero_header_ok, of j] by (auto simp: write_zero_header_def journal_blocks_def)
  have f: "fate (fst ?w1) = fate d" "fate (fst ?w2) = fate d" "fate (fst ?w3) = fate d" "fate (fst ?w4) = fate d"
    "unreadable (fst ?w1) = unreadable d" "unreadable (fst ?w2) = unreadable d"
    "unreadable (fst ?w3) = unreadable d" "unreadable (fst ?w4) = unreadable d"
    by (simp_all add: write_committed_header_def write_zero_header_def write_slots_batch frame)
  have wh: "write_committed_header (j\<lparr>next_txn_id := x\<rparr>) = write_committed_header j"
    "write_zero_header (j\<lparr>next_txn_id := x\<rparr>) = write_zero_header j" for x
    by (simp_all add: fun_eq_iff write_committed_header_def write_zero_header_def)
  have n: "length batch \<noteq> 0" "\<not> length batch > max_blocks j" using bt by (auto simp: batch_ok_def)
  consider "snd ?w1 \<noteq> 0" | "snd ?w1 = 0" "snd ?w2 \<noteq> 0" | "snd ?w1 = 0" "snd ?w2 = 0" "snd ?w3 \<noteq> 0"
    | "snd ?w1 = 0" "snd ?w2 = 0" "snd ?w3 = 0" by blast
  then show ?thesis
  proof cases
    case 1
    then have "osfs2_journal_commit j d batch = (j, fst ?w1, -1)"
      using n by (simp add: osfs2_journal_commit_def case_prod_beta Let_def)
    then show ?thesis using w1 f by (simp add: same_device_def)
  next
    case 2
    then have "osfs2_journal_commit j d batch = (j\<lparr>next_txn_id := next_txn_id j + 1\<rparr>, fst ?w2, -1)"
      using n by (simp add: osfs2_journal_commit_def case_prod_beta Let_def wh)
    then show ?thesis using w2 f by (simp add: same_device_def)
  next
    case 3
    then have "osfs2_journal_commit j d batch = (j\<lparr>next_txn_id := next_txn_id j + 1\<rparr>, fst ?w3, -1)"
      using n by (simp add: osfs2_journal_commit_def case_prod_beta Let_def wh)
    then show ?thesis using w3 w3o f by (simp add: same_device_def)
  next
    case 4
    then have "\<exists>j'. osfs2_journal_commit j d batch = (j', fst ?w4, 0) \<and> same_device j d j' (fst ?w4)"
      using n f by (simp add: osfs2_journal_commit_def case_prod_beta Let_def wh same_device_def)
    then show ?thesis using w4 w3o w3d [OF 4(3)] by auto
  qed
qed

section \<open>Crashes\<close>

text \<open>What a new boot starts from: the journal module initialised for the same region.\<close>

definition reinit :: "journal \<Rightarrow> journal" where
  "reinit j = osfs2_journal_init (header_block j) (max_blocks j)"

text \<open>
  Any number of boots, each with its own pattern of write failures (a power loss in the middle of
  the recovery included), each running the replay.
\<close>

inductive recoveries :: "journal \<Rightarrow> disk \<Rightarrow> disk \<Rightarrow> bool" for j d where
  none: "recoveries j d d"
| boot: "recoveries j d d2"
    if "recoveries j d d1" "osfs2_journal_replay (reinit j) (d1\<lparr>fate := f\<rparr>) = (j2, d2, r)"

lemma reinit_eq:
  "geometry_ok j \<Longrightarrow> geometry_ok (reinit j)" "geometry_ok j \<Longrightarrow> journal_blocks (reinit j) = journal_blocks j"
  "geometry_ok j \<Longrightarrow> settled (reinit j) d base = settled j d base"
  "geometry_ok j \<Longrightarrow> pending (reinit j) d base batch = pending j d base batch"
  "geometry_ok j \<Longrightarrow> readable (reinit j) d = readable j d"
  by (auto simp: reinit_def osfs2_journal_init_def geometry_ok_def settled_def pending_def header_at_def
      header_is_committed_def journal_blocks_def slot_block_def readable_def batch_ok_def)

lemma fate_irrelevant [simp]:
  "block_at (d\<lparr>fate := f\<rparr>) = block_at d" "settled j (d\<lparr>fate := f\<rparr>) base = settled j d base"
  "pending j (d\<lparr>fate := f\<rparr>) base batch = pending j d base batch"
  "readable j (d\<lparr>fate := f\<rparr>) = readable j d"
  by (auto simp: block_at_def fun_eq_iff settled_def pending_def header_at_def readable_def disk_ok_def)

lemma pending_not_settled: "pending j d base batch \<Longrightarrow> geometry_ok j \<Longrightarrow> \<not> settled j d base'"
  by (auto simp: pending_def settled_def batch_ok_def geometry_ok_def committed_header_committed)

lemma boot_settled:
  assumes "settled j d base" "readable j d" "geometry_ok j"
  shows "osfs2_journal_replay (reinit j) (d\<lparr>fate := f\<rparr>) = (reinit j, d\<lparr>fate := f\<rparr>, 0)"
  using replay_settled [of "reinit j" "d\<lparr>fate := f\<rparr>" base] assms by (simp add: reinit_eq)

lemma boot_pending:
  assumes "pending j d base batch" "readable j d" "geometry_ok j"
    and c: "osfs2_journal_replay (reinit j) (d\<lparr>fate := f\<rparr>) = (j2, d2, r)"
  shows "(settled j d2 (apply_batch batch base) \<or> pending j d2 base batch \<and> r \<noteq> 0) \<and> readable j d2 \<and>
    ((\<forall>i. \<not> f i) \<longrightarrow> r = 0)"
proof -
  have "pending (reinit j) (d\<lparr>fate := f\<rparr>) base batch" "readable (reinit j) (d\<lparr>fate := f\<rparr>)"
    using assms by (simp_all add: reinit_eq)
  from replay_pending [OF this reinit_eq(1) [OF assms(3)]] show ?thesis
    using assms by (auto simp: reinit_eq readable_def same_device_def)
qed

lemma recoveries_settled:
  assumes "recoveries j d d2" "settled j d base" "readable j d" "geometry_ok j"
  shows "settled j d2 base \<and> readable j d2"
  using assms
proof (induction rule: recoveries.induct)
  case none
  then show ?case by simp
next
  case (boot d1 f j2 d2 r)
  then have "settled j d1 base" "readable j d1" by auto
  from boot_settled [OF this boot.prems(3), of f] boot.hyps(2) this show ?case by auto
qed

lemma recoveries_pending:
  assumes "recoveries j d d2" "pending j d base batch" "readable j d" "geometry_ok j"
  shows "(settled j d2 (apply_batch batch base) \<or> pending j d2 base batch) \<and> readable j d2"
  using assms
proof (induction rule: recoveries.induct)
  case none
  then show ?case by simp
next
  case (boot d1 f j2 d2 r)
  then consider "settled j d1 (apply_batch batch base)" "readable j d1"
    | "pending j d1 base batch" "readable j d1" by auto
  then show ?case
  proof cases
    case 1
    from boot_settled [OF this boot.prems(3), of f] boot.hyps(2) this show ?thesis by auto
  next
    case 2
    from boot_pending [OF this boot.prems(3) boot.hyps(2)] show ?thesis by blast
  qed
qed

text \<open>The last recovery, the one that reports success.\<close>

lemma recovered:
  assumes "recoveries j d1 d2" "readable j d1" "geometry_ok j"
    and "osfs2_journal_replay (reinit j) (d2\<lparr>fate := f\<rparr>) = (j3, d3, 0)"
  shows "settled j d1 base \<Longrightarrow> settled j d3 base"
    "pending j d1 base batch \<Longrightarrow> settled j d3 (apply_batch batch base)"
proof -
  assume "settled j d1 base"
  then have "settled j d2 base" "readable j d2"
    using recoveries_settled assms(1-3) by blast+
  from boot_settled [OF this assms(3), of f] this show "settled j d3 base" using assms(4) by simp
next
  assume "pending j d1 base batch"
  then consider "settled j d2 (apply_batch batch base)" "readable j d2" | "pending j d2 base batch" "readable j d2"
    using recoveries_pending [OF assms(1) _ assms(2,3)] by blast
  then show "settled j d3 (apply_batch batch base)"
  proof cases
    case 1
    from boot_settled [OF this assms(3), of f] this show ?thesis using assms(4) by simp
  next
    case 2
    from boot_pending [OF this assms(3,4)] show ?thesis by simp
  qed
qed

lemma commit_crash:
  assumes "settled j d (block_at d)" and "batch_ok j batch" and "geometry_ok j" and "readable j d"
    and "osfs2_journal_commit j d batch = (j1, d1, r)" and "recoveries j d1 d2"
    and "osfs2_journal_replay (reinit j) (d2\<lparr>fate := f\<rparr>) = (j3, d3, 0)"
  shows "(r \<noteq> 0 \<and> (\<forall>b. b \<notin> journal_blocks j \<longrightarrow> block_at d3 b = block_at d b)) \<or>
    (\<forall>b. b \<notin> journal_blocks j \<longrightarrow> block_at d3 b = apply_batch batch (block_at d) b)"
proof -
  have c: "(settled j d1 (block_at d) \<and> r \<noteq> 0 \<or> pending j d1 (block_at d) batch \<or>
      settled j d1 (apply_batch batch (block_at d)))" "readable j d1"
    using commit_settled [OF assms(1-3)] assms(4,5) by (auto simp: readable_def same_device_def)
  note last = recovered [OF assms(6) c(2) assms(3,7)]
  from c(1) consider "settled j d3 (block_at d)" "r \<noteq> 0" | "settled j d3 (apply_batch batch (block_at d))"
    using last by blast
  then show ?thesis by cases (simp_all add: settled_def)
qed

text \<open>C17. From a journal without a committed header a commit is atomic under power loss: whatever writes fail during the commit and during
  any number of interrupted recoveries, the first recovery that succeeds leaves every block outside
  the journal as before the commit, or the whole batch applied; the first only if the commit
  reported failure.\<close>

theorem journal_crash_atomic:
  assumes "settled j d (block_at d)" and "batch_ok j batch" and "geometry_ok j" and "readable j d"
    and "osfs2_journal_commit j d batch = (j1, d1, r)" and "recoveries j d1 d2"
    and "osfs2_journal_replay (reinit j) (d2\<lparr>fate := f\<rparr>) = (j3, d3, 0)"
  shows "(r \<noteq> 0 \<and> (\<forall>b. b \<notin> journal_blocks j \<longrightarrow> block_at d3 b = block_at d b)) \<or>
    (\<forall>b. b \<notin> journal_blocks j \<longrightarrow> block_at d3 b = apply_batch batch (block_at d) b)"
  using assms by (rule commit_crash)

lemma recovery_succeeds:
  assumes "settled j d (block_at d)" and "batch_ok j batch" and "geometry_ok j" and "readable j d"
    and "osfs2_journal_commit j d batch = (j1, d1, r)" and "recoveries j d1 d2" and "\<forall>i. \<not> f i"
  shows "\<exists>j3 d3. osfs2_journal_replay (reinit j) (d2\<lparr>fate := f\<rparr>) = (j3, d3, 0) \<and>
    osfs2_journal_replay (reinit j) d3 = (reinit j, d3, 0)"
proof -
  have c: "(settled j d1 (block_at d) \<or> pending j d1 (block_at d) batch \<or>
      settled j d1 (apply_batch batch (block_at d)))" "readable j d1"
    using commit_settled [OF assms(1-3)] assms(4,5) by (auto simp: readable_def same_device_def)
  obtain base' where "settled j d2 base' \<or> pending j d2 (block_at d) batch" "readable j d2"
    using c recoveries_settled [OF assms(6) _ c(2) assms(3)] recoveries_pending [OF assms(6) _ c(2) assms(3)]
    by blast
  then consider "settled j d2 base'" "readable j d2" | "pending j d2 (block_at d) batch" "readable j d2" by blast
  then obtain j3 d3 base3 where "osfs2_journal_replay (reinit j) (d2\<lparr>fate := f\<rparr>) = (j3, d3, 0)"
    "settled j d3 base3" "readable j d3"
  proof cases
    case 1
    then show thesis
      using boot_settled [OF 1 assms(3), of f] by (intro that [of "reinit j" "d2\<lparr>fate := f\<rparr>" base']) simp_all
  next
    case 2
    obtain j3 d3 r3 where "osfs2_journal_replay (reinit j) (d2\<lparr>fate := f\<rparr>) = (j3, d3, r3)"
      by (metis prod_cases3)
    with boot_pending [OF 2 assms(3) this] assms(7) show thesis by (intro that) auto
  qed
  then show ?thesis
    using replay_settled [of "reinit j" d3 base3] assms(3) by (auto simp: reinit_eq)
qed



section \<open>What the checksum detects\<close>

definition crc32_bit :: "u32 \<Rightarrow> u32" where
  "crc32_bit c = drop_bit 1 c XOR (0xEDB88320 AND - (c AND 1))"

lemma crc32_step_bits: "crc32_step c b = (crc32_bit ^^ 8) (c XOR ucast b)"
  by (simp add: crc32_step_def crc32_bit_def [abs_def] Let_def)

lemma low_bit_mask: "- ((c :: u32) AND 1) = (if bit c 0 then -1 else 0)"
  by (simp add: and_one_eq mod_2_eq_odd bit_0)

lemma xor_cancel:
  "(c :: u32) XOR a = d XOR a \<Longrightarrow> c = d" "a XOR (c :: u32) = a XOR d \<Longrightarrow> c = d"
proof -
  show "c = d" if "c XOR a = d XOR a"
  proof (rule bit_word_eqI)
    fix n
    have "bit (c XOR a) n = bit (d XOR a) n" using that by simp
    then show "bit c n = bit d n" by (auto simp: bit_xor_iff)
  qed
  then show "a XOR c = a XOR d \<Longrightarrow> c = d" by (simp add: xor.commute)
qed

lemma crc32_bit_inj: "crc32_bit c = crc32_bit d \<Longrightarrow> c = d"
proof -
  assume e: "crc32_bit c = crc32_bit d"
  have top: "bit (crc32_bit x) 31 = bit x 0" for x
    using bit_imp_le_length [of x 32] by (auto simp: crc32_bit_def low_bit_mask bit_simps)
  have low: "bit c 0 = bit d 0" using e top by metis
  then have "drop_bit 1 c = drop_bit 1 d" using e
    by (auto simp: crc32_bit_def low_bit_mask split: if_splits dest: xor_cancel)
  then have high: "bit c (Suc n) = bit d (Suc n)" for n
    by (metis bit_drop_bit_eq comp_apply plus_1_eq_Suc)
  show ?thesis by (rule bit_word_eqI) (metis low high not0_implies_Suc)
qed

lemma funpow_inj:
  fixes f :: "'a \<Rightarrow> 'a"
  assumes "\<And>x y. f x = f y \<Longrightarrow> x = y"
  shows "(f ^^ n) x = (f ^^ n) y \<Longrightarrow> x = y"
  by (induction n) (simp, metis assms comp_apply funpow.simps(2))

lemma crc32_step_inj: "crc32_step c b = crc32_step d b' \<Longrightarrow> c XOR ucast b = d XOR ucast b'"
  unfolding crc32_step_bits by (rule funpow_inj [OF crc32_bit_inj])

lemma crc32_buf_inj: "crc32_buf c bs = crc32_buf d bs \<Longrightarrow> c = d"
proof (induction bs arbitrary: c d)
  case Nil
  then show ?case by (simp add: crc32_buf_def)
next
  case (Cons b bs)
  then have "crc32_step c b = crc32_step d b" by (simp add: crc32_buf_def)
  then have "c XOR ucast b = d XOR ucast b" by (rule crc32_step_inj)
  then show ?case by (rule xor_cancel)
qed

text \<open>A change of a single byte is always detected.\<close>

lemma crc32_byte_error:
  assumes "b \<noteq> b'"
  shows "crc32_buf c (xs @ b # ys) \<noteq> crc32_buf c (xs @ b' # ys)"
proof
  let ?c = "crc32_buf c xs"
  assume "crc32_buf c (xs @ b # ys) = crc32_buf c (xs @ b' # ys)"
  then have "crc32_buf (crc32_step ?c b) ys = crc32_buf (crc32_step ?c b') ys" by (simp add: crc32_buf_def)
  then have "?c XOR ucast b = ?c XOR ucast b'" by (rule crc32_step_inj [OF crc32_buf_inj])
  then have "(ucast b :: u32) = ucast b'" by (rule xor_cancel)
  moreover have "bit x n = bit (ucast x :: u32) n" if "n < 8" for x :: byte and n
    using that by (simp add: bit_simps)
  ultimately have "b = b'" by (intro bit_word_eqI) simp
  then show False using assms by contradiction
qed

section \<open>A stale header\<close>

lemma write_sectors_success:
  "(\<forall>i<n. \<not> fate d (nwrites d + i)) \<Longrightarrow>
   snd (write_sectors d lba src n) = 0 \<and> nwrites (fst (write_sectors d lba src n)) = nwrites d + n"
proof (induction n arbitrary: d lba src)
  case 0
  then show ?case by simp
next
  case (Suc n)
  let ?d = "fst (dev_write d lba (take 512 src))"
  have f: "\<not> fate d (nwrites d)" using Suc.prems [rule_format, of 0] by simp
  have "\<forall>i<n. \<not> fate ?d (nwrites ?d + i)"
  proof (intro allI impI)
    fix i assume "i < n"
    then show "\<not> fate ?d (nwrites ?d + i)" using Suc.prems [rule_format, of "Suc i"] by (simp add: frame)
  qed
  then show ?case
    using Suc.IH [of ?d "lba + 1" "drop 512 src"] f
    by (simp add: case_prod_beta Let_def frame) (simp add: dev_write_def Let_def)
qed

lemma raw_write_success:
  "(\<forall>i<8. \<not> fate d (nwrites d + i)) \<Longrightarrow>
   snd (raw_write d b src) = 0 \<and> nwrites (fst (raw_write d b src)) = nwrites d + 8"
  unfolding raw_write_def by (rule write_sectors_success)

text \<open>
  The journal does not survive an error followed by a crash: when a commit has failed after
  writing its header (a destination could not be written), the next commit overwrites the payload
  the committed header still refers to.  If the power fails right after its first payload block, the
  checksum no longer matches, recovery discards the batch and reports success, and the destinations
  stay as the failed commit left them, torn or half updated.
\<close>

theorem journal_stale_header:
  assumes p: "pending j d base batch" and g: "geometry_ok j" and r: "readable j d"
    and b2: "batch_ok j [(b, x)]"
    and crc: "compute_replay_crc (map fst batch) (x # tl (map snd batch)) \<noteq> compute_commit_crc batch"
    and loss: "fate d = (\<lambda>i. nwrites d + 8 \<le> i)"
    and c: "osfs2_journal_commit j d [(b, x)] = (j1, d1, res)"
  shows "\<exists>j2 d2. osfs2_journal_replay (reinit j) (d1\<lparr>fate := \<lambda>_. False\<rparr>) = (j2, d2, 0) \<and>
    \<not> header_is_committed j (header_at j d2) \<and>
    (\<forall>b. b \<notin> journal_blocks j \<longrightarrow> block_at d2 b = block_at d b)"
proof -
  let ?s = "raw_write d (data_block0 j) x"
  let ?w = "write_committed_header j (fst ?s) (next_txn_id j) [b] (compute_commit_crc [(b, x)])"
  have lx: "length x = 4096" and len: "0 < max_blocks j" using b2 g by (auto simp: batch_ok_def geometry_ok_def)
  have ok: "disk_ok d" using p by (simp add: pending_def)
  have s: "snd ?s = 0" "nwrites (fst ?s) = nwrites d + 8" "fate (fst ?s) = fate d"
    using raw_write_success [of d "data_block0 j" x] loss by (auto simp: frame)
  have s_ok: "disk_ok (fst ?s)" using ok lx by (simp add: frame)
  have sb: "slot_block j 0 = data_block0 j" by (simp add: slot_block_def)
  have at_s: "block_at (fst ?s) (data_block0 j) = x" "\<And>b. b \<noteq> data_block0 j \<Longrightarrow> block_at (fst ?s) b = block_at d b"
    using raw_write_done [OF s(1) lx] by (simp_all add: frame)
  have "header_ok (committed_header (next_txn_id j) [b] (compute_commit_crc [(b, x)]))" by simp
  from header_write_cases [OF s_ok this, of j] s loss
  have w: "disk_ok (fst ?w)" "\<And>b. b \<noteq> header_block j \<Longrightarrow> block_at (fst ?w) b = block_at (fst ?s) b"
    "header_at j (fst ?w) = header_at j (fst ?s)" "snd ?w = -1"
    by (simp_all add: write_committed_header_def)
  have wh: "write_committed_header (j\<lparr>next_txn_id := y\<rparr>) = write_committed_header j" for y
    by (simp add: fun_eq_iff write_committed_header_def)
  have "osfs2_journal_commit j d [(b, x)] = (j\<lparr>next_txn_id := next_txn_id j + 1\<rparr>, fst ?w, -1)"
    using len s(1) w(4) by (simp add: osfs2_journal_commit_def case_prod_beta Let_def wh)
  then have d1: "d1 = fst ?w" using c by simp
  let ?d = "d1\<lparr>fate := \<lambda>_. False\<rparr>" and ?j = "reinit j"
  obtain txn where h: "header_at j d = committed_header txn (map fst batch) (compute_commit_crc batch)"
    using p by (auto simp: pending_def)
  have bt: "0 < length batch" "length batch \<le> max_blocks j" "max_blocks j \<le> 32"
    using p g by (auto simp: pending_def batch_ok_def geometry_ok_def)
  have len0: "max_blocks j \<noteq> 0" using len by simp
  have nh: "data_block0 j \<noteq> header_block j" using slot_not_header [OF g len] by (simp add: slot_block_def)
  have j': "header_block ?j = header_block j" "data_block0 ?j = data_block0 j" "max_blocks ?j = max_blocks j"
    using g by (simp_all add: reinit_def osfs2_journal_init_def geometry_ok_def)
  have hd: "header_of_bytes (block_at ?d (header_block j)) = header_at j d"
    using w(3) at_s(2) [OF nh [symmetric]] by (simp add: d1 header_at_def)
  have rd: "\<forall>b\<in>journal_blocks j. block_sectors b \<inter> unreadable ?d = {}"
    using r by (simp add: d1 readable_def frame write_committed_header_def)
  have hr: "raw_read ?d (header_block j) = Some (block_at ?d (header_block j))"
    using rd by (intro raw_read_eq) (simp add: journal_blocks_def)
  have committed: "header_is_committed ?j (header_at j d)"
    unfolding h using bt by (intro committed_header_committed) (simp_all add: j')
  have n: "unat (h_block_count (header_at j d)) = length batch" unfolding h using bt by (simp add: unat_of_nat)
  have dest: "take (length batch) (h_dest (header_at j d)) = map fst batch"
    using committed_header_fields(5) [of "map fst batch"] bt unfolding h by simp
  have slots: "\<forall>i<length batch. block_sectors (data_block0 j + of_nat i) \<inter> unreadable ?d = {}"
    using rd bt(2) by (auto simp: journal_blocks_def slot_block_def)
  have slot: "block_at ?d (slot_block j i) = (x # tl (map snd batch)) ! i" if i: "i < length batch" for i
  proof (cases i)
    case 0
    then show ?thesis using w(2) [OF nh] at_s(1) by (simp add: d1 slot_block_def)
  next
    case (Suc k)
    have im: "i < max_blocks j" using i bt by simp
    have "slot_block j i \<noteq> slot_block j 0"
      using inj_onD [OF slot_block_inj [OF g], of i 0] im len Suc by auto
    then have "block_at (fst ?s) (slot_block j i) = block_at d (slot_block j i)"
      using at_s(2) by (simp add: sb)
    then show ?thesis
      using w(2) [OF slot_not_header [OF g im]] p i Suc by (simp add: d1 pending_def nth_tl)
  qed
  have pay: "read_slots ?d (data_block0 j) (length batch) = Some (x # tl (map snd batch))"
    unfolding read_slots_eq [OF slots]
    using bt(1) slot by (auto simp: slot_block_def intro!: nth_equalityI)
  have replay: "osfs2_journal_replay ?j ?d = (?j, fst (write_zero_header ?j ?d), 0)"
    using hr hd committed n dest pay crc raw_write_no_fault [of ?d]
    by (simp add: osfs2_journal_replay_def j' h len0 case_prod_beta Let_def write_zero_header_def)
  have okd: "disk_ok ?d" using w(1) by (simp add: d1 disk_ok_def)
  have zero: "header_at j (fst (write_zero_header ?j ?d)) = zero_header"
    "\<And>c. c \<noteq> header_block j \<Longrightarrow> block_at (fst (write_zero_header ?j ?d)) c = block_at ?d c"
    using header_write_cases [OF okd zero_header_ok, of j] by (simp_all add: write_zero_header_def j')
  have "block_at (fst (write_zero_header ?j ?d)) c = block_at d c" if c: "c \<notin> journal_blocks j" for c
  proof -
    have "c \<noteq> header_block j" "c \<noteq> data_block0 j"
      using c len sb unfolding journal_blocks_def by (metis insertI1 insertI2 image_eqI lessThan_iff)+
    then show ?thesis using zero(2) w(2) at_s(2) by (simp add: d1)
  qed
  then show ?thesis using replay zero(1) by auto
qed


section \<open>Instances\<close>

text \<open>The journal of the 64 MiB image: header in block 67, 32 payload slots behind it.  A blank
  disk that loses power after \<open>k\<close> sector writes.\<close>

definition example_journal :: journal where
  "example_journal = osfs2_journal_init 67 32"

definition example_disk :: "nat \<Rightarrow> disk" where
  "example_disk k = \<lparr>sectors = (\<lambda>_. replicate 512 0), nwrites = 0, fate = (\<lambda>i. k \<le> i), unreadable = {}\<rparr>"

lemma journal_blocks_range:
  "geometry_ok j \<Longrightarrow> b \<in> journal_blocks j \<Longrightarrow> unat (header_block j) \<le> unat b \<and> unat b \<le> unat (header_block j) + 32"
  using slot_block_unat [of j] by (force simp: journal_blocks_def geometry_ok_def)

lemma example_geometry [simp]: "geometry_ok example_journal" "reinit example_journal = example_journal"
  by (simp_all add: example_journal_def osfs2_journal_init_def geometry_ok_def reinit_def)

lemma example_data_block [simp]: "200 \<notin> journal_blocks example_journal"
proof
  assume "200 \<in> journal_blocks example_journal"
  from journal_blocks_range [OF example_geometry(1) this] show False
    by (simp add: example_journal_def osfs2_journal_init_def)
qed

lemma example_readable [simp]: "readable example_journal (example_disk k)"
  by (simp add: readable_def example_disk_def)

lemma disk_ok_example [simp]: "disk_ok (example_disk k)"
  by (simp add: disk_ok_def example_disk_def)

lemma header_zeros: "h_magic (header_of_bytes (replicate 512 0)) = replicate 8 0"
  by (simp add: header_of_bytes_def)

lemma example_settled [simp]: "settled example_journal (example_disk k) (block_at (example_disk k))"
  using JMAGIC_not_zero header_zeros
  by (simp add: settled_def header_at_first_sector header_is_committed_def) (simp add: example_disk_def)

lemma example_batch [simp]: "batch_ok example_journal [(200, replicate 4096 c)]"
  by (simp add: batch_ok_def) (simp add: example_journal_def osfs2_journal_init_def)

lemma journal_crash_atomic_witness:
  "\<exists>j1 d1 r j3 d3. osfs2_journal_commit example_journal (example_disk 20) [(200, replicate 4096 7)] = (j1, d1, r) \<and>
     osfs2_journal_replay example_journal (d1\<lparr>fate := \<lambda>_. False\<rparr>) = (j3, d3, 0) \<and>
     block_at d3 200 \<in> {block_at (example_disk 20) 200, replicate 4096 7}"
proof -
  let ?b = "[(200 :: u32, replicate 4096 7 :: byte list)]"
  obtain j1 d1 r where c: "osfs2_journal_commit example_journal (example_disk 20) ?b = (j1, d1, r)"
    by (metis prod_cases3)
  have "(settled example_journal d1 (block_at (example_disk 20)) \<or>
      pending example_journal d1 (block_at (example_disk 20)) ?b \<or>
      settled example_journal d1 (apply_batch ?b (block_at (example_disk 20)))) \<and> readable example_journal d1"
    using commit_settled [of example_journal "example_disk 20" "block_at (example_disk 20)" ?b] c
      example_readable [of 20] by (auto simp: readable_def same_device_def)
  moreover obtain j3 d3 r3 where p: "osfs2_journal_replay example_journal (d1\<lparr>fate := \<lambda>_. False\<rparr>) = (j3, d3, r3)"
    by (metis prod_cases3)
  ultimately have "r3 = 0"
    using boot_settled [of example_journal d1 _ "\<lambda>_. False"]
      boot_pending [of example_journal d1 "block_at (example_disk 20)" ?b "\<lambda>_. False" j3 d3 r3] by auto
  with p have p0: "osfs2_journal_replay (reinit example_journal) (d1\<lparr>fate := \<lambda>_. False\<rparr>) = (j3, d3, 0)" by simp
  from journal_crash_atomic [OF _ _ _ _ c recoveries.none p0]
  have "block_at d3 200 \<in> {block_at (example_disk 20) 200, replicate 4096 7}"
    by auto
  then show ?thesis using c p0 by auto
qed


text \<open>A disk left by a commit that failed in its destination writes: header and payload are in
  place, the destination is not.\<close>

definition example_stale :: disk where
  "example_stale = (example_disk 8)\<lparr>sectors := (\<lambda>_. replicate 512 0)(67 * 8 :=
     take 512 (header_bytes (committed_header 1 [200] (compute_commit_crc [(200, replicate 4096 0)]))))\<rparr>"


lemma concat_replicate_replicate: "concat (replicate n (replicate m x)) = replicate (n * m) x"
  by (induction n) (simp_all flip: replicate_add)

lemma example_stale_blocks:
  "b \<noteq> 67 \<Longrightarrow> block_at example_stale b = replicate 4096 0"
proof -
  assume "b \<noteq> 67"
  then have b: "unat b \<noteq> 67" by (simp add: word_unat_eq_iff)
  have "sectors example_stale (unat b * 8 + i) = replicate 512 0" if "i < 8" for i
    using b that by (auto simp: example_stale_def)
  then have "block_at example_stale b = concat (map (\<lambda>i. replicate 512 0) [0..<8])"
    by (simp only: block_at_def) (rule arg_cong [of _ _ concat], rule map_cong, simp_all)
  also have "\<dots> = replicate 4096 0" by (simp add: map_replicate_const concat_replicate_replicate)
  finally show ?thesis .
qed

lemma example_stale_pending: "pending example_journal example_stale (block_at example_stale) [(200, replicate 4096 0)]"
proof -
  let ?h = "committed_header 1 [200] (compute_commit_crc [(200, replicate 4096 0)])"
  have len: "length (header_bytes ?h) = 4096" by (rule length_header_bytes) simp
  have ok: "disk_ok example_stale" using len by (auto simp: disk_ok_def example_stale_def example_disk_def)
  have "header_of_bytes (take 512 (header_bytes ?h)) = ?h"
    using header_prefix [of "take 512 (header_bytes ?h)" "drop 512 (header_bytes ?h)"] len
      header_roundtrip [of ?h] by simp
  moreover have "sectors example_stale (67 * 8) = take 512 (header_bytes ?h)" by (simp add: example_stale_def)
  moreover have "unat (header_block example_journal) = 67"
    by (simp add: example_journal_def osfs2_journal_init_def)
  ultimately have "header_at example_journal example_stale = ?h"
    using header_at_first_sector [OF ok, of example_journal] by simp
  moreover have "slot_block example_journal 0 \<noteq> 67"
    by (simp add: slot_block_def example_journal_def osfs2_journal_init_def)
  ultimately show ?thesis
    using ok example_stale_blocks by (auto simp: pending_def)
qed

lemma journal_stale_header_witness:
  "\<exists>j1 d1 res j2 d2. osfs2_journal_commit example_journal example_stale [(200, 1 # replicate 4095 0)] = (j1, d1, res) \<and>
     osfs2_journal_replay example_journal (d1\<lparr>fate := \<lambda>_. False\<rparr>) = (j2, d2, 0) \<and>
     block_at d2 200 = block_at example_stale 200"
proof -
  let ?x = "1 # replicate 4095 0 :: byte list"
  have b2: "batch_ok example_journal [(200, ?x)]"
    by (simp add: batch_ok_def) (simp add: example_journal_def osfs2_journal_init_def)
  have z: "replicate 4096 0 = (0 :: byte) # replicate 4095 0" by (simp flip: replicate_Suc)
  have crc: "compute_replay_crc (map fst [(200, replicate 4096 0)]) (?x # tl (map snd [(200 :: u32, replicate 4096 0)]))
      \<noteq> compute_commit_crc [(200, replicate 4096 0)]"
    using crc32_byte_error [of 1 0 _ "[]" "replicate 4095 0"] xor_cancel(1)
    unfolding z by (auto simp: compute_replay_crc_def compute_commit_crc_def)
  have rd: "readable example_journal example_stale"
    by (simp add: readable_def example_stale_def example_disk_def)
  have loss: "fate example_stale = (\<lambda>i. nwrites example_stale + 8 \<le> i)"
    by (simp add: example_stale_def example_disk_def)
  obtain j1 d1 res where c: "osfs2_journal_commit example_journal example_stale [(200, ?x)] = (j1, d1, res)"
    by (metis prod_cases3)
  from journal_stale_header [OF example_stale_pending example_geometry(1) rd b2 crc loss c]
  show ?thesis using c example_geometry(2) by auto
qed

end
