(* ===== verification/Lru.thy ===== *)
theory Lru
  imports Prelude
begin

text \<open>
  The replacement scan the three caches share: \<open>pick_victim\<close> of
  \<open>kernel/device/blk_cache.c\<close> and \<open>kernel/core/osfs2_cache.c\<close>, and
  \<open>pick_victim_locked\<close> of \<open>kernel/core/page_cache.c\<close>.  A free slot is taken at once; otherwise
  the slot with the smallest time stamp, passing over the pinned ones.
\<close>

fun victim_scan ::
    "('s \<Rightarrow> bool) \<Rightarrow> ('s \<Rightarrow> bool) \<Rightarrow> ('s \<Rightarrow> nat) \<Rightarrow> nat \<Rightarrow> nat option \<Rightarrow> nat \<Rightarrow> 's list \<Rightarrow> nat option" where
  "victim_scan free pinned stamp i best oldest [] = best"
| "victim_scan free pinned stamp i best oldest (s # ss) =
     (if free s then Some i
      else if pinned s then victim_scan free pinned stamp (i + 1) best oldest ss
      else if stamp s < oldest then victim_scan free pinned stamp (i + 1) (Some i) (stamp s) ss
      else victim_scan free pinned stamp (i + 1) best oldest ss)"

text \<open>What the scan has found in the slots it has passed.\<close>

definition oldest_in :: "('s \<Rightarrow> bool) \<Rightarrow> ('s \<Rightarrow> nat) \<Rightarrow> nat \<Rightarrow> 's list \<Rightarrow> nat option \<Rightarrow> bool" where
  "oldest_in pinned stamp bound ss r \<longleftrightarrow>
     (case r of
        None \<Rightarrow> \<forall>s\<in>set ss. pinned s \<or> bound \<le> stamp s
      | Some v \<Rightarrow> v < length ss \<and> \<not> pinned (ss ! v) \<and> stamp (ss ! v) < bound \<and>
          (\<forall>s\<in>set ss. pinned s \<or> stamp (ss ! v) \<le> stamp s))"

lemma victim_scan_best:
  "victim_scan free pinned stamp i best oldest ss =
    (case victim_scan free pinned stamp i None oldest ss of None \<Rightarrow> best | Some v \<Rightarrow> Some v)"
proof (induction ss arbitrary: i best oldest)
  case Nil
  then show ?case by simp
next
  case (Cons s ss)
  show ?case
    using Cons.IH [of "i + 1" "Some i" "stamp s"] Cons.IH [of "i + 1" best oldest]
    by (auto simp del: split_paired_All split: option.splits)
qed

lemma victim_scan_free:
  "first_index free ss = Some v \<Longrightarrow> victim_scan free pinned stamp i best oldest ss = Some (i + v)"
  by (induction ss arbitrary: i best oldest v) (auto split: if_splits)

lemma victim_scan_invariant:
  assumes "\<forall>s\<in>set (pre @ ss). \<not> free s" "oldest_in pinned stamp bound pre best"
    and "oldest = (case best of None \<Rightarrow> bound | Some v \<Rightarrow> stamp (pre ! v))"
  shows "oldest_in pinned stamp bound (pre @ ss) (victim_scan free pinned stamp (length pre) best oldest ss)"
  using assms
proof (induction ss arbitrary: pre best oldest)
  case Nil
  then show ?case by simp
next
  case (Cons s ss)
  have free: "\<not> free s" using Cons.prems(1) by simp
  have step: "oldest_in pinned stamp bound (pre @ s # ss) (victim_scan free pinned stamp (length (pre @ [s])) b
      (case b of None \<Rightarrow> bound | Some v \<Rightarrow> stamp ((pre @ [s]) ! v)) ss)"
    if "oldest_in pinned stamp bound (pre @ [s]) b" for b
    using Cons.IH [of "pre @ [s]" b "case b of None \<Rightarrow> bound | Some v \<Rightarrow> stamp ((pre @ [s]) ! v)"]
      Cons.prems(1) that by simp
  show ?case
  proof (cases "pinned s \<or> oldest \<le> stamp s")
    case True
    then have "oldest_in pinned stamp bound (pre @ [s]) best"
      using Cons.prems(2,3) by (auto simp: oldest_in_def nth_append split: option.splits)
    moreover have "oldest = (case best of None \<Rightarrow> bound | Some v \<Rightarrow> stamp ((pre @ [s]) ! v))"
      using Cons.prems(2,3) by (auto simp: oldest_in_def nth_append split: option.splits)
    moreover have "victim_scan free pinned stamp (length pre) best oldest (s # ss) =
        victim_scan free pinned stamp (length (pre @ [s])) best oldest ss"
      using True free by auto
    ultimately show ?thesis using step [of best] by simp
  next
    case False
    then have "oldest_in pinned stamp bound (pre @ [s]) (Some (length pre))"
      using Cons.prems(2,3) by (auto simp: oldest_in_def nth_append split: option.splits dest: order_le_less_trans less_imp_le)
    then show ?thesis using step [of "Some (length pre)"] False free by (simp add: nth_append)
  qed
qed

text \<open>The result of a whole scan.\<close>

lemma victim_scan_result:
  fixes ss :: "'a list"
  shows "case first_index free ss of
     Some v \<Rightarrow> victim_scan free pinned stamp 0 None bound ss = Some v
   | None \<Rightarrow> oldest_in pinned stamp bound ss (victim_scan free pinned stamp 0 None bound ss)"
proof (cases "first_index free ss")
  case None
  then have "oldest_in pinned stamp bound ([] @ ss) (victim_scan free pinned stamp (length ([] :: 'a list)) None bound ss)"
    by (intro victim_scan_invariant) (auto simp: first_index_None oldest_in_def)
  then show ?thesis using None by simp
next
  case (Some v)
  then show ?thesis using victim_scan_free [OF Some, of pinned stamp 0] by simp
qed

text \<open>The caches without pins start from slot 0 and always find a victim.\<close>

definition lru_victim :: "('s \<Rightarrow> bool) \<Rightarrow> ('s \<Rightarrow> nat) \<Rightarrow> 's list \<Rightarrow> nat" where
  "lru_victim valid stamp ss =
     the (victim_scan (\<lambda>s. \<not> valid s) (\<lambda>_. False) stamp 0 (Some 0) (2 ^ 64 - 1) ss)"

lemma lru_victim_spec:
  assumes "ss \<noteq> []" "\<forall>s\<in>set ss. stamp s < 2 ^ 64"
  shows "lru_victim valid stamp ss < length ss \<and>
    (\<not> valid (ss ! lru_victim valid stamp ss) \<or>
     (\<forall>s\<in>set ss. valid s \<and> stamp (ss ! lru_victim valid stamp ss) \<le> stamp s))"
proof (cases "first_index (\<lambda>s. \<not> valid s) ss")
  case (Some v)
  then have "lru_victim valid stamp ss = v"
    using victim_scan_free [OF Some] by (simp add: lru_victim_def)
  then show ?thesis using first_indexD [OF Some] by simp
next
  case None
  let ?r = "victim_scan (\<lambda>s. \<not> valid s) (\<lambda>_. False) stamp 0 None (2 ^ 64 - 1) ss"
  have valid: "\<forall>s\<in>set ss. valid s" using None by (auto simp: first_index_None)
  have o: "oldest_in (\<lambda>_. False) stamp (2 ^ 64 - 1) ss ?r"
    using victim_scan_result [where free = "\<lambda>s. \<not> valid s" and pinned = "\<lambda>_. False" and stamp = stamp
        and bound = "2 ^ 64 - 1" and ss = ss] None by simp
  have l: "lru_victim valid stamp ss = (case ?r of None \<Rightarrow> 0 | Some v \<Rightarrow> v)"
    unfolding lru_victim_def by (subst victim_scan_best) (auto split: option.splits)
  show ?thesis
  proof (cases ?r)
    case None
    then have max: "\<forall>s\<in>set ss. stamp s = 2 ^ 64 - 1"
      using o assms(2) unfolding oldest_in_def by (simp, force)
    have "ss ! 0 \<in> set ss" using assms(1) by simp
    then show ?thesis using l None assms(1) max valid by simp
  next
    case (Some v)
    then show ?thesis using l o valid unfolding oldest_in_def by simp
  qed
qed

end
