(* ===== verification/BlkCache.thy ===== *)
theory BlkCache
  imports Contracts Disk Lru
begin

text \<open>
  The read cache in front of the kernel disk, \<open>kernel/device/blk_cache.c\<close>: 64 sector slots
  with least-recently-used replacement.  The state is the module's static variables together with
  the disk it reads through to.  The clock is a 64-bit counter; the statistics are counters that the
  code never reads.
\<close>

record slot =
  lba :: nat
  last_used :: nat
  valid :: bool
  data :: sector

record blk_cache =
  g_slots :: "slot list"
  g_clock :: nat
  g_hits :: nat
  g_misses :: nat
  g_evictions :: nat
  device :: disk

abbreviation (input) SLOTS :: nat where "SLOTS \<equiv> 64"

definition blk_cache_init :: "blk_cache \<Rightarrow> blk_cache" where
  "blk_cache_init c =
     c\<lparr>g_slots := map (\<lambda>s. s\<lparr>valid := False, lba := 0, last_used := 0\<rparr>) (g_slots c),
       g_clock := 0, g_hits := 0, g_misses := 0, g_evictions := 0\<rparr>"

definition find_slot :: "blk_cache \<Rightarrow> nat \<Rightarrow> nat option" where
  "find_slot c l = first_index (\<lambda>s. valid s \<and> lba s = l) (g_slots c)"

definition pick_victim :: "blk_cache \<Rightarrow> nat" where
  "pick_victim c = lru_victim valid last_used (g_slots c)"

text \<open>\<open>None\<close> is the result \<open>-1\<close>; \<open>Some\<close> carries the bytes copied to the caller.\<close>

definition blk_cache_read :: "blk_cache \<Rightarrow> nat \<Rightarrow> blk_cache \<times> sector option" where
  "blk_cache_read c l =
     (case find_slot c l of
        Some idx \<Rightarrow>
          let clk = add64 (g_clock c) 1; s = g_slots c ! idx in
          (c\<lparr>g_clock := clk, g_slots := (g_slots c)[idx := s\<lparr>last_used := clk\<rparr>],
             g_hits := g_hits c + 1\<rparr>, Some (data s))
      | None \<Rightarrow>
          let v = pick_victim c; s = g_slots c ! v;
              c1 = (if valid s then c\<lparr>g_evictions := g_evictions c + 1\<rparr> else c) in
          case dev_read (device c1) l of
            None \<Rightarrow> (c1\<lparr>g_slots := (g_slots c1)[v := s\<lparr>valid := False\<rparr>]\<rparr>, None)
          | Some bs \<Rightarrow>
              let clk = add64 (g_clock c1) 1 in
              (c1\<lparr>g_clock := clk, g_slots := (g_slots c1)[v := s\<lparr>lba := l, valid := True,
                 last_used := clk, data := bs\<rparr>], g_misses := g_misses c1 + 1\<rparr>, Some bs))"

definition blk_cache_invalidate :: "blk_cache \<Rightarrow> nat \<Rightarrow> blk_cache" where
  "blk_cache_invalidate c l =
     (case find_slot c l of
        None \<Rightarrow> c
      | Some idx \<Rightarrow> c\<lparr>g_slots := (g_slots c)[idx := (g_slots c ! idx)\<lparr>valid := False\<rparr>]\<rparr>)"

definition blk_cache_hits :: "blk_cache \<Rightarrow> nat" where "blk_cache_hits c = g_hits c"
definition blk_cache_misses :: "blk_cache \<Rightarrow> nat" where "blk_cache_misses c = g_misses c"
definition blk_cache_evictions :: "blk_cache \<Rightarrow> nat" where "blk_cache_evictions c = g_evictions c"

section \<open>Invariant\<close>

text \<open>Every valid slot holds the sector of the disk, and no sector is held twice.\<close>

definition blk_ok :: "blk_cache \<Rightarrow> bool" where
  "blk_ok c \<longleftrightarrow> length (g_slots c) = SLOTS \<and> g_clock c < 2 ^ 64 \<and>
     (\<forall>s\<in>set (g_slots c). last_used s < 2 ^ 64 \<and> (valid s \<longrightarrow> data s = sectors (device c) (lba s))) \<and>
     (\<forall>i<SLOTS. \<forall>j<SLOTS. valid (g_slots c ! i) \<and> valid (g_slots c ! j) \<and>
        lba (g_slots c ! i) = lba (g_slots c ! j) \<longrightarrow> i = j)"

lemma blk_okI:
  assumes "blk_ok c" "v < SLOTS" "g_clock c' < 2 ^ 64" "device c' = device c"
    and "g_slots c' = (g_slots c)[v := s]" "last_used s < 2 ^ 64"
    and "valid s \<Longrightarrow> data s = sectors (device c) (lba s)"
    and "\<And>i. i < SLOTS \<Longrightarrow> i \<noteq> v \<Longrightarrow> valid s \<Longrightarrow> valid (g_slots c ! i) \<Longrightarrow> lba (g_slots c ! i) \<noteq> lba s"
  shows "blk_ok c'"
proof -
  have len: "length (g_slots c) = 64" using assms(1) by (simp add: blk_ok_def)
  have mem: "t \<in> set (g_slots c') \<Longrightarrow> t = s \<or> t \<in> set (g_slots c)" for t
    using set_update_subset_insert [of "g_slots c" v s] assms(5) by auto
  have "i = j" if ij: "i < 64" "j < 64" "valid (g_slots c' ! i)" "valid (g_slots c' ! j)"
      "lba (g_slots c' ! i) = lba (g_slots c' ! j)" for i j
    using ij assms(1,2,8) len unfolding assms(5) blk_ok_def
    by (cases "i = v"; cases "j = v") (auto simp: nth_list_update)
  moreover have "last_used t < 2 ^ 64 \<and> (valid t \<longrightarrow> data t = sectors (device c') (lba t))"
    if "t \<in> set (g_slots c')" for t
    using mem [OF that] assms(1,4,6,7) unfolding blk_ok_def by auto
  moreover have "length (g_slots c') = 64" using assms(5) len by simp
  ultimately show ?thesis using assms(3) unfolding blk_ok_def by simp
qed

lemma blk_victim_less: "blk_ok c \<Longrightarrow> pick_victim c < SLOTS"
proof -
  assume ok: "blk_ok c"
  then have "length (g_slots c) = 64" by (simp add: blk_ok_def)
  then have "g_slots c \<noteq> []" by auto
  then show ?thesis
    using lru_victim_spec [of "g_slots c" last_used valid] ok by (auto simp: blk_ok_def pick_victim_def)
qed

lemma blk_find_None:
  "find_slot c l = None \<Longrightarrow> i < length (g_slots c) \<Longrightarrow> valid (g_slots c ! i) \<Longrightarrow> lba (g_slots c ! i) \<noteq> l"
  by (auto simp: find_slot_def first_index_None)

lemma blk_read_ok:
  assumes ok: "blk_ok c"
  shows "blk_ok (fst (blk_cache_read c l)) \<and> device (fst (blk_cache_read c l)) = device c \<and>
    (case snd (blk_cache_read c l) of None \<Rightarrow> l \<in> unreadable (device c) | Some bs \<Rightarrow> bs = sectors (device c) l)"
proof (cases "find_slot c l")
  case (Some i)
  then have i: "i < 64" "valid (g_slots c ! i)" "lba (g_slots c ! i) = l" "g_slots c ! i \<in> set (g_slots c)"
    using ok first_indexD [of _ "g_slots c" i] by (auto simp: find_slot_def blk_ok_def)
  let ?s = "(g_slots c ! i)\<lparr>last_used := add64 (g_clock c) 1\<rparr>"
  have d: "data (g_slots c ! i) = sectors (device c) l" using ok i by (auto simp: blk_ok_def)
  have "blk_ok (fst (blk_cache_read c l))"
    by (rule blk_okI [OF ok i(1), where s = ?s])
      (use Some i d ok in \<open>auto simp: blk_cache_read_def Let_def blk_ok_def\<close>)
  then show ?thesis using Some d by (simp add: blk_cache_read_def Let_def)
next
  case None
  let ?v = "pick_victim c"
  note v = blk_victim_less [OF ok]
  have other: "i < 64 \<Longrightarrow> valid (g_slots c ! i) \<Longrightarrow> lba (g_slots c ! i) \<noteq> l" for i
    using blk_find_None [OF None] ok by (simp add: blk_ok_def)
  have mem: "g_slots c ! ?v \<in> set (g_slots c)" using v ok by (simp add: blk_ok_def)
  have clk: "g_clock c < 2 ^ 64" "last_used (g_slots c ! ?v) < 2 ^ 64" using ok mem by (auto simp: blk_ok_def)
  show ?thesis
  proof (cases "dev_read (device c) l")
    case d: None
    have "blk_ok (fst (blk_cache_read c l))"
      by (rule blk_okI [OF ok v, where s = "(g_slots c ! ?v)\<lparr>valid := False\<rparr>"])
        (use None d clk in \<open>simp_all add: blk_cache_read_def Let_def\<close>)
    then show ?thesis using None d by (auto simp: blk_cache_read_def Let_def dev_read_def split: if_splits)
  next
    case d: (Some bs)
    then have bs: "bs = sectors (device c) l" by (auto simp: dev_read_def split: if_splits)
    have "blk_ok (fst (blk_cache_read c l))"
      by (rule blk_okI [OF ok v, where s = "(g_slots c ! ?v)\<lparr>lba := l, valid := True,
            last_used := add64 (g_clock c) 1, data := bs\<rparr>"])
        (use None d bs other in \<open>simp_all add: blk_cache_read_def Let_def\<close>)
    then show ?thesis using None d bs by (simp add: blk_cache_read_def Let_def)
  qed
qed

lemma blk_invalidate_ok: "blk_ok c \<Longrightarrow> blk_ok (blk_cache_invalidate c l) \<and> device (blk_cache_invalidate c l) = device c"
proof (cases "find_slot c l")
  case None
  then show "blk_ok c \<Longrightarrow> ?thesis" by (simp add: blk_cache_invalidate_def)
next
  case (Some i)
  assume ok: "blk_ok c"
  have i: "i < 64" "g_slots c ! i \<in> set (g_slots c)"
    using Some ok first_indexD [of _ "g_slots c" i] by (auto simp: find_slot_def blk_ok_def)
  then have u: "last_used (g_slots c ! i) < 2 ^ 64" "g_clock c < 2 ^ 64" using ok by (auto simp: blk_ok_def)
  have "blk_ok (blk_cache_invalidate c l)"
    by (rule blk_okI [OF ok i(1), where s = "(g_slots c ! i)\<lparr>valid := False\<rparr>"])
      (use Some u in \<open>simp_all add: blk_cache_invalidate_def\<close>)
  then show ?thesis using Some by (simp add: blk_cache_invalidate_def)
qed

interpretation bc: block_reader blk_ok "\<lambda>_ _. True" "\<lambda>c. sectors (device c)" blk_cache_read
proof
  fix s k q v
  assume ok: "blk_ok s"
  note r = blk_read_ok [OF ok, of k]
  show "blk_ok (fst (blk_cache_read s k)) \<and> (\<lambda>_. True) = (\<lambda>_. True)" using r by simp
  show "sectors (device (fst (blk_cache_read s k))) q = sectors (device s) q" using r by simp
  show "snd (blk_cache_read s k) = Some v \<Longrightarrow> v = sectors (device s) k" using r by simp
qed


section \<open>Properties\<close>

lemma blk_find_iff:
  "find_slot c l \<noteq> None \<longleftrightarrow> (\<exists>i<length (g_slots c). valid (g_slots c ! i) \<and> lba (g_slots c ! i) = l)"
  unfolding find_slot_def first_index_None by (metis in_set_conv_nth)

text \<open>A slot update that keeps the other slots loses at most what the slot held.\<close>

lemma lost_slot:
  assumes "find_slot c q \<noteq> None" "find_slot c' q = None" "g_slots c' = (g_slots c)[v := s]" "length (g_slots c) = 64"
  shows "v < 64 \<and> valid (g_slots c ! v) \<and> lba (g_slots c ! v) = q \<and> \<not> (valid s \<and> lba s = q)"
proof -
  obtain i where i: "i < 64" "valid (g_slots c ! i)" "lba (g_slots c ! i) = q"
    using assms(1,4) unfolding blk_find_iff by auto
  have "\<not> (valid (g_slots c' ! j) \<and> lba (g_slots c' ! j) = q)" if "j < 64" for j
    using assms(2-4) that blk_find_iff [of c' q] by auto
  note none = this
  from none [OF i(1)] have "i = v" using i(2,3) assms(3) by (cases "i = v") simp_all
  then have "\<not> (valid s \<and> lba s = q)"
    using none [OF i(1)] i(1) assms(3,4) by simp
  then show ?thesis using i \<open>i = v\<close> by simp
qed

lemma blk_read_keeps:
  assumes ok: "blk_ok c" and q: "find_slot c q \<noteq> None" "find_slot (fst (blk_cache_read c l)) q = None"
  shows "\<exists>i<64. lba (g_slots c ! i) = q \<and>
    (\<forall>s\<in>set (g_slots c). valid s \<and> last_used (g_slots c ! i) \<le> last_used s)"
proof (cases "find_slot c l")
  case (Some i)
  then have "g_slots (fst (blk_cache_read c l)) =
      (g_slots c)[i := (g_slots c ! i)\<lparr>last_used := add64 (g_clock c) 1\<rparr>]"
    by (simp add: blk_cache_read_def Let_def)
  from lost_slot [OF q this] ok show ?thesis by (auto simp: blk_ok_def)
next
  case None
  let ?v = "pick_victim c"
  have g: "\<exists>s. g_slots (fst (blk_cache_read c l)) = (g_slots c)[?v := s]"
    using None by (auto simp: blk_cache_read_def Let_def split: option.splits)
  then obtain s where "g_slots (fst (blk_cache_read c l)) = (g_slots c)[?v := s]" by blast
  from lost_slot [OF q this] ok have v: "?v < 64" "valid (g_slots c ! ?v)" "lba (g_slots c ! ?v) = q"
    by (auto simp: blk_ok_def)
  have "g_slots c \<noteq> []" using ok by (auto simp: blk_ok_def)
  then have "\<forall>s\<in>set (g_slots c). valid s \<and> last_used (g_slots c ! ?v) \<le> last_used s"
    using lru_victim_spec [of "g_slots c" last_used valid] v(2) ok by (auto simp: blk_ok_def pick_victim_def)
  then show ?thesis using v by blast
qed

text \<open>C19. A read through the cache is a read of the disk: it returns the sector's bytes, or fails
  only when the sector is not cached and cannot be read; the sector is cached afterwards, and the
  only sector that may leave the cache is the least recently used one of a full cache.\<close>

theorem blk_cache_read_correct:
  assumes "blk_ok c" and "blk_cache_read c l = (c', r)"
  shows "blk_ok c' \<and> device c' = device c \<and>
    (case r of None \<Rightarrow> l \<in> unreadable (device c) \<and> find_slot c l = None
     | Some bs \<Rightarrow> bs = sectors (device c) l \<and> find_slot c' l \<noteq> None) \<and>
    (\<forall>q. find_slot c q \<noteq> None \<and> find_slot c' q = None \<longrightarrow>
       (\<exists>i<64. lba (g_slots c ! i) = q \<and>
          (\<forall>s\<in>set (g_slots c). valid s \<and> last_used (g_slots c ! i) \<le> last_used s)))"
proof -
  note r = blk_read_ok [OF assms(1), of l, unfolded assms(2)] and k = blk_read_keeps [OF assms(1), of _ l, unfolded assms(2)]
  have len: "length (g_slots c) = 64" using assms(1) by (simp add: blk_ok_def)
  have hit: "find_slot c' l \<noteq> None" if some: "r \<noteq> None"
  proof (cases "find_slot c l")
    case (Some i)
    then have "g_slots c' = (g_slots c)[i := (g_slots c ! i)\<lparr>last_used := add64 (g_clock c) 1\<rparr>]"
      "i < 64" "valid (g_slots c ! i)" "lba (g_slots c ! i) = l"
      using assms(2) len first_indexD [of _ "g_slots c" i]
      by (auto simp: blk_cache_read_def Let_def find_slot_def)
    then show ?thesis unfolding blk_find_iff using len by (intro exI [of _ i]) simp
  next
    case None
    then obtain bs where "dev_read (device c) l = Some bs"
      using some assms(2) by (cases "dev_read (device c) l") (auto simp: blk_cache_read_def Let_def split: if_splits)
    then have "g_slots c' = (g_slots c)[pick_victim c := (g_slots c ! pick_victim c)\<lparr>lba := l,
        valid := True, last_used := add64 (g_clock c) 1, data := bs\<rparr>]"
      using None assms(2) by (auto simp: blk_cache_read_def Let_def split: if_splits)
    then show ?thesis
      unfolding blk_find_iff using len blk_victim_less [OF assms(1)] by (intro exI [of _ "pick_victim c"]) simp
  qed
  have miss: "find_slot c l = None" if "r = None"
    using that assms(2) by (auto simp: blk_cache_read_def Let_def split: option.splits)
  show ?thesis using r k hit miss by (auto split: option.splits)
qed

definition example_cache :: blk_cache where
  "example_cache = blk_cache_init \<lparr>g_slots = replicate 64 \<lparr>lba = 0, last_used = 0, valid = True, data = []\<rparr>,
     g_clock = 0, g_hits = 0, g_misses = 0, g_evictions = 0,
     device = \<lparr>sectors = (\<lambda>s. replicate 512 (of_nat s)), nwrites = 0, fate = (\<lambda>_. False), unreadable = {9}\<rparr>\<rparr>"

lemma blk_cache_init_ok: "length (g_slots c) = 64 \<Longrightarrow> blk_ok (blk_cache_init c)"
  by (auto simp: blk_ok_def blk_cache_init_def)

lemma blk_cache_read_correct_witness:
  "\<exists>c'. blk_cache_read example_cache 5 = (c', Some (replicate 512 5)) \<and> find_slot c' 5 \<noteq> None"
proof -
  obtain c' r where c: "blk_cache_read example_cache 5 = (c', r)" by (cases "blk_cache_read example_cache 5")
  have ok: "blk_ok example_cache" unfolding example_cache_def by (rule blk_cache_init_ok) simp
  have "device example_cache = \<lparr>sectors = (\<lambda>s. replicate 512 (of_nat s)), nwrites = 0, fate = (\<lambda>_. False), unreadable = {9}\<rparr>"
    by (simp add: example_cache_def blk_cache_init_def)
  then show ?thesis using blk_cache_read_correct [OF ok c] c by (auto split: option.splits)
qed

end
