(* ===== verification/BlockCache.thy ===== *)
theory BlockCache
  imports Contracts Journal Lru
begin

text \<open>
  The write-back cache of OSFS-2, \<open>kernel/core/osfs2_cache.c\<close>: 32 block slots over the journal and
  the disk.  The state is the module's static variables together with the journal module and the
  disk below it.  \<open>cache_view\<close> is the logical store the file system reads and writes: the slot if
  the block is cached, the disk otherwise.
\<close>

record cslot =
  blk :: u32
  valid :: bool
  dirty :: bool
  last_used :: nat
  data :: "byte list"

record bcache =
  g_slots :: "cslot list"
  g_clock :: nat
  g_hits :: nat
  g_misses :: nat
  g_writebacks :: nat
  g_evictions :: nat
  jrnl :: journal
  dsk :: disk

abbreviation (input) SLOTS :: nat where "SLOTS \<equiv> 32"

definition find_slot :: "bcache \<Rightarrow> u32 \<Rightarrow> nat option" where
  "find_slot c b = first_index (\<lambda>s. valid s \<and> blk s = b) (g_slots c)"

definition pick_victim :: "bcache \<Rightarrow> nat" where
  "pick_victim c = lru_victim valid last_used (g_slots c)"

definition flush_slot :: "bcache \<Rightarrow> nat \<Rightarrow> bcache \<times> int" where
  "flush_slot c idx =
     (let s = g_slots c ! idx in
      if \<not> valid s \<or> \<not> dirty s then (c, 0)
      else
        let (j, d, r) = osfs2_journal_commit (jrnl c) (dsk c) [(blk s, data s)];
            c1 = c\<lparr>jrnl := j, dsk := d\<rparr> in
        if r \<noteq> 0 then (c1, -1)
        else (c1\<lparr>g_slots := (g_slots c1)[idx := s\<lparr>dirty := False\<rparr>],
                 g_writebacks := g_writebacks c1 + 1\<rparr>, 0))"

definition osfs2_cache_init :: "bcache \<Rightarrow> bcache" where
  "osfs2_cache_init c =
     c\<lparr>g_slots := map (\<lambda>s. s\<lparr>valid := False, dirty := False, blk := 0, last_used := 0\<rparr>) (g_slots c),
       g_clock := 0, g_hits := 0, g_misses := 0, g_writebacks := 0, g_evictions := 0\<rparr>"

text \<open>The preparation of a victim slot, the same text in the read and the write path; \<open>False\<close> is
  the early \<open>return -1\<close>.\<close>

definition make_room :: "bcache \<Rightarrow> nat \<Rightarrow> bcache \<times> bool" where
  "make_room c v =
     (let s = g_slots c ! v in
      if valid s then
        let (c1, r) = (if dirty s then flush_slot c v else (c, 0)) in
        if r \<noteq> 0 then (c1, False) else (c1\<lparr>g_evictions := g_evictions c1 + 1\<rparr>, True)
      else (c, True))"

text \<open>\<open>None\<close> is the result \<open>-1\<close>; \<open>Some\<close> carries the bytes copied to the caller.\<close>

definition osfs2_cache_read :: "bcache \<Rightarrow> u32 \<Rightarrow> bcache \<times> byte list option" where
  "osfs2_cache_read c b =
     (case find_slot c b of
        Some idx \<Rightarrow>
          let clk = add64 (g_clock c) 1; s = g_slots c ! idx in
          (c\<lparr>g_clock := clk, g_slots := (g_slots c)[idx := s\<lparr>last_used := clk\<rparr>],
             g_hits := g_hits c + 1\<rparr>, Some (data s))
      | None \<Rightarrow>
          let v = pick_victim c; (c1, room) = make_room c v in
          if \<not> room then (c1, None)
          else case raw_read (dsk c1) b of
            None \<Rightarrow> (c1\<lparr>g_slots := (g_slots c1)[v := (g_slots c1 ! v)\<lparr>valid := False\<rparr>]\<rparr>, None)
          | Some bs \<Rightarrow>
              let clk = add64 (g_clock c1) 1 in
              (c1\<lparr>g_clock := clk, g_slots := (g_slots c1)[v := \<lparr>blk = b, valid = True, dirty = False,
                 last_used = clk, data = bs\<rparr>], g_misses := g_misses c1 + 1\<rparr>, Some bs))"

definition osfs2_cache_write :: "bcache \<Rightarrow> u32 \<Rightarrow> byte list \<Rightarrow> bcache \<times> bool" where
  "osfs2_cache_write c b bs =
     (let (c1, idx, room) =
        (case find_slot c b of
           Some idx \<Rightarrow> (c, idx, True)
         | None \<Rightarrow> let v = pick_victim c; (c1, room) = make_room c v in (c1, v, room)) in
      if \<not> room then (c1, False)
      else
        let clk = add64 (g_clock c1) 1 in
        (c1\<lparr>g_clock := clk, g_slots := (g_slots c1)[idx := \<lparr>blk = b, valid = True, dirty = True,
           last_used = clk, data = bs\<rparr>]\<rparr>, True))"

definition dirty_batch :: "bcache \<Rightarrow> batch" where
  "dirty_batch c = map (\<lambda>s. (blk s, data s)) (filter (\<lambda>s. valid s \<and> dirty s) (g_slots c))"

definition osfs2_cache_flush :: "bcache \<Rightarrow> bcache \<times> int" where
  "osfs2_cache_flush c =
     (let batch = dirty_batch c in
      if length batch = 0 then (c, 0)
      else
        let (j, d, r) = osfs2_journal_commit (jrnl c) (dsk c) batch;
            c1 = c\<lparr>jrnl := j, dsk := d\<rparr> in
        if r \<noteq> 0 then (c1, -1)
        else (c1\<lparr>g_slots := map (\<lambda>s. if valid s \<and> dirty s then s\<lparr>dirty := False\<rparr> else s) (g_slots c1),
                 g_writebacks := g_writebacks c1 + length batch\<rparr>, 0))"

definition osfs2_cache_invalidate :: "bcache \<Rightarrow> u32 \<Rightarrow> bcache" where
  "osfs2_cache_invalidate c b =
     (case find_slot c b of
        None \<Rightarrow> c
      | Some idx \<Rightarrow>
          let c1 = (if dirty (g_slots c ! idx) then fst (flush_slot c idx) else c)
          in c1\<lparr>g_slots := (g_slots c1)[idx := (g_slots c1 ! idx)\<lparr>valid := False\<rparr>]\<rparr>)"

definition osfs2_cache_hits :: "bcache \<Rightarrow> nat" where "osfs2_cache_hits c = g_hits c"
definition osfs2_cache_misses :: "bcache \<Rightarrow> nat" where "osfs2_cache_misses c = g_misses c"
definition osfs2_cache_writebacks :: "bcache \<Rightarrow> nat" where "osfs2_cache_writebacks c = g_writebacks c"
definition osfs2_cache_evictions :: "bcache \<Rightarrow> nat" where "osfs2_cache_evictions c = g_evictions c"

definition osfs2_cache_dirty_count :: "bcache \<Rightarrow> nat" where
  "osfs2_cache_dirty_count c = length (filter (\<lambda>s. valid s \<and> dirty s) (g_slots c))"

section \<open>The logical store\<close>

definition cache_view :: "bcache \<Rightarrow> u32 \<Rightarrow> byte list" where
  "cache_view c b =
     (case find_slot c b of Some i \<Rightarrow> data (g_slots c ! i) | None \<Rightarrow> block_at (dsk c) b)"

definition data_block :: "bcache \<Rightarrow> u32 \<Rightarrow> bool" where
  "data_block c b \<longleftrightarrow> b \<notin> journal_blocks (jrnl c)"

definition slot_ok :: "bcache \<Rightarrow> cslot \<Rightarrow> bool" where
  "slot_ok c s \<longleftrightarrow> last_used s < 2 ^ 64 \<and>
     (valid s \<longrightarrow> length (data s) = 4096 \<and> data_block c (blk s) \<and>
        (\<not> dirty s \<longrightarrow> data s = block_at (dsk c) (blk s)))"

definition cache_ok :: "bcache \<Rightarrow> bool" where
  "cache_ok c \<longleftrightarrow> length (g_slots c) = SLOTS \<and> g_clock c < 2 ^ 64 \<and> (\<forall>s\<in>set (g_slots c). slot_ok c s) \<and>
     (\<forall>i<SLOTS. \<forall>k<SLOTS. valid (g_slots c ! i) \<and> valid (g_slots c ! k) \<and>
        blk (g_slots c ! i) = blk (g_slots c ! k) \<longrightarrow> i = k) \<and>
     geometry_ok (jrnl c) \<and> max_blocks (jrnl c) = 32 \<and> disk_ok (dsk c)"

lemma cache_okD:
  assumes "cache_ok c"
  shows "length (g_slots c) = 32" "geometry_ok (jrnl c)" "max_blocks (jrnl c) = 32" "disk_ok (dsk c)"
    "i < 32 \<Longrightarrow> slot_ok c (g_slots c ! i)"
    "i < 32 \<Longrightarrow> k < 32 \<Longrightarrow> valid (g_slots c ! i) \<Longrightarrow> valid (g_slots c ! k) \<Longrightarrow>
       blk (g_slots c ! i) = blk (g_slots c ! k) \<Longrightarrow> i = k"
  using assms by (auto simp: cache_ok_def)

lemma find_slot_Some: "find_slot c b = Some i \<Longrightarrow> i < length (g_slots c) \<and> valid (g_slots c ! i) \<and> blk (g_slots c ! i) = b"
  using first_indexD [of "\<lambda>s. valid s \<and> blk s = b" "g_slots c" i] unfolding find_slot_def by blast

lemma find_slot_None:
  "find_slot c b = None \<longleftrightarrow> (\<forall>i<length (g_slots c). \<not> (valid (g_slots c ! i) \<and> blk (g_slots c ! i) = b))"
  unfolding find_slot_def first_index_None by (metis in_set_conv_nth)

lemma find_slot_unique:
  assumes "cache_ok c" "i < 32" "valid (g_slots c ! i)" "blk (g_slots c ! i) = b"
  shows "find_slot c b = Some i"
proof (cases "find_slot c b")
  case None
  then show ?thesis using assms cache_okD(1) [OF assms(1)] by (simp add: find_slot_None)
next
  case (Some k)
  then show ?thesis using find_slot_Some [OF Some] cache_okD [OF assms(1)] assms(2-4) by auto
qed

lemma view_slot:
  "cache_ok c \<Longrightarrow> i < 32 \<Longrightarrow> valid (g_slots c ! i) \<Longrightarrow> cache_view c (blk (g_slots c ! i)) = data (g_slots c ! i)"
  by (simp add: cache_view_def find_slot_unique)

lemma view_uncached: "find_slot c b = None \<Longrightarrow> cache_view c b = block_at (dsk c) b"
  by (simp add: cache_view_def)

lemma pick_victim_less: "cache_ok c \<Longrightarrow> pick_victim c < 32"
proof -
  assume ok: "cache_ok c"
  then have "length (g_slots c) = 32" by (simp add: cache_ok_def)
  then have "g_slots c \<noteq> []" by auto
  then show ?thesis
    using lru_victim_spec [of "g_slots c" last_used valid] ok by (auto simp: cache_ok_def slot_ok_def pick_victim_def)
qed

lemma cache_okI:
  assumes "length (g_slots c) = 32" "g_clock c < 2 ^ 64" "\<And>i. i < 32 \<Longrightarrow> slot_ok c (g_slots c ! i)"
    and "\<And>i k. i < 32 \<Longrightarrow> k < 32 \<Longrightarrow> valid (g_slots c ! i) \<Longrightarrow> valid (g_slots c ! k) \<Longrightarrow>
       blk (g_slots c ! i) = blk (g_slots c ! k) \<Longrightarrow> i = k"
    and "geometry_ok (jrnl c)" "max_blocks (jrnl c) = 32" "disk_ok (dsk c)"
  shows "cache_ok c"
  using assms by (auto simp: cache_ok_def in_set_conv_nth)

text \<open>Putting a block into a slot that holds nothing that is not on disk.\<close>

lemma put_slot:
  assumes ok: "cache_ok c" and v: "v < 32" and b: "data_block c b" "length bs = 4096" "clk < 2 ^ 64"
    and room: "find_slot c b = None \<and> \<not> (valid (g_slots c ! v) \<and> dirty (g_slots c ! v)) \<or> find_slot c b = Some v"
    and clean: "\<not> dt \<Longrightarrow> bs = block_at (dsk c) b"
    and c': "g_slots c' = (g_slots c)[v := \<lparr>blk = b, valid = True, dirty = dt, last_used = clk, data = bs\<rparr>]"
      "g_clock c' < 2 ^ 64" "jrnl c' = jrnl c" "dsk c' = dsk c"
  shows "cache_ok c' \<and> (\<forall>q. cache_view c' q = (if q = b then bs else cache_view c q))"
proof -
  note d = cache_okD [OF ok]
  have other: "i \<noteq> v \<Longrightarrow> i < 32 \<Longrightarrow> valid (g_slots c ! i) \<Longrightarrow> blk (g_slots c ! i) \<noteq> b" for i
    using room find_slot_None [of c b] find_slot_Some [of c b v] d(1,6) by auto
  have nth: "g_slots c' ! i = (if i = v then \<lparr>blk = b, valid = True, dirty = dt, last_used = clk, data = bs\<rparr>
      else g_slots c ! i)" if "i < 32" for i
    using that v d(1) by (simp add: c')
  have so: "slot_ok c' s = slot_ok c s" for s by (simp add: slot_ok_def data_block_def c')
  have ok': "cache_ok c'"
  proof (rule cache_okI)
    fix i assume "i < (32 :: nat)"
    then show "slot_ok c' (g_slots c' ! i)"
      using d(5) b clean so [of "g_slots c ! i"] nth by (cases "i = v") (auto simp: slot_ok_def data_block_def c')
  next
    fix i k assume "i < (32 :: nat)" "k < (32 :: nat)" "valid (g_slots c' ! i)" "valid (g_slots c' ! k)"
      "blk (g_slots c' ! i) = blk (g_slots c' ! k)"
    then show "i = k" using nth d(6) other by (cases "i = v"; cases "k = v") auto
  qed (use d c' in simp_all)
  moreover have "cache_view c' q = (if q = b then bs else cache_view c q)" for q
  proof (cases "q = b")
    case True
    then show ?thesis using view_slot [OF ok' v] nth [OF v] by simp
  next
    case False
    show ?thesis
    proof (cases "find_slot c q")
      case None
      have "find_slot c' q = None"
        unfolding find_slot_None
      proof (intro allI impI)
        fix k assume "k < length (g_slots c')"
        then have k: "k < 32" by (simp add: c' d)
        then have "\<not> (valid (g_slots c ! k) \<and> blk (g_slots c ! k) = q)"
          using None d(1) unfolding find_slot_None by simp
        then show "\<not> (valid (g_slots c' ! k) \<and> blk (g_slots c' ! k) = q)"
          using nth [OF k] False by simp
      qed
      then show ?thesis using None False by (simp add: view_uncached c')
    next
      case (Some i)
      then have i: "i < 32" "valid (g_slots c ! i)" "blk (g_slots c ! i) = q"
        using find_slot_Some [OF Some] d(1) by auto
      show ?thesis
      proof (cases "i = v")
        case False
        then show ?thesis
          using view_slot [OF ok' i(1)] view_slot [OF ok i(1)] nth [OF i(1)] i \<open>q \<noteq> b\<close> by auto
      next
        case True
        then have "find_slot c b = None" "\<not> dirty (g_slots c ! v)"
          using room i \<open>q \<noteq> b\<close> find_slot_Some [of c b v] by auto
        then have "data (g_slots c ! v) = block_at (dsk c) q"
          using d(5) [OF v] i True by (simp add: slot_ok_def)
        moreover have "find_slot c' q = None"
          unfolding find_slot_None
        proof (intro allI impI)
          fix k assume "k < length (g_slots c')"
          then have k: "k < 32" by (simp add: c' d)
          show "\<not> (valid (g_slots c' ! k) \<and> blk (g_slots c' ! k) = q)"
          proof (cases "k = v")
            case False
            then show ?thesis using nth [OF k] d(6) [OF k i(1)] i True by auto
          qed (use nth [OF k] \<open>q \<noteq> b\<close> in simp)
        qed
        ultimately show ?thesis
          using view_slot [OF ok i(1) i(2)] i True \<open>q \<noteq> b\<close> by (simp add: view_uncached c')
      qed
    qed
  qed
  ultimately show ?thesis by blast
qed


text \<open>Dropping a slot that holds nothing that is not on disk.\<close>

lemma drop_slot:
  assumes ok: "cache_ok c" and v: "v < 32" and clean: "\<not> (valid (g_slots c ! v) \<and> dirty (g_slots c ! v))"
    and c': "g_slots c' = (g_slots c)[v := (g_slots c ! v)\<lparr>valid := False\<rparr>]"
      "g_clock c' = g_clock c" "jrnl c' = jrnl c" "dsk c' = dsk c"
  shows "cache_ok c' \<and> (\<forall>q. cache_view c' q = cache_view c q)"
proof -
  note d = cache_okD [OF ok]
  have nth: "g_slots c' ! i = (if i = v then (g_slots c ! v)\<lparr>valid := False\<rparr> else g_slots c ! i)" if "i < 32" for i
    using that v d(1) by (simp add: c')
  have so: "slot_ok c' s = slot_ok c s" for s by (simp add: slot_ok_def data_block_def c')
  have ok': "cache_ok c'"
  proof (rule cache_okI)
    fix i assume "i < (32 :: nat)"
    then show "slot_ok c' (g_slots c' ! i)"
      using d(5) [of i] so [of "g_slots c ! i"] nth [of i] by (cases "i = v") (simp_all add: slot_ok_def)
  next
    fix i k assume "i < (32 :: nat)" "k < (32 :: nat)" "valid (g_slots c' ! i)" "valid (g_slots c' ! k)"
      "blk (g_slots c' ! i) = blk (g_slots c' ! k)"
    then show "i = k" using nth d(6) by (cases "i = v"; cases "k = v") auto
  qed (use d c' ok in \<open>simp_all add: cache_ok_def\<close>)
  moreover have "cache_view c' q = cache_view c q" for q
  proof (cases "find_slot c' q")
    case (Some i)
    then have "i < 32" "valid (g_slots c' ! i)" "blk (g_slots c' ! i) = q"
      using find_slot_Some [OF Some] d(1) by (auto simp: c')
    then show ?thesis using view_slot [OF ok', of i] view_slot [OF ok, of i] nth [of i] by (cases "i = v") auto
  next
    case None
    then have n: "\<not> (valid (g_slots c' ! k) \<and> blk (g_slots c' ! k) = q)" if "k < 32" for k
      using that d(1) unfolding find_slot_None by (simp add: c')
    show ?thesis
    proof (cases "find_slot c q")
      case (Some i)
      then have i: "i < 32" "valid (g_slots c ! i)" "blk (g_slots c ! i) = q"
        using find_slot_Some [OF Some] d(1) by auto
      then have "i = v" using n [of i] nth [of i] by (cases "i = v") auto
      then have "data (g_slots c ! i) = block_at (dsk c) q"
        using i clean d(5) [of i] by (simp add: slot_ok_def)
      then show ?thesis using view_slot [OF ok i(1,2)] i(3) None by (simp add: view_uncached c')
    qed (use None in \<open>simp add: view_uncached c'\<close>)
  qed
  ultimately show ?thesis by blast
qed

text \<open>
  A commit of (some of) the dirty slots, whether it succeeds or not, changes nothing the file
  system can see: the slots keep their contents, and the disk changes only below dirty slots.
\<close>

lemma commit_keeps:
  assumes ok: "cache_ok c"
    and batch: "batch_ok (jrnl c) batch"
      "\<forall>(b, bs)\<in>set batch. \<exists>i<32. valid (g_slots c ! i) \<and> dirty (g_slots c ! i) \<and> blk (g_slots c ! i) = b"
    and com: "osfs2_journal_commit (jrnl c) (dsk c) batch = (j, d, r)"
    and c': "g_slots c' = g_slots c" "g_clock c' = g_clock c" "jrnl c' = j" "dsk c' = d"
  shows "cache_ok c' \<and> data_block c' = data_block c \<and> (\<forall>q. data_block c q \<longrightarrow> cache_view c' q = cache_view c q)"
proof -
  note k = cache_okD [OF ok]
  note o = commit_outside [OF k(4,2) batch(1), unfolded com prod.case]
  have jb: "journal_blocks j = journal_blocks (jrnl c)" "geometry_ok j" "max_blocks j = 32"
    using o k by (auto simp: same_device_def journal_blocks_def slot_block_def geometry_ok_def)
  have same: "block_at d q = block_at (dsk c) q" if "data_block c q" "q \<notin> fst ` set batch" for q
    using o that by (simp add: data_block_def)
  have dirty: "dirty (g_slots c ! i)"
    if di: "i < 32" "valid (g_slots c ! i)" "blk (g_slots c ! i) \<in> fst ` set batch" for i
  proof -
    obtain i' where "i' < 32" "valid (g_slots c ! i')" "dirty (g_slots c ! i')" "blk (g_slots c ! i') = blk (g_slots c ! i)"
      using batch(2) di(3) by force
    then show ?thesis using k(6) di by metis
  qed
  have so: "slot_ok c' (g_slots c ! i)" if i: "i < 32" for i
    using k(5) [OF i] same [of "blk (g_slots c ! i)"] dirty [OF i] jb
    by (cases "blk (g_slots c ! i) \<in> fst ` set batch") (auto simp: slot_ok_def data_block_def c')
  have ok': "cache_ok c'"
    by (rule cache_okI) (use k so jb o ok in \<open>auto simp: c' cache_ok_def\<close>)
  moreover have "cache_view c' q = cache_view c q" if q: "data_block c q" for q
  proof (cases "find_slot c q")
    case (Some i)
    then show ?thesis using c' by (simp add: cache_view_def find_slot_def)
  next
    case None
    have "q \<notin> fst ` set batch"
      using batch(2) None k(1) unfolding find_slot_None by force
    then have "block_at (dsk c') q = block_at (dsk c) q" using same q by (simp add: c')
    moreover have "find_slot c' q = None" using None by (simp add: find_slot_def c')
    ultimately show ?thesis using None by (simp add: view_uncached)
  qed
  ultimately show ?thesis using jb by (auto simp: data_block_def c' fun_eq_iff)
qed


section \<open>The operations preserve the view\<close>

lemma batch_of_slot:
  assumes ok: "cache_ok c" and i: "i < 32" "valid (g_slots c ! i)"
  shows "batch_ok (jrnl c) [(blk (g_slots c ! i), data (g_slots c ! i))]"
  using cache_okD(3,5) [OF ok] i by (auto simp: batch_ok_def slot_ok_def data_block_def)

lemma flush_slot_ok:
  assumes ok: "cache_ok c" and i: "i < 32"
  shows "cache_ok (fst (flush_slot c i)) \<and> data_block (fst (flush_slot c i)) = data_block c \<and>
    (\<forall>q. data_block c q \<longrightarrow> cache_view (fst (flush_slot c i)) q = cache_view c q) \<and>
    (snd (flush_slot c i) = 0 \<longrightarrow> \<not> (valid (g_slots (fst (flush_slot c i)) ! i) \<and> dirty (g_slots (fst (flush_slot c i)) ! i))) \<and>
    (\<forall>q. find_slot (fst (flush_slot c i)) q = find_slot c q)"
proof (cases "valid (g_slots c ! i) \<and> dirty (g_slots c ! i)")
  case False
  then show ?thesis using ok by (auto simp: flush_slot_def Let_def)
next
  case True
  let ?s = "g_slots c ! i" and ?b = "blk (g_slots c ! i)"
  obtain j d r where com: "osfs2_journal_commit (jrnl c) (dsk c) [(?b, data ?s)] = (j, d, r)"
    by (metis prod_cases3)
  let ?c1 = "c\<lparr>jrnl := j, dsk := d\<rparr>"
  have bt: "batch_ok (jrnl c) [(?b, data ?s)]" using batch_of_slot [OF ok i] True by simp
  note k1 = commit_keeps [OF ok bt _ com, of ?c1]
  have c1: "cache_ok ?c1" "data_block ?c1 = data_block c" "\<And>q. data_block c q \<Longrightarrow> cache_view ?c1 q = cache_view c q"
    using k1 True i by auto
  show ?thesis
  proof (cases "r = 0")
    case False
    then show ?thesis using c1 True com by (simp add: flush_slot_def Let_def find_slot_def)
  next
    case r: True
    let ?c2 = "?c1\<lparr>g_slots := (g_slots c)[i := ?s\<lparr>dirty := False\<rparr>], g_writebacks := g_writebacks c + 1\<rparr>"
    have f: "flush_slot c i = (?c2, 0)" using True com r by (simp add: flush_slot_def Let_def)
    have b: "data_block c ?b" "length (data ?s) = 4096" "last_used ?s < 2 ^ 64"
      using cache_okD(5) [OF ok i] True by (auto simp: slot_ok_def)
    have "block_at d ?b = data ?s"
      using commit_outside [OF cache_okD(4,2) [OF ok] bt] com r b(1) by (simp add: data_block_def)
    then have disk: "data ?s = block_at (dsk ?c1) ?b" by simp
    have f1: "find_slot ?c1 ?b = Some i" using find_slot_unique [OF ok i] True by (simp add: find_slot_def)
    have s: "?s\<lparr>dirty := False\<rparr> = \<lparr>blk = ?b, valid = True, dirty = False, last_used = last_used ?s, data = data ?s\<rparr>"
      by (rule cslot.equality) (use True in simp_all)
    have clk: "g_clock c < 2 ^ 64" using ok by (simp add: cache_ok_def)
    have p: "cache_ok ?c2 \<and> (\<forall>q. cache_view ?c2 q = (if q = ?b then data ?s else cache_view ?c1 q))"
      by (rule put_slot [OF c1(1) i, where clk = "last_used ?s" and dt = False])
        (use b c1(2) f1 disk s clk in simp_all)
    have "cache_view c ?b = data ?s" using view_slot [OF ok i] True by simp
    moreover have "find_slot ?c2 q = find_slot c q" for q
      unfolding find_slot_def by (rule first_index_cong) (use i True cache_okD(1) [OF ok] in \<open>auto simp: nth_list_update\<close>)
    moreover have "data_block ?c2 = data_block c" using c1(2) by (simp add: data_block_def fun_eq_iff)
    ultimately show ?thesis
      using p c1(3) i cache_okD(1) [OF ok] unfolding f by simp
  qed
qed

lemma make_room_ok:
  assumes ok: "cache_ok c" and v: "v < 32"
  shows "cache_ok (fst (make_room c v)) \<and> data_block (fst (make_room c v)) = data_block c \<and>
    (\<forall>q. data_block c q \<longrightarrow> cache_view (fst (make_room c v)) q = cache_view c q) \<and>
    (snd (make_room c v) \<longrightarrow> \<not> (valid (g_slots (fst (make_room c v)) ! v) \<and> dirty (g_slots (fst (make_room c v)) ! v))) \<and>
    (\<forall>q. find_slot (fst (make_room c v)) q = find_slot c q)"
proof -
  have e: "cache_ok (x\<lparr>g_evictions := n\<rparr>) = cache_ok x" "cache_view (x\<lparr>g_evictions := n\<rparr>) = cache_view x"
    "data_block (x\<lparr>g_evictions := n\<rparr>) = data_block x" "find_slot (x\<lparr>g_evictions := n\<rparr>) = find_slot x" for x n
    by (auto simp: cache_ok_def slot_ok_def data_block_def cache_view_def find_slot_def fun_eq_iff
        split: option.split)
  show ?thesis
    using flush_slot_ok [OF ok v] ok
    by (auto simp: make_room_def Let_def case_prod_beta e)
qed

lemma cache_read_ok:
  assumes ok: "cache_ok c" and b: "data_block c b"
  shows "cache_ok (fst (osfs2_cache_read c b)) \<and> data_block (fst (osfs2_cache_read c b)) = data_block c \<and>
    (\<forall>q. data_block c q \<longrightarrow> cache_view (fst (osfs2_cache_read c b)) q = cache_view c q) \<and>
    (\<forall>bs. snd (osfs2_cache_read c b) = Some bs \<longrightarrow> bs = cache_view c b)"
proof (cases "find_slot c b")
  case (Some i)
  let ?s = "g_slots c ! i" and ?clk = "add64 (g_clock c) 1"
  have i: "i < 32" "valid ?s" "blk ?s = b" using find_slot_Some [OF Some] cache_okD(1) [OF ok] by auto
  let ?c = "c\<lparr>g_clock := ?clk, g_slots := (g_slots c)[i := ?s\<lparr>last_used := ?clk\<rparr>], g_hits := g_hits c + 1\<rparr>"
  have r: "osfs2_cache_read c b = (?c, Some (data ?s))" using Some by (simp add: osfs2_cache_read_def Let_def)
  have s: "?s\<lparr>last_used := ?clk\<rparr> = \<lparr>blk = b, valid = True, dirty = dirty ?s, last_used = ?clk, data = data ?s\<rparr>"
    by (rule cslot.equality) (use i in simp_all)
  have so: "length (data ?s) = 4096" "\<not> dirty ?s \<longrightarrow> data ?s = block_at (dsk c) b"
    using cache_okD(5) [OF ok i(1)] i by (auto simp: slot_ok_def)
  have "cache_ok ?c \<and> (\<forall>q. cache_view ?c q = (if q = b then data ?s else cache_view c q))"
    by (rule put_slot [OF ok i(1) b, where clk = ?clk and dt = "dirty ?s"]) (use so Some s in simp_all)
  moreover have "data_block ?c = data_block c" by (simp add: data_block_def fun_eq_iff)
  ultimately show ?thesis using r view_slot [OF ok i(1,2)] i by simp
next
  case None
  let ?v = "pick_victim c"
  note v = pick_victim_less [OF ok] and m = make_room_ok [OF ok pick_victim_less [OF ok]]
  obtain c1 room where c1: "make_room c ?v = (c1, room)" by (cases "make_room c ?v")
  have m1: "cache_ok c1" "data_block c1 = data_block c" "\<And>q. data_block c q \<Longrightarrow> cache_view c1 q = cache_view c q"
    "room \<Longrightarrow> \<not> (valid (g_slots c1 ! ?v) \<and> dirty (g_slots c1 ! ?v))" "find_slot c1 b = None"
    using m c1 None by auto
  show ?thesis
  proof (cases room)
    case False
    then show ?thesis using m1 c1 None by (simp add: osfs2_cache_read_def Let_def)
  next
    case room: True
    show ?thesis
    proof (cases "raw_read (dsk c1) b")
      case d: None
      let ?c = "c1\<lparr>g_slots := (g_slots c1)[?v := (g_slots c1 ! ?v)\<lparr>valid := False\<rparr>]\<rparr>"
      have "cache_ok ?c \<and> (\<forall>q. cache_view ?c q = cache_view c1 q)"
        by (rule drop_slot [OF m1(1) v m1(4) [OF room]]) simp_all
      moreover have "osfs2_cache_read c b = (?c, None)"
        using None c1 room d by (simp add: osfs2_cache_read_def Let_def)
      moreover have "data_block ?c = data_block c" using m1(2) by (simp add: data_block_def fun_eq_iff)
      ultimately show ?thesis using m1(3) by simp
    next
      case d: (Some bs)
      let ?clk = "add64 (g_clock c1) 1"
      let ?c = "c1\<lparr>g_clock := ?clk, g_slots := (g_slots c1)[?v := \<lparr>blk = b, valid = True, dirty = False,
         last_used = ?clk, data = bs\<rparr>], g_misses := g_misses c1 + 1\<rparr>"
      have bs: "bs = block_at (dsk c1) b" using raw_read_Some [OF d] .
      have "cache_ok ?c \<and> (\<forall>q. cache_view ?c q = (if q = b then bs else cache_view c1 q))"
        using m1 room bs b cache_okD(4) [OF m1(1)]
        by (intro put_slot [OF m1(1) v, where clk = ?clk and dt = False]) auto
      moreover have "osfs2_cache_read c b = (?c, Some bs)"
        using None c1 room d by (simp add: osfs2_cache_read_def Let_def)
      moreover have "cache_view c1 b = bs" using m1(5) bs by (simp add: view_uncached)
      moreover have "data_block ?c = data_block c" using m1(2) by (simp add: data_block_def fun_eq_iff)
      ultimately show ?thesis using m1(3) b by simp
    qed
  qed
qed

lemma cache_write_ok:
  assumes ok: "cache_ok c" and b: "data_block c b" "length bs = 4096"
  shows "cache_ok (fst (osfs2_cache_write c b bs)) \<and> data_block (fst (osfs2_cache_write c b bs)) = data_block c \<and>
    (\<forall>q. data_block c q \<longrightarrow> cache_view (fst (osfs2_cache_write c b bs)) q =
       (if snd (osfs2_cache_write c b bs) \<and> q = b then bs else cache_view c q))"
proof -
  have put: "cache_ok c2 \<and> (\<forall>q. cache_view c2 q = (if q = b then bs else cache_view c1 q)) \<and> data_block c2 = data_block c1"
    if "cache_ok c1" "data_block c1 b" "v < 32"
      "find_slot c1 b = None \<and> \<not> (valid (g_slots c1 ! v) \<and> dirty (g_slots c1 ! v)) \<or> find_slot c1 b = Some v"
      "c2 = c1\<lparr>g_clock := add64 (g_clock c1) 1, g_slots := (g_slots c1)[v := \<lparr>blk = b, valid = True, dirty = True,
         last_used = add64 (g_clock c1) 1, data = bs\<rparr>]\<rparr>" for c1 c2 v
    using put_slot [OF that(1,3,2) b(2) _ that(4), where clk = "add64 (g_clock c1) 1" and dt = True and c' = c2] that(5)
    by (simp add: data_block_def fun_eq_iff)
  show ?thesis
  proof (cases "find_slot c b")
    case (Some i)
    then have "i < 32" using find_slot_Some [OF Some] cache_okD(1) [OF ok] by auto
    from put [OF ok b(1) this _ refl] Some show ?thesis
      by (simp add: osfs2_cache_write_def Let_def)
  next
    case None
    let ?v = "pick_victim c"
    note v = pick_victim_less [OF ok] and m = make_room_ok [OF ok pick_victim_less [OF ok]]
    obtain c1 room where c1: "make_room c ?v = (c1, room)" by (cases "make_room c ?v")
    have m1: "cache_ok c1" "data_block c1 = data_block c" "\<And>q. data_block c q \<Longrightarrow> cache_view c1 q = cache_view c q"
      "room \<Longrightarrow> \<not> (valid (g_slots c1 ! ?v) \<and> dirty (g_slots c1 ! ?v))" "find_slot c1 b = None"
      using m c1 None by auto
    show ?thesis
    proof (cases room)
      case False
      then show ?thesis using m1 c1 None by (simp add: osfs2_cache_write_def Let_def)
    next
      case True
      then show ?thesis
        using put [OF m1(1) _ v _ refl] m1 c1 None b(1) by (simp add: osfs2_cache_write_def Let_def)
    qed
  qed
qed

interpretation cs: block_store cache_ok data_block cache_view osfs2_cache_read "\<lambda>bs. length bs = 4096" osfs2_cache_write
proof
  fix c b q and v bs :: "byte list"
  assume c: "cache_ok c" "data_block c b"
  note r = cache_read_ok [OF c]
  show "cache_ok (fst (osfs2_cache_read c b)) \<and> data_block (fst (osfs2_cache_read c b)) = data_block c"
    using r by simp
  show "data_block c q \<Longrightarrow> cache_view (fst (osfs2_cache_read c b)) q = cache_view c q" using r by simp
  show "snd (osfs2_cache_read c b) = Some v \<Longrightarrow> v = cache_view c b" using r by simp
  assume l: "length bs = 4096"
  note w = cache_write_ok [OF c l]
  show "cache_ok (fst (osfs2_cache_write c b bs)) \<and> data_block (fst (osfs2_cache_write c b bs)) = data_block c"
    using w by simp
  show "data_block c q \<Longrightarrow> cache_view (fst (osfs2_cache_write c b bs)) q =
      (if snd (osfs2_cache_write c b bs) \<and> q = b then bs else cache_view c q)" using w by simp
qed


section \<open>Flushing\<close>

lemma distinct_filter_map:
  "(\<And>i k. i < length xs \<Longrightarrow> k < length xs \<Longrightarrow> P (xs ! i) \<Longrightarrow> P (xs ! k) \<Longrightarrow> f (xs ! i) = f (xs ! k) \<Longrightarrow> i = k) \<Longrightarrow>
   distinct (map f (filter P xs))"
proof (induction xs)
  case Nil
  then show ?case by simp
next
  case (Cons x xs)
  have "distinct (map f (filter P xs))"
  proof (rule Cons.IH)
    fix i k assume "i < length xs" "k < length xs" "P (xs ! i)" "P (xs ! k)" "f (xs ! i) = f (xs ! k)"
    then show "i = k" using Cons.prems [of "Suc i" "Suc k"] by simp
  qed
  moreover have "f y \<noteq> f x" if y: "P x" "y \<in> set xs" "P y" for y
  proof -
    obtain k where "k < length xs" "y = xs ! k" using y(2) by (auto simp: in_set_conv_nth)
    then show ?thesis using Cons.prems [of 0 "Suc k"] y by auto
  qed
  ultimately show ?case by fastforce
qed

lemma dirty_batch_distinct: "cache_ok c \<Longrightarrow> distinct (map fst (dirty_batch c))"
proof -
  assume ok: "cache_ok c"
  have "distinct (map blk (filter (\<lambda>s. valid s \<and> dirty s) (g_slots c)))"
    by (rule distinct_filter_map) (use cache_okD(1,6) [OF ok] in auto)
  then show ?thesis by (simp add: dirty_batch_def comp_def)
qed

lemma dirty_batch_mem:
  "cache_ok c \<Longrightarrow> (b, bs) \<in> set (dirty_batch c) \<longleftrightarrow>
   (\<exists>i<32. valid (g_slots c ! i) \<and> dirty (g_slots c ! i) \<and> blk (g_slots c ! i) = b \<and> data (g_slots c ! i) = bs)"
proof -
  assume ok: "cache_ok c"
  have "(b, bs) \<in> set (dirty_batch c) \<longleftrightarrow> (\<exists>s\<in>set (g_slots c). valid s \<and> dirty s \<and> blk s = b \<and> data s = bs)"
    by (auto simp: dirty_batch_def)
  then show ?thesis by (simp add: bex_nth cache_okD(1) [OF ok])
qed

lemma dirty_batch_ok: "cache_ok c \<Longrightarrow> dirty_batch c \<noteq> [] \<Longrightarrow> batch_ok (jrnl c) (dirty_batch c)"
proof -
  assume ok: "cache_ok c" and ne: "dirty_batch c \<noteq> []"
  have "length (dirty_batch c) \<le> length (g_slots c)" by (simp add: dirty_batch_def)
  moreover have "length bs = 4096 \<and> b \<notin> journal_blocks (jrnl c)" if mem: "(b, bs) \<in> set (dirty_batch c)" for b bs
  proof -
    obtain i where "i < 32" "valid (g_slots c ! i)" "blk (g_slots c ! i) = b" "data (g_slots c ! i) = bs"
      using mem dirty_batch_mem [OF ok] by blast
    then show ?thesis using cache_okD(5) [OF ok, of i] by (auto simp: slot_ok_def data_block_def)
  qed
  ultimately show ?thesis using ne cache_okD(1,3) [OF ok] by (fastforce simp: batch_ok_def)
qed

text \<open>The dirty slots applied to the disk are what the file system sees.\<close>

lemma apply_dirty_batch:
  assumes ok: "cache_ok c"
  shows "apply_batch (dirty_batch c) (block_at (dsk c)) b = cache_view c b"
proof (cases "\<exists>bs. (b, bs) \<in> set (dirty_batch c)")
  case True
  then obtain n bs where n: "n < length (dirty_batch c)" "dirty_batch c ! n = (b, bs)"
    by (auto simp: in_set_conv_nth)
  then have "apply_batch (dirty_batch c) (block_at (dsk c)) b = bs"
    using apply_batch_distinct [OF dirty_batch_distinct [OF ok] n(1)] by simp
  moreover obtain i where "i < 32" "valid (g_slots c ! i)" "blk (g_slots c ! i) = b" "data (g_slots c ! i) = bs"
    using dirty_batch_mem [OF ok] n nth_mem by metis
  ultimately show ?thesis using view_slot [OF ok] by auto
next
  case False
  then have "b \<notin> fst ` set (dirty_batch c)" by force
  then have a: "apply_batch (dirty_batch c) (block_at (dsk c)) b = block_at (dsk c) b"
    by (rule apply_batch_other)
  show ?thesis
  proof (cases "find_slot c b")
    case None
    then show ?thesis using a by (simp add: view_uncached)
  next
    case (Some i)
    then have i: "i < 32" "valid (g_slots c ! i)" "blk (g_slots c ! i) = b"
      using find_slot_Some [OF Some] cache_okD(1) [OF ok] by auto
    then have "\<not> dirty (g_slots c ! i)" using False dirty_batch_mem [OF ok] by blast
    then show ?thesis using a i cache_okD(5) [OF ok i(1)] view_slot [OF ok i(1,2)] by (simp add: slot_ok_def)
  qed
qed

text \<open>Marking the dirty slots clean once the disk has their contents.\<close>

lemma mark_clean:
  assumes ok: "cache_ok c"
    and disk: "\<And>i. i < 32 \<Longrightarrow> valid (g_slots c ! i) \<Longrightarrow> dirty (g_slots c ! i) \<Longrightarrow>
      data (g_slots c ! i) = block_at (dsk c) (blk (g_slots c ! i))"
    and c': "g_slots c' = map (\<lambda>s. if valid s \<and> dirty s then s\<lparr>dirty := False\<rparr> else s) (g_slots c)"
      "g_clock c' = g_clock c" "jrnl c' = jrnl c" "dsk c' = dsk c"
  shows "cache_ok c' \<and> data_block c' = data_block c \<and> (\<forall>q. cache_view c' q = cache_view c q) \<and>
    osfs2_cache_dirty_count c' = 0"
proof -
  note d = cache_okD [OF ok]
  have nth: "valid (g_slots c' ! i) = valid (g_slots c ! i)" "blk (g_slots c' ! i) = blk (g_slots c ! i)"
    "data (g_slots c' ! i) = data (g_slots c ! i)" "last_used (g_slots c' ! i) = last_used (g_slots c ! i)"
    if "i < 32" for i using that d(1) by (simp_all add: c')
  have so: "slot_ok c' (g_slots c' ! i)" if i: "i < 32" for i
    using d(5) [OF i] disk [OF i] nth [OF i] by (auto simp: slot_ok_def data_block_def c')
  have ok': "cache_ok c'"
  proof (rule cache_okI)
    fix i k assume "i < (32 :: nat)" "k < (32 :: nat)" "valid (g_slots c' ! i)" "valid (g_slots c' ! k)"
      "blk (g_slots c' ! i) = blk (g_slots c' ! k)"
    then show "i = k" using nth d(6) by metis
  qed (use d so c' ok in \<open>simp_all add: cache_ok_def\<close>)
  moreover have fs: "find_slot c' q = find_slot c q" for q
    unfolding find_slot_def by (rule first_index_cong) (use d(1) nth c' in auto)
  have "cache_view c' q = cache_view c q" for q
  proof (cases "find_slot c q")
    case None
    then show ?thesis using fs [of q] by (simp add: view_uncached c')
  next
    case (Some i)
    then show ?thesis using fs [of q] find_slot_Some [OF Some] d(1) nth [of i] by (simp add: cache_view_def)
  qed
  moreover have "osfs2_cache_dirty_count c' = 0" by (auto simp: osfs2_cache_dirty_count_def c')
  ultimately show ?thesis by (auto simp: data_block_def c' fun_eq_iff)
qed

lemma cache_flush_ok:
  assumes ok: "cache_ok c" and f: "osfs2_cache_flush c = (c', r)"
  shows "cache_ok c' \<and> data_block c' = data_block c \<and> (\<forall>q. data_block c q \<longrightarrow> cache_view c' q = cache_view c q) \<and>
    (r = 0 \<longrightarrow> osfs2_cache_dirty_count c' = 0 \<and>
       (\<forall>b. data_block c b \<longrightarrow> block_at (dsk c') b = cache_view c b))"
proof (cases "dirty_batch c = []")
  case True
  then have "c' = c" "osfs2_cache_dirty_count c = 0" "\<And>b. block_at (dsk c) b = cache_view c b"
    using f apply_dirty_batch [OF ok] by (auto simp: osfs2_cache_flush_def dirty_batch_def osfs2_cache_dirty_count_def)
  then show ?thesis using ok by simp
next
  case False
  obtain j d s where com: "osfs2_journal_commit (jrnl c) (dsk c) (dirty_batch c) = (j, d, s)" by (metis prod_cases3)
  let ?c1 = "c\<lparr>jrnl := j, dsk := d\<rparr>"
  note bt = dirty_batch_ok [OF ok False]
  have "\<forall>(b, bs)\<in>set (dirty_batch c). \<exists>i<32. valid (g_slots c ! i) \<and> dirty (g_slots c ! i) \<and> blk (g_slots c ! i) = b"
    using dirty_batch_mem [OF ok] by fastforce
  from commit_keeps [OF ok bt this com, of ?c1]
  have c1: "cache_ok ?c1" "data_block ?c1 = data_block c" "\<And>q. data_block c q \<Longrightarrow> cache_view ?c1 q = cache_view c q"
    by auto
  show ?thesis
  proof (cases "s = 0")
    case False
    then show ?thesis using f com c1 \<open>dirty_batch c \<noteq> []\<close> by (auto simp: osfs2_cache_flush_def Let_def)
  next
    case s: True
    then have c': "c' = ?c1\<lparr>g_slots := map (\<lambda>s. if valid s \<and> dirty s then s\<lparr>dirty := False\<rparr> else s) (g_slots c),
        g_writebacks := g_writebacks c + length (dirty_batch c)\<rparr>" "r = 0"
      using f com \<open>dirty_batch c \<noteq> []\<close> by (auto simp: osfs2_cache_flush_def Let_def)
    have disk: "block_at d b = cache_view c b" if "data_block c b" for b
      using commit_outside [OF cache_okD(4,2) [OF ok] bt] com s that apply_dirty_batch [OF ok]
      by (simp add: data_block_def)
    have "data (g_slots ?c1 ! i) = block_at (dsk ?c1) (blk (g_slots ?c1 ! i))"
      if i: "i < 32" "valid (g_slots ?c1 ! i)" for i
      using disk [of "blk (g_slots c ! i)"] view_slot [OF ok i(1)] cache_okD(5) [OF ok i(1)] i(2)
      by (simp add: slot_ok_def)
    from mark_clean [OF c1(1) this, of c'] c1(2,3) disk show ?thesis by (auto simp: c')
  qed
qed

lemma flush_commit:
  "osfs2_cache_flush c = (c', r) \<Longrightarrow> dirty_batch c \<noteq> [] \<Longrightarrow>
   \<exists>j s. osfs2_journal_commit (jrnl c) (dsk c) (dirty_batch c) = (j, dsk c', s)"
  by (cases "osfs2_journal_commit (jrnl c) (dsk c) (dirty_batch c)")
    (auto simp: osfs2_cache_flush_def Let_def split: if_splits)

section \<open>Properties\<close>

text \<open>C20. The cache is invisible: reads and writes act on the logical store, whatever is cached,
  evicted or written back, and whichever disk requests fail; a read that succeeds returns the block,
  a write that succeeds changes that block only, and a failed call changes nothing.\<close>

theorem cache_is_store:
  assumes "cache_ok c" and "data_block c b" and "length bs = 4096"
  shows "cache_ok (fst (osfs2_cache_read c b)) \<and> cache_ok (fst (osfs2_cache_write c b bs)) \<and>
    (snd (osfs2_cache_read c b) = None \<or> snd (osfs2_cache_read c b) = Some (cache_view c b)) \<and>
    (\<forall>q. data_block c q \<longrightarrow> cache_view (fst (osfs2_cache_read c b)) q = cache_view c q \<and>
       cache_view (fst (osfs2_cache_write c b bs)) q =
         (if snd (osfs2_cache_write c b bs) \<and> q = b then bs else cache_view c q))"
  using cs.read_ok [OF assms(1,2)] cs.read_view [OF assms(1,2)] cs.read_value [OF assms(1,2)]
    cs.write_ok [OF assms] cs.write_view [OF assms]
  by (cases "snd (osfs2_cache_read c b)") auto

text \<open>C21. A successful flush makes the disk equal to what the file system sees and leaves no dirty
  slot; a flush that fails loses nothing.\<close>

theorem cache_flush_durable:
  assumes "cache_ok c" and "osfs2_cache_flush c = (c', r)"
  shows "cache_ok c' \<and> (\<forall>q. data_block c q \<longrightarrow> cache_view c' q = cache_view c q) \<and>
    (r = 0 \<longrightarrow> osfs2_cache_dirty_count c' = 0 \<and>
       (\<forall>b. data_block c b \<longrightarrow> block_at (dsk c') b = cache_view c b))"
  using cache_flush_ok [OF assms] by blast

text \<open>C22. From a journal without a committed header a flush is atomic under power loss: after the crash and a successful recovery the disk is
  either as before the flush or exactly what the file system saw, for all blocks at once.\<close>

theorem cache_flush_crash_atomic:
  assumes "cache_ok c" and "settled (jrnl c) (dsk c) (block_at (dsk c))" and "readable (jrnl c) (dsk c)"
    and "osfs2_cache_flush c = (c', r)" and "recoveries (jrnl c) (dsk c') d2"
    and "osfs2_journal_replay (reinit (jrnl c)) (d2\<lparr>fate := f\<rparr>) = (j3, d3, 0)"
  shows "(\<forall>b. data_block c b \<longrightarrow> block_at d3 b = block_at (dsk c) b) \<or>
    (\<forall>b. data_block c b \<longrightarrow> block_at d3 b = cache_view c b)"
proof (cases "dirty_batch c = []")
  case True
  then have "c' = c" using assms(4) by (simp add: osfs2_cache_flush_def)
  then have "settled (jrnl c) d3 (block_at (dsk c))"
    using recovered(1) [OF assms(5) _ cache_okD(2) [OF assms(1)] assms(6)] assms(2,3) by simp
  then show ?thesis by (simp add: settled_def data_block_def)
next
  case False
  then obtain j s where "osfs2_journal_commit (jrnl c) (dsk c) (dirty_batch c) = (j, dsk c', s)"
    using flush_commit [OF assms(4)] by blast
  from commit_crash [OF assms(2) dirty_batch_ok [OF assms(1) False] cache_okD(2) [OF assms(1)] assms(3) this assms(5,6)]
  show ?thesis using apply_dirty_batch [OF assms(1)] by (auto simp: data_block_def)
qed


section \<open>Instances\<close>

definition example_bcache :: "nat \<Rightarrow> bcache" where
  "example_bcache k = osfs2_cache_init
     \<lparr>g_slots = replicate 32 \<lparr>blk = 0, valid = False, dirty = False, last_used = 0, data = []\<rparr>,
      g_clock = 0, g_hits = 0, g_misses = 0, g_writebacks = 0, g_evictions = 0,
      jrnl = example_journal, dsk = example_disk k\<rparr>"

lemma cache_init_ok:
  "length (g_slots c) = 32 \<Longrightarrow> geometry_ok (jrnl c) \<Longrightarrow> max_blocks (jrnl c) = 32 \<Longrightarrow> disk_ok (dsk c) \<Longrightarrow>
   cache_ok (osfs2_cache_init c)"
  by (rule cache_okI) (auto simp: osfs2_cache_init_def slot_ok_def)

lemma example_bcache_ok [simp]:
  "cache_ok (example_bcache k)" "data_block (example_bcache k) 200" "dsk (example_bcache k) = example_disk k"
  "jrnl (example_bcache k) = example_journal"
proof -
  show "cache_ok (example_bcache k)"
    unfolding example_bcache_def
    by (rule cache_init_ok) (simp_all, simp add: example_journal_def osfs2_journal_init_def)
qed (simp_all add: example_bcache_def osfs2_cache_init_def data_block_def)

definition example_dirty :: "nat \<Rightarrow> bcache" where
  "example_dirty k = fst (osfs2_cache_write (example_bcache k) 200 (replicate 4096 7))"

lemma example_write_done:
  "snd (osfs2_cache_write (example_bcache k) 200 (replicate 4096 7))"
  "dsk (example_dirty k) = example_disk k" "jrnl (example_dirty k) = example_journal"
proof -
  let ?c = "example_bcache k"
  have inv: "\<not> valid (g_slots ?c ! i)" if "i < 32" for i
    using that by (simp add: example_bcache_def osfs2_cache_init_def)
  then have "find_slot ?c 200 = None"
    using cache_okD(1) [of ?c] by (simp add: find_slot_None)
  moreover have "make_room ?c (pick_victim ?c) = (?c, True)"
    using inv [OF pick_victim_less] by (simp add: make_room_def)
  ultimately have w: "\<exists>c1. osfs2_cache_write ?c 200 (replicate 4096 7) = (c1, True) \<and> dsk c1 = dsk ?c \<and> jrnl c1 = jrnl ?c"
    by (simp add: osfs2_cache_write_def Let_def)
  then show "snd (osfs2_cache_write ?c 200 (replicate 4096 7))"
    "dsk (example_dirty k) = example_disk k" "jrnl (example_dirty k) = example_journal"
    by (auto simp: example_dirty_def)
qed

lemma cache_is_store_witness:
  "cache_ok (example_dirty 20) \<and> cache_view (example_dirty 20) 200 = replicate 4096 7"
proof -
  have l: "length (replicate 4096 7 :: byte list) = 4096" by simp
  show ?thesis
    using cache_is_store [OF example_bcache_ok(1,2) l, of 20] example_write_done(1) [of 20]
    by (simp add: example_dirty_def)
qed

lemma example_dirty_ok:
  "cache_ok (example_dirty k)" "data_block (example_dirty k) 200" "cache_view (example_dirty k) 200 = replicate 4096 7"
proof -
  have l: "length (replicate 4096 7 :: byte list) = 4096" by simp
  note w = cache_write_ok [OF example_bcache_ok(1,2) l, of k]
  show "cache_ok (example_dirty k)" "data_block (example_dirty k) 200"
    "cache_view (example_dirty k) 200 = replicate 4096 7"
    using w example_write_done(1) [of k] by (simp_all add: example_dirty_def)
qed

lemma cache_flush_durable_witness:
  "\<exists>c' r. osfs2_cache_flush (example_dirty 20) = (c', r) \<and> cache_view c' 200 = replicate 4096 7"
proof -
  obtain c' r where f: "osfs2_cache_flush (example_dirty 20) = (c', r)" by (cases "osfs2_cache_flush (example_dirty 20)")
  from cache_flush_durable [OF example_dirty_ok(1) f] show ?thesis using f example_dirty_ok [of 20] by auto
qed

lemma cache_flush_crash_atomic_witness:
  "\<exists>c' r j3 d3. osfs2_cache_flush (example_dirty 20) = (c', r) \<and>
     osfs2_journal_replay example_journal (dsk c'\<lparr>fate := \<lambda>_. False\<rparr>) = (j3, d3, 0) \<and>
     block_at d3 200 \<in> {block_at (example_disk 20) 200, replicate 4096 7}"
proof -
  let ?c = "example_dirty 20"
  note c = example_dirty_ok [of 20] and d = example_write_done(2,3) [of 20]
  obtain c' r where f: "osfs2_cache_flush ?c = (c', r)" by (cases "osfs2_cache_flush ?c")
  have s: "settled (jrnl ?c) (dsk ?c) (block_at (dsk ?c))" "readable (jrnl ?c) (dsk ?c)" by (simp_all add: d)
  have "block_at (example_disk 20) 200 = replicate 4096 0"
    by (simp add: block_at_def example_disk_def map_replicate_const concat_replicate_replicate)
  then have "block_at (dsk ?c) 200 \<noteq> cache_view ?c 200"
    using c(3) d(1) by (auto dest!: arg_cong [of _ _ hd])
  then have "dirty_batch ?c \<noteq> []" using apply_dirty_batch [OF c(1), of 200] by auto
  then obtain j s where com: "osfs2_journal_commit (jrnl ?c) (dsk ?c) (dirty_batch ?c) = (j, dsk c', s)"
    "dirty_batch ?c \<noteq> []" using flush_commit [OF f] by blast
  obtain j3 d3 where p: "osfs2_journal_replay (reinit (jrnl ?c)) (dsk c'\<lparr>fate := \<lambda>_. False\<rparr>) = (j3, d3, 0)"
    using recovery_succeeds [OF s(1) dirty_batch_ok [OF c(1) com(2)] cache_okD(2) [OF c(1)] s(2) com(1)
        recoveries.none, of "\<lambda>_. False"] by auto
  from cache_flush_crash_atomic [OF c(1) s f recoveries.none p] c(2,3)
  have "block_at d3 200 \<in> {block_at (example_disk 20) 200, replicate 4096 7}" by (auto simp: d)
  then show ?thesis using f p d by auto
qed

end
