(* ===== verification/Osfs2.thy ===== *)
theory Osfs2
  imports BlockCache
begin

text \<open>
  The writable file system OSFS-2, \<open>kernel/core/osfs2.c\<close>: superblock and bitmaps, inodes with
  sixteen direct blocks and one table of indirect ones, directories as arrays of entries, path
  walking, and the operations the VFS calls.  All block transfers go through the modelled cache.

  Block and inode numbers are 32-bit words, as on disk; logical block numbers, offsets and lengths
  are naturals with the casts of the code written out.  The static buffers of the code are local to
  one call, except for \<open>comp\<close> in \<open>walk\<close>, which the code can read before it writes it: the
  state keeps what the stack holds there.  Paths are the characters before the NUL.
\<close>

section \<open>On-disk data\<close>

abbreviation (input) NAME_MAX :: nat where "NAME_MAX \<equiv> 60"
abbreviation (input) INODE_SIZE :: nat where "INODE_SIZE \<equiv> 128"
abbreviation (input) INODES_PER_BLOCK :: nat where "INODES_PER_BLOCK \<equiv> 32"
abbreviation (input) DIRENT_SIZE :: nat where "DIRENT_SIZE \<equiv> 64"
abbreviation (input) DIRENTS_PER_BLOCK :: nat where "DIRENTS_PER_BLOCK \<equiv> 64"
abbreviation (input) DIRECT_PTRS :: nat where "DIRECT_PTRS \<equiv> 16"
abbreviation (input) INDIRECT_PTRS :: nat where "INDIRECT_PTRS \<equiv> 1024"
abbreviation (input) MAX_FILE_BLOCKS :: nat where "MAX_FILE_BLOCKS \<equiv> 1040"
abbreviation (input) MAX_FILE_BYTES :: nat where "MAX_FILE_BYTES \<equiv> 4259840"

abbreviation (input) TYPE_FREE :: u32 where "TYPE_FREE \<equiv> 0"
abbreviation (input) TYPE_FILE :: u32 where "TYPE_FILE \<equiv> 1"
abbreviation (input) TYPE_DIR :: u32 where "TYPE_DIR \<equiv> 2"
abbreviation (input) INODE_ROOT :: u32 where "INODE_ROOT \<equiv> 1"

record superblock =
  sb_magic :: "byte list"
  sb_block_size :: u32
  sb_total_blocks :: u32
  sb_inode_count :: u32
  sb_block_bitmap_block :: u32
  sb_inode_bitmap_block :: u32
  sb_inode_table_block :: u32
  sb_inode_table_blocks :: u32
  sb_data_start_block :: u32
  sb_root_inode :: u32
  sb_journal_header_block :: u32
  sb_journal_data_blocks :: u32
  sb_reserved :: u32

record inode =
  i_type :: u32
  i_size :: u32
  i_nlink :: u32
  i_mode :: u32
  i_ctime_ms :: u32
  i_mtime_ms :: u32
  i_direct :: "u32 list"
  i_indirect :: u32
  i_reserved :: "byte list"

record dirent =
  d_ino :: u32
  d_name :: "char list"

text \<open>The packed little-endian layouts.\<close>

definition superblock_of_bytes :: "byte list \<Rightarrow> superblock" where
  "superblock_of_bytes bs = \<lparr>sb_magic = take 8 bs, sb_block_size = le32_at bs 8, sb_total_blocks = le32_at bs 12,
     sb_inode_count = le32_at bs 16, sb_block_bitmap_block = le32_at bs 20, sb_inode_bitmap_block = le32_at bs 24,
     sb_inode_table_block = le32_at bs 28, sb_inode_table_blocks = le32_at bs 32,
     sb_data_start_block = le32_at bs 36, sb_root_inode = le32_at bs 40,
     sb_journal_header_block = le32_at bs 44, sb_journal_data_blocks = le32_at bs 48,
     sb_reserved = le32_at bs 52\<rparr>"

definition inode_of_bytes :: "byte list \<Rightarrow> inode" where
  "inode_of_bytes bs = \<lparr>i_type = le32_at bs 0, i_size = le32_at bs 4, i_nlink = le32_at bs 8,
     i_mode = le32_at bs 12, i_ctime_ms = le32_at bs 16, i_mtime_ms = le32_at bs 20,
     i_direct = map (\<lambda>k. le32_at bs (24 + 4 * k)) [0..<DIRECT_PTRS], i_indirect = le32_at bs 88,
     i_reserved = take 36 (drop 92 bs)\<rparr>"

definition inode_bytes :: "inode \<Rightarrow> byte list" where
  "inode_bytes x = le32_bytes (i_type x) @ le32_bytes (i_size x) @ le32_bytes (i_nlink x) @
     le32_bytes (i_mode x) @ le32_bytes (i_ctime_ms x) @ le32_bytes (i_mtime_ms x) @
     concat (map le32_bytes (i_direct x)) @ le32_bytes (i_indirect x) @ i_reserved x"

definition dirent_of_bytes :: "byte list \<Rightarrow> dirent" where
  "dirent_of_bytes bs = \<lparr>d_ino = le32_at bs 0, d_name = map (\<lambda>b. char_of (unat b)) (take 60 (drop 4 bs))\<rparr>"

definition dirent_bytes :: "dirent \<Rightarrow> byte list" where
  "dirent_bytes e = le32_bytes (d_ino e) @ map (\<lambda>c. of_nat (of_char c)) (d_name e)"

section \<open>State\<close>

record osfs2 =
  present :: bool
  g_sb :: superblock
  g_block_bitmap :: "byte list"
  g_inode_bitmap :: "byte list"
  fscache :: bcache
  stack_comp :: "char list"

section \<open>Low-level helpers\<close>

definition read_block :: "osfs2 \<Rightarrow> u32 \<Rightarrow> osfs2 \<times> byte list option" where
  "read_block s b =
     (if b \<ge> sb_total_blocks (g_sb s) then (s, None)
      else let (c, r) = osfs2_cache_read (fscache s) b in (s\<lparr>fscache := c\<rparr>, r))"

definition write_block :: "osfs2 \<Rightarrow> u32 \<Rightarrow> byte list \<Rightarrow> osfs2 \<times> bool" where
  "write_block s b bs =
     (if b \<ge> sb_total_blocks (g_sb s) then (s, False)
      else let (c, r) = osfs2_cache_write (fscache s) b bs in (s\<lparr>fscache := c\<rparr>, r))"

definition read_inode :: "osfs2 \<Rightarrow> u32 \<Rightarrow> osfs2 \<times> inode option" where
  "read_inode s ino =
     (if ino = 0 \<or> ino \<ge> sb_inode_count (g_sb s) then (s, None)
      else
        let blk_idx = ino div 32; in_block = unat (ino mod 32);
            (s1, r) = read_block s (sb_inode_table_block (g_sb s) + blk_idx) in
        case r of
          None \<Rightarrow> (s1, None)
        | Some scratch \<Rightarrow> (s1, Some (inode_of_bytes (take INODE_SIZE (drop (in_block * INODE_SIZE) scratch)))))"

definition write_inode :: "osfs2 \<Rightarrow> u32 \<Rightarrow> inode \<Rightarrow> osfs2 \<times> bool" where
  "write_inode s ino src =
     (if ino = 0 \<or> ino \<ge> sb_inode_count (g_sb s) then (s, False)
      else
        let blk_idx = ino div 32; in_block = unat (ino mod 32);
            (s1, r) = read_block s (sb_inode_table_block (g_sb s) + blk_idx) in
        case r of
          None \<Rightarrow> (s1, False)
        | Some scratch \<Rightarrow>
            write_block s1 (sb_inode_table_block (g_sb s1) + blk_idx)
              (splice scratch (in_block * INODE_SIZE) (inode_bytes src)))"

definition bitmap_get :: "byte list \<Rightarrow> nat \<Rightarrow> bool" where
  "bitmap_get bm n = (drop_bit (n mod 8) (bm ! (n div 8)) AND 1 = 1)"

definition bitmap_set :: "byte list \<Rightarrow> nat \<Rightarrow> byte list" where
  "bitmap_set bm n = bm[n div 8 := bm ! (n div 8) OR push_bit (n mod 8) 1]"

definition bitmap_clear :: "byte list \<Rightarrow> nat \<Rightarrow> byte list" where
  "bitmap_clear bm n = bm[n div 8 := bm ! (n div 8) AND NOT (push_bit (n mod 8) 1)]"

definition flush_block_bitmap :: "osfs2 \<Rightarrow> osfs2 \<times> bool" where
  "flush_block_bitmap s = write_block s (sb_block_bitmap_block (g_sb s)) (g_block_bitmap s)"

definition flush_inode_bitmap :: "osfs2 \<Rightarrow> osfs2 \<times> bool" where
  "flush_inode_bitmap s = write_block s (sb_inode_bitmap_block (g_sb s)) (g_inode_bitmap s)"

text \<open>The allocation scans: the first clear bit among the \<open>n\<close> bits from \<open>b\<close> on.\<close>

fun first_clear :: "byte list \<Rightarrow> nat \<Rightarrow> nat \<Rightarrow> nat option" where
  "first_clear bm b 0 = None"
| "first_clear bm b (Suc n) = (if \<not> bitmap_get bm b then Some b else first_clear bm (b + 1) n)"

definition alloc_block :: "osfs2 \<Rightarrow> osfs2 \<times> u32" where
  "alloc_block s =
     (let start = unat (sb_data_start_block (g_sb s)) in
      case first_clear (g_block_bitmap s) start (unat (sb_total_blocks (g_sb s)) - start) of
        None \<Rightarrow> (s, 0)
      | Some b \<Rightarrow>
          let (s1, flushed) = flush_block_bitmap (s\<lparr>g_block_bitmap := bitmap_set (g_block_bitmap s) b\<rparr>) in
          if \<not> flushed then (s1\<lparr>g_block_bitmap := bitmap_clear (g_block_bitmap s1) b\<rparr>, 0)
          else let (s2, _) = write_block s1 (of_nat b) (replicate BLOCK_SIZE 0) in (s2, of_nat b))"

definition free_block :: "osfs2 \<Rightarrow> u32 \<Rightarrow> osfs2 \<times> bool" where
  "free_block s b =
     (if b < sb_data_start_block (g_sb s) \<or> b \<ge> sb_total_blocks (g_sb s) then (s, False)
      else flush_block_bitmap (s\<lparr>g_block_bitmap := bitmap_clear (g_block_bitmap s) (unat b)\<rparr>))"

definition alloc_inode :: "osfs2 \<Rightarrow> osfs2 \<times> u32" where
  "alloc_inode s =
     (case first_clear (g_inode_bitmap s) 2 (unat (sb_inode_count (g_sb s)) - 2) of
        None \<Rightarrow> (s, 0)
      | Some i \<Rightarrow>
          let (s1, flushed) = flush_inode_bitmap (s\<lparr>g_inode_bitmap := bitmap_set (g_inode_bitmap s) i\<rparr>) in
          if \<not> flushed then (s1\<lparr>g_inode_bitmap := bitmap_clear (g_inode_bitmap s1) i\<rparr>, 0)
          else (s1, of_nat i))"

definition free_inode :: "osfs2 \<Rightarrow> u32 \<Rightarrow> osfs2 \<times> bool" where
  "free_inode s i =
     (if i < INODE_ROOT + 1 \<or> i \<ge> sb_inode_count (g_sb s) then (s, False)
      else flush_inode_bitmap (s\<lparr>g_inode_bitmap := bitmap_clear (g_inode_bitmap s) (unat i)\<rparr>))"

section \<open>The block tree of an inode\<close>

definition resolve_block :: "osfs2 \<Rightarrow> inode \<Rightarrow> nat \<Rightarrow> bool \<Rightarrow> osfs2 \<times> inode \<times> u32" where
  "resolve_block s x lbn allocate =
     (if lbn \<ge> MAX_FILE_BLOCKS then (s, x, 0)
      else if lbn < DIRECT_PTRS then
        (if i_direct x ! lbn \<noteq> 0 then (s, x, i_direct x ! lbn)
         else if \<not> allocate then (s, x, 0)
         else
           let (s1, b) = alloc_block s in
           if b = 0 then (s1, x, 0) else (s1, x\<lparr>i_direct := (i_direct x)[lbn := b]\<rparr>, b))
      else
        let idx = lbn - DIRECT_PTRS;
            (s1, x1, ready) =
              (if i_indirect x \<noteq> 0 then (s, x, True)
               else if \<not> allocate then (s, x, False)
               else
                 let (s1, b) = alloc_block s in
                 if b = 0 then (s1, x, False) else (s1, x\<lparr>i_indirect := b\<rparr>, True)) in
        if \<not> ready then (s1, x1, 0)
        else
          let (s2, r) = read_block s1 (i_indirect x1) in
          case r of
            None \<Rightarrow> (s2, x1, 0)
          | Some ind \<Rightarrow>
              let entry = le32_at ind (4 * idx) in
              if entry \<noteq> 0 then (s2, x1, entry)
              else if \<not> allocate then (s2, x1, 0)
              else
                let (s3, b) = alloc_block s2 in
                if b = 0 then (s3, x1, 0)
                else
                  let (s4, written) = write_block s3 (i_indirect x1) (splice ind (4 * idx) (le32_bytes b)) in
                  if \<not> written then (fst (free_block s4 b), x1, 0)
                  else (s4, x1, b))"

section \<open>Directories\<close>

text \<open>One block of entries: found, past the end of the directory, or go on to the next block.\<close>

datatype scan = Hit nat | Ended | More

fun scan_entries ::
    "byte list \<Rightarrow> char list \<Rightarrow> nat \<Rightarrow> nat \<Rightarrow> nat \<Rightarrow> nat \<Rightarrow> nat option \<Rightarrow> scan \<times> nat option" where
  "scan_entries buf name dirents i j 0 hole = (More, hole)"
| "scan_entries buf name dirents i j (Suc n) hole =
     (let global = i * DIRENTS_PER_BLOCK + j in
      if global \<ge> dirents then (Ended, hole)
      else
        let d = dirent_of_bytes (take DIRENT_SIZE (drop (j * DIRENT_SIZE) buf)) in
        if d_ino d = 0 then
          scan_entries buf name dirents i (j + 1) n (if hole = None then Some global else hole)
        else if name_eq (d_name d) name then (Hit global, hole)
        else scan_entries buf name dirents i (j + 1) n hole)"

fun dir_find_from ::
    "osfs2 \<Rightarrow> inode \<Rightarrow> char list \<Rightarrow> nat \<Rightarrow> nat \<Rightarrow> nat option \<Rightarrow> osfs2 \<times> nat option \<times> nat option" where
  "dir_find_from s dir name i 0 hole = (s, None, hole)"
| "dir_find_from s dir name i (Suc n) hole =
     (let block = i_direct dir ! i in
      if block = 0 then dir_find_from s dir name (i + 1) n hole
      else
        let (s1, r) = read_block s block in
        case r of
          None \<Rightarrow> (s1, None, hole)
        | Some buf \<Rightarrow>
            (case scan_entries buf name (unat (i_size dir) div DIRENT_SIZE) i 0 DIRENTS_PER_BLOCK hole of
               (Hit g, hole1) \<Rightarrow> (s1, Some g, hole1)
             | (Ended, hole1) \<Rightarrow> (s1, None, hole1)
             | (More, hole1) \<Rightarrow> dir_find_from s1 dir name (i + 1) n hole1))"

text \<open>The index of the entry, and the first empty slot met on the way.\<close>

definition dir_find :: "osfs2 \<Rightarrow> inode \<Rightarrow> char list \<Rightarrow> osfs2 \<times> nat option \<times> nat option" where
  "dir_find s dir name = dir_find_from s dir name 0 DIRECT_PTRS None"

definition dir_read_at :: "osfs2 \<Rightarrow> inode \<Rightarrow> nat \<Rightarrow> osfs2 \<times> dirent option" where
  "dir_read_at s dir idx =
     (let blk_idx = idx div DIRENTS_PER_BLOCK; in_blk = idx mod DIRENTS_PER_BLOCK in
      if blk_idx \<ge> DIRECT_PTRS then (s, None)
      else
        let block = i_direct dir ! blk_idx in
        if block = 0 then (s, None)
        else
          let (s1, r) = read_block s block in
          case r of
            None \<Rightarrow> (s1, None)
          | Some buf \<Rightarrow> (s1, Some (dirent_of_bytes (take DIRENT_SIZE (drop (in_blk * DIRENT_SIZE) buf)))))"

definition dir_write_at :: "osfs2 \<Rightarrow> inode \<Rightarrow> nat \<Rightarrow> dirent \<Rightarrow> osfs2 \<times> bool" where
  "dir_write_at s dir idx ent =
     (let blk_idx = idx div DIRENTS_PER_BLOCK; in_blk = idx mod DIRENTS_PER_BLOCK in
      if blk_idx \<ge> DIRECT_PTRS then (s, False)
      else
        let block = i_direct dir ! blk_idx in
        if block = 0 then (s, False)
        else
          let (s1, r) = read_block s block in
          case r of
            None \<Rightarrow> (s1, False)
          | Some buf \<Rightarrow> write_block s1 block (splice buf (in_blk * DIRENT_SIZE) (dirent_bytes ent)))"

section \<open>Mounting\<close>

definition SB_MAGIC :: "byte list" where
  "SB_MAGIC = map (of_nat \<circ> of_char) ''OSFS-002''"

definition osfs2_init :: "osfs2 \<Rightarrow> bool \<Rightarrow> osfs2 \<times> int" where
  "osfs2_init s dev_present =
     (let s0 = s\<lparr>present := False\<rparr> in
      if \<not> dev_present then (s0, -1)
      else case read_sectors (dsk (fscache s0)) 0 8 of
        None \<Rightarrow> (s0, -1)
      | Some sb_buf \<Rightarrow>
          if take 8 sb_buf \<noteq> SB_MAGIC then (s0, -1)
          else
            let sb = superblock_of_bytes sb_buf; s1 = s0\<lparr>g_sb := sb\<rparr> in
            if sb_block_size sb \<noteq> 4096 then (s1, -1)
            else if sb_inode_count sb = 0 \<or> sb_inode_count sb > 65536 then (s1, -1)
            else
              let (j, d, r) = osfs2_journal_replay
                    (osfs2_journal_init (sb_journal_header_block sb) (unat (sb_journal_data_blocks sb)))
                    (dsk (fscache s1));
                  s2 = s1\<lparr>fscache := (fscache s1)\<lparr>jrnl := j, dsk := d\<rparr>\<rparr> in
              if r \<noteq> 0 then (s2, -1)
              else
                let (s3, bb) = read_block s2 (sb_block_bitmap_block sb) in
                case bb of
                  None \<Rightarrow> (s3, -1)
                | Some bbm \<Rightarrow>
                    let (s4, ib) = read_block (s3\<lparr>g_block_bitmap := bbm\<rparr>) (sb_inode_bitmap_block sb) in
                    (case ib of
                       None \<Rightarrow> (s4, -1)
                     | Some ibm \<Rightarrow> (s4\<lparr>g_inode_bitmap := ibm, present := True\<rparr>, 0)))"

definition osfs2_present :: "osfs2 \<Rightarrow> bool" where "osfs2_present s = present s"

section \<open>Path walking\<close>

definition path_next_component :: "char list \<Rightarrow> nat \<Rightarrow> (char list \<times> char list) option" where
  "path_next_component p cap =
     (let q = dropWhile (\<lambda>c. c = CHR ''/'') p in
      if q = [] then None
      else Some (take (cap - 1) (takeWhile (\<lambda>c. c \<noteq> CHR ''/'') q),
                 dropWhile (\<lambda>c. c = CHR ''/'') (dropWhile (\<lambda>c. c \<noteq> CHR ''/'') q)))"

text \<open>The body of the loop of \<open>walk\<close>: one component below the directory \<open>cur\<close>.\<close>

definition walk_step :: "osfs2 \<Rightarrow> u32 \<Rightarrow> char list \<Rightarrow> osfs2 \<times> u32 option" where
  "walk_step s cur name =
     (let (s1, di) = read_inode s cur in
      case di of
        None \<Rightarrow> (s1, None)
      | Some dir \<Rightarrow>
          if i_type dir \<noteq> TYPE_DIR then (s1, None)
          else
            let (s2, idx, _) = dir_find s1 dir name in
            case idx of
              None \<Rightarrow> (s2, None)
            | Some i \<Rightarrow>
                let (s3, e) = dir_read_at s2 dir i in
                case e of None \<Rightarrow> (s3, None) | Some ent \<Rightarrow> (s3, Some (d_ino ent)))"

lemma path_next_component_shorter:
  "path_next_component p cap = Some (c, rest) \<Longrightarrow> length rest < length p"
proof -
  assume a: "path_next_component p cap = Some (c, rest)"
  let ?q = "dropWhile (\<lambda>c. c = CHR ''/'') p"
  let ?r = "dropWhile (\<lambda>c. c \<noteq> CHR ''/'') ?q"
  have q: "?q \<noteq> []" "rest = dropWhile (\<lambda>c. c = CHR ''/'') ?r"
    using a by (auto simp: path_next_component_def Let_def split: if_splits)
  have "hd ?q \<noteq> CHR ''/''" using hd_dropWhile [OF q(1)] by simp
  then have "?r = dropWhile (\<lambda>c. c \<noteq> CHR ''/'') (tl ?q)"
    using q(1) by (cases ?q) auto
  then have "length rest \<le> length (tl ?q)"
    using q(2) by (metis length_dropWhile_le order_trans)
  also have "\<dots> < length p"
    using q(1) length_dropWhile_le [of "\<lambda>c. c = CHR ''/''" p] by (cases ?q) auto
  finally show ?thesis .
qed

text \<open>
  \<open>name\<close> is the string in the stack buffer \<open>comp\<close> when the loop test is evaluated: on the first
  round whatever was there, afterwards empty.
\<close>

function walk_loop :: "osfs2 \<Rightarrow> u32 \<Rightarrow> char list \<Rightarrow> char list \<Rightarrow> osfs2 \<times> u32" where
  "walk_loop s cur p name =
     (case path_next_component p NAME_MAX of
        None \<Rightarrow>
          if name = [] then (s, cur)
          else (let (s1, r) = walk_step s cur name in (s1, case r of None \<Rightarrow> 0 | Some ino \<Rightarrow> ino))
      | Some (c, rest) \<Rightarrow>
          let (s1, r) = walk_step s cur c in
          case r of None \<Rightarrow> (s1, 0) | Some ino \<Rightarrow> walk_loop s1 ino rest [])"
  by pat_completeness auto
termination
  by (relation "measure (\<lambda>(s, cur, p, name). length p)") (auto dest: path_next_component_shorter)

declare walk_loop.simps [simp del]

definition walk :: "osfs2 \<Rightarrow> char list \<Rightarrow> osfs2 \<times> u32" where
  "walk s path =
     (if path = [] \<or> path = ''/'' then (s, INODE_ROOT)
      else walk_loop s INODE_ROOT path (cstr (stack_comp s)))"

text \<open>The scan for the start of the last component; \<open>i\<close> is the position of \<open>scan\<close>.\<close>

fun leaf_start :: "char list \<Rightarrow> nat \<Rightarrow> nat \<Rightarrow> nat" where
  "leaf_start [] i l = l"
| "leaf_start (c # cs) i l =
     (if c = CHR ''/'' \<and> cs \<noteq> [] \<and> hd cs \<noteq> CHR ''/'' then leaf_start cs (i + 1) (i + 1)
      else leaf_start cs (i + 1) l)"

definition strip_slashes :: "char list \<Rightarrow> char list" where
  "strip_slashes p = rev (dropWhile (\<lambda>c. c = CHR ''/'') (rev p))"

definition walk_parent :: "osfs2 \<Rightarrow> char list \<Rightarrow> nat \<Rightarrow> osfs2 \<times> (u32 \<times> char list) option" where
  "walk_parent s path leaf_cap =
     (if leaf_cap = 0 then (s, None)
      else
        let p = dropWhile (\<lambda>c. c = CHR ''/'') path in
        if p = [] then (s, None)
        else
          let start = leaf_start p (length path - length p) (length path - length p);
              leaf = strip_slashes (drop start path) in
          if leaf = [] \<or> length leaf \<ge> leaf_cap \<or> length leaf \<ge> NAME_MAX then (s, None)
          else if CHR ''/'' \<in> set leaf then (s, None)
          else
            let parent_path = strip_slashes (take start path) in
            if length parent_path \<ge> 256 then (s, None)
            else
              let (s1, parent) = walk s parent_path in
              if parent = 0 then (s1, None)
              else
                let (s2, pi) = read_inode s1 parent in
                case pi of
                  None \<Rightarrow> (s2, None)
                | Some x \<Rightarrow> if i_type x \<noteq> TYPE_DIR then (s2, None) else (s2, Some (parent, leaf)))"

section \<open>Creating\<close>

definition new_inode :: "u32 \<Rightarrow> inode" where
  "new_inode type =
     \<lparr>i_type = type, i_size = 0, i_nlink = 1, i_mode = (if type = TYPE_DIR then 493 else 420),
      i_ctime_ms = 0, i_mtime_ms = 0, i_direct = replicate DIRECT_PTRS 0, i_indirect = 0,
      i_reserved = replicate 36 0\<rparr>"

text \<open>The choice of a slot in the parent: an empty one, or one more at the end, with a new block
  when the last one is full.  \<open>None\<close> when the directory cannot grow.\<close>

definition dir_slot :: "osfs2 \<Rightarrow> inode \<Rightarrow> nat option \<Rightarrow> osfs2 \<times> (inode \<times> nat) option" where
  "dir_slot s parent hole =
     (case hole of
        Some slot \<Rightarrow> (s, Some (parent, slot))
      | None \<Rightarrow>
          let slot = unat (i_size parent) div DIRENT_SIZE; blk_idx = slot div DIRENTS_PER_BLOCK in
          if blk_idx \<ge> DIRECT_PTRS then (s, None)
          else
            let (s1, b) = (if i_direct parent ! blk_idx = 0 then alloc_block s else (s, i_direct parent ! blk_idx)) in
            if b = 0 then (s1, None)
            else (s1, Some (parent\<lparr>i_direct := (i_direct parent)[blk_idx := b],
                                   i_size := of_nat ((slot + 1) * DIRENT_SIZE)\<rparr>, slot)))"

definition dir_create_in :: "osfs2 \<Rightarrow> u32 \<Rightarrow> char list \<Rightarrow> u32 \<Rightarrow> osfs2 \<times> u32" where
  "dir_create_in s parent_ino name type =
     (if name = [] \<or> length name \<ge> NAME_MAX then (s, 0)
      else
        let (s1, pi) = read_inode s parent_ino in
        case pi of
          None \<Rightarrow> (s1, 0)
        | Some parent \<Rightarrow>
            if i_type parent \<noteq> TYPE_DIR then (s1, 0)
            else
              let (s2, hit, hole) = dir_find s1 parent name in
              case hit of
                Some h \<Rightarrow>
                  let (s3, e) = dir_read_at s2 parent h in
                  (case e of
                     None \<Rightarrow> (s3, 0)
                   | Some ent \<Rightarrow>
                       let (s4, ex) = read_inode s3 (d_ino ent) in
                       (case ex of
                          None \<Rightarrow> (s4, 0)
                        | Some existing \<Rightarrow>
                            if type = TYPE_DIR then (s4, 0)
                            else if i_type existing \<noteq> type then (s4, 0)
                            else (s4, d_ino ent)))
              | None \<Rightarrow>
                  let (s3, ino) = alloc_inode s2 in
                  if ino = 0 then (s3, 0)
                  else
                    let (s4, w) = write_inode s3 ino (new_inode type) in
                    if \<not> w then (fst (free_inode s4 ino), 0)
                    else
                      let (s5, sl) = dir_slot s4 parent hole in
                      case sl of
                        None \<Rightarrow> (fst (free_inode s5 ino), 0)
                      | Some (parent1, slot) \<Rightarrow>
                          let ent = \<lparr>d_ino = ino, d_name = splice (replicate 60 NUL) 0 name\<rparr>;
                              (s6, w6) = dir_write_at s5 parent1 slot ent in
                          if \<not> w6 then (fst (free_inode s6 ino), 0)
                          else
                            let (s7, w7) = write_inode s6 parent_ino parent1 in
                            if \<not> w7 then (fst (free_inode s7 ino), 0)
                            else (s7, ino))"

definition osfs2_lookup :: "osfs2 \<Rightarrow> char list \<Rightarrow> osfs2 \<times> u32" where
  "osfs2_lookup s path =
     (if \<not> present s then (s, 0)
      else let (s1, ino) = walk s path in (s1, if ino = INODE_ROOT then 0 else ino))"

definition osfs2_create :: "osfs2 \<Rightarrow> char list \<Rightarrow> osfs2 \<times> u32" where
  "osfs2_create s path =
     (if \<not> present s then (s, 0)
      else let (s1, r) = walk_parent s path NAME_MAX in
        case r of None \<Rightarrow> (s1, 0) | Some (parent, leaf) \<Rightarrow> dir_create_in s1 parent leaf TYPE_FILE)"

definition osfs2_mkdir :: "osfs2 \<Rightarrow> char list \<Rightarrow> osfs2 \<times> u32" where
  "osfs2_mkdir s path =
     (if \<not> present s then (s, 0)
      else let (s1, r) = walk_parent s path NAME_MAX in
        case r of None \<Rightarrow> (s1, 0) | Some (parent, leaf) \<Rightarrow> dir_create_in s1 parent leaf TYPE_DIR)"

section \<open>Shrinking and growing files\<close>

text \<open>The two loops of \<open>osfs2_truncate\<close>; \<open>i\<close> is the logical block of the first element.
  The result of \<open>free_block\<close> is ignored.\<close>

fun trunc_direct :: "osfs2 \<Rightarrow> nat \<Rightarrow> nat \<Rightarrow> u32 list \<Rightarrow> osfs2 \<times> u32 list" where
  "trunc_direct s kept i [] = (s, [])"
| "trunc_direct s kept i (p # ps) =
     (if i \<ge> kept \<and> p \<noteq> 0
      then let (s1, qs) = trunc_direct (fst (free_block s p)) kept (i + 1) ps in (s1, 0 # qs)
      else let (s1, qs) = trunc_direct s kept (i + 1) ps in (s1, p # qs))"

fun trunc_table :: "osfs2 \<Rightarrow> nat \<Rightarrow> nat \<Rightarrow> u32 list \<Rightarrow> bool \<Rightarrow> bool \<Rightarrow> osfs2 \<times> u32 list \<times> bool \<times> bool" where
  "trunc_table s kept i [] touched any_left = (s, [], touched, any_left)"
| "trunc_table s kept i (p # ps) touched any_left =
     (if i \<ge> kept \<and> p \<noteq> 0
      then let (s1, qs, r) = trunc_table (fst (free_block s p)) kept (i + 1) ps True any_left in (s1, 0 # qs, r)
      else let (s1, qs, r) = trunc_table s kept (i + 1) ps touched (any_left \<or> p \<noteq> 0) in (s1, p # qs, r))"

definition table_of :: "byte list \<Rightarrow> u32 list" where
  "table_of ind = map (\<lambda>k. le32_at ind (4 * k)) [0..<INDIRECT_PTRS]"

definition osfs2_truncate :: "osfs2 \<Rightarrow> u32 \<Rightarrow> u32 \<Rightarrow> osfs2 \<times> bool" where
  "osfs2_truncate s ino sz =
     (if \<not> present s then (s, False)
      else
        let (s1, r) = read_inode s ino in
        case r of
          None \<Rightarrow> (s1, False)
        | Some fi \<Rightarrow>
            if i_type fi \<noteq> TYPE_FILE \<and> i_type fi \<noteq> TYPE_DIR then (s1, False)
            else if unat sz > MAX_FILE_BYTES then (s1, False)
            else
              let kept = (if sz = 0 then 0 else (unat sz + BLOCK_SIZE - 1) div BLOCK_SIZE);
                  (s2, ds) = trunc_direct s1 kept 0 (i_direct fi);
                  fi2 = fi\<lparr>i_direct := ds\<rparr> in
              if i_indirect fi2 = 0 then write_inode s2 ino (fi2\<lparr>i_size := sz\<rparr>)
              else
                let (s3, ib) = read_block s2 (i_indirect fi2) in
                case ib of
                  None \<Rightarrow> (s3, False)
                | Some ind \<Rightarrow>
                    let (s4, table, touched, any_left) = trunc_table s3 kept DIRECT_PTRS (table_of ind) False False in
                    if \<not> any_left then
                      write_inode (fst (free_block s4 (i_indirect fi2))) ino (fi2\<lparr>i_indirect := 0, i_size := sz\<rparr>)
                    else if touched then
                      let (s5, w) = write_block s4 (i_indirect fi2) (concat (map le32_bytes table)) in
                      if \<not> w then (s5, False) else write_inode s5 ino (fi2\<lparr>i_size := sz\<rparr>)
                    else write_inode s4 ino (fi2\<lparr>i_size := sz\<rparr>))"

section \<open>Removing\<close>

definition dir_unlink_slot :: "osfs2 \<Rightarrow> u32 \<Rightarrow> nat \<Rightarrow> osfs2 \<times> bool" where
  "dir_unlink_slot s parent_ino slot =
     (let (s1, r) = read_inode s parent_ino in
      case r of
        None \<Rightarrow> (s1, False)
      | Some parent \<Rightarrow>
          if i_type parent \<noteq> TYPE_DIR then (s1, False)
          else dir_write_at s1 parent slot \<lparr>d_ino = 0, d_name = replicate 60 NUL\<rparr>)"

text \<open>The common end of \<open>osfs2_unlink\<close> and \<open>osfs2_rmdir\<close>: give the blocks back, clear
  the entry, free the inode.\<close>

definition remove_entry :: "osfs2 \<Rightarrow> u32 \<Rightarrow> nat \<Rightarrow> u32 \<Rightarrow> osfs2 \<times> bool" where
  "remove_entry s parent idx ino =
     (let (s1, t) = osfs2_truncate s ino 0 in
      if \<not> t then (s1, False)
      else
        let (s2, r) = read_inode s1 ino in
        case r of
          None \<Rightarrow> (s2, False)
        | Some fi \<Rightarrow>
            let (s3, u) = dir_unlink_slot s2 parent idx in
            if \<not> u then (s3, False)
            else
              let (s4, w) = write_inode s3 ino (fi\<lparr>i_type := TYPE_FREE, i_size := 0, i_nlink := 0\<rparr>) in
              if \<not> w then (s4, False) else free_inode s4 ino)"

text \<open>Their common start: the entry a path names, as (parent, index, inode).\<close>

definition find_entry :: "osfs2 \<Rightarrow> char list \<Rightarrow> osfs2 \<times> (u32 \<times> nat \<times> u32) option" where
  "find_entry s path =
     (let (s1, r) = walk_parent s path NAME_MAX in
      case r of
        None \<Rightarrow> (s1, None)
      | Some (parent, leaf) \<Rightarrow>
          let (s2, pi) = read_inode s1 parent in
          (case pi of
             None \<Rightarrow> (s2, None)
           | Some dir \<Rightarrow>
               let (s3, idx, _) = dir_find s2 dir leaf in
               (case idx of
                  None \<Rightarrow> (s3, None)
                | Some i \<Rightarrow>
                    let (s4, e) = dir_read_at s3 dir i in
                    (case e of None \<Rightarrow> (s4, None) | Some ent \<Rightarrow> (s4, Some (parent, i, d_ino ent))))))"

definition osfs2_unlink :: "osfs2 \<Rightarrow> char list \<Rightarrow> osfs2 \<times> bool" where
  "osfs2_unlink s path =
     (if \<not> present s then (s, False)
      else
        let (s1, r) = find_entry s path in
        case r of
          None \<Rightarrow> (s1, False)
        | Some (parent, idx, ino) \<Rightarrow>
            let (s2, fr) = read_inode s1 ino in
            (case fr of
               None \<Rightarrow> (s2, False)
             | Some fi \<Rightarrow> if i_type fi = TYPE_DIR then (s2, False) else remove_entry s2 parent idx ino))"

text \<open>The test that a directory is empty; \<open>n\<close> entries from \<open>i\<close> on are left to look at.\<close>

fun dir_empty :: "osfs2 \<Rightarrow> inode \<Rightarrow> nat \<Rightarrow> nat \<Rightarrow> osfs2 \<times> bool" where
  "dir_empty s dir i 0 = (s, True)"
| "dir_empty s dir i (Suc n) =
     (let (s1, e) = dir_read_at s dir i in
      case e of
        None \<Rightarrow> (s1, False)
      | Some ent \<Rightarrow> if d_ino ent \<noteq> 0 then (s1, False) else dir_empty s1 dir (i + 1) n)"

definition osfs2_rmdir :: "osfs2 \<Rightarrow> char list \<Rightarrow> osfs2 \<times> bool" where
  "osfs2_rmdir s path =
     (if \<not> present s then (s, False)
      else
        let (s1, r) = find_entry s path in
        case r of
          None \<Rightarrow> (s1, False)
        | Some (parent, idx, ino) \<Rightarrow>
            if ino = INODE_ROOT then (s1, False)
            else
              let (s2, fr) = read_inode s1 ino in
              (case fr of
                 None \<Rightarrow> (s2, False)
               | Some di \<Rightarrow>
                   if i_type di \<noteq> TYPE_DIR then (s2, False)
                   else
                     let (s3, vacant) = dir_empty s2 di 0 (unat (i_size di) div DIRENT_SIZE) in
                     if \<not> vacant then (s3, False) else remove_entry s3 parent idx ino))"

section \<open>Reading and writing\<close>

text \<open>
  The copy loops: \<open>pos\<close> is the file position, \<open>len\<close> the number of bytes still wanted.
  The flag tells a loop that ran to its end from one cut short.
\<close>

function read_loop :: "osfs2 \<Rightarrow> inode \<Rightarrow> nat \<Rightarrow> nat \<Rightarrow> osfs2 \<times> byte list \<times> bool" where
  "read_loop s fi pos len =
     (if len = 0 then (s, [], True)
      else
        let lbn = (pos div BLOCK_SIZE) mod 2 ^ 32; in_blk = pos mod BLOCK_SIZE;
            can = min (BLOCK_SIZE - in_blk) len;
            (s1, _, pb) = resolve_block s fi lbn False in
        if pb = 0 then
          let (s2, rest, full) = read_loop s1 fi (pos + can) (len - can) in (s2, replicate can 0 @ rest, full)
        else
          let (s2, r) = read_block s1 pb in
          case r of
            None \<Rightarrow> (s2, [], False)
          | Some buf \<Rightarrow>
              let (s3, rest, full) = read_loop s2 fi (pos + can) (len - can)
              in (s3, take can (drop in_blk buf) @ rest, full))"
  by pat_completeness auto
termination
  by (relation "measure (\<lambda>(s, fi, pos, len). len)") auto

declare read_loop.simps [simp del]

text \<open>\<open>None\<close> is the result \<open>-1\<close>, \<open>Some bs\<close> the result \<open>length bs\<close> with \<open>bs\<close> in the
  buffer.\<close>

definition osfs2_read :: "osfs2 \<Rightarrow> u32 \<Rightarrow> nat \<Rightarrow> nat \<Rightarrow> osfs2 \<times> byte list option" where
  "osfs2_read s ino offset len =
     (if \<not> present s then (s, None)
      else
        let (s1, r) = read_inode s ino in
        case r of
          None \<Rightarrow> (s1, None)
        | Some fi \<Rightarrow>
            if i_type fi \<noteq> TYPE_FILE \<and> i_type fi \<noteq> TYPE_DIR then (s1, None)
            else if offset \<ge> unat (i_size fi) then (s1, Some [])
            else
              let n = min len (unat (i_size fi) - offset) in
              if n = 0 then (s1, Some [])
              else
                let (s2, bs, full) = read_loop s1 fi offset n in
                if \<not> full \<and> bs = [] then (s2, None) else (s2, Some bs))"

function write_loop :: "osfs2 \<Rightarrow> inode \<Rightarrow> nat \<Rightarrow> byte list \<Rightarrow> osfs2 \<times> inode \<times> nat" where
  "write_loop s fi pos src =
     (if src = [] then (s, fi, 0)
      else
        let lbn = (pos div BLOCK_SIZE) mod 2 ^ 32; in_blk = pos mod BLOCK_SIZE;
            can = min (BLOCK_SIZE - in_blk) (length src);
            (s1, fi1, pb) = resolve_block s fi lbn True in
        if pb = 0 then (s1, fi1, 0)
        else
          let full_block = (in_blk = 0 \<and> can = BLOCK_SIZE);
              (s2, base) = (if full_block then (s1, Some (replicate BLOCK_SIZE 0)) else read_block s1 pb) in
          case base of
            None \<Rightarrow> (s2, fi1, 0)
          | Some buf \<Rightarrow>
              let (s3, w) = write_block s2 pb (splice buf in_blk (take can src)) in
              if \<not> w then (s3, fi1, 0)
              else
                let (s4, fi2, consumed) = write_loop s3 fi1 (pos + can) (drop can src)
                in (s4, fi2, can + consumed))"
  by pat_completeness auto
termination
  by (relation "measure (\<lambda>(s, fi, pos, src). length src)") auto

declare write_loop.simps [simp del]

definition osfs2_write :: "osfs2 \<Rightarrow> u32 \<Rightarrow> nat \<Rightarrow> byte list \<Rightarrow> osfs2 \<times> int" where
  "osfs2_write s ino offset src =
     (if \<not> present s then (s, -1)
      else if length src = 0 then (s, 0)
      else if add64 offset (length src) > MAX_FILE_BYTES then (s, -1)
      else
        let (s1, r) = read_inode s ino in
        case r of
          None \<Rightarrow> (s1, -1)
        | Some fi \<Rightarrow>
            if i_type fi \<noteq> TYPE_FILE then (s1, -1)
            else
              let (s2, fi2, consumed) = write_loop s1 fi offset src in
              if consumed = 0 then (s2, -1)
              else
                let end_pos = add64 offset consumed;
                    fi3 = (if end_pos > unat (i_size fi2) then fi2\<lparr>i_size := of_nat end_pos\<rparr> else fi2);
                    (s3, w) = write_inode s2 ino fi3 in
                if \<not> w then (s3, -1) else (s3, int consumed))"

section \<open>Attributes, listing, flushing\<close>

definition osfs2_size :: "osfs2 \<Rightarrow> u32 \<Rightarrow> osfs2 \<times> u32" where
  "osfs2_size s ino =
     (let (s1, r) = read_inode s ino in
      case r of None \<Rightarrow> (s1, 0) | Some fi \<Rightarrow> if i_type fi = TYPE_FREE then (s1, 0) else (s1, i_size fi))"

text \<open>What a listing hands out for an entry.\<close>

record listing =
  l_name :: "char list"
  l_size :: u32
  l_type :: u32

text \<open>The loop over the entries from \<open>idx\<close> on, \<open>n\<close> of them left; the result is the return
  code, the advanced index and the entry.\<close>

fun list_from :: "osfs2 \<Rightarrow> inode \<Rightarrow> nat \<Rightarrow> nat \<Rightarrow> nat \<Rightarrow> osfs2 \<times> int \<times> nat \<times> listing option" where
  "list_from s dir idx 0 cap = (s, 0, idx, None)"
| "list_from s dir idx (Suc n) cap =
     (let (s1, e) = dir_read_at s dir idx in
      case e of
        None \<Rightarrow> (s1, 0, idx, None)
      | Some ent \<Rightarrow>
          if d_ino ent = 0 then list_from s1 dir (idx + 1) n cap
          else
            let (s2, ch) = read_inode s1 (d_ino ent) in
            (s2, 1, idx + 1, Some \<lparr>l_name = take (cap - 1) (cstr (d_name ent)),
               l_size = (case ch of None \<Rightarrow> 0 | Some child \<Rightarrow> i_size child),
               l_type = (case ch of None \<Rightarrow> TYPE_FREE | Some child \<Rightarrow> i_type child)\<rparr>))"

definition osfs2_listdir_at :: "osfs2 \<Rightarrow> u32 \<Rightarrow> nat \<Rightarrow> nat \<Rightarrow> osfs2 \<times> int \<times> nat \<times> listing option" where
  "osfs2_listdir_at s parent_ino idx cap =
     (if \<not> present s \<or> cap = 0 then (s, 0, idx, None)
      else
        let (s1, r) = read_inode s parent_ino in
        case r of
          None \<Rightarrow> (s1, -1, idx, None)
        | Some dir \<Rightarrow>
            if i_type dir \<noteq> TYPE_DIR then (s1, -1, idx, None)
            else list_from s1 dir idx (unat (i_size dir) div DIRENT_SIZE - idx) cap)"

definition osfs2_listdir :: "osfs2 \<Rightarrow> nat \<Rightarrow> nat \<Rightarrow> osfs2 \<times> int \<times> nat \<times> listing option" where
  "osfs2_listdir s idx cap =
     (let (s1, rc, idx1, l) = osfs2_listdir_at s INODE_ROOT idx cap in (s1, if rc = 1 then 1 else 0, idx1, l))"

definition osfs2_fsync :: "osfs2 \<Rightarrow> u32 \<Rightarrow> osfs2 \<times> int" where
  "osfs2_fsync s ino =
     (if \<not> present s then (s, -1)
      else
        let (s1, ok) =
          (if ino \<noteq> 0 then
             (let (s1, r) = read_inode s ino in
              case r of None \<Rightarrow> (s1, False) | Some fi \<Rightarrow> (s1, i_type fi \<noteq> TYPE_FREE))
           else (s, True)) in
        if \<not> ok then (s1, -1)
        else let (c, r) = osfs2_cache_flush (fscache s1) in (s1\<lparr>fscache := c\<rparr>, r))"

end
