(* ===== verification/Osfs2Store.thy ===== *)
theory Osfs2Store
  imports Osfs2
begin

text \<open>
  OSFS-2 on a device that works.  Behind the cache the driver sees an array of blocks, the
  \<open>image\<close>; every low-level operation of \<open>osfs2.c\<close> is described by what it does to the
  image and to the bitmaps, through the contract of the block cache.
\<close>

section \<open>A device without errors\<close>

definition working :: "bcache \<Rightarrow> bool" where
  "working c \<longleftrightarrow> cache_ok c \<and> (\<forall>i. \<not> fate (dsk c) i) \<and> unreadable (dsk c) = {}"

lemma write_blocks_device:
  "fate (fst (write_blocks d batch)) = fate d \<and> unreadable (fst (write_blocks d batch)) = unreadable d"
  by (induction batch arbitrary: d) (auto simp: case_prod_beta Let_def frame)

lemma commit_device:
  assumes "osfs2_journal_commit j d batch = (j1, d1, r)"
  shows "fate d1 = fate d \<and> unreadable d1 = unreadable d \<and>
    ((\<forall>i. \<not> fate d i) \<and> length batch \<le> max_blocks j \<longrightarrow> r = 0)"
proof -
  have "r = 0" if nf: "\<forall>i. \<not> fate d i" and len: "length batch \<le> max_blocks j"
  proof -
    have wb: "fate e = fate d \<Longrightarrow> snd (write_blocks e b) = 0" for e b
      using nf by (intro write_blocks_no_fault) simp
    have rw: "fate e = fate d \<Longrightarrow> snd (raw_write e b bs) = 0" for e b bs
      using nf by (intro raw_write_no_fault) simp
    show ?thesis
      using assms len
      by (auto simp: osfs2_journal_commit_def case_prod_beta Let_def write_slots_batch frame write_blocks_device
          write_committed_header_def write_zero_header_def wb rw split: if_splits)
  qed
  moreover have "fate d1 = fate d \<and> unreadable d1 = unreadable d"
    using assms
    by (auto simp: osfs2_journal_commit_def case_prod_beta Let_def write_slots_batch frame write_blocks_device
        write_committed_header_def write_zero_header_def split: if_splits)
  ultimately show ?thesis by blast
qed

lemma flush_slot_works:
  "working c \<Longrightarrow> snd (flush_slot c i) = 0 \<and> fate (dsk (fst (flush_slot c i))) = fate (dsk c) \<and>
   unreadable (dsk (fst (flush_slot c i))) = unreadable (dsk c)"
proof -
  assume w: "working c"
  obtain j d r where c: "osfs2_journal_commit (jrnl c) (dsk c) [(blk (g_slots c ! i), data (g_slots c ! i))] = (j, d, r)"
    by (metis prod_cases3)
  have "max_blocks (jrnl c) = 32" using w cache_okD(3) by (simp add: working_def)
  then show ?thesis
    using commit_device [OF c] w c by (auto simp: flush_slot_def working_def Let_def)
qed

lemma make_room_works:
  "working c \<Longrightarrow> v < 32 \<Longrightarrow> snd (make_room c v) \<and> working (fst (make_room c v))"
  using flush_slot_works [of c v] make_room_ok [of c v]
  by (auto simp: make_room_def Let_def case_prod_beta working_def)

lemma cache_read_works:
  assumes w: "working c" and b: "data_block c b"
  shows "\<exists>c1. osfs2_cache_read c b = (c1, Some (cache_view c b)) \<and> working c1 \<and> data_block c1 = data_block c \<and>
    (\<forall>q. data_block c q \<longrightarrow> cache_view c1 q = cache_view c q)"
proof -
  have ok: "cache_ok c" using w by (simp add: working_def)
  obtain c1 r where c1: "osfs2_cache_read c b = (c1, r)" by (cases "osfs2_cache_read c b")
  note f = cache_read_ok [OF ok b, unfolded c1]
  have "r \<noteq> None \<and> fate (dsk c1) = fate (dsk c) \<and> unreadable (dsk c1) = unreadable (dsk c)"
  proof (cases "find_slot c b")
    case (Some i)
    then show ?thesis using c1 by (auto simp: osfs2_cache_read_def Let_def)
  next
    case None
    obtain c2 room where m: "make_room c (pick_victim c) = (c2, room)" by (cases "make_room c (pick_victim c)")
    have m2: "room" "working c2" using make_room_works [OF w pick_victim_less [OF ok]] m by simp_all
    then have rd: "raw_read (dsk c2) b = Some (block_at (dsk c2) b)" by (intro raw_read_eq) (simp add: working_def)
    have "fate (dsk c2) = fate (dsk c)" "unreadable (dsk c2) = {}"
      using m2 w by (auto simp: working_def)
    then show ?thesis using c1 None m m2 w by (auto simp: osfs2_cache_read_def Let_def working_def rd)
  qed
  then obtain bs where "r = Some bs" "fate (dsk c1) = fate (dsk c)" "unreadable (dsk c1) = unreadable (dsk c)" by auto
  then show ?thesis using f c1 w by (auto simp: working_def)
qed

lemma cache_write_works:
  assumes w: "working c" and b: "data_block c b" "length bs = 4096"
  shows "\<exists>c1. osfs2_cache_write c b bs = (c1, True) \<and> working c1 \<and> data_block c1 = data_block c \<and>
    (\<forall>q. data_block c q \<longrightarrow> cache_view c1 q = (if q = b then bs else cache_view c q))"
proof -
  have ok: "cache_ok c" using w by (simp add: working_def)
  obtain c1 r where c1: "osfs2_cache_write c b bs = (c1, r)" by (cases "osfs2_cache_write c b bs")
  note f = cache_write_ok [OF ok b, unfolded c1]
  have "r \<and> fate (dsk c1) = fate (dsk c) \<and> unreadable (dsk c1) = unreadable (dsk c)"
  proof (cases "find_slot c b")
    case (Some i)
    then show ?thesis using c1 by (auto simp: osfs2_cache_write_def Let_def)
  next
    case None
    obtain c2 room where m: "make_room c (pick_victim c) = (c2, room)" by (cases "make_room c (pick_victim c)")
    have m2: "room" "working c2" using make_room_works [OF w pick_victim_less [OF ok]] m by simp_all
    then show ?thesis using c1 None m w by (auto simp: osfs2_cache_write_def Let_def working_def)
  qed
  then show ?thesis using f c1 w by (auto simp: working_def)
qed

section \<open>Bitmaps\<close>

lemma bitmap_get_bit: "bitmap_get bm n \<longleftrightarrow> bit (bm ! (n div 8)) (n mod 8)"
  by (auto simp: bitmap_get_def and_one_eq bit_iff_odd_drop_bit odd_iff_mod_2_eq_one)

lemma same_bit: "m \<noteq> n \<Longrightarrow> m div 8 = n div 8 \<Longrightarrow> m mod 8 \<noteq> (n :: nat) mod 8"
  by (metis div_mult_mod_eq)

lemma bitmap_get_set [simp]:
  "n < 8 * length bm \<Longrightarrow> bitmap_get (bitmap_set bm n) m \<longleftrightarrow> m = n \<or> bitmap_get bm m"
  using same_bit [of m n]
  by (cases "m div 8 = n div 8") (auto simp: bitmap_get_bit bitmap_set_def bit_or_iff bit_exp_iff less_mult_imp_div_less mult.commute)

lemma bitmap_get_clear [simp]:
  "n < 8 * length bm \<Longrightarrow> bitmap_get (bitmap_clear bm n) m \<longleftrightarrow> m \<noteq> n \<and> bitmap_get bm m"
  using same_bit [of m n]
  by (cases "m div 8 = n div 8") (auto simp: bitmap_get_bit bitmap_clear_def bit_and_iff bit_not_iff bit_exp_iff less_mult_imp_div_less mult.commute)

lemma length_bitmap [simp]: "length (bitmap_set bm n) = length bm" "length (bitmap_clear bm n) = length bm"
  by (simp_all add: bitmap_set_def bitmap_clear_def)

lemma first_clear_Some:
  "first_clear bm b n = Some k \<Longrightarrow> b \<le> k \<and> k < b + n \<and> \<not> bitmap_get bm k \<and> (\<forall>j. b \<le> j \<and> j < k \<longrightarrow> bitmap_get bm j)"
proof (induction n arbitrary: b)
  case 0
  then show ?case by simp
next
  case (Suc n)
  show ?case
  proof (cases "bitmap_get bm b")
    case True
    then have "b + 1 \<le> k \<and> k < b + 1 + n \<and> \<not> bitmap_get bm k \<and> (\<forall>j. b + 1 \<le> j \<and> j < k \<longrightarrow> bitmap_get bm j)"
      using Suc.IH [of "b + 1"] Suc.prems by simp
    then show ?thesis using True by (metis Suc_eq_plus1 Suc_leD Suc_leI add_Suc_shift le_neq_implies_less)
  next
    case False
    then have "k = b" using Suc.prems by simp
    then show ?thesis using False by auto
  qed
qed

lemma first_clear_None: "first_clear bm b n = None \<longleftrightarrow> (\<forall>j. b \<le> j \<and> j < b + n \<longrightarrow> bitmap_get bm j)"
proof (induction n arbitrary: b)
  case 0
  then show ?case by auto
next
  case (Suc n)
  have "b \<le> j \<and> j < b + Suc n \<longleftrightarrow> j = b \<or> (b + 1 \<le> j \<and> j < b + 1 + n)" for j by auto
  then show ?case using Suc [of "b + 1"] by auto
qed

section \<open>On-disk layouts\<close>

definition inode_wf :: "inode \<Rightarrow> bool" where
  "inode_wf x \<longleftrightarrow> length (i_direct x) = 16 \<and> length (i_reserved x) = 36"

lemma length_inode_bytes [simp]: "inode_wf x \<Longrightarrow> length (inode_bytes x) = 128"
  by (simp add: inode_bytes_def inode_wf_def)

lemma inode_of_bytes_wf: "length bs = 128 \<Longrightarrow> inode_wf (inode_of_bytes bs)"
  by (simp add: inode_wf_def inode_of_bytes_def)

lemma inode_roundtrip [simp]:
  assumes "inode_wf x"
  shows "inode_of_bytes (inode_bytes x) = x"
proof -
  have l: "length (i_direct x) = 16" "length (i_reserved x) = 36" using assms by (auto simp: inode_wf_def)
  let ?h = "le32_bytes (i_type x) @ le32_bytes (i_size x) @ le32_bytes (i_nlink x) @ le32_bytes (i_mode x) @
     le32_bytes (i_ctime_ms x) @ le32_bytes (i_mtime_ms x)"
  let ?d = "concat (map le32_bytes (i_direct x))"
  have "le32_at (inode_bytes x) (24 + 4 * k) = i_direct x ! k" if "k < 16" for k
    using le32_at_concat [of k "i_direct x" ?h "le32_bytes (i_indirect x) @ i_reserved x"] that l
    by (simp add: inode_bytes_def)
  then have d: "map (\<lambda>k. le32_at (inode_bytes x) (24 + 4 * k)) [0..<16] = i_direct x"
    using l by (intro nth_equalityI) auto
  have f: "le32_at (inode_bytes x) 0 = i_type x" "le32_at (inode_bytes x) 4 = i_size x"
    "le32_at (inode_bytes x) 8 = i_nlink x" "le32_at (inode_bytes x) 12 = i_mode x"
    "le32_at (inode_bytes x) 16 = i_ctime_ms x" "le32_at (inode_bytes x) 20 = i_mtime_ms x"
    "le32_at (inode_bytes x) 88 = i_indirect x"
    using le32_at_bytes [of 0 "[]" "i_type x"] le32_at_bytes [of 4 "le32_bytes (i_type x)" "i_size x"]
      le32_at_bytes [of 8 "le32_bytes (i_type x) @ le32_bytes (i_size x)" "i_nlink x"]
      le32_at_bytes [of 12 "le32_bytes (i_type x) @ le32_bytes (i_size x) @ le32_bytes (i_nlink x)" "i_mode x"]
      le32_at_bytes [of 16 "le32_bytes (i_type x) @ le32_bytes (i_size x) @ le32_bytes (i_nlink x) @
        le32_bytes (i_mode x)" "i_ctime_ms x"]
      le32_at_bytes [of 20 "le32_bytes (i_type x) @ le32_bytes (i_size x) @ le32_bytes (i_nlink x) @
        le32_bytes (i_mode x) @ le32_bytes (i_ctime_ms x)" "i_mtime_ms x"]
      le32_at_bytes [of 88 "?h @ ?d" "i_indirect x" "i_reserved x"] l
    by (simp_all add: inode_bytes_def)
  have r: "take 36 (drop 92 (inode_bytes x)) = i_reserved x" using l by (simp add: inode_bytes_def)
  show ?thesis unfolding inode_of_bytes_def d f r by simp
qed

definition dirent_wf :: "dirent \<Rightarrow> bool" where
  "dirent_wf e \<longleftrightarrow> length (d_name e) = 60"

lemma length_dirent_bytes [simp]: "dirent_wf e \<Longrightarrow> length (dirent_bytes e) = 64"
  by (simp add: dirent_bytes_def dirent_wf_def)

lemma char_roundtrip [simp]: "char_of (unat (of_nat (of_char c) :: byte)) = c"
proof -
  have "(of_char c :: nat) < 256" by simp
  then show ?thesis by (simp add: unat_of_nat)
qed

lemma dirent_roundtrip [simp]: "dirent_wf e \<Longrightarrow> dirent_of_bytes (dirent_bytes e) = e"
proof -
  assume e: "dirent_wf e"
  have "le32_at (dirent_bytes e) 0 = d_ino e"
    using le32_at_bytes [of 0 "[]" "d_ino e"] by (simp add: dirent_bytes_def)
  moreover have "map (\<lambda>b. char_of (unat b)) (take 60 (drop 4 (dirent_bytes e))) = d_name e"
    using e by (simp add: dirent_bytes_def dirent_wf_def comp_def)
  ultimately show ?thesis by (simp add: dirent_of_bytes_def)
qed

lemma dirent_of_bytes_wf [simp]: "length bs = 64 \<Longrightarrow> dirent_wf (dirent_of_bytes bs)"
  by (simp add: dirent_wf_def dirent_of_bytes_def)

text \<open>Records of equal size in one block: overwriting one leaves the others.\<close>

lemma splice_record:
  assumes "length bs = n * w" "length r = w" "i < n" "k < n"
  shows "take w (drop (k * w) (splice bs (i * w) r)) = (if k = i then r else take w (drop (k * w) bs))"
proof -
  have w: "j * w + w \<le> n * w" if "j < n" for j
    using that mult_le_mono1 [of "Suc j" n w] by simp
  have len: "length (splice bs (i * w) r) = n * w" using assms w [of i] by simp
  show ?thesis
  proof (cases "k = i")
    case True
    then show ?thesis using splice_same [of "i * w" r bs] assms w [of i] by simp
  next
    case False
    then have d: "k * w + w \<le> i * w \<or> i * w + w \<le> k * w"
      using mult_le_mono1 [of "Suc k" i w] mult_le_mono1 [of "Suc i" k w] by (cases "k < i") auto
    have "take w (drop (k * w) (splice bs (i * w) r)) ! j = take w (drop (k * w) bs) ! j" if "j < w" for j
      using that d assms w [of i] w [of k] len by (auto simp: nth_splice)
    then show ?thesis using False assms w [of k] len by (simp add: list_eq_iff_nth_eq)
  qed
qed

section \<open>What the driver sees\<close>

text \<open>The regions the superblock describes do not overlap each other or the journal, and the
  bitmaps are large enough for them.\<close>

definition layout_ok :: "superblock \<Rightarrow> (u32 \<Rightarrow> bool) \<Rightarrow> bool" where
  "layout_ok sb adm \<longleftrightarrow>
     unat (sb_total_blocks sb) \<le> 32768 \<and> 2 \<le> unat (sb_inode_count sb) \<and> unat (sb_inode_count sb) \<le> 32768 \<and>
     unat (sb_data_start_block sb) \<le> unat (sb_total_blocks sb) \<and>
     unat (sb_inode_table_block sb) + (unat (sb_inode_count sb) + 31) div 32 \<le> unat (sb_data_start_block sb) \<and>
     sb_block_bitmap_block sb < sb_data_start_block sb \<and> sb_inode_bitmap_block sb < sb_data_start_block sb \<and>
     sb_block_bitmap_block sb \<noteq> sb_inode_bitmap_block sb \<and>
     (\<forall>k<(unat (sb_inode_count sb) + 31) div 32.
        unat (sb_inode_table_block sb) + k \<noteq> unat (sb_block_bitmap_block sb) \<and>
        unat (sb_inode_table_block sb) + k \<noteq> unat (sb_inode_bitmap_block sb) \<and>
        adm (sb_inode_table_block sb + of_nat k)) \<and>
     adm (sb_block_bitmap_block sb) \<and> adm (sb_inode_bitmap_block sb) \<and>
     (\<forall>b. sb_data_start_block sb \<le> b \<and> b < sb_total_blocks sb \<longrightarrow> adm b)"

definition ready :: "osfs2 \<Rightarrow> bool" where
  "ready s \<longleftrightarrow> present s \<and> working (fscache s) \<and> layout_ok (g_sb s) (data_block (fscache s)) \<and>
     length (g_block_bitmap s) = 4096 \<and> length (g_inode_bitmap s) = 4096 \<and>
     cache_view (fscache s) (sb_block_bitmap_block (g_sb s)) = g_block_bitmap s \<and>
     cache_view (fscache s) (sb_inode_bitmap_block (g_sb s)) = g_inode_bitmap s"

definition table_block :: "superblock \<Rightarrow> u32 \<Rightarrow> u32" where
  "table_block sb i = sb_inode_table_block sb + i div 32"

definition valid_ino :: "superblock \<Rightarrow> u32 \<Rightarrow> bool" where
  "valid_ino sb i \<longleftrightarrow> i \<noteq> 0 \<and> i < sb_inode_count sb"

definition data_region :: "superblock \<Rightarrow> u32 \<Rightarrow> bool" where
  "data_region sb b \<longleftrightarrow> sb_data_start_block sb \<le> b \<and> b < sb_total_blocks sb"

definition inode_slot :: "byte list \<Rightarrow> u32 \<Rightarrow> inode" where
  "inode_slot bs i = inode_of_bytes (take 128 (drop (unat (i mod 32) * 128) bs))"

text \<open>The file system as the directory and file operations see it: inodes, allocated blocks and
  inodes, and the contents of the data blocks.\<close>

record fsys =
  f_sb :: superblock
  f_inode :: "u32 \<Rightarrow> inode"
  f_used :: "u32 set"
  f_live :: "u32 set"
  f_block :: "u32 \<Rightarrow> byte list"
  f_stack :: "char list"

definition fsys_of :: "osfs2 \<Rightarrow> fsys" where
  "fsys_of s = \<lparr>f_sb = g_sb s,
     f_inode = (\<lambda>i. if valid_ino (g_sb s) i
       then inode_slot (cache_view (fscache s) (table_block (g_sb s) i)) i else new_inode 0),
     f_used = {b. data_region (g_sb s) b \<and> bitmap_get (g_block_bitmap s) (unat b)},
     f_live = {i. i < sb_inode_count (g_sb s) \<and> bitmap_get (g_inode_bitmap s) (unat i)},
     f_block = (\<lambda>b. if data_region (g_sb s) b then cache_view (fscache s) b else []),
     f_stack = stack_comp s\<rparr>"

lemma fsys_of_sel [simp]:
  "f_sb (fsys_of s) = g_sb s" "f_stack (fsys_of s) = stack_comp s"
  "data_region (g_sb s) b \<Longrightarrow> f_block (fsys_of s) b = cache_view (fscache s) b"
  "valid_ino (g_sb s) i \<Longrightarrow> f_inode (fsys_of s) i = inode_slot (cache_view (fscache s) (table_block (g_sb s) i)) i"
  by (simp_all add: fsys_of_def)

lemma cache_view_length: "cache_ok c \<Longrightarrow> length (cache_view c b) = 4096"
proof (cases "find_slot c b")
  case (Some i)
  assume "cache_ok c"
  then show ?thesis using find_slot_Some [OF Some] cache_okD(1,5) [of c] Some
    by (auto simp: cache_view_def slot_ok_def)
qed (use cache_okD(4) in \<open>simp add: cache_view_def\<close>)

lemma layout_table:
  assumes l: "layout_ok sb adm" and i: "valid_ino sb i"
  shows "unat (table_block sb i) = unat (sb_inode_table_block sb) + unat i div 32"
    "adm (table_block sb i)" "table_block sb i < sb_data_start_block sb" "table_block sb i < sb_total_blocks sb"
    "table_block sb i \<noteq> sb_block_bitmap_block sb" "table_block sb i \<noteq> sb_inode_bitmap_block sb"
proof -
  have k: "unat i div 32 < (unat (sb_inode_count sb) + 31) div 32"
    using i div_le_mono [of "unat i + 32" "unat (sb_inode_count sb) + 31" 32]
    by (simp add: valid_ino_def word_less_nat_alt)
  have d: "unat (i div 32) = unat i div 32" by (simp add: unat_div)
  have "unat (sb_inode_table_block sb) + unat i div 32 < 32768"
    using l k by (auto simp: layout_ok_def)
  then show u: "unat (table_block sb i) = unat (sb_inode_table_block sb) + unat i div 32"
    by (simp add: table_block_def unat_word_ariths d)
  have "table_block sb i = sb_inode_table_block sb + of_nat (unat i div 32)"
    by (simp add: table_block_def flip: d)
  then show "adm (table_block sb i)" "table_block sb i \<noteq> sb_block_bitmap_block sb" "table_block sb i \<noteq> sb_inode_bitmap_block sb"
    using l k u by (auto simp: layout_ok_def)
  show "table_block sb i < sb_data_start_block sb"
    using l k by (auto simp: layout_ok_def word_less_nat_alt u)
  then show "table_block sb i < sb_total_blocks sb"
    using l by (auto simp: layout_ok_def word_less_nat_alt)
qed

lemma layout_data:
  assumes "layout_ok sb adm" "data_region sb b"
  shows "adm b" "b < sb_total_blocks sb" "b \<noteq> sb_block_bitmap_block sb" "b \<noteq> sb_inode_bitmap_block sb"
    "b \<noteq> 0" "unat b < 32768" "valid_ino sb i \<Longrightarrow> b \<noteq> table_block sb i"
  using assms layout_table(3) [OF assms(1), of i]
  by (auto simp: layout_ok_def data_region_def word_less_nat_alt word_le_nat_alt)

lemma layout_bitmaps:
  assumes "layout_ok sb adm"
  shows "adm (sb_block_bitmap_block sb)" "adm (sb_inode_bitmap_block sb)"
    "sb_block_bitmap_block sb < sb_total_blocks sb" "sb_inode_bitmap_block sb < sb_total_blocks sb"
    "sb_block_bitmap_block sb \<noteq> sb_inode_bitmap_block sb"
    "\<not> data_region sb (sb_block_bitmap_block sb)" "\<not> data_region sb (sb_inode_bitmap_block sb)"
  using assms by (auto simp: layout_ok_def data_region_def word_less_nat_alt word_le_nat_alt)

section \<open>Low-level operations on the image\<close>

lemma read_block_works:
  assumes "working (fscache s)" "data_block (fscache s) b" "b < sb_total_blocks (g_sb s)"
  shows "\<exists>c1. read_block s b = (s\<lparr>fscache := c1\<rparr>, Some (cache_view (fscache s) b)) \<and> working c1 \<and>
    data_block c1 = data_block (fscache s) \<and> (\<forall>q. data_block (fscache s) q \<longrightarrow> cache_view c1 q = cache_view (fscache s) q)"
  using cache_read_works [OF assms(1,2)] assms(3) by (auto simp: read_block_def not_le [symmetric])

lemma write_block_works:
  assumes "working (fscache s)" "data_block (fscache s) b" "b < sb_total_blocks (g_sb s)" "length bs = 4096"
  shows "\<exists>c1. write_block s b bs = (s\<lparr>fscache := c1\<rparr>, True) \<and> working c1 \<and>
    data_block c1 = data_block (fscache s) \<and>
    (\<forall>q. data_block (fscache s) q \<longrightarrow> cache_view c1 q = (if q = b then bs else cache_view (fscache s) q))"
  using cache_write_works [OF assms(1,2,4)] assms(3) by (auto simp: write_block_def not_le [symmetric])

lemma ready_same_view:
  assumes r: "ready s" and c: "working c1" "data_block c1 = data_block (fscache s)"
    "\<forall>q. data_block (fscache s) q \<longrightarrow> cache_view c1 q = cache_view (fscache s) q"
  shows "ready (s\<lparr>fscache := c1\<rparr>) \<and> fsys_of (s\<lparr>fscache := c1\<rparr>) = fsys_of s"
proof -
  have l: "layout_ok (g_sb s) (data_block (fscache s))" using r by (simp add: ready_def)
  have "ready (s\<lparr>fscache := c1\<rparr>)" using r c layout_bitmaps [OF l] by (simp add: ready_def)
  moreover have "fsys_of (s\<lparr>fscache := c1\<rparr>) = fsys_of s"
    using c(3) layout_data(1) [OF l] layout_table(2) [OF l] by (auto simp: fsys_of_def fun_eq_iff)
  ultimately show ?thesis by blast
qed

lemma read_data:
  assumes r: "ready s" and b: "data_region (g_sb s) b"
  shows "\<exists>s1. read_block s b = (s1, Some (f_block (fsys_of s) b)) \<and> ready s1 \<and> fsys_of s1 = fsys_of s"
proof -
  have l: "layout_ok (g_sb s) (data_block (fscache s))" and w: "working (fscache s)" using r by (simp_all add: ready_def)
  from read_block_works [OF w layout_data(1,2) [OF l b]] show ?thesis
    using ready_same_view [OF r] b by fastforce
qed

lemma read_inode_ready:
  assumes r: "ready s" and i: "valid_ino (g_sb s) i"
  shows "\<exists>s1. read_inode s i = (s1, Some (f_inode (fsys_of s) i)) \<and> ready s1 \<and> fsys_of s1 = fsys_of s"
proof -
  have l: "layout_ok (g_sb s) (data_block (fscache s))" and w: "working (fscache s)" using r by (simp_all add: ready_def)
  obtain c1 where c1: "read_block s (table_block (g_sb s) i) =
      (s\<lparr>fscache := c1\<rparr>, Some (cache_view (fscache s) (table_block (g_sb s) i)))" "working c1"
      "data_block c1 = data_block (fscache s)" "\<forall>q. data_block (fscache s) q \<longrightarrow> cache_view c1 q = cache_view (fscache s) q"
    using read_block_works [OF w layout_table(2,4) [OF l i]] by blast
  show ?thesis
    using ready_same_view [OF r c1(2-4)] c1(1) i
    by (auto simp: read_inode_def valid_ino_def table_block_def Let_def inode_slot_def)
qed

lemma read_inode_invalid: "\<not> valid_ino (g_sb s) i \<Longrightarrow> read_inode s i = (s, None)"
  by (auto simp: read_inode_def valid_ino_def)

lemma inode_at_wf: "ready s \<Longrightarrow> inode_wf (f_inode (fsys_of s) i)"
proof (cases "valid_ino (g_sb s) i")
  case True
  assume "ready s"
  then have "length (cache_view (fscache s) (table_block (g_sb s) i)) = 4096"
    by (intro cache_view_length) (simp add: ready_def working_def)
  moreover have "unat (i mod 32) < 32" by (simp add: unat_mod)
  ultimately show ?thesis using True by (simp add: inode_slot_def inode_of_bytes_wf)
qed (simp add: fsys_of_def inode_wf_def new_inode_def)

lemma write_data:
  assumes r: "ready s" and b: "data_region (g_sb s) b" and bs: "length bs = 4096"
  shows "\<exists>s1. write_block s b bs = (s1, True) \<and> ready s1 \<and>
    fsys_of s1 = (fsys_of s)\<lparr>f_block := (f_block (fsys_of s))(b := bs)\<rparr>"
proof -
  have l: "layout_ok (g_sb s) (data_block (fscache s))" and w: "working (fscache s)" using r by (simp_all add: ready_def)
  obtain c1 where c1: "write_block s b bs = (s\<lparr>fscache := c1\<rparr>, True)" "working c1"
      "data_block c1 = data_block (fscache s)"
      "\<forall>q. data_block (fscache s) q \<longrightarrow> cache_view c1 q = (if q = b then bs else cache_view (fscache s) q)"
    using write_block_works [OF w layout_data(1,2) [OF l b] bs] by blast
  have "ready (s\<lparr>fscache := c1\<rparr>)"
    using r c1 layout_bitmaps [OF l] layout_data(3,4) [OF l b] by (simp add: ready_def)
  moreover have "fsys_of (s\<lparr>fscache := c1\<rparr>) = (fsys_of s)\<lparr>f_block := (f_block (fsys_of s))(b := bs)\<rparr>"
    using c1(4) b layout_data(1) [OF l] layout_table(2) [OF l] not_sym [OF layout_data(7) [OF l b]]
    by (simp add: fsys_of_def fun_eq_iff)
  ultimately show ?thesis using c1(1) by blast
qed

lemma inode_slot_splice:
  assumes "length bs = 4096" "inode_wf x"
  shows "inode_slot (splice bs (unat (i mod 32) * 128) (inode_bytes x)) k =
    (if k mod 32 = i mod 32 then x else inode_slot bs k)"
proof -
  have m: "unat (i mod 32) < 32" "unat (k mod 32) < 32" by (simp_all add: unat_mod)
  have "unat (k mod 32) = unat (i mod 32) \<longleftrightarrow> k mod 32 = i mod 32" by (rule word_unat_eq_iff [symmetric])
  then show ?thesis
    using splice_record [of bs 32 128 "inode_bytes x" "unat (i mod 32)" "unat (k mod 32)"] assms m
    by (simp add: inode_slot_def)
qed

lemma same_inode_slot: "unat i div 32 = unat k div 32 \<Longrightarrow> i mod 32 = k mod (32 :: u32) \<Longrightarrow> i = k"
proof -
  assume a: "unat i div 32 = unat k div 32" "i mod 32 = k mod (32 :: u32)"
  have "unat i mod 32 = unat k mod 32" using arg_cong [OF a(2), of unat] by (simp add: unat_mod)
  then have "unat i = unat k" using a(1) by (metis div_mult_mod_eq)
  then show ?thesis by (simp add: word_unat_eq_iff)
qed

lemma write_inode_ready:
  assumes r: "ready s" and i: "valid_ino (g_sb s) i" and x: "inode_wf x"
  shows "\<exists>s1. write_inode s i x = (s1, True) \<and> ready s1 \<and>
    fsys_of s1 = (fsys_of s)\<lparr>f_inode := (f_inode (fsys_of s))(i := x)\<rparr>"
proof -
  let ?b = "table_block (g_sb s) i"
  have l: "layout_ok (g_sb s) (data_block (fscache s))" and w: "working (fscache s)" using r by (simp_all add: ready_def)
  note t = layout_table [OF l i]
  have len: "length (cache_view (fscache s) ?b) = 4096" using w by (simp add: cache_view_length working_def)
  have m: "unat (i mod 32) < 32" by (simp add: unat_mod)
  obtain c1 where c1: "read_block s ?b = (s\<lparr>fscache := c1\<rparr>, Some (cache_view (fscache s) ?b))" "working c1"
      "data_block c1 = data_block (fscache s)" "\<forall>q. data_block (fscache s) q \<longrightarrow> cache_view c1 q = cache_view (fscache s) q"
    using read_block_works [OF w t(2,4)] by blast
  let ?bs = "splice (cache_view (fscache s) ?b) (unat (i mod 32) * 128) (inode_bytes x)"
  have bs: "length ?bs = 4096" using len m x by simp
  obtain c2 where c2: "write_block (s\<lparr>fscache := c1\<rparr>) ?b ?bs = (s\<lparr>fscache := c2\<rparr>, True)" "working c2"
      "data_block c2 = data_block (fscache s)"
      "\<forall>q. data_block (fscache s) q \<longrightarrow> cache_view c2 q = (if q = ?b then ?bs else cache_view (fscache s) q)"
    using write_block_works [of "s\<lparr>fscache := c1\<rparr>" ?b ?bs] c1 t bs by auto
  have ready: "ready (s\<lparr>fscache := c2\<rparr>)"
    using r c2 layout_bitmaps [OF l] t by (simp add: ready_def)
  have slot: "inode_slot (cache_view c2 (table_block (g_sb s) k)) k =
      (if k = i then x else inode_slot (cache_view (fscache s) (table_block (g_sb s) k)) k)" if k: "valid_ino (g_sb s) k" for k
  proof (cases "table_block (g_sb s) k = ?b")
    case True
    then have "unat k div 32 = unat i div 32" using layout_table(1) [OF l k] t(1) by simp
    then show ?thesis
      using True c2(4) t(2) inode_slot_splice [OF len x, of i k] same_inode_slot [of k i] by auto
  next
    case False
    then show ?thesis using c2(4) layout_table(2) [OF l k] by auto
  qed
  have "fsys_of (s\<lparr>fscache := c2\<rparr>) = (fsys_of s)\<lparr>f_inode := (f_inode (fsys_of s))(i := x)\<rparr>"
    using slot i c2(4) layout_data(1) [OF l] layout_data(7) [OF l _ i] by (simp add: fsys_of_def fun_eq_iff)
  moreover have "write_inode s i x = (s\<lparr>fscache := c2\<rparr>, True)"
    using c1(1) c2(1) i by (simp add: write_inode_def valid_ino_def table_block_def Let_def not_le)
  ultimately show ?thesis using ready by blast
qed

text \<open>Bitmap updates: in memory first, then through the cache.\<close>

lemma flush_block_bitmap_ready:
  assumes r: "ready s" and bm: "length bm = 4096"
  shows "\<exists>s1. flush_block_bitmap (s\<lparr>g_block_bitmap := bm\<rparr>) = (s1, True) \<and> ready s1 \<and> g_block_bitmap s1 = bm \<and>
    fsys_of s1 = (fsys_of s)\<lparr>f_used := {b. data_region (g_sb s) b \<and> bitmap_get bm (unat b)}\<rparr>"
proof -
  let ?s = "s\<lparr>g_block_bitmap := bm\<rparr>" and ?b = "sb_block_bitmap_block (g_sb s)"
  have l: "layout_ok (g_sb s) (data_block (fscache s))" and w: "working (fscache s)" using r by (simp_all add: ready_def)
  note t = layout_bitmaps [OF l]
  obtain c1 where c1: "write_block ?s ?b bm = (?s\<lparr>fscache := c1\<rparr>, True)" "working c1"
      "data_block c1 = data_block (fscache s)"
      "\<forall>q. data_block (fscache s) q \<longrightarrow> cache_view c1 q = (if q = ?b then bm else cache_view (fscache s) q)"
    using write_block_works [of ?s ?b bm] w t bm by auto
  have "ready (?s\<lparr>fscache := c1\<rparr>)" using r c1 t bm by (simp add: ready_def)
  moreover have "fsys_of (?s\<lparr>fscache := c1\<rparr>) = (fsys_of s)\<lparr>f_used := {b. data_region (g_sb s) b \<and> bitmap_get bm (unat b)}\<rparr>"
    using c1(4) layout_data(1) [OF l] layout_table(2) [OF l] layout_table(5) [OF l] layout_data(3) [OF l]
    by (simp add: fsys_of_def fun_eq_iff)
  ultimately show ?thesis using c1(1) by (auto simp: flush_block_bitmap_def)
qed

lemma flush_inode_bitmap_ready:
  assumes r: "ready s" and bm: "length bm = 4096"
  shows "\<exists>s1. flush_inode_bitmap (s\<lparr>g_inode_bitmap := bm\<rparr>) = (s1, True) \<and> ready s1 \<and>
    fsys_of s1 = (fsys_of s)\<lparr>f_live := {i. i < sb_inode_count (g_sb s) \<and> bitmap_get bm (unat i)}\<rparr>"
proof -
  let ?s = "s\<lparr>g_inode_bitmap := bm\<rparr>" and ?b = "sb_inode_bitmap_block (g_sb s)"
  have l: "layout_ok (g_sb s) (data_block (fscache s))" and w: "working (fscache s)" using r by (simp_all add: ready_def)
  note t = layout_bitmaps [OF l]
  obtain c1 where c1: "write_block ?s ?b bm = (?s\<lparr>fscache := c1\<rparr>, True)" "working c1"
      "data_block c1 = data_block (fscache s)"
      "\<forall>q. data_block (fscache s) q \<longrightarrow> cache_view c1 q = (if q = ?b then bm else cache_view (fscache s) q)"
    using write_block_works [of ?s ?b bm] w t bm by auto
  have "ready (?s\<lparr>fscache := c1\<rparr>)" using r c1 t bm by (simp add: ready_def)
  moreover have "fsys_of (?s\<lparr>fscache := c1\<rparr>) =
      (fsys_of s)\<lparr>f_live := {i. i < sb_inode_count (g_sb s) \<and> bitmap_get bm (unat i)}\<rparr>"
    using c1(4) layout_data(1) [OF l] layout_table(2) [OF l] layout_table(6) [OF l] layout_data(4) [OF l]
    by (simp add: fsys_of_def fun_eq_iff)
  ultimately show ?thesis using c1(1) by (auto simp: flush_inode_bitmap_def)
qed

lemma unat_same: "unat x = unat y \<longleftrightarrow> x = (y :: u32)"
  by (rule word_unat_eq_iff [symmetric])

text \<open>A block is handed out zeroed, and only when it was free; the lowest one is taken.\<close>

lemma alloc_block_ready:
  assumes r: "ready s"
  shows "(\<forall>b. data_region (g_sb s) b \<longrightarrow> b \<in> f_used (fsys_of s)) \<and> alloc_block s = (s, 0) \<or>
    (\<exists>s1 b. alloc_block s = (s1, b) \<and> data_region (g_sb s) b \<and> b \<notin> f_used (fsys_of s) \<and> b \<noteq> 0 \<and>
       (\<forall>c. data_region (g_sb s) c \<and> c < b \<longrightarrow> c \<in> f_used (fsys_of s)) \<and> ready s1 \<and>
       fsys_of s1 = (fsys_of s)\<lparr>f_used := insert b (f_used (fsys_of s)),
                                f_block := (f_block (fsys_of s))(b := replicate 4096 0)\<rparr>)"
proof -
  let ?D = "unat (sb_data_start_block (g_sb s))" and ?T = "unat (sb_total_blocks (g_sb s))"
  have l: "layout_ok (g_sb s) (data_block (fscache s))" and bl: "length (g_block_bitmap s) = 4096"
    using r by (simp_all add: ready_def)
  have dt: "?D \<le> ?T" "?T \<le> 32768" using l by (simp_all add: layout_ok_def)
  have region: "data_region (g_sb s) b \<longleftrightarrow> ?D \<le> unat b \<and> unat b < ?T" for b
    by (simp add: data_region_def word_le_nat_alt word_less_nat_alt)
  show ?thesis
  proof (cases "first_clear (g_block_bitmap s) ?D (?T - ?D)")
    case None
    then have "\<forall>b. data_region (g_sb s) b \<longrightarrow> b \<in> f_used (fsys_of s)"
      using dt by (simp add: fsys_of_def first_clear_None region)
    moreover have "alloc_block s = (s, 0)" using None by (simp add: alloc_block_def Let_def)
    ultimately show ?thesis by blast
  next
    case (Some k)
    let ?b = "of_nat k :: u32" and ?bm = "bitmap_set (g_block_bitmap s) k"
    have k: "?D \<le> k" "k < ?T" "\<not> bitmap_get (g_block_bitmap s) k" "\<forall>j. ?D \<le> j \<and> j < k \<longrightarrow> bitmap_get (g_block_bitmap s) j"
      using first_clear_Some [OF Some] dt by auto
    have u: "unat ?b = k" using k(2) dt by (simp add: unat_of_nat)
    have eq: "b = ?b \<longleftrightarrow> unat b = k" for b by (metis u word_unat_eq_iff)
    have reg: "data_region (g_sb s) ?b" using k u by (simp add: region)
    have free: "?b \<notin> f_used (fsys_of s)" using k(3) u by (simp add: fsys_of_def)
    have low: "\<forall>c. data_region (g_sb s) c \<and> c < ?b \<longrightarrow> c \<in> f_used (fsys_of s)"
      using k(4) u by (simp add: fsys_of_def region word_less_nat_alt)
    obtain s1 where s1: "flush_block_bitmap (s\<lparr>g_block_bitmap := ?bm\<rparr>) = (s1, True)" "ready s1"
        "fsys_of s1 = (fsys_of s)\<lparr>f_used := {b. data_region (g_sb s) b \<and> bitmap_get ?bm (unat b)}\<rparr>"
      using flush_block_bitmap_ready [OF r, of ?bm] bl by auto
    have sb1: "g_sb s1 = g_sb s" using arg_cong [OF s1(3), of f_sb] by simp
    have used: "{b. data_region (g_sb s) b \<and> bitmap_get ?bm (unat b)} = insert ?b (f_used (fsys_of s))"
    proof -
      have "bitmap_get ?bm m \<longleftrightarrow> m = k \<or> bitmap_get (g_block_bitmap s) m" for m
        using bitmap_get_set [of k "g_block_bitmap s" m] k(2) dt bl by simp
      moreover have "unat b = k \<Longrightarrow> data_region (g_sb s) b" for b using reg eq by metis
      ultimately have "data_region (g_sb s) b \<and> bitmap_get ?bm (unat b) \<longleftrightarrow> b = ?b \<or> b \<in> f_used (fsys_of s)" for b
        by (cases "unat b = k") (simp_all add: fsys_of_def eq)
      then show ?thesis by blast
    qed
    obtain s2 where s2: "write_block s1 ?b (replicate 4096 0) = (s2, True)" "ready s2"
        "fsys_of s2 = (fsys_of s1)\<lparr>f_block := (f_block (fsys_of s1))(?b := replicate 4096 0)\<rparr>"
      using write_data [OF s1(2), of ?b "replicate 4096 0"] reg sb1 by auto
    have "alloc_block s = (s2, ?b)" using Some s1(1) s2(1) by (simp add: alloc_block_def Let_def)
    moreover have "?b \<noteq> 0" using layout_data(5) [OF l reg] .
    moreover have "fsys_of s2 = (fsys_of s)\<lparr>f_used := insert ?b (f_used (fsys_of s)),
                                f_block := (f_block (fsys_of s))(?b := replicate 4096 0)\<rparr>"
      using s2(3) s1(3) used by simp
    ultimately show ?thesis using reg free low s2(2) by blast
  qed
qed

lemma free_block_ready:
  assumes r: "ready s" and b: "data_region (g_sb s) b"
  shows "\<exists>s1. free_block s b = (s1, True) \<and> ready s1 \<and> fsys_of s1 = (fsys_of s)\<lparr>f_used := f_used (fsys_of s) - {b}\<rparr>"
proof -
  let ?bm = "bitmap_clear (g_block_bitmap s) (unat b)"
  have l: "layout_ok (g_sb s) (data_block (fscache s))" and bl: "length (g_block_bitmap s) = 4096"
    using r by (simp_all add: ready_def)
  obtain s1 where s1: "flush_block_bitmap (s\<lparr>g_block_bitmap := ?bm\<rparr>) = (s1, True)" "ready s1"
      "fsys_of s1 = (fsys_of s)\<lparr>f_used := {c. data_region (g_sb s) c \<and> bitmap_get ?bm (unat c)}\<rparr>"
    using flush_block_bitmap_ready [OF r, of ?bm] bl by auto
  moreover have "{c. data_region (g_sb s) c \<and> bitmap_get ?bm (unat c)} = f_used (fsys_of s) - {b}"
    using layout_data(6) [OF l b] bl by (auto simp: fsys_of_def unat_same)
  moreover have "free_block s b = flush_block_bitmap (s\<lparr>g_block_bitmap := ?bm\<rparr>)"
    using b by (auto simp: free_block_def data_region_def dest: leD)
  ultimately show ?thesis by auto
qed

lemma free_block_outside: "\<not> data_region (g_sb s) b \<Longrightarrow> free_block s b = (s, False)"
  by (auto simp: free_block_def data_region_def)

lemma alloc_inode_ready:
  assumes r: "ready s"
  shows "(\<forall>i. valid_ino (g_sb s) i \<and> i \<noteq> 1 \<longrightarrow> i \<in> f_live (fsys_of s)) \<and> alloc_inode s = (s, 0) \<or>
    (\<exists>s1 i. alloc_inode s = (s1, i) \<and> valid_ino (g_sb s) i \<and> i \<noteq> 1 \<and> i \<notin> f_live (fsys_of s) \<and> ready s1 \<and>
       fsys_of s1 = (fsys_of s)\<lparr>f_live := insert i (f_live (fsys_of s))\<rparr>)"
proof -
  let ?N = "unat (sb_inode_count (g_sb s))"
  have il: "length (g_inode_bitmap s) = 4096" using r by (simp add: ready_def)
  have n: "2 \<le> ?N" "?N \<le> 32768" using r by (simp_all add: ready_def layout_ok_def)
  have one: "i = 1 \<longleftrightarrow> unat i = 1" "i = 0 \<longleftrightarrow> unat i = 0" for i :: u32 by simp_all
  have valid: "valid_ino (g_sb s) i \<and> i \<noteq> 1 \<longleftrightarrow> 2 \<le> unat i \<and> unat i < ?N" for i
    by (simp only: valid_ino_def word_less_nat_alt one) linarith
  show ?thesis
  proof (cases "first_clear (g_inode_bitmap s) 2 (?N - 2)")
    case None
    then have "\<forall>i. valid_ino (g_sb s) i \<and> i \<noteq> 1 \<longrightarrow> i \<in> f_live (fsys_of s)"
    proof -
      have "bitmap_get (g_inode_bitmap s) j" if "2 \<le> j" "j < ?N" for j
        using None that unfolding first_clear_None by auto
      then show ?thesis unfolding valid by (simp add: fsys_of_def word_less_nat_alt)
    qed
    moreover have "alloc_inode s = (s, 0)" using None by (simp add: alloc_inode_def Let_def)
    ultimately show ?thesis by blast
  next
    case (Some k)
    let ?i = "of_nat k :: u32" and ?bm = "bitmap_set (g_inode_bitmap s) k"
    have k: "2 \<le> k" "k < ?N" "\<not> bitmap_get (g_inode_bitmap s) k" using first_clear_Some [OF Some] n by auto
    have u: "unat ?i = k" using k(2) n by (simp add: unat_of_nat)
    have eq: "j = ?i \<longleftrightarrow> unat j = k" for j by (metis u word_unat_eq_iff)
    have v: "valid_ino (g_sb s) ?i" "?i \<noteq> 1" using valid [of ?i] k u by auto
    obtain s1 where s1: "flush_inode_bitmap (s\<lparr>g_inode_bitmap := ?bm\<rparr>) = (s1, True)" "ready s1"
        "fsys_of s1 = (fsys_of s)\<lparr>f_live := {i. i < sb_inode_count (g_sb s) \<and> bitmap_get ?bm (unat i)}\<rparr>"
      using flush_inode_bitmap_ready [OF r, of ?bm] il by auto
    have "{i. i < sb_inode_count (g_sb s) \<and> bitmap_get ?bm (unat i)} = insert ?i (f_live (fsys_of s))"
    proof -
      have "bitmap_get ?bm m \<longleftrightarrow> m = k \<or> bitmap_get (g_inode_bitmap s) m" for m
        using bitmap_get_set [of k "g_inode_bitmap s" m] k(2) n il by simp
      then have "i < sb_inode_count (g_sb s) \<and> bitmap_get ?bm (unat i) \<longleftrightarrow> i = ?i \<or> i \<in> f_live (fsys_of s)" for i
        using k(2) by (cases "unat i = k") (simp_all add: fsys_of_def eq word_less_nat_alt)
      then show ?thesis by blast
    qed
    moreover have "?i \<notin> f_live (fsys_of s)" using k(3) u by (simp add: fsys_of_def)
    moreover have "alloc_inode s = (s1, ?i)" using Some s1(1) by (simp add: alloc_inode_def Let_def)
    ultimately show ?thesis using v s1 by auto
  qed
qed

lemma free_inode_ready:
  assumes r: "ready s" and i: "valid_ino (g_sb s) i" "i \<noteq> 1"
  shows "\<exists>s1. free_inode s i = (s1, True) \<and> ready s1 \<and> fsys_of s1 = (fsys_of s)\<lparr>f_live := f_live (fsys_of s) - {i}\<rparr>"
proof -
  let ?bm = "bitmap_clear (g_inode_bitmap s) (unat i)"
  have il: "length (g_inode_bitmap s) = 4096" and n: "unat (sb_inode_count (g_sb s)) \<le> 32768"
    using r by (simp_all add: ready_def layout_ok_def)
  have "i \<noteq> 0" "i < sb_inode_count (g_sb s)" using i(1) by (simp_all add: valid_ino_def)
  then have "unat i < 32768" and ne: "unat i \<noteq> 0" "unat i \<noteq> Suc 0" using n i(2) by (auto simp: word_less_nat_alt)
  have "unat (2 :: u32) = 2" by simp
  then have "unat (2 :: u32) \<le> unat i" using ne by linarith
  then have 2: "(2 :: u32) \<le> i" by (simp only: word_le_nat_alt)
  obtain s1 where s1: "flush_inode_bitmap (s\<lparr>g_inode_bitmap := ?bm\<rparr>) = (s1, True)" "ready s1"
      "fsys_of s1 = (fsys_of s)\<lparr>f_live := {k. k < sb_inode_count (g_sb s) \<and> bitmap_get ?bm (unat k)}\<rparr>"
    using flush_inode_bitmap_ready [OF r, of ?bm] il by auto
  moreover have "{k. k < sb_inode_count (g_sb s) \<and> bitmap_get ?bm (unat k)} = f_live (fsys_of s) - {i}"
    using \<open>unat i < 32768\<close> il by (auto simp: fsys_of_def unat_same)
  moreover have "free_inode s i = flush_inode_bitmap (s\<lparr>g_inode_bitmap := ?bm\<rparr>)"
    using 2 \<open>i < sb_inode_count (g_sb s)\<close> by (auto simp: free_inode_def dest: leD)
  ultimately show ?thesis by auto
qed

end
