(* ===== verification/Osfs2Files.thy ===== *)
theory Osfs2Files
  imports Osfs2Store
begin

text \<open>
  Files of OSFS-2: the block tree of an inode, the bytes of a file, and what reading, writing and
  truncating do to them, on a device that works.  The invariant \<open>fs_ok\<close> says that the blocks
  of all live inodes are allocated and that no block has two owners.
\<close>

section \<open>Owned blocks and file bytes\<close>

declare fsys_of_sel(3,4) [simp del]

definition live :: "fsys \<Rightarrow> u32 \<Rightarrow> bool" where
  "live F i \<longleftrightarrow> valid_ino (f_sb F) i \<and> i_type (f_inode F i) \<noteq> TYPE_FREE"

text \<open>The block of a logical block number, 0 for a hole, and with number 1040 the table itself.\<close>

definition ptr :: "fsys \<Rightarrow> inode \<Rightarrow> nat \<Rightarrow> u32" where
  "ptr F x n =
     (if n < 16 then i_direct x ! n
      else if i_indirect x = 0 \<or> 1040 \<le> n then 0
      else le32_at (f_block F (i_indirect x)) (4 * (n - 16)))"

definition owned :: "fsys \<Rightarrow> inode \<Rightarrow> nat \<Rightarrow> u32" where
  "owned F x n = (if n = 1040 then i_indirect x else ptr F x n)"

definition fs_ok :: "fsys \<Rightarrow> bool" where
  "fs_ok F \<longleftrightarrow>
     (\<forall>i n. live F i \<and> owned F (f_inode F i) n \<noteq> 0 \<longrightarrow> owned F (f_inode F i) n \<in> f_used F) \<and>
     (\<forall>i j n m. live F i \<and> live F j \<and> owned F (f_inode F i) n \<noteq> 0 \<and>
        owned F (f_inode F i) n = owned F (f_inode F j) m \<longrightarrow> i = j \<and> n = m)"

definition store_ok :: "fsys \<Rightarrow> bool" where
  "store_ok F \<longleftrightarrow> (\<forall>b\<in>f_used F. data_region (f_sb F) b) \<and>
     (\<forall>b. data_region (f_sb F) b \<longrightarrow> b \<noteq> 0 \<and> length (f_block F b) = 4096) \<and> (\<forall>i. inode_wf (f_inode F i))"

definition file_byte :: "fsys \<Rightarrow> inode \<Rightarrow> nat \<Rightarrow> byte" where
  "file_byte F x pos = (let p = ptr F x (pos div 4096) in if p = 0 then 0 else f_block F p ! (pos mod 4096))"

abbreviation with_inode :: "fsys \<Rightarrow> u32 \<Rightarrow> inode \<Rightarrow> fsys" where
  "with_inode F i x \<equiv> F\<lparr>f_inode := (f_inode F)(i := x)\<rparr>"

lemma fs_okD:
  assumes "fs_ok F"
  shows "live F i \<Longrightarrow> owned F (f_inode F i) n \<noteq> 0 \<Longrightarrow> owned F (f_inode F i) n \<in> f_used F"
    "live F i \<Longrightarrow> live F j \<Longrightarrow> owned F (f_inode F i) n \<noteq> 0 \<Longrightarrow>
     owned F (f_inode F i) n = owned F (f_inode F j) m \<Longrightarrow> i = j \<and> n = m"
  using assms unfolding fs_ok_def by blast+

lemma ready_store: "ready s \<Longrightarrow> store_ok (fsys_of s)"
proof -
  assume r: "ready s"
  have l: "layout_ok (g_sb s) (data_block (fscache s))" using r by (simp add: ready_def)
  have "length (cache_view (fscache s) b) = 4096" for b
    using r by (intro cache_view_length) (simp add: ready_def working_def)
  then show ?thesis
    using inode_at_wf [OF r] layout_data(5) [OF l] by (auto simp: store_ok_def) (auto simp: fsys_of_def)
qed

lemma owned_ptr: "n < 1040 \<Longrightarrow> owned F x n = ptr F x n" "owned F x 1040 = i_indirect x" "1040 < n \<Longrightarrow> owned F x n = 0"
  by (simp_all add: owned_def ptr_def)

text \<open>An inode that owns its blocks properly, on its own or as the replacement of one.\<close>

lemma with_inode_id [simp]: "with_inode F i (f_inode F i) = F"
  by simp

lemma owned_with_inode [simp]: "owned (F\<lparr>f_inode := g\<rparr>) = owned F" "ptr (F\<lparr>f_inode := g\<rparr>) = ptr F"
  "file_byte (F\<lparr>f_inode := g\<rparr>) = file_byte F"
  by (simp_all add: fun_eq_iff owned_def ptr_def file_byte_def Let_def)

lemma owned_used:
  "fs_ok (with_inode F i x) \<Longrightarrow> valid_ino (f_sb F) i \<Longrightarrow> i_type x \<noteq> 0 \<Longrightarrow> owned F x n \<noteq> 0 \<Longrightarrow> owned F x n \<in> f_used F"
  using fs_okD(1) [of "with_inode F i x" i n] by (simp add: live_def)

lemma ptr_cong: "(i_indirect x \<noteq> 0 \<Longrightarrow> f_block F' (i_indirect x) = f_block F (i_indirect x)) \<Longrightarrow> ptr F' x n = ptr F x n"
  by (simp add: ptr_def)

lemma owned_cong: "(i_indirect x \<noteq> 0 \<Longrightarrow> f_block F' (i_indirect x) = f_block F (i_indirect x)) \<Longrightarrow> owned F' x n = owned F x n"
  using ptr_cong [of x F' F n] by (simp add: owned_def)

lemma file_byte_cong:
  assumes "\<And>q. q \<noteq> 0 \<Longrightarrow> (q = i_indirect x \<or> (\<exists>n. q = ptr F x n)) \<Longrightarrow> f_block F' q = f_block F q"
  shows "file_byte F' x pos = file_byte F x pos"
proof -
  have "ptr F' x (pos div 4096) = ptr F x (pos div 4096)" by (rule ptr_cong) (use assms in blast)
  moreover have "ptr F x (pos div 4096) \<noteq> 0 \<Longrightarrow> f_block F' (ptr F x (pos div 4096)) = f_block F (ptr F x (pos div 4096))"
    by (rule assms) auto
  ultimately show ?thesis by (simp add: file_byte_def Let_def)
qed

text \<open>Blocks outside the used ones may change freely.\<close>

lemma other_inode_same:
  assumes ok: "fs_ok F" and k: "live F k"
    and same: "\<And>q. q \<in> f_used F \<Longrightarrow> q \<noteq> 0 \<Longrightarrow> (\<forall>n. q = owned F (f_inode F k) n \<longrightarrow> f_block F' q = f_block F q)"
  shows "owned F' (f_inode F k) n = owned F (f_inode F k) n" "ptr F' (f_inode F k) m = ptr F (f_inode F k) m"
    "file_byte F' (f_inode F k) pos = file_byte F (f_inode F k) pos"
proof -
  have u: "f_block F' q = f_block F q" if "q \<noteq> 0" "q = owned F (f_inode F k) n" for q n
    using fs_okD(1) [OF ok k, of n] same that by blast
  have i: "i_indirect (f_inode F k) \<noteq> 0 \<Longrightarrow> f_block F' (i_indirect (f_inode F k)) = f_block F (i_indirect (f_inode F k))"
    using u [of _ 1040] by (simp add: owned_ptr)
  show "owned F' (f_inode F k) n = owned F (f_inode F k) n" "ptr F' (f_inode F k) m = ptr F (f_inode F k) m"
    using owned_cong [OF i] ptr_cong [OF i] by blast+
  have p: "f_block F' (ptr F (f_inode F k) n) = f_block F (ptr F (f_inode F k) n)" if "ptr F (f_inode F k) n \<noteq> 0" for n
  proof -
    have "n < 1040" using that by (auto simp: ptr_def split: if_splits)
    then show ?thesis using u [OF that, of n] by (simp add: owned_ptr)
  qed
  show "file_byte F' (f_inode F k) pos = file_byte F (f_inode F k) pos"
    by (rule file_byte_cong) (use i p in auto)
qed

section \<open>Resolving without allocation\<close>

lemma indirect_region:
  assumes "store_ok F" "fs_ok (with_inode F i x)" "valid_ino (f_sb F) i" "i_type x \<noteq> 0" "owned F x n \<noteq> 0"
  shows "data_region (f_sb F) (owned F x n)"
  using owned_used [OF assms(2-5)] assms(1) by (simp add: store_ok_def)

lemma resolve_read:
  assumes r: "ready s" and ok: "fs_ok (with_inode (fsys_of s) i x)" and x: "valid_ino (g_sb s) i" "i_type x \<noteq> 0"
  shows "\<exists>s1. resolve_block s x n False = (s1, x, ptr (fsys_of s) x n) \<and> ready s1 \<and> fsys_of s1 = fsys_of s"
proof (cases "16 \<le> n \<and> n < 1040 \<and> i_indirect x \<noteq> 0")
  case True
  have "data_region (g_sb s) (i_indirect x)"
    using indirect_region [OF ready_store [OF r] ok, of 1040] x True by (simp add: owned_ptr)
  then obtain s1 where "read_block s (i_indirect x) = (s1, Some (f_block (fsys_of s) (i_indirect x)))"
      "ready s1" "fsys_of s1 = fsys_of s" using read_data [OF r] by blast
  then show ?thesis using True by (auto simp: resolve_block_def ptr_def Let_def)
next
  case False
  then show ?thesis using r by (auto simp: resolve_block_def ptr_def Let_def)
qed

section \<open>Reading\<close>

lemma take_drop_map: "off + n \<le> length bs \<Longrightarrow> take n (drop off bs) = map (\<lambda>k. bs ! (off + k)) [0..<n]"
  by (auto intro!: nth_equalityI)

lemma map_upt_shift: "map f [a..<a + n] = map (\<lambda>k. f (a + k)) [0..<n]"
  by (auto intro!: nth_equalityI)

text \<open>The positions of one block.\<close>

lemma same_block:
  assumes "pos mod 4096 + k < 4096"
  shows "(pos + k) div 4096 = pos div 4096 \<and> (pos + k) mod 4096 = pos mod (4096 :: nat) + k"
proof -
  have "pos + k = 4096 * (pos div 4096) + (pos mod 4096 + k)" by simp
  then have "(pos + k) div 4096 = pos div 4096 + (pos mod 4096 + k) div 4096 \<and>
      (pos + k) mod 4096 = (pos mod 4096 + k) mod 4096"
    by (metis div_mult_self4 mod_mult_self4 zero_neq_numeral)
  then show ?thesis using assms by simp
qed

lemma read_loop_ok:
  assumes "ready s" "fs_ok (with_inode (fsys_of s) i x)" "valid_ino (g_sb s) i" "i_type x \<noteq> 0"
    and "pos + len \<le> 2 ^ 32"
  shows "\<exists>s1. read_loop s x pos len = (s1, map (file_byte (fsys_of s) x) [pos..<pos + len], True) \<and>
    ready s1 \<and> fsys_of s1 = fsys_of s"
  using assms
proof (induction len arbitrary: s pos rule: less_induct)
  case (less len)
  let ?F = "fsys_of s"
  show ?case
  proof (cases "len = 0")
    case True
    then show ?thesis using less.prems(1) by (simp add: read_loop.simps [of s x pos 0])
  next
    case False
    define can where "can = min (4096 - pos mod 4096) len"
    have can: "0 < can" "can \<le> len" "pos mod 4096 + can \<le> 4096" using False by (auto simp: can_def)
    have "pos < 2 ^ 32" using less.prems(5) False by simp
    then have "(pos div 4096) mod 2 ^ 32 = pos div 4096"
      using div_le_dividend [of pos 4096] by (intro mod_less) linarith
    then have lbn: "pos div 4096 mod 4294967296 = pos div 4096" by simp
    let ?p = "ptr ?F x (pos div 4096)"
    obtain s1 where s1: "resolve_block s x (pos div 4096) False = (s1, x, ?p)" "ready s1" "fsys_of s1 = ?F"
      using resolve_read [OF less.prems(1-4)] by blast
    have sb1: "g_sb s1 = g_sb s" using arg_cong [OF s1(3), of f_sb] by simp
    have chunk: "map (file_byte ?F x) [pos..<pos + can] =
        (if ?p = 0 then replicate can 0 else take can (drop (pos mod 4096) (f_block ?F ?p)))"
    proof -
      have b: "file_byte ?F x (pos + k) = (if ?p = 0 then 0 else f_block ?F ?p ! (pos mod 4096 + k))" if "k < can" for k
        using same_block [of pos k] that can by (simp add: file_byte_def Let_def)
      show ?thesis
      proof (cases "?p = 0")
        case True
        then show ?thesis using b by (auto simp: map_upt_shift intro!: nth_equalityI)
      next
        case False
        have pn: "pos div 4096 < 1040" using False by (auto simp: ptr_def split: if_splits)
        have "data_region (g_sb s) ?p"
          using indirect_region [OF ready_store [OF less.prems(1)] less.prems(2), of "pos div 4096"] less.prems(3,4) False pn
          by (simp add: owned_ptr)
        then have "length (f_block ?F ?p) = 4096" using ready_store [OF less.prems(1)] by (simp add: store_ok_def)
        then show ?thesis using False b can by (auto simp: map_upt_shift take_drop_map intro!: nth_equalityI)
      qed
    qed
    have split: "[pos..<pos + len] = [pos..<pos + can] @ [pos + can..<pos + len]"
      using can(2) upt_add_eq_append [of pos "pos + can" "len - can"] by (simp add: add.assoc)
    have rest: "\<exists>s3. read_loop s2 x (pos + can) (len - can) =
        (s3, map (file_byte ?F x) [pos + can..<pos + len], True) \<and> ready s3 \<and> fsys_of s3 = ?F"
      if "ready s2" "fsys_of s2 = ?F" for s2
    proof -
      have "g_sb s2 = g_sb s" using arg_cong [OF that(2), of f_sb] by simp
      then have "\<exists>s3. read_loop s2 x (pos + can) (len - can) =
          (s3, map (file_byte (fsys_of s2) x) [pos + can..<(pos + can) + (len - can)], True) \<and>
          ready s3 \<and> fsys_of s3 = fsys_of s2"
        using can less.prems that by (intro less.IH) auto
      then show ?thesis using that(2) can(2) by simp
    qed
    show ?thesis
    proof (cases "?p = 0")
      case True
      obtain s3 where "read_loop s1 x (pos + can) (len - can) =
        (s3, map (file_byte ?F x) [pos + can..<pos + len], True)" "ready s3" "fsys_of s3 = ?F"
        using rest [OF s1(2,3)] by blast
      then show ?thesis
        using False True s1(1) chunk unfolding read_loop.simps [of s x pos len] split map_append
        by (simp add: lbn Let_def can_def [symmetric])
    next
      case p: False
      have pn: "pos div 4096 < 1040" using p by (auto simp: ptr_def split: if_splits)
      have "data_region (g_sb s1) ?p"
        using indirect_region [OF ready_store [OF less.prems(1)] less.prems(2), of "pos div 4096"] less.prems(3,4) p pn sb1
        by (simp add: owned_ptr)
      then obtain s2 where s2: "read_block s1 ?p = (s2, Some (f_block ?F ?p))" "ready s2" "fsys_of s2 = ?F"
        using read_data [OF s1(2), of ?p] s1(3) by auto
      obtain s3 where "read_loop s2 x (pos + can) (len - can) =
        (s3, map (file_byte ?F x) [pos + can..<pos + len], True)" "ready s3" "fsys_of s3 = ?F"
        using rest [OF s2(2,3)] by blast
      then show ?thesis
        using False p s1(1) s2(1) chunk unfolding read_loop.simps [of s x pos len] split map_append
        by (simp add: lbn Let_def can_def [symmetric])
    qed
  qed
qed

lemma osfs2_read_bytes:
  assumes r: "ready s" and ok: "fs_ok (fsys_of s)" and v: "valid_ino (g_sb s) ino"
    and x: "f_inode (fsys_of s) ino = x" "i_type x = TYPE_FILE \<or> i_type x = TYPE_DIR"
  shows "\<exists>s1. osfs2_read s ino off len =
      (s1, Some (map (file_byte (fsys_of s) x) [off..<min (off + len) (unat (i_size x))])) \<and>
    ready s1 \<and> fsys_of s1 = fsys_of s"
proof -
  obtain s1 where s1: "read_inode s ino = (s1, Some x)" "ready s1" "fsys_of s1 = fsys_of s"
    using read_inode_ready [OF r v] x(1) by blast
  have sb1: "g_sb s1 = g_sb s" using arg_cong [OF s1(3), of f_sb] by simp
  have p: "present s" using r by (simp add: ready_def)
  have t: "i_type x \<noteq> 0" using x(2) by auto
  let ?n = "min len (unat (i_size x) - off)"
  show ?thesis
  proof (cases "unat (i_size x) \<le> off \<or> len = 0")
    case True
    then have e: "[off..<min (off + len) (unat (i_size x))] = []" by auto
    show ?thesis unfolding e using True s1 p x(2) by (auto simp: osfs2_read_def Let_def)
  next
    case False
    have u: "unat (i_size x) < 2 ^ 32" using unsigned_less [of "i_size x"] by simp
    then have "off + ?n \<le> 2 ^ 32" using False by linarith
    then obtain s2 where s2: "read_loop s1 x off ?n = (s2, map (file_byte (fsys_of s1) x) [off..<off + ?n], True)"
        "ready s2" "fsys_of s2 = fsys_of s1"
      using read_loop_ok [OF s1(2), of ino x off ?n] ok s1(3) v sb1 t x(1) by auto
    have "off + ?n = min (off + len) (unat (i_size x))" using False by auto
    then show ?thesis using False s1 s2 p x(2) by (auto simp: osfs2_read_def Let_def)
  qed
qed

section \<open>Allocating blocks for a file\<close>

definition space :: "fsys \<Rightarrow> bool" where
  "space F \<longleftrightarrow> (\<exists>b. data_region (f_sb F) b \<and> b \<notin> f_used F)"

definition same_file :: "fsys \<Rightarrow> fsys \<Rightarrow> inode \<Rightarrow> bool" where
  "same_file F F' y \<longleftrightarrow> (\<forall>m. owned F' y m = owned F y m) \<and> (\<forall>p. file_byte F' y p = file_byte F y p)"

text \<open>
  The file \<open>i\<close>, whose inode \<open>x\<close> is in memory, has grown: its inode is now \<open>x1\<close>, still not
  written back, and all other files are as they were.
\<close>

definition extends :: "u32 \<Rightarrow> fsys \<Rightarrow> inode \<Rightarrow> fsys \<Rightarrow> inode \<Rightarrow> bool" where
  "extends i F x F1 x1 \<longleftrightarrow>
     f_sb F1 = f_sb F \<and> f_inode F1 = f_inode F \<and> f_live F1 = f_live F \<and> f_stack F1 = f_stack F \<and>
     f_used F \<subseteq> f_used F1 \<and> inode_wf x1 \<and>
     x1 = x\<lparr>i_direct := i_direct x1, i_indirect := i_indirect x1\<rparr> \<and>
     fs_ok (with_inode F1 i x1) \<and> (\<forall>k. k \<noteq> i \<and> live F k \<longrightarrow> same_file F F1 (f_inode F k))"

lemma extends_refl: "fs_ok (with_inode F i x) \<Longrightarrow> inode_wf x \<Longrightarrow> extends i F x F x"
  by (simp add: extends_def same_file_def)

lemma extends_trans: "extends i F x F1 x1 \<Longrightarrow> extends i F1 x1 F2 x2 \<Longrightarrow> extends i F x F2 x2"
  unfolding extends_def same_file_def live_def
  by (auto intro: subset_trans) (metis inode.surjective inode.update_convs(7,8))

lemma extends_fields:
  assumes "extends i F x F1 x1"
  shows "i_type x1 = i_type x" "i_size x1 = i_size x" "f_sb F1 = f_sb F" "f_inode F1 = f_inode F" "inode_wf x1"
    "fs_ok (with_inode F1 i x1)" "f_used F \<subseteq> f_used F1"
proof -
  have "x1 = x\<lparr>i_direct := i_direct x1, i_indirect := i_indirect x1\<rparr>" using assms by (simp add: extends_def)
  then show "i_type x1 = i_type x" "i_size x1 = i_size x" by (metis inode.select_convs(1,2) inode.surjective inode.update_convs(7,8))+
  show "f_sb F1 = f_sb F" "f_inode F1 = f_inode F" "inode_wf x1" "fs_ok (with_inode F1 i x1)" "f_used F \<subseteq> f_used F1"
    using assms unfolding extends_def by blast+
qed

lemma le32_at_zeros [simp]: "off + 4 \<le> n \<Longrightarrow> le32_at (replicate n 0) off = 0"
  by (simp add: le32_at_def le32_of_def)

lemma le32_at_splice:
  assumes "length bs = 4 * n" "i < n" "k < n"
  shows "le32_at (splice bs (4 * i) (le32_bytes w)) (4 * k) = (if k = i then w else le32_at bs (4 * k))"
proof -
  have e: "le32_at ys (k * 4) = le32_at (take 4 (drop (k * 4) ys)) 0" if "length ys = n * 4" for ys
    using that assms(3) by (simp add: le32_at_def)
  have l: "length bs = n * 4" "length (splice bs (i * 4) (le32_bytes w)) = n * 4" using assms by simp_all
  have "le32_at (splice bs (i * 4) (le32_bytes w)) (k * 4) = (if k = i then w else le32_at bs (k * 4))"
    unfolding e [OF l(1)] e [OF l(2)]
    using splice_record [of bs n 4 "le32_bytes w" i k] assms l le32_at_bytes [of 0 "[]" w "[]"] by simp
  then show ?thesis by (simp only: mult.commute)
qed

text \<open>One more block in the tree, in a place that was empty.\<close>

lemma add_owned:
  assumes ok: "fs_ok (with_inode F i x)" and v: "valid_ino (f_sb F) i" and t: "i_type x \<noteq> 0"
    and b: "b \<notin> f_used F" "b \<noteq> 0" "f_block F1 b = replicate 4096 0"
    and F1: "f_sb F1 = f_sb F" "f_inode F1 = f_inode F" "f_live F1 = f_live F" "f_stack F1 = f_stack F"
      "f_used F1 = insert b (f_used F)"
    and x1: "x1 = x\<lparr>i_direct := i_direct x1, i_indirect := i_indirect x1\<rparr>" "inode_wf x1"
    and blocks: "\<And>q. q \<in> f_used F \<Longrightarrow> q \<noteq> i_indirect x \<Longrightarrow> f_block F1 q = f_block F q"
    and slots: "\<And>m. owned F1 x1 m = (if m = n then b else owned F x m)" and hole: "owned F x n = 0"
  shows "extends i F x F1 x1 \<and> (\<forall>pos. file_byte F1 x1 pos = file_byte F x pos)"
proof -
  have t1: "i_type x1 = i_type x" using x1(1) by (metis inode.select_convs(1) inode.surjective inode.update_convs(7,8))
  let ?G = "with_inode F i x" and ?G1 = "with_inode F1 i x1"
  have li: "live ?G i" using v t by (simp add: live_def)
  have used_x: "owned F x m \<noteq> 0 \<Longrightarrow> owned F x m \<in> f_used F" for m
    using owned_used [OF ok v t] .
  have other: "same_file F F1 (f_inode F k)" if k: "k \<noteq> i" "live F k" for k
  proof -
    have lk: "live ?G k" using k by (simp add: live_def)
    have "f_block F1 q = f_block ?G q" if q: "q \<in> f_used ?G" "q = owned ?G (f_inode ?G k) m" "q \<noteq> 0" for q m
    proof (cases "q = i_indirect x")
      case True
      then have "owned ?G (f_inode ?G k) m = owned ?G (f_inode ?G i) 1040" using q(2) by (simp add: owned_ptr)
      then have "k = i" using fs_okD(2) [OF ok lk li, of m 1040] q(2,3) by blast
      then show ?thesis using k(1) by contradiction
    next
      case False
      then show ?thesis using blocks [of q] q(1) by simp
    qed
    then have same: "q \<in> f_used ?G \<Longrightarrow> q \<noteq> 0 \<Longrightarrow> \<forall>n. q = owned ?G (f_inode ?G k) n \<longrightarrow> f_block F1 q = f_block ?G q" for q
      by blast
    have "owned F1 (f_inode ?G k) n = owned ?G (f_inode ?G k) n"
      "file_byte F1 (f_inode ?G k) pos = file_byte ?G (f_inode ?G k) pos" for n pos
      by (rule other_inode_same [OF ok lk same]; assumption)+
    then show ?thesis using k by (simp add: same_file_def)
  qed
  have own1: "owned ?G1 (f_inode ?G1 k) m = (if k = i \<and> m = n then b else owned ?G (f_inode ?G k) m)"
    if "live ?G1 k" for k m
    using that slots other [of k] F1 by (auto simp: same_file_def live_def)
  have live1: "live ?G1 k \<longleftrightarrow> live ?G k" for k using F1 t1 by (simp add: live_def)
  have not_b: "owned ?G (f_inode ?G k) m \<noteq> b" if "live ?G k" for k m
    using fs_okD(1) [OF ok that, of m] b by auto
  have "fs_ok ?G1"
    unfolding fs_ok_def
  proof (intro conjI allI impI)
    fix k m assume a: "live ?G1 k \<and> owned ?G1 (f_inode ?G1 k) m \<noteq> 0"
    then show "owned ?G1 (f_inode ?G1 k) m \<in> f_used ?G1"
      using own1 [of k m] fs_okD(1) [OF ok, of k m] live1 F1 by auto
  next
    fix k j m l
    assume "live ?G1 k \<and> live ?G1 j \<and> owned ?G1 (f_inode ?G1 k) m \<noteq> 0 \<and>
      owned ?G1 (f_inode ?G1 k) m = owned ?G1 (f_inode ?G1 j) l"
    then have a: "live ?G k" "live ?G j" "owned ?G1 (f_inode ?G1 k) m \<noteq> 0"
      "owned ?G1 (f_inode ?G1 k) m = owned ?G1 (f_inode ?G1 j) l"
      "owned ?G1 (f_inode ?G1 k) m = (if k = i \<and> m = n then b else owned ?G (f_inode ?G k) m)"
      "owned ?G1 (f_inode ?G1 j) l = (if j = i \<and> l = n then b else owned ?G (f_inode ?G j) l)"
      using own1 live1 by blast+
    then have "k = j \<and> m = l"
      using not_b [of k m] not_b [of j l] fs_okD(2) [OF ok a(1,2), of m l] by (metis (no_types))
    then show "k = j" "m = l" by blast+
  qed
  then have "extends i F x F1 x1" using F1 x1 other by (auto simp: extends_def)
  moreover have "file_byte F1 x1 pos = file_byte F x pos" for pos
  proof -
    let ?m = "pos div 4096"
    have p1: "ptr F1 x1 ?m = (if ?m = n \<and> ?m < 1040 then b else ptr F x ?m)"
    proof (cases "?m < 1040")
      case True
      then show ?thesis using slots [of ?m] by (simp add: owned_ptr)
    qed (simp add: ptr_def)
    show ?thesis
    proof (cases "?m = n \<and> ?m < 1040")
      case True
      then have "ptr F x ?m = 0" using hole by (simp add: owned_ptr)
      then show ?thesis using p1 True b by (simp add: file_byte_def Let_def)
    next
      case m: False
      show ?thesis
      proof (cases "ptr F x ?m = 0")
        case False
        then have lt: "?m < 1040" by (auto simp: ptr_def split: if_splits)
        then have o: "owned F x ?m = ptr F x ?m" by (simp add: owned_ptr)
        have "ptr F x ?m \<noteq> i_indirect x"
          using fs_okD(2) [OF ok li li, of ?m 1040] False o lt by (auto simp: owned_ptr)
        then have "f_block F1 (ptr F x ?m) = f_block F (ptr F x ?m)"
          using blocks [of "ptr F x ?m"] used_x [of ?m] False o by simp
        then show ?thesis using p1 m by (simp add: file_byte_def Let_def)
      qed (use p1 m in \<open>simp add: file_byte_def Let_def\<close>)
    qed
  qed
  ultimately show ?thesis by blast
qed

lemma same_sb: "fsys_of s1 = F \<Longrightarrow> f_sb F = g_sb s \<Longrightarrow> g_sb s1 = g_sb s"
  by (metis fsys_of_sel(1))

lemma zero_block_entry: "f_block F ind = replicate 4096 0 \<Longrightarrow> m < 1040 \<Longrightarrow> 16 \<le> m \<Longrightarrow>
   le32_at (f_block F ind) (4 * (m - 16)) = 0"
  by simp

text \<open>A direct block.\<close>

lemma resolve_direct:
  assumes r: "ready s" and ok: "fs_ok (with_inode (fsys_of s) i x)" and x: "valid_ino (g_sb s) i" "i_type x \<noteq> 0" "inode_wf x"
    and n: "n < 16"
  shows "\<exists>s1 x1. resolve_block s x n True = (s1, x1, ptr (fsys_of s1) x1 n) \<and> ready s1 \<and>
    extends i (fsys_of s) x (fsys_of s1) x1 \<and> (\<forall>pos. file_byte (fsys_of s1) x1 pos = file_byte (fsys_of s) x pos) \<and>
    (ptr (fsys_of s1) x1 n = 0 \<longrightarrow> \<not> space (fsys_of s1) \<and>
       (\<forall>q\<in>f_used (fsys_of s). f_block (fsys_of s1) q = f_block (fsys_of s) q))"
proof (cases "i_direct x ! n = 0")
  case False
  then show ?thesis using n r ok x extends_refl [of "fsys_of s" i x] by (auto simp: resolve_block_def ptr_def)
next
  case hole: True
  let ?F = "fsys_of s"
  have li: "length (i_direct x) = 16" using x(3) by (simp add: inode_wf_def)
  from alloc_block_ready [OF r] show ?thesis
  proof (elim disjE conjE exE)
    assume "\<forall>b. data_region (g_sb s) b \<longrightarrow> b \<in> f_used ?F" "alloc_block s = (s, 0)"
    then show ?thesis using hole n r ok x extends_refl [of ?F i x]
      by (auto simp: resolve_block_def ptr_def space_def)
  next
    fix s1 b
    assume a: "alloc_block s = (s1, b)" "data_region (g_sb s) b" "b \<notin> f_used ?F" "b \<noteq> 0" "ready s1"
      "fsys_of s1 = ?F\<lparr>f_used := insert b (f_used ?F), f_block := (f_block ?F)(b := replicate 4096 0)\<rparr>"
    let ?x = "x\<lparr>i_direct := (i_direct x)[n := b]\<rparr>" and ?F1 = "fsys_of s1"
    have ind: "i_indirect x \<noteq> 0 \<Longrightarrow> i_indirect x \<in> f_used ?F"
      using owned_used [OF ok, of 1040] x by (simp add: owned_ptr)
    have b: "i_indirect x \<noteq> 0 \<Longrightarrow> f_block ?F1 (i_indirect x) = f_block ?F (i_indirect x)"
      using ind a(3,6) by auto
    have slots: "owned ?F1 ?x m = (if m = n then b else owned ?F x m)" for m
      using b n li by (auto simp: owned_def ptr_def nth_list_update)
    have ext: "extends i ?F x ?F1 ?x \<and> (\<forall>pos. file_byte ?F1 ?x pos = file_byte ?F x pos)"
      by (rule add_owned [OF ok, where b = b and n = n])
        (use a x slots n hole in \<open>auto simp: inode_wf_def owned_def ptr_def\<close>)
    have p: "ptr ?F1 ?x n = b" using slots [of n] n by (simp add: owned_ptr)
    moreover have "resolve_block s x n True = (s1, ?x, b)" using a(1,4) hole n by (simp add: resolve_block_def)
    ultimately show ?thesis using ext a(4,5) by metis
  qed
qed

text \<open>The table is made on demand.\<close>

definition ensure_table :: "osfs2 \<Rightarrow> inode \<Rightarrow> osfs2 \<times> inode \<times> bool" where
  "ensure_table s x =
     (if i_indirect x \<noteq> 0 then (s, x, True)
      else let (s1, b) = alloc_block s in if b = 0 then (s1, x, False) else (s1, x\<lparr>i_indirect := b\<rparr>, True))"

lemma ensure_table_ready:
  assumes r: "ready s" and ok: "fs_ok (with_inode (fsys_of s) i x)" and x: "valid_ino (g_sb s) i" "i_type x \<noteq> 0" "inode_wf x"
  shows "\<exists>s1 x1 done. ensure_table s x = (s1, x1, done) \<and> ready s1 \<and> extends i (fsys_of s) x (fsys_of s1) x1 \<and>
    (\<forall>pos. file_byte (fsys_of s1) x1 pos = file_byte (fsys_of s) x pos) \<and>
    (if done then i_indirect x1 \<noteq> 0 else \<not> space (fsys_of s1) \<and> x1 = x \<and> i_indirect x = 0) \<and>
    (\<forall>q\<in>f_used (fsys_of s). f_block (fsys_of s1) q = f_block (fsys_of s) q)"
proof (cases "i_indirect x = 0")
  case False
  then show ?thesis using r ok x extends_refl [of "fsys_of s" i x] by (auto simp: ensure_table_def)
next
  case hole: True
  let ?F = "fsys_of s"
  from alloc_block_ready [OF r] show ?thesis
  proof (elim disjE conjE exE)
    assume "\<forall>b. data_region (g_sb s) b \<longrightarrow> b \<in> f_used ?F" "alloc_block s = (s, 0)"
    then show ?thesis using hole r ok x extends_refl [of ?F i x]
      by (auto simp: ensure_table_def space_def)
  next
    fix s1 b
    assume a: "alloc_block s = (s1, b)" "data_region (g_sb s) b" "b \<notin> f_used ?F" "b \<noteq> 0" "ready s1"
      "fsys_of s1 = ?F\<lparr>f_used := insert b (f_used ?F), f_block := (f_block ?F)(b := replicate 4096 0)\<rparr>"
    let ?x = "x\<lparr>i_indirect := b\<rparr>" and ?F1 = "fsys_of s1"
    have fb: "f_block ?F1 b = replicate 4096 0" using a(6) by simp
    have slots: "owned ?F1 ?x m = (if m = 1040 then b else owned ?F x m)" for m
      using fb hole by (auto simp: owned_def ptr_def)
    have ext: "extends i ?F x ?F1 ?x \<and> (\<forall>pos. file_byte ?F1 ?x pos = file_byte ?F x pos)"
      by (rule add_owned [OF ok, where b = b and n = 1040])
        (use a x slots hole in \<open>auto simp: inode_wf_def owned_def ptr_def\<close>)
    moreover have "\<forall>q\<in>f_used ?F. f_block ?F1 q = f_block ?F q" using a(3,6) by auto
    ultimately show ?thesis using a(1,4,5) hole by (auto simp: ensure_table_def)
  qed
qed

lemma resolve_indirect:
  assumes r: "ready s" and ok: "fs_ok (with_inode (fsys_of s) i x)" and x: "valid_ino (g_sb s) i" "i_type x \<noteq> 0" "inode_wf x"
    and n: "16 \<le> n" "n < 1040"
  shows "\<exists>s1 x1. resolve_block s x n True = (s1, x1, ptr (fsys_of s1) x1 n) \<and> ready s1 \<and>
    extends i (fsys_of s) x (fsys_of s1) x1 \<and> (\<forall>pos. file_byte (fsys_of s1) x1 pos = file_byte (fsys_of s) x pos) \<and>
    (ptr (fsys_of s1) x1 n = 0 \<longrightarrow> \<not> space (fsys_of s1) \<and>
       (\<forall>q\<in>f_used (fsys_of s). f_block (fsys_of s1) q = f_block (fsys_of s) q))"
proof -
  let ?F = "fsys_of s"
  obtain s1 x1 made where e: "ensure_table s x = (s1, x1, made)" "ready s1" "extends i ?F x (fsys_of s1) x1"
      "\<forall>pos. file_byte (fsys_of s1) x1 pos = file_byte ?F x pos"
      "if made then i_indirect x1 \<noteq> 0 else \<not> space (fsys_of s1) \<and> x1 = x \<and> i_indirect x = 0"
      "\<forall>q\<in>f_used ?F. f_block (fsys_of s1) q = f_block ?F q"
    using ensure_table_ready [OF r ok x] by metis
  note ef = extends_fields [OF e(3)]
  have unf: "resolve_block s x n True =
      (case ensure_table s x of (s1, x1, made) \<Rightarrow>
        if \<not> made then (s1, x1, 0)
        else
          let (s2, r) = read_block s1 (i_indirect x1) in
          case r of
            None \<Rightarrow> (s2, x1, 0)
          | Some ind \<Rightarrow>
              let entry = le32_at ind (4 * (n - 16)) in
              if entry \<noteq> 0 then (s2, x1, entry)
              else
                let (s3, b) = alloc_block s2 in
                if b = 0 then (s3, x1, 0)
                else
                  let (s4, written) = write_block s3 (i_indirect x1) (splice ind (4 * (n - 16)) (le32_bytes b)) in
                  if \<not> written then (fst (free_block s4 b), x1, 0)
                  else (s4, x1, b))"
    using n by (auto simp: resolve_block_def ensure_table_def Let_def split: prod.split option.split)
  show ?thesis
  proof (cases made)
    case False
    then have "ptr (fsys_of s1) x1 n = 0" using e(5) n by (simp add: ptr_def)
    then show ?thesis using False e unf by auto
  next
    case made: True
    let ?G = "fsys_of s1" and ?ind = "i_indirect x1"
    have sb1: "f_sb ?G = g_sb s" "g_sb s1 = g_sb s" using ef(3) by (simp, metis fsys_of_sel(1))
    have v1: "valid_ino (f_sb ?G) i" "i_type x1 \<noteq> 0" using x ef(1) sb1 by simp_all
    have iu: "?ind \<in> f_used ?G" using owned_used [OF ef(6) v1, of 1040] made e(5) by (simp add: owned_ptr)
    have ir: "data_region (g_sb s) ?ind" using iu ready_store [OF e(2)] sb1 by (simp add: store_ok_def)
    obtain s2 where s2: "read_block s1 ?ind = (s2, Some (f_block ?G ?ind))" "ready s2" "fsys_of s2 = ?G"
      using read_data [OF e(2), of ?ind] ir sb1 by auto
    have sb2: "g_sb s2 = g_sb s" using s2(3) sb1 by (metis fsys_of_sel(1))
    let ?entry = "le32_at (f_block ?G ?ind) (4 * (n - 16))"
    have pe: "ptr ?G x1 n = ?entry" using n made e(5) by (simp add: ptr_def)
    show ?thesis
    proof (cases "?entry = 0")
      case False
      then have "resolve_block s x n True = (s2, x1, ptr (fsys_of s2) x1 n)"
        using unf e(1) made s2(1,3) pe by (simp add: Let_def)
      then show ?thesis using s2 e False pe by auto
    next
      case hole: True
      from alloc_block_ready [OF s2(2)] show ?thesis
      proof (elim disjE conjE exE)
        assume a: "\<forall>b. data_region (g_sb s2) b \<longrightarrow> b \<in> f_used (fsys_of s2)" "alloc_block s2 = (s2, 0)"
        then have "resolve_block s x n True = (s2, x1, ptr (fsys_of s2) x1 n)"
          using unf e(1) made s2(1,3) pe hole by (simp add: Let_def)
        moreover have "\<not> space (fsys_of s2)" using a(1) by (simp add: space_def)
        ultimately show ?thesis using s2(2,3) e(3,4,6) by auto
      next
        fix s3 b
        assume a: "alloc_block s2 = (s3, b)" "data_region (g_sb s2) b" "b \<notin> f_used (fsys_of s2)" "b \<noteq> 0" "ready s3"
          "fsys_of s3 = (fsys_of s2)\<lparr>f_used := insert b (f_used (fsys_of s2)),
             f_block := (f_block (fsys_of s2))(b := replicate 4096 0)\<rparr>"
        let ?t = "splice (f_block ?G ?ind) (4 * (n - 16)) (le32_bytes b)"
        have il: "length (f_block ?G ?ind) = 4096" using ready_store [OF e(2)] ir sb1 by (simp add: store_ok_def)
        have sb3: "g_sb s3 = g_sb s" using arg_cong [OF a(6), of f_sb] sb2 by simp
        have n4: "4 * (n - 16) + 4 \<le> 4096" using n by linarith
        obtain s4 where s4: "write_block s3 ?ind ?t = (s4, True)" "ready s4"
            "fsys_of s4 = (fsys_of s3)\<lparr>f_block := (f_block (fsys_of s3))(?ind := ?t)\<rparr>"
          using write_data [OF a(5), of ?ind ?t] ir sb3 il n4 by auto
        let ?H = "fsys_of s4"
        have bi: "b \<noteq> ?ind" using iu a(3) s2(3) by auto
        have fb: "f_block ?H b = replicate 4096 0" "f_block ?H ?ind = ?t" using s4(3) a(6) bi by simp_all
        have entry: "le32_at ?t (4 * (m - 16)) = (if m = n then b else le32_at (f_block ?G ?ind) (4 * (m - 16)))"
          if "16 \<le> m" "m < 1040" for m
          using le32_at_splice [of "f_block ?G ?ind" 1024 "n - 16" "m - 16" b] il that n by auto
        have slots: "owned ?H x1 m = (if m = n then b else owned ?G x1 m)" for m
          using fb(2) n made e(5) entry [of m] by (auto simp: owned_def ptr_def)
        have ext: "extends i ?G x1 ?H x1 \<and> (\<forall>pos. file_byte ?H x1 pos = file_byte ?G x1 pos)"
        proof (rule add_owned [OF ef(6) v1, where b = b and n = n])
          show "b \<notin> f_used ?G" using a(3) s2(3) by simp
          show "f_block ?H q = f_block ?G q" if "q \<in> f_used ?G" "q \<noteq> ?ind" for q
            using that s4(3) a(3,6) s2(3) by auto
          show "owned ?G x1 n = 0" using pe hole n by (simp add: owned_ptr)
        qed (use a s4 s2 fb ef(5) slots in auto)
        have "ptr ?H x1 n = b" using slots [of n] n by (simp add: owned_ptr)
        moreover have "resolve_block s x n True = (s4, x1, b)"
          using unf e(1) made s2(1) hole a(1,4) s4(1) by (simp add: Let_def)
        ultimately show ?thesis using ext extends_trans [OF e(3)] e(4) s4(2) a(4) by auto
      qed
    qed
  qed
qed

lemma resolve_alloc:
  assumes "ready s" "fs_ok (with_inode (fsys_of s) i x)" "valid_ino (g_sb s) i" "i_type x \<noteq> 0" "inode_wf x" "n < 1040"
  shows "\<exists>s1 x1. resolve_block s x n True = (s1, x1, ptr (fsys_of s1) x1 n) \<and> ready s1 \<and>
    extends i (fsys_of s) x (fsys_of s1) x1 \<and> (\<forall>pos. file_byte (fsys_of s1) x1 pos = file_byte (fsys_of s) x pos) \<and>
    (ptr (fsys_of s1) x1 n = 0 \<longrightarrow> \<not> space (fsys_of s1) \<and>
       (\<forall>q\<in>f_used (fsys_of s). f_block (fsys_of s1) q = f_block (fsys_of s) q))"
  using resolve_direct [OF assms(1-5)] resolve_indirect [OF assms(1-5)] assms(6) by (cases "n < 16") auto

section \<open>Writing\<close>

lemma write_owned:
  assumes ok: "fs_ok (with_inode F i x)" and v: "valid_ino (f_sb F) i" "i_type x \<noteq> 0" "inode_wf x"
    and p: "n < 1040" "ptr F x n \<noteq> 0" and F1: "F1 = F\<lparr>f_block := (f_block F)(ptr F x n := bs)\<rparr>"
  shows "extends i F x F1 x \<and>
    (\<forall>q. file_byte F1 x q = (if q div 4096 = n then bs ! (q mod 4096) else file_byte F x q))"
proof -
  let ?G = "with_inode F i x" and ?p = "ptr F x n"
  have li: "live ?G i" using v by (simp add: live_def)
  have o: "owned F x n = ?p" using p by (simp add: owned_ptr)
  have ni: "?p \<noteq> i_indirect x"
    using fs_okD(2) [OF ok li li, of n 1040] o p by (auto simp: owned_ptr)
  have own: "owned F1 x m = owned F x m" "ptr F1 x m = ptr F x m" for m
    using ni F1 by (auto intro!: owned_cong ptr_cong)
  have other: "same_file F F1 (f_inode F k)" if k: "k \<noteq> i" "live F k" for k
  proof -
    have lk: "live ?G k" using k by (simp add: live_def)
    have "f_block F1 q = f_block ?G q" if q: "q = owned ?G (f_inode ?G k) m" "q \<noteq> 0" for q m
    proof (cases "q = ?p")
      case True
      then have "owned ?G (f_inode ?G k) m = owned ?G (f_inode ?G i) n" using q(1) o by simp
      then have "k = i" using fs_okD(2) [OF ok lk li, of m n] q by blast
      then show ?thesis using k(1) by contradiction
    qed (simp add: F1)
    then have same: "q \<in> f_used ?G \<Longrightarrow> q \<noteq> 0 \<Longrightarrow> \<forall>n. q = owned ?G (f_inode ?G k) n \<longrightarrow> f_block F1 q = f_block ?G q" for q
      by blast
    have "owned F1 (f_inode ?G k) n = owned ?G (f_inode ?G k) n"
      "file_byte F1 (f_inode ?G k) pos = file_byte ?G (f_inode ?G k) pos" for n pos
      by (rule other_inode_same [OF ok lk same]; assumption)+
    then show ?thesis using k by (simp add: same_file_def)
  qed
  have own1: "owned (with_inode F1 i x) (f_inode (with_inode F1 i x) k) m = owned ?G (f_inode ?G k) m"
    if "live ?G k" for k m
    using that own other [of k] by (cases "k = i") (auto simp: same_file_def live_def F1)
  have live1: "live (with_inode F1 i x) k \<longleftrightarrow> live ?G k" for k by (simp add: live_def F1)
  have used1: "f_used (with_inode F1 i x) = f_used ?G" by (simp add: F1)
  have "fs_ok (with_inode F1 i x)"
    unfolding fs_ok_def live1 used1
    using own1 fs_okD [OF ok] by (metis (no_types, lifting))
  then have "extends i F x F1 x" using v(3) other by (auto simp: extends_def F1)
  moreover have "file_byte F1 x q = (if q div 4096 = n then bs ! (q mod 4096) else file_byte F x q)" for q
  proof (cases "q div 4096 = n \<or> ptr F x (q div 4096) = 0")
    case True
    then show ?thesis using own(2) p(2) by (auto simp: file_byte_def Let_def F1)
  next
    case False
    then have m: "q div 4096 < 1040" by (auto simp: ptr_def split: if_splits)
    have "ptr F x (q div 4096) \<noteq> ?p"
      using fs_okD(2) [OF ok li li, of "q div 4096" n] False m p(1) by (auto simp: owned_ptr)
    then show ?thesis using False own(2) by (simp add: file_byte_def Let_def F1)
  qed
  ultimately show ?thesis by blast
qed

lemma write_loop_ok:
  assumes "ready s" "fs_ok (with_inode (fsys_of s) i x)" "valid_ino (g_sb s) i" "i_type x \<noteq> 0" "inode_wf x"
    and "pos + length src \<le> 4259840"
  shows "\<exists>s1 x1 n. write_loop s x pos src = (s1, x1, n) \<and> ready s1 \<and> n \<le> length src \<and>
    extends i (fsys_of s) x (fsys_of s1) x1 \<and>
    (\<forall>q. file_byte (fsys_of s1) x1 q =
       (if pos \<le> q \<and> q < pos + n then src ! (q - pos) else file_byte (fsys_of s) x q)) \<and>
    (n < length src \<longrightarrow> \<not> space (fsys_of s1)) \<and>
    (n = 0 \<longrightarrow> (\<forall>q\<in>f_used (fsys_of s). f_block (fsys_of s1) q = f_block (fsys_of s) q))"
  using assms
proof (induction "length src" arbitrary: s x pos src rule: less_induct)
  case less
  let ?F = "fsys_of s"
  note r = less.prems(1) and ok = less.prems(2) and v = less.prems(3-5) and fit = less.prems(6)
  show ?case
  proof (cases "src = []")
    case True
    then show ?thesis using r ok v extends_refl by (auto simp: write_loop.simps [of s x pos "[]"])
  next
    case False
    let ?lbn = "pos div 4096" and ?off = "pos mod 4096"
    define can where "can = min (4096 - ?off) (length src)"
    have can: "0 < can" "can \<le> length src" "?off + can \<le> 4096" using False by (auto simp: can_def)
    have "0 < length src" using False by simp
    then have "pos < 1040 * 4096" using fit by linarith
    then have n: "?lbn < 1040" by (rule less_mult_imp_div_less)
    then have lbn: "?lbn mod 4294967296 = ?lbn" by (intro mod_less) simp
    obtain s1 x1 where s1: "resolve_block s x ?lbn True = (s1, x1, ptr (fsys_of s1) x1 ?lbn)" "ready s1"
        "extends i ?F x (fsys_of s1) x1" "\<forall>pos. file_byte (fsys_of s1) x1 pos = file_byte ?F x pos"
        "ptr (fsys_of s1) x1 ?lbn = 0 \<longrightarrow> \<not> space (fsys_of s1) \<and>
           (\<forall>q\<in>f_used ?F. f_block (fsys_of s1) q = f_block ?F q)"
      using resolve_alloc [OF r ok v n] by metis
    let ?G = "fsys_of s1" and ?p = "ptr (fsys_of s1) x1 ?lbn"
    show ?thesis
    proof (cases "?p = 0")
      case True
      then have "write_loop s x pos src = (s1, x1, 0)"
        using False s1(1) by (simp add: write_loop.simps [of s x pos src] lbn Let_def)
      then show ?thesis using s1 True by auto
    next
      case p: False
      note ef = extends_fields [OF s1(3)]
      have sb1: "f_sb ?G = g_sb s" "g_sb s1 = g_sb s" using ef(3) by (simp, metis fsys_of_sel(1))
      have v1: "valid_ino (f_sb ?G) i" "i_type x1 \<noteq> 0" using v ef(1) sb1 by simp_all
      have "?p \<in> f_used ?G" using owned_used [OF ef(6) v1, of ?lbn] p n by (simp add: owned_ptr)
      then have pr: "data_region (g_sb s1) ?p" using ready_store [OF s1(2)] sb1 by (simp add: store_ok_def)
      let ?full = "?off = 0 \<and> can = 4096"
      have base: "\<exists>s2 b. (if ?full then (s1, Some (replicate 4096 0)) else read_block s1 ?p) = (s2, Some b) \<and>
          ready s2 \<and> fsys_of s2 = ?G \<and> length b = 4096 \<and> (\<not> ?full \<longrightarrow> b = f_block ?G ?p)"
      proof (cases ?full)
        case True
        then show ?thesis using s1(2) by auto
      next
        case False
        obtain s2 where "read_block s1 ?p = (s2, Some (f_block ?G ?p))" "ready s2" "fsys_of s2 = ?G"
          using read_data [OF s1(2) pr] by blast
        moreover have "length (f_block ?G ?p) = 4096" using ready_store [OF s1(2)] pr sb1 by (simp add: store_ok_def)
        ultimately show ?thesis unfolding if_not_P [OF False] by blast
      qed
      then obtain s2 b where s2: "(if ?full then (s1, Some (replicate 4096 0)) else read_block s1 ?p) = (s2, Some b)"
          "ready s2" "fsys_of s2 = ?G" "length b = 4096" "\<not> ?full \<longrightarrow> b = f_block ?G ?p" by (elim exE conjE)
      let ?bs = "splice b ?off (take can src)"
      have lb: "length ?bs = 4096" using s2(4) can by simp
      have sb2: "g_sb s2 = g_sb s1" using s2(3) by (metis fsys_of_sel(1))
      obtain s3 where s3: "write_block s2 ?p ?bs = (s3, True)" "ready s3"
          "fsys_of s3 = ?G\<lparr>f_block := (f_block ?G)(?p := ?bs)\<rparr>"
        using write_data [OF s2(2), of ?p ?bs] pr sb2 s2(3) lb by auto
      have w: "extends i ?G x1 (fsys_of s3) x1"
        "file_byte (fsys_of s3) x1 q = (if q div 4096 = ?lbn then ?bs ! (q mod 4096) else file_byte ?G x1 q)" for q
        using write_owned [OF ef(6) v1 ef(5) n p s3(3)] by blast+
      have ext: "extends i ?F x (fsys_of s3) x1" using extends_trans [OF s1(3) w(1)] .
      note ef3 = extends_fields [OF ext]
      have sb3: "g_sb s3 = g_sb s" using ef3(3) by (metis fsys_of_sel(1))
      have step: "file_byte (fsys_of s3) x1 q = (if pos \<le> q \<and> q < pos + can then src ! (q - pos) else file_byte ?F x q)" for q
      proof (cases "q div 4096 = ?lbn")
        case True
        have q: "q = 4096 * ?lbn + q mod 4096" "pos = 4096 * ?lbn + ?off" using True by (metis mult_div_mod_eq, simp)
        have qm: "q mod 4096 < 4096" by simp
        have inside: "?off \<le> q mod 4096 \<and> q mod 4096 < ?off + can \<longleftrightarrow> pos \<le> q \<and> q < pos + can"
          using q by linarith
        have "?bs ! (q mod 4096) = (if pos \<le> q \<and> q < pos + can then src ! (q - pos) else b ! (q mod 4096))"
        proof -
          have "?bs ! (q mod 4096) = (if ?off \<le> q mod 4096 \<and> q mod 4096 < ?off + can
              then take can src ! (q mod 4096 - ?off) else b ! (q mod 4096))"
            using nth_splice [of ?off "take can src" b "q mod 4096"] can s2(4) by simp
          moreover have "q mod 4096 - ?off = q - pos" using q by linarith
          ultimately show ?thesis using inside by auto
        qed
        moreover have "b ! (q mod 4096) = file_byte ?F x q" if "\<not> (pos \<le> q \<and> q < pos + can)"
        proof -
          have "\<not> ?full" using that inside qm by auto
          then have "b = f_block ?G ?p" using s2(5) by blast
          then have "b ! (q mod 4096) = file_byte ?G x1 q" using True p by (simp add: file_byte_def Let_def)
          then show ?thesis using s1(4) by simp
        qed
        ultimately show ?thesis using w(2) [of q] True by auto
      next
        case no: False
        have "\<not> (pos \<le> q \<and> q < pos + can)"
        proof
          assume a: "pos \<le> q \<and> q < pos + can"
          then have "(pos + (q - pos)) div 4096 = ?lbn" using can(3) by (intro conjunct1 [OF same_block]) linarith
          then show False using no a by simp
        qed
        then show ?thesis using w(2) [of q] no s1(4) by auto
      qed
      have "\<exists>s4 x4 m. write_loop s3 x1 (pos + can) (drop can src) = (s4, x4, m) \<and> ready s4 \<and>
          m \<le> length (drop can src) \<and> extends i (fsys_of s3) x1 (fsys_of s4) x4 \<and>
          (\<forall>q. file_byte (fsys_of s4) x4 q = (if pos + can \<le> q \<and> q < pos + can + m then drop can src ! (q - (pos + can))
             else file_byte (fsys_of s3) x1 q)) \<and> (m < length (drop can src) \<longrightarrow> \<not> space (fsys_of s4)) \<and>
          (m = 0 \<longrightarrow> (\<forall>q\<in>f_used (fsys_of s3). f_block (fsys_of s4) q = f_block (fsys_of s3) q))"
        using s3(2) ef3 v sb3 fit can by (intro less.hyps) auto
      then obtain s4 x4 m where s4: "write_loop s3 x1 (pos + can) (drop can src) = (s4, x4, m)" "ready s4"
          "m \<le> length (drop can src)" "extends i (fsys_of s3) x1 (fsys_of s4) x4"
          "\<forall>q. file_byte (fsys_of s4) x4 q = (if pos + can \<le> q \<and> q < pos + can + m then drop can src ! (q - (pos + can))
             else file_byte (fsys_of s3) x1 q)" "m < length (drop can src) \<longrightarrow> \<not> space (fsys_of s4)" by metis
      have eq: "write_loop s x pos src = (s4, x4, can + m)"
      proof (cases ?full)
        case full: True
        then have "s2 = s1" "b = replicate 4096 0" using s2(1) by simp_all
        then show ?thesis using False s1(1) p s3(1) s4(1)
          unfolding write_loop.simps [of s x pos src] Let_def can_def [symmetric]
          by (simp add: lbn if_P [OF full])
      next
        case part: False
        then have "read_block s1 ?p = (s2, Some b)" using s2(1) by (simp only: if_False)
        then show ?thesis using False s1(1) p s3(1) s4(1)
          unfolding write_loop.simps [of s x pos src] Let_def can_def [symmetric]
          by (simp add: lbn if_not_P [OF part])
      qed
      have "file_byte (fsys_of s4) x4 q = (if pos \<le> q \<and> q < pos + (can + m) then src ! (q - pos) else file_byte ?F x q)" for q
        using s4(5) [rule_format, of q] step [of q] can(2) by (auto simp: nth_drop add.assoc)
      then show ?thesis using eq s4(2,3,6) can extends_trans [OF ext s4(4)] by auto
    qed
  qed
qed

text \<open>The inode in memory is written back: the file system is the one it described.\<close>

lemma write_back:
  assumes e: "extends i F x F1 x1" and y: "y = x1\<lparr>i_size := sz\<rparr>" and t: "i_type x \<noteq> 0"
  shows "fs_ok (with_inode F1 i y) \<and> inode_wf y \<and>
    (\<forall>k. k \<noteq> i \<and> live F k \<longrightarrow> f_inode (with_inode F1 i y) k = f_inode F k \<and> same_file F (with_inode F1 i y) (f_inode F k))"
proof -
  note ef = extends_fields [OF e]
  have o: "owned F1 y = owned F1 x1" by (simp add: y fun_eq_iff owned_def ptr_def)
  have "live (with_inode F1 i y) k = live (with_inode F1 i x1) k"
    "owned F1 (f_inode (with_inode F1 i y) k) m = owned F1 (f_inode (with_inode F1 i x1) k) m" for k m
    using o by (auto simp: live_def y)
  then have "fs_ok (with_inode F1 i y) = fs_ok (with_inode F1 i x1)" by (simp add: fs_ok_def)
  moreover have "inode_wf y" using ef(5) by (simp add: y inode_wf_def)
  moreover have "same_file F (with_inode F1 i y) (f_inode F k)" if "k \<noteq> i" "live F k" for k
    using e that by (auto simp: extends_def same_file_def)
  ultimately show ?thesis using ef by auto
qed

lemma unat_of_nat32: "k < 2 ^ 32 \<Longrightarrow> unat (of_nat k :: u32) = k"
  by (simp add: unat_of_nat)

text \<open>The outcome of a write, in terms of the file's bytes.\<close>

definition written :: "fsys \<Rightarrow> u32 \<Rightarrow> nat \<Rightarrow> byte list \<Rightarrow> fsys \<Rightarrow> bool" where
  "written F ino off src F1 \<longleftrightarrow>
     (let x = f_inode F ino; y = f_inode F1 ino in
      unat (i_size y) = (if src = [] then unat (i_size x) else max (unat (i_size x)) (off + length src)) \<and>
      i_type y = i_type x \<and>
      (\<forall>q. file_byte F1 y q = (if off \<le> q \<and> q < off + length src then src ! (q - off) else file_byte F x q)))"

definition others_same :: "fsys \<Rightarrow> u32 \<Rightarrow> fsys \<Rightarrow> bool" where
  "others_same F ino F1 \<longleftrightarrow> f_sb F1 = f_sb F \<and>
     (\<forall>k. k \<noteq> ino \<and> live F k \<longrightarrow> f_inode F1 k = f_inode F k \<and> same_file F F1 (f_inode F k))"

text \<open>Changes outside the used blocks are invisible.\<close>

lemma unused_changed:
  assumes ok: "fs_ok F" and same: "f_sb F1 = f_sb F" "f_inode F1 = f_inode F" "f_used F \<subseteq> f_used F1"
    "\<forall>q\<in>f_used F. f_block F1 q = f_block F q"
  shows "fs_ok F1 \<and> (\<forall>k. live F k \<longrightarrow> same_file F F1 (f_inode F k))"
proof -
  have f: "same_file F F1 (f_inode F k)" if k: "live F k" for k
  proof -
    have e: "q \<in> f_used F \<Longrightarrow> q \<noteq> 0 \<Longrightarrow> \<forall>n. q = owned F (f_inode F k) n \<longrightarrow> f_block F1 q = f_block F q" for q
      using same(4) by blast
    show ?thesis using other_inode_same(1,3) [OF ok k e] by (simp add: same_file_def)
  qed
  have l: "live F1 k = live F k" for k using same by (simp add: live_def)
  have own: "live F k \<Longrightarrow> owned F1 (f_inode F1 k) n = owned F (f_inode F k) n" for k n
    using f same(2) by (simp add: same_file_def)
  have "fs_ok F1" unfolding fs_ok_def l using own fs_okD [OF ok] same(3) by (metis (no_types, lifting) subsetD)
  then show ?thesis using f by blast
qed

lemma osfs2_write_bytes:
  assumes r: "ready s" and ok: "fs_ok (fsys_of s)" and v: "valid_ino (g_sb s) ino"
    and t: "i_type (f_inode (fsys_of s) ino) = TYPE_FILE" and fit: "off + length src \<le> 4259840" and ne: "src \<noteq> []"
  shows "\<exists>s1 n. osfs2_write s ino off src = (s1, if n = 0 then -1 else int n) \<and> n \<le> length src \<and>
    ready s1 \<and> fs_ok (fsys_of s1) \<and> written (fsys_of s) ino off (take n src) (fsys_of s1) \<and>
    others_same (fsys_of s) ino (fsys_of s1) \<and> (n < length src \<longrightarrow> \<not> space (fsys_of s1))"
proof -
  let ?F = "fsys_of s" and ?x = "f_inode (fsys_of s) ino"
  obtain s1 where s1: "read_inode s ino = (s1, Some ?x)" "ready s1" "fsys_of s1 = ?F" using read_inode_ready [OF r v] by blast
  have sb1: "g_sb s1 = g_sb s" using s1(3) by (metis fsys_of_sel(1))
  have wf: "inode_wf ?x" using inode_at_wf [OF r] .
  have pr: "present s" using r by (simp add: ready_def)
  have ok1: "fs_ok (with_inode (fsys_of s1) ino ?x)" using ok s1(3) by simp
  obtain s2 x2 n where s2: "write_loop s1 ?x off src = (s2, x2, n)" "ready s2" "n \<le> length src"
      "extends ino (fsys_of s1) ?x (fsys_of s2) x2"
      "\<forall>q. file_byte (fsys_of s2) x2 q = (if off \<le> q \<and> q < off + n then src ! (q - off) else file_byte (fsys_of s1) ?x q)"
      "n < length src \<longrightarrow> \<not> space (fsys_of s2)"
      "n = 0 \<longrightarrow> (\<forall>q\<in>f_used (fsys_of s1). f_block (fsys_of s2) q = f_block (fsys_of s1) q)"
    using write_loop_ok [OF s1(2) ok1 _ _ wf fit] v sb1 t by (metis zero_neq_one)
  note e = s2(4) [unfolded s1(3)] and ef = extends_fields [OF s2(4) [unfolded s1(3)]]
  have sb2: "g_sb s2 = g_sb s" using ef(3) by (metis fsys_of_sel(1))
  have add: "add64 off (length src) = off + length src" "add64 off n = off + n"
    using fit s2(3) by (auto intro!: add64_exact)
  have fit': "\<not> add64 off (length src) > 4259840" using add(1) fit by simp
  have start: "osfs2_write s ino off src =
      (if n = 0 then (s2, -1)
       else
         let fi3 = (if off + n > unat (i_size x2) then x2\<lparr>i_size := of_nat (off + n)\<rparr> else x2);
             (s3, w) = write_inode s2 ino fi3
         in if \<not> w then (s3, -1) else (s3, int n))"
    using pr ne fit' s1(1) s2(1) t add(2) by (simp add: osfs2_write_def Let_def)
  show ?thesis
  proof (cases "n = 0")
    case True
    have "fs_ok (fsys_of s2) \<and> (\<forall>k. live ?F k \<longrightarrow> same_file ?F (fsys_of s2) (f_inode ?F k))"
      using unused_changed [OF ok ef(3,4,7)] s2(7) True s1(3) by simp
    moreover have "live ?F ino" using v t by (simp add: live_def)
    ultimately show ?thesis using start True s2(2,6) ne ef(3,4)
      by (auto simp: written_def others_same_def same_file_def Let_def)
  next
    case False
    define sz where "sz = (if off + n > unat (i_size x2) then of_nat (off + n) else i_size x2)"
    let ?y = "x2\<lparr>i_size := sz\<rparr>"
    have y: "(if off + n > unat (i_size x2) then x2\<lparr>i_size := of_nat (off + n)\<rparr> else x2) = ?y" by (simp add: sz_def)
    have wb: "fs_ok (with_inode (fsys_of s2) ino ?y)" "inode_wf ?y"
      "others_same ?F ino (with_inode (fsys_of s2) ino ?y)"
      using write_back [OF e, of ?y sz] t ef(3) by (simp_all add: others_same_def)
    obtain s3 where s3: "write_inode s2 ino ?y = (s3, True)" "ready s3" "fsys_of s3 = with_inode (fsys_of s2) ino ?y"
      using write_inode_ready [OF s2(2) _ wb(2), of ino] v sb2 by auto
    have "unat (of_nat (off + n) :: u32) = off + n"
      using fit s2(3) by (intro unat_of_nat32) simp
    then have size: "unat sz = max (unat (i_size ?x)) (off + n)" using ef(2) by (auto simp: sz_def)
    have bytes: "file_byte (fsys_of s2) ?y q = file_byte (fsys_of s2) x2 q" for q
      by (simp add: file_byte_def ptr_def)
    have "written ?F ino off (take n src) (fsys_of s3)"
      using size ef(1) s2(3,5) s1(3) False ne bytes by (auto simp: written_def Let_def s3(3))
    moreover have "osfs2_write s ino off src = (s3, int n)" using start False s3(1) by (simp add: y Let_def)
    moreover have "space (fsys_of s3) = space (fsys_of s2)" unfolding s3(3) by (simp add: space_def)
    moreover have "fs_ok (fsys_of s3)" "others_same ?F ino (fsys_of s3)" using wb s3(3) by simp_all
    ultimately show ?thesis using s2(3,6) s3(2) False by (intro exI [of _ s3] exI [of _ n]) simp
  qed
qed

section \<open>Truncating\<close>

text \<open>A file loses blocks: those it keeps are where they were, those it gives up are free.\<close>

lemma drop_owned:
  assumes ok: "fs_ok F" and li: "live F i" and x: "f_inode F i = x" and t: "i_type y = i_type x"
    and F1: "f_sb F1 = f_sb F" "f_inode F1 = (f_inode F)(i := y)" "f_used F1 \<subseteq> f_used F"
    and own: "\<And>n. owned F1 y n = 0 \<or> owned F1 y n = owned F x n \<and> owned F1 y n \<in> f_used F1"
    and freed: "\<And>q. q \<in> f_used F \<Longrightarrow> q \<notin> f_used F1 \<Longrightarrow> \<exists>n. q = owned F x n"
    and blocks: "\<And>q. q \<in> f_used F \<Longrightarrow> q \<noteq> i_indirect x \<Longrightarrow> f_block F1 q = f_block F q"
  shows "fs_ok F1 \<and> others_same F i F1"
proof -
  have other: "same_file F F1 (f_inode F k) \<and> f_inode F1 k = f_inode F k" if k: "k \<noteq> i" "live F k" for k
  proof -
    have "f_block F1 q = f_block F q" if q: "q \<in> f_used F" "q = owned F (f_inode F k) m" "q \<noteq> 0" for q m
    proof (cases "q = i_indirect x")
      case True
      then have "owned F (f_inode F k) m = owned F (f_inode F i) 1040" using q(2) x by (simp add: owned_ptr)
      then have "k = i" using fs_okD(2) [OF ok k(2) li, of m 1040] q(2,3) by blast
      then show ?thesis using k(1) by contradiction
    qed (use q blocks in blast)
    then have same: "q \<in> f_used F \<Longrightarrow> q \<noteq> 0 \<Longrightarrow> \<forall>n. q = owned F (f_inode F k) n \<longrightarrow> f_block F1 q = f_block F q" for q
      by blast
    show ?thesis using other_inode_same(1,3) [OF ok k(2) same] k(1) F1(2) by (simp add: same_file_def)
  qed
  have l: "live F1 k = live F k" for k using F1 x t by (auto simp: live_def)
  have own1: "owned F1 (f_inode F1 k) n = 0 \<or> owned F1 (f_inode F1 k) n = owned F (f_inode F k) n \<and>
      owned F1 (f_inode F1 k) n \<in> f_used F1" if k: "live F k" for k n
  proof (cases "k = i")
    case True
    then show ?thesis using own [of n] F1(2) x by simp
  next
    case False
    then have e: "owned F1 (f_inode F1 k) n = owned F (f_inode F k) n" using other k by (simp add: same_file_def)
    show ?thesis
    proof (cases "owned F (f_inode F k) n = 0")
      case o: False
      then have u: "owned F (f_inode F k) n \<in> f_used F" using fs_okD(1) [OF ok k] by blast
      have "owned F (f_inode F k) n \<in> f_used F1"
      proof (rule ccontr)
        assume "owned F (f_inode F k) n \<notin> f_used F1"
        then obtain m where "owned F (f_inode F k) n = owned F (f_inode F i) m" using freed [OF u] x by blast
        then show False using fs_okD(2) [OF ok k li o] False by blast
      qed
      then show ?thesis using e by simp
    qed (simp add: e)
  qed
  have "fs_ok F1"
    unfolding fs_ok_def l
  proof (intro conjI allI impI)
    fix k n assume "live F k \<and> owned F1 (f_inode F1 k) n \<noteq> 0"
    then show "owned F1 (f_inode F1 k) n \<in> f_used F1" using own1 [of k n] by blast
  next
    fix k j n m
    assume "live F k \<and> live F j \<and> owned F1 (f_inode F1 k) n \<noteq> 0 \<and> owned F1 (f_inode F1 k) n = owned F1 (f_inode F1 j) m"
    then have a: "live F k" "live F j" "owned F (f_inode F k) n \<noteq> 0" "owned F (f_inode F k) n = owned F (f_inode F j) m"
      using own1 [of k n] own1 [of j m] by (auto; metis)+
    show "k = j" "n = m" using fs_okD(2) [OF ok a] by blast+
  qed
  then show ?thesis using other F1(1) by (simp add: others_same_def)
qed

lemma store_zero: "store_ok F \<Longrightarrow> 0 \<notin> f_used F"
  by (auto simp: store_ok_def)

lemma trunc_direct_ready:
  assumes "ready s" "\<forall>p\<in>set ps. p \<noteq> 0 \<longrightarrow> data_region (g_sb s) p"
  shows "\<exists>s1 qs. trunc_direct s kept i ps = (s1, qs) \<and> ready s1 \<and> length qs = length ps \<and>
    (\<forall>j<length ps. qs ! j = (if kept \<le> i + j then 0 else ps ! j)) \<and>
    fsys_of s1 = (fsys_of s)\<lparr>f_used := f_used (fsys_of s) - {ps ! j |j. j < length ps \<and> kept \<le> i + j}\<rparr>"
  using assms
proof (induction ps arbitrary: s i)
  case Nil
  then show ?case by auto
next
  case (Cons p ps)
  have shift: "{(p # ps) ! j |j. j < length (p # ps) \<and> kept \<le> i + j} =
      (if kept \<le> i then {p} else {}) \<union> {ps ! j |j. j < length ps \<and> kept \<le> i + 1 + j}"
  proof -
    have "(\<exists>j. q = (p # ps) ! j \<and> j < length (p # ps) \<and> kept \<le> i + j) \<longleftrightarrow>
        (q = p \<and> kept \<le> i) \<or> (\<exists>j. q = ps ! j \<and> j < length ps \<and> kept \<le> i + 1 + j)" for q
    proof -
      have "(\<exists>j. q = (p # ps) ! j \<and> j < length (p # ps) \<and> kept \<le> i + j) \<longleftrightarrow>
          (q = (p # ps) ! 0 \<and> 0 < length (p # ps) \<and> kept \<le> i + 0) \<or>
          (\<exists>j. q = (p # ps) ! Suc j \<and> Suc j < length (p # ps) \<and> kept \<le> i + Suc j)"
        by (metis not0_implies_Suc)
      then show ?thesis by simp
    qed
    then show ?thesis by auto
  qed
  have nth: "(\<forall>j<length (p # ps). (q # qs) ! j = (if kept \<le> i + j then 0 else (p # ps) ! j)) \<longleftrightarrow>
      q = (if kept \<le> i then 0 else p) \<and> (\<forall>j<length ps. qs ! j = (if kept \<le> i + 1 + j then 0 else ps ! j))" for q qs
    by (auto simp: less_Suc_eq_0_disj)
  show ?case
  proof (cases "kept \<le> i \<and> p \<noteq> 0")
    case True
    obtain s1 where s1: "free_block s p = (s1, True)" "ready s1"
        "fsys_of s1 = (fsys_of s)\<lparr>f_used := f_used (fsys_of s) - {p}\<rparr>"
      using free_block_ready [OF Cons.prems(1), of p] Cons.prems(2) True by auto
    have "g_sb s1 = g_sb s" using arg_cong [OF s1(3), of f_sb] by simp
    then obtain s2 qs where s2: "trunc_direct s1 kept (i + 1) ps = (s2, qs)" "ready s2" "length qs = length ps"
        "\<forall>j<length ps. qs ! j = (if kept \<le> i + 1 + j then 0 else ps ! j)"
        "fsys_of s2 = (fsys_of s1)\<lparr>f_used := f_used (fsys_of s1) - {ps ! j |j. j < length ps \<and> kept \<le> i + 1 + j}\<rparr>"
      using Cons.IH [OF s1(2), of "i + 1"] Cons.prems(2) by auto
    have "trunc_direct s kept i (p # ps) = (s2, 0 # qs)" using True s1(1) s2(1) by simp
    moreover have "\<forall>j<length (p # ps). (0 # qs) ! j = (if kept \<le> i + j then 0 else (p # ps) ! j)"
      unfolding nth using s2(4) True by simp
    moreover have "fsys_of s2 = (fsys_of s)\<lparr>f_used := f_used (fsys_of s) - {(p # ps) ! j |j. j < length (p # ps) \<and> kept \<le> i + j}\<rparr>"
    proof -
      have "A - ((if kept \<le> i then {p} else {}) \<union> S) = A - {p} - S" for A S :: "u32 set" using True by auto
      then have "f_used (fsys_of s) - ((if kept \<le> i then {p} else {}) \<union> {ps ! j |j. j < length ps \<and> kept \<le> i + 1 + j}) =
          f_used (fsys_of s1) - {ps ! j |j. j < length ps \<and> kept \<le> i + 1 + j}"
        unfolding s1(3) by simp
      then have "fsys_of s2 = (fsys_of s1)\<lparr>f_used := f_used (fsys_of s) -
          ((if kept \<le> i then {p} else {}) \<union> {ps ! j |j. j < length ps \<and> kept \<le> i + 1 + j})\<rparr>"
        unfolding s2(5) by (rule arg_cong [of _ _ "\<lambda>u. (fsys_of s1)\<lparr>f_used := u\<rparr>", OF sym])
      then show ?thesis unfolding shift s1(3) by simp
    qed
    ultimately show ?thesis using s2(2,3) by auto
  next
    case False
    obtain s2 qs where s2: "trunc_direct s kept (i + 1) ps = (s2, qs)" "ready s2" "length qs = length ps"
        "\<forall>j<length ps. qs ! j = (if kept \<le> i + 1 + j then 0 else ps ! j)"
        "fsys_of s2 = (fsys_of s)\<lparr>f_used := f_used (fsys_of s) - {ps ! j |j. j < length ps \<and> kept \<le> i + 1 + j}\<rparr>"
      using Cons.IH [OF Cons.prems(1), of "i + 1"] Cons.prems(2) by auto
    have "trunc_direct s kept i (p # ps) = (s2, p # qs)" using s2(1) by (simp add: if_not_P [OF False])
    moreover have "\<forall>j<length (p # ps). (p # qs) ! j = (if kept \<le> i + j then 0 else (p # ps) ! j)"
      unfolding nth using s2(4) False by auto
    moreover have "fsys_of s2 = (fsys_of s)\<lparr>f_used := f_used (fsys_of s) - {(p # ps) ! j |j. j < length (p # ps) \<and> kept \<le> i + j}\<rparr>"
      unfolding shift using s2(5) False store_zero [OF ready_store [OF Cons.prems(1)]] by auto
    ultimately show ?thesis using s2(2,3) by auto
  qed
qed

text \<open>The loop over the table is the same loop with two flags.\<close>

lemma trunc_table_direct:
  "trunc_table s kept i ps touched any_left =
    (fst (trunc_direct s kept i ps), snd (trunc_direct s kept i ps),
     touched \<or> (\<exists>j<length ps. kept \<le> i + j \<and> ps ! j \<noteq> 0),
     any_left \<or> (\<exists>j<length ps. \<not> kept \<le> i + j \<and> ps ! j \<noteq> 0))"
proof (induction ps arbitrary: s i touched any_left)
  case Nil
  then show ?case by simp
next
  case (Cons p ps)
  have ex: "(\<exists>j<length (p # ps). P (i + j) \<and> (p # ps) ! j \<noteq> 0) \<longleftrightarrow>
      (P i \<and> p \<noteq> 0) \<or> (\<exists>j<length ps. P (i + 1 + j) \<and> ps ! j \<noteq> 0)" for P
    by (auto simp: less_Suc_eq_0_disj)
  show ?case
    unfolding ex [of "\<lambda>j. kept \<le> j"] ex [of "\<lambda>j. \<not> kept \<le> j"]
    using Cons.IH by (auto simp: case_prod_beta Let_def)
qed

definition kept_blocks :: "u32 \<Rightarrow> nat" where
  "kept_blocks sz = (if sz = 0 then 0 else (unat sz + 4095) div 4096)"

text \<open>The outcome of a truncation: the blocks past the new end are free, no other.  The bytes
  between the new end and the end of its block stay where they are.\<close>

definition truncated :: "fsys \<Rightarrow> u32 \<Rightarrow> u32 \<Rightarrow> fsys \<Rightarrow> bool" where
  "truncated F ino sz F1 \<longleftrightarrow>
     (let x = f_inode F ino; y = f_inode F1 ino in
      i_size y = sz \<and> i_type y = i_type x \<and>
      (\<forall>q. file_byte F1 y q = (if q div 4096 < kept_blocks sz then file_byte F x q else 0)) \<and>
      f_used F1 = f_used F - {q. \<exists>n. q = owned F x n \<and> owned F1 y n = 0})"

lemma truncate_finish:
  assumes r: "ready s5" and ok: "fs_ok F" and st: "store_ok F" and li: "live F ino" and x: "f_inode F ino = x"
    and F5: "f_sb (fsys_of s5) = f_sb F" "f_inode (fsys_of s5) = f_inode F"
    and y: "inode_wf y" "i_type y = i_type x" "i_size y = sz"
    and own: "\<And>n. owned (fsys_of s5) y n = (if n < 1040 \<and> kept_blocks sz \<le> n \<or> n = 1040 \<and> gone then 0 else owned F x n)"
    and used: "f_used (fsys_of s5) = f_used F - {q. \<exists>n. q = owned F x n \<and> owned (fsys_of s5) y n = 0}"
    and blocks: "\<And>q. q \<in> f_used F \<Longrightarrow> q \<noteq> i_indirect x \<Longrightarrow> f_block (fsys_of s5) q = f_block F q"
  shows "\<exists>s6. write_inode s5 ino y = (s6, True) \<and> ready s6 \<and> fs_ok (fsys_of s6) \<and>
    others_same F ino (fsys_of s6) \<and> truncated F ino sz (fsys_of s6)"
proof -
  let ?G = "fsys_of s5"
  have v: "valid_ino (g_sb s5) ino" using li F5(1) by (simp add: live_def)
  obtain s6 where s6: "write_inode s5 ino y = (s6, True)" "ready s6" "fsys_of s6 = with_inode ?G ino y"
    using write_inode_ready [OF r v y(1)] by blast
  have ownu: "owned ?G y n = 0 \<or> owned ?G y n = owned F x n \<and> owned ?G y n \<in> f_used ?G" for n
  proof (cases "owned ?G y n = 0")
    case False
    then have e: "owned ?G y n = owned F x n" using own [of n] by presburger
    have u: "owned F x n \<in> f_used F" using fs_okD(1) [OF ok li, of n] False e x by simp
    have "owned F x n \<noteq> owned F x m" if "owned ?G y m = 0" for m
    proof
      assume "owned F x n = owned F x m"
      then have "n = m" using fs_okD(2) [OF ok li li, of n m] False e x by auto
      then show False using that False by simp
    qed
    then show ?thesis using e u used by auto
  qed simp
  have "fs_ok (fsys_of s6) \<and> others_same F ino (fsys_of s6)"
  proof (rule drop_owned [OF ok li x y(2)])
    show "f_used (fsys_of s6) \<subseteq> f_used F" using used s6(3) by auto
    show "\<exists>n. q = owned F x n" if "q \<in> f_used F" "q \<notin> f_used (fsys_of s6)" for q
      using that used s6(3) by auto
  qed (use ownu F5 blocks in \<open>simp_all add: s6(3)\<close>)
  moreover have "file_byte ?G y q = (if q div 4096 < kept_blocks sz then file_byte F x q else 0)" for q
  proof (cases "q div 4096 < 1040")
    case lt: True
    have p: "ptr ?G y (q div 4096) = (if kept_blocks sz \<le> q div 4096 then 0 else ptr F x (q div 4096))"
      using own [of "q div 4096"] lt by (simp add: owned_ptr)
    show ?thesis
    proof (cases "kept_blocks sz \<le> q div 4096 \<or> ptr F x (q div 4096) = 0")
      case False
      let ?p = "ptr F x (q div 4096)"
      have o: "owned F x (q div 4096) = ?p" using lt by (simp add: owned_ptr)
      have "?p \<in> f_used F" using fs_okD(1) [OF ok li, of "q div 4096"] o x False by simp
      moreover have "?p \<noteq> i_indirect x"
        using fs_okD(2) [OF ok li li, of "q div 4096" 1040] o x False lt by (auto simp: owned_ptr)
      ultimately show ?thesis using blocks [of ?p] p False by (simp add: file_byte_def Let_def)
    qed (use p in \<open>auto simp: file_byte_def Let_def\<close>)
  qed (simp add: file_byte_def ptr_def)
  ultimately show ?thesis using s6 y used by (auto simp: truncated_def x)
qed

lemma diff_nonzero: "0 \<notin> U \<Longrightarrow> (\<And>q. q \<noteq> 0 \<Longrightarrow> q \<in> S \<longleftrightarrow> q \<in> T) \<Longrightarrow> U - S = U - (T :: u32 set)"
proof (rule set_eqI)
  fix q assume a: "0 \<notin> U" "\<And>q. q \<noteq> 0 \<Longrightarrow> q \<in> S \<longleftrightarrow> q \<in> T"
  then show "q \<in> U - S \<longleftrightarrow> q \<in> U - T" using a(2) [of q] by (cases "q = 0") auto
qed

lemma osfs2_truncate_bytes:
  assumes r: "ready s" and ok: "fs_ok (fsys_of s)" and v: "valid_ino (g_sb s) ino"
    and t: "i_type (f_inode (fsys_of s) ino) = TYPE_FILE \<or> i_type (f_inode (fsys_of s) ino) = TYPE_DIR"
    and sz: "unat sz \<le> 4259840"
  shows "\<exists>s1. osfs2_truncate s ino sz = (s1, True) \<and> ready s1 \<and> fs_ok (fsys_of s1) \<and>
    others_same (fsys_of s) ino (fsys_of s1) \<and> truncated (fsys_of s) ino sz (fsys_of s1)"
proof -
  let ?F = "fsys_of s" and ?k = "kept_blocks sz"
  define x where "x = f_inode ?F ino"
  have li: "live ?F ino" using v t by (auto simp: live_def)
  have wf: "length (i_direct x) = 16" "length (i_reserved x) = 36" using inode_at_wf [OF r, of ino] by (simp_all add: inode_wf_def x_def)
  obtain s1 where s1: "read_inode s ino = (s1, Some x)" "ready s1" "fsys_of s1 = ?F"
    using read_inode_ready [OF r v] x_def by blast
  have sb1: "g_sb s1 = g_sb s" using s1(3) by (metis fsys_of_sel(1))
  have pr: "present s" using r by (simp add: ready_def)
  note st = ready_store [OF r]
  have region: "data_region (g_sb s) (owned ?F x n)" if "owned ?F x n \<noteq> 0" for n
    using fs_okD(1) [OF ok li, of n] that st by (simp add: store_ok_def x_def)
  have dreg: "\<forall>p\<in>set (i_direct x). p \<noteq> 0 \<longrightarrow> data_region (g_sb s1) p"
  proof
    fix p assume "p \<in> set (i_direct x)"
    then obtain n where "n < 16" "p = i_direct x ! n" using wf by (auto simp: in_set_conv_nth)
    then show "p \<noteq> 0 \<longrightarrow> data_region (g_sb s1) p" using region [of n] sb1 by (simp add: owned_def ptr_def)
  qed
  define A where "A = {i_direct x ! j |j. j < 16 \<and> ?k \<le> j}"
  obtain s2 ds where s2: "trunc_direct s1 ?k 0 (i_direct x) = (s2, ds)" "ready s2" "length ds = 16"
      "\<forall>j<16. ds ! j = (if ?k \<le> j then 0 else i_direct x ! j)" "fsys_of s2 = ?F\<lparr>f_used := f_used ?F - A\<rparr>"
    using trunc_direct_ready [OF s1(2) dreg, of ?k 0] wf s1(3) by (auto simp: A_def)
  have sb2: "g_sb s2 = g_sb s" using arg_cong [OF s2(5), of f_sb] by simp
  let ?x2 = "x\<lparr>i_direct := ds\<rparr>"
  have tt: "\<not> (i_type x \<noteq> 1 \<and> i_type x \<noteq> 2)" using t by (auto simp: x_def)
  have szt: "\<not> unat sz > 4259840" using sz by simp
  have kk: "(if sz = 0 then 0 else (unat sz + 4096 - 1) div 4096) = ?k" by (simp add: kept_blocks_def add.commute)
  have start: "osfs2_truncate s ino sz =
      (if i_indirect x = 0 then write_inode s2 ino (?x2\<lparr>i_size := sz\<rparr>)
       else
         let (s3, ib) = read_block s2 (i_indirect x) in
         case ib of
           None \<Rightarrow> (s3, False)
         | Some ind \<Rightarrow>
             let (s4, table, touched, any_left) = trunc_table s3 ?k 16 (table_of ind) False False in
             if \<not> any_left then
               write_inode (fst (free_block s4 (i_indirect x))) ino (?x2\<lparr>i_indirect := 0, i_size := sz\<rparr>)
             else if touched then
               let (s5, w) = write_block s4 (i_indirect x) (concat (map le32_bytes table)) in
               if \<not> w then (s5, False) else write_inode s5 ino (?x2\<lparr>i_size := sz\<rparr>)
             else write_inode s4 ino (?x2\<lparr>i_size := sz\<rparr>))"
    unfolding osfs2_truncate_def Let_def kk using pr s1(1) s2(1) by (simp add: if_not_P [OF tt] szt split: prod.split option.split)
  have d0: "ds ! n = (if ?k \<le> n then 0 else i_direct x ! n)" if "n < 16" for n using s2(4) that by blast
  have direct: "ptr G y n = (if ?k \<le> n then 0 else ptr ?F x n)" if "n < 16" "i_direct y = ds" for G y n
    using d0 that by (simp add: ptr_def)
  show ?thesis
  proof (cases "i_indirect x = 0")
    case True
    let ?y = "?x2\<lparr>i_size := sz\<rparr>"
    have own: "owned (fsys_of s2) ?y n = (if n < 1040 \<and> ?k \<le> n \<or> n = 1040 \<and> False then 0 else owned ?F x n)" for n
      using True d0 [of n] by (auto simp: owned_def ptr_def)
    have "f_used ?F - A = f_used ?F - {q. \<exists>n. q = owned ?F x n \<and> owned (fsys_of s2) ?y n = 0}"
    proof (rule diff_nonzero [OF store_zero [OF st]])
      fix q :: u32 assume q: "q \<noteq> 0"
      have "(q = owned ?F x n \<and> owned (fsys_of s2) ?y n = 0) \<longleftrightarrow> (n < 16 \<and> ?k \<le> n \<and> q = i_direct x ! n)" for n
        using own [of n] q True by (auto simp: owned_def ptr_def)
      then show "q \<in> A \<longleftrightarrow> q \<in> {q. \<exists>n. q = owned ?F x n \<and> owned (fsys_of s2) ?y n = 0}"
        by (auto simp: A_def)
    qed
    then show ?thesis
      using truncate_finish [OF s2(2) ok st li x_def [symmetric], where y = ?y and gone = False and sz = sz] own start True s2(5) wf s2(3)
      by (auto simp: inode_wf_def)
  next
    case False
    let ?i = "i_indirect x"
    define tab where "tab = table_of (f_block ?F ?i)"
    have ireg: "data_region (g_sb s) ?i" using region [of 1040] False by (simp add: owned_ptr)
    have lt: "length tab = 1024" by (simp add: tab_def table_of_def)
    have tab: "tab ! j = owned ?F x (16 + j)" if "j < 1024" for j
      using that False by (simp add: tab_def table_of_def owned_def ptr_def)
    obtain s3 where s3: "read_block s2 ?i = (s3, Some (f_block ?F ?i))" "ready s3" "fsys_of s3 = fsys_of s2"
      using read_data [OF s2(2), of ?i] ireg sb2 s2(5) by auto
    have sb3: "g_sb s3 = g_sb s" using s3(3) sb2 by (metis fsys_of_sel(1))
    have treg: "\<forall>p\<in>set tab. p \<noteq> 0 \<longrightarrow> data_region (g_sb s3) p"
      using region tab lt sb3 by (metis in_set_conv_nth)
    define B where "B = {tab ! j |j. j < 1024 \<and> ?k \<le> 16 + j}"
    obtain s4 ts where s4: "trunc_direct s3 ?k 16 tab = (s4, ts)" "ready s4" "length ts = 1024"
        "\<forall>j<1024. ts ! j = (if ?k \<le> 16 + j then 0 else tab ! j)" "fsys_of s4 = ?F\<lparr>f_used := f_used ?F - A - B\<rparr>"
      using trunc_direct_ready [OF s3(2) treg, of ?k 16] lt s3(3) s2(5) by (auto simp: B_def)
    have sb4: "g_sb s4 = g_sb s" using arg_cong [OF s4(5), of f_sb] by simp
    define any where "any \<longleftrightarrow> (\<exists>j<1024. \<not> ?k \<le> 16 + j \<and> tab ! j \<noteq> 0)"
    define touched where "touched \<longleftrightarrow> (\<exists>j<1024. ?k \<le> 16 + j \<and> tab ! j \<noteq> 0)"
    have table: "trunc_table s3 ?k 16 tab False False = (s4, ts, touched, any)"
      unfolding trunc_table_direct by (simp add: s4(1) lt any_def touched_def)
    have start2: "osfs2_truncate s ino sz =
        (if \<not> any then write_inode (fst (free_block s4 ?i)) ino (?x2\<lparr>i_indirect := 0, i_size := sz\<rparr>)
         else if touched then
           let (s5, w) = write_block s4 ?i (concat (map le32_bytes ts)) in
           if \<not> w then (s5, False) else write_inode s5 ino (?x2\<lparr>i_size := sz\<rparr>)
         else write_inode s4 ino (?x2\<lparr>i_size := sz\<rparr>))"
      unfolding start using False s3(1) table by (simp add: tab_def)
    have AB: "q \<in> A \<union> B \<longleftrightarrow> (\<exists>n<1040. ?k \<le> n \<and> q = owned ?F x n)" for q
    proof
      assume "q \<in> A \<union> B"
      then consider j where "j < 16" "?k \<le> j" "q = i_direct x ! j" | j where "j < 1024" "?k \<le> 16 + j" "q = tab ! j"
        by (auto simp: A_def B_def)
      then show "\<exists>n<1040. ?k \<le> n \<and> q = owned ?F x n"
      proof cases
        case 1
        then show ?thesis by (intro exI [of _ j]) (simp add: owned_def ptr_def)
      next
        case 2
        then show ?thesis using tab by (intro exI [of _ "16 + j"]) simp
      qed
    next
      assume "\<exists>n<1040. ?k \<le> n \<and> q = owned ?F x n"
      then obtain n where n: "n < 1040" "?k \<le> n" "q = owned ?F x n" by blast
      show "q \<in> A \<union> B"
      proof (cases "n < 16")
        case True
        then show ?thesis using n by (auto simp: A_def owned_def ptr_def)
      next
        case False
        then have "n - 16 < 1024" "16 + (n - 16) = n" using n(1) by auto
        then show ?thesis using n tab [of "n - 16"] unfolding B_def by (metis (mono_tags, lifting) UnI2 mem_Collect_eq)
      qed
    qed
    have nz: "0 \<notin> f_used ?F" using store_zero [OF st] .
    show ?thesis
    proof (cases any)
      case no: False
      let ?y = "?x2\<lparr>i_indirect := 0, i_size := sz\<rparr>"
      obtain s5 where s5: "free_block s4 ?i = (s5, True)" "ready s5" "fsys_of s5 = ?F\<lparr>f_used := f_used ?F - A - B - {?i}\<rparr>"
        using free_block_ready [OF s4(2), of ?i] ireg sb4 s4(5) by auto
      have mid: "owned ?F x n = 0" if "16 \<le> n" "n < 1040" "\<not> ?k \<le> n" for n
        using no tab [of "n - 16"] that unfolding any_def by (auto dest!: spec [of _ "n - 16"])
      have own: "owned G ?y n = (if n < 1040 \<and> ?k \<le> n \<or> n = 1040 \<and> True then 0 else owned ?F x n)" for G n
        using d0 [of n] mid [of n] by (auto simp: owned_def ptr_def)
      have "f_used ?F - (A \<union> B \<union> {?i}) = f_used ?F - {q. \<exists>n. q = owned ?F x n \<and> owned (fsys_of s5) ?y n = 0}"
      proof (rule diff_nonzero [OF nz])
        fix q :: u32 assume q: "q \<noteq> 0"
        have "(q = owned ?F x n \<and> owned (fsys_of s5) ?y n = 0) \<longleftrightarrow>
            (n < 1040 \<and> ?k \<le> n \<and> q = owned ?F x n) \<or> (n = 1040 \<and> q = ?i)" for n
          using own [of "fsys_of s5" n] q by (auto simp: owned_ptr)
        then show "q \<in> A \<union> B \<union> {?i} \<longleftrightarrow> q \<in> {q. \<exists>n. q = owned ?F x n \<and> owned (fsys_of s5) ?y n = 0}"
          using AB [of q] by auto
      qed
      then have used: "f_used (fsys_of s5) = f_used ?F - {q. \<exists>n. q = owned ?F x n \<and> owned (fsys_of s5) ?y n = 0}"
        unfolding s5(3) by (simp add: Diff_Un set_diff_eq) blast
      have "\<exists>s6. write_inode s5 ino ?y = (s6, True) \<and> ready s6 \<and> fs_ok (fsys_of s6) \<and>
          others_same ?F ino (fsys_of s6) \<and> truncated ?F ino sz (fsys_of s6)"
        by (rule truncate_finish [OF s5(2) ok st li x_def [symmetric], where gone = True])
          (use own used s5(3) wf s2(3) in \<open>auto simp: inode_wf_def\<close>)
      then show ?thesis using start2 no s5(1) by auto
    next
      case yes: True
      let ?y = "?x2\<lparr>i_size := sz\<rparr>"
      have "\<exists>s5. osfs2_truncate s ino sz = write_inode s5 ino ?y \<and> ready s5 \<and>
          (\<exists>t. fsys_of s5 = ?F\<lparr>f_used := f_used ?F - A - B, f_block := (f_block ?F)(?i := t)\<rparr> \<and>
             (\<forall>j<1024. le32_at t (4 * j) = ts ! j))"
      proof (cases touched)
        case True
        let ?t = "concat (map le32_bytes ts)"
        obtain s5 where s5: "write_block s4 ?i ?t = (s5, True)" "ready s5"
            "fsys_of s5 = (fsys_of s4)\<lparr>f_block := (f_block (fsys_of s4))(?i := ?t)\<rparr>"
          using write_data [OF s4(2), of ?i ?t] ireg sb4 s4(3) by auto
        have "le32_at ?t (4 * j) = ts ! j" if "j < 1024" for j
          using le32_at_concat [of j ts "[]" "[]"] that s4(3) by simp
        moreover have "osfs2_truncate s ino sz = write_inode s5 ino ?y"
          unfolding start2 using yes True s5(1) by simp
        ultimately show ?thesis using s5 s4(5) by (intro exI [of _ s5]) auto
      next
        case False
        have "le32_at (f_block ?F ?i) (4 * j) = ts ! j" if "j < 1024" for j
          using False s4(4) that by (auto simp: tab_def table_of_def touched_def)
        moreover have "osfs2_truncate s ino sz = write_inode s4 ino ?y"
          unfolding start2 using yes False by simp
        moreover have "fsys_of s4 = ?F\<lparr>f_used := f_used ?F - A - B, f_block := (f_block ?F)(?i := f_block ?F ?i)\<rparr>"
          unfolding s4(5) by (rule fsys.equality) simp_all
        ultimately show ?thesis using s4(2) by blast
      qed
      then obtain s5 t where s5: "osfs2_truncate s ino sz = write_inode s5 ino ?y" "ready s5"
          "fsys_of s5 = ?F\<lparr>f_used := f_used ?F - A - B, f_block := (f_block ?F)(?i := t)\<rparr>"
          "\<forall>j<1024. le32_at t (4 * j) = ts ! j" by blast
      have low: "le32_at t (4 * (n - 16)) = (if ?k \<le> n then 0 else le32_at (f_block ?F ?i) (4 * (n - 16)))"
        if "16 \<le> n" "n < 1040" for n
      proof -
        have j: "n - 16 < 1024" "16 + (n - 16) = n" using that by auto
        have "le32_at t (4 * (n - 16)) = ts ! (n - 16)" using s5(4) j(1) by blast
        also have "\<dots> = (if ?k \<le> n then 0 else tab ! (n - 16))" using s4(4) j by auto
        finally show ?thesis using j(1) by (simp add: tab_def table_of_def)
      qed
      have own: "owned (fsys_of s5) ?y n = (if n < 1040 \<and> ?k \<le> n \<or> n = 1040 \<and> False then 0 else owned ?F x n)" for n
        using d0 [of n] low [of n] False s5(3) by (auto simp: owned_def ptr_def)
      have "f_used ?F - (A \<union> B) = f_used ?F - {q. \<exists>n. q = owned ?F x n \<and> owned (fsys_of s5) ?y n = 0}"
      proof (rule diff_nonzero [OF nz])
        fix q :: u32 assume q: "q \<noteq> 0"
        have "(q = owned ?F x n \<and> owned (fsys_of s5) ?y n = 0) \<longleftrightarrow> (n < 1040 \<and> ?k \<le> n \<and> q = owned ?F x n)" for n
          using own [of n] q by auto
        then show "q \<in> A \<union> B \<longleftrightarrow> q \<in> {q. \<exists>n. q = owned ?F x n \<and> owned (fsys_of s5) ?y n = 0}"
          using AB [of q] by auto
      qed
      then have used: "f_used (fsys_of s5) = f_used ?F - {q. \<exists>n. q = owned ?F x n \<and> owned (fsys_of s5) ?y n = 0}"
        using s5(3) by (simp add: Diff_Un set_diff_eq)
      have "\<exists>s6. write_inode s5 ino ?y = (s6, True) \<and> ready s6 \<and> fs_ok (fsys_of s6) \<and>
          others_same ?F ino (fsys_of s6) \<and> truncated ?F ino sz (fsys_of s6)"
        by (rule truncate_finish [OF s5(2) ok st li x_def [symmetric], where gone = False])
          (use own used s5(3) wf s2(3) in \<open>auto simp: inode_wf_def\<close>)
      then show ?thesis using s5(1) by auto
    qed
  qed
qed

section \<open>The file operations\<close>

text \<open>
  C23. Reading returns exactly the bytes of the file between the offset and its end, zeros for
  holes, and changes nothing.
\<close>

theorem osfs2_read_correct:
  assumes "ready s" and "fs_ok (fsys_of s)" and "valid_ino (g_sb s) ino"
    and "i_type (f_inode (fsys_of s) ino) = TYPE_FILE \<or> i_type (f_inode (fsys_of s) ino) = TYPE_DIR"
  shows "\<exists>s1. osfs2_read s ino off len =
      (s1, Some (map (file_byte (fsys_of s) (f_inode (fsys_of s) ino))
        [off..<min (off + len) (unat (i_size (f_inode (fsys_of s) ino)))])) \<and>
    ready s1 \<and> fsys_of s1 = fsys_of s"
  using osfs2_read_bytes [OF assms(1-3) refl assms(4)] .

text \<open>
  C24. A write changes the bytes it reports as written and no others, in this file or in any other,
  grows the size to the end of what was written, keeps the blocks of all files disjoint and
  allocated, and is short only when the disk is full; what was written is what is read back.
\<close>

theorem osfs2_write_correct:
  assumes "ready s" and "fs_ok (fsys_of s)" and "valid_ino (g_sb s) ino"
    and "i_type (f_inode (fsys_of s) ino) = TYPE_FILE" and "off + length src \<le> 4259840" and "src \<noteq> []"
  shows "\<exists>s1 n. osfs2_write s ino off src = (s1, if n = 0 then -1 else int n) \<and> n \<le> length src \<and>
    ready s1 \<and> fs_ok (fsys_of s1) \<and> written (fsys_of s) ino off (take n src) (fsys_of s1) \<and>
    others_same (fsys_of s) ino (fsys_of s1) \<and> (n < length src \<longrightarrow> \<not> space (fsys_of s1)) \<and>
    (\<exists>s2. osfs2_read s1 ino off n = (s2, Some (take n src)))"
proof -
  obtain s1 n where w: "osfs2_write s ino off src = (s1, if n = 0 then -1 else int n)" "n \<le> length src" "ready s1"
      "fs_ok (fsys_of s1)" "written (fsys_of s) ino off (take n src) (fsys_of s1)"
      "others_same (fsys_of s) ino (fsys_of s1)" "n < length src \<longrightarrow> \<not> space (fsys_of s1)"
    using osfs2_write_bytes [OF assms] by blast
  let ?y = "f_inode (fsys_of s1) ino"
  have sb: "g_sb s1 = g_sb s" using w(6) by (simp add: others_same_def)
  have t: "i_type ?y = TYPE_FILE \<or> i_type ?y = TYPE_DIR" using w(5) assms(4) by (simp add: written_def Let_def)
  obtain s2 where s2: "osfs2_read s1 ino off n =
      (s2, Some (map (file_byte (fsys_of s1) ?y) [off..<min (off + n) (unat (i_size ?y))]))"
    using osfs2_read_bytes [OF w(3,4), of ino ?y off n] assms(3) sb t by auto
  have "map (file_byte (fsys_of s1) ?y) [off..<min (off + n) (unat (i_size ?y))] = take n src"
  proof (cases "n = 0")
    case False
    then have "off + n \<le> unat (i_size ?y)" using w(2,5) assms(6) by (auto simp: written_def Let_def)
    then have "[off..<min (off + n) (unat (i_size ?y))] = [off..<off + n]" by simp
    moreover have "map (file_byte (fsys_of s1) ?y) [off..<off + n] = take n src"
      using w(2,5) by (auto simp: map_upt_shift written_def Let_def intro!: nth_equalityI)
    ultimately show ?thesis by simp
  qed simp
  then show ?thesis using w s2 by (intro exI [of _ s1] exI [of _ n]) simp
qed

text \<open>
  C25. Truncation sets the size, gives back exactly the blocks past the new end (and the table when
  it is left empty), leaves the bytes of the kept blocks and every other file as they were, and
  keeps the block ownership of the whole file system.
\<close>

theorem osfs2_truncate_correct:
  assumes "ready s" and "fs_ok (fsys_of s)" and "valid_ino (g_sb s) ino"
    and "i_type (f_inode (fsys_of s) ino) = TYPE_FILE \<or> i_type (f_inode (fsys_of s) ino) = TYPE_DIR"
    and "unat sz \<le> 4259840"
  shows "\<exists>s1. osfs2_truncate s ino sz = (s1, True) \<and> ready s1 \<and> fs_ok (fsys_of s1) \<and>
    others_same (fsys_of s) ino (fsys_of s1) \<and> truncated (fsys_of s) ino sz (fsys_of s1)"
  using osfs2_truncate_bytes [OF assms] .

text \<open>
  Truncation does not clear the rest of the last block: a later write past the new end brings
  the bytes that had been cut off back into the file, where a reader should find zeros.
\<close>

theorem truncate_keeps_tail:
  assumes r: "ready s" and ok: "fs_ok (fsys_of s)" and v: "valid_ino (g_sb s) ino"
    and t: "i_type (f_inode (fsys_of s) ino) = TYPE_FILE" and sz: "unat sz \<le> 4259840"
    and cut: "unat sz \<le> q" "q div 4096 < kept_blocks sz" and w: "q < off" "off + length src \<le> 4259840" "src \<noteq> []"
  shows "\<exists>s1 s2 n. osfs2_truncate s ino sz = (s1, True) \<and> osfs2_write s1 ino off src = (s2, if n = 0 then -1 else int n) \<and>
    (0 < n \<longrightarrow> (\<exists>s3. osfs2_read s2 ino q 1 = (s3, Some [file_byte (fsys_of s) (f_inode (fsys_of s) ino) q])))"
proof -
  let ?x = "f_inode (fsys_of s) ino"
  obtain s1 where s1: "osfs2_truncate s ino sz = (s1, True)" "ready s1" "fs_ok (fsys_of s1)"
      "others_same (fsys_of s) ino (fsys_of s1)" "truncated (fsys_of s) ino sz (fsys_of s1)"
    using osfs2_truncate_bytes [OF r ok v disjI1 [OF t] sz] by blast
  have sb1: "g_sb s1 = g_sb s" using s1(4) by (simp add: others_same_def)
  have t1: "i_type (f_inode (fsys_of s1) ino) = TYPE_FILE" using s1(5) t by (simp add: truncated_def Let_def)
  obtain s2 n where s2: "osfs2_write s1 ino off src = (s2, if n = 0 then -1 else int n)" "n \<le> length src"
      "ready s2" "fs_ok (fsys_of s2)" "written (fsys_of s1) ino off (take n src) (fsys_of s2)"
      "others_same (fsys_of s1) ino (fsys_of s2)"
    using osfs2_write_bytes [OF s1(2,3) _ t1 w(2,3)] v sb1 by auto
  have sb2: "g_sb s2 = g_sb s" using s2(6) sb1 by (simp add: others_same_def)
  let ?z = "f_inode (fsys_of s2) ino"
  have z: "i_type ?z = TYPE_FILE \<or> i_type ?z = TYPE_DIR" using s2(5) t1 by (simp add: written_def Let_def)
  have "\<exists>s3. osfs2_read s2 ino q 1 = (s3, Some [file_byte (fsys_of s) ?x q])" if n: "0 < n"
  proof -
    have "off + n \<le> unat (i_size ?z)" using s2(2,5) n w(3) by (auto simp: written_def Let_def)
    then have range: "[q..<min (q + 1) (unat (i_size ?z))] = [q]" using w(1) by simp
    have "file_byte (fsys_of s2) ?z q = file_byte (fsys_of s1) (f_inode (fsys_of s1) ino) q"
      using s2(5) w(1) by (simp add: written_def Let_def)
    also have "\<dots> = file_byte (fsys_of s) ?x q" using s1(5) cut(2) by (simp add: truncated_def Let_def)
    finally have "map (file_byte (fsys_of s2) ?z) [q..<min (q + 1) (unat (i_size ?z))] = [file_byte (fsys_of s) ?x q]"
      unfolding range by simp
    then show ?thesis using osfs2_read_bytes [OF s2(3,4) _ refl z, of q 1] v sb2 by auto
  qed
  then show ?thesis using s1(1) s2(1) by (intro exI [of _ s1] exI [of _ s2] exI [of _ n]) auto
qed

section \<open>Instances\<close>

text \<open>A freshly formatted 64 MiB disk with the layout of the image builder, and one empty file.\<close>

definition example_sb :: superblock where
  "example_sb = \<lparr>sb_magic = SB_MAGIC, sb_block_size = 4096, sb_total_blocks = 16384, sb_inode_count = 2048,
     sb_block_bitmap_block = 1, sb_inode_bitmap_block = 2, sb_inode_table_block = 3, sb_inode_table_blocks = 64,
     sb_data_start_block = 100, sb_root_inode = 1, sb_journal_header_block = 67, sb_journal_data_blocks = 32,
     sb_reserved = 0\<rparr>"

definition example_fs :: osfs2 where
  "example_fs = \<lparr>present = True, g_sb = example_sb, g_block_bitmap = replicate 4096 0,
     g_inode_bitmap = replicate 4096 0,
     fscache = (example_bcache 0)\<lparr>dsk := (example_disk 0)\<lparr>fate := \<lambda>_. False\<rparr>\<rparr>, stack_comp = []\<rparr>"

lemma example_cache_works: "working (fscache example_fs)"
proof -
  have "cache_ok ((example_bcache 0)\<lparr>dsk := (example_disk 0)\<lparr>fate := \<lambda>_. False\<rparr>\<rparr>)"
    using example_bcache_ok(1) [of 0]
    by (auto simp: cache_ok_def slot_ok_def data_block_def example_bcache_def osfs2_cache_init_def disk_ok_def example_disk_def)
  then show ?thesis by (simp add: working_def example_fs_def example_disk_def)
qed

lemma example_view: "cache_view (fscache example_fs) b = replicate 4096 0"
proof -
  have "find_slot (fscache example_fs) b = None"
    by (simp add: find_slot_None example_fs_def example_bcache_def osfs2_cache_init_def)
  then show ?thesis
    by (simp add: view_uncached example_fs_def block_at_def example_disk_def map_replicate_const concat_replicate_replicate)
qed

lemma example_layout: "layout_ok (g_sb example_fs) (data_block (fscache example_fs))"
proof -
  have adm: "data_block (fscache example_fs) b" if "unat b < 67 \<or> 99 < unat b" for b
    using journal_blocks_range [OF example_geometry(1), of b] that
    by (auto simp: data_block_def example_fs_def) (simp_all add: example_journal_def osfs2_journal_init_def)
  have "data_block (fscache example_fs) (3 + of_nat k)" if "k < 64" for k
  proof -
    have "unat (3 + of_nat k :: u32) = 3 + k" using that by (simp add: unat_word_ariths unat_of_nat)
    then show ?thesis using that by (intro adm) simp
  qed
  moreover have "data_block (fscache example_fs) b" if "100 \<le> b" for b
    using that by (intro adm) (simp add: word_le_nat_alt)
  moreover have "data_block (fscache example_fs) 1" "data_block (fscache example_fs) 2" by (rule adm, simp)+
  moreover have "g_sb example_fs = example_sb" by (simp add: example_fs_def)
  ultimately show ?thesis by (simp add: layout_ok_def example_sb_def)
qed

lemma example_ready: "ready example_fs"
  using example_cache_works example_layout example_view
  by (simp add: ready_def) (simp add: example_fs_def)

lemma example_inode: "i_type (f_inode (fsys_of example_fs) i) = 0"
proof (cases "valid_ino (g_sb example_fs) i")
  case True
  have "unat (i mod 32) < 32" by (simp add: unat_mod)
  then show ?thesis using True by (simp add: fsys_of_sel(4) inode_slot_def example_view inode_of_bytes_def)
qed (simp add: fsys_of_def new_inode_def)

lemma example_file:
  "\<exists>s. write_inode example_fs 5 (new_inode TYPE_FILE) = (s, True) \<and> ready s \<and> fs_ok (fsys_of s) \<and>
     valid_ino (g_sb s) 5 \<and> i_type (f_inode (fsys_of s) 5) = TYPE_FILE \<and> i_size (f_inode (fsys_of s) 5) = 0"
proof -
  have v: "valid_ino (g_sb example_fs) 5" by (simp add: valid_ino_def example_fs_def example_sb_def)
  have wf: "inode_wf (new_inode TYPE_FILE)" by (simp add: inode_wf_def new_inode_def)
  obtain s where s: "write_inode example_fs 5 (new_inode TYPE_FILE) = (s, True)" "ready s"
      "fsys_of s = with_inode (fsys_of example_fs) 5 (new_inode TYPE_FILE)"
    using write_inode_ready [OF example_ready v wf] by blast
  have sb: "g_sb s = g_sb example_fs" using arg_cong [OF s(3), of f_sb] by simp
  have "owned F (new_inode TYPE_FILE) n = 0" for F n by (simp add: owned_def ptr_def new_inode_def)
  then have "fs_ok (fsys_of s)" by (auto simp: fs_ok_def s(3) live_def example_inode split: if_splits)
  then show ?thesis using s v sb by (auto simp: new_inode_def)
qed

lemma osfs2_read_correct_witness:
  "\<exists>s s1. write_inode example_fs 5 (new_inode TYPE_FILE) = (s, True) \<and> osfs2_read s 5 0 10 = (s1, Some [])"
proof -
  obtain s where s: "write_inode example_fs 5 (new_inode TYPE_FILE) = (s, True)" "ready s" "fs_ok (fsys_of s)"
      "valid_ino (g_sb s) 5" "i_type (f_inode (fsys_of s) 5) = TYPE_FILE" "i_size (f_inode (fsys_of s) 5) = 0"
    using example_file by blast
  from osfs2_read_correct [OF s(2-4) disjI1 [OF s(5)], of 0 10] show ?thesis using s(1,6) by auto
qed

lemma osfs2_write_correct_witness:
  "\<exists>s s1 s2 n. write_inode example_fs 5 (new_inode TYPE_FILE) = (s, True) \<and>
     osfs2_write s 5 4090 [1, 2, 3, 4, 5, 6, 7, 8] = (s1, if n = 0 then -1 else int n) \<and>
     osfs2_read s1 5 4090 n = (s2, Some (take n [1, 2, 3, 4, 5, 6, 7, 8]))"
proof -
  obtain s where s: "write_inode example_fs 5 (new_inode TYPE_FILE) = (s, True)" "ready s" "fs_ok (fsys_of s)"
      "valid_ino (g_sb s) 5" "i_type (f_inode (fsys_of s) 5) = TYPE_FILE" using example_file by blast
  have l: "4090 + length [1, 2, 3, 4, 5, 6, 7, 8 :: byte] \<le> 4259840" by simp
  from osfs2_write_correct [OF s(2-5) l] show ?thesis using s(1) by blast
qed

lemma osfs2_truncate_correct_witness:
  "\<exists>s s1. write_inode example_fs 5 (new_inode TYPE_FILE) = (s, True) \<and> osfs2_truncate s 5 5000 = (s1, True) \<and>
     i_size (f_inode (fsys_of s1) 5) = 5000"
proof -
  obtain s where s: "write_inode example_fs 5 (new_inode TYPE_FILE) = (s, True)" "ready s" "fs_ok (fsys_of s)"
      "valid_ino (g_sb s) 5" "i_type (f_inode (fsys_of s) 5) = TYPE_FILE" using example_file by blast
  have l: "unat (5000 :: u32) \<le> 4259840" by simp
  from osfs2_truncate_correct [OF s(2-4) disjI1 [OF s(5)] l] show ?thesis
    using s(1) by (auto simp: truncated_def Let_def)
qed

lemma truncate_keeps_tail_witness:
  "\<exists>s s1 s2 n. write_inode example_fs 5 (new_inode TYPE_FILE) = (s, True) \<and> osfs2_truncate s 5 10 = (s1, True) \<and>
     osfs2_write s1 5 200 [1, 2, 3] = (s2, if n = 0 then -1 else int n)"
proof -
  obtain s where s: "write_inode example_fs 5 (new_inode TYPE_FILE) = (s, True)" "ready s" "fs_ok (fsys_of s)"
      "valid_ino (g_sb s) 5" "i_type (f_inode (fsys_of s) 5) = TYPE_FILE" using example_file by blast
  have l: "unat (10 :: u32) \<le> 4259840" "unat (10 :: u32) \<le> 50" "50 div 4096 < kept_blocks 10"
    "(50 :: nat) < 200" "200 + length [1, 2, 3 :: byte] \<le> 4259840" "[1, 2, 3 :: byte] \<noteq> []"
    by (simp_all add: kept_blocks_def)
  from truncate_keeps_tail [OF s(2-5) l(1-6)] show ?thesis using s(1) by blast
qed

end
