(* ===== verification/FileDesc.thy ===== *)
theory FileDesc
  imports Prelude
begin

text \<open>
  What the file systems share with the VFS, from \<open>kernel/core/vfs.h\<close>: error numbers, open
  flags, the kinds of descriptors and \<open>struct fd_entry\<close>.  Pointers in an entry are addresses,
  0 for \<open>NULL\<close>.
\<close>

abbreviation (input) ENOENT :: int where "ENOENT \<equiv> 2"
abbreviation (input) EINTR :: int where "EINTR \<equiv> 4"
abbreviation (input) EIO :: int where "EIO \<equiv> 5"
abbreviation (input) EBADF :: int where "EBADF \<equiv> 9"
abbreviation (input) ENOMEM :: int where "ENOMEM \<equiv> 12"
abbreviation (input) EINVAL :: int where "EINVAL \<equiv> 22"
abbreviation (input) EMFILE :: int where "EMFILE \<equiv> 24"
abbreviation (input) ENOSPC :: int where "ENOSPC \<equiv> 28"
abbreviation (input) ESPIPE :: int where "ESPIPE \<equiv> 29"
abbreviation (input) EROFS :: int where "EROFS \<equiv> 30"
abbreviation (input) ENOSYS :: int where "ENOSYS \<equiv> 38"

definition O_CREAT :: u32 where "O_CREAT = 64"
definition O_TRUNC :: u32 where "O_TRUNC = 512"
definition O_APPEND :: u32 where "O_APPEND = 1024"

definition has_flag :: "u32 \<Rightarrow> u32 \<Rightarrow> bool" where
  "has_flag flags f = (flags AND f \<noteq> 0)"

datatype fd_kind =
  FD_CONSOLE | FD_FILE | FD_PIPE_R | FD_PIPE_W | FD_TMPFS_RW | FD_SOCKET | FD_SOCKET_LISTEN |
  FD_PTY_MASTER | FD_PTY_SLAVE | FD_OSFS2_FILE | FD_SRV_LISTEN | FD_SRV_CONN | FD_USERFS_FILE

record fd_entry =
  fe_in_use :: bool
  fe_kind :: fd_kind
  fe_offset :: nat
  fe_ramfs_index :: int
  fe_osfs_start :: nat
  fe_osfs_size :: nat
  fe_pipe :: nat
  fe_socket_cid :: int
  fe_pty :: nat
  fe_osfs2_ino :: u32
  fe_srv_l :: nat
  fe_srv_c :: nat
  fe_srv_is_service :: bool
  fe_userfs_ch :: nat
  fe_userfs_handle :: nat

text \<open>The fields every \<open>open\<close> method resets before it sets its own.\<close>

definition reset_entry :: "fd_kind \<Rightarrow> fd_entry \<Rightarrow> fd_entry" where
  "reset_entry k e =
     e\<lparr>fe_kind := k, fe_offset := 0, fe_ramfs_index := -1, fe_osfs_start := 0, fe_osfs_size := 0,
       fe_pipe := 0, fe_socket_cid := -1, fe_pty := 0, fe_osfs2_ino := 0, fe_srv_l := 0, fe_srv_c := 0,
       fe_srv_is_service := False\<rparr>"

text \<open>\<open>*_strip_slash\<close>: the path relative to the mount point without its leading slash.\<close>

definition strip_slash :: "char list option \<Rightarrow> char list" where
  "strip_slash rel =
     (case rel of
        None \<Rightarrow> []
      | Some (c # cs) \<Rightarrow> if c = CHR ''/'' then cs else c # cs
      | Some [] \<Rightarrow> [])"

text \<open>\<open>!*s\<close> on a C string.\<close>

definition str_empty :: "char list \<Rightarrow> bool" where
  "str_empty s = (case s of [] \<Rightarrow> True | c # _ \<Rightarrow> c = NUL)"

lemma str_empty_cstr: "str_empty s \<longleftrightarrow> cstr s = []"
  by (simp add: str_empty_def cstr_def split: list.split)

section \<open>Bytes in memory\<close>

definition mem_read :: "(nat \<Rightarrow> byte) \<Rightarrow> nat \<Rightarrow> nat \<Rightarrow> byte list" where
  "mem_read m a n = map (\<lambda>k. m (a + k)) [0..<n]"

definition mem_write :: "(nat \<Rightarrow> byte) \<Rightarrow> nat \<Rightarrow> byte list \<Rightarrow> nat \<Rightarrow> byte" where
  "mem_write m a bs = (\<lambda>p. if a \<le> p \<and> p < a + length bs then bs ! (p - a) else m p)"

lemma length_mem_read [simp]: "length (mem_read m a n) = n"
  by (simp add: mem_read_def)

lemma nth_mem_read [simp]: "i < n \<Longrightarrow> mem_read m a n ! i = m (a + i)"
  by (simp add: mem_read_def)

lemma mem_read_0 [simp]: "mem_read m a 0 = []"
  by (simp add: mem_read_def)

lemma mem_write_at: "mem_write m a bs (a + i) = (if i < length bs then bs ! i else m (a + i))"
  by (simp add: mem_write_def)

lemma mem_read_write [simp]: "mem_read (mem_write m a bs) a (length bs) = bs"
  by (rule nth_equalityI) (simp_all add: mem_write_at)

lemma mem_read_other:
  "b + n \<le> a \<or> a + length bs \<le> b \<Longrightarrow> mem_read (mem_write m a bs) b n = mem_read m b n"
  by (auto simp: mem_read_def mem_write_def)

text \<open>Overwriting part of a buffer, with zeros in a gap: the effect of a positional write on the
  bytes of a file.\<close>

definition overwrite :: "byte list \<Rightarrow> nat \<Rightarrow> byte list \<Rightarrow> byte list" where
  "overwrite old off bs =
     map (\<lambda>k. if off \<le> k \<and> k < off + length bs then bs ! (k - off)
              else if k < length old then old ! k else 0) [0..<max (length old) (off + length bs)]"

lemma length_overwrite [simp]: "length (overwrite old off bs) = max (length old) (off + length bs)"
  by (simp add: overwrite_def)

lemma nth_overwrite:
  "k < max (length old) (off + length bs) \<Longrightarrow> overwrite old off bs ! k =
    (if off \<le> k \<and> k < off + length bs then bs ! (k - off) else if k < length old then old ! k else 0)"
  by (simp add: overwrite_def)

lemma overwrite_read: "take (length bs) (drop off (overwrite old off bs)) = bs"
  by (rule nth_equalityI) (auto simp: nth_overwrite)

end
