(* ===== verification/Tmpfs.thy ===== *)
theory Tmpfs
  imports Heap FileDesc "HOL-Library.Monad_Syntax"
begin

text \<open>
  The in-memory file system mounted on \<open>/tmp\<close>: \<open>kernel/core/tmpfs.c\<close>.

  \<open>tmpfs\<close> holds the table \<open>g_files\<close>, the kernel heap of \<open>Heap\<close> the buffers come from,
  and the bytes of memory.  \<open>None\<close> as the result of an operation means that it does not return:
  the heap panicked, or the doubling loop of \<open>tmpfs_grow_to\<close> never ends.  The theorems show
  that neither happens.

  The abstract file system is a map from names to contents, \<open>dir_of\<close>; the lemmas show each
  operation against it.
\<close>

section \<open>The table\<close>

record tfile =
  tf_in_use :: bool
  tf_name :: "char list"
  tf_data :: nat
  tf_size :: nat
  tf_cap :: nat

record tmpfs =
  g_files :: "tfile list"
  tm_heap :: heap
  tm_ram :: "nat \<Rightarrow> byte"

abbreviation (input) TMPFS_MAX_FILES :: nat where "TMPFS_MAX_FILES \<equiv> 16"
abbreviation (input) TMPFS_MAX_NAME :: nat where "TMPFS_MAX_NAME \<equiv> 32"
abbreviation (input) TMPFS_MAX_FILE_SIZE :: nat where "TMPFS_MAX_FILE_SIZE \<equiv> 262144"
abbreviation (input) TMPFS_INITIAL_CAP :: nat where "TMPFS_INITIAL_CAP \<equiv> 4096"

definition put_file :: "tmpfs \<Rightarrow> nat \<Rightarrow> tfile \<Rightarrow> tmpfs" where
  "put_file s i f = s\<lparr>g_files := (g_files s)[i := f]\<rparr>"

definition tmpfs_init :: "tmpfs \<Rightarrow> tmpfs" where
  "tmpfs_init s =
     s\<lparr>g_files := map (\<lambda>f. f\<lparr>tf_in_use := False, tf_name := (tf_name f)[0 := NUL], tf_data := 0,
                              tf_size := 0, tf_cap := 0\<rparr>) (g_files s)\<rparr>"

definition tmpfs_lookup :: "tmpfs \<Rightarrow> char list option \<Rightarrow> int" where
  "tmpfs_lookup s name =
     (case name of
        None \<Rightarrow> -1
      | Some n \<Rightarrow>
          (case first_index (\<lambda>f. tf_in_use f \<and> name_eq (tf_name f) n) (g_files s) of
             None \<Rightarrow> -1 | Some i \<Rightarrow> int i))"

text \<open>The loop of \<open>copy_name\<close>: the destination, the index it stopped at and what is left of the
  source.\<close>

fun copy_chars :: "nat \<Rightarrow> char list \<Rightarrow> char list \<Rightarrow> char list \<times> nat \<times> char list" where
  "copy_chars i dst [] = (dst, i, [])"
| "copy_chars i dst (c # cs) =
     (if c \<noteq> NUL \<and> i < TMPFS_MAX_NAME - 1 then copy_chars (i + 1) (dst[i := c]) cs
      else (dst, i, c # cs))"

definition copy_name :: "char list \<Rightarrow> char list \<Rightarrow> char list \<times> int" where
  "copy_name dst src =
     (let (d, i, rest) = copy_chars 0 dst src
      in if \<not> str_empty rest then (d, -1) else (d[i := NUL], int i))"

definition tmpfs_create_or_truncate :: "tmpfs \<Rightarrow> char list option \<Rightarrow> (tmpfs \<times> int) option" where
  "tmpfs_create_or_truncate s name =
     (case name of
        None \<Rightarrow> Some (s, -1)
      | Some n \<Rightarrow>
          if str_empty n then Some (s, -1)
          else let existing = tmpfs_lookup s name in
          if existing \<ge> 0 then
            Some (put_file s (nat existing) ((g_files s ! nat existing)\<lparr>tf_size := 0\<rparr>), existing)
          else case first_index (\<lambda>f. \<not> tf_in_use f) (g_files s) of
            None \<Rightarrow> Some (s, -1)
          | Some idx \<Rightarrow>
              let f = g_files s ! idx;
                  (nm, r) = copy_name (tf_name f) n;
                  f1 = f\<lparr>tf_name := nm\<rparr>
              in if r < 0 then Some (put_file s idx f1, -1)
              else do {
                (h, p) \<leftarrow> kmalloc (tm_heap s) TMPFS_INITIAL_CAP;
                let s1 = s\<lparr>tm_heap := h\<rparr>;
                if p = 0
                then Some (put_file s1 idx (f1\<lparr>tf_data := 0, tf_name := nm[0 := NUL]\<rparr>), -1)
                else Some (put_file s1 idx (f1\<lparr>tf_data := p, tf_cap := TMPFS_INITIAL_CAP,
                             tf_size := 0, tf_in_use := True\<rparr>), int idx) })"

section \<open>Reading and writing\<close>

definition tmpfs_read :: "tmpfs \<Rightarrow> int \<Rightarrow> nat \<Rightarrow> nat \<Rightarrow> int \<times> byte list" where
  "tmpfs_read s idx off len =
     (if idx < 0 \<or> idx \<ge> int TMPFS_MAX_FILES then (- EBADF, [])
      else let f = g_files s ! nat idx in
      if \<not> tf_in_use f then (- EBADF, [])
      else if off \<ge> tf_size f then (0, [])
      else let avail = tf_size f - off;
               n = (if len < avail then len else avail)
           in (int n, mem_read (tm_ram s) (tf_data f + off) n))"

text \<open>The doubling loop of \<open>tmpfs_grow_to\<close>.\<close>

partial_function (option) grow_cap :: "nat \<Rightarrow> nat \<Rightarrow> nat option" where
  "grow_cap newcap need =
     (if newcap < need
      then (if newcap \<ge> TMPFS_MAX_FILE_SIZE div 2 then Some TMPFS_MAX_FILE_SIZE
            else grow_cap (newcap * 2) need)
      else Some newcap)"

definition tmpfs_grow_to :: "tmpfs \<Rightarrow> nat \<Rightarrow> nat \<Rightarrow> (tmpfs \<times> int) option" where
  "tmpfs_grow_to s i need =
     (let f = g_files s ! i in
      if need \<le> tf_cap f then Some (s, 0)
      else if need > TMPFS_MAX_FILE_SIZE then Some (s, -1)
      else do {
        newcap \<leftarrow> grow_cap (if tf_cap f = 0 then TMPFS_INITIAL_CAP else tf_cap f) need;
        if newcap < need then Some (s, -1)
        else do {
          (h, nbuf) \<leftarrow> kmalloc (tm_heap s) newcap;
          if nbuf = 0 then Some (s\<lparr>tm_heap := h\<rparr>, -1)
          else do {
            let ram1 = mem_write (tm_ram s) nbuf (mem_read (tm_ram s) (tf_data f) (tf_size f));
            h1 \<leftarrow> (if tf_data f \<noteq> 0 then kfree h (tf_data f) else Some h);
            Some (put_file (s\<lparr>tm_heap := h1, tm_ram := ram1\<rparr>) i
                    (f\<lparr>tf_data := nbuf, tf_cap := newcap\<rparr>), 0) } } })"

definition tmpfs_write :: "tmpfs \<Rightarrow> int \<Rightarrow> nat \<Rightarrow> byte list \<Rightarrow> (tmpfs \<times> int) option" where
  "tmpfs_write s idx off src =
     (if idx < 0 \<or> idx \<ge> int TMPFS_MAX_FILES then Some (s, - EBADF)
      else if \<not> tf_in_use (g_files s ! nat idx) then Some (s, - EBADF)
      else if length src = 0 then Some (s, 0)
      else let need64 = add64 off (length src) in
      if need64 > TMPFS_MAX_FILE_SIZE then Some (s, - ENOSPC)
      else do {
        (s1, r) \<leftarrow> tmpfs_grow_to s (nat idx) (need64 mod 2 ^ 32);
        if r \<noteq> 0 then Some (s1, - ENOMEM)
        else do {
          let f = g_files s1 ! nat idx;
          let ram1 = (if off > tf_size f
                      then mem_write (tm_ram s1) (tf_data f + tf_size f) (replicate (off - tf_size f) 0)
                      else tm_ram s1);
          let ram2 = mem_write ram1 (tf_data f + off) src;
          let fin = add64 off (length src) mod 2 ^ 32;
          let f1 = (if fin > tf_size f then f\<lparr>tf_size := fin\<rparr> else f);
          Some (put_file (s1\<lparr>tm_ram := ram2\<rparr>) (nat idx) f1, int (length src)) } })"

section \<open>Enumeration and removal\<close>

definition tmpfs_count :: "tmpfs \<Rightarrow> nat" where
  "tmpfs_count s = length (filter tf_in_use (g_files s))"

text \<open>The copy loop of \<open>tmpfs_listdir\<close>, from position \<open>n\<close>; the NUL after it is written in
  any case.\<close>

fun list_chars :: "nat \<Rightarrow> nat \<Rightarrow> char list \<Rightarrow> char list" where
  "list_chars n cap [] = []"
| "list_chars n cap (c # cs) =
     (if c \<noteq> NUL \<and> n + 1 < cap then c # list_chars (n + 1) cap cs else [])"

text \<open>The scan over the slots, with \<open>seen\<close> used ones behind it.\<close>

fun nth_file :: "tfile list \<Rightarrow> int \<Rightarrow> int \<Rightarrow> tfile option" where
  "nth_file [] idx seen = None"
| "nth_file (f # fs) idx seen =
     (if \<not> tf_in_use f then nth_file fs idx seen
      else if seen = idx then Some f
      else nth_file fs idx (seen + 1))"

text \<open>The result, the bytes stored at \<open>out\<close> and the size stored through \<open>size_out\<close>.\<close>

definition tmpfs_listdir :: "tmpfs \<Rightarrow> int \<Rightarrow> nat \<Rightarrow> int \<times> char list \<times> nat" where
  "tmpfs_listdir s idx cap =
     (if idx < 0 then (-1, [], 0)
      else case nth_file (g_files s) idx 0 of
        None \<Rightarrow> (-1, [], 0)
      | Some f \<Rightarrow>
          let cs = list_chars 0 cap (tf_name f) in (int (length cs), cs @ [NUL], tf_size f))"

definition tmpfs_size_of :: "tmpfs \<Rightarrow> int \<Rightarrow> nat" where
  "tmpfs_size_of s idx =
     (if idx < 0 \<or> idx \<ge> int TMPFS_MAX_FILES then 0
      else if \<not> tf_in_use (g_files s ! nat idx) then 0
      else tf_size (g_files s ! nat idx))"

definition tmpfs_seek_end :: "tmpfs \<Rightarrow> int \<Rightarrow> tmpfs" where
  "tmpfs_seek_end s idx = s"

definition tmpfs_unlink :: "tmpfs \<Rightarrow> char list option \<Rightarrow> (tmpfs \<times> int) option" where
  "tmpfs_unlink s name =
     (let idx = tmpfs_lookup s name in
      if idx < 0 then Some (s, - ENOENT)
      else let f = g_files s ! nat idx in do {
        h \<leftarrow> (if tf_data f \<noteq> 0 then kfree (tm_heap s) (tf_data f) else Some (tm_heap s));
        Some (put_file (s\<lparr>tm_heap := h\<rparr>) (nat idx)
                (f\<lparr>tf_data := 0, tf_cap := 0, tf_size := 0, tf_in_use := False,
                   tf_name := (tf_name f)[0 := NUL]\<rparr>), 0) })"

section \<open>The methods the mount table calls\<close>

text \<open>The entry is the descriptor slot the VFS passes by address.\<close>

definition tmpfs_op_open ::
    "tmpfs \<Rightarrow> char list option \<Rightarrow> u32 \<Rightarrow> fd_entry option \<Rightarrow> (tmpfs \<times> int \<times> fd_entry option) option" where
  "tmpfs_op_open s rel flags out =
     (case out of
        None \<Rightarrow> Some (s, - EINVAL, None)
      | Some e \<Rightarrow>
          let bare = strip_slash rel in
          if str_empty bare then Some (s, - EINVAL, Some e)
          else do {
            (s1, tidx) \<leftarrow>
              (if has_flag flags O_CREAT then
                 let found = tmpfs_lookup s (Some bare) in
                 if found \<ge> 0 then
                   (if \<not> has_flag flags O_APPEND
                    then do { (s1, _) \<leftarrow> tmpfs_create_or_truncate s (Some bare); Some (s1, Inr found) }
                    else Some (s, Inr found))
                 else do {
                   (s1, t) \<leftarrow> tmpfs_create_or_truncate s (Some bare);
                   Some (s1, if t < 0 then Inl (- ENOMEM) else Inr t) }
               else
                 let t = tmpfs_lookup s (Some bare)
                 in Some (s, if t < 0 then Inl (- ENOENT) else Inr t));
            case tidx of
              Inl err \<Rightarrow> Some (s1, err, Some e)
            | Inr t \<Rightarrow>
                Some (s1, 0, Some ((reset_entry FD_TMPFS_RW e)
                  \<lparr>fe_offset := if has_flag flags O_APPEND then tf_size (g_files s1 ! nat t) else 0,
                   fe_ramfs_index := t\<rparr>)) })"

definition tmpfs_op_read ::
    "tmpfs \<Rightarrow> fd_entry option \<Rightarrow> bool \<Rightarrow> nat \<Rightarrow> int \<times> byte list \<times> fd_entry option" where
  "tmpfs_op_read s e buf_null n =
     (case e of
        None \<Rightarrow> (- EINVAL, [], None)
      | Some x \<Rightarrow>
          if buf_null then (- EINVAL, [], e)
          else let (got, bs) = tmpfs_read s (fe_ramfs_index x) (fe_offset x) n
               in (got, bs, Some (if got > 0 then x\<lparr>fe_offset := add64 (fe_offset x) (nat got)\<rparr> else x)))"

definition tmpfs_op_write ::
    "tmpfs \<Rightarrow> fd_entry option \<Rightarrow> bool \<Rightarrow> byte list \<Rightarrow> (tmpfs \<times> int \<times> fd_entry option) option" where
  "tmpfs_op_write s e buf_null src =
     (case e of
        None \<Rightarrow> Some (s, - EINVAL, None)
      | Some x \<Rightarrow>
          if buf_null then Some (s, - EINVAL, e)
          else do {
            (s1, wr) \<leftarrow> tmpfs_write s (fe_ramfs_index x) (fe_offset x mod 2 ^ 32) src;
            Some (s1, wr, Some (if wr > 0 then x\<lparr>fe_offset := add64 (fe_offset x) (nat wr)\<rparr> else x)) })"

definition tmpfs_op_close :: "tmpfs \<Rightarrow> fd_entry option \<Rightarrow> tmpfs \<times> int" where
  "tmpfs_op_close s e = (s, 0)"

text \<open>The result, the name and the type stored through \<open>type\<close>.\<close>

definition tmpfs_op_listdir :: "tmpfs \<Rightarrow> char list option \<Rightarrow> int \<Rightarrow> nat \<Rightarrow> int \<times> char list \<times> nat" where
  "tmpfs_op_listdir s rel idx cap =
     (if \<not> str_empty (strip_slash rel) then (-1, [], 0)
      else let (got, name, _) = tmpfs_listdir s idx cap
           in if got < 0 then (-1, [], 0) else (got, name, 0))"

definition tmpfs_op_unlink :: "tmpfs \<Rightarrow> char list option \<Rightarrow> (tmpfs \<times> int) option" where
  "tmpfs_op_unlink s rel =
     (let bare = strip_slash rel
      in if str_empty bare then Some (s, - EINVAL) else tmpfs_unlink s (Some bare))"

definition tmpfs_op_is_dir :: "char list option \<Rightarrow> int" where
  "tmpfs_op_is_dir rel = (if str_empty (strip_slash rel) then 1 else 0)"

text \<open>The result, and the address and length of the copy.\<close>

definition tmpfs_op_load :: "tmpfs \<Rightarrow> char list option \<Rightarrow> (tmpfs \<times> int \<times> nat \<times> nat) option" where
  "tmpfs_op_load s rel =
     (let bare = strip_slash rel in
      if str_empty bare then Some (s, - ENOENT, 0, 0)
      else let idx = tmpfs_lookup s (Some bare) in
      if idx < 0 then Some (s, - ENOENT, 0, 0)
      else let sz = tmpfs_size_of s idx in do {
        (h, p) \<leftarrow> kmalloc (tm_heap s) (if sz \<noteq> 0 then sz else 1);
        let s1 = s\<lparr>tm_heap := h\<rparr>;
        if p = 0 then Some (s1, - ENOMEM, 0, 0)
        else do {
          let (got, bs) = tmpfs_read s1 idx 0 sz;
          let s2 = s1\<lparr>tm_ram := mem_write (tm_ram s1) p bs\<rparr>;
          if got < 0 \<or> nat got \<noteq> sz
          then do { h1 \<leftarrow> kfree h p; Some (s2\<lparr>tm_heap := h1\<rparr>, - EINVAL, 0, 0) }
          else Some (s2, 0, p, sz) } })"

section \<open>Names\<close>

lemma copy_chars_eq:
  "i \<le> 31 \<Longrightarrow> length dst = 32 \<Longrightarrow> copy_chars i dst src =
     (let n = min (length (cstr src)) (31 - i) in (splice dst i (take n src), i + n, drop n src))"
proof (induction i dst src rule: copy_chars.induct)
  case (1 i dst)
  then show ?case by (simp add: splice_def cstr_def)
next
  case (2 i dst c cs)
  show ?case
  proof (cases "c \<noteq> NUL \<and> i < 31")
    case True
    then have n: "min (length (cstr (c # cs))) (31 - i) = Suc (min (length (cstr cs)) (31 - Suc i))"
      by (auto simp: cstr_def)
    have e: "splice (dst[i := c]) (Suc i) (take m cs) = splice dst i (c # take m cs)" for m
      using True 2(3) by (simp add: splice_def take_drop_update) (simp add: min_def add.commute)
    have "copy_chars i dst (c # cs) = copy_chars (i + 1) (dst[i := c]) cs" using True by simp
    also have "\<dots> = (let n = min (length (cstr cs)) (31 - (i + 1))
        in (splice (dst[i := c]) (i + 1) (take n cs), i + 1 + n, drop n cs))"
      by (rule 2(1)) (use True 2(2,3) in auto)
    also have "\<dots> = (let n = min (length (cstr (c # cs))) (31 - i)
        in (splice dst i (take n (c # cs)), i + n, drop n (c # cs)))"
      unfolding n Let_def by (simp add: e)
    finally show ?thesis .
  next
    case False
    then have "min (length (cstr (c # cs))) (31 - i) = 0" by (auto simp: cstr_def)
    then show ?thesis using False by (auto simp: splice_def)
  qed
qed

lemma cstr_take: "take (length (cstr s)) s = cstr s"
  unfolding cstr_def by (metis takeWhile_eq_take)

lemma cstr_drop: "str_empty (drop n s) \<longleftrightarrow> length (cstr s) \<le> n" if "n \<le> length (cstr s)"
  using that
proof (induction s arbitrary: n)
  case Nil
  then show ?case by (simp add: str_empty_def cstr_def)
next
  case (Cons c s)
  then show ?case by (cases n) (auto simp: str_empty_def cstr_def)
qed

text \<open>\<open>copy_name\<close> either stores the whole name with its NUL, or refuses it as too long.\<close>

lemma copy_name_eq:
  assumes "length dst = 32"
  shows "length (cstr src) \<le> 31 \<Longrightarrow> \<exists>d. copy_name dst src = (d, int (length (cstr src))) \<and>
      length d = 32 \<and> cstr d = cstr src \<and> NUL \<in> set d"
    and "31 < length (cstr src) \<Longrightarrow> \<exists>d. copy_name dst src = (d, -1) \<and> length d = 32"
proof -
  let ?n = "min (length (cstr src)) 31"
  have c: "copy_chars 0 dst src = (splice dst 0 (take ?n src), ?n, drop ?n src)"
    using copy_chars_eq [of 0 dst src] assms by (simp add: Let_def)
  have le: "length (cstr src) \<le> length src" by (simp add: cstr_def length_takeWhile_le)
  then have ln: "length (splice dst 0 (take ?n src)) = 32" using assms by simp
  {
    assume n: "length (cstr src) \<le> 31"
    then have "?n = length (cstr src)" by simp
    then have c': "copy_chars 0 dst src =
        (splice dst 0 (cstr src), length (cstr src), drop (length (cstr src)) src)"
      using c by (simp add: cstr_take)
    have d: "(splice dst 0 (cstr src))[length (cstr src) := NUL] =
        cstr src @ NUL # drop (Suc (length (cstr src))) dst"
    proof -
      have "length (cstr src) < length dst" using n assms by simp
      then have "drop (length (cstr src)) dst = dst ! length (cstr src) # drop (Suc (length (cstr src))) dst"
        by (simp add: Cons_nth_drop_Suc)
      then show ?thesis by (simp add: splice_def list_update_append)
    qed
    show "\<exists>d. copy_name dst src = (d, int (length (cstr src))) \<and> length d = 32 \<and>
        cstr d = cstr src \<and> NUL \<in> set d"
      using c' cstr_drop [of "length (cstr src)" src] n assms
      by (intro exI [of _ "cstr src @ NUL # drop (Suc (length (cstr src))) dst"])
        (simp add: copy_name_def d)
  }
  assume "31 < length (cstr src)"
  then show "\<exists>d. copy_name dst src = (d, -1) \<and> length d = 32"
    using c ln cstr_drop [of 31 src] by (simp add: copy_name_def)
qed

section \<open>The invariant\<close>

definition slot_ok :: "tfile \<Rightarrow> bool" where
  "slot_ok f \<longleftrightarrow> length (tf_name f) = 32 \<and>
     (if tf_in_use f
      then tf_data f \<noteq> 0 \<and> NUL \<in> set (tf_name f) \<and> cstr (tf_name f) \<noteq> [] \<and>
           tf_size f \<le> tf_cap f \<and> 0 < tf_cap f \<and> tf_cap f \<le> 262144
      else tf_data f = 0)"

definition used :: "tmpfs \<Rightarrow> nat set" where
  "used s = {i. i < 16 \<and> tf_in_use (g_files s ! i)}"

abbreviation slot_name :: "tmpfs \<Rightarrow> nat \<Rightarrow> char list" where
  "slot_name s i \<equiv> cstr (tf_name (g_files s ! i))"

abbreviation slot_data :: "tmpfs \<Rightarrow> nat \<Rightarrow> nat" where
  "slot_data s i \<equiv> tf_data (g_files s ! i)"

definition bufs :: "(nat \<Rightarrow> nat) \<Rightarrow> tmpfs \<Rightarrow> (nat \<times> nat) set" where
  "bufs K s = (\<lambda>i. (slot_data s i, K i)) ` used s"

text \<open>\<open>R0\<close> are the live regions of the heap that belong to others, \<open>K i\<close> is the size of the
  region behind the buffer of slot \<open>i\<close>.\<close>

definition tmpfs_inv :: "(nat \<times> nat) set \<Rightarrow> (nat \<Rightarrow> nat) \<Rightarrow> tmpfs \<Rightarrow> bool" where
  "tmpfs_inv R0 K s \<longleftrightarrow>
     length (g_files s) = 16 \<and> (\<forall>i<16. slot_ok (g_files s ! i)) \<and>
     inj_on (slot_name s) (used s) \<and> inj_on (slot_data s) (used s) \<and>
     (\<forall>i\<in>used s. tf_cap (g_files s ! i) \<le> K i \<and> (slot_data s i, K i) \<notin> R0) \<and>
     heap_live (tm_heap s) (R0 \<union> bufs K s)"

definition tmpfs_ok :: "(nat \<times> nat) set \<Rightarrow> tmpfs \<Rightarrow> bool" where
  "tmpfs_ok R0 s \<longleftrightarrow> (\<exists>K. tmpfs_inv R0 K s)"

definition content :: "tmpfs \<Rightarrow> nat \<Rightarrow> byte list" where
  "content s i = mem_read (tm_ram s) (slot_data s i) (tf_size (g_files s ! i))"

text \<open>The directory as a map.\<close>

definition dir_of :: "tmpfs \<Rightarrow> char list \<Rightarrow> byte list option" where
  "dir_of s n =
     (case first_index (\<lambda>f. tf_in_use f \<and> cstr (tf_name f) = n) (g_files s) of
        None \<Rightarrow> None | Some i \<Rightarrow> Some (content s i))"

text \<open>What other owners keep in their regions.\<close>

definition untouched :: "(nat \<times> nat) set \<Rightarrow> tmpfs \<Rightarrow> tmpfs \<Rightarrow> bool" where
  "untouched R0 s s' \<longleftrightarrow>
     (\<forall>p k. (p, k) \<in> R0 \<longrightarrow> mem_read (tm_ram s') p k = mem_read (tm_ram s) p k)"

lemma untouched_refl [simp]: "untouched R0 s s"
  by (simp add: untouched_def)

lemma untouched_trans: "untouched R0 s t \<Longrightarrow> untouched R0 t u \<Longrightarrow> untouched R0 s u"
  by (auto simp: untouched_def)

lemma used_less [dest]: "i \<in> used s \<Longrightarrow> i < 16"
  by (simp add: used_def)

lemma tmpfs_invD:
  assumes "tmpfs_inv R0 K s" "i \<in> used s"
  shows "slot_data s i \<noteq> 0" "slot_name s i \<noteq> []" "tf_size (g_files s ! i) \<le> tf_cap (g_files s ! i)"
    "0 < tf_cap (g_files s ! i)" "tf_cap (g_files s ! i) \<le> 262144" "tf_cap (g_files s ! i) \<le> K i"
    "length (tf_name (g_files s ! i)) = 32" "NUL \<in> set (tf_name (g_files s ! i))"
  using assms by (auto simp: tmpfs_inv_def used_def slot_ok_def)

lemma tmpfs_inv_disjoint:
  assumes "tmpfs_inv R0 K s" "i \<in> used s" "j \<in> used s" "i \<noteq> j"
  shows "slot_data s i + K i \<le> slot_data s j \<or> slot_data s j + K j \<le> slot_data s i"
proof -
  have "slot_data s i \<noteq> slot_data s j" using assms by (auto simp: tmpfs_inv_def inj_on_def)
  then show ?thesis
    using assms ka.live_disjoint [of "tm_heap s" "R0 \<union> bufs K s" "slot_data s i" "K i" "slot_data s j" "K j"]
    by (auto simp: tmpfs_inv_def bufs_def)
qed

lemma tmpfs_inv_others:
  assumes "tmpfs_inv R0 K s" "i \<in> used s" "(p, k) \<in> R0"
  shows "slot_data s i + K i \<le> p \<or> p + k \<le> slot_data s i"
  using assms ka.live_disjoint [of "tm_heap s" "R0 \<union> bufs K s" "slot_data s i" "K i" p k]
  by (auto simp: tmpfs_inv_def bufs_def)

lemma dir_of_Some:
  assumes "tmpfs_inv R0 K s"
  shows "dir_of s n = Some c \<longleftrightarrow> (\<exists>i\<in>used s. slot_name s i = n \<and> content s i = c)"
proof
  assume "dir_of s n = Some c"
  then obtain i where i: "first_index (\<lambda>f. tf_in_use f \<and> cstr (tf_name f) = n) (g_files s) = Some i"
    "content s i = c" by (auto simp: dir_of_def split: option.splits)
  then have "i \<in> used s" "slot_name s i = n"
    using assms first_indexD(1,2) [OF i(1)] by (auto simp: used_def tmpfs_inv_def)
  then show "\<exists>i\<in>used s. slot_name s i = n \<and> content s i = c" using i(2) by blast
next
  assume "\<exists>i\<in>used s. slot_name s i = n \<and> content s i = c"
  then obtain i where i: "i \<in> used s" "slot_name s i = n" "content s i = c" by blast
  have inj: "inj_on (slot_name s) (used s)" and len: "length (g_files s) = 16"
    using assms by (auto simp: tmpfs_inv_def)
  have "\<not> (tf_in_use (g_files s ! j) \<and> slot_name s j = n)" if "j < i" for j
    using inj_onD [OF inj, of j i] i that by (auto simp: used_def)
  then have "first_index (\<lambda>f. tf_in_use f \<and> cstr (tf_name f) = n) (g_files s) = Some i"
    unfolding first_index_Some using i len by (auto simp: used_def)
  then show "dir_of s n = Some c" using i by (simp add: dir_of_def)
qed

lemma dir_of_None:
  assumes "tmpfs_inv R0 K s"
  shows "dir_of s n = None \<longleftrightarrow> n \<notin> slot_name s ` used s"
  using dir_of_Some [OF assms, of n] by (cases "dir_of s n") auto

text \<open>Changing one slot changes the map at its name.\<close>

lemma dir_of_change:
  assumes "tmpfs_inv R0 K s" "tmpfs_inv R0 K' s'" "i < 16"
    and "\<And>j. j \<noteq> i \<Longrightarrow> j \<in> used s' \<longleftrightarrow> j \<in> used s"
    and "\<And>j. j \<noteq> i \<Longrightarrow> j \<in> used s \<Longrightarrow> slot_name s' j = slot_name s j \<and> content s' j = content s j"
  shows "dir_of s' n =
    (if i \<in> used s' \<and> slot_name s' i = n then Some (content s' i)
     else if i \<in> used s \<and> slot_name s i = n then None else dir_of s n)"
proof -
  have inj: "inj_on (slot_name s) (used s)" "inj_on (slot_name s') (used s')"
    using assms(1,2) by (auto simp: tmpfs_inv_def)
  have a: "dir_of s' n = Some c \<longleftrightarrow> (i \<in> used s' \<and> slot_name s' i = n \<and> content s' i = c) \<or>
      (\<exists>j\<in>used s. j \<noteq> i \<and> slot_name s j = n \<and> content s j = c)" for c
    unfolding dir_of_Some [OF assms(2)] using assms(4,5) by metis
  show ?thesis
  proof (cases "i \<in> used s' \<and> slot_name s' i = n")
    case True
    then show ?thesis using a [of "content s' i"] by simp
  next
    case new: False
    show ?thesis
    proof (cases "i \<in> used s \<and> slot_name s i = n")
      case True
      then have "\<not> (\<exists>j\<in>used s. j \<noteq> i \<and> slot_name s j = n \<and> content s j = c)" for c
        using inj(1) by (auto simp: inj_on_def)
      then have "dir_of s' n \<noteq> Some c" for c using new a by blast
      then have "dir_of s' n = None" by (cases "dir_of s' n") auto
      then show ?thesis using new True by simp
    next
      case False
      then have "dir_of s' n = Some c \<longleftrightarrow> dir_of s n = Some c" for c
        using new unfolding a dir_of_Some [OF assms(1)] by auto
      then have "dir_of s' n = dir_of s n" by (metis option.exhaust)
      then show ?thesis unfolding if_not_P [OF new] if_not_P [OF False] .
    qed
  qed
qed

lemma lookup_eq:
  assumes "tmpfs_inv R0 K s"
  shows "(\<exists>i\<in>used s. slot_name s i = cstr n \<and> tmpfs_lookup s (Some n) = int i \<and>
            dir_of s (cstr n) = Some (content s i)) \<or>
         (tmpfs_lookup s (Some n) = -1 \<and> dir_of s (cstr n) = None)"
proof -
  have e: "first_index (\<lambda>f. tf_in_use f \<and> name_eq (tf_name f) n) (g_files s) =
      first_index (\<lambda>f. tf_in_use f \<and> cstr (tf_name f) = cstr n) (g_files s)"
    by (simp add: name_eq_iff)
  show ?thesis
  proof (cases "first_index (\<lambda>f. tf_in_use f \<and> cstr (tf_name f) = cstr n) (g_files s)")
    case None
    then show ?thesis by (simp add: tmpfs_lookup_def e dir_of_def)
  next
    case (Some i)
    then have "i \<in> used s" "slot_name s i = cstr n"
      using assms by (auto simp: used_def tmpfs_inv_def dest: first_indexD(1,2))
    then show ?thesis using Some by (auto simp: tmpfs_lookup_def e dir_of_def)
  qed
qed

section \<open>What each operation keeps\<close>

definition bufs_but :: "(nat \<Rightarrow> nat) \<Rightarrow> tmpfs \<Rightarrow> nat \<Rightarrow> (nat \<times> nat) set" where
  "bufs_but K s i = (\<lambda>j. (slot_data s j, K j)) ` (used s - {i})"

lemma bufs_split:
  assumes "tmpfs_inv R0 K s" "i \<in> used s"
  shows "bufs K s = insert (slot_data s i, K i) (bufs_but K s i)"
    and "(slot_data s i, K i) \<notin> R0 \<union> bufs_but K s i"
proof -
  show "bufs K s = insert (slot_data s i, K i) (bufs_but K s i)"
    using assms(2) by (auto simp: bufs_def bufs_but_def)
  have "inj_on (slot_data s) (used s)" using assms(1) by (simp add: tmpfs_inv_def)
  then show "(slot_data s i, K i) \<notin> R0 \<union> bufs_but K s i"
    using assms by (auto simp: bufs_but_def tmpfs_inv_def inj_on_def)
qed

lemma bufs_but_unused: "i \<notin> used s \<Longrightarrow> bufs_but K s i = bufs K s"
  by (simp add: bufs_def bufs_but_def)

lemma tmpfs_inv_put:
  assumes inv: "tmpfs_inv R0 K s" and i: "i < 16" and f: "slot_ok f"
    and files: "g_files s' = (g_files s)[i := f]"
    and new: "tf_in_use f \<Longrightarrow> tf_cap f \<le> k \<and> (tf_data f, k) \<notin> R0 \<and>
       cstr (tf_name f) \<notin> slot_name s ` (used s - {i}) \<and> tf_data f \<notin> slot_data s ` (used s - {i})"
    and heap: "heap_live (tm_heap s') (R0 \<union> bufs_but K s i \<union> (if tf_in_use f then {(tf_data f, k)} else {}))"
  shows "tmpfs_inv R0 (K(i := k)) s'"
proof -
  have len: "length (g_files s) = 16" using inv by (simp add: tmpfs_inv_def)
  have at: "g_files s' ! j = (if j = i then f else g_files s ! j)" if "j < 16" for j
    using that len i by (simp add: files nth_list_update)
  have us: "used s' = (if tf_in_use f then insert i (used s) else used s - {i})"
    using at i by (auto simp: used_def split: if_splits)
  have rest: "g_files s' ! j = g_files s ! j" if "j \<in> used s - {i}" for j
    using that at [of j] by auto
  have inj: "inj_on (slot_name s') (used s')" "inj_on (slot_data s') (used s')"
  proof -
    have "inj_on (slot_name s) (used s - {i})" "inj_on (slot_data s) (used s - {i})"
      using inv by (auto simp: tmpfs_inv_def intro: inj_on_subset)
    then have o: "inj_on (slot_name s') (used s - {i})" "inj_on (slot_data s') (used s - {i})"
      using inj_on_cong [of "used s - {i}" "slot_name s'" "slot_name s"]
        inj_on_cong [of "used s - {i}" "slot_data s'" "slot_data s"] rest by simp_all
    have im: "slot_name s' ` (used s - {i}) = slot_name s ` (used s - {i})"
      "slot_data s' ` (used s - {i}) = slot_data s ` (used s - {i})"
      using rest by (auto intro!: image_cong)
    have "used s' = (if tf_in_use f then insert i (used s - {i}) else used s - {i})"
      using us by auto
    moreover have "slot_name s' i = cstr (tf_name f)" "slot_data s' i = tf_data f"
      using at [OF i] by simp_all
    moreover have "inj_on (slot_name s') (insert i (used s - {i}))"
      "inj_on (slot_data s') (insert i (used s - {i}))" if "tf_in_use f"
      unfolding inj_on_insert Diff_idemp using o new [OF that] calculation(2,3) by (simp_all only: im simp_thms)
    ultimately show "inj_on (slot_name s') (used s')" "inj_on (slot_data s') (used s')"
      using o by (simp_all split: if_splits)
  qed
  have b: "bufs (K(i := k)) s' = bufs_but K s i \<union> (if tf_in_use f then {(tf_data f, k)} else {})"
  proof -
    have o: "(\<lambda>j. (slot_data s' j, (K(i := k)) j)) ` (used s - {i}) = bufs_but K s i"
      unfolding bufs_but_def by (rule image_cong) (use rest in auto)
    have u: "used s' = (if tf_in_use f then insert i (used s - {i}) else used s - {i})"
      using us by auto
    have "slot_data s' i = tf_data f" "(K(i := k)) i = k" using at [OF i] by simp_all
    then show ?thesis unfolding bufs_def u using o by (auto simp only: image_insert split: if_splits)
  qed
  have "slot_ok (g_files s' ! j)" if "j < 16" for j
    using inv that f at [OF that] by (simp add: tmpfs_inv_def)
  moreover have "tf_cap (g_files s' ! j) \<le> (K(i := k)) j \<and> (slot_data s' j, (K(i := k)) j) \<notin> R0"
    if j: "j \<in> used s'" for j
  proof (cases "j = i")
    case True
    then show ?thesis using j new at [OF i] by (auto simp: used_def)
  next
    case False
    then have "j \<in> used s - {i}" using j us by (auto split: if_splits)
    then show ?thesis using inv rest [of j] by (auto simp: tmpfs_inv_def)
  qed
  ultimately show ?thesis
    using len inj heap unfolding tmpfs_inv_def b by (simp add: files Un_assoc)
qed

text \<open>Bytes of the other slots and of other owners survive a store into the buffer of slot
  \<open>i\<close>.\<close>

lemma store_elsewhere:
  assumes "tmpfs_inv R0 K s" "i \<in> used s" "slot_data s i \<le> a" "a + length bs \<le> slot_data s i + K i"
  shows "j \<in> used s \<Longrightarrow> j \<noteq> i \<Longrightarrow>
      mem_read (mem_write m a bs) (slot_data s j) (tf_size (g_files s ! j)) =
      mem_read m (slot_data s j) (tf_size (g_files s ! j))"
    and "(p, k) \<in> R0 \<Longrightarrow> mem_read (mem_write m a bs) p k = mem_read m p k"
proof -
  assume j: "j \<in> used s" "j \<noteq> i"
  have "slot_data s i + K i \<le> slot_data s j \<or> slot_data s j + K j \<le> slot_data s i"
    using tmpfs_inv_disjoint [OF assms(1,2) j(1)] j(2) by auto
  then show "mem_read (mem_write m a bs) (slot_data s j) (tf_size (g_files s ! j)) =
      mem_read m (slot_data s j) (tf_size (g_files s ! j))"
    using tmpfs_invD(3,6) [OF assms(1) j(1)] assms(3,4) by (intro mem_read_other) auto
next
  assume "(p, k) \<in> R0"
  from tmpfs_inv_others [OF assms(1,2) this]
  show "mem_read (mem_write m a bs) p k = mem_read m p k"
    using assms(3,4) by (intro mem_read_other) auto
qed

section \<open>Growing a file\<close>

lemma grow_cap_bounds:
  "0 < c \<Longrightarrow> c \<le> 262144 \<Longrightarrow> need \<le> 262144 \<Longrightarrow>
   \<exists>n. grow_cap c need = Some n \<and> need \<le> n \<and> c \<le> n \<and> n \<le> 262144"
proof (induction "need - c" arbitrary: c rule: less_induct)
  case less
  show ?case
  proof (cases "c < need \<and> c < 131072")
    case True
    have "\<exists>n. grow_cap (c * 2) need = Some n \<and> need \<le> n \<and> c * 2 \<le> n \<and> n \<le> 262144"
      using less.prems True by (intro less.hyps) auto
    then show ?thesis using True by (subst grow_cap.simps) auto
  next
    case False
    then show ?thesis using less.prems by (subst grow_cap.simps) auto
  qed
qed

text \<open>From a zero capacity the doubling would never end; \<open>tmpfs_grow_to\<close> starts it at
  \<open>TMPFS_INITIAL_CAP\<close> in that case.\<close>

lemma grow_cap_positive:
  assumes "grow_cap c need = Some n"
  shows "0 < need \<longrightarrow> 0 < c"
proof (rule grow_cap.raw_induct [where P = "\<lambda>c need n. 0 < need \<longrightarrow> 0 < c", OF _ assms])
  fix f :: "nat \<Rightarrow> nat \<Rightarrow> nat option" and c need n :: nat
  assume ih: "\<And>c need n. f c need = Some n \<Longrightarrow> 0 < need \<longrightarrow> 0 < c"
    and eq: "(if c < need then if 262144 div 2 \<le> c then Some 262144 else f (c * 2) need else Some c) = Some n"
  show "0 < need \<longrightarrow> 0 < c"
    using ih [of "c * 2" need n] eq by (auto split: if_splits)
qed

lemma grow_cap_zero: "0 < need \<Longrightarrow> grow_cap 0 need = None"
  using grow_cap_positive [of 0 need] by (cases "grow_cap 0 need") auto

lemma fresh_store:
  assumes "heap_live h (insert (p, k) R)" "p \<notin> fst ` R" "length bs \<le> k" "(q, l) \<in> R" "m \<le> l"
  shows "mem_read (mem_write r p bs) q m = mem_read r q m"
proof -
  have "p \<noteq> q" using assms(2,4) by force
  then have "p + k \<le> q \<or> q + l \<le> p"
    using ka.live_disjoint [OF assms(1), of p k q l] assms(4) by auto
  then show ?thesis using assms(3,5) by (intro mem_read_other) auto
qed

text \<open>The same files, with buffers elsewhere.\<close>

definition same_dir :: "tmpfs \<Rightarrow> tmpfs \<Rightarrow> bool" where
  "same_dir s s' \<longleftrightarrow> used s' = used s \<and>
     (\<forall>j\<in>used s. slot_name s' j = slot_name s j \<and> content s' j = content s j)"

lemma same_dir_map:
  assumes "tmpfs_inv R0 K s" "tmpfs_inv R0 K' s'" "same_dir s s'"
  shows "dir_of s' = dir_of s"
proof
  fix n
  have "dir_of s' n = Some c \<longleftrightarrow> dir_of s n = Some c" for c
    using assms(3) unfolding dir_of_Some [OF assms(1)] dir_of_Some [OF assms(2)]
    by (auto simp: same_dir_def)
  then show "dir_of s' n = dir_of s n" by (metis option.exhaust)
qed

lemma content_cong:
  assumes "same_dir s s'" "j \<in> used s"
  shows "tf_size (g_files s' ! j) = tf_size (g_files s ! j)"
proof -
  have "length (content s' j) = length (content s j)" using assms by (simp add: same_dir_def)
  then show ?thesis by (simp add: content_def)
qed

lemma tmpfs_grow_to_spec:
  assumes inv: "tmpfs_inv R0 K s" and i: "i \<in> used s" and need: "need \<le> 262144"
  shows "\<exists>s' r K'. tmpfs_grow_to s i need = Some (s', r) \<and> tmpfs_inv R0 K' s' \<and> same_dir s s' \<and>
    untouched R0 s s' \<and> (r = 0 \<longrightarrow> need \<le> tf_cap (g_files s' ! i))"
proof -
  let ?f = "g_files s ! i"
  have i16: "i < 16" and len: "length (g_files s) = 16" using i inv by (auto simp: tmpfs_inv_def)
  note f = tmpfs_invD [OF inv i]
  show ?thesis
  proof (cases "need \<le> tf_cap ?f")
    case True
    then have "tmpfs_grow_to s i need = Some (s, 0)" by (simp add: tmpfs_grow_to_def)
    then show ?thesis using inv True by (auto simp: same_dir_def)
  next
    case False
    obtain n where n: "grow_cap (tf_cap ?f) need = Some n" "need \<le> n" "tf_cap ?f \<le> n" "n \<le> 262144"
      using grow_cap_bounds [of "tf_cap ?f" need] f need by auto
    have live: "heap_live (tm_heap s) (R0 \<union> bufs K s)" using inv by (simp add: tmpfs_inv_def)
    have n0: "0 < n" "n + 31 < 2 ^ 64" using f(4) n by simp_all
    have unfold: "tmpfs_grow_to s i need = do {
          (h, nbuf) \<leftarrow> kmalloc (tm_heap s) n;
          if nbuf = 0 then Some (s\<lparr>tm_heap := h\<rparr>, -1)
          else do {
            let ram1 = mem_write (tm_ram s) nbuf (content s i);
            h1 \<leftarrow> kfree h (tf_data ?f);
            Some (put_file (s\<lparr>tm_heap := h1, tm_ram := ram1\<rparr>) i (?f\<lparr>tf_data := nbuf, tf_cap := n\<rparr>), 0) } }"
      using False need n f(1,4) by (simp add: tmpfs_grow_to_def content_def Let_def cong del: if_weak_cong)
    show ?thesis
      using live n0
    proof (cases rule: ka.alloc_returns)
      case 1
      have "tmpfs_grow_to s i need = Some (s, -1)" unfolding unfold using 1 by simp
      then show ?thesis using inv by (auto simp: same_dir_def)
    next
      case (2 h' p k)
      have pk: "(slot_data s i, K i) \<in> insert (p, k) (R0 \<union> bufs K s)"
        using bufs_split(1) [OF inv i] by simp
      obtain h1 where h1: "kfree h' (slot_data s i) = Some h1"
        "heap_live h1 (insert (p, k) (R0 \<union> bufs K s) - {(slot_data s i, K i)})"
        using ka.free_live [OF 2(4) pk] by auto
      have pnew: "p \<noteq> slot_data s j" if "j \<in> used s" for j
        using 2(5) that by (force simp: bufs_def)
      have rg: "insert (p, k) (R0 \<union> bufs K s) - {(slot_data s i, K i)} = R0 \<union> bufs_but K s i \<union> {(p, k)}"
        using bufs_split [OF inv i] pnew [OF i] by auto
      let ?m = "mem_write (tm_ram s) p (content s i)"
      let ?g = "?f\<lparr>tf_data := p, tf_cap := n\<rparr>"
      let ?s = "put_file (s\<lparr>tm_heap := h1, tm_ram := ?m\<rparr>) i ?g"
      have run: "tmpfs_grow_to s i need = Some (?s, 0)" unfolding unfold using 2(1,2) h1(1) by simp
      have lc: "length (content s i) \<le> k" using f(3) n(3) 2(3) by (simp add: content_def)
      have inv': "tmpfs_inv R0 (K(i := k)) ?s"
      proof (rule tmpfs_inv_put [OF inv i16])
        show "slot_ok ?g" using f n 2(2) i by (auto simp: slot_ok_def used_def)
        have "slot_name s i \<notin> slot_name s ` (used s - {i})"
          using inv i by (auto simp: tmpfs_inv_def inj_on_def)
        then show "tf_cap ?g \<le> k \<and> (tf_data ?g, k) \<notin> R0 \<and>
            cstr (tf_name ?g) \<notin> slot_name s ` (used s - {i}) \<and> tf_data ?g \<notin> slot_data s ` (used s - {i})"
          using 2(3,5) pnew by force
        show "heap_live (tm_heap ?s) (R0 \<union> bufs_but K s i \<union> (if tf_in_use ?g then {(tf_data ?g, k)} else {}))"
          using h1(2) i by (simp add: rg put_file_def used_def)
      qed (simp add: put_file_def)
      have us: "used ?s = used s"
        using i len by (auto simp: used_def put_file_def nth_list_update)
      have "content ?s j = content s j" if j: "j \<in> used s" for j
      proof (cases "j = i")
        case True
        then show ?thesis using mem_read_write [of "tm_ram s" p "content s i"] len i16
          by (simp add: content_def put_file_def)
      next
        case False
        have "(slot_data s j, K j) \<in> R0 \<union> bufs K s" using j by (simp add: bufs_def)
        then have "mem_read ?m (slot_data s j) (tf_size (g_files s ! j)) =
            mem_read (tm_ram s) (slot_data s j) (tf_size (g_files s ! j))"
          using fresh_store [OF 2(4,5) lc] tmpfs_invD(3,6) [OF inv j] le_trans by blast
        then show ?thesis using False by (simp add: content_def put_file_def)
      qed
      moreover have "slot_name ?s j = slot_name s j" for j
        using len i16 by (cases "j = i") (auto simp: put_file_def)
      ultimately have sd: "same_dir s ?s" using us by (simp add: same_dir_def)
      have "untouched R0 s ?s"
        using fresh_store [OF 2(4,5) lc] by (auto simp: untouched_def put_file_def)
      moreover have "need \<le> tf_cap (g_files ?s ! i)" using n(2) len i16 by (simp add: put_file_def)
      ultimately show ?thesis using run inv' sd by blast
    qed
  qed
qed

section \<open>Reading, writing, creating and removing\<close>

lemma tmpfs_bad_slot:
  assumes "tmpfs_inv R0 K s" "idx < 0 \<or> nat idx \<notin> used s"
  shows "tmpfs_read s idx off len = (-9, [])" "tmpfs_write s idx off src = Some (s, -9)"
  using assms by (auto simp: tmpfs_read_def tmpfs_write_def used_def)

lemma tmpfs_read_spec:
  assumes "tmpfs_inv R0 K s" "i \<in> used s"
  shows "tmpfs_read s (int i) off len =
    (let bs = take len (drop off (content s i)) in (int (length bs), bs))"
proof -
  have "mem_read (tm_ram s) (slot_data s i + off) n = take n (drop off (content s i))"
    if "n \<le> tf_size (g_files s ! i) - off" for n
    using that by (intro nth_equalityI) (auto simp: content_def add.assoc)
  then show ?thesis using assms
    by (auto simp: tmpfs_read_def Let_def used_def content_def min_def)
qed

lemma tmpfs_write_spec:
  assumes inv: "tmpfs_inv R0 K s" and i: "i \<in> used s" and src: "src \<noteq> []" "off + length src \<le> 262144"
  shows "\<exists>s' r K'. tmpfs_write s (int i) off src = Some (s', r) \<and> tmpfs_inv R0 K' s' \<and> untouched R0 s s' \<and>
    (r = -12 \<and> dir_of s' = dir_of s \<or>
     r = int (length src) \<and> used s' = used s \<and> slot_name s' i = slot_name s i \<and>
     content s' i = overwrite (content s i) off src \<and>
     dir_of s' = (dir_of s)(slot_name s i \<mapsto> overwrite (content s i) off src))"
proof -
  have i16: "i < 16" using i by auto
  have need: "add64 off (length src) = off + length src" using src by (simp add: arith64)
  obtain s1 r K1 where g: "tmpfs_grow_to s i (off + length src) = Some (s1, r)" "tmpfs_inv R0 K1 s1"
    "same_dir s s1" "untouched R0 s s1" "r = 0 \<longrightarrow> off + length src \<le> tf_cap (g_files s1 ! i)"
    using tmpfs_grow_to_spec [OF inv i src(2)] by blast
  have len: "length (g_files s1) = 16" and i1: "i \<in> used s1" using g(2,3) i by (auto simp: tmpfs_inv_def same_dir_def)
  let ?f = "g_files s1 ! i"
  note f = tmpfs_invD [OF g(2) i1]
  define m1 where "m1 = (if off > tf_size ?f
      then mem_write (tm_ram s1) (tf_data ?f + tf_size ?f) (replicate (off - tf_size ?f) 0) else tm_ram s1)"
  define m2 where "m2 = mem_write m1 (tf_data ?f + off) src"
  define n where "n = max (tf_size ?f) (off + length src)"
  let ?s = "put_file (s1\<lparr>tm_ram := m2\<rparr>) i (?f\<lparr>tf_size := n\<rparr>)"
  have run: "tmpfs_write s (int i) off src = (if r \<noteq> 0 then Some (s1, -12) else Some (?s, int (length src)))"
  proof -
    have eq: "(if off + length src > tf_size ?f then ?f\<lparr>tf_size := off + length src\<rparr> else ?f) =
        ?f\<lparr>tf_size := n\<rparr>" by (simp add: n_def max_def)
    have w: "(off + length src) mod 2 ^ 32 = off + length src" using src(2) by simp
    show ?thesis
      using i src(1) i16 src(2) unfolding tmpfs_write_def need
      by (simp add: used_def w g(1) Let_def m1_def m2_def eq)
  qed
  show ?thesis
  proof (cases "r = 0")
    case False
    then show ?thesis using run g same_dir_map [OF inv g(2,3)] by auto
  next
    case True
    then have cap: "off + length src \<le> tf_cap ?f" using g(5) by simp
    have n: "n \<le> tf_cap ?f" using cap f(3) by (simp add: n_def)
    have inv': "tmpfs_inv R0 (K1(i := K1 i)) ?s"
    proof (rule tmpfs_inv_put [OF g(2) i16])
      show "slot_ok (?f\<lparr>tf_size := n\<rparr>)" using f n i1 by (auto simp: slot_ok_def used_def)
      have "slot_name s1 i \<notin> slot_name s1 ` (used s1 - {i})" "slot_data s1 i \<notin> slot_data s1 ` (used s1 - {i})"
        using g(2) i1 by (auto simp: tmpfs_inv_def inj_on_def)
      then show "tf_cap (?f\<lparr>tf_size := n\<rparr>) \<le> K1 i \<and> (tf_data (?f\<lparr>tf_size := n\<rparr>), K1 i) \<notin> R0 \<and>
          cstr (tf_name (?f\<lparr>tf_size := n\<rparr>)) \<notin> slot_name s1 ` (used s1 - {i}) \<and>
          tf_data (?f\<lparr>tf_size := n\<rparr>) \<notin> slot_data s1 ` (used s1 - {i})"
        using g(2) i1 f(6) by (auto simp: tmpfs_inv_def)
      have "tf_in_use ?f" using i1 by (simp add: used_def)
      moreover have "R0 \<union> bufs_but K1 s1 i \<union> {(slot_data s1 i, K1 i)} = R0 \<union> bufs K1 s1"
        using bufs_split(1) [OF g(2) i1] by auto
      ultimately show "heap_live (tm_heap ?s) (R0 \<union> bufs_but K1 s1 i \<union>
          (if tf_in_use (?f\<lparr>tf_size := n\<rparr>) then {(tf_data (?f\<lparr>tf_size := n\<rparr>), K1 i)} else {}))"
        using g(2) by (simp add: put_file_def tmpfs_inv_def)
    qed (simp add: put_file_def)
    have us: "used ?s = used s1"
      using i1 len by (auto simp: used_def put_file_def nth_list_update)
    have gap: "tf_size ?f < off \<Longrightarrow> tf_data ?f + tf_size ?f + length (replicate (off - tf_size ?f) (0 :: byte))
        \<le> tf_data ?f + K1 i"
      using cap f(6) by simp
    have body: "tf_data ?f + off + length src \<le> tf_data ?f + K1 i" using cap f(6) by simp
    have others: "content ?s j = content s1 j" if j: "j \<in> used s1" "j \<noteq> i" for j
    proof -
      have "mem_read m2 (slot_data s1 j) (tf_size (g_files s1 ! j)) =
          mem_read m1 (slot_data s1 j) (tf_size (g_files s1 ! j))"
        unfolding m2_def using body by (intro store_elsewhere(1) [OF g(2) i1 _ _ j]) auto
      also have "\<dots> = content s1 j"
        unfolding m1_def content_def using gap store_elsewhere(1) [OF g(2) i1 _ _ j] by auto
      finally show ?thesis using j by (simp add: content_def put_file_def)
    qed
    have here: "content ?s i = overwrite (content s1 i) off src"
    proof (rule nth_equalityI)
      show "length (content ?s i) = length (overwrite (content s1 i) off src)"
        using len i16 by (simp add: content_def put_file_def n_def)
      fix k assume "k < length (content ?s i)"
      then have k: "k < n" using len i16 by (simp add: content_def put_file_def)
      then have "content ?s i ! k = m2 (tf_data ?f + k)"
        using len i16 by (simp add: content_def put_file_def)
      also have "\<dots> = overwrite (content s1 i) off src ! k"
        using k by (auto simp: nth_overwrite content_def n_def m2_def m1_def mem_write_def)
      finally show "content ?s i ! k = overwrite (content s1 i) off src ! k" .
    qed
    have unt: "untouched R0 s1 ?s"
      unfolding untouched_def
    proof (intro allI impI)
      fix p k assume pk: "(p, k) \<in> R0"
      have "mem_read m2 p k = mem_read m1 p k"
        unfolding m2_def using body by (intro store_elsewhere(2) [OF g(2) i1 _ _ pk]) auto
      also have "\<dots> = mem_read (tm_ram s1) p k"
        unfolding m1_def using gap store_elsewhere(2) [OF g(2) i1 _ _ pk] by auto
      finally show "mem_read (tm_ram ?s) p k = mem_read (tm_ram s1) p k" by (simp add: put_file_def)
    qed
    have nm: "slot_name ?s j = slot_name s1 j" for j
      using len i16 by (cases "j = i") (auto simp: put_file_def)
    have c: "content s1 i = content s i" "slot_name s1 i = slot_name s i" using g(3) i by (auto simp: same_dir_def)
    have "dir_of ?s = (dir_of s)(slot_name s i \<mapsto> overwrite (content s i) off src)"
    proof
      fix x
      have "dir_of ?s x = (if i \<in> used ?s \<and> slot_name ?s i = x then Some (content ?s i)
          else if i \<in> used s1 \<and> slot_name s1 i = x then None else dir_of s1 x)"
        using others nm us by (intro dir_of_change [OF g(2) inv' i16]) auto
      then show "dir_of ?s x = ((dir_of s)(slot_name s i \<mapsto> overwrite (content s i) off src)) x"
        using same_dir_map [OF inv g(2,3)] here us i1 nm [of i] c by auto
    qed
    moreover have "untouched R0 s ?s" using g(4) unt by (rule untouched_trans)
    moreover have "used ?s = used s" using us g(3) by (simp add: same_dir_def)
    ultimately show ?thesis using run True inv' here c nm by (simp add: exI [of _ "K1(i := K1 i)"])
  qed
qed

lemma tmpfs_create_spec:
  assumes inv: "tmpfs_inv R0 K s"
  shows "\<exists>s' r K'. tmpfs_create_or_truncate s (Some name) = Some (s', r) \<and> tmpfs_inv R0 K' s' \<and>
    tm_ram s' = tm_ram s \<and>
    (r = -1 \<and> dir_of s' = dir_of s \<and>
       (dir_of s (cstr name) = None \<or> cstr name = []) \<or>
     (\<exists>i\<in>used s'. r = int i \<and> slot_name s' i = cstr name \<and> cstr name \<noteq> [] \<and>
        dir_of s' = (dir_of s)(cstr name \<mapsto> [])))"
proof -
  have len: "length (g_files s) = 16" and live: "heap_live (tm_heap s) (R0 \<union> bufs K s)"
    using inv by (auto simp: tmpfs_inv_def)
  consider (empty) "cstr name = []"
    | (found) i where "cstr name \<noteq> []" "i \<in> used s" "slot_name s i = cstr name"
        "tmpfs_lookup s (Some name) = int i"
    | (new) "cstr name \<noteq> []" "tmpfs_lookup s (Some name) = -1" "dir_of s (cstr name) = None"
    using lookup_eq [OF inv, of name] by (elim disjE bexE conjE) auto
  then show ?thesis
  proof cases
    case empty
    then have "tmpfs_create_or_truncate s (Some name) = Some (s, -1)"
      by (simp add: tmpfs_create_or_truncate_def str_empty_cstr)
    then show ?thesis using inv empty by auto
  next
    case (found i)
    let ?g = "(g_files s ! i)\<lparr>tf_size := 0\<rparr>"
    let ?s = "put_file s i ?g"
    have i16: "i < 16" using found(2) by auto
    have run: "tmpfs_create_or_truncate s (Some name) = Some (?s, int i)"
      using found by (simp add: tmpfs_create_or_truncate_def str_empty_cstr)
    note f = tmpfs_invD [OF inv found(2)]
    have inv': "tmpfs_inv R0 (K(i := K i)) ?s"
    proof (rule tmpfs_inv_put [OF inv i16])
      show "slot_ok ?g" using f found(2) by (auto simp: slot_ok_def used_def)
      have "slot_name s i \<notin> slot_name s ` (used s - {i})" "slot_data s i \<notin> slot_data s ` (used s - {i})"
        using inv found(2) by (auto simp: tmpfs_inv_def inj_on_def)
      then show "tf_cap ?g \<le> K i \<and> (tf_data ?g, K i) \<notin> R0 \<and>
          cstr (tf_name ?g) \<notin> slot_name s ` (used s - {i}) \<and> tf_data ?g \<notin> slot_data s ` (used s - {i})"
        using inv found(2) f(6) by (auto simp: tmpfs_inv_def)
      have "tf_in_use ?g" using found(2) by (simp add: used_def)
      moreover have "R0 \<union> bufs_but K s i \<union> {(slot_data s i, K i)} = R0 \<union> bufs K s"
        using bufs_split(1) [OF inv found(2)] by auto
      ultimately show "heap_live (tm_heap ?s) (R0 \<union> bufs_but K s i \<union>
          (if tf_in_use ?g then {(tf_data ?g, K i)} else {}))"
        using live by (simp add: put_file_def)
    qed (simp add: put_file_def)
    have us: "used ?s = used s" using found(2) len by (auto simp: used_def put_file_def nth_list_update)
    have nm: "slot_name ?s j = slot_name s j" for j
      using len i16 by (cases "j = i") (auto simp: put_file_def)
    have "dir_of ?s x = ((dir_of s)(cstr name \<mapsto> [])) x" for x
    proof -
      have "dir_of ?s x = (if i \<in> used ?s \<and> slot_name ?s i = x then Some (content ?s i)
          else if i \<in> used s \<and> slot_name s i = x then None else dir_of s x)"
        using us nm by (intro dir_of_change [OF inv inv' i16]) (auto simp: content_def put_file_def)
      moreover have "content ?s i = []" using len i16 by (simp add: content_def put_file_def)
      ultimately show ?thesis using found(2,3) us nm [of i] by auto
    qed
    then have "dir_of ?s = (dir_of s)(cstr name \<mapsto> [])" by (rule ext)
    moreover have "tm_ram ?s = tm_ram s" by (simp add: put_file_def)
    moreover have "slot_name ?s i = cstr name" using nm [of i] found(3) by simp
    ultimately show ?thesis using run inv' found(1,2) us by blast
  next
    case new
    have unused_put: "tmpfs_inv R0 (K(i := k)) s' \<and> dir_of s' = dir_of s"
      if i: "i < 16" "i \<notin> used s" and g: "slot_ok g" "\<not> tf_in_use g" and s': "g_files s' = (g_files s)[i := g]"
        "heap_live (tm_heap s') (R0 \<union> bufs K s)" "tm_ram s' = tm_ram s" for i g s' k
    proof -
      have inv': "tmpfs_inv R0 (K(i := k)) s'"
        using i(1) g(1) s'(1)
        by (rule tmpfs_inv_put [OF inv]) (use g(2) s'(2) i(2) in \<open>auto simp: bufs_but_unused\<close>)
      have "same_dir s s'" using s' g i len
        by (auto simp: same_dir_def used_def content_def nth_list_update split: if_splits)
      then show ?thesis using inv' same_dir_map [OF inv inv'] by simp
    qed
    show ?thesis
    proof (cases "first_index (\<lambda>f. \<not> tf_in_use f) (g_files s)")
      case None
      then have "tmpfs_create_or_truncate s (Some name) = Some (s, -1)"
        using new by (simp add: tmpfs_create_or_truncate_def str_empty_cstr)
      then show ?thesis using inv new by auto
    next
      case (Some i)
      let ?f = "g_files s ! i"
      have i: "i < 16" "i \<notin> used s" "\<not> tf_in_use ?f"
        using first_indexD(1,2) [OF Some] len by (auto simp: used_def)
      have f: "slot_ok ?f" using inv i(1) by (simp add: tmpfs_inv_def)
      then have fl: "length (tf_name ?f) = 32" "tf_data ?f = 0" using i(3) by (auto simp: slot_ok_def)
      show ?thesis
      proof (cases "length (cstr name) \<le> 31")
        case False
        then obtain d where d: "copy_name (tf_name ?f) name = (d, -1)" "length d = 32"
          using copy_name_eq(2) [OF fl(1), of name] by auto
        let ?s = "put_file s i (?f\<lparr>tf_name := d\<rparr>)"
        have "tmpfs_create_or_truncate s (Some name) = Some (?s, -1)"
          using new Some d by (simp add: tmpfs_create_or_truncate_def str_empty_cstr)
        moreover have "tmpfs_inv R0 (K(i := 0)) ?s \<and> dir_of ?s = dir_of s"
          by (rule unused_put [OF i(1,2), where g = "?f\<lparr>tf_name := d\<rparr>"])
            (use d i(3) fl live in \<open>auto simp: put_file_def slot_ok_def\<close>)
        moreover have "tm_ram ?s = tm_ram s" by (simp add: put_file_def)
        ultimately show ?thesis using new by blast
      next
        case True
        then obtain d where d: "copy_name (tf_name ?f) name = (d, int (length (cstr name)))"
          "length d = 32" "cstr d = cstr name" "NUL \<in> set d"
          using copy_name_eq(1) [OF fl(1) True] by blast
        have "(0 :: nat) < 4096" "4096 + 31 < (2 :: nat) ^ 64" by simp_all
        with live show ?thesis
        proof (cases rule: ka.alloc_returns)
          case 1
          let ?g = "?f\<lparr>tf_data := 0, tf_name := d[0 := NUL]\<rparr>"
          let ?s = "put_file s i ?g"
          have "s\<lparr>tm_heap := tm_heap s\<rparr> = s" by simp
          then have "tmpfs_create_or_truncate s (Some name) = Some (?s, -1)"
            using new Some d 1 by (simp add: tmpfs_create_or_truncate_def str_empty_cstr)
          moreover have "tmpfs_inv R0 (K(i := 0)) ?s \<and> dir_of ?s = dir_of s"
            by (rule unused_put [OF i(1,2), where g = ?g])
              (use d i(3) fl live in \<open>auto simp: put_file_def slot_ok_def\<close>)
          moreover have "tm_ram ?s = tm_ram s" by (simp add: put_file_def)
          ultimately show ?thesis using new by blast
        next
          case (2 h p k)
          let ?g = "?f\<lparr>tf_name := d, tf_data := p, tf_cap := 4096, tf_size := 0, tf_in_use := True\<rparr>"
          let ?s = "put_file (s\<lparr>tm_heap := h\<rparr>) i ?g"
          have run: "tmpfs_create_or_truncate s (Some name) = Some (?s, int i)"
            using new Some d 2(1,2) by (simp add: tmpfs_create_or_truncate_def str_empty_cstr)
          have inv': "tmpfs_inv R0 (K(i := k)) ?s"
          proof (rule tmpfs_inv_put [OF inv i(1)])
            show "slot_ok ?g" using d 2(2) new(1) by (simp add: slot_ok_def)
            have "p \<notin> slot_data s ` (used s - {i})" using 2(5) by (force simp: bufs_def)
            moreover have "cstr d \<notin> slot_name s ` used s"
              using new(3) unfolding dir_of_None [OF inv] d(3) .
            ultimately show "tf_cap ?g \<le> k \<and> (tf_data ?g, k) \<notin> R0 \<and>
                cstr (tf_name ?g) \<notin> slot_name s ` (used s - {i}) \<and> tf_data ?g \<notin> slot_data s ` (used s - {i})"
              using 2(3,5) by force
            show "heap_live (tm_heap ?s) (R0 \<union> bufs_but K s i \<union>
                (if tf_in_use ?g then {(tf_data ?g, k)} else {}))"
              using 2(4) by (simp add: bufs_but_unused [OF i(2)] put_file_def)
          qed (simp add: put_file_def)
          have us: "used ?s = insert i (used s)"
            using i(1) len by (auto simp: used_def put_file_def nth_list_update)
          have "dir_of ?s x = ((dir_of s)(cstr name \<mapsto> [])) x" for x
          proof -
            have "dir_of ?s x = (if i \<in> used ?s \<and> slot_name ?s i = x then Some (content ?s i)
                else if i \<in> used s \<and> slot_name s i = x then None else dir_of s x)"
              using us by (intro dir_of_change [OF inv inv' i(1)]) (auto simp: content_def put_file_def)
            moreover have "content ?s i = []" "slot_name ?s i = cstr name"
              using len i(1) d(3) by (simp_all add: content_def put_file_def)
            ultimately show ?thesis using i(2) us by auto
          qed
          then have "dir_of ?s = (dir_of s)(cstr name \<mapsto> [])" by (rule ext)
          moreover have "tm_ram ?s = tm_ram s" by (simp add: put_file_def)
          moreover have "slot_name ?s i = cstr name" using len i(1) d(3) by (simp add: put_file_def)
          ultimately show ?thesis using run inv' new(1) us by blast
        qed
      qed
    qed
  qed
qed

lemma tmpfs_unlink_spec:
  assumes inv: "tmpfs_inv R0 K s"
  shows "\<exists>s' r K'. tmpfs_unlink s (Some name) = Some (s', r) \<and> tmpfs_inv R0 K' s' \<and>
    tm_ram s' = tm_ram s \<and> dir_of s' = (dir_of s)(cstr name := None) \<and>
    r = (if dir_of s (cstr name) = None then -2 else 0)"
proof -
  have len: "length (g_files s) = 16" and live: "heap_live (tm_heap s) (R0 \<union> bufs K s)"
    using inv by (auto simp: tmpfs_inv_def)
  consider (none) "tmpfs_lookup s (Some name) = -1" "dir_of s (cstr name) = None"
    | (found) i where "i \<in> used s" "slot_name s i = cstr name" "tmpfs_lookup s (Some name) = int i"
        "dir_of s (cstr name) = Some (content s i)"
    using lookup_eq [OF inv, of name] by (elim disjE bexE conjE) auto
  then show ?thesis
  proof cases
    case none
    then have "tmpfs_unlink s (Some name) = Some (s, -2)" by (simp add: tmpfs_unlink_def)
    then show ?thesis using inv none by (auto simp: fun_upd_idem)
  next
    case (found i)
    have i16: "i < 16" using found(1) by auto
    let ?f = "g_files s ! i"
    let ?g = "?f\<lparr>tf_data := 0, tf_cap := 0, tf_size := 0, tf_in_use := False, tf_name := (tf_name ?f)[0 := NUL]\<rparr>"
    have mem: "(slot_data s i, K i) \<in> R0 \<union> bufs K s" using bufs_split(1) [OF inv found(1)] by simp
    obtain h where h: "kfree (tm_heap s) (slot_data s i) = Some h"
      "heap_live h (R0 \<union> bufs K s - {(slot_data s i, K i)})"
      using ka.free_live [OF live mem] by blast
    have rg: "R0 \<union> bufs K s - {(slot_data s i, K i)} = R0 \<union> bufs_but K s i"
      using bufs_split [OF inv found(1)] by auto
    let ?s = "put_file (s\<lparr>tm_heap := h\<rparr>) i ?g"
    have run: "tmpfs_unlink s (Some name) = Some (?s, 0)"
      using found h(1) tmpfs_invD(1) [OF inv found(1)] by (simp add: tmpfs_unlink_def Let_def)
    have inv': "tmpfs_inv R0 (K(i := 0)) ?s"
      by (rule tmpfs_inv_put [OF inv i16, where f = ?g])
        (use h(2) tmpfs_invD(7) [OF inv found(1)] in \<open>simp_all add: rg put_file_def slot_ok_def\<close>)
    have us: "used ?s = used s - {i}" using i16 len by (auto simp: used_def put_file_def nth_list_update)
    have "dir_of ?s x = ((dir_of s)(cstr name := None)) x" for x
    proof -
      have "dir_of ?s x = (if i \<in> used ?s \<and> slot_name ?s i = x then Some (content ?s i)
          else if i \<in> used s \<and> slot_name s i = x then None else dir_of s x)"
        using us by (intro dir_of_change [OF inv inv' i16]) (auto simp: content_def put_file_def)
      then show ?thesis using found(1,2) us by auto
    qed
    then have "dir_of ?s = (dir_of s)(cstr name := None)" by (rule ext)
    moreover have "tm_ram ?s = tm_ram s" by (simp add: put_file_def)
    moreover have "dir_of s (cstr name) \<noteq> None" using found(4) by simp
    ultimately show ?thesis using run inv' by auto
  qed
qed

section \<open>Descriptors\<close>

text \<open>An entry that \<open>tmpfs_op_open\<close> filled in for the file \<open>n\<close>.\<close>

definition opened :: "tmpfs \<Rightarrow> fd_entry \<Rightarrow> char list \<Rightarrow> nat \<Rightarrow> bool" where
  "opened s e n off \<longleftrightarrow> fe_kind e = FD_TMPFS_RW \<and> fe_offset e = off \<and>
     (\<exists>i\<in>used s. fe_ramfs_index e = int i \<and> slot_name s i = n)"

lemma opened_reset:
  "i \<in> used s \<Longrightarrow> slot_name s i = n \<Longrightarrow>
   opened s ((reset_entry FD_TMPFS_RW e)\<lparr>fe_offset := off, fe_ramfs_index := int i\<rparr>) n off"
  by (auto simp: opened_def reset_entry_def)

text \<open>No file of a new name can be made: the name has more than 31 characters, the table is full, or the
  heap has no 4096 bytes.\<close>

definition no_room :: "tmpfs \<Rightarrow> char list \<Rightarrow> bool" where
  "no_room s n \<longleftrightarrow> 31 < length n \<or> (\<forall>f\<in>set (g_files s). tf_in_use f) \<or> (\<exists>h. kmalloc (tm_heap s) 4096 = Some (h, 0))"

lemma tmpfs_create_new:
  assumes inv: "tmpfs_inv R0 K s" and new: "tmpfs_lookup s (Some name) = -1" "cstr name \<noteq> []"
    and r: "tmpfs_create_or_truncate s (Some name) = Some (s', t)"
  shows "t = -1 \<longleftrightarrow> no_room s (cstr name)"
proof (cases "first_index (\<lambda>f. \<not> tf_in_use f) (g_files s)")
  case None
  then have "t = -1" using r new by (simp add: tmpfs_create_or_truncate_def str_empty_cstr)
  moreover have "\<forall>f\<in>set (g_files s). tf_in_use f" using None by (simp add: first_index_None)
  ultimately show ?thesis by (simp add: no_room_def)
next
  case (Some i)
  have i: "i < length (g_files s)" "\<not> tf_in_use (g_files s ! i)" using first_indexD(1,2) [OF Some] by auto
  then have free: "\<not> (\<forall>f\<in>set (g_files s). tf_in_use f)" using nth_mem by blast
  have fl: "length (tf_name (g_files s ! i)) = 32"
    using inv i by (auto simp: tmpfs_inv_def slot_ok_def)
  show ?thesis
  proof (cases "length (cstr name) \<le> 31")
    case False
    then obtain d where "copy_name (tf_name (g_files s ! i)) name = (d, -1)"
      using copy_name_eq(2) [OF fl, of name] by auto
    then have "t = -1" using r new Some by (simp add: tmpfs_create_or_truncate_def str_empty_cstr)
    then show ?thesis using False by (simp add: no_room_def)
  next
    case True
    then obtain d where d: "copy_name (tf_name (g_files s ! i)) name = (d, int (length (cstr name)))"
      using copy_name_eq(1) [OF fl True] by blast
    obtain h p where m: "kmalloc (tm_heap s) 4096 = Some (h, p)"
      using r new Some d by (auto simp: tmpfs_create_or_truncate_def str_empty_cstr Let_def split: bind_splits)
    have "t = (if p = 0 then -1 else int i)"
      using r new Some d m by (auto simp: tmpfs_create_or_truncate_def str_empty_cstr Let_def)
    then show ?thesis using True free m by (auto simp: no_room_def)
  qed
qed

text \<open>\<open>O_TRUNC\<close> is not looked at.\<close>

lemma has_flag_trunc: "has_flag (flags OR O_TRUNC) O_CREAT = has_flag flags O_CREAT"
    "has_flag (flags OR O_TRUNC) O_APPEND = has_flag flags O_APPEND"
  by (simp_all add: has_flag_def O_TRUNC_def O_CREAT_def O_APPEND_def bit.conj_disj_distrib2)

text \<open>C26. Opening a file of \<open>/tmp\<close> against the map of names to contents: an empty name is
  refused, without \<open>O_CREAT\<close> a missing file gives \<open>ENOENT\<close>, with it an empty file appears or,
  when the name is longer than 31 characters, the table is full or the heap has no room, the open fails with
  \<open>ENOMEM\<close> and no effect; an existing file is emptied by \<open>O_CREAT\<close> without \<open>O_APPEND\<close> and left
  alone otherwise; the descriptor stands at the end for \<open>O_APPEND\<close> and at 0 for the rest.
  \<open>O_TRUNC\<close> plays no part: the open is the same with it and without it, so that, against what \<open>vfs.h\<close>
  and the comment above the function say, it empties nothing where the other flags do not.
  The call always returns, keeps the invariant of the table and of the heap, and changes no byte of
  memory.\<close>

theorem tmpfs_open_correct:
  assumes "tmpfs_ok R0 s"
  shows "\<exists>s' r e'. tmpfs_op_open s rel flags (Some e) = Some (s', r, Some e') \<and> tmpfs_ok R0 s' \<and>
    tm_ram s' = tm_ram s \<and>
    (let n = cstr (strip_slash rel) in
     if n = [] then r = -22 \<and> s' = s \<and> e' = e
     else case dir_of s n of
       None \<Rightarrow>
         if has_flag flags O_CREAT
         then (if no_room s n then r = -12 \<and> dir_of s' = dir_of s \<and> e' = e
               else r = 0 \<and> dir_of s' = (dir_of s)(n \<mapsto> []) \<and> opened s' e' n 0)
         else r = -2 \<and> s' = s \<and> e' = e
     | Some bs \<Rightarrow>
         r = 0 \<and>
         (if has_flag flags O_CREAT \<and> \<not> has_flag flags O_APPEND
          then dir_of s' = (dir_of s)(n \<mapsto> []) \<and> opened s' e' n 0
          else s' = s \<and> opened s' e' n (if has_flag flags O_APPEND then length bs else 0))) \<and>
    tmpfs_op_open s rel (flags OR O_TRUNC) (Some e) = tmpfs_op_open s rel flags (Some e)"
proof -
  have trunc: "tmpfs_op_open s rel (flags OR O_TRUNC) (Some e) = tmpfs_op_open s rel flags (Some e)"
    unfolding tmpfs_op_open_def has_flag_trunc ..
  obtain K where inv: "tmpfs_inv R0 K s" using assms by (auto simp: tmpfs_ok_def)
  define name where "name = strip_slash rel"
  obtain s1 t K1 where c: "tmpfs_create_or_truncate s (Some name) = Some (s1, t)" "tmpfs_inv R0 K1 s1"
    "tm_ram s1 = tm_ram s"
    "t = -1 \<and> dir_of s1 = dir_of s \<and> (dir_of s (cstr name) = None \<or> cstr name = []) \<or>
     (\<exists>i\<in>used s1. t = int i \<and> slot_name s1 i = cstr name \<and> cstr name \<noteq> [] \<and>
        dir_of s1 = (dir_of s)(cstr name \<mapsto> []))"
    using tmpfs_create_spec [OF inv, of name] by blast
  have ok1: "tmpfs_ok R0 s1" using c(2) by (auto simp: tmpfs_ok_def)
  have size0: "tf_size (g_files s1 ! i) = 0" if "i \<in> used s1" "slot_name s1 i = cstr name"
      "dir_of s1 = (dir_of s)(cstr name \<mapsto> [])" for i
  proof -
    have "dir_of s1 (cstr name) = Some (content s1 i)" using dir_of_Some [OF c(2)] that(1,2) by blast
    then have "length (content s1 i) = 0" using that(3) by simp
    then show ?thesis by (simp add: content_def)
  qed
  consider (empty) "cstr name = []"
    | (found) i where "cstr name \<noteq> []" "i \<in> used s" "slot_name s i = cstr name"
        "tmpfs_lookup s (Some name) = int i" "dir_of s (cstr name) = Some (content s i)"
    | (new) "cstr name \<noteq> []" "tmpfs_lookup s (Some name) = -1" "dir_of s (cstr name) = None"
    using lookup_eq [OF inv, of name] by (elim disjE bexE conjE) auto
  then show ?thesis
  proof cases
    case empty
    then have "tmpfs_op_open s rel flags (Some e) = Some (s, -22, Some e)"
      by (simp add: tmpfs_op_open_def str_empty_cstr flip: name_def)
    then show ?thesis using assms empty by (simp add: trunc flip: name_def)
  next
    case (found i)
    show ?thesis
    proof (cases "has_flag flags O_CREAT \<and> \<not> has_flag flags O_APPEND")
      case True
      from c(4) found obtain j where j: "j \<in> used s1" "t = int j" "slot_name s1 j = cstr name"
        "dir_of s1 = (dir_of s)(cstr name \<mapsto> [])" by auto
      have "i = j"
        using c(1) found j(2) by (simp add: tmpfs_create_or_truncate_def str_empty_cstr)
      then have "tmpfs_op_open s rel flags (Some e) =
          Some (s1, 0, Some ((reset_entry FD_TMPFS_RW e)\<lparr>fe_offset := 0, fe_ramfs_index := int j\<rparr>))"
        using True found c(1) by (simp add: tmpfs_op_open_def str_empty_cstr flip: name_def)
      then show ?thesis
        using found(1,5) True ok1 c(3) j opened_reset [OF j(1,3)] by (simp add: trunc flip: name_def)
    next
      case False
      have "tmpfs_op_open s rel flags (Some e) = Some (s, 0, Some ((reset_entry FD_TMPFS_RW e)
          \<lparr>fe_offset := (if has_flag flags O_APPEND then length (content s i) else 0),
           fe_ramfs_index := int i\<rparr>))"
        using False found by (auto simp: tmpfs_op_open_def str_empty_cstr content_def Let_def simp flip: name_def)
      then show ?thesis
        using found(1,5) False assms opened_reset [OF found(2,3)] by (auto simp: trunc simp flip: name_def)
    qed
  next
    case new
    show ?thesis
    proof (cases "has_flag flags O_CREAT")
      case False
      then have "tmpfs_op_open s rel flags (Some e) = Some (s, -2, Some e)"
        using new by (simp add: tmpfs_op_open_def str_empty_cstr flip: name_def)
      then show ?thesis using new False assms by (simp add: trunc flip: name_def)
    next
      case True
      from c(4) show ?thesis
      proof
        assume f: "t = -1 \<and> dir_of s1 = dir_of s \<and> (dir_of s (cstr name) = None \<or> cstr name = [])"
        then have full: "no_room s (cstr name)" using tmpfs_create_new [OF inv new(2,1) c(1)] by blast
        from f have "tmpfs_op_open s rel flags (Some e) = Some (s1, -12, Some e)"
          using new True c(1) by (simp add: tmpfs_op_open_def str_empty_cstr flip: name_def)
        then show ?thesis using new True f ok1 c(3) full by (simp add: trunc flip: name_def)
      next
        assume "\<exists>i\<in>used s1. t = int i \<and> slot_name s1 i = cstr name \<and> cstr name \<noteq> [] \<and>
          dir_of s1 = (dir_of s)(cstr name \<mapsto> [])"
        then obtain i where i: "i \<in> used s1" "t = int i" "slot_name s1 i = cstr name"
          "dir_of s1 = (dir_of s)(cstr name \<mapsto> [])" by blast
        then have "\<not> no_room s (cstr name)" using tmpfs_create_new [OF inv new(2,1) c(1)] by auto
        moreover have "tmpfs_op_open s rel flags (Some e) =
            Some (s1, 0, Some ((reset_entry FD_TMPFS_RW e)\<lparr>fe_offset := 0, fe_ramfs_index := int i\<rparr>))"
          using True new c(1) i(2) size0 [OF i(1,3,4)]
          by (simp add: tmpfs_op_open_def str_empty_cstr Let_def flip: name_def)
        ultimately show ?thesis
          using new(1,3) True ok1 c(3) i opened_reset [OF i(1,3)] by (simp add: trunc flip: name_def)
      qed
    qed
  qed
qed


text \<open>A created file takes the first free slot.\<close>

lemma tmpfs_create_slot:
  assumes "tmpfs_inv R0 K s" "dir_of s (cstr name) = None" "i < 16" "i \<notin> used s" "\<forall>j<i. j \<in> used s"
    and "tmpfs_create_or_truncate s (Some name) = Some (s', r)" "0 \<le> r"
  shows "r = int i"
proof -
  have l: "tmpfs_lookup s (Some name) = -1" using lookup_eq [OF assms(1), of name] assms(2) by auto
  have f: "first_index (\<lambda>f. \<not> tf_in_use f) (g_files s) = Some i"
    using assms(1,3-5) unfolding first_index_Some by (auto simp: used_def tmpfs_inv_def)
  show ?thesis using assms(6,7) l f
    by (auto simp: tmpfs_create_or_truncate_def Let_def split: prod.splits if_splits bind_splits)
qed

text \<open>A descriptor of \<open>/tmp\<close> is the number of a slot, and unlinking a file does not wait
  for its descriptors: once the slot is given to a new file, a read through the old descriptor
  returns what was written to the new one.\<close>

theorem tmpfs_stale_descriptor:
  assumes "tmpfs_ok R0 s" "opened s e (cstr a) off" "\<forall>j < nat (fe_ramfs_index e). j \<in> used s"
    and "dir_of s (cstr b) = None" "bs \<noteq> []" "length bs \<le> 262144"
    and "tmpfs_unlink s (Some a) = Some (s1, 0)"
    and "tmpfs_create_or_truncate s1 (Some b) = Some (s2, r)" "0 \<le> r"
    and "tmpfs_write s2 r 0 bs = Some (s3, int (length bs))"
  shows "tmpfs_op_read s3 (Some (e\<lparr>fe_offset := 0\<rparr>)) False (length bs) =
    (int (length bs), bs, Some (e\<lparr>fe_offset := length bs\<rparr>))"
proof -
  obtain K where inv: "tmpfs_inv R0 K s" using assms(1) by (auto simp: tmpfs_ok_def)
  obtain i where i: "i \<in> used s" "fe_ramfs_index e = int i" "slot_name s i = cstr a"
    using assms(2) by (auto simp: opened_def)
  have i16: "i < 16" using i(1) by auto
  have len: "length (g_files s) = 16" using inv by (simp add: tmpfs_inv_def)
  obtain K1 where s1: "tmpfs_inv R0 K1 s1" "dir_of s1 = (dir_of s)(cstr a := None)"
    using tmpfs_unlink_spec [OF inv, of a] assms(7) by auto
  have "tmpfs_lookup s (Some a) = int i"
  proof -
    from lookup_eq [OF inv, of a] consider j where "j \<in> used s" "slot_name s j = cstr a" "tmpfs_lookup s (Some a) = int j"
      | "dir_of s (cstr a) = None" by auto
    then show ?thesis
    proof cases
      case 1
      then show ?thesis using inv i by (auto simp: tmpfs_inv_def inj_on_def)
    next
      case 2
      then have "cstr a \<notin> slot_name s ` used s" unfolding dir_of_None [OF inv] .
      then show ?thesis using i(1) i(3) [symmetric] by blast
    qed
  qed
  then have us: "used s1 = used s - {i}"
    using assms(7) i16 len
    by (auto simp: tmpfs_unlink_def Let_def used_def put_file_def nth_list_update split: bind_splits if_splits)
  have "dir_of s1 (cstr b) = None" using s1(2) assms(4) by auto
  then have ri: "r = int i"
    using tmpfs_create_slot [OF s1(1) _ i16 _ _ assms(8,9)] us assms(3) i(2) by auto
  obtain K2 where s2: "tmpfs_inv R0 K2 s2"
    "r = -1 \<or> (\<exists>j\<in>used s2. r = int j \<and> slot_name s2 j = cstr b \<and> dir_of s2 = (dir_of s1)(cstr b \<mapsto> []))"
    using tmpfs_create_spec [OF s1(1), of b] assms(8) by auto
  then have i2: "i \<in> used s2" "dir_of s2 (slot_name s2 i) = Some []" using ri by auto
  have c2: "content s2 i = []"
    using i2 s2(1) unfolding dir_of_Some [OF s2(1)] by (auto simp: tmpfs_inv_def inj_on_def)
  obtain K3 where s3: "tmpfs_inv R0 K3 s3" "used s3 = used s2" "content s3 i = overwrite [] 0 bs"
    using tmpfs_write_spec [OF s2(1) i2(1) assms(5), of 0] assms(6,10) ri c2 by auto
  have "content s3 i = bs" using s3(3) by (intro nth_equalityI) (auto simp: nth_overwrite)
  then show ?thesis
    using tmpfs_read_spec [OF s3(1), of i 0 "length bs"] s3(2) i2(1) i(2) assms(5,6)
    by (simp add: tmpfs_op_read_def Let_def add64_exact)
qed

text \<open> C28. The search for a larger capacity ends, with a capacity that is enough and at most the
  256 KiB of a file, whatever capacity it starts from, because \<open>tmpfs_grow_to\<close> replaces a
  capacity of 0 by \<open>TMPFS_INITIAL_CAP\<close>; from 0 itself the doubling never ends.\<close>

theorem grow_cap_terminates:
  assumes "0 < need" "need \<le> 262144" "c \<le> 262144"
  shows "(\<exists>n. grow_cap (if c = 0 then 4096 else c) need = Some n \<and> need \<le> n \<and> n \<le> 262144) \<and>
    grow_cap 0 need = None"
  using grow_cap_bounds [of "if c = 0 then 4096 else c" need] grow_cap_zero [OF assms(1)] assms by auto

section \<open>Instances\<close>

lemma grow_cap_terminates_witness:
  "(\<exists>n. grow_cap 4096 5000 = Some n \<and> 5000 \<le> n \<and> n \<le> 262144) \<and> grow_cap 0 5000 = None"
  using grow_cap_terminates [of 5000 0] by simp

definition example_tmpfs :: "heap \<Rightarrow> tmpfs" where
  "example_tmpfs h = tmpfs_init \<lparr>g_files = replicate 16 \<lparr>tf_in_use = True, tf_name = replicate 32 CHR ''x'',
     tf_data = 7, tf_size = 9, tf_cap = 1\<rparr>, tm_heap = h, tm_ram = (\<lambda>_. 0)\<rparr>"

lemma example_tmpfs_ok: "heap_live h {} \<Longrightarrow> tmpfs_ok {} (example_tmpfs h)" "dir_of (example_tmpfs h) n = None"
proof -
  have u: "used (example_tmpfs h) = {}" by (simp add: used_def example_tmpfs_def tmpfs_init_def)
  assume "heap_live h {}"
  then have inv: "tmpfs_inv {} (\<lambda>_. 0) (example_tmpfs h)"
    unfolding tmpfs_inv_def u bufs_def by (simp add: example_tmpfs_def tmpfs_init_def slot_ok_def)
  then show "tmpfs_ok {} (example_tmpfs h)" unfolding tmpfs_ok_def by blast
next
  have "first_index (\<lambda>f. tf_in_use f \<and> cstr (tf_name f) = n) (g_files (example_tmpfs h)) = None"
    unfolding first_index_None by (simp add: example_tmpfs_def tmpfs_init_def)
  then show "dir_of (example_tmpfs h) n = None" by (simp add: dir_of_def)
qed

lemma tmpfs_heap:
  "\<exists>h h1 h2 h3. heap_live h {} \<and> kmalloc h 4096 = Some (h1, 4112) \<and>
     kfree h1 4112 = Some h2 \<and> kmalloc h2 4096 = Some (h3, 4112)"
proof -
  obtain h where h: "heap_rep h [(65536, False)]" "heap_start h = 4096"
    using kheap_init_rep [of 4096 65536 "\<lparr>heap_start = 0, heap_end = 0,
      hdr = (\<lambda>_. \<lparr>total_size = 0, prev_size = 0\<rparr>)\<rparr>"] by auto
  have need: "kmalloc_need 4096 = 4112"
    by (simp add: kmalloc_need_def align_up64_def align_down_def add64_def)
  obtain h1 where h1: "kmalloc h 4096 = Some (h1, 4112)" "heap_rep h1 [(4112, True), (61424, False)]"
    "heap_start h1 = 4096"
    using kmalloc_first_fit [OF h(1), of 4096] h(2) by (auto simp: need split_blk_def)
  obtain h2 where h2: "kfree h1 4112 = Some h2" "heap_rep h2 [(65536, False)]" "heap_start h2 = 4096"
    using kfree_coalesces [of h1 "[]" 4112 True "[(61424, False)]"] h1(2,3) by (auto simp: afree_def)
  obtain h3 where "kmalloc h2 4096 = Some (h3, 4112)"
    using kmalloc_first_fit [OF h2(2), of 4096] h2(3) by (auto simp: need split_blk_def)
  then show ?thesis using heap_rep_live [OF h(1)] h1(1) h2(1) by auto
qed

lemma create_runs:
  assumes "tmpfs_inv R0 K s" "dir_of s (cstr name) = None" "cstr name \<noteq> []" "length (cstr name) \<le> 31"
    and "0 \<notin> used s" "kmalloc (tm_heap s) 4096 = Some (h, p)" "p \<noteq> 0"
  shows "\<exists>s' K'. tmpfs_create_or_truncate s (Some name) = Some (s', 0) \<and> tmpfs_inv R0 K' s' \<and>
    dir_of s' = (dir_of s)(cstr name \<mapsto> []) \<and> 0 \<in> used s' \<and> slot_name s' 0 = cstr name \<and>
    slot_data s' 0 = p \<and> tf_cap (g_files s' ! 0) = 4096 \<and> tm_heap s' = h"
proof -
  have len: "length (g_files s) = 16" and ok: "slot_ok (g_files s ! 0)" using assms(1) by (auto simp: tmpfs_inv_def)
  have l: "tmpfs_lookup s (Some name) = -1" using lookup_eq [OF assms(1), of name] assms(2) by auto
  have f: "first_index (\<lambda>f. \<not> tf_in_use f) (g_files s) = Some 0"
    unfolding first_index_Some using len assms(5) by (simp add: used_def)
  obtain d where d: "copy_name (tf_name (g_files s ! 0)) name = (d, int (length (cstr name)))"
    using copy_name_eq(1) [of _ name] ok assms(4) by (auto simp: slot_ok_def)
  let ?s = "put_file (s\<lparr>tm_heap := h\<rparr>) 0 ((g_files s ! 0)\<lparr>tf_name := d, tf_data := p, tf_cap := 4096,
      tf_size := 0, tf_in_use := True\<rparr>)"
  have run: "tmpfs_create_or_truncate s (Some name) = Some (?s, 0)"
    using l f d assms(3,6,7) by (simp add: tmpfs_create_or_truncate_def str_empty_cstr Let_def)
  obtain K' where "tmpfs_inv R0 K' ?s" "\<exists>i\<in>used ?s. 0 = int i \<and> slot_name ?s i = cstr name \<and>
        dir_of ?s = (dir_of s)(cstr name \<mapsto> [])"
    using tmpfs_create_spec [OF assms(1), of name] run by auto
  then show ?thesis using run len by (intro exI [of _ ?s] exI [of _ K']) (auto simp: put_file_def)
qed

lemma write_runs:
  assumes "i \<in> used s" "off + length bs \<le> tf_cap (g_files s ! i)" "tf_cap (g_files s ! i) \<le> 262144" "bs \<noteq> []"
  shows "\<exists>s'. tmpfs_write s (int i) off bs = Some (s', int (length bs))"
proof -
  have a: "add64 off (length bs) = off + length bs" using assms(2,3) by (simp add: arith64)
  show ?thesis using assms by (simp add: tmpfs_write_def a used_def tmpfs_grow_to_def Let_def)
qed

definition example_entry :: fd_entry where
  "example_entry = \<lparr>fe_in_use = True, fe_kind = FD_CONSOLE, fe_offset = 3, fe_ramfs_index = 2,
     fe_osfs_start = 0, fe_osfs_size = 0, fe_pipe = 0, fe_socket_cid = 0, fe_pty = 0, fe_osfs2_ino = 0,
     fe_srv_l = 0, fe_srv_c = 0, fe_srv_is_service = True, fe_userfs_ch = 0, fe_userfs_handle = 0\<rparr>"

text \<open>A file system with the one empty file \<open>a\<close> in slot 0.\<close>

lemma example_create:
  assumes "heap_live h {}" "kmalloc h 4096 = Some (h1, 4112)"
  shows "\<exists>s1. tmpfs_ok {} s1 \<and> dir_of s1 = [''a'' \<mapsto> []] \<and> 0 \<in> used s1 \<and> slot_name s1 0 = ''a'' \<and>
    slot_data s1 0 = 4112 \<and> tf_cap (g_files s1 ! 0) = 4096 \<and> tm_heap s1 = h1"
proof -
  obtain K where inv: "tmpfs_inv {} K (example_tmpfs h)"
    using example_tmpfs_ok(1) [OF assms(1)] by (auto simp: tmpfs_ok_def)
  have e: "dir_of (example_tmpfs h) = Map.empty" using example_tmpfs_ok(2) by blast
  have "0 \<notin> used (example_tmpfs h)" "tm_heap (example_tmpfs h) = h"
    by (simp_all add: used_def example_tmpfs_def tmpfs_init_def)
  then show ?thesis
    using create_runs [OF inv, of "''a''" h1 4112] e assms(2) by (auto simp: cstr_def tmpfs_ok_def)
qed

lemma tmpfs_open_correct_witness:
  "\<exists>s s' e'. tmpfs_ok {} s \<and> dir_of s = [''a'' \<mapsto> []] \<and>
     tmpfs_op_open s (Some ''/a'') O_APPEND (Some example_entry) = Some (s', 0, Some e') \<and>
     s' = s \<and> opened s' e' ''a'' 0"
proof -
  obtain h h1 where h: "heap_live h {}" "kmalloc h 4096 = Some (h1, 4112)" using tmpfs_heap by blast
  then obtain s where s: "tmpfs_ok {} s" "dir_of s = [''a'' \<mapsto> []]" using example_create by blast
  have "has_flag O_APPEND O_APPEND" "\<not> has_flag O_APPEND O_CREAT"
    by (simp_all add: has_flag_def O_APPEND_def O_CREAT_def)
  moreover have "cstr (strip_slash (Some ''/a'')) = ''a''" by (simp add: strip_slash_def cstr_def)
  ultimately show ?thesis
    using tmpfs_open_correct [OF s(1), of "Some ''/a''" O_APPEND example_entry] s by auto
qed


lemma tmpfs_stale_descriptor_witness:
  "\<exists>s e s1 s2 s3. opened s e ''a'' 0 \<and> tmpfs_unlink s (Some ''a'') = Some (s1, 0) \<and>
     tmpfs_create_or_truncate s1 (Some ''b'') = Some (s2, 0) \<and> tmpfs_write s2 0 0 [7] = Some (s3, 1) \<and>
     tmpfs_op_read s3 (Some (e\<lparr>fe_offset := 0\<rparr>)) False 1 = (1, [7], Some (e\<lparr>fe_offset := 1\<rparr>))"
proof -
  obtain h h1 h2 h3 where h: "heap_live h {}" "kmalloc h 4096 = Some (h1, 4112)"
    "kfree h1 4112 = Some h2" "kmalloc h2 4096 = Some (h3, 4112)" using tmpfs_heap by blast
  obtain s where s: "tmpfs_ok {} s" "dir_of s = [''a'' \<mapsto> []]" "0 \<in> used s" "slot_name s 0 = ''a''"
    "slot_data s 0 = 4112" "tm_heap s = h1" using example_create [OF h(1,2)] by blast
  let ?e = "(reset_entry FD_TMPFS_RW example_entry)\<lparr>fe_offset := 0, fe_ramfs_index := int 0\<rparr>"
  have o: "opened s ?e ''a'' 0" using s(3,4) by (rule opened_reset)
  obtain K where inv: "tmpfs_inv {} K s" using s(1) by (auto simp: tmpfs_ok_def)
  obtain i where "i \<in> used s" "slot_name s i = ''a''" "tmpfs_lookup s (Some ''a'') = int i"
    using lookup_eq [OF inv, of "''a''"] s(2) by (auto simp: cstr_def)
  then have l: "tmpfs_lookup s (Some ''a'') = 0" using inv s(3,4) by (auto simp: tmpfs_inv_def inj_on_def)
  obtain s1 K1 where s1: "tmpfs_unlink s (Some ''a'') = Some (s1, 0)" "tmpfs_inv {} K1 s1" "dir_of s1 = Map.empty"
    using tmpfs_unlink_spec [OF inv, of "''a''"] s(2) by (auto simp: cstr_def)
  have "tm_heap s1 = h2" "0 \<notin> used s1"
    using s1(1) l s(5,6) h(3) inv
    by (auto simp: tmpfs_unlink_def Let_def put_file_def used_def tmpfs_inv_def)
  then obtain s2 K2 where s2: "tmpfs_create_or_truncate s1 (Some ''b'') = Some (s2, 0)" "tmpfs_inv {} K2 s2"
    "0 \<in> used s2" "tf_cap (g_files s2 ! 0) = 4096"
    using create_runs [OF s1(2), of "''b''" h3 4112] s1(3) h(4) by (auto simp: cstr_def)
  obtain s3 where s3: "tmpfs_write s2 0 0 [7] = Some (s3, 1)"
    using write_runs [OF s2(3), of 0 "[7]"] s2(4) by auto
  have "cstr ''a'' = ''a''" "cstr ''b'' = ''b''" by (simp_all add: cstr_def)
  then show ?thesis
    using tmpfs_stale_descriptor [OF s(1), of ?e "''a''" 0 "''b''" "[7]" s1 s2 0 s3] o s(2) s1(1) s2(1) s3
    by (intro exI [of _ s] exI [of _ ?e] exI [of _ s1] exI [of _ s2] exI [of _ s3]) simp
qed

end
