(* ===== verification/Osfs2Mount.thy ===== *)
theory Osfs2Mount
  imports Osfs2Files Heap FileDesc "HOL-Library.Monad_Syntax"
begin

text \<open>
  The methods of OSFS-2 that the mount table calls for \<open>/data\<close>: the \<open>struct fs_ops\<close> part of
  \<open>kernel/core/osfs2.c\<close>.  Entries and paths are as in \<open>Tmpfs\<close>; the buffer of
  \<open>osfs2_op_load\<close> comes from the modelled heap, and its content is returned beside its
  address.
\<close>

section \<open>Opening, reading and writing\<close>

text \<open>\<open>Inl\<close> is the error the open returns.\<close>

definition open_inode :: "osfs2 \<Rightarrow> char list \<Rightarrow> u32 \<Rightarrow> osfs2 \<times> (int + u32)" where
  "open_inode s bare flags =
     (let (s1, ino) = osfs2_lookup s bare in
      if ino = 0 then
        (if \<not> has_flag flags O_CREAT then (s1, Inl (- ENOENT))
         else let (s2, ino2) = osfs2_create s1 bare
              in if ino2 = 0 then (s2, Inl (- ENOMEM)) else (s2, Inr ino2))
      else if has_flag flags O_TRUNC \<and> \<not> has_flag flags O_APPEND then
        let (s2, ok) = osfs2_truncate s1 ino 0 in (s2, if \<not> ok then Inl (- EIO) else Inr ino)
      else (s1, Inr ino))"

definition osfs2_op_open ::
    "osfs2 \<Rightarrow> char list option \<Rightarrow> u32 \<Rightarrow> fd_entry option \<Rightarrow> osfs2 \<times> int \<times> fd_entry option" where
  "osfs2_op_open s rel flags out =
     (case out of
        None \<Rightarrow> (s, - EINVAL, None)
      | Some e \<Rightarrow>
          let bare = strip_slash rel in
          if str_empty bare then (s, - EINVAL, Some e)
          else if \<not> osfs2_present s then (s, - ENOENT, Some e)
          else
            let (s1, r) = open_inode s bare flags in
            case r of
              Inl err \<Rightarrow> (s1, err, Some e)
            | Inr ino \<Rightarrow> (s1, 0, Some ((reset_entry FD_OSFS2_FILE e)\<lparr>fe_osfs2_ino := ino\<rparr>)))"

definition osfs2_op_read ::
    "osfs2 \<Rightarrow> fd_entry option \<Rightarrow> bool \<Rightarrow> nat \<Rightarrow> osfs2 \<times> int \<times> byte list \<times> fd_entry option" where
  "osfs2_op_read s e buf_null n =
     (case e of
        None \<Rightarrow> (s, - EINVAL, [], None)
      | Some x \<Rightarrow>
          if buf_null then (s, - EINVAL, [], e)
          else
            let (s1, r) = osfs2_read s (fe_osfs2_ino x) (fe_offset x) n in
            case r of
              None \<Rightarrow> (s1, -1, [], e)
            | Some bs \<Rightarrow>
                (s1, int (length bs), bs,
                 Some (if int (length bs) > 0 then x\<lparr>fe_offset := add64 (fe_offset x) (length bs)\<rparr> else x)))"

definition osfs2_op_write ::
    "osfs2 \<Rightarrow> fd_entry option \<Rightarrow> bool \<Rightarrow> byte list \<Rightarrow> osfs2 \<times> int \<times> fd_entry option" where
  "osfs2_op_write s e buf_null src =
     (case e of
        None \<Rightarrow> (s, - EINVAL, None)
      | Some x \<Rightarrow>
          if buf_null then (s, - EINVAL, e)
          else
            let (s1, wr) = osfs2_write s (fe_osfs2_ino x) (fe_offset x) src
            in (s1, wr, Some (if wr > 0 then x\<lparr>fe_offset := add64 (fe_offset x) (nat wr)\<rparr> else x)))"

definition osfs2_op_close :: "osfs2 \<Rightarrow> fd_entry option \<Rightarrow> osfs2 \<times> int" where
  "osfs2_op_close s e = (s, 0)"

section \<open>Directories\<close>

lemma list_from_advances:
  "list_from s dir idx n cap = (s', rc, idx', l) \<Longrightarrow> rc > 0 \<Longrightarrow> idx < idx' \<and> idx' \<le> idx + n \<and> l \<noteq> None"
  by (induction s dir idx n cap rule: list_from.induct)
    (fastforce simp: Let_def split: prod.splits option.splits if_splits)+

lemma osfs2_listdir_at_advances:
  assumes "osfs2_listdir_at s p idx cap = (s', rc, idx', l)" "rc > 0"
  shows "idx < idx' \<and> idx' \<le> 2 ^ 32 \<and> l \<noteq> None"
proof -
  obtain s1 dir where l: "list_from s1 dir idx (unat (i_size dir) div DIRENT_SIZE - idx) cap = (s', rc, idx', l)"
    using assms by (auto simp: osfs2_listdir_at_def split: if_splits prod.splits option.splits)
  have "unat (i_size dir) < 2 ^ 32" using unsigned_less [of "i_size dir", where ?'a = nat] by simp
  then have "unat (i_size dir) div DIRENT_SIZE \<le> 2 ^ 32" by simp
  then show ?thesis using list_from_advances [OF l assms(2)] by linarith
qed

text \<open>The loop of \<open>osfs2_op_listdir\<close>: \<open>cur\<close> entries before position \<open>pos\<close> have been
  passed.\<close>

function op_list :: "osfs2 \<Rightarrow> u32 \<Rightarrow> nat \<Rightarrow> int \<Rightarrow> int \<Rightarrow> osfs2 \<times> listing option" where
  "op_list s parent pos cur idx =
     (let (s1, rc, pos1, l) = osfs2_listdir_at s parent pos NAME_MAX in
      if rc \<le> 0 then (s1, None)
      else if cur = idx then (s1, l)
      else op_list s1 parent pos1 (cur + 1) idx)"
  by pat_completeness auto
termination
proof (relation "measure (\<lambda>(s, parent, pos, cur, idx). 2 ^ 32 - pos)")
  fix s parent pos cur idx x s1 y rc z pos1 l
  assume a: "x = osfs2_listdir_at s parent pos NAME_MAX" "(s1, y) = x" "(rc, z) = y" "(pos1, l) = z"
    "\<not> rc \<le> (0 :: int)" "cur \<noteq> (idx :: int)"
  then have "osfs2_listdir_at s parent pos NAME_MAX = (s1, rc, pos1, l)" by simp
  then have "pos < pos1 \<and> pos1 \<le> 2 ^ 32" using osfs2_listdir_at_advances a(5) by fastforce
  then show "((s1, parent, pos1, cur + 1, idx), (s, parent, pos, cur, idx))
      \<in> measure (\<lambda>(s, parent, pos, cur, idx). 2 ^ 32 - pos)"
    by auto
qed simp

declare op_list.simps [simp del]

text \<open>The copy of the name, cut to the caller's buffer.\<close>

definition op_name :: "char list \<Rightarrow> nat \<Rightarrow> char list" where
  "op_name n2 cap = take (cap - 1) (cstr n2)"

text \<open>The result, the name, with its NUL, and the type stored for the caller.\<close>

definition osfs2_op_listdir ::
    "osfs2 \<Rightarrow> char list option \<Rightarrow> int \<Rightarrow> nat \<Rightarrow> osfs2 \<times> int \<times> char list \<times> u32" where
  "osfs2_op_listdir s rel idx cap =
     (if \<not> osfs2_present s then (s, -1, [], 0)
      else
        let sub = strip_slash rel;
            (s1, parent) = (if str_empty sub then (s, INODE_ROOT) else osfs2_lookup s sub) in
        if parent = 0 then (s1, -1, [], 0)
        else
          let (s2, l) = op_list s1 parent 0 0 idx in
          case l of
            None \<Rightarrow> (s2, -1, [], 0)
          | Some ent \<Rightarrow>
              let nm = op_name (l_name ent) cap in (s2, int (length nm), nm @ [NUL], l_type ent))"

definition osfs2_op_unlink :: "osfs2 \<Rightarrow> char list option \<Rightarrow> osfs2 \<times> int" where
  "osfs2_op_unlink s rel =
     (let bare = strip_slash rel in
      if str_empty bare then (s, - EINVAL)
      else if \<not> osfs2_present s then (s, - ENOENT)
      else let (s1, ok) = osfs2_unlink s bare in (s1, if \<not> ok then - ENOENT else 0))"

definition osfs2_op_mkdir :: "osfs2 \<Rightarrow> char list option \<Rightarrow> osfs2 \<times> int" where
  "osfs2_op_mkdir s rel =
     (let bare = strip_slash rel in
      if str_empty bare then (s, - EINVAL)
      else if \<not> osfs2_present s then (s, - ENOENT)
      else let (s1, ino) = osfs2_mkdir s bare in (s1, if ino = 0 then - ENOENT else 0))"

definition osfs2_op_is_dir :: "osfs2 \<Rightarrow> char list option \<Rightarrow> osfs2 \<times> int" where
  "osfs2_op_is_dir s rel =
     (let bare = strip_slash rel in
      if str_empty bare then (s, 1)
      else if \<not> osfs2_present s then (s, 0)
      else
        let (s1, ino) = osfs2_lookup s bare in
        if ino = 0 then (s1, 0)
        else let (s2, rc, _, _) = osfs2_listdir_at s1 ino 0 NAME_MAX in (s2, if rc \<ge> 0 then 1 else 0))"

text \<open>\<open>out_null\<close>: \<open>out_buf\<close> or \<open>out_size\<close> is NULL.  The result is the file system, the
  heap, the return value, the address and the bytes behind it.\<close>

definition osfs2_op_load ::
    "osfs2 \<Rightarrow> heap \<Rightarrow> char list option \<Rightarrow> bool \<Rightarrow> (osfs2 \<times> heap \<times> int \<times> nat \<times> byte list) option" where
  "osfs2_op_load s h rel out_null =
     (if out_null then Some (s, h, - EINVAL, 0, [])
      else if \<not> osfs2_present s then Some (s, h, - ENOENT, 0, [])
      else
        let bare = strip_slash rel in
        if str_empty bare then Some (s, h, - ENOENT, 0, [])
        else
          let (s1, ino) = osfs2_lookup s bare in
          if ino = 0 then Some (s1, h, - ENOENT, 0, [])
          else
            let (s2, sz) = osfs2_size s1 ino in
            do {
              (h1, p) \<leftarrow> kmalloc h (unat sz);
              if p = 0 \<and> sz > 0 then Some (s2, h1, - ENOMEM, 0, [])
              else if sz > 0 then
                let (s3, r) = osfs2_read s2 ino 0 (unat sz) in
                (case r of
                   None \<Rightarrow> do { h2 \<leftarrow> kfree h1 p; Some (s3, h2, - EIO, 0, []) }
                 | Some bs \<Rightarrow>
                     if length bs \<noteq> unat sz then do { h2 \<leftarrow> kfree h1 p; Some (s3, h2, - EIO, 0, []) }
                     else Some (s3, h1, 0, p, bs))
              else Some (s2, h1, 0, p, []) })"

end
