(* ===== verification/PageCache.thy ===== *)
theory PageCache
  imports Pmem Lru
begin

text \<open>
  The page cache of file-backed mappings: \<open>kernel/core/page_cache.c\<close>.

  \<open>page_cache_get_or_load\<close> drops its spin lock twice, around the release of an evicted page and
  around the allocation and the loader, so other processors see the cache in between.  It is
  modelled as the phases between two changes of the lock, each of them atomic; \<open>cstep\<close>
  interleaves the phases of any number of calls, and \<open>page_cache_get_or_load\<close> runs one call
  without interruption.  The pages come from the allocator of \<open>Pmem\<close>; the loader is a
  parameter, a function on the words of memory with its return value.
\<close>

section \<open>The cache\<close>

record pslot =
  ps_used :: bool
  ps_cache_id :: nat
  ps_offset :: nat
  ps_pa :: nat
  ps_refcount :: nat
  ps_last_used :: nat

record page_cache =
  g_slots :: "pslot list"
  pc_clock :: nat
  pc_inited :: bool
  pc_hits :: nat
  pc_misses :: nat
  pc_evicts :: nat
  pc_pmem :: pmem

abbreviation (input) PAGE_CACHE_SLOTS :: nat where "PAGE_CACHE_SLOTS \<equiv> 32"

type_synonym loader = "nat \<Rightarrow> nat \<Rightarrow> (nat \<Rightarrow> nat) \<Rightarrow> (nat \<Rightarrow> nat) \<times> int"

definition page_cache_init :: "page_cache \<Rightarrow> page_cache" where
  "page_cache_init s =
     (if pc_inited s then s
      else s\<lparr>pc_inited := True,
             g_slots := replicate PAGE_CACHE_SLOTS \<lparr>ps_used = False, ps_cache_id = 0, ps_offset = 0,
               ps_pa = 0, ps_refcount = 0, ps_last_used = 0\<rparr>,
             pc_clock := 1\<rparr>)"

definition find_slot_locked :: "page_cache \<Rightarrow> nat \<Rightarrow> nat \<Rightarrow> nat option" where
  "find_slot_locked s cache_id off =
     first_index (\<lambda>x. ps_used x \<and> ps_cache_id x = cache_id \<and> ps_offset x = off) (g_slots s)"

definition find_slot_by_pa_locked :: "page_cache \<Rightarrow> nat \<Rightarrow> nat option" where
  "find_slot_by_pa_locked s pa = first_index (\<lambda>x. ps_used x \<and> ps_pa x = pa) (g_slots s)"

definition pick_victim_locked :: "page_cache \<Rightarrow> nat option" where
  "pick_victim_locked s =
     victim_scan (\<lambda>x. \<not> ps_used x) (\<lambda>x. ps_refcount x \<noteq> 0) ps_last_used 0 None (2 ^ 32 - 1) (g_slots s)"

definition tick :: "page_cache \<Rightarrow> page_cache" where
  "tick s = s\<lparr>pc_clock := (pc_clock s + 1) mod 2 ^ 32\<rparr>"

definition put_slot :: "page_cache \<Rightarrow> nat \<Rightarrow> pslot \<Rightarrow> page_cache" where
  "put_slot s i x = s\<lparr>g_slots := (g_slots s)[i := x]\<rparr>"

text \<open>A hit: count the reference, stamp the slot, return its page.\<close>

definition touch_slot :: "page_cache \<Rightarrow> nat \<Rightarrow> page_cache \<times> nat" where
  "touch_slot s i =
     (let x = g_slots s ! i; s1 = tick s in
      ((put_slot s1 i (x\<lparr>ps_refcount := (ps_refcount x + 1) mod 2 ^ 32, ps_last_used := pc_clock s1\<rparr>))
         \<lparr>pc_hits := add64 (pc_hits s) 1\<rparr>, ps_pa x))"

section \<open>The phases of a lookup\<close>

datatype phase =
    Entry
  | Evicting nat
  | Relock
  | Loading nat
  | Filling nat nat
  | Dropping nat nat
  | Undo nat
  | Install nat nat
  | Finished nat

text \<open>The rest of the critical section in which the slot is reserved.\<close>

definition reserve :: "page_cache \<Rightarrow> nat \<Rightarrow> nat \<Rightarrow> page_cache \<times> phase" where
  "reserve s cache_id off =
     (case find_slot_locked s cache_id off of
        Some i \<Rightarrow> let (s1, pa) = touch_slot s i in (s1, Finished pa)
      | None \<Rightarrow>
          (case pick_victim_locked s of
             None \<Rightarrow> (s, Finished 0)
           | Some v \<Rightarrow>
               let s1 = tick s in
               ((put_slot s1 v ((g_slots s ! v)\<lparr>ps_used := True, ps_cache_id := cache_id, ps_offset := off,
                   ps_pa := 0, ps_refcount := 1, ps_last_used := pc_clock s1\<rparr>))
                  \<lparr>pc_misses := add64 (pc_misses s) 1\<rparr>, Loading v)))"

definition gl_step :: "nat \<Rightarrow> nat \<Rightarrow> loader option \<Rightarrow> page_cache \<Rightarrow> phase \<Rightarrow> page_cache \<times> phase" where
  "gl_step cache_id off ld s p =
     (case p of
        Entry \<Rightarrow>
          if off mod PAGE_SIZE \<noteq> 0 then (s, Finished 0)
          else (case find_slot_locked s cache_id off of
            Some i \<Rightarrow> let (s1, pa) = touch_slot s i in (s1, Finished pa)
          | None \<Rightarrow>
              (case pick_victim_locked s of
                 None \<Rightarrow> (s, Finished 0)
               | Some v \<Rightarrow>
                   if ps_used (g_slots s ! v) then (s, Evicting (ps_pa (g_slots s ! v)))
                   else reserve s cache_id off))
      | Evicting old_pa \<Rightarrow> (s\<lparr>pc_pmem := pmem_free_page (pc_pmem s) old_pa\<rparr>, Relock)
      | Relock \<Rightarrow> reserve (s\<lparr>pc_evicts := add64 (pc_evicts s) 1\<rparr>) cache_id off
      | Loading v \<Rightarrow>
          let (m, pa) = pmem_alloc_page (pc_pmem s); s1 = s\<lparr>pc_pmem := m\<rparr>
          in if pa = 0 then (s1, Undo v) else (s1, Filling v pa)
      | Filling v pa \<Rightarrow>
          (case ld of
             None \<Rightarrow> (s, Install v pa)
           | Some f \<Rightarrow>
               let (w, r) = f pa off (mem (pc_pmem s)); s1 = s\<lparr>pc_pmem := (pc_pmem s)\<lparr>mem := w\<rparr>\<rparr>
               in if r \<noteq> 0 then (s1, Dropping v pa) else (s1, Install v pa))
      | Dropping v pa \<Rightarrow> (s\<lparr>pc_pmem := pmem_free_page (pc_pmem s) pa\<rparr>, Undo v)
      | Undo v \<Rightarrow> (put_slot s v ((g_slots s ! v)\<lparr>ps_used := False, ps_refcount := 0\<rparr>), Finished 0)
      | Install v pa \<Rightarrow> (put_slot s v ((g_slots s ! v)\<lparr>ps_pa := pa\<rparr>), Finished pa)
      | Finished pa \<Rightarrow> (s, Finished pa))"

fun phase_rank :: "phase \<Rightarrow> nat" where
  "phase_rank Entry = 7"
| "phase_rank (Evicting _) = 6"
| "phase_rank Relock = 5"
| "phase_rank (Loading _) = 4"
| "phase_rank (Filling _ _) = 3"
| "phase_rank (Dropping _ _) = 2"
| "phase_rank (Undo _) = 1"
| "phase_rank (Install _ _) = 1"
| "phase_rank (Finished _) = 0"

lemma reserve_rank: "phase_rank (snd (reserve s cache_id off)) \<le> 4"
  by (simp add: reserve_def Let_def split: option.split prod.split)

lemma gl_step_rank: "phase_rank p \<noteq> 0 \<Longrightarrow> phase_rank (snd (gl_step cache_id off ld s p)) < phase_rank p"
  using reserve_rank [of s cache_id off]
    reserve_rank [of "s\<lparr>pc_evicts := add64 (pc_evicts s) 1\<rparr>" cache_id off]
  by (cases p) (auto simp: gl_step_def Let_def split: option.splits prod.splits)

text \<open>A call that no other processor interrupts.\<close>

fun result_of :: "phase \<Rightarrow> nat" where
  "result_of (Finished pa) = pa"
| "result_of _ = 0"

function finish :: "nat \<Rightarrow> nat \<Rightarrow> loader option \<Rightarrow> page_cache \<Rightarrow> phase \<Rightarrow> page_cache \<times> nat" where
  "finish cache_id off ld s p =
     (if phase_rank p = 0 then (s, result_of p)
      else let (s1, p1) = gl_step cache_id off ld s p in finish cache_id off ld s1 p1)"
  by pat_completeness auto
termination
proof (relation "measure (\<lambda>(cache_id, off, ld, s, p). phase_rank p)", goal_cases)
  case (2 cache_id off ld s p x s1 p1)
  then have "snd (gl_step cache_id off ld s p) = p1" by (metis snd_conv)
  then show ?case using gl_step_rank [of p cache_id off ld s] 2(1) by auto
qed simp

declare finish.simps [simp del]

definition page_cache_get_or_load :: "page_cache \<Rightarrow> nat \<Rightarrow> nat \<Rightarrow> loader option \<Rightarrow> page_cache \<times> nat" where
  "page_cache_get_or_load s cache_id off ld = finish cache_id off ld s Entry"

definition page_cache_release :: "page_cache \<Rightarrow> nat \<Rightarrow> page_cache" where
  "page_cache_release s pa =
     (if pa = 0 then s
      else case find_slot_by_pa_locked s pa of
        None \<Rightarrow> s
      | Some i \<Rightarrow>
          let x = g_slots s ! i in
          if ps_refcount x > 0 then put_slot s i (x\<lparr>ps_refcount := ps_refcount x - 1\<rparr>) else s)"

definition page_cache_hits :: "page_cache \<Rightarrow> nat" where "page_cache_hits s = pc_hits s"
definition page_cache_misses :: "page_cache \<Rightarrow> nat" where "page_cache_misses s = pc_misses s"
definition page_cache_evictions :: "page_cache \<Rightarrow> nat" where "page_cache_evictions s = pc_evicts s"

definition page_cache_in_use :: "page_cache \<Rightarrow> nat" where
  "page_cache_in_use s = length (filter ps_used (g_slots s))"

text \<open>Several processors: a call is its key, its loader and its phase.\<close>

type_synonym call = "nat \<times> nat \<times> loader option \<times> phase"

inductive cstep :: "page_cache \<times> call list \<Rightarrow> page_cache \<times> call list \<Rightarrow> bool" where
  advance: "i < length cs \<Longrightarrow> cs ! i = (cache_id, off, ld, p) \<Longrightarrow> gl_step cache_id off ld s p = (s', p') \<Longrightarrow>
    cstep (s, cs) (s', cs[i := (cache_id, off, ld, p')])"
| release: "cstep (s, cs) (page_cache_release s pa, cs)"

inductive_cases cstepE: "cstep (s, cs) st"

section \<open>What the cache holds\<close>

definition live_slots :: "page_cache \<Rightarrow> nat set" where
  "live_slots s = {i. i < 32 \<and> ps_used (g_slots s ! i)}"

abbreviation slot_key :: "page_cache \<Rightarrow> nat \<Rightarrow> nat \<times> nat" where
  "slot_key s i \<equiv> (ps_cache_id (g_slots s ! i), ps_offset (g_slots s ! i))"

abbreviation slot_page :: "page_cache \<Rightarrow> nat \<Rightarrow> nat" where
  "slot_page s i \<equiv> ps_pa (g_slots s ! i)"

text \<open>\<open>xs\<close> is the free list of the page allocator.\<close>

definition cache_ok :: "page_cache \<Rightarrow> nat list \<Rightarrow> bool" where
  "cache_ok s xs \<longleftrightarrow> length (g_slots s) = 32 \<and> pmem_rep (pc_pmem s) xs \<and>
     inj_on (slot_key s) (live_slots s) \<and> inj_on (slot_page s) (live_slots s) \<and>
     (\<forall>i\<in>live_slots s. page_ok (slot_page s i) \<and> slot_page s i \<notin> set xs \<and>
        ps_refcount (g_slots s ! i) < 2 ^ 32)"

text \<open>The cached page of a key, with the number of references to it.\<close>

definition cached :: "page_cache \<Rightarrow> nat \<times> nat \<Rightarrow> (nat \<times> nat) option" where
  "cached s k =
     map_option (\<lambda>i. (slot_page s i, ps_refcount (g_slots s ! i))) (find_slot_locked s (fst k) (snd k))"

definition cache_pages :: "page_cache \<Rightarrow> nat set" where
  "cache_pages s = slot_page s ` live_slots s"

text \<open>The loader writes inside the page it is given.\<close>

definition loader_local :: "loader option \<Rightarrow> bool" where
  "loader_local ld \<longleftrightarrow>
     (\<forall>f pa off m a. ld = Some f \<longrightarrow> \<not> (pa \<le> a \<and> a < pa + 4096) \<longrightarrow> fst (f pa off m) a = m a)"

lemma live_slots_less [dest]: "i \<in> live_slots s \<Longrightarrow> i < 32"
  by (simp add: live_slots_def)

lemma find_slot_eq:
  assumes "cache_ok s xs"
  shows "find_slot_locked s c off = Some i \<longleftrightarrow> i \<in> live_slots s \<and> slot_key s i = (c, off)"
proof
  assume "find_slot_locked s c off = Some i"
  then show "i \<in> live_slots s \<and> slot_key s i = (c, off)"
    using assms first_indexD(1,2) [of _ "g_slots s" i]
    by (fastforce simp: find_slot_locked_def live_slots_def cache_ok_def)
next
  assume i: "i \<in> live_slots s \<and> slot_key s i = (c, off)"
  have len: "length (g_slots s) = 32" and inj: "inj_on (slot_key s) (live_slots s)"
    using assms by (auto simp: cache_ok_def)
  have "\<not> (ps_used (g_slots s ! j) \<and> ps_cache_id (g_slots s ! j) = c \<and> ps_offset (g_slots s ! j) = off)"
    if "j < i" for j
    using inj_onD [OF inj, of j i] i that by (auto simp: live_slots_def)
  then show "find_slot_locked s c off = Some i"
    unfolding find_slot_locked_def first_index_Some using i len by (auto simp: live_slots_def)
qed

lemma pc_find_slot_None:
  assumes "cache_ok s xs"
  shows "find_slot_locked s c off = None \<longleftrightarrow> (c, off) \<notin> slot_key s ` live_slots s"
proof (cases "find_slot_locked s c off")
  case None
  then show ?thesis using find_slot_eq [OF assms, of c off] by auto
next
  case (Some i)
  then show ?thesis using find_slot_eq [OF assms, of c off i] by force
qed

lemma cached_eq:
  assumes "cache_ok s xs"
  shows "cached s k = Some (p, r) \<longleftrightarrow>
    (\<exists>i\<in>live_slots s. slot_key s i = k \<and> slot_page s i = p \<and> ps_refcount (g_slots s ! i) = r)"
  using find_slot_eq [OF assms, of "fst k" "snd k"] by (auto simp: cached_def)

lemma cached_None:
  assumes "cache_ok s xs"
  shows "cached s k = None \<longleftrightarrow> k \<notin> slot_key s ` live_slots s"
  using pc_find_slot_None [OF assms, of "fst k" "snd k"] by (auto simp: cached_def)

text \<open>The victim is a free slot or the idle one with the smallest time stamp.\<close>

lemma pick_victim_spec:
  assumes "cache_ok s xs" "pick_victim_locked s = Some v"
  shows "v < 32" "ps_used (g_slots s ! v) \<Longrightarrow> ps_refcount (g_slots s ! v) = 0 \<and>
    (\<forall>i\<in>live_slots s. ps_refcount (g_slots s ! i) = 0 \<longrightarrow> ps_last_used (g_slots s ! v) \<le> ps_last_used (g_slots s ! i))"
proof -
  have len: "length (g_slots s) = 32" using assms(1) by (simp add: cache_ok_def)
  note r = victim_scan_result [where free = "\<lambda>x. \<not> ps_used x" and pinned = "\<lambda>x. ps_refcount x \<noteq> 0"
      and stamp = ps_last_used and bound = "2 ^ 32 - 1" and ss = "g_slots s"]
  have "v < 32 \<and> (ps_used (g_slots s ! v) \<longrightarrow> ps_refcount (g_slots s ! v) = 0 \<and>
    (\<forall>i\<in>live_slots s. ps_refcount (g_slots s ! i) = 0 \<longrightarrow> ps_last_used (g_slots s ! v) \<le> ps_last_used (g_slots s ! i)))"
  proof (cases "first_index (\<lambda>x. \<not> ps_used x) (g_slots s)")
    case (Some w)
    then have "w = v" using r assms(2) by (simp add: pick_victim_locked_def)
    then show ?thesis using first_indexD(1,2) [OF Some] len by simp
  next
    case None
    then have "oldest_in (\<lambda>x. ps_refcount x \<noteq> 0) ps_last_used (2 ^ 32 - 1) (g_slots s) (Some v)"
      using r assms(2) by (simp add: pick_victim_locked_def)
    then have o: "v < length (g_slots s)" "ps_refcount (g_slots s ! v) = 0"
      "\<forall>x\<in>set (g_slots s). ps_refcount x \<noteq> 0 \<or> ps_last_used (g_slots s ! v) \<le> ps_last_used x"
      by (simp_all add: oldest_in_def)
    have "\<forall>i<32. ps_refcount (g_slots s ! i) \<noteq> 0 \<or> ps_last_used (g_slots s ! v) \<le> ps_last_used (g_slots s ! i)"
      using o(3) len by (simp add: all_set_conv_all_nth)
    then show ?thesis using o(1,2) len by (auto simp: live_slots_def)
  qed
  then show "v < 32" "ps_used (g_slots s ! v) \<Longrightarrow> ps_refcount (g_slots s ! v) = 0 \<and>
    (\<forall>i\<in>live_slots s. ps_refcount (g_slots s ! i) = 0 \<longrightarrow> ps_last_used (g_slots s ! v) \<le> ps_last_used (g_slots s ! i))"
    by auto
qed

text \<open>Rewriting one slot: \<open>x\<close> takes the place of slot \<open>v\<close> while the free list becomes
  \<open>ys\<close>.\<close>

definition slot_rewrite :: "page_cache \<Rightarrow> nat list \<Rightarrow> nat \<Rightarrow> pslot \<Rightarrow> page_cache \<Rightarrow> nat list \<Rightarrow> bool" where
  "slot_rewrite s xs v x s' ys \<longleftrightarrow>
     cache_ok s xs \<and> v < 32 \<and> g_slots s' = (g_slots s)[v := x] \<and> pmem_rep (pc_pmem s') ys \<and>
     (ps_used x \<longrightarrow> page_ok (ps_pa x) \<and> ps_pa x \<notin> set ys \<and> ps_refcount x < 2 ^ 32 \<and>
        ps_pa x \<notin> slot_page s ` (live_slots s - {v}) \<and>
        (ps_cache_id x, ps_offset x) \<notin> slot_key s ` (live_slots s - {v})) \<and>
     (\<forall>i\<in>live_slots s - {v}. slot_page s i \<notin> set ys)"

lemma slot_rewriteD:
  assumes "slot_rewrite s xs v x s' ys"
  shows "cache_ok s xs" "v < 32" "g_slots s' = (g_slots s)[v := x]" "pmem_rep (pc_pmem s') ys"
    and "ps_used x \<Longrightarrow> page_ok (ps_pa x) \<and> ps_pa x \<notin> set ys \<and> ps_refcount x < 2 ^ 32 \<and>
       ps_pa x \<notin> slot_page s ` (live_slots s - {v}) \<and>
       (ps_cache_id x, ps_offset x) \<notin> slot_key s ` (live_slots s - {v})"
    and "\<And>i. i \<in> live_slots s \<Longrightarrow> i \<noteq> v \<Longrightarrow> slot_page s i \<notin> set ys"
  using assms by (auto simp: slot_rewrite_def)

lemma put_at: "slot_rewrite s xs v x s' ys \<Longrightarrow> i < 32 \<Longrightarrow> g_slots s' ! i = (if i = v then x else g_slots s ! i)"
  by (auto simp: slot_rewrite_def cache_ok_def nth_list_update)

lemma put_live:
  assumes "slot_rewrite s xs v x s' ys"
  shows "live_slots s' = (if ps_used x then insert v (live_slots s - {v}) else live_slots s - {v})"
  using put_at [OF assms] slot_rewriteD(2) [OF assms] by (auto simp: live_slots_def split: if_splits)

lemma put_rest: "slot_rewrite s xs v x s' ys \<Longrightarrow> i \<in> live_slots s - {v} \<Longrightarrow> g_slots s' ! i = g_slots s ! i"
  using put_at [of s xs v x s' ys i] by auto

lemma put_ok:
  assumes rw: "slot_rewrite s xs v x s' ys"
  shows "cache_ok s' ys"
proof -
  note ok = slot_rewriteD(1) [OF rw] and v = slot_rewriteD(2) [OF rw] and slots = slot_rewriteD(3) [OF rw]
    and rep = slot_rewriteD(4) [OF rw] and own = slot_rewriteD(5) [OF rw] and free = slot_rewriteD(6) [OF rw]
  note put_at = put_at [OF rw] and put_live = put_live [OF rw] and put_rest = put_rest [OF rw]
  have len: "length (g_slots s') = 32" using ok by (simp add: slots cache_ok_def)
  have o: "inj_on (slot_key s') (live_slots s - {v})" "inj_on (slot_page s') (live_slots s - {v})"
  proof -
    have "inj_on (slot_key s) (live_slots s - {v})" "inj_on (slot_page s) (live_slots s - {v})"
      using ok by (auto simp: cache_ok_def intro: inj_on_subset)
    then show "inj_on (slot_key s') (live_slots s - {v})" "inj_on (slot_page s') (live_slots s - {v})"
      using inj_on_cong [of "live_slots s - {v}" "slot_key s'" "slot_key s"]
        inj_on_cong [of "live_slots s - {v}" "slot_page s'" "slot_page s"] put_rest by simp_all
  qed
  have im: "slot_key s' ` (live_slots s - {v}) = slot_key s ` (live_slots s - {v})"
    "slot_page s' ` (live_slots s - {v}) = slot_page s ` (live_slots s - {v})"
    using put_rest by (auto intro!: image_cong)
  have at: "slot_key s' v = (ps_cache_id x, ps_offset x)" "slot_page s' v = ps_pa x"
    using put_at [OF v] by simp_all
  have "inj_on (slot_key s') (insert v (live_slots s - {v}))"
    "inj_on (slot_page s') (insert v (live_slots s - {v}))" if "ps_used x"
    unfolding inj_on_insert Diff_idemp using o own [OF that] at by (simp_all only: im simp_thms)
  then have inj: "inj_on (slot_key s') (live_slots s')" "inj_on (slot_page s') (live_slots s')"
    using o by (simp_all only: put_live split: if_splits) auto
  have "page_ok (slot_page s' i) \<and> slot_page s' i \<notin> set ys \<and> ps_refcount (g_slots s' ! i) < 2 ^ 32"
    if i: "i \<in> live_slots s'" for i
  proof (cases "i = v")
    case True
    then show ?thesis using i own put_at [OF v] v by (auto simp: live_slots_def)
  next
    case False
    then have "i \<in> live_slots s - {v}" using i put_live by (auto split: if_splits)
    then show ?thesis using ok put_rest [of i] free [of i] by (auto simp: cache_ok_def)
  qed
  then show ?thesis using len inj rep by (auto simp: cache_ok_def)
qed

lemma put_cached:
  assumes rw: "slot_rewrite s xs v x s' ys"
  shows "cached s' k = (if ps_used x \<and> (ps_cache_id x, ps_offset x) = k then Some (ps_pa x, ps_refcount x)
     else if v \<in> live_slots s \<and> slot_key s v = k then None else cached s k)"
proof -
  note ok = slot_rewriteD(1) [OF rw] and v = slot_rewriteD(2) [OF rw]
  note put_at = put_at [OF rw] and put_live = put_live [OF rw] and put_rest = put_rest [OF rw]
  have a: "cached s' k = Some (p, r) \<longleftrightarrow>
      (ps_used x \<and> (ps_cache_id x, ps_offset x) = k \<and> ps_pa x = p \<and> ps_refcount x = r) \<or>
      (\<exists>i\<in>live_slots s - {v}. slot_key s i = k \<and> slot_page s i = p \<and> ps_refcount (g_slots s ! i) = r)" for p r
  proof -
    have "cached s' k = Some (p, r) \<longleftrightarrow>
      (\<exists>i\<in>live_slots s'. slot_key s' i = k \<and> slot_page s' i = p \<and> ps_refcount (g_slots s' ! i) = r)"
      by (rule cached_eq [OF put_ok [OF rw]])
    also have "\<dots> \<longleftrightarrow> (ps_used x \<and> (ps_cache_id x, ps_offset x) = k \<and> ps_pa x = p \<and> ps_refcount x = r) \<or>
      (\<exists>i\<in>live_slots s - {v}. slot_key s' i = k \<and> slot_page s' i = p \<and> ps_refcount (g_slots s' ! i) = r)"
      using put_at [OF v] by (auto simp: put_live)
    also have "(\<exists>i\<in>live_slots s - {v}. slot_key s' i = k \<and> slot_page s' i = p \<and> ps_refcount (g_slots s' ! i) = r) \<longleftrightarrow>
      (\<exists>i\<in>live_slots s - {v}. slot_key s i = k \<and> slot_page s i = p \<and> ps_refcount (g_slots s ! i) = r)"
      by (rule bex_cong [OF refl]) (use put_rest in simp)
    finally show ?thesis .
  qed
  show ?thesis
  proof (cases "ps_used x \<and> (ps_cache_id x, ps_offset x) = k")
    case True
    then show ?thesis using a [of "ps_pa x" "ps_refcount x"] by simp
  next
    case new: False
    show ?thesis
    proof (cases "v \<in> live_slots s \<and> slot_key s v = k")
      case True
      then have "\<not> (\<exists>i\<in>live_slots s - {v}. slot_key s i = k \<and> slot_page s i = p \<and> ps_refcount (g_slots s ! i) = r)" for p r
        using ok by (auto simp: cache_ok_def inj_on_def)
      then have "cached s' k \<noteq> Some (p, r)" for p r using a new by blast
      then have "cached s' k = None" by (cases "cached s' k") auto
      then show ?thesis unfolding if_not_P [OF new] if_P [OF True] .
    next
      case False
      have "cached s' k = Some (p, r) \<longleftrightarrow> cached s k = Some (p, r)" for p r
        unfolding a cached_eq [OF ok] using new False by auto
      then have "cached s' k = cached s k" by (metis option.exhaust surj_pair)
      then show ?thesis unfolding if_not_P [OF new] if_not_P [OF False] .
    qed
  qed
qed

section \<open>A call without interruption\<close>

lemma finish_step:
  "gl_step c off ld s p = (s1, p1) \<Longrightarrow> phase_rank p \<noteq> 0 \<Longrightarrow> finish c off ld s p = finish c off ld s1 p1"
  by (subst finish.simps) simp

lemma finish_done [simp]: "finish c off ld s (Finished pa) = (s, pa)"
  by (subst finish.simps) simp

lemma touch_slot_spec:
  assumes ok: "cache_ok s xs" and find: "find_slot_locked s c off = Some i"
    and room: "ps_refcount (g_slots s ! i) + 1 < 2 ^ 32"
  shows "\<exists>s'. touch_slot s i = (s', slot_page s i) \<and> cache_ok s' xs \<and> pc_pmem s' = pc_pmem s \<and>
    cache_pages s' = cache_pages s \<and>
    cached s' = (cached s)((c, off) \<mapsto> (slot_page s i, ps_refcount (g_slots s ! i) + 1))"
proof -
  have i: "i \<in> live_slots s" "slot_key s i = (c, off)" using find find_slot_eq [OF ok] by auto
  define x where "x = (g_slots s ! i)\<lparr>ps_refcount := (ps_refcount (g_slots s ! i) + 1) mod 2 ^ 32,
      ps_last_used := pc_clock (tick s)\<rparr>"
  define s' where "s' = (put_slot (tick s) i x)\<lparr>pc_hits := add64 (pc_hits s) 1\<rparr>"
  have run: "touch_slot s i = (s', slot_page s i)"
    by (simp add: touch_slot_def s'_def x_def Let_def)
  have x: "ps_used x" "ps_pa x = slot_page s i" "(ps_cache_id x, ps_offset x) = (c, off)"
      "ps_refcount x = ps_refcount (g_slots s ! i) + 1"
    using i room by (simp_all add: x_def live_slots_def)
  have pm: "pc_pmem s' = pc_pmem s" by (simp add: s'_def put_slot_def tick_def)
  have rw: "slot_rewrite s xs i x s' xs"
    unfolding slot_rewrite_def
  proof (intro conjI impI)
    show "g_slots s' = (g_slots s)[i := x]" by (simp add: s'_def put_slot_def tick_def)
    show "ps_pa x \<notin> slot_page s ` (live_slots s - {i})"
      unfolding x(2) using ok i(1) by (auto simp: cache_ok_def inj_on_def)
    show "(ps_cache_id x, ps_offset x) \<notin> slot_key s ` (live_slots s - {i})"
      unfolding x(3) using ok i by (auto simp: cache_ok_def inj_on_def)
  qed (use ok i(1) x room pm in \<open>auto simp: cache_ok_def\<close>)
  have "slot_page s' j = slot_page s j" if "j < 32" for j
    using put_at [OF rw that] x(2) by simp
  moreover have ls: "live_slots s' = live_slots s" using put_live [OF rw] x(1) i(1) by auto
  ultimately have "cache_pages s' = cache_pages s" by (auto simp: cache_pages_def intro!: image_cong)
  moreover have "cached s' = (cached s)((c, off) \<mapsto> (slot_page s i, ps_refcount (g_slots s ! i) + 1))"
    using put_cached [OF rw] x i by (intro ext) auto
  ultimately show ?thesis using run put_ok [OF rw] pm by blast
qed

text \<open>The words of a page.\<close>

definition page_words :: "page_cache \<Rightarrow> nat \<Rightarrow> nat list" where
  "page_words s p = map (\<lambda>i. mem (pc_pmem s) (p + 8 * i)) [0..<512]"

lemma page_words_cong:
  assumes "page_ok p" "page_ok q" "p \<noteq> q"
    and "\<And>a. \<not> (q \<le> a \<and> a < q + 4096) \<Longrightarrow> mem (pc_pmem s') a = mem (pc_pmem s) a"
  shows "page_words s' p = page_words s p"
proof -
  have "\<not> (q \<le> p + 8 * i \<and> p + 8 * i < q + 4096)" if "i < 512" for i
    using page_offset_unique [of p q "8 * i" "p + 8 * i - q"] assms(1-3) that by (auto simp: page_ok_def)
  then show ?thesis using assms(4) by (auto simp: page_words_def)
qed

lemma pmem_rep_page:
  assumes "pmem_rep m ys" "page_ok pa" "pa \<notin> set ys"
    and "\<And>a. \<not> (pa \<le> a \<and> a < pa + 4096) \<Longrightarrow> w a = mem m a"
  shows "pmem_rep (m\<lparr>mem := w\<rparr>) ys"
proof -
  have "w y = mem m y" if y: "y \<in> set ys" for y
  proof (rule assms(4))
    have "page_ok y" "y \<noteq> pa" using y assms(1,3) by (auto simp: pmem_rep_def)
    then show "\<not> (pa \<le> y \<and> y < pa + 4096)"
      using page_offset_unique [of y pa 0 "y - pa"] assms(2) by (auto simp: page_ok_def)
  qed
  then have "linked w (free_head m) ys = linked (mem m) (free_head m) ys" by (intro linked_cong) simp
  then show ?thesis using assms(1) by (simp add: pmem_rep_def)
qed

lemma zero_page_outside: "\<not> (pa \<le> a \<and> a < pa + 4096) \<Longrightarrow> zero_page m pa a = m a"
  by (auto simp: zero_page_apply)

text \<open>No slot can be taken: all are in use, and each has references or the largest time stamp, which
  the scan passes over.\<close>

definition no_slot :: "page_cache \<Rightarrow> bool" where
  "no_slot s \<longleftrightarrow> (\<forall>x\<in>set (g_slots s). ps_used x \<and> (ps_refcount x \<noteq> 0 \<or> 2 ^ 32 - 1 \<le> ps_last_used x))"

text \<open>What leaves the cache to make room: nothing when a slot is free, otherwise the key without
  references that was used longest ago, whose page goes back to the allocator.\<close>

definition evicted :: "page_cache \<Rightarrow> (nat \<times> nat) set \<Rightarrow> nat list \<Rightarrow> bool" where
  "evicted s gone ps \<longleftrightarrow>
     (if \<exists>x\<in>set (g_slots s). \<not> ps_used x then gone = {} \<and> ps = []
      else \<exists>v\<in>live_slots s. ps_refcount (g_slots s ! v) = 0 \<and>
        (\<forall>i\<in>live_slots s. ps_refcount (g_slots s ! i) = 0 \<longrightarrow>
           ps_last_used (g_slots s ! v) \<le> ps_last_used (g_slots s ! i)) \<and>
        gone = {slot_key s v} \<and> ps = [slot_page s v])"

text \<open>The page of the key, out of the free pages \<open>ps\<close>: the first of them, zeroed and then as the
  loader leaves it; it goes back when the loader fails.\<close>

definition load_result ::
    "(nat \<Rightarrow> nat) \<Rightarrow> loader option \<Rightarrow> nat \<Rightarrow> nat list \<Rightarrow> nat \<Rightarrow> nat list \<Rightarrow> (nat \<Rightarrow> nat) \<Rightarrow> bool" where
  "load_result m ld off ps pa ys m' \<longleftrightarrow>
     (case ps of
        [] \<Rightarrow> pa = 0 \<and> ys = []
      | q # qs \<Rightarrow> \<exists>w. (\<forall>i<512. w (q + 8 * i) = 0) \<and> (\<forall>a. \<not> (q \<le> a \<and> a < q + 4096) \<longrightarrow> w a = m a) \<and>
          (case ld of
             None \<Rightarrow> pa = q \<and> ys = qs \<and> m' = w
           | Some f \<Rightarrow> if snd (f q off w) = 0 then pa = q \<and> ys = qs \<and> m' = fst (f q off w)
                      else pa = 0 \<and> ys = ps))"

text \<open>What a miss does.  When no slot can be taken, nothing.  Otherwise the key is cached with one
  reference to its page, or not at all when there is no page or the loader fails; the other keys
  keep their page, its words and their references, except for the one evicted; and no page is
  lost.\<close>

definition miss_ok ::
    "page_cache \<Rightarrow> nat list \<Rightarrow> nat \<times> nat \<Rightarrow> loader option \<Rightarrow> page_cache \<Rightarrow> nat \<Rightarrow> nat list \<Rightarrow> bool" where
  "miss_ok s xs k ld s' pa ys \<longleftrightarrow>
     cache_ok s' ys \<and> set ys \<union> cache_pages s' = set xs \<union> cache_pages s \<and>
     (if no_slot s then s' = s \<and> pa = 0
      else \<exists>gone ps. evicted s gone ps \<and> load_result (mem (pc_pmem s)) ld (snd k) (ps @ xs) pa ys (mem (pc_pmem s')) \<and>
        cached s' k = (if pa = 0 then None else Some (pa, 1)) \<and>
        (\<forall>k'. k' \<noteq> k \<longrightarrow> cached s' k' = (if k' \<in> gone then None else cached s k')) \<and>
        (\<forall>k' p r. k' \<noteq> k \<longrightarrow> cached s' k' = Some (p, r) \<longrightarrow> page_words s' p = page_words s p))"

lemma victim_evicted:
  assumes ok: "cache_ok s xs" and pick: "pick_victim_locked s = Some v"
  shows "\<not> no_slot s"
    and "evicted s (if v \<in> live_slots s then {slot_key s v} else {}) (if v \<in> live_slots s then [slot_page s v] else [])"
proof -
  have len: "length (g_slots s) = 32" using ok by (simp add: cache_ok_def)
  note r = victim_scan_result [where free = "\<lambda>x. \<not> ps_used x" and pinned = "\<lambda>x. ps_refcount x \<noteq> 0"
      and stamp = ps_last_used and bound = "2 ^ 32 - 1" and ss = "g_slots s"]
  have "\<not> no_slot s \<and>
    evicted s (if v \<in> live_slots s then {slot_key s v} else {}) (if v \<in> live_slots s then [slot_page s v] else [])"
  proof (cases "first_index (\<lambda>x. \<not> ps_used x) (g_slots s)")
    case (Some w)
    then have "w = v" using r pick by (simp add: pick_victim_locked_def)
    then have f: "g_slots s ! v \<in> set (g_slots s)" "\<not> ps_used (g_slots s ! v)"
      using first_indexD(1,2) [OF Some] by simp_all
    then have "v \<notin> live_slots s" by (simp add: live_slots_def)
    then show ?thesis using f by (auto simp: no_slot_def evicted_def)
  next
    case None
    then have used: "\<forall>x\<in>set (g_slots s). ps_used x" by (simp add: first_index_None)
    have "oldest_in (\<lambda>x. ps_refcount x \<noteq> 0) ps_last_used (2 ^ 32 - 1) (g_slots s) (Some v)"
      using r pick None by (simp add: pick_victim_locked_def)
    then have o: "g_slots s ! v \<in> set (g_slots s)" "ps_refcount (g_slots s ! v) = 0"
        "ps_last_used (g_slots s ! v) < 2 ^ 32 - 1" and lt: "v < 32"
      using len by (simp_all add: oldest_in_def)
    have v: "v \<in> live_slots s" using used o(1) lt by (simp add: live_slots_def)
    have "\<not> no_slot s" using o by (auto simp: no_slot_def not_le)
    then show ?thesis
      using used v pick_victim_spec(2) [OF ok pick] by (auto simp: evicted_def live_slots_def)
  qed
  then show "\<not> no_slot s"
    "evicted s (if v \<in> live_slots s then {slot_key s v} else {}) (if v \<in> live_slots s then [slot_page s v] else [])"
    by blast+
qed

lemma no_victim_no_slot:
  assumes "pick_victim_locked s = None"
  shows "no_slot s"
proof -
  note r = victim_scan_result [where free = "\<lambda>x. \<not> ps_used x" and pinned = "\<lambda>x. ps_refcount x \<noteq> 0"
      and stamp = ps_last_used and bound = "2 ^ 32 - 1" and ss = "g_slots s"]
  have f: "first_index (\<lambda>x. \<not> ps_used x) (g_slots s) = None"
    using r assms by (auto simp: pick_victim_locked_def split: option.splits)
  have "oldest_in (\<lambda>x. ps_refcount x \<noteq> 0) ps_last_used (2 ^ 32 - 1) (g_slots s) None"
    using r f assms by (simp add: pick_victim_locked_def)
  then show ?thesis using f by (auto simp: first_index_None oldest_in_def no_slot_def)
qed

lemma miss_finish:
  assumes ok: "cache_ok s xs" and v: "v < 32" "v \<in> live_slots s \<longrightarrow> ps_refcount (g_slots s ! v) = 0"
    and miss: "k \<notin> slot_key s ` live_slots s"
    and slots: "g_slots s' = (g_slots s)[v := x]" and rep: "pmem_rep (pc_pmem s') ys"
    and pages: "set xs \<union> cache_pages s = (if ps_used x then insert (ps_pa x) (set ys) else set ys) \<union>
       slot_page s ` (live_slots s - {v})"
    and own: "ps_used x \<Longrightarrow> pa = ps_pa x \<and> page_ok pa \<and> pa \<notin> set ys \<and> pa \<notin> slot_page s ` (live_slots s - {v}) \<and>
       (ps_cache_id x, ps_offset x) = k \<and> ps_refcount x = 1"
    and none: "\<not> ps_used x \<Longrightarrow> pa = 0"
    and others: "\<And>j. j \<in> live_slots s - {v} \<Longrightarrow> slot_page s j \<notin> set ys"
    and words: "\<And>j. j \<in> live_slots s - {v} \<Longrightarrow> page_words s' (slot_page s j) = page_words s (slot_page s j)"
    and slot: "\<not> no_slot s"
    and ev: "evicted s (if v \<in> live_slots s then {slot_key s v} else {}) (if v \<in> live_slots s then [slot_page s v] else [])"
    and loaded: "load_result (mem (pc_pmem s)) ld (snd k) (if v \<in> live_slots s then slot_page s v # xs else xs)
      pa ys (mem (pc_pmem s'))"
  shows "miss_ok s xs k ld s' pa ys"
proof -
  have rw: "slot_rewrite s xs v x s' ys"
    unfolding slot_rewrite_def using ok v(1) slots rep own others miss by auto
  have lost: "cached s' k' = (if v \<in> live_slots s \<and> slot_key s v = k' then None else cached s k')"
    if "k' \<noteq> k" for k'
    using put_cached [OF rw, of k'] own that by auto
  have keep: "page_words s' p = page_words s p" if "k' \<noteq> k" "cached s' k' = Some (p, r)" for k' p r
  proof -
    have n: "\<not> (v \<in> live_slots s \<and> slot_key s v = k')" using lost [OF that(1)] that(2) by (metis option.distinct(1))
    then have "cached s k' = Some (p, r)" using lost [OF that(1)] that(2) by (metis (no_types, lifting))
    then obtain j where "j \<in> live_slots s" "slot_key s j = k'" "slot_page s j = p"
      using cached_eq [OF ok] by blast
    then show ?thesis using words [of j] n by auto
  qed
  have new: "cached s' k = (if pa = 0 then None else Some (pa, 1))"
  proof (cases "ps_used x")
    case True
    then have "pa \<noteq> 0" using own by (auto simp: page_ok_def)
    then show ?thesis using put_cached [OF rw, of k] own [OF True] True by simp
  next
    case False
    have "cached s k = None" using miss unfolding cached_None [OF ok] .
    then show ?thesis using put_cached [OF rw, of k] False none by simp
  qed
  have all: "set ys \<union> cache_pages s' = set xs \<union> cache_pages s"
  proof -
    have "slot_page s' ` (live_slots s - {v}) = slot_page s ` (live_slots s - {v})"
      using put_rest [OF rw] by (auto intro!: image_cong)
    moreover have "slot_page s' v = ps_pa x" using put_at [OF rw v(1)] by simp
    ultimately have "cache_pages s' = (if ps_used x then {ps_pa x} else {}) \<union> slot_page s ` (live_slots s - {v})"
      unfolding cache_pages_def put_live [OF rw] by (auto simp only: image_insert split: if_splits)
    then show ?thesis unfolding pages by auto
  qed
  let ?gone = "if v \<in> live_slots s then {slot_key s v} else {}"
    and ?ps = "if v \<in> live_slots s then [slot_page s v] else []"
  have ps: "?ps @ xs = (if v \<in> live_slots s then slot_page s v # xs else xs)" by simp
  have others: "\<forall>k'. k' \<noteq> k \<longrightarrow> cached s' k' = (if k' \<in> ?gone then None else cached s k')"
    using lost by auto
  show ?thesis
    unfolding miss_ok_def if_not_P [OF slot]
    using put_ok [OF rw] all ev loaded [folded ps] new others keep by blast
qed

lemma page_aligned_word: "page_ok pa \<Longrightarrow> i < 512 \<Longrightarrow> zero_page m pa (pa + 8 * i) = 0"
  by (auto simp: zero_page_apply)

text \<open>From the reserved slot \<open>v\<close> on: \<open>t\<close> is the state in which the lock has been given up.\<close>

lemma load_phase:
  assumes ok: "cache_ok s xs" and v: "v < 32" "v \<in> live_slots s \<longrightarrow> ps_refcount (g_slots s ! v) = 0"
    and miss: "(c, off) \<notin> slot_key s ` live_slots s" and ld: "loader_local ld"
    and slots: "g_slots t = (g_slots s)[v := x]"
    and x: "ps_used x" "(ps_cache_id x, ps_offset x) = (c, off)" "ps_refcount x = 1"
    and xs1: "xs1 = (if v \<in> live_slots s then slot_page s v # xs else xs)" and rep: "pmem_rep (pc_pmem t) xs1"
    and words: "\<And>j. j \<in> live_slots s - {v} \<Longrightarrow> page_words t (slot_page s j) = page_words s (slot_page s j)"
    and memt: "\<And>q qs a. xs1 = q # qs \<Longrightarrow> \<not> (q \<le> a \<and> a < q + 4096) \<Longrightarrow> mem (pc_pmem t) a = mem (pc_pmem s) a"
    and slot: "\<not> no_slot s"
    and ev: "evicted s (if v \<in> live_slots s then {slot_key s v} else {}) (if v \<in> live_slots s then [slot_page s v] else [])"
  shows "\<exists>s' pa ys. finish c off ld t (Loading v) = (s', pa) \<and> miss_ok s xs (c, off) ld s' pa ys"
proof -
  have inj: "inj_on (slot_page s) (live_slots s)" using ok by (simp add: cache_ok_def)
  have pk: "page_ok (slot_page s j) \<and> slot_page s j \<notin> set xs1" if "j \<in> live_slots s - {v}" for j
    using ok that inj by (auto simp: xs1 cache_ok_def inj_on_def)
  have all: "set xs \<union> cache_pages s = set xs1 \<union> slot_page s ` (live_slots s - {v})"
    by (auto simp: cache_pages_def xs1)
  have vl: "v < length (g_slots s)" using v ok by (simp add: cache_ok_def)
  have undo: "\<exists>s'. finish c off ld u (Undo v) = (s', 0) \<and> miss_ok s xs (c, off) ld s' 0 xs1"
    if u: "g_slots u = (g_slots s)[v := x]" "pmem_rep (pc_pmem u) xs1"
      "\<And>j. j \<in> live_slots s - {v} \<Longrightarrow> page_words u (slot_page s j) = page_words s (slot_page s j)"
      "\<And>m'. load_result (mem (pc_pmem s)) ld off xs1 0 xs1 m'" for u
  proof -
    let ?u = "put_slot u v (x\<lparr>ps_used := False, ps_refcount := 0\<rparr>)"
    have "finish c off ld u (Undo v) = finish c off ld ?u (Finished 0)"
      by (rule finish_step) (use u vl in \<open>simp_all add: gl_step_def\<close>)
    moreover have "miss_ok s xs (c, off) ld ?u 0 xs1"
    proof (rule miss_finish [OF ok v miss])
      show "g_slots ?u = (g_slots s)[v := x\<lparr>ps_used := False, ps_refcount := 0\<rparr>]"
        by (simp add: put_slot_def u)
      show "page_words ?u (slot_page s j) = page_words s (slot_page s j)" if "j \<in> live_slots s - {v}" for j
        using u(3) [OF that] by (simp add: page_words_def put_slot_def)
      show "load_result (mem (pc_pmem s)) ld (snd (c, off)) (if v \<in> live_slots s then slot_page s v # xs else xs)
          0 xs1 (mem (pc_pmem ?u))"
        using u(4) by (simp add: xs1)
    qed (use pk all u slot ev in \<open>auto simp: put_slot_def\<close>)
    ultimately show ?thesis by simp
  qed
  show ?thesis
  proof (cases xs1)
    case Nil
    let ?t = "t\<lparr>pc_pmem := pc_pmem t\<rparr>"
    have "finish c off ld t (Loading v) = finish c off ld ?t (Undo v)"
      by (rule finish_step) (use alloc_empty rep Nil in \<open>simp_all add: gl_step_def\<close>)
    moreover have "load_result (mem (pc_pmem s)) ld off xs1 0 xs1 m'" for m' by (simp add: load_result_def Nil)
    ultimately show ?thesis using undo [of ?t] slots rep words by auto
  next
    case (Cons pa ys)
    obtain m where m: "pmem_alloc_page (pc_pmem t) = (m, pa)" "pmem_rep m ys" "pa \<noteq> 0" "page_ok pa"
      "mem m = zero_page (mem (pc_pmem t)) pa"
      using alloc_nonempty [of "pc_pmem t" pa ys] rep Cons by metis
    have fresh: "pa \<notin> set ys" "\<And>j. j \<in> live_slots s - {v} \<Longrightarrow> slot_page s j \<noteq> pa \<and> slot_page s j \<notin> set ys"
      using rep Cons pk by (auto simp: pmem_rep_def)
    let ?t = "t\<lparr>pc_pmem := m\<rparr>"
    have s1: "finish c off ld t (Loading v) = finish c off ld ?t (Filling v pa)"
      by (rule finish_step) (use m in \<open>simp_all add: gl_step_def\<close>)
    have keep: "page_words u (slot_page s j) = page_words s (slot_page s j)"
      if "\<And>a. \<not> (pa \<le> a \<and> a < pa + 4096) \<Longrightarrow> mem (pc_pmem u) a = mem (pc_pmem t) a"
        "j \<in> live_slots s - {v}" for u j
      using page_words_cong [of "slot_page s j" pa u t] pk [OF that(2)] m(4) fresh(2) [OF that(2)] that words
      by simp
    have install: "\<exists>s'. finish c off ld u (Install v pa) = (s', pa) \<and> miss_ok s xs (c, off) ld s' pa ys"
      if u: "g_slots u = (g_slots s)[v := x]" "pmem_rep (pc_pmem u) ys"
        "\<And>a. \<not> (pa \<le> a \<and> a < pa + 4096) \<Longrightarrow> mem (pc_pmem u) a = mem (pc_pmem t) a"
        "load_result (mem (pc_pmem s)) ld off xs1 pa ys (mem (pc_pmem u))" for u
    proof -
      let ?u = "put_slot u v (x\<lparr>ps_pa := pa\<rparr>)"
      have "finish c off ld u (Install v pa) = finish c off ld ?u (Finished pa)"
        by (rule finish_step) (use u vl in \<open>simp_all add: gl_step_def\<close>)
      moreover have "miss_ok s xs (c, off) ld ?u pa ys"
      proof (rule miss_finish [OF ok v miss])
        show "g_slots ?u = (g_slots s)[v := x\<lparr>ps_pa := pa\<rparr>]" by (simp add: put_slot_def u)
        show "page_words ?u (slot_page s j) = page_words s (slot_page s j)" if "j \<in> live_slots s - {v}" for j
          using keep [OF u(3) that] by (simp add: page_words_def put_slot_def)
        show "load_result (mem (pc_pmem s)) ld (snd (c, off)) (if v \<in> live_slots s then slot_page s v # xs else xs)
            pa ys (mem (pc_pmem ?u))"
          using u(4) by (simp add: xs1 put_slot_def)
      qed (use fresh all u x m(4) Cons slot ev in \<open>auto simp: put_slot_def\<close>)
      ultimately show ?thesis by simp
    qed
    have zero: "\<forall>i<512. mem m (pa + 8 * i) = 0" by (simp add: m(5) zero_page_apply)
    have out: "\<not> (pa \<le> a \<and> a < pa + 4096) \<Longrightarrow> mem m a = mem (pc_pmem t) a" for a
      by (simp add: m(5) zero_page_outside)
    have out_s: "\<forall>a. \<not> (pa \<le> a \<and> a < pa + 4096) \<longrightarrow> mem m a = mem (pc_pmem s) a"
      using out memt [OF Cons] by simp
    show ?thesis
    proof (cases ld)
      case None
      have "finish c off ld ?t (Filling v pa) = finish c off ld ?t (Install v pa)"
        by (rule finish_step) (simp_all add: gl_step_def None)
      moreover have "load_result (mem (pc_pmem s)) ld off xs1 pa ys (mem m)"
        using zero out_s by (auto simp: load_result_def Cons None)
      ultimately show ?thesis using install [of ?t] slots m(2) out s1 by auto
    next
      case (Some f)
      obtain w r where w: "f pa off (mem m) = (w, r)" by (cases "f pa off (mem m)")
      have loc: "\<not> (pa \<le> a \<and> a < pa + 4096) \<Longrightarrow> w a = mem m a" for a
        using ld Some w unfolding loader_local_def by (metis fst_conv)
      let ?w = "t\<lparr>pc_pmem := m\<lparr>mem := w\<rparr>\<rparr>"
      have rw: "pmem_rep (m\<lparr>mem := w\<rparr>) ys" by (rule pmem_rep_page [OF m(2,4) fresh(1) loc])
      show ?thesis
      proof (cases "r = 0")
        case True
        have "finish c off ld ?t (Filling v pa) = finish c off ld ?w (Install v pa)"
          by (rule finish_step) (use w True in \<open>simp_all add: gl_step_def Some\<close>)
        moreover have "load_result (mem (pc_pmem s)) ld off xs1 pa ys w"
          using zero out_s w True unfolding load_result_def Cons Some list.case option.case
          by (intro exI [of _ "mem m"]) simp
        ultimately show ?thesis using install [of ?w] slots rw loc out s1 by auto
      next
        case False
        have "finish c off ld ?t (Filling v pa) = finish c off ld ?w (Dropping v pa)"
          by (rule finish_step) (use w False in \<open>simp_all add: gl_step_def Some\<close>)
        also have "\<dots> = finish c off ld (?w\<lparr>pc_pmem := pmem_free_page (m\<lparr>mem := w\<rparr>) pa\<rparr>) (Undo v)"
          by (rule finish_step) (simp_all add: gl_step_def)
        finally have f: "finish c off ld t (Loading v) = \<dots>" using s1 by simp
        have fr: "pmem_free_page (m\<lparr>mem := w\<rparr>) pa = push_free (m\<lparr>mem := w\<rparr>) pa"
          using m(4) by (auto simp: pmem_free_page_def page_ok_def)
        have "pmem_rep (push_free (m\<lparr>mem := w\<rparr>) pa) xs1"
          unfolding Cons by (rule push_free_rep [OF rw m(4) fresh(1)])
        moreover let ?d = "?w\<lparr>pc_pmem := pmem_free_page (m\<lparr>mem := w\<rparr>) pa\<rparr>"
        have "page_words ?d (slot_page s j) = page_words s (slot_page s j)" if "j \<in> live_slots s - {v}" for j
          by (rule keep [OF _ that]) (use loc out in \<open>auto simp: fr push_free_def\<close>)
        moreover have "load_result (mem (pc_pmem s)) ld off xs1 0 xs1 m'" for m'
          using zero out_s w False unfolding load_result_def Cons Some list.case option.case
          by (intro exI [of _ "mem m"]) simp
        moreover have "pc_pmem ?d = push_free (m\<lparr>mem := w\<rparr>) pa" "g_slots ?d = (g_slots s)[v := x]"
          using fr slots by simp_all
        ultimately have "\<exists>s'. finish c off ld ?d (Undo v) = (s', 0) \<and> miss_ok s xs (c, off) ld s' 0 xs1"
          by (intro undo) simp_all
        then show ?thesis using f by auto
      qed
    qed
  qed
qed

lemma evict_words:
  assumes "page_ok q" "page_ok p" "p \<noteq> q"
  shows "page_words (s\<lparr>pc_pmem := pmem_free_page (pc_pmem s) q\<rparr>) p = page_words s p"
  using assms by (intro page_words_cong [of p q]) (auto simp: pmem_free_page_def push_free_def)


section \<open>Several processors\<close>

text \<open> C30. The lookup gives up the lock to free the page of its victim and only afterwards takes the
  slot away from it.  A processor that looks up the victim's key in between hits: it counts a
  reference and is given a page that is on the free list of the allocator, which hands it out
  again at the next allocation.\<close>

theorem page_cache_eviction_race:
  assumes ok: "cache_ok s xs" and off: "off mod 4096 = 0"
    and miss: "cached s (c, off) = None" and v: "pick_victim_locked s = Some v" "v \<in> live_slots s"
    and vic: "snd (slot_key s v) mod 4096 = 0"
    and calls: "cs ! 0 = (c, off, ld, Entry)" "cs ! 1 = (fst (slot_key s v), snd (slot_key s v), ld2, Entry)"
      "length cs = 2"
  shows "\<exists>s' cs' m. cstep\<^sup>*\<^sup>* (s, cs) (s', cs') \<and>
    cs' ! 1 = (fst (slot_key s v), snd (slot_key s v), ld2, Finished (slot_page s v)) \<and>
    cached s' (slot_key s v) = Some (slot_page s v, 1) \<and> pmem_rep (pc_pmem s') (slot_page s v # xs) \<and>
    pmem_alloc_page (pc_pmem s') = (m, slot_page s v)"
proof -
  define q where "q = slot_page s v"
  obtain c2 off2 where k: "slot_key s v = (c2, off2)" by blast
  have none: "find_slot_locked s c off = None" using miss by (simp add: cached_def)
  have vu: "ps_used (g_slots s ! v)" using v(2) by (simp add: live_slots_def)
  have r0: "ps_refcount (g_slots s ! v) = 0" using pick_victim_spec(2) [OF ok v(1) vu] by simp
  have pq: "page_ok q" "q \<notin> set xs" using ok v(2) by (auto simp: q_def cache_ok_def)
  define e where "e = s\<lparr>pc_pmem := push_free (pc_pmem s) q\<rparr>"
  have fr: "pmem_free_page (pc_pmem s) q = push_free (pc_pmem s) q"
    using pq by (auto simp: pmem_free_page_def page_ok_def)
  have rep: "pmem_rep (pc_pmem e) (q # xs)"
    using push_free_rep [of "pc_pmem s" xs q] pq ok by (simp add: e_def cache_ok_def)
  let ?cs1 = "cs[0 := (c, off, ld, Evicting q)]" and ?cs2 = "cs[0 := (c, off, ld, Relock)]"
  have "gl_step c off ld s Entry = (s, Evicting q)"
    using none v(1) vu off by (simp add: gl_step_def q_def)
  then have step1: "cstep (s, cs) (s, ?cs1)"
    using advance [of 0 cs c off ld Entry s s "Evicting q"] calls by simp
  have "gl_step c off ld s (Evicting q) = (e, Relock)" by (simp add: gl_step_def e_def fr)
  then have step2: "cstep (s, ?cs1) (e, ?cs2)"
    using advance [of 0 ?cs1 c off ld "Evicting q" s e Relock] calls(3) by simp
  have hit: "find_slot_locked e c2 off2 = Some v"
  proof -
    have "find_slot_locked s c2 off2 = Some v" using find_slot_eq [OF ok] v(2) k by simp
    then show ?thesis by (simp add: find_slot_locked_def e_def)
  qed
  obtain s' where t: "touch_slot e v = (s', q)" "pc_pmem s' = pc_pmem e"
    "g_slots s' = (g_slots s)[v := (g_slots s ! v)\<lparr>ps_refcount := 1, ps_last_used := pc_clock (tick e)\<rparr>]"
    using r0 by (auto simp: touch_slot_def e_def put_slot_def tick_def q_def Let_def)
  have "gl_step c2 off2 ld2 e Entry = (s', Finished q)"
    using hit t(1) vic k by (simp add: gl_step_def)
  then have step3: "cstep (e, ?cs2) (s', ?cs2[1 := (c2, off2, ld2, Finished q)])"
    using advance [of 1 ?cs2 c2 off2 ld2 Entry e s' "Finished q"] calls k by simp
  have "find_slot_locked s' c2 off2 = Some v"
  proof -
    have "v < length (g_slots s)" using v(2) ok by (auto simp: cache_ok_def)
    then have "find_slot_locked s' c2 off2 = find_slot_locked e c2 off2"
      unfolding find_slot_locked_def t(3)
      by (intro first_index_cong) (auto simp: e_def nth_list_update)
    then show ?thesis using hit by simp
  qed
  moreover have "length (g_slots s) = 32" "v < 32" using ok v(2) by (auto simp: cache_ok_def)
  ultimately have c: "cached s' (c2, off2) = Some (q, 1)"
    by (simp add: cached_def t(3) q_def)
  obtain m where "pmem_alloc_page (pc_pmem s') = (m, q)"
    using alloc_nonempty [OF rep] t(2) by metis
  moreover have "cstep\<^sup>*\<^sup>* (s, cs) (s', ?cs2[1 := (c2, off2, ld2, Finished q)])"
    using step1 step2 step3 by (meson converse_rtranclp_into_rtranclp rtranclp.rtrancl_refl)
  ultimately show ?thesis
    using c rep t(2) calls(3) k
    by (intro exI [of _ s'] exI [of _ "?cs2[1 := (c2, off2, ld2, Finished q)]"] exI [of _ m])
      (simp flip: q_def)
qed

text \<open>A slot being filled is already visible with page 0: a second lookup of its key returns 0, the
  value of a failure, and leaves a reference behind that nobody will release.\<close>

lemma loading_slot_hit:
  assumes "find_slot_locked s c off = Some v" "ps_pa (g_slots s ! v) = 0" "off mod 4096 = 0"
  shows "\<exists>s'. gl_step c off ld s Entry = (s', Finished 0) \<and>
    g_slots s' = (g_slots s)[v := (g_slots s ! v)\<lparr>ps_refcount := (ps_refcount (g_slots s ! v) + 1) mod 2 ^ 32,
      ps_last_used := pc_clock (tick s)\<rparr>]"
  using assms by (simp add: gl_step_def touch_slot_def put_slot_def tick_def Let_def)

section \<open>Instances\<close>

definition example_cache :: page_cache where
  "example_cache = page_cache_init \<lparr>g_slots = [], pc_clock = 0, pc_inited = False, pc_hits = 0,
     pc_misses = 0, pc_evicts = 0,
     pc_pmem = \<lparr>free_head = 8192, total_pages = 1, free_pages = 1, mem = (\<lambda>_. 0)\<rparr>\<rparr>"

lemma example_cache_ok: "cache_ok example_cache [8192]" "cached example_cache k = None"
proof -
  have l: "live_slots example_cache = {}" by (auto simp: live_slots_def example_cache_def page_cache_init_def)
  show "cache_ok example_cache [8192]"
    unfolding cache_ok_def l by (simp add: example_cache_def page_cache_init_def pmem_rep_def page_ok_def)
  then show "cached example_cache k = None" using cached_None l by blast
qed


definition full_cache :: page_cache where
  "full_cache = \<lparr>g_slots = map (\<lambda>i. \<lparr>ps_used = True, ps_cache_id = 1, ps_offset = 4096 * i,
       ps_pa = 4096 * (i + 1), ps_refcount = 0, ps_last_used = i + 1\<rparr>) [0..<32],
     pc_clock = 40, pc_inited = True, pc_hits = 0, pc_misses = 32, pc_evicts = 0,
     pc_pmem = \<lparr>free_head = 0, total_pages = 32, free_pages = 0, mem = (\<lambda>_. 0)\<rparr>\<rparr>"

lemma full_cache_ok: "cache_ok full_cache []" "live_slots full_cache = {..<32}"
proof -
  show l: "live_slots full_cache = {..<32}" by (auto simp: live_slots_def full_cache_def)
  show "cache_ok full_cache []"
    unfolding cache_ok_def l
    by (auto simp: full_cache_def inj_on_def pmem_rep_def page_ok_def)
qed

lemma page_cache_eviction_race_witness:
  "\<exists>s' cs' m. cstep\<^sup>*\<^sup>* (full_cache, [(2, 0, None, Entry), (1, 0, None, Entry)]) (s', cs') \<and>
     cs' ! 1 = (1, 0, None, Finished 4096) \<and> cached s' (1, 0) = Some (4096, 1) \<and>
     pmem_rep (pc_pmem s') [4096] \<and> pmem_alloc_page (pc_pmem s') = (m, 4096)"
proof -
  have "(2, 0) \<notin> slot_key full_cache ` live_slots full_cache"
    by (auto simp: full_cache_ok(2)) (simp add: full_cache_def)
  then have miss: "cached full_cache (2, 0) = None" using cached_None [OF full_cache_ok(1)] by blast
  have v: "pick_victim_locked full_cache = Some 0" 
    by (simp add: pick_victim_locked_def full_cache_def upt_rec)
  have s0: "slot_page full_cache 0 = 4096" "slot_key full_cache 0 = (1, 0)" by (simp_all add: full_cache_def)
  show ?thesis
    using page_cache_eviction_race [OF full_cache_ok(1) _ miss v, of
        "[(2, 0, None, Entry), (1, 0, None, Entry)]" None None] s0 full_cache_ok(2) by simp
qed

end
