(* ===== verification/Csprng.thy ===== *)
theory Csprng
  imports Prelude
begin

text \<open>
  The random number generator of the kernel: \<open>kernel/core/random.c\<close>.

  The ChaCha20 block function is the code's, word by word.  The seeds come from outside: the
  virtio-rng driver (\<open>virtio_rng_present\<close>, \<open>virtio_rng_get\<close>) and, for the fallback, the cycle
  counter, three addresses and the tick count.  They are given to the operations as a \<open>source\<close>,
  which says what the driver answers to the \<open>n\<close>-th request and what the \<open>n\<close>-th fallback seed is
  made of; \<open>rq\<close> and \<open>fb\<close> count the requests made so far.
\<close>

section \<open>ChaCha20\<close>

definition rotl32 :: "u32 \<Rightarrow> nat \<Rightarrow> u32" where
  "rotl32 v n = push_bit n v OR drop_bit (32 - n) v"

definition quarter :: "u32 \<Rightarrow> u32 \<Rightarrow> u32 \<Rightarrow> u32 \<Rightarrow> u32 \<times> u32 \<times> u32 \<times> u32" where
  "quarter a b c d =
     (let a = a + b; d = d XOR a; d = rotl32 d 16;
          c = c + d; b = b XOR c; b = rotl32 b 12;
          a = a + b; d = d XOR a; d = rotl32 d 8;
          c = c + d; b = b XOR c; b = rotl32 b 7
      in (a, b, c, d))"

definition QR :: "nat \<Rightarrow> nat \<Rightarrow> nat \<Rightarrow> nat \<Rightarrow> u32 list \<Rightarrow> u32 list" where
  "QR i j k l x =
     (let (a, b, c, d) = quarter (x ! i) (x ! j) (x ! k) (x ! l) in x[i := a, j := b, k := c, l := d])"

definition double_round :: "u32 list \<Rightarrow> u32 list" where
  "double_round x =
     QR 3 4 9 14 (QR 2 7 8 13 (QR 1 6 11 12 (QR 0 5 10 15
       (QR 3 7 11 15 (QR 2 6 10 14 (QR 1 5 9 13 (QR 0 4 8 12 x)))))))"

fun rounds :: "nat \<Rightarrow> u32 list \<Rightarrow> u32 list" where
  "rounds 0 x = x"
| "rounds (Suc n) x = rounds n (double_round x)"

definition chacha20_input :: "u32 list \<Rightarrow> u32 list \<Rightarrow> u32 \<Rightarrow> u32 list" where
  "chacha20_input key nonce counter =
     [0x61707865, 0x3320646e, 0x79622d32, 0x6b206574] @ key @ [counter] @ nonce"

definition chacha20_block :: "u32 list \<Rightarrow> u32 list \<Rightarrow> u32 \<Rightarrow> byte list" where
  "chacha20_block key nonce counter =
     (let s = chacha20_input key nonce counter
      in concat (map le32_bytes (map2 (+) (rounds 10 s) s)))"

section \<open>The generator\<close>

record rng =
  g_ready :: bool
  g_strong :: bool
  g_key :: "u32 list"
  g_nonce :: "u32 list"
  g_counter :: u32
  g_since_reseed :: u32
  rq :: nat
  fb :: nat

record source =
  virtio_rng_present :: bool
  virtio_rng_get :: "nat \<Rightarrow> int \<times> byte list"
  ambient :: "nat \<Rightarrow> u64 \<times> u64 \<times> u64 \<times> u64 \<times> u64"

abbreviation (input) RESEED_BYTES :: u32 where "RESEED_BYTES \<equiv> 262144"

fun seed_words :: "byte list \<Rightarrow> u32 list" where
  "seed_words (b0 # b1 # b2 # b3 # bs) = le32_of b0 b1 b2 b3 # seed_words bs"
| "seed_words _ = []"

definition mix_into_key_locked :: "rng \<Rightarrow> byte list \<Rightarrow> rng" where
  "mix_into_key_locked s seed =
     s\<lparr>g_key := map2 (XOR) (g_key s) (seed_words seed), g_counter := 0, g_since_reseed := 0\<rparr>"

definition le_bytes :: "nat \<Rightarrow> u64 \<Rightarrow> byte list" where
  "le_bytes n w = map (\<lambda>i. ucast (drop_bit (8 * i) w)) [0..<n]"

definition fallback_seed :: "source \<Rightarrow> rng \<Rightarrow> rng \<times> byte list" where
  "fallback_seed src s =
     (let (t, a, b, c, d) = ambient src (fb s)
      in (s\<lparr>fb := fb s + 1\<rparr>, le_bytes 8 t @ le_bytes 8 a @ le_bytes 8 b @ le_bytes 4 c @ le_bytes 4 d))"

definition fetch_seed :: "source \<Rightarrow> rng \<Rightarrow> rng \<times> byte list" where
  "fetch_seed src s =
     (if virtio_rng_present src then
        let (n, bytes) = virtio_rng_get src (rq s); s1 = s\<lparr>rq := rq s + 1\<rparr>
        in if n = 32 then (s1, bytes) else fallback_seed src s1
      else fallback_seed src s)"

definition random_init :: "source \<Rightarrow> rng \<Rightarrow> rng" where
  "random_init src s =
     (if g_ready s then s
      else let (s1, seed) = fetch_seed src (s\<lparr>g_strong := virtio_rng_present src\<rparr>)
           in (mix_into_key_locked (s1\<lparr>g_key := replicate 8 0\<rparr>) seed)\<lparr>g_ready := True\<rparr>)"

definition random_is_strong :: "rng \<Rightarrow> bool" where
  "random_is_strong s = g_strong s"

definition reseed :: "source \<Rightarrow> rng \<Rightarrow> rng" where
  "reseed src s =
     (if g_since_reseed s \<ge> RESEED_BYTES
      then let (s1, seed) = fetch_seed src s in mix_into_key_locked s1 seed else s)"

definition next_block :: "rng \<Rightarrow> rng \<times> byte list" where
  "next_block s =
     (s\<lparr>g_counter := g_counter s + 1, g_since_reseed := g_since_reseed s + 64\<rparr>,
      chacha20_block (g_key s) (g_nonce s) (g_counter s))"

text \<open>The loop, with \<open>len\<close> bytes still to come.\<close>

function bytes_loop :: "source \<Rightarrow> rng \<Rightarrow> nat \<Rightarrow> rng \<times> byte list" where
  "bytes_loop src s len =
     (if len = 0 then (s, [])
      else let (s1, blk) = next_block (reseed src s);
               tk = (if len > 64 then 64 else len);
               (s2, rest) = bytes_loop src s1 (len - tk)
           in (s2, take tk blk @ rest))"
  by pat_completeness auto
termination
  by (relation "measure (\<lambda>(src, s, len). len)") auto

declare bytes_loop.simps [simp del]

definition random_bytes :: "source \<Rightarrow> rng \<Rightarrow> bool \<Rightarrow> nat \<Rightarrow> rng \<times> int \<times> byte list" where
  "random_bytes src s out_null len =
     (if \<not> g_ready s then (s, -1, [])
      else if out_null \<and> len \<noteq> 0 then (s, -1, [])
      else if len = 0 then (s, 0, [])
      else let (s1, bs) = bytes_loop src s len in (s1, int (length bs), bs))"

section \<open>The block function of RFC 7539\<close>

text \<open>
  The block function as the RFC has it, on the bytes of the key and of the nonce, with nothing taken
  from the code.  A quarter round is four lines \<open>x += y; z ^= x; z <<<= n\<close> (section 2.1).  The state
  is a matrix of four rows: the constants \<open>expand 32-byte k\<close>, the key in two rows, the counter and
  the nonce, all read as little-endian words (2.3).  A column round applies the quarter round to
  each column, a diagonal round to each diagonal, which is a column round between a rotation of the
  rows and its inverse.
\<close>

type_synonym matrix = "u32 list list"

definition rfc_line :: "nat \<Rightarrow> u32 \<Rightarrow> u32 \<Rightarrow> u32 \<Rightarrow> u32 \<times> u32" where
  "rfc_line n x y z = (x + y, word_rotl n (z XOR (x + y)))"

definition rfc_quarter :: "u32 \<Rightarrow> u32 \<Rightarrow> u32 \<Rightarrow> u32 \<Rightarrow> u32 \<times> u32 \<times> u32 \<times> u32" where
  "rfc_quarter a b c d =
     (let (a, d) = rfc_line 16 a b d; (c, b) = rfc_line 12 c d b;
          (a, d) = rfc_line 8 a b d; (c, b) = rfc_line 7 c d b
      in (a, b, c, d))"

definition column :: "matrix \<Rightarrow> nat \<Rightarrow> u32 \<times> u32 \<times> u32 \<times> u32" where
  "column m i = rfc_quarter (m ! 0 ! i) (m ! 1 ! i) (m ! 2 ! i) (m ! 3 ! i)"

definition column_round :: "matrix \<Rightarrow> matrix" where
  "column_round m =
     (let cols = map (column m) [0..<4]
      in [map (\<lambda>(a, b, c, d). a) cols, map (\<lambda>(a, b, c, d). b) cols,
          map (\<lambda>(a, b, c, d). c) cols, map (\<lambda>(a, b, c, d). d) cols])"

definition rotate_rows :: "nat list \<Rightarrow> matrix \<Rightarrow> matrix" where
  "rotate_rows ks m = map2 rotate ks m"

definition diagonal_round :: "matrix \<Rightarrow> matrix" where
  "diagonal_round m = rotate_rows [0, 3, 2, 1] (column_round (rotate_rows [0, 1, 2, 3] m))"

text \<open>Bytes as little-endian words and back.\<close>

fun rfc_words :: "byte list \<Rightarrow> u32 list" where
  "rfc_words (a # b # c # d # bs) =
     of_nat (unat a + 256 * unat b + 65536 * unat c + 16777216 * unat d) # rfc_words bs"
| "rfc_words _ = []"

definition rfc_serialize :: "u32 \<Rightarrow> byte list" where
  "rfc_serialize w = map (\<lambda>i. of_nat (unat w div 256 ^ i mod 256)) [0..<4]"

definition rfc_constants :: "byte list" where
  "rfc_constants = map of_char ''expand 32-byte k''"

definition rfc_state :: "byte list \<Rightarrow> byte list \<Rightarrow> u32 \<Rightarrow> matrix" where
  "rfc_state key nonce counter =
     [rfc_words rfc_constants, take 4 (rfc_words key), drop 4 (rfc_words key), counter # rfc_words nonce]"

definition rfc_block :: "byte list \<Rightarrow> byte list \<Rightarrow> u32 \<Rightarrow> byte list" where
  "rfc_block key nonce counter =
     (let m = rfc_state key nonce counter;
          w = ((diagonal_round \<circ> column_round) ^^ 10) m
      in concat (map rfc_serialize (concat (map2 (map2 (+)) w m))))"

text \<open>The operations of the code are those of the RFC.\<close>

lemma rotl32_word_rotl:
  assumes "0 < n" "n < 32"
  shows "rotl32 v n = word_rotl n v"
proof (rule bit_word_eqI)
  fix k assume "k < LENGTH(32)"
  then have k: "k < 32" by simp
  have m: "(k + (32 - n)) mod 32 = (if n \<le> k then k - n else k + (32 - n))"
  proof (cases "n \<le> k")
    case True
    then have "k + (32 - n) = (k - n) + 32" using assms by simp
    then have "(k + (32 - n)) mod 32 = (k - n) mod 32" by (simp only: mod_add_self2)
    then show ?thesis using True k by simp
  qed (use assms in simp)
  have h: "\<not> bit v (k + (32 - n))" if "n \<le> k"
    using that assms bit_imp_le_length [of v "k + (32 - n)"] by auto
  then show "bit (rotl32 v n) k \<longleftrightarrow> bit (word_rotl n v) k"
  proof -
    have "bit (rotl32 v n) k \<longleftrightarrow> n \<le> k \<and> bit v (k - n) \<or> bit v (k + (32 - n))"
      using k by (simp add: rotl32_def bit_or_iff bit_push_bit_iff bit_drop_bit_eq add.commute)
    moreover have "bit (word_rotl n v) k \<longleftrightarrow> bit v ((k + (32 - n)) mod 32)"
      using k assms(2) by (simp add: bit_word_rotl_iff)
    ultimately show ?thesis using h by (simp add: m)
  qed
qed

lemma quarter_rfc: "quarter a b c d = rfc_quarter a b c d"
  by (simp add: quarter_def rfc_quarter_def rfc_line_def rotl32_word_rotl Let_def)

lemma serialize_rfc: "le32_bytes w = rfc_serialize w"
proof -
  have w: "unat w < 4294967296" using unsigned_less [of w, where 'a = nat] by simp
  have "ucast (drop_bit (8 * i) w) = (of_nat (unat w div 256 ^ i mod 256) :: byte)" for i
  proof -
    have "unat (ucast (drop_bit (8 * i) w) :: byte) = unat (of_nat (unat w div 256 ^ i mod 256) :: byte)"
      by (simp add: unsigned_ucast_eq unsigned_take_bit_eq unsigned_drop_bit_eq drop_bit_eq_div [where 'a = nat]
        take_bit_eq_mod [where 'a = nat] unat_of_nat power_mult w)
    then show ?thesis by (simp only: word_unat_eq_iff)
  qed
  from this [of 0] this [of 1] this [of 2] this [of 3] show ?thesis
    by (simp add: le32_bytes_def rfc_serialize_def upt_rec)
qed

lemma base_256: "u < 2 ^ 32 \<Longrightarrow>
  u mod 256 + 256 * (u div 256 mod 256) + 65536 * (u div 65536 mod 256) + 16777216 * (u div 16777216 mod 256) = (u :: nat)"
proof -
  assume u: "u < 2 ^ 32"
  have q: "u div 65536 = u div 256 div 256" "u div 16777216 = u div 256 div 256 div 256"
    by (simp_all flip: div_mult2_eq)
  have "u div 256 div 256 div 256 < 256" using u by (simp flip: div_mult2_eq)
  then have "u div 256 div 256 div 256 mod 256 = u div 256 div 256 div 256" by simp
  then show ?thesis
    using mod_mult_div_eq [of u 256] mod_mult_div_eq [of "u div 256" 256] mod_mult_div_eq [of "u div 256 div 256" 256]
    unfolding q by linarith
qed

lemma rfc_words_serialize: "rfc_words (concat (map rfc_serialize ws)) = ws"
proof (induction ws)
  case Nil
  then show ?case by simp
next
  case (Cons w ws)
  have "unat w < 2 ^ 32" using unsigned_less [of w, where 'a = nat] by simp
  then have "of_nat (unat w mod 256 + 256 * (unat w div 256 mod 256) + 65536 * (unat w div 65536 mod 256) +
      16777216 * (unat w div 16777216 mod 256)) = w" by (subst base_256) simp_all
  then show ?case using Cons
    by (simp add: rfc_serialize_def upt_rec unat_of_nat take_bit_eq_mod del: of_nat_add of_nat_mult)
qed

lemma rfc_constants_words: "rfc_words rfc_constants = [0x61707865, 0x3320646e, 0x79622d32, 0x6b206574]"
  by (simp add: rfc_constants_def)

definition rows_of :: "u32 list \<Rightarrow> matrix" where
  "rows_of x = map (\<lambda>r. take 4 (drop (4 * r) x)) [0..<4]"

lemma list16:
  assumes "length xs = 16"
  obtains a b c d e f g h i j k l m n q p where "xs = [a, b, c, d, e, f, g, h, i, j, k, l, m, n, q, p]"
  using assms by (auto simp: length_Suc_conv numeral_eq_Suc)

lemma upt4: "[0..<4] = [0, 1, 2, 3 :: nat]"
  by (simp add: upt_rec)

lemma QR_proj:
  "QR i j k l x = (let q = quarter (x ! i) (x ! j) (x ! k) (x ! l)
     in x[i := fst q, j := fst (snd q), k := fst (snd (snd q)), l := snd (snd (snd q))])"
  by (simp add: QR_def case_prod_beta Let_def)

lemma column_round_proj:
  "column_round m = [map (\<lambda>i. fst (column m i)) [0, 1, 2, 3], map (\<lambda>i. fst (snd (column m i))) [0, 1, 2, 3],
     map (\<lambda>i. fst (snd (snd (column m i)))) [0, 1, 2, 3], map (\<lambda>i. snd (snd (snd (column m i)))) [0, 1, 2, 3]]"
  by (simp add: column_round_def upt4 case_prod_beta Let_def)

lemma column_code: "column m i = quarter (m ! 0 ! i) (m ! 1 ! i) (m ! 2 ! i) (m ! 3 ! i)"
  by (simp add: column_def quarter_rfc)

lemma QR_columns:
  "length x = 16 \<Longrightarrow> rows_of (QR 3 7 11 15 (QR 2 6 10 14 (QR 1 5 9 13 (QR 0 4 8 12 x)))) = column_round (rows_of x)"
  by (erule list16) (simp add: rows_of_def column_round_proj column_code QR_proj upt4 Let_def)

lemma rotate4:
  "rotate 1 [a, b, c, d] = [b, c, d, a]" "rotate 2 [a, b, c, d] = [c, d, a, b]" "rotate 3 [a, b, c, d] = [d, a, b, c]"
  by (simp_all add: numeral_2_eq_2 numeral_3_eq_3 rotate_Suc)

lemma QR_diagonals:
  "length x = 16 \<Longrightarrow> rows_of (QR 3 4 9 14 (QR 2 7 8 13 (QR 1 6 11 12 (QR 0 5 10 15 x)))) = diagonal_round (rows_of x)"
  by (erule list16)
    (simp add: rows_of_def diagonal_round_def rotate_rows_def column_round_proj column_code QR_proj upt4 Let_def
      rotate4 rotate4 [unfolded One_nat_def])

lemma length_QR [simp]: "length (QR i j k l x) = length x"
  by (simp add: QR_def split: prod.split)

lemma length_double_round [simp]: "length (double_round x) = length x"
  by (simp add: double_round_def)

lemma double_round_rows: "length x = 16 \<Longrightarrow> rows_of (double_round x) = (diagonal_round \<circ> column_round) (rows_of x)"
  by (simp only: double_round_def QR_diagonals QR_columns length_QR o_apply)

lemma rounds_rows:
  "length x = 16 \<Longrightarrow> length (rounds n x) = 16 \<and> rows_of (rounds n x) = ((diagonal_round \<circ> column_round) ^^ n) (rows_of x)"
  by (induction n arbitrary: x) (simp_all add: double_round_rows funpow_swap1)

lemma rows_add:
  assumes "length x = 16" "length y = 16"
  shows "concat (map2 (map2 (+)) (rows_of x) (rows_of y)) = map2 (+) x y"
  using assms by (elim list16) (simp add: rows_of_def upt4)

lemma rfc_state_rows:
  assumes "length key = 8" "length nonce = 3"
  shows "rfc_state (concat (map rfc_serialize key)) (concat (map rfc_serialize nonce)) counter =
    rows_of (chacha20_input key nonce counter)"
  using assms
  by (simp add: rfc_state_def rfc_words_serialize rfc_constants_words rows_of_def chacha20_input_def upt4)

text \<open>C31. The block function of the code, with its hand-written indices, rotations, constants and
  byte order, is the block function of RFC 7539 on the bytes of the key and of the nonce.\<close>

theorem chacha20_is_rfc7539:
  assumes "length key = 8" "length nonce = 3"
  shows "chacha20_block key nonce counter =
    rfc_block (concat (map rfc_serialize key)) (concat (map rfc_serialize nonce)) counter"
proof -
  let ?s = "chacha20_input key nonce counter"
  have s: "length ?s = 16" using assms by (simp add: chacha20_input_def)
  note r = rounds_rows [OF s, of 10]
  have "concat (map2 (map2 (+)) (((diagonal_round \<circ> column_round) ^^ 10) (rows_of ?s)) (rows_of ?s)) =
      map2 (+) (rounds 10 ?s) ?s"
    using rows_add [OF conjunct1 [OF r] s] r by simp
  then show ?thesis
    by (simp only: chacha20_block_def rfc_block_def rfc_state_rows [OF assms] Let_def serialize_rfc [abs_def])
qed

text \<open>The test vectors of sections 2.1.1 and 2.3.2 of the RFC.\<close>

lemma quarter_rfc_2_1_1:
  "quarter 0x11111111 0x01020304 0x9b8d6f43 0x01234567 = (0xea2a92f4, 0xcb1cf8ce, 0x4581472e, 0x5881c4bb)"
  by (simp add: quarter_def rotl32_def)

lemma rounds_chain: "double_round x = y \<Longrightarrow> rounds n y = z \<Longrightarrow> rounds (Suc n) x = z"
  by simp

lemma rounds_rfc_2_3_2:
  "rounds 10
     [0x61707865, 0x3320646e, 0x79622d32, 0x6b206574, 0x03020100, 0x07060504, 0x0b0a0908, 0x0f0e0d0c,
      0x13121110, 0x17161514, 0x1b1a1918, 0x1f1e1d1c, 1, 0x09000000, 0x4a000000, 0] =
     [0x837778ab, 0xe238d763, 0xa67ae21e, 0x5950bb2f, 0xc4f2d0c7, 0xfc62bb2f, 0x8fa018fc, 0x3f5ec7b7,
      0x335271c2, 0xf29489f3, 0xeabda8fc, 0x82e46ebd, 0xd19c12b4, 0xb04e16de, 0x9e83d0cb, 0x4e3c50a2]"
proof -
  let ?x0 = "[0x61707865, 0x3320646e, 0x79622d32, 0x6b206574, 0x03020100, 0x07060504, 0x0b0a0908, 0x0f0e0d0c,
      0x13121110, 0x17161514, 0x1b1a1918, 0x1f1e1d1c, 1, 0x09000000, 0x4a000000, 0]"
  let ?x1 = "[0xcd52e917, 0x85ab03b4, 0xb3457395, 0xf96de7dd, 0xc4b7cd22, 0x5c2e187a, 0xc95eb461, 0x316c801a,
      0x7bf7d740, 0x7eddd644, 0xf1a1bdf5, 0x761246ca, 0x6b0d58a3, 0x6798471a, 0xd737f167, 0xf173888d]"
  let ?x2 = "[0xcf1a7584, 0x048927ec, 0x54051fda, 0xc244ff28, 0x901d2f40, 0x7974b81c, 0x378dcfb4, 0xcd47fd0e,
      0x2dafb216, 0x27c89cd6, 0xcd3c9aa0, 0x79fc89c7, 0x10aef18d, 0x16218765, 0x68f76705, 0x04d6ee22]"
  let ?x3 = "[0x03a14032, 0x66b15927, 0x9d6b6b42, 0xb84c4109, 0xa7143ae0, 0xa09b33dd, 0xa5daaf88, 0x2fd91a73,
      0xc90c6b18, 0x5a202413, 0xc20e01b6, 0x72cd6b74, 0xba35d777, 0xb360f1bf, 0x8178315b, 0x2cd11b1a]"
  let ?x4 = "[0x9a2d3589, 0x0b23fc4e, 0x40af3b6b, 0xceea8144, 0x0a1bffc6, 0x5e5993f7, 0x9904c2e7, 0x0d334718,
      0xe46c6354, 0xc9503229, 0x04fef5aa, 0xf8933f72, 0x2687d476, 0x54e65231, 0x3594ffc5, 0x2b3bb2ca]"
  let ?x5 = "[0xc53318c5, 0xca325d96, 0x7e7d11cb, 0x3404e2ca, 0x26d7cf73, 0x6088d379, 0xc0f0e9bd, 0xe310cdb9,
      0xae2ca8db, 0x42f67c72, 0x71669aca, 0x975c171d, 0x9e5ec228, 0x7d85a9f3, 0x201d0756, 0x63fa6953]"
  let ?x6 = "[0x04a3131a, 0x66176309, 0x0415bab1, 0x61b880a2, 0x36cc86c7, 0xbf8a4465, 0xf77dd720, 0xfc0bdc90,
      0x07d13aca, 0xeb0be9af, 0x61599491, 0x918512dc, 0x33b6686d, 0x795cc671, 0xc0049972, 0xa0a81bde]"
  let ?x7 = "[0x9b70f51f, 0x7ea8ac11, 0x21e54da9, 0xca393b2f, 0x93b08686, 0x6a4c50ae, 0x19212a5a, 0x9b032958,
      0xd839165e, 0x4c06e28a, 0xd3fde99e, 0x26acc13d, 0xa609f555, 0x2c246549, 0x95151853, 0x2c847a0d]"
  let ?x8 = "[0xca5c85dd, 0x93a4f90e, 0xd9f0df58, 0x26dd82dd, 0x982563f8, 0x712aa9ff, 0x279a61e8, 0x970f72bd,
      0x1c25931a, 0x5180bb10, 0x779c27e7, 0x54077e08, 0xa9b751fb, 0x382f3ce2, 0x8db1757d, 0xcc38080b]"
  let ?x9 = "[0xb6b87de6, 0x9a016148, 0x93859815, 0x4915e6cc, 0xdc33c122, 0x98e18fa3, 0x5ffbe8fc, 0xf7154b8b,
      0x28c1fcb3, 0xc4b38f9d, 0x83e2f5d7, 0x7d24b98b, 0x21078b22, 0xb193e7a3, 0xb2f49389, 0x6cde6026]"
  let ?x10 = "[0x837778ab, 0xe238d763, 0xa67ae21e, 0x5950bb2f, 0xc4f2d0c7, 0xfc62bb2f, 0x8fa018fc, 0x3f5ec7b7,
      0x335271c2, 0xf29489f3, 0xeabda8fc, 0x82e46ebd, 0xd19c12b4, 0xb04e16de, 0x9e83d0cb, 0x4e3c50a2]"
  note defs = double_round_def QR_def quarter_def rotl32_def Let_def
  have r0: "double_round ?x0 = ?x1" by (simp add: defs cong: let_weak_cong)
  have r1: "double_round ?x1 = ?x2" by (simp add: defs cong: let_weak_cong)
  have r2: "double_round ?x2 = ?x3" by (simp add: defs cong: let_weak_cong)
  have r3: "double_round ?x3 = ?x4" by (simp add: defs cong: let_weak_cong)
  have r4: "double_round ?x4 = ?x5" by (simp add: defs cong: let_weak_cong)
  have r5: "double_round ?x5 = ?x6" by (simp add: defs cong: let_weak_cong)
  have r6: "double_round ?x6 = ?x7" by (simp add: defs cong: let_weak_cong)
  have r7: "double_round ?x7 = ?x8" by (simp add: defs cong: let_weak_cong)
  have r8: "double_round ?x8 = ?x9" by (simp add: defs cong: let_weak_cong)
  have r9: "double_round ?x9 = ?x10" by (simp add: defs cong: let_weak_cong)
  have "rounds (Suc (Suc (Suc (Suc (Suc (Suc (Suc (Suc (Suc (Suc 0)))))))))) ?x0 = ?x10"
    by (intro rounds_chain [OF r0] rounds_chain [OF r1] rounds_chain [OF r2] rounds_chain [OF r3]
      rounds_chain [OF r4] rounds_chain [OF r5] rounds_chain [OF r6] rounds_chain [OF r7]
      rounds_chain [OF r8] rounds_chain [OF r9] rounds.simps(1))
  then show ?thesis by (simp only: numeral_eq_Suc pred_numeral_simps arith_simps One_nat_def)
qed

lemma block_rfc_2_3_2:
  "chacha20_block
     [0x3020100, 0x7060504, 0xb0a0908, 0xf0e0d0c, 0x13121110, 0x17161514, 0x1b1a1918,
     0x1f1e1d1c]
     [0x9000000, 0x4a000000, 0x0] 1 =
     [0x10, 0xf1, 0xe7, 0xe4, 0xd1, 0x3b, 0x59, 0x15, 0x50, 0x0f, 0xdd, 0x1f, 0xa3, 0x20, 0x71,
     0xc4, 0xc7, 0xd1, 0xf4, 0xc7, 0x33, 0xc0, 0x68, 3, 4, 0x22, 0xaa, 0x9a, 0xc3, 0xd4, 0x6c,
     0x4e, 0xd2, 0x82, 0x64, 0x46, 7, 0x9f, 0xaa, 9, 0x14, 0xc2, 0xd7, 5, 0xd9, 0x8b, 2, 0xa2,
     0xb5, 0x12, 0x9c, 0xd1, 0xde, 0x16, 0x4e, 0xb9, 0xcb, 0xd0, 0x83, 0xe8, 0xa2, 0x50, 0x3c,
     0x4e]"
  by (simp add: chacha20_block_def chacha20_input_def rounds_rfc_2_3_2 le32_bytes_def)

lemma chacha20_is_rfc7539_witness:
  "rfc_block
     [0, 1, 2, 3, 4, 5, 6, 7, 8, 9, 0x0a, 0x0b, 0x0c, 0x0d, 0x0e, 0x0f, 0x10, 0x11, 0x12, 0x13,
     0x14, 0x15, 0x16, 0x17, 0x18, 0x19, 0x1a, 0x1b, 0x1c, 0x1d, 0x1e, 0x1f]
     [0, 0, 0, 9, 0, 0, 0, 0x4a, 0, 0, 0, 0] 1 =
     [0x10, 0xf1, 0xe7, 0xe4, 0xd1, 0x3b, 0x59, 0x15, 0x50, 0x0f, 0xdd, 0x1f, 0xa3, 0x20, 0x71,
     0xc4, 0xc7, 0xd1, 0xf4, 0xc7, 0x33, 0xc0, 0x68, 3, 4, 0x22, 0xaa, 0x9a, 0xc3, 0xd4, 0x6c,
     0x4e, 0xd2, 0x82, 0x64, 0x46, 7, 0x9f, 0xaa, 9, 0x14, 0xc2, 0xd7, 5, 0xd9, 0x8b, 2, 0xa2,
     0xb5, 0x12, 0x9c, 0xd1, 0xde, 0x16, 0x4e, 0xb9, 0xcb, 0xd0, 0x83, 0xe8, 0xa2, 0x50, 0x3c,
     0x4e]"
  using chacha20_is_rfc7539 [of
     "[0x3020100, 0x7060504, 0xb0a0908, 0xf0e0d0c, 0x13121110, 0x17161514, 0x1b1a1918,
     0x1f1e1d1c]"
     "[0x9000000, 0x4a000000, 0x0]" 1]
  by (simp add: block_rfc_2_3_2 rfc_serialize_def upt_rec)

section \<open>The output\<close>

definition rng_ok :: "rng \<Rightarrow> bool" where
  "rng_ok s \<longleftrightarrow> g_ready s \<and> g_counter s \<le> 4096 \<and> g_since_reseed s = 64 * g_counter s \<and>
     length (g_key s) = 8 \<and> length (g_nonce s) = 3"

text \<open>A request of 32 bytes that the driver reports as served has delivered 32 bytes.\<close>

definition source_ok :: "source \<Rightarrow> bool" where
  "source_ok src \<longleftrightarrow> (\<forall>n. fst (virtio_rng_get src n) = 32 \<longrightarrow> length (snd (virtio_rng_get src n)) = 32)"

text \<open>The state after a reseeding, and the key after \<open>n\<close> of them.\<close>

definition reseeded :: "source \<Rightarrow> rng \<Rightarrow> rng" where
  "reseeded src s = (let (s1, seed) = fetch_seed src s in mix_into_key_locked s1 seed)"

definition key_gen :: "source \<Rightarrow> rng \<Rightarrow> nat \<Rightarrow> u32 list" where
  "key_gen src s n = g_key ((reseeded src ^^ n) s)"

text \<open>Block \<open>n\<close> of the stream, counted from the start of the current key.\<close>

definition stream_block :: "source \<Rightarrow> rng \<Rightarrow> nat \<Rightarrow> byte list" where
  "stream_block src s n =
     chacha20_block (key_gen src s (n div 4096)) (g_nonce s) (of_nat (n mod 4096))"

lemma seed_words_length: "length bs = 4 * n \<Longrightarrow> length (seed_words bs) = n"
proof (induction n arbitrary: bs)
  case 0
  then show ?case by simp
next
  case (Suc n)
  then have "length bs = Suc (Suc (Suc (Suc (4 * n))))" by simp
  then obtain b0 b1 b2 b3 cs where "bs = b0 # b1 # b2 # b3 # cs" "length cs = 4 * n"
    by (auto simp: length_Suc_conv)
  then show ?case using Suc.IH by simp
qed

lemma fetch_seed_frame [frame]:
  "g_ready (fst (fetch_seed src s)) = g_ready s" "g_key (fst (fetch_seed src s)) = g_key s"
  "g_nonce (fst (fetch_seed src s)) = g_nonce s"
  by (auto simp: fetch_seed_def fallback_seed_def Let_def split: prod.split)

lemma fetch_seed_length: "source_ok src \<Longrightarrow> length (snd (fetch_seed src s)) = 32"
  by (auto simp: fetch_seed_def fallback_seed_def source_ok_def le_bytes_def Let_def split: prod.split)
    (metis fst_conv snd_conv)

lemma reseeded_ok:
  assumes "rng_ok s" "source_ok src"
  shows "rng_ok (reseeded src s)" "g_counter (reseeded src s) = 0" "g_nonce (reseeded src s) = g_nonce s"
proof -
  have "length (seed_words (snd (fetch_seed src s))) = 8"
    using seed_words_length [of _ 8] fetch_seed_length [OF assms(2)] by simp
  then show "rng_ok (reseeded src s)" "g_counter (reseeded src s) = 0" "g_nonce (reseeded src s) = g_nonce s"
    using assms(1) by (simp_all add: reseeded_def rng_ok_def mix_into_key_locked_def case_prod_beta frame)
qed

text \<open>What the keys depend on.\<close>

definition core :: "rng \<Rightarrow> u32 list \<times> nat \<times> nat" where
  "core s = (g_key s, rq s, fb s)"

lemma fallback_seed_core:
  "snd (fallback_seed src s) = (case ambient src (fb s) of (t, a, b, c, d) \<Rightarrow>
     le_bytes 8 t @ le_bytes 8 a @ le_bytes 8 b @ le_bytes 4 c @ le_bytes 4 d)"
  "rq (fst (fallback_seed src s)) = rq s" "fb (fst (fallback_seed src s)) = fb s + 1"
  by (simp_all add: fallback_seed_def case_prod_beta)

lemma fetch_seed_core:
  assumes "rq s = rq t" "fb s = fb t"
  shows "snd (fetch_seed src s) = snd (fetch_seed src t) \<and>
    rq (fst (fetch_seed src s)) = rq (fst (fetch_seed src t)) \<and>
    fb (fst (fetch_seed src s)) = fb (fst (fetch_seed src t))"
proof -
  have f: "fetch_seed src u =
      (if virtio_rng_present src
       then if fst (virtio_rng_get src (rq u)) = 32 then (u\<lparr>rq := rq u + 1\<rparr>, snd (virtio_rng_get src (rq u)))
            else fallback_seed src (u\<lparr>rq := rq u + 1\<rparr>)
       else fallback_seed src u)" for u
    by (simp add: fetch_seed_def case_prod_beta Let_def)
  show ?thesis
    by (cases "virtio_rng_present src"; cases "fst (virtio_rng_get src (rq t)) = 32")
      (simp_all only: f assms fallback_seed_core if_True if_False fst_conv snd_conv simp_thms,
        simp_all add: assms)
qed

lemma core_mix:
  "core (mix_into_key_locked s seed) = (map2 (XOR) (g_key s) (seed_words seed), rq s, fb s)"
  by (simp add: core_def mix_into_key_locked_def)

lemma core_reseeded:
  assumes "core s = core t"
  shows "core (reseeded src s) = core (reseeded src t)"
proof -
  have e: "core (reseeded src u) = core (mix_into_key_locked (fst (fetch_seed src u)) (snd (fetch_seed src u)))"
    for u unfolding reseeded_def Let_def case_prod_beta ..
  have "g_key s = g_key t" "rq s = rq t" "fb s = fb t" using assms by (simp_all add: core_def)
  then show ?thesis using fetch_seed_core [of s t src] by (simp only: e core_mix frame)
qed

lemma core_key_gen:
  assumes "core s = core t"
  shows "key_gen src s n = key_gen src t n"
proof -
  have "core ((reseeded src ^^ n) s) = core ((reseeded src ^^ n) t)"
    using assms by (induction n) (auto intro: core_reseeded)
  then show ?thesis by (simp add: core_def key_gen_def)
qed

text \<open>One block: the generator moves on by one position in the stream.\<close>

lemma next_block_spec:
  assumes "rng_ok s" "source_ok src" "next_block (reseed src s) = (s', blk)"
  shows "rng_ok s'" "blk = stream_block src s (unat (g_counter s))" "length blk = 64"
    "stream_block src s' (unat (g_counter s') + n) = stream_block src s (Suc (unat (g_counter s)) + n)"
proof -
  define c where "c = unat (g_counter s)"
  define t where "t = reseed src s"
  have c4: "c \<le> 4096" using assms(1) by (simp add: rng_ok_def word_le_nat_alt c_def)
  have since: "RESEED_BYTES \<le> g_since_reseed s \<longleftrightarrow> c = 4096"
  proof -
    have "unat (g_since_reseed s) = 64 * c"
      using assms(1) c4 by (simp add: rng_ok_def c_def unat_word_ariths)
    then show ?thesis using c4 by (simp add: word_le_nat_alt)
  qed
  have t: "rng_ok t" "unat (g_counter t) < 4096" "g_nonce t = g_nonce s"
    "blk = chacha20_block (g_key t) (g_nonce t) (g_counter t)"
    "s' = t\<lparr>g_counter := g_counter t + 1, g_since_reseed := g_since_reseed t + 64\<rparr>"
    using assms reseeded_ok [OF assms(1,2)] c4 since
    by (auto simp: t_def reseed_def next_block_def reseeded_def c_def split: if_splits)
  have c': "unat (g_counter s') = Suc (unat (g_counter t))"
    using t(2,5) by (simp add: unat_word_ariths)
  have "unat (g_counter s') \<le> unat (4096 :: u32)" using c' t(2) by simp
  then have "g_counter s' \<le> 4096" by (simp only: word_le_nat_alt)
  then show "rng_ok s'" using t(1) unfolding t(5) by (simp add: rng_ok_def distrib_left)
  have key0: "key_gen src t 0 = g_key t" by (simp add: key_gen_def)
  have cs: "core s' = core t" by (simp add: t(5) core_def)
  have pos: "stream_block src t (unat (g_counter t) + m) = stream_block src s (c + m)" for m
  proof (cases "c = 4096")
    case False
    then have "t = s" using since by (simp add: t_def reseed_def)
    then show ?thesis by (simp add: c_def)
  next
    case True
    then have ts: "t = reseeded src s" using since by (simp add: t_def reseed_def reseeded_def)
    have "unat (g_counter t) = 0" using reseeded_ok(2) [OF assms(1,2)] ts by simp
    moreover have "key_gen src t k = key_gen src s (Suc k)" for k
      by (simp only: ts key_gen_def funpow_Suc_right o_apply)
    moreover have "(4096 + m) div 4096 = Suc (m div 4096)" by simp
    ultimately show ?thesis by (simp add: stream_block_def True t(3))
  qed
  have "stream_block src t (unat (g_counter t) + 0) = blk"
    using t(2,4) by (simp add: stream_block_def key0)
  then show "blk = stream_block src s (unat (g_counter s))" using pos [of 0] by (simp add: c_def)
  have "length (chacha20_input (g_key t) (g_nonce t) (g_counter t)) = 16"
    using t(1) by (simp add: chacha20_input_def rng_ok_def)
  then show "length blk = 64"
    using rounds_rows [of "chacha20_input (g_key t) (g_nonce t) (g_counter t)" 10]
    by (simp add: t(4) chacha20_block_def length_concat o_def sum_list_triv Let_def)
  have "stream_block src s' k = stream_block src t k" for k
    using core_key_gen [OF cs] by (simp add: stream_block_def t(5))
  then show "stream_block src s' (unat (g_counter s') + n) = stream_block src s (Suc (unat (g_counter s)) + n)"
    using pos [of "Suc n"] c' by (simp add: c_def)
qed

lemma bytes_loop_spec:
  assumes "rng_ok s" "source_ok src" "bytes_loop src s len = (s', bs)"
  shows "rng_ok s' \<and> length bs = len \<and>
    bs = take len (concat (map (\<lambda>j. stream_block src s (unat (g_counter s) + j)) [0..<(len + 63) div 64])) \<and>
    (\<forall>n. stream_block src s' (unat (g_counter s') + n) =
       stream_block src s (unat (g_counter s) + (len + 63) div 64 + n))"
  using assms(1,3)
proof (induction len arbitrary: s s' bs rule: less_induct)
  case (less len)
  show ?case
  proof (cases "len = 0")
    case True
    then show ?thesis using less.prems by (simp add: bytes_loop.simps)
  next
    case False
    obtain s1 blk where nb: "next_block (reseed src s) = (s1, blk)" by fastforce
    note b = next_block_spec [OF less.prems(1) assms(2) nb]
    let ?c = "unat (g_counter s)"
    obtain s2 rest where l: "bytes_loop src s1 (len - 64) = (s2, rest)" by fastforce
    have m: "len - (if len > 64 then 64 else len) = len - 64" by simp
    have run: "s' = s2" "bs = take (min 64 len) blk @ rest"
      using less.prems(2) False nb l unfolding bytes_loop.simps [of src s len]
      by (auto simp: Let_def m min_def split: if_splits)
    have ih: "rng_ok s2 \<and> length rest = len - 64 \<and>
        rest = take (len - 64) (concat (map (\<lambda>j. stream_block src s1 (unat (g_counter s1) + j)) [0..<(len - 64 + 63) div 64])) \<and>
        (\<forall>n. stream_block src s2 (unat (g_counter s2) + n) =
           stream_block src s1 (unat (g_counter s1) + (len - 64 + 63) div 64 + n))"
      by (rule less.IH [OF _ b(1) l]) (use False in simp)
    have blocks: "(len + 63) div 64 = Suc ((len - 64 + 63) div 64)" using False by (cases "len \<le> 64") auto
    have shift: "map (\<lambda>j. stream_block src s (?c + j)) [0..<(len + 63) div 64] =
        blk # map (\<lambda>j. stream_block src s1 (unat (g_counter s1) + j)) [0..<(len - 64 + 63) div 64]"
      unfolding blocks upt_conv_Cons [OF zero_less_Suc] list.map map_Suc_upt [symmetric] map_map
      using b(2,4) by (simp add: o_def)
    have "bs = take len (concat (map (\<lambda>j. stream_block src s (?c + j)) [0..<(len + 63) div 64]))"
      using ih b(3) unfolding run(2) shift by (simp add: min_def)
    moreover have "length rest = len - 64" using ih by blast
    then have "length bs = len" using b(3) False by (simp add: run(2) min_def)
    moreover have "stream_block src s2 (unat (g_counter s2) + n) = stream_block src s (?c + (len + 63) div 64 + n)" for n
      using ih b(4) [of "(len - 64 + 63) div 64 + n"] unfolding blocks by (simp add: add.assoc)
    ultimately show ?thesis using ih run(1) by simp
  qed
qed

text \<open> C32. A request returns as many bytes as it asked for, and they are the next ones of a stream
  of ChaCha20 blocks: the block of counter \<open>n mod 4096\<close> under the key of generation
  \<open>n div 4096\<close>, each generation being the one before it mixed with 32 bytes of fresh seed.  The
  next request continues in the stream where this one stopped, at a block boundary, so no block is
  ever used twice and the 32-bit counter never passes 4096.\<close>

theorem random_bytes_stream:
  assumes "rng_ok s" "source_ok src"
  shows "\<exists>s' bs. random_bytes src s False len = (s', int len, bs) \<and> rng_ok s' \<and> length bs = len \<and>
    bs = take len (concat (map (\<lambda>j. stream_block src s (unat (g_counter s) + j)) [0..<(len + 63) div 64])) \<and>
    (\<forall>n. stream_block src s' (unat (g_counter s') + n) =
       stream_block src s (unat (g_counter s) + (len + 63) div 64 + n))"
proof (cases "len = 0")
  case True
  then show ?thesis using assms by (auto simp: random_bytes_def rng_ok_def)
next
  case False
  obtain s' bs where l: "bytes_loop src s len = (s', bs)" by fastforce
  note b = bytes_loop_spec [OF assms l]
  have "random_bytes src s False len = (s', int len, bs)"
    using False assms(1) conjunct1 [OF conjunct2 [OF b]] by (simp add: random_bytes_def l rng_ok_def)
  then show ?thesis using b by blast
qed

text \<open>With the device present but failing its first request, the generator is seeded from the
  predictable fallback and still reports itself as strong.\<close>

lemma strong_without_device_seed:
  assumes "\<not> g_ready s" "virtio_rng_present src" "fst (virtio_rng_get src (rq s)) \<noteq> 32"
    and "ambient src (fb s) = (t, a, b, c, d)"
  shows "random_is_strong (random_init src s)"
    "g_key (random_init src s) =
       map2 (XOR) (replicate 8 0) (seed_words (le_bytes 8 t @ le_bytes 8 a @ le_bytes 8 b @ le_bytes 4 c @ le_bytes 4 d))"
  using assms
  by (auto simp: random_is_strong_def random_init_def fetch_seed_def fallback_seed_def mix_into_key_locked_def
      split: prod.splits)

section \<open>Instances\<close>

definition example_source :: source where
  "example_source = \<lparr>virtio_rng_present = True, virtio_rng_get = (\<lambda>n. (32, replicate 32 (of_nat n))),
     ambient = (\<lambda>_. (0, 0, 0, 0, 0))\<rparr>"

definition example_rng :: rng where
  "example_rng = random_init example_source \<lparr>g_ready = False, g_strong = False, g_key = replicate 8 0,
     g_nonce = [0, 0, 0], g_counter = 0, g_since_reseed = 0, rq = 0, fb = 0\<rparr>"

lemma example_rng_ok: "rng_ok example_rng" "source_ok example_source"
  by (simp_all add: example_rng_def example_source_def random_init_def fetch_seed_def mix_into_key_locked_def
      source_ok_def rng_ok_def numeral_eq_Suc)

lemma random_bytes_stream_witness:
  "\<exists>s' bs. random_bytes example_source example_rng False 100 = (s', 100, bs) \<and> rng_ok s' \<and> length bs = 100 \<and>
     bs = take 100 (stream_block example_source example_rng 0 @ stream_block example_source example_rng 1)"
proof -
  have "unat (g_counter example_rng) = 0"
    by (simp add: example_rng_def example_source_def random_init_def fetch_seed_def mix_into_key_locked_def)
  moreover have "[0..<(100 + 63) div 64] = [0, 1 :: nat]" by (simp add: upt_rec)
  ultimately show ?thesis
    using random_bytes_stream [OF example_rng_ok, of 100] by (auto simp del: upt.simps)
qed

end
