(* ===== verification/Inet.thy ===== *)
theory Inet
  imports Contracts
begin

text \<open>
  The IPv4 layer: \<open>kernel/core/net.c\<close>, with the wire formats of \<open>net.h\<close>.  Frames and packets are
  lists of bytes.  The network card is outside the model: \<open>nd_present\<close> says whether there is one,
  \<open>nd_tx n\<close> is what the driver returns for the \<open>n\<close>-th frame it is given, and \<open>nd_heard n\<close> are
  the sender addresses of the ARP packets that come in during the \<open>n\<close>-th wait for an ARP reply.
  What else a poll during such a wait does is not modelled; the protocols above are called from
  \<open>rx_dispatch\<close> and are its parameters.
\<close>

section \<open>Byte order and checksum\<close>

definition net_be16_to_cpu :: "u16 \<Rightarrow> u16" where
  "net_be16_to_cpu be = drop_bit 8 (be AND 0xFF00) OR push_bit 8 (be AND 0x00FF)"

definition net_cpu_to_be16 :: "u16 \<Rightarrow> u16" where
  "net_cpu_to_be16 v = net_be16_to_cpu v"

text \<open>A 16-bit field in the memory of the little-endian machine.\<close>

definition put16 :: "u16 \<Rightarrow> byte list" where
  "put16 v = [ucast v, ucast (drop_bit 8 v)]"

definition get16 :: "byte list \<Rightarrow> nat \<Rightarrow> u16" where
  "get16 bs off = ucast (bs ! off) OR push_bit 8 (ucast (bs ! (off + 1)))"

fun sum16 :: "u32 \<Rightarrow> byte list \<Rightarrow> u32" where
  "sum16 acc (a # b # bs) = sum16 (acc + (push_bit 8 (ucast a) OR ucast b)) bs"
| "sum16 acc [a] = acc + push_bit 8 (ucast a)"
| "sum16 acc [] = acc"

lemma fold_less:
  fixes s :: u32
  assumes "drop_bit 16 s \<noteq> 0"
  shows "unat ((s AND 0xFFFF) + drop_bit 16 s) < unat s"
proof -
  have m: "s AND 0xFFFF = take_bit 16 s"
    by (simp add: take_bit_eq_mask mask_eq_exp_minus_1)
  have d: "unat (drop_bit 16 s) = unat s div 65536" by (simp add: drop_bit_eq_div unat_div_distrib)
  have t: "unat (take_bit 16 s) = unat s mod 65536" by (simp add: take_bit_eq_mod unat_mod_distrib)
  have "unat s div 65536 \<noteq> 0" using assms d by (metis unat_eq_0)
  moreover have "unat s = 65536 * (unat s div 65536) + unat s mod 65536" by simp
  ultimately have "unat s mod 65536 + unat s div 65536 < unat s" by linarith
  moreover have "unat s < 2 ^ 32" using unsigned_less [of s, where ?'a = nat] by simp
  ultimately show ?thesis unfolding m by (simp add: unat_word_ariths t d)
qed

function fold16 :: "u32 \<Rightarrow> u32" where
  "fold16 acc = (if drop_bit 16 acc \<noteq> 0 then fold16 ((acc AND 0xFFFF) + drop_bit 16 acc) else acc)"
  by pat_completeness auto
termination
  by (relation "measure unat") (use fold_less in auto)

declare fold16.simps [simp del]

definition net_ipv4_checksum :: "byte list \<Rightarrow> u16" where
  "net_ipv4_checksum data =
     (let cksum = NOT (ucast (fold16 (sum16 0 data))) :: u16
      in drop_bit 8 cksum OR push_bit 8 cksum)"

section \<open>State\<close>

abbreviation (input) ETH_HDR_LEN :: nat where "ETH_HDR_LEN \<equiv> 14"
abbreviation (input) ARP_PKT_LEN :: nat where "ARP_PKT_LEN \<equiv> 28"
abbreviation (input) IPV4_HDR_LEN :: nat where "IPV4_HDR_LEN \<equiv> 20"
abbreviation (input) ETHERTYPE_IPV4 :: u16 where "ETHERTYPE_IPV4 \<equiv> 0x0800"
abbreviation (input) ETHERTYPE_ARP :: u16 where "ETHERTYPE_ARP \<equiv> 0x0806"
abbreviation (input) IPV4_PROTO_ICMP :: byte where "IPV4_PROTO_ICMP \<equiv> 1"
abbreviation (input) IPV4_PROTO_TCP :: byte where "IPV4_PROTO_TCP \<equiv> 6"
abbreviation (input) IPV4_PROTO_UDP :: byte where "IPV4_PROTO_UDP \<equiv> 17"
abbreviation (input) LOOPBACK_QUEUE_CAP :: nat where "LOOPBACK_QUEUE_CAP \<equiv> 64"
abbreviation (input) LOOPBACK_DRAIN_CAP :: nat where "LOOPBACK_DRAIN_CAP \<equiv> 256"

record arp_entry =
  ae_valid :: bool
  ae_ip :: "byte list"
  ae_mac :: "byte list"

record net =
  g_initted :: bool
  g_mac :: "byte list"
  g_ip :: "byte list"
  g_gw :: "byte list"
  g_msk :: "byte list"
  g_dns :: "byte list"
  g_arp :: "arp_entry list"
  g_lo_buf :: "byte list list"
  g_lo_head :: nat
  g_lo_tail :: nat
  g_ip_id :: u16
  wire :: "byte list list"
  waits :: nat

text \<open>\<open>wire\<close> collects the frames given to the driver, \<open>waits\<close> counts the waits for ARP.\<close>

record netdev =
  nd_present :: bool
  nd_tx :: "nat \<Rightarrow> int"
  nd_heard :: "nat \<Rightarrow> (byte list \<times> byte list) list"

definition virtio_net_tx :: "netdev \<Rightarrow> byte list \<Rightarrow> 'a net_scheme \<Rightarrow> 'a net_scheme \<times> int" where
  "virtio_net_tx d f s = (s\<lparr>wire := wire s @ [f]\<rparr>, nd_tx d (length (wire s)))"

section \<open>The loopback queue\<close>

definition loopback_enqueue :: "byte list \<Rightarrow> 'a net_scheme \<Rightarrow> 'a net_scheme \<times> int" where
  "loopback_enqueue frame s =
     (let nxt = (g_lo_tail s + 1) mod LOOPBACK_QUEUE_CAP in
      if nxt = g_lo_head s then (s, -1)
      else if length frame > ETH_HDR_LEN + 1500 then (s, -1)
      else (s\<lparr>g_lo_buf := (g_lo_buf s)[g_lo_tail s := frame], g_lo_tail := nxt\<rparr>, 0))"

fun loopback_loop :: "(byte list \<Rightarrow> 'a net_scheme \<Rightarrow> 'a net_scheme) \<Rightarrow> nat \<Rightarrow> 'a net_scheme \<Rightarrow> 'a net_scheme \<times> nat" where
  "loopback_loop rx 0 s = (s, 0)"
| "loopback_loop rx (Suc n) s =
     (if g_lo_head s \<noteq> g_lo_tail s then
        let frame = g_lo_buf s ! g_lo_head s;
            s1 = rx frame (s\<lparr>g_lo_head := (g_lo_head s + 1) mod LOOPBACK_QUEUE_CAP\<rparr>);
            (s2, k) = loopback_loop rx n s1
        in (s2, Suc k)
      else (s, 0))"

definition loopback_drain :: "(byte list \<Rightarrow> 'a net_scheme \<Rightarrow> 'a net_scheme) \<Rightarrow> 'a net_scheme \<Rightarrow> 'a net_scheme \<times> nat" where
  "loopback_drain rx s = loopback_loop rx LOOPBACK_DRAIN_CAP s"

section \<open>ARP\<close>

definition g_bcast_mac :: "byte list" where "g_bcast_mac = replicate 6 0xFF"
definition g_bcast_ip :: "byte list" where "g_bcast_ip = replicate 4 255"

definition arp_find :: "byte list \<Rightarrow> 'a net_scheme \<Rightarrow> nat option" where
  "arp_find ip s = first_index (\<lambda>e. ae_valid e \<and> ae_ip e = ip) (g_arp s)"

definition arp_insert :: "byte list \<Rightarrow> byte list \<Rightarrow> 'a net_scheme \<Rightarrow> 'a net_scheme" where
  "arp_insert ip mac s =
     (let slot = (case arp_find ip s of
                    Some i \<Rightarrow> i
                  | None \<Rightarrow> (case first_index (\<lambda>e. \<not> ae_valid e) (g_arp s) of Some i \<Rightarrow> i | None \<Rightarrow> 0))
      in s\<lparr>g_arp := (g_arp s)[slot := \<lparr>ae_valid = True, ae_ip = ip, ae_mac = mac\<rparr>]\<rparr>)"

definition net_arp_lookup :: "byte list \<Rightarrow> 'a net_scheme \<Rightarrow> byte list option" where
  "net_arp_lookup ip s = map_option (\<lambda>i. ae_mac (g_arp s ! i)) (arp_find ip s)"

definition eth_hdr_build :: "byte list \<Rightarrow> u16 \<Rightarrow> 'a net_scheme \<Rightarrow> byte list" where
  "eth_hdr_build dst_mac ethertype s =
     dst_mac @ g_mac s @ [ucast (drop_bit 8 ethertype), ucast ethertype]"

definition arp_pkt :: "u16 \<Rightarrow> byte list \<Rightarrow> byte list \<Rightarrow> byte list \<Rightarrow> byte list \<Rightarrow> byte list" where
  "arp_pkt op sha spa tha tpa =
     put16 (net_cpu_to_be16 1) @ put16 (net_cpu_to_be16 ETHERTYPE_IPV4) @ [6, 4] @
     put16 (net_cpu_to_be16 op) @ sha @ spa @ tha @ tpa"

definition net_arp_request :: "netdev \<Rightarrow> byte list \<Rightarrow> 'a net_scheme \<Rightarrow> 'a net_scheme \<times> int" where
  "net_arp_request d target_ip s =
     (if \<not> nd_present d then (s, -1)
      else virtio_net_tx d (eth_hdr_build g_bcast_mac ETHERTYPE_ARP s @
             arp_pkt 1 (g_mac s) (g_ip s) (replicate 6 0) target_ip) s)"

text \<open>The wait: it ends as soon as the address is known.\<close>

fun arp_wait :: "byte list \<Rightarrow> (byte list \<times> byte list) list \<Rightarrow> 'a net_scheme \<Rightarrow> 'a net_scheme" where
  "arp_wait ip [] s = s"
| "arp_wait ip ((spa, sha) # hs) s =
     (if net_arp_lookup ip s \<noteq> None then s else arp_wait ip hs (arp_insert spa sha s))"

definition net_arp_resolve :: "netdev \<Rightarrow> byte list \<Rightarrow> 'a net_scheme \<Rightarrow> 'a net_scheme \<times> byte list option" where
  "net_arp_resolve d ip s =
     (case net_arp_lookup ip s of
        Some mac \<Rightarrow> (s, Some mac)
      | None \<Rightarrow>
          let (s1, r) = net_arp_request d ip s in
          if r < 0 then (s1, None)
          else let s2 = arp_wait ip (nd_heard d (waits s1)) (s1\<lparr>waits := waits s1 + 1\<rparr>)
               in (s2, net_arp_lookup ip s2))"

section \<open>Sending\<close>

definition ipv4_hdr :: "u16 \<Rightarrow> u16 \<Rightarrow> byte \<Rightarrow> u16 \<Rightarrow> byte list \<Rightarrow> byte list \<Rightarrow> byte list" where
  "ipv4_hdr total_len ident proto checksum src dst =
     [0x45, 0] @ put16 (net_cpu_to_be16 total_len) @ put16 (net_cpu_to_be16 ident) @ [0, 0, 64, proto] @
     put16 checksum @ src @ dst"

text \<open>\<open>None\<close> is the result \<open>-1\<close>.\<close>

definition net_ipv4_build_src ::
    "nat \<Rightarrow> byte list \<Rightarrow> byte list \<Rightarrow> byte \<Rightarrow> byte list \<Rightarrow> 'a net_scheme \<Rightarrow> 'a net_scheme \<times> byte list option" where
  "net_ipv4_build_src cap src_ip dst_ip proto payload s =
     (let total = (IPV4_HDR_LEN + length payload) mod 2 ^ 32 in
      if total > cap \<or> total > 0xFFFF then (s, None)
      else
        let h = ipv4_hdr (of_nat total) (g_ip_id s) proto 0 src_ip dst_ip
        in (s\<lparr>g_ip_id := g_ip_id s + 1\<rparr>,
            Some (ipv4_hdr (of_nat total) (g_ip_id s) proto (net_ipv4_checksum h) src_ip dst_ip @ payload)))"

definition net_ipv4_build ::
    "nat \<Rightarrow> byte list \<Rightarrow> byte \<Rightarrow> byte list \<Rightarrow> 'a net_scheme \<Rightarrow> 'a net_scheme \<times> byte list option" where
  "net_ipv4_build cap dst_ip proto payload s = net_ipv4_build_src cap (g_ip s) dst_ip proto payload s"

definition ip_on_local_subnet :: "byte list \<Rightarrow> 'a net_scheme \<Rightarrow> bool" where
  "ip_on_local_subnet ip s =
     list_all (\<lambda>i. ip ! i AND g_msk s ! i = g_ip s ! i AND g_msk s ! i) [0..<4]"

definition net_is_local_ip :: "byte list \<Rightarrow> 'a net_scheme \<Rightarrow> bool" where
  "net_is_local_ip ip s =
     (if ip ! 0 = 127 then True
      else (g_ip s ! 0 OR g_ip s ! 1 OR g_ip s ! 2 OR g_ip s ! 3) \<noteq> 0 \<and> ip = g_ip s)"

definition net_choose_src :: "byte list \<Rightarrow> 'a net_scheme \<Rightarrow> byte list" where
  "net_choose_src dst_ip s = (if net_is_local_ip dst_ip s then dst_ip else g_ip s)"

definition net_ipv4_send_from ::
    "netdev \<Rightarrow> byte list \<Rightarrow> byte list \<Rightarrow> byte \<Rightarrow> byte list \<Rightarrow> 'a net_scheme \<Rightarrow> 'a net_scheme \<times> int" where
  "net_ipv4_send_from d src_ip dst_ip proto payload s =
     (if \<not> nd_present d then (s, -1)
      else if IPV4_HDR_LEN + length payload > 1500 then (s, -1)
      else if net_is_local_ip dst_ip s then
        let (s1, pkt) = net_ipv4_build_src 1500 src_ip dst_ip proto payload s in
        (case pkt of
           None \<Rightarrow> (s1, -1)
         | Some p \<Rightarrow> loopback_enqueue (eth_hdr_build (g_mac s) ETHERTYPE_IPV4 s @ p) s1)
      else
        let (s1, hop) =
          (if dst_ip = g_bcast_ip then (s, Some g_bcast_mac)
           else net_arp_resolve d (if ip_on_local_subnet dst_ip s then dst_ip else g_gw s) s) in
        (case hop of
           None \<Rightarrow> (s1, -1)
         | Some mac \<Rightarrow>
             let (s2, pkt) = net_ipv4_build_src 1500 src_ip dst_ip proto payload s1 in
             (case pkt of
                None \<Rightarrow> (s2, -1)
              | Some p \<Rightarrow> virtio_net_tx d (eth_hdr_build mac ETHERTYPE_IPV4 s1 @ p) s2)))"

definition net_ipv4_send ::
    "netdev \<Rightarrow> byte list \<Rightarrow> byte \<Rightarrow> byte list \<Rightarrow> 'a net_scheme \<Rightarrow> 'a net_scheme \<times> int" where
  "net_ipv4_send d dst_ip proto payload s = net_ipv4_send_from d (g_ip s) dst_ip proto payload s"

section \<open>Receiving\<close>

definition part :: "nat \<Rightarrow> nat \<Rightarrow> 'a list \<Rightarrow> 'a list" where
  "part off n bs = take n (drop off bs)"

definition rx_handle_arp :: "netdev \<Rightarrow> byte list \<Rightarrow> 'a net_scheme \<Rightarrow> 'a net_scheme" where
  "rx_handle_arp d frame s =
     (if length frame < ETH_HDR_LEN + ARP_PKT_LEN then s
      else
        let a = drop ETH_HDR_LEN frame in
        if net_be16_to_cpu (get16 a 0) \<noteq> 1 then s
        else if net_be16_to_cpu (get16 a 2) \<noteq> ETHERTYPE_IPV4 then s
        else if a ! 4 \<noteq> 6 \<or> a ! 5 \<noteq> 4 then s
        else
          let sha = part 8 6 a; spa = part 14 4 a; tpa = part 24 4 a;
              s1 = arp_insert spa sha s
          in if net_be16_to_cpu (get16 a 6) = 1 \<and> tpa = g_ip s1
             then fst (virtio_net_tx d (eth_hdr_build sha ETHERTYPE_ARP s1 @
                         arp_pkt 2 (g_mac s1) (g_ip s1) sha spa) s1)
             else s1)"

text \<open>The checks of \<open>rx_handle_ipv4\<close>: protocol, source, destination and payload of an accepted
  packet.\<close>

definition ipv4_accept :: "byte list \<Rightarrow> 'a net_scheme \<Rightarrow> (byte \<times> byte list \<times> byte list \<times> byte list) option" where
  "ipv4_accept frame s =
     (if length frame < ETH_HDR_LEN + IPV4_HDR_LEN then None
      else
        let h = part ETH_HDR_LEN IPV4_HDR_LEN frame in
        if drop_bit 4 (h ! 0) \<noteq> 4 then None
        else if h ! 0 AND 0x0F \<noteq> 5 then None
        else
          let total = unat (net_be16_to_cpu (get16 h 2)) in
          if total > length frame - ETH_HDR_LEN then None
          else if total < IPV4_HDR_LEN then None
          else if net_ipv4_checksum (h[10 := 0, 11 := 0]) \<noteq> get16 h 10 then None
          else
            let dst = part 16 4 h in
            if \<not> (dst = g_ip s \<or> dst = g_bcast_ip \<or> net_is_local_ip dst s) then None
            else Some (h ! 9, part 12 4 h, dst, part (ETH_HDR_LEN + IPV4_HDR_LEN) (total - IPV4_HDR_LEN) frame))"

text \<open>The protocols above get the source, the destination and the payload.\<close>

type_synonym 's handler = "byte list \<Rightarrow> byte list \<Rightarrow> byte list \<Rightarrow> 's \<Rightarrow> 's"

definition rx_handle_ipv4 ::
    "'a net_scheme handler \<Rightarrow> 'a net_scheme handler \<Rightarrow> 'a net_scheme handler \<Rightarrow> byte list \<Rightarrow>
     'a net_scheme \<Rightarrow> 'a net_scheme" where
  "rx_handle_ipv4 icmp_handle udp_handle tcp_handle frame s =
     (case ipv4_accept frame s of
        None \<Rightarrow> s
      | Some (proto, src, dst, payload) \<Rightarrow>
          if proto = IPV4_PROTO_ICMP then icmp_handle src dst payload s
          else if proto = IPV4_PROTO_UDP then udp_handle src dst payload s
          else if proto = IPV4_PROTO_TCP then tcp_handle src dst payload s
          else s)"

definition rx_dispatch ::
    "netdev \<Rightarrow> 'a net_scheme handler \<Rightarrow> 'a net_scheme handler \<Rightarrow> 'a net_scheme handler \<Rightarrow> byte list \<Rightarrow>
     'a net_scheme \<Rightarrow> 'a net_scheme" where
  "rx_dispatch d icmp_handle udp_handle tcp_handle frame s =
     (if length frame < ETH_HDR_LEN then s
      else
        let et = push_bit 8 (ucast (frame ! 12)) OR ucast (frame ! 13) :: u16 in
        if et = ETHERTYPE_ARP then rx_handle_arp d frame s
        else if et = ETHERTYPE_IPV4 then rx_handle_ipv4 icmp_handle udp_handle tcp_handle frame s
        else s)"

section \<open>Configuration\<close>

definition net_get_config :: "'a net_scheme \<Rightarrow> byte list \<times> byte list \<times> byte list \<times> byte list" where
  "net_get_config s = (g_mac s, g_ip s, g_gw s, g_msk s)"

definition net_set_dns :: "byte list \<Rightarrow> 'a net_scheme \<Rightarrow> 'a net_scheme" where
  "net_set_dns dns_ip s = s\<lparr>g_dns := dns_ip\<rparr>"

definition net_get_dns :: "'a net_scheme \<Rightarrow> bool \<times> byte list" where
  "net_get_dns s =
     (let set_dns = (g_dns s ! 0 OR g_dns s ! 1 OR g_dns s ! 2 OR g_dns s ! 3) \<noteq> 0
      in (set_dns, if set_dns then g_dns s else replicate 4 0))"

definition arp_flush :: "'a net_scheme \<Rightarrow> 'a net_scheme" where
  "arp_flush s = s\<lparr>g_arp := map (\<lambda>e. e\<lparr>ae_valid := False\<rparr>) (g_arp s)\<rparr>"

definition net_attach :: "netdev \<Rightarrow> byte list \<Rightarrow> 'a net_scheme \<Rightarrow> 'a net_scheme \<times> int" where
  "net_attach d mac s =
     (if \<not> nd_present d then (s, -1)
      else (arp_flush (s\<lparr>g_mac := mac, g_ip := replicate 4 0, g_gw := replicate 4 0,
              g_msk := replicate 4 0, g_dns := replicate 4 0\<rparr>)\<lparr>g_initted := True\<rparr>, 0))"

definition net_set_ipv4_config ::
    "byte list \<Rightarrow> byte list \<Rightarrow> byte list \<Rightarrow> 'a net_scheme \<Rightarrow> 'a net_scheme \<times> int" where
  "net_set_ipv4_config local_ip gateway_ip netmask s =
     (if \<not> g_initted s then (s, -1)
      else (arp_flush (s\<lparr>g_ip := local_ip, g_gw := gateway_ip, g_msk := netmask\<rparr>), 0))"

definition net_init ::
    "netdev \<Rightarrow> byte list \<Rightarrow> byte list \<Rightarrow> byte list \<Rightarrow> byte list \<Rightarrow> 'a net_scheme \<Rightarrow> 'a net_scheme \<times> int" where
  "net_init d mac local_ip gateway_ip netmask s =
     (let (s1, r) = net_attach d mac s
      in if r < 0 then (s1, -1) else net_set_ipv4_config local_ip gateway_ip netmask s1)"

section \<open>What is sent is what is received\<close>

lemma be16_swap: "net_be16_to_cpu v = drop_bit 8 v OR push_bit 8 v"
proof -
  have m: "(0xFF00 :: u16) = push_bit 8 (mask 8)" "(0x00FF :: u16) = mask 8"
    by (simp_all add: mask_eq_exp_minus_1)
  show ?thesis
  proof (rule bit_word_eqI)
    fix n assume "n < LENGTH(16)"
    then show "bit (net_be16_to_cpu v) n = bit (drop_bit 8 v OR push_bit 8 v) n"
      unfolding net_be16_to_cpu_def m by (cases "n < 8") (auto simp: bit_simps dest: bit_imp_le_length)
  qed
qed

lemma be16_twice [simp]: "net_be16_to_cpu (net_cpu_to_be16 v) = v"
proof (rule bit_word_eqI)
  fix n assume "n < LENGTH(16)"
  then show "bit (net_be16_to_cpu (net_cpu_to_be16 v)) n = bit v n"
    by (cases "n < 8") (auto simp: be16_swap net_cpu_to_be16_def bit_simps dest: bit_imp_le_length)
qed

lemma get16_put16 [simp]: "get16 (put16 v @ bs) 0 = v" "get16 (put16 v) 0 = v"
  by (rule bit_word_eqI; auto simp: get16_def put16_def bit_simps)+

lemma get16_skip: "off = length xs \<Longrightarrow> get16 (xs @ ys) off = get16 ys 0"
  by (simp add: get16_def nth_append)

lemma length_put16 [simp]: "length (put16 v) = 2"
  by (simp add: put16_def)

definition addr :: "byte list \<Rightarrow> bool" where
  "addr ip \<longleftrightarrow> length ip = 4"

lemma length_ipv4_hdr [simp]:
  "addr src \<Longrightarrow> addr dst \<Longrightarrow> length (ipv4_hdr tlen ident proto ck src dst) = 20"
  by (simp add: ipv4_hdr_def addr_def)

lemma ipv4_hdr_fields:
  assumes "addr src" "addr dst" and h_def: "h = ipv4_hdr tlen ident proto ck src dst"
  shows "h ! 0 = 0x45" "get16 h 2 = net_cpu_to_be16 tlen" "get16 h 10 = ck" "h ! 9 = proto"
    "part 12 4 h = src" "part 16 4 h = dst" "h[10 := 0, 11 := 0] = ipv4_hdr tlen ident proto 0 src dst"
proof -
  have h1: "h = [0x45, 0] @ put16 (net_cpu_to_be16 tlen) @
      (put16 (net_cpu_to_be16 ident) @ [0, 0, 64, proto] @ put16 ck @ src @ dst)"
    by (simp add: h_def ipv4_hdr_def)
  show "get16 h 2 = net_cpu_to_be16 tlen" unfolding h1 by (subst get16_skip) simp_all
  have h2: "h = ([0x45, 0] @ put16 (net_cpu_to_be16 tlen) @ put16 (net_cpu_to_be16 ident) @ [0, 0, 64, proto]) @
      put16 ck @ src @ dst"
    by (simp add: h_def ipv4_hdr_def)
  show "get16 h 10 = ck" unfolding h2 by (subst get16_skip) simp_all
  show "part 12 4 h = src" "part 16 4 h = dst"
    using assms by (simp_all add: h_def ipv4_hdr_def part_def addr_def put16_def)
  show "h ! 0 = 0x45" "h ! 9 = proto" "h[10 := 0, 11 := 0] = ipv4_hdr tlen ident proto 0 src dst"
    by (simp_all add: h_def ipv4_hdr_def put16_def numeral_eq_Suc)
qed

text \<open>A frame around a built packet is accepted by the host it is addressed to, which gets the
  protocol, the addresses and the payload it was built from.\<close>

lemma ipv4_accept_built:
  assumes "addr src" "addr dst" "length eth = 14" "net_ipv4_build_src cap src dst proto payload s = (s', Some pkt)"
    and "dst = g_ip r \<or> dst = g_bcast_ip \<or> net_is_local_ip dst r" and "length payload < 2 ^ 31"
  shows "ipv4_accept (eth @ pkt) r = Some (proto, src, dst, payload)"
proof -
  let ?tlen = "20 + length payload"
  have m: "?tlen mod 4294967296 = ?tlen" using assms(6) by simp
  have t: "?tlen \<le> 0xFFFF" using assms(4) by (auto simp: net_ipv4_build_src_def m Let_def split: if_splits)
  let ?h0 = "ipv4_hdr (of_nat ?tlen) (g_ip_id s) proto 0 src dst"
  define h where "h = ipv4_hdr (of_nat ?tlen) (g_ip_id s) proto (net_ipv4_checksum ?h0) src dst"
  have pkt: "pkt = h @ payload"
    using assms(4) by (auto simp: net_ipv4_build_src_def m Let_def h_def split: if_splits)
  have lh: "length h = 20" using assms(1,2) by (simp add: h_def)
  have part: "part 14 20 (eth @ pkt) = h" using assms(3) lh by (simp add: part_def pkt)
  have pl: "part (14 + 20) (?tlen - 20) (eth @ pkt) = payload" using assms(3) lh by (simp add: part_def pkt)
  have u16: "unat (of_nat k :: u16) = k" if "k \<le> 65535" for k
    using that by (simp add: unsigned_of_nat take_bit_nat_eq_self_iff)
  have un: "unat (of_nat ?tlen :: u16) = ?tlen" using t by (intro u16) simp
  have v: "drop_bit 4 (0x45 :: byte) = 4" "(0x45 :: byte) AND 0x0F = 5" by simp_all
  note f = ipv4_hdr_fields [OF assms(1,2) h_def]
  have len: "length (eth @ pkt) = 14 + ?tlen" using assms(3) lh by (simp add: pkt)
  show ?thesis
    using assms(5) unfolding ipv4_accept_def len part Let_def f be16_twice un v
    by (simp add: pl [simplified])
qed

section \<open>The loopback queue is first-in first-out\<close>

definition lo_ok :: "'a net_scheme \<Rightarrow> bool" where
  "lo_ok s \<longleftrightarrow> length (g_lo_buf s) = 64 \<and> g_lo_head s < 64 \<and> g_lo_tail s < 64"

definition lo_frames :: "'a net_scheme \<Rightarrow> byte list list" where
  "lo_frames s = map (\<lambda>i. g_lo_buf s ! ((g_lo_head s + i) mod 64)) [0..<(g_lo_tail s + 64 - g_lo_head s) mod 64]"

lemma lo_length: "length (lo_frames s) = (g_lo_tail s + 64 - g_lo_head s) mod 64"
  by (simp add: lo_frames_def)

lemma lo_used_Suc:
  fixes h t :: nat
  assumes "h < 64" "t < 64" "(t + 1) mod 64 \<noteq> h"
  shows "((t + 1) mod 64 + 64 - h) mod 64 = Suc ((t + 64 - h) mod 64)"
proof (cases "h \<le> t")
  case True
  then have "(t + 64 - h) mod 64 = t - h" using assms by (simp add: mod_if)
  moreover have "((t + 1) mod 64 + 64 - h) mod 64 = t + 1 - h"
    using assms True by (cases "t = 63") (auto simp: mod_if)
  ultimately show ?thesis using True by simp
next
  case False
  then have "(t + 64 - h) mod 64 = t + 64 - h" using assms by simp
  moreover have "((t + 1) mod 64 + 64 - h) mod 64 = t + 1 + 64 - h"
    using assms False by simp
  ultimately show ?thesis using False assms(1) by simp
qed

lemma loopback_enqueue_spec:
  assumes "lo_ok s" "length (lo_frames s) < 63" "length f \<le> 1514"
  shows "snd (loopback_enqueue f s) = 0" "lo_ok (fst (loopback_enqueue f s))"
    "lo_frames (fst (loopback_enqueue f s)) = lo_frames s @ [f]"
proof -
  let ?h = "g_lo_head s" and ?t = "g_lo_tail s"
  have b: "?h < 64" "?t < 64" "length (g_lo_buf s) = 64" using assms(1) by (auto simp: lo_ok_def)
  have n: "(?t + 1) mod 64 \<noteq> ?h"
  proof
    assume h: "(?t + 1) mod 64 = ?h"
    have "(?t + 64 - ?h) mod 64 = 63"
    proof (cases "?t = 63")
      case True
      then show ?thesis using h by simp
    next
      case False
      then have "?h = ?t + 1" using h b by simp
      then show ?thesis by simp
    qed
    then show False using assms(2) by (simp add: lo_length)
  qed
  let ?n = "(?t + 64 - ?h) mod 64"
  show "snd (loopback_enqueue f s) = 0" "lo_ok (fst (loopback_enqueue f s))"
    using n assms(3) b by (simp_all add: loopback_enqueue_def lo_ok_def Let_def)
  have last: "(?h + ?n) mod 64 = ?t" using b by (simp add: mod_add_right_eq)
  have at: "?t \<noteq> (?h + i) mod 64" if "i < ?n" for i
  proof
    assume e: "?t = (?h + i) mod 64"
    have "?n < 64" by simp
    then have "i < 64" using that by (rule less_trans [rotated])
    moreover have "(?h + i) mod 64 = (?h + ?n) mod 64" by (rule trans [OF e [symmetric] last [symmetric]])
    ultimately have "i = ?n" using \<open>?n < 64\<close> by (intro ring_inj [of i 64 ?n ?h])
    from subst [of i ?n "\<lambda>x. x < ?n", OF this that] show False by (rule less_irrefl [THEN notE])
  qed
  have "lo_frames (fst (loopback_enqueue f s)) =
      map (\<lambda>i. (g_lo_buf s)[?t := f] ! ((?h + i) mod 64)) [0..<((?t + 1) mod 64 + 64 - ?h) mod 64]"
    using n assms(3) by (simp add: loopback_enqueue_def lo_frames_def Let_def)
  also have "\<dots> = map (\<lambda>i. (g_lo_buf s)[?t := f] ! ((?h + i) mod 64)) [0..<?n] @ [f]"
  proof -
    have "(g_lo_buf s)[?t := f] ! ?t = f" using b by simp
    then show ?thesis
      unfolding lo_used_Suc [OF b(1,2) n] upt_Suc_append [OF le0] map_append list.map last by simp
  qed
  also have "map (\<lambda>i. (g_lo_buf s)[?t := f] ! ((?h + i) mod 64)) [0..<?n] = lo_frames s"
    unfolding lo_frames_def by (rule map_cong [OF refl]) (use at in auto)
  finally show "lo_frames (fst (loopback_enqueue f s)) = lo_frames s @ [f]" .
qed

text \<open>What one turn of the drain loop takes out.\<close>

definition lo_pop :: "'a net_scheme \<Rightarrow> byte list \<times> 'a net_scheme" where
  "lo_pop s = (g_lo_buf s ! g_lo_head s, s\<lparr>g_lo_head := (g_lo_head s + 1) mod 64\<rparr>)"

lemma lo_pop_spec:
  assumes "lo_ok s" "lo_frames s \<noteq> []"
  shows "lo_ok (snd (lo_pop s))" "lo_frames s = fst (lo_pop s) # lo_frames (snd (lo_pop s))"
proof -
  let ?h = "g_lo_head s" and ?t = "g_lo_tail s"
  have b: "?h < 64" "?t < 64" "length (g_lo_buf s) = 64" using assms(1) by (auto simp: lo_ok_def)
  show "lo_ok (snd (lo_pop s))" using b by (simp add: lo_ok_def lo_pop_def)
  have "(?t + 64 - ?h) mod 64 \<noteq> 0" using assms(2) by (simp add: lo_frames_def)
  then have n: "(?t + 64 - ?h) mod 64 = Suc ((?t + 64 - (?h + 1) mod 64) mod 64)"
    using b by (cases "?h = 63") (auto simp: mod_if split: if_splits)
  have "lo_frames s = map (\<lambda>i. g_lo_buf s ! ((?h + i) mod 64)) [0..<Suc ((?t + 64 - (?h + 1) mod 64) mod 64)]"
    unfolding lo_frames_def n ..
  also have "\<dots> = g_lo_buf s ! ?h # map (\<lambda>i. g_lo_buf s ! (((?h + 1) mod 64 + i) mod 64))
      [0..<(?t + 64 - (?h + 1) mod 64) mod 64]"
    unfolding upt_conv_Cons [OF zero_less_Suc] list.map map_Suc_upt [symmetric] map_map
    using b by (simp add: o_def mod_add_left_eq)
  finally show "lo_frames s = fst (lo_pop s) # lo_frames (snd (lo_pop s))"
    by (simp add: lo_pop_def lo_frames_def)
qed

lemma lo_nonempty: "lo_ok s \<Longrightarrow> g_lo_head s \<noteq> g_lo_tail s \<longleftrightarrow> lo_frames s \<noteq> []"
  by (auto simp: lo_ok_def lo_frames_def mod_if split: if_splits)

section \<open>Sending to the host itself\<close>

lemma put16_clear:
  "length xs = off \<Longrightarrow> (xs @ put16 v @ ys)[off := 0, Suc off := 0] = xs @ put16 0 @ ys"
  by (auto simp: put16_def list_update_append)

lemma build_ok:
  assumes "length p \<le> 1480" "addr src" "addr dst"
  obtains pkt where "net_ipv4_build_src 1500 src dst proto p s = (s\<lparr>g_ip_id := g_ip_id s + 1\<rparr>, Some pkt)"
    "length pkt = 20 + length p"
proof -
  have "(20 + length p) mod 4294967296 = 20 + length p" using assms(1) by simp
  then show ?thesis
    using that assms by (simp add: net_ipv4_build_src_def Let_def)
qed

lemma ip_id_frame [simp]:
  "lo_ok (s\<lparr>g_ip_id := i\<rparr>) = lo_ok s" "lo_frames (s\<lparr>g_ip_id := i\<rparr>) = lo_frames s"
  by (simp_all add: lo_ok_def lo_frames_def)

lemma length_eth_hdr: "length mac = 6 \<Longrightarrow> length (g_mac s) = 6 \<Longrightarrow> length (eth_hdr_build mac et s) = 14"
  by (simp add: eth_hdr_build_def)

lemma eth_hdr_type:
  assumes "length mac = 6" "length (g_mac s) = 6"
  shows "(eth_hdr_build mac ETHERTYPE_IPV4 s @ pkt) ! 12 = 8" "(eth_hdr_build mac ETHERTYPE_IPV4 s @ pkt) ! 13 = 0"
  using assms by (simp_all add: eth_hdr_build_def nth_append)

lemma send_local:
  assumes "nd_present d" "length p \<le> 1480" "addr src" "addr dst" "length (g_mac s) = 6"
    "net_is_local_ip dst s" "lo_ok s" "length (lo_frames s) < 63"
  obtains s' f where "net_ipv4_send_from d src dst proto p s = (s', 0)" "lo_ok s'" "lo_frames s' = lo_frames s @ [f]"
    "g_ip s' = g_ip s" "g_mac s' = g_mac s"
    "\<And>icmp udp tcp r. net_is_local_ip dst r \<Longrightarrow>
       rx_dispatch d icmp udp tcp f r = rx_handle_ipv4 icmp udp tcp f r \<and> ipv4_accept f r = Some (proto, src, dst, p)"
proof -
  let ?s1 = "s\<lparr>g_ip_id := g_ip_id s + 1\<rparr>"
  obtain pkt where b: "net_ipv4_build_src 1500 src dst proto p s = (?s1, Some pkt)" "length pkt = 20 + length p"
    using assms(2,3,4) by (rule build_ok)
  define f where "f = eth_hdr_build (g_mac s) ETHERTYPE_IPV4 s @ pkt"
  have le: "length (eth_hdr_build (g_mac s) ETHERTYPE_IPV4 s) = 14" using assms(5) by (simp add: length_eth_hdr)
  have lf: "length f \<le> 1514" "\<not> length f < 14" using assms(2) b(2) le by (simp_all add: f_def)
  have q: "lo_ok ?s1" "length (lo_frames ?s1) < 63" using assms(7,8) by simp_all
  note enq = loopback_enqueue_spec [OF q lf(1)]
  obtain s' r where e: "loopback_enqueue f ?s1 = (s', r)" by fastforce
  have send: "net_ipv4_send_from d src dst proto p s = (s', 0)"
    using assms(1,2,6) b(1) e enq(1) by (simp add: net_ipv4_send_from_def f_def)
  have rx: "rx_dispatch d icmp udp tcp f r = rx_handle_ipv4 icmp udp tcp f r" for icmp udp tcp r
    using lf(2) eth_hdr_type [of "g_mac s" s pkt] assms(5) by (simp add: rx_dispatch_def f_def Let_def)
  have "ipv4_accept f r = Some (proto, src, dst, p)" if "net_is_local_ip dst r" for r
    unfolding f_def using assms(2) that by (intro ipv4_accept_built [OF assms(3,4) le b(1)]) auto
  moreover have "g_ip s' = g_ip s" "g_mac s' = g_mac s"
    using e by (auto simp: loopback_enqueue_def Let_def split: if_splits)
  ultimately show ?thesis using enq e rx by (intro that [OF send, of f]) auto
qed

section \<open>What sending leaves alone\<close>

lemma arp_wait_more: "net.more (arp_wait ip hs s) = net.more s"
  by (induction hs arbitrary: s) (auto simp: arp_insert_def Let_def)

lemma net_arp_resolve_more: "net.more (fst (net_arp_resolve d ip s)) = net.more s"
  by (auto simp: net_arp_resolve_def net_arp_request_def virtio_net_tx_def arp_wait_more Let_def
      split: option.splits prod.splits)

lemma net_arp_resolve_moreD: "net_arp_resolve d ip s = (t, r) \<Longrightarrow> net.more t = net.more s"
  using net_arp_resolve_more [of d ip s] by simp

lemma net_ipv4_send_from_more: "net.more (fst (net_ipv4_send_from d src dst pr p s)) = net.more s"
  by (auto simp: net_ipv4_send_from_def net_ipv4_build_src_def loopback_enqueue_def
      virtio_net_tx_def Let_def split: option.splits prod.splits dest!: net_arp_resolve_moreD)

end
