(* ===== verification/Tcp.thy ===== *)
theory Tcp
  imports Inet
begin

text \<open>
  The TCP of \<open>kernel/core/tcp.c\<close>: the table of 16 connections, the segments it sends through
  \<^verbatim>\<open>Inet\<close>, the handler of arriving segments, the operations of a socket, and the poll that
  retransmits and reaps.

  Of \<open>rx_buf\<close> the model keeps the first \<open>rx_len\<close> bytes.  Of \<open>tx_buf\<close> it keeps the buffered
  bytes, and \<open>tx_len\<close> is kept beside them at its width, since the code computes with it modulo
  \<open>2^32\<close>; \<open>conn_ok\<close> says that the two agree.  \<open>te_isn n\<close> is the \<open>n\<close>-th value read from the
  counter that gives the initial sequence numbers.  \<open>segs\<close> records what is handed to \<open>tcp_tx\<close>,
  for the theorems; nothing reads it.
\<close>

section \<open>State\<close>

abbreviation (input) TCP_CONN_CAP :: nat where "TCP_CONN_CAP \<equiv> 16"
abbreviation (input) TCP_BUF_SIZE :: u32 where "TCP_BUF_SIZE \<equiv> 32768"
abbreviation (input) TCP_MSS :: u16 where "TCP_MSS \<equiv> 1460"
abbreviation (input) TCP_RTX_THRESH :: u64 where "TCP_RTX_THRESH \<equiv> 200000"
abbreviation (input) TCP_TX_MAX :: u32 where "TCP_TX_MAX \<equiv> 1400"
abbreviation (input) TCP_ACCEPT_QCAP :: nat where "TCP_ACCEPT_QCAP \<equiv> 8"
abbreviation (input) TCP_HDR_MIN_LEN :: nat where "TCP_HDR_MIN_LEN \<equiv> 20"

abbreviation (input) TCP_FLAG_FIN :: byte where "TCP_FLAG_FIN \<equiv> 0x01"
abbreviation (input) TCP_FLAG_SYN :: byte where "TCP_FLAG_SYN \<equiv> 0x02"
abbreviation (input) TCP_FLAG_RST :: byte where "TCP_FLAG_RST \<equiv> 0x04"
abbreviation (input) TCP_FLAG_PSH :: byte where "TCP_FLAG_PSH \<equiv> 0x08"
abbreviation (input) TCP_FLAG_ACK :: byte where "TCP_FLAG_ACK \<equiv> 0x10"

datatype tcp_state =
    TCP_CLOSED | TCP_LISTEN | TCP_SYN_SENT | TCP_SYN_RECEIVED | TCP_ESTABLISHED
  | TCP_FIN_WAIT_1 | TCP_FIN_WAIT_2 | TCP_CLOSE_WAIT | TCP_LAST_ACK | TCP_TIME_WAIT

record tcp_conn =
  c_valid :: bool
  c_state :: tcp_state
  remote_ip :: "byte list"
  local_port :: u16
  remote_port :: u16
  snd_iss :: u32
  snd_una :: u32
  snd_nxt :: u32
  snd_wnd :: u32
  rcv_irs :: u32
  rcv_nxt :: u32
  tx_buf :: "byte list"
  tx_len :: u32
  rx_buf :: "byte list"
  fin_sent :: bool
  fin_acked :: bool
  peer_fin :: bool
  c_reset :: bool
  user_closed :: bool
  last_tx_poll :: u64
  accept_q :: "nat list"
  parent_listen_cid :: int
  dbg_rx_total :: u32
  dbg_rx_next_log :: u32
  dbg_rx_rejected :: u32
  dbg_rtx_fired :: u32

text \<open>The fields of a segment, as they are before encoding and after decoding.\<close>

record tcp_seg =
  sg_src_port :: u16
  sg_dst_port :: u16
  sg_seq :: u32
  sg_ack :: u32
  sg_flags :: byte
  sg_wnd :: u16
  sg_data :: "byte list"

record tcp = net +
  g_conns :: "tcp_conn list"
  g_poll_counter :: u64
  g_next_eph_port :: u16
  isns :: nat
  segs :: "(byte list \<times> tcp_seg) list"

record tcpenv =
  te_dev :: netdev
  te_isn :: "nat \<Rightarrow> u32"

definition zero_conn :: tcp_conn where
  "zero_conn = \<lparr>c_valid = False, c_state = TCP_CLOSED, remote_ip = [0, 0, 0, 0], local_port = 0,
     remote_port = 0, snd_iss = 0, snd_una = 0, snd_nxt = 0, snd_wnd = 0, rcv_irs = 0, rcv_nxt = 0,
     tx_buf = [], tx_len = 0, rx_buf = [], fin_sent = False, fin_acked = False, peer_fin = False,
     c_reset = False, user_closed = False, last_tx_poll = 0, accept_q = [], parent_listen_cid = 0,
     dbg_rx_total = 0, dbg_rx_next_log = 0, dbg_rx_rejected = 0, dbg_rtx_fired = 0\<rparr>"

definition set_conn :: "nat \<Rightarrow> tcp_conn \<Rightarrow> 'a tcp_scheme \<Rightarrow> 'a tcp_scheme" where
  "set_conn i c s = s\<lparr>g_conns := (g_conns s)[i := c]\<rparr>"

definition fresh_isn :: "tcpenv \<Rightarrow> 'a tcp_scheme \<Rightarrow> 'a tcp_scheme \<times> u32" where
  "fresh_isn e s = (s\<lparr>isns := isns s + 1\<rparr>, te_isn e (isns s))"

section \<open>The connection table\<close>

definition alloc_conn :: "'a tcp_scheme \<Rightarrow> 'a tcp_scheme \<times> nat option" where
  "alloc_conn s =
     (case first_index (\<lambda>c. \<not> c_valid c) (g_conns s) of
        Some i \<Rightarrow> (set_conn i (zero_conn\<lparr>c_valid := True, parent_listen_cid := -1,
                     dbg_rx_next_log := 1024 * 1024\<rparr>) s, Some i)
      | None \<Rightarrow> (s, None))"

definition release_conn :: "nat \<Rightarrow> 'a tcp_scheme \<Rightarrow> 'a tcp_scheme" where
  "release_conn cid s = (if cid \<ge> TCP_CONN_CAP then s else set_conn cid zero_conn s)"

definition get_conn :: "int \<Rightarrow> 'a tcp_scheme \<Rightarrow> tcp_conn option" where
  "get_conn cid s =
     (if cid < 0 \<or> cid \<ge> int TCP_CONN_CAP then None
      else if \<not> c_valid (g_conns s ! nat cid) then None
      else Some (g_conns s ! nat cid))"

definition find_conn_for_pkt :: "byte list \<Rightarrow> u16 \<Rightarrow> u16 \<Rightarrow> 'a tcp_scheme \<Rightarrow> nat option" where
  "find_conn_for_pkt ip lport rport s =
     first_index (\<lambda>c. c_valid c \<and> local_port c = lport \<and> remote_port c = rport \<and> remote_ip c = ip)
       (g_conns s)"

definition find_listener_for_port :: "u16 \<Rightarrow> 'a tcp_scheme \<Rightarrow> nat option" where
  "find_listener_for_port lport s =
     first_index (\<lambda>c. c_valid c \<and> c_state c = TCP_LISTEN \<and> local_port c = lport) (g_conns s)"

definition count_listener_children :: "nat \<Rightarrow> 'a tcp_scheme \<Rightarrow> nat" where
  "count_listener_children listen_cid s =
     length (filter (\<lambda>c. c_valid c \<and> parent_listen_cid c = int listen_cid) (g_conns s))"

section \<open>Segments on the wire\<close>

definition put32be :: "u32 \<Rightarrow> byte list" where
  "put32be v = [ucast (drop_bit 24 v), ucast (drop_bit 16 v), ucast (drop_bit 8 v), ucast v]"

definition get32be :: "byte list \<Rightarrow> nat \<Rightarrow> u32" where
  "get32be bs off = push_bit 24 (ucast (bs ! off)) OR push_bit 16 (ucast (bs ! (off + 1))) OR
     push_bit 8 (ucast (bs ! (off + 2))) OR ucast (bs ! (off + 3))"

definition tcp_compute_checksum :: "byte list \<Rightarrow> byte list \<Rightarrow> byte list \<Rightarrow> u16" where
  "tcp_compute_checksum src_ip dst_ip sg =
     (if length sg > 1500 then 0
      else net_ipv4_checksum (src_ip @ dst_ip @
             [0, IPV4_PROTO_TCP, of_nat (length sg div 256), of_nat (length sg)] @ sg))"

definition tcp_hdr_bytes :: "u16 \<Rightarrow> u16 \<Rightarrow> u32 \<Rightarrow> u32 \<Rightarrow> nat \<Rightarrow> byte \<Rightarrow> u16 \<Rightarrow> u16 \<Rightarrow> byte list" where
  "tcp_hdr_bytes sport dport sq ack hdr_len flags window checksum =
     put16 (net_cpu_to_be16 sport) @ put16 (net_cpu_to_be16 dport) @ put32be sq @ put32be ack @
     [push_bit 4 (of_nat (hdr_len div 4)), flags] @ put16 (net_cpu_to_be16 window) @
     put16 checksum @ put16 0"

definition adv_wnd :: "tcp_conn \<Rightarrow> u16" where
  "adv_wnd c =
     (let free_rx = TCP_BUF_SIZE - of_nat (length (rx_buf c))
      in if free_rx > 0xFFFF then 0xFFFF else ucast free_rx)"

definition mss_option :: "byte list" where
  "mss_option = [2, 4, ucast (drop_bit 8 TCP_MSS), ucast TCP_MSS]"

text \<open>The bytes of a segment of connection \<open>c\<close>, from the local address \<open>our_ip\<close>.\<close>

definition tcp_segment :: "byte list \<Rightarrow> tcp_conn \<Rightarrow> byte \<Rightarrow> u32 \<Rightarrow> u32 \<Rightarrow> byte list \<Rightarrow> bool \<Rightarrow> byte list" where
  "tcp_segment our_ip c flags sq ack payload with_mss_option =
     (let hdr_len = (if with_mss_option then TCP_HDR_MIN_LEN + 4 else TCP_HDR_MIN_LEN);
          rest = (if with_mss_option then mss_option else []) @ take 1460 payload;
          hdr = tcp_hdr_bytes (local_port c) (remote_port c) sq ack hdr_len flags (adv_wnd c);
          cks = tcp_compute_checksum our_ip (remote_ip c) (hdr 0 @ rest)
      in hdr cks @ rest)"

definition tcp_tx ::
    "tcpenv \<Rightarrow> tcp_conn \<Rightarrow> byte \<Rightarrow> u32 \<Rightarrow> u32 \<Rightarrow> byte list \<Rightarrow> bool \<Rightarrow> 'a tcp_scheme \<Rightarrow> 'a tcp_scheme \<times> int" where
  "tcp_tx e c flags sq ack payload with_mss_option s =
     (let our_ip = net_choose_src (remote_ip c) s;
          sg = \<lparr>sg_src_port = local_port c, sg_dst_port = remote_port c, sg_seq = sq, sg_ack = ack,
                sg_flags = flags, sg_wnd = adv_wnd c, sg_data = take 1460 payload\<rparr>
      in net_ipv4_send_from (te_dev e) our_ip (remote_ip c) IPV4_PROTO_TCP
           (tcp_segment our_ip c flags sq ack payload with_mss_option)
           (s\<lparr>segs := segs s @ [(remote_ip c, sg)]\<rparr>))"

definition tcp_send_ack :: "tcpenv \<Rightarrow> tcp_conn \<Rightarrow> 'a tcp_scheme \<Rightarrow> 'a tcp_scheme" where
  "tcp_send_ack e c s = fst (tcp_tx e c TCP_FLAG_ACK (snd_nxt c) (rcv_nxt c) [] False s)"

section \<open>Draining the transmit buffer\<close>

text \<open>The functions from here to \<open>handle_established\<close> take the connection out of the table and
  give it back; sending does not look at the table.\<close>

lemma drain_measure:
  fixes wnd in_flight sg :: u32
  assumes "in_flight < wnd" "sg \<le> wnd - in_flight" "sg \<noteq> 0"
  shows "unat (wnd - (in_flight + sg)) < unat (wnd - in_flight)"
proof -
  have "wnd - (in_flight + sg) = (wnd - in_flight) - sg" by simp
  then have "unat (wnd - (in_flight + sg)) = unat (wnd - in_flight) - unat sg"
    using assms(2) by (metis unat_sub)
  moreover have "0 < unat sg" using assms(3) by (metis neq0_conv unat_eq_0)
  moreover have "unat sg \<le> unat (wnd - in_flight)" using assms(2) by (simp add: word_le_nat_alt)
  ultimately show ?thesis by linarith
qed

definition seg_size :: "tcp_conn \<Rightarrow> u32 \<Rightarrow> u32 \<Rightarrow> u32" where
  "seg_size c wnd in_flight =
     (let avail = tx_len c - (snd_nxt c - snd_una c); can = wnd - in_flight;
          sg = (if avail < can then avail else can)
      in if sg > TCP_TX_MAX then TCP_TX_MAX else sg)"

lemma seg_size_le: "seg_size c wnd in_flight \<le> wnd - in_flight"
  by (auto simp: seg_size_def Let_def)

lemma seg_size_nonzero:
  assumes "in_flight < wnd" "snd_nxt c - snd_una c < tx_len c"
  shows "seg_size c wnd in_flight \<noteq> 0"
proof -
  have "wnd - in_flight \<noteq> 0" using assms(1) by auto
  moreover have "tx_len c - (snd_nxt c - snd_una c) \<noteq> 0" using assms(2) by auto
  ultimately show ?thesis by (auto simp: seg_size_def Let_def)
qed

function drain_loop :: "tcpenv \<Rightarrow> u32 \<Rightarrow> u32 \<Rightarrow> tcp_conn \<Rightarrow> 'a tcp_scheme \<Rightarrow> tcp_conn \<times> 'a tcp_scheme" where
  "drain_loop e wnd in_flight c s =
     (if in_flight < wnd \<and> snd_nxt c - snd_una c < tx_len c then
        let buf_off = snd_nxt c - snd_una c;
            sg = seg_size c wnd in_flight;
            (s1, r) = tcp_tx e c (TCP_FLAG_ACK OR TCP_FLAG_PSH) (snd_nxt c) (rcv_nxt c)
                        (take (unat sg) (drop (unat buf_off) (tx_buf c))) False s
        in if r < 0 then (c, s1)
           else drain_loop e wnd (in_flight + sg)
                  (c\<lparr>snd_nxt := snd_nxt c + sg, last_tx_poll := g_poll_counter s1\<rparr>) s1
      else (c, s))"
  by pat_completeness auto
termination
  by (relation "measure (\<lambda>(e, wnd, in_flight, c, s). unat (wnd - in_flight))")
     (auto intro!: drain_measure seg_size_le dest: seg_size_nonzero)

declare drain_loop.simps [simp del]

definition drain_fin :: "tcpenv \<Rightarrow> tcp_conn \<Rightarrow> 'a tcp_scheme \<Rightarrow> tcp_conn \<times> 'a tcp_scheme" where
  "drain_fin e c s =
     (if \<not> fin_sent c \<and> (c_state c = TCP_FIN_WAIT_1 \<or> c_state c = TCP_LAST_ACK) \<and>
         snd_nxt c - snd_una c \<ge> tx_len c then
        let s1 = fst (tcp_tx e c (TCP_FLAG_ACK OR TCP_FLAG_FIN) (snd_nxt c) (rcv_nxt c) [] False s)
        in (c\<lparr>snd_nxt := snd_nxt c + 1, fin_sent := True, last_tx_poll := g_poll_counter s1\<rparr>, s1)
      else (c, s))"

definition tcp_drain_tx :: "tcpenv \<Rightarrow> tcp_conn \<Rightarrow> 'a tcp_scheme \<Rightarrow> tcp_conn \<times> 'a tcp_scheme" where
  "tcp_drain_tx e c s =
     (let in_flight = snd_nxt c - snd_una c;
          wnd = (if snd_wnd c = 0 then 1 else snd_wnd c);
          (c1, s1) = drain_loop e wnd in_flight c s
      in drain_fin e c1 s1)"

section \<open>The operations of a socket\<close>

definition tcp_connect :: "tcpenv \<Rightarrow> byte list \<Rightarrow> u16 \<Rightarrow> 'a tcp_scheme \<Rightarrow> 'a tcp_scheme \<times> int" where
  "tcp_connect e dst_ip dst_port s =
     (case alloc_conn s of
        (s0, None) \<Rightarrow> (s0, -1)
      | (s0, Some cid) \<Rightarrow>
          let lport = g_next_eph_port s0;
              nxt = lport + 1;
              s1 = s0\<lparr>g_next_eph_port := if nxt = 0 then 49152 else nxt\<rparr>;
              (s2, iss) = fresh_isn e s1;
              c = (g_conns s2 ! cid)\<lparr>remote_ip := dst_ip, remote_port := dst_port, local_port := lport,
                    snd_iss := iss, snd_una := iss, snd_nxt := iss, snd_wnd := TCP_BUF_SIZE,
                    c_state := TCP_SYN_SENT, last_tx_poll := g_poll_counter s2\<rparr>;
              s3 = set_conn cid c s2;
              (s4, r) = tcp_tx e c TCP_FLAG_SYN (snd_iss c) 0 [] True s3
          in if r < 0 then (release_conn cid s4, -1)
             else (set_conn cid (c\<lparr>snd_nxt := snd_iss c + 1\<rparr>) s4, int cid))"

definition tcp_listen :: "u16 \<Rightarrow> 'a tcp_scheme \<Rightarrow> 'a tcp_scheme \<times> int" where
  "tcp_listen lport s =
     (if lport = 0 then (s, -2)
      else if find_listener_for_port lport s \<noteq> None then (s, -2)
      else case alloc_conn s of
             (s1, None) \<Rightarrow> (s1, -1)
           | (s1, Some cid) \<Rightarrow>
               (set_conn cid ((g_conns s1 ! cid)\<lparr>local_port := lport, c_state := TCP_LISTEN\<rparr>) s1, int cid))"

definition tcp_accept :: "int \<Rightarrow> 'a tcp_scheme \<Rightarrow> 'a tcp_scheme \<times> int" where
  "tcp_accept listen_cid s =
     (case get_conn listen_cid s of
        None \<Rightarrow> (s, -1)
      | Some l \<Rightarrow>
          if c_state l \<noteq> TCP_LISTEN then (s, -1)
          else case accept_q l of
                 [] \<Rightarrow> (s, -2)
               | cid # q \<Rightarrow>
                   let s1 = set_conn (nat listen_cid) (l\<lparr>accept_q := q\<rparr>) s
                   in (case get_conn (int cid) s1 of
                         None \<Rightarrow> (s1, int cid)
                       | Some c \<Rightarrow> (set_conn cid (c\<lparr>parent_listen_cid := -1\<rparr>) s1, int cid)))"

definition send_conn :: "tcpenv \<Rightarrow> byte list \<Rightarrow> tcp_conn \<Rightarrow> 'a tcp_scheme \<Rightarrow> (tcp_conn \<times> 'a tcp_scheme) \<times> int" where
  "send_conn e bytes c s =
     (if c_reset c then ((c, s), -1)
      else if c_state c \<noteq> TCP_ESTABLISHED \<and> c_state c \<noteq> TCP_CLOSE_WAIT then ((c, s), -1)
      else
        let free = TCP_BUF_SIZE - tx_len c;
            put = min (length bytes) (unat free);
            c1 = c\<lparr>tx_buf := take (unat (tx_len c)) (tx_buf c) @ take put bytes,
                   tx_len := tx_len c + of_nat put\<rparr>
        in (tcp_drain_tx e c1 s, int put))"

definition tcp_send :: "tcpenv \<Rightarrow> int \<Rightarrow> byte list \<Rightarrow> 'a tcp_scheme \<Rightarrow> 'a tcp_scheme \<times> int" where
  "tcp_send e cid bytes s =
     (case get_conn cid s of
        None \<Rightarrow> (s, -1)
      | Some c \<Rightarrow> let ((c1, s1), r) = send_conn e bytes c s in (set_conn (nat cid) c1 s1, r))"

definition recv_conn :: "tcpenv \<Rightarrow> nat \<Rightarrow> tcp_conn \<Rightarrow> 'a tcp_scheme \<Rightarrow> (tcp_conn \<times> 'a tcp_scheme) \<times> int \<times> byte list" where
  "recv_conn e cap c s =
     (if c_reset c then ((c, s), -1, [])
      else if rx_buf c = [] then ((c, s), 0, [])
      else
        let tk = min (length (rx_buf c)) cap;
            free_before = TCP_BUF_SIZE - of_nat (length (rx_buf c));
            c1 = c\<lparr>rx_buf := drop tk (rx_buf c)\<rparr>;
            receive_active = (c_state c = TCP_ESTABLISHED \<or> c_state c = TCP_FIN_WAIT_1 \<or>
                              c_state c = TCP_FIN_WAIT_2);
            s1 = (if receive_active \<and> tk \<ge> 1460 then tcp_send_ack e c1 s
                  else if receive_active \<and> free_before < 1460 \<and>
                          TCP_BUF_SIZE - of_nat (length (rx_buf c1)) \<ge> 1460 then tcp_send_ack e c1 s
                  else s)
        in ((c1, s1), int tk, take tk (rx_buf c)))"

definition tcp_recv :: "tcpenv \<Rightarrow> int \<Rightarrow> nat \<Rightarrow> 'a tcp_scheme \<Rightarrow> 'a tcp_scheme \<times> int \<times> byte list" where
  "tcp_recv e cid cap s =
     (case get_conn cid s of
        None \<Rightarrow> (s, -1, [])
      | Some c \<Rightarrow> let ((c1, s1), r) = recv_conn e cap c s in (set_conn (nat cid) c1 s1, r))"

text \<open>The loop of \<open>tcp_close\<close> over the connections that wait to be accepted.\<close>

fun flush_queue :: "tcpenv \<Rightarrow> nat list \<Rightarrow> 'a tcp_scheme \<Rightarrow> 'a tcp_scheme" where
  "flush_queue e [] s = s"
| "flush_queue e (child # q) s =
     flush_queue e q
       (if child < TCP_CONN_CAP \<and> c_valid (g_conns s ! child) then
          let cc = g_conns s ! child;
              s1 = fst (tcp_tx e cc (TCP_FLAG_RST OR TCP_FLAG_ACK) (snd_nxt cc) (rcv_nxt cc) [] False s)
          in release_conn child s1
        else s)"

text \<open>What \<open>tcp_close\<close> does to a connection that is neither a listener nor reset nor closed.\<close>

definition close_conn :: "tcpenv \<Rightarrow> tcp_conn \<Rightarrow> 'a tcp_scheme \<Rightarrow> tcp_conn \<times> 'a tcp_scheme" where
  "close_conn e c s =
     (if c_state c = TCP_ESTABLISHED then tcp_drain_tx e (c\<lparr>c_state := TCP_FIN_WAIT_1\<rparr>) s
      else if c_state c = TCP_CLOSE_WAIT then tcp_drain_tx e (c\<lparr>c_state := TCP_LAST_ACK\<rparr>) s
      else (c, s))"

definition tcp_close :: "tcpenv \<Rightarrow> int \<Rightarrow> 'a tcp_scheme \<Rightarrow> 'a tcp_scheme \<times> int" where
  "tcp_close e cid s =
     (case get_conn cid s of
        None \<Rightarrow> (s, -1)
      | Some c0 \<Rightarrow>
          let i = nat cid; c = c0\<lparr>user_closed := True\<rparr>; s0 = set_conn i c s in
          if c_reset c then (release_conn i s0, 0)
          else if c_state c = TCP_LISTEN then (release_conn i (flush_queue e (accept_q c) s0), 0)
          else if c_state c = TCP_CLOSED then (release_conn i s0, 0)
          else let (c1, s1) = close_conn e c s0 in (set_conn i c1 s1, 0))"

definition tcp_state_of :: "int \<Rightarrow> 'a tcp_scheme \<Rightarrow> tcp_state" where
  "tcp_state_of cid s = (case get_conn cid s of None \<Rightarrow> TCP_CLOSED | Some c \<Rightarrow> c_state c)"

definition tcp_eof :: "int \<Rightarrow> 'a tcp_scheme \<Rightarrow> int" where
  "tcp_eof cid s =
     (case get_conn cid s of None \<Rightarrow> 1 | Some c \<Rightarrow> if peer_fin c \<and> rx_buf c = [] then 1 else 0)"

definition tcp_peer :: "int \<Rightarrow> 'a tcp_scheme \<Rightarrow> (u32 \<times> u16) option" where
  "tcp_peer cid s =
     (case get_conn cid s of
        None \<Rightarrow> None
      | Some c \<Rightarrow>
          if c_state c = TCP_CLOSED \<or> c_state c = TCP_LISTEN then None
          else Some (get32be (remote_ip c) 0, remote_port c))"

section \<open>Arriving segments\<close>

definition apply_ack :: "u32 \<Rightarrow> tcp_conn \<Rightarrow> tcp_conn" where
  "apply_ack ack c =
     (let in_flight = snd_nxt c - snd_una c; acked = ack - snd_una c in
      if acked = 0 \<or> acked > in_flight then c
      else
        let data_in_flight = (if fin_sent c \<and> in_flight > tx_len c then in_flight - 1 else in_flight);
            data_acked = (if acked < data_in_flight then acked else data_in_flight);
            c1 = c\<lparr>tx_buf := (if tx_len c > data_acked then drop (unat data_acked) (tx_buf c)
                              else take (unat (tx_len c - data_acked)) (tx_buf c)),
                   tx_len := tx_len c - data_acked,
                   snd_una := ack\<rparr>
        in if fin_sent c1 \<and> snd_una c1 = snd_nxt c1 then c1\<lparr>fin_acked := True\<rparr> else c1)"

text \<open>The checks at the head of \<open>tcp_handle\<close> and the decoding of the fields.\<close>

definition tcp_parse :: "byte list \<Rightarrow> byte list \<Rightarrow> byte list \<Rightarrow> tcp_seg option" where
  "tcp_parse src dst payload =
     (if length payload < TCP_HDR_MIN_LEN then None
      else
        let hdr_len = unat (drop_bit 4 (payload ! 12)) * 4 in
        if hdr_len < TCP_HDR_MIN_LEN \<or> hdr_len > length payload then None
        else if length payload > 1500 then None
        else if get16 payload 16 \<noteq> tcp_compute_checksum src dst (payload[16 := 0, 17 := 0]) then None
        else Some \<lparr>sg_src_port = net_be16_to_cpu (get16 payload 0),
                   sg_dst_port = net_be16_to_cpu (get16 payload 2),
                   sg_seq = get32be payload 4, sg_ack = get32be payload 8,
                   sg_flags = payload ! 13, sg_wnd = net_be16_to_cpu (get16 payload 14),
                   sg_data = drop hdr_len payload\<rparr>)"

definition has_flag :: "tcp_seg \<Rightarrow> byte \<Rightarrow> bool" where
  "has_flag g f \<longleftrightarrow> sg_flags g AND f \<noteq> 0"

text \<open>No connection matches: the first segment of a connection to a listener.\<close>

definition handle_syn :: "tcpenv \<Rightarrow> byte list \<Rightarrow> tcp_seg \<Rightarrow> 'a tcp_scheme \<Rightarrow> 'a tcp_scheme" where
  "handle_syn e src g s =
     (if has_flag g TCP_FLAG_RST then s
      else case find_listener_for_port (sg_dst_port g) s of
        None \<Rightarrow> s
      | Some lid \<Rightarrow>
          if \<not> has_flag g TCP_FLAG_SYN then s
          else if has_flag g TCP_FLAG_ACK then s
          else if count_listener_children lid s \<ge> TCP_ACCEPT_QCAP then s
          else case alloc_conn s of
            (s1, None) \<Rightarrow> s1
          | (s1, Some child) \<Rightarrow>
              let (s2, iss) = fresh_isn e s1;
                  cc = (g_conns s2 ! child)\<lparr>remote_ip := src, local_port := sg_dst_port g,
                         remote_port := sg_src_port g, snd_iss := iss, snd_una := iss, snd_nxt := iss,
                         rcv_irs := sg_seq g, rcv_nxt := sg_seq g + 1,
                         snd_wnd := (if sg_wnd g \<noteq> 0 then ucast (sg_wnd g) else TCP_BUF_SIZE),
                         c_state := TCP_SYN_RECEIVED, parent_listen_cid := int lid,
                         last_tx_poll := g_poll_counter s2\<rparr>;
                  s3 = set_conn child cc s2;
                  (s4, r) = tcp_tx e cc (TCP_FLAG_SYN OR TCP_FLAG_ACK) (snd_iss cc) (rcv_nxt cc) [] True s3
              in if r < 0 then release_conn child s4
                 else set_conn child (cc\<lparr>snd_nxt := snd_iss cc + 1\<rparr>) s4)"

definition handle_syn_sent :: "tcpenv \<Rightarrow> nat \<Rightarrow> tcp_seg \<Rightarrow> 'a tcp_scheme \<Rightarrow> 'a tcp_scheme" where
  "handle_syn_sent e cid g s =
     (let c = g_conns s ! cid in
      if sg_flags g AND (TCP_FLAG_SYN OR TCP_FLAG_ACK) \<noteq> TCP_FLAG_SYN OR TCP_FLAG_ACK then s
      else if sg_ack g \<noteq> snd_iss c + 1 then s
      else
        let c1 = c\<lparr>rcv_irs := sg_seq g, rcv_nxt := sg_seq g + 1, snd_una := sg_ack g,
                   snd_wnd := (if sg_wnd g \<noteq> 0 then ucast (sg_wnd g) else TCP_BUF_SIZE),
                   c_state := TCP_ESTABLISHED\<rparr>
        in tcp_send_ack e c1 (set_conn cid c1 s))"

definition handle_syn_received :: "tcpenv \<Rightarrow> nat \<Rightarrow> tcp_seg \<Rightarrow> 'a tcp_scheme \<Rightarrow> 'a tcp_scheme" where
  "handle_syn_received e cid g s =
     (let c = g_conns s ! cid in
      if sg_ack g \<noteq> snd_iss c + 1 then s
      else
        let c1 = c\<lparr>snd_una := sg_ack g,
                   snd_wnd := (if sg_wnd g \<noteq> 0 then ucast (sg_wnd g) else TCP_BUF_SIZE),
                   c_state := TCP_ESTABLISHED\<rparr>;
            s1 = set_conn cid c1 s;
            abandon = release_conn cid
              (fst (tcp_tx e c1 (TCP_FLAG_RST OR TCP_FLAG_ACK) (snd_nxt c1) (rcv_nxt c1) [] False s1))
        in (case get_conn (parent_listen_cid c1) s1 of
              None \<Rightarrow> abandon
            | Some l \<Rightarrow>
                if c_state l = TCP_LISTEN \<and> length (accept_q l) < TCP_ACCEPT_QCAP
                then set_conn (nat (parent_listen_cid c1)) (l\<lparr>accept_q := accept_q l @ [cid]\<rparr>) s1
                else abandon))"

text \<open>The payload.\<close>

definition rx_data :: "tcp_seg \<Rightarrow> tcp_conn \<Rightarrow> tcp_conn" where
  "rx_data g c =
     (if sg_data g \<noteq> [] \<and> sg_seq g = rcv_nxt c then
        let free_rx = unat (TCP_BUF_SIZE - of_nat (length (rx_buf c)));
            tk = min (length (sg_data g)) free_rx;
            c1 = c\<lparr>rx_buf := rx_buf c @ take tk (sg_data g), rcv_nxt := rcv_nxt c + of_nat tk,
                   dbg_rx_total := dbg_rx_total c + of_nat tk\<rparr>
        in if tk = 0 then c
           else if dbg_rx_total c1 \<ge> dbg_rx_next_log c1 then
             c1\<lparr>dbg_rx_next_log := if dbg_rx_next_log c1 < 1024 * 1024 then 1024 * 1024
                                   else dbg_rx_next_log c1 + 1024 * 1024\<rparr>
           else c1
      else if sg_data g \<noteq> [] then c\<lparr>dbg_rx_rejected := dbg_rx_rejected c + 1\<rparr>
      else c)"

definition rx_fin :: "tcp_seg \<Rightarrow> tcp_conn \<Rightarrow> tcp_conn" where
  "rx_fin g c =
     (if has_flag g TCP_FLAG_FIN \<and> sg_seq g + of_nat (length (sg_data g)) = rcv_nxt c then
        let c1 = c\<lparr>rcv_nxt := rcv_nxt c + 1, peer_fin := True\<rparr>
        in c1\<lparr>c_state :=
             (case c_state c of
                TCP_ESTABLISHED \<Rightarrow> TCP_CLOSE_WAIT
              | TCP_FIN_WAIT_2 \<Rightarrow> TCP_TIME_WAIT
              | TCP_FIN_WAIT_1 \<Rightarrow> (if fin_acked c then TCP_TIME_WAIT else TCP_LAST_ACK)
              | st \<Rightarrow> st)\<rparr>
      else c)"

definition after_acks :: "tcp_conn \<Rightarrow> tcp_conn" where
  "after_acks c =
     (let c1 = (if c_state c = TCP_FIN_WAIT_1 \<and> fin_acked c then c\<lparr>c_state := TCP_FIN_WAIT_2\<rparr> else c);
          c2 = (if c_state c1 = TCP_LAST_ACK \<and> fin_acked c1 then c1\<lparr>c_state := TCP_CLOSED\<rparr> else c1)
      in if c_state c2 = TCP_TIME_WAIT then c2\<lparr>c_state := TCP_CLOSED\<rparr> else c2)"

definition handle_established :: "tcpenv \<Rightarrow> tcp_seg \<Rightarrow> tcp_conn \<Rightarrow> 'a tcp_scheme \<Rightarrow> tcp_conn \<times> 'a tcp_scheme" where
  "handle_established e g c s =
     (let c1 = apply_ack (sg_ack g) (c\<lparr>snd_wnd := if sg_wnd g \<noteq> 0 then ucast (sg_wnd g) else 1\<rparr>);
          c2 = rx_fin g (rx_data g c1);
          s1 = (if sg_data g \<noteq> [] \<or> has_flag g TCP_FLAG_FIN then tcp_send_ack e c2 s else s)
      in tcp_drain_tx e (after_acks c2) s1)"

definition handle_conn :: "tcpenv \<Rightarrow> nat \<Rightarrow> tcp_seg \<Rightarrow> 'a tcp_scheme \<Rightarrow> 'a tcp_scheme" where
  "handle_conn e cid g s =
     (let c = g_conns s ! cid in
      if has_flag g TCP_FLAG_RST then set_conn cid (c\<lparr>c_reset := True, c_state := TCP_CLOSED\<rparr>) s
      else if c_state c = TCP_SYN_SENT then handle_syn_sent e cid g s
      else if \<not> has_flag g TCP_FLAG_ACK then s
      else if c_state c = TCP_SYN_RECEIVED then handle_syn_received e cid g s
      else let (c1, s1) = handle_established e g c s in set_conn cid c1 s1)"

definition tcp_deliver :: "tcpenv \<Rightarrow> byte list \<Rightarrow> tcp_seg \<Rightarrow> 'a tcp_scheme \<Rightarrow> 'a tcp_scheme" where
  "tcp_deliver e src g s =
     (case find_conn_for_pkt src (sg_dst_port g) (sg_src_port g) s of
        None \<Rightarrow> handle_syn e src g s
      | Some cid \<Rightarrow> handle_conn e cid g s)"

definition tcp_handle :: "tcpenv \<Rightarrow> byte list \<Rightarrow> byte list \<Rightarrow> byte list \<Rightarrow> 'a tcp_scheme \<Rightarrow> 'a tcp_scheme" where
  "tcp_handle e src dst payload s =
     (case tcp_parse src dst payload of None \<Rightarrow> s | Some g \<Rightarrow> tcp_deliver e src g s)"

section \<open>The poll\<close>

definition rto_due :: "tcp_conn \<Rightarrow> 'a tcp_scheme \<Rightarrow> bool" where
  "rto_due c s \<longleftrightarrow> g_poll_counter s - last_tx_poll c > TCP_RTX_THRESH"

definition retransmit :: "tcpenv \<Rightarrow> tcp_conn \<Rightarrow> 'a tcp_scheme \<Rightarrow> tcp_conn \<times> 'a tcp_scheme" where
  "retransmit e c s =
     (let fin_was_in_flight = (fin_sent c \<and> snd_nxt c - snd_una c > tx_len c);
          c1 = c\<lparr>snd_nxt := snd_una c, fin_sent := (if fin_was_in_flight then False else fin_sent c)\<rparr>;
          (c2, s1) = tcp_drain_tx e c1 s
      in (c2\<lparr>last_tx_poll := g_poll_counter s1, dbg_rtx_fired := dbg_rtx_fired c2 + 1\<rparr>, s1))"

definition rtx_syn :: "tcpenv \<Rightarrow> byte \<Rightarrow> u32 \<Rightarrow> tcp_conn \<Rightarrow> 'a tcp_scheme \<Rightarrow> tcp_conn \<times> 'a tcp_scheme" where
  "rtx_syn e flags ack c s =
     (let s1 = fst (tcp_tx e c flags (snd_iss c) ack [] True s)
      in (c\<lparr>last_tx_poll := g_poll_counter s1, dbg_rtx_fired := dbg_rtx_fired c + 1\<rparr>, s1))"

definition poll_live :: "tcpenv \<Rightarrow> tcp_conn \<Rightarrow> 'a tcp_scheme \<Rightarrow> tcp_conn \<times> 'a tcp_scheme" where
  "poll_live e c s =
     (let (c1, s1) = (if snd_nxt c \<noteq> snd_una c \<and> rto_due c s then retransmit e c s else (c, s));
          (c2, s2) = (if c_state c1 = TCP_SYN_SENT \<and> rto_due c1 s1
                      then rtx_syn e TCP_FLAG_SYN 0 c1 s1 else (c1, s1))
      in if c_state c2 = TCP_SYN_RECEIVED \<and> rto_due c2 s2
         then rtx_syn e (TCP_FLAG_SYN OR TCP_FLAG_ACK) (rcv_nxt c2) c2 s2 else (c2, s2))"

definition poll_conn :: "tcpenv \<Rightarrow> nat \<Rightarrow> 'a tcp_scheme \<Rightarrow> 'a tcp_scheme" where
  "poll_conn e i s =
     (let c = g_conns s ! i in
      if \<not> c_valid c then s
      else if user_closed c \<and> c_state c = TCP_CLOSED \<and> rx_buf c = [] then release_conn i s
      else if c_state c = TCP_CLOSED then s
      else let (c1, s1) = poll_live e c s in set_conn i c1 s1)"

definition tcp_poll :: "tcpenv \<Rightarrow> 'a tcp_scheme \<Rightarrow> 'a tcp_scheme" where
  "tcp_poll e s = fold (poll_conn e) [0..<TCP_CONN_CAP] (s\<lparr>g_poll_counter := g_poll_counter s + 1\<rparr>)"

text \<open>\<open>net_poll\<close> of \<open>net.c\<close>: the frames the driver has received, the loopback queue, the timers.\<close>

definition net_poll ::
    "tcpenv \<Rightarrow> 'a tcp_scheme handler \<Rightarrow> 'a tcp_scheme handler \<Rightarrow> byte list list \<Rightarrow> 'a tcp_scheme \<Rightarrow> 'a tcp_scheme \<times> nat" where
  "net_poll e icmp_handle udp_handle frames s =
     (let rx = rx_dispatch (te_dev e) icmp_handle udp_handle (tcp_handle e);
          s1 = fold rx frames s;
          (s2, n) = loopback_drain rx s1
      in (tcp_poll e s2, length frames + n))"

end
