(* ===== verification/TcpWire.thy ===== *)
theory TcpWire
  imports Tcp
begin

text \<open>
  TCP segments on the wire: what \<open>tcp_tx\<close> encodes is what \<open>tcp_handle\<close> decodes, checksum
  included, and a segment to an address of the host itself comes out of the loopback queue as the
  segment it was.
\<close>

section \<open>Encoding and decoding\<close>

lemma get32be_put32be:
  assumes "off = length xs"
  shows "get32be (xs @ put32be v @ ys) off = v"
proof (rule bit_word_eqI)
  fix n assume "n < LENGTH(32)"
  then show "bit (get32be (xs @ put32be v @ ys) off) n = bit v n"
    using assms by (cases "n < 8"; cases "n < 16"; cases "n < 24")
      (auto simp: get32be_def put32be_def nth_append bit_simps)
qed

lemma length_put32be [simp]: "length (put32be v) = 4"
  by (simp add: put32be_def)

lemma length_tcp_hdr [simp]: "length (tcp_hdr_bytes sp dp sq ak hl fl wn ck) = 20"
  by (simp add: tcp_hdr_bytes_def)

lemma tcp_hdr_fields:
  assumes "h = tcp_hdr_bytes sp dp sq ak hl fl wn ck @ rest"
  shows "get16 h 0 = net_cpu_to_be16 sp" "get16 h 2 = net_cpu_to_be16 dp" "get32be h 4 = sq"
    "get32be h 8 = ak" "h ! 12 = push_bit 4 (of_nat (hl div 4))" "h ! 13 = fl"
    "get16 h 14 = net_cpu_to_be16 wn" "get16 h 16 = ck"
    "h[16 := 0, 17 := 0] = tcp_hdr_bytes sp dp sq ak hl fl wn 0 @ rest"
proof -
  let ?a = "put16 (net_cpu_to_be16 sp)" and ?b = "put16 (net_cpu_to_be16 dp)"
    and ?m = "[push_bit 4 (of_nat (hl div 4)), fl]" and ?w = "put16 (net_cpu_to_be16 wn)"
  have h: "h = ?a @ ?b @ put32be sq @ put32be ak @ ?m @ ?w @ put16 ck @ put16 0 @ rest"
    by (simp add: assms tcp_hdr_bytes_def)
  show "get16 h 0 = net_cpu_to_be16 sp" by (simp add: h)
  show "get16 h 2 = net_cpu_to_be16 dp" unfolding h by (subst get16_skip) simp_all
  have "h = (?a @ ?b) @ put32be sq @ (put32be ak @ ?m @ ?w @ put16 ck @ put16 0 @ rest)" by (simp add: h)
  then show "get32be h 4 = sq" by (simp only: get32be_put32be length_append length_put16)
  have "h = (?a @ ?b @ put32be sq) @ put32be ak @ (?m @ ?w @ put16 ck @ put16 0 @ rest)" by (simp add: h)
  then show "get32be h 8 = ak" by (simp only: get32be_put32be length_append length_put16 length_put32be)
  show "h ! 12 = push_bit 4 (of_nat (hl div 4))" "h ! 13 = fl" by (simp_all add: h nth_append)
  have h2: "h = (?a @ ?b @ put32be sq @ put32be ak @ ?m) @ ?w @ (put16 ck @ put16 0 @ rest)" by (simp add: h)
  show "get16 h 14 = net_cpu_to_be16 wn" unfolding h2 by (subst get16_skip) simp_all
  have h3: "h = (?a @ ?b @ put32be sq @ put32be ak @ ?m @ ?w) @ put16 ck @ (put16 0 @ rest)" by (simp add: h)
  show "get16 h 16 = ck" unfolding h3 by (subst get16_skip) simp_all
  show "h[16 := 0, 17 := 0] = tcp_hdr_bytes sp dp sq ak hl fl wn 0 @ rest"
    unfolding h3 using put16_clear [of "?a @ ?b @ put32be sq @ put32be ak @ ?m @ ?w" 16 ck]
    by (simp add: tcp_hdr_bytes_def)
qed

lemma length_tcp_segment: "length (tcp_segment ip c fl sq ak p m) = (if m then 24 else 20) + min 1460 (length p)"
  by (simp add: tcp_segment_def Let_def mss_option_def)

text \<open>The segment a packet was built from.\<close>

definition seg_of :: "tcp_conn \<Rightarrow> byte \<Rightarrow> u32 \<Rightarrow> u32 \<Rightarrow> byte list \<Rightarrow> tcp_seg" where
  "seg_of c f sq ak p =
     \<lparr>sg_src_port = local_port c, sg_dst_port = remote_port c, sg_seq = sq, sg_ack = ak,
      sg_flags = f, sg_wnd = adv_wnd c, sg_data = take 1460 p\<rparr>"

lemma tcp_parse_segment:
  "tcp_parse ip (remote_ip c) (tcp_segment ip c fl sq ak p m) = Some (seg_of c fl sq ak p)"
proof -
  define rest where "rest = (if m then mss_option else []) @ take 1460 p"
  define hl where "hl = (if m then 24 else 20 :: nat)"
  let ?hdr = "tcp_hdr_bytes (local_port c) (remote_port c) sq ak hl fl (adv_wnd c)"
  define ck where "ck = tcp_compute_checksum ip (remote_ip c) (?hdr 0 @ rest)"
  have s: "tcp_segment ip c fl sq ak p m = ?hdr ck @ rest"
    by (simp add: tcp_segment_def rest_def hl_def ck_def Let_def)
  note f = tcp_hdr_fields [OF s]
  have len: "length (tcp_segment ip c fl sq ak p m) = hl + min 1460 (length p)"
    by (simp add: length_tcp_segment hl_def)
  have hl: "unat (drop_bit 4 (push_bit 4 (of_nat (hl div 4)) :: byte)) * 4 = hl" by (simp add: hl_def)
  have d: "drop hl (tcp_segment ip c fl sq ak p m) = take 1460 p"
    unfolding s by (cases m) (simp_all add: hl_def rest_def mss_option_def)
  show ?thesis
    unfolding tcp_parse_def Let_def f hl len ck_def [symmetric] be16_twice
    by (simp add: s [symmetric] d seg_of_def) (simp add: hl_def)
qed


section \<open>Through the loopback queue\<close>

lemma segs_frame [simp]:
  "lo_ok (s\<lparr>segs := x\<rparr>) = lo_ok s" "lo_frames (s\<lparr>segs := x\<rparr>) = lo_frames s"
  "net_is_local_ip ip (s\<lparr>segs := x\<rparr>) = net_is_local_ip ip s" "net_choose_src ip (s\<lparr>segs := x\<rparr>) = net_choose_src ip s"
  by (simp_all add: lo_ok_def lo_frames_def net_is_local_ip_def net_choose_src_def)

lemma tcp_tx_local:
  assumes "nd_present (te_dev e)" "addr (remote_ip c)" "length (g_mac s) = 6"
    "net_is_local_ip (remote_ip c) s" "lo_ok s" "length (lo_frames s) < 63" "length p \<le> 1400"
  obtains s' f where "tcp_tx e c fl sq ak p m s = (s', 0)" "lo_ok s'" "lo_frames s' = lo_frames s @ [f]"
    "\<And>icmp udp th (r :: 'a tcp_scheme). net_is_local_ip (remote_ip c) r \<Longrightarrow>
       rx_dispatch (te_dev e) icmp udp th f r = rx_handle_ipv4 icmp udp th f r \<and>
       ipv4_accept f r = Some (6, remote_ip c, remote_ip c, tcp_segment (remote_ip c) c fl sq ak p m)"
proof -
  let ?ip = "remote_ip c"
  define s1 where "s1 = s\<lparr>segs := segs s @ [(?ip, seg_of c fl sq ak p)]\<rparr>"
  have src: "net_choose_src ?ip s = ?ip" using assms(4) by (simp add: net_choose_src_def)
  have tx: "tcp_tx e c fl sq ak p m s =
      net_ipv4_send_from (te_dev e) ?ip ?ip 6 (tcp_segment ?ip c fl sq ak p m) s1"
    unfolding tcp_tx_def Let_def src s1_def seg_of_def ..
  have len: "length (tcp_segment ?ip c fl sq ak p m) \<le> 1480" using assms(7) by (simp add: length_tcp_segment)
  have pre: "length (g_mac s1) = 6" "net_is_local_ip ?ip s1" "lo_ok s1" "length (lo_frames s1) < 63"
    using assms(3-6) by (simp_all add: s1_def)
  have fr: "lo_frames s1 = lo_frames s" by (simp add: s1_def)
  show ?thesis
  proof (rule send_local [OF assms(1) len assms(2,2) pre, of 6])
    fix s' f
    assume o: "net_ipv4_send_from (te_dev e) ?ip ?ip 6 (tcp_segment ?ip c fl sq ak p m) s1 = (s', 0)" "lo_ok s'"
      "lo_frames s' = lo_frames s1 @ [f]"
      and rx: "\<And>icmp udp th (r :: 'a tcp_scheme). net_is_local_ip ?ip r \<Longrightarrow>
        rx_dispatch (te_dev e) icmp udp th f r = rx_handle_ipv4 icmp udp th f r \<and>
        ipv4_accept f r = Some (6, ?ip, ?ip, tcp_segment ?ip c fl sq ak p m)"
    show thesis by (rule that [OF _ o(2) _ rx]) (use o tx fr in simp_all)
  qed
qed

text \<open> C34. A segment sent to an address of the host itself goes to the end of the loopback queue, and the
  frame there, taken in again, is delivered to TCP as the segment it was built from: Ethernet, IPv4
  and TCP headers and both checksums round trip (1400 bytes is the most a segment carries).\<close>

theorem tcp_loopback_delivery:
  fixes icmp udp :: "'a tcp_scheme handler"
  assumes "nd_present (te_dev e)" "addr (remote_ip c)" "length (g_mac s) = 6"
    "net_is_local_ip (remote_ip c) s" "lo_ok s" "length (lo_frames s) < 63" "length p \<le> 1400"
  shows "\<exists>f s'. tcp_tx e c fl sq ak p m s = (s', 0) \<and> lo_ok s' \<and> lo_frames s' = lo_frames s @ [f] \<and>
    (\<forall>r. net_is_local_ip (remote_ip c) r \<longrightarrow>
       rx_dispatch (te_dev e) icmp udp (tcp_handle e) f r = tcp_deliver e (remote_ip c) (seg_of c fl sq ak p) r)"
proof -
  obtain s' f where s': "tcp_tx e c fl sq ak p m s = (s', 0)" "lo_ok s'" "lo_frames s' = lo_frames s @ [f]"
    and rx: "\<And>icmp udp th (r :: 'a tcp_scheme). net_is_local_ip (remote_ip c) r \<Longrightarrow>
       rx_dispatch (te_dev e) icmp udp th f r = rx_handle_ipv4 icmp udp th f r \<and>
       ipv4_accept f r = Some (6, remote_ip c, remote_ip c, tcp_segment (remote_ip c) c fl sq ak p m)"
    by (rule tcp_tx_local [OF assms]) blast
  have "rx_dispatch (te_dev e) icmp udp (tcp_handle e) f r = tcp_deliver e (remote_ip c) (seg_of c fl sq ak p) r"
    if "net_is_local_ip (remote_ip c) r" for r :: "'a tcp_scheme"
    using rx [OF that] by (simp add: rx_handle_ipv4_def tcp_handle_def tcp_parse_segment)
  then show ?thesis using s' by blast
qed

text \<open>An environment and a state to evaluate with: a card that accepts every frame, connections to
  the host itself.\<close>

definition demo_env :: tcpenv where
  "demo_env = \<lparr>te_dev = \<lparr>nd_present = True, nd_tx = (\<lambda>_. 0), nd_heard = (\<lambda>_. [])\<rparr>, te_isn = (\<lambda>n. of_nat (1000 * n))\<rparr>"

definition demo_tcp :: tcp where
  "demo_tcp = \<lparr>g_initted = True, g_mac = [2, 0, 0, 0, 0, 1], g_ip = [10, 0, 2, 15], g_gw = [10, 0, 2, 2],
     g_msk = [255, 255, 255, 0], g_dns = [10, 0, 2, 3], g_arp = [], g_lo_buf = replicate 64 [], g_lo_head = 0,
     g_lo_tail = 0, g_ip_id = 0, wire = [], waits = 0, g_conns = replicate 16 zero_conn,
     g_poll_counter = 0, g_next_eph_port = 49152, isns = 0, segs = []\<rparr>"

definition demo_conn :: "u16 \<Rightarrow> u16 \<Rightarrow> u32 \<Rightarrow> u32 \<Rightarrow> tcp_conn" where
  "demo_conn lport rport iss irs = zero_conn\<lparr>c_valid := True, c_state := TCP_ESTABLISHED,
     remote_ip := [127, 0, 0, 1], local_port := lport, remote_port := rport, snd_iss := iss,
     snd_una := iss + 1, snd_nxt := iss + 1, snd_wnd := TCP_BUF_SIZE, rcv_irs := irs, rcv_nxt := irs + 1,
     parent_listen_cid := -1, dbg_rx_next_log := 1024 * 1024\<rparr>"

definition demo_seg :: "u32 \<Rightarrow> byte \<Rightarrow> byte list \<Rightarrow> tcp_seg" where
  "demo_seg sq flags p = \<lparr>sg_src_port = 1, sg_dst_port = 2, sg_seq = sq, sg_ack = 8, sg_flags = flags,
     sg_wnd = 100, sg_data = p\<rparr>"


lemma demo_tx:
  assumes "remote_ip c = [127, 0, 0, 1]" "length p \<le> 1400"
  shows "snd (tcp_tx demo_env c fl sq ak p m demo_tcp) = 0"
proof -
  obtain s' where "tcp_tx demo_env c fl sq ak p m demo_tcp = (s', 0)"
    by (rule tcp_tx_local [of demo_env c demo_tcp p])
       (use assms in \<open>simp_all add: demo_env_def demo_tcp_def addr_def net_is_local_ip_def lo_ok_def lo_frames_def\<close>)
  then show ?thesis by simp
qed

lemma tcp_loopback_delivery_witness:
  "\<exists>f s'. tcp_tx demo_env (demo_conn 1 2 6 8) 24 7 9 [65, 66] False demo_tcp = (s', 0) \<and> lo_ok s' \<and>
     lo_frames s' = lo_frames demo_tcp @ [f] \<and>
     (\<forall>r. net_is_local_ip [127, 0, 0, 1] r \<longrightarrow>
        rx_dispatch (te_dev demo_env) (\<lambda>_ _ _. id) (\<lambda>_ _ _. id) (tcp_handle demo_env) f r =
          tcp_deliver demo_env [127, 0, 0, 1] (seg_of (demo_conn 1 2 6 8) 24 7 9 [65, 66]) r)"
proof -
  have ip: "remote_ip (demo_conn 1 2 6 8) = [127, 0, 0, 1]" by (simp add: demo_conn_def)
  show ?thesis
    by (rule tcp_loopback_delivery [of demo_env "demo_conn 1 2 6 8" demo_tcp, unfolded ip])
       (simp_all add: demo_env_def demo_tcp_def addr_def net_is_local_ip_def lo_ok_def lo_frames_def)
qed

end
