(* ===== verification/TcpStream.thy ===== *)
theory TcpStream
  imports TcpWire
begin

text \<open>
  One TCP connection as a carrier of bytes.  Whatever segments, acknowledgements and time-outs come
  in whatever order, every segment a connection sends carries the bytes of the stream its user
  wrote, at their place (\<open>conn_run_sender\<close>); a connection that gets such segments, in any order, any
  number of times, hands its user a prefix of the stream, and all of it once the peer's FIN has
  been taken (\<open>conn_run_receiver\<close>).
\<close>

section \<open>What sending leaves alone\<close>

lemma more_fields:
  assumes "net.more (s :: 'a tcp_scheme) = net.more t"
  shows "g_conns s = g_conns t" "g_poll_counter s = g_poll_counter t"
    "g_next_eph_port s = g_next_eph_port t" "isns s = isns t" "segs s = segs t"
  using assms by (cases s; cases t; simp)+

lemma tcp_tx_frame [simp]:
  "g_conns (fst (tcp_tx e c f sq ak p m s)) = g_conns s"
  "g_poll_counter (fst (tcp_tx e c f sq ak p m s)) = g_poll_counter s"
  "g_next_eph_port (fst (tcp_tx e c f sq ak p m s)) = g_next_eph_port s"
  "isns (fst (tcp_tx e c f sq ak p m s)) = isns s"
  unfolding tcp_tx_def Let_def
  by (simp_all add: more_fields [OF net_ipv4_send_from_more])

lemma tcp_tx_segs [simp]:
  "segs (fst (tcp_tx e c f sq ak p m s)) = segs s @ [(remote_ip c, seg_of c f sq ak p)]"
  by (simp add: tcp_tx_def Let_def more_fields [OF net_ipv4_send_from_more] seg_of_def)

lemma tcp_send_ack_frame [simp]:
  "g_conns (tcp_send_ack e c s) = g_conns s" "g_poll_counter (tcp_send_ack e c s) = g_poll_counter s"
  "segs (tcp_send_ack e c s) = segs s @ [(remote_ip c, seg_of c TCP_FLAG_ACK (snd_nxt c) (rcv_nxt c) [])]"
  by (simp_all add: tcp_send_ack_def)


text \<open>\<open>adds P s t\<close>: on the way from \<open>s\<close> to \<open>t\<close> only segments with \<open>P\<close> were sent.\<close>

definition adds :: "(tcp_seg \<Rightarrow> bool) \<Rightarrow> 'a tcp_scheme \<Rightarrow> 'a tcp_scheme \<Rightarrow> bool" where
  "adds P s t \<longleftrightarrow> (\<exists>new. segs t = segs s @ new \<and> (\<forall>x\<in>set new. P (snd x)))"

lemma adds_refl [simp]: "adds P s s"
  by (simp add: adds_def)

lemma adds_trans: "adds P s t \<Longrightarrow> adds P t u \<Longrightarrow> adds P s u"
  by (force simp: adds_def)

lemma adds_mono: "adds P s t \<Longrightarrow> (\<And>g. P g \<Longrightarrow> Q g) \<Longrightarrow> adds Q s t"
  by (force simp: adds_def)

lemma adds_tx: "P (seg_of c f sq ak p) \<Longrightarrow> adds P s (fst (tcp_tx e c f sq ak p m s))"
  by (simp add: adds_def)

lemma adds_ack: "P (seg_of c TCP_FLAG_ACK (snd_nxt c) (rcv_nxt c) []) \<Longrightarrow> adds P s (tcp_send_ack e c s)"
  by (simp add: adds_def)

section \<open>The sending side\<close>

text \<open>The bytes of a segment are the bytes of the stream at its sequence number; a FIN stands at the
  end of the stream.\<close>

definition genuine :: "byte list \<Rightarrow> u32 \<Rightarrow> tcp_seg \<Rightarrow> bool" where
  "genuine str iss g \<longleftrightarrow>
     (sg_data g \<noteq> [] \<longrightarrow> (\<exists>off. sg_seq g = iss + 1 + of_nat off \<and> off + length (sg_data g) \<le> length str \<and>
        sg_data g = take (length (sg_data g)) (drop off str))) \<and>
     (has_flag g TCP_FLAG_FIN \<longrightarrow> sg_data g = [] \<and> sg_seq g = iss + 1 + of_nat (length str))"

lemma genuine_ack [simp]: "genuine str iss (seg_of c TCP_FLAG_ACK sq ak [])"
  by (simp add: genuine_def seg_of_def has_flag_def)

lemma genuine_append: "genuine str iss g \<Longrightarrow> \<not> has_flag g TCP_FLAG_FIN \<Longrightarrow> genuine (str @ bs) iss g"
  by (force simp: genuine_def)

definition sending :: "tcp_conn \<Rightarrow> bool" where
  "sending c \<longleftrightarrow> c_state c = TCP_ESTABLISHED \<or> c_state c = TCP_CLOSE_WAIT"

text \<open>The transmit buffer holds what the peer has not acknowledged of the stream, and the sequence
  numbers say so.\<close>

definition snd_at :: "tcp_conn \<Rightarrow> byte list \<Rightarrow> nat \<Rightarrow> bool" where
  "snd_at c str k \<longleftrightarrow> k \<le> length str \<and> tx_buf c = drop k str \<and>
     length str - k = unat (tx_len c) \<and> unat (tx_len c) \<le> 32768 \<and>
     (if fin_acked c then k = length str \<and> fin_sent c \<and> snd_nxt c = snd_una c
      else snd_una c = snd_iss c + 1 + of_nat k \<and>
           (if fin_sent c then snd_nxt c - snd_una c = tx_len c + 1
            else snd_nxt c - snd_una c \<le> tx_len c))"

definition snd_inv :: "tcp_conn \<Rightarrow> byte list \<Rightarrow> bool" where
  "snd_inv c str \<longleftrightarrow> (\<exists>k. snd_at c str k) \<and> (fin_sent c \<longrightarrow> \<not> sending c)"

text \<open>All of a connection but the two fields the drain loop writes, and all but the three that
  \<open>tcp_drain_tx\<close> writes.\<close>

definition rest2 :: "tcp_conn \<Rightarrow> tcp_conn" where
  "rest2 c = c\<lparr>snd_nxt := 0, last_tx_poll := 0\<rparr>"

definition rest3 :: "tcp_conn \<Rightarrow> tcp_conn" where
  "rest3 c = c\<lparr>snd_nxt := 0, last_tx_poll := 0, fin_sent := False\<rparr>"

text \<open>The loop as a rule: it stops, it fails to send, or it sends and goes on.\<close>

abbreviation drain_seg :: "u32 \<Rightarrow> u32 \<Rightarrow> tcp_conn \<Rightarrow> byte list" where
  "drain_seg w i c \<equiv> take (unat (seg_size c w i)) (drop (unat (snd_nxt c - snd_una c)) (tx_buf c))"

lemma drain_loop_rule:
  assumes stop: "\<And>i c s. P i c s (c, s)"
    and fail: "\<And>i c s s1 r. i < w \<Longrightarrow> snd_nxt c - snd_una c < tx_len c \<Longrightarrow>
      tcp_tx e c 24 (snd_nxt c) (rcv_nxt c) (drain_seg w i c) False s = (s1, r) \<Longrightarrow> P i c s (c, s1)"
    and send: "\<And>i c s s1 r res. i < w \<Longrightarrow> snd_nxt c - snd_una c < tx_len c \<Longrightarrow>
      tcp_tx e c 24 (snd_nxt c) (rcv_nxt c) (drain_seg w i c) False s = (s1, r) \<Longrightarrow>
      P (i + seg_size c w i)
        (c\<lparr>snd_nxt := snd_nxt c + seg_size c w i, last_tx_poll := g_poll_counter s1\<rparr>) s1 res \<Longrightarrow>
      P i c s res"
  shows "P i c s (drain_loop e w i c s)"
proof (induction e \<equiv> e w \<equiv> w i c s rule: drain_loop.induct)
  case (1 i c s)
  obtain s1 r where t: "tcp_tx e c 24 (snd_nxt c) (rcv_nxt c) (drain_seg w i c) False s = (s1, r)"
    by fastforce
  have u: "drain_loop e w i c s =
      (if i < w \<and> snd_nxt c - snd_una c < tx_len c then
         if r < 0 then (c, s1)
         else drain_loop e w (i + seg_size c w i)
                (c\<lparr>snd_nxt := snd_nxt c + seg_size c w i, last_tx_poll := g_poll_counter s1\<rparr>) s1
       else (c, s))"
    by (subst drain_loop.simps) (simp add: Let_def t)
  show ?case
  proof (cases "i < w \<and> snd_nxt c - snd_una c < tx_len c")
    case True
    show ?thesis
    proof (cases "r < 0")
      case True
      then show ?thesis using fail [of i c s s1 r] t \<open>i < w \<and> _\<close> u by simp
    next
      case False
      from 1 [OF True refl refl refl, of s1 r] t False
      have "P (i + seg_size c w i)
          (c\<lparr>snd_nxt := snd_nxt c + seg_size c w i, last_tx_poll := g_poll_counter s1\<rparr>) s1
          (drain_loop e w (i + seg_size c w i)
            (c\<lparr>snd_nxt := snd_nxt c + seg_size c w i, last_tx_poll := g_poll_counter s1\<rparr>) s1)"
        by simp
      then show ?thesis using send [of i c s s1 r] t True False u by simp
    qed
  next
    case False
    show ?thesis unfolding u if_not_P [OF False] by (rule stop)
  qed
qed

lemma tcp_tx_frameD:
  assumes "tcp_tx e c f sq ak p m s = (s1, r)"
  shows "g_conns s1 = g_conns s" "g_poll_counter s1 = g_poll_counter s"
    "segs s1 = segs s @ [(remote_ip c, seg_of c f sq ak p)]"
  using tcp_tx_frame(1,2) [of e c f sq ak p m s] tcp_tx_segs [of e c f sq ak p m s] assms by simp_all

lemma drain_loop_frame:
  "rest2 (fst (drain_loop e w i c s)) = rest2 c \<and> g_conns (snd (drain_loop e w i c s)) = g_conns s \<and>
   g_poll_counter (snd (drain_loop e w i c s)) = g_poll_counter s"
  by (rule drain_loop_rule [where P = "\<lambda>i c s r. rest2 (fst r) = rest2 c \<and> g_conns (snd r) = g_conns s \<and>
        g_poll_counter (snd r) = g_poll_counter s"])
     (auto dest: tcp_tx_frameD simp: rest2_def)

lemma rest2D:
  assumes "rest2 c = rest2 d"
  shows "c_valid c = c_valid d" "c_state c = c_state d" "remote_ip c = remote_ip d"
    "local_port c = local_port d" "remote_port c = remote_port d" "snd_iss c = snd_iss d"
    "snd_una c = snd_una d" "rcv_irs c = rcv_irs d" "rcv_nxt c = rcv_nxt d" "tx_buf c = tx_buf d"
    "tx_len c = tx_len d" "rx_buf c = rx_buf d" "fin_sent c = fin_sent d" "fin_acked c = fin_acked d"
    "peer_fin c = peer_fin d" "c_reset c = c_reset d" "user_closed c = user_closed d"
    "accept_q c = accept_q d" "parent_listen_cid c = parent_listen_cid d"
  using assms by (cases c; cases d; simp add: rest2_def)+

lemma rest3D:
  assumes "rest3 c = rest3 d"
  shows "c_valid c = c_valid d" "c_state c = c_state d" "remote_ip c = remote_ip d"
    "local_port c = local_port d" "remote_port c = remote_port d" "snd_iss c = snd_iss d"
    "snd_una c = snd_una d" "rcv_irs c = rcv_irs d" "rcv_nxt c = rcv_nxt d" "tx_buf c = tx_buf d"
    "tx_len c = tx_len d" "rx_buf c = rx_buf d" "fin_acked c = fin_acked d"
    "peer_fin c = peer_fin d" "c_reset c = c_reset d" "user_closed c = user_closed d"
    "accept_q c = accept_q d" "parent_listen_cid c = parent_listen_cid d"
  using assms by (cases c; cases d; simp add: rest3_def)+

lemma tcp_drain_tx_frame:
  assumes "tcp_drain_tx e c s = (c', s')"
  shows "rest3 c' = rest3 c" "g_conns s' = g_conns s" "g_poll_counter s' = g_poll_counter s"
proof -
  define w where "w = (if snd_wnd c = 0 then 1 else snd_wnd c)"
  obtain c1 s1 where d: "drain_loop e w (snd_nxt c - snd_una c) c s = (c1, s1)" by fastforce
  have f: "rest2 c1 = rest2 c" "g_conns s1 = g_conns s" "g_poll_counter s1 = g_poll_counter s"
    using drain_loop_frame [of e w "snd_nxt c - snd_una c" c s] d by simp_all
  have "drain_fin e c1 s1 = (c', s')" using assms d by (simp add: tcp_drain_tx_def Let_def w_def)
  moreover have "rest3 c1 = rest3 c" using f(1) by (cases c1; cases c; simp add: rest2_def rest3_def)
  ultimately show "rest3 c' = rest3 c" "g_conns s' = g_conns s" "g_poll_counter s' = g_poll_counter s"
    using f by (auto simp: drain_fin_def rest3_def Let_def split: if_splits)
qed


lemma drain_loop_frameD:
  assumes "drain_loop e w i c s = (c', s')"
  shows "rest2 c' = rest2 c" "g_conns s' = g_conns s" "g_poll_counter s' = g_poll_counter s"
  using drain_loop_frame [of e w i c s] assms by simp_all

text \<open>A piece taken out of the transmit buffer is genuine, and sending it keeps the invariant.\<close>

lemma word_fill:
  fixes a b n :: u32
  assumes "a \<le> b" "n \<le> b - a"
  shows "a + n \<le> b" "unat (a + n) = unat a + unat n"
proof -
  have "unat (b - a) = unat b - unat a" using assms(1) by (metis unat_sub)
  then have n: "unat n \<le> unat b - unat a" "unat a \<le> unat b"
    using assms by (simp_all add: word_le_nat_alt)
  have "unat b < 2 ^ 32" using unsigned_less [of b, where ?'a = nat] by simp
  then show u: "unat (a + n) = unat a + unat n" using n by (simp add: unat_word_ariths)
  show "a + n \<le> b" unfolding word_le_nat_alt u using n by linarith
qed

lemma snd_at_unacked:
  "snd_at c str k \<Longrightarrow> \<not> fin_acked c \<Longrightarrow> snd_una c = snd_iss c + 1 + of_nat k"
  "snd_at c str k \<Longrightarrow> \<not> fin_acked c \<Longrightarrow> fin_sent c \<Longrightarrow> snd_nxt c - snd_una c = tx_len c + 1"
  "snd_at c str k \<Longrightarrow> \<not> fin_acked c \<Longrightarrow> \<not> fin_sent c \<Longrightarrow> snd_nxt c - snd_una c \<le> tx_len c"
  unfolding snd_at_def by metis+

lemma snd_at_unackedI:
  assumes "k \<le> length str" "tx_buf c = drop k str" "length str - k = unat (tx_len c)"
    "unat (tx_len c) \<le> 32768" "\<not> fin_acked c" "snd_una c = snd_iss c + 1 + of_nat k"
    "if fin_sent c then snd_nxt c - snd_una c = tx_len c + 1 else snd_nxt c - snd_una c \<le> tx_len c"
  shows "snd_at c str k"
  unfolding snd_at_def using assms by argo

lemma snd_at_len:
  assumes "snd_at c str k"
  shows "length (tx_buf c) = unat (tx_len c)" "unat (tx_len c) \<le> 32768" "tx_buf c = drop k str" "k \<le> length str"
    "unat (tx_len c + 1) = unat (tx_len c) + 1"
  using assms by (auto simp: snd_at_def unat_word_ariths)

lemma snd_at_window:
  assumes "snd_at c str k" "snd_nxt c - snd_una c < tx_len c"
  shows "\<not> fin_acked c" "\<not> fin_sent c" "snd_nxt c = snd_iss c + 1 + of_nat (k + unat (snd_nxt c - snd_una c))"
proof -
  show na: "\<not> fin_acked c" using assms by (auto simp: snd_at_def)
  show "\<not> fin_sent c"
  proof
    assume "fin_sent c"
    then have "tx_len c + 1 < tx_len c" using snd_at_unacked(2) [OF assms(1) na] assms(2) by simp
    then show False using snd_at_len(5) [OF assms(1)] by (simp add: word_less_nat_alt)
  qed
  have "snd_nxt c = snd_una c + of_nat (unat (snd_nxt c - snd_una c))" by simp
  then show "snd_nxt c = snd_iss c + 1 + of_nat (k + unat (snd_nxt c - snd_una c))"
    unfolding snd_at_unacked(1) [OF assms(1) na] by (simp add: algebra_simps)
qed

lemma snd_at_advance:
  assumes "snd_at c str k" "snd_nxt c - snd_una c < tx_len c" "n \<le> tx_len c - (snd_nxt c - snd_una c)"
  shows "snd_at (c\<lparr>snd_nxt := snd_nxt c + n, last_tx_poll := t\<rparr>) str k"
proof -
  have "(snd_nxt c - snd_una c) + n \<le> tx_len c" using assms(2,3) by (intro word_fill(1)) auto
  moreover have "snd_nxt c + n - snd_una c = (snd_nxt c - snd_una c) + n" by simp
  ultimately have le: "snd_nxt c + n - snd_una c \<le> tx_len c" by metis
  show ?thesis
    using assms(1) snd_at_window(1,2) [OF assms(1,2)] snd_at_unacked(1) [OF assms(1)] le
    unfolding snd_at_def by simp
qed

lemma seg_size_bounds:
  "seg_size c w i \<le> tx_len c - (snd_nxt c - snd_una c)" "unat (seg_size c w i) \<le> 1400"
proof -
  have b: "seg_size c w i \<le> 1400" by (auto simp: seg_size_def Let_def)
  then show "unat (seg_size c w i) \<le> 1400" by (simp add: word_le_nat_alt)
  show "seg_size c w i \<le> tx_len c - (snd_nxt c - snd_una c)"
    unfolding seg_size_def Let_def by (auto simp: not_less intro: order.trans less_imp_le)
qed

lemma data_genuine:
  assumes "snd_at c str k" "snd_nxt c - snd_una c < tx_len c"
  shows "genuine str (snd_iss c) (seg_of c 24 (snd_nxt c) ak (drain_seg w i c))"
    "\<not> has_flag (seg_of c 24 (snd_nxt c) ak (drain_seg w i c)) TCP_FLAG_FIN"
proof -
  let ?off = "k + unat (snd_nxt c - snd_una c)" and ?n = "unat (seg_size c w i)"
  note l = snd_at_len [OF assms(1)]
  have "unat (snd_nxt c - snd_una c) + ?n \<le> unat (tx_len c)"
    using word_fill [of "snd_nxt c - snd_una c" "tx_len c" "seg_size c w i"] assms(2) seg_size_bounds(1) [of c w i]
    by (simp add: word_le_nat_alt word_less_nat_alt)
  then have d: "drain_seg w i c = take ?n (drop ?off str)" "length (drain_seg w i c) = ?n" "?off + ?n \<le> length str"
    using l by (simp_all add: drop_drop add.commute)
  then have t: "take 1460 (drain_seg w i c) = drain_seg w i c"
    using seg_size_bounds(2) [of c w i] by simp
  show "\<not> has_flag (seg_of c 24 (snd_nxt c) ak (drain_seg w i c)) TCP_FLAG_FIN"
    by (simp add: has_flag_def seg_of_def)
  then show "genuine str (snd_iss c) (seg_of c 24 (snd_nxt c) ak (drain_seg w i c))"
    using snd_at_window(3) [OF assms] d unfolding genuine_def seg_of_def tcp_seg.simps t
    by metis
qed


text \<open>What a connection sends while its user's stream is \<open>str\<close>; a FIN only once the user cannot add
  to it.\<close>

definition sound :: "byte list \<Rightarrow> tcp_conn \<Rightarrow> tcp_seg \<Rightarrow> bool" where
  "sound str c g \<longleftrightarrow> genuine str (snd_iss c) g \<and> (has_flag g TCP_FLAG_FIN \<longrightarrow> \<not> sending c)"

lemma sound_ack [simp]: "sound str c (seg_of d TCP_FLAG_ACK sq ak [])"
  by (simp add: sound_def) (simp add: has_flag_def seg_of_def)

lemma sound_cong: "snd_iss c = snd_iss d \<Longrightarrow> c_state c = c_state d \<Longrightarrow> sound str c = sound str d"
  by (simp add: sound_def sending_def fun_eq_iff)

lemma drain_loop_sends:
  "snd_at c str k \<Longrightarrow> snd_at (fst (drain_loop e w i c s)) str k \<and>
   adds (sound str c) s (snd (drain_loop e w i c s))"
proof (rule drain_loop_rule [where P = "\<lambda>i c s r. snd_at c str k \<longrightarrow> snd_at (fst r) str k \<and> adds (sound str c) s (snd r)",
        THEN mp])
  fix i c s s1 r
  assume lt: "i < w" "snd_nxt c - snd_una c < tx_len c"
    and t: "tcp_tx e c 24 (snd_nxt c) (rcv_nxt c) (drain_seg w i c) False s = (s1, r)"
  have a: "adds (sound str c) s s1" if "snd_at c str k"
    using data_genuine [OF that lt(2)] tcp_tx_frameD(3) [OF t] by (auto simp: adds_def sound_def)
  show "snd_at c str k \<longrightarrow> snd_at (fst (c, s1)) str k \<and> adds (sound str c) s (snd (c, s1))"
    using a by simp
  let ?c1 = "c\<lparr>snd_nxt := snd_nxt c + seg_size c w i, last_tx_poll := g_poll_counter s1\<rparr>"
  have "sound str ?c1 = sound str c" by (rule sound_cong) simp_all
  then show "snd_at c str k \<longrightarrow> snd_at (fst res) str k \<and> adds (sound str c) s (snd res)"
    if "snd_at ?c1 str k \<longrightarrow> snd_at (fst res) str k \<and> adds (sound str ?c1) s1 (snd res)" for res
    using that a snd_at_advance [OF _ lt(2) seg_size_bounds(1)] by (auto intro: adds_trans)
qed simp_all

lemma fin_seq:
  assumes "snd_at c str k" "\<not> fin_sent c" "snd_nxt c - snd_una c \<ge> tx_len c"
  shows "snd_nxt c - snd_una c = tx_len c" "\<not> fin_acked c" "snd_nxt c = snd_iss c + 1 + of_nat (length str)"
proof -
  show na: "\<not> fin_acked c" using assms(1,2) by (auto simp: snd_at_def)
  show e: "snd_nxt c - snd_una c = tx_len c"
    using snd_at_unacked(3) [OF assms(1) na assms(2)] assms(3) by (rule order.antisym)
  have "length str = k + unat (tx_len c)" using assms(1) by (auto simp: snd_at_def)
  moreover have "snd_nxt c = snd_una c + tx_len c" unfolding e [symmetric] by simp
  ultimately show "snd_nxt c = snd_iss c + 1 + of_nat (length str)"
    unfolding snd_at_unacked(1) [OF assms(1) na] by simp
qed

lemma drain_fin_sends:
  assumes "snd_inv c str" "drain_fin e c s = (c', s')"
  shows "snd_inv c' str \<and> adds (sound str c) s s'"
proof (cases "\<not> fin_sent c \<and> (c_state c = TCP_FIN_WAIT_1 \<or> c_state c = TCP_LAST_ACK) \<and>
    snd_nxt c - snd_una c \<ge> tx_len c")
  case False
  then have "c' = c" "s' = s" using assms(2) by (auto simp: drain_fin_def)
  then show ?thesis using assms(1) by simp
next
  case True
  obtain k where k: "snd_at c str k" using assms(1) by (auto simp: snd_inv_def)
  have f: "snd_nxt c - snd_una c = tx_len c" "\<not> fin_acked c" "snd_nxt c = snd_iss c + 1 + of_nat (length str)"
    using fin_seq [OF k] True by blast+
  have ns: "\<not> sending c" using True by (auto simp: sending_def)
  have r: "c' = c\<lparr>snd_nxt := snd_nxt c + 1, fin_sent := True, last_tx_poll := g_poll_counter s\<rparr>"
    "s' = fst (tcp_tx e c 17 (snd_nxt c) (rcv_nxt c) [] False s)"
    using assms(2) True by (simp_all add: drain_fin_def Let_def)
  have "snd_nxt c + 1 - snd_una c = tx_len c + 1" using f(1) by (simp add: algebra_simps)
  then have "snd_at c' str k"
    using k f(2) snd_at_unacked(1) [OF k] unfolding r(1) snd_at_def by simp
  moreover have "adds (sound str c) s s'"
    unfolding r(2) by (rule adds_tx) (simp add: sound_def genuine_def ns, simp add: seg_of_def f(3))
  ultimately show ?thesis using ns by (auto simp: snd_inv_def r(1) sending_def)
qed

lemma tcp_drain_tx_sends:
  assumes "snd_inv c str" "tcp_drain_tx e c s = (c', s')"
  shows "snd_inv c' str" "adds (sound str c) s s'"
proof -
  define w where "w = (if snd_wnd c = 0 then 1 else snd_wnd c)"
  obtain c1 s1 where d: "drain_loop e w (snd_nxt c - snd_una c) c s = (c1, s1)" by fastforce
  note f = rest2D [OF drain_loop_frameD(1) [OF d]]
  obtain k where "snd_at c str k" using assms(1) by (auto simp: snd_inv_def)
  then have "snd_at c1 str k" "adds (sound str c) s s1"
    using drain_loop_sends [of c str k e w "snd_nxt c - snd_una c" s] d by simp_all
  then have i: "snd_inv c1 str" using assms(1) f by (auto simp: snd_inv_def sending_def)
  have "drain_fin e c1 s1 = (c', s')" using assms(2) d by (simp add: tcp_drain_tx_def Let_def w_def)
  note fin = drain_fin_sends [OF i this]
  have "sound str c1 = sound str c" using f by (intro sound_cong)
  then show "snd_inv c' str" "adds (sound str c) s s'"
    using fin \<open>adds (sound str c) s s1\<close> by (auto intro: adds_trans)
qed


lemma slide:
  assumes "snd_at c str k" "d \<le> tx_len c"
  shows "(if tx_len c > d then drop (unat d) (tx_buf c) else take (unat (tx_len c - d)) (tx_buf c)) =
      drop (k + unat d) str"
    "length str - (k + unat d) = unat (tx_len c - d)" "k + unat d \<le> length str" "unat (tx_len c - d) \<le> 32768"
proof -
  have u: "unat (tx_len c - d) = unat (tx_len c) - unat d" using assms(2) by (metis unat_sub)
  have d: "unat d \<le> unat (tx_len c)" using assms(2) by (simp add: word_le_nat_alt)
  have l: "length str - k = unat (tx_len c)" "unat (tx_len c) \<le> 32768" "tx_buf c = drop k str" "k \<le> length str"
    using assms(1) by (auto simp: snd_at_def)
  show "length str - (k + unat d) = unat (tx_len c - d)" "k + unat d \<le> length str" "unat (tx_len c - d) \<le> 32768"
    using l d u by linarith+
  show "(if tx_len c > d then drop (unat d) (tx_buf c) else take (unat (tx_len c - d)) (tx_buf c)) =
      drop (k + unat d) str"
  proof (cases "tx_len c > d")
    case True
    then show ?thesis using l by (simp add: add.commute)
  next
    case False
    then have "d = tx_len c" using assms(2) by simp
    then show ?thesis using l d by simp
  qed
qed

lemma apply_ack_at:
  assumes "snd_at c str k"
  shows "\<exists>k'. snd_at (apply_ack a c) str k'"
proof -
  define F where "F = snd_nxt c - snd_una c"
  define A where "A = a - snd_una c"
  show ?thesis
  proof (cases "A = 0 \<or> A > F")
    case True
    then have "apply_ack a c = c" by (auto simp: apply_ack_def Let_def A_def F_def)
    then show ?thesis using assms by auto
  next
    case False
    then have A0: "A \<noteq> 0" and AF: "A \<le> F" by auto
    have na: "\<not> fin_acked c" using A0 AF assms by (auto simp: snd_at_def F_def)
    have a: "a = snd_una c + A" by (simp add: A_def)
    define D where "D = (if A < (if fin_sent c \<and> F > tx_len c then F - 1 else F) then A
                         else if fin_sent c \<and> F > tx_len c then F - 1 else F)"
    define c1 where "c1 = c\<lparr>tx_buf := (if tx_len c > D then drop (unat D) (tx_buf c)
                              else take (unat (tx_len c - D)) (tx_buf c)),
                   tx_len := tx_len c - D, snd_una := a\<rparr>"
    have app: "apply_ack a c = (if fin_sent c1 \<and> snd_una c1 = snd_nxt c1 then c1\<lparr>fin_acked := True\<rparr> else c1)"
      using False unfolding apply_ack_def Let_def A_def [symmetric] F_def [symmetric] D_def [symmetric] c1_def
      by simp
    have F: "if fin_sent c then F = tx_len c + 1 else F \<le> tx_len c"
      using assms na unfolding F_def snd_at_def by metis
    have T: "unat (tx_len c + 1) = unat (tx_len c) + 1" by (rule snd_at_len(5) [OF assms])
    have DT: "D \<le> tx_len c \<and> (A \<noteq> F \<or> \<not> fin_sent c \<longrightarrow> D = A) \<and> (A = F \<and> fin_sent c \<longrightarrow> D = tx_len c)"
    proof (cases "fin_sent c")
      case True
      then have "F > tx_len c" "F - 1 = tx_len c" using F T by (simp_all add: word_less_nat_alt)
      moreover have "A < tx_len c \<or> A = tx_len c \<or> A = F"
        using AF F T True by (auto simp: word_less_nat_alt word_le_nat_alt word_unat_eq_iff)
      ultimately show ?thesis using True unfolding D_def by auto
    next
      case False
      then show ?thesis using F AF unfolding D_def by auto
    qed
    note sl = slide [OF assms DT [THEN conjunct1]]
    have k': "snd_at c1 str (k + unat D) \<or> (A = F \<and> fin_sent c)"
    proof (cases "A = F \<and> fin_sent c")
      case False
      then have D: "D = A" using DT by blast
      have fs: "fin_sent c1 = fin_sent c" "tx_len c1 = tx_len c - D" by (simp_all add: c1_def)
      have "snd_nxt c1 - snd_una c1 = F - D" by (simp add: c1_def a F_def D)
      moreover have "if fin_sent c then F - D = tx_len c - D + 1 else F - D \<le> tx_len c - D"
        using F AF DT unfolding D by (auto simp: word_le_nat_alt unat_sub)
      ultimately have w: "if fin_sent c1 then snd_nxt c1 - snd_una c1 = tx_len c1 + 1
          else snd_nxt c1 - snd_una c1 \<le> tx_len c1"
        unfolding fs by simp
      have u: "snd_una c1 = snd_iss c1 + 1 + of_nat (k + unat D)"
        using snd_at_unacked(1) [OF assms na] by (simp add: c1_def a D)
      have b: "tx_buf c1 = drop (k + unat D) str" "tx_len c1 = tx_len c - D" "\<not> fin_acked c1"
        using sl(1) na by (simp_all add: c1_def)
      have "snd_at c1 str (k + unat D)"
        by (rule snd_at_unackedI [OF sl(3) b(1) _ _ b(3) u w]) (use sl(2,4) in \<open>simp_all only: b(2)\<close>)
      then show ?thesis by (rule disjI1)
    qed simp
    show ?thesis
    proof (cases "fin_sent c \<and> a = snd_nxt c")
      case True
      then have "A = F" by (simp add: A_def F_def)
      then have D: "D = tx_len c" using DT True by blast
      have "snd_at (c1\<lparr>fin_acked := True\<rparr>) str (k + unat D)"
        using sl True unfolding snd_at_def c1_def by (simp add: D)
      then show ?thesis unfolding app using True by (auto simp: c1_def)
    next
      case False
      then have "\<not> (A = F \<and> fin_sent c)" by (auto simp: A_def F_def)
      then have "snd_at c1 str (k + unat D)" using k' by blast
      then show ?thesis unfolding app using False by (auto simp: c1_def)
    qed
  qed
qed

lemma apply_ack_fields [simp]:
  "c_state (apply_ack a c) = c_state c" "fin_sent (apply_ack a c) = fin_sent c"
  "snd_iss (apply_ack a c) = snd_iss c" "rcv_irs (apply_ack a c) = rcv_irs c"
  "rcv_nxt (apply_ack a c) = rcv_nxt c" "rx_buf (apply_ack a c) = rx_buf c"
  "peer_fin (apply_ack a c) = peer_fin c" "c_valid (apply_ack a c) = c_valid c"
  "parent_listen_cid (apply_ack a c) = parent_listen_cid c" "accept_q (apply_ack a c) = accept_q c"
  "user_closed (apply_ack a c) = user_closed c" "c_reset (apply_ack a c) = c_reset c"
  by (simp_all add: apply_ack_def Let_def)

lemma apply_ack_inv: "snd_inv c str \<Longrightarrow> snd_inv (apply_ack a c) str"
  using apply_ack_at by (auto simp: snd_inv_def sending_def)


section \<open>Runs of one connection\<close>

text \<open>What \<open>tcp_handle\<close> does with a segment for a connection whose handshake is over.\<close>

definition segment_conn :: "tcpenv \<Rightarrow> tcp_seg \<Rightarrow> tcp_conn \<Rightarrow> 'a tcp_scheme \<Rightarrow> tcp_conn \<times> 'a tcp_scheme" where
  "segment_conn e g c s =
     (if has_flag g TCP_FLAG_RST then (c\<lparr>c_reset := True, c_state := TCP_CLOSED\<rparr>, s)
      else if \<not> has_flag g TCP_FLAG_ACK then (c, s)
      else handle_established e g c s)"

lemma set_conn_same [simp]: "set_conn i (g_conns s ! i) s = s"
  by (simp add: set_conn_def)

lemma handle_conn_open:
  assumes "c_state (g_conns s ! cid) \<noteq> TCP_SYN_SENT" "c_state (g_conns s ! cid) \<noteq> TCP_SYN_RECEIVED"
  shows "handle_conn e cid g s = (let (c1, s1) = segment_conn e g (g_conns s ! cid) s in set_conn cid c1 s1)"
  using assms by (simp add: handle_conn_def segment_conn_def Let_def)

datatype conn_event =
    Send "byte list" | Recv nat | Close | Segment tcp_seg | Poll

text \<open>A closed connection is reaped by a poll and released by a close; the run leaves it as it is.\<close>

definition step_conn :: "tcpenv \<Rightarrow> conn_event \<Rightarrow> 'a tcp_scheme \<Rightarrow> tcp_conn \<Rightarrow> tcp_conn \<times> 'a tcp_scheme" where
  "step_conn e ev s c =
     (case ev of
        Send bs \<Rightarrow> fst (send_conn e bs c s)
      | Recv n \<Rightarrow> fst (recv_conn e n c s)
      | Close \<Rightarrow> if c_reset c then (c, s) else close_conn e (c\<lparr>user_closed := True\<rparr>) s
      | Segment g \<Rightarrow> segment_conn e g c s
      | Poll \<Rightarrow> if c_state c = TCP_CLOSED then (c, s) else poll_live e c s)"

definition accepted :: "tcpenv \<Rightarrow> conn_event \<Rightarrow> 'a tcp_scheme \<Rightarrow> tcp_conn \<Rightarrow> byte list" where
  "accepted e ev s c = (case ev of Send bs \<Rightarrow> take (nat (snd (send_conn e bs c s))) bs | _ \<Rightarrow> [])"

definition handed :: "tcpenv \<Rightarrow> conn_event \<Rightarrow> 'a tcp_scheme \<Rightarrow> tcp_conn \<Rightarrow> byte list" where
  "handed e ev s c = (case ev of Recv n \<Rightarrow> snd (snd (recv_conn e n c s)) | _ \<Rightarrow> [])"

text \<open>
  Each event comes with the state the rest of the system is in when it happens: between two events
  of this connection anything may happen to the others.  The results: the connection, the bytes its
  user had accepted, the bytes handed to its user, the segments it sent.
\<close>

record conn_result =
  r_conn :: tcp_conn
  r_written :: "byte list"
  r_read :: "byte list"
  r_sent :: "tcp_seg list"

fun conn_run :: "tcpenv \<Rightarrow> (conn_event \<times> tcp) list \<Rightarrow> tcp_conn \<Rightarrow> conn_result" where
  "conn_run e [] c = \<lparr>r_conn = c, r_written = [], r_read = [], r_sent = []\<rparr>"
| "conn_run e ((ev, s) # evs) c =
     (let (c1, s1) = step_conn e ev s c; r = conn_run e evs c1
      in \<lparr>r_conn = r_conn r, r_written = accepted e ev s c @ r_written r,
          r_read = handed e ev s c @ r_read r,
          r_sent = map snd (drop (length (segs s)) (segs s1)) @ r_sent r\<rparr>)"

lemma adds_sent: "adds P s t \<Longrightarrow> \<forall>g\<in>set (map snd (drop (length (segs s)) (segs t))). P g"
  by (auto simp: adds_def)

subsection \<open>Sending\<close>

lemma rx_data_fields [simp]:
  "c_state (rx_data g c) = c_state c" "fin_sent (rx_data g c) = fin_sent c"
  "fin_acked (rx_data g c) = fin_acked c" "snd_iss (rx_data g c) = snd_iss c"
  "snd_una (rx_data g c) = snd_una c" "snd_nxt (rx_data g c) = snd_nxt c"
  "tx_buf (rx_data g c) = tx_buf c" "tx_len (rx_data g c) = tx_len c"
  "rcv_irs (rx_data g c) = rcv_irs c" "peer_fin (rx_data g c) = peer_fin c"
  "c_valid (rx_data g c) = c_valid c" "parent_listen_cid (rx_data g c) = parent_listen_cid c"
  "accept_q (rx_data g c) = accept_q c" "user_closed (rx_data g c) = user_closed c"
  "c_reset (rx_data g c) = c_reset c"
  by (simp_all add: rx_data_def Let_def)

lemma rx_fin_fields [simp]:
  "fin_sent (rx_fin g c) = fin_sent c" "rx_buf (rx_fin g c) = rx_buf c"
  "fin_acked (rx_fin g c) = fin_acked c" "snd_iss (rx_fin g c) = snd_iss c"
  "snd_una (rx_fin g c) = snd_una c" "snd_nxt (rx_fin g c) = snd_nxt c"
  "tx_buf (rx_fin g c) = tx_buf c" "tx_len (rx_fin g c) = tx_len c"
  "rcv_irs (rx_fin g c) = rcv_irs c"
  "c_valid (rx_fin g c) = c_valid c" "parent_listen_cid (rx_fin g c) = parent_listen_cid c"
  "accept_q (rx_fin g c) = accept_q c" "user_closed (rx_fin g c) = user_closed c"
  "c_reset (rx_fin g c) = c_reset c"
  by (simp_all add: rx_fin_def Let_def)

lemma after_acks_fields [simp]:
  "fin_sent (after_acks c) = fin_sent c" "rx_buf (after_acks c) = rx_buf c"
  "fin_acked (after_acks c) = fin_acked c" "snd_iss (after_acks c) = snd_iss c"
  "snd_una (after_acks c) = snd_una c" "snd_nxt (after_acks c) = snd_nxt c"
  "tx_buf (after_acks c) = tx_buf c" "tx_len (after_acks c) = tx_len c"
  "rcv_irs (after_acks c) = rcv_irs c" "rcv_nxt (after_acks c) = rcv_nxt c"
  "peer_fin (after_acks c) = peer_fin c"
  "c_valid (after_acks c) = c_valid c" "parent_listen_cid (after_acks c) = parent_listen_cid c"
  "accept_q (after_acks c) = accept_q c" "user_closed (after_acks c) = user_closed c"
  "c_reset (after_acks c) = c_reset c"
  by (simp_all add: after_acks_def Let_def)

lemma sending_rx_fin [simp]: "sending (rx_fin g c) = sending c"
  by (cases "c_state c") (simp_all add: rx_fin_def sending_def Let_def)

lemma sending_after_acks [simp]: "sending (after_acks c) = sending c"
  by (simp add: after_acks_def sending_def Let_def)

lemma sending_rx_data [simp]: "sending (rx_data g c) = sending c"
  by (simp add: sending_def)

lemma snd_at_cong:
  assumes "tx_buf c = tx_buf d" "tx_len c = tx_len d" "snd_una c = snd_una d" "snd_nxt c = snd_nxt d"
    "snd_iss c = snd_iss d" "fin_sent c = fin_sent d" "fin_acked c = fin_acked d"
  shows "snd_at c str k = snd_at d str k"
  unfolding snd_at_def assms ..

text \<open>One step keeps what the sender owes its stream.\<close>

definition snd_step_ok :: "byte list \<Rightarrow> tcp_conn \<Rightarrow> 'a tcp_scheme \<Rightarrow> tcp_conn \<Rightarrow> 'a tcp_scheme \<Rightarrow> bool" where
  "snd_step_ok str c s c' s' \<longleftrightarrow>
     snd_inv c' str \<and> adds (sound str c') s s' \<and> snd_iss c' = snd_iss c \<and> (sending c' \<longrightarrow> sending c)"

lemma snd_step_drain:
  assumes "snd_inv c1 str" "tcp_drain_tx e c1 s1 = (c', s')" "snd_iss c1 = snd_iss c"
    "sending c1 \<longrightarrow> sending c" "adds (sound str c1) s s1"
  shows "snd_step_ok str c s c' s'"
proof -
  note f = rest3D [OF tcp_drain_tx_frame(1) [OF assms(2)]]
  have "sound str c' = sound str c1" using f by (intro sound_cong)
  then show ?thesis
    using tcp_drain_tx_sends [OF assms(1,2)] assms(3-5) f
    by (auto simp: snd_step_ok_def sending_def intro: adds_trans)
qed

lemma snd_step_segment:
  assumes "snd_inv c str" "segment_conn e g c s = (c', s')"
  shows "snd_step_ok str c s c' s'"
proof -
  define c1 where "c1 = apply_ack (sg_ack g) (c\<lparr>snd_wnd := if sg_wnd g \<noteq> 0 then ucast (sg_wnd g) else 1\<rparr>)"
  define c2 where "c2 = rx_fin g (rx_data g c1)"
  define s1 where "s1 = (if sg_data g \<noteq> [] \<or> has_flag g TCP_FLAG_FIN then tcp_send_ack e c2 s else s)"
  consider "c' = c" "s' = s" | "c' = c\<lparr>c_reset := True, c_state := TCP_CLOSED\<rparr>" "s' = s"
    | "tcp_drain_tx e (after_acks c2) s1 = (c', s')"
    using assms(2)
    unfolding segment_conn_def handle_established_def Let_def c1_def [symmetric] c2_def [symmetric] s1_def [symmetric]
    by (cases "has_flag g TCP_FLAG_RST"; cases "has_flag g TCP_FLAG_ACK") simp_all
  then show ?thesis
  proof cases
    case 1
    then show ?thesis using assms(1) by (simp add: snd_step_ok_def)
  next
    case 2
    have "snd_at c' str k = snd_at c str k" for k by (rule snd_at_cong) (simp_all add: 2)
    then show ?thesis using assms(1) 2 by (simp add: snd_step_ok_def snd_inv_def sending_def)
  next
    case 3
    have "snd_at (c\<lparr>snd_wnd := w\<rparr>) str k = snd_at c str k" for w k by (rule snd_at_cong) simp_all
    then have "snd_inv c1 str" using assms(1) unfolding c1_def
      by (intro apply_ack_inv) (simp add: snd_inv_def sending_def)
    moreover have "snd_at (after_acks c2) str k = snd_at c1 str k" for k
      by (rule snd_at_cong) (simp_all add: c2_def)
    ultimately have i: "snd_inv (after_acks c2) str" by (simp add: snd_inv_def c2_def)
    have "sending c1 = sending c" by (simp add: c1_def sending_def)
    moreover have "adds (sound str (after_acks c2)) s s1" by (simp add: s1_def adds_ack)
    moreover have "snd_iss (after_acks c2) = snd_iss c" by (simp add: c2_def c1_def)
    ultimately show ?thesis by (intro snd_step_drain [OF i 3]) (simp_all add: c2_def)
  qed
qed


lemma snd_step_recv:
  assumes "snd_inv c str" "fst (recv_conn e n c s) = (c', s')"
  shows "snd_step_ok str c s c' s'"
proof -
  have c': "c' = c \<or> c' = c\<lparr>rx_buf := drop (min (length (rx_buf c)) n) (rx_buf c)\<rparr>"
    and s': "s' = s \<or> s' = tcp_send_ack e c' s"
    using assms(2) by (auto simp: recv_conn_def Let_def split: if_splits)
  have f: "snd_at c' str k = snd_at c str k" "c_state c' = c_state c" "fin_sent c' = fin_sent c" "snd_iss c' = snd_iss c" for k
    using c' by (auto simp: snd_at_def)
  have "adds (sound str c') s s'" using s' by (auto simp: adds_ack)
  then show ?thesis using assms(1) f by (simp add: snd_step_ok_def snd_inv_def sending_def)
qed

lemma snd_step_close:
  assumes "snd_inv c str" "close_conn e (c\<lparr>user_closed := True\<rparr>) s = (c', s')"
  shows "snd_step_ok str c s c' s'"
proof -
  have a: "snd_at (c\<lparr>user_closed := True, c_state := st\<rparr>) str k = snd_at c str k"
    "snd_at (c\<lparr>user_closed := True\<rparr>) str k = snd_at c str k" for st k by (simp_all add: snd_at_def)
  consider st where "st = TCP_FIN_WAIT_1 \<or> st = TCP_LAST_ACK" "sending c"
      "tcp_drain_tx e (c\<lparr>user_closed := True, c_state := st\<rparr>) s = (c', s')"
    | "c' = c\<lparr>user_closed := True\<rparr>" "s' = s"
    using assms(2) by (auto simp: close_conn_def sending_def split: if_splits)
  then show ?thesis
  proof cases
    case 1
    then show ?thesis using assms(1) a
      by (intro snd_step_drain [OF _ 1(3)]) (auto simp: snd_inv_def sending_def)
  next
    case 2
    then show ?thesis using assms(1) a by (simp add: snd_step_ok_def snd_inv_def sending_def)
  qed
qed

lemma snd_step_retransmit:
  assumes "snd_inv c str" "retransmit e c s = (c', s')"
  shows "snd_step_ok str c s c' s'"
proof -
  define c1 where "c1 = c\<lparr>snd_nxt := snd_una c,
      fin_sent := (if fin_sent c \<and> snd_nxt c - snd_una c > tx_len c then False else fin_sent c)\<rparr>"
  obtain c2 s1 where d: "tcp_drain_tx e c1 s = (c2, s1)" by fastforce
  have c': "c' = c2\<lparr>last_tx_poll := g_poll_counter s1, dbg_rtx_fired := dbg_rtx_fired c2 + 1\<rparr>" "s' = s1"
    using assms(2) d by (auto simp: retransmit_def Let_def c1_def)
  obtain k where k: "snd_at c str k" and ns: "fin_sent c \<longrightarrow> \<not> sending c" using assms(1) by (auto simp: snd_inv_def)
  have "snd_at c1 str k"
  proof (cases "fin_acked c")
    case True
    then show ?thesis using k by (auto simp: snd_at_def c1_def)
  next
    case False
    have "tx_len c + 1 > tx_len c" using snd_at_len(5) [OF k] by (simp add: word_less_nat_alt)
    then have "\<not> fin_sent c1" using snd_at_unacked(2) [OF k False] by (cases "fin_sent c") (simp_all add: c1_def)
    then show ?thesis using k False snd_at_unacked(1) [OF k False] by (simp add: snd_at_def c1_def)
  qed
  then have "snd_inv c1 str" using ns by (auto simp: snd_inv_def c1_def sending_def split: if_splits)
  then have "snd_step_ok str c s c2 s1"
    by (rule snd_step_drain [OF _ d]) (simp_all add: c1_def sending_def)
  moreover have "snd_at c' str k = snd_at c2 str k" for k by (rule snd_at_cong) (simp_all add: c')
  moreover have "sound str c' = sound str c2" by (rule sound_cong) (simp_all add: c')
  ultimately show ?thesis by (simp add: snd_step_ok_def snd_inv_def sending_def c')
qed

lemma snd_step_refl: "snd_inv c str \<Longrightarrow> snd_step_ok str c s c s"
  by (simp add: snd_step_ok_def)

lemma snd_step_trans:
  assumes "snd_step_ok str c s c1 s1" "snd_step_ok str c1 s1 c2 s2"
  shows "snd_step_ok str c s c2 s2"
proof -
  have "adds (sound str c2) s s1"
    by (rule adds_mono [of "sound str c1"]) (use assms in \<open>auto simp: snd_step_ok_def sound_def\<close>)
  then show ?thesis using assms by (auto simp: snd_step_ok_def intro: adds_trans)
qed

lemma snd_step_rtx_syn:
  assumes "snd_inv c str" "rtx_syn e f ak c s = (c', s')" "\<not> (f AND TCP_FLAG_FIN \<noteq> 0)"
  shows "snd_step_ok str c s c' s'"
proof -
  have c': "c' = c\<lparr>last_tx_poll := g_poll_counter s, dbg_rtx_fired := dbg_rtx_fired c + 1\<rparr>"
    "s' = fst (tcp_tx e c f (snd_iss c) ak [] True s)"
    using assms(2) by (auto simp: rtx_syn_def Let_def)
  have "adds (sound str c') s s'" unfolding c'(2)
    by (rule adds_tx) (simp add: sound_def genuine_def has_flag_def seg_of_def assms(3) [simplified])
  moreover have "snd_at c' str k = snd_at c str k" for k by (rule snd_at_cong) (simp_all add: c')
  ultimately show ?thesis using assms(1) by (simp add: snd_step_ok_def snd_inv_def sending_def c')
qed

lemma snd_step_poll:
  assumes "snd_inv c str" "poll_live e c s = (c', s')"
  shows "snd_step_ok str c s c' s'"
proof -
  obtain c1 s1 where 1: "(if snd_nxt c \<noteq> snd_una c \<and> rto_due c s then retransmit e c s else (c, s)) = (c1, s1)"
    by fastforce
  obtain c2 s2 where 2: "(if c_state c1 = TCP_SYN_SENT \<and> rto_due c1 s1
      then rtx_syn e TCP_FLAG_SYN 0 c1 s1 else (c1, s1)) = (c2, s2)" by fastforce
  have 3: "(if c_state c2 = TCP_SYN_RECEIVED \<and> rto_due c2 s2
      then rtx_syn e (TCP_FLAG_SYN OR TCP_FLAG_ACK) (rcv_nxt c2) c2 s2 else (c2, s2)) = (c', s')"
    using assms(2) unfolding poll_live_def 1 2 Let_def prod.case by simp
  have a: "snd_step_ok str c s c1 s1"
    using 1 assms(1) snd_step_retransmit snd_step_refl by (auto split: if_splits)
  then have i: "snd_inv c1 str" by (simp add: snd_step_ok_def)
  have b: "snd_step_ok str c1 s1 c2 s2"
    using 2 i by (auto split: if_splits intro: snd_step_refl snd_step_rtx_syn [OF i, of e 2 0])
  then have i2: "snd_inv c2 str" by (simp add: snd_step_ok_def)
  have "snd_step_ok str c2 s2 c' s'"
    using 3 i2 by (auto split: if_splits intro: snd_step_refl snd_step_rtx_syn [OF i2, of e 18])
  then show ?thesis using a b by (blast intro: snd_step_trans)
qed

lemma snd_step_send:
  assumes "snd_inv c str" "send_conn e bs c s = ((c', s'), r)"
  shows "snd_step_ok (str @ take (nat r) bs) c s c' s'" "\<not> sending c \<Longrightarrow> take (nat r) bs = []"
proof -
  show "take (nat r) bs = []" if "\<not> sending c"
    using that assms(2) by (auto simp: send_conn_def sending_def split: if_splits)
  show "snd_step_ok (str @ take (nat r) bs) c s c' s'"
  proof (cases "c_reset c \<or> \<not> sending c")
    case True
    then have "c' = c" "s' = s" "r = -1" using assms(2) by (auto simp: send_conn_def sending_def split: if_splits)
    then show ?thesis using assms(1) by (simp add: snd_step_ok_def)
  next
    case False
    define put where "put = min (length bs) (unat (TCP_BUF_SIZE - tx_len c))"
    define c1 where "c1 = c\<lparr>tx_buf := take (unat (tx_len c)) (tx_buf c) @ take put bs,
                   tx_len := tx_len c + of_nat put\<rparr>"
    have st: "c_state c = TCP_ESTABLISHED \<or> c_state c = TCP_CLOSE_WAIT" using False by (simp add: sending_def)
    have d: "tcp_drain_tx e c1 s = (c', s')" and r: "r = int put"
      using assms(2) False st by (auto simp: send_conn_def Let_def put_def c1_def)
    obtain k where k: "snd_at c str k" and nf: "\<not> fin_sent c" using assms(1) False by (auto simp: snd_inv_def)
    have na: "\<not> fin_acked c" using k nf by (auto simp: snd_at_def)
    note l = snd_at_len [OF k]
    have "unat (TCP_BUF_SIZE - tx_len c) = 32768 - unat (tx_len c)"
      using l(2) by (subst unat_sub) (simp_all add: word_le_nat_alt)
    then have p: "put \<le> 32768 - unat (tx_len c)" "put \<le> length bs" by (simp_all add: put_def)
    have "unat (of_nat put :: u32) = put"
      using p by (simp add: unsigned_of_nat take_bit_nat_eq_self_iff)
    then have u: "unat (tx_len c + of_nat put) = unat (tx_len c) + put"
      using p l(2) by (simp add: unat_word_ariths)
    have "snd_nxt c - snd_una c \<le> tx_len c + of_nat put"
      using snd_at_unacked(3) [OF k na nf] unfolding word_le_nat_alt u by linarith
    then have "snd_at c1 (str @ take put bs) k"
      using l p u na nf snd_at_unacked(1) [OF k na] by (intro snd_at_unackedI) (simp_all add: c1_def)
    then have "snd_inv c1 (str @ take (nat r) bs)" by (auto simp: snd_inv_def c1_def nf r)
    then show ?thesis by (rule snd_step_drain [OF _ d]) (simp_all add: c1_def sending_def)
  qed
qed

lemma snd_step:
  assumes "snd_inv c str" "step_conn e ev s c = (c', s')"
  shows "snd_step_ok (str @ accepted e ev s c) c s c' s'" "\<not> sending c \<Longrightarrow> accepted e ev s c = []"
proof -
  show "snd_step_ok (str @ accepted e ev s c) c s c' s'"
  proof (cases ev)
    case (Send bs)
    then show ?thesis using assms snd_step_send(1) [OF assms(1), of e bs s c' s']
      by (cases "send_conn e bs c s") (simp add: step_conn_def accepted_def)
  next
    case (Recv n)
    then show ?thesis using assms snd_step_recv by (simp add: step_conn_def accepted_def)
  next
    case Close
    then show ?thesis using assms snd_step_close snd_step_refl
      by (auto simp: step_conn_def accepted_def split: if_splits)
  next
    case (Segment g)
    then show ?thesis using assms snd_step_segment by (simp add: step_conn_def accepted_def)
  next
    case Poll
    then show ?thesis using assms snd_step_poll snd_step_refl
      by (auto simp: step_conn_def accepted_def split: if_splits)
  qed
  show "accepted e ev s c = []" if "\<not> sending c"
  proof (cases ev)
    case (Send bs)
    obtain c1 s1 r where "send_conn e bs c s = ((c1, s1), r)" by (metis prod.exhaust)
    then show ?thesis using that snd_step_send(2) [OF assms(1)] Send by (simp add: accepted_def)
  qed (simp_all add: accepted_def)
qed

text \<open>Every segment of a run is genuine for the whole of what its user wrote.\<close>

lemma conn_run_sender:
  "snd_inv c str \<Longrightarrow> r = conn_run e evs c \<Longrightarrow>
   snd_inv (r_conn r) (str @ r_written r) \<and> (\<forall>g\<in>set (r_sent r). genuine (str @ r_written r) (snd_iss c) g) \<and>
   snd_iss (r_conn r) = snd_iss c \<and> (\<not> sending c \<longrightarrow> r_written r = [])"
proof (induction e evs c arbitrary: str r rule: conn_run.induct)
  case (1 e c)
  then show ?case by simp
next
  case (2 e ev s evs c)
  obtain c1 s1 where st: "step_conn e ev s c = (c1, s1)" by fastforce
  define w where "w = accepted e ev s c"
  define r' where "r' = conn_run e evs c1"
  note sp = snd_step [OF 2(2) st, folded w_def]
  have ok: "snd_inv c1 (str @ w)" "adds (sound (str @ w) c1) s s1" "snd_iss c1 = snd_iss c" "sending c1 \<longrightarrow> sending c"
    using sp(1) by (auto simp: snd_step_ok_def)
  have r: "r_conn r = r_conn r'" "r_written r = w @ r_written r'"
    "r_sent r = map snd (drop (length (segs s)) (segs s1)) @ r_sent r'"
    using 2(3) st by (simp_all add: r'_def w_def Let_def)
  have IH: "snd_inv (r_conn r') ((str @ w) @ r_written r')"
    "\<forall>g\<in>set (r_sent r'). genuine ((str @ w) @ r_written r') (snd_iss c1) g"
    "snd_iss (r_conn r') = snd_iss c1" "\<not> sending c1 \<longrightarrow> r_written r' = []"
    using 2(1) [OF st [symmetric] refl ok(1) r'_def] by blast+
  have "genuine ((str @ w) @ r_written r') (snd_iss c) g" if "sound (str @ w) c1 g" for g
    using that IH(4) ok(3) genuine_append [of "str @ w" "snd_iss c" g "r_written r'"]
    by (cases "has_flag g TCP_FLAG_FIN") (auto simp: sound_def)
  then have "\<forall>g\<in>set (map snd (drop (length (segs s)) (segs s1))). genuine ((str @ w) @ r_written r') (snd_iss c) g"
    using adds_sent [OF ok(2)] by blast
  then show ?case using IH ok(3,4) sp(2) unfolding r by auto
qed


subsection \<open>Receiving\<close>

text \<open>What was handed to the user and what waits for him is a prefix of the peer's stream, and
  \<open>rcv_nxt\<close> says how long it is.\<close>

definition rcv_at :: "tcp_conn \<Rightarrow> byte list \<Rightarrow> byte list \<Rightarrow> nat \<Rightarrow> bool" where
  "rcv_at c got str n \<longleftrightarrow> n \<le> length str \<and> got @ rx_buf c = take n str \<and>
     rcv_nxt c = rcv_irs c + 1 + of_nat (n + (if peer_fin c then 1 else 0)) \<and>
     (peer_fin c \<longrightarrow> n = length str) \<and> length (rx_buf c) \<le> 32768"

definition rcv_inv :: "tcp_conn \<Rightarrow> byte list \<Rightarrow> byte list \<Rightarrow> bool" where
  "rcv_inv c got str \<longleftrightarrow> (\<exists>n. rcv_at c got str n)"

lemma rcv_inv_cong:
  assumes "rx_buf c = rx_buf d" "rcv_nxt c = rcv_nxt d" "rcv_irs c = rcv_irs d" "peer_fin c = peer_fin d"
  shows "rcv_inv c got str = rcv_inv d got str"
  unfolding rcv_inv_def rcv_at_def assms ..

lemma rcv_inv_drain: "tcp_drain_tx e c s = (c', s') \<Longrightarrow> rcv_inv c' got str = rcv_inv c got str"
  by (rule rcv_inv_cong) (simp_all add: rest3D [OF tcp_drain_tx_frame(1)])

lemma of_nat_u32_inj: "(of_nat a :: u32) = of_nat b \<Longrightarrow> a < 2 ^ 32 \<Longrightarrow> b < 2 ^ 32 \<Longrightarrow> a = b"
  by (simp add: word_unat_eq_iff unsigned_of_nat take_bit_nat_eq_self)


lemma rx_data_inv:
  assumes "rcv_inv c got str" "genuine str (rcv_irs c) g" "length str + 1 < 2 ^ 32"
  shows "rcv_inv (rx_data g c) got str"
proof -
  obtain n where n: "n \<le> length str" "got @ rx_buf c = take n str"
    "rcv_nxt c = rcv_irs c + 1 + of_nat (n + (if peer_fin c then 1 else 0))"
    "peer_fin c \<longrightarrow> n = length str" "length (rx_buf c) \<le> 32768"
    using assms(1) by (auto simp: rcv_inv_def rcv_at_def)
  show ?thesis
  proof (cases "sg_data g \<noteq> [] \<and> sg_seq g = rcv_nxt c")
    case False
    then have "rcv_inv (rx_data g c) got str = rcv_inv c got str"
      by (intro rcv_inv_cong) (auto simp: rx_data_def)
    then show ?thesis using assms(1) by simp
  next
    case True
    then obtain off where off: "sg_seq g = rcv_irs c + 1 + of_nat off"
      "off + length (sg_data g) \<le> length str" "sg_data g = take (length (sg_data g)) (drop off str)"
      using assms(2) by (auto simp: genuine_def)
    have pos: "0 < length (sg_data g)" using True by simp
    have "(of_nat off :: u32) = of_nat (n + (if peer_fin c then 1 else 0))"
      using True n(3) off(1) by simp
    then have eq: "off = n + (if peer_fin c then 1 else 0)"
      using n(1) off(2) pos assms(3) by (intro of_nat_u32_inj) auto
    then have np: "\<not> peer_fin c" and on: "off = n" using n(4) off(2) pos by (auto split: if_splits)
    define tk where "tk = min (length (sg_data g)) (unat (TCP_BUF_SIZE - of_nat (length (rx_buf c))))"
    have "unat (TCP_BUF_SIZE - of_nat (length (rx_buf c)) :: u32) = 32768 - length (rx_buf c)"
      using n(5) by (subst unat_sub) (simp_all add: word_le_nat_alt unsigned_of_nat take_bit_nat_eq_self)
    then have t: "tk \<le> 32768 - length (rx_buf c)" "tk \<le> length (sg_data g)" by (simp_all add: tk_def)
    have f: "rx_buf (rx_data g c) = rx_buf c @ take tk (sg_data g)" "rcv_nxt (rx_data g c) = rcv_nxt c + of_nat tk"
      using True by (auto simp: rx_data_def Let_def tk_def [symmetric])
    have "take tk (sg_data g) = take tk (drop n str)"
      using off(3) t(2) on by (metis min.absorb1 take_take)
    then have "got @ rx_buf c @ take tk (sg_data g) = take (n + tk) str"
      using n(2) by (simp add: take_add flip: append_assoc)
    moreover have "n + tk \<le> length str" using off(2) t(2) on by linarith
    ultimately have "rcv_at (rx_data g c) got str (n + tk)"
      using n(3,5) t np by (simp add: rcv_at_def f)
    then show ?thesis by (auto simp: rcv_inv_def)
  qed
qed

lemma rx_fin_inv:
  assumes "rcv_inv c got str" "genuine str (rcv_irs c) g" "length str + 1 < 2 ^ 32"
  shows "rcv_inv (rx_fin g c) got str"
proof -
  obtain n where n: "rcv_at c got str n" using assms(1) by (auto simp: rcv_inv_def)
  show ?thesis
  proof (cases "has_flag g TCP_FLAG_FIN \<and> sg_seq g + of_nat (length (sg_data g)) = rcv_nxt c")
    case False
    then have "rx_fin g c = c" by (auto simp: rx_fin_def)
    then show ?thesis using assms(1) by simp
  next
    case True
    then have "rcv_nxt c = rcv_irs c + 1 + of_nat (length str)"
      using assms(2) by (auto simp: genuine_def)
    moreover have "rcv_nxt c = rcv_irs c + 1 + of_nat (n + (if peer_fin c then 1 else 0))"
      using n by (simp add: rcv_at_def)
    ultimately have "(of_nat (length str) :: u32) = of_nat (n + (if peer_fin c then 1 else 0))" by simp
    then have "length str = n + (if peer_fin c then 1 else 0)"
      using n assms(3) by (intro of_nat_u32_inj) (auto simp: rcv_at_def)
    then have "\<not> peer_fin c" "n = length str" using n by (auto simp: rcv_at_def split: if_splits)
    then have "rcv_at (rx_fin g c) got str n"
      using n True by (simp add: rcv_at_def rx_fin_def Let_def)
    then show ?thesis by (auto simp: rcv_inv_def)
  qed
qed

lemma rcv_step_segment:
  assumes "rcv_inv c got str" "genuine str (rcv_irs c) g" "length str + 1 < 2 ^ 32"
    "segment_conn e g c s = (c', s')"
  shows "rcv_inv c' got str" "rcv_irs c' = rcv_irs c"
proof -
  define c1 where "c1 = apply_ack (sg_ack g) (c\<lparr>snd_wnd := if sg_wnd g \<noteq> 0 then ucast (sg_wnd g) else 1\<rparr>)"
  define c2 where "c2 = rx_fin g (rx_data g c1)"
  define s1 where "s1 = (if sg_data g \<noteq> [] \<or> has_flag g TCP_FLAG_FIN then tcp_send_ack e c2 s else s)"
  consider "c' = c" | "c' = c\<lparr>c_reset := True, c_state := TCP_CLOSED\<rparr>"
    | "tcp_drain_tx e (after_acks c2) s1 = (c', s')"
    using assms(4)
    unfolding segment_conn_def handle_established_def Let_def c1_def [symmetric] c2_def [symmetric] s1_def [symmetric]
    by (cases "has_flag g TCP_FLAG_RST"; cases "has_flag g TCP_FLAG_ACK") simp_all
  then have "rcv_inv c' got str \<and> rcv_irs c' = rcv_irs c"
  proof cases
    case 2
    then have "rcv_inv c' got str = rcv_inv c got str" by (intro rcv_inv_cong) simp_all
    then show ?thesis using assms(1) 2 by simp
  next
    case 3
    have i: "rcv_irs c1 = rcv_irs c" by (simp add: c1_def)
    have "rcv_inv c1 got str = rcv_inv c got str" by (rule rcv_inv_cong) (simp_all add: c1_def)
    then have "rcv_inv (rx_data g c1) got str"
      using assms(1-3) i by (intro rx_data_inv) simp_all
    then have "rcv_inv c2 got str"
      unfolding c2_def using assms(2,3) i by (intro rx_fin_inv) simp_all
    moreover have "rcv_inv (after_acks c2) got str = rcv_inv c2 got str" by (rule rcv_inv_cong) simp_all
    moreover have "rcv_irs c' = rcv_irs c"
      using rest3D(8) [OF tcp_drain_tx_frame(1) [OF 3]] i by (simp add: c2_def)
    ultimately show ?thesis using rcv_inv_drain [OF 3] by simp
  qed (use assms(1) in simp_all)
  then show "rcv_inv c' got str" "rcv_irs c' = rcv_irs c" by auto
qed


text \<open>The other events leave what was received alone.\<close>

definition rcv_part :: "tcp_conn \<Rightarrow> byte list \<times> u32 \<times> u32 \<times> bool" where
  "rcv_part c = (rx_buf c, rcv_nxt c, rcv_irs c, peer_fin c)"

lemma rcv_part_cong: "rcv_part c = rcv_part d \<Longrightarrow> rcv_inv c got str = rcv_inv d got str"
  by (rule rcv_inv_cong) (auto simp: rcv_part_def)

lemma rcv_part_drain: "tcp_drain_tx e c s = (c', s') \<Longrightarrow> rcv_part c' = rcv_part c"
  by (simp add: rcv_part_def rest3D [OF tcp_drain_tx_frame(1)])

lemma rcv_part_retransmit: "retransmit e c s = (c', s') \<Longrightarrow> rcv_part c' = rcv_part c"
  by (auto simp: retransmit_def Let_def rcv_part_def dest!: rcv_part_drain split: prod.splits)

lemma rcv_part_rtx_syn: "rtx_syn e f ak c s = (c', s') \<Longrightarrow> rcv_part c' = rcv_part c"
  by (auto simp: rtx_syn_def Let_def rcv_part_def)

lemma rcv_part_poll:
  assumes "poll_live e c s = (c', s')"
  shows "rcv_part c' = rcv_part c"
proof -
  obtain c1 s1 where 1: "(if snd_nxt c \<noteq> snd_una c \<and> rto_due c s then retransmit e c s else (c, s)) = (c1, s1)"
    by fastforce
  obtain c2 s2 where 2: "(if c_state c1 = TCP_SYN_SENT \<and> rto_due c1 s1
      then rtx_syn e TCP_FLAG_SYN 0 c1 s1 else (c1, s1)) = (c2, s2)" by fastforce
  have 3: "(if c_state c2 = TCP_SYN_RECEIVED \<and> rto_due c2 s2
      then rtx_syn e (TCP_FLAG_SYN OR TCP_FLAG_ACK) (rcv_nxt c2) c2 s2 else (c2, s2)) = (c', s')"
    using assms unfolding poll_live_def 1 2 Let_def prod.case by simp
  have "rcv_part c1 = rcv_part c" using 1 rcv_part_retransmit by (metis prod.inject)
  moreover have "rcv_part c2 = rcv_part c1" using 2 rcv_part_rtx_syn by (metis prod.inject)
  moreover have "rcv_part c' = rcv_part c2" using 3 rcv_part_rtx_syn by (metis prod.inject)
  ultimately show ?thesis by simp
qed

lemma rcv_part_close: "close_conn e (c\<lparr>user_closed := True\<rparr>) s = (c', s') \<Longrightarrow> rcv_part c' = rcv_part c"
  by (auto simp: close_conn_def rcv_part_def dest!: rcv_part_drain split: if_splits)

lemma rcv_part_send: "send_conn e bs c s = ((c', s'), r) \<Longrightarrow> rcv_part c' = rcv_part c"
  by (auto simp: send_conn_def rcv_part_def Let_def dest!: rcv_part_drain split: if_splits)

lemma rcv_step_recv:
  assumes "rcv_inv c got str" "recv_conn e n c s = ((c', s'), r, bs)"
  shows "rcv_inv c' (got @ bs) str" "rcv_irs c' = rcv_irs c"
proof -
  define tk where "tk = min (length (rx_buf c)) n"
  have "(c' = c \<and> bs = []) \<or> (c' = c\<lparr>rx_buf := drop tk (rx_buf c)\<rparr> \<and> bs = take tk (rx_buf c))"
    using assms(2) by (auto simp: recv_conn_def Let_def tk_def split: if_splits)
  then show "rcv_inv c' (got @ bs) str" "rcv_irs c' = rcv_irs c"
    using assms(1) by (auto simp: rcv_inv_def rcv_at_def)
qed

lemma rcv_step:
  assumes "rcv_inv c got str" "length str + 1 < 2 ^ 32" "\<And>g. ev = Segment g \<Longrightarrow> genuine str (rcv_irs c) g"
    "step_conn e ev s c = (c', s')"
  shows "rcv_inv c' (got @ handed e ev s c) str \<and> rcv_irs c' = rcv_irs c"
proof -
  have part: ?thesis if "rcv_part c' = rcv_part c" "handed e ev s c = []"
    using that assms(1) rcv_part_cong [OF that(1)] by (simp add: rcv_part_def)
  show ?thesis
  proof (cases ev)
    case (Send bs)
    obtain r where "send_conn e bs c s = ((c', s'), r)"
      using assms(4) Send by (cases "send_conn e bs c s") (simp add: step_conn_def)
    then show ?thesis using Send by (intro part) (simp_all add: rcv_part_send handed_def)
  next
    case (Recv n)
    then obtain r bs where rc: "recv_conn e n c s = ((c', s'), r, bs)"
      using assms(4) by (cases "recv_conn e n c s") (auto simp: step_conn_def)
    then show ?thesis using rcv_step_recv [OF assms(1) rc] Recv by (simp add: handed_def)
  next
    case Close
    then show ?thesis using assms(4) rcv_part_close
      by (intro part) (auto simp: step_conn_def handed_def split: if_splits)
  next
    case (Segment g)
    then have sc: "segment_conn e g c s = (c', s')" using assms(4) by (simp add: step_conn_def)
    show ?thesis using rcv_step_segment [OF assms(1) assms(3) [OF Segment] assms(2) sc] Segment
      by (simp add: handed_def)
  next
    case Poll
    then show ?thesis using assms(4) rcv_part_poll
      by (intro part) (auto simp: step_conn_def handed_def split: if_splits)
  qed
qed

lemma conn_run_receiver:
  "rcv_inv c got str \<Longrightarrow> length str + 1 < 2 ^ 32 \<Longrightarrow>
   \<forall>(ev, s)\<in>set evs. \<forall>g. ev = Segment g \<longrightarrow> genuine str (rcv_irs c) g \<Longrightarrow>
   rcv_inv (r_conn (conn_run e evs c)) (got @ r_read (conn_run e evs c)) str"
proof (induction e evs c arbitrary: got rule: conn_run.induct)
  case (1 e c)
  then show ?case by simp
next
  case (2 e ev s evs c)
  obtain c1 s1 where st: "step_conn e ev s c = (c1, s1)" by fastforce
  have "rcv_inv c1 (got @ handed e ev s c) str \<and> rcv_irs c1 = rcv_irs c"
    by (rule rcv_step [OF 2(2,3) _ st]) (use 2(4) in auto)
  then show ?case
    using 2(1) [OF st [symmetric] refl, of "got @ handed e ev s c"] 2(3,4) st by (simp add: Let_def)
qed

section \<open>From end to end\<close>

text \<open>A connection just after the handshake.\<close>

definition fresh_conn :: "tcp_conn \<Rightarrow> bool" where
  "fresh_conn c \<longleftrightarrow> c_state c = TCP_ESTABLISHED \<and> tx_buf c = [] \<and> tx_len c = 0 \<and> rx_buf c = [] \<and>
     snd_una c = snd_iss c + 1 \<and> snd_nxt c = snd_iss c + 1 \<and> rcv_nxt c = rcv_irs c + 1 \<and>
     \<not> fin_sent c \<and> \<not> fin_acked c \<and> \<not> peer_fin c"

lemma fresh_snd: "fresh_conn c \<Longrightarrow> snd_inv c []"
  by (simp add: fresh_conn_def snd_inv_def snd_at_def)

lemma fresh_rcv: "fresh_conn c \<Longrightarrow> rcv_inv c [] str"
  unfolding rcv_inv_def by (rule exI [of _ 0]) (simp add: fresh_conn_def rcv_at_def)

text \<open>A segment carries what another carries: the same bytes at the same place, the same FIN.\<close>

definition same_payload :: "tcp_seg \<Rightarrow> tcp_seg \<Rightarrow> bool" where
  "same_payload g h \<longleftrightarrow> sg_seq g = sg_seq h \<and> sg_data g = sg_data h \<and>
     has_flag g TCP_FLAG_FIN = has_flag h TCP_FLAG_FIN"

lemma same_payload_genuine: "same_payload g h \<Longrightarrow> genuine str iss h \<Longrightarrow> genuine str iss g"
  unfolding genuine_def same_payload_def by simp

text \<open> C33. The bytes TCP hands to a user are a prefix of the bytes the user at the other end wrote, and
  all of them once the receiver has taken the FIN, however the network loses, repeats and reorders
  segments: \<open>a\<close> runs through any events and \<open>b\<close> through any events whose segments carry what \<open>a\<close> sent
  (streams so long that their sequence numbers come round are excluded).\<close>

theorem tcp_delivers_the_stream:
  assumes "fresh_conn a" "fresh_conn b" "rcv_irs b = snd_iss a"
    and "sender = conn_run e evs a" "receiver = conn_run e' evs' b"
    and "\<forall>(ev, s)\<in>set evs'. \<forall>g. ev = Segment g \<longrightarrow> (\<exists>h\<in>set (r_sent sender). same_payload g h)"
    and "length (r_written sender) + 1 < 2 ^ 32"
  shows "\<exists>n. r_read receiver @ rx_buf (r_conn receiver) = take n (r_written sender) \<and>
    (peer_fin (r_conn receiver) \<longrightarrow> n = length (r_written sender))"
proof -
  have snt: "\<forall>h\<in>set (r_sent sender). genuine (r_written sender) (snd_iss a) h"
    using conn_run_sender [OF fresh_snd [OF assms(1)] assms(4)] by simp
  have "\<forall>(ev, s)\<in>set evs'. \<forall>g. ev = Segment g \<longrightarrow> genuine (r_written sender) (rcv_irs b) g"
    using assms(6) snt same_payload_genuine unfolding assms(3) by fast
  from conn_run_receiver [OF fresh_rcv [OF assms(2)] assms(7) this, of e']
  show ?thesis unfolding assms(5) [symmetric] append_Nil rcv_inv_def rcv_at_def by blast
qed



text \<open>The same at concrete connections: two bytes and a FIN, which arrive with the FIN first and the
  data twice.\<close>

abbreviation "demo_a \<equiv> demo_conn 1 2 6 8"
abbreviation "demo_b \<equiv> demo_conn 2 1 8 6"

abbreviation "demo_data \<equiv> \<lparr>sg_src_port = 1, sg_dst_port = 2, sg_seq = 7, sg_ack = 9, sg_flags = 24,
  sg_wnd = 32768, sg_data = [65, 66]\<rparr>"
abbreviation "demo_fin \<equiv> \<lparr>sg_src_port = 1, sg_dst_port = 2, sg_seq = 9, sg_ack = 9, sg_flags = 17,
  sg_wnd = 32768, sg_data = []\<rparr>"

abbreviation "demo_a1 \<equiv> demo_a\<lparr>tx_buf := [65, 66], tx_len := 2\<rparr>"

lemma demo_fields:
  "c_reset (demo_conn l r i j) = False" "c_state (demo_conn l r i j) = TCP_ESTABLISHED"
  "tx_len (demo_conn l r i j) = 0" "tx_buf (demo_conn l r i j) = []" "snd_nxt (demo_conn l r i j) = i + 1"
  "snd_una (demo_conn l r i j) = i + 1" "snd_wnd (demo_conn l r i j) = 32768" "rcv_nxt (demo_conn l r i j) = j + 1"
  "fin_sent (demo_conn l r i j) = False" "local_port (demo_conn l r i j) = l" "remote_port (demo_conn l r i j) = r"
  "remote_ip (demo_conn l r i j) = [127, 0, 0, 1]" "rx_buf (demo_conn l r i j) = []"
  "fin_acked (demo_conn l r i j) = False" "peer_fin (demo_conn l r i j) = False"
  "snd_iss (demo_conn l r i j) = i" "rcv_irs (demo_conn l r i j) = j" "dbg_rx_total (demo_conn l r i j) = 0"
  "dbg_rx_next_log (demo_conn l r i j) = 1024 * 1024"
  by (simp_all add: demo_conn_def zero_conn_def)

lemma demo_tcp_fields: "segs demo_tcp = []" "g_poll_counter demo_tcp = 0"
  by (simp_all add: demo_tcp_def)

lemma drain_loop_stop: "\<not> (i < w \<and> snd_nxt c - snd_una c < tx_len c) \<Longrightarrow> drain_loop e w i c s = (c, s)"
  by (subst drain_loop.simps) (simp only: if_False)

lemma drain_loop_go:
  assumes "i < w" "snd_nxt c - snd_una c < tx_len c" "seg_size c w i = n"
    "tcp_tx e c 24 (snd_nxt c) (rcv_nxt c) (take (unat n) (drop (unat (snd_nxt c - snd_una c)) (tx_buf c))) False s = (s1, r)"
    "0 \<le> r"
  shows "drain_loop e w i c s =
    drain_loop e w (i + n) (c\<lparr>snd_nxt := snd_nxt c + n, last_tx_poll := g_poll_counter s1\<rparr>) s1"
  by (subst drain_loop.simps) (use assms in \<open>simp add: Let_def\<close>)

lemma demo_send:
  obtains t1 where "send_conn demo_env [65, 66] demo_a demo_tcp =
      ((demo_a1\<lparr>snd_nxt := 9, last_tx_poll := 0\<rparr>, t1), 2)" "segs t1 = [([127, 0, 0, 1], demo_data)]"
proof -
  define t1 where "t1 = fst (tcp_tx demo_env demo_a1 24 7 9 [65, 66] False demo_tcp)"
  have tx: "tcp_tx demo_env demo_a1 24 7 9 [65, 66] False demo_tcp = (t1, 0)"
    using demo_tx [of demo_a1 "[65, 66]" 24 7 9 False] by (simp add: demo_fields t1_def prod_eq_iff)
  have t1: "segs t1 = [([127, 0, 0, 1], demo_data)]" "g_poll_counter t1 = 0"
    using tcp_tx_segs [of demo_env demo_a1 24 7 9 "[65, 66]" False demo_tcp]
      tcp_tx_frame(2) [of demo_env demo_a1 24 7 9 "[65, 66]" False demo_tcp] tx
    by (simp_all add: demo_tcp_fields seg_of_def demo_fields adv_wnd_def)
  have sz: "seg_size demo_a1 32768 0 = 2" by (simp add: seg_size_def demo_fields Let_def)
  have "drain_loop demo_env 32768 0 demo_a1 demo_tcp =
      drain_loop demo_env 32768 (0 + 2) (demo_a1\<lparr>snd_nxt := snd_nxt demo_a1 + 2, last_tx_poll := g_poll_counter t1\<rparr>) t1"
    by (rule drain_loop_go [where r = 0, OF _ _ sz]) (simp_all add: demo_fields tx)
  then have "drain_loop demo_env 32768 0 demo_a1 demo_tcp = (demo_a1\<lparr>snd_nxt := 9, last_tx_poll := 0\<rparr>, t1)"
    by (simp add: demo_fields t1 drain_loop_stop)
  then have "send_conn demo_env [65, 66] demo_a demo_tcp = ((demo_a1\<lparr>snd_nxt := 9, last_tx_poll := 0\<rparr>, t1), 2)"
    by (simp add: send_conn_def tcp_drain_tx_def drain_fin_def demo_fields)
  then show ?thesis using t1(1) that by blast
qed

abbreviation "demo_run_a \<equiv> conn_run demo_env [(Send [65, 66], demo_tcp), (Close, demo_tcp)] demo_a"

lemma demo_run_a: "r_sent demo_run_a = [demo_data, demo_fin]" "r_written demo_run_a = [65, 66]"
proof -
  obtain t1 where s: "send_conn demo_env [65, 66] demo_a demo_tcp =
      ((demo_a1\<lparr>snd_nxt := 9, last_tx_poll := 0\<rparr>, t1), 2)" "segs t1 = [([127, 0, 0, 1], demo_data)]"
    by (rule demo_send)
  show "r_sent demo_run_a = [demo_data, demo_fin]" "r_written demo_run_a = [65, 66]"
    by (simp_all add: step_conn_def s accepted_def demo_tcp_fields close_conn_def demo_fields tcp_drain_tx_def
        drain_loop_stop drain_fin_def Let_def seg_of_def adv_wnd_def)
qed


lemma step_idle:
  fixes s :: "'a tcp_scheme"
  assumes "\<not> has_flag g TCP_FLAG_RST" "has_flag g TCP_FLAG_ACK" "sg_ack g = snd_una c" "snd_nxt c = snd_una c"
    "tx_len c = 0" "sending c" "sg_wnd g \<noteq> 0"
  shows "fst (step_conn e (Segment g) s c) =
    after_acks (rx_fin g (rx_data g (c\<lparr>snd_wnd := ucast (sg_wnd g)\<rparr>)))"
proof -
  define c1 where "c1 = after_acks (rx_fin g (rx_data g (c\<lparr>snd_wnd := ucast (sg_wnd g)\<rparr>)))"
  have a: "apply_ack (sg_ack g) (c\<lparr>snd_wnd := ucast (sg_wnd g)\<rparr>) = c\<lparr>snd_wnd := ucast (sg_wnd g)\<rparr>"
    using assms(3) by (simp add: apply_ack_def Let_def)
  have "sending c1" using assms(6) by (simp add: c1_def) (simp add: sending_def)
  then have "tcp_drain_tx e c1 s1 = (c1, s1)" for s1 :: "'a tcp_scheme"
    using assms(4,5)
    by (auto simp: tcp_drain_tx_def Let_def c1_def drain_loop_stop drain_fin_def sending_def)
  then show ?thesis
    using assms(1,2,7) a by (simp add: step_conn_def segment_conn_def handle_established_def Let_def c1_def)
qed

abbreviation "demo_run_b \<equiv> conn_run demo_env [(Segment demo_fin, demo_tcp), (Segment demo_data, demo_tcp),
  (Segment demo_data, demo_tcp), (Recv 1, demo_tcp), (Segment demo_fin, demo_tcp), (Recv 9, demo_tcp)] demo_b"

lemma conn_run_cons:
  "r_conn (conn_run e ((ev, s) # evs) c) = r_conn (conn_run e evs (fst (step_conn e ev s c)))"
  "r_read (conn_run e ((ev, s) # evs) c) = handed e ev s c @ r_read (conn_run e evs (fst (step_conn e ev s c)))"
  by (simp_all add: Let_def case_prod_beta)

lemma step_recv:
  "\<not> c_reset c \<Longrightarrow> rx_buf c \<noteq> [] \<Longrightarrow>
   fst (step_conn e (Recv n) s c) = c\<lparr>rx_buf := drop (min (length (rx_buf c)) n) (rx_buf c)\<rparr>"
  "\<not> c_reset c \<Longrightarrow> rx_buf c \<noteq> [] \<Longrightarrow> handed e (Recv n) s c = take (min (length (rx_buf c)) n) (rx_buf c)"
  "handed e (Segment g) s c = []"
  by (simp_all add: step_conn_def recv_conn_def handed_def Let_def)

lemma same_wnd: "snd_wnd c = v \<Longrightarrow> c\<lparr>snd_wnd := v\<rparr> = c"
  by (cases c) simp

lemma demo_run_b: "r_read demo_run_b = [65, 66]" "rx_buf (r_conn demo_run_b) = []" "peer_fin (r_conn demo_run_b)"
proof -
  define b1 where "b1 = demo_b\<lparr>snd_wnd := 32768\<rparr>"
  define b2 where "b2 = b1\<lparr>rx_buf := [65, 66], rcv_nxt := 9, dbg_rx_total := 2\<rparr>"
  define b3 where "b3 = b2\<lparr>dbg_rx_rejected := dbg_rx_rejected b2 + 1\<rparr>"
  define b4 where "b4 = b3\<lparr>rx_buf := [66]\<rparr>"
  define b5 where "b5 = b4\<lparr>rcv_nxt := 10, peer_fin := True, c_state := TCP_CLOSE_WAIT\<rparr>"
  have f: "snd_nxt c = 9" "snd_una c = 9" "tx_len c = 0" "c_reset c = False" "snd_wnd c = 32768"
      "dbg_rx_next_log c = 1024 * 1024"
    if "c \<in> {b1, b2, b3, b4, b5}" for c
    using that by (auto simp: b1_def b2_def b3_def b4_def b5_def demo_fields)
  have st: "c_state c = TCP_ESTABLISHED" if "c \<in> {b1, b2, b3, b4}" for c
    using that by (auto simp: b1_def b2_def b3_def b4_def demo_fields)
  have hf: "has_flag demo_data 4 = False" "has_flag demo_data 16" "has_flag demo_data 1 = False"
    "has_flag demo_fin 4 = False" "has_flag demo_fin 16" "has_flag demo_fin 1" by (simp_all add: has_flag_def)
  have aa: "after_acks c = c" if "sending c" for c using that by (auto simp: after_acks_def sending_def Let_def)
  have w: "c\<lparr>snd_wnd := 32768\<rparr> = c" if "c \<in> {b1, b2, b3, b4}" for c
    using f(5) [of c] that by (intro same_wnd) blast
  have idle: "fst (step_conn demo_env (Segment g) demo_tcp c) = d"
    if "g = demo_fin \<or> g = demo_data" "c = demo_b \<or> c \<in> {b1, b2, b4}" "rx_data g (c\<lparr>snd_wnd := 32768\<rparr>) = c'"
      "rx_fin g c' = d" "sending d" for g c c' d
  proof -
    have c: "snd_nxt c = 9" "snd_una c = 9" "tx_len c = 0" "sending c"
      using that(2) f [of c] st [of c] by (auto simp: demo_fields sending_def)
    have g: "\<not> has_flag g 4" "has_flag g 16" "sg_ack g = 9" "sg_wnd g \<noteq> 0" "ucast (sg_wnd g) = (32768 :: u32)"
      using that(1) hf by auto
    have "fst (step_conn demo_env (Segment g) demo_tcp c) = after_acks (rx_fin g (rx_data g (c\<lparr>snd_wnd := ucast (sg_wnd g)\<rparr>)))"
      by (rule step_idle) (use c g in simp_all)
    then show ?thesis unfolding g(5) that(3) that(4) aa [OF that(5)] .
  qed
  have s1: "fst (step_conn demo_env (Segment demo_fin) demo_tcp demo_b) = b1"
    by (rule idle [where c' = b1]) (simp_all add: sending_def st, simp_all add: rx_data_def rx_fin_def b1_def demo_fields)
  have s2: "fst (step_conn demo_env (Segment demo_data) demo_tcp b1) = b2"
    by (rule idle [where c' = b2]) (simp_all add: sending_def st w, simp_all add: rx_data_def rx_fin_def b1_def b2_def hf demo_fields)
  have s3: "fst (step_conn demo_env (Segment demo_data) demo_tcp b2) = b3"
    by (rule idle [where c' = b3]) (simp_all add: sending_def st w, simp_all add: rx_data_def rx_fin_def b1_def b2_def b3_def hf)
  have r: "rx_buf b3 = [65, 66]" "rx_buf b5 = [66]" by (simp_all add: b2_def b3_def b4_def b5_def)
  have s4: "fst (step_conn demo_env (Recv 1) demo_tcp b3) = b4" "handed demo_env (Recv 1) demo_tcp b3 = [65]"
    by (simp_all add: step_recv f r) (simp add: b4_def)
  have s5: "fst (step_conn demo_env (Segment demo_fin) demo_tcp b4) = b5"
    by (rule idle [where c' = b4]) (simp_all add: sending_def st w b5_def, simp_all add: rx_data_def rx_fin_def b1_def b2_def b3_def b4_def hf demo_fields)
  show "r_read demo_run_b = [65, 66]" "rx_buf (r_conn demo_run_b) = []" "peer_fin (r_conn demo_run_b)"
    unfolding conn_run_cons s1 s2 s3 s4 s5
    by (simp_all add: step_recv f r) (simp add: b5_def)
qed

lemma tcp_delivers_the_stream_witness:
  "\<exists>n. r_read demo_run_b @ rx_buf (r_conn demo_run_b) = take n (r_written demo_run_a) \<and>
    (peer_fin (r_conn demo_run_b) \<longrightarrow> n = length (r_written demo_run_a)) \<and> r_read demo_run_b = [65, 66]"
proof -
  have g: "\<forall>(ev, s)\<in>set [(Segment demo_fin, demo_tcp), (Segment demo_data, demo_tcp),
      (Segment demo_data, demo_tcp), (Recv 1, demo_tcp), (Segment demo_fin, demo_tcp), (Recv 9, demo_tcp)].
    \<forall>g. ev = Segment g \<longrightarrow> (\<exists>h\<in>set (r_sent demo_run_a). same_payload g h)"
    unfolding demo_run_a by (simp add: same_payload_def)
  have f: "fresh_conn demo_a" "fresh_conn demo_b" "rcv_irs demo_b = snd_iss demo_a"
    by (simp_all add: fresh_conn_def demo_fields)
  have len: "length (r_written demo_run_a) + 1 < 2 ^ 32" unfolding demo_run_a by simp
  from tcp_delivers_the_stream [OF f refl refl g len, of demo_env] show ?thesis
    unfolding demo_run_a demo_run_b by blast
qed

end
