(* ===== verification/Osfs1.thy ===== *)
theory Osfs1
  imports BlkCache Heap FileDesc "HOL-Library.Monad_Syntax"
begin

text \<open>
  OSFS-1, the read-only disk format mounted on \<open>/mnt\<close> and \<open>/bin\<close>: \<open>kernel/core/osfs.c\<close>.

  The directory is kept as the bytes of \<open>g_dir\<close>, 32 per entry, so that a name that fills its
  20 bytes runs on into the fields behind it exactly as the C comparison does.  Sectors come through
  the read cache of \<open>BlkCache\<close>.
\<close>

section \<open>State\<close>

record osfs1 =
  g_osfs_present :: bool
  g_file_count :: nat
  g_dir :: "byte list"
  blk_present :: bool
  o1_cache :: blk_cache

abbreviation (input) SECTOR :: nat where "SECTOR \<equiv> 512"
abbreviation (input) OSFS_MAX_FILES :: nat where "OSFS_MAX_FILES \<equiv> 256"
abbreviation (input) OSFS_NAME_MAX :: nat where "OSFS_NAME_MAX \<equiv> 20"
abbreviation (input) OSFS_DIRENT :: nat where "OSFS_DIRENT \<equiv> 32"
abbreviation (input) OSFS_DIR_SECTOR :: nat where "OSFS_DIR_SECTOR \<equiv> 1"
abbreviation (input) OSFS_DIR_SECTORS :: nat where "OSFS_DIR_SECTORS \<equiv> 16"

definition char_of_byte :: "byte \<Rightarrow> char" where
  "char_of_byte b = char_of (unat b)"

text \<open>The characters from the start of the name of entry \<open>i\<close> to the end of the table.\<close>

definition dirent_name :: "osfs1 \<Rightarrow> nat \<Rightarrow> char list" where
  "dirent_name s i = map char_of_byte (drop (OSFS_DIRENT * i) (g_dir s))"

definition dirent_start :: "osfs1 \<Rightarrow> nat \<Rightarrow> u32" where
  "dirent_start s i = le32_at (g_dir s) (OSFS_DIRENT * i + 20)"

definition dirent_size :: "osfs1 \<Rightarrow> nat \<Rightarrow> u32" where
  "dirent_size s i = le32_at (g_dir s) (OSFS_DIRENT * i + 24)"

section \<open>Mounting\<close>

fun read_dir :: "blk_cache \<Rightarrow> nat \<Rightarrow> nat \<Rightarrow> blk_cache \<times> byte list option" where
  "read_dir c l 0 = (c, Some [])"
| "read_dir c l (Suc n) =
     (let (c1, r) = blk_cache_read c l in
      case r of
        None \<Rightarrow> (c1, None)
      | Some bs \<Rightarrow> let (c2, r2) = read_dir c1 (l + 1) n in (c2, map_option (\<lambda>rest. bs @ rest) r2))"

definition osfs_magic :: "byte list" where
  "osfs_magic = [0x4F, 0x53, 0x46, 0x53, 0x2D, 0x30, 0x30, 0x31]"

definition osfs_init :: "osfs1 \<Rightarrow> osfs1 \<times> int" where
  "osfs_init s0 =
     (let s = s0\<lparr>g_osfs_present := False, g_file_count := 0\<rparr> in
      if \<not> blk_present s then (s, -1)
      else
        let (c1, r) = blk_cache_read (o1_cache s) 0; s1 = s\<lparr>o1_cache := c1\<rparr> in
        case r of
          None \<Rightarrow> (s1, -1)
        | Some sb \<Rightarrow>
            if take 8 sb \<noteq> osfs_magic then (s1, -1)
            else
              let fc = unat (le32_at sb 8) in
              if fc > OSFS_MAX_FILES then (s1, -1)
              else
                let (c2, d) = read_dir c1 OSFS_DIR_SECTOR OSFS_DIR_SECTORS; s2 = s1\<lparr>o1_cache := c2\<rparr> in
                case d of
                  None \<Rightarrow> (s2, -1)
                | Some dir \<Rightarrow>
                    (s2\<lparr>g_dir := splice (g_dir s2) 0 (take (OSFS_DIRENT * fc) dir),
                        g_file_count := fc, g_osfs_present := True\<rparr>, 0))"

definition osfs_present :: "osfs1 \<Rightarrow> bool" where "osfs_present s = g_osfs_present s"

definition osfs_file_count :: "osfs1 \<Rightarrow> nat" where "osfs_file_count s = g_file_count s"

text \<open>The index of the entry the pointer names; \<open>None\<close> for \<open>NULL\<close>.\<close>

definition osfs_dirent_at :: "osfs1 \<Rightarrow> nat \<Rightarrow> nat option" where
  "osfs_dirent_at s i = (if i \<ge> g_file_count s then None else Some i)"

section \<open>Looking up and reading\<close>

text \<open>\<open>None\<close> is the result \<open>-1\<close>.\<close>

definition osfs_lookup :: "osfs1 \<Rightarrow> char list option \<Rightarrow> (u32 \<times> u32) option" where
  "osfs_lookup s name =
     (if \<not> g_osfs_present s then None
      else case name of
        None \<Rightarrow> None
      | Some n \<Rightarrow>
          map_option (\<lambda>i. (dirent_start s i, dirent_size s i))
            (first_index (\<lambda>i. name_eq n (dirent_name s i)) [0..<g_file_count s]))"

text \<open>The copy loop of \<open>osfs_read\<close>: what has been produced so far is in \<open>acc\<close>.\<close>

function osfs_copy :: "blk_cache \<Rightarrow> u32 \<Rightarrow> nat \<Rightarrow> nat \<Rightarrow> byte list \<Rightarrow> blk_cache \<times> int \<times> byte list" where
  "osfs_copy c start off len acc =
     (if \<not> length acc < len then (c, int (length acc), acc)
      else
        let pos = off + length acc;
            l = start + of_nat (pos div SECTOR);
            in_sect = pos mod SECTOR;
            want = len - length acc;
            can = (if SECTOR - in_sect > want then want else SECTOR - in_sect);
            (c1, r) = blk_cache_read c (unat l) in
        case r of
          None \<Rightarrow> (c1, if length acc > 0 then int (length acc) else -1, acc)
        | Some sect \<Rightarrow>
            osfs_copy c1 start off len (acc @ map (\<lambda>i. sect ! (in_sect + i)) [0..<can]))"
  by pat_completeness auto
termination
  by (relation "measure (\<lambda>(c, start, off, len, acc). len - length acc)") auto

declare osfs_copy.simps [simp del]

text \<open>Offsets are below the size of the file, a 32-bit number, whenever the position is computed,
  so the 64-bit sum does not wrap.\<close>

definition osfs_read :: "osfs1 \<Rightarrow> u32 \<Rightarrow> u32 \<Rightarrow> nat \<Rightarrow> nat \<Rightarrow> osfs1 \<times> int \<times> byte list" where
  "osfs_read s start size_bytes off len0 =
     (if \<not> g_osfs_present s then (s, -1, [])
      else if off \<ge> unat size_bytes then (s, 0, [])
      else
        let remaining = unat size_bytes - off;
            len = (if len0 > remaining then remaining else len0) in
        if len = 0 then (s, 0, [])
        else let (c1, r, bs) = osfs_copy (o1_cache s) start off len [] in (s\<lparr>o1_cache := c1\<rparr>, r, bs))"

section \<open>The methods of the mount\<close>

definition osfs_op_open ::
    "osfs1 \<Rightarrow> char list option \<Rightarrow> u32 \<Rightarrow> fd_entry option \<Rightarrow> int \<times> fd_entry option" where
  "osfs_op_open s rel flags out =
     (case out of
        None \<Rightarrow> (- EINVAL, None)
      | Some e \<Rightarrow>
          let bare = strip_slash rel in
          if str_empty bare then (- EINVAL, out)
          else case osfs_lookup s (Some bare) of
            None \<Rightarrow> (- ENOENT, out)
          | Some (start, sz) \<Rightarrow>
              (0, Some ((reset_entry FD_FILE e)\<lparr>fe_osfs_start := unat start, fe_osfs_size := unat sz\<rparr>)))"

definition osfs_op_read ::
    "osfs1 \<Rightarrow> fd_entry option \<Rightarrow> bool \<Rightarrow> nat \<Rightarrow> osfs1 \<times> int \<times> byte list \<times> fd_entry option" where
  "osfs_op_read s e buf_null n =
     (case e of
        None \<Rightarrow> (s, - EINVAL, [], None)
      | Some x \<Rightarrow>
          if buf_null then (s, - EINVAL, [], e)
          else
            let (s1, got, bs) = osfs_read s (of_nat (fe_osfs_start x)) (of_nat (fe_osfs_size x)) (fe_offset x) n in
            (s1, got, bs,
             Some (if got > 0 then x\<lparr>fe_offset := add64 (fe_offset x) (nat got)\<rparr> else x)))"

definition osfs_op_close :: "osfs1 \<Rightarrow> fd_entry option \<Rightarrow> int" where
  "osfs_op_close s e = 0"

text \<open>The result, the name with its NUL, and the type.\<close>

definition osfs_op_listdir :: "osfs1 \<Rightarrow> char list option \<Rightarrow> int \<Rightarrow> nat \<Rightarrow> int \<times> char list \<times> u32" where
  "osfs_op_listdir s rel idx cap =
     (if \<not> str_empty (strip_slash rel) then (-1, [], 0)
      else if \<not> osfs_present s then (-1, [], 0)
      else if idx < 0 \<or> nat idx \<ge> osfs_file_count s then (-1, [], 0)
      else case osfs_dirent_at s (nat idx) of
        None \<Rightarrow> (-1, [], 0)
      | Some i \<Rightarrow>
          let nm = take (cap - 1) (cstr (take OSFS_NAME_MAX (dirent_name s i)))
          in (int (length nm), nm @ [NUL], 1))"

definition osfs_op_is_dir :: "char list option \<Rightarrow> int" where
  "osfs_op_is_dir rel = (if str_empty (strip_slash rel) then 1 else 0)"

text \<open>The file system, the heap, the result, and the address and bytes of the copy.\<close>

definition osfs_op_load ::
    "osfs1 \<Rightarrow> heap \<Rightarrow> char list option \<Rightarrow> bool \<Rightarrow> (osfs1 \<times> heap \<times> int \<times> nat \<times> byte list) option" where
  "osfs_op_load s h rel out_null =
     (if out_null then Some (s, h, - EINVAL, 0, [])
      else
        let bare = strip_slash rel in
        if str_empty bare then Some (s, h, - ENOENT, 0, [])
        else case osfs_lookup s (Some bare) of
          None \<Rightarrow> Some (s, h, - ENOENT, 0, [])
        | Some (start, sz) \<Rightarrow> do {
            (h1, p) \<leftarrow> kmalloc h (unat sz);
            if p = 0 \<and> sz > 0 then Some (s, h1, - ENOMEM, 0, [])
            else if sz > 0 then
              let (s1, got, bs) = osfs_read s start sz 0 (unat sz) in
              if got < 0 \<or> of_int got \<noteq> sz then do { h2 \<leftarrow> kfree h1 p; Some (s1, h2, - EIO, 0, []) }
              else Some (s1, h1, 0, p, bs)
            else Some (s, h1, 0, p, []) })"

end
