(* ===== verification/Osfs1Props.thy ===== *)
theory Osfs1Props
  imports Osfs1
begin

text \<open>Reading an OSFS-1 file gives the bytes of its sectors on the disk.\<close>

text \<open>Byte \<open>p\<close> of the file that starts at sector \<open>start\<close>.\<close>

definition osfs_byte :: "disk \<Rightarrow> u32 \<Rightarrow> nat \<Rightarrow> byte" where
  "osfs_byte d start p = sectors d (unat start + p div SECTOR) ! (p mod SECTOR)"

lemma byte_run:
  assumes "p mod 512 + n \<le> 512"
  shows "map (\<lambda>i. sectors d (unat start + p div SECTOR) ! (p mod SECTOR + i)) [0..<n] = map (osfs_byte d start) [p..<p + n]"
proof (rule nth_equalityI)
  fix i assume i: "i < length (map (\<lambda>i. sectors d (unat start + p div SECTOR) ! (p mod SECTOR + i)) [0..<n])"
  have "p mod 512 + i < 512" using assms i by simp
  moreover have e: "p + i = (p mod 512 + i) + p div 512 * 512" using div_mult_mod_eq [of p 512] by linarith
  ultimately have "(p + i) div 512 = p div 512" "(p + i) mod 512 = p mod 512 + i"
    using div_mult_self1 [of 512 "p mod 512 + i" "p div 512"] mod_mult_self1 [of "p mod 512 + i" "p div 512" 512]
    by simp_all
  then show "map (\<lambda>i. sectors d (unat start + p div SECTOR) ! (p mod SECTOR + i)) [0..<n] ! i =
      map (osfs_byte d start) [p..<p + n] ! i"
    using i by (simp add: osfs_byte_def)
qed simp

lemma sector_number:
  assumes "unat (start :: u32) + k < 2 ^ 32"
  shows "unat (start + of_nat k) = unat start + k"
proof -
  have k: "unat (of_nat k :: u32) = k" using assms by (simp add: unat_of_nat take_bit_nat_eq_self)
  then show ?thesis using assms unat_add_lem [of start "of_nat k"] by simp
qed

lemma osfs_copy_run:
  assumes "blk_ok c" "length acc \<le> len" "acc = map (osfs_byte (device c) start) [off..<off + length acc]"
    and "\<forall>p<off + len. unat start + p div SECTOR < 2 ^ 32"
    and "osfs_copy c start off len acc = (c', r, bs)"
  shows "blk_ok c' \<and> device c' = device c \<and> length acc \<le> length bs \<and> length bs \<le> len \<and>
    bs = map (osfs_byte (device c) start) [off..<off + length bs] \<and>
    r = (if bs = [] \<and> 0 < len then -1 else int (length bs)) \<and>
    (length bs < len \<longrightarrow> (\<exists>p. off \<le> p \<and> p < off + len \<and> unat start + p div SECTOR \<in> unreadable (device c)))"
  using assms
proof (induction c start off len acc rule: osfs_copy.induct)
  case (1 c start off len acc)
  note prems = "1.prems"
  show ?case
  proof (cases "length acc < len")
    case False
    then have "osfs_copy c start off len acc = (c, int (length acc), acc)" by (simp add: osfs_copy.simps [of c])
    then have e: "c' = c" "r = int (length acc)" "bs = acc" using prems(5) by auto
    show ?thesis unfolding e using prems(1-4) False by auto
  next
    case True
    let ?p = "off + length acc"
    let ?l = "unat start + ?p div SECTOR"
    let ?want = "len - length acc"
    let ?can = "if SECTOR - ?p mod SECTOR > ?want then ?want else SECTOR - ?p mod SECTOR"
    have l: "unat (start + of_nat (?p div SECTOR)) = ?l"
      by (rule sector_number) (use prems(4) True in auto)
    obtain c1 sr where rd: "blk_cache_read c ?l = (c1, sr)" by (cases "blk_cache_read c ?l")
    note ok = blk_read_ok [OF prems(1), of ?l, unfolded rd fst_conv snd_conv]
    show ?thesis
    proof (cases sr)
      case None
      then have "osfs_copy c start off len acc = (c1, if length acc > 0 then int (length acc) else -1, acc)"
        using True rd l by (simp add: osfs_copy.simps [of c] Let_def)
      then have e: "c' = c1" "r = (if length acc > 0 then int (length acc) else -1)" "bs = acc" using prems(5) by auto
      have "?l \<in> unreadable (device c)" using ok None by simp
      then have "\<exists>p. off \<le> p \<and> p < off + len \<and> unat start + p div SECTOR \<in> unreadable (device c)"
        using True by (intro exI [of _ ?p]) simp
      then show ?thesis using e ok prems True by auto
    next
      case (Some sect)
      have s: "sect = sectors (device c) ?l" using ok Some by simp
      let ?acc = "acc @ map (\<lambda>i. sect ! (?p mod SECTOR + i)) [0..<?can]"
      have can: "0 < ?can" "?can \<le> ?want" "?p mod 512 + ?can \<le> 512"
        using True mod_less_divisor [of 512 ?p] by auto
      have nn: "\<not> \<not> length acc < len" using True by simp
      have rd': "(c1, sr) = blk_cache_read c (unat (start + of_nat (?p div SECTOR)))" using rd l by simp
      have rest: "osfs_copy c1 start off len ?acc = (c', r, bs)"
        using prems(5) True rd l Some by (simp add: osfs_copy.simps [of c] Let_def)
      have dev: "blk_ok c1" "device c1 = device c" using ok by simp_all
      have "map (\<lambda>i. sect ! (?p mod SECTOR + i)) [0..<?can] = map (osfs_byte (device c) start) [?p..<?p + ?can]"
        unfolding s by (rule byte_run [OF can(3)])
      then have acc: "?acc = map (osfs_byte (device c1) start) [off..<off + length ?acc]"
        using prems(3) dev(2) upt_add_eq_append [of off ?p ?can] by (simp add: add.assoc)
      have "length ?acc = length acc + ?can" by simp
      then have "length ?acc \<le> len" using can(2) True by linarith
      then have "blk_ok c' \<and> device c' = device c1 \<and> length ?acc \<le> length bs \<and> length bs \<le> len \<and>
        bs = map (osfs_byte (device c1) start) [off..<off + length bs] \<and>
        r = (if bs = [] \<and> 0 < len then -1 else int (length bs)) \<and>
        (length bs < len \<longrightarrow> (\<exists>p. off \<le> p \<and> p < off + len \<and> unat start + p div SECTOR \<in> unreadable (device c1)))"
        by - (rule "1.IH" [OF nn refl refl refl refl refl rd' refl Some dev(1) _ acc prems(4) rest])
      then show ?thesis using dev(2) by auto
    qed
  qed
qed

section \<open>Properties\<close>

text \<open>C40. A read of an OSFS-1 file returns the bytes of its sectors from the offset on, cut at the length
  asked for and at the end of the file, whatever the cache holds; it is short, or \<open>-1\<close> if
  nothing was read, only when one of the sectors cannot be read.  The cache stays consistent.\<close>

theorem osfs_read_correct:
  assumes "blk_ok (o1_cache s)" "g_osfs_present s"
    and fits: "\<forall>p<unat sz. unat start + p div SECTOR < 2 ^ 32"
    and r: "osfs_read s start sz off len = (s', r, bs)"
  shows "blk_ok (o1_cache s') \<and> device (o1_cache s') = device (o1_cache s) \<and>
    bs = map (osfs_byte (device (o1_cache s)) start) [off..<off + length bs] \<and>
    length bs \<le> min len (unat sz - off) \<and> (r = int (length bs) \<or> r = -1 \<and> bs = []) \<and>
    ((\<forall>p. off \<le> p \<and> p < off + len \<and> p < unat sz \<longrightarrow> unat start + p div SECTOR \<notin> unreadable (device (o1_cache s))) \<longrightarrow>
      r = int (min len (unat sz - off)) \<and> length bs = min len (unat sz - off))"
proof (cases "off \<ge> unat sz \<or> len = 0")
  case True
  then have "osfs_read s start sz off len = (s, 0, [])" using assms(2) by (auto simp: osfs_read_def Let_def)
  then have "s' = s" "r = 0" "bs = []" using r by auto
  then show ?thesis using assms(1) True by auto
next
  case False
  let ?n = "if len > unat sz - off then unat sz - off else len"
  have n: "?n = min len (unat sz - off)" "0 < ?n" using False by auto
  obtain c1 r1 bs1 where e1: "osfs_copy (o1_cache s) start off ?n [] = (c1, r1, bs1)"
    by (cases "osfs_copy (o1_cache s) start off ?n []")
  have "?n \<noteq> 0" "\<not> off \<ge> unat sz" using n(2) False by simp_all
  then have "osfs_read s start sz off len = (s\<lparr>o1_cache := c1\<rparr>, r1, bs1)"
    using assms(2) e1 unfolding osfs_read_def Let_def by (simp only: if_False not_True_eq_False if_not_P prod.case)
  then have e: "osfs_copy (o1_cache s) start off ?n [] = (c1, r, bs)" "s' = s\<lparr>o1_cache := c1\<rparr>"
    using r e1 by auto
  have f: "\<forall>p<off + ?n. unat start + p div SECTOR < 2 ^ 32" using fits False by auto
  have a0: "[] = map (osfs_byte (device (o1_cache s)) start) [off..<off + length ([] :: byte list)]" by simp
  have l0: "length ([] :: byte list) \<le> ?n" by simp
  note c = osfs_copy_run [OF assms(1) l0 a0 f e(1)]
  have st: "o1_cache s' = c1" using e(2) by simp
  have ok: "blk_ok (o1_cache s')" "device (o1_cache s') = device (o1_cache s)"
    "bs = map (osfs_byte (device (o1_cache s)) start) [off..<off + length bs]" "length bs \<le> ?n"
    "r = (if bs = [] \<and> 0 < ?n then -1 else int (length bs))"
    unfolding st using c by blast+
  have all: "length bs = ?n"
    if "\<forall>p. off \<le> p \<and> p < off + len \<and> p < unat sz \<longrightarrow> unat start + p div SECTOR \<notin> unreadable (device (o1_cache s))"
  proof (rule ccontr)
    assume "length bs \<noteq> ?n"
    then have "length bs < ?n" using ok(4) by (metis le_neq_implies_less)
    then have "\<exists>p. off \<le> p \<and> p < off + ?n \<and> unat start + p div SECTOR \<in> unreadable (device (o1_cache s))"
      using c by blast
    then obtain p where p: "off \<le> p" "p < off + ?n" "unat start + p div SECTOR \<in> unreadable (device (o1_cache s))"
      by blast
    have "p < off + len" "p < unat sz" using p(2) False by (simp_all split: if_splits)
    then show False using that p(1,3) by blast
  qed
  have "r = int (length bs) \<or> r = -1 \<and> bs = []" using ok(5) n(2) by (cases "bs = []") simp_all
  moreover have "r = int ?n" if "length bs = ?n" using ok(5) n(2) that by (cases "bs = []") simp_all
  ultimately show ?thesis unfolding n(1) [symmetric] using ok(1-4) all by blast
qed

definition ex_osfs :: osfs1 where
  "ex_osfs = \<lparr>g_osfs_present = True, g_file_count = 0, g_dir = [], blk_present = True, o1_cache = example_cache\<rparr>"

text \<open>A file of 1000 bytes from sector 20 on, read across the end of its first sector.\<close>

lemma osfs_read_correct_witness:
  "\<exists>s'. osfs_read ex_osfs 20 1000 510 4 = (s', 4, [20, 20, 21, 21])"
proof -
  obtain s' r bs where e: "osfs_read ex_osfs 20 1000 510 4 = (s', r, bs)"
    by (cases "osfs_read ex_osfs 20 1000 510 4")
  have ok: "blk_ok (o1_cache ex_osfs)" unfolding ex_osfs_def example_cache_def by (simp add: blk_cache_init_ok)
  have d: "device (o1_cache ex_osfs) = \<lparr>sectors = (\<lambda>s. replicate 512 (of_nat s)), nwrites = 0, fate = (\<lambda>_. False), unreadable = {9}\<rparr>"
    by (simp add: ex_osfs_def example_cache_def blk_cache_init_def)
  have p: "g_osfs_present ex_osfs" by (simp add: ex_osfs_def)
  have f: "\<forall>p<unat (1000 :: u32). unat (20 :: u32) + p div SECTOR < 2 ^ 32" by auto
  have "[510..<514] = [510, 511, 512, 513 :: nat]" by (simp add: upt_rec)
  then have b: "map (osfs_byte (device (o1_cache ex_osfs)) 20) [510..<514] = [20, 20, 21, 21]"
    by (simp add: d osfs_byte_def)
  note t = osfs_read_correct [OF ok p f e]
  have "\<forall>p. 510 \<le> p \<and> p < 510 + 4 \<and> p < unat (1000 :: u32) \<longrightarrow>
      unat (20 :: u32) + p div SECTOR \<notin> unreadable (device (o1_cache ex_osfs))"
    by (simp add: d)
  then have l: "r = int (min 4 (unat (1000 :: u32) - 510))" "length bs = min 4 (unat (1000 :: u32) - 510)"
    using t by blast+
  have "bs = map (osfs_byte (device (o1_cache ex_osfs)) 20) [510..<510 + length bs]" using t by blast
  then have "bs = [20, 20, 21, 21]" using b l(2) by simp
  then show ?thesis using e l(1) by simp
qed

end
