(* ===== verification/Srv.thy ===== *)
theory Srv
  imports Pipe FileDesc
begin

text \<open>
  The named service bus: \<open>kernel/core/srv.c\<close>.

  \<open>srv\<close> holds the kernel memory of \<open>Pipe\<close> (heap, wake-up log), the static table
  \<open>g_listeners\<close> and the connections at the addresses \<open>kmalloc\<close> returned.  A singly linked
  list with head, tail and count is the list of its nodes; each node keeps the address it was
  allocated at, because the code frees it.  Blocking operations take their wake-ups as those of
  \<open>Pipe\<close> do: the state and the pending-signal flag the thread finds each time
  \<open>thread_block_on\<close> returns.  \<open>me\<close> is the identifier of the calling thread, if there is one.
\<close>

section \<open>State\<close>

record srv_msg =
  sm_addr :: nat
  sm_data :: "byte list"

record srv_conn =
  c2s :: "srv_msg list"
  s2c :: "srv_msg list"
  client_open :: bool
  service_open :: bool
  peer_pid_c :: nat
  peer_pid_s :: nat

record srv_listen =
  sl_name :: "char list"
  sl_in_use :: bool
  sl_refs :: int
  sl_owner_pid :: nat
  sl_pending :: "(nat \<times> nat) list"

record srv =
  sk :: kstate
  g_listeners :: "srv_listen list"
  conns :: "nat \<Rightarrow> srv_conn option"
  srv_base :: nat

record srv_wakeup =
  ws_state :: srv
  ws_sig :: bool

datatype 'r srv_outcome = SRet srv "srv_wakeup list" 'r | SBlocked srv | SFault

abbreviation (input) SRV_NAME_MAX :: nat where "SRV_NAME_MAX \<equiv> 64"
abbreviation (input) SRV_MAX_LISTENERS :: nat where "SRV_MAX_LISTENERS \<equiv> 16"
abbreviation (input) SRV_MSG_MAX :: nat where "SRV_MSG_MAX \<equiv> 65536"
abbreviation (input) SRV_QUEUE_MSGS :: nat where "SRV_QUEUE_MSGS \<equiv> 8"
abbreviation (input) SRV_PENDING_MAX :: nat where "SRV_PENDING_MAX \<equiv> 4"
abbreviation (input) EADDRINUSE :: int where "EADDRINUSE \<equiv> 98"
abbreviation (input) EMSGSIZE :: int where "EMSGSIZE \<equiv> 90"
abbreviation (input) EFAULT :: int where "EFAULT \<equiv> 14"

text \<open>The address of a slot of the static table, the token its threads block on.\<close>

definition listener_addr :: "srv \<Rightarrow> nat \<Rightarrow> nat" where
  "listener_addr s i = srv_base s + 104 * i"

definition set_listener :: "srv \<Rightarrow> nat \<Rightarrow> srv_listen \<Rightarrow> srv" where
  "set_listener s i l = s\<lparr>g_listeners := (g_listeners s)[i := l]\<rparr>"

definition set_sconn :: "srv \<Rightarrow> nat \<Rightarrow> srv_conn \<Rightarrow> srv" where
  "set_sconn s a v = s\<lparr>conns := (conns s)(a := Some v)\<rparr>"

definition srv_wake :: "srv \<Rightarrow> nat \<Rightarrow> srv" where
  "srv_wake s p = s\<lparr>sk := thread_wake_blocked (sk s) p\<rparr>"

definition srv_kfree :: "srv \<Rightarrow> nat \<Rightarrow> srv option" where
  "srv_kfree s p = do { h \<leftarrow> kfree (kheap (sk s)) p; Some (s\<lparr>sk := (sk s)\<lparr>kheap := h\<rparr>\<rparr>) }"

definition srv_kmalloc :: "srv \<Rightarrow> nat \<Rightarrow> (srv \<times> nat) option" where
  "srv_kmalloc s n = do { (h, p) \<leftarrow> kmalloc (kheap (sk s)) n; Some (s\<lparr>sk := (sk s)\<lparr>kheap := h\<rparr>\<rparr>, p) }"

definition free_conn :: "srv \<Rightarrow> nat \<Rightarrow> srv option" where
  "free_conn s a = do { s1 \<leftarrow> srv_kfree s a; Some (s1\<lparr>conns := (conns s1)(a := None)\<rparr>) }"

section \<open>Names\<close>

text \<open>The character at \<open>i\<close> of a C string; the end of the list stands for the final NUL.\<close>

definition ch_at :: "char list \<Rightarrow> nat \<Rightarrow> char" where
  "ch_at s i = (if i < length s then s ! i else NUL)"

fun strn_eq :: "char list \<Rightarrow> char list \<Rightarrow> nat \<Rightarrow> nat \<Rightarrow> bool" where
  "strn_eq a b i 0 = True"
| "strn_eq a b i (Suc n) =
     (if ch_at a i \<noteq> ch_at b i then False else if ch_at a i = NUL then True
      else strn_eq a b (i + 1) n)"

definition find_listener :: "srv \<Rightarrow> char list \<Rightarrow> nat option" where
  "find_listener s path =
     first_index (\<lambda>l. sl_in_use l \<and> strn_eq (sl_name l) path 0 SRV_NAME_MAX) (g_listeners s)"

fun srv_name_scan :: "char list \<Rightarrow> nat \<Rightarrow> nat \<Rightarrow> bool" where
  "srv_name_scan path i 0 = False"
| "srv_name_scan path i (Suc n) =
     (if ch_at path i = NUL then True else if ch_at path i = CHR ''/'' then False
      else srv_name_scan path (i + 1) n)"

definition validate_srv_path :: "char list option \<Rightarrow> bool" where
  "validate_srv_path p =
     (case p of
        None \<Rightarrow> False
      | Some path \<Rightarrow>
          if ch_at path 0 \<noteq> CHR ''/'' \<or> ch_at path 1 \<noteq> CHR ''s'' \<or> ch_at path 2 \<noteq> CHR ''r'' \<or>
             ch_at path 3 \<noteq> CHR ''v'' \<or> ch_at path 4 \<noteq> CHR ''/'' then False
          else if ch_at path 5 = NUL then False
          else srv_name_scan path 5 (SRV_NAME_MAX - 5))"

text \<open>\<open>str_copy_cap\<close>: at most \<open>cap - 1\<close> characters, and the NUL.\<close>

definition str_copy_cap :: "char list \<Rightarrow> char list \<Rightarrow> nat \<Rightarrow> char list" where
  "str_copy_cap dst src cap = splice dst 0 (take (cap - 1) (cstr src) @ [NUL])"

section \<open>Queues\<close>

definition queue_push :: "srv_msg \<Rightarrow> srv_msg list \<Rightarrow> srv_msg list" where
  "queue_push m q = q @ [m]"

definition queue_pop :: "srv_msg list \<Rightarrow> srv_msg option \<times> srv_msg list" where
  "queue_pop q = (case q of [] \<Rightarrow> (None, []) | m # ms \<Rightarrow> (Some m, ms))"

text \<open>The free loop of \<open>queue_drain\<close>.\<close>

fun queue_drain :: "srv \<Rightarrow> srv_msg list \<Rightarrow> srv option" where
  "queue_drain s [] = Some s"
| "queue_drain s (m # ms) = do { s1 \<leftarrow> srv_kfree s (sm_addr m); queue_drain s1 ms }"

definition inq :: "bool \<Rightarrow> srv_conn \<Rightarrow> srv_msg list" where
  "inq is_service v = (if is_service then c2s v else s2c v)"

definition set_inq :: "bool \<Rightarrow> srv_msg list \<Rightarrow> srv_conn \<Rightarrow> srv_conn" where
  "set_inq is_service q v = (if is_service then v\<lparr>c2s := q\<rparr> else v\<lparr>s2c := q\<rparr>)"

definition peer_open :: "bool \<Rightarrow> srv_conn \<Rightarrow> bool" where
  "peer_open is_service v = (if is_service then client_open v else service_open v)"

section \<open>Binding and accepting\<close>

definition srv_bind :: "srv \<Rightarrow> nat option \<Rightarrow> char list option \<Rightarrow> srv \<times> (int + nat)" where
  "srv_bind s me path =
     (if \<not> validate_srv_path path then (s, Inl (- EINVAL))
      else if find_listener s (the path) \<noteq> None then (s, Inl (- EADDRINUSE))
      else case first_index (\<lambda>l. \<not> sl_in_use l) (g_listeners s) of
        None \<Rightarrow> (s, Inl (- ENOMEM))
      | Some i \<Rightarrow>
          (set_listener s i \<lparr>sl_name = str_copy_cap (sl_name (g_listeners s ! i)) (the path) SRV_NAME_MAX,
             sl_in_use = True, sl_refs = 1,
             sl_owner_pid = (case me of None \<Rightarrow> 0 | Some m \<Rightarrow> m), sl_pending = []\<rparr>, Inr i))"

text \<open>The clients still in the backlog when the last listener descriptor goes.\<close>

fun reject_pending :: "srv \<Rightarrow> nat \<Rightarrow> (nat \<times> nat) list \<Rightarrow> srv option" where
  "reject_pending s i [] = Some s"
| "reject_pending s i ((p, c) # ps) =
     do { s1 \<leftarrow> (if c = 0 then Some s
                else do { v \<leftarrow> conns s c;
                          Some (srv_wake (srv_wake (set_sconn s c (v\<lparr>service_open := False\<rparr>))
                                 (listener_addr s i)) c) });
          s2 \<leftarrow> srv_kfree s1 p;
          reject_pending s2 i ps }"

definition srv_unref_listen :: "srv \<Rightarrow> nat option \<Rightarrow> srv option" where
  "srv_unref_listen s ls =
     (case ls of
        None \<Rightarrow> Some s
      | Some i \<Rightarrow>
          let l = g_listeners s ! i;
              r = (if sl_refs l > 0 then sl_refs l - 1 else sl_refs l);
              s1 = set_listener s i (l\<lparr>sl_refs := r\<rparr>) in
          if r > 0 then Some s1
          else do {
            s2 \<leftarrow> reject_pending s1 i (sl_pending l);
            Some (set_listener s2 i ((g_listeners s2 ! i)\<lparr>sl_pending := [], sl_in_use := False,
                    sl_name := (sl_name (g_listeners s2 ! i))[0 := NUL]\<rparr>)) })"

text \<open>The branch of \<open>srv_accept\<close> for a pending client: nodes without a connection are
  skipped.\<close>

fun accept_take :: "srv \<Rightarrow> nat \<Rightarrow> nat option \<Rightarrow> (nat \<times> nat) list \<Rightarrow> (srv \<times> nat option) option" where
  "accept_take s i me [] = Some (s, None)"
| "accept_take s i me ((p, c) # ps) =
     do { let s1 = set_listener s i ((g_listeners s ! i)\<lparr>sl_pending := ps\<rparr>);
          s2 \<leftarrow> srv_kfree s1 p;
          if c = 0 then accept_take s2 i me ps
          else do {
            v \<leftarrow> conns s2 c;
            Some (srv_wake (set_sconn s2 c (v\<lparr>service_open := True,
                     peer_pid_s := (case me of None \<Rightarrow> 0 | Some m \<Rightarrow> m)\<rparr>)) c, Some c) } }"

fun accept_loop :: "srv \<Rightarrow> nat \<Rightarrow> nat option \<Rightarrow> srv_wakeup list \<Rightarrow> (int + nat) srv_outcome" where
  "accept_loop s i me ws =
     (case accept_take s i me (sl_pending (g_listeners s ! i)) of
        None \<Rightarrow> SFault
      | Some (s1, Some c) \<Rightarrow> SRet s1 ws (Inr c)
      | Some (s1, None) \<Rightarrow>
          (case ws of
             [] \<Rightarrow> SBlocked s1
           | w # ws' \<Rightarrow>
               if me \<noteq> None \<and> ws_sig w then SRet (ws_state w) ws' (Inl (- EINTR))
               else if \<not> sl_in_use (g_listeners (ws_state w) ! i) then SRet (ws_state w) ws' (Inl (- EBADF))
               else accept_loop (ws_state w) i me ws'))"

declare accept_loop.simps [simp del]

definition srv_accept :: "srv \<Rightarrow> nat option \<Rightarrow> nat option \<Rightarrow> srv_wakeup list \<Rightarrow> (int + nat) srv_outcome" where
  "srv_accept s ls me ws =
     (case ls of
        None \<Rightarrow> SRet s ws (Inl (- EBADF))
      | Some i \<Rightarrow> if \<not> sl_in_use (g_listeners s ! i) then SRet s ws (Inl (- EBADF))
                 else accept_loop s i me ws)"

section \<open>Connecting\<close>

text \<open>The interrupted client takes its node out of the backlog; \<open>None\<close> if it is not there.\<close>

fun remove_pending :: "nat \<Rightarrow> (nat \<times> nat) list \<Rightarrow> (nat \<times> (nat \<times> nat) list) option" where
  "remove_pending c [] = None"
| "remove_pending c ((p, d) # ps) =
     (if d = c then Some (p, ps)
      else map_option (\<lambda>(q, qs). (q, (p, d) # qs)) (remove_pending c ps))"

definition connect_interrupted :: "srv \<Rightarrow> nat \<Rightarrow> nat \<Rightarrow> srv option" where
  "connect_interrupted s i c =
     do { v \<leftarrow> conns s c;
          let s1 = set_sconn s c (v\<lparr>client_open := False\<rparr>);
          if service_open v then Some s1
          else case remove_pending c (sl_pending (g_listeners s1 ! i)) of
            None \<Rightarrow> Some s1
          | Some (p, ps) \<Rightarrow> do {
              s2 \<leftarrow> srv_kfree (set_listener s1 i ((g_listeners s1 ! i)\<lparr>sl_pending := ps\<rparr>)) p;
              free_conn s2 c } }"

fun connect_loop :: "srv \<Rightarrow> nat \<Rightarrow> nat \<Rightarrow> nat option \<Rightarrow> srv_wakeup list \<Rightarrow> (int + nat) srv_outcome" where
  "connect_loop s i c me ws =
     (case conns s c of
        None \<Rightarrow> SFault
      | Some v \<Rightarrow>
          if service_open v then SRet s ws (Inr c)
          else (case ws of
             [] \<Rightarrow> SBlocked s
           | w # ws' \<Rightarrow>
               if me \<noteq> None \<and> ws_sig w then
                 (case connect_interrupted (ws_state w) i c of
                    None \<Rightarrow> SFault | Some s1 \<Rightarrow> SRet s1 ws' (Inl (- EINTR)))
               else if \<not> sl_in_use (g_listeners (ws_state w) ! i) then
                 (case conns (ws_state w) c of
                    None \<Rightarrow> SFault
                  | Some v1 \<Rightarrow>
                      if \<not> service_open v1 then
                        (case free_conn (ws_state w) c of
                           None \<Rightarrow> SFault | Some s1 \<Rightarrow> SRet s1 ws' (Inl (- EPIPE)))
                      else connect_loop (ws_state w) i c me ws')
               else connect_loop (ws_state w) i c me ws'))"

declare connect_loop.simps [simp del]

text \<open>What \<open>srv_connect\<close> does before it waits: the error, or the listener and the new
  connection in its backlog.\<close>

definition connect_begin ::
    "srv \<Rightarrow> nat option \<Rightarrow> char list option \<Rightarrow> (srv \<times> (int + nat \<times> nat)) option" where
  "connect_begin s me path =
     (if \<not> validate_srv_path path then Some (s, Inl (- EINVAL))
      else case find_listener s (the path) of
        None \<Rightarrow> Some (s, Inl (- ENOENT))
      | Some i \<Rightarrow>
          if length (sl_pending (g_listeners s ! i)) \<ge> SRV_PENDING_MAX then Some (s, Inl (- ENOMEM))
          else do {
            (s1, c) \<leftarrow> srv_kmalloc s 64;
            if c = 0 then Some (s1, Inl (- ENOMEM))
            else do {
              let s2 = set_sconn s1 c \<lparr>c2s = [], s2c = [], client_open = True, service_open = False,
                         peer_pid_c = (case me of None \<Rightarrow> 0 | Some m \<Rightarrow> m), peer_pid_s = 0\<rparr>;
              (s3, p) \<leftarrow> srv_kmalloc s2 16;
              if p = 0 then do { s4 \<leftarrow> free_conn s3 c; Some (s4, Inl (- ENOMEM)) }
              else
                let l = g_listeners s3 ! i;
                    s4 = set_listener s3 i (l\<lparr>sl_pending := sl_pending l @ [(p, c)]\<rparr>)
                in Some (srv_wake s4 (listener_addr s4 i), Inr (i, c)) } })"

definition srv_connect ::
    "srv \<Rightarrow> nat option \<Rightarrow> char list option \<Rightarrow> srv_wakeup list \<Rightarrow> (int + nat) srv_outcome" where
  "srv_connect s me path ws =
     (case connect_begin s me path of
        None \<Rightarrow> SFault
      | Some (s1, Inl e) \<Rightarrow> SRet s1 ws (Inl e)
      | Some (s1, Inr (i, c)) \<Rightarrow> connect_loop s1 i c me ws)"

section \<open>Messages\<close>

definition srv_unref_conn :: "srv \<Rightarrow> nat \<Rightarrow> bool \<Rightarrow> srv option" where
  "srv_unref_conn s c is_service =
     (if c = 0 then Some s
      else do {
        v \<leftarrow> conns s c;
        let v1 = (if is_service then v\<lparr>service_open := False\<rparr> else v\<lparr>client_open := False\<rparr>);
        let s1 = srv_wake (set_sconn s c v1) c;
        if \<not> client_open v1 \<and> \<not> service_open v1 then do {
          s2 \<leftarrow> queue_drain s1 (c2s v1);
          s3 \<leftarrow> queue_drain s2 (s2c v1);
          free_conn s3 c }
        else Some s1 })"

text \<open>\<open>dst_ok\<close>: \<open>copy_to_user\<close> reaches the caller's buffer.\<close>

definition srv_deliver ::
    "srv \<Rightarrow> nat \<Rightarrow> bool \<Rightarrow> srv_conn \<Rightarrow> nat \<Rightarrow> bool \<Rightarrow> (srv \<times> int \<times> byte list) option" where
  "srv_deliver s c is_service v len dst_ok =
     (case queue_pop (inq is_service v) of
        (None, _) \<Rightarrow> None
      | (Some m, ms) \<Rightarrow>
          if length (sm_data m) > len then Some (s, - EMSGSIZE, [])
          else do {
            s1 \<leftarrow> srv_kfree (set_sconn s c (set_inq is_service ms v)) (sm_addr m);
            let s2 = srv_wake s1 c;
            if dst_ok then Some (s2, int (length (sm_data m)), sm_data m)
            else Some (s2, - EFAULT, []) })"

fun srv_read_loop ::
    "srv \<Rightarrow> nat \<Rightarrow> bool \<Rightarrow> nat \<Rightarrow> bool \<Rightarrow> nat option \<Rightarrow> srv_wakeup list \<Rightarrow> (int \<times> byte list) srv_outcome" where
  "srv_read_loop s c is_service len dst_ok me ws =
     (case conns s c of
        None \<Rightarrow> SFault
      | Some v \<Rightarrow>
          if inq is_service v \<noteq> [] then
            (case srv_deliver s c is_service v len dst_ok of
               None \<Rightarrow> SFault | Some (s1, r, bs) \<Rightarrow> SRet s1 ws (r, bs))
          else if \<not> peer_open is_service v then SRet s ws (0, [])
          else (case ws of
             [] \<Rightarrow> SBlocked s
           | w # ws' \<Rightarrow>
               if me \<noteq> None \<and> ws_sig w then SRet (ws_state w) ws' (- EINTR, [])
               else srv_read_loop (ws_state w) c is_service len dst_ok me ws'))"

declare srv_read_loop.simps [simp del]

definition srv_read ::
    "srv \<Rightarrow> nat \<Rightarrow> bool \<Rightarrow> bool \<Rightarrow> nat \<Rightarrow> bool \<Rightarrow> nat option \<Rightarrow> srv_wakeup list \<Rightarrow> (int \<times> byte list) srv_outcome" where
  "srv_read s c is_service buf_null len dst_ok me ws =
     (if c = 0 then SRet s ws (- EBADF, [])
      else if buf_null \<and> len > 0 then SRet s ws (- EINVAL, [])
      else srv_read_loop s c is_service len dst_ok me ws)"

definition srv_enqueue :: "srv \<Rightarrow> nat \<Rightarrow> bool \<Rightarrow> srv_conn \<Rightarrow> byte list \<Rightarrow> (srv \<times> int) option" where
  "srv_enqueue s c is_service v src =
     do { (s1, a) \<leftarrow> srv_kmalloc s (16 + length src);
          if a = 0 then Some (s1, - ENOMEM)
          else
            let v1 = set_inq (\<not> is_service)
                       (queue_push \<lparr>sm_addr = a, sm_data = src\<rparr> (inq (\<not> is_service) v)) v
            in Some (srv_wake (set_sconn s1 c v1) c, int (length src)) }"

fun srv_write_loop ::
    "srv \<Rightarrow> nat \<Rightarrow> bool \<Rightarrow> byte list \<Rightarrow> nat option \<Rightarrow> srv_wakeup list \<Rightarrow> int srv_outcome" where
  "srv_write_loop s c is_service src me ws =
     (case conns s c of
        None \<Rightarrow> SFault
      | Some v \<Rightarrow>
          if \<not> peer_open is_service v then SRet s ws (- EPIPE)
          else if length (inq (\<not> is_service) v) < SRV_QUEUE_MSGS then
            (case srv_enqueue s c is_service v src of
               None \<Rightarrow> SFault | Some (s1, r) \<Rightarrow> SRet s1 ws r)
          else (case ws of
             [] \<Rightarrow> SBlocked s
           | w # ws' \<Rightarrow>
               if me \<noteq> None \<and> ws_sig w then SRet (ws_state w) ws' (- EINTR)
               else srv_write_loop (ws_state w) c is_service src me ws'))"

declare srv_write_loop.simps [simp del]

definition srv_write ::
    "srv \<Rightarrow> nat \<Rightarrow> bool \<Rightarrow> bool \<Rightarrow> byte list \<Rightarrow> nat option \<Rightarrow> srv_wakeup list \<Rightarrow> int srv_outcome" where
  "srv_write s c is_service buf_null src me ws =
     (if c = 0 then SRet s ws (- EBADF)
      else if buf_null \<and> length src > 0 then SRet s ws (- EINVAL)
      else if length src > SRV_MSG_MAX then SRet s ws (- EMSGSIZE)
      else srv_write_loop s c is_service src me ws)"

definition srv_list :: "srv \<Rightarrow> bool \<Rightarrow> int \<Rightarrow> char list list" where
  "srv_list s out_null cap =
     (if out_null \<or> cap \<le> 0 then []
      else map (\<lambda>l. take (SRV_NAME_MAX - 1) (cstr (sl_name l)) @ [NUL])
             (take (nat cap) (filter sl_in_use (g_listeners s))))"

end
