(* ===== verification/SrvProps.thy ===== *)
theory SrvProps
  imports Srv
begin

text \<open>Messages on the service bus arrive whole, in order and once.\<close>

section \<open>One operation\<close>

lemma conns_frame [simp]:
  "conns (srv_wake s p) = conns s" "conns (set_sconn s c v) = (conns s)(c := Some v)"
  "conns (set_listener s i l) = conns s"
  by (simp_all add: srv_wake_def set_sconn_def set_listener_def)

lemma conns_kfree: "srv_kfree s p = Some s' \<Longrightarrow> conns s' = conns s"
  by (auto simp: srv_kfree_def split: bind_splits)

lemma conns_kmalloc: "srv_kmalloc s n = Some (s', p) \<Longrightarrow> conns s' = conns s"
  by (auto simp: srv_kmalloc_def split: bind_splits)

lemma inq_set_inq [simp]: "inq b (set_inq b ms v) = ms" "inq (\<not> b) (set_inq b ms v) = inq (\<not> b) v"
  "inq b (set_inq (\<not> b) ms v) = inq b v"
  by (cases b; simp add: inq_def set_inq_def)+

text \<open>What a write that does not wait changes: with a result of at least zero the message is at the end of
  the queue towards the peer, which had room, and otherwise nothing changes.\<close>

lemma srv_write_step:
  assumes "srv_write s c b bn src me [] = SRet s' ws r" "conns s c = Some v"
  obtains (sent) a v' where "r = int (length src)" "conns s' c = Some v'" "length src \<le> SRV_MSG_MAX"
      "inq (\<not> b) v' = inq (\<not> b) v @ [\<lparr>sm_addr = a, sm_data = src\<rparr>]" "inq b v' = inq b v"
      "length (inq (\<not> b) v) < SRV_QUEUE_MSGS"
  | (error) "r < 0" "conns s' c = conns s c"
proof -
  consider (err) "r < 0" "s' = s" | (loop) "length src \<le> SRV_MSG_MAX" "srv_write_loop s c b src me [] = SRet s' ws r"
    using assms(1) by (auto simp: srv_write_def split: if_splits)
  then show thesis
  proof cases
    case err
    then show thesis using error by simp
  next
    case loop
    show thesis
    proof (cases "peer_open b v")
      case False
      then show thesis using loop(2) assms(2) error by (auto simp: srv_write_loop.simps [of s])
    next
      case open': True
      show thesis
      proof (cases "length (inq (\<not> b) v) < SRV_QUEUE_MSGS")
        case False
        then show thesis using loop(2) assms(2) open' by (simp add: srv_write_loop.simps [of s])
      next
        case room: True
        then have e: "srv_enqueue s c b v src = Some (s', r)"
          using loop(2) assms(2) open' by (auto simp: srv_write_loop.simps [of s] split: option.splits)
        obtain s1 a where m: "srv_kmalloc s (16 + length src) = Some (s1, a)"
          using e by (auto simp: srv_enqueue_def split: bind_splits)
        note k = conns_kmalloc [OF m]
        show thesis
        proof (cases "a = 0")
          case True
          then show thesis using e m k error by (simp add: srv_enqueue_def)
        next
          case False
          then show thesis using e m k loop(1) room sent
            by (auto simp: srv_enqueue_def queue_push_def Let_def)
        qed
      qed
    qed
  qed
qed

lemma srv_read_step:
  assumes "srv_read s c b bn len ok me [] = SRet s' ws (r, bs)" "conns s c = Some v"
  obtains (taken) m ms v' where "inq b v = m # ms" "conns s' c = Some v'" "inq b v' = ms" "inq (\<not> b) v' = inq (\<not> b) v"
      "if ok then r = int (length (sm_data m)) \<and> bs = sm_data m else r = - EFAULT"
  | (nothing) "conns s' c = conns s c" "r < 0 \<and> r \<noteq> - EFAULT \<or> inq b v = [] \<and> r = 0"
proof -
  consider (err) "r = - EBADF \<or> r = - EINVAL" "s' = s" | (loop) "srv_read_loop s c b len ok me [] = SRet s' ws (r, bs)"
    using assms(1) by (auto simp: srv_read_def split: if_splits)
  then show thesis
  proof cases
    case err
    show thesis by (rule nothing) (use err in auto)
  next
    case loop
    show thesis
    proof (cases "inq b v")
      case Nil
      then have "s' = s \<and> r = 0" using loop assms(2) by (auto simp: srv_read_loop.simps [of s] split: if_splits)
      then show thesis by - (rule nothing, use Nil in auto)
    next
      case (Cons m ms)
      then have d: "srv_deliver s c b v len ok = Some (s', r, bs)"
        using loop assms(2) by (auto simp: srv_read_loop.simps [of s] split: option.splits)
      show thesis
      proof (cases "length (sm_data m) > len")
        case True
        then have "s' = s \<and> r = - EMSGSIZE" using d Cons by (simp add: srv_deliver_def queue_pop_def)
        then show thesis by - (rule nothing, auto)
      next
        case False
        then obtain s1 where "srv_kfree (set_sconn s c (set_inq b ms v)) (sm_addr m) = Some s1"
          "s' = srv_wake s1 c" "if ok then r = int (length (sm_data m)) \<and> bs = sm_data m else r = - EFAULT"
          using d Cons by (auto simp: srv_deliver_def queue_pop_def Let_def split: bind_splits if_splits)
        then show thesis using taken [OF Cons] conns_kfree by fastforce
      qed
    qed
  qed
qed

section \<open>Conversations\<close>

text \<open>Connection \<open>c\<close> in the direction towards the end \<open>b\<close> (\<open>True\<close> is the service).  \<open>sent\<close> are the messages whose
  write succeeded; \<open>got\<close> is what the reads took, \<open>None\<close> for a message whose copy to the reader's
  memory failed.  A blocked call has changed nothing and is started again when its thread is woken, so it
  is the operation it ends as.  \<open>elsewhere\<close> is anything that leaves the connection alone, and
  \<open>close_end\<close> closes one end while the other is open.\<close>

inductive talk :: "nat \<Rightarrow> bool \<Rightarrow> srv \<Rightarrow> byte list list \<Rightarrow> byte list option list \<Rightarrow> bool" for c b where
  start: "conns s c = Some v \<Longrightarrow> inq b v = [] \<Longrightarrow> talk c b s [] []"
| put: "talk c b s sent got \<Longrightarrow> srv_write s c (\<not> b) bn src me [] = SRet s' ws r \<Longrightarrow>
    talk c b s' (if r \<ge> 0 then sent @ [src] else sent) got"
| take: "talk c b s sent got \<Longrightarrow> conns s c = Some v \<Longrightarrow> srv_read s c b bn len ok me [] = SRet s' ws (r, bs) \<Longrightarrow>
    talk c b s' sent
      (if r = - EFAULT then got @ [None] else if r \<ge> 0 \<and> inq b v \<noteq> [] then got @ [Some bs] else got)"
| put_back: "talk c b s sent got \<Longrightarrow> srv_write s c b bn src me [] = SRet s' ws r \<Longrightarrow> talk c b s' sent got"
| take_back: "talk c b s sent got \<Longrightarrow> srv_read s c (\<not> b) bn len ok me [] = SRet s' ws x \<Longrightarrow> talk c b s' sent got"
| elsewhere: "talk c b s sent got \<Longrightarrow> conns s' c = conns s c \<Longrightarrow> talk c b s' sent got"
| close_end: "talk c b s sent got \<Longrightarrow> srv_unref_conn s c e = Some s' \<Longrightarrow> conns s' c \<noteq> None \<Longrightarrow> talk c b s' sent got"

text \<open>A blocked call that is woken is the same call in the state it wakes up in.\<close>

lemma srv_read_resumes:
  assumes "srv_read_loop s c b len ok me [] = SBlocked s" "\<not> (me \<noteq> None \<and> ws_sig w)"
  shows "srv_read_loop s c b len ok me (w # ws) = srv_read_loop (ws_state w) c b len ok me ws"
  using assms
  by (auto simp: srv_read_loop.simps [of s] split: option.splits if_splits prod.splits)

lemma srv_write_resumes:
  assumes "srv_write_loop s c b src me [] = SBlocked s" "\<not> (me \<noteq> None \<and> ws_sig w)"
  shows "srv_write_loop s c b src me (w # ws) = srv_write_loop (ws_state w) c b src me ws"
  using assms
  by (auto simp: srv_write_loop.simps [of s] split: option.splits if_splits prod.splits)

lemma unref_conn_queue:
  assumes "srv_unref_conn s c e = Some s'" "conns s c = Some v" "conns s' c \<noteq> None"
  shows "\<exists>v'. conns s' c = Some v' \<and> inq b v' = inq b v"
proof (cases "c = 0")
  case True
  then show ?thesis using assms by (auto simp: srv_unref_conn_def)
next
  case False
  let ?v = "if e then v\<lparr>service_open := False\<rparr> else v\<lparr>client_open := False\<rparr>"
  show ?thesis
  proof (cases "\<not> client_open ?v \<and> \<not> service_open ?v")
    case True
    then obtain s2 where "free_conn s2 c = Some s'"
      using assms(1,2) False by (auto simp: srv_unref_conn_def Let_def split: bind_splits)
    then show ?thesis using assms(3) by (auto simp: free_conn_def split: bind_splits)
  next
    case open': False
    then have "s' = srv_wake (set_sconn s c ?v) c"
      using assms(1,2) False unfolding srv_unref_conn_def Let_def by auto
    then show ?thesis by (auto simp: inq_def)
  qed
qed

definition delivered :: "byte list list \<Rightarrow> byte list option list \<Rightarrow> srv_msg list \<Rightarrow> bool" where
  "delivered sent got q \<longleftrightarrow>
     (\<exists>msgs. list_all2 (\<lambda>o1 m. o1 = None \<or> o1 = Some m) got msgs \<and> sent = msgs @ map sm_data q)"

lemma delivered_snoc: "delivered sent got q \<Longrightarrow> delivered (sent @ [sm_data m]) got (q @ [m])"
  by (auto simp: delivered_def)

lemma delivered_take:
  assumes "delivered sent got (m # q)" "o1 = None \<or> o1 = Some (sm_data m)"
  shows "delivered sent (got @ [o1]) q"
proof -
  obtain msgs where m: "list_all2 (\<lambda>o1 m. o1 = None \<or> o1 = Some m) got msgs" "sent = msgs @ map sm_data (m # q)"
    using assms(1) unfolding delivered_def by blast
  have "list_all2 (\<lambda>o1 m. o1 = None \<or> o1 = Some m) (got @ [o1]) (msgs @ [sm_data m])"
    using m(1) assms(2) by (intro list_all2_appendI) simp_all
  then show ?thesis using m(2) unfolding delivered_def by (intro exI [of _ "msgs @ [sm_data m]"]) simp
qed

lemma talk_inv:
  assumes "talk c b s sent got"
  shows "\<exists>v. conns s c = Some v \<and> delivered sent got (inq b v) \<and> length (inq b v) \<le> SRV_QUEUE_MSGS \<and>
    (\<forall>m\<in>set sent. length m \<le> SRV_MSG_MAX)"
  using assms
proof (induction rule: talk.induct)
  case (start s v)
  then show ?case by (auto simp: delivered_def)
next
  case (put s sent got bn src me s' ws r)
  then obtain v where v: "conns s c = Some v" "delivered sent got (inq b v)" "length (inq b v) \<le> SRV_QUEUE_MSGS"
    "\<forall>m\<in>set sent. length m \<le> SRV_MSG_MAX" by blast
  show ?case
  proof (cases rule: srv_write_step [OF put.hyps(2) v(1)])
    case (1 a v')
    then have "delivered (sent @ [src]) got (inq b v')"
      using delivered_snoc [OF v(2), of "\<lparr>sm_addr = a, sm_data = src\<rparr>"] by simp
    then show ?thesis using 1 v by auto
  next
    case 2
    then show ?thesis using v by auto
  qed
next
  case (take s sent got v bn len ok me s' ws r bs)
  then have v: "delivered sent got (inq b v)" "length (inq b v) \<le> SRV_QUEUE_MSGS"
    "\<forall>m\<in>set sent. length m \<le> SRV_MSG_MAX" by auto
  show ?case
  proof (cases rule: srv_read_step [OF take.hyps(3,2)])
    case (1 m ms v')
    have d: "delivered sent got (m # ms)" using v(1) 1(1) by simp
    show ?thesis
    proof (cases ok)
      case True
      then show ?thesis using 1 v delivered_take [OF d, of "Some (sm_data m)"] by auto
    next
      case False
      then show ?thesis using 1 v delivered_take [OF d, of None] by auto
    qed
  next
    case 2
    then show ?thesis using v take.hyps(2) by auto
  qed
next
  case (put_back s sent got bn src me s' ws r)
  then obtain v where v: "conns s c = Some v" "delivered sent got (inq b v)" "length (inq b v) \<le> SRV_QUEUE_MSGS"
    "\<forall>m\<in>set sent. length m \<le> SRV_MSG_MAX" by blast
  show ?case
    by (cases rule: srv_write_step [OF put_back.hyps(2) v(1)]) (use v in auto)
next
  case (take_back s sent got bn len ok me s' ws x)
  then obtain v where v: "conns s c = Some v" "delivered sent got (inq b v)" "length (inq b v) \<le> SRV_QUEUE_MSGS"
    "\<forall>m\<in>set sent. length m \<le> SRV_MSG_MAX" by blast
  obtain r bs where x: "x = (r, bs)" by (cases x)
  show ?case
    by (cases rule: srv_read_step [OF take_back.hyps(2) [unfolded x] v(1)]) (use v in auto)
next
  case (elsewhere s sent got s')
  then show ?case by simp
next
  case (close_end s sent got e s')
  then obtain v where v: "conns s c = Some v" "delivered sent got (inq b v)" "length (inq b v) \<le> SRV_QUEUE_MSGS"
    "\<forall>m\<in>set sent. length m \<le> SRV_MSG_MAX" by blast
  then show ?case using unref_conn_queue [OF close_end.hyps(2) v(1) close_end.hyps(3), of b] by auto
qed

section \<open>Properties\<close>

text \<open>C39. However reads and writes at both ends of a service connection interleave, with closing ends and
  whatever happens elsewhere: what the reads at one end returned is, message by message, what was
  written at the other end, in order, with nothing repeated; each message comes whole or, if the copy
  to the reader failed, not at all; the rest is in the queue, at most 8 messages of at most
  64 KiB.\<close>

theorem srv_messages_in_order:
  assumes "talk c b s sent got"
  shows "\<exists>v msgs. conns s c = Some v \<and> sent = msgs @ map sm_data (inq b v) \<and>
    list_all2 (\<lambda>g m. g = None \<or> g = Some m) got msgs \<and>
    length (inq b v) \<le> SRV_QUEUE_MSGS \<and> (\<forall>m\<in>set sent. length m \<le> SRV_MSG_MAX)"
  using talk_inv [OF assms] unfolding delivered_def by blast

definition ex_bus :: srv where
  "ex_bus = undefined\<lparr>sk := undefined\<lparr>kheap := example_heap\<rparr>,
     conns := [9 \<mapsto> \<lparr>c2s = [], s2c = [], client_open = True, service_open = True, peer_pid_c = 1, peer_pid_s = 2\<rparr>]\<rparr>"

lemma ex_talk: "\<exists>s. talk 9 True s [[1], [2, 3]] [Some [1]]"
proof -
  obtain h1 where h1: "kmalloc example_heap 17 = Some (h1, 4112)" "heap_rep h1 [(48, True), (8144, False)]"
    "heap_start h1 = 4096"
    using kmalloc_first_fit [OF example_heap_rep(1), of 17]
    by (auto simp: example_heap_rep kmalloc_need_def align_up64_def align_down_def add64_def split_blk_def)
  obtain h2 where h2: "kmalloc h1 18 = Some (h2, 4160)" "heap_rep h2 [(48, True), (48, True), (8096, False)]"
    "heap_start h2 = 4096"
    using kmalloc_first_fit [OF h1(2), of 18] h1(3)
    by (auto simp: kmalloc_need_def align_up64_def align_down_def add64_def split_blk_def)
  obtain h3 where h3: "kfree h2 4112 = Some h3"
    using kfree_coalesces [of h2 "[]" 48 True "[(48, True), (8096, False)]"] h2(2,3) by auto
  let ?s0 = ex_bus
  have a: "talk 9 True ?s0 [] []"
    by (rule talk.start, simp add: ex_bus_def, simp add: inq_def)
  have "\<exists>s1. srv_write ?s0 9 (\<not> True) False [1] None [] = SRet s1 [] 1 \<and>
      conns s1 9 = Some \<lparr>c2s = [\<lparr>sm_addr = 4112, sm_data = [1]\<rparr>], s2c = [], client_open = True,
        service_open = True, peer_pid_c = 1, peer_pid_s = 2\<rparr> \<and> kheap (sk s1) = h1"
    by (simp add: srv_write_def srv_write_loop.simps srv_enqueue_def srv_kmalloc_def ex_bus_def peer_open_def inq_def
        set_inq_def queue_push_def srv_wake_def set_sconn_def thread_wake_blocked_def h1(1) Let_def)
  then obtain s1 where s1: "srv_write ?s0 9 (\<not> True) False [1] None [] = SRet s1 [] 1"
    and c1: "conns s1 9 = Some \<lparr>c2s = [\<lparr>sm_addr = 4112, sm_data = [1]\<rparr>], s2c = [], client_open = True,
      service_open = True, peer_pid_c = 1, peer_pid_s = 2\<rparr>" "kheap (sk s1) = h1" by blast
  have "\<exists>s2. srv_write s1 9 (\<not> True) False [2, 3] None [] = SRet s2 [] 2 \<and>
      conns s2 9 = Some \<lparr>c2s = [\<lparr>sm_addr = 4112, sm_data = [1]\<rparr>, \<lparr>sm_addr = 4160, sm_data = [2, 3]\<rparr>], s2c = [],
        client_open = True, service_open = True, peer_pid_c = 1, peer_pid_s = 2\<rparr> \<and> kheap (sk s2) = h2"
    by (simp add: srv_write_def srv_write_loop.simps srv_enqueue_def srv_kmalloc_def c1 peer_open_def inq_def
        set_inq_def queue_push_def srv_wake_def set_sconn_def thread_wake_blocked_def h2(1) Let_def)
  then obtain s2 where s2: "srv_write s1 9 (\<not> True) False [2, 3] None [] = SRet s2 [] 2"
    and c2: "conns s2 9 = Some \<lparr>c2s = [\<lparr>sm_addr = 4112, sm_data = [1]\<rparr>, \<lparr>sm_addr = 4160, sm_data = [2, 3]\<rparr>], s2c = [],
      client_open = True, service_open = True, peer_pid_c = 1, peer_pid_s = 2\<rparr>" "kheap (sk s2) = h2" by blast
  obtain s3 where s3: "srv_read s2 9 True False 100 True None [] = SRet s3 [] (1, [1])"
    by (simp add: srv_read_def srv_read_loop.simps srv_deliver_def c2 inq_def set_inq_def queue_pop_def srv_kfree_def
        set_sconn_def h3 Let_def)
  have b1: "talk 9 True s1 [[1]] []" using talk.put [OF a s1] by simp
  have b2: "talk 9 True s2 [[1], [2, 3]] []" using talk.put [OF b1 s2] by simp
  have "talk 9 True s3 [[1], [2, 3]] [Some [1]]" using talk.take [OF b2 c2(1) s3] by (simp add: inq_def)
  then show ?thesis by blast
qed

lemma srv_messages_in_order_witness:
  "\<exists>s v msgs. talk 9 True s [[1], [2, 3]] [Some [1]] \<and> conns s 9 = Some v \<and>
     [[1], [2, 3]] = msgs @ map sm_data (inq True v) \<and> length (inq True v) \<le> 8"
proof -
  obtain s where s: "talk 9 True s [[1], [2, 3]] [Some [1]]" using ex_talk by blast
  show ?thesis using srv_messages_in_order [OF s] s by blast
qed

end
