(* ===== verification/Vfs.thy ===== *)
theory Vfs
  imports Srv Tmpfs Osfs2Mount Osfs1 Tcp
begin

text \<open>
  The virtual file system: \<open>kernel/core/vfs.c\<close>, with the mount table, the reference-counted
  descriptor tables and the calls that dispatch on the kind of a descriptor.

  \<open>kern\<close> puts the modelled parts of the kernel side by side: pipes, ptys and services (with the
  one kernel heap and memory), the network connections, the file systems, the mount table and the
  descriptor tables at the addresses \<open>kmalloc\<close> returned.  The file systems of user space
  (\<open>userfs.c\<close>) answer over pipes to another process and are not modelled: a call that goes to
  them ends in the constructor that names it.  A call that blocks in a pipe or a service ends in
  the outcome of that operation.
\<close>

section \<open>State\<close>

record fd_table =
  ft_refcount :: u32
  ft_fds :: "fd_entry list"

text \<open>Which \<open>struct fs_ops\<close> a mount points to.\<close>

datatype fs_driver = RAMFS | TMPFS | OSFS1 | OSFS2 | USERFS

record mount =
  m_prefix :: "char list"
  m_ops :: fs_driver
  m_cookie :: nat
  m_flags :: u32

record kern =
  kv :: srv
  fdts :: "nat \<Rightarrow> fd_table option"
  net_env :: tcpenv
  nets :: tcp
  tmp_files :: "tfile list"
  o1 :: osfs1
  o2 :: osfs2
  ramfs :: "(char list \<times> byte list) list"
  g_mounts :: "mount list"
  userfs_closes :: "(nat \<times> nat) list"
  userfs_shares :: "nat list"

abbreviation (input) FD_TABLE_SIZE :: nat where "FD_TABLE_SIZE \<equiv> 16"
abbreviation (input) MOUNT_MAX :: nat where "MOUNT_MAX \<equiv> 16"
definition MOUNT_RO :: u32 where "MOUNT_RO = 1"
definition O_WRONLY :: u32 where "O_WRONLY = 1"
definition O_RDWR :: u32 where "O_RDWR = 2"

definition kmem :: "kern \<Rightarrow> kstate" where
  "kmem k = sk (kv k)"

definition set_kmem :: "kern \<Rightarrow> kstate \<Rightarrow> kern" where
  "set_kmem k s = k\<lparr>kv := (kv k)\<lparr>sk := s\<rparr>\<rparr>"

definition set_fd :: "kern \<Rightarrow> nat \<Rightarrow> nat \<Rightarrow> fd_entry \<Rightarrow> kern" where
  "set_fd k t fd e =
     (case fdts k t of
        None \<Rightarrow> k
      | Some ft \<Rightarrow> k\<lparr>fdts := (fdts k)(t := Some (ft\<lparr>ft_fds := (ft_fds ft)[fd := e]\<rparr>))\<rparr>)"

text \<open>\<open>tmpfs.c\<close> on the kernel's heap and memory.\<close>

definition tmpfs_view :: "kern \<Rightarrow> tmpfs" where
  "tmpfs_view k = \<lparr>g_files = tmp_files k, tm_heap = kheap (kmem k), tm_ram = ram (kmem k)\<rparr>"

definition put_tmpfs :: "kern \<Rightarrow> tmpfs \<Rightarrow> kern" where
  "put_tmpfs k s =
     (set_kmem k ((kmem k)\<lparr>kheap := tm_heap s, ram := tm_ram s\<rparr>))\<lparr>tmp_files := g_files s\<rparr>"

section \<open>Descriptor tables\<close>

text \<open>What memory fresh from the heap holds is overwritten entirely.\<close>

definition free_entry :: fd_entry where
  "free_entry = \<lparr>fe_in_use = False, fe_kind = FD_CONSOLE, fe_offset = 0, fe_ramfs_index = -1,
     fe_osfs_start = 0, fe_osfs_size = 0, fe_pipe = 0, fe_socket_cid = -1, fe_pty = 0,
     fe_osfs2_ino = 0, fe_srv_l = 0, fe_srv_c = 0, fe_srv_is_service = False,
     fe_userfs_ch = 0, fe_userfs_handle = 0\<rparr>"

definition fd_table_create :: "kern \<Rightarrow> (kern \<times> nat) option" where
  "fd_table_create k =
     do { (h, p) \<leftarrow> kmalloc (kheap (kmem k)) 1672;
          let k1 = set_kmem k ((kmem k)\<lparr>kheap := h\<rparr>);
          if p = 0 then Some (k1, 0)
          else Some (k1\<lparr>fdts := (fdts k1)(p := Some \<lparr>ft_refcount = 1,
                 ft_fds = replicate 3 (free_entry\<lparr>fe_in_use := True\<rparr>) @
                          replicate (FD_TABLE_SIZE - 3) free_entry\<rparr>)\<rparr>, p) }"

definition fd_table_share :: "kern \<Rightarrow> nat \<Rightarrow> kern option" where
  "fd_table_share k t =
     (if t = 0 then Some k
      else do { ft \<leftarrow> fdts k t;
                Some (k\<lparr>fdts := (fdts k)(t := Some (ft\<lparr>ft_refcount := ft_refcount ft + 1\<rparr>))\<rparr>) })"

text \<open>The listener a pointer into the static table names.\<close>

definition listener_index :: "kern \<Rightarrow> nat \<Rightarrow> nat" where
  "listener_index k p = (p - srv_base (kv k)) div 104"

text \<open>Dropping what a descriptor refers to, the ladder of \<open>vfs_close\<close> and \<open>fd_table_unref\<close>.\<close>

definition release_fd :: "kern \<Rightarrow> fd_entry \<Rightarrow> kern option" where
  "release_fd k e =
     (if fe_kind e = FD_PIPE_R \<and> fe_pipe e \<noteq> 0 then
        map_option (set_kmem k) (pipe_unref (kmem k) (fe_pipe e) PIPE_REF_R)
      else if fe_kind e = FD_PIPE_W \<and> fe_pipe e \<noteq> 0 then
        map_option (set_kmem k) (pipe_unref (kmem k) (fe_pipe e) PIPE_REF_W)
      else if (fe_kind e = FD_SOCKET \<or> fe_kind e = FD_SOCKET_LISTEN) \<and> fe_socket_cid e \<ge> 0 then
        Some (k\<lparr>nets := fst (tcp_close (net_env k) (fe_socket_cid e) (nets k))\<rparr>)
      else if fe_kind e = FD_PTY_MASTER \<and> fe_pty e \<noteq> 0 then
        map_option (set_kmem k) (pty_close_master (kmem k) (fe_pty e))
      else if fe_kind e = FD_PTY_SLAVE \<and> fe_pty e \<noteq> 0 then
        map_option (set_kmem k) (pty_close_slave (kmem k) (fe_pty e))
      else if fe_kind e = FD_SRV_LISTEN \<and> fe_srv_l e \<noteq> 0 then
        map_option (\<lambda>v. k\<lparr>kv := v\<rparr>) (srv_unref_listen (kv k) (Some (listener_index k (fe_srv_l e))))
      else if fe_kind e = FD_SRV_CONN \<and> fe_srv_c e \<noteq> 0 then
        map_option (\<lambda>v. k\<lparr>kv := v\<rparr>) (srv_unref_conn (kv k) (fe_srv_c e) (fe_srv_is_service e))
      else if fe_kind e = FD_USERFS_FILE \<and> fe_userfs_ch e \<noteq> 0 then
        Some (k\<lparr>userfs_closes := userfs_closes k @ [(fe_userfs_ch e, fe_userfs_handle e)]\<rparr>)
      else Some k)"

text \<open>The closing loop; the slots from \<open>fd\<close> on are left.\<close>

fun unref_fds :: "kern \<Rightarrow> nat \<Rightarrow> nat \<Rightarrow> nat \<Rightarrow> kern option" where
  "unref_fds k t fd 0 = Some k"
| "unref_fds k t fd (Suc n) =
     do { ft \<leftarrow> fdts k t;
          let e = ft_fds ft ! fd;
          if \<not> fe_in_use e then unref_fds k t (fd + 1) n
          else do {
            k1 \<leftarrow> release_fd k e;
            ft1 \<leftarrow> fdts k1 t;
            unref_fds (set_fd k1 t fd ((ft_fds ft1 ! fd)\<lparr>fe_in_use := False\<rparr>)) t (fd + 1) n } }"

definition fd_table_unref :: "kern \<Rightarrow> nat \<Rightarrow> kern option" where
  "fd_table_unref k t =
     (if t = 0 then Some k
      else do {
        ft \<leftarrow> fdts k t;
        let n = ft_refcount ft - 1;
        let k1 = k\<lparr>fdts := (fdts k)(t := Some (ft\<lparr>ft_refcount := n\<rparr>))\<rparr>;
        if n > 0 then Some k1
        else do {
          k2 \<leftarrow> unref_fds k1 t 0 FD_TABLE_SIZE;
          h \<leftarrow> kfree (kheap (kmem k2)) t;
          Some ((set_kmem k2 ((kmem k2)\<lparr>kheap := h\<rparr>))\<lparr>fdts := (fdts k2)(t := None)\<rparr>) } })"

section \<open>The embedded file system\<close>

definition ramfs_lookup :: "kern \<Rightarrow> char list \<Rightarrow> int" where
  "ramfs_lookup k n =
     (case first_index (\<lambda>f. name_eq n (fst f)) (ramfs k) of None \<Rightarrow> -1 | Some i \<Rightarrow> int i)"

definition vfs_ramfs_blob :: "kern \<Rightarrow> int \<Rightarrow> byte list option" where
  "vfs_ramfs_blob k idx =
     (if idx < 0 \<or> nat idx \<ge> length (ramfs k) then None else Some (snd (ramfs k ! nat idx)))"

definition ramfs_op_open :: "kern \<Rightarrow> char list option \<Rightarrow> fd_entry option \<Rightarrow> int \<times> fd_entry option" where
  "ramfs_op_open k rel out =
     (case out of
        None \<Rightarrow> (- EINVAL, None)
      | Some e \<Rightarrow>
          (case rel of
             None \<Rightarrow> (- EINVAL, out)
           | Some r \<Rightarrow>
               let idx = ramfs_lookup k r in
               if idx < 0 then (- ENOENT, out)
               else (0, Some ((reset_entry FD_FILE e)
                        \<lparr>fe_ramfs_index := idx, fe_userfs_ch := 0, fe_userfs_handle := 0\<rparr>))))"

definition ramfs_op_read ::
    "kern \<Rightarrow> fd_entry option \<Rightarrow> bool \<Rightarrow> nat \<Rightarrow> int \<times> byte list \<times> fd_entry option" where
  "ramfs_op_read k e buf_null n =
     (case e of
        None \<Rightarrow> (- EINVAL, [], None)
      | Some x \<Rightarrow>
          if buf_null then (- EINVAL, [], e)
          else if fe_ramfs_index x < 0 \<or> nat (fe_ramfs_index x) \<ge> length (ramfs k) then (- EBADF, [], e)
          else
            let f = snd (ramfs k ! nat (fe_ramfs_index x)) in
            if fe_offset x \<ge> length f then (0, [], e)
            else
              let left = length f - fe_offset x; m = (if n > left then left else n) in
              (int m, take m (drop (fe_offset x) f), Some (x\<lparr>fe_offset := add64 (fe_offset x) m\<rparr>)))"

definition root_path :: "char list option \<Rightarrow> bool" where
  "root_path rel = (case rel of None \<Rightarrow> False | Some r \<Rightarrow> ch_at r 0 = CHR ''/'' \<and> ch_at r 1 = NUL)"

definition ramfs_op_listdir :: "kern \<Rightarrow> char list option \<Rightarrow> int \<Rightarrow> nat \<Rightarrow> int \<times> char list \<times> u32" where
  "ramfs_op_listdir k rel idx cap =
     (if \<not> root_path rel then (-1, [], 0)
      else if idx < 0 \<or> nat idx \<ge> length (ramfs k) then (-1, [], 0)
      else let nm = take (cap - 1) (cstr (strip_slash (Some (fst (ramfs k ! nat idx)))))
           in (int (length nm), nm @ [NUL], 0))"

definition ramfs_op_is_dir :: "char list option \<Rightarrow> int" where
  "ramfs_op_is_dir rel = (if rel = None \<or> root_path rel then 1 else 0)"

definition ramfs_op_load :: "kern \<Rightarrow> char list \<Rightarrow> bool \<Rightarrow> (kern \<times> int \<times> nat \<times> byte list) option" where
  "ramfs_op_load k rel out_null =
     (if out_null then Some (k, - EINVAL, 0, [])
      else let idx = ramfs_lookup k rel in
      if idx < 0 then Some (k, - ENOENT, 0, [])
      else do {
        let f = snd (ramfs k ! nat idx);
        (h, p) \<leftarrow> kmalloc (kheap (kmem k)) (length f);
        let k1 = set_kmem k ((kmem k)\<lparr>kheap := h\<rparr>);
        if p = 0 \<and> length f > 0 then Some (k1, - ENOMEM, 0, []) else Some (k1, 0, p, f) })"

section \<open>The mount table\<close>

fun path_starts_with :: "char list \<Rightarrow> char list \<Rightarrow> bool" where
  "path_starts_with path [] = True"
| "path_starts_with path (p # ps) =
     (if p = NUL then True
      else case path of [] \<Rightarrow> False | c # cs \<Rightarrow> if c \<noteq> p then False else path_starts_with cs ps)"

definition vfs_mount_register ::
    "kern \<Rightarrow> char list option \<Rightarrow> fs_driver option \<Rightarrow> nat \<Rightarrow> u32 \<Rightarrow> kern \<times> int" where
  "vfs_mount_register k prefix ops cookie flags =
     (case (prefix, ops) of
        (Some p, Some d) \<Rightarrow>
          let plen = length (cstr p) in
          if ch_at p 0 \<noteq> CHR ''/'' then (k, - EINVAL)
          else if plen > 1 \<and> p ! (plen - 1) = CHR ''/'' then (k, - EINVAL)
          else if length (g_mounts k) \<ge> MOUNT_MAX then (k, - ENOSPC)
          else (k\<lparr>g_mounts := g_mounts k @ [\<lparr>m_prefix = p, m_ops = d, m_cookie = cookie, m_flags = flags\<rparr>]\<rparr>, 0)
      | _ \<Rightarrow> (k, - EINVAL))"

text \<open>The scan of \<open>vfs_resolve\<close>: the best mount so far and the length of its prefix.\<close>

fun resolve_scan :: "char list \<Rightarrow> mount list \<Rightarrow> (mount \<times> nat) option \<Rightarrow> (mount \<times> nat) option" where
  "resolve_scan path [] best = best"
| "resolve_scan path (m # ms) best =
     (let plen = length (cstr (m_prefix m)); best_len = (case best of None \<Rightarrow> 0 | Some (_, n) \<Rightarrow> n) in
      resolve_scan path ms
        (if plen = 1 \<and> ch_at (m_prefix m) 0 = CHR ''/'' then (if best_len = 0 then Some (m, 1) else best)
         else if \<not> path_starts_with path (m_prefix m) then best
         else if ch_at path plen \<noteq> NUL \<and> ch_at path plen \<noteq> CHR ''/'' then best
         else if plen > best_len then Some (m, plen) else best))"

text \<open>The mount and what is stored through \<open>rel_out\<close>.\<close>

definition vfs_resolve :: "kern \<Rightarrow> char list option \<Rightarrow> (mount \<times> char list) option" where
  "vfs_resolve k p =
     (case p of
        None \<Rightarrow> None
      | Some path \<Rightarrow>
          (case resolve_scan path (g_mounts k) None of
             None \<Rightarrow> None
           | Some (m, n) \<Rightarrow>
               if n = 1 \<and> ch_at (m_prefix m) 0 = CHR ''/'' then Some (m, path)
               else Some (m, drop n path)))"

definition vfs_mount_count :: "kern \<Rightarrow> nat" where "vfs_mount_count k = length (g_mounts k)"

definition vfs_mount_at :: "kern \<Rightarrow> int \<Rightarrow> mount option" where
  "vfs_mount_at k idx =
     (if idx < 0 \<or> nat idx \<ge> length (g_mounts k) then None else Some (g_mounts k ! nat idx))"

definition vfs_mount_remove :: "kern \<Rightarrow> int \<Rightarrow> kern \<times> int" where
  "vfs_mount_remove k idx =
     (if idx < 0 \<or> nat idx \<ge> length (g_mounts k) then (k, - EINVAL)
      else (k\<lparr>g_mounts := take (nat idx) (g_mounts k) @ drop (nat idx + 1) (g_mounts k)\<rparr>, 0))"

text \<open>The registrations of \<open>vfs_init\<close>, in their order.\<close>

definition vfs_init :: "kern \<Rightarrow> kern" where
  "vfs_init k0 =
     (let k = put_tmpfs k0 (tmpfs_init (tmpfs_view k0));
          reg = (\<lambda>p d f k. fst (vfs_mount_register k (Some p) (Some d) 0 f))
      in reg ''/'' RAMFS MOUNT_RO
           (reg ''/data'' OSFS2 0 (reg ''/bin'' OSFS1 MOUNT_RO (reg ''/mnt'' OSFS1 MOUNT_RO
             (reg ''/tmp'' TMPFS 0 k)))))"

end
