(* ===== verification/VfsFiles.thy ===== *)
theory VfsFiles
  imports Vfs
begin

text \<open>
  The calls of \<open>kernel/core/vfs.c\<close> on paths and descriptors: open, read, close, lseek, stat,
  the whole-file load and the flat listing, for the descriptor table at \<open>t\<close>
  (\<open>thread_current()->fdt\<close>).
\<close>

section \<open>Opening\<close>

datatype user_call = UOpen nat "char list" u32 | URead nat nat nat nat | UIsDir nat "char list"

text \<open>\<open>VUser\<close>: the call goes on in \<open>userfs.c\<close>; \<open>VConnect\<close>: in \<open>srv_connect\<close>.\<close>

datatype 'r vres = VRet kern 'r | VUser user_call | VConnect "char list" | VFault

definition read_only_refuses :: "mount \<Rightarrow> u32 \<Rightarrow> bool" where
  "read_only_refuses m flags =
     (FileDesc.has_flag (m_flags m) MOUNT_RO \<and>
      (FileDesc.has_flag flags O_WRONLY \<or> FileDesc.has_flag flags O_RDWR \<or> FileDesc.has_flag flags O_CREAT \<or> FileDesc.has_flag flags O_TRUNC))"

definition driver_open ::
    "kern \<Rightarrow> mount \<Rightarrow> char list \<Rightarrow> u32 \<Rightarrow> fd_entry \<Rightarrow> (int \<times> fd_entry) vres" where
  "driver_open k m rel flags e =
     (case m_ops m of
        RAMFS \<Rightarrow> let (r, e1) = ramfs_op_open k (Some rel) (Some e) in VRet k (r, the e1)
      | TMPFS \<Rightarrow>
          (case tmpfs_op_open (tmpfs_view k) (Some rel) flags (Some e) of
             None \<Rightarrow> VFault | Some (s, r, e1) \<Rightarrow> VRet (put_tmpfs k s) (r, the e1))
      | OSFS1 \<Rightarrow> let (r, e1) = osfs_op_open (o1 k) (Some rel) flags (Some e) in VRet k (r, the e1)
      | OSFS2 \<Rightarrow>
          let (s, r, e1) = osfs2_op_open (o2 k) (Some rel) flags (Some e) in VRet (k\<lparr>o2 := s\<rparr>) (r, the e1)
      | USERFS \<Rightarrow> VUser (UOpen (m_cookie m) rel flags))"

text \<open>After the driver's \<open>open\<close>: the slot it filled is marked as used.\<close>

definition open_finish :: "kern \<Rightarrow> nat \<Rightarrow> nat \<Rightarrow> int \<Rightarrow> fd_entry \<Rightarrow> int \<Rightarrow> kern \<times> int" where
  "open_finish k t fd r e res =
     (if r < 0 then (set_fd k t fd e, r) else (set_fd k t fd (e\<lparr>fe_in_use := True\<rparr>), res))"

text \<open>The first free slot from 3 on.\<close>

definition free_fd :: "fd_table \<Rightarrow> nat option" where
  "free_fd ft = map_option (\<lambda>i. i + 3) (first_index (\<lambda>e. \<not> fe_in_use e) (drop 3 (ft_fds ft)))"

definition srv_prefix :: "char list" where "srv_prefix = ''/srv/''"

definition vfs_open :: "kern \<Rightarrow> nat \<Rightarrow> char list option \<Rightarrow> u32 \<Rightarrow> int vres" where
  "vfs_open k t p flags =
     (case p of
        None \<Rightarrow> VRet k (- EINVAL)
      | Some path \<Rightarrow>
          (case vfs_resolve k (Some path) of
             Some (m, rel) \<Rightarrow>
               if read_only_refuses m flags then VRet k (- EROFS)
               else (case fdts k t of
                 None \<Rightarrow> VFault
               | Some ft \<Rightarrow>
                   (case free_fd ft of
                      None \<Rightarrow> VRet k (- EMFILE)
                    | Some fd \<Rightarrow>
                        (case driver_open k m rel flags (ft_fds ft ! fd) of
                           VRet k1 (r, e) \<Rightarrow>
                             let (k2, res) = open_finish k1 t fd r e (int fd) in VRet k2 res
                         | VUser u \<Rightarrow> VUser u
                         | VConnect q \<Rightarrow> VConnect q
                         | VFault \<Rightarrow> VFault)))
           | None \<Rightarrow>
               if path_starts_with path srv_prefix then VConnect path else VRet k (- ENOENT)))"

text \<open>The references \<open>vfs_open_into\<close> drops before it opens.\<close>

definition clear_slot :: "kern \<Rightarrow> nat \<Rightarrow> nat \<Rightarrow> kern option" where
  "clear_slot k t fd =
     do { ft \<leftarrow> fdts k t;
          let e = ft_fds ft ! fd;
          if \<not> fe_in_use e then Some k
          else do {
            k1 \<leftarrow> (if fe_kind e = FD_PIPE_R \<or> fe_kind e = FD_PIPE_W \<or> fe_kind e = FD_PTY_MASTER \<or>
                      fe_kind e = FD_PTY_SLAVE \<or> fe_kind e = FD_SRV_LISTEN \<or> fe_kind e = FD_SRV_CONN
                   then release_fd k e else Some k);
            ft1 \<leftarrow> fdts k1 t;
            Some (set_fd k1 t fd ((ft_fds ft1 ! fd)\<lparr>fe_pipe := 0, fe_pty := 0, fe_srv_l := 0, fe_srv_c := 0\<rparr>)) } }"

text \<open>\<open>t\<close> is the table of the thread the caller names; \<open>None\<close> for a null thread.\<close>

definition vfs_open_into :: "kern \<Rightarrow> nat option \<Rightarrow> int \<Rightarrow> char list option \<Rightarrow> u32 \<Rightarrow> int vres" where
  "vfs_open_into k tt fd p flags =
     (case (tt, p) of
        (Some t, Some path) \<Rightarrow>
          if fd < 0 \<or> fd \<ge> int FD_TABLE_SIZE then VRet k (- EBADF)
          else (case clear_slot k t (nat fd) of
            None \<Rightarrow> VFault
          | Some k1 \<Rightarrow>
              (case vfs_resolve k1 (Some path) of
                 None \<Rightarrow> VRet k1 (- ENOENT)
               | Some (m, rel) \<Rightarrow>
                   if read_only_refuses m flags then VRet k1 (- EROFS)
                   else (case fdts k1 t of
                     None \<Rightarrow> VFault
                   | Some ft \<Rightarrow>
                       (case driver_open k1 m rel flags (ft_fds ft ! nat fd) of
                          VRet k2 (r, e) \<Rightarrow>
                            let (k3, res) = open_finish k2 t (nat fd) r e 0 in VRet k3 res
                        | VUser u \<Rightarrow> VUser u
                        | VConnect q \<Rightarrow> VConnect q
                        | VFault \<Rightarrow> VFault))))
      | _ \<Rightarrow> VRet k (- EINVAL))"

section \<open>Closing\<close>

definition vfs_close :: "kern \<Rightarrow> nat \<Rightarrow> int \<Rightarrow> (kern \<times> int) option" where
  "vfs_close k t fd =
     (if fd < 0 \<or> fd \<ge> int FD_TABLE_SIZE then Some (k, - EBADF)
      else do {
        ft \<leftarrow> fdts k t;
        let e = ft_fds ft ! nat fd;
        if \<not> fe_in_use e then Some (k, - EBADF)
        else if fd \<ge> 3 then do { k1 \<leftarrow> release_fd k e; Some (set_fd k1 t (nat fd) free_entry, 0) }
        else Some (k, 0) })"

definition vfs_close_all :: "kern \<Rightarrow> nat option \<Rightarrow> kern option" where
  "vfs_close_all k tt = (case tt of None \<Rightarrow> Some k | Some t \<Rightarrow> fd_table_unref k t)"

section \<open>Handing out descriptors\<close>

definition alloc_fd :: "kern \<Rightarrow> nat \<Rightarrow> (fd_entry \<Rightarrow> fd_entry) \<Rightarrow> (kern \<times> int) option" where
  "alloc_fd k t f =
     do { ft \<leftarrow> fdts k t;
          case free_fd ft of
            None \<Rightarrow> Some (k, - EMFILE)
          | Some fd \<Rightarrow> Some (set_fd k t fd (f (ft_fds ft ! fd)), int fd) }"

definition socket_entry :: "fd_kind \<Rightarrow> int \<Rightarrow> fd_entry \<Rightarrow> fd_entry" where
  "socket_entry kd cid e =
     e\<lparr>fe_in_use := True, fe_kind := kd, fe_offset := 0, fe_ramfs_index := -1, fe_osfs_start := 0,
       fe_osfs_size := 0, fe_pipe := 0, fe_socket_cid := cid, fe_osfs2_ino := 0\<rparr>"

definition vfs_alloc_socket_fd :: "kern \<Rightarrow> nat \<Rightarrow> int \<Rightarrow> (kern \<times> int) option" where
  "vfs_alloc_socket_fd k t cid = alloc_fd k t (socket_entry FD_SOCKET cid)"

definition vfs_alloc_listen_fd :: "kern \<Rightarrow> nat \<Rightarrow> int \<Rightarrow> (kern \<times> int) option" where
  "vfs_alloc_listen_fd k t cid = alloc_fd k t (socket_entry FD_SOCKET_LISTEN cid)"

definition vfs_alloc_srv_listen_fd :: "kern \<Rightarrow> nat \<Rightarrow> nat \<Rightarrow> (kern \<times> int) option" where
  "vfs_alloc_srv_listen_fd k t ls =
     (if ls = 0 then Some (k, - EINVAL)
      else alloc_fd k t (\<lambda>e. (reset_entry FD_SRV_LISTEN e)\<lparr>fe_in_use := True, fe_srv_l := ls\<rparr>))"

definition vfs_alloc_srv_conn_fd :: "kern \<Rightarrow> nat \<Rightarrow> nat \<Rightarrow> bool \<Rightarrow> (kern \<times> int) option" where
  "vfs_alloc_srv_conn_fd k t c is_service =
     (if c = 0 then Some (k, - EINVAL)
      else alloc_fd k t (\<lambda>e. (reset_entry FD_SRV_CONN e)
             \<lparr>fe_in_use := True, fe_srv_c := c, fe_srv_is_service := is_service\<rparr>))"

text \<open>\<open>vfs_open\<close> of a service once \<open>srv_connect\<close> has returned its connection or error.\<close>

definition vfs_open_connected :: "kern \<Rightarrow> nat \<Rightarrow> int + nat \<Rightarrow> (kern \<times> int) option" where
  "vfs_open_connected k t r =
     (case r of
        Inl err \<Rightarrow> Some (k, if err \<noteq> 0 then err else - ENOENT)
      | Inr c \<Rightarrow> do {
          (k1, fd) \<leftarrow> vfs_alloc_srv_conn_fd k t c False;
          if fd < 0 then do { v \<leftarrow> srv_unref_conn (kv k1) c False; Some (k1\<lparr>kv := v\<rparr>, fd) }
          else Some (k1, fd) })"

section \<open>Reading\<close>

text \<open>The socket loop: each round polls the network, tries the connection and yields.  \<open>rest\<close> has
  the connections and the frames of the rounds to come.\<close>

datatype sock_result = SockRet tcp int "byte list" | SockWait tcp

fun sock_read_loop ::
    "tcpenv \<Rightarrow> tcp handler \<Rightarrow> tcp handler \<Rightarrow> int \<Rightarrow> nat \<Rightarrow> tcp \<Rightarrow> byte list list \<Rightarrow>
     (tcp \<times> byte list list) list \<Rightarrow> sock_result" where
  "sock_read_loop e ih uh cid len s frames rest =
     (let (s1, _) = net_poll e ih uh frames s; (s2, n, bs) = tcp_recv e cid len s1 in
      if n > 0 then SockRet s2 n bs
      else if tcp_eof cid s2 \<noteq> 0 then SockRet s2 0 []
      else if n < 0 then SockRet s2 (- EIO) []
      else case rest of [] \<Rightarrow> SockWait s2 | (s', f') # rs \<Rightarrow> sock_read_loop e ih uh cid len s' f' rs)"

declare sock_read_loop.simps [simp del]

text \<open>The console: the results of the polls of \<open>console_try_getc\<close> to come, what has been typed so
  far and what was echoed.\<close>

datatype cons_result =
  CRet "byte list" "byte list" "byte option list" | CIntr "byte list" "byte option list" | CWait

fun cooked_read :: "nat \<Rightarrow> byte list \<Rightarrow> byte list \<Rightarrow> byte option list \<Rightarrow> cons_result" where
  "cooked_read len acc echo keys =
     (if \<not> length acc < len then CRet acc echo keys
      else case keys of
        [] \<Rightarrow> CWait
      | None # ks \<Rightarrow> cooked_read len acc echo ks
      | Some c # ks \<Rightarrow>
          if c = 0x03 then CIntr echo ks
          else if c = 13 \<or> c = 10 then CRet (acc @ [10]) (echo @ [13, 10]) ks
          else if c = 0x7f \<or> c = 0x08 then
            (if length acc > 0 then cooked_read len (butlast acc) (echo @ [8, 32, 8]) ks
             else cooked_read len acc echo ks)
          else cooked_read len (acc @ [c]) (echo @ [c]) ks)"

declare cooked_read.simps [simp del]

fun raw_char :: "byte option list \<Rightarrow> cons_result" where
  "raw_char [] = CWait"
| "raw_char (None # ks) = raw_char ks"
| "raw_char (Some c # ks) = CRet [c] [] ks"

text \<open>What the caller finds while it waits.\<close>

record read_env =
  re_pipe :: env
  re_srv :: "srv_wakeup list"
  re_icmp :: "tcp handler"
  re_udp :: "tcp handler"
  re_frames :: "byte list list"
  re_rounds :: "(tcp \<times> byte list list) list"
  re_keys :: "byte option list"
  re_tty_raw :: bool
  re_fg_pid :: int
  re_me :: "nat option"
  re_dst_ok :: bool

datatype read_result =
    ROk kern int "byte list"
  | RPipe "(int \<times> byte list) outcome"
  | RSrv "(int \<times> byte list) srv_outcome"
  | RSock sock_result
  | RConsole cons_result kern
  | RUser user_call
  | RFault

text \<open>Advancing the descriptor by what was read.\<close>

definition advance :: "kern \<Rightarrow> nat \<Rightarrow> nat \<Rightarrow> fd_entry \<Rightarrow> int \<Rightarrow> kern" where
  "advance k t fd e got =
     (if got > 0 then set_fd k t fd (e\<lparr>fe_offset := add64 (fe_offset e) (nat got)\<rparr>) else k)"

definition read_entry ::
    "kern \<Rightarrow> nat \<Rightarrow> nat \<Rightarrow> fd_entry \<Rightarrow> nat \<Rightarrow> read_env \<Rightarrow> read_result" where
  "read_entry k t fd e len en =
     (if fe_kind e = FD_PIPE_R then RPipe (pipe_read (kmem k) (fe_pipe e) False len (re_pipe en))
      else if fe_kind e = FD_PIPE_W then ROk k (- EBADF) []
      else if fe_kind e = FD_PTY_MASTER then
        RPipe (pty_master_read (kmem k) (fe_pty e) False len (re_pipe en))
      else if fe_kind e = FD_PTY_SLAVE then
        RPipe (pty_slave_read (kmem k) (fe_pty e) False len (re_pipe en))
      else if fe_kind e = FD_SOCKET then
        (if fe_socket_cid e < 0 then ROk k (- EBADF) []
         else RSock (sock_read_loop (net_env k) (re_icmp en) (re_udp en) (fe_socket_cid e) len (nets k)
                       (re_frames en) (re_rounds en)))
      else if fe_kind e = FD_SOCKET_LISTEN then ROk k (- EINVAL) []
      else if fe_kind e = FD_SRV_LISTEN then ROk k (- EINVAL) []
      else if fe_kind e = FD_SRV_CONN then
        (if fe_srv_c e = 0 then ROk k (- EBADF) []
         else RSrv (srv_read (kv k) (fe_srv_c e) (fe_srv_is_service e) False len (re_dst_ok en)
                      (re_me en) (re_srv en)))
      else if fe_kind e = FD_USERFS_FILE then
        (if fe_userfs_ch e = 0 then ROk k (- EBADF) []
         else RUser (URead (fe_userfs_ch e) (fe_userfs_handle e) (fe_offset e) len))
      else if fe_kind e = FD_TMPFS_RW then
        (let (got, bs) = tmpfs_read (tmpfs_view k) (fe_ramfs_index e) (fe_offset e) len
         in ROk (advance k t fd e got) got bs)
      else if fe_kind e = FD_OSFS2_FILE then
        (let (s, r) = osfs2_read (o2 k) (fe_osfs2_ino e) (fe_offset e) len; k1 = k\<lparr>o2 := s\<rparr> in
         case r of None \<Rightarrow> ROk k1 (-1) []
         | Some bs \<Rightarrow> ROk (advance k1 t fd e (int (length bs))) (int (length bs)) bs)
      else if fe_osfs_size e \<noteq> 0 then
        (let (s, got, bs) = osfs_read (o1 k) (of_nat (fe_osfs_start e)) (of_nat (fe_osfs_size e)) (fe_offset e) len
         in ROk (advance (k\<lparr>o1 := s\<rparr>) t fd e got) got bs)
      else if fe_ramfs_index e < 0 then
        (if fd \<noteq> 0 then ROk k 0 []
         else if re_tty_raw en then RConsole (raw_char (re_keys en)) k
         else
           let r = cooked_read len [] [] (re_keys en) in
           RConsole r (case r of
             CIntr _ _ \<Rightarrow> if re_fg_pid en > 0
                            then set_kmem k (thread_signal_pid (kmem k) (re_fg_pid en) 2) else k
           | _ \<Rightarrow> k))
      else
        let f = snd (ramfs k ! nat (fe_ramfs_index e)) in
        if fe_offset e \<ge> length f then ROk k 0 []
        else
          let left = length f - fe_offset e; n = (if len < left then len else left) in
          ROk (set_fd k t fd (e\<lparr>fe_offset := add64 (fe_offset e) n\<rparr>)) (int n)
            (take n (drop (fe_offset e) f)))"

definition vfs_read :: "kern \<Rightarrow> nat \<Rightarrow> int \<Rightarrow> bool \<Rightarrow> nat \<Rightarrow> read_env \<Rightarrow> read_result" where
  "vfs_read k t fd buf_null len en =
     (if fd < 0 \<or> fd \<ge> int FD_TABLE_SIZE then ROk k (- EBADF) []
      else if buf_null then ROk k (- EINVAL) []
      else case fdts k t of
        None \<Rightarrow> RFault
      | Some ft \<Rightarrow>
          let e = ft_fds ft ! nat fd in
          if \<not> fe_in_use e then ROk k (- EBADF) [] else read_entry k t (nat fd) e len en)"

section \<open>Seeking\<close>

text \<open>The value of a 64-bit pattern as a signed number; signed sums wrap.\<close>

definition s64 :: "int \<Rightarrow> int" where
  "s64 x = (x + 2 ^ 63) mod 2 ^ 64 - 2 ^ 63"

definition seek_to :: "kern \<Rightarrow> nat \<Rightarrow> nat \<Rightarrow> fd_entry \<Rightarrow> nat \<Rightarrow> int \<Rightarrow> int \<Rightarrow> kern \<times> int" where
  "seek_to k t fd e end_size off whence =
     (let cur = s64 (int (fe_offset e));
          base = (if whence = 0 then 0 else if whence = 1 then cur else s64 (int end_size));
          neu = s64 (base + off) in
      if neu < 0 then (k, - EINVAL) else (set_fd k t fd (e\<lparr>fe_offset := nat neu\<rparr>), neu))"

definition userfs_op_lseek :: "fd_entry \<Rightarrow> int \<Rightarrow> int \<Rightarrow> fd_entry \<times> int" where
  "userfs_op_lseek e off whence =
     (if whence = 0 then
        (if off < 0 then (e, - EINVAL) else (e\<lparr>fe_offset := nat off\<rparr>, off))
      else if whence = 1 then
        (let cur = s64 (s64 (int (fe_offset e)) + off) in
         if cur < 0 then (e, - EINVAL) else (e\<lparr>fe_offset := nat cur\<rparr>, cur))
      else (e, - EINVAL))"

definition vfs_lseek :: "kern \<Rightarrow> nat \<Rightarrow> int \<Rightarrow> int \<Rightarrow> int \<Rightarrow> (kern \<times> int) option" where
  "vfs_lseek k t fd off whence =
     (if fd < 0 \<or> fd \<ge> int FD_TABLE_SIZE then Some (k, - EBADF)
      else do {
        ft \<leftarrow> fdts k t;
        let e = ft_fds ft ! nat fd;
        if \<not> fe_in_use e then Some (k, - EBADF)
        else if whence < 0 \<or> whence > 2 then Some (k, - EINVAL)
        else Some (case fe_kind e of
            FD_USERFS_FILE \<Rightarrow>
              if fe_userfs_ch e = 0 then (k, - EBADF)
              else let (e1, r) = userfs_op_lseek e off whence in (set_fd k t (nat fd) e1, r)
          | FD_FILE \<Rightarrow> seek_to k t (nat fd) e (fe_osfs_size e) off whence
          | FD_OSFS2_FILE \<Rightarrow>
              if whence = 2 then
                let (s, sz) = osfs2_size (o2 k) (fe_osfs2_ino e)
                in seek_to (k\<lparr>o2 := s\<rparr>) t (nat fd) e (unat sz) off whence
              else seek_to k t (nat fd) e 0 off whence
          | FD_TMPFS_RW \<Rightarrow>
              seek_to k t (nat fd) e (tmpfs_size_of (tmpfs_view k) (fe_ramfs_index e)) off whence
          | _ \<Rightarrow> (k, - ESPIPE)) })"

section \<open>Metadata\<close>

record kstat =
  st_mode :: u32
  st_size :: nat
  st_mtime :: nat
  st_dev :: nat
  st_ino :: nat
  st_uid :: u32
  st_gid :: u32

definition S_IFREG_K :: u32 where "S_IFREG_K = 0x8000"
definition S_IFDIR_K :: u32 where "S_IFDIR_K = 0x4000"
definition S_IFCHR_K :: u32 where "S_IFCHR_K = 0x2000"
definition S_IFIFO_K :: u32 where "S_IFIFO_K = 0x1000"
definition S_IFSOCK_K :: u32 where "S_IFSOCK_K = 0xC000"

text \<open>Octal permission bits: 0666, 0600, 0620, 0444 and 0644.\<close>

definition mode_for_fd_kind :: "fd_kind \<Rightarrow> u32" where
  "mode_for_fd_kind kd =
     (case kd of
        FD_CONSOLE \<Rightarrow> S_IFCHR_K OR 438
      | FD_PIPE_R \<Rightarrow> S_IFIFO_K OR 384
      | FD_PIPE_W \<Rightarrow> S_IFIFO_K OR 384
      | FD_SOCKET \<Rightarrow> S_IFSOCK_K OR 384
      | FD_SOCKET_LISTEN \<Rightarrow> S_IFSOCK_K OR 384
      | FD_PTY_MASTER \<Rightarrow> S_IFCHR_K OR 400
      | FD_PTY_SLAVE \<Rightarrow> S_IFCHR_K OR 400
      | FD_SRV_LISTEN \<Rightarrow> S_IFSOCK_K OR 384
      | FD_SRV_CONN \<Rightarrow> S_IFSOCK_K OR 384
      | FD_FILE \<Rightarrow> S_IFREG_K OR 292
      | FD_OSFS2_FILE \<Rightarrow> S_IFREG_K OR 420
      | FD_TMPFS_RW \<Rightarrow> S_IFREG_K OR 420
      | FD_USERFS_FILE \<Rightarrow> S_IFREG_K OR 420)"

definition fd_size :: "kern \<Rightarrow> fd_entry \<Rightarrow> kern \<times> nat" where
  "fd_size k e =
     (case fe_kind e of
        FD_FILE \<Rightarrow> (k, fe_osfs_size e)
      | FD_OSFS2_FILE \<Rightarrow> let (s, sz) = osfs2_size (o2 k) (fe_osfs2_ino e) in (k\<lparr>o2 := s\<rparr>, unat sz)
      | FD_TMPFS_RW \<Rightarrow> (k, tmpfs_size_of (tmpfs_view k) (fe_ramfs_index e))
      | _ \<Rightarrow> (k, 0))"

text \<open>\<open>(uint64_t)ramfs_index + 1u\<close>: the conversion sign-extends.\<close>

definition fd_dev_ino :: "fd_entry \<Rightarrow> nat \<times> nat" where
  "fd_dev_ino e =
     (case fe_kind e of
        FD_FILE \<Rightarrow> (1, fe_osfs_start e)
      | FD_OSFS2_FILE \<Rightarrow> (2, unat (fe_osfs2_ino e))
      | FD_TMPFS_RW \<Rightarrow> (3, nat ((fe_ramfs_index e + 1) mod 2 ^ 64))
      | FD_USERFS_FILE \<Rightarrow> (4, fe_userfs_handle e)
      | _ \<Rightarrow> (0, 0))"

definition stat_entry :: "kern \<Rightarrow> fd_entry \<Rightarrow> kern \<times> kstat" where
  "stat_entry k e =
     (let (k1, sz) = fd_size k e; (dev, ino) = fd_dev_ino e
      in (k1, \<lparr>st_mode = mode_for_fd_kind (fe_kind e), st_size = sz, st_mtime = 0, st_dev = dev,
               st_ino = ino, st_uid = 0, st_gid = 0\<rparr>))"

definition dir_stat :: kstat where
  "dir_stat = \<lparr>st_mode = S_IFDIR_K OR 493, st_size = 0, st_mtime = 0, st_dev = 0, st_ino = 0,
     st_uid = 0, st_gid = 0\<rparr>"

definition vfs_fstat :: "kern \<Rightarrow> nat \<Rightarrow> int \<Rightarrow> bool \<Rightarrow> (kern \<times> int \<times> kstat option) option" where
  "vfs_fstat k t fd out_null =
     (if out_null then Some (k, - EINVAL, None)
      else if fd < 0 \<or> fd \<ge> int FD_TABLE_SIZE then Some (k, - EBADF, None)
      else do {
        ft \<leftarrow> fdts k t;
        let e = ft_fds ft ! nat fd;
        if \<not> fe_in_use e then Some (k, - EBADF, None)
        else let (k1, st) = stat_entry k e in Some (k1, 0, Some st) })"

definition driver_is_dir :: "kern \<Rightarrow> mount \<Rightarrow> char list \<Rightarrow> int vres" where
  "driver_is_dir k m rel =
     (case m_ops m of
        RAMFS \<Rightarrow> VRet k (ramfs_op_is_dir (Some rel))
      | TMPFS \<Rightarrow> VRet k (tmpfs_op_is_dir (Some rel))
      | OSFS1 \<Rightarrow> VRet k (osfs_op_is_dir (Some rel))
      | OSFS2 \<Rightarrow> let (s, r) = osfs2_op_is_dir (o2 k) (Some rel) in VRet (k\<lparr>o2 := s\<rparr>) r
      | USERFS \<Rightarrow> VUser (UIsDir (m_cookie m) rel))"

text \<open>The part of \<open>vfs_stat_path\<close> that opens the file.\<close>

definition stat_open :: "kern \<Rightarrow> nat \<Rightarrow> char list \<Rightarrow> (int \<times> kstat option) vres" where
  "stat_open k t path =
     (case vfs_open k t (Some path) 0 of
        VRet k1 fd \<Rightarrow>
          if fd < 0 then VRet k1 (fd, None)
          else (case fdts k1 t of
            None \<Rightarrow> VFault
          | Some ft \<Rightarrow>
              let (k2, st) = stat_entry k1 (ft_fds ft ! nat fd) in
              (case vfs_close k2 t fd of None \<Rightarrow> VFault | Some (k3, _) \<Rightarrow> VRet k3 (0, Some st)))
      | VUser u \<Rightarrow> VUser u
      | VConnect q \<Rightarrow> VConnect q
      | VFault \<Rightarrow> VFault)"

definition vfs_stat_path ::
    "kern \<Rightarrow> nat \<Rightarrow> char list option \<Rightarrow> bool \<Rightarrow> (int \<times> kstat option) vres" where
  "vfs_stat_path k t p out_null =
     (case p of
        None \<Rightarrow> VRet k (- EINVAL, None)
      | Some path \<Rightarrow>
          if out_null then VRet k (- EINVAL, None)
          else if root_path (Some path) then VRet k (0, Some dir_stat)
          else case vfs_resolve k (Some path) of
            None \<Rightarrow> VRet k (- ENOENT, None)
          | Some (m, rel) \<Rightarrow>
              if str_empty rel \<or> root_path (Some rel) then VRet k (0, Some dir_stat)
              else (case driver_is_dir k m rel of
                VRet k1 isd \<Rightarrow> if isd = 1 then VRet k1 (0, Some dir_stat) else stat_open k1 t path
              | VUser u \<Rightarrow> VUser u
              | VConnect q \<Rightarrow> VConnect q
              | VFault \<Rightarrow> VFault))"

section \<open>Whole files and listings\<close>

definition vfs_lookup :: "kern \<Rightarrow> char list option \<Rightarrow> int \<times> byte list" where
  "vfs_lookup k p =
     (case p of
        None \<Rightarrow> (- EINVAL, [])
      | Some path \<Rightarrow>
          let idx = ramfs_lookup k path in
          if idx < 0 then (- ENOENT, []) else (0, snd (ramfs k ! nat idx)))"

text \<open>The result, and the address and bytes of the buffer the caller owns.  The buffer of \<open>tmpfs\<close>
  is in the modelled memory.\<close>

definition vfs_load :: "kern \<Rightarrow> char list option \<Rightarrow> bool \<Rightarrow> (kern \<times> int \<times> nat \<times> byte list) option" where
  "vfs_load k p out_null =
     (case p of
        None \<Rightarrow> Some (k, - EINVAL, 0, [])
      | Some path \<Rightarrow>
          if out_null then Some (k, - EINVAL, 0, [])
          else case vfs_resolve k (Some path) of
            None \<Rightarrow> Some (k, - ENOENT, 0, [])
          | Some (m, rel) \<Rightarrow>
              (case m_ops m of
                 RAMFS \<Rightarrow> ramfs_op_load k rel False
               | TMPFS \<Rightarrow> do {
                   (s, r, p, n) \<leftarrow> tmpfs_op_load (tmpfs_view k) (Some rel);
                   Some (put_tmpfs k s, r, p, mem_read (tm_ram s) p n) }
               | OSFS1 \<Rightarrow> do {
                   (s, h, r, p, bs) \<leftarrow> osfs_op_load (o1 k) (kheap (kmem k)) (Some rel) False;
                   Some ((set_kmem k ((kmem k)\<lparr>kheap := h\<rparr>))\<lparr>o1 := s\<rparr>, r, p, bs) }
               | OSFS2 \<Rightarrow> do {
                   (s, h, r, p, bs) \<leftarrow> osfs2_op_load (o2 k) (kheap (kmem k)) (Some rel) False;
                   Some ((set_kmem k ((kmem k)\<lparr>kheap := h\<rparr>))\<lparr>o2 := s\<rparr>, r, p, bs) }
               | USERFS \<Rightarrow> Some (k, - ENOSYS, 0, [])))"

lemma osfs2_listdir_advances:
  assumes "osfs2_listdir s pos cap = (s', rc, pos', l)" "rc \<noteq> 0"
  shows "pos < pos' \<and> pos' \<le> 2 ^ 32"
proof -
  obtain rc' where "osfs2_listdir_at s INODE_ROOT pos cap = (s', rc', pos', l)" "rc' = 1"
    using assms by (auto simp: osfs2_listdir_def split: prod.splits if_splits)
  then show ?thesis using osfs2_listdir_at_advances [of s INODE_ROOT pos cap s' rc' pos' l] by simp
qed

text \<open>The walk of \<open>vfs_listdir\<close> over the root directory of OSFS-2: the file system, the entries
  passed, and the entry asked for if it was reached.\<close>

function data_entry :: "osfs2 \<Rightarrow> nat \<Rightarrow> nat \<Rightarrow> nat \<Rightarrow> osfs2 \<times> nat \<times> listing option" where
  "data_entry s pos skipped wanted =
     (let (s1, rc, pos1, l) = osfs2_listdir s pos NAME_MAX in
      if rc = 0 then (s1, skipped, None)
      else if skipped = wanted then (s1, skipped, l)
      else data_entry s1 pos1 (skipped + 1) wanted)"
  by pat_completeness auto
termination
proof (relation "measure (\<lambda>(s, pos, skipped, wanted). 2 ^ 32 - pos)")
  fix s pos skipped x s1 y rc z pos1 l and wanted :: nat
  assume a: "x = osfs2_listdir s pos NAME_MAX" "(s1, y) = x" "(rc, z) = y" "(pos1, l) = z"
    "rc \<noteq> (0 :: int)" "skipped \<noteq> wanted"
  then have "osfs2_listdir s pos NAME_MAX = (s1, rc, pos1, l)" by simp
  then have "pos < pos1 \<and> pos1 \<le> 2 ^ 32" using osfs2_listdir_advances a(5) by blast
  then show "((s1, pos1, skipped + 1, wanted), (s, pos, skipped, wanted))
      \<in> measure (\<lambda>(s, pos, skipped, wanted). 2 ^ 32 - pos)"
    by auto
qed simp

declare data_entry.simps [simp del]

text \<open>A name with its prefix, cut to the caller's buffer.\<close>

definition out_name :: "char list \<Rightarrow> char list \<Rightarrow> nat \<Rightarrow> int \<times> char list" where
  "out_name prefix nm cap = (let s = take (cap - 1) (prefix @ nm) in (int (length s), s @ [NUL]))"

definition list_tmp :: "kern \<Rightarrow> nat \<Rightarrow> nat \<Rightarrow> int \<times> char list \<times> nat" where
  "list_tmp k i cap =
     (if i \<ge> tmpfs_count (tmpfs_view k) then (- ENOENT, [], 0)
      else let (tn, nm, sz) = tmpfs_listdir (tmpfs_view k) (int i) TMPFS_MAX_NAME in
      if tn < 0 then (- ENOENT, [], 0)
      else let (r, out) = out_name ''/tmp/'' (take (nat tn) nm) cap in (r, out, sz))"

definition vfs_listdir :: "kern \<Rightarrow> int \<Rightarrow> bool \<Rightarrow> nat \<Rightarrow> kern \<times> int \<times> char list \<times> nat" where
  "vfs_listdir k idx out_null cap =
     (if out_null \<or> cap < 1 then (k, - EINVAL, [], 0)
      else if idx < 0 then (k, - EINVAL, [], 0)
      else if nat idx < length (ramfs k) then
        let f = ramfs k ! nat idx; (r, out) = out_name [] (cstr (fst f)) cap
        in (k, r, out, unat (of_nat (length (snd f)) :: u32))
      else
        let oi = nat idx - length (ramfs k);
            on = (if osfs_present (o1 k) then osfs_file_count (o1 k) else 0) in
        if oi < on then
          (case osfs_dirent_at (o1 k) oi of
             None \<Rightarrow> (k, - ENOENT, [], 0)
           | Some i \<Rightarrow>
               let (r, out) = out_name ''/mnt/'' (cstr (take OSFS_NAME_MAX (dirent_name (o1 k) i))) cap
               in (k, r, out, unat (dirent_size (o1 k) i)))
        else
          let after_osfs = nat idx - length (ramfs k) - on in
          if osfs2_present (o2 k) then
            let (s, skipped, l) = data_entry (o2 k) 0 0 after_osfs; k1 = k\<lparr>o2 := s\<rparr> in
            (case l of
               Some ent \<Rightarrow> let (r, out) = out_name ''/data/'' (cstr (l_name ent)) cap
                            in (k1, r, out, unat (l_size ent))
             | None \<Rightarrow> (k1, list_tmp k1 (after_osfs - skipped) cap))
          else (k, list_tmp k after_osfs cap))"

end
