(* ===== verification/VfsProps.thy ===== *)
theory VfsProps
  imports VfsFiles
begin

text \<open>The mount table: which mount a path belongs to.\<close>

section \<open>The mount a path belongs to\<close>

definition mount_path :: "mount \<Rightarrow> char list" where
  "mount_path m = cstr (m_prefix m)"

text \<open>The root covers every path, another mount its own path and the paths below it.\<close>

definition covers :: "mount \<Rightarrow> char list \<Rightarrow> bool" where
  "covers m path \<longleftrightarrow> mount_path m = ''/'' \<or>
     (\<exists>rest. path = mount_path m @ rest \<and> (rest = [] \<or> hd rest = CHR ''/''))"

text \<open>The first of the longest ones.\<close>

definition best_mount :: "mount list \<Rightarrow> char list \<Rightarrow> mount \<Rightarrow> bool" where
  "best_mount ms path m \<longleftrightarrow> covers m path \<and>
     (\<exists>xs ys. ms = xs @ m # ys \<and>
        (\<forall>x\<in>set xs. covers x path \<longrightarrow> length (mount_path x) < length (mount_path m)) \<and>
        (\<forall>y\<in>set ys. covers y path \<longrightarrow> length (mount_path y) \<le> length (mount_path m)))"

definition mounts_ok :: "mount list \<Rightarrow> bool" where
  "mounts_ok ms \<longleftrightarrow> (\<forall>m\<in>set ms. ch_at (m_prefix m) 0 = CHR ''/'')"

lemma register_ok: "mounts_ok (g_mounts k) \<Longrightarrow> mounts_ok (g_mounts (fst (vfs_mount_register k p ops c f)))"
  by (auto simp: vfs_mount_register_def mounts_ok_def Let_def split: option.splits)

lemma remove_ok: "mounts_ok (g_mounts k) \<Longrightarrow> mounts_ok (g_mounts (fst (vfs_mount_remove k i)))"
  by (auto simp: vfs_mount_remove_def mounts_ok_def dest: in_set_takeD in_set_dropD)

lemma starts_with_prefix:
  "NUL \<notin> set path \<Longrightarrow> path_starts_with path p \<longleftrightarrow> (\<exists>rest. path = cstr p @ rest)"
proof (induction path p rule: path_starts_with.induct)
  case (1 path)
  then show ?case by (simp add: cstr_def)
next
  case (2 path p ps)
  then show ?case by (cases path) (auto simp: cstr_def)
qed

lemma covers_step:
  assumes "NUL \<notin> set path" "ch_at (m_prefix m) 0 = CHR ''/''" "mount_path m \<noteq> ''/''"
  shows "covers m path \<longleftrightarrow> path_starts_with path (m_prefix m) \<and>
    (ch_at path (length (mount_path m)) = NUL \<or> ch_at path (length (mount_path m)) = CHR ''/'')"
proof -
  have e: "ch_at (mount_path m @ rest) (length (mount_path m)) = (if rest = [] then NUL else hd rest)" for rest
    by (cases rest) (simp_all add: ch_at_def nth_append)
  have n: "ch_at (mount_path m) (length (mount_path m)) = NUL" using e [of "[]"] by simp
  have h: "hd rest \<noteq> NUL" if "NUL \<notin> set rest" "rest \<noteq> []" for rest using that hd_in_set [of rest] by metis
  show ?thesis
    using assms(1,3)
    by (auto simp: covers_def starts_with_prefix [OF assms(1)] e n h mount_path_def [symmetric] split: if_splits)
qed

lemma resolve_scan_append: "resolve_scan path (xs @ ys) b = resolve_scan path ys (resolve_scan path xs b)"
  by (induction xs arbitrary: b) (simp_all add: Let_def)

lemma mount_path_nonempty: "ch_at (m_prefix m) 0 = CHR ''/'' \<Longrightarrow> mount_path m \<noteq> [] \<and> hd (mount_path m) = CHR ''/''"
  by (cases "m_prefix m") (auto simp: mount_path_def cstr_def ch_at_def)

text \<open>One round of the scan.\<close>

lemma scan_round:
  assumes "NUL \<notin> set path" "ch_at (m_prefix m) 0 = CHR ''/''"
    and b: "\<And>b n. best = Some (b, n) \<Longrightarrow> n = length (mount_path b) \<and> 0 < n"
  shows "resolve_scan path [m] best =
    (if covers m path \<and> (case best of None \<Rightarrow> True | Some (b, n) \<Rightarrow> n < length (mount_path m))
     then Some (m, length (mount_path m)) else best)"
proof (cases "mount_path m = ''/''")
  case True
  then have "covers m path" "length (cstr (m_prefix m)) = 1" by (simp_all add: covers_def mount_path_def)
  then show ?thesis using True assms(2) b by (cases best) (auto simp: mount_path_def Let_def split: prod.splits)
next
  case False
  have "\<not> (length (mount_path m) = 1 \<and> ch_at (m_prefix m) 0 = CHR ''/'')"
  proof
    assume a: "length (mount_path m) = 1 \<and> ch_at (m_prefix m) 0 = CHR ''/''"
    then obtain ch where "mount_path m = [ch]" by (metis One_nat_def length_0_conv length_Suc_conv)
    then show False using False mount_path_nonempty [OF assms(2)] by simp
  qed
  then have l: "\<not> (length (cstr (m_prefix m)) = Suc 0 \<and> ch_at (m_prefix m) 0 = CHR ''/'')" by (simp add: mount_path_def)
  have "0 < length (mount_path m)" using mount_path_nonempty [OF assms(2)] by simp
  then show ?thesis using l covers_step [OF assms(1,2) False] b
    by (cases best) (auto simp: mount_path_def Let_def split: prod.splits)
qed

lemma scan_spec:
  assumes "NUL \<notin> set path" "mounts_ok ms"
  shows "case resolve_scan path ms None of
      None \<Rightarrow> \<forall>m\<in>set ms. \<not> covers m path
    | Some (m, n) \<Rightarrow> best_mount ms path m \<and> n = length (mount_path m) \<and> 0 < n"
  using assms(2)
proof (induction ms rule: rev_induct)
  case Nil
  then show ?case by simp
next
  case (snoc m ms)
  have ok: "mounts_ok ms" "ch_at (m_prefix m) 0 = CHR ''/''" using snoc.prems by (simp_all add: mounts_ok_def)
  note ih = snoc.IH [OF ok(1)]
  let ?b = "resolve_scan path ms None"
  have r: "resolve_scan path (ms @ [m]) None =
    (if covers m path \<and> (case ?b of None \<Rightarrow> True | Some (b, n) \<Rightarrow> n < length (mount_path m))
     then Some (m, length (mount_path m)) else ?b)"
    unfolding resolve_scan_append by (rule scan_round [OF assms(1) ok(2)]) (use ih in auto)
  have p: "0 < length (mount_path m)" using mount_path_nonempty [OF ok(2)] by simp
  show ?case
  proof (cases ?b)
    case None
    then have n: "\<forall>x\<in>set ms. \<not> covers x path" using ih by simp
    then have "covers m path \<Longrightarrow> best_mount (ms @ [m]) path m"
      unfolding best_mount_def by (intro conjI exI [of _ ms] exI [of _ "[]"]) simp_all
    then show ?thesis using r None n p by auto
  next
    case (Some bn)
    obtain b n where bn: "bn = (b, n)" by (cases bn)
    have "best_mount ms path b \<and> n = length (mount_path b) \<and> 0 < n" using ih unfolding Some bn option.case prod.case .
    then have b: "best_mount ms path b" "n = length (mount_path b)" "0 < n" by blast+
    obtain xs ys where xy: "ms = xs @ b # ys" "covers b path"
      "\<forall>x\<in>set xs. covers x path \<longrightarrow> length (mount_path x) < length (mount_path b)"
      "\<forall>y\<in>set ys. covers y path \<longrightarrow> length (mount_path y) \<le> length (mount_path b)"
      using b(1) unfolding best_mount_def by blast
    show ?thesis
    proof (cases "covers m path \<and> n < length (mount_path m)")
      case True
      have "\<forall>x\<in>set ms. covers x path \<longrightarrow> length (mount_path x) < length (mount_path m)"
        using xy True b(2) by fastforce
      then have "best_mount (ms @ [m]) path m"
        unfolding best_mount_def using True by (intro conjI exI [of _ ms] exI [of _ "[]"]) simp_all
      then show ?thesis using r Some bn True p by simp
    next
      case False
      have "ms @ [m] = xs @ b # (ys @ [m])" using xy(1) by simp
      moreover have "\<forall>y\<in>set (ys @ [m]). covers y path \<longrightarrow> length (mount_path y) \<le> length (mount_path b)"
        using xy(4) False b(2) by auto
      ultimately have "best_mount (ms @ [m]) path b" unfolding best_mount_def using xy(2,3)
        by (intro conjI exI [of _ xs] exI [of _ "ys @ [m]"]) simp_all
      then show ?thesis using r Some bn False b by auto
    qed
  qed
qed

section \<open>Properties\<close>

text \<open>C38. \<open>vfs_resolve\<close> finds the mount whose prefix is the longest of those that cover the path, a prefix
  covering only whole components, and among equals the one registered first; what it hands the
  driver is the path below the mount, or the whole path for the root.  It fails only if no mount
  covers the path.\<close>

theorem vfs_resolve_longest_prefix:
  assumes "NUL \<notin> set path" "mounts_ok (g_mounts k)"
  shows "case vfs_resolve k (Some path) of
      None \<Rightarrow> \<forall>m\<in>set (g_mounts k). \<not> covers m path
    | Some (m, rel) \<Rightarrow> best_mount (g_mounts k) path m \<and>
        (if mount_path m = ''/'' then rel = path else path = mount_path m @ rel)"
proof (cases "resolve_scan path (g_mounts k) None")
  case None
  then show ?thesis using scan_spec [OF assms] by (simp add: vfs_resolve_def)
next
  case (Some mn)
  obtain m n where mn: "mn = (m, n)" by (cases mn)
  have "best_mount (g_mounts k) path m \<and> n = length (mount_path m) \<and> 0 < n"
    using scan_spec [OF assms] unfolding Some mn option.case prod.case .
  then have m: "best_mount (g_mounts k) path m" "n = length (mount_path m)" "0 < n" by blast+
  have mem: "m \<in> set (g_mounts k)" using m(1) by (auto simp: best_mount_def)
  then have ok: "ch_at (m_prefix m) 0 = CHR ''/''" using assms(2) by (simp add: mounts_ok_def)
  have root: "n = 1 \<and> ch_at (m_prefix m) 0 = CHR ''/'' \<longleftrightarrow> mount_path m = ''/''"
    using mount_path_nonempty [OF ok] m(2) ok by (cases "mount_path m") auto
  have "mount_path m \<noteq> ''/'' \<Longrightarrow> path = mount_path m @ drop n path"
    using m(1,2) by (auto simp: best_mount_def covers_def)
  then show ?thesis using Some mn m(1) root by (auto simp: vfs_resolve_def)
qed

lemma vfs_resolve_longest_prefix_witness:
  "\<exists>k m. vfs_resolve k (Some ''/data/x'') = Some (m, ''/x'') \<and> m_ops m = OSFS2 \<and> best_mount (g_mounts k) ''/data/x'' m \<and>
     length (g_mounts k) = 3"
proof -
  define k :: kern where "k = undefined\<lparr>g_mounts := [\<lparr>m_prefix = ''/'', m_ops = RAMFS, m_cookie = 0, m_flags = 1\<rparr>,
    \<lparr>m_prefix = ''/data'', m_ops = OSFS2, m_cookie = 0, m_flags = 0\<rparr>, \<lparr>m_prefix = ''/dat'', m_ops = TMPFS, m_cookie = 0, m_flags = 0\<rparr>]\<rparr>"
  have ok: "mounts_ok (g_mounts k)" by (simp add: k_def mounts_ok_def ch_at_def)
  have r: "vfs_resolve k (Some ''/data/x'') = Some (\<lparr>m_prefix = ''/data'', m_ops = OSFS2, m_cookie = 0, m_flags = 0\<rparr>, ''/x'')"
    by (simp add: k_def vfs_resolve_def cstr_def ch_at_def Let_def)
  show ?thesis using vfs_resolve_longest_prefix [of "''/data/x''" k] ok r by (intro exI [of _ k]) (simp add: k_def)
qed

end
