(* ===== verification/Sched.thy ===== *)
theory Sched
  imports VfsFiles
begin

text \<open>
  Threads and the scheduler: \<open>kernel/core/thread.c\<close>, with the per-processor part of
  \<open>arch/cpu.h\<close>.

  \<open>sched\<close> holds the rest of the modelled kernel (\<open>kn\<close>), the thread structures at their addresses,
  the list of all threads, the processors and the counters.  The run queue of a processor is what
  the code has: a head, a tail and the \<open>next\<close> links in the threads.  Operations take the number
  \<open>c\<close> of the processor they run on; \<open>None\<close> is a dereference of a pointer to no thread, or the panic
  of \<open>kfree\<close>.  Between two switches an operation runs without interleaving.

  A switch of the processor cannot be expressed as a return: \<open>yield\<close> says whether it returned to
  its caller or which thread now runs in its place, and an operation that goes on after
  \<open>yield\<close> is given as the step up to it and the step after it.  Calls into the window
  manager, the address spaces, the tracer and the interrupt controller are recorded in \<open>slog\<close>.
\<close>

section \<open>State\<close>

datatype tstate =
  THREAD_READY | THREAD_RUNNING | THREAD_WAITING | THREAD_SLEEPING | THREAD_BLOCKED | THREAD_EXITED

text \<open>The register frame a new thread is started from: \<open>x0\<close> to \<open>x30\<close> and the three system
  registers.\<close>

record frame =
  f_x :: "u64 list"
  f_elr :: u64
  f_spsr :: u64
  f_sp_el0 :: u64

record thread =
  t_sp :: nat
  t_stack :: nat
  t_id :: int
  t_parent :: int
  t_exit_code :: int
  t_state :: tstate
  t_name :: "char list"
  t_next :: nat
  t_fdt :: nat
  t_args :: "char list"
  t_as :: nat
  t_cwd :: "char list"
  t_env :: "char list"
  t_wake_at :: nat
  t_blocked_on :: nat
  t_tty_raw :: bool
  t_sig_pending :: u32
  t_handlers :: "u64 list"
  t_restorer :: u64
  t_home :: nat
  t_strace :: nat
  t_frame :: frame

record cpu =
  current :: nat
  idle :: nat
  runq_head :: nat
  runq_tail :: nat
  stack_to_free :: nat

datatype sevent =
    Activate nat | AsShare nat | AsDestroy nat | StraceRelease nat
  | WmDestroyOwner int | WsdRelease int | WinRelease int | Ipi nat

record sched =
  kn :: kern
  threads :: "nat \<Rightarrow> thread option"
  g_all :: "nat list"
  g_cpus :: "cpu list"
  g_next_id :: u32
  g_thread_count :: u32
  g_fg_pid :: int
  clock_ms :: nat
  boot_stack :: "nat \<times> nat"
  secondary_stacks :: "nat \<times> nat"
  trampolines :: "u64 \<times> u64 \<times> u64"
  slog :: "sevent list"

abbreviation (input) SMP_MAX_CPUS :: nat where "SMP_MAX_CPUS \<equiv> 4"
abbreviation (input) THREAD_STACK_SIZE :: nat where "THREAD_STACK_SIZE \<equiv> 16384"
abbreviation (input) FRAME_SIZE :: nat where "FRAME_SIZE \<equiv> 816"
abbreviation (input) SIZEOF_THREAD :: nat where "SIZEOF_THREAD \<equiv> 1144"
abbreviation (input) THREAD_NAME_MAX :: nat where "THREAD_NAME_MAX \<equiv> 32"
abbreviation (input) THREAD_ARGS_MAX :: nat where "THREAD_ARGS_MAX \<equiv> 128"
abbreviation (input) THREAD_CWD_MAX :: nat where "THREAD_CWD_MAX \<equiv> 96"
abbreviation (input) THREAD_ENV_MAX :: nat where "THREAD_ENV_MAX \<equiv> 512"
abbreviation (input) SIGCHLD :: nat where "SIGCHLD \<equiv> 17"

definition put_thread :: "sched \<Rightarrow> nat \<Rightarrow> thread \<Rightarrow> sched" where
  "put_thread s t th = s\<lparr>threads := (threads s)(t := Some th)\<rparr>"

definition put_cpu :: "sched \<Rightarrow> nat \<Rightarrow> cpu \<Rightarrow> sched" where
  "put_cpu s c v = s\<lparr>g_cpus := (g_cpus s)[c := v]\<rparr>"

definition emit :: "sched \<Rightarrow> sevent \<Rightarrow> sched" where
  "emit s e = s\<lparr>slog := slog s @ [e]\<rparr>"

definition self :: "sched \<Rightarrow> nat \<Rightarrow> nat" where
  "self s c = current (g_cpus s ! c)"

definition set_self :: "sched \<Rightarrow> nat \<Rightarrow> nat \<Rightarrow> sched" where
  "set_self s c t = put_cpu s c ((g_cpus s ! c)\<lparr>current := t\<rparr>)"

text \<open>Changing the thread at \<open>t\<close>.\<close>

definition upd_thread :: "sched \<Rightarrow> nat \<Rightarrow> (thread \<Rightarrow> thread) \<Rightarrow> sched option" where
  "upd_thread s t f = map_option (\<lambda>th. put_thread s t (f th)) (threads s t)"

definition sched_kmalloc :: "sched \<Rightarrow> nat \<Rightarrow> (sched \<times> nat) option" where
  "sched_kmalloc s n =
     do { (h, p) \<leftarrow> kmalloc (kheap (kmem (kn s))) n;
          Some (s\<lparr>kn := set_kmem (kn s) ((kmem (kn s))\<lparr>kheap := h\<rparr>)\<rparr>, p) }"

definition sched_kfree :: "sched \<Rightarrow> nat \<Rightarrow> sched option" where
  "sched_kfree s p =
     do { h \<leftarrow> kfree (kheap (kmem (kn s))) p;
          Some (s\<lparr>kn := set_kmem (kn s) ((kmem (kn s))\<lparr>kheap := h\<rparr>)\<rparr>) }"

definition free_thread :: "sched \<Rightarrow> nat \<Rightarrow> sched option" where
  "free_thread s t = do { s1 \<leftarrow> sched_kfree s t; Some (s1\<lparr>threads := (threads s1)(t := None)\<rparr>) }"

section \<open>Lists of threads\<close>

definition alloc_thread_id :: "sched \<Rightarrow> sched \<times> int" where
  "alloc_thread_id s = (s\<lparr>g_next_id := g_next_id s + 1\<rparr>, sint (g_next_id s))"

definition all_push :: "sched \<Rightarrow> nat \<Rightarrow> sched" where
  "all_push s t = s\<lparr>g_all := t # g_all s\<rparr>"

definition all_remove :: "sched \<Rightarrow> nat \<Rightarrow> sched" where
  "all_remove s t = s\<lparr>g_all := remove1 t (g_all s)\<rparr>"

text \<open>The queue operations on processor \<open>c\<close>, the common part of \<open>runq_push_local\<close> and
  \<open>runq_push_remote\<close>.\<close>

definition runq_push_on :: "sched \<Rightarrow> nat \<Rightarrow> nat \<Rightarrow> sched option" where
  "runq_push_on s c t =
     do { s1 \<leftarrow> upd_thread s t (\<lambda>th. th\<lparr>t_next := 0\<rparr>);
          let q = g_cpus s1 ! c;
          if runq_tail q \<noteq> 0 then do {
            s2 \<leftarrow> upd_thread s1 (runq_tail q) (\<lambda>th. th\<lparr>t_next := t\<rparr>);
            Some (put_cpu s2 c (q\<lparr>runq_tail := t\<rparr>)) }
          else Some (put_cpu s1 c (q\<lparr>runq_head := t, runq_tail := t\<rparr>)) }"

definition runq_pop_local :: "sched \<Rightarrow> nat \<Rightarrow> (sched \<times> nat) option" where
  "runq_pop_local s c =
     (let q = g_cpus s ! c; t = runq_head q in
      if t = 0 then Some (s, 0)
      else do {
        th \<leftarrow> threads s t;
        let q1 = q\<lparr>runq_head := t_next th, runq_tail := (if t_next th = 0 then 0 else runq_tail q)\<rparr>;
        Some (put_thread (put_cpu s c q1) t (th\<lparr>t_next := 0\<rparr>), t) })"

definition runq_push_local :: "sched \<Rightarrow> nat \<Rightarrow> nat \<Rightarrow> sched option" where
  "runq_push_local s c t = runq_push_on s c t"

definition runq_push_remote :: "sched \<Rightarrow> nat \<Rightarrow> nat \<Rightarrow> nat \<Rightarrow> sched option" where
  "runq_push_remote s c target t =
     (if target \<ge> SMP_MAX_CPUS then Some s
      else do { s1 \<leftarrow> runq_push_on s target t; Some (if c \<noteq> target then emit s1 (Ipi target) else s1) })"

definition runq_push_to :: "sched \<Rightarrow> nat \<Rightarrow> nat \<Rightarrow> sched option" where
  "runq_push_to s c t =
     do { th \<leftarrow> threads s t;
          if t_home th = c then runq_push_local s c t else runq_push_remote s c (t_home th) t }"

definition drain_stack_to_free :: "sched \<Rightarrow> nat \<Rightarrow> sched option" where
  "drain_stack_to_free s c =
     (let q = g_cpus s ! c; t = stack_to_free q in
      if t = 0 then Some s
      else do {
        th \<leftarrow> threads s t;
        s1 \<leftarrow> (if t_stack th \<noteq> 0 then do {
                  s1 \<leftarrow> sched_kfree s (t_stack th); Some (put_thread s1 t (th\<lparr>t_stack := 0\<rparr>)) }
                else Some s);
        Some (put_cpu s1 c ((g_cpus s1 ! c)\<lparr>stack_to_free := 0\<rparr>)) })"

section \<open>Creating threads\<close>

definition name_of :: "char list option \<Rightarrow> char list" where
  "name_of src = take (THREAD_NAME_MAX - 1) (cstr (case src of None \<Rightarrow> ''?'' | Some n \<Rightarrow> n))"

definition thread_rename :: "sched \<Rightarrow> nat \<Rightarrow> char list option \<Rightarrow> sched option" where
  "thread_rename s t nm = (if t = 0 then Some s else upd_thread s t (\<lambda>th. th\<lparr>t_name := name_of nm\<rparr>))"

text \<open>The structure and the stack; \<open>None\<close> inside if there is no memory.\<close>

definition alloc_thread :: "sched \<Rightarrow> (sched \<times> (nat \<times> nat) option) option" where
  "alloc_thread s =
     do { (s1, t) \<leftarrow> sched_kmalloc s SIZEOF_THREAD;
          if t = 0 then Some (s1, None)
          else do {
            (s2, stk) \<leftarrow> sched_kmalloc s1 THREAD_STACK_SIZE;
            if stk = 0 then do { s3 \<leftarrow> sched_kfree s2 t; Some (s3, None) }
            else Some (s2, Some (t, stk)) } }"

text \<open>The characters the environment array of the structure at \<open>t\<close> happens to hold.\<close>

definition env_junk :: "sched \<Rightarrow> nat \<Rightarrow> char list" where
  "env_junk s t = map char_of_byte (junk (kmem (kn s)) (t + 328) THREAD_ENV_MAX)"

definition empty_env :: "char list \<Rightarrow> char list" where
  "empty_env old = old[0 := NUL, 1 := NUL]"

text \<open>What the copy loop takes: everything through the second of two NULs in a row.\<close>

fun env_prefix :: "char list \<Rightarrow> bool \<Rightarrow> char list" where
  "env_prefix [] seen = []"
| "env_prefix (ch # cs) seen = ch # (if ch = NUL \<and> seen then [] else env_prefix cs (ch = NUL))"

definition copy_env :: "char list \<Rightarrow> char list \<Rightarrow> char list" where
  "copy_env src old =
     (splice old 0 (env_prefix (take THREAD_ENV_MAX src) False))
       [THREAD_ENV_MAX - 2 := NUL, THREAD_ENV_MAX - 1 := NUL]"

definition copy_cwd :: "char list \<Rightarrow> char list" where
  "copy_cwd src = take (THREAD_CWD_MAX - 1) (cstr src)"

text \<open>The fields every creating function sets, with the root directory and an empty
  environment.\<close>

definition base_thread :: "sched \<Rightarrow> nat \<Rightarrow> nat \<Rightarrow> int \<Rightarrow> int \<Rightarrow> nat \<Rightarrow> thread" where
  "base_thread s t stk tid parent home =
     \<lparr>t_sp = 0, t_stack = stk, t_id = tid, t_parent = parent, t_exit_code = 0, t_state = THREAD_READY,
      t_name = [], t_next = 0, t_fdt = 0, t_args = [], t_as = 0, t_cwd = ''/'',
      t_env = empty_env (env_junk s t), t_wake_at = 0, t_blocked_on = 0, t_tty_raw = False,
      t_sig_pending = 0, t_handlers = replicate 32 0, t_restorer = 0, t_home = home, t_strace = 0,
      t_frame = \<lparr>f_x = replicate 31 0, f_elr = 0, f_spsr = 0, f_sp_el0 = 0\<rparr>\<rparr>"

definition vfs_init_fdtable :: "sched \<Rightarrow> nat \<Rightarrow> sched option" where
  "vfs_init_fdtable s t =
     (if t = 0 then Some s
      else do {
        th \<leftarrow> threads s t;
        if t_fdt th \<noteq> 0 then Some s
        else do { (k, p) \<leftarrow> fd_table_create (kn s); Some (put_thread (s\<lparr>kn := k\<rparr>) t (th\<lparr>t_fdt := p\<rparr>)) } })"

definition thread_init :: "sched \<Rightarrow> nat \<Rightarrow> sched option" where
  "thread_init s c =
     do { (s1, t) \<leftarrow> sched_kmalloc s SIZEOF_THREAD;
          if t = 0 then None
          else do {
            let (s2, tid) = alloc_thread_id s1;
            let th = (base_thread s2 t 0 tid (-1) 0)\<lparr>t_state := THREAD_RUNNING, t_name := name_of (Some ''boot'')\<rparr>;
            s3 \<leftarrow> vfs_init_fdtable (put_thread s2 t th) t;
            Some ((set_self (all_push s3 t) c t)\<lparr>g_thread_count := 1\<rparr>) } }"

text \<open>The creator's directory and environment, or the root and nothing.\<close>

definition inherit_paths :: "sched \<Rightarrow> nat \<Rightarrow> thread \<Rightarrow> thread option" where
  "inherit_paths s cur th =
     (if cur = 0 then Some th
      else do { me \<leftarrow> threads s cur;
                Some (th\<lparr>t_cwd := copy_cwd (t_cwd me), t_env := copy_env (t_env me) (t_env th)\<rparr>) })"

definition parent_id :: "sched \<Rightarrow> nat \<Rightarrow> int option" where
  "parent_id s cur = (if cur = 0 then Some (-1) else map_option t_id (threads s cur))"

definition frame_at :: "nat \<Rightarrow> nat" where
  "frame_at stk = align_down 16 (stk + THREAD_STACK_SIZE) - FRAME_SIZE"

definition launch_frame :: "u64 \<Rightarrow> u64 \<Rightarrow> u64 \<Rightarrow> u64 \<Rightarrow> u64 \<Rightarrow> frame" where
  "launch_frame entry_pt x20 x21 x22 tramp =
     \<lparr>f_x = (replicate 31 0)[19 := entry_pt, 20 := x20, 21 := x21, 22 := x22, 30 := tramp],
      f_elr = tramp, f_spsr = 0x345, f_sp_el0 = 0\<rparr>"

definition count_thread :: "sched \<Rightarrow> sched" where
  "count_thread s = s\<lparr>g_thread_count := g_thread_count s + 1\<rparr>"

definition thread_create :: "sched \<Rightarrow> nat \<Rightarrow> u64 \<Rightarrow> u64 \<Rightarrow> char list option \<Rightarrow> (sched \<times> nat) option" where
  "thread_create s c entry_pt arg nm =
     do { (s1, r) \<leftarrow> alloc_thread s;
          case r of
            None \<Rightarrow> Some (s1, 0)
          | Some (t, stk) \<Rightarrow> do {
              let (s2, tid) = alloc_thread_id s1;
              par \<leftarrow> parent_id s2 (self s2 c);
              th \<leftarrow> inherit_paths s2 (self s2 c) (base_thread s2 t stk tid par c);
              s3 \<leftarrow> vfs_init_fdtable (put_thread s2 t (th\<lparr>t_name := name_of nm\<rparr>)) t;
              s4 \<leftarrow> upd_thread (all_push s3 t) t (\<lambda>th. th\<lparr>t_sp := frame_at stk,
                      t_frame := launch_frame entry_pt arg 0 0 (fst (trampolines s))\<rparr>);
              s5 \<leftarrow> runq_push_local s4 c t;
              Some (count_thread s5, t) } }"

definition thread_create_on ::
    "sched \<Rightarrow> nat \<Rightarrow> nat \<Rightarrow> u64 \<Rightarrow> u64 \<Rightarrow> char list option \<Rightarrow> (sched \<times> nat) option" where
  "thread_create_on s c target entry_pt arg nm =
     (if target \<ge> SMP_MAX_CPUS then Some (s, 0)
      else do {
        (s1, r) \<leftarrow> alloc_thread s;
        case r of
          None \<Rightarrow> Some (s1, 0)
        | Some (t, stk) \<Rightarrow> do {
            let (s2, tid) = alloc_thread_id s1;
            par \<leftarrow> parent_id s2 (self s2 c);
            let th = (base_thread s2 t stk tid par target)\<lparr>t_name := name_of nm\<rparr>;
            s3 \<leftarrow> vfs_init_fdtable (put_thread s2 t th) t;
            s4 \<leftarrow> upd_thread (all_push s3 t) t (\<lambda>th. th\<lparr>t_sp := frame_at stk,
                    t_frame := launch_frame entry_pt arg 0 0 (fst (trampolines s))\<rparr>);
            s5 \<leftarrow> runq_push_remote s4 c target t;
            Some (count_thread s5, t) } })"

definition thread_secondary_init_idle :: "sched \<Rightarrow> nat \<Rightarrow> char list option \<Rightarrow> (sched \<times> int) option" where
  "thread_secondary_init_idle s c nm =
     do { (s1, t) \<leftarrow> sched_kmalloc s SIZEOF_THREAD;
          if t = 0 then Some (s1, -1)
          else do {
            let (s2, tid) = alloc_thread_id s1;
            let th = (base_thread s2 t 0 tid (-1) c)\<lparr>t_state := THREAD_RUNNING, t_name := name_of nm\<rparr>;
            s3 \<leftarrow> vfs_init_fdtable (put_thread s2 t th) t;
            Some (put_cpu s3 c ((g_cpus s3 ! c)\<lparr>idle := t, current := t\<rparr>), 0) } }"

definition user_thread_create ::
    "sched \<Rightarrow> nat \<Rightarrow> u64 \<Rightarrow> u64 \<Rightarrow> char list option \<Rightarrow> nat \<Rightarrow> (sched \<times> nat) option" where
  "user_thread_create s c user_entry_va user_sp_top nm as =
     do { (s1, r) \<leftarrow> alloc_thread s;
          case r of
            None \<Rightarrow> Some (s1, 0)
          | Some (t, stk) \<Rightarrow> do {
              let (s2, tid) = alloc_thread_id s1;
              par \<leftarrow> parent_id s2 (self s2 c);
              th \<leftarrow> inherit_paths s2 (self s2 c) (base_thread s2 t stk tid par c);
              let th1 = th\<lparr>t_name := name_of (Some (case nm of None \<Rightarrow> ''user'' | Some n \<Rightarrow> n)), t_as := as\<rparr>;
              s3 \<leftarrow> vfs_init_fdtable (put_thread s2 t th1) t;
              s4 \<leftarrow> upd_thread (all_push s3 t) t (\<lambda>th. th\<lparr>t_sp := frame_at stk,
                      t_frame := launch_frame user_entry_va user_sp_top 0 0 (fst (snd (trampolines s)))\<rparr>);
              s5 \<leftarrow> runq_push_local s4 c t;
              Some (count_thread s5, t) } }"

text \<open>The table of the creator if it is to be shared and there is one.\<close>

definition attach_fdt :: "sched \<Rightarrow> nat \<Rightarrow> nat \<Rightarrow> bool \<Rightarrow> sched option" where
  "attach_fdt s cur t share =
     (case (if share \<and> cur \<noteq> 0 then threads s cur else None) of
        Some me \<Rightarrow>
          if t_fdt me \<noteq> 0 then do {
            s1 \<leftarrow> upd_thread s t (\<lambda>th. th\<lparr>t_fdt := t_fdt me\<rparr>);
            k \<leftarrow> fd_table_share (kn s1) (t_fdt me);
            Some (s1\<lparr>kn := k\<rparr>) }
          else vfs_init_fdtable s t
      | None \<Rightarrow> vfs_init_fdtable s t)"

definition user_thread_create_shared_files_on ::
    "sched \<Rightarrow> nat \<Rightarrow> u64 \<Rightarrow> u64 \<Rightarrow> char list option \<Rightarrow> nat \<Rightarrow> u64 \<Rightarrow> u64 \<Rightarrow> int \<Rightarrow> bool \<Rightarrow>
     (sched \<times> nat) option" where
  "user_thread_create_shared_files_on s c user_entry_va user_sp_top nm as arg tls cpu_id share_fdt =
     (if as = 0 then Some (s, 0)
      else if cpu_id \<ge> int SMP_MAX_CPUS then Some (s, 0)
      else do {
        let target = (if cpu_id < 0 then c else nat cpu_id);
        (s1, r) \<leftarrow> alloc_thread s;
        case r of
          None \<Rightarrow> Some (s1, 0)
        | Some (t, stk) \<Rightarrow> do {
            let (s2, tid) = alloc_thread_id s1;
            par \<leftarrow> parent_id s2 (self s2 c);
            th \<leftarrow> inherit_paths s2 (self s2 c) (base_thread s2 t stk tid par target);
            let th1 = th\<lparr>t_name := name_of (Some (case nm of None \<Rightarrow> ''thread'' | Some n \<Rightarrow> n)), t_as := as\<rparr>;
            s3 \<leftarrow> attach_fdt (put_thread (emit s2 (AsShare as)) t th1) (self s2 c) t share_fdt;
            s4 \<leftarrow> upd_thread (all_push s3 t) t (\<lambda>th. th\<lparr>t_sp := frame_at stk,
                    t_frame := launch_frame user_entry_va user_sp_top arg tls (snd (snd (trampolines s)))\<rparr>);
            s5 \<leftarrow> runq_push_to s4 c t;
            Some (count_thread s5, t) } })"

definition user_thread_create_shared_on ::
    "sched \<Rightarrow> nat \<Rightarrow> u64 \<Rightarrow> u64 \<Rightarrow> char list option \<Rightarrow> nat \<Rightarrow> u64 \<Rightarrow> u64 \<Rightarrow> int \<Rightarrow> (sched \<times> nat) option" where
  "user_thread_create_shared_on s c user_entry_va user_sp_top nm as arg tls cpu_id =
     user_thread_create_shared_files_on s c user_entry_va user_sp_top nm as arg tls cpu_id False"

definition user_thread_create_shared ::
    "sched \<Rightarrow> nat \<Rightarrow> u64 \<Rightarrow> u64 \<Rightarrow> char list option \<Rightarrow> nat \<Rightarrow> u64 \<Rightarrow> u64 \<Rightarrow> (sched \<times> nat) option" where
  "user_thread_create_shared s c user_entry_va user_sp_top nm as arg tls =
     user_thread_create_shared_on s c user_entry_va user_sp_top nm as arg tls (-1)"

end
