(* ===== verification/SchedOps.thy ===== *)
theory SchedOps
  imports Sched
begin

text \<open>
  The second half of \<open>kernel/core/thread.c\<close>: snapshots, fork, the switch, sleeping and blocking,
  wait, exit and signals.
\<close>

section \<open>Snapshots\<close>

record thread_snap =
  sn_id :: int
  sn_parent_id :: int
  sn_state :: tstate
  sn_home_cpu :: nat
  sn_tty_raw :: bool
  sn_exit_code :: int
  sn_wake_at_ms :: nat
  sn_name :: "char list"
  sn_args :: "char list"
  sn_cwd :: "char list"

definition thread_snap_fill :: "thread \<Rightarrow> thread_snap" where
  "thread_snap_fill th =
     \<lparr>sn_id = t_id th, sn_parent_id = t_parent th, sn_state = t_state th, sn_home_cpu = t_home th,
      sn_tty_raw = t_tty_raw th, sn_exit_code = t_exit_code th, sn_wake_at_ms = t_wake_at th,
      sn_name = take (THREAD_NAME_MAX - 1) (cstr (t_name th)),
      sn_args = take (THREAD_ARGS_MAX - 1) (cstr (t_args th)),
      sn_cwd = take (THREAD_CWD_MAX - 1) (cstr (t_cwd th))\<rparr>"

text \<open>The threads on the global list, in its order.\<close>

fun threads_of :: "sched \<Rightarrow> nat list \<Rightarrow> thread list option" where
  "threads_of s [] = Some []"
| "threads_of s (t # ts) = do { th \<leftarrow> threads s t; ths \<leftarrow> threads_of s ts; Some (th # ths) }"

definition thread_snapshot :: "sched \<Rightarrow> bool \<Rightarrow> int \<Rightarrow> thread_snap list option" where
  "thread_snapshot s out_null limit =
     (if out_null \<or> limit \<le> 0 then Some []
      else map_option (map thread_snap_fill) (threads_of s (take (nat limit) (g_all s))))"

text \<open>The first thread of the list with the identifier; the outer \<open>None\<close> is a bad pointer.\<close>

fun find_id :: "sched \<Rightarrow> int \<Rightarrow> nat list \<Rightarrow> nat option option" where
  "find_id s i [] = Some None"
| "find_id s i (t # ts) =
     do { th \<leftarrow> threads s t; if t_id th = i then Some (Some t) else find_id s i ts }"

definition thread_lookup :: "sched \<Rightarrow> int \<Rightarrow> nat option option" where
  "thread_lookup s i = find_id s i (g_all s)"

definition thread_snapshot_pid :: "sched \<Rightarrow> int \<Rightarrow> bool \<Rightarrow> thread_snap option option" where
  "thread_snapshot_pid s pid out_null =
     (if out_null then Some None
      else do { r \<leftarrow> thread_lookup s pid;
                case r of None \<Rightarrow> Some None
                | Some t \<Rightarrow> do { th \<leftarrow> threads s t; Some (Some (thread_snap_fill th)) } })"

definition thread_runqueue_len :: "sched \<Rightarrow> nat \<Rightarrow> nat option" where
  "thread_runqueue_len s cpu_id =
     map_option (\<lambda>ths. length (filter (\<lambda>th. t_home th = cpu_id \<and>
         (t_state th = THREAD_READY \<or> t_state th = THREAD_RUNNING)) ths)) (threads_of s (g_all s))"

definition thread_live_count :: "sched \<Rightarrow> nat" where
  "thread_live_count s = length (g_all s)"

definition thread_count :: "sched \<Rightarrow> nat" where
  "thread_count s = unat (g_thread_count s)"

section \<open>Fork\<close>

definition not_inherited :: "fd_kind \<Rightarrow> bool" where
  "not_inherited kd = (kd = FD_SOCKET \<or> kd = FD_SOCKET_LISTEN \<or> kd = FD_SRV_LISTEN \<or> kd = FD_SRV_CONN)"

definition is_pipe_or_pty :: "fd_kind \<Rightarrow> bool" where
  "is_pipe_or_pty kd = (kd = FD_PIPE_R \<or> kd = FD_PIPE_W \<or> kd = FD_PTY_MASTER \<or> kd = FD_PTY_SLAVE)"

definition add_r_ref :: "kstate \<Rightarrow> nat \<Rightarrow> kstate option" where
  "add_r_ref k p = map_option (\<lambda>v. put_pipe k p (v\<lparr>r_refs := r_refs v + 1\<rparr>)) (pipes k p)"

definition add_w_ref :: "kstate \<Rightarrow> nat \<Rightarrow> kstate option" where
  "add_w_ref k p = map_option (\<lambda>v. put_pipe k p (v\<lparr>w_refs := w_refs v + 1\<rparr>)) (pipes k p)"

definition add_pty_ref :: "kstate \<Rightarrow> nat \<Rightarrow> bool \<Rightarrow> kstate option" where
  "add_pty_ref k p master =
     do { t \<leftarrow> ptys k p;
          let k1 = k\<lparr>ptys := (ptys k)(p := Some (t\<lparr>refs := refs t + 1\<rparr>))\<rparr>;
          k2 \<leftarrow> add_r_ref k1 (if master then s2m t else m2s t);
          add_w_ref k2 (if master then m2s t else s2m t) }"

text \<open>The reference the copy of an entry holds.\<close>

definition add_ref :: "kern \<Rightarrow> fd_entry \<Rightarrow> kern option" where
  "add_ref k e =
     (if fe_kind e = FD_PIPE_R \<and> fe_pipe e \<noteq> 0 then map_option (set_kmem k) (add_r_ref (kmem k) (fe_pipe e))
      else if fe_kind e = FD_PIPE_W \<and> fe_pipe e \<noteq> 0 then
        map_option (set_kmem k) (add_w_ref (kmem k) (fe_pipe e))
      else if fe_kind e = FD_PTY_MASTER \<and> fe_pty e \<noteq> 0 then
        map_option (set_kmem k) (add_pty_ref (kmem k) (fe_pty e) True)
      else if fe_kind e = FD_PTY_SLAVE \<and> fe_pty e \<noteq> 0 then
        map_option (set_kmem k) (add_pty_ref (kmem k) (fe_pty e) False)
      else if fe_kind e = FD_USERFS_FILE \<and> fe_userfs_ch e \<noteq> 0 then
        Some (k\<lparr>userfs_shares := userfs_shares k @ [fe_userfs_ch e]\<rparr>)
      else Some k)"

text \<open>The loop over the slots, \<open>n\<close> of them left.\<close>

fun inherit_loop :: "kern \<Rightarrow> nat \<Rightarrow> nat \<Rightarrow> nat \<Rightarrow> nat \<Rightarrow> kern option" where
  "inherit_loop k ch pa fd 0 = Some k"
| "inherit_loop k ch pa fd (Suc n) =
     do { pt \<leftarrow> fdts k pa;
          let src = ft_fds pt ! fd;
          if \<not> fe_in_use src \<or> not_inherited (fe_kind src) then inherit_loop k ch pa (fd + 1) n
          else do {
            ct \<leftarrow> fdts k ch;
            let dst = ft_fds ct ! fd;
            k1 \<leftarrow> (if fe_in_use dst \<and> is_pipe_or_pty (fe_kind dst) then release_fd k dst else Some k);
            k2 \<leftarrow> add_ref (set_fd k1 ch fd (src\<lparr>fe_in_use := True\<rparr>)) src;
            inherit_loop k2 ch pa (fd + 1) n } }"

text \<open>\<open>ch\<close> and \<open>pa\<close> are the tables of the child and the parent.\<close>

definition thread_inherit_fds :: "kern \<Rightarrow> nat \<Rightarrow> nat \<Rightarrow> kern option" where
  "thread_inherit_fds k ch pa = inherit_loop k ch pa 0 FD_TABLE_SIZE"

definition thread_fork_user ::
    "sched \<Rightarrow> nat \<Rightarrow> nat \<Rightarrow> nat \<Rightarrow> frame option \<Rightarrow> u64 \<Rightarrow> (sched \<times> nat) option" where
  "thread_fork_user s c parent child_as pf parent_sp_el0 =
     (case pf of
        None \<Rightarrow> Some (s, 0)
      | Some fr \<Rightarrow>
          if parent = 0 \<or> child_as = 0 then Some (s, 0)
          else do {
            (s1, r) \<leftarrow> alloc_thread s;
            case r of
              None \<Rightarrow> Some (s1, 0)
            | Some (t, stk) \<Rightarrow> do {
                let (s2, tid) = alloc_thread_id s1;
                pa \<leftarrow> threads s2 parent;
                let th = (base_thread s2 t stk tid (t_id pa) c)
                  \<lparr>t_name := name_of (Some (t_name pa)), t_as := child_as, t_handlers := t_handlers pa,
                   t_restorer := t_restorer pa, t_args := take (THREAD_ARGS_MAX - 1) (cstr (t_args pa)),
                   t_cwd := copy_cwd (t_cwd pa), t_env := copy_env (t_env pa) (env_junk s2 t)\<rparr>;
                s3 \<leftarrow> vfs_init_fdtable (put_thread s2 t th) t;
                ct \<leftarrow> threads s3 t;
                k \<leftarrow> thread_inherit_fds (kn s3) (t_fdt ct) (t_fdt pa);
                s4 \<leftarrow> upd_thread (all_push (s3\<lparr>kn := k\<rparr>) t) t (\<lambda>th. th\<lparr>t_sp := frame_at stk,
                        t_frame := \<lparr>f_x = (take 31 (f_x fr))[0 := 0], f_elr = f_elr fr,
                                    f_spsr = f_spsr fr, f_sp_el0 = parent_sp_el0\<rparr>\<rparr>);
                s5 \<leftarrow> runq_push_local s4 c t;
                Some (count_thread s5, t) } })"

section \<open>The switch\<close>

text \<open>\<open>YReturn\<close>: \<open>yield\<close> came back to its caller; \<open>YSwitch\<close>: another thread runs now, and the
  caller goes on when it is switched to; \<open>YPanic\<close>: the check of the stack pointer failed.\<close>

datatype yielded = YReturn | YSwitch nat | YPanic

text \<open>The walk that wakes sleepers.\<close>

fun wake_sleepers :: "sched \<Rightarrow> nat \<Rightarrow> nat list \<Rightarrow> sched option" where
  "wake_sleepers s c [] = Some s"
| "wake_sleepers s c (t # ts) =
     (if t = self s c then wake_sleepers s c ts
      else do {
        th \<leftarrow> threads s t;
        s1 \<leftarrow> (if t_state th = THREAD_SLEEPING \<and> clock_ms s \<ge> t_wake_at th then
                  runq_push_to (put_thread s t (th\<lparr>t_state := THREAD_READY\<rparr>)) c t
                else if t_state th = THREAD_BLOCKED \<and> t_wake_at th \<noteq> 0 \<and> clock_ms s \<ge> t_wake_at th then
                  runq_push_to (put_thread s t (th\<lparr>t_blocked_on := 0, t_state := THREAD_READY\<rparr>)) c t
                else Some s);
        wake_sleepers s1 c ts })"

definition sp_valid :: "sched \<Rightarrow> nat \<Rightarrow> nat \<Rightarrow> nat \<Rightarrow> bool" where
  "sp_valid s c t sp =
     ((0x80000000 \<le> sp \<and> sp < 0x90000000) \<or>
      (fst (boot_stack s) \<le> sp \<and> sp < snd (boot_stack s)) \<or>
      (fst (secondary_stacks s) \<le> sp \<and> sp < snd (secondary_stacks s)) \<or>
      (sp = 0 \<and> t = idle (g_cpus s ! c)))"

text \<open>From the choice of \<open>next\<close> on.  \<open>sp\<close> is the stack pointer \<open>cswitch_to\<close> saves.\<close>

definition switch_to :: "sched \<Rightarrow> nat \<Rightarrow> nat \<Rightarrow> nat \<Rightarrow> nat \<Rightarrow> (sched \<times> yielded) option" where
  "switch_to s c prev nxt sp =
     do { p \<leftarrow> threads s prev;
          s1 \<leftarrow> (if t_state p = THREAD_RUNNING \<and> prev \<noteq> idle (g_cpus s ! c)
                 then runq_push_local (put_thread s prev (p\<lparr>t_state := THREAD_READY\<rparr>)) c prev
                 else Some s);
          s2 \<leftarrow> upd_thread s1 nxt (\<lambda>th. th\<lparr>t_state := THREAD_RUNNING\<rparr>);
          if nxt = prev then Some (s2, YReturn)
          else do {
            let s3 = set_self s2 c nxt;
            p1 \<leftarrow> threads s3 prev;
            n1 \<leftarrow> threads s3 nxt;
            let s4 = (if t_as n1 \<noteq> t_as p1 then emit s3 (Activate (t_as n1)) else s3);
            if \<not> sp_valid s4 c nxt (t_sp n1) then Some (s4, YPanic)
            else do { s5 \<leftarrow> upd_thread s4 prev (\<lambda>th. th\<lparr>t_sp := sp\<rparr>); Some (s5, YSwitch nxt) } } }"

definition yield :: "sched \<Rightarrow> nat \<Rightarrow> nat \<Rightarrow> (sched \<times> yielded) option" where
  "yield s c sp =
     do { s1 \<leftarrow> drain_stack_to_free s c;
          s2 \<leftarrow> wake_sleepers s1 c (g_all s1);
          let prev = self s2 c;
          (s3, nxt) \<leftarrow> runq_pop_local s2 c;
          if nxt = 0 then
            let i = idle (g_cpus s3 ! c) in
            if i \<noteq> 0 \<and> prev \<noteq> i then switch_to s3 c prev i sp else Some (s3, YReturn)
          else switch_to s3 c prev nxt sp }"

definition schedule :: "sched \<Rightarrow> nat \<Rightarrow> nat \<Rightarrow> (sched \<times> yielded) option" where
  "schedule s c sp = (if self s c = 0 then Some (s, YReturn) else yield s c sp)"

section \<open>Sleeping and blocking\<close>

text \<open>The loop of \<open>thread_sleep_ms\<close>: \<open>None\<close> once the call is over, and otherwise the result of the
  \<open>yield\<close> after which the loop is entered again.\<close>

definition sleep_step :: "sched \<Rightarrow> nat \<Rightarrow> nat \<Rightarrow> nat \<Rightarrow> (sched \<times> yielded option) option" where
  "sleep_step s c target sp =
     do { th \<leftarrow> threads s (self s c);
          if clock_ms s < target \<and> t_sig_pending th = 0 then do {
            (s1, y) \<leftarrow> yield (put_thread s (self s c)
                         (th\<lparr>t_wake_at := target, t_state := THREAD_SLEEPING\<rparr>)) c sp;
            Some (s1, Some y) }
          else Some (put_thread s (self s c) (th\<lparr>t_state := THREAD_RUNNING\<rparr>), None) }"

definition thread_sleep_ms :: "sched \<Rightarrow> nat \<Rightarrow> nat \<Rightarrow> nat \<Rightarrow> (sched \<times> yielded option) option" where
  "thread_sleep_ms s c ms sp =
     (if self s c = 0 then Some (s, None) else sleep_step s c (add64 (clock_ms s) ms) sp)"

definition thread_block_on :: "sched \<Rightarrow> nat \<Rightarrow> nat \<Rightarrow> nat \<Rightarrow> (sched \<times> yielded) option" where
  "thread_block_on s c token sp =
     (if self s c = 0 then Some (s, YReturn)
      else do { s1 \<leftarrow> upd_thread s (self s c) (\<lambda>th. th\<lparr>t_blocked_on := token, t_state := THREAD_BLOCKED\<rparr>);
                yield s1 c sp })"

text \<open>Up to the \<open>yield\<close>, and what follows it.\<close>

definition thread_block_on_until ::
    "sched \<Rightarrow> nat \<Rightarrow> nat \<Rightarrow> nat \<Rightarrow> nat \<Rightarrow> (sched \<times> yielded) option" where
  "thread_block_on_until s c token deadline sp =
     (if self s c = 0 then Some (s, YReturn)
      else do { s1 \<leftarrow> upd_thread s (self s c) (\<lambda>th. th\<lparr>t_blocked_on := token, t_wake_at := deadline,
                        t_state := THREAD_BLOCKED\<rparr>);
                yield s1 c sp })"

definition block_until_resume :: "sched \<Rightarrow> nat \<Rightarrow> sched option" where
  "block_until_resume s c = upd_thread s (self s c) (\<lambda>th. th\<lparr>t_wake_at := 0\<rparr>)"

text \<open>Under the global lock nothing else runs, so taking and releasing it has no effect on the
  state; what happens between the release and \<open>yield\<close> is up to the other processors.\<close>

definition block_on_held_enter :: "sched \<Rightarrow> nat \<Rightarrow> nat \<Rightarrow> sched option" where
  "block_on_held_enter s c token =
     (if self s c = 0 then Some s
      else upd_thread s (self s c) (\<lambda>th. th\<lparr>t_blocked_on := token, t_state := THREAD_BLOCKED\<rparr>))"

definition thread_block_on_held :: "sched \<Rightarrow> nat \<Rightarrow> nat \<Rightarrow> nat \<Rightarrow> (sched \<times> yielded) option" where
  "thread_block_on_held s c token sp =
     (if self s c = 0 then Some (s, YReturn)
      else do { s1 \<leftarrow> block_on_held_enter s c token; yield s1 c sp })"

fun wake_token :: "sched \<Rightarrow> nat \<Rightarrow> nat \<Rightarrow> nat list \<Rightarrow> sched option" where
  "wake_token s c token [] = Some s"
| "wake_token s c token (t # ts) =
     do { th \<leftarrow> threads s t;
          s1 \<leftarrow> (if t_state th = THREAD_BLOCKED \<and> t_blocked_on th = token then
                    runq_push_to (put_thread s t (th\<lparr>t_blocked_on := 0, t_state := THREAD_READY\<rparr>)) c t
                  else Some s);
          wake_token s1 c token ts }"

definition thread_wake_blocked :: "sched \<Rightarrow> nat \<Rightarrow> nat \<Rightarrow> sched option" where
  "thread_wake_blocked s c token = (if token = 0 then Some s else wake_token s c token (g_all s))"

section \<open>Signals\<close>

definition thread_signal_pid :: "sched \<Rightarrow> nat \<Rightarrow> int \<Rightarrow> int \<Rightarrow> sched option" where
  "thread_signal_pid s c pid sig =
     (if pid \<le> 0 \<or> sig \<le> 0 \<or> sig \<ge> 32 then Some s
      else do {
        r \<leftarrow> thread_lookup s pid;
        case r of
          None \<Rightarrow> Some s
        | Some t \<Rightarrow> do {
            th \<leftarrow> threads s t;
            let th1 = th\<lparr>t_sig_pending := t_sig_pending th OR push_bit (nat sig) 1\<rparr>;
            if t_state th = THREAD_BLOCKED \<or> t_state th = THREAD_SLEEPING then
              runq_push_to (put_thread s t (th1\<lparr>t_blocked_on := 0, t_state := THREAD_READY\<rparr>)) c t
            else Some (put_thread s t th1) } })"

definition thread_get_fg_pid :: "sched \<Rightarrow> int" where "thread_get_fg_pid s = g_fg_pid s"

definition thread_set_fg_pid :: "sched \<Rightarrow> int \<Rightarrow> sched" where
  "thread_set_fg_pid s pid = s\<lparr>g_fg_pid := pid\<rparr>"

text \<open>The wake-ups and signals the pipe code asked for, carried out in their order.\<close>

fun deliver :: "sched \<Rightarrow> nat \<Rightarrow> event list \<Rightarrow> sched option" where
  "deliver s c [] = Some s"
| "deliver s c (Wake p # es) = do { s1 \<leftarrow> thread_wake_blocked s c p; deliver s1 c es }"
| "deliver s c (Signal pid sig # es) =
     do { s1 \<leftarrow> thread_signal_pid s c pid (int sig); deliver s1 c es }"

definition run_kern :: "sched \<Rightarrow> nat \<Rightarrow> (kern \<Rightarrow> kern option) \<Rightarrow> sched option" where
  "run_kern s c f =
     do { k \<leftarrow> f (set_kmem (kn s) ((kmem (kn s))\<lparr>log := []\<rparr>));
          deliver (s\<lparr>kn := set_kmem k ((kmem k)\<lparr>log := []\<rparr>)\<rparr>) c (log (kmem k)) }"

section \<open>Waiting\<close>

text \<open>Whether a child matches, and the first one that has exited.\<close>

fun wait_scan :: "sched \<Rightarrow> int \<Rightarrow> int \<Rightarrow> nat list \<Rightarrow> bool \<Rightarrow> (bool \<times> nat option) option" where
  "wait_scan s my_id target [] found = Some (found, None)"
| "wait_scan s my_id target (t # ts) found =
     do { th \<leftarrow> threads s t;
          if t_parent th \<noteq> my_id \<or> (target > 0 \<and> t_id th \<noteq> target) then wait_scan s my_id target ts found
          else if t_state th = THREAD_EXITED then Some (True, Some t)
          else wait_scan s my_id target ts True }"

text \<open>Freeing what is left of an exited thread.\<close>

definition reap :: "sched \<Rightarrow> nat \<Rightarrow> sched option" where
  "reap s t =
     do { let s1 = emit (all_remove s t) (StraceRelease t);
          th \<leftarrow> threads s1 t;
          s2 \<leftarrow> (if t_stack th \<noteq> 0 then sched_kfree s1 (t_stack th) else Some s1);
          let s3 = (if t_as th \<noteq> 0 then emit s2 (AsDestroy (t_as th)) else s2);
          s4 \<leftarrow> free_thread s3 t;
          Some (s4\<lparr>g_thread_count := g_thread_count s4 - 1\<rparr>) }"

text \<open>\<open>WaitRet\<close>: the result and the exit code; \<open>WaitYield\<close>: the loop is entered again after this
  \<open>yield\<close>.\<close>

datatype waited = WaitRet int "int option" | WaitYield yielded

definition thread_waitpid :: "sched \<Rightarrow> nat \<Rightarrow> int \<Rightarrow> u32 \<Rightarrow> nat \<Rightarrow> (sched \<times> waited) option" where
  "thread_waitpid s c target options sp =
     do { me \<leftarrow> threads s (self s c);
          (has_match, exited) \<leftarrow> wait_scan s (t_id me) target (g_all s) False;
          if \<not> has_match then Some (s, WaitRet (-1) None)
          else case exited of
            Some t \<Rightarrow> do {
              th \<leftarrow> threads s t;
              s1 \<leftarrow> reap s t;
              Some (s1, WaitRet (t_id th) (Some (t_exit_code th))) }
          | None \<Rightarrow>
              if options AND 1 \<noteq> 0 then Some (s, WaitRet 0 None)
              else do {
                s1 \<leftarrow> upd_thread s (self s c) (\<lambda>th. th\<lparr>t_state := THREAD_WAITING\<rparr>);
                (s2, y) \<leftarrow> yield s1 c sp;
                Some (s2, WaitYield y) } }"

definition thread_wait :: "sched \<Rightarrow> nat \<Rightarrow> nat \<Rightarrow> (sched \<times> waited) option" where
  "thread_wait s c sp = thread_waitpid s c (-1) 0 sp"

section \<open>Exit\<close>

text \<open>The walk of \<open>thread_exit\<close> over the children.\<close>

fun exit_children :: "sched \<Rightarrow> int \<Rightarrow> nat list \<Rightarrow> sched option" where
  "exit_children s my_id [] = Some s"
| "exit_children s my_id (t # ts) =
     do { th \<leftarrow> threads s t;
          s1 \<leftarrow> (if t_parent th = my_id then
                    (if t_state th = THREAD_EXITED then reap s t
                     else Some (put_thread s t (th\<lparr>t_parent := -1\<rparr>)))
                  else Some s);
          exit_children s1 my_id ts }"

definition notify_parent :: "sched \<Rightarrow> nat \<Rightarrow> int \<Rightarrow> sched option" where
  "notify_parent s c parent =
     do { s1 \<leftarrow> thread_signal_pid s c parent (int SIGCHLD);
          r \<leftarrow> thread_lookup s1 parent;
          case r of
            None \<Rightarrow> Some s1
          | Some p \<Rightarrow> do {
              th \<leftarrow> threads s1 p;
              if t_state th = THREAD_WAITING
              then runq_push_to (put_thread s1 p (th\<lparr>t_state := THREAD_READY\<rparr>)) c p
              else Some s1 } }"

text \<open>Everything before the last \<open>yield\<close>.\<close>

definition exit_prepare :: "sched \<Rightarrow> nat \<Rightarrow> int \<Rightarrow> sched option" where
  "exit_prepare s c code =
     do { let t = self s c;
          th \<leftarrow> threads s t;
          let s1 = put_thread s t (th\<lparr>t_exit_code := code\<rparr>);
          let s2 = emit (emit (emit s1 (WmDestroyOwner (t_id th))) (WsdRelease (t_id th))) (WinRelease (t_id th));
          s3 \<leftarrow> run_kern s2 c (\<lambda>k. vfs_close_all k (Some (t_fdt th)));
          s4 \<leftarrow> upd_thread s3 t (\<lambda>th. th\<lparr>t_state := THREAD_EXITED\<rparr>);
          s5 \<leftarrow> exit_children s4 (t_id th) (g_all s4);
          let s6 = put_cpu s5 c ((g_cpus s5 ! c)\<lparr>stack_to_free := t\<rparr>);
          th6 \<leftarrow> threads s6 t;
          if t_parent th6 \<ge> 0 then notify_parent s6 c (t_parent th6) else Some (all_remove s6 t) }"

text \<open>The thread halts for good if \<open>yield\<close> returns to it.\<close>

definition thread_exit :: "sched \<Rightarrow> nat \<Rightarrow> int \<Rightarrow> nat \<Rightarrow> (sched \<times> yielded) option" where
  "thread_exit s c code sp = do { s1 \<leftarrow> exit_prepare s c code; yield s1 c sp }"

end
