(* ===== verification/SchedInv.thy ===== *)
theory SchedInv
  imports SchedOps
begin

text \<open>
  The invariant of the scheduler: the run queues are chains through the \<open>next\<close> links in which every
  ready thread stands exactly once, on the processor it belongs to.
\<close>

section \<open>Run queues as lists\<close>

fun chain :: "(nat \<Rightarrow> thread option) \<Rightarrow> nat \<Rightarrow> nat list \<Rightarrow> bool" where
  "chain T h [] = (h = 0)"
| "chain T h (t # ts) =
     (h = t \<and> t \<noteq> 0 \<and> (case T t of None \<Rightarrow> False | Some th \<Rightarrow> chain T (t_next th) ts))"

definition runq :: "sched \<Rightarrow> nat \<Rightarrow> nat list \<Rightarrow> bool" where
  "runq s c xs \<longleftrightarrow> chain (threads s) (runq_head (g_cpus s ! c)) xs \<and>
     runq_tail (g_cpus s ! c) = (if xs = [] then 0 else last xs)"

lemma chain_cong:
  "(\<And>t. t \<in> set xs \<Longrightarrow> map_option t_next (T t) = map_option t_next (T' t)) \<Longrightarrow> chain T h xs = chain T' h xs"
proof (induction xs arbitrary: h)
  case Nil
  then show ?case by simp
next
  case (Cons t ts)
  have "map_option t_next (T t) = map_option t_next (T' t)" using Cons.prems by simp
  then show ?case using Cons by (cases "T t"; cases "T' t") auto
qed

lemma chain_nonzero: "chain T h xs \<Longrightarrow> t \<in> set xs \<Longrightarrow> t \<noteq> 0 \<and> T t \<noteq> None"
  by (induction xs arbitrary: h) (auto split: option.splits)

lemma chain_head: "chain T h xs \<Longrightarrow> h = (if xs = [] then 0 else hd xs)"
  by (cases xs) auto

lemma chain_snoc:
  "chain T h xs \<Longrightarrow> distinct xs \<Longrightarrow> t \<notin> set xs \<Longrightarrow> t \<noteq> 0 \<Longrightarrow> T' t = Some a \<Longrightarrow> t_next a = 0 \<Longrightarrow>
   (\<And>u. u \<in> set (butlast xs) \<Longrightarrow> map_option t_next (T u) = map_option t_next (T' u)) \<Longrightarrow>
   (xs \<noteq> [] \<Longrightarrow> map_option t_next (T' (last xs)) = Some t) \<Longrightarrow>
   chain T' (if xs = [] then t else h) (xs @ [t])"
proof (induction xs arbitrary: h)
  case Nil
  then show ?case by simp
next
  case (Cons u us)
  obtain b where b: "T u = Some b" "chain T (t_next b) us" "h = u" "u \<noteq> 0"
    using Cons.prems(1) by (auto split: option.splits)
  show ?case
  proof (cases "us = []")
    case True
    then have "map_option t_next (T' u) = Some t" using Cons.prems(8) by simp
    then show ?thesis using True b Cons.prems by (auto simp: map_option_eq_Some)
  next
    case False
    have "map_option t_next (T u) = map_option t_next (T' u)" using Cons.prems(7) [of u] False by simp
    then obtain b' where b': "T' u = Some b'" "t_next b' = t_next b" using b by (cases "T' u") auto
    have "chain T' (if us = [] then t else t_next b) (us @ [t])"
      using Cons.IH [OF b(2)] Cons.prems False by simp
    then show ?thesis using False b b' by simp
  qed
qed

section \<open>The invariant\<close>

text \<open>\<open>X\<close>: threads that are ready but not queued yet; \<open>Z\<close>: processors whose thread is exiting.\<close>

definition sched_inv :: "nat set \<Rightarrow> nat set \<Rightarrow> sched \<Rightarrow> (nat \<Rightarrow> nat list) \<Rightarrow> bool" where
  "sched_inv X Z s Q \<longleftrightarrow>
     length (g_cpus s) = SMP_MAX_CPUS \<and>
     (\<forall>c<SMP_MAX_CPUS. runq s c (Q c) \<and> distinct (Q c)) \<and>
     (\<forall>c<SMP_MAX_CPUS. \<forall>t\<in>set (Q c). t \<in> set (g_all s) \<and>
        (\<exists>th. threads s t = Some th \<and> t_state th = THREAD_READY \<and> t_home th = c)) \<and>
     distinct (g_all s) \<and> 0 \<notin> set (g_all s) \<and>
     (\<forall>t\<in>set (g_all s). \<exists>th. threads s t = Some th \<and> t_home th < SMP_MAX_CPUS \<and>
        t_parent th \<noteq> t_id th \<and> (t_state th = THREAD_READY \<longrightarrow> t \<in> X \<or> t \<in> set (Q (t_home th)))) \<and>
     (\<forall>c<SMP_MAX_CPUS. self s c \<noteq> 0 \<longrightarrow> (\<exists>th. threads s (self s c) = Some th \<and> t_home th = c \<and>
        (t_state th = THREAD_RUNNING \<longrightarrow> self s c \<in> set (g_all s) \<or> self s c = idle (g_cpus s ! c)) \<and>
        (t_state th = THREAD_EXITED \<longrightarrow> c \<in> Z))) \<and>
     (\<forall>c<SMP_MAX_CPUS. idle (g_cpus s ! c) \<noteq> 0 \<longrightarrow> idle (g_cpus s ! c) \<notin> set (g_all s) \<and>
        (\<exists>th. threads s (idle (g_cpus s ! c)) = Some th \<and> t_home th = c \<and> t_state th = THREAD_RUNNING)) \<and>
     (\<forall>t th. threads s t = Some th \<longrightarrow> 0 \<le> t_id th \<and> t_id th < int (unat (g_next_id s)))"

text \<open>What the outside of the scheduler may change.\<close>

lemma runq_cong:
  "threads s' = threads s \<Longrightarrow> g_cpus s' = g_cpus s \<Longrightarrow> runq s' c xs = runq s c xs"
  by (simp add: runq_def)

lemma inv_cong:
  "threads s' = threads s \<Longrightarrow> g_cpus s' = g_cpus s \<Longrightarrow> g_all s' = g_all s \<Longrightarrow> g_next_id s' = g_next_id s \<Longrightarrow>
   sched_inv X Z s' Q = sched_inv X Z s Q"
  by (simp add: sched_inv_def self_def runq_cong [of s' s])

lemma self_put [simp]: "self (put_thread s t th) c = self s c"
  by (simp add: self_def put_thread_def)

lemma put_frame [simp]:
  "g_cpus (put_thread s t th) = g_cpus s" "g_all (put_thread s t th) = g_all s"
  "g_next_id (put_thread s t th) = g_next_id s" "threads (put_thread s t th) = (threads s)(t := Some th)"
  "clock_ms (put_thread s t th) = clock_ms s" "kn (put_thread s t th) = kn s"
  by (simp_all add: put_thread_def)

lemma inv_cpus: "sched_inv X Z s Q \<Longrightarrow> length (g_cpus s) = 4"
  by (simp add: sched_inv_def)

lemma inv_queue: "sched_inv X Z s Q \<Longrightarrow> c < 4 \<Longrightarrow> runq s c (Q c) \<and> distinct (Q c)"
  by (simp add: sched_inv_def)

lemma inv_queued:
  assumes "sched_inv X Z s Q" "c < 4" "t \<in> set (Q c)"
  obtains th where "threads s t = Some th" "t_state th = THREAD_READY" "t_home th = c" "t \<in> set (g_all s)" "t \<noteq> 0"
proof -
  have a: "t \<in> set (g_all s)" "\<exists>th. threads s t = Some th \<and> t_state th = THREAD_READY \<and> t_home th = c"
    using assms by (simp_all add: sched_inv_def)
  moreover have "t \<noteq> 0" using a(1) assms(1) unfolding sched_inv_def by metis
  ultimately show thesis using that by blast
qed

lemma inv_all:
  assumes "sched_inv X Z s Q" "t \<in> set (g_all s)"
  obtains th where "threads s t = Some th" "t_home th < 4" "t_parent th \<noteq> t_id th"
    "t_state th = THREAD_READY \<Longrightarrow> t \<in> X \<or> t \<in> set (Q (t_home th))" "t \<noteq> 0"
proof -
  have a: "\<exists>th. threads s t = Some th \<and> t_home th < 4 \<and>
        t_parent th \<noteq> t_id th \<and> (t_state th = THREAD_READY \<longrightarrow> t \<in> X \<or> t \<in> set (Q (t_home th)))"
    using assms by (simp add: sched_inv_def)
  moreover have "t \<noteq> 0" using assms unfolding sched_inv_def by metis
  ultimately show thesis using that by blast
qed

lemma inv_current:
  assumes "sched_inv X Z s Q" "c < 4" "self s c \<noteq> 0"
  obtains th where "threads s (self s c) = Some th" "t_home th = c"
    "t_state th = THREAD_RUNNING \<Longrightarrow> self s c \<in> set (g_all s) \<or> self s c = idle (g_cpus s ! c)"
    "t_state th = THREAD_EXITED \<Longrightarrow> c \<in> Z"
proof -
  have "\<exists>th. threads s (self s c) = Some th \<and> t_home th = c \<and>
        (t_state th = THREAD_RUNNING \<longrightarrow> self s c \<in> set (g_all s) \<or> self s c = idle (g_cpus s ! c)) \<and>
        (t_state th = THREAD_EXITED \<longrightarrow> c \<in> Z)"
    using assms by (simp add: sched_inv_def)
  then show thesis using that by blast
qed

lemma inv_idle:
  assumes "sched_inv X Z s Q" "c < 4" "idle (g_cpus s ! c) \<noteq> 0"
  obtains th where "threads s (idle (g_cpus s ! c)) = Some th" "t_home th = c" "t_state th = THREAD_RUNNING"
    "idle (g_cpus s ! c) \<notin> set (g_all s)"
  using assms by (auto simp: sched_inv_def)

lemma inv_not_queued:
  "sched_inv X Z s Q \<Longrightarrow> threads s t = Some th \<Longrightarrow> t_state th \<noteq> THREAD_READY \<Longrightarrow> c < 4 \<Longrightarrow> t \<notin> set (Q c)"
  by (metis inv_queued option.inject)

lemma inv_mono: "sched_inv X Z s Q \<Longrightarrow> X \<subseteq> X' \<Longrightarrow> Z \<subseteq> Z' \<Longrightarrow> sched_inv X' Z' s Q"
  unfolding sched_inv_def by blast

text \<open>Changing the fields of one thread.\<close>

lemma inv_put:
  assumes inv: "sched_inv X Z s Q" and th: "threads s t = Some th"
    and keep: "t_next th' = t_next th" "t_home th' = t_home th" "t_id th' = t_id th"
      "t_parent th' = t_parent th \<or> t_parent th' \<noteq> t_id th'"
    and ready: "t_state th' = THREAD_READY \<Longrightarrow> t_state th = THREAD_READY \<or> t \<in> X"
    and unready: "t_state th = THREAD_READY \<Longrightarrow> t_state th' = THREAD_READY \<or> (\<forall>c<4. t \<notin> set (Q c))"
    and running: "t_state th' = THREAD_RUNNING \<Longrightarrow> t_state th = THREAD_RUNNING \<or> t \<in> set (g_all s)"
    and idles: "t_state th' \<noteq> THREAD_RUNNING \<Longrightarrow> \<forall>c<4. t \<noteq> idle (g_cpus s ! c) \<or> t = 0"
    and exited: "t_state th' = THREAD_EXITED \<Longrightarrow> t_state th = THREAD_EXITED \<or> (\<forall>c<4. c \<in> Z \<or> self s c \<noteq> t)"
  shows "sched_inv X Z (put_thread s t th') Q"
proof -
  let ?s = "put_thread s t th'"
  have q: "runq ?s c (Q c) \<and> distinct (Q c)" if "c < 4" for c
  proof -
    have "chain (threads ?s) h xs = chain (threads s) h xs" for h xs
      by (rule chain_cong) (use th keep in auto)
    then show ?thesis using inv_queue [OF inv that] by (simp add: runq_def)
  qed
  have queued: "u \<in> set (g_all s) \<and> (\<exists>uh. threads ?s u = Some uh \<and> t_state uh = THREAD_READY \<and> t_home uh = c)"
    if c: "c < 4" "u \<in> set (Q c)" for c u
  proof (cases "u = t")
    case True
    obtain uh where "threads s u = Some uh" "t_state uh = THREAD_READY" "t_home uh = c" "u \<in> set (g_all s)"
      by (rule inv_queued [OF inv c])
    then show ?thesis using True th keep unready c by auto
  next
    case False
    then show ?thesis using inv_queued [OF inv c] by (metis fun_upd_apply put_frame(4))
  qed
  have all: "\<exists>uh. threads ?s u = Some uh \<and> t_home uh < 4 \<and>
        t_parent uh \<noteq> t_id uh \<and> (t_state uh = THREAD_READY \<longrightarrow> u \<in> X \<or> u \<in> set (Q (t_home uh)))"
    if u: "u \<in> set (g_all s)" for u
  proof -
    obtain uh where uh: "threads s u = Some uh" "t_home uh < 4" "t_parent uh \<noteq> t_id uh"
      "t_state uh = THREAD_READY \<Longrightarrow> u \<in> X \<or> u \<in> set (Q (t_home uh))"
      by (rule inv_all [OF inv u]) blast
    then show ?thesis using th keep ready by (cases "u = t") auto
  qed
  have cur: "\<exists>uh. threads ?s (self s c) = Some uh \<and> t_home uh = c \<and>
        (t_state uh = THREAD_RUNNING \<longrightarrow> self s c \<in> set (g_all s) \<or> self s c = idle (g_cpus s ! c)) \<and>
        (t_state uh = THREAD_EXITED \<longrightarrow> c \<in> Z)"
    if c: "c < 4" "self s c \<noteq> 0" for c
  proof -
    obtain uh where uh: "threads s (self s c) = Some uh" "t_home uh = c"
      "t_state uh = THREAD_RUNNING \<Longrightarrow> self s c \<in> set (g_all s) \<or> self s c = idle (g_cpus s ! c)"
      "t_state uh = THREAD_EXITED \<Longrightarrow> c \<in> Z"
      by (rule inv_current [OF inv c]) blast
    show ?thesis
    proof (cases "self s c = t")
      case False
      then show ?thesis using uh by simp
    next
      case True
      then have "uh = th" using uh(1) th by simp
      then show ?thesis using True uh(2-4) keep running exited c by auto
    qed
  qed
  have idl: "idle (g_cpus s ! c) \<notin> set (g_all s) \<and> (\<exists>uh. threads ?s (idle (g_cpus s ! c)) = Some uh \<and>
      t_home uh = c \<and> t_state uh = THREAD_RUNNING)" if c: "c < 4" "idle (g_cpus s ! c) \<noteq> 0" for c
  proof -
    obtain ih where "threads s (idle (g_cpus s ! c)) = Some ih" "t_home ih = c" "t_state ih = THREAD_RUNNING"
      "idle (g_cpus s ! c) \<notin> set (g_all s)"
      by (rule inv_idle [OF inv c])
    then show ?thesis using idles c th keep by (cases "idle (g_cpus s ! c) = t") auto
  qed
  have ids: "\<forall>u uh. threads ?s u = Some uh \<longrightarrow> 0 \<le> t_id uh \<and> t_id uh < int (unat (g_next_id s))"
    using inv th keep unfolding sched_inv_def by (metis fun_upd_apply option.inject put_frame(4))
  show ?thesis
    unfolding sched_inv_def self_put put_frame(1-3)
  proof (intro conjI)
    show "length (g_cpus s) = 4" "distinct (g_all s)" "0 \<notin> set (g_all s)"
      using inv by (simp_all add: sched_inv_def)
  qed (use q queued all cur idl ids in blast)+
qed

lemma inv_put_same:
  assumes "sched_inv X Z s Q" "threads s t = Some th" "t_next th' = t_next th" "t_home th' = t_home th"
    "t_id th' = t_id th" "t_parent th' = t_parent th" "t_state th' = t_state th"
  shows "sched_inv X Z (put_thread s t th') Q"
proof (rule inv_put [OF assms(1,2)])
  show "\<forall>c<4. t \<noteq> idle (g_cpus s ! c) \<or> t = 0" if "t_state th' \<noteq> THREAD_RUNNING"
    using inv_idle [OF assms(1)] assms(2,7) that by (metis option.inject)
qed (use assms in auto)

text \<open>What a wake-up may change: sleepers of \<open>W\<close> become ready, at the end of their queues.\<close>

definition core :: "thread \<Rightarrow> thread" where
  "core th = th\<lparr>t_next := 0, t_state := THREAD_READY, t_blocked_on := 0, t_sig_pending := 0\<rparr>"

definition asleep :: "tstate \<Rightarrow> bool" where
  "asleep st \<longleftrightarrow> st = THREAD_SLEEPING \<or> st = THREAD_BLOCKED \<or> st = THREAD_WAITING"

definition advances :: "nat set \<Rightarrow> sched \<Rightarrow> (nat \<Rightarrow> nat list) \<Rightarrow> sched \<Rightarrow> (nat \<Rightarrow> nat list) \<Rightarrow> bool" where
  "advances W s Q s' Q' \<longleftrightarrow>
     g_all s' = g_all s \<and> g_next_id s' = g_next_id s \<and> clock_ms s' = clock_ms s \<and> kn s' = kn s \<and>
     (\<forall>d. current (g_cpus s' ! d) = current (g_cpus s ! d) \<and> idle (g_cpus s' ! d) = idle (g_cpus s ! d) \<and>
        stack_to_free (g_cpus s' ! d) = stack_to_free (g_cpus s ! d)) \<and>
     (\<forall>d. \<exists>ys. Q' d = Q d @ ys) \<and>
     (\<forall>u. map_option core (threads s' u) = map_option core (threads s u)) \<and>
     (\<forall>u th th'. threads s u = Some th \<and> threads s' u = Some th' \<and> t_state th' \<noteq> t_state th \<longrightarrow>
        u \<in> W \<and> asleep (t_state th) \<and> t_state th' = THREAD_READY)"

lemma advances_refl [simp]: "advances W s Q s Q"
  by (auto simp: advances_def)

lemma advances_trans:
  assumes "advances W s Q s1 Q1" "advances W s1 Q1 s2 Q2"
  shows "advances W s Q s2 Q2"
  unfolding advances_def
proof (intro conjI)
  show "\<forall>d. \<exists>ys. Q2 d = Q d @ ys"
    using assms unfolding advances_def by (metis append.assoc)
  show "\<forall>u th th'. threads s u = Some th \<and> threads s2 u = Some th' \<and> t_state th' \<noteq> t_state th \<longrightarrow>
        u \<in> W \<and> asleep (t_state th) \<and> t_state th' = THREAD_READY"
  proof (intro allI impI)
    fix u th th' assume a: "threads s u = Some th \<and> threads s2 u = Some th' \<and> t_state th' \<noteq> t_state th"
    have "map_option core (threads s1 u) = map_option core (threads s u)"
      using assms(1) unfolding advances_def by blast
    then obtain th1 where th1: "threads s1 u = Some th1" using a by (cases "threads s1 u") auto
    have x: "t_state th1 \<noteq> t_state th \<Longrightarrow> u \<in> W \<and> asleep (t_state th) \<and> t_state th1 = THREAD_READY"
      using assms(1) a th1 unfolding advances_def by blast
    have y: "t_state th' \<noteq> t_state th1 \<Longrightarrow> u \<in> W \<and> asleep (t_state th1) \<and> t_state th' = THREAD_READY"
      using assms(2) a th1 unfolding advances_def by blast
    show "u \<in> W \<and> asleep (t_state th) \<and> t_state th' = THREAD_READY"
      using x y a by (cases "t_state th1 = t_state th") (auto simp: asleep_def)
  qed
qed (use assms in \<open>simp_all add: advances_def\<close>)

lemma advances_mono: "advances W s Q s' Q' \<Longrightarrow> W \<subseteq> W' \<Longrightarrow> advances W' s Q s' Q'"
  unfolding advances_def by blast

text \<open>The queue operations.\<close>

lemma upd_thread_eq: "threads s t = Some th \<Longrightarrow> upd_thread s t f = Some (put_thread s t (f th))"
  by (simp add: upd_thread_def)

lemma cpu_frame [simp]:
  "threads (put_cpu s c v) = threads s" "g_all (put_cpu s c v) = g_all s"
  "g_next_id (put_cpu s c v) = g_next_id s" "g_cpus (put_cpu s c v) = (g_cpus s)[c := v]"
  "clock_ms (put_cpu s c v) = clock_ms s" "kn (put_cpu s c v) = kn s"
  by (simp_all add: put_cpu_def)

lemma runq_push_on_eq:
  assumes "sched_inv X Z s Q" "c < 4" "threads s t = Some th" "t \<noteq> 0" "t \<notin> set (Q c)"
  obtains s' where "runq_push_on s c t = Some s'" "g_all s' = g_all s" "g_next_id s' = g_next_id s"
    "g_cpus s' = (g_cpus s)[c := (g_cpus s ! c)\<lparr>runq_head := (if Q c = [] then t else runq_head (g_cpus s ! c)),
       runq_tail := t\<rparr>]"
    "\<forall>u. threads s' u = (if u = t then Some (th\<lparr>t_next := 0\<rparr>)
       else if Q c \<noteq> [] \<and> u = last (Q c) then map_option (\<lambda>v. v\<lparr>t_next := t\<rparr>) (threads s u) else threads s u)"
    "clock_ms s' = clock_ms s" "kn s' = kn s"
proof -
  let ?q = "g_cpus s ! c"
  let ?s1 = "put_thread s t (th\<lparr>t_next := 0\<rparr>)"
  have rq: "runq s c (Q c)" using inv_queue [OF assms(1,2)] by simp
  show thesis
  proof (cases "Q c = []")
    case True
    then have h: "runq_tail ?q = 0" "runq_head ?q = 0" using rq by (simp_all add: runq_def)
    have "runq_push_on s c t = Some (put_cpu ?s1 c (?q\<lparr>runq_head := t, runq_tail := t\<rparr>))"
      using h assms(3) by (simp add: runq_push_on_def upd_thread_eq Let_def)
    then show thesis by (rule that) (use True in auto)
  next
    case False
    then have tl: "runq_tail ?q = last (Q c)" using rq by (simp add: runq_def)
    obtain lh where lh: "threads s (last (Q c)) = Some lh" "last (Q c) \<noteq> 0"
      using inv_queued [OF assms(1,2) last_in_set [OF False]] by metis
    have ne: "last (Q c) \<noteq> t" using assms(5) last_in_set [OF False] by auto
    have "runq_push_on s c t =
        Some (put_cpu (put_thread ?s1 (last (Q c)) (lh\<lparr>t_next := t\<rparr>)) c (?q\<lparr>runq_tail := t\<rparr>))"
      using lh tl ne assms(3) by (simp add: runq_push_on_def upd_thread_eq Let_def)
    then show thesis by (rule that) (use False lh ne in auto)
  qed
qed

lemma inv_push:
  assumes inv: "sched_inv X Z s Q" and c: "c < 4" and th: "threads s t = Some th"
    and t: "t_state th = THREAD_READY" "t_home th = c" "t \<in> set (g_all s)" "t \<notin> set (Q c)"
  obtains s' where "runq_push_on s c t = Some s'" "sched_inv (X - {t}) Z s' (Q(c := Q c @ [t]))"
    "advances {} s Q s' (Q(c := Q c @ [t]))"
proof -
  have t0: "t \<noteq> 0" using inv t(3) unfolding sched_inv_def by metis
  have len: "length (g_cpus s) = 4" by (rule inv_cpus [OF inv])
  obtain s' where s': "runq_push_on s c t = Some s'" "g_all s' = g_all s" "g_next_id s' = g_next_id s"
    "g_cpus s' = (g_cpus s)[c := (g_cpus s ! c)\<lparr>runq_head := (if Q c = [] then t else runq_head (g_cpus s ! c)),
       runq_tail := t\<rparr>]"
    "\<forall>u. threads s' u = (if u = t then Some (th\<lparr>t_next := 0\<rparr>)
       else if Q c \<noteq> [] \<and> u = last (Q c) then map_option (\<lambda>v. v\<lparr>t_next := t\<rparr>) (threads s u) else threads s u)"
    "clock_ms s' = clock_ms s" "kn s' = kn s"
    by (rule runq_push_on_eq [OF inv c th t0 t(4)])
  have adv: "advances {} s Q s' (Q(c := Q c @ [t]))"
    unfolding advances_def
  proof (intro conjI allI)
    fix u
    show "map_option core (threads s' u) = map_option core (threads s u)"
      using s'(5) [rule_format, of u] th by (cases "threads s u") (auto simp: core_def)
  next
    fix u uh uh'
    show "threads s u = Some uh \<and> threads s' u = Some uh' \<and> t_state uh' \<noteq> t_state uh \<longrightarrow>
        u \<in> {} \<and> asleep (t_state uh) \<and> t_state uh' = THREAD_READY"
      using s'(5) [rule_format, of u] th by (auto split: if_splits)
  next
    fix d
    show "current (g_cpus s' ! d) = current (g_cpus s ! d)" "idle (g_cpus s' ! d) = idle (g_cpus s ! d)"
        "stack_to_free (g_cpus s' ! d) = stack_to_free (g_cpus s ! d)"
      using s'(4) len c by (cases "d = c"; simp)+
  qed (use s' in auto)
  have bk: "\<exists>uh'. threads s' u = Some uh' \<and> t_state uh' = t_state uh \<and> t_home uh' = t_home uh \<and>
      t_id uh' = t_id uh \<and> t_parent uh' = t_parent uh" if "threads s u = Some uh" for u uh
    using s'(5) [rule_format, of u] th that by auto
  have slf: "self s' d = self s d" "idle (g_cpus s' ! d) = idle (g_cpus s ! d)" for d
    using s'(4) len c by (cases "d = c"; simp add: self_def)+
  have nx: "map_option t_next (threads s u) = map_option t_next (threads s' u)"
    if "u \<noteq> t" "Q c \<noteq> [] \<Longrightarrow> u \<noteq> last (Q c)" for u
    using s'(5) [rule_format, of u] that by auto
  have rq: "runq s' d ((Q(c := Q c @ [t])) d) \<and> distinct ((Q(c := Q c @ [t])) d)" if d: "d < 4" for d
  proof (cases "d = c")
    case False
    have "t \<notin> set (Q d)" using inv_queued [OF inv d] t(2) th False by (metis option.inject)
    moreover have "u \<in> set (Q d) \<Longrightarrow> Q c \<noteq> [] \<Longrightarrow> u \<noteq> last (Q c)" for u
      using inv_queued [OF inv d, of u] inv_queued [OF inv c, of u] False by (metis last_in_set option.inject)
    ultimately have "chain (threads s) h (Q d) = chain (threads s') h (Q d)" for h
      by (intro chain_cong nx) auto
    then show ?thesis using inv_queue [OF inv d] False s'(4) by (simp add: runq_def)
  next
    case True
    have ch: "chain (threads s) (runq_head (g_cpus s ! c)) (Q c)" and dis: "distinct (Q c)"
      using inv_queue [OF inv c] by (simp_all add: runq_def)
    have "chain (threads s') (if Q c = [] then t else runq_head (g_cpus s ! c)) (Q c @ [t])"
    proof (rule chain_snoc [OF ch dis t(4) t0])
      show "threads s' t = Some (th\<lparr>t_next := 0\<rparr>)" using s'(5) by simp
      show "t_next (th\<lparr>t_next := 0\<rparr>) = 0" by simp
      show "map_option t_next (threads s u) = map_option t_next (threads s' u)" if u: "u \<in> set (butlast (Q c))" for u
      proof (rule nx)
        show "u \<noteq> t" using u t(4) by (meson in_set_butlastD)
        show "u \<noteq> last (Q c)" if "Q c \<noteq> []"
          using u dis that by (metis append_butlast_last_id distinct_append disjoint_iff list.set_intros(1))
      qed
      show "map_option t_next (threads s' (last (Q c))) = Some t" if ne: "Q c \<noteq> []"
      proof -
        have "last (Q c) \<noteq> t" using t(4) ne last_in_set by metis
        moreover obtain lh where "threads s (last (Q c)) = Some lh"
          using inv_queued [OF inv c last_in_set [OF ne]] by metis
        ultimately show ?thesis using s'(5) [rule_format, of "last (Q c)"] ne by simp
      qed
    qed
    then show ?thesis using True dis t(4) s'(4) len c by (simp add: runq_def)
  qed
  have "sched_inv (X - {t}) Z s' (Q(c := Q c @ [t]))"
    unfolding sched_inv_def
  proof (intro conjI)
    show "length (g_cpus s') = 4" using s'(4) len by simp
    show "\<forall>d<4. runq s' d ((Q(c := Q c @ [t])) d) \<and> distinct ((Q(c := Q c @ [t])) d)" using rq by blast
    show "\<forall>d<4. \<forall>u\<in>set ((Q(c := Q c @ [t])) d). u \<in> set (g_all s') \<and>
        (\<exists>th. threads s' u = Some th \<and> t_state th = THREAD_READY \<and> t_home th = d)"
    proof (intro allI impI ballI)
      fix d u assume d: "d < 4" "u \<in> set ((Q(c := Q c @ [t])) d)"
      show "u \<in> set (g_all s') \<and> (\<exists>th. threads s' u = Some th \<and> t_state th = THREAD_READY \<and> t_home th = d)"
      proof (cases "u = t \<and> d = c")
        case True
        then show ?thesis using s'(2,5) t by simp
      next
        case False
        then have u: "u \<in> set (Q d)" using d(2) by (auto split: if_splits)
        obtain uh where "threads s u = Some uh" "t_state uh = THREAD_READY" "t_home uh = d" "u \<in> set (g_all s)"
          by (rule inv_queued [OF inv d(1) u])
        then show ?thesis using bk [of u uh] s'(2) by auto
      qed
    qed
    show "distinct (g_all s')" "0 \<notin> set (g_all s')" using inv s'(2) by (simp_all add: sched_inv_def)
    show "\<forall>u\<in>set (g_all s'). \<exists>uh. threads s' u = Some uh \<and> t_home uh < 4 \<and> t_parent uh \<noteq> t_id uh \<and>
        (t_state uh = THREAD_READY \<longrightarrow> u \<in> X - {t} \<or> u \<in> set ((Q(c := Q c @ [t])) (t_home uh)))"
    proof
      fix u assume "u \<in> set (g_all s')"
      then have u: "u \<in> set (g_all s)" using s'(2) by simp
      obtain uh where uh: "threads s u = Some uh" "t_home uh < 4" "t_parent uh \<noteq> t_id uh"
        "t_state uh = THREAD_READY \<Longrightarrow> u \<in> X \<or> u \<in> set (Q (t_home uh))"
        by (rule inv_all [OF inv u]) blast
      obtain uh' where uh': "threads s' u = Some uh'" "t_state uh' = t_state uh" "t_home uh' = t_home uh"
        "t_id uh' = t_id uh" "t_parent uh' = t_parent uh"
        using bk [OF uh(1)] by blast
      show "\<exists>uh. threads s' u = Some uh \<and> t_home uh < 4 \<and> t_parent uh \<noteq> t_id uh \<and>
        (t_state uh = THREAD_READY \<longrightarrow> u \<in> X - {t} \<or> u \<in> set ((Q(c := Q c @ [t])) (t_home uh)))"
        using uh uh' th t(2) by (intro exI [of _ uh']) (cases "u = t"; auto)
    qed
    show "\<forall>d<4. self s' d \<noteq> 0 \<longrightarrow> (\<exists>uh. threads s' (self s' d) = Some uh \<and> t_home uh = d \<and>
        (t_state uh = THREAD_RUNNING \<longrightarrow> self s' d \<in> set (g_all s') \<or> self s' d = idle (g_cpus s' ! d)) \<and>
        (t_state uh = THREAD_EXITED \<longrightarrow> d \<in> Z))"
    proof (intro allI impI)
      fix d assume d: "d < 4" "self s' d \<noteq> 0"
      then have d': "self s d \<noteq> 0" by (simp add: slf)
      obtain uh where uh: "threads s (self s d) = Some uh" "t_home uh = d"
        "t_state uh = THREAD_RUNNING \<Longrightarrow> self s d \<in> set (g_all s) \<or> self s d = idle (g_cpus s ! d)"
        "t_state uh = THREAD_EXITED \<Longrightarrow> d \<in> Z"
        by (rule inv_current [OF inv d(1) d']) blast
      then show "\<exists>uh. threads s' (self s' d) = Some uh \<and> t_home uh = d \<and>
        (t_state uh = THREAD_RUNNING \<longrightarrow> self s' d \<in> set (g_all s') \<or> self s' d = idle (g_cpus s' ! d)) \<and>
        (t_state uh = THREAD_EXITED \<longrightarrow> d \<in> Z)"
        using bk [OF uh(1)] s'(2) by (auto simp: slf)
    qed
    show "\<forall>d<4. idle (g_cpus s' ! d) \<noteq> 0 \<longrightarrow> idle (g_cpus s' ! d) \<notin> set (g_all s') \<and>
        (\<exists>uh. threads s' (idle (g_cpus s' ! d)) = Some uh \<and> t_home uh = d \<and> t_state uh = THREAD_RUNNING)"
    proof (intro allI impI)
      fix d assume d: "d < 4" "idle (g_cpus s' ! d) \<noteq> 0"
      then have d': "idle (g_cpus s ! d) \<noteq> 0" by (simp add: slf)
      obtain ih where ih: "threads s (idle (g_cpus s ! d)) = Some ih" "t_home ih = d" "t_state ih = THREAD_RUNNING"
        "idle (g_cpus s ! d) \<notin> set (g_all s)"
        by (rule inv_idle [OF inv d(1) d'])
      then show "idle (g_cpus s' ! d) \<notin> set (g_all s') \<and>
        (\<exists>uh. threads s' (idle (g_cpus s' ! d)) = Some uh \<and> t_home uh = d \<and> t_state uh = THREAD_RUNNING)"
        using bk [OF ih(1)] s'(2) by (auto simp: slf)
    qed
    show "\<forall>u uh. threads s' u = Some uh \<longrightarrow> 0 \<le> t_id uh \<and> t_id uh < int (unat (g_next_id s'))"
    proof (intro allI impI)
      fix u uh assume u: "threads s' u = Some uh"
      then obtain vh where v: "threads s u = Some vh" "t_id vh = t_id uh"
        using s'(5) [rule_format, of u] th by (auto split: if_splits)
      then show "0 \<le> t_id uh \<and> t_id uh < int (unat (g_next_id s'))" using inv s'(3) unfolding sched_inv_def by metis
    qed
  qed
  then show thesis using that s'(1) adv by blast
qed

lemma emit_frame [simp]:
  "threads (emit s e) = threads s" "g_all (emit s e) = g_all s" "g_cpus (emit s e) = g_cpus s"
  "g_next_id (emit s e) = g_next_id s" "clock_ms (emit s e) = clock_ms s" "kn (emit s e) = kn s"
  "self (emit s e) c = self s c"
  by (simp_all add: emit_def self_def)

lemma inv_emit [simp]: "sched_inv X Z (emit s e) Q = sched_inv X Z s Q"
  by (rule inv_cong) simp_all

lemma advances_emit [simp]: "advances W s Q (emit s' e) Q' = advances W s Q s' Q'"
  by (simp add: advances_def)

lemma inv_idle_not_all: "sched_inv X Z s Q \<Longrightarrow> t \<in> set (g_all s) \<Longrightarrow> c < 4 \<Longrightarrow> t \<noteq> idle (g_cpus s ! c) \<or> t = 0"
  by (metis inv_idle)

text \<open>Waking one thread.\<close>

lemma inv_wake:
  assumes inv: "sched_inv X Z s Q" and th: "threads s t = Some th" "t \<in> set (g_all s)"
    and st: "asleep (t_state th)" and th': "t_state th' = THREAD_READY" "core th' = core th" "t_next th' = t_next th"
  obtains s' where "runq_push_to (put_thread s t th') c t = Some s'"
    "sched_inv X Z s' (Q(t_home th := Q (t_home th) @ [t]))"
    "advances {t} s Q s' (Q(t_home th := Q (t_home th) @ [t]))"
proof -
  have keep: "t_home th' = t_home th" "t_id th' = t_id th" "t_parent th' = t_parent th"
    using th'(2) unfolding core_def by (cases th; cases th'; simp)+
  obtain hm: "t_home th < 4" and t0: "t \<noteq> 0"
    using inv_all [OF inv th(2)] th(1) by (metis option.inject)
  have nr: "t_state th \<noteq> THREAD_READY" "t_state th \<noteq> THREAD_RUNNING" using st by (auto simp: asleep_def)
  have nq: "d < 4 \<Longrightarrow> t \<notin> set (Q d)" for d using inv_not_queued [OF inv th(1) nr(1)] .
  let ?s1 = "put_thread s t th'"
  have inv1: "sched_inv (insert t X) Z ?s1 Q"
    by (rule inv_put [OF inv_mono [OF inv] th(1)])
      (use th' keep nr inv_idle_not_all [OF inv th(2)] in auto)
  have "threads ?s1 t = Some th'" "t \<in> set (g_all ?s1)" using th(2) by simp_all
  then obtain s' where s': "runq_push_on ?s1 (t_home th) t = Some s'"
    "sched_inv (insert t X - {t}) Z s' (Q(t_home th := Q (t_home th) @ [t]))"
    "advances {t} ?s1 Q s' (Q(t_home th := Q (t_home th) @ [t]))"
    by (rule inv_push [OF inv1 hm _ th'(1) keep(1) _ nq [OF hm]]) (blast intro: advances_mono)
  have inv2: "sched_inv X Z s' (Q(t_home th := Q (t_home th) @ [t]))"
    by (rule inv_mono [OF s'(2)]) auto
  have "advances {t} s Q ?s1 Q"
    using th th' nr st by (auto simp: advances_def)
  then have adv: "advances {t} s Q s' (Q(t_home th := Q (t_home th) @ [t]))"
    using s'(3) by (rule advances_trans)
  have "runq_push_to ?s1 c t = Some (if t_home th = c then s' else emit s' (Ipi (t_home th)))"
    using s'(1) keep hm by (auto simp: runq_push_to_def runq_push_local_def runq_push_remote_def)
  then show thesis by (rule that) (use inv2 adv in auto)
qed

lemma advances_get:
  assumes "advances W s Q s' Q'" "threads s u = Some th"
  obtains th' where "threads s' u = Some th'" "core th' = core th"
    "t_state th' = t_state th \<or> u \<in> W \<and> asleep (t_state th) \<and> t_state th' = THREAD_READY"
proof -
  have "map_option core (threads s' u) = map_option core (threads s u)"
    using assms(1) unfolding advances_def by blast
  then obtain th' where th': "threads s' u = Some th'" "core th' = core th"
    using assms(2) by (cases "threads s' u") auto
  then show thesis using that assms unfolding advances_def by blast
qed

lemma advances_frame:
  assumes "advances W s Q s' Q'"
  shows "g_all s' = g_all s" "clock_ms s' = clock_ms s" "kn s' = kn s" "self s' c = self s c"
    "idle (g_cpus s' ! c) = idle (g_cpus s ! c)" "stack_to_free (g_cpus s' ! c) = stack_to_free (g_cpus s ! c)"
    "g_next_id s' = g_next_id s"
  using assms by (simp_all add: advances_def self_def)

lemma core_wake [simp]:
  "core (th\<lparr>t_state := st\<rparr>) = core th" "core (th\<lparr>t_blocked_on := b\<rparr>) = core th"
  "core (th\<lparr>t_sig_pending := p\<rparr>) = core th" "core (th\<lparr>t_next := n\<rparr>) = core th"
  by (simp_all add: core_def)


text \<open>The walks over the list of all threads.\<close>

lemma wake_step:
  assumes inv: "sched_inv X Z s Q" and t: "t \<in> set (g_all s)" "threads s t = Some th"
    and f: "P \<Longrightarrow> asleep (t_state th) \<and> t_state (f th) = THREAD_READY \<and> core (f th) = core th \<and> t_next (f th) = t_next th"
  obtains s1 Q1 where "(if P then runq_push_to (put_thread s t (f th)) c t else Some s) = Some s1"
    "sched_inv X Z s1 Q1" "advances {t} s Q s1 Q1"
proof (cases P)
  case True
  obtain s1 where "runq_push_to (put_thread s t (f th)) c t = Some s1"
    "sched_inv X Z s1 (Q(t_home th := Q (t_home th) @ [t]))"
    "advances {t} s Q s1 (Q(t_home th := Q (t_home th) @ [t]))"
    by (rule inv_wake [OF inv t(2,1), of "f th" c]) (use f [OF True] in auto)
  then show ?thesis using True that by simp
next
  case False
  then show ?thesis using that [of s Q] inv advances_refl by simp
qed

lemma wake_sleepers_inv:
  "sched_inv X Z s Q \<Longrightarrow> set ts \<subseteq> set (g_all s) \<Longrightarrow>
   \<exists>s' Q'. wake_sleepers s c ts = Some s' \<and> sched_inv X Z s' Q' \<and> advances (set ts - {self s c}) s Q s' Q'"
proof (induction ts arbitrary: s Q)
  case Nil
  then show ?case using advances_refl by auto
next
  case (Cons t ts)
  show ?case
  proof (cases "t = self s c")
    case True
    then show ?thesis using Cons by simp
  next
    case False
    have t: "t \<in> set (g_all s)" using Cons.prems(2) by simp
    obtain th where th: "threads s t = Some th" using inv_all [OF Cons.prems(1) t] by metis
    let ?P = "(t_state th = THREAD_SLEEPING \<and> clock_ms s \<ge> t_wake_at th) \<or>
        (t_state th = THREAD_BLOCKED \<and> t_wake_at th \<noteq> 0 \<and> clock_ms s \<ge> t_wake_at th)"
    let ?f = "\<lambda>th. if t_state th = THREAD_SLEEPING then th\<lparr>t_state := THREAD_READY\<rparr>
        else th\<lparr>t_blocked_on := 0, t_state := THREAD_READY\<rparr>"
    obtain s1 Q1 where s1: "(if ?P then runq_push_to (put_thread s t (?f th)) c t else Some s) = Some s1"
      "sched_inv X Z s1 Q1" "advances {t} s Q s1 Q1"
      by (rule wake_step [OF Cons.prems(1) t th, of ?P ?f c]) (auto simp: asleep_def)
    have "set ts \<subseteq> set (g_all s1)" "self s1 c = self s c"
      using Cons.prems(2) advances_frame [OF s1(3)] by auto
    then obtain s' Q' where s': "wake_sleepers s1 c ts = Some s'" "sched_inv X Z s' Q'"
      "advances (set ts - {self s c}) s1 Q1 s' Q'"
      using Cons.IH [OF s1(2)] by metis
    have "advances (set (t # ts) - {self s c}) s Q s' Q'"
      by (rule advances_trans [OF advances_mono [OF s1(3)] advances_mono [OF s'(3)]]) (use False in auto)
    moreover have "wake_sleepers s c (t # ts) = Some s'"
      using s1(1) s'(1) False th by (auto split: if_splits)
    ultimately show ?thesis using s'(2) by blast
  qed
qed

lemma wake_token_inv:
  "sched_inv X Z s Q \<Longrightarrow> set ts \<subseteq> set (g_all s) \<Longrightarrow>
   \<exists>s' Q'. wake_token s c token ts = Some s' \<and> sched_inv X Z s' Q' \<and> advances (set ts) s Q s' Q'"
proof (induction ts arbitrary: s Q)
  case Nil
  then show ?case using advances_refl by auto
next
  case (Cons t ts)
  have t: "t \<in> set (g_all s)" using Cons.prems(2) by simp
  obtain th where th: "threads s t = Some th" using inv_all [OF Cons.prems(1) t] by metis
  let ?P = "t_state th = THREAD_BLOCKED \<and> t_blocked_on th = token"
  let ?f = "\<lambda>th. th\<lparr>t_blocked_on := 0, t_state := THREAD_READY\<rparr>"
  obtain s1 Q1 where s1: "(if ?P then runq_push_to (put_thread s t (?f th)) c t else Some s) = Some s1"
    "sched_inv X Z s1 Q1" "advances {t} s Q s1 Q1"
    by (rule wake_step [OF Cons.prems(1) t th, of ?P ?f c]) (auto simp: asleep_def)
  have "set ts \<subseteq> set (g_all s1)" using Cons.prems(2) advances_frame [OF s1(3)] by auto
  then obtain s' Q' where s': "wake_token s1 c token ts = Some s'" "sched_inv X Z s' Q'"
    "advances (set ts) s1 Q1 s' Q'"
    using Cons.IH [OF s1(2)] by metis
  have "advances (set (t # ts)) s Q s' Q'"
    by (rule advances_trans [OF advances_mono [OF s1(3)] advances_mono [OF s'(3)]]) auto
  moreover have "wake_token s c token (t # ts) = Some s'"
    using s1(1) s'(1) th by auto
  ultimately show ?case using s'(2) by blast
qed

lemma thread_wake_blocked_inv:
  assumes "sched_inv X Z s Q"
  shows "\<exists>s' Q'. thread_wake_blocked s c token = Some s' \<and> sched_inv X Z s' Q' \<and> advances (set (g_all s)) s Q s' Q'"
  using wake_token_inv [OF assms order_refl] assms advances_refl by (auto simp: thread_wake_blocked_def)

lemma find_id_inv:
  "sched_inv X Z s Q \<Longrightarrow> set ts \<subseteq> set (g_all s) \<Longrightarrow>
   \<exists>r. find_id s i ts = Some r \<and> (\<forall>t. r = Some t \<longrightarrow> t \<in> set ts \<and> (\<exists>th. threads s t = Some th \<and> t_id th = i))"
proof (induction ts)
  case Nil
  then show ?case by simp
next
  case (Cons t ts)
  obtain th where th: "threads s t = Some th" using inv_all [OF Cons.prems(1), of t] Cons.prems(2) by (metis list.set_intros(1) subsetD)
  obtain r where r: "find_id s i ts = Some r"
    "\<forall>t. r = Some t \<longrightarrow> t \<in> set ts \<and> (\<exists>th. threads s t = Some th \<and> t_id th = i)"
    using Cons by auto
  then show ?case using th by (cases "t_id th = i") auto
qed

lemma thread_lookup_inv:
  assumes "sched_inv X Z s Q"
  obtains "thread_lookup s i = Some None"
  | t th where "thread_lookup s i = Some (Some t)" "t \<in> set (g_all s)" "threads s t = Some th" "t_id th = i"
  using find_id_inv [OF assms order_refl, of i] unfolding thread_lookup_def by (metis not_None_eq)

lemma thread_signal_pid_inv:
  assumes inv: "sched_inv X Z s Q"
  shows "\<exists>s' Q'. thread_signal_pid s c pid sig = Some s' \<and> sched_inv X Z s' Q' \<and> advances (set (g_all s)) s Q s' Q'"
proof (cases "pid \<le> 0 \<or> sig \<le> 0 \<or> sig \<ge> 32")
  case True
  then show ?thesis using inv advances_refl by (auto simp: thread_signal_pid_def)
next
  case ok: False
  show ?thesis
    using inv
  proof (cases rule: thread_lookup_inv [where i = pid])
    case 1
    then show ?thesis using inv ok advances_refl by (auto simp: thread_signal_pid_def)
  next
    case (2 t th)
    let ?th1 = "th\<lparr>t_sig_pending := t_sig_pending th OR push_bit (nat sig) 1\<rparr>"
    show ?thesis
    proof (cases "t_state th = THREAD_BLOCKED \<or> t_state th = THREAD_SLEEPING")
      case True
      obtain s1 where "runq_push_to (put_thread s t (?th1\<lparr>t_blocked_on := 0, t_state := THREAD_READY\<rparr>)) c t = Some s1"
        "sched_inv X Z s1 (Q(t_home th := Q (t_home th) @ [t]))"
        "advances {t} s Q s1 (Q(t_home th := Q (t_home th) @ [t]))"
        by (rule inv_wake [OF inv 2(3,2), of "?th1\<lparr>t_blocked_on := 0, t_state := THREAD_READY\<rparr>" c])
          (use True in \<open>auto simp: asleep_def\<close>)
      moreover have "{t} \<subseteq> set (g_all s)" using 2(2) by simp
      moreover have "thread_signal_pid s c pid sig =
          runq_push_to (put_thread s t (?th1\<lparr>t_blocked_on := 0, t_state := THREAD_READY\<rparr>)) c t"
        using True ok 2 by (simp add: thread_signal_pid_def)
      ultimately show ?thesis using advances_mono by metis
    next
      case False
      have "sched_inv X Z (put_thread s t ?th1) Q"
        by (rule inv_put [OF inv 2(3)]) (use inv_idle_not_all [OF inv 2(2)] in auto)
      moreover have "advances (set (g_all s)) s Q (put_thread s t ?th1) Q"
        using 2(3) by (auto simp: advances_def)
      ultimately show ?thesis using False ok 2 by (auto simp: thread_signal_pid_def)
    qed
  qed
qed

lemma deliver_inv:
  "sched_inv X Z s Q \<Longrightarrow>
   \<exists>s' Q'. deliver s c es = Some s' \<and> sched_inv X Z s' Q' \<and> advances (set (g_all s)) s Q s' Q'"
proof (induction es arbitrary: s Q)
  case Nil
  then show ?case using advances_refl by auto
next
  case (Cons e es)
  let ?d = "case e of Wake p \<Rightarrow> thread_wake_blocked s c p | Signal pid sig \<Rightarrow> thread_signal_pid s c pid (int sig)"
  have "\<exists>s1 Q1. ?d = Some s1 \<and> sched_inv X Z s1 Q1 \<and> advances (set (g_all s)) s Q s1 Q1"
  proof (cases e)
    case (Wake p)
    then show ?thesis using thread_wake_blocked_inv [OF Cons.prems] by simp
  next
    case (Signal pid sig)
    then show ?thesis using thread_signal_pid_inv [OF Cons.prems] by simp
  qed
  then obtain s1 Q1 where s1: "?d = Some s1" "sched_inv X Z s1 Q1" "advances (set (g_all s)) s Q s1 Q1"
    by blast
  obtain s' Q' where s': "deliver s1 c es = Some s'" "sched_inv X Z s' Q'" "advances (set (g_all s)) s1 Q1 s' Q'"
    using Cons.IH [OF s1(2)] advances_frame(1) [OF s1(3)] by metis
  have "advances (set (g_all s)) s Q s' Q'" by (rule advances_trans [OF s1(3) s'(3)])
  moreover have "deliver s c (e # es) = Some s'" using s1(1) s'(1) by (cases e) auto
  ultimately show ?case using s'(2) by blast
qed

section \<open>The switch\<close>

lemma pop_empty: "sched_inv X Z s Q \<Longrightarrow> c < 4 \<Longrightarrow> Q c = [] \<Longrightarrow> runq_pop_local s c = Some (s, 0)"
  using inv_queue [of X Z s Q c] by (simp add: runq_pop_local_def runq_def Let_def)

lemma inv_pop:
  assumes inv: "sched_inv X Z s Q" and c: "c < 4" and q: "Q c = t # ts"
  obtains s' th where "runq_pop_local s c = Some (s', t)" "sched_inv (insert t X) Z s' (Q(c := ts))"
    "threads s' t = Some th" "t_state th = THREAD_READY" "t_home th = c" "t \<in> set (g_all s)" "t \<noteq> 0"
    "\<forall>d<4. t \<notin> set ((Q(c := ts)) d)"
    "\<forall>u. u \<noteq> t \<longrightarrow> threads s' u = threads s u" "g_all s' = g_all s" "self s' c = self s c"
    "idle (g_cpus s' ! c) = idle (g_cpus s ! c)" "kn s' = kn s"
proof -
  let ?q = "g_cpus s ! c"
  have len: "length (g_cpus s) = 4" by (rule inv_cpus [OF inv])
  have mem: "t \<in> set (Q c)" using q by simp
  obtain th where th: "threads s t = Some th" "t_state th = THREAD_READY" "t_home th = c" "t \<in> set (g_all s)" "t \<noteq> 0"
    by (rule inv_queued [OF inv c mem])
  have ch: "chain (threads s) (runq_head ?q) (t # ts)" and tl: "runq_tail ?q = last (t # ts)" and dis: "distinct (t # ts)"
    using inv_queue [OF inv c] q by (simp_all add: runq_def)
  have hd: "runq_head ?q = t" "chain (threads s) (t_next th) ts" using ch th by simp_all
  have nx0: "t_next th = 0 \<longleftrightarrow> ts = []"
    using chain_head [OF hd(2)] chain_nonzero [OF hd(2)] by (cases ts) auto
  let ?q1 = "?q\<lparr>runq_head := t_next th, runq_tail := (if t_next th = 0 then 0 else runq_tail ?q)\<rparr>"
  let ?s' = "put_thread (put_cpu s c ?q1) t (th\<lparr>t_next := 0\<rparr>)"
  have pop: "runq_pop_local s c = Some (?s', t)"
    using hd th by (simp add: runq_pop_local_def Let_def)
  have nq: "\<forall>d<4. t \<notin> set ((Q(c := ts)) d)"
    using inv_queued [OF inv] th(1,3) dis by (metis distinct.simps(2) fun_upd_apply option.inject)
  have slf: "self ?s' d = self s d" "idle (g_cpus ?s' ! d) = idle (g_cpus s ! d)" for d
    using len c by (cases "d = c"; simp add: self_def)+
  have rq: "runq ?s' d ((Q(c := ts)) d) \<and> distinct ((Q(c := ts)) d)" if d: "d < 4" for d
  proof -
    have same: "chain (threads ?s') h ((Q(c := ts)) d) = chain (threads s) h ((Q(c := ts)) d)" for h
      by (rule chain_cong) (use nq d in auto)
    show ?thesis
    proof (cases "d = c")
      case True
      then show ?thesis using same [of "t_next th"] hd(2) nx0 tl dis len c by (auto simp: runq_def)
    next
      case False
      then show ?thesis using same inv_queue [OF inv d] by (simp add: runq_def)
    qed
  qed
  have bk: "\<exists>uh'. threads ?s' u = Some uh' \<and> t_state uh' = t_state uh \<and> t_home uh' = t_home uh \<and>
      t_id uh' = t_id uh \<and> t_parent uh' = t_parent uh" if "threads s u = Some uh" for u uh
    using th that by auto
  have "sched_inv (insert t X) Z ?s' (Q(c := ts))"
    unfolding sched_inv_def
  proof (intro conjI)
    show "length (g_cpus ?s') = 4" using len by simp
    show "\<forall>d<4. runq ?s' d ((Q(c := ts)) d) \<and> distinct ((Q(c := ts)) d)" using rq by blast
    show "\<forall>d<4. \<forall>u\<in>set ((Q(c := ts)) d). u \<in> set (g_all ?s') \<and>
        (\<exists>th. threads ?s' u = Some th \<and> t_state th = THREAD_READY \<and> t_home th = d)"
    proof (intro allI impI ballI)
      fix d u assume d: "d < 4" "u \<in> set ((Q(c := ts)) d)"
      then have u: "u \<in> set (Q d)" using q by (auto split: if_splits)
      obtain uh where "threads s u = Some uh" "t_state uh = THREAD_READY" "t_home uh = d" "u \<in> set (g_all s)"
        by (rule inv_queued [OF inv d(1) u])
      then show "u \<in> set (g_all ?s') \<and> (\<exists>th. threads ?s' u = Some th \<and> t_state th = THREAD_READY \<and> t_home th = d)"
        using bk [of u uh] by auto
    qed
    show "distinct (g_all ?s')" "0 \<notin> set (g_all ?s')" using inv by (simp_all add: sched_inv_def)
    show "\<forall>u\<in>set (g_all ?s'). \<exists>uh. threads ?s' u = Some uh \<and> t_home uh < 4 \<and> t_parent uh \<noteq> t_id uh \<and>
        (t_state uh = THREAD_READY \<longrightarrow> u \<in> insert t X \<or> u \<in> set ((Q(c := ts)) (t_home uh)))"
    proof
      fix u assume "u \<in> set (g_all ?s')"
      then have u: "u \<in> set (g_all s)" by simp
      obtain uh where uh: "threads s u = Some uh" "t_home uh < 4" "t_parent uh \<noteq> t_id uh"
        "t_state uh = THREAD_READY \<Longrightarrow> u \<in> X \<or> u \<in> set (Q (t_home uh))"
        by (rule inv_all [OF inv u]) blast
      obtain uh' where uh': "threads ?s' u = Some uh'" "t_state uh' = t_state uh" "t_home uh' = t_home uh"
        "t_id uh' = t_id uh" "t_parent uh' = t_parent uh"
        using bk [OF uh(1)] by blast
      show "\<exists>uh. threads ?s' u = Some uh \<and> t_home uh < 4 \<and> t_parent uh \<noteq> t_id uh \<and>
        (t_state uh = THREAD_READY \<longrightarrow> u \<in> insert t X \<or> u \<in> set ((Q(c := ts)) (t_home uh)))"
        using uh uh' q by (intro exI [of _ uh']) (cases "u = t"; auto)
    qed
    show "\<forall>d<4. self ?s' d \<noteq> 0 \<longrightarrow> (\<exists>uh. threads ?s' (self ?s' d) = Some uh \<and> t_home uh = d \<and>
        (t_state uh = THREAD_RUNNING \<longrightarrow> self ?s' d \<in> set (g_all ?s') \<or> self ?s' d = idle (g_cpus ?s' ! d)) \<and>
        (t_state uh = THREAD_EXITED \<longrightarrow> d \<in> Z))"
    proof (intro allI impI)
      fix d assume d: "d < 4" "self ?s' d \<noteq> 0"
      then have d': "self s d \<noteq> 0" using slf(1) [of d] by argo
      obtain uh where uh: "threads s (self s d) = Some uh" "t_home uh = d"
        "t_state uh = THREAD_RUNNING \<Longrightarrow> self s d \<in> set (g_all s) \<or> self s d = idle (g_cpus s ! d)"
        "t_state uh = THREAD_EXITED \<Longrightarrow> d \<in> Z"
        by (rule inv_current [OF inv d(1) d']) blast
      then show "\<exists>uh. threads ?s' (self ?s' d) = Some uh \<and> t_home uh = d \<and>
        (t_state uh = THREAD_RUNNING \<longrightarrow> self ?s' d \<in> set (g_all ?s') \<or> self ?s' d = idle (g_cpus ?s' ! d)) \<and>
        (t_state uh = THREAD_EXITED \<longrightarrow> d \<in> Z)"
        using bk [OF uh(1)] unfolding slf by auto
    qed
    show "\<forall>d<4. idle (g_cpus ?s' ! d) \<noteq> 0 \<longrightarrow> idle (g_cpus ?s' ! d) \<notin> set (g_all ?s') \<and>
        (\<exists>uh. threads ?s' (idle (g_cpus ?s' ! d)) = Some uh \<and> t_home uh = d \<and> t_state uh = THREAD_RUNNING)"
    proof (intro allI impI)
      fix d assume d: "d < 4" "idle (g_cpus ?s' ! d) \<noteq> 0"
      then have d': "idle (g_cpus s ! d) \<noteq> 0" using slf(2) [of d] by argo
      obtain ih where ih: "threads s (idle (g_cpus s ! d)) = Some ih" "t_home ih = d" "t_state ih = THREAD_RUNNING"
        "idle (g_cpus s ! d) \<notin> set (g_all s)"
        by (rule inv_idle [OF inv d(1) d'])
      then show "idle (g_cpus ?s' ! d) \<notin> set (g_all ?s') \<and>
        (\<exists>uh. threads ?s' (idle (g_cpus ?s' ! d)) = Some uh \<and> t_home uh = d \<and> t_state uh = THREAD_RUNNING)"
        using bk [OF ih(1)] unfolding slf by auto
    qed
    show "\<forall>u uh. threads ?s' u = Some uh \<longrightarrow> 0 \<le> t_id uh \<and> t_id uh < int (unat (g_next_id ?s'))"
      using inv th(1) unfolding sched_inv_def by (auto split: if_splits)
  qed
  then show thesis by (rule that [OF pop, of "th\<lparr>t_next := 0\<rparr>"]) (use th nq slf in auto)
qed

lemma inv_dropX:
  "sched_inv (insert t X) Z s Q \<Longrightarrow> threads s t = Some th \<Longrightarrow> t_state th \<noteq> THREAD_READY \<Longrightarrow> sched_inv X Z s Q"
  unfolding sched_inv_def by fastforce

lemma inv_set_self:
  assumes inv: "sched_inv X Z s Q" and c: "c < 4" and t: "threads s t = Some th" "t_home th = c"
    "t_state th = THREAD_RUNNING" "t \<in> set (g_all s) \<or> t = idle (g_cpus s ! c)"
  shows "sched_inv X (Z - {c}) (set_self s c t) Q"
proof -
  have len: "length (g_cpus s) = 4" by (rule inv_cpus [OF inv])
  have f: "g_cpus (set_self s c t) ! d = (if d = c then (g_cpus s ! c)\<lparr>current := t\<rparr> else g_cpus s ! d)"
    "length (g_cpus (set_self s c t)) = 4" for d
    using len c by (auto simp: set_self_def)
  have slf: "self (set_self s c t) d = (if d = c then t else self s d)"
    "idle (g_cpus (set_self s c t) ! d) = idle (g_cpus s ! d)" "runq (set_self s c t) d xs = runq s d xs" for d xs
    by (simp_all add: self_def f runq_def, simp_all add: set_self_def)
  have g: "threads (set_self s c t) = threads s" "g_all (set_self s c t) = g_all s"
    "g_next_id (set_self s c t) = g_next_id s"
    by (simp_all add: set_self_def)
  have cur: "\<forall>d<4. self (set_self s c t) d \<noteq> 0 \<longrightarrow>
      (\<exists>uh. threads s (self (set_self s c t) d) = Some uh \<and> t_home uh = d \<and>
        (t_state uh = THREAD_RUNNING \<longrightarrow> self (set_self s c t) d \<in> set (g_all s) \<or>
           self (set_self s c t) d = idle (g_cpus s ! d)) \<and>
        (t_state uh = THREAD_EXITED \<longrightarrow> d \<in> Z - {c}))"
  proof (intro allI impI)
    fix d assume d: "d < 4" "self (set_self s c t) d \<noteq> 0"
    show "\<exists>uh. threads s (self (set_self s c t) d) = Some uh \<and> t_home uh = d \<and>
        (t_state uh = THREAD_RUNNING \<longrightarrow> self (set_self s c t) d \<in> set (g_all s) \<or>
           self (set_self s c t) d = idle (g_cpus s ! d)) \<and>
        (t_state uh = THREAD_EXITED \<longrightarrow> d \<in> Z - {c})"
    proof (cases "d = c")
      case True
      then show ?thesis using t by (simp add: slf)
    next
      case False
      then have "self s d \<noteq> 0" using d by (simp add: slf)
      then show ?thesis using inv_current [OF inv d(1)] False by (auto simp: slf)
    qed
  qed
  show ?thesis
    unfolding sched_inv_def g slf(2,3) f(2)
    using inv cur unfolding sched_inv_def by simp
qed

definition may_run :: "sched \<Rightarrow> nat \<Rightarrow> nat \<Rightarrow> bool" where
  "may_run s c t \<longleftrightarrow> t \<noteq> 0 \<and> (\<exists>th. threads s t = Some th \<and> t_home th = c \<and>
     (t_state th = THREAD_READY \<and> t \<in> set (g_all s) \<or> t = idle (g_cpus s ! c) \<and> t \<noteq> self s c))"

lemma switch_push_prev:
  assumes inv: "sched_inv (insert nxt X) Z s Q" and c: "c < 4" and prev: "self s c \<noteq> 0"
    and nxt: "may_run s c nxt" "\<forall>d<4. nxt \<notin> set (Q d)" and p: "threads s (self s c) = Some p"
    and s1: "(if t_state p = THREAD_RUNNING \<and> self s c \<noteq> idle (g_cpus s ! c)
        then runq_push_local (put_thread s (self s c) (p\<lparr>t_state := THREAD_READY\<rparr>)) c (self s c) else Some s) = Some s1"
  obtains zs where "sched_inv (insert nxt X) Z s1 (Q(c := Q c @ zs))" "may_run s1 c nxt"
    "\<forall>d<4. nxt \<notin> set ((Q(c := Q c @ zs)) d)" "self s1 c = self s c" "g_all s1 = g_all s"
    "idle (g_cpus s1 ! c) = idle (g_cpus s ! c)" "kn s1 = kn s"
    "\<forall>u. u \<noteq> self s c \<longrightarrow> map_option t_state (threads s1 u) = map_option t_state (threads s u)"
proof (cases "t_state p = THREAD_RUNNING \<and> self s c \<noteq> idle (g_cpus s ! c)")
  case False
  then have e: "s1 = s" using s1 unfolding if_not_P [OF False] by simp
  have q: "Q(c := Q c @ []) = Q" by simp
  show ?thesis by (rule that [of "[]"]) (use e q inv nxt in simp_all)
next
  case True
  let ?t = "self s c"
  let ?s0 = "put_thread s ?t (p\<lparr>t_state := THREAD_READY\<rparr>)"
  have hp: "t_home p = c" "?t \<in> set (g_all s)"
    using inv_current [OF inv c prev] p True by (metis option.inject)+
  have ne: "?t \<noteq> nxt" using nxt(1) p True by (auto simp: may_run_def)
  have nq: "?t \<notin> set (Q c)" using inv_not_queued [OF inv p _ c] True by simp
  have "sched_inv (insert nxt (insert ?t X)) Z s Q" by (rule inv_mono [OF inv]) auto
  then have inv0: "sched_inv (insert nxt (insert ?t X)) Z ?s0 Q"
    by (rule inv_put [OF _ p]) (use True inv_idle_not_all [OF inv hp(2)] in auto)
  obtain s2 where s2: "runq_push_on ?s0 c ?t = Some s2"
    "sched_inv (insert nxt (insert ?t X) - {?t}) Z s2 (Q(c := Q c @ [?t]))"
    "advances {} ?s0 Q s2 (Q(c := Q c @ [?t]))"
    by (rule inv_push [OF inv0 c, of ?t "p\<lparr>t_state := THREAD_READY\<rparr>"]) (use hp nq in auto)
  have eq: "s2 = s1" using s1 s2(1) True by (simp add: runq_push_local_def)
  have inv1: "sched_inv (insert nxt X) Z s1 (Q(c := Q c @ [?t]))"
    using inv_mono [OF s2(2), of "insert nxt X" Z] eq by blast
  have st: "map_option t_state (threads s1 u) = map_option t_state (threads s u)" if "u \<noteq> ?t" for u
  proof (cases "threads s u")
    case None
    then have "map_option core (threads s1 u) = None"
      using s2(3) that eq unfolding advances_def by (metis fun_upd_other option.map_disc_iff put_frame(4))
    then show ?thesis using None by simp
  next
    case (Some uh)
    then have "threads ?s0 u = Some uh" using that by simp
    then show ?thesis using advances_get [OF s2(3), of u uh] Some eq by (metis empty_iff option.simps(9))
  qed
  obtain nh where nh: "threads s nxt = Some nh" "t_home nh = c" "nxt \<noteq> 0"
    "t_state nh = THREAD_READY \<and> nxt \<in> set (g_all s) \<or> nxt = idle (g_cpus s ! c) \<and> nxt \<noteq> self s c"
    using nxt(1) by (auto simp: may_run_def)
  have "threads ?s0 nxt = Some nh" using nh ne by simp
  then obtain nh' where nh': "threads s1 nxt = Some nh'" "core nh' = core nh" "t_state nh' = t_state nh"
    using advances_get [OF s2(3), of nxt nh] eq by (metis empty_iff)
  have "t_home nh' = t_home nh" using nh'(2) unfolding core_def by (cases nh; cases nh'; simp)
  then have mr: "may_run s1 c nxt"
    using nh nh' advances_frame [OF s2(3)] eq by (auto simp: may_run_def)
  show ?thesis
    by (rule that [OF inv1 mr]) (use nxt(2) ne advances_frame [OF s2(3)] eq st in auto)
qed

lemma switch_inv:
  assumes inv: "sched_inv (insert nxt X) Z s Q" and c: "c < 4" and prev: "self s c \<noteq> 0"
    and nxt: "may_run s c nxt" "\<forall>d<4. nxt \<notin> set (Q d)"
    and sw: "switch_to s c (self s c) nxt sp = Some (s', y)"
  obtains zs nh where "sched_inv X (if y = YReturn then Z else Z - {c}) s' (Q(c := Q c @ zs))"
    "self s' c = nxt" "threads s' nxt = Some nh" "t_state nh = THREAD_RUNNING" "g_all s' = g_all s"
    "y = YReturn \<longleftrightarrow> nxt = self s c" "kn s' = kn s"
proof -
  obtain p where p: "threads s (self s c) = Some p"
    using inv_current [OF inv c prev] by metis
  obtain s1 where s1: "(if t_state p = THREAD_RUNNING \<and> self s c \<noteq> idle (g_cpus s ! c)
        then runq_push_local (put_thread s (self s c) (p\<lparr>t_state := THREAD_READY\<rparr>)) c (self s c) else Some s) = Some s1"
    and sw1: "do { s2 \<leftarrow> upd_thread s1 nxt (\<lambda>th. th\<lparr>t_state := THREAD_RUNNING\<rparr>);
          if nxt = self s c then Some (s2, YReturn)
          else do {
            let s3 = set_self s2 c nxt;
            p1 \<leftarrow> threads s3 (self s c);
            n1 \<leftarrow> threads s3 nxt;
            let s4 = (if t_as n1 \<noteq> t_as p1 then emit s3 (Activate (t_as n1)) else s3);
            if \<not> sp_valid s4 c nxt (t_sp n1) then Some (s4, YPanic)
            else do { s5 \<leftarrow> upd_thread s4 (self s c) (\<lambda>th. th\<lparr>t_sp := sp\<rparr>); Some (s5, YSwitch nxt) } } } = Some (s', y)"
    using sw p by (auto simp: switch_to_def split: bind_splits)
  obtain zs where zs: "sched_inv (insert nxt X) Z s1 (Q(c := Q c @ zs))" "may_run s1 c nxt"
    "\<forall>d<4. nxt \<notin> set ((Q(c := Q c @ zs)) d)" "self s1 c = self s c" "g_all s1 = g_all s"
    "idle (g_cpus s1 ! c) = idle (g_cpus s ! c)" "kn s1 = kn s"
    by (rule switch_push_prev [OF inv c prev nxt p s1])
  let ?Q = "Q(c := Q c @ zs)"
  obtain nh where nh: "threads s1 nxt = Some nh" "t_home nh = c" "nxt \<noteq> 0"
    "t_state nh = THREAD_READY \<and> nxt \<in> set (g_all s1) \<or> nxt = idle (g_cpus s1 ! c) \<and> nxt \<noteq> self s1 c"
    using zs(2) by (auto simp: may_run_def)
  let ?n = "nh\<lparr>t_state := THREAD_RUNNING\<rparr>"
  let ?s2 = "put_thread s1 nxt ?n"
  have run: "t_state nh = THREAD_RUNNING \<or> nxt \<in> set (g_all s1)"
    using nh inv_idle [OF zs(1) c] by (metis option.inject)
  have "sched_inv (insert nxt X) Z ?s2 ?Q"
    by (rule inv_put [OF zs(1) nh(1)]) (use zs(3) run in auto)
  then have inv2: "sched_inv X Z ?s2 ?Q" by (rule inv_dropX) auto
  have r: "upd_thread s1 nxt (\<lambda>th. th\<lparr>t_state := THREAD_RUNNING\<rparr>) = Some ?s2"
    using nh(1) by (rule upd_thread_eq)
  show thesis
  proof (cases "nxt = self s c")
    case True
    then have "s' = ?s2" "y = YReturn" using sw1 r by simp_all
    then show thesis using that [of zs ?n] inv2 zs True by simp
  next
    case False
    let ?s3 = "set_self ?s2 c nxt"
    have inv3: "sched_inv X (Z - {c}) ?s3 ?Q"
      by (rule inv_set_self [OF inv2 c, of nxt ?n]) (use nh in auto)
    have f3: "threads ?s3 = threads ?s2" "self ?s3 c = nxt" "g_all ?s3 = g_all s" "kn ?s3 = kn s"
      using inv_cpus [OF inv2] c zs by (simp_all add: set_self_def self_def)
    obtain p1 where p1: "threads ?s3 (self s c) = Some p1"
    proof -
      have "threads s1 (self s c) \<noteq> None" using inv_current [OF zs(1) c] prev zs(4) by (metis not_None_eq)
      then show ?thesis using that f3(1) False by auto
    qed
    define s4 where "s4 = (if t_as ?n \<noteq> t_as p1 then emit ?s3 (Activate (t_as ?n)) else ?s3)"
    have n1: "threads ?s3 nxt = Some ?n" using f3(1) by simp
    have f4: "threads s4 = threads ?s3" "self s4 c = nxt" "g_all s4 = g_all s" "kn s4 = kn s"
      using f3 by (auto simp: s4_def)
    have inv4: "sched_inv X (Z - {c}) s4 ?Q" using inv3 by (simp add: s4_def)
    have res: "(if \<not> sp_valid s4 c nxt (t_sp ?n) then Some (s4, YPanic)
        else do { s5 \<leftarrow> upd_thread s4 (self s c) (\<lambda>th. th\<lparr>t_sp := sp\<rparr>); Some (s5, YSwitch nxt) }) = Some (s', y)"
      using sw1 r p1 n1 False unfolding s4_def by (simp add: Let_def cong del: if_weak_cong)
    show thesis
    proof (cases "sp_valid s4 c nxt (t_sp ?n)")
      case v: False
      then have "s' = s4" "y = YPanic" using res by simp_all
      then show thesis using that [of zs ?n] inv4 f4 n1 False by simp
    next
      case v: True
      have u: "upd_thread s4 (self s c) (\<lambda>th. th\<lparr>t_sp := sp\<rparr>) = Some (put_thread s4 (self s c) (p1\<lparr>t_sp := sp\<rparr>))"
        using p1 f4(1) by (simp add: upd_thread_eq)
      then have e: "s' = put_thread s4 (self s c) (p1\<lparr>t_sp := sp\<rparr>)" "y = YSwitch nxt" using res v by simp_all
      have p4: "threads s4 (self s c) = Some p1" using p1 f4(1) by simp
      have "sched_inv X (Z - {c}) s' ?Q"
        unfolding e by (rule inv_put_same [OF inv4 p4]) simp_all
      then show thesis using that [of zs ?n] e f4 n1 False by simp
    qed
  qed
qed

lemma sched_kfree_frame:
  assumes "sched_kfree s p = Some s'"
  shows "threads s' = threads s" "g_all s' = g_all s" "g_cpus s' = g_cpus s" "g_next_id s' = g_next_id s"
    "clock_ms s' = clock_ms s" "self s' c = self s c" "sched_inv X Z s' Q = sched_inv X Z s Q"
proof -
  obtain h where e: "s' = s\<lparr>kn := set_kmem (kn s) ((kmem (kn s))\<lparr>kheap := h\<rparr>)\<rparr>"
    using assms by (auto simp: sched_kfree_def split: bind_splits)
  show a: "threads s' = threads s" "g_all s' = g_all s" "g_cpus s' = g_cpus s" "g_next_id s' = g_next_id s"
    "clock_ms s' = clock_ms s" "self s' c = self s c"
    by (simp_all add: e self_def)
  show "sched_inv X Z s' Q = sched_inv X Z s Q" by (rule inv_cong) (use a in auto)
qed

lemma nth_upd: "xs[i := v] ! j = (if i = j \<and> j < length xs then v else xs ! j)"
  by (cases "i < length xs") (auto simp: list_update_beyond)

lemma inv_put_cpu:
  assumes inv: "sched_inv X Z s Q" and q: "current q = current (g_cpus s ! c)" "idle q = idle (g_cpus s ! c)"
    "runq_head q = runq_head (g_cpus s ! c)" "runq_tail q = runq_tail (g_cpus s ! c)"
  shows "sched_inv X Z (put_cpu s c q) Q" "self (put_cpu s c q) d = self s d"
    "idle (g_cpus (put_cpu s c q) ! d) = idle (g_cpus s ! d)"
proof -
  have f: "current (g_cpus (put_cpu s c q) ! d) = current (g_cpus s ! d)"
      "idle (g_cpus (put_cpu s c q) ! d) = idle (g_cpus s ! d)"
      "runq_head (g_cpus (put_cpu s c q) ! d) = runq_head (g_cpus s ! d)"
      "runq_tail (g_cpus (put_cpu s c q) ! d) = runq_tail (g_cpus s ! d)" for d
    using q by (simp_all add: nth_upd)
  have g: "runq (put_cpu s c q) d xs = runq s d xs" for d xs
    by (simp add: runq_def f del: cpu_frame(4))
  show "self (put_cpu s c q) d = self s d" for d by (simp add: self_def f del: cpu_frame(4))
  then show "sched_inv X Z (put_cpu s c q) Q"
    using inv by (simp add: sched_inv_def f g del: cpu_frame(4), simp)
  show "idle (g_cpus (put_cpu s c q) ! d) = idle (g_cpus s ! d)" by (rule f(2))
qed

lemma drain_inv:
  assumes inv: "sched_inv X Z s Q" and d: "drain_stack_to_free s c = Some s1"
  shows "sched_inv X Z s1 Q" "self s1 e = self s e" "g_all s1 = g_all s" "clock_ms s1 = clock_ms s"
    "idle (g_cpus s1 ! e) = idle (g_cpus s ! e)"
    "map_option (\<lambda>th. th\<lparr>t_stack := 0\<rparr>) (threads s1 u) = map_option (\<lambda>th. th\<lparr>t_stack := 0\<rparr>) (threads s u)"
proof -
  have "sched_inv X Z s1 Q \<and> self s1 e = self s e \<and> g_all s1 = g_all s \<and> clock_ms s1 = clock_ms s \<and>
    idle (g_cpus s1 ! e) = idle (g_cpus s ! e) \<and>
    map_option (\<lambda>th. th\<lparr>t_stack := 0\<rparr>) (threads s1 u) = map_option (\<lambda>th. th\<lparr>t_stack := 0\<rparr>) (threads s u)"
  proof (cases "stack_to_free (g_cpus s ! c) = 0")
    case True
    then show ?thesis using d inv by (simp add: drain_stack_to_free_def Let_def)
  next
    case False
    let ?t = "stack_to_free (g_cpus s ! c)"
    obtain th s0 where th: "threads s ?t = Some th"
      and s0: "(if t_stack th \<noteq> 0 then do {
                  s1 \<leftarrow> sched_kfree s (t_stack th); Some (put_thread s1 ?t (th\<lparr>t_stack := 0\<rparr>)) }
                else Some s) = Some s0"
      and s1: "s1 = put_cpu s0 c ((g_cpus s0 ! c)\<lparr>stack_to_free := 0\<rparr>)"
      using d False by (auto simp: drain_stack_to_free_def Let_def split: bind_splits)
    have a: "sched_inv X Z s0 Q \<and> self s0 e = self s e \<and> g_all s0 = g_all s \<and> clock_ms s0 = clock_ms s \<and>
      g_cpus s0 = g_cpus s \<and>
      map_option (\<lambda>th. th\<lparr>t_stack := 0\<rparr>) (threads s0 u) = map_option (\<lambda>th. th\<lparr>t_stack := 0\<rparr>) (threads s u)"
    proof (cases "t_stack th = 0")
      case True
      then show ?thesis using s0 inv by simp
    next
      case ns: False
      then obtain s2 where s2: "sched_kfree s (t_stack th) = Some s2" "s0 = put_thread s2 ?t (th\<lparr>t_stack := 0\<rparr>)"
        using s0 by (auto split: bind_splits)
      note k = sched_kfree_frame [OF s2(1)]
      have "threads s2 ?t = Some th" "sched_inv X Z s2 Q" using k th inv by auto
      then have "sched_inv X Z s0 Q" unfolding s2(2) by (intro inv_put_same) simp_all
      then show ?thesis using s2(2) k th by simp
    qed
    show ?thesis
      using a inv_put_cpu [of X Z s0 Q "(g_cpus s0 ! c)\<lparr>stack_to_free := 0\<rparr>" c] s1 by simp
  qed
  then show "sched_inv X Z s1 Q" "self s1 e = self s e" "g_all s1 = g_all s" "clock_ms s1 = clock_ms s"
    "idle (g_cpus s1 ! e) = idle (g_cpus s ! e)"
    "map_option (\<lambda>th. th\<lparr>t_stack := 0\<rparr>) (threads s1 u) = map_option (\<lambda>th. th\<lparr>t_stack := 0\<rparr>) (threads s u)"
    by auto
qed

text \<open>One call of \<open>yield\<close>: after the wake-ups \<open>Q1\<close> is the queue; its head runs next, and with
  nothing queued the idle thread, or the caller if there is none.\<close>

lemma yield_inv:
  assumes inv: "sched_inv {} Z s Q" and c: "c < 4" and prev: "self s c \<noteq> 0"
    and y: "yield s c sp = Some (s', y)"
  obtains Q1 zs where "\<forall>d. \<exists>ys. Q1 d = Q d @ ys"
    "sched_inv {} (if y = YReturn then Z else Z - {c}) s' (Q1(c := tl (Q1 c) @ zs))"
    "g_all s' = g_all s"
    "Q1 c \<noteq> [] \<Longrightarrow> self s' c = hd (Q1 c)"
    "Q1 c = [] \<Longrightarrow> idle (g_cpus s ! c) \<noteq> 0 \<and> self s c \<noteq> idle (g_cpus s ! c) \<Longrightarrow> self s' c = idle (g_cpus s ! c)"
    "y = YReturn \<longleftrightarrow> self s' c = self s c"
    "(\<exists>nh. threads s' (self s' c) = Some nh \<and> t_state nh = THREAD_RUNNING) \<or>
       Q1 c = [] \<and> zs = [] \<and> y = YReturn \<and> (idle (g_cpus s ! c) = 0 \<or> self s c = idle (g_cpus s ! c))"
proof -
  obtain s1 s2 s3 nxt where s1: "drain_stack_to_free s c = Some s1"
    and s2: "wake_sleepers s1 c (g_all s1) = Some s2"
    and s3: "runq_pop_local s2 c = Some (s3, nxt)"
    and fin: "(if nxt = 0 then
            let i = idle (g_cpus s3 ! c) in
            if i \<noteq> 0 \<and> self s2 c \<noteq> i then switch_to s3 c (self s2 c) i sp else Some (s3, YReturn)
          else switch_to s3 c (self s2 c) nxt sp) = Some (s', y)"
    using y by (auto simp: yield_def Let_def split: bind_splits)
  note dr = drain_inv [OF inv s1]
  obtain Q1 where inv2: "sched_inv {} Z s2 Q1" and adv: "advances (set (g_all s1) - {self s1 c}) s1 Q s2 Q1"
    using wake_sleepers_inv [OF dr(1) order_refl, of c] s2 by auto
  note ad = advances_frame [OF adv]
  have ext: "\<forall>d. \<exists>ys. Q1 d = Q d @ ys" using adv by (simp add: advances_def)
  have slf: "self s2 c = self s c" "g_all s2 = g_all s" "idle (g_cpus s2 ! c) = idle (g_cpus s ! c)"
    using dr ad by simp_all
  show thesis
  proof (cases "Q1 c")
    case Nil
    have p: "s3 = s2" "nxt = 0" using pop_empty [OF inv2 c Nil] s3 by simp_all
    show thesis
    proof (cases "idle (g_cpus s ! c) \<noteq> 0 \<and> self s c \<noteq> idle (g_cpus s ! c)")
      case False
      then have "s' = s2" "y = YReturn" using fin p slf by (auto simp: Let_def split: if_splits)
      then show thesis
        using that [of Q1 "[]"] ext inv2 slf Nil False by (auto simp: fun_upd_idem)
    next
      case True
      let ?i = "idle (g_cpus s ! c)"
      obtain ih where ih: "threads s2 ?i = Some ih" "t_home ih = c" "t_state ih = THREAD_RUNNING" "?i \<notin> set (g_all s2)"
        using inv_idle [OF inv2 c] slf(3) True by metis
      have nq: "\<forall>d<4. ?i \<notin> set (Q1 d)"
        using inv_queued [OF inv2] ih(4) by metis
      have sw: "switch_to s2 c (self s2 c) ?i sp = Some (s', y)"
        using fin p slf True by (simp add: Let_def)
      have mr: "may_run s2 c ?i" using ih True slf by (simp add: may_run_def)
      obtain zs nh where z: "sched_inv {} (if y = YReturn then Z else Z - {c}) s' (Q1(c := Q1 c @ zs))"
        "self s' c = ?i" "threads s' ?i = Some nh" "t_state nh = THREAD_RUNNING" "g_all s' = g_all s2"
        "y = YReturn \<longleftrightarrow> ?i = self s2 c"
        by (rule switch_inv [OF inv_mono [OF inv2, of "insert ?i {}" Z] c _ mr nq sw]) (use prev slf in auto)
      then show thesis using that [of Q1 zs] ext Nil slf True by simp
    qed
  next
    case (Cons t ts)
    obtain s4 th where q: "runq_pop_local s2 c = Some (s4, t)" "sched_inv (insert t {}) Z s4 (Q1(c := ts))"
      "threads s4 t = Some th" "t_state th = THREAD_READY" "t_home th = c" "t \<in> set (g_all s2)" "t \<noteq> 0"
      "\<forall>d<4. t \<notin> set ((Q1(c := ts)) d)" "g_all s4 = g_all s2" "self s4 c = self s2 c"
      "idle (g_cpus s4 ! c) = idle (g_cpus s2 ! c)"
      by (rule inv_pop [OF inv2 c Cons])
    have e: "s4 = s3" "nxt = t" using q(1) s3 by simp_all
    have sw: "switch_to s4 c (self s4 c) t sp = Some (s', y)" using fin e q(7,10) by simp
    have mr: "may_run s4 c t" using q by (simp add: may_run_def)
    have pv: "self s4 c \<noteq> 0" using q(10) slf prev by simp
    obtain zs nh where z: "sched_inv {} (if y = YReturn then Z else Z - {c}) s' ((Q1(c := ts))(c := (Q1(c := ts)) c @ zs))"
      "self s' c = t" "threads s' t = Some nh" "t_state nh = THREAD_RUNNING" "g_all s' = g_all s4"
      "y = YReturn \<longleftrightarrow> t = self s4 c"
      by (rule switch_inv [OF q(2) c pv mr q(8) sw])
    then show thesis using that [of Q1 zs] ext Cons slf q by auto
  qed
qed

section \<open>Exit and wait\<close>

lemma all_remove_frame [simp]:
  "threads (all_remove s t) = threads s" "g_cpus (all_remove s t) = g_cpus s"
  "g_next_id (all_remove s t) = g_next_id s" "g_all (all_remove s t) = remove1 t (g_all s)"
  "self (all_remove s t) c = self s c" "clock_ms (all_remove s t) = clock_ms s"
  by (simp_all add: all_remove_def self_def)

lemma all_remove_inv:
  assumes inv: "sched_inv X Z s Q" and nq: "\<forall>c<4. t \<notin> set (Q c)"
    and nr: "\<And>c th. c < 4 \<Longrightarrow> self s c = t \<Longrightarrow> threads s t = Some th \<Longrightarrow> t_state th \<noteq> THREAD_RUNNING \<or> t = idle (g_cpus s ! c)"
  shows "sched_inv X Z (all_remove s t) Q"
proof -
  have mem: "u \<in> set (remove1 t (g_all s)) \<longleftrightarrow> u \<in> set (g_all s) \<and> u \<noteq> t" for u
    using inv by (auto simp: sched_inv_def set_remove1_eq)
  have cur: "\<forall>c<4. self s c \<noteq> 0 \<longrightarrow> (\<exists>th. threads s (self s c) = Some th \<and> t_home th = c \<and>
        (t_state th = THREAD_RUNNING \<longrightarrow> self s c \<in> set (remove1 t (g_all s)) \<or> self s c = idle (g_cpus s ! c)) \<and>
        (t_state th = THREAD_EXITED \<longrightarrow> c \<in> Z))"
  proof (intro allI impI)
    fix c assume c: "c < 4" "self s c \<noteq> 0"
    obtain th where th: "threads s (self s c) = Some th" "t_home th = c"
      "t_state th = THREAD_RUNNING \<Longrightarrow> self s c \<in> set (g_all s) \<or> self s c = idle (g_cpus s ! c)"
      "t_state th = THREAD_EXITED \<Longrightarrow> c \<in> Z"
      by (rule inv_current [OF inv c]) blast
    then show "\<exists>th. threads s (self s c) = Some th \<and> t_home th = c \<and>
        (t_state th = THREAD_RUNNING \<longrightarrow> self s c \<in> set (remove1 t (g_all s)) \<or> self s c = idle (g_cpus s ! c)) \<and>
        (t_state th = THREAD_EXITED \<longrightarrow> c \<in> Z)"
      using nr [OF c(1)] unfolding mem by (intro exI [of _ th]) auto
  qed
  show ?thesis
    unfolding sched_inv_def all_remove_frame
  proof (intro conjI)
    show "\<forall>c<4. runq (all_remove s t) c (Q c) \<and> distinct (Q c)"
      using inv_queue [OF inv] by (simp add: runq_def)
    show "\<forall>c<4. \<forall>u\<in>set (Q c). u \<in> set (remove1 t (g_all s)) \<and>
        (\<exists>th. threads s u = Some th \<and> t_state th = THREAD_READY \<and> t_home th = c)"
    proof (intro allI impI ballI)
      fix c u assume c: "c < 4" "u \<in> set (Q c)"
      obtain th where "threads s u = Some th" "t_state th = THREAD_READY" "t_home th = c" "u \<in> set (g_all s)" "u \<noteq> 0"
        by (rule inv_queued [OF inv c])
      moreover have "u \<noteq> t" using nq c by auto
      ultimately show "u \<in> set (remove1 t (g_all s)) \<and>
        (\<exists>th. threads s u = Some th \<and> t_state th = THREAD_READY \<and> t_home th = c)"
        unfolding mem by blast
    qed
  qed (use inv cur mem in \<open>auto simp: sched_inv_def distinct_remove1\<close>)
qed

lemma free_thread_inv:
  assumes inv: "sched_inv X Z s Q" and t: "t \<notin> set (g_all s)" "\<forall>c<4. self s c \<noteq> t" "\<forall>c<4. idle (g_cpus s ! c) \<noteq> t"
    and f: "free_thread s t = Some s'"
  shows "sched_inv X Z s' Q" "g_all s' = g_all s" "self s' c = self s c" "g_cpus s' = g_cpus s" "clock_ms s' = clock_ms s"
    "u \<noteq> t \<Longrightarrow> threads s' u = threads s u"
proof -
  obtain s1 where s1: "sched_kfree s t = Some s1" "s' = s1\<lparr>threads := (threads s1)(t := None)\<rparr>"
    using f by (auto simp: free_thread_def split: bind_splits)
  note k = sched_kfree_frame [OF s1(1)]
  have inv1: "sched_inv X Z s1 Q" using k(7) inv by simp
  have fr: "threads s' = (threads s)(t := None)" "g_all s' = g_all s" "g_cpus s' = g_cpus s"
      "g_next_id s' = g_next_id s" "self s' d = self s d" "clock_ms s' = clock_ms s" for d
    using s1(2) k by (simp_all add: self_def)
  show "g_all s' = g_all s" "self s' c = self s c" "g_cpus s' = g_cpus s" "clock_ms s' = clock_ms s"
    "u \<noteq> t \<Longrightarrow> threads s' u = threads s u"
    using fr by simp_all
  have rq: "runq s' d (Q d)" if d: "d < 4" for d
  proof -
    have "t \<notin> set (Q d)" using inv_queued [OF inv d] t(1) by metis
    then have "chain (threads s') h (Q d) = chain (threads s) h (Q d)" for h
      by (intro chain_cong) (use fr in auto)
    then show ?thesis using inv_queue [OF inv d] fr by (simp add: runq_def)
  qed
  show "sched_inv X Z s' Q"
    unfolding sched_inv_def fr(2-5)
  proof (intro conjI)
    show "\<forall>d<4. runq s' d (Q d) \<and> distinct (Q d)" using rq inv_queue [OF inv] by blast
    show "\<forall>c<4. \<forall>u\<in>set (Q c). u \<in> set (g_all s) \<and>
        (\<exists>th. threads s' u = Some th \<and> t_state th = THREAD_READY \<and> t_home th = c)"
      using inv t(1) fr(1) unfolding sched_inv_def by (metis fun_upd_other)
    show "\<forall>u\<in>set (g_all s). \<exists>th. threads s' u = Some th \<and> t_home th < 4 \<and> t_parent th \<noteq> t_id th \<and>
        (t_state th = THREAD_READY \<longrightarrow> u \<in> X \<or> u \<in> set (Q (t_home th)))"
      using inv t(1) fr(1) unfolding sched_inv_def by (metis fun_upd_other)
    show "\<forall>c<4. self s c \<noteq> 0 \<longrightarrow> (\<exists>th. threads s' (self s c) = Some th \<and> t_home th = c \<and>
        (t_state th = THREAD_RUNNING \<longrightarrow> self s c \<in> set (g_all s) \<or> self s c = idle (g_cpus s ! c)) \<and>
        (t_state th = THREAD_EXITED \<longrightarrow> c \<in> Z))"
      using inv t(2) fr(1) unfolding sched_inv_def by (metis fun_upd_other)
    show "\<forall>c<4. idle (g_cpus s ! c) \<noteq> 0 \<longrightarrow> idle (g_cpus s ! c) \<notin> set (g_all s) \<and>
        (\<exists>th. threads s' (idle (g_cpus s ! c)) = Some th \<and> t_home th = c \<and> t_state th = THREAD_RUNNING)"
      using inv t(3) fr(1) unfolding sched_inv_def by (metis fun_upd_other)
    show "\<forall>u th. threads s' u = Some th \<longrightarrow> 0 \<le> t_id th \<and> t_id th < int (unat (g_next_id s))"
      using inv fr(1) unfolding sched_inv_def by (auto split: if_splits)
  qed (use inv in \<open>simp_all add: sched_inv_def\<close>)
qed

lemma reap_inv:
  assumes inv: "sched_inv X Z s Q" and t: "t \<in> set (g_all s)" "threads s t = Some th" "t_state th = THREAD_EXITED"
    "\<forall>c<4. self s c \<noteq> t" and r: "reap s t = Some s'"
  shows "sched_inv X Z s' Q" "g_all s' = remove1 t (g_all s)" "self s' c = self s c" "g_cpus s' = g_cpus s"
    "u \<noteq> t \<Longrightarrow> threads s' u = threads s u" "clock_ms s' = clock_ms s"
proof -
  let ?s1 = "emit (all_remove s t) (StraceRelease t)"
  have nq: "\<forall>c<4. t \<notin> set (Q c)" using inv_not_queued [OF inv t(2)] t(3) by simp
  have inv1: "sched_inv X Z ?s1 Q"
    using all_remove_inv [OF inv nq] t by simp
  obtain s2 s4 where s2: "(if t_stack th \<noteq> 0 then sched_kfree ?s1 (t_stack th) else Some ?s1) = Some s2"
    and s4: "free_thread (if t_as th \<noteq> 0 then emit s2 (AsDestroy (t_as th)) else s2) t = Some s4"
    and s': "s' = s4\<lparr>g_thread_count := g_thread_count s4 - 1\<rparr>"
    using r t(2) by (auto simp: reap_def Let_def split: bind_splits)
  have f2: "threads s2 = threads s" "g_all s2 = remove1 t (g_all s)" "g_cpus s2 = g_cpus s"
      "self s2 d = self s d" "sched_inv X Z s2 Q" "clock_ms s2 = clock_ms s" for d
    using s2 inv1 sched_kfree_frame [of ?s1 "t_stack th" s2] by (auto split: if_splits)
  let ?s3 = "if t_as th \<noteq> 0 then emit s2 (AsDestroy (t_as th)) else s2"
  have f3: "threads ?s3 = threads s" "g_all ?s3 = remove1 t (g_all s)" "g_cpus ?s3 = g_cpus s"
      "self ?s3 d = self s d" "sched_inv X Z ?s3 Q" "clock_ms ?s3 = clock_ms s" for d
    using f2 by auto
  have nm: "t \<notin> set (g_all ?s3)" using inv f3(2) by (simp add: sched_inv_def set_remove1_eq)
  have ni: "\<forall>c<4. idle (g_cpus ?s3 ! c) \<noteq> t"
    using inv_idle_not_all [OF inv t(1)] inv_all [OF inv t(1)] f3(3) by metis
  have nc: "\<forall>c<4. self ?s3 c \<noteq> t" using t(4) f3(4) by simp
  note fr = free_thread_inv [OF f3(5) nm nc ni s4]
  have "sched_inv X Z s' Q = sched_inv X Z s4 Q" unfolding s' by (rule inv_cong) simp_all
  then show "sched_inv X Z s' Q" using fr(1) by simp
  show "g_all s' = remove1 t (g_all s)" "self s' c = self s c" "g_cpus s' = g_cpus s"
    "u \<noteq> t \<Longrightarrow> threads s' u = threads s u" "clock_ms s' = clock_ms s"
    using fr f3 by (simp_all add: s' self_def)
qed

lemma exit_children_inv:
  "sched_inv X Z s Q \<Longrightarrow> set ts \<subseteq> set (g_all s) \<Longrightarrow> distinct ts \<Longrightarrow>
   threads s me = Some mh \<Longrightarrow> t_id mh = my_id \<Longrightarrow> t_parent mh \<noteq> my_id \<Longrightarrow> 0 \<le> my_id \<Longrightarrow>
   (\<forall>c<4. \<forall>th. self s c \<noteq> 0 \<and> threads s (self s c) = Some th \<and> t_state th = THREAD_EXITED \<longrightarrow> self s c = me) \<Longrightarrow>
   exit_children s my_id ts = Some s' \<Longrightarrow>
   sched_inv X Z s' Q \<and> set (g_all s') \<subseteq> set (g_all s) \<and> (\<forall>c. self s' c = self s c) \<and> g_cpus s' = g_cpus s \<and>
   threads s' me = Some mh \<and> (me \<in> set (g_all s) \<longrightarrow> me \<in> set (g_all s'))"
proof (induction ts arbitrary: s)
  case Nil
  then show ?case by simp
next
  case (Cons t ts)
  have t: "t \<in> set (g_all s)" using Cons.prems(2) by simp
  obtain th where th: "threads s t = Some th" "t_parent th \<noteq> t_id th" using inv_all [OF Cons.prems(1) t] by metis
  obtain s1 where s1: "(if t_parent th = my_id then
                    (if t_state th = THREAD_EXITED then reap s t
                     else Some (put_thread s t (th\<lparr>t_parent := -1\<rparr>)))
                  else Some s) = Some s1" and rest: "exit_children s1 my_id ts = Some s'"
    using Cons.prems(9) th by (auto split: bind_splits)
  have me: "t_parent th = my_id \<Longrightarrow> t \<noteq> me" using th Cons.prems(4-6) by auto
  consider (keep) "s1 = s" | (dead) "t_parent th = my_id" "t_state th = THREAD_EXITED" "reap s t = Some s1"
    | (orphan) "t_parent th = my_id" "t_state th \<noteq> THREAD_EXITED" "s1 = put_thread s t (th\<lparr>t_parent := -1\<rparr>)"
    using s1 by (auto split: if_splits)
  then have "sched_inv X Z s1 Q \<and> set (g_all s1) \<subseteq> set (g_all s) \<and> set ts \<subseteq> set (g_all s1) \<and>
     (\<forall>c. self s1 c = self s c) \<and> g_cpus s1 = g_cpus s \<and> threads s1 me = Some mh \<and>
     (me \<in> set (g_all s) \<longrightarrow> me \<in> set (g_all s1)) \<and>
     (\<forall>c<4. \<forall>th. self s c \<noteq> 0 \<and> threads s1 (self s c) = Some th \<and> t_state th = THREAD_EXITED \<longrightarrow> self s c = me)"
  proof cases
    case keep
    then show ?thesis using Cons.prems by auto
  next
    case dead
    have "t \<noteq> 0" using inv_all [OF Cons.prems(1) t] by metis
    then have nc: "\<forall>c<4. self s c \<noteq> t" using Cons.prems(8) th(1) dead me by metis
    note r = reap_inv [OF Cons.prems(1) t th(1) dead(2) nc dead(3)]
    have "distinct (g_all s)" using Cons.prems(1) by (simp add: sched_inv_def)
    then have mem: "u \<in> set (g_all s1) \<longleftrightarrow> u \<in> set (g_all s) \<and> u \<noteq> t" for u
      using r(2) by (auto simp: set_remove1_eq)
    have tm: "threads s1 me = Some mh" using r(5) [of me] me dead(1) Cons.prems(4) by metis
    have "\<forall>c<4. \<forall>th. self s c \<noteq> 0 \<and> threads s1 (self s c) = Some th \<and> t_state th = THREAD_EXITED \<longrightarrow> self s c = me"
      using Cons.prems(8) nc r(5) by metis
    moreover have "set ts \<subseteq> set (g_all s1)" using Cons.prems(2,3) mem by auto
    ultimately show ?thesis using r tm mem me dead(1) by auto
  next
    case orphan
    have "0 \<le> t_id th" using Cons.prems(1) th(1) unfolding sched_inv_def by blast
    then have "sched_inv X Z s1 Q"
      unfolding orphan(3) by (intro inv_put [OF Cons.prems(1) th(1)])
        (use orphan inv_idle_not_all [OF Cons.prems(1) t] in auto)
    then show ?thesis using orphan Cons.prems me th by auto
  qed
  then show ?case using Cons.IH [of s1] Cons.prems(3-7) rest by auto
qed

lemma notify_parent_inv:
  assumes inv: "sched_inv X Z s Q"
  shows "\<exists>s' Q'. notify_parent s c pid = Some s' \<and> sched_inv X Z s' Q' \<and> advances (set (g_all s)) s Q s' Q'"
proof -
  obtain s1 Q1 where s1: "thread_signal_pid s c pid (int SIGCHLD) = Some s1" "sched_inv X Z s1 Q1"
    "advances (set (g_all s)) s Q s1 Q1"
    using thread_signal_pid_inv [OF inv] by metis
  show ?thesis
    using s1(2)
  proof (cases rule: thread_lookup_inv [where i = pid])
    case 1
    then show ?thesis using s1 by (auto simp: notify_parent_def)
  next
    case (2 p th)
    obtain s2 Q2 where s2: "(if t_state th = THREAD_WAITING
        then runq_push_to (put_thread s1 p (th\<lparr>t_state := THREAD_READY\<rparr>)) c p else Some s1) = Some s2"
      "sched_inv X Z s2 Q2" "advances {p} s1 Q1 s2 Q2"
      by (rule wake_step [OF s1(2) 2(2,3), of "t_state th = THREAD_WAITING" "\<lambda>th. th\<lparr>t_state := THREAD_READY\<rparr>" c])
        (auto simp: asleep_def)
    have "p \<in> set (g_all s)" using 2(2) advances_frame(1) [OF s1(3)] by simp
    then have "advances (set (g_all s)) s Q s2 Q2"
      by (intro advances_trans [OF s1(3) advances_mono [OF s2(3)]]) auto
    moreover have "notify_parent s c pid = Some s2"
      using s1(1) 2 s2(1) by (simp add: notify_parent_def)
    ultimately show ?thesis using s2(2) by blast
  qed
qed

lemma run_kern_inv:
  assumes inv: "sched_inv X Z s Q" and r: "run_kern s c f = Some s'"
  obtains k Q' where "f (set_kmem (kn s) ((kmem (kn s))\<lparr>log := []\<rparr>)) = Some k"
    "sched_inv X Z s' Q'" "advances (set (g_all s)) (s\<lparr>kn := set_kmem k ((kmem k)\<lparr>log := []\<rparr>)\<rparr>) Q s' Q'"
proof -
  obtain k where k: "f (set_kmem (kn s) ((kmem (kn s))\<lparr>log := []\<rparr>)) = Some k"
    and d: "deliver (s\<lparr>kn := set_kmem k ((kmem k)\<lparr>log := []\<rparr>)\<rparr>) c (log (kmem k)) = Some s'"
    using r by (auto simp: run_kern_def split: bind_splits)
  let ?s = "s\<lparr>kn := set_kmem k ((kmem k)\<lparr>log := []\<rparr>)\<rparr>"
  have "sched_inv X Z ?s Q" by (subst inv_cong [of ?s s]) (use inv in simp_all)
  then show thesis using deliver_inv [of X Z ?s Q c "log (kmem k)"] d that k by auto
qed

text \<open>The thread on processor \<open>c\<close> is one of the listed threads, and runs.\<close>

definition runs_on :: "sched \<Rightarrow> nat \<Rightarrow> bool" where
  "runs_on s c \<longleftrightarrow> c < SMP_MAX_CPUS \<and> self s c \<in> set (g_all s) \<and>
     (\<exists>th. threads s (self s c) = Some th \<and> t_state th = THREAD_RUNNING)"

lemma exit_prepare_inv:
  assumes inv: "sched_inv {} {} s Q" and run: "runs_on s c" and e: "exit_prepare s c code = Some s'"
  obtains Q' th' where "sched_inv {} {c} s' Q'" "self s' c = self s c" "threads s' (self s c) = Some th'"
    "t_state th' = THREAD_EXITED" "stack_to_free (g_cpus s' ! c) = self s c" "t_exit_code th' = code"
    "\<And>th. threads s (self s c) = Some th \<Longrightarrow> t_stack th' = t_stack th \<and> t_id th' = t_id th"
proof -
  let ?t = "self s c"
  have c: "c < 4" and mem: "?t \<in> set (g_all s)" using run by (auto simp: runs_on_def)
  obtain th where th: "threads s ?t = Some th" "t_state th = THREAD_RUNNING"
    using run by (auto simp: runs_on_def)
  have t0: "?t \<noteq> 0" and pid: "t_parent th \<noteq> t_id th" using inv_all [OF inv mem] th(1) by (metis option.inject)+
  have idpos: "0 \<le> t_id th" using inv th(1) unfolding sched_inv_def by blast
  let ?s1 = "put_thread s ?t (th\<lparr>t_exit_code := code\<rparr>)"
  let ?s2 = "emit (emit (emit ?s1 (WmDestroyOwner (t_id th))) (WsdRelease (t_id th))) (WinRelease (t_id th))"
  have inv2: "sched_inv {} {} ?s2 Q" using inv_put_same [OF inv th(1), of "th\<lparr>t_exit_code := code\<rparr>"] by simp
  obtain s3 s4 s5 th6 where s3: "run_kern ?s2 c (\<lambda>k. vfs_close_all k (Some (t_fdt th))) = Some s3"
    and s4: "upd_thread s3 ?t (\<lambda>th. th\<lparr>t_state := THREAD_EXITED\<rparr>) = Some s4"
    and s5: "exit_children s4 (t_id th) (g_all s4) = Some s5"
    and th6: "threads (put_cpu s5 c ((g_cpus s5 ! c)\<lparr>stack_to_free := ?t\<rparr>)) ?t = Some th6"
    and fin: "(if t_parent th6 \<ge> 0 then notify_parent (put_cpu s5 c ((g_cpus s5 ! c)\<lparr>stack_to_free := ?t\<rparr>)) c (t_parent th6)
        else Some (all_remove (put_cpu s5 c ((g_cpus s5 ! c)\<lparr>stack_to_free := ?t\<rparr>)) ?t)) = Some s'"
    using e th(1) by (clarsimp simp: exit_prepare_def Let_def Option.bind_eq_Some_conv)
  obtain k Q3 where inv3: "sched_inv {} {} s3 Q3"
    and adv: "advances (set (g_all ?s2)) (?s2\<lparr>kn := set_kmem k ((kmem k)\<lparr>log := []\<rparr>)\<rparr>) Q s3 Q3"
    by (rule run_kern_inv [OF inv2 s3])
  have f3: "self s3 d = self s d" "g_all s3 = g_all s" for d
    using advances_frame [OF adv] by (simp_all add: self_def)
  have "threads (?s2\<lparr>kn := set_kmem k ((kmem k)\<lparr>log := []\<rparr>)\<rparr>) ?t = Some (th\<lparr>t_exit_code := code\<rparr>)" by simp
  from adv this obtain th3 where th3: "threads s3 ?t = Some th3" "core th3 = core (th\<lparr>t_exit_code := code\<rparr>)"
    "t_state th3 = THREAD_RUNNING"
    by (rule advances_get) (use th(2) in \<open>simp add: asleep_def\<close>)
  have keep3: "t_id th3 = t_id th" "t_parent th3 = t_parent th" "t_stack th3 = t_stack th" "t_exit_code th3 = code"
      "t_home th3 = t_home th"
    using th3(2) unfolding core_def by (cases th; cases th3; simp)+
  let ?th4 = "th3\<lparr>t_state := THREAD_EXITED\<rparr>"
  have e4: "s4 = put_thread s3 ?t ?th4" using s4 th3(1) by (simp add: upd_thread_eq)
  have mem3: "?t \<in> set (g_all s3)" using mem f3 by simp
  have only: "d = c" if d: "d < 4" "self s d = ?t" for d
  proof -
    have "self s d \<noteq> 0" using d t0 by simp
    then obtain h where "threads s (self s d) = Some h" "t_home h = d" using inv_current [OF inv d(1)] by metis
    moreover obtain h' where "threads s ?t = Some h'" "t_home h' = c" using inv_current [OF inv c t0] by metis
    ultimately show ?thesis using d(2) by simp
  qed
  have inv4: "sched_inv {} {c} s4 Q3"
    unfolding e4
    by (rule inv_put [OF inv_mono [OF inv3] th3(1)])
      (use th3 inv_idle_not_all [OF inv3 mem3] only f3(1) in auto)
  have cur4: "\<forall>d<4. \<forall>th. self s4 d \<noteq> 0 \<and> threads s4 (self s4 d) = Some th \<and> t_state th = THREAD_EXITED \<longrightarrow>
      self s4 d = ?t"
  proof (intro allI impI)
    fix d uh assume d: "d < 4" "self s4 d \<noteq> 0 \<and> threads s4 (self s4 d) = Some uh \<and> t_state uh = THREAD_EXITED"
    have sl: "self s4 d = self s3 d" using e4 by simp
    show "self s4 d = ?t"
    proof (rule ccontr)
      assume "self s4 d \<noteq> ?t"
      then have "threads s3 (self s3 d) = Some uh" "self s3 d \<noteq> 0" using d(2) e4 sl by auto
      then show False using inv_current [OF inv3 d(1)] d(2) by (metis empty_iff option.inject)
    qed
  qed
  have p5: "sched_inv {} {c} s5 Q3 \<and> set (g_all s5) \<subseteq> set (g_all s4) \<and> (\<forall>c. self s5 c = self s4 c) \<and>
     g_cpus s5 = g_cpus s4 \<and> threads s5 ?t = Some ?th4 \<and> (?t \<in> set (g_all s4) \<longrightarrow> ?t \<in> set (g_all s5))"
    by (rule exit_children_inv [OF inv4 order_refl _ _ _ _ idpos cur4 s5])
      (use inv4 keep3 pid e4 in \<open>auto simp: sched_inv_def\<close>)
  let ?s6 = "put_cpu s5 c ((g_cpus s5 ! c)\<lparr>stack_to_free := ?t\<rparr>)"
  have inv6: "sched_inv {} {c} ?s6 Q3" and f6: "self ?s6 d = self s d" for d
    using inv_put_cpu [of "{}" "{c}" s5 Q3 "(g_cpus s5 ! c)\<lparr>stack_to_free := ?t\<rparr>" c] p5 e4 f3 by auto
  have t6: "threads ?s6 ?t = Some ?th4" using p5 by simp
  have st6: "stack_to_free (g_cpus ?s6 ! c) = ?t" using inv_cpus [OF inv6] c by simp
  have th6': "th6 = ?th4" using th6 t6 by simp
  show thesis
  proof (cases "t_parent th6 \<ge> 0")
    case True
    then obtain Q' where n: "sched_inv {} {c} s' Q'" "advances (set (g_all ?s6)) ?s6 Q3 s' Q'"
      using notify_parent_inv [OF inv6, of c "t_parent th6"] fin by auto
    obtain th' where th': "threads s' ?t = Some th'" "core th' = core ?th4" "t_state th' = THREAD_EXITED"
      using n(2) t6 by (rule advances_get) (auto simp: asleep_def)
    have kp: "t_stack th' = t_stack th" "t_exit_code th' = code" "t_id th' = t_id th"
      using th'(2) keep3 unfolding core_def by (cases th'; cases th3; simp)+
    show thesis
      by (rule that [OF n(1) _ th'(1,3)]) (use advances_frame [OF n(2)] f6 st6 kp th in auto)
  next
    case False
    then have e': "s' = all_remove ?s6 ?t" using fin by simp
    have "sched_inv {} {c} s' Q3"
      unfolding e'
    proof (rule all_remove_inv [OF inv6])
      show "\<forall>d<4. ?t \<notin> set (Q3 d)" using inv_not_queued [OF inv6 t6] by simp
      show "t_state h \<noteq> THREAD_RUNNING \<or> ?t = idle (g_cpus ?s6 ! d)" if "threads ?s6 ?t = Some h" for d h
        using that t6 by simp
    qed
    then show thesis
      by (rule that [of Q3 ?th4]) (use e' f6 t6 st6 keep3 th in auto)
  qed
qed

lemma thread_exit_inv:
  assumes inv: "sched_inv {} {} s Q" and run: "runs_on s c" and e: "thread_exit s c code sp = Some (s', y)"
    and y: "y \<noteq> YReturn"
  shows "\<exists>Q'. sched_inv {} {} s' Q'"
proof -
  obtain s1 where s1: "exit_prepare s c code = Some s1" and yi: "yield s1 c sp = Some (s', y)"
    using e by (auto simp: thread_exit_def split: bind_splits)
  have c: "c < 4" and t0: "self s c \<noteq> 0"
    using run inv_all [OF inv] by (auto simp: runs_on_def)
  obtain Q1 th' where p: "sched_inv {} {c} s1 Q1" "self s1 c = self s c"
    by (rule exit_prepare_inv [OF inv run s1])
  have "self s1 c \<noteq> 0" using p(2) t0 by simp
  then obtain Q2 zs where "sched_inv {} (if y = YReturn then {c} else {c} - {c}) s' (Q2(c := tl (Q2 c) @ zs))"
    by (rule yield_inv [OF p(1) c _ yi])
  then show ?thesis using y by auto
qed

section \<open>Sleeping, blocking, waiting\<close>

text \<open>The thread on processor \<open>c\<close> may set its own state: it is listed and has not been woken
  since it last ran.\<close>

definition unwoken :: "sched \<Rightarrow> nat \<Rightarrow> bool" where
  "unwoken s c \<longleftrightarrow> c < SMP_MAX_CPUS \<and> self s c \<in> set (g_all s) \<and>
     (\<exists>th. threads s (self s c) = Some th \<and> t_state th \<noteq> THREAD_READY)"

lemma runs_unwoken: "runs_on s c \<Longrightarrow> unwoken s c"
  by (auto simp: runs_on_def unwoken_def)

lemma own_state_inv:
  assumes inv: "sched_inv {} {} s Q" and u: "unwoken s c" "threads s (self s c) = Some th"
    and f: "t_next th' = t_next th" "t_home th' = t_home th" "t_id th' = t_id th" "t_parent th' = t_parent th"
    and st: "t_state th' \<noteq> THREAD_READY" "t_state th' \<noteq> THREAD_EXITED"
  shows "sched_inv {} {} (put_thread s (self s c) th') Q"
proof (rule inv_put [OF inv u(2)])
  show "t_state th' = THREAD_RUNNING \<Longrightarrow> t_state th = THREAD_RUNNING \<or> self s c \<in> set (g_all s)"
    using u by (simp add: unwoken_def)
  show "\<forall>d<4. self s c \<noteq> idle (g_cpus s ! d) \<or> self s c = 0"
    using inv_idle_not_all [OF inv] u(1) by (auto simp: unwoken_def)
qed (use u f st in \<open>auto simp: unwoken_def\<close>)

lemma yield_inv0:
  assumes "sched_inv {} {} s Q" "c < 4" "self s c \<noteq> 0" "yield s c sp = Some (s', y)"
  shows "\<exists>Q'. sched_inv {} {} s' Q'"
proof -
  obtain Q1 zs where "sched_inv {} (if y = YReturn then {} else {} - {c}) s' (Q1(c := tl (Q1 c) @ zs))"
    by (rule yield_inv [OF assms])
  then show ?thesis by (auto split: if_splits)
qed

lemma unwoken_own:
  assumes "sched_inv X Z s Q" "unwoken s c"
  obtains th where "threads s (self s c) = Some th" "t_state th \<noteq> THREAD_READY" "self s c \<noteq> 0" "c < 4"
    "self s c \<in> set (g_all s)"
  using assms inv_all [OF assms(1)] by (auto simp: unwoken_def)

lemma sleep_step_inv:
  assumes inv: "sched_inv {} {} s Q" and u: "unwoken s c" and r: "sleep_step s c target sp = Some (s', y)"
  shows "\<exists>Q'. sched_inv {} {} s' Q'"
proof -
  obtain th where th: "threads s (self s c) = Some th" "self s c \<noteq> 0" "c < 4"
    by (rule unwoken_own [OF inv u]) blast
  show ?thesis
  proof (cases "clock_ms s < target \<and> t_sig_pending th = 0")
    case True
    let ?s = "put_thread s (self s c) (th\<lparr>t_wake_at := target, t_state := THREAD_SLEEPING\<rparr>)"
    obtain y' where "yield ?s c sp = Some (s', y')" using r th(1) True by (auto simp: sleep_step_def split: bind_splits)
    moreover have "sched_inv {} {} ?s Q" by (rule own_state_inv [OF inv u th(1)]) simp_all
    ultimately show ?thesis using yield_inv0 [of ?s Q c sp s' y'] th by simp
  next
    case False
    then have "s' = put_thread s (self s c) (th\<lparr>t_state := THREAD_RUNNING\<rparr>)"
      using r th(1) unfolding sleep_step_def by (simp only: th option.simps bind.simps if_not_P [OF False]) simp
    then show ?thesis using own_state_inv [OF inv u th(1), of "th\<lparr>t_state := THREAD_RUNNING\<rparr>"] by auto
  qed
qed

text \<open>What the three blocking calls do up to their \<open>yield\<close>.\<close>

lemma block_mark:
  assumes th: "threads s (self s c) = Some th" "self s c \<noteq> 0"
    and r: "thread_block_on s c token sp = Some (s', y) \<or> thread_block_on_until s c token dl sp = Some (s', y) \<or>
      thread_block_on_held s c token sp = Some (s', y)"
  shows "\<exists>th'. t_next th' = t_next th \<and> t_home th' = t_home th \<and> t_id th' = t_id th \<and> t_parent th' = t_parent th \<and>
    t_state th' = THREAD_BLOCKED \<and> yield (put_thread s (self s c) th') c sp = Some (s', y)"
  using r
proof (elim disjE)
  assume "thread_block_on s c token sp = Some (s', y)"
  then show ?thesis using th
    by (intro exI [of _ "th\<lparr>t_blocked_on := token, t_state := THREAD_BLOCKED\<rparr>"])
      (simp add: thread_block_on_def upd_thread_eq)
next
  assume "thread_block_on_until s c token dl sp = Some (s', y)"
  then show ?thesis using th
    by (intro exI [of _ "th\<lparr>t_blocked_on := token, t_wake_at := dl, t_state := THREAD_BLOCKED\<rparr>"])
      (simp add: thread_block_on_until_def upd_thread_eq)
next
  assume "thread_block_on_held s c token sp = Some (s', y)"
  then show ?thesis using th
    by (intro exI [of _ "th\<lparr>t_blocked_on := token, t_state := THREAD_BLOCKED\<rparr>"])
      (simp add: thread_block_on_held_def block_on_held_enter_def upd_thread_eq)
qed

lemma block_inv:
  assumes inv: "sched_inv {} {} s Q" and u: "unwoken s c"
    and r: "thread_block_on s c token sp = Some (s', y) \<or> thread_block_on_until s c token dl sp = Some (s', y) \<or>
      thread_block_on_held s c token sp = Some (s', y)"
  shows "\<exists>Q'. sched_inv {} {} s' Q'"
proof -
  obtain th where th: "threads s (self s c) = Some th" "self s c \<noteq> 0" "c < 4"
    by (rule unwoken_own [OF inv u]) blast
  obtain th' where th': "t_next th' = t_next th" "t_home th' = t_home th" "t_id th' = t_id th"
      "t_parent th' = t_parent th" "t_state th' = THREAD_BLOCKED" "yield (put_thread s (self s c) th') c sp = Some (s', y)"
    using block_mark [OF th(1,2) r] by blast
  have "sched_inv {} {} (put_thread s (self s c) th') Q"
    by (rule own_state_inv [OF inv u th(1)]) (use th' in simp_all)
  then show ?thesis using yield_inv0 [OF _ th(3) _ th'(6)] th(2) by simp
qed

lemma wait_scan_found:
  "wait_scan s my_id target ts found = Some (m, Some t) \<Longrightarrow>
   m \<and> t \<in> set ts \<and> (\<exists>th. threads s t = Some th \<and> t_parent th = my_id \<and> t_state th = THREAD_EXITED \<and>
     (target > 0 \<longrightarrow> t_id th = target))"
proof (induction ts arbitrary: found)
  case Nil
  then show ?case by simp
next
  case (Cons u us)
  obtain uh where uh: "threads s u = Some uh" using Cons.prems by (auto split: bind_splits)
  show ?case
    using Cons.prems Cons.IH uh by (auto split: if_splits)
qed

lemma waitpid_inv:
  assumes inv: "sched_inv {} {} s Q" and u: "unwoken s c"
    and r: "thread_waitpid s c target options sp = Some (s', w)"
  shows "\<exists>Q'. sched_inv {} {} s' Q'"
proof -
  obtain me where me: "threads s (self s c) = Some me" "self s c \<noteq> 0" "c < 4"
    by (rule unwoken_own [OF inv u]) blast
  obtain m ex where sc: "wait_scan s (t_id me) target (g_all s) False = Some (m, ex)"
    using r me by (auto simp: thread_waitpid_def split: bind_splits)
  show ?thesis
  proof (cases ex)
    case (Some t)
    then have t: "t \<in> set (g_all s)" "m" using wait_scan_found sc by blast+
    obtain th where th: "threads s t = Some th" "t_state th = THREAD_EXITED"
      using wait_scan_found sc Some by blast
    have "reap s t = Some s'" using r me sc Some th t by (auto simp: thread_waitpid_def split: bind_splits)
    moreover have "\<forall>d<4. self s d \<noteq> t"
      using inv_current [OF inv] th inv_all [OF inv t(1)] by (metis empty_iff option.inject)
    ultimately show ?thesis using reap_inv(1) [OF inv t(1) th] by blast
  next
    case None
    show ?thesis
    proof (cases "\<not> m \<or> options AND 1 \<noteq> 0")
      case True
      then have "s' = s" using r me sc None by (cases m) (auto simp: thread_waitpid_def)
      then show ?thesis using inv by blast
    next
      case False
      let ?s = "put_thread s (self s c) (me\<lparr>t_state := THREAD_WAITING\<rparr>)"
      obtain y where "yield ?s c sp = Some (s', y)"
        using r me sc None False by (auto simp: thread_waitpid_def upd_thread_eq split: bind_splits)
      moreover have "sched_inv {} {} ?s Q" by (rule own_state_inv [OF inv u me(1)]) simp_all
      ultimately show ?thesis using yield_inv0 [of ?s Q c sp s' y] me by simp
    qed
  qed
qed
end
