(* ===== verification/SchedNew.thy ===== *)
theory SchedNew
  imports SchedInv
begin

text \<open>
  Creating threads keeps the invariant of the scheduler.
\<close>

section \<open>New threads\<close>

lemma sint_small: "unat (w :: u32) < 2 ^ 31 \<Longrightarrow> sint w = int (unat w)"
proof -
  assume a: "unat w < 2 ^ 31"
  have u: "uint w = int (unat w)" by (simp only: uint_nat)
  have "int (unat w) < 2 ^ 31" using a by (metis of_nat_less_iff of_nat_numeral of_nat_power)
  then have l: "uint w < 2 ^ 31" using u by (simp only:)
  have "- (2 ^ 31) \<le> (0 :: int)" by simp
  then have "- (2 ^ 31) \<le> uint w" using uint_ge_0 by (rule order_trans)
  then have "signed_take_bit 31 (uint w) = uint w" using l by (rule signed_take_bit_int_eq_self)
  moreover have "sint w = signed_take_bit 31 (uint w)" by (simp only: sint_uint) simp
  ultimately show ?thesis using u by (simp only:)
qed

lemma unat_suc_small: "unat (w :: u32) < 2 ^ 31 \<Longrightarrow> unat (w + 1) = unat w + 1"
proof -
  assume a: "unat w < 2 ^ 31"
  have "unat w + unat (1 :: u32) < 2 ^ LENGTH(32)" using a by simp
  then have "unat (w + 1) = unat w + unat (1 :: u32)" using unat_add_lem [of w 1] by blast
  then show ?thesis by simp
qed

text \<open>Adding a ready thread at an address no thread has.\<close>

lemma new_thread_inv:
  assumes inv: "sched_inv {} {} s Q" and fresh: "threads s t = None" "t \<noteq> 0" and small: "unat (g_next_id s) < 2 ^ 31"
    and s3: "threads s3 = (threads s)(t := Some th)" "g_all s3 = t # g_all s" "g_cpus s3 = g_cpus s"
      "g_next_id s3 = g_next_id s + 1"
    and th: "t_state th = THREAD_READY" "t_home th < 4" "t_id th = sint (g_next_id s)" "t_parent th \<noteq> t_id th"
  shows "sched_inv {t} {} s3 Q"
proof -
  have slf: "self s3 d = self s d" for d using s3(3) by (simp add: self_def)
  have ne: "u \<noteq> t" if "u \<in> set (g_all s)" for u
    by (rule inv_all [OF inv that]) (use fresh(1) in auto)
  have nc: "self s d \<noteq> t" if "d < 4" "self s d \<noteq> 0" for d
    by (rule inv_current [OF inv that]) (use fresh(1) in auto)
  have ni: "idle (g_cpus s ! d) \<noteq> t" if "d < 4" "idle (g_cpus s ! d) \<noteq> 0" for d
    by (rule inv_idle [OF inv that]) (use fresh(1) in auto)
  have nt: "t \<notin> set (g_all s)" using ne by auto
  have rq: "runq s3 d (Q d)" if d: "d < 4" for d
  proof -
    have "u \<noteq> t" if u: "u \<in> set (Q d)" for u
      by (rule inv_queued [OF inv d u]) (use fresh(1) in auto)
    then have "t \<notin> set (Q d)" by blast
    then have "chain (threads s3) h (Q d) = chain (threads s) h (Q d)" for h
      by (intro chain_cong) (use s3 in auto)
    then show ?thesis using inv_queue [OF inv d] s3 by (simp add: runq_def)
  qed
  show ?thesis
    unfolding sched_inv_def s3(2,3) slf
  proof (intro conjI)
    show "\<forall>d<4. runq s3 d (Q d) \<and> distinct (Q d)" using rq inv_queue [OF inv] by blast
    show "\<forall>c<4. \<forall>u\<in>set (Q c). u \<in> set (t # g_all s) \<and>
        (\<exists>th. threads s3 u = Some th \<and> t_state th = THREAD_READY \<and> t_home th = c)"
    proof (intro allI impI ballI)
      fix d u assume d: "d < 4" "u \<in> set (Q d)"
      obtain uh where "threads s u = Some uh" "t_state uh = THREAD_READY" "t_home uh = d" "u \<in> set (g_all s)"
        by (rule inv_queued [OF inv d])
      then show "u \<in> set (t # g_all s) \<and> (\<exists>th. threads s3 u = Some th \<and> t_state th = THREAD_READY \<and> t_home th = d)"
        using s3(1) ne by auto
    qed
    show "\<forall>u\<in>set (t # g_all s). \<exists>th. threads s3 u = Some th \<and> t_home th < 4 \<and> t_parent th \<noteq> t_id th \<and>
        (t_state th = THREAD_READY \<longrightarrow> u \<in> {t} \<or> u \<in> set (Q (t_home th)))"
    proof
      fix u assume u: "u \<in> set (t # g_all s)"
      show "\<exists>th. threads s3 u = Some th \<and> t_home th < 4 \<and> t_parent th \<noteq> t_id th \<and>
        (t_state th = THREAD_READY \<longrightarrow> u \<in> {t} \<or> u \<in> set (Q (t_home th)))"
      proof (cases "u = t")
        case True
        then show ?thesis using s3(1) th by simp
      next
        case False
        then have "u \<in> set (g_all s)" using u by simp
        then show ?thesis using inv_all [OF inv] s3(1) False by (metis empty_iff fun_upd_other)
      qed
    qed
    show "\<forall>d<4. self s d \<noteq> 0 \<longrightarrow> (\<exists>th. threads s3 (self s d) = Some th \<and> t_home th = d \<and>
        (t_state th = THREAD_RUNNING \<longrightarrow> self s d \<in> set (t # g_all s) \<or> self s d = idle (g_cpus s ! d)) \<and>
        (t_state th = THREAD_EXITED \<longrightarrow> d \<in> {}))"
    proof (intro allI impI)
      fix d assume d: "d < 4" "self s d \<noteq> 0"
      obtain uh where "threads s (self s d) = Some uh" "t_home uh = d"
        "t_state uh = THREAD_RUNNING \<Longrightarrow> self s d \<in> set (g_all s) \<or> self s d = idle (g_cpus s ! d)"
        "t_state uh = THREAD_EXITED \<Longrightarrow> d \<in> {}"
        by (rule inv_current [OF inv d]) blast
      then show "\<exists>th. threads s3 (self s d) = Some th \<and> t_home th = d \<and>
        (t_state th = THREAD_RUNNING \<longrightarrow> self s d \<in> set (t # g_all s) \<or> self s d = idle (g_cpus s ! d)) \<and>
        (t_state th = THREAD_EXITED \<longrightarrow> d \<in> {})"
        using s3(1) nc [OF d] by auto
    qed
    show "\<forall>d<4. idle (g_cpus s ! d) \<noteq> 0 \<longrightarrow> idle (g_cpus s ! d) \<notin> set (t # g_all s) \<and>
        (\<exists>th. threads s3 (idle (g_cpus s ! d)) = Some th \<and> t_home th = d \<and> t_state th = THREAD_RUNNING)"
      using inv ni s3(1) unfolding sched_inv_def by (metis fun_upd_other set_ConsD)
    show "\<forall>u uh. threads s3 u = Some uh \<longrightarrow> 0 \<le> t_id uh \<and> t_id uh < int (unat (g_next_id s3))"
    proof (intro allI impI)
      fix u uh assume u: "threads s3 u = Some uh"
      have n: "unat (g_next_id s3) = unat (g_next_id s) + 1" using s3(4) unat_suc_small [OF small] by simp
      show "0 \<le> t_id uh \<and> t_id uh < int (unat (g_next_id s3))"
      proof (cases "u = t")
        case True
        then show ?thesis using u s3(1) th(3) sint_small [OF small] n by simp
      next
        case False
        then have "threads s u = Some uh" using u s3(1) by simp
        then have "0 \<le> t_id uh \<and> t_id uh < int (unat (g_next_id s))" using inv unfolding sched_inv_def by blast
        then show ?thesis using n by simp
      qed
    qed
  qed (use inv nt fresh(2) in \<open>auto simp: sched_inv_def\<close>)
qed

lemma new_thread_pushed:
  assumes inv: "sched_inv {} {} s Q" and fresh: "threads s t = None" "t \<noteq> 0" and small: "unat (g_next_id s) < 2 ^ 31"
    and s3: "threads s3 = (threads s)(t := Some th)" "g_all s3 = g_all s" "g_cpus s3 = g_cpus s"
      "g_next_id s3 = g_next_id s + 1"
    and th: "t_state th = THREAD_READY" "t_home th < 4" "t_id th = sint (g_next_id s)" "t_parent th \<noteq> t_id th"
    and s4: "upd_thread (all_push s3 t) t f = Some s4"
    and f: "t_state (f th) = t_state th" "t_home (f th) = t_home th" "t_id (f th) = t_id th" "t_parent (f th) = t_parent th"
  obtains s5 Q' where "runq_push_on s4 (t_home th) t = Some s5" "sched_inv {} {} s5 Q'"
    "threads s4 t = Some (f th)"
proof -
  have e: "s4 = put_thread (all_push s3 t) t (f th)"
    using s4 s3(1) by (simp add: upd_thread_def all_push_def)
  have inv4: "sched_inv {t} {} s4 Q"
    by (rule new_thread_inv [OF inv fresh small, where th = "f th"]) (use s3 th f in \<open>simp_all add: e all_push_def\<close>)
  have t4: "threads s4 t = Some (f th)" by (simp add: e)
  have "u \<noteq> t" if u: "u \<in> set (Q (t_home th))" for u
    by (rule inv_queued [OF inv th(2) u]) (use fresh(1) in auto)
  then have nq: "t \<notin> set (Q (t_home th))" by blast
  have mem: "t \<in> set (g_all s4)" by (simp add: e all_push_def)
  obtain s5 where s5: "runq_push_on s4 (t_home th) t = Some s5"
    "sched_inv ({t} - {t}) {} s5 (Q(t_home th := Q (t_home th) @ [t]))"
    by (rule inv_push [OF inv4 th(2) t4 _ f(2) mem nq]) (use th(1) f(1) in auto)
  show thesis by (rule that [OF s5(1) _ t4]) (use s5(2) in simp)
qed

lemma init_fdtable_frame:
  assumes "vfs_init_fdtable s t = Some s'" "t \<noteq> 0" "threads s t = Some th"
  obtains p where "threads s' = (threads s)(t := Some (th\<lparr>t_fdt := p\<rparr>))" "g_all s' = g_all s"
    "g_cpus s' = g_cpus s" "g_next_id s' = g_next_id s"
proof (cases "t_fdt th = 0")
  case False
  then have "s' = s" using assms by (simp add: vfs_init_fdtable_def)
  moreover have "th\<lparr>t_fdt := t_fdt th\<rparr> = th" by simp
  ultimately show thesis using that [of "t_fdt th"] assms(3) by (simp add: fun_upd_idem)
next
  case True
  then obtain k p where "s' = put_thread (s\<lparr>kn := k\<rparr>) t (th\<lparr>t_fdt := p\<rparr>)"
    using assms by (auto simp: vfs_init_fdtable_def split: bind_splits)
  then show thesis using that by simp
qed

lemma attach_fdt_frame:
  assumes "attach_fdt s cur t share = Some s'" "t \<noteq> 0" "threads s t = Some th"
  obtains p where "threads s' = (threads s)(t := Some (th\<lparr>t_fdt := p\<rparr>))" "g_all s' = g_all s"
    "g_cpus s' = g_cpus s" "g_next_id s' = g_next_id s"
proof (cases "vfs_init_fdtable s t = Some s'")
  case True
  then show thesis using init_fdtable_frame [OF _ assms(2,3)] that by metis
next
  case False
  then obtain p k where "s' = put_thread s t (th\<lparr>t_fdt := p\<rparr>)\<lparr>kn := k\<rparr>"
    using assms(1,3) by (auto simp: attach_fdt_def upd_thread_eq split: option.splits if_splits bind_splits)
  then show thesis using that by simp
qed

lemma kmalloc_frame:
  assumes "sched_kmalloc s n = Some (s', p)"
  shows "threads s' = threads s \<and> g_all s' = g_all s \<and> g_cpus s' = g_cpus s \<and> g_next_id s' = g_next_id s"
  using assms by (auto simp: sched_kmalloc_def split: bind_splits)

lemma alloc_thread_frame:
  assumes a: "alloc_thread s = Some (s', r)"
  shows "threads s' = threads s \<and> g_all s' = g_all s \<and> g_cpus s' = g_cpus s \<and> g_next_id s' = g_next_id s"
    "r = Some (t, stk) \<Longrightarrow> t \<noteq> 0"
proof -
  obtain s1 t1 where s1: "sched_kmalloc s SIZEOF_THREAD = Some (s1, t1)"
    and r1: "(if t1 = 0 then Some (s1, None)
          else do {
            (s2, stk) \<leftarrow> sched_kmalloc s1 THREAD_STACK_SIZE;
            if stk = 0 then do { s3 \<leftarrow> sched_kfree s2 t1; Some (s3, None) }
            else Some (s2, Some (t1, stk)) }) = Some (s', r)"
    using a by (auto simp: alloc_thread_def split: bind_splits)
  note f1 = kmalloc_frame [OF s1]
  have "(threads s' = threads s \<and> g_all s' = g_all s \<and> g_cpus s' = g_cpus s \<and> g_next_id s' = g_next_id s) \<and>
    (r = Some (t, stk) \<longrightarrow> t \<noteq> 0)"
  proof (cases "t1 = 0")
    case True
    then show ?thesis using r1 f1 by simp
  next
    case False
    then obtain s2 k where s2: "sched_kmalloc s1 THREAD_STACK_SIZE = Some (s2, k)"
      and r2: "(if k = 0 then do { s3 \<leftarrow> sched_kfree s2 t1; Some (s3, None) } else Some (s2, Some (t1, k))) = Some (s', r)"
      using r1 by (auto split: bind_splits)
    note f2 = kmalloc_frame [OF s2]
    show ?thesis
    proof (cases "k = 0")
      case True
      then have "sched_kfree s2 t1 = Some s'" "r = None" using r2 by (auto split: bind_splits)
      then show ?thesis using f1 f2 sched_kfree_frame [of s2 t1 s'] by simp
    next
      case False
      then show ?thesis using r2 f1 f2 \<open>t1 \<noteq> 0\<close> by auto
    qed
  qed
  then show "threads s' = threads s \<and> g_all s' = g_all s \<and> g_cpus s' = g_cpus s \<and> g_next_id s' = g_next_id s"
    "r = Some (t, stk) \<Longrightarrow> t \<noteq> 0" by blast+
qed

text \<open>All creating functions end the same way: the new thread, with whatever \<open>f\<close> sets besides, goes on the
  list of all threads and on the queue of its processor.\<close>

lemma attach_unshared: "attach_fdt s cur t False = vfs_init_fdtable s t"
  by (simp add: attach_fdt_def)

definition frame_only :: "(thread \<Rightarrow> thread) \<Rightarrow> bool" where
  "frame_only f \<longleftrightarrow> (\<forall>x. t_state (f x) = t_state x \<and> t_home (f x) = t_home x \<and> t_id (f x) = t_id x \<and>
     t_parent (f x) = t_parent x)"

lemma push_to_local:
  "threads s t = Some th \<Longrightarrow> t_home th = c \<Longrightarrow> runq_push_local s c t = runq_push_to s c t"
  by (simp add: runq_push_to_def)

lemma push_to_remote:
  "threads s t = Some th \<Longrightarrow> t_home th = target \<Longrightarrow> target < 4 \<Longrightarrow>
   runq_push_remote s c target t = runq_push_to s c t"
  by (auto simp: runq_push_to_def runq_push_remote_def runq_push_local_def)

lemma launch_inv:
  assumes inv: "sched_inv {} {} s Q" and fresh: "threads s t = None" "t \<noteq> 0" and small: "unat (g_next_id s) < 2 ^ 31"
    and s3: "threads s3 = (threads s)(t := Some (th\<lparr>t_fdt := p\<rparr>))" "g_all s3 = g_all s" "g_cpus s3 = g_cpus s"
      "g_next_id s3 = g_next_id s + 1"
    and th: "t_state th = THREAD_READY" "t_home th < 4" "t_id th = sint (g_next_id s)" "t_parent th \<noteq> t_id th"
    and s4: "upd_thread (all_push s3 t) t f = Some s4" and f: "frame_only f"
    and s5: "\<And>u. threads s4 t = Some u \<Longrightarrow> t_home u = t_home th \<Longrightarrow> runq_push_to s4 c t = Some s5"
  obtains Q' where "sched_inv {} {} (count_thread s5) Q'"
proof -
  let ?th = "th\<lparr>t_fdt := p\<rparr>"
  have thp: "t_state ?th = THREAD_READY" "t_home ?th < 4" "t_id ?th = sint (g_next_id s)" "t_parent ?th \<noteq> t_id ?th"
    using th by simp_all
  have fp: "t_state (f ?th) = t_state ?th" "t_home (f ?th) = t_home ?th" "t_id (f ?th) = t_id ?th"
    "t_parent (f ?th) = t_parent ?th"
    using f unfolding frame_only_def by blast+
  obtain s6 Q' where s6: "runq_push_on s4 (t_home ?th) t = Some s6" "sched_inv {} {} s6 Q'"
    "threads s4 t = Some (f ?th)"
    by (rule new_thread_pushed [OF inv fresh small s3 thp s4 fp])
  have h: "t_home (f ?th) = t_home th" "t_home th < 4" using fp(2) th(2) by simp_all
  have "s5 = s6 \<or> s5 = emit s6 (Ipi (t_home th))"
    using s5 [OF s6(3)] s6(1,3) h unfolding runq_push_to_def runq_push_local_def runq_push_remote_def
    by (auto split: if_splits)
  then have "sched_inv {} {} s5 Q'" using s6(2) by auto
  then have "sched_inv {} {} (count_thread s5) Q'"
    using inv_cong [of "count_thread s5" s5] by (simp add: count_thread_def)
  then show thesis by (rule that)
qed

text \<open>The parent of a new thread is not the new thread.\<close>

lemma parent_id_fresh:
  assumes inv: "sched_inv {} {} s Q" and small: "unat (g_next_id s) < 2 ^ 31"
    and p: "parent_id s2 cur = Some par" "threads s2 = threads s"
  shows "par \<noteq> sint (g_next_id s)"
proof (cases "cur = 0")
  case True
  then have "par = - 1" using p by (simp add: parent_id_def)
  moreover have "0 \<le> sint (g_next_id s)" using sint_small [OF small] by linarith
  ultimately show ?thesis by linarith
next
  case False
  then obtain me where "threads s cur = Some me" "t_id me = par" using p by (auto simp: parent_id_def)
  then have "par < int (unat (g_next_id s))" using inv unfolding sched_inv_def by blast
  then show ?thesis using sint_small [OF small] by linarith
qed

lemma inherit_paths_frame:
  "inherit_paths s cur th = Some th' \<Longrightarrow> t_state th' = t_state th \<and> t_home th' = t_home th \<and> t_id th' = t_id th \<and>
   t_parent th' = t_parent th"
  by (auto simp: inherit_paths_def split: if_splits bind_splits)

lemma base_thread_fields [simp]:
  "t_state (base_thread s t stk tid par home) = THREAD_READY"
  "t_home (base_thread s t stk tid par home) = home"
  "t_id (base_thread s t stk tid par home) = tid"
  "t_parent (base_thread s t stk tid par home) = par"
  by (simp_all add: base_thread_def)

text \<open>From the allocation on: \<open>s1\<close> is the state after it, \<open>s3\<close> the one with the descriptor table.\<close>

lemma built_thread_inv:
  assumes inv: "sched_inv {} {} s Q" and small: "unat (g_next_id s) < 2 ^ 31"
    and al: "alloc_thread s = Some (s1, Some (t, stk))" and fresh: "threads s t = None"
    and s2: "threads s2 = threads s1" "g_all s2 = g_all s1" "g_cpus s2 = g_cpus s1" "g_next_id s2 = g_next_id s1 + 1"
    and th: "t_state th = THREAD_READY" "t_home th < 4" "t_id th = sint (g_next_id s1)" "t_parent th \<noteq> t_id th"
    and s3: "attach_fdt (put_thread s2 t th) cur t share = Some s3"
    and s4: "upd_thread (all_push (s3\<lparr>kn := k\<rparr>) t) t f = Some s4" and f: "frame_only f"
    and s5: "\<And>u. threads s4 t = Some u \<Longrightarrow> t_home u = t_home th \<Longrightarrow> runq_push_to s4 c t = Some s5"
  obtains Q' where "sched_inv {} {} (count_thread s5) Q'"
proof -
  note a = alloc_thread_frame(1) [OF al]
  have t0: "t \<noteq> 0" using alloc_thread_frame(2) [OF al] by blast
  have pt: "threads (put_thread s2 t th) t = Some th" by simp
  obtain p where p: "threads s3 = (threads (put_thread s2 t th))(t := Some (th\<lparr>t_fdt := p\<rparr>))"
    "g_all s3 = g_all (put_thread s2 t th)" "g_cpus s3 = g_cpus (put_thread s2 t th)"
    "g_next_id s3 = g_next_id (put_thread s2 t th)"
    by (rule attach_fdt_frame [OF s3 t0 pt])
  show thesis
  proof (rule launch_inv [OF inv fresh t0 small, where ?s3.0 = "s3\<lparr>kn := k\<rparr>" and th = th and p = p and f = f and c = c])
    show "threads (s3\<lparr>kn := k\<rparr>) = (threads s)(t := Some (th\<lparr>t_fdt := p\<rparr>))" using p(1) s2(1) a by simp
    show "t_id th = sint (g_next_id s)" using th(3) a by simp
  qed (use that p s2 a th s4 s5 f in auto)
qed

lemma alloc_id_frame:
  "alloc_thread_id s1 = (s2, tid) \<Longrightarrow>
   threads s2 = threads s1 \<and> g_all s2 = g_all s1 \<and> g_cpus s2 = g_cpus s1 \<and> g_next_id s2 = g_next_id s1 + 1 \<and>
   tid = sint (g_next_id s1)"
  by (auto simp: alloc_thread_id_def)

lemma alloc_fail_inv:
  "sched_inv {} {} s Q \<Longrightarrow> alloc_thread s = Some (s1, r) \<Longrightarrow> sched_inv {} {} s1 Q"
  by (frule alloc_thread_frame(1)) (simp add: inv_cong [of s1 s])

text \<open>The heap gives out no address at which there is a thread, and identifiers have not run out.\<close>

definition room :: "sched \<Rightarrow> bool" where
  "room s \<longleftrightarrow> unat (g_next_id s) < 2 ^ 31 \<and>
     (case sched_kmalloc s SIZEOF_THREAD of None \<Rightarrow> True | Some (s1, t) \<Rightarrow> t = 0 \<or> threads s t = None)"

lemma room_fresh:
  assumes "room s" "sched_kmalloc s SIZEOF_THREAD = Some (s1, t)" "t \<noteq> 0"
  shows "threads s t = None"
  using assms by (simp add: room_def)

lemma room_ids: "room s \<Longrightarrow> unat (g_next_id s) < 2 ^ 31"
  unfolding room_def by (rule conjunct1)

lemma alloc_thread_first:
  assumes "alloc_thread s = Some (s1, Some (t, stk))"
  shows "\<exists>s2. sched_kmalloc s SIZEOF_THREAD = Some (s2, t) \<and> t \<noteq> 0"
proof -
  obtain s2 t1 where m: "sched_kmalloc s SIZEOF_THREAD = Some (s2, t1)"
    using assms by (auto simp: alloc_thread_def split: bind_splits)
  then show ?thesis using assms by (auto simp: alloc_thread_def split: bind_splits if_splits)
qed

lemma room_alloc: "room s \<Longrightarrow> alloc_thread s = Some (s1, Some (t, stk)) \<Longrightarrow> threads s t = None"
  using alloc_thread_first room_fresh by blast

lemma thread_create_inv:
  assumes inv: "sched_inv {} {} s Q" and room: "room s" and c: "c < 4"
    and r: "thread_create s c e a nm = Some (s', t)"
  obtains Q' where "sched_inv {} {} s' Q'"
proof -
  obtain s1 q where al: "alloc_thread s = Some (s1, q)" using r by (auto simp: thread_create_def split: bind_splits)
  show thesis
  proof (cases q)
    case None
    then show thesis using r al alloc_fail_inv [OF inv al] that by (simp add: thread_create_def)
  next
    case (Some tk)
    obtain t1 stk where tk: "tk = (t1, stk)" by (cases tk)
    obtain s2 tid where id2: "alloc_thread_id s1 = (s2, tid)" by (cases "alloc_thread_id s1")
    obtain par th s3 s4 s5 where par: "parent_id s2 (self s2 c) = Some par"
      and th: "inherit_paths s2 (self s2 c) (base_thread s2 t1 stk tid par c) = Some th"
      and s3: "vfs_init_fdtable (put_thread s2 t1 (th\<lparr>t_name := name_of nm\<rparr>)) t1 = Some s3"
      and s4: "upd_thread (all_push s3 t1) t1 (\<lambda>th. th\<lparr>t_sp := frame_at stk,
                      t_frame := launch_frame e a 0 0 (fst (trampolines s))\<rparr>) = Some s4"
      and s5: "runq_push_local s4 c t1 = Some s5" and s': "s' = count_thread s5" "t = t1"
      using r by (clarsimp simp: thread_create_def al [unfolded Some tk] id2 Option.bind_eq_Some_conv)
    note i2 = alloc_id_frame [OF id2] and a1 = alloc_thread_frame(1) [OF al]
    note al' = al [unfolded Some tk]
    have t0: "t1 \<noteq> 0" using alloc_thread_frame(2) [OF al'] by blast
    have pf: "par \<noteq> sint (g_next_id s)" using parent_id_fresh [OF inv room_ids [OF room] par] i2 a1 by simp
    note ip = inherit_paths_frame [OF th]
    show thesis
    proof (rule built_thread_inv [OF inv room_ids [OF room] al'])
      show "threads s t1 = None" by (rule room_alloc [OF room al'])
      show "attach_fdt (put_thread s2 t1 (th\<lparr>t_name := name_of nm\<rparr>)) 0 t1 False = Some s3" using s3 attach_unshared by simp
      show "upd_thread (all_push (s3\<lparr>kn := kn s3\<rparr>) t1) t1 (\<lambda>th. th\<lparr>t_sp := frame_at stk,
                      t_frame := launch_frame e a 0 0 (fst (trampolines s))\<rparr>) = Some s4" using s4 by simp
      show "runq_push_to s4 c t1 = Some s5" if "threads s4 t1 = Some u" "t_home u = t_home (th\<lparr>t_name := name_of nm\<rparr>)" for u
        using push_to_local [OF that(1)] that(2) ip s5 by simp
      show "frame_only (\<lambda>th. th\<lparr>t_sp := frame_at stk, t_frame := launch_frame e a 0 0 (fst (trampolines s))\<rparr>)"
        by (simp add: frame_only_def)
    qed (use ip i2 a1 c pf s' that in auto)
  qed
qed

lemma thread_create_on_inv:
  assumes inv: "sched_inv {} {} s Q" and room: "room s"
    and r: "thread_create_on s c target e a nm = Some (s', t)"
  obtains Q' where "sched_inv {} {} s' Q'"
proof (cases "target < 4")
  case False
  then show thesis using r inv that by (simp add: thread_create_on_def)
next
  case tg: True
  obtain s1 q where al: "alloc_thread s = Some (s1, q)"
    using r tg by (auto simp: thread_create_on_def split: bind_splits)
  show thesis
  proof (cases q)
    case None
    then show thesis using r al tg alloc_fail_inv [OF inv al] that by (simp add: thread_create_on_def)
  next
    case (Some tk)
    obtain t1 stk where tk: "tk = (t1, stk)" by (cases tk)
    obtain s2 tid where id2: "alloc_thread_id s1 = (s2, tid)" by (cases "alloc_thread_id s1")
    let ?f = "\<lambda>th. th\<lparr>t_sp := frame_at stk, t_frame := launch_frame e a 0 0 (fst (trampolines s))\<rparr>"
    let ?th = "\<lambda>par. (base_thread s2 t1 stk tid par target)\<lparr>t_name := name_of nm\<rparr>"
    obtain par s3 s4 s5 where par: "parent_id s2 (self s2 c) = Some par"
      and s3: "vfs_init_fdtable (put_thread s2 t1 (?th par)) t1 = Some s3"
      and s4: "upd_thread (all_push s3 t1) t1 ?f = Some s4"
      and s5: "runq_push_remote s4 c target t1 = Some s5" and s': "s' = count_thread s5" "t = t1"
      using r tg by (clarsimp simp: thread_create_on_def al [unfolded Some tk] id2 Option.bind_eq_Some_conv)
    note i2 = alloc_id_frame [OF id2] and a1 = alloc_thread_frame(1) [OF al]
    note al' = al [unfolded Some tk]
    have t0: "t1 \<noteq> 0" using alloc_thread_frame(2) [OF al'] by blast
    have pf: "par \<noteq> sint (g_next_id s)" using parent_id_fresh [OF inv room_ids [OF room] par] i2 a1 by simp
    show thesis
    proof (rule built_thread_inv [OF inv room_ids [OF room] al'])
      show "threads s t1 = None" by (rule room_alloc [OF room al'])
      show "attach_fdt (put_thread s2 t1 (?th par)) 0 t1 False = Some s3" using s3 attach_unshared by simp
      show "upd_thread (all_push (s3\<lparr>kn := kn s3\<rparr>) t1) t1 ?f = Some s4" using s4 by simp
      show "runq_push_to s4 c t1 = Some s5" if "threads s4 t1 = Some u" "t_home u = t_home (?th par)" for u
        using push_to_remote [OF that(1)] that(2) tg s5 by simp
      show "frame_only ?f" by (simp add: frame_only_def)
    qed (use i2 a1 tg pf s' that in auto)
  qed
qed

lemma user_thread_create_inv:
  assumes inv: "sched_inv {} {} s Q" and room: "room s" and c: "c < 4"
    and r: "user_thread_create s c e a nm as = Some (s', t)"
  obtains Q' where "sched_inv {} {} s' Q'"
proof -
  obtain s1 q where al: "alloc_thread s = Some (s1, q)" using r by (auto simp: user_thread_create_def split: bind_splits)
  show thesis
  proof (cases q)
    case None
    then show thesis using r al alloc_fail_inv [OF inv al] that by (simp add: user_thread_create_def)
  next
    case (Some tk)
    obtain t1 stk where tk: "tk = (t1, stk)" by (cases tk)
    obtain s2 tid where id2: "alloc_thread_id s1 = (s2, tid)" by (cases "alloc_thread_id s1")
    let ?f = "\<lambda>th. th\<lparr>t_sp := frame_at stk, t_frame := launch_frame e a 0 0 (fst (snd (trampolines s)))\<rparr>"
    let ?th = "\<lambda>th. th\<lparr>t_name := name_of (Some (case nm of None \<Rightarrow> ''user'' | Some n \<Rightarrow> n)), t_as := as\<rparr>"
    obtain par th s3 s4 s5 where par: "parent_id s2 (self s2 c) = Some par"
      and th: "inherit_paths s2 (self s2 c) (base_thread s2 t1 stk tid par c) = Some th"
      and s3: "vfs_init_fdtable (put_thread s2 t1 (?th th)) t1 = Some s3"
      and s4: "upd_thread (all_push s3 t1) t1 ?f = Some s4"
      and s5: "runq_push_local s4 c t1 = Some s5" and s': "s' = count_thread s5" "t = t1"
      using r by (clarsimp simp: user_thread_create_def Let_def al [unfolded Some tk] id2 Option.bind_eq_Some_conv)
    note i2 = alloc_id_frame [OF id2] and a1 = alloc_thread_frame(1) [OF al]
    note al' = al [unfolded Some tk]
    have t0: "t1 \<noteq> 0" using alloc_thread_frame(2) [OF al'] by blast
    have pf: "par \<noteq> sint (g_next_id s)" using parent_id_fresh [OF inv room_ids [OF room] par] i2 a1 by simp
    note ip = inherit_paths_frame [OF th]
    show thesis
    proof (rule built_thread_inv [OF inv room_ids [OF room] al'])
      show "threads s t1 = None" by (rule room_alloc [OF room al'])
      show "attach_fdt (put_thread s2 t1 (?th th)) 0 t1 False = Some s3" using s3 attach_unshared by simp
      show "upd_thread (all_push (s3\<lparr>kn := kn s3\<rparr>) t1) t1 ?f = Some s4" using s4 by simp
      show "runq_push_to s4 c t1 = Some s5" if "threads s4 t1 = Some u" "t_home u = t_home (?th th)" for u
        using push_to_local [OF that(1)] that(2) ip s5 by simp
      show "frame_only ?f" by (simp add: frame_only_def)
    qed (use ip i2 a1 c pf s' that in auto)
  qed
qed

lemma shared_files_inv:
  assumes inv: "sched_inv {} {} s Q" and room: "room s" and c: "c < 4"
    and r: "user_thread_create_shared_files_on s c e sp nm as a tls cpu_id share = Some (s', t)"
   
  obtains Q' where "sched_inv {} {} s' Q'"
proof (cases "as = 0 \<or> cpu_id \<ge> int 4")
  case True
  then show thesis using r inv that by (auto simp: user_thread_create_shared_files_on_def split: if_splits)
next
  case ok: False
  let ?target = "if cpu_id < 0 then c else nat cpu_id"
  have tg: "?target < 4" using ok c by auto
  obtain s1 q where al: "alloc_thread s = Some (s1, q)"
    using r ok by (auto simp: user_thread_create_shared_files_on_def split: bind_splits)
  show thesis
  proof (cases q)
    case None
    then show thesis using r al ok alloc_fail_inv [OF inv al] that
      by (simp add: user_thread_create_shared_files_on_def)
  next
    case (Some tk)
    obtain t1 stk where tk: "tk = (t1, stk)" by (cases tk)
    obtain s2 tid where id2: "alloc_thread_id s1 = (s2, tid)" by (cases "alloc_thread_id s1")
    let ?f = "\<lambda>th. th\<lparr>t_sp := frame_at stk, t_frame := launch_frame e sp a tls (snd (snd (trampolines s)))\<rparr>"
    let ?th = "\<lambda>th. th\<lparr>t_name := name_of (Some (case nm of None \<Rightarrow> ''thread'' | Some n \<Rightarrow> n)), t_as := as\<rparr>"
    obtain par th s3 s4 s5 where par: "parent_id s2 (self s2 c) = Some par"
      and th: "inherit_paths s2 (self s2 c) (base_thread s2 t1 stk tid par ?target) = Some th"
      and s3: "attach_fdt (put_thread (emit s2 (AsShare as)) t1 (?th th)) (self s2 c) t1 share = Some s3"
      and s4: "upd_thread (all_push s3 t1) t1 ?f = Some s4"
      and s5: "runq_push_to s4 c t1 = Some s5" and s': "s' = count_thread s5" "t = t1"
      using r ok by (clarsimp simp: user_thread_create_shared_files_on_def Let_def al [unfolded Some tk] id2
          Option.bind_eq_Some_conv simp del: of_nat_numeral)
    note i2 = alloc_id_frame [OF id2] and a1 = alloc_thread_frame(1) [OF al]
    note al' = al [unfolded Some tk]
    have t0: "t1 \<noteq> 0" using alloc_thread_frame(2) [OF al'] by blast
    have pf: "par \<noteq> sint (g_next_id s)" using parent_id_fresh [OF inv room_ids [OF room] par] i2 a1 by simp
    note ip = inherit_paths_frame [OF th]
    show thesis
    proof (rule built_thread_inv [OF inv room_ids [OF room] al'])
      show "threads s t1 = None" by (rule room_alloc [OF room al'])
      show "attach_fdt (put_thread (emit s2 (AsShare as)) t1 (?th th)) (self s2 c) t1 share = Some s3" by (rule s3)
      show "upd_thread (all_push (s3\<lparr>kn := kn s3\<rparr>) t1) t1 ?f = Some s4" using s4 by simp
      show "frame_only ?f" by (simp add: frame_only_def)
      show "t_home (?th th) < 4" using ip tg by simp
      show "threads (emit s2 (AsShare as)) = threads s1" "g_all (emit s2 (AsShare as)) = g_all s1"
        "g_cpus (emit s2 (AsShare as)) = g_cpus s1" "g_next_id (emit s2 (AsShare as)) = g_next_id s1 + 1"
        using i2 by simp_all
    qed (use ip i2 a1 pf s' s5 that in auto)
  qed
qed

lemma thread_fork_user_inv:
  assumes inv: "sched_inv {} {} s Q" and room: "room s" and c: "c < 4"
    and r: "thread_fork_user s c parent as pf sp = Some (s', t)"
  obtains Q' where "sched_inv {} {} s' Q'"
proof (cases "pf = None \<or> parent = 0 \<or> as = 0")
  case True
  then have "s' = s" using r by (cases pf) (auto simp: thread_fork_user_def)
  then show thesis using inv that by blast
next
  case False
  then obtain fr where fr: "pf = Some fr" and ok: "parent \<noteq> 0" "as \<noteq> 0" by (cases pf) auto
  obtain s1 q where al: "alloc_thread s = Some (s1, q)"
    using r fr ok by (auto simp: thread_fork_user_def split: bind_splits)
  show thesis
  proof (cases q)
    case None
    then show thesis using r al fr ok alloc_fail_inv [OF inv al] that by (simp add: thread_fork_user_def)
  next
    case (Some tk)
    obtain t1 stk where tk: "tk = (t1, stk)" by (cases tk)
    obtain s2 tid where id2: "alloc_thread_id s1 = (s2, tid)" by (cases "alloc_thread_id s1")
    let ?f = "\<lambda>th. th\<lparr>t_sp := frame_at stk,
                        t_frame := \<lparr>f_x = (take 31 (f_x fr))[0 := 0], f_elr = f_elr fr,
                                    f_spsr = f_spsr fr, f_sp_el0 = sp\<rparr>\<rparr>"
    let ?th = "\<lambda>pa. (base_thread s2 t1 stk tid (t_id pa) c)
                  \<lparr>t_name := name_of (Some (t_name pa)), t_as := as, t_handlers := t_handlers pa,
                   t_restorer := t_restorer pa, t_args := take (THREAD_ARGS_MAX - 1) (cstr (t_args pa)),
                   t_cwd := copy_cwd (t_cwd pa), t_env := copy_env (t_env pa) (env_junk s2 t1)\<rparr>"
    obtain pa s3 k s4 s5 where pa: "threads s2 parent = Some pa"
      and s3: "vfs_init_fdtable (put_thread s2 t1 (?th pa)) t1 = Some s3"
      and s4: "upd_thread (all_push (s3\<lparr>kn := k\<rparr>) t1) t1 ?f = Some s4"
      and s5: "runq_push_local s4 c t1 = Some s5" and s': "s' = count_thread s5" "t = t1"
      using r fr ok by (clarsimp simp: thread_fork_user_def Let_def al [unfolded Some tk] id2 Option.bind_eq_Some_conv)
    note i2 = alloc_id_frame [OF id2] and a1 = alloc_thread_frame(1) [OF al]
    note al' = al [unfolded Some tk]
    have t0: "t1 \<noteq> 0" using alloc_thread_frame(2) [OF al'] by blast
    have "parent_id s2 parent = Some (t_id pa)" using pa ok by (simp add: parent_id_def)
    then have pf: "t_id pa \<noteq> sint (g_next_id s)" using parent_id_fresh [OF inv room_ids [OF room]] i2 a1 by simp
    show thesis
    proof (rule built_thread_inv [OF inv room_ids [OF room] al'])
      show "threads s t1 = None" by (rule room_alloc [OF room al'])
      show "attach_fdt (put_thread s2 t1 (?th pa)) 0 t1 False = Some s3" using s3 attach_unshared by simp
      show "upd_thread (all_push (s3\<lparr>kn := k\<rparr>) t1) t1 ?f = Some s4" by (rule s4)
      show "runq_push_to s4 c t1 = Some s5" if "threads s4 t1 = Some u" "t_home u = t_home (?th pa)" for u
        using push_to_local [OF that(1)] that(2) s5 by simp
      show "frame_only ?f" by (simp add: frame_only_def)
    qed (use i2 a1 c pf s' that in auto)
  qed
qed

section \<open>The first threads\<close>

text \<open>A thread that starts as the current one: the boot thread, which is on the list of all threads, or the
  idle thread of a secondary processor, which is not.\<close>

lemma first_thread_inv:
  assumes inv: "sched_inv {} {} s Q" and fresh: "threads s t = None" "t \<noteq> 0" and small: "unat (g_next_id s) < 2 ^ 31"
    and c: "c < 4" and none: "idle (g_cpus s ! c) = 0"
    and s3: "threads s3 = (threads s)(t := Some th)" "g_all s3 = (if listed then t # g_all s else g_all s)"
      "g_cpus s3 = (g_cpus s)[c := (g_cpus s ! c)\<lparr>current := t, idle := (if listed then 0 else t)\<rparr>]"
      "g_next_id s3 = g_next_id s + 1"
    and th: "t_state th = THREAD_RUNNING" "t_home th = c" "t_id th = sint (g_next_id s)" "t_parent th \<noteq> t_id th"
  shows "sched_inv {} {} s3 Q"
proof -
  have l4: "length (g_cpus s) = 4" by (rule inv_cpus [OF inv])
  have ne: "u \<noteq> t" if "u \<in> set (g_all s)" for u
    by (rule inv_all [OF inv that]) (use fresh(1) in auto)
  have nt: "t \<notin> set (g_all s)" using ne by auto
  have nq: "u \<noteq> t" if "d < 4" "u \<in> set (Q d)" for d u
    by (rule inv_queued [OF inv that]) (use fresh(1) in auto)
  have cpu: "runq_head (g_cpus s3 ! d) = runq_head (g_cpus s ! d)" "runq_tail (g_cpus s3 ! d) = runq_tail (g_cpus s ! d)"
    for d using s3(3) by (simp_all add: nth_upd)
  have rq: "runq s3 d (Q d) \<and> distinct (Q d)" if d: "d < 4" for d
  proof -
    have "t \<notin> set (Q d)" using nq [OF d] by blast
    then have "chain (threads s3) h (Q d) = chain (threads s) h (Q d)" for h
      by (intro chain_cong) (use s3(1) in auto)
    then show ?thesis using inv_queue [OF inv d] cpu by (simp add: runq_def)
  qed
  have queued: "u \<in> set (g_all s3) \<and> (\<exists>th. threads s3 u = Some th \<and> t_state th = THREAD_READY \<and> t_home th = d)"
    if d: "d < 4" "u \<in> set (Q d)" for d u
    by (rule inv_queued [OF inv d]) (use s3(1,2) ne in auto)
  have all: "\<exists>uh. threads s3 u = Some uh \<and> t_home uh < 4 \<and> t_parent uh \<noteq> t_id uh \<and>
      (t_state uh = THREAD_READY \<longrightarrow> u \<in> {} \<or> u \<in> set (Q (t_home uh)))" if u: "u \<in> set (g_all s3)" for u
  proof (cases "u = t")
    case True
    then show ?thesis using s3(1) th c by simp
  next
    case False
    then have "u \<in> set (g_all s)" using u s3(2) by (simp split: if_splits)
    then show ?thesis by (rule inv_all [OF inv]) (use s3(1) False in auto)
  qed
  have cur: "\<exists>uh. threads s3 (self s3 d) = Some uh \<and> t_home uh = d \<and>
      (t_state uh = THREAD_RUNNING \<longrightarrow> self s3 d \<in> set (g_all s3) \<or> self s3 d = idle (g_cpus s3 ! d)) \<and>
      (t_state uh = THREAD_EXITED \<longrightarrow> d \<in> {})" if d: "d < 4" "self s3 d \<noteq> 0" for d
  proof (cases "d = c")
    case True
    then show ?thesis using s3 th c l4 by (simp add: self_def nth_upd)
  next
    case False
    then have e: "self s3 d = self s d" "idle (g_cpus s3 ! d) = idle (g_cpus s ! d)"
      using s3(3) by (simp_all add: self_def nth_upd)
    have "self s d \<noteq> 0" using d e by simp
    then obtain uh where uh: "threads s (self s d) = Some uh" "t_home uh = d"
      "t_state uh = THREAD_RUNNING \<Longrightarrow> self s d \<in> set (g_all s) \<or> self s d = idle (g_cpus s ! d)"
      "t_state uh = THREAD_EXITED \<Longrightarrow> d \<in> {}"
      using inv_current [OF inv d(1)] by blast
    moreover have "self s d \<noteq> t" using uh(1) fresh(1) by auto
    ultimately show ?thesis using e s3(1,2) by auto
  qed
  have idl: "idle (g_cpus s3 ! d) \<notin> set (g_all s3) \<and> (\<exists>uh. threads s3 (idle (g_cpus s3 ! d)) = Some uh \<and>
      t_home uh = d \<and> t_state uh = THREAD_RUNNING)" if d: "d < 4" "idle (g_cpus s3 ! d) \<noteq> 0" for d
  proof (cases "d = c")
    case True
    then have "\<not> listed" "idle (g_cpus s3 ! d) = t" using d s3(3) c l4 by (auto simp: nth_upd split: if_splits)
    then show ?thesis using s3 th nt True by simp
  next
    case False
    then have e: "idle (g_cpus s3 ! d) = idle (g_cpus s ! d)" using s3(3) by (simp add: nth_upd)
    then have "idle (g_cpus s ! d) \<noteq> 0" using d by simp
    then obtain uh where uh: "threads s (idle (g_cpus s ! d)) = Some uh" "t_home uh = d" "t_state uh = THREAD_RUNNING"
      "idle (g_cpus s ! d) \<notin> set (g_all s)"
      using inv_idle [OF inv d(1)] by blast
    moreover have "idle (g_cpus s ! d) \<noteq> t" using uh(1) fresh(1) by auto
    ultimately show ?thesis using e s3(1,2) by auto
  qed
  have ids: "0 \<le> t_id uh \<and> t_id uh < int (unat (g_next_id s3))" if u: "threads s3 u = Some uh" for u uh
  proof -
    have n: "unat (g_next_id s3) = unat (g_next_id s) + 1" using s3(4) unat_suc_small [OF small] by simp
    show ?thesis
    proof (cases "u = t")
      case True
      then show ?thesis using u s3(1) th(3) sint_small [OF small] n by simp
    next
      case False
      then have "threads s u = Some uh" using u s3(1) by simp
      then have "0 \<le> t_id uh \<and> t_id uh < int (unat (g_next_id s))" using inv unfolding sched_inv_def by blast
      then show ?thesis using n by simp
    qed
  qed
  show ?thesis
    unfolding sched_inv_def
  proof (intro conjI)
    show "length (g_cpus s3) = 4" using s3(3) l4 by simp
    show "distinct (g_all s3)" "0 \<notin> set (g_all s3)" using inv nt s3(2) fresh(2) by (auto simp: sched_inv_def)
  qed (use rq queued all cur idl ids in blast)+
qed

lemma cpu_first [simp]: "(v :: cpu)\<lparr>idle := t, current := t\<rparr> = v\<lparr>current := t, idle := t\<rparr>"
  by (cases v) simp

lemma cpu_no_idle: "idle (v :: cpu) = 0 \<Longrightarrow> v\<lparr>current := t, idle := 0\<rparr> = v\<lparr>current := t\<rparr>"
  by (cases v) simp

lemma no_id_negative: "unat (w :: u32) < 2 ^ 31 \<Longrightarrow> - 1 \<noteq> sint w"
  using sint_small [of w] by linarith

lemma thread_init_inv:
  assumes inv: "sched_inv {} {} s Q" and room: "room s" and none: "idle (g_cpus s ! 0) = 0"
    and r: "thread_init s 0 = Some s'"
  shows "sched_inv {} {} s' Q"
proof -
  obtain s1 t where al: "sched_kmalloc s SIZEOF_THREAD = Some (s1, t)" and t0: "t \<noteq> 0"
    using r by (auto simp: thread_init_def split: bind_splits if_splits)
  obtain s2 tid where id2: "alloc_thread_id s1 = (s2, tid)" by (cases "alloc_thread_id s1")
  let ?th = "(base_thread s2 t 0 tid (-1) 0)\<lparr>t_state := THREAD_RUNNING, t_name := name_of (Some ''boot'')\<rparr>"
  obtain s3 where s3: "vfs_init_fdtable (put_thread s2 t ?th) t = Some s3"
    and s': "s' = (set_self (all_push s3 t) 0 t)\<lparr>g_thread_count := 1\<rparr>"
    using r t0 by (clarsimp simp: thread_init_def Let_def al id2 Option.bind_eq_Some_conv)
  note i2 = alloc_id_frame [OF id2] and a1 = kmalloc_frame [OF al]
  have "threads (put_thread s2 t ?th) t = Some ?th" by simp
  from init_fdtable_frame [OF s3 t0 this] obtain p where p: "threads s3 = (threads s)(t := Some (?th\<lparr>t_fdt := p\<rparr>))"
    "g_all s3 = g_all s" "g_cpus s3 = g_cpus s" "g_next_id s3 = g_next_id s + 1"
    using i2 a1 by (metis fun_upd_upd put_frame(1,2,3,4))
  show ?thesis
  proof (rule first_thread_inv [OF inv room_fresh [OF room al t0] t0 room_ids [OF room], where c = 0 and listed = True and th = "?th\<lparr>t_fdt := p\<rparr>"])
    show "t_parent (?th\<lparr>t_fdt := p\<rparr>) \<noteq> t_id (?th\<lparr>t_fdt := p\<rparr>)"
      using i2 a1 no_id_negative [OF room_ids [OF room]] by (simp add: base_thread_def)
  qed (use p none i2 a1 s' in \<open>simp_all add: cpu_no_idle base_thread_def set_self_def put_cpu_def all_push_def\<close>)
qed

lemma secondary_idle_inv:
  assumes inv: "sched_inv {} {} s Q" and room: "room s" and c: "c < 4"
    and none: "idle (g_cpus s ! c) = 0"
    and r: "thread_secondary_init_idle s c nm = Some (s', rc)"
  shows "sched_inv {} {} s' Q"
proof -
  obtain s1 t where al: "sched_kmalloc s SIZEOF_THREAD = Some (s1, t)"
    using r by (auto simp: thread_secondary_init_idle_def split: bind_splits)
  note a1 = kmalloc_frame [OF al]
  show ?thesis
  proof (cases "t = 0")
    case True
    then have "s' = s1" using r al by (simp add: thread_secondary_init_idle_def)
    then show ?thesis using inv a1 inv_cong [of s' s] by simp
  next
    case t0: False
    obtain s2 tid where id2: "alloc_thread_id s1 = (s2, tid)" by (cases "alloc_thread_id s1")
    let ?th = "(base_thread s2 t 0 tid (-1) c)\<lparr>t_state := THREAD_RUNNING, t_name := name_of nm\<rparr>"
    obtain s3 where s3: "vfs_init_fdtable (put_thread s2 t ?th) t = Some s3"
      and s': "s' = put_cpu s3 c ((g_cpus s3 ! c)\<lparr>idle := t, current := t\<rparr>)"
      using r t0 by (clarsimp simp: thread_secondary_init_idle_def Let_def al id2 Option.bind_eq_Some_conv)
    note i2 = alloc_id_frame [OF id2]
    have "threads (put_thread s2 t ?th) t = Some ?th" by simp
    from init_fdtable_frame [OF s3 t0 this] obtain p where p: "threads s3 = (threads s)(t := Some (?th\<lparr>t_fdt := p\<rparr>))"
      "g_all s3 = g_all s" "g_cpus s3 = g_cpus s" "g_next_id s3 = g_next_id s + 1"
      using i2 a1 by (metis fun_upd_upd put_frame(1,2,3,4))
    show ?thesis
    proof (rule first_thread_inv [OF inv room_fresh [OF room al t0] t0 room_ids [OF room] c none, where listed = False and th = "?th\<lparr>t_fdt := p\<rparr>"])
      show "t_parent (?th\<lparr>t_fdt := p\<rparr>) \<noteq> t_id (?th\<lparr>t_fdt := p\<rparr>)"
        using i2 a1 no_id_negative [OF room_ids [OF room]] by (simp add: base_thread_def)
    qed (use p i2 a1 s' in \<open>simp_all add: base_thread_def put_cpu_def\<close>)
  qed
qed

end
