(* ===== verification/SchedTurns.thy ===== *)
theory SchedTurns
  imports SchedNew
begin

text \<open>
  The order in which the ready threads of a processor run: nothing but the switches of that processor
  takes a thread off its queue, and each of them moves every queued thread one place ahead.
\<close>

section \<open>\<open>yield\<close> returns\<close>

lemma switch_some:
  assumes inv: "sched_inv (insert nxt X) Z s Q" and c: "c < 4" and prev: "self s c \<noteq> 0"
    and nxt: "may_run s c nxt" "\<forall>d<4. nxt \<notin> set (Q d)"
  shows "\<exists>s' y. switch_to s c (self s c) nxt sp = Some (s', y)"
proof -
  let ?t = "self s c"
  obtain p where p: "threads s ?t = Some p" "t_home p = c"
    "t_state p = THREAD_RUNNING \<Longrightarrow> ?t \<in> set (g_all s) \<or> ?t = idle (g_cpus s ! c)"
    using inv_current [OF inv c prev] by blast
  let ?P = "t_state p = THREAD_RUNNING \<and> ?t \<noteq> idle (g_cpus s ! c)"
  have "\<exists>s1. (if ?P then runq_push_local (put_thread s ?t (p\<lparr>t_state := THREAD_READY\<rparr>)) c ?t else Some s) = Some s1"
  proof (cases ?P)
    case True
    have mem: "?t \<in> set (g_all s)" using p(3) True by blast
    have nq: "?t \<notin> set (Q c)" using inv_not_queued [OF inv p(1) _ c] True by simp
    have "sched_inv (insert nxt (insert ?t X)) Z s Q" by (rule inv_mono [OF inv]) auto
    then have inv0: "sched_inv (insert nxt (insert ?t X)) Z (put_thread s ?t (p\<lparr>t_state := THREAD_READY\<rparr>)) Q"
      by (rule inv_put [OF _ p(1)]) (use True inv_idle_not_all [OF inv mem] in auto)
    obtain s2 where "runq_push_on (put_thread s ?t (p\<lparr>t_state := THREAD_READY\<rparr>)) c ?t = Some s2"
      by (rule inv_push [OF inv0 c, of ?t "p\<lparr>t_state := THREAD_READY\<rparr>"]) (use p mem nq in auto)
    then show ?thesis using True by (simp add: runq_push_local_def)
  next
    case False
    then show ?thesis unfolding if_not_P [OF False] by blast
  qed
  then obtain s1 where s1: "(if ?P then runq_push_local (put_thread s ?t (p\<lparr>t_state := THREAD_READY\<rparr>)) c ?t else Some s) = Some s1"
    by blast
  obtain zs where z: "sched_inv (insert nxt X) Z s1 (Q(c := Q c @ zs))" "may_run s1 c nxt" "self s1 c = ?t"
    by (rule switch_push_prev [OF inv c prev nxt p(1) s1]) blast
  obtain nh where nh: "threads s1 nxt = Some nh" using z(2) by (auto simp: may_run_def)
  have "self s1 c \<noteq> 0" using z(3) prev by simp
  then obtain p1 where p1: "threads s1 ?t = Some p1" using inv_current [OF z(1) c] z(3) by metis
  show ?thesis
    unfolding switch_to_def p(1) Option.bind.bind_lunit s1 upd_thread_eq [OF nh]
    by (cases "nxt = ?t") (simp_all add: Let_def set_self_def nh p1 upd_thread_def)
qed

text \<open>With no stack waiting to be freed, \<open>yield\<close> dereferences no bad pointer.\<close>

lemma yield_some:
  assumes inv: "sched_inv {} Z s Q" and c: "c < 4" and prev: "self s c \<noteq> 0"
    and st: "stack_to_free (g_cpus s ! c) = 0"
  shows "\<exists>s' y. yield s c sp = Some (s', y)"
proof -
  have s1: "drain_stack_to_free s c = Some s" using st by (simp add: drain_stack_to_free_def)
  obtain s2 Q1 where s2: "wake_sleepers s c (g_all s) = Some s2" "sched_inv {} Z s2 Q1"
    and adv: "advances (set (g_all s) - {self s c}) s Q s2 Q1"
    using wake_sleepers_inv [OF inv order_refl, of c] by blast
  note ad = advances_frame [OF adv]
  have slf: "self s2 c = self s c" "g_all s2 = g_all s" "idle (g_cpus s2 ! c) = idle (g_cpus s ! c)"
    using ad by simp_all
  show ?thesis
  proof (cases "Q1 c")
    case Nil
    note pop = pop_empty [OF s2(2) c Nil]
    show ?thesis
    proof (cases "idle (g_cpus s ! c) \<noteq> 0 \<and> self s c \<noteq> idle (g_cpus s ! c)")
      case False
      then show ?thesis using s1 s2(1) pop slf by (auto simp: yield_def Let_def)
    next
      case True
      let ?i = "idle (g_cpus s ! c)"
      obtain ih where ih: "threads s2 ?i = Some ih" "t_home ih = c" "t_state ih = THREAD_RUNNING" "?i \<notin> set (g_all s2)"
        using inv_idle [OF s2(2) c] slf(3) True by metis
      have nq: "\<forall>d<4. ?i \<notin> set (Q1 d)" using inv_queued [OF s2(2)] ih(4) by metis
      have mr: "may_run s2 c ?i" using ih True slf by (simp add: may_run_def)
      have "\<exists>s' y. switch_to s2 c (self s2 c) ?i sp = Some (s', y)"
        by (rule switch_some [OF inv_mono [OF s2(2), of "insert ?i {}" Z] c _ mr nq]) (use prev slf in auto)
      then show ?thesis using s1 s2(1) pop slf True by (simp add: yield_def Let_def)
    qed
  next
    case (Cons t ts)
    obtain s4 th where q: "runq_pop_local s2 c = Some (s4, t)" "sched_inv (insert t {}) Z s4 (Q1(c := ts))"
      "threads s4 t = Some th" "t_state th = THREAD_READY" "t_home th = c" "t \<in> set (g_all s2)" "t \<noteq> 0"
      "\<forall>d<4. t \<notin> set ((Q1(c := ts)) d)" "g_all s4 = g_all s2" "self s4 c = self s2 c"
      by (rule inv_pop [OF s2(2) c Cons])
    have mr: "may_run s4 c t" using q by (simp add: may_run_def)
    have pv: "self s4 c \<noteq> 0" using q(10) slf prev by simp
    have "\<exists>s' y. switch_to s4 c (self s4 c) t sp = Some (s', y)"
      by (rule switch_some [OF q(2) c pv mr q(8)])
    then show ?thesis using s1 s2(1) q(1,7,10) by (simp add: yield_def Let_def)
  qed
qed

section \<open>The other processors\<close>

lemma current_push: "runq_push_on s d t = Some s' \<Longrightarrow> self s' c = self s c"
  by (auto simp: runq_push_on_def upd_thread_def self_def put_cpu_def nth_upd Let_def split: if_splits bind_splits)

lemma current_switch:
  assumes "switch_to s d prev nxt sp = Some (s', y)" "c \<noteq> d"
  shows "self s' c = self s c"
proof -
  obtain p s1 s2 where p: "threads s prev = Some p"
    and s1: "(if t_state p = THREAD_RUNNING \<and> prev \<noteq> idle (g_cpus s ! d)
        then runq_push_local (put_thread s prev (p\<lparr>t_state := THREAD_READY\<rparr>)) d prev else Some s) = Some s1"
    and s2: "upd_thread s1 nxt (\<lambda>th. th\<lparr>t_state := THREAD_RUNNING\<rparr>) = Some s2"
    and fin: "(if nxt = prev then Some (s2, YReturn)
          else do {
            let s3 = set_self s2 d nxt;
            p1 \<leftarrow> threads s3 prev;
            n1 \<leftarrow> threads s3 nxt;
            let s4 = (if t_as n1 \<noteq> t_as p1 then emit s3 (Activate (t_as n1)) else s3);
            if \<not> sp_valid s4 d nxt (t_sp n1) then Some (s4, YPanic)
            else do { s5 \<leftarrow> upd_thread s4 prev (\<lambda>th. th\<lparr>t_sp := sp\<rparr>); Some (s5, YSwitch nxt) } }) = Some (s', y)"
    using assms(1) by (auto simp: switch_to_def split: bind_splits)
  have a: "self s1 c = self s c"
    using s1 current_push by (auto simp: runq_push_local_def split: if_splits)
  have b: "self s2 c = self s1 c" using s2 by (auto simp: upd_thread_def)
  have "self s' c = self s2 c"
    using fin assms(2)
    by (auto simp: Let_def set_self_def put_cpu_def upd_thread_def self_def nth_upd emit_def put_thread_def
        split: if_splits bind_splits)
  then show ?thesis using a b by simp
qed

lemma current_yield:
  assumes inv: "sched_inv {} Z s Q" and y: "yield s d sp = Some (s', y)" and ne: "c \<noteq> d"
  shows "self s' c = self s c"
proof -
  obtain s1 s2 s3 nxt where s1: "drain_stack_to_free s d = Some s1"
    and s2: "wake_sleepers s1 d (g_all s1) = Some s2"
    and s3: "runq_pop_local s2 d = Some (s3, nxt)"
    and fin: "(if nxt = 0 then
            let i = idle (g_cpus s3 ! d) in
            if i \<noteq> 0 \<and> self s2 d \<noteq> i then switch_to s3 d (self s2 d) i sp else Some (s3, YReturn)
          else switch_to s3 d (self s2 d) nxt sp) = Some (s', y)"
    using y by (auto simp: yield_def Let_def split: bind_splits)
  note dr = drain_inv [OF inv s1]
  obtain Q1 where "advances (set (g_all s1) - {self s1 d}) s1 Q s2 Q1"
    using wake_sleepers_inv [OF dr(1) order_refl, of d] s2 by auto
  then have "self s2 c = self s c" using advances_frame dr(2) by simp
  moreover have "self s3 c = self s2 c"
    using s3 ne by (auto simp: runq_pop_local_def Let_def self_def put_cpu_def put_thread_def nth_upd split: if_splits bind_splits)
  moreover have "self s' c = self s3 c"
    using fin ne current_switch by (auto simp: Let_def split: if_splits)
  ultimately show ?thesis by simp
qed

section \<open>Turns\<close>

text \<open>What happens between two switches of processor \<open>c\<close>: time passes, threads are woken and signalled,
  the kernel is called, a thread marks itself as sleeping, blocked or waiting before it yields, and the
  other processors switch.  \<open>turns c n\<close> is any sequence of these with \<open>n\<close> switches of \<open>c\<close>.\<close>

inductive quiet :: "nat \<Rightarrow> sched \<Rightarrow> sched \<Rightarrow> bool" for c where
  time: "quiet c s (s\<lparr>clock_ms := n\<rparr>)"
| wake: "thread_wake_blocked s d token = Some s' \<Longrightarrow> quiet c s s'"
| signal: "thread_signal_pid s d pid sig = Some s' \<Longrightarrow> quiet c s s'"
| call: "run_kern s d f = Some s' \<Longrightarrow> quiet c s s'"
| mark: "unwoken s d \<Longrightarrow> threads s (self s d) = Some th \<Longrightarrow> st \<noteq> THREAD_READY \<Longrightarrow> st \<noteq> THREAD_EXITED \<Longrightarrow>
    quiet c s (put_thread s (self s d) (th\<lparr>t_state := st, t_blocked_on := b, t_wake_at := w\<rparr>))"
| other: "d < SMP_MAX_CPUS \<Longrightarrow> d \<noteq> c \<Longrightarrow> schedule s d sp = Some (s', y) \<Longrightarrow> quiet c s s'"

inductive turns :: "nat \<Rightarrow> nat \<Rightarrow> sched \<Rightarrow> sched \<Rightarrow> bool" for c where
  none: "turns c 0 s s"
| quiet: "turns c n s s1 \<Longrightarrow> quiet c s1 s2 \<Longrightarrow> turns c n s s2"
| turn: "turns c n s s1 \<Longrightarrow> self s1 c \<noteq> 0 \<Longrightarrow> yield s1 c sp = Some (s2, y) \<Longrightarrow> turns c (Suc n) s s2"

lemma quiet_inv:
  assumes "quiet c s s'" "sched_inv {} {} s Q" "c < 4"
  shows "\<exists>Q'. sched_inv {} {} s' Q' \<and> (\<exists>ys. Q' c = Q c @ ys) \<and> self s' c = self s c"
  using assms(1)
proof cases
  case (time n)
  then show ?thesis using assms(2) inv_cong [of s' s] by (intro exI [of _ Q]) (simp add: self_def)
next
  case (wake d token)
  then obtain Q' where q: "sched_inv {} {} s' Q'" "advances (set (g_all s)) s Q s' Q'"
    using thread_wake_blocked_inv [OF assms(2), of d token] by auto
  then have "\<exists>ys. Q' c = Q c @ ys" by (simp add: advances_def)
  then show ?thesis using q advances_frame [OF q(2)] by auto
next
  case (signal d pid sig)
  then obtain Q' where q: "sched_inv {} {} s' Q'" "advances (set (g_all s)) s Q s' Q'"
    using thread_signal_pid_inv [OF assms(2), of d pid sig] by auto
  then have "\<exists>ys. Q' c = Q c @ ys" by (simp add: advances_def)
  then show ?thesis using q advances_frame [OF q(2)] by auto
next
  case (call d f)
  obtain k Q' where q: "sched_inv {} {} s' Q'" "advances (set (g_all s)) (s\<lparr>kn := k\<rparr>) Q s' Q'"
    by (rule run_kern_inv [OF assms(2) call]) blast
  then have "\<exists>ys. Q' c = Q c @ ys" by (simp add: advances_def)
  moreover have "self s' c = self (s\<lparr>kn := k\<rparr>) c" using advances_frame [OF q(2)] by simp
  then have "self s' c = self s c" by (simp add: self_def)
  ultimately show ?thesis using q(1) by blast
next
  case (mark d th st b w)
  have "sched_inv {} {} s' Q" unfolding mark(1)
    by (rule own_state_inv [OF assms(2) mark(2,3)]) (use mark(4,5) in simp_all)
  then show ?thesis using mark(1) by (intro exI [of _ Q]) simp
next
  case (other d sp y)
  show ?thesis
  proof (cases "self s d = 0")
    case True
    then show ?thesis using other assms(2) by (intro exI [of _ Q]) (simp add: schedule_def)
  next
    case False
    then have y: "yield s d sp = Some (s', y)" using other by (simp add: schedule_def)
    obtain Q1 zs where q: "\<forall>e. \<exists>ys. Q1 e = Q e @ ys"
      "sched_inv {} (if y = YReturn then {} else {} - {d}) s' (Q1(d := tl (Q1 d) @ zs))"
      by (rule yield_inv [OF assms(2) other(1) False y]) blast
    then have "sched_inv {} {} s' (Q1(d := tl (Q1 d) @ zs))" by (simp split: if_splits)
    moreover have "\<exists>ys. (Q1(d := tl (Q1 d) @ zs)) c = Q c @ ys" using q(1) other(2) by simp
    moreover have "self s' c = self s c" by (rule current_yield [OF assms(2) y]) (use other(2) in simp)
    ultimately show ?thesis by - (rule exI [of _ "Q1(d := tl (Q1 d) @ zs)"], intro conjI)
  qed
qed

text \<open>After \<open>n\<close> switches the threads that were queued at \<open>n\<close> and behind are at the front.\<close>

lemma turns_inv:
  assumes "turns c n s s'" "sched_inv {} {} s Q" "c < 4"
  shows "\<exists>Q'. sched_inv {} {} s' Q' \<and> (n \<le> length (Q c) \<longrightarrow> (\<exists>ys. Q' c = drop n (Q c) @ ys)) \<and>
    (0 < n \<and> n \<le> length (Q c) \<longrightarrow> self s' c = Q c ! (n - 1))"
  using assms
proof (induction rule: turns.induct)
  case (none s)
  then show ?case by auto
next
  case (quiet n s s1 s2)
  then obtain Q1 where q1: "sched_inv {} {} s1 Q1" "n \<le> length (Q c) \<longrightarrow> (\<exists>ys. Q1 c = drop n (Q c) @ ys)"
    "0 < n \<and> n \<le> length (Q c) \<longrightarrow> self s1 c = Q c ! (n - 1)" by blast
  obtain Q2 where q2: "sched_inv {} {} s2 Q2" "\<exists>ys. Q2 c = Q1 c @ ys" "self s2 c = self s1 c"
    using quiet_inv [OF quiet.hyps(2) q1(1) assms(3)] by blast
  have "n \<le> length (Q c) \<longrightarrow> (\<exists>ys. Q2 c = drop n (Q c) @ ys)" using q1(2) q2(2) by auto
  then show ?case using q1(3) q2(1,3) by auto
next
  case (turn n s s1 sp s2 y)
  then obtain Q1 where q1: "sched_inv {} {} s1 Q1" "n \<le> length (Q c) \<longrightarrow> (\<exists>ys. Q1 c = drop n (Q c) @ ys)" by blast
  obtain Q2 zs where q2: "\<forall>d. \<exists>ys. Q2 d = Q1 d @ ys"
    "sched_inv {} (if y = YReturn then {} else {} - {c}) s2 (Q2(c := tl (Q2 c) @ zs))"
    "Q2 c \<noteq> [] \<Longrightarrow> self s2 c = hd (Q2 c)"
    by (rule yield_inv [OF q1(1) assms(3) turn.hyps(2,3)]) blast
  have inv2: "sched_inv {} {} s2 (Q2(c := tl (Q2 c) @ zs))" using q2(2) by (simp split: if_splits)
  have "\<exists>ys. (Q2(c := tl (Q2 c) @ zs)) c = drop (Suc n) (Q c) @ ys" "self s2 c = Q c ! n" if n: "Suc n \<le> length (Q c)"
  proof -
    obtain ys where ys: "Q2 c = Q c ! n # drop (Suc n) (Q c) @ ys"
      using q1(2) q2(1) n by (metis Cons_nth_drop_Suc Suc_leD Suc_le_lessD append.assoc append_Cons)
    then show "\<exists>ys. (Q2(c := tl (Q2 c) @ zs)) c = drop (Suc n) (Q c) @ ys" by simp
    show "self s2 c = Q c ! n" using q2(3) ys by simp
  qed
  then show ?case using inv2 by (metis diff_Suc_1)
qed

end
