(* ===== verification/SchedReach.thy ===== *)
theory SchedReach
  imports SchedNew
begin

text \<open>
  The reachable states of the scheduler: any sequence of its operations on four processors keeps
  the invariant of the run queues, and a processor that has an idle thread always runs a thread in
  the state \<open>THREAD_RUNNING\<close>.
\<close>

section \<open>What an operation keeps\<close>

definition runs :: "sched \<Rightarrow> nat \<Rightarrow> bool" where
  "runs s t \<longleftrightarrow> (\<exists>th. threads s t = Some th \<and> t_state th = THREAD_RUNNING)"

text \<open>The running threads but \<open>T\<close> keep running, the processors keep their idle thread, and all but \<open>C\<close>
  their current one.\<close>

definition keeps :: "nat set \<Rightarrow> nat set \<Rightarrow> sched \<Rightarrow> sched \<Rightarrow> bool" where
  "keeps T C s s' \<longleftrightarrow> (\<forall>u. u \<notin> T \<longrightarrow> runs s u \<longrightarrow> runs s' u) \<and>
     (\<forall>d. idle (g_cpus s' ! d) = idle (g_cpus s ! d)) \<and> (\<forall>d. d \<notin> C \<longrightarrow> self s' d = self s d)"

lemma keeps_refl [simp]: "keeps T C s s"
  by (simp add: keeps_def)

lemma keeps_trans [trans]: "keeps T C s s1 \<Longrightarrow> keeps T C s1 s2 \<Longrightarrow> keeps T C s s2"
  by (simp add: keeps_def)

lemma keeps_mono: "keeps T C s s' \<Longrightarrow> T \<subseteq> T' \<Longrightarrow> C \<subseteq> C' \<Longrightarrow> keeps T' C' s s'"
  by (auto simp: keeps_def)

lemma keeps_weaken: "keeps {} {} s s' \<Longrightarrow> keeps T C s s'"
  by (auto simp: keeps_def)

lemma keeps_same: "threads s' = threads s \<Longrightarrow> g_cpus s' = g_cpus s \<Longrightarrow> keeps T C s s'"
  by (simp add: keeps_def runs_def self_def)

lemma keeps_put:
  "t \<in> T \<or> \<not> runs s t \<or> t_state th = THREAD_RUNNING \<Longrightarrow> keeps T C s (put_thread s t th)"
  by (auto simp: keeps_def runs_def)

lemma keeps_upd:
  assumes "upd_thread s t f = Some s'" "\<And>th. t_state (f th) = t_state th"
  shows "keeps T C s s'"
proof -
  obtain th where "threads s t = Some th" "s' = put_thread s t (f th)"
    using assms(1) by (auto simp: upd_thread_def)
  then show ?thesis using assms(2) by (auto intro: keeps_put simp: runs_def)
qed

lemma keeps_put_cpu:
  assumes "current q = current (g_cpus s ! c)" "idle q = idle (g_cpus s ! c)"
  shows "keeps T C s (put_cpu s c q)"
  using assms by (auto simp: keeps_def runs_def self_def put_cpu_def nth_upd)

lemma keeps_push_on:
  assumes "runq_push_on s c t = Some s'"
  shows "keeps T C s s'"
proof -
  obtain s1 where s1: "upd_thread s t (\<lambda>th. th\<lparr>t_next := 0\<rparr>) = Some s1"
    using assms by (auto simp: runq_push_on_def split: bind_splits)
  have k1: "keeps T C s s1" by (rule keeps_upd [OF s1]) simp
  let ?q = "g_cpus s1 ! c"
  show ?thesis
  proof (cases "runq_tail ?q = 0")
    case True
    then have "s' = put_cpu s1 c (?q\<lparr>runq_head := t, runq_tail := t\<rparr>)"
      using assms s1 by (simp add: runq_push_on_def Let_def)
    then show ?thesis using keeps_trans [OF k1] keeps_put_cpu by simp
  next
    case False
    then obtain s2 where s2: "upd_thread s1 (runq_tail ?q) (\<lambda>th. th\<lparr>t_next := t\<rparr>) = Some s2"
      and e: "s' = put_cpu s2 c (?q\<lparr>runq_tail := t\<rparr>)"
      using assms s1 by (auto simp: runq_push_on_def Let_def split: bind_splits)
    have "g_cpus s2 = g_cpus s1" using s2 by (auto simp: upd_thread_def)
    then have "keeps T C s2 s'" unfolding e by (intro keeps_put_cpu) simp_all
    moreover have "keeps T C s1 s2" by (rule keeps_upd [OF s2]) simp
    ultimately show ?thesis using keeps_trans k1 by blast
  qed
qed

lemma keeps_emit: "keeps T C s (emit s' e) = keeps T C s s'"
  by (simp add: keeps_def runs_def self_def emit_def)

lemma keeps_push_to:
  assumes "runq_push_to s c t = Some s'"
  shows "keeps T C s s'"
  using assms keeps_push_on
  by (auto simp: runq_push_to_def runq_push_local_def runq_push_remote_def keeps_emit split: bind_splits if_splits)

text \<open>A thread that does not run is woken.\<close>

lemma keeps_wake:
  assumes "threads s t = Some th" "t_state th \<noteq> THREAD_RUNNING" "runq_push_to (put_thread s t th') c t = Some s'"
  shows "keeps T C s s'"
proof -
  have "keeps T C s (put_thread s t th')" by (rule keeps_put) (use assms(1,2) in \<open>simp add: runs_def\<close>)
  then show ?thesis using keeps_trans keeps_push_to [OF assms(3)] by blast
qed

lemma keeps_wake_sleepers: "wake_sleepers s c ts = Some s' \<Longrightarrow> keeps T C s s'"
proof (induction ts arbitrary: s)
  case Nil
  then show ?case by simp
next
  case (Cons t ts)
  show ?case
  proof (cases "t = self s c")
    case True
    then show ?thesis using Cons by simp
  next
    case False
    then obtain th s1 where th: "threads s t = Some th"
      and s1: "(if t_state th = THREAD_SLEEPING \<and> clock_ms s \<ge> t_wake_at th then
                  runq_push_to (put_thread s t (th\<lparr>t_state := THREAD_READY\<rparr>)) c t
                else if t_state th = THREAD_BLOCKED \<and> t_wake_at th \<noteq> 0 \<and> clock_ms s \<ge> t_wake_at th then
                  runq_push_to (put_thread s t (th\<lparr>t_blocked_on := 0, t_state := THREAD_READY\<rparr>)) c t
                else Some s) = Some s1"
      and rest: "wake_sleepers s1 c ts = Some s'"
      using Cons.prems by (auto split: bind_splits)
    have "keeps T C s s1" using s1 keeps_wake [OF th] by (auto split: if_splits)
    then show ?thesis using Cons.IH [OF rest] keeps_trans by blast
  qed
qed

lemma keeps_wake_token: "wake_token s c token ts = Some s' \<Longrightarrow> keeps T C s s'"
proof (induction ts arbitrary: s)
  case Nil
  then show ?case by simp
next
  case (Cons t ts)
  then obtain th s1 where th: "threads s t = Some th"
    and s1: "(if t_state th = THREAD_BLOCKED \<and> t_blocked_on th = token then
                runq_push_to (put_thread s t (th\<lparr>t_blocked_on := 0, t_state := THREAD_READY\<rparr>)) c t
              else Some s) = Some s1"
    and rest: "wake_token s1 c token ts = Some s'"
    by (auto split: bind_splits)
  have "keeps T C s s1" using s1 keeps_wake [OF th] by (auto split: if_splits)
  then show ?case using Cons.IH [OF rest] keeps_trans by blast
qed

lemma keeps_wake_blocked: "thread_wake_blocked s c token = Some s' \<Longrightarrow> keeps T C s s'"
  by (auto simp: thread_wake_blocked_def keeps_wake_token split: if_splits)

lemma keeps_signal:
  assumes "thread_signal_pid s c pid sig = Some s'"
  shows "keeps T C s s'"
proof (cases "pid \<le> 0 \<or> sig \<le> 0 \<or> sig \<ge> 32 \<or> thread_lookup s pid = Some None")
  case True
  then show ?thesis using assms by (auto simp: thread_signal_pid_def split: if_splits)
next
  case False
  then obtain t th where th: "threads s t = Some th"
    and e: "(let th1 = th\<lparr>t_sig_pending := t_sig_pending th OR push_bit (nat sig) 1\<rparr>
       in if t_state th = THREAD_BLOCKED \<or> t_state th = THREAD_SLEEPING then
            runq_push_to (put_thread s t (th1\<lparr>t_blocked_on := 0, t_state := THREAD_READY\<rparr>)) c t
          else Some (put_thread s t th1)) = Some s'"
    using assms by (auto simp: thread_signal_pid_def split: bind_splits if_splits option.splits)
  show ?thesis
  proof (cases "t_state th = THREAD_BLOCKED \<or> t_state th = THREAD_SLEEPING")
    case True
    then show ?thesis using e keeps_wake [OF th] by (auto simp: Let_def)
  next
    case f: False
    then show ?thesis using e th by (auto simp: Let_def runs_def intro!: keeps_put split: if_splits)
  qed
qed

lemma keeps_deliver: "deliver s c es = Some s' \<Longrightarrow> keeps T C s s'"
proof (induction s c es rule: deliver.induct)
  case (1 s c)
  then show ?case by simp
next
  case (2 s c p es)
  then show ?case using keeps_wake_blocked keeps_trans by (fastforce split: bind_splits)
next
  case (3 s c pid sig es)
  then show ?case using keeps_signal keeps_trans by (fastforce split: bind_splits)
qed

lemma keeps_kern [simp]: "keeps T C s (s\<lparr>kn := k\<rparr>)"
  by (rule keeps_same) simp_all

lemma keeps_run_kern:
  assumes "run_kern s c f = Some s'"
  shows "keeps T C s s'"
proof -
  obtain k where "deliver (s\<lparr>kn := k\<rparr>) c (log (kmem k)) = Some s' \<or> (\<exists>es. deliver (s\<lparr>kn := k\<rparr>) c es = Some s')"
    using assms by (auto simp: run_kern_def split: bind_splits)
  then show ?thesis using keeps_deliver keeps_trans [OF keeps_kern] by blast
qed

section \<open>Creation\<close>

lemma keeps_kmalloc: "sched_kmalloc s n = Some (s1, p) \<Longrightarrow> keeps T C s s1"
  by (auto simp: sched_kmalloc_def split: bind_splits)

lemma keeps_kfree: "sched_kfree s p = Some s1 \<Longrightarrow> keeps T C s s1"
  by (auto simp: sched_kfree_def split: bind_splits)

lemma keeps_alloc:
  assumes "alloc_thread s = Some (s1, r)"
  shows "keeps T C s s1"
proof -
  obtain s2 t where 2: "sched_kmalloc s SIZEOF_THREAD = Some (s2, t)"
    using assms by (auto simp: alloc_thread_def split: bind_splits)
  note k2 = keeps_kmalloc [OF 2, of T C]
  show ?thesis
  proof (cases "t = 0")
    case True
    then show ?thesis using assms 2 k2 by (simp add: alloc_thread_def)
  next
    case False
    then obtain s3 k where 3: "sched_kmalloc s2 THREAD_STACK_SIZE = Some (s3, k)"
      using assms 2 by (auto simp: alloc_thread_def split: bind_splits)
    note k3 = keeps_trans [OF k2 keeps_kmalloc [OF 3]]
    have "s1 = s3 \<or> sched_kfree s3 t = Some s1"
      using assms 2 3 False by (auto simp: alloc_thread_def split: bind_splits if_splits)
    then show ?thesis using k3 keeps_kfree [of s3 t s1 T C] keeps_trans by blast
  qed
qed

lemma keeps_fdtable: "vfs_init_fdtable s t = Some s' \<Longrightarrow> keeps T C s s'"
proof (cases "t = 0 \<or> (\<exists>th. threads s t = Some th \<and> t_fdt th \<noteq> 0)")
  case True
  assume "vfs_init_fdtable s t = Some s'"
  then have "s' = s" using True by (cases "t = 0") (auto simp: vfs_init_fdtable_def)
  then show ?thesis by simp
next
  case False
  assume r: "vfs_init_fdtable s t = Some s'"
  then obtain th k q where th: "threads s t = Some th" "s' = put_thread (s\<lparr>kn := k\<rparr>) t (th\<lparr>t_fdt := q\<rparr>)"
    using False by (auto simp: vfs_init_fdtable_def split: bind_splits)
  have "keeps T C (s\<lparr>kn := k\<rparr>) s'"
    unfolding th(2) by (rule keeps_put) (use th(1) in \<open>auto simp: runs_def\<close>)
  then show ?thesis by (rule keeps_trans [OF keeps_kern])
qed

lemma keeps_attach: "attach_fdt s cur t share = Some s' \<Longrightarrow> keeps T C s s'"
  using keeps_fdtable keeps_upd keeps_trans [OF _ keeps_kern]
  by (fastforce simp: attach_fdt_def split: option.splits if_splits bind_splits)

lemma keeps_all_push [simp]: "keeps T C s (all_push s t)" "keeps T C s (all_remove s t)"
    "keeps T C s (count_thread s)" "keeps T C s (fst (alloc_thread_id s))"
  by (rule keeps_same; simp add: all_push_def all_remove_def count_thread_def alloc_thread_id_def)+

text \<open>The tail all creating operations share: the new structure at \<open>t\<close> is filled in, listed and
  queued.\<close>

lemma keeps_build:
  assumes "keeps {t} {} s0 (put_thread s t th)" "keeps {t} {} (put_thread s t th) s3"
    and "upd_thread s4 t f = Some s5" "keeps {t} {} s3 s4" "\<And>th. t_state (f th) = t_state th"
    and "runq_push_to s5 c t = Some s6 \<or> runq_push_local s5 c t = Some s6 \<or> runq_push_remote s5 c target t = Some s6"
  shows "keeps {t} {} s0 (count_thread s6)"
proof -
  have "keeps {t} {} s4 s5" by (rule keeps_upd [OF assms(3,5)])
  moreover have "keeps {t} {} s5 s6"
    using assms(6) keeps_push_to keeps_push_on
    by (auto simp: runq_push_local_def runq_push_remote_def keeps_emit split: if_splits bind_splits)
  moreover have "keeps {t} {} s6 (count_thread s6)" by simp
  ultimately show ?thesis using assms(1,2,4) keeps_trans by blast
qed

text \<open>A new structure does not run yet.\<close>

lemma keeps_fresh: "keeps {t} C s s' \<Longrightarrow> threads s t = None \<Longrightarrow> keeps {} C s s'"
  unfolding keeps_def runs_def by (metis empty_iff option.distinct(1) singletonD)

lemma keeps_new:
  assumes "alloc_thread s = Some (s1, r)" "alloc_thread_id s1 = (s2, tid)"
  shows "keeps {t} {} s (put_thread s2 t th)"
proof -
  have "keeps {t} {} s1 s2" using assms(2) keeps_all_push(4) [of "{t}" "{}" s1] by simp
  moreover have "keeps {t} {} s2 (put_thread s2 t th)" by (rule keeps_put) simp
  ultimately show ?thesis using keeps_alloc [OF assms(1)] keeps_trans by blast
qed

lemma keeps_thread_create:
  assumes room: "room s" and r: "thread_create s c e a nm = Some (s', t)"
  shows "keeps {} {} s s'"
proof -
  obtain s1 q where al: "alloc_thread s = Some (s1, q)"
    using r by (auto simp: thread_create_def split: bind_splits)
  show ?thesis
  proof (cases q)
    case None
    then show ?thesis using r al keeps_alloc [OF al] by (simp add: thread_create_def)
  next
    case (Some tk)
    obtain u stk where tk: "tk = (u, stk)" by (cases tk)
    obtain s2 tid where id: "alloc_thread_id s1 = (s2, tid)" by (cases "alloc_thread_id s1")
    obtain th s3 s4 s5 where 3: "vfs_init_fdtable (put_thread s2 u th) u = Some s3"
      and 4: "upd_thread (all_push s3 u) u (\<lambda>th. th\<lparr>t_sp := frame_at stk,
                      t_frame := launch_frame e a 0 0 (fst (trampolines s))\<rparr>) = Some s4"
      and 5: "runq_push_local s4 c u = Some s5" "s' = count_thread s5"
      using r by (clarsimp simp: thread_create_def Let_def al Some tk id Option.bind_eq_Some_conv)
    have "keeps {u} {} s s'"
      unfolding 5(2) by (rule keeps_build [OF keeps_new [OF al id] keeps_fdtable [OF 3] 4]) (use 5 in auto)
    then show ?thesis using keeps_fresh room_alloc [OF room] al Some tk by blast
  qed
qed

lemma keeps_thread_create_on:
  assumes room: "room s" and r: "thread_create_on s c target e a nm = Some (s', t)"
  shows "keeps {} {} s s'"
proof (cases "target < SMP_MAX_CPUS")
  case False
  then show ?thesis using r by (simp add: thread_create_on_def)
next
  case tg: True
  then obtain s1 q where al: "alloc_thread s = Some (s1, q)"
    using r by (auto simp: thread_create_on_def split: bind_splits)
  show ?thesis
  proof (cases q)
    case None
    then show ?thesis using r al tg keeps_alloc [OF al] by (simp add: thread_create_on_def)
  next
    case (Some tk)
    obtain u stk where tk: "tk = (u, stk)" by (cases tk)
    obtain s2 tid where id: "alloc_thread_id s1 = (s2, tid)" by (cases "alloc_thread_id s1")
    obtain th s3 s4 s5 where 3: "vfs_init_fdtable (put_thread s2 u th) u = Some s3"
      and 4: "upd_thread (all_push s3 u) u (\<lambda>th. th\<lparr>t_sp := frame_at stk,
                      t_frame := launch_frame e a 0 0 (fst (trampolines s))\<rparr>) = Some s4"
      and 5: "runq_push_remote s4 c target u = Some s5" "s' = count_thread s5"
      using r tg by (clarsimp simp: thread_create_on_def Let_def al Some tk id Option.bind_eq_Some_conv)
    have "keeps {u} {} s s'"
      unfolding 5(2) by (rule keeps_build [OF keeps_new [OF al id] keeps_fdtable [OF 3] 4]) (use 5 in auto)
    then show ?thesis using keeps_fresh room_alloc [OF room] al Some tk by blast
  qed
qed

lemma keeps_user_thread_create:
  assumes room: "room s" and r: "user_thread_create s c e sp nm as = Some (s', t)"
  shows "keeps {} {} s s'"
proof -
  obtain s1 q where al: "alloc_thread s = Some (s1, q)"
    using r by (auto simp: user_thread_create_def split: bind_splits)
  show ?thesis
  proof (cases q)
    case None
    then show ?thesis using r al keeps_alloc [OF al] by (simp add: user_thread_create_def)
  next
    case (Some tk)
    obtain u stk where tk: "tk = (u, stk)" by (cases tk)
    obtain s2 tid where id: "alloc_thread_id s1 = (s2, tid)" by (cases "alloc_thread_id s1")
    obtain th s3 s4 s5 where 3: "vfs_init_fdtable (put_thread s2 u th) u = Some s3"
      and 4: "upd_thread (all_push s3 u) u (\<lambda>th. th\<lparr>t_sp := frame_at stk,
                      t_frame := launch_frame e sp 0 0 (fst (snd (trampolines s)))\<rparr>) = Some s4"
      and 5: "runq_push_local s4 c u = Some s5" "s' = count_thread s5"
      using r by (clarsimp simp: user_thread_create_def Let_def al Some tk id Option.bind_eq_Some_conv)
    have "keeps {u} {} s s'"
      unfolding 5(2) by (rule keeps_build [OF keeps_new [OF al id] keeps_fdtable [OF 3] 4]) (use 5 in auto)
    then show ?thesis using keeps_fresh room_alloc [OF room] al Some tk by blast
  qed
qed

lemma keeps_shared_files:
  assumes room: "room s"
    and r: "user_thread_create_shared_files_on s c e sp nm as a tls cpu share = Some (s', t)"
  shows "keeps {} {} s s'"
proof (cases "as = 0 \<or> cpu \<ge> int SMP_MAX_CPUS")
  case True
  then have "s' = s" using r unfolding user_thread_create_shared_files_on_def by (auto split: if_splits)
  then show ?thesis by simp
next
  case False
  let ?target = "if cpu < 0 then c else nat cpu"
  have ng: "as \<noteq> 0" "\<not> cpu \<ge> int SMP_MAX_CPUS" using False by auto
  obtain s1 q where al: "alloc_thread s = Some (s1, q)"
    using r ng by (auto simp: user_thread_create_shared_files_on_def Let_def split: bind_splits)
  show ?thesis
  proof (cases q)
    case None
    then show ?thesis using r al ng keeps_alloc [OF al] by (simp add: user_thread_create_shared_files_on_def)
  next
    case (Some tk)
    obtain u stk where tk: "tk = (u, stk)" by (cases tk)
    obtain s2 tid where id: "alloc_thread_id s1 = (s2, tid)" by (cases "alloc_thread_id s1")
    let ?e = "emit s2 (AsShare as)"
    obtain th s3 s4 s5 where 3: "attach_fdt (put_thread ?e u th) (self s2 c) u share = Some s3"
      and 4: "upd_thread (all_push s3 u) u (\<lambda>th. th\<lparr>t_sp := frame_at stk,
                      t_frame := launch_frame e sp a tls (snd (snd (trampolines s)))\<rparr>) = Some s4"
      and 5: "runq_push_to s4 c u = Some s5" "s' = count_thread s5"
      using r ng
      by (clarsimp simp: user_thread_create_shared_files_on_def Let_def al Some tk id Option.bind_eq_Some_conv)
    have n: "keeps {u} {} s (put_thread ?e u th)"
      using keeps_new [OF al id, of u th] by (simp add: keeps_def runs_def self_def emit_def put_thread_def)
    have "keeps {u} {} s s'"
      unfolding 5(2) by (rule keeps_build [OF n keeps_attach [OF 3] 4]) (use 5 in auto)
    then show ?thesis using keeps_fresh room_alloc [OF room] al Some tk by blast
  qed
qed

lemma keeps_fork:
  assumes room: "room s" and r: "thread_fork_user s c parent as pf sp = Some (s', t)"
  shows "keeps {} {} s s'"
proof (cases "pf = None \<or> parent = 0 \<or> as = 0")
  case True
  then have "s' = s" using r by (auto simp: thread_fork_user_def split: option.splits)
  then show ?thesis by simp
next
  case False
  then obtain fr where pf: "pf = Some fr" by auto
  have ng: "parent \<noteq> 0" "as \<noteq> 0" using False by auto
  obtain s1 q where al: "alloc_thread s = Some (s1, q)"
    using r pf ng by (auto simp: thread_fork_user_def split: bind_splits)
  show ?thesis
  proof (cases q)
    case None
    then show ?thesis using r al pf ng keeps_alloc [OF al] by (simp add: thread_fork_user_def)
  next
    case (Some tk)
    obtain u stk where tk: "tk = (u, stk)" by (cases tk)
    obtain s2 tid where id: "alloc_thread_id s1 = (s2, tid)" by (cases "alloc_thread_id s1")
    obtain th s3 k s4 s5 where 3: "vfs_init_fdtable (put_thread s2 u th) u = Some s3"
      and 4: "upd_thread (all_push (s3\<lparr>kn := k\<rparr>) u) u (\<lambda>th. th\<lparr>t_sp := frame_at stk,
                        t_frame := \<lparr>f_x = (take 31 (f_x fr))[0 := 0], f_elr = f_elr fr,
                                    f_spsr = f_spsr fr, f_sp_el0 = sp\<rparr>\<rparr>) = Some s4"
      and 5: "runq_push_local s4 c u = Some s5" "s' = count_thread s5"
      using r pf ng by (clarsimp simp: thread_fork_user_def Let_def al Some tk id Option.bind_eq_Some_conv)
    have k: "keeps {u} {} s3 (all_push (s3\<lparr>kn := k\<rparr>) u)" by (rule keeps_trans [OF keeps_kern [where k = k]]) simp
    have "keeps {u} {} s s'"
      unfolding 5(2) by (rule keeps_build [OF keeps_new [OF al id] keeps_fdtable [OF 3] 4 k]) (use 5 in auto)
    then show ?thesis using keeps_fresh room_alloc [OF room] al Some tk by blast
  qed
qed

section \<open>The switch\<close>

lemma keeps_drain:
  assumes "drain_stack_to_free s c = Some s'"
  shows "keeps T C s s'"
proof (cases "stack_to_free (g_cpus s ! c) = 0")
  case True
  then show ?thesis using assms by (simp add: drain_stack_to_free_def Let_def)
next
  case False
  let ?t = "stack_to_free (g_cpus s ! c)"
  obtain th s0 where th: "threads s ?t = Some th"
    and s0: "(if t_stack th \<noteq> 0 then do {
                s1 \<leftarrow> sched_kfree s (t_stack th); Some (put_thread s1 ?t (th\<lparr>t_stack := 0\<rparr>)) }
              else Some s) = Some s0"
    and e: "s' = put_cpu s0 c ((g_cpus s0 ! c)\<lparr>stack_to_free := 0\<rparr>)"
    using assms False by (auto simp: drain_stack_to_free_def Let_def split: bind_splits)
  have "keeps T C s s0"
  proof (cases "t_stack th = 0")
    case True
    then show ?thesis using s0 by simp
  next
    case ns: False
    then obtain s1 where s1: "sched_kfree s (t_stack th) = Some s1" "s0 = put_thread s1 ?t (th\<lparr>t_stack := 0\<rparr>)"
      using s0 by (auto split: bind_splits)
    have "keeps T C s1 s0"
      unfolding s1(2) by (rule keeps_put) (use th sched_kfree_frame(1) [OF s1(1)] in \<open>auto simp: runs_def\<close>)
    then show ?thesis by (rule keeps_trans [OF keeps_kfree [OF s1(1)]])
  qed
  moreover have "keeps T C s0 s'" unfolding e by (rule keeps_put_cpu) simp_all
  ultimately show ?thesis by (rule keeps_trans)
qed

lemma keeps_pop:
  assumes "runq_pop_local s c = Some (s', t)"
  shows "keeps T C s s'"
proof (cases "runq_head (g_cpus s ! c) = 0")
  case True
  then show ?thesis using assms by (simp add: runq_pop_local_def Let_def)
next
  case False
  let ?q = "g_cpus s ! c"
  obtain th where th: "threads s (runq_head ?q) = Some th"
    and e: "s' = put_thread (put_cpu s c (?q\<lparr>runq_head := t_next th,
        runq_tail := (if t_next th = 0 then 0 else runq_tail ?q)\<rparr>)) (runq_head ?q) (th\<lparr>t_next := 0\<rparr>)"
    using assms False by (auto simp: runq_pop_local_def Let_def split: bind_splits)
  let ?s = "put_cpu s c (?q\<lparr>runq_head := t_next th, runq_tail := (if t_next th = 0 then 0 else runq_tail ?q)\<rparr>)"
  have "keeps T C s ?s" by (rule keeps_put_cpu) simp_all
  moreover have "keeps T C ?s s'"
    unfolding e by (rule keeps_put) (use th in \<open>auto simp: runs_def put_cpu_def\<close>)
  ultimately show ?thesis by (rule keeps_trans)
qed

lemma keeps_running: "upd_thread s t f = Some s' \<Longrightarrow> (\<And>th. t_state (f th) = THREAD_RUNNING) \<Longrightarrow> keeps T C s s'"
  by (auto simp: upd_thread_def intro: keeps_put)

lemma keeps_set_self: "keeps T {c} s (set_self s c t)"
  by (auto simp: keeps_def runs_def self_def set_self_def put_cpu_def nth_upd)

lemma keeps_switch:
  assumes "switch_to s c prev nxt sp = Some (s', y)"
  shows "keeps {prev} {c} s s'"
proof -
  obtain p s1 s2 where p: "threads s prev = Some p"
    and s1: "(if t_state p = THREAD_RUNNING \<and> prev \<noteq> idle (g_cpus s ! c)
        then runq_push_local (put_thread s prev (p\<lparr>t_state := THREAD_READY\<rparr>)) c prev else Some s) = Some s1"
    and s2: "upd_thread s1 nxt (\<lambda>th. th\<lparr>t_state := THREAD_RUNNING\<rparr>) = Some s2"
    and fin: "(if nxt = prev then Some (s2, YReturn)
          else do {
            let s3 = set_self s2 c nxt;
            p1 \<leftarrow> threads s3 prev;
            n1 \<leftarrow> threads s3 nxt;
            let s4 = (if t_as n1 \<noteq> t_as p1 then emit s3 (Activate (t_as n1)) else s3);
            if \<not> sp_valid s4 c nxt (t_sp n1) then Some (s4, YPanic)
            else do { s5 \<leftarrow> upd_thread s4 prev (\<lambda>th. th\<lparr>t_sp := sp\<rparr>); Some (s5, YSwitch nxt) } }) = Some (s', y)"
    using assms(1) by (auto simp: switch_to_def split: bind_splits)
  have "keeps {prev} {c} s (put_thread s prev (p\<lparr>t_state := THREAD_READY\<rparr>))" by (rule keeps_put) simp
  then have k1: "keeps {prev} {c} s s1"
    using s1 keeps_push_on keeps_trans by (auto simp: runq_push_local_def split: if_splits)
  have k2: "keeps {prev} {c} s s2"
    by (rule keeps_trans [OF k1 keeps_running [OF s2]]) simp
  show ?thesis
  proof (cases "nxt = prev")
    case True
    then show ?thesis using fin k2 by simp
  next
    case False
    let ?s3 = "set_self s2 c nxt"
    have k3: "keeps {prev} {c} s ?s3" by (rule keeps_trans [OF k2 keeps_set_self])
    obtain p1 n1 where n1: "threads ?s3 prev = Some p1" "threads ?s3 nxt = Some n1"
      using fin False by (auto simp: Let_def split: bind_splits)
    define s4 where "s4 = (if t_as n1 \<noteq> t_as p1 then emit ?s3 (Activate (t_as n1)) else ?s3)"
    have k4: "keeps {prev} {c} s s4" using k3 by (simp add: s4_def keeps_emit)
    have e: "s' = s4 \<or> upd_thread s4 prev (\<lambda>th. th\<lparr>t_sp := sp\<rparr>) = Some s'"
      using fin False n1 unfolding Let_def by (simp add: n1 flip: s4_def split: if_splits bind_splits)
    from e show ?thesis
    proof
      assume u: "upd_thread s4 prev (\<lambda>th. th\<lparr>t_sp := sp\<rparr>) = Some s'"
      show ?thesis by (rule keeps_trans [OF k4 keeps_upd [OF u]]) simp
    qed (use k4 in simp)
  qed
qed

lemma keeps_yield:
  assumes "yield s c sp = Some (s', y)"
  shows "keeps {self s c} {c} s s'"
proof -
  obtain s1 s2 s3 nxt where s1: "drain_stack_to_free s c = Some s1"
    and s2: "wake_sleepers s1 c (g_all s1) = Some s2"
    and s3: "runq_pop_local s2 c = Some (s3, nxt)"
    and fin: "(if nxt = 0 then
            let i = idle (g_cpus s3 ! c) in
            if i \<noteq> 0 \<and> self s2 c \<noteq> i then switch_to s3 c (self s2 c) i sp else Some (s3, YReturn)
          else switch_to s3 c (self s2 c) nxt sp) = Some (s', y)"
    using assms by (auto simp: yield_def Let_def split: bind_splits)
  have k2: "keeps T C s s2" for T C using keeps_drain [OF s1] keeps_wake_sleepers [OF s2] keeps_trans by blast
  have k3: "keeps T C s s3" for T C using k2 keeps_pop [OF s3] keeps_trans by blast
  have sl: "self s2 c = self s c" using k2 [of "{}" "{}"] by (simp add: keeps_def)
  have "s' = s3 \<or> (\<exists>n. switch_to s3 c (self s2 c) n sp = Some (s', y))"
    using fin by (auto simp: Let_def split: if_splits)
  then show ?thesis using k3 keeps_switch keeps_trans sl by metis
qed

section \<open>Exit and wait\<close>

lemma keeps_reap:
  assumes "reap s t = Some s'" "\<not> runs s t"
  shows "keeps T C s s'"
proof -
  obtain th s2 s4 where th: "threads s t = Some th"
    and s2: "(if t_stack th \<noteq> 0 then sched_kfree (emit (all_remove s t) (StraceRelease t)) (t_stack th)
        else Some (emit (all_remove s t) (StraceRelease t))) = Some s2"
    and s4: "free_thread (if t_as th \<noteq> 0 then emit s2 (AsDestroy (t_as th)) else s2) t = Some s4"
    and e: "s' = s4\<lparr>g_thread_count := g_thread_count s4 - 1\<rparr>"
    using assms(1) by (auto simp: reap_def Let_def split: bind_splits)
  let ?s1 = "emit (all_remove s t) (StraceRelease t)"
  let ?s3 = "if t_as th \<noteq> 0 then emit s2 (AsDestroy (t_as th)) else s2"
  have k1: "threads ?s1 = threads s" "g_cpus ?s1 = g_cpus s" by simp_all
  have k2: "threads ?s3 = threads s" "g_cpus ?s3 = g_cpus s"
    using s2 k1 sched_kfree_frame(1,3) [of ?s1 "t_stack th" s2] by (auto split: if_splits)
  obtain s5 where s5: "sched_kfree ?s3 t = Some s5" "s4 = s5\<lparr>threads := (threads s5)(t := None)\<rparr>"
    using s4 by (auto simp: free_thread_def split: bind_splits)
  have "threads s' = (threads s)(t := None)" "g_cpus s' = g_cpus s"
    using e s5 k2 sched_kfree_frame(1,3) [OF s5(1)] by simp_all
  then show ?thesis using assms(2) by (auto simp: keeps_def runs_def self_def)
qed

lemma keeps_exit_children: "exit_children s my_id ts = Some s' \<Longrightarrow> keeps T C s s'"
proof (induction ts arbitrary: s)
  case Nil
  then show ?case by simp
next
  case (Cons t ts)
  then obtain th s1 where th: "threads s t = Some th"
    and s1: "(if t_parent th = my_id then
                (if t_state th = THREAD_EXITED then reap s t
                 else Some (put_thread s t (th\<lparr>t_parent := -1\<rparr>)))
              else Some s) = Some s1" and rest: "exit_children s1 my_id ts = Some s'"
    by (auto split: bind_splits)
  have "keeps T C s (put_thread s t (th\<lparr>t_parent := -1\<rparr>))"
    by (rule keeps_put) (use th in \<open>auto simp: runs_def\<close>)
  moreover have "keeps T C s s1" if "reap s t = Some s1" "t_state th = THREAD_EXITED"
    by (rule keeps_reap [OF that(1)]) (use th that(2) in \<open>simp add: runs_def\<close>)
  ultimately have "keeps T C s s1" using s1 by (auto split: if_splits)
  then show ?case using Cons.IH [OF rest] keeps_trans by blast
qed

lemma keeps_notify:
  assumes "notify_parent s c parent = Some s'"
  shows "keeps T C s s'"
proof -
  obtain s1 r where s1: "thread_signal_pid s c parent (int SIGCHLD) = Some s1"
    and r: "thread_lookup s1 parent = Some r"
    and fin: "(case r of
            None \<Rightarrow> Some s1
          | Some p \<Rightarrow> do {
              th \<leftarrow> threads s1 p;
              if t_state th = THREAD_WAITING
              then runq_push_to (put_thread s1 p (th\<lparr>t_state := THREAD_READY\<rparr>)) c p
              else Some s1 }) = Some s'"
    using assms by (auto simp: notify_parent_def split: bind_splits)
  have "keeps T C s1 s'"
  proof (cases "s' = s1")
    case False
    then obtain p th where "threads s1 p = Some th" "t_state th = THREAD_WAITING"
      "runq_push_to (put_thread s1 p (th\<lparr>t_state := THREAD_READY\<rparr>)) c p = Some s'"
      using fin by (auto split: option.splits bind_splits if_splits)
    then show ?thesis using keeps_wake by simp
  qed simp
  then show ?thesis using keeps_signal [OF s1] keeps_trans by blast
qed

lemma keeps_exit_prepare:
  assumes "exit_prepare s c code = Some s'"
  shows "keeps {self s c} {} s s'"
proof -
  let ?t = "self s c" and ?k = "keeps {self s c} {}"
  obtain th where th: "threads s ?t = Some th"
    using assms by (auto simp: exit_prepare_def Let_def split: bind_splits)
  let ?s1 = "put_thread s ?t (th\<lparr>t_exit_code := code\<rparr>)"
  let ?s2 = "emit (emit (emit ?s1 (WmDestroyOwner (t_id th))) (WsdRelease (t_id th))) (WinRelease (t_id th))"
  obtain s3 s4 s5 th6 where s3: "run_kern ?s2 c (\<lambda>k. vfs_close_all k (Some (t_fdt th))) = Some s3"
    and s4: "upd_thread s3 ?t (\<lambda>th. th\<lparr>t_state := THREAD_EXITED\<rparr>) = Some s4"
    and s5: "exit_children s4 (t_id th) (g_all s4) = Some s5"
    and "threads (put_cpu s5 c ((g_cpus s5 ! c)\<lparr>stack_to_free := ?t\<rparr>)) ?t = Some th6"
    and fin: "(if t_parent th6 \<ge> 0 then notify_parent (put_cpu s5 c ((g_cpus s5 ! c)\<lparr>stack_to_free := ?t\<rparr>)) c (t_parent th6)
        else Some (all_remove (put_cpu s5 c ((g_cpus s5 ! c)\<lparr>stack_to_free := ?t\<rparr>)) ?t)) = Some s'"
    using assms th by (clarsimp simp: exit_prepare_def Let_def Option.bind_eq_Some_conv)
  have k2: "?k s ?s2" unfolding keeps_emit by (rule keeps_put) simp
  have k4: "?k s3 s4" using s4 by (auto simp: upd_thread_def intro!: keeps_put)
  have k6: "?k s5 (put_cpu s5 c ((g_cpus s5 ! c)\<lparr>stack_to_free := ?t\<rparr>))" by (rule keeps_put_cpu) simp_all
  have k7: "?k (put_cpu s5 c ((g_cpus s5 ! c)\<lparr>stack_to_free := ?t\<rparr>)) s'"
    using fin keeps_notify by (auto split: if_splits)
  show ?thesis
    by (rule keeps_trans [OF k2 keeps_trans [OF keeps_run_kern [OF s3] keeps_trans [OF k4
      keeps_trans [OF keeps_exit_children [OF s5] keeps_trans [OF k6 k7]]]]])
qed

section \<open>The reachable states\<close>

text \<open>Before \<open>thread_init\<close>: the static tables are zero.\<close>

definition powered_on :: "sched \<Rightarrow> bool" where
  "powered_on s \<longleftrightarrow> threads s = (\<lambda>t. None) \<and> g_all s = [] \<and> g_next_id s = 0 \<and>
     g_cpus s = replicate SMP_MAX_CPUS \<lparr>current = 0, idle = 0, runq_head = 0, runq_tail = 0, stack_to_free = 0\<rparr>"

text \<open>
  The thread on processor \<open>c\<close> may put itself to sleep.  On a processor without an idle thread, where
  \<open>yield\<close> returns at once when nothing is queued, it must not have been made ready (and queued) since
  it last ran; elsewhere this always holds.
\<close>

definition may_sleep :: "sched \<Rightarrow> nat \<Rightarrow> bool" where
  "may_sleep s c \<longleftrightarrow> c < SMP_MAX_CPUS \<and> self s c \<in> set (g_all s) \<and> (idle (g_cpus s ! c) = 0 \<longrightarrow> unwoken s c)"

text \<open>The operations, in any order and on any processor.  On a processor without an idle thread
  \<open>thread_exit\<close> is called by a running thread and finds another thread to run.\<close>

inductive sched_step :: "sched \<Rightarrow> sched \<Rightarrow> bool" where
  boot: "room s \<Longrightarrow> idle (g_cpus s ! 0) = 0 \<Longrightarrow> thread_init s 0 = Some s' \<Longrightarrow> sched_step s s'"
| secondary: "room s \<Longrightarrow> c < SMP_MAX_CPUS \<Longrightarrow> idle (g_cpus s ! c) = 0 \<Longrightarrow>
    thread_secondary_init_idle s c nm = Some (s', rc) \<Longrightarrow> sched_step s s'"
| create: "room s \<Longrightarrow> c < SMP_MAX_CPUS \<Longrightarrow> thread_create s c e a nm = Some (s', t) \<Longrightarrow> sched_step s s'"
| create_on: "room s \<Longrightarrow> thread_create_on s c target e a nm = Some (s', t) \<Longrightarrow> sched_step s s'"
| user: "room s \<Longrightarrow> c < SMP_MAX_CPUS \<Longrightarrow> user_thread_create s c e sp nm as = Some (s', t) \<Longrightarrow> sched_step s s'"
| shared: "room s \<Longrightarrow> c < SMP_MAX_CPUS \<Longrightarrow>
    user_thread_create_shared_files_on s c e sp nm as a tls cpu share = Some (s', t) \<Longrightarrow> sched_step s s'"
| fork: "room s \<Longrightarrow> c < SMP_MAX_CPUS \<Longrightarrow> thread_fork_user s c parent as fr sp = Some (s', t) \<Longrightarrow> sched_step s s'"
| time: "sched_step s (s\<lparr>clock_ms := n\<rparr>)"
| tick: "c < SMP_MAX_CPUS \<Longrightarrow> schedule s c sp = Some (s', y) \<Longrightarrow> sched_step s s'"
| sleep: "may_sleep s c \<Longrightarrow> thread_sleep_ms s c ms sp = Some (s', r) \<Longrightarrow> sched_step s s'"
| sleep_again: "may_sleep s c \<Longrightarrow> sleep_step s c target sp = Some (s', r) \<Longrightarrow> sched_step s s'"
| block: "may_sleep s c \<Longrightarrow> thread_block_on s c token sp = Some (s', y) \<Longrightarrow> sched_step s s'"
| block_until: "may_sleep s c \<Longrightarrow> thread_block_on_until s c token dl sp = Some (s', y) \<Longrightarrow> sched_step s s'"
| block_held: "may_sleep s c \<Longrightarrow> thread_block_on_held s c token sp = Some (s', y) \<Longrightarrow> sched_step s s'"
| resume: "c < SMP_MAX_CPUS \<Longrightarrow> block_until_resume s c = Some s' \<Longrightarrow> sched_step s s'"
| wake: "thread_wake_blocked s c token = Some s' \<Longrightarrow> sched_step s s'"
| signal: "thread_signal_pid s c pid sig = Some s' \<Longrightarrow> sched_step s s'"
| call: "run_kern s c f = Some s' \<Longrightarrow> sched_step s s'"
| wait: "may_sleep s c \<Longrightarrow> thread_waitpid s c target options sp = Some (s', w) \<Longrightarrow> sched_step s s'"
| exit: "c < SMP_MAX_CPUS \<Longrightarrow> self s c \<in> set (g_all s) \<Longrightarrow> thread_exit s c code sp = Some (s', y) \<Longrightarrow>
    (idle (g_cpus s ! c) = 0 \<longrightarrow> runs s (self s c) \<and> y \<noteq> YReturn) \<Longrightarrow> sched_step s s'"
| rename: "thread_rename s t nm = Some s' \<Longrightarrow> sched_step s s'"
| foreground: "sched_step s (thread_set_fg_pid s pid)"

inductive reachable :: "sched \<Rightarrow> bool" where
  start: "powered_on s \<Longrightarrow> reachable s"
| step: "reachable s \<Longrightarrow> sched_step s s' \<Longrightarrow> reachable s'"

section \<open>A processor with an idle thread runs a running thread\<close>

definition idle_runs :: "sched \<Rightarrow> bool" where
  "idle_runs s \<longleftrightarrow> (\<forall>c<SMP_MAX_CPUS. idle (g_cpus s ! c) \<noteq> 0 \<and> self s c \<noteq> 0 \<longrightarrow> runs s (self s c))"

lemma idle_runs_keeps: "keeps {} {} s s' \<Longrightarrow> idle_runs s \<Longrightarrow> idle_runs s'"
  by (simp add: keeps_def idle_runs_def)

text \<open>Two processors run different threads.\<close>

lemma self_distinct:
  assumes "sched_inv X Z s Q" "c < 4" "d < 4" "c \<noteq> d" "self s d \<noteq> 0"
  shows "self s d \<noteq> self s c"
proof
  assume e: "self s d = self s c"
  then have "self s c \<noteq> 0" using assms(5) by simp
  then obtain th where "threads s (self s c) = Some th" "t_home th = c" using inv_current [OF assms(1,2)] by metis
  moreover obtain th' where "threads s (self s d) = Some th'" "t_home th' = d"
    using inv_current [OF assms(1,3,5)] by metis
  ultimately show False using e assms(4) by simp
qed

lemma idle_runs_yield:
  assumes inv: "sched_inv {} Z s Q" and c: "c < 4" "self s c \<noteq> 0" and y: "yield s c sp = Some (s', y)"
    and others: "\<And>d. d < 4 \<Longrightarrow> d \<noteq> c \<Longrightarrow> idle (g_cpus s ! d) \<noteq> 0 \<Longrightarrow> self s d \<noteq> 0 \<Longrightarrow> runs s (self s d)"
  shows "idle_runs s'"
  unfolding idle_runs_def
proof (intro allI impI)
  fix d assume d: "d < 4" "idle (g_cpus s' ! d) \<noteq> 0 \<and> self s' d \<noteq> 0"
  note k = keeps_yield [OF y]
  have id: "idle (g_cpus s' ! d) = idle (g_cpus s ! d)" using k by (simp add: keeps_def)
  show "runs s' (self s' d)"
  proof (cases "d = c")
    case False
    then have sl: "self s' d = self s d" using k by (simp add: keeps_def)
    then have "self s d \<noteq> self s c" using self_distinct [OF inv c(1) d(1)] False d(2) by simp
    moreover have "runs s (self s d)" using others [OF d(1) False] d(2) id sl by simp
    ultimately show ?thesis using k sl by (simp add: keeps_def)
  next
    case True
    obtain Q1 zs where q: "sched_inv {} (if y = YReturn then Z else Z - {c}) s' (Q1(c := tl (Q1 c) @ zs))"
      "y = YReturn \<longleftrightarrow> self s' c = self s c"
      "(\<exists>nh. threads s' (self s' c) = Some nh \<and> t_state nh = THREAD_RUNNING) \<or>
         Q1 c = [] \<and> zs = [] \<and> y = YReturn \<and> (idle (g_cpus s ! c) = 0 \<or> self s c = idle (g_cpus s ! c))"
      by (rule yield_inv [OF inv c y])
    have "self s' c = idle (g_cpus s' ! c)" if "\<not> runs s' (self s' c)"
      using q(2,3) that id d(2) True by (auto simp: runs_def)
    then show ?thesis using inv_idle [OF q(1) c(1)] d(2) True unfolding runs_def by metis
  qed
qed

text \<open>\<open>yield\<close> comes back on such a processor only to the idle thread or to a thread that is queued.\<close>

lemma yield_returns:
  assumes inv: "sched_inv {} Z s Q" and c: "c < 4" "self s c \<noteq> 0" and y: "yield s c sp = Some (s', YReturn)"
    and i: "idle (g_cpus s ! c) \<noteq> 0" "self s c \<noteq> idle (g_cpus s ! c)"
  shows "\<exists>th. threads s (self s c) = Some th \<and> t_state th = THREAD_READY"
proof -
  obtain s1 s2 s3 nxt where s1: "drain_stack_to_free s c = Some s1"
    and s2: "wake_sleepers s1 c (g_all s1) = Some s2"
    and s3: "runq_pop_local s2 c = Some (s3, nxt)"
    and fin: "(if nxt = 0 then
            let i = idle (g_cpus s3 ! c) in
            if i \<noteq> 0 \<and> self s2 c \<noteq> i then switch_to s3 c (self s2 c) i sp else Some (s3, YReturn)
          else switch_to s3 c (self s2 c) nxt sp) = Some (s', YReturn)"
    using y by (auto simp: yield_def Let_def split: bind_splits)
  note dr = drain_inv [OF inv s1]
  obtain Q1 where inv2: "sched_inv {} Z s2 Q1" and adv: "advances (set (g_all s1) - {self s1 c}) s1 Q s2 Q1"
    using wake_sleepers_inv [OF dr(1) order_refl, of c] s2 by auto
  note ad = advances_frame [OF adv]
  have k3: "keeps {} {} s2 s3" by (rule keeps_pop [OF s3])
  have sl: "self s2 c = self s c" "idle (g_cpus s3 ! c) = idle (g_cpus s ! c)"
    using dr ad k3 by (simp_all add: keeps_def)
  have same: "n = prev" if "switch_to s3 c prev n sp = Some (s', YReturn)" for n prev
    using that by (auto simp: switch_to_def Let_def split: bind_splits if_splits)
  have n: "nxt = self s c" "nxt \<noteq> 0"
    using fin sl i c(2) by (auto simp: Let_def dest: same split: if_splits)
  show ?thesis
  proof (cases "Q1 c")
    case Nil
    then show ?thesis using pop_empty [OF inv2 c(1) Nil] s3 n(2) by simp
  next
    case (Cons t ts)
    have "runq_pop_local s2 c = Some (s3, t)"
      by (rule inv_pop [OF inv2 c(1) Cons]) (use s3 in auto)
    then have t: "self s c \<in> set (Q1 c)" using s3 n Cons by simp
    then obtain th2 where th2: "threads s2 (self s c) = Some th2" "t_state th2 = THREAD_READY"
      using inv_queued [OF inv2 c(1) t] by metis
    have "map_option core (threads s2 (self s c)) = map_option core (threads s1 (self s c))"
      using adv unfolding advances_def by blast
    then obtain th1 where th1: "threads s1 (self s c) = Some th1" using th2 by (cases "threads s1 (self s c)") auto
    have "t_state th1 = THREAD_READY"
      using adv th1 th2 dr(2) unfolding advances_def by (metis DiffD2 singletonI)
    then show ?thesis using dr(6) [of "self s c"] th1 by (cases "threads s (self s c)") (auto dest: arg_cong [where f = t_state])
  qed
qed

section \<open>Every step keeps both invariants\<close>

lemma may_sleep_unwoken:
  assumes "sched_inv {} {} s Q" "idle_runs s" "may_sleep s c"
  shows "unwoken s c"
proof (cases "idle (g_cpus s ! c) = 0")
  case False
  have "self s c \<noteq> 0" using assms(3) inv_all [OF assms(1)] by (auto simp: may_sleep_def)
  then show ?thesis using assms(2,3) False by (auto simp: may_sleep_def idle_runs_def unwoken_def runs_def)
qed (use assms in \<open>simp add: may_sleep_def\<close>)

text \<open>On a processor with an idle thread the exiting thread runs, and does not come back.\<close>

lemma exit_may:
  assumes inv: "sched_inv {} {} s Q" and ir: "idle_runs s" and c: "c < SMP_MAX_CPUS"
    and me: "self s c \<in> set (g_all s)" and e: "thread_exit s c code sp = Some (s', y)"
    and g: "idle (g_cpus s ! c) = 0 \<longrightarrow> runs s (self s c) \<and> y \<noteq> YReturn"
  shows "runs_on s c" "y \<noteq> YReturn"
proof -
  have t0: "self s c \<noteq> 0" using inv_all [OF inv me] by metis
  have "runs s (self s c)" using ir c t0 g unfolding idle_runs_def by blast
  then show r: "runs_on s c" using c me by (auto simp: runs_on_def runs_def)
  show "y \<noteq> YReturn"
  proof
    assume yr: "y = YReturn"
    then have i: "idle (g_cpus s ! c) \<noteq> 0" using g by blast
    obtain s1 where s1: "exit_prepare s c code = Some s1" and yi: "yield s1 c sp = Some (s', YReturn)"
      using e yr by (auto simp: thread_exit_def split: bind_splits)
    obtain Q1 th' where p: "sched_inv {} {c} s1 Q1" "self s1 c = self s c" "threads s1 (self s c) = Some th'"
      "t_state th' = THREAD_EXITED"
      by (rule exit_prepare_inv [OF inv r s1])
    have id: "idle (g_cpus s1 ! c) = idle (g_cpus s ! c)" using keeps_exit_prepare [OF s1] by (simp add: keeps_def)
    have "self s c \<noteq> idle (g_cpus s ! c)" using inv_idle_not_all [OF inv me c] t0 by metis
    then have "\<exists>th. threads s1 (self s1 c) = Some th \<and> t_state th = THREAD_READY"
      using yield_returns [OF p(1) c _ yi] p(2) id i t0 by simp
    then show False using p(2-4) by simp
  qed
qed

lemma powered_on_inv: "powered_on s \<Longrightarrow> sched_inv {} {} s (\<lambda>c. [])"
  by (auto simp: powered_on_def sched_inv_def runq_def self_def)

lemma thread_sleep_inv:
  assumes "sched_inv {} {} s Q" "unwoken s c" "thread_sleep_ms s c ms sp = Some (s', r)"
  shows "\<exists>Q'. sched_inv {} {} s' Q'"
  using assms sleep_step_inv [OF assms(1,2)] by (auto simp: thread_sleep_ms_def split: if_splits)

lemma resume_inv:
  assumes inv: "sched_inv {} {} s Q" and r: "block_until_resume s c = Some s'"
  shows "sched_inv {} {} s' Q"
proof -
  obtain th where th: "threads s (self s c) = Some th"
    using r by (auto simp: block_until_resume_def upd_thread_def)
  then have "s' = put_thread s (self s c) (th\<lparr>t_wake_at := 0\<rparr>)"
    using r by (simp add: block_until_resume_def upd_thread_eq)
  then show ?thesis using inv_put_same [OF inv th, of "th\<lparr>t_wake_at := 0\<rparr>"] by simp
qed

lemma rename_inv:
  assumes inv: "sched_inv {} {} s Q" and r: "thread_rename s t nm = Some s'"
  shows "sched_inv {} {} s' Q"
proof (cases "t = 0")
  case True
  then show ?thesis using r inv by (simp add: thread_rename_def)
next
  case False
  then obtain th where th: "threads s t = Some th" using r by (auto simp: thread_rename_def upd_thread_def)
  then have "s' = put_thread s t (th\<lparr>t_name := name_of nm\<rparr>)"
    using r False by (simp add: thread_rename_def upd_thread_eq)
  then show ?thesis using inv_put_same [OF inv th, of "th\<lparr>t_name := name_of nm\<rparr>"] by simp
qed

lemma schedule_inv:
  assumes "sched_inv {} {} s Q" "c < 4" "schedule s c sp = Some (s', y)"
  shows "\<exists>Q'. sched_inv {} {} s' Q'"
  using assms yield_inv0 [OF assms(1,2)] by (auto simp: schedule_def split: if_splits)

lemma sched_step_inv:
  assumes "sched_step s s'" "sched_inv {} {} s Q" "idle_runs s"
  shows "\<exists>Q'. sched_inv {} {} s' Q'"
  using assms
proof (induction rule: sched_step.induct)
  case (boot s s')
  then show ?case using thread_init_inv by blast
next
  case (secondary s c nm s' rc)
  then show ?case using secondary_idle_inv by blast
next
  case (create s c e a nm s' t)
  show ?case by (rule thread_create_inv [OF create(4,1,2,3)]) blast
next
  case (create_on s c target e a nm s' t)
  show ?case by (rule thread_create_on_inv [OF create_on(3,1,2)]) blast
next
  case (user s c e sp nm as s' t)
  show ?case by (rule user_thread_create_inv [OF user(4,1,2,3)]) blast
next
  case (shared s c e sp nm as a tls cpu share s' t)
  show ?case by (rule shared_files_inv [OF shared(4,1,2,3)]) blast
next
  case (fork s c parent as fr sp s' t)
  show ?case by (rule thread_fork_user_inv [OF fork(4,1,2,3)]) blast
next
  case (time s n)
  then show ?case using inv_cong [of "s\<lparr>clock_ms := n\<rparr>" s] by (intro exI [of _ Q]) simp
next
  case (tick c s sp s' y)
  then show ?case using schedule_inv by blast
next
  case (sleep s c ms sp s' r)
  then show ?case using may_sleep_unwoken thread_sleep_inv by blast
next
  case (sleep_again s c target sp s' r)
  then show ?case using may_sleep_unwoken sleep_step_inv by blast
next
  case (block s c token sp s' y)
  then show ?case using may_sleep_unwoken block_inv by blast
next
  case (block_until s c token dl sp s' y)
  then show ?case using may_sleep_unwoken block_inv by blast
next
  case (block_held s c token sp s' y)
  then show ?case using may_sleep_unwoken block_inv by blast
next
  case (resume c s s')
  then show ?case using resume_inv by blast
next
  case (wake s c token s')
  then show ?case using thread_wake_blocked_inv [OF wake(2)] by (metis option.inject)
next
  case (signal s c pid sig s')
  then show ?case using thread_signal_pid_inv [OF signal(2)] by (metis option.inject)
next
  case (call s c f s')
  show ?case by (rule run_kern_inv [OF call(2,1)]) blast
next
  case (wait s c target options sp s' w)
  then show ?case using may_sleep_unwoken waitpid_inv by blast
next
  case (exit c s code sp s' y)
  note m = exit_may [OF exit(5,6,1,2,3,4)]
  show ?case by (rule thread_exit_inv [OF exit(5) m(1) exit(3) m(2)])
next
  case (rename s t nm s')
  then show ?case using rename_inv by blast
next
  case (foreground s pid)
  then show ?case using inv_cong [of "thread_set_fg_pid s pid" s] by (intro exI [of _ Q]) (simp add: thread_set_fg_pid_def)
qed


lemma idle_runs_own:
  assumes inv: "sched_inv {} {} s Q" and u: "unwoken s c" and th: "threads s (self s c) = Some th"
    and f: "t_next th' = t_next th" "t_home th' = t_home th" "t_id th' = t_id th" "t_parent th' = t_parent th"
      "t_state th' \<noteq> THREAD_READY" "t_state th' \<noteq> THREAD_EXITED"
    and ir: "idle_runs s" and y: "yield (put_thread s (self s c) th') c sp = Some (s', y)"
  shows "idle_runs s'"
proof -
  obtain th0 where t: "threads s (self s c) = Some th0" "self s c \<noteq> 0" "c < 4"
    by (rule unwoken_own [OF inv u]) blast
  let ?s = "put_thread s (self s c) th'"
  have i: "sched_inv {} {} ?s Q" by (rule own_state_inv [OF inv u th f])
  have "runs ?s (self ?s d)" if d: "d < 4" "d \<noteq> c" "idle (g_cpus ?s ! d) \<noteq> 0" "self ?s d \<noteq> 0" for d
  proof -
    have "runs s (self s d)" using ir d by (simp add: idle_runs_def)
    moreover have "self s d \<noteq> self s c" using self_distinct [OF inv t(3) d(1)] d(2,4) by simp
    ultimately show ?thesis by (simp add: runs_def)
  qed
  then show ?thesis using idle_runs_yield [OF i t(3) _ y] t(2) by simp
qed

lemma idle_runs_but:
  assumes "keeps {} {c} s s'" "idle_runs s" "idle (g_cpus s' ! c) \<noteq> 0 \<Longrightarrow> self s' c \<noteq> 0 \<Longrightarrow> runs s' (self s' c)"
  shows "idle_runs s'"
  unfolding idle_runs_def
proof (intro allI impI)
  fix d assume d: "d < 4" "idle (g_cpus s' ! d) \<noteq> 0 \<and> self s' d \<noteq> 0"
  show "runs s' (self s' d)"
    using assms d by (cases "d = c") (auto simp: keeps_def idle_runs_def)
qed

text \<open>The first thread of a processor.\<close>

lemma keeps_first:
  assumes room: "room s" and m: "sched_kmalloc s SIZEOF_THREAD = Some (s1, t)" "t \<noteq> 0"
    and i: "alloc_thread_id s1 = (s2, tid)" and f: "vfs_init_fdtable (put_thread s2 t th) t = Some s3"
  shows "keeps {} {} s s3" "t_state th = THREAD_RUNNING \<Longrightarrow> runs s3 t"
proof -
  have k2: "keeps {t} {} s s2"
    using keeps_kmalloc [OF m(1), of "{t}" "{}"] keeps_all_push(4) [of "{t}" "{}" s1] i keeps_trans by simp
  have "keeps {t} {} s2 (put_thread s2 t th)" by (rule keeps_put) simp
  then have "keeps {t} {} s s3" using k2 keeps_fdtable [OF f] keeps_trans by blast
  then show "keeps {} {} s s3" by (rule keeps_fresh) (rule room_fresh [OF room m])
  show "runs s3 t" if "t_state th = THREAD_RUNNING"
    using keeps_fdtable [OF f, of "{}" "{}"] that by (simp add: keeps_def runs_def)
qed

lemma idle_runs_boot:
  assumes room: "room s" and i: "idle (g_cpus s ! 0) = 0" and r: "thread_init s 0 = Some s'" and ir: "idle_runs s"
  shows "idle_runs s'"
proof -
  obtain s1 t where al: "sched_kmalloc s SIZEOF_THREAD = Some (s1, t)" "t \<noteq> 0"
    using r by (auto simp: thread_init_def split: bind_splits if_splits)
  obtain s2 tid where id: "alloc_thread_id s1 = (s2, tid)" by (cases "alloc_thread_id s1")
  let ?th = "(base_thread s2 t 0 tid (-1) 0)\<lparr>t_state := THREAD_RUNNING, t_name := name_of (Some ''boot'')\<rparr>"
  obtain s3 where s3: "vfs_init_fdtable (put_thread s2 t ?th) t = Some s3"
    and s': "s' = (set_self (all_push s3 t) 0 t)\<lparr>g_thread_count := 1\<rparr>"
    using r al by (clarsimp simp: thread_init_def Let_def id Option.bind_eq_Some_conv)
  have "keeps {} {0} s s3" by (rule keeps_mono [OF keeps_first(1) [OF room al id s3]]) simp_all
  also have "keeps {} {0} s3 (all_push s3 t)" by simp
  also have "keeps {} {0} (all_push s3 t) (set_self (all_push s3 t) 0 t)" by (rule keeps_set_self)
  also have "keeps {} {0} \<dots> s'" unfolding s' by (rule keeps_same) simp_all
  finally have k: "keeps {} {0} s s'" .
  then have "idle (g_cpus s' ! 0) = 0" using i by (simp add: keeps_def)
  then show ?thesis using idle_runs_but [OF k ir] by simp
qed

lemma idle_runs_secondary:
  assumes room: "room s" and r: "thread_secondary_init_idle s c nm = Some (s', rc)" and ir: "idle_runs s"
  shows "idle_runs s'"
proof -
  obtain s1 t where al: "sched_kmalloc s SIZEOF_THREAD = Some (s1, t)"
    using r by (auto simp: thread_secondary_init_idle_def split: bind_splits)
  show ?thesis
  proof (cases "t = 0")
    case True
    then have "s' = s1" using r al by (simp add: thread_secondary_init_idle_def)
    then show ?thesis using idle_runs_keeps [OF keeps_kmalloc [OF al] ir] by simp
  next
    case t0: False
    obtain s2 tid where id: "alloc_thread_id s1 = (s2, tid)" by (cases "alloc_thread_id s1")
    let ?th = "(base_thread s2 t 0 tid (-1) c)\<lparr>t_state := THREAD_RUNNING, t_name := name_of nm\<rparr>"
    obtain s3 where s3: "vfs_init_fdtable (put_thread s2 t ?th) t = Some s3"
      and s': "s' = put_cpu s3 c ((g_cpus s3 ! c)\<lparr>idle := t, current := t\<rparr>)"
      using r t0 by (clarsimp simp: thread_secondary_init_idle_def Let_def al id Option.bind_eq_Some_conv)
    have k: "idle_runs s3" "runs s3 t"
      using keeps_first [OF room al t0 id s3] idle_runs_keeps ir by simp_all
    have th: "runs s' = runs s3" by (intro ext) (simp add: s' runs_def put_cpu_def)
    show ?thesis
      using k by (auto simp: idle_runs_def th) (auto simp: s' self_def put_cpu_def nth_upd split: if_splits)
  qed
qed

lemma idle_runs_schedule:
  assumes inv: "sched_inv {} {} s Q" and c: "c < 4" and r: "schedule s c sp = Some (s', y)" and ir: "idle_runs s"
  shows "idle_runs s'"
proof (cases "self s c = 0")
  case False
  then have "yield s c sp = Some (s', y)" using r by (simp add: schedule_def)
  then show ?thesis by (rule idle_runs_yield [OF inv c False]) (use ir in \<open>simp add: idle_runs_def\<close>)
qed (use r ir in \<open>simp add: schedule_def\<close>)

lemma idle_runs_sleep:
  assumes inv: "sched_inv {} {} s Q" and u: "unwoken s c" and r: "sleep_step s c target sp = Some (s', y)"
    and ir: "idle_runs s"
  shows "idle_runs s'"
proof -
  obtain th where th: "threads s (self s c) = Some th" by (rule unwoken_own [OF inv u])
  show ?thesis
  proof (cases "clock_ms s < target \<and> t_sig_pending th = 0")
    case True
    let ?th = "th\<lparr>t_wake_at := target, t_state := THREAD_SLEEPING\<rparr>"
    obtain y' where "yield (put_thread s (self s c) ?th) c sp = Some (s', y')"
      using r th True by (auto simp: sleep_step_def split: bind_splits)
    then show ?thesis by (rule idle_runs_own [OF inv u th, rotated -1]) (use ir in simp_all)
  next
    case False
    then have "s' = put_thread s (self s c) (th\<lparr>t_state := THREAD_RUNNING\<rparr>)"
      using r th unfolding sleep_step_def by (simp only: th option.simps bind.simps if_not_P [OF False]) simp
    then show ?thesis using idle_runs_keeps [OF keeps_put ir] by simp
  qed
qed

lemma idle_runs_block:
  assumes inv: "sched_inv {} {} s Q" and u: "unwoken s c"
    and r: "thread_block_on s c token sp = Some (s', y) \<or> thread_block_on_until s c token dl sp = Some (s', y) \<or>
      thread_block_on_held s c token sp = Some (s', y)" and ir: "idle_runs s"
  shows "idle_runs s'"
proof -
  obtain th where th: "threads s (self s c) = Some th" "self s c \<noteq> 0" by (rule unwoken_own [OF inv u])
  obtain th' where th': "t_next th' = t_next th" "t_home th' = t_home th" "t_id th' = t_id th"
      "t_parent th' = t_parent th" "t_state th' = THREAD_BLOCKED" "yield (put_thread s (self s c) th') c sp = Some (s', y)"
    using block_mark [OF th r] by blast
  show ?thesis by (rule idle_runs_own [OF inv u th(1) _ _ _ _ _ _ ir th'(6)]) (use th' in simp_all)
qed

lemma idle_runs_wait:
  assumes inv: "sched_inv {} {} s Q" and u: "unwoken s c"
    and r: "thread_waitpid s c target options sp = Some (s', w)" and ir: "idle_runs s"
  shows "idle_runs s'"
proof -
  obtain me where me: "threads s (self s c) = Some me" by (rule unwoken_own [OF inv u])
  obtain m ex where sc: "wait_scan s (t_id me) target (g_all s) False = Some (m, ex)"
    using r me by (auto simp: thread_waitpid_def split: bind_splits)
  show ?thesis
  proof (cases ex)
    case (Some t)
    obtain th where th: "m" "threads s t = Some th" "t_state th = THREAD_EXITED"
      using wait_scan_found sc Some by blast
    then have rp: "reap s t = Some s'" using r me sc Some by (auto simp: thread_waitpid_def split: bind_splits)
    show ?thesis by (rule idle_runs_keeps [OF keeps_reap [OF rp] ir]) (use th in \<open>simp add: runs_def\<close>)
  next
    case None
    show ?thesis
    proof (cases "\<not> m \<or> options AND 1 \<noteq> 0")
      case True
      then have "s' = s" using r me sc None by (cases m) (auto simp: thread_waitpid_def)
      then show ?thesis using ir by simp
    next
      case False
      obtain y where "yield (put_thread s (self s c) (me\<lparr>t_state := THREAD_WAITING\<rparr>)) c sp = Some (s', y)"
        using r me sc None False by (auto simp: thread_waitpid_def upd_thread_eq split: bind_splits)
      then show ?thesis by (rule idle_runs_own [OF inv u me, rotated -1]) (use ir in simp_all)
    qed
  qed
qed

lemma idle_runs_exit:
  assumes inv: "sched_inv {} {} s Q" and run: "runs_on s c" and e: "thread_exit s c code sp = Some (s', y)"
    and ir: "idle_runs s"
  shows "idle_runs s'"
proof -
  obtain s1 where s1: "exit_prepare s c code = Some s1" and yi: "yield s1 c sp = Some (s', y)"
    using e by (auto simp: thread_exit_def split: bind_splits)
  have c: "c < 4" and t0: "self s c \<noteq> 0" using run inv_all [OF inv] by (auto simp: runs_on_def)
  obtain Q1 th' where p: "sched_inv {} {c} s1 Q1" "self s1 c = self s c" by (rule exit_prepare_inv [OF inv run s1])
  note k = keeps_exit_prepare [OF s1]
  have "runs s1 (self s1 d)" if d: "d < 4" "d \<noteq> c" "idle (g_cpus s1 ! d) \<noteq> 0" "self s1 d \<noteq> 0" for d
  proof -
    have sl: "self s1 d = self s d" "idle (g_cpus s1 ! d) = idle (g_cpus s ! d)" using k by (simp_all add: keeps_def)
    then have "runs s (self s d)" using ir d by (simp add: idle_runs_def)
    moreover have "self s d \<noteq> self s c" using self_distinct [OF inv c d(1)] d(2,4) sl by simp
    ultimately show ?thesis using k sl by (simp add: keeps_def)
  qed
  then show ?thesis using idle_runs_yield [OF p(1) c _ yi] p(2) t0 by simp
qed

lemma idle_runs_step:
  assumes "sched_step s s'" "sched_inv {} {} s Q" "idle_runs s"
  shows "idle_runs s'"
  using assms
proof (induction rule: sched_step.induct)
  case (boot s s')
  then show ?case using idle_runs_boot by blast
next
  case (secondary s c nm s' rc)
  then show ?case using idle_runs_secondary by blast
next
  case (create s c e a nm s' t)
  then show ?case using idle_runs_keeps keeps_thread_create by blast
next
  case (create_on s c target e a nm s' t)
  then show ?case using idle_runs_keeps keeps_thread_create_on by blast
next
  case (user s c e sp nm as s' t)
  then show ?case using idle_runs_keeps keeps_user_thread_create by blast
next
  case (shared s c e sp nm as a tls cpu share s' t)
  then show ?case using idle_runs_keeps keeps_shared_files by blast
next
  case (fork s c parent as fr sp s' t)
  then show ?case using idle_runs_keeps keeps_fork by blast
next
  case (time s n)
  then show ?case using idle_runs_keeps [OF keeps_same [of "s\<lparr>clock_ms := n\<rparr>" s]] by simp
next
  case (tick c s sp s' y)
  then show ?case using idle_runs_schedule by blast
next
  case (sleep s c ms sp s' r)
  show ?case
  proof (cases "self s c = 0")
    case False
    then have "sleep_step s c (add64 (clock_ms s) ms) sp = Some (s', r)"
      using sleep(2) by (simp add: thread_sleep_ms_def)
    then show ?thesis by (rule idle_runs_sleep [OF sleep(3) may_sleep_unwoken [OF sleep(3,4,1)] _ sleep(4)])
  qed (use sleep in \<open>simp add: thread_sleep_ms_def\<close>)
next
  case (sleep_again s c target sp s' r)
  then show ?case using may_sleep_unwoken idle_runs_sleep by blast
next
  case (block s c token sp s' y)
  then show ?case using may_sleep_unwoken idle_runs_block by blast
next
  case (block_until s c token dl sp s' y)
  then show ?case using may_sleep_unwoken idle_runs_block by blast
next
  case (block_held s c token sp s' y)
  then show ?case using may_sleep_unwoken idle_runs_block by blast
next
  case (resume c s s')
  then show ?case using idle_runs_keeps keeps_upd unfolding block_until_resume_def by fastforce
next
  case (wake s c token s')
  then show ?case using idle_runs_keeps keeps_wake_blocked by blast
next
  case (signal s c pid sig s')
  then show ?case using idle_runs_keeps keeps_signal by blast
next
  case (call s c f s')
  then show ?case using idle_runs_keeps keeps_run_kern by blast
next
  case (wait s c target options sp s' w)
  then show ?case using may_sleep_unwoken idle_runs_wait by blast
next
  case (exit s c code sp s' y)
  note m = exit_may [OF exit(5,6,1,2,3,4)]
  show ?case by (rule idle_runs_exit [OF exit(5) m(1) exit(3,6)])
next
  case (rename s t nm s')
  then show ?case using idle_runs_keeps keeps_upd by (fastforce simp: thread_rename_def split: if_splits)
next
  case (foreground s pid)
  then show ?case using idle_runs_keeps [OF keeps_same [of "thread_set_fg_pid s pid" s]] by (simp add: thread_set_fg_pid_def)
qed

lemma reachable_inv: "reachable s \<Longrightarrow> (\<exists>Q. sched_inv {} {} s Q) \<and> idle_runs s"
proof (induction rule: reachable.induct)
  case (start s)
  then show ?case using powered_on_inv by (auto simp: idle_runs_def powered_on_def)
next
  case (step s s')
  then show ?case using sched_step_inv idle_runs_step by blast
qed

end
