(* ===== verification/SchedProps.thy ===== *)
theory SchedProps
  imports SchedTurns SchedReach
begin

text \<open>The properties of the scheduler, with a small machine for the witnesses.\<close>

section \<open>An example\<close>

text \<open>A machine with 64 KiB of heap, of which only the parts the scheduler looks at are given.\<close>

definition ex_heap :: heap where
  "ex_heap = the (kheap_init \<lparr>heap_start = 0, heap_end = 0,
     hdr = (\<lambda>_. \<lparr>total_size = 0, prev_size = 0\<rparr>)\<rparr> 0x80000000 65536)"

definition ex_start :: sched where
  "ex_start = undefined\<lparr>
     kn := undefined\<lparr>kv := undefined\<lparr>sk := undefined\<lparr>kheap := ex_heap\<rparr>\<rparr>, fdts := \<lambda>t. None\<rparr>,
     threads := \<lambda>t. None, g_all := [],
     g_cpus := replicate 4 \<lparr>current = 0, idle = 0, runq_head = 0, runq_tail = 0, stack_to_free = 0\<rparr>,
     g_next_id := 0\<rparr>"

lemma ex_heap_rep: "heap_rep ex_heap [(65536, False)]" "heap_start ex_heap = 0x80000000"
proof -
  have "kheap_init \<lparr>heap_start = 0, heap_end = 0, hdr = (\<lambda>_. \<lparr>total_size = 0, prev_size = 0\<rparr>)\<rparr> 0x80000000 65536 =
      Some ex_heap \<and> heap_rep ex_heap [(65536, False)] \<and> heap_start ex_heap = 0x80000000"
    using kheap_init_rep [of "0x80000000" 65536 "\<lparr>heap_start = 0, heap_end = 0,
      hdr = (\<lambda>_. \<lparr>total_size = 0, prev_size = 0\<rparr>)\<rparr>"]
    by (auto simp: ex_heap_def)
  then show "heap_rep ex_heap [(65536, False)]" "heap_start ex_heap = 0x80000000" by simp_all
qed

lemma ex_alloc:
  assumes "heap_rep h bs" "heap_start h = 0x80000000" "0 < n" "afit (kmalloc_need n) bs = Some (off, bs')"
  shows "\<exists>h'. kmalloc h n = Some (h', 0x80000000 + off + 16) \<and> heap_rep h' bs' \<and> heap_start h' = 0x80000000"
  using kmalloc_first_fit [OF assms(1,3)] assms(2,4) by auto

lemmas ex_sizes = kmalloc_need_def align_up64_def align_down_def add64_def split_blk_def

text \<open>The allocations of \<open>thread_init\<close> and of one \<open>thread_create\<close>.\<close>

lemma ex_heaps:
  "\<exists>h1 h2 h3 h4 h5. kmalloc ex_heap 1144 = Some (h1, 2147483664) \<and> kmalloc h1 1672 = Some (h2, 2147484832) \<and>
     kmalloc h2 1144 = Some (h3, 2147486528) \<and> kmalloc h3 16384 = Some (h4, 2147487696) \<and>
     kmalloc h4 1672 = Some (h5, 2147504096)"
proof -
  obtain h1 where 1: "kmalloc ex_heap 1144 = Some (h1, 2147483664)"
    "heap_rep h1 [(1168, True), (64368, False)]" "heap_start h1 = 0x80000000"
    using ex_alloc [OF ex_heap_rep, of 1144 0 "[(1168, True), (64368, False)]"] by (auto simp: ex_sizes)
  obtain h2 where 2: "kmalloc h1 1672 = Some (h2, 2147484832)"
    "heap_rep h2 [(1168, True), (1696, True), (62672, False)]" "heap_start h2 = 0x80000000"
    using ex_alloc [OF 1(2,3), of 1672 1168 "[(1168, True), (1696, True), (62672, False)]"] by (auto simp: ex_sizes)
  obtain h3 where 3: "kmalloc h2 1144 = Some (h3, 2147486528)"
    "heap_rep h3 [(1168, True), (1696, True), (1168, True), (61504, False)]" "heap_start h3 = 0x80000000"
    using ex_alloc [OF 2(2,3), of 1144 2864 "[(1168, True), (1696, True), (1168, True), (61504, False)]"] by (auto simp: ex_sizes)
  obtain h4 where 4: "kmalloc h3 16384 = Some (h4, 2147487696)"
    "heap_rep h4 [(1168, True), (1696, True), (1168, True), (16400, True), (45104, False)]" "heap_start h4 = 0x80000000"
    using ex_alloc [OF 3(2,3), of 16384 4032 "[(1168, True), (1696, True), (1168, True), (16400, True), (45104, False)]"]
    by (auto simp: ex_sizes)
  have "\<exists>h5. kmalloc h4 1672 = Some (h5, 2147504096)"
    using ex_alloc [OF 4(2,3), of 1672 20432 "[(1168, True), (1696, True), (1168, True), (16400, True), (1696, True), (43408, False)]"]
    by (auto simp: ex_sizes)
  then show ?thesis using 1(1) 2(1) 3(1) 4(1) by blast
qed

lemmas ex_ops = sched_kmalloc_def kmem_def set_kmem_def alloc_thread_id_def vfs_init_fdtable_def
  fd_table_create_def put_thread_def all_push_def set_self_def put_cpu_def self_def Let_def

text \<open>The boot thread runs and a second one is ready.\<close>

lemma ex_machine:
  "\<exists>s1 s2 th. thread_init ex_start 0 = Some s1 \<and> thread_create s1 0 0 0 None = Some (s2, 2147486528) \<and>
     room ex_start \<and> room s1 \<and> idle (g_cpus ex_start ! 0) = 0 \<and> self s2 0 = 2147483664 \<and> stack_to_free (g_cpus s2 ! 0) = 0 \<and>
     g_all s2 = [2147486528, 2147483664] \<and> threads s2 2147486528 = Some th \<and> t_state th = THREAD_READY \<and> t_home th = 0"
proof -
  obtain h1 h2 h3 h4 h5 where h: "kmalloc ex_heap 1144 = Some (h1, 2147483664)" "kmalloc h1 1672 = Some (h2, 2147484832)"
    "kmalloc h2 1144 = Some (h3, 2147486528)" "kmalloc h3 16384 = Some (h4, 2147487696)"
    "kmalloc h4 1672 = Some (h5, 2147504096)"
    using ex_heaps by blast
  show ?thesis
    by (simp add: thread_init_def thread_create_def alloc_thread_def parent_id_def inherit_paths_def
        runq_push_local_def runq_push_on_def upd_thread_def count_thread_def ex_start_def ex_ops h base_thread_def
        room_def)
qed

lemma ex_reachable:
  obtains s2 th where "reachable s2" "self s2 0 = 2147483664" "stack_to_free (g_cpus s2 ! 0) = 0"
    "g_all s2 = [2147486528, 2147483664]" "threads s2 2147486528 = Some th" "t_state th = THREAD_READY" "t_home th = 0"
proof -
  obtain s1 s2 th where m: "thread_init ex_start 0 = Some s1" "thread_create s1 0 0 0 None = Some (s2, 2147486528)"
     "room ex_start" "room s1" "idle (g_cpus ex_start ! 0) = 0" "self s2 0 = 2147483664" "stack_to_free (g_cpus s2 ! 0) = 0"
     "g_all s2 = [2147486528, 2147483664]" "threads s2 2147486528 = Some th" "t_state th = THREAD_READY" "t_home th = 0"
    using ex_machine by blast
  have "powered_on ex_start" by (simp add: powered_on_def ex_start_def)
  then have "reachable s1" by (rule reachable.step [OF reachable.start]) (rule sched_step.boot [OF m(3,5,1)])
  then have "reachable s2" by (rule reachable.step) (rule sched_step.create [OF m(4) _ m(2)], simp)
  then show thesis using that m by blast
qed

section \<open>Properties\<close>

text \<open>C36. In every state the scheduler can get into, the run queues are well formed: each is a chain
  through the \<open>next\<close> links with its head and tail right and no thread twice; it holds ready threads of
  its own processor only; every ready thread stands in the queue of its processor; a processor runs a
  thread of its own, and its idle thread is never queued.  A processor that has an idle thread always
  runs a thread in the state \<open>THREAD_RUNNING\<close>, so that a thread there never sleeps, blocks, waits or
  exits while it stands in a queue.  The operations of the four processors come in any order, but
  a creating operation finds fresh memory and fewer than \<open>2 ^ 31\<close> thread numbers used, and on a
  processor without an idle thread (processor 0, where \<open>yield\<close> returns at once when nothing is queued)
  a thread does not put itself to sleep while it stands woken in the queue, and \<open>thread_exit\<close> is called
  by a running thread and finds another one to run.\<close>

theorem run_queues_well_formed:
  assumes "reachable s"
  shows "(\<exists>Q. sched_inv {} {} s Q) \<and>
    (\<forall>c<SMP_MAX_CPUS. idle (g_cpus s ! c) \<noteq> 0 \<and> self s c \<noteq> 0 \<longrightarrow>
      (\<exists>th. threads s (self s c) = Some th \<and> t_state th = THREAD_RUNNING))"
  using reachable_inv [OF assms] by (simp add: idle_runs_def runs_def)

lemma run_queues_well_formed_witness:
  "\<exists>s Q. reachable s \<and> self s 0 = 2147483664 \<and> g_all s = [2147486528, 2147483664] \<and> sched_inv {} {} s Q"
proof -
  obtain s where "reachable s" "self s 0 = 2147483664" "g_all s = [2147486528, 2147483664]" by (rule ex_reachable)
  then show ?thesis using run_queues_well_formed by blast
qed



end
