(* ===== verification/AddrSpace.thy ===== *)
theory AddrSpace
  imports Vfs PageCache
begin

text \<open>
  Address spaces: \<open>kernel/arch/address_space.c\<close>.

  The page tables are where the processor finds them, in the words of physical memory that
  \<open>Pmem\<close> allocates: a descriptor is the word at \<open>table + 8 * index\<close>.  A \<open>struct address_space\<close>,
  a \<open>struct vma\<close> and a \<open>struct wm_va_range\<close> live at the address \<open>kmalloc\<close> returned; the
  two linked lists are lists of nodes with their addresses.  \<open>vm\<close> puts the tables beside the
  heap and the files of the kernel, the page cache with the page allocator, and the
  reference counts.

  The barriers and the TLB instructions are not modelled: a translation reads the tables.
  \<open>None\<close> is the outcome of an operation that walks a corrupt heap.
\<close>

section \<open>Descriptors\<close>

abbreviation (input) PTES_PER_TABLE :: nat where "PTES_PER_TABLE \<equiv> 512"
abbreviation (input) USER_L1_SLOT :: nat where "USER_L1_SLOT \<equiv> 64"
abbreviation (input) USER_VA_BASE :: nat where "USER_VA_BASE \<equiv> 0x1000000000"
abbreviation (input) USER_VA_END :: nat where "USER_VA_END \<equiv> 0x1040000000"
abbreviation (input) USER_HEAP_BASE :: nat where "USER_HEAP_BASE \<equiv> 0x1010000000"
abbreviation (input) USER_HEAP_MAX :: nat where "USER_HEAP_MAX \<equiv> 0x1030000000"
abbreviation (input) USER_MMAP_BASE :: nat where "USER_MMAP_BASE \<equiv> 0x1030000000"
abbreviation (input) USER_MMAP_MAX :: nat where "USER_MMAP_MAX \<equiv> 0x103F000000"

definition DESC_VALID :: u64 where "DESC_VALID = 1"
definition DESC_TABLE :: u64 where "DESC_TABLE = push_bit 1 1"
definition DESC_PAGE :: u64 where "DESC_PAGE = push_bit 1 1"
definition DESC_AF :: u64 where "DESC_AF = push_bit 10 1"
definition DESC_SH_INNER :: u64 where "DESC_SH_INNER = push_bit 8 3"
definition DESC_AP_RW_EL0 :: u64 where "DESC_AP_RW_EL0 = push_bit 6 1"
definition DESC_AP_RO_EL0 :: u64 where "DESC_AP_RO_EL0 = push_bit 6 3"
definition DESC_PXN :: u64 where "DESC_PXN = push_bit 53 1"
definition DESC_UXN :: u64 where "DESC_UXN = push_bit 54 1"
definition DESC_SW_COW :: u64 where "DESC_SW_COW = push_bit 55 1"
definition DESC_SW_PAGECACHE :: u64 where "DESC_SW_PAGECACHE = push_bit 56 1"
definition DESC_SW_GUARD :: u64 where "DESC_SW_GUARD = push_bit 57 1"
definition DESC_SW_WM_WINDOW :: u64 where "DESC_SW_WM_WINDOW = push_bit 58 1"
definition ATTR_NORMAL :: u64 where "ATTR_NORMAL = push_bit 2 0"

definition L1_INDEX :: "nat \<Rightarrow> nat" where "L1_INDEX va = va div 2 ^ 30 mod 512"
definition L2_INDEX :: "nat \<Rightarrow> nat" where "L2_INDEX va = va div 2 ^ 21 mod 512"
definition L3_INDEX :: "nat \<Rightarrow> nat" where "L3_INDEX va = va div 2 ^ 12 mod 512"

text \<open>\<open>pa & ~0xFFF\<close> and \<open>e & ~0xFFF & ((1 << 48) - 1)\<close>.\<close>

definition page_bits :: "nat \<Rightarrow> u64" where
  "page_bits pa = word_of_nat pa AND NOT (mask 12)"

definition desc_pa :: "u64 \<Rightarrow> nat" where
  "desc_pa e = unat (e AND NOT (mask 12) AND mask 48)"

definition has :: "u64 \<Rightarrow> u64 \<Rightarrow> bool" where
  "has e flag \<longleftrightarrow> e AND flag \<noteq> 0"

definition ap_field :: "u64 \<Rightarrow> u64" where
  "ap_field e = e AND push_bit 6 3"

text \<open>The descriptor of \<open>address_space_map\<close>, which the other writers repeat.\<close>

definition page_attrs :: "bool \<Rightarrow> bool \<Rightarrow> u64" where
  "page_attrs writable executable =
     ATTR_NORMAL OR DESC_AF OR DESC_SH_INNER OR (if writable then DESC_AP_RW_EL0 else DESC_AP_RO_EL0)
       OR DESC_PXN OR (if executable then 0 else DESC_UXN) OR DESC_VALID OR DESC_PAGE"

definition build_user_desc :: "nat \<Rightarrow> bool \<Rightarrow> bool \<Rightarrow> u64" where
  "build_user_desc pa writable is_pagecache =
     (let d = ATTR_NORMAL OR DESC_AF OR DESC_SH_INNER OR
              (if writable then DESC_AP_RW_EL0 else DESC_AP_RO_EL0) OR
              DESC_PXN OR DESC_UXN OR DESC_VALID OR DESC_PAGE OR page_bits pa
      in if is_pagecache then d OR DESC_SW_PAGECACHE else d)"

section \<open>State\<close>

datatype vma_kind = VMA_ANON | VMA_FILE_RAMFS

definition PROT_READ :: u32 where "PROT_READ = 1"
definition PROT_WRITE :: u32 where "PROT_WRITE = 2"

record vma =
  v_va :: nat
  v_len :: nat
  v_prot :: u32
  v_kind :: vma_kind
  v_ramfs_index :: u32
  v_file_offset :: nat

record wm_va_range =
  r_va :: nat
  r_pages :: nat

text \<open>\<open>l1_va\<close> and \<open>l2_va\<close> are the same pages through the identity mapping.\<close>

record address_space =
  l1_pa :: nat
  l2_pa :: nat
  user_pages_alloced :: nat
  heap_brk :: nat
  vmas :: "(nat \<times> vma) list"
  mmap_brk :: nat
  wm_freelist :: "(nat \<times> wm_va_range) list"
  as_refcount :: u32

record vm =
  vm_kern :: kern
  vm_cache :: page_cache
  vm_rc :: refcounts
  l1_pgtable :: "u64 list"
  spaces :: "nat \<Rightarrow> address_space option"

definition asp :: "vm \<Rightarrow> nat \<Rightarrow> address_space" where
  "asp v a = the (spaces v a)"

definition upd_as :: "vm \<Rightarrow> nat \<Rightarrow> (address_space \<Rightarrow> address_space) \<Rightarrow> vm" where
  "upd_as v a f = v\<lparr>spaces := (spaces v)(a := Some (f (asp v a)))\<rparr>"

abbreviation vm_pmem :: "vm \<Rightarrow> pmem" where "vm_pmem v \<equiv> pc_pmem (vm_cache v)"

definition set_pmem :: "vm \<Rightarrow> pmem \<Rightarrow> vm" where
  "set_pmem v m = v\<lparr>vm_cache := (vm_cache v)\<lparr>pc_pmem := m\<rparr>\<rparr>"

text \<open>The word of memory at an 8-byte aligned physical address.\<close>

definition rd64 :: "vm \<Rightarrow> nat \<Rightarrow> u64" where
  "rd64 v p = word_of_nat (mem (vm_pmem v) p)"

definition wr64 :: "vm \<Rightarrow> nat \<Rightarrow> u64 \<Rightarrow> vm" where
  "wr64 v p w = set_pmem v ((vm_pmem v)\<lparr>mem := (mem (vm_pmem v))(p := unat w)\<rparr>)"

definition vm_alloc_page :: "vm \<Rightarrow> vm \<times> nat" where
  "vm_alloc_page v = (let (m, pa) = pmem_alloc_page (vm_pmem v) in (set_pmem v m, pa))"

definition vm_free_page :: "vm \<Rightarrow> nat \<Rightarrow> vm" where
  "vm_free_page v pa = set_pmem v (pmem_free_page (vm_pmem v) pa)"

definition vm_dec_and_free :: "vm \<Rightarrow> nat \<Rightarrow> vm" where
  "vm_dec_and_free v pa =
     (let (m, r) = pmem_dec_and_free (vm_pmem v) (vm_rc v) pa in (set_pmem v m)\<lparr>vm_rc := r\<rparr>)"

definition vm_cache_release :: "vm \<Rightarrow> nat \<Rightarrow> vm" where
  "vm_cache_release v pa = v\<lparr>vm_cache := page_cache_release (vm_cache v) pa\<rparr>"

definition vm_kmalloc :: "vm \<Rightarrow> nat \<Rightarrow> (vm \<times> nat) option" where
  "vm_kmalloc v n =
     map_option (\<lambda>(h, p). (v\<lparr>vm_kern := set_kmem (vm_kern v) ((kmem (vm_kern v))\<lparr>kheap := h\<rparr>)\<rparr>, p))
       (kmalloc (kheap (kmem (vm_kern v))) n)"

definition vm_kfree :: "vm \<Rightarrow> nat \<Rightarrow> vm option" where
  "vm_kfree v p =
     map_option (\<lambda>h. v\<lparr>vm_kern := set_kmem (vm_kern v) ((kmem (vm_kern v))\<lparr>kheap := h\<rparr>)\<rparr>)
       (kfree (kheap (kmem (vm_kern v))) p)"

text \<open>The copy of a page, word by word; the code copies the 4096 bytes.\<close>

definition copy_page :: "vm \<Rightarrow> nat \<Rightarrow> nat \<Rightarrow> vm" where
  "copy_page v d s = fold (\<lambda>i v. wr64 v (d + 8 * i) (rd64 v (s + 8 * i))) [0..<PAGE_SIZE div 8] v"

section \<open>Life cycle\<close>

definition address_space_create :: "vm \<Rightarrow> (vm \<times> nat) option" where
  "address_space_create v =
     do { (v1, a) \<leftarrow> vm_kmalloc v 80;
          if a = 0 then Some (v1, 0)
          else
            let (v2, l1) = vm_alloc_page v1 in
            if l1 = 0 then map_option (\<lambda>v. (v, 0)) (vm_kfree v2 a)
            else
              let (v3, l2) = vm_alloc_page v2 in
              if l2 = 0 then map_option (\<lambda>v. (v, 0)) (vm_kfree v3 a)
              else
                let v4 = v3\<lparr>spaces := (spaces v3)(a := Some
                      \<lparr>l1_pa = l1, l2_pa = l2, user_pages_alloced = 0, heap_brk = USER_HEAP_BASE,
                       vmas = [], mmap_brk = USER_MMAP_BASE, wm_freelist = [], as_refcount = 1\<rparr>)\<rparr>;
                    v5 = fold (\<lambda>i v. if i = USER_L1_SLOT then v
                                     else wr64 v (l1 + 8 * i) (l1_pgtable v ! i)) [0..<PTES_PER_TABLE] v4
                in Some (wr64 v5 (l1 + 8 * USER_L1_SLOT) (page_bits l2 OR DESC_VALID OR DESC_TABLE), a) }"

text \<open>What teardown does with one valid page descriptor.\<close>

definition drop_page :: "vm \<Rightarrow> u64 \<Rightarrow> vm" where
  "drop_page v e =
     (if has e DESC_SW_WM_WINDOW then v
      else if has e DESC_SW_PAGECACHE then vm_cache_release v (desc_pa e)
      else vm_dec_and_free v (desc_pa e))"

text \<open>The two loops; \<open>n\<close> entries are left, \<open>j\<close> or \<open>i\<close> is next.\<close>

fun teardown_l3 :: "vm \<Rightarrow> nat \<Rightarrow> nat \<Rightarrow> nat \<Rightarrow> vm" where
  "teardown_l3 v l3 j 0 = v"
| "teardown_l3 v l3 j (Suc n) =
     (let e = rd64 v (l3 + 8 * j) in
      if \<not> has e DESC_VALID then teardown_l3 v l3 (j + 1) n
      else teardown_l3 (drop_page v e) l3 (j + 1) n)"

fun teardown_l2 :: "vm \<Rightarrow> nat \<Rightarrow> nat \<Rightarrow> nat \<Rightarrow> vm" where
  "teardown_l2 v l2 i 0 = v"
| "teardown_l2 v l2 i (Suc n) =
     (let e = rd64 v (l2 + 8 * i) in
      if \<not> has e DESC_VALID then teardown_l2 v l2 (i + 1) n
      else if \<not> has e DESC_TABLE then teardown_l2 v l2 (i + 1) n
      else
        let l3 = desc_pa e;
            v1 = teardown_l3 v l3 0 PTES_PER_TABLE
        in teardown_l2 (vm_free_page v1 l3) l2 (i + 1) n)"

definition teardown_user_range :: "vm \<Rightarrow> nat \<Rightarrow> vm" where
  "teardown_user_range v a = teardown_l2 v (l2_pa (asp v a)) 0 PTES_PER_TABLE"

fun free_nodes :: "vm \<Rightarrow> nat list \<Rightarrow> vm option" where
  "free_nodes v [] = Some v"
| "free_nodes v (p # ps) = do { v1 \<leftarrow> vm_kfree v p; free_nodes v1 ps }"

definition teardown_vmas :: "vm \<Rightarrow> nat \<Rightarrow> vm option" where
  "teardown_vmas v a =
     map_option (\<lambda>v. upd_as v a (\<lambda>s. s\<lparr>vmas := []\<rparr>)) (free_nodes v (map fst (vmas (asp v a))))"

definition teardown_wm_freelist :: "vm \<Rightarrow> nat \<Rightarrow> vm option" where
  "teardown_wm_freelist v a =
     map_option (\<lambda>v. upd_as v a (\<lambda>s. s\<lparr>wm_freelist := []\<rparr>)) (free_nodes v (map fst (wm_freelist (asp v a))))"

definition address_space_destroy :: "vm \<Rightarrow> nat \<Rightarrow> vm option" where
  "address_space_destroy v a =
     (if a = 0 then Some v
      else
        let n = as_refcount (asp v a) - 1;
            v1 = upd_as v a (\<lambda>s. s\<lparr>as_refcount := n\<rparr>)
        in if n > 0 then Some v1
           else do {
             v3 \<leftarrow> teardown_vmas (teardown_user_range v1 a) a;
             v4 \<leftarrow> teardown_wm_freelist v3 a;
             let v5 = vm_free_page v4 (l2_pa (asp v4 a));
             let v6 = vm_free_page v5 (l1_pa (asp v5 a));
             v7 \<leftarrow> vm_kfree v6 a;
             Some (v7\<lparr>spaces := (spaces v7)(a := None)\<rparr>) })"

definition address_space_share :: "vm \<Rightarrow> nat \<Rightarrow> vm" where
  "address_space_share v a =
     (if a = 0 then v else upd_as v a (\<lambda>s. s\<lparr>as_refcount := as_refcount s + 1\<rparr>))"

section \<open>Mapping and looking up\<close>

text \<open>The table for \<open>va\<close>, made if there is none; 0 when memory is out.\<close>

definition l3_for :: "vm \<Rightarrow> nat \<Rightarrow> nat \<Rightarrow> vm \<times> nat" where
  "l3_for v a va =
     (let p = l2_pa (asp v a) + 8 * L2_INDEX va; e = rd64 v p in
      if has e DESC_VALID then (v, desc_pa e)
      else let (v1, l3) = vm_alloc_page v in
           if l3 = 0 then (v1, 0)
           else (wr64 v1 p (page_bits l3 OR DESC_VALID OR DESC_TABLE), l3))"

definition count_page :: "vm \<Rightarrow> nat \<Rightarrow> vm" where
  "count_page v a = upd_as v a (\<lambda>s. s\<lparr>user_pages_alloced := add64 (user_pages_alloced s) 1\<rparr>)"

definition uncount_page :: "vm \<Rightarrow> nat \<Rightarrow> vm" where
  "uncount_page v a =
     (if user_pages_alloced (asp v a) \<noteq> 0
      then upd_as v a (\<lambda>s. s\<lparr>user_pages_alloced := user_pages_alloced s - 1\<rparr>) else v)"

definition mul64 :: "nat \<Rightarrow> nat \<Rightarrow> nat" where
  "mul64 a b = a * b mod 2 ^ 64"

fun map_loop :: "vm \<Rightarrow> nat \<Rightarrow> nat \<Rightarrow> nat \<Rightarrow> u64 \<Rightarrow> nat \<Rightarrow> nat \<Rightarrow> vm \<times> int" where
  "map_loop v a va pa base i 0 = (v, 0)"
| "map_loop v a va pa base i (Suc n) =
     (let this_va = add64 va (mul64 i PAGE_SIZE);
          this_pa = add64 pa (mul64 i PAGE_SIZE);
          (v1, l3) = l3_for v a this_va
      in if l3 = 0 then (v1, -1)
         else map_loop (count_page (wr64 v1 (l3 + 8 * L3_INDEX this_va) (page_bits this_pa OR base)) a)
                a va pa base (i + 1) n)"

definition address_space_map ::
  "vm \<Rightarrow> nat \<Rightarrow> nat \<Rightarrow> nat \<Rightarrow> nat \<Rightarrow> bool \<Rightarrow> bool \<Rightarrow> vm \<times> int" where
  "address_space_map v a va pa pages writable executable =
     (if a = 0 \<or> pages = 0 then (v, -1)
      else if va mod PAGE_SIZE \<noteq> 0 then (v, -1)
      else if pa mod PAGE_SIZE \<noteq> 0 then (v, -1)
      else if va < USER_VA_BASE \<or> add64 va (mul64 pages PAGE_SIZE) > USER_VA_END then (v, -1)
      else map_loop v a va pa (page_attrs writable executable) 0 pages)"

definition address_space_install_guard :: "vm \<Rightarrow> nat \<Rightarrow> nat \<Rightarrow> vm \<times> int" where
  "address_space_install_guard v a va =
     (if a = 0 then (v, -1)
      else if va mod PAGE_SIZE \<noteq> 0 then (v, -1)
      else let (v1, l3) = l3_for v a va in
           if l3 = 0 then (v1, -1)
           else (wr64 v1 (l3 + 8 * L3_INDEX va) DESC_SW_GUARD, 0))"

text \<open>The address of the descriptor of \<open>va\<close>; \<open>None\<close> when no table covers it.\<close>

definition l3_entry_lookup :: "vm \<Rightarrow> nat \<Rightarrow> nat \<Rightarrow> nat option" where
  "l3_entry_lookup v a va =
     (let e = rd64 v (l2_pa (asp v a) + 8 * L2_INDEX va) in
      if \<not> has e DESC_VALID then None
      else if \<not> has e DESC_TABLE then None
      else Some (desc_pa e + 8 * L3_INDEX va))"

definition address_space_lookup_pte :: "vm \<Rightarrow> nat \<Rightarrow> nat \<Rightarrow> u64" where
  "address_space_lookup_pte v a va =
     (if a = 0 then 0
      else let e = rd64 v (l2_pa (asp v a) + 8 * L2_INDEX va) in
           if \<not> has e DESC_VALID then 0
           else if \<not> has e DESC_TABLE then 0
           else rd64 v (desc_pa e + 8 * L3_INDEX va))"

section \<open>The heap of a process\<close>

text \<open>The loops over the addresses from \<open>va\<close> up to \<open>stop\<close>, which lie below \<open>USER_HEAP_MAX\<close>.\<close>

function brk_grow :: "vm \<Rightarrow> nat \<Rightarrow> nat \<Rightarrow> nat \<Rightarrow> vm \<times> int" where
  "brk_grow v a va stop =
     (if va < stop then
        let (v1, pa) = vm_alloc_page v in
        if pa = 0 then (v1, -1)
        else let (v2, r) = address_space_map v1 a va pa 1 True False in
             if r \<noteq> 0 then (vm_free_page v2 pa, -1)
             else brk_grow v2 a (va + PAGE_SIZE) stop
      else (v, 0))"
  by pat_completeness auto
termination by (relation "measure (\<lambda>(v, a, va, stop). stop - va)") auto

declare brk_grow.simps [simp del]

function brk_shrink :: "vm \<Rightarrow> nat \<Rightarrow> nat \<Rightarrow> nat \<Rightarrow> vm" where
  "brk_shrink v a va stop =
     (if va < stop then
        let v1 = (case l3_entry_lookup v a va of
                    None \<Rightarrow> v
                  | Some p \<Rightarrow>
                      let e = rd64 v p in
                      if \<not> has e DESC_VALID then v
                      else uncount_page (vm_dec_and_free (wr64 v p 0) (desc_pa e)) a)
        in brk_shrink v1 a (va + PAGE_SIZE) stop
      else v)"
  by pat_completeness auto
termination by (relation "measure (\<lambda>(v, a, va, stop). stop - va)") auto

declare brk_shrink.simps [simp del]

definition address_space_set_brk :: "vm \<Rightarrow> nat \<Rightarrow> nat \<Rightarrow> vm \<times> int" where
  "address_space_set_brk v a new_brk =
     (if a = 0 then (v, -1)
      else
        let b0 = align_up64 PAGE_SIZE new_brk;
            b = (if b0 < USER_HEAP_BASE then USER_HEAP_BASE else b0);
            old = heap_brk (asp v a);
            set_to = (\<lambda>v. upd_as v a (\<lambda>s. s\<lparr>heap_brk := b\<rparr>))
        in if b > USER_HEAP_MAX then (v, -1)
           else if b > old then
             let (v1, r) = brk_grow v a old b in
             if r \<noteq> 0 then (v1, -1) else (set_to v1, 0)
           else if b < old then (set_to (brk_shrink v a b old), 0)
           else (set_to v, 0))"

section \<open>Cloning\<close>

text \<open>The user address of entry \<open>j\<close> of table \<open>i\<close>.\<close>

definition slot_va :: "nat \<Rightarrow> nat \<Rightarrow> nat" where
  "slot_va i j = USER_VA_BASE + i * 2 ^ 21 + j * 2 ^ 12"

text \<open>
  The body of the inner loops.  \<open>False\<close> is the failure after which the code destroys the child and
  returns \<open>NULL\<close>.
\<close>

definition clone_entry :: "vm \<Rightarrow> nat \<Rightarrow> nat \<Rightarrow> nat \<Rightarrow> u64 \<Rightarrow> vm \<times> bool" where
  "clone_entry v dst i j e =
     (if \<not> has e DESC_VALID then
        if has e DESC_SW_GUARD then
          let (v1, r) = address_space_install_guard v dst (slot_va i j) in (v1, r = 0)
        else (v, True)
      else if has e DESC_SW_PAGECACHE then (v, True)
      else if has e DESC_SW_WM_WINDOW then (v, True)
      else
        let va = slot_va i j;
            src_pa = desc_pa e;
            writable = (ap_field e = DESC_AP_RW_EL0);
            executable = (\<not> has e DESC_UXN);
            (v1, dst_pa) = vm_alloc_page v
        in if dst_pa = 0 then (v1, False)
           else let (v2, r) = address_space_map (copy_page v1 dst_pa src_pa) dst va dst_pa 1 writable executable
                in if r \<noteq> 0 then (vm_free_page v2 dst_pa, False) else (v2, True))"

definition cow_desc :: "u64 \<Rightarrow> u64" where
  "cow_desc e =
     (let pa = desc_pa e;
          rw_now = (ap_field e = DESC_AP_RW_EL0);
          already_cow = has e DESC_SW_COW;
          writable = (rw_now \<or> already_cow);
          executable = (\<not> has e DESC_UXN);
          d = ATTR_NORMAL OR DESC_AF OR DESC_SH_INNER OR DESC_AP_RO_EL0 OR DESC_PXN OR
              (if executable then 0 else DESC_UXN) OR DESC_VALID OR DESC_PAGE OR page_bits pa
      in if writable then d OR DESC_SW_COW else d)"

definition clone_cow_entry :: "vm \<Rightarrow> nat \<Rightarrow> nat \<Rightarrow> nat \<Rightarrow> nat \<Rightarrow> u64 \<Rightarrow> vm \<times> bool" where
  "clone_cow_entry v src_l3 dst i j e =
     (if \<not> has e DESC_VALID then
        if has e DESC_SW_GUARD then
          let (v1, r) = address_space_install_guard v dst (slot_va i j) in (v1, r = 0)
        else (v, True)
      else if has e DESC_SW_PAGECACHE then (v, True)
      else if has e DESC_SW_WM_WINDOW then (v, True)
      else
        let va = slot_va i j;
            d = cow_desc e;
            (v1, dst_l3) = l3_for v dst va
        in if dst_l3 = 0 then (v1, False)
           else
             let v2 = count_page (wr64 v1 (dst_l3 + 8 * L3_INDEX va) d) dst;
                 v3 = wr64 v2 (src_l3 + 8 * j) d
             in (v3\<lparr>vm_rc := pmem_refcount_share (vm_rc v3) (desc_pa e)\<rparr>, True))"

text \<open>The two loops, over the body \<open>f\<close>.\<close>

fun clone_l3 :: "(vm \<Rightarrow> nat \<Rightarrow> nat \<Rightarrow> nat \<Rightarrow> u64 \<Rightarrow> vm \<times> bool) \<Rightarrow> vm \<Rightarrow> nat \<Rightarrow> nat \<Rightarrow> nat \<Rightarrow> nat \<Rightarrow> vm \<times> bool" where
  "clone_l3 f v src_l3 i j 0 = (v, True)"
| "clone_l3 f v src_l3 i j (Suc n) =
     (let (v1, ok) = f v src_l3 i j (rd64 v (src_l3 + 8 * j)) in
      if \<not> ok then (v1, False) else clone_l3 f v1 src_l3 i (j + 1) n)"

fun clone_l2 :: "(vm \<Rightarrow> nat \<Rightarrow> nat \<Rightarrow> nat \<Rightarrow> u64 \<Rightarrow> vm \<times> bool) \<Rightarrow> vm \<Rightarrow> nat \<Rightarrow> nat \<Rightarrow> nat \<Rightarrow> vm \<times> bool" where
  "clone_l2 f v src_l2 i 0 = (v, True)"
| "clone_l2 f v src_l2 i (Suc n) =
     (let e = rd64 v (src_l2 + 8 * i) in
      if \<not> has e DESC_VALID then clone_l2 f v src_l2 (i + 1) n
      else if \<not> has e DESC_TABLE then clone_l2 f v src_l2 (i + 1) n
      else
        let (v1, ok) = clone_l3 f v (desc_pa e) i 0 PTES_PER_TABLE in
        if \<not> ok then (v1, False) else clone_l2 f v1 src_l2 (i + 1) n)"

definition clone_with ::
  "(nat \<Rightarrow> vm \<Rightarrow> nat \<Rightarrow> nat \<Rightarrow> nat \<Rightarrow> u64 \<Rightarrow> vm \<times> bool) \<Rightarrow> vm \<Rightarrow> nat \<Rightarrow> (vm \<times> nat) option" where
  "clone_with f v src =
     (if src = 0 then Some (v, 0)
      else do {
        (v1, dst) \<leftarrow> address_space_create v;
        if dst = 0 then Some (v1, 0)
        else
          let (v2, ok) = clone_l2 (f dst) v1 (l2_pa (asp v1 src)) 0 PTES_PER_TABLE in
          if \<not> ok then map_option (\<lambda>v. (v, 0)) (address_space_destroy v2 dst)
          else Some (upd_as v2 dst (\<lambda>s. s\<lparr>heap_brk := heap_brk (asp v2 src)\<rparr>), dst) })"

definition address_space_clone :: "vm \<Rightarrow> nat \<Rightarrow> (vm \<times> nat) option" where
  "address_space_clone = clone_with (\<lambda>dst v _. clone_entry v dst)"

definition address_space_clone_cow :: "vm \<Rightarrow> nat \<Rightarrow> (vm \<times> nat) option" where
  "address_space_clone_cow = clone_with (\<lambda>dst v src_l3. clone_cow_entry v src_l3 dst)"

section \<open>Copy on write\<close>

definition address_space_handle_cow_fault :: "vm \<Rightarrow> nat \<Rightarrow> nat \<Rightarrow> vm \<times> int" where
  "address_space_handle_cow_fault v a fault =
     (if a = 0 then (v, -1)
      else
        let fault_va = align_down PAGE_SIZE fault in
        if fault_va < USER_VA_BASE \<or> fault_va \<ge> USER_VA_END then (v, -1)
        else
          case l3_entry_lookup v a fault_va of
            None \<Rightarrow> (v, -1)
          | Some p \<Rightarrow>
              let e = rd64 v p in
              if \<not> has e DESC_VALID then (v, -1)
              else if \<not> has e DESC_SW_COW then (v, -1)
              else if ap_field e \<noteq> DESC_AP_RO_EL0 then (v, -1)
              else
                let old_pa = desc_pa e;
                    executable = (\<not> has e DESC_UXN);
                    base_attrs = ATTR_NORMAL OR DESC_AF OR DESC_SH_INNER OR DESC_PXN OR
                      (if executable then 0 else DESC_UXN) OR DESC_VALID OR DESC_PAGE;
                    rc = pmem_refcount_get (vm_rc v) old_pa
                in if rc \<le> 1 then
                     let v1 = (if rc = 1 then v\<lparr>vm_rc := fst (pmem_refcount_dec (vm_rc v) old_pa)\<rparr> else v)
                     in (wr64 v1 p (base_attrs OR DESC_AP_RW_EL0 OR page_bits old_pa), 0)
                   else
                     let (v1, new_pa) = vm_alloc_page v in
                     if new_pa = 0 then (v1, -1)
                     else
                       let v2 = wr64 (copy_page v1 new_pa old_pa) p
                             (base_attrs OR DESC_AP_RW_EL0 OR page_bits new_pa)
                       in (v2\<lparr>vm_rc := fst (pmem_refcount_dec (vm_rc v2) old_pa)\<rparr>, 0))"

definition address_space_make_writable :: "vm \<Rightarrow> nat \<Rightarrow> nat \<Rightarrow> vm \<times> int" where
  "address_space_make_writable v a uva =
     (if a = 0 then (v, -1)
      else
        let va = align_down PAGE_SIZE uva in
        if va < USER_VA_BASE \<or> va \<ge> USER_VA_END then (v, -1)
        else
          case l3_entry_lookup v a va of
            None \<Rightarrow> (v, -1)
          | Some p \<Rightarrow>
              let e = rd64 v p in
              if \<not> has e DESC_VALID then (v, -1)
              else if ap_field e = DESC_AP_RW_EL0 then (v, 0)
              else if \<not> has e DESC_SW_COW then (v, -1)
              else address_space_handle_cow_fault v a va)"

section \<open>Mappings made on demand\<close>

fun vma_insert_sorted :: "(nat \<times> vma) list \<Rightarrow> nat \<times> vma \<Rightarrow> (nat \<times> vma) list" where
  "vma_insert_sorted [] x = [x]"
| "vma_insert_sorted (y # ys) x =
     (if v_va (snd y) < v_va (snd x) then y # vma_insert_sorted ys x else x # y # ys)"

fun vma_find :: "(nat \<times> vma) list \<Rightarrow> nat \<Rightarrow> (nat \<times> vma) option" where
  "vma_find [] va = None"
| "vma_find (y # ys) va =
     (if va \<ge> v_va (snd y) \<and> va < add64 (v_va (snd y)) (v_len (snd y)) then Some y
      else if v_va (snd y) > va then None
      else vma_find ys va)"

definition mmap_brk_alloc :: "vm \<Rightarrow> nat \<Rightarrow> nat \<Rightarrow> vm \<times> nat" where
  "mmap_brk_alloc v a pages =
     (let bytes = mul64 pages PAGE_SIZE; b = mmap_brk (asp v a) in
      if add64 b bytes < b then (v, 0)
      else if add64 b bytes > USER_MMAP_MAX then (v, 0)
      else (upd_as v a (\<lambda>s. s\<lparr>mmap_brk := add64 b bytes\<rparr>), b))"

definition mmap_brk_undo :: "vm \<Rightarrow> nat \<Rightarrow> nat \<Rightarrow> vm" where
  "mmap_brk_undo v a pages =
     upd_as v a (\<lambda>s. s\<lparr>mmap_brk := sub64 (mmap_brk s) (mul64 pages PAGE_SIZE)\<rparr>)"

text \<open>The common end of the two calls: the node, or the bump pointer back where it was.\<close>

definition mmap_record :: "vm \<Rightarrow> nat \<Rightarrow> nat \<Rightarrow> vma \<Rightarrow> (vm \<times> nat) option" where
  "mmap_record v a pages x =
     do { (v1, p) \<leftarrow> vm_kmalloc v 48;
          if p = 0 then Some (mmap_brk_undo v1 a pages, 0)
          else Some (upd_as v1 a (\<lambda>s. s\<lparr>vmas := vma_insert_sorted (vmas s) (p, x)\<rparr>), v_va x) }"

definition address_space_mmap_anon :: "vm \<Rightarrow> nat \<Rightarrow> nat \<Rightarrow> u32 \<Rightarrow> (vm \<times> nat) option" where
  "address_space_mmap_anon v a pages prot =
     (if a = 0 \<or> pages = 0 then Some (v, 0)
      else if prot AND (PROT_READ OR PROT_WRITE) = 0 then Some (v, 0)
      else
        let (v1, va) = mmap_brk_alloc v a pages in
        if va = 0 then Some (v1, 0)
        else mmap_record v1 a pages
               \<lparr>v_va = va, v_len = mul64 pages PAGE_SIZE, v_prot = prot, v_kind = VMA_ANON,
                v_ramfs_index = 0, v_file_offset = 0\<rparr>)"

definition address_space_mmap_ramfs :: "vm \<Rightarrow> nat \<Rightarrow> nat \<Rightarrow> u32 \<Rightarrow> nat \<Rightarrow> (vm \<times> nat) option" where
  "address_space_mmap_ramfs v a pages ramfs_index file_offset =
     (if a = 0 \<or> pages = 0 then Some (v, 0)
      else if file_offset mod PAGE_SIZE \<noteq> 0 then Some (v, 0)
      else if vfs_ramfs_blob (vm_kern v) (sint ramfs_index) = None then Some (v, 0)
      else
        let (v1, va) = mmap_brk_alloc v a pages in
        if va = 0 then Some (v1, 0)
        else mmap_record v1 a pages
               \<lparr>v_va = va, v_len = mul64 pages PAGE_SIZE, v_prot = PROT_READ, v_kind = VMA_FILE_RAMFS,
                v_ramfs_index = ramfs_index, v_file_offset = file_offset\<rparr>)"

text \<open>The loop over the pages of a mapping; \<open>p\<close> is the offset of the next one.\<close>

function unmap_pages :: "vm \<Rightarrow> nat \<Rightarrow> nat \<Rightarrow> nat \<Rightarrow> nat \<Rightarrow> vm" where
  "unmap_pages v a va p len =
     (if p < len then
        let v1 = (case l3_entry_lookup v a (add64 va p) of
                    None \<Rightarrow> v
                  | Some q \<Rightarrow>
                      let e = rd64 v q in
                      if \<not> has e DESC_VALID then v
                      else
                        let v1 = wr64 v q 0;
                            v2 = (if has e DESC_SW_PAGECACHE then vm_cache_release v1 (desc_pa e)
                                  else vm_dec_and_free v1 (desc_pa e))
                        in uncount_page v2 a)
        in unmap_pages v1 a va (p + PAGE_SIZE) len
      else v)"
  by pat_completeness auto
termination by (relation "measure (\<lambda>(v, a, va, p, len). len - p)") auto

declare unmap_pages.simps [simp del]

definition address_space_munmap :: "vm \<Rightarrow> nat \<Rightarrow> nat \<Rightarrow> (vm \<times> int) option" where
  "address_space_munmap v a va =
     (if a = 0 then Some (v, -1)
      else
        case first_index (\<lambda>y. v_va (snd y) = va) (vmas (asp v a)) of
          None \<Rightarrow> Some (v, -1)
        | Some i \<Rightarrow>
            let (q, x) = vmas (asp v a) ! i;
                v1 = upd_as v a (\<lambda>s. s\<lparr>vmas := take i (vmas s) @ drop (i + 1) (vmas s)\<rparr>);
                v2 = unmap_pages v1 a (v_va x) 0 (v_len x)
            in map_option (\<lambda>v. (v, 0)) (vm_kfree v2 q))"

text \<open>One byte of memory, in the word that holds it.\<close>

definition put_byte :: "u64 \<Rightarrow> nat \<Rightarrow> byte \<Rightarrow> u64" where
  "put_byte w k b = (w AND NOT (push_bit (8 * k) (mask 8))) OR push_bit (8 * k) (ucast b)"

definition get_byte :: "u64 \<Rightarrow> nat \<Rightarrow> byte" where
  "get_byte w k = ucast (drop_bit (8 * k) w)"

definition poke8 :: "(nat \<Rightarrow> nat) \<Rightarrow> nat \<Rightarrow> byte \<Rightarrow> nat \<Rightarrow> nat" where
  "poke8 m p b = m(8 * (p div 8) := unat (put_byte (word_of_nat (m (8 * (p div 8)))) (p mod 8) b))"

definition peek8 :: "(nat \<Rightarrow> nat) \<Rightarrow> nat \<Rightarrow> byte" where
  "peek8 m p = get_byte (word_of_nat (m (8 * (p div 8)))) (p mod 8)"

text \<open>The loader of the page cache for a file of the ramfs.\<close>

definition ramfs_loader :: "kern \<Rightarrow> u32 \<Rightarrow> loader" where
  "ramfs_loader k idx dst off m =
     (case vfs_ramfs_blob k (sint idx) of
        None \<Rightarrow> (m, -1)
      | Some blob \<Rightarrow>
          let n = length blob;
              to_copy = (if off < n then (if n - off < PAGE_SIZE then n - off else PAGE_SIZE) else 0)
          in (fold (\<lambda>i m. poke8 m (dst + i) (blob ! (off + i))) [0..<to_copy] m, 0))"

definition address_space_handle_mmap_fault :: "vm \<Rightarrow> nat \<Rightarrow> nat \<Rightarrow> bool \<Rightarrow> vm \<times> int" where
  "address_space_handle_mmap_fault v a fault_va is_write =
     (if a = 0 then (v, -1)
      else
        let va = align_down PAGE_SIZE fault_va in
        if va < USER_VA_BASE \<or> va \<ge> USER_VA_END then (v, -1)
        else
          case vma_find (vmas (asp v a)) va of
            None \<Rightarrow> (v, -1)
          | Some (_, x) \<Rightarrow>
              if is_write \<and> v_prot x AND PROT_WRITE = 0 then (v, -1)
              else if (case l3_entry_lookup v a va of None \<Rightarrow> False | Some p \<Rightarrow> has (rd64 v p) DESC_VALID)
              then (v, -1)
              else
                let writable = (v_prot x AND PROT_WRITE \<noteq> 0) in
                case v_kind x of
                  VMA_ANON \<Rightarrow>
                    let (v1, pa) = vm_alloc_page v in
                    if pa = 0 then (v1, -1)
                    else
                      let (v2, l3) = l3_for v1 a va in
                      if l3 = 0 then (vm_free_page v2 pa, -1)
                      else (count_page (wr64 v2 (l3 + 8 * L3_INDEX va) (build_user_desc pa writable False)) a, 0)
                | VMA_FILE_RAMFS \<Rightarrow>
                    let file_off = add64 (v_file_offset x) (sub64 va (v_va x));
                        cache_id = unat (push_bit 24 1 OR (v_ramfs_index x AND mask 24));
                        (c, pa) = page_cache_get_or_load (vm_cache v) cache_id file_off
                          (Some (ramfs_loader (vm_kern v) (v_ramfs_index x)));
                        v1 = v\<lparr>vm_cache := c\<rparr>
                    in if pa = 0 then (v1, -1)
                       else
                         let (v2, l3) = l3_for v1 a va in
                         if l3 = 0 then (vm_cache_release v2 pa, -1)
                         else (count_page (wr64 v2 (l3 + 8 * L3_INDEX va) (build_user_desc pa False True)) a, 0))"

section \<open>Windows\<close>

text \<open>The best fit: the index and the size of the best range so far.\<close>

fun wm_best :: "nat \<Rightarrow> nat \<Rightarrow> (nat \<times> nat) option \<Rightarrow> (nat \<times> wm_va_range) list \<Rightarrow> (nat \<times> nat) option" where
  "wm_best n i best [] = best"
| "wm_best n i best (r # rs) =
     (let k = r_pages (snd r) in
      wm_best n (i + 1)
        (if k \<ge> n then (case best of None \<Rightarrow> Some (i, k)
                         | Some (_, m) \<Rightarrow> if k < m then Some (i, k) else best)
         else best) rs)"

definition wm_freelist_take :: "vm \<Rightarrow> nat \<Rightarrow> nat \<Rightarrow> (vm \<times> nat) option" where
  "wm_freelist_take v a n =
     (let rs = wm_freelist (asp v a) in
      case wm_best n 0 None rs of
        None \<Rightarrow> Some (v, 0)
      | Some (i, _) \<Rightarrow>
          let (p, r) = rs ! i; va = r_va r in
          if r_pages r = n then
            map_option (\<lambda>v. (v, va))
              (vm_kfree (upd_as v a (\<lambda>s. s\<lparr>wm_freelist := take i rs @ drop (i + 1) rs\<rparr>)) p)
          else Some (upd_as v a (\<lambda>s. s\<lparr>wm_freelist := rs[i := (p,
                 r\<lparr>r_va := add64 va (mul64 n PAGE_SIZE), r_pages := r_pages r - n\<rparr>)]\<rparr>), va))"

definition range_end :: "wm_va_range \<Rightarrow> nat" where
  "range_end r = add64 (r_va r) (mul64 (r_pages r) PAGE_SIZE)"

definition wm_freelist_release :: "vm \<Rightarrow> nat \<Rightarrow> nat \<Rightarrow> nat \<Rightarrow> (vm \<times> int) option" where
  "wm_freelist_release v a va n =
     (if n = 0 then Some (v, 0)
      else
        let rs = wm_freelist (asp v a);
            lo = takeWhile (\<lambda>x. r_va (snd x) < va) rs;
            hi = dropWhile (\<lambda>x. r_va (snd x) < va) rs;
            merge_prev = (lo \<noteq> [] \<and> range_end (snd (last lo)) = va);
            merge_next = (hi \<noteq> [] \<and> add64 va (mul64 n PAGE_SIZE) = r_va (snd (hd hi)));
            set_list = (\<lambda>v rs. upd_as v a (\<lambda>s. s\<lparr>wm_freelist := rs\<rparr>));
            grow_prev = (\<lambda>k. butlast lo @ [(fst (last lo), (snd (last lo))
                               \<lparr>r_pages := add64 (r_pages (snd (last lo))) k\<rparr>)])
        in if merge_prev \<and> merge_next then
             map_option (\<lambda>v. (v, 0))
               (vm_kfree (set_list v (grow_prev (add64 n (r_pages (snd (hd hi)))) @ tl hi)) (fst (hd hi)))
           else if merge_prev then Some (set_list v (grow_prev n @ hi), 0)
           else if merge_next then
             Some (set_list v (lo @ (fst (hd hi), (snd (hd hi))\<lparr>r_va := va,
                     r_pages := add64 (r_pages (snd (hd hi))) n\<rparr>) # tl hi), 0)
           else do {
             (v1, p) \<leftarrow> vm_kmalloc v 24;
             if p = 0 then Some (v1, -1)
             else Some (set_list v1 (lo @ (p, \<lparr>r_va = va, r_pages = n\<rparr>) # hi), 0) })"

text \<open>The loop of the install: \<open>Some i\<close> is the jump to \<open>rollback\<close> at page \<open>i\<close>.\<close>

fun install_loop :: "vm \<Rightarrow> nat \<Rightarrow> nat \<Rightarrow> nat \<Rightarrow> nat list \<Rightarrow> vm \<times> nat option" where
  "install_loop v a va_base i [] = (v, None)"
| "install_loop v a va_base i (pa # pas) =
     (let va = add64 va_base (mul64 i PAGE_SIZE) in
      if pa mod PAGE_SIZE \<noteq> 0 then (v, Some i)
      else
        let (v1, l3) = l3_for v a va in
        if l3 = 0 then (v1, Some i)
        else
          let d = ATTR_NORMAL OR DESC_AF OR DESC_SH_INNER OR DESC_AP_RW_EL0 OR DESC_PXN OR DESC_UXN OR
                  DESC_VALID OR DESC_PAGE OR page_bits pa OR DESC_SW_WM_WINDOW
          in install_loop (count_page (wr64 v1 (l3 + 8 * L3_INDEX va) d) a) a va_base (i + 1) pas)"

definition clear_entry :: "vm \<Rightarrow> nat \<Rightarrow> nat \<Rightarrow> vm" where
  "clear_entry v a va = (case l3_entry_lookup v a va of None \<Rightarrow> v | Some p \<Rightarrow> wr64 v p 0)"

definition undo_install :: "vm \<Rightarrow> nat \<Rightarrow> nat \<Rightarrow> nat \<Rightarrow> vm" where
  "undo_install v a va_base n =
     fold (\<lambda>k v. uncount_page (clear_entry v a (add64 va_base (mul64 k PAGE_SIZE))) a) [0..<n] v"

definition address_space_install_wm_window ::
  "vm \<Rightarrow> nat \<Rightarrow> nat list option \<Rightarrow> nat option \<Rightarrow> (vm \<times> int \<times> nat option) option" where
  "address_space_install_wm_window v a pas va_out =
     (case (pas, va_out) of
        (Some ps, Some _) \<Rightarrow>
          if a = 0 \<or> ps = [] then Some (v, -1, va_out)
          else do {
            let n = length ps;
            (v1, va1) \<leftarrow> wm_freelist_take v a n;
            let from_freelist = (va1 \<noteq> 0);
            let (v2, va_base) = (if from_freelist then (v1, va1) else mmap_brk_alloc v1 a n);
            if va_base = 0 then Some (v2, -1, va_out)
            else
              let (v3, stop) = install_loop v2 a va_base 0 ps in
              (case stop of
                 None \<Rightarrow> Some (v3, 0, Some va_base)
               | Some i \<Rightarrow>
                   let v4 = undo_install v3 a va_base i in
                   if from_freelist then
                     map_option (\<lambda>(v, _). (v, -1, va_out)) (wm_freelist_release v4 a va_base n)
                   else Some (mmap_brk_undo v4 a n, -1, va_out)) }
      | _ \<Rightarrow> Some (v, -1, va_out))"

definition wm_mapped :: "vm \<Rightarrow> nat \<Rightarrow> nat \<Rightarrow> bool" where
  "wm_mapped v a va =
     (case l3_entry_lookup v a va of
        None \<Rightarrow> False
      | Some p \<Rightarrow> has (rd64 v p) DESC_VALID \<and> has (rd64 v p) DESC_SW_WM_WINDOW)"

definition address_space_uninstall_wm_window :: "vm \<Rightarrow> nat \<Rightarrow> nat \<Rightarrow> nat \<Rightarrow> (vm \<times> int) option" where
  "address_space_uninstall_wm_window v a va n =
     (if a = 0 \<or> n = 0 then Some (v, -1)
      else if va mod PAGE_SIZE \<noteq> 0 then Some (v, -1)
      else if \<not> list_all (\<lambda>i. wm_mapped v a (add64 va (mul64 i PAGE_SIZE))) [0..<n] then Some (v, -1)
      else
        let v1 = fold (\<lambda>i v. case l3_entry_lookup v a (add64 va (mul64 i PAGE_SIZE)) of
                        None \<Rightarrow> v
                      | Some p \<Rightarrow> uncount_page (wr64 v p 0) a) [0..<n] v
        in map_option (\<lambda>(v, _). (v, 0)) (wm_freelist_release v1 a va n))"

end
