(* ===== verification/AddrSpaceInv.thy ===== *)
theory AddrSpaceInv
  imports AddrSpace
begin

text \<open>
  The invariant of the page tables and the frames behind them.  A reference is a place that
  names a frame: the root and the second table of a space, a third table, a page.  \<open>vm_ok\<close> says
  that no frame has more references than owners, and that a table and a writable page have one
  owner.  Each primitive change of the tables (a frame taken, an entry written or cleared, a
  frame shared or released, a word of a page stored) keeps it, and changes what the spaces see
  only where it should; the operations are sequences of these.
\<close>

section \<open>Reading descriptors\<close>

definition pa_mask :: u64 where "pa_mask = NOT (mask 12) AND mask 48"

lemma pa_mask_value: "pa_mask = 0xFFFFFFFFF000"
  by (simp add: pa_mask_def mask_eq_exp_minus_1)

definition frame_addr :: "nat \<Rightarrow> bool" where
  "frame_addr pa \<longleftrightarrow> 4096 dvd pa \<and> pa < 2 ^ 48"

lemma desc_pa_mask: "desc_pa e = unat (e AND pa_mask)"
  by (simp add: desc_pa_def pa_mask_def and.assoc)

lemma page_bits_frame:
  assumes "frame_addr pa"
  shows "page_bits pa = word_of_nat pa" "word_of_nat pa AND pa_mask = (word_of_nat pa :: u64)"
    "unat (word_of_nat pa :: u64) = pa"
proof -
  have lt: "pa < 2 ^ 48" and d: "4096 dvd pa" using assms by (simp_all add: frame_addr_def)
  show u: "unat (word_of_nat pa :: u64) = pa" using lt by (simp add: unsigned_of_nat take_bit_nat_eq_self)
  have "unat ((word_of_nat pa :: u64) AND NOT (mask 12)) = pa"
    unfolding align_down_is_mask u using d by simp
  then have a: "(word_of_nat pa :: u64) AND NOT (mask 12) = word_of_nat pa"
    using u word_unat_eq_iff by metis
  then show "page_bits pa = word_of_nat pa" by (simp add: page_bits_def)
  have "unat ((word_of_nat pa :: u64) AND mask 48) = pa mod 2 ^ 48"
    unfolding take_bit_eq_mask [symmetric] unsigned_take_bit_eq u by (simp only: take_bit_eq_mod)
  then have "(word_of_nat pa :: u64) AND mask 48 = word_of_nat pa"
    using lt u by (metis mod_less word_unat_eq_iff)
  then show "word_of_nat pa AND pa_mask = (word_of_nat pa :: u64)"
    by (simp add: pa_mask_def a flip: and.assoc)
qed

text \<open>Flags outside the address field.\<close>

definition flags_only :: "u64 \<Rightarrow> bool" where
  "flags_only f \<longleftrightarrow> f AND pa_mask = 0"

lemma frame_and_flags:
  assumes "frame_addr pa" "flags_only f"
  shows "page_bits pa AND f = 0"
proof -
  have "page_bits pa AND f = (page_bits pa AND pa_mask) AND f"
    using page_bits_frame [OF assms(1)] by simp
  also have "\<dots> = page_bits pa AND (f AND pa_mask)" by (simp only: ac_simps)
  finally show ?thesis using assms(2) by (simp add: flags_only_def)
qed

lemma desc_fields:
  assumes "frame_addr pa" "flags_only f" "flags_only g"
  shows "desc_pa (page_bits pa OR f) = pa" "has (page_bits pa OR f) g = has f g"
    "ap_field (page_bits pa OR f) = ap_field f"
proof -
  have "(page_bits pa OR f) AND pa_mask = word_of_nat pa"
    using page_bits_frame [OF assms(1)] assms(2) by (simp add: flags_only_def bit.conj_disj_distrib2)
  then show "desc_pa (page_bits pa OR f) = pa"
    using page_bits_frame(3) [OF assms(1)] by (simp add: desc_pa_mask)
  show "has (page_bits pa OR f) g = has f g"
    using frame_and_flags [OF assms(1,3)] by (simp add: has_def bit.conj_disj_distrib2)
  have "flags_only (push_bit 6 3)" by (simp add: flags_only_def pa_mask_value)
  from frame_and_flags [OF assms(1) this] show "ap_field (page_bits pa OR f) = ap_field f"
    by (simp add: ap_field_def bit.conj_disj_distrib2)
qed

lemmas desc_bits = DESC_VALID_def DESC_TABLE_def DESC_PAGE_def DESC_AF_def DESC_SH_INNER_def
  DESC_AP_RW_EL0_def DESC_AP_RO_EL0_def DESC_PXN_def DESC_UXN_def DESC_SW_COW_def
  DESC_SW_PAGECACHE_def DESC_SW_GUARD_def DESC_SW_WM_WINDOW_def ATTR_NORMAL_def

lemma flag_constants [simp]:
  "flags_only DESC_VALID" "flags_only DESC_TABLE" "flags_only DESC_UXN" "flags_only DESC_SW_COW"
  "flags_only DESC_SW_PAGECACHE" "flags_only DESC_SW_WM_WINDOW" "flags_only DESC_SW_GUARD"
  by (simp_all add: flags_only_def pa_mask_value desc_bits)

text \<open>What the code's writers store, as flags beside an address.\<close>

definition leaf_flags :: "bool \<Rightarrow> bool \<Rightarrow> bool \<Rightarrow> u64" where
  "leaf_flags rw x cow =
     page_attrs rw x OR (if cow then DESC_SW_COW else 0)"

lemma leaf_flags [simp]:
  "flags_only (leaf_flags rw x cow)" "has (leaf_flags rw x cow) DESC_VALID"
  "\<not> has (leaf_flags rw x cow) DESC_SW_PAGECACHE" "\<not> has (leaf_flags rw x cow) DESC_SW_WM_WINDOW"
  "has (leaf_flags rw x cow) DESC_UXN \<longleftrightarrow> \<not> x" "has (leaf_flags rw x cow) DESC_SW_COW \<longleftrightarrow> cow"
  "ap_field (leaf_flags rw x cow) = (if rw then DESC_AP_RW_EL0 else DESC_AP_RO_EL0)"
  by (auto simp: flags_only_def pa_mask_value leaf_flags_def page_attrs_def has_def ap_field_def desc_bits)

definition leaf :: "nat \<Rightarrow> bool \<Rightarrow> bool \<Rightarrow> bool \<Rightarrow> u64" where
  "leaf pa rw x cow = page_bits pa OR leaf_flags rw x cow"

lemma leaf_fields:
  assumes "frame_addr pa"
  shows "desc_pa (leaf pa rw x cow) = pa" "has (leaf pa rw x cow) DESC_VALID"
    "\<not> has (leaf pa rw x cow) DESC_SW_PAGECACHE" "\<not> has (leaf pa rw x cow) DESC_SW_WM_WINDOW"
    "has (leaf pa rw x cow) DESC_UXN \<longleftrightarrow> \<not> x" "has (leaf pa rw x cow) DESC_SW_COW \<longleftrightarrow> cow"
    "ap_field (leaf pa rw x cow) = (if rw then DESC_AP_RW_EL0 else DESC_AP_RO_EL0)"
  unfolding leaf_def using desc_fields [OF assms leaf_flags(1), of DESC_VALID] by (simp_all add: desc_fields(2) [OF assms leaf_flags(1)])

lemma ap_different [simp]: "DESC_AP_RO_EL0 \<noteq> DESC_AP_RW_EL0" "DESC_AP_RW_EL0 \<noteq> DESC_AP_RO_EL0"
  by (simp_all add: desc_bits)

lemma table_desc:
  assumes "frame_addr pa"
  defines "e \<equiv> page_bits pa OR DESC_VALID OR DESC_TABLE"
  shows "desc_pa e = pa" "has e DESC_VALID" "has e DESC_TABLE"
proof -
  have e: "e = page_bits pa OR (DESC_VALID OR DESC_TABLE)" by (simp add: e_def or.assoc)
  have f: "flags_only (DESC_VALID OR DESC_TABLE)" by (simp add: flags_only_def pa_mask_value desc_bits)
  show "desc_pa e = pa" "has e DESC_VALID" "has e DESC_TABLE"
    unfolding e using desc_fields(1) [OF assms(1) f f] desc_fields(2) [OF assms(1) f flag_constants(1)]
      desc_fields(2) [OF assms(1) f flag_constants(2)] by (simp_all add: has_def desc_bits)
qed

lemma invalid_words [simp]: "\<not> has 0 f" "\<not> has DESC_SW_GUARD DESC_VALID"
  by (simp_all add: has_def desc_bits)

text \<open>The writers of the code write leaves.\<close>

lemma map_writes_leaf: "page_bits pa OR page_attrs rw x = leaf pa rw x False"
  by (simp add: leaf_def leaf_flags_def)

lemma build_user_desc_leaf: "build_user_desc pa rw False = leaf pa rw False False"
  by (simp add: build_user_desc_def leaf_def leaf_flags_def page_attrs_def Let_def ac_simps)

lemma cow_desc_leaf:
  "cow_desc e = leaf (desc_pa e) False (\<not> has e DESC_UXN) (ap_field e = DESC_AP_RW_EL0 \<or> has e DESC_SW_COW)"
  by (simp add: cow_desc_def leaf_def leaf_flags_def page_attrs_def Let_def ac_simps)

section \<open>References\<close>

datatype tref = L1T | L2T | L3T nat | Pg nat nat

definition l2e :: "vm \<Rightarrow> nat \<Rightarrow> nat \<Rightarrow> u64" where
  "l2e v a i = rd64 v (l2_pa (asp v a) + 8 * i)"

definition entry :: "vm \<Rightarrow> nat \<Rightarrow> nat \<Rightarrow> nat \<Rightarrow> u64" where
  "entry v a i j =
     (if has (l2e v a i) DESC_VALID then rd64 v (desc_pa (l2e v a i) + 8 * j) else 0)"

text \<open>The frame a reference names.\<close>

fun frame_of :: "vm \<Rightarrow> nat \<Rightarrow> tref \<Rightarrow> nat option" where
  "frame_of v a L1T = (if spaces v a = None then None else Some (l1_pa (asp v a)))"
| "frame_of v a L2T = (if spaces v a = None then None else Some (l2_pa (asp v a)))"
| "frame_of v a (L3T i) =
     (if spaces v a \<noteq> None \<and> i < 512 \<and> has (l2e v a i) DESC_VALID then Some (desc_pa (l2e v a i)) else None)"
| "frame_of v a (Pg i j) =
     (if spaces v a \<noteq> None \<and> i < 512 \<and> j < 512 \<and> has (entry v a i j) DESC_VALID
      then Some (desc_pa (entry v a i j)) else None)"

text \<open>The references of \<open>L\<close>; a space that is being torn down loses its own one by one.\<close>

definition refs_to :: "vm \<Rightarrow> (nat \<times> tref) set \<Rightarrow> nat \<Rightarrow> (nat \<times> tref) set" where
  "refs_to v L pa = {(a, r). (a, r) \<in> L \<and> frame_of v a r = Some pa}"

fun exclusive :: "vm \<Rightarrow> nat \<Rightarrow> tref \<Rightarrow> bool" where
  "exclusive v a (Pg i j) = (ap_field (entry v a i j) = DESC_AP_RW_EL0)"
| "exclusive v a r = True"

definition plain :: "u64 \<Rightarrow> bool" where
  "plain e \<longleftrightarrow> \<not> has e DESC_SW_PAGECACHE \<and> \<not> has e DESC_SW_WM_WINDOW \<and>
     (ap_field e = DESC_AP_RW_EL0 \<or> ap_field e = DESC_AP_RO_EL0) \<and>
     (has e DESC_SW_COW \<longrightarrow> ap_field e = DESC_AP_RO_EL0)"

text \<open>A reference is reached through the ones above it.\<close>

definition rooted :: "(nat \<times> tref) set \<Rightarrow> bool" where
  "rooted L \<longleftrightarrow> (\<forall>a i j. (a, Pg i j) \<in> L \<longrightarrow> (a, L3T i) \<in> L) \<and> (\<forall>a i. (a, L3T i) \<in> L \<longrightarrow> (a, L2T) \<in> L)"

lemma rootedD: "rooted L \<Longrightarrow> (a, Pg i j) \<in> L \<Longrightarrow> (a, L3T i) \<in> L" "rooted L \<Longrightarrow> (a, L3T i) \<in> L \<Longrightarrow> (a, L2T) \<in> L"
  unfolding rooted_def by blast+

definition refs_ok :: "vm \<Rightarrow> (nat \<Rightarrow> nat) \<Rightarrow> (nat \<times> tref) set \<Rightarrow> bool" where
  "refs_ok v H L \<longleftrightarrow>
     (\<forall>pa. card (refs_to v L pa) \<le> H pa) \<and>
     (\<forall>a r pa. (a, r) \<in> L \<and> frame_of v a r = Some pa \<and> exclusive v a r \<longrightarrow> H pa = 1) \<and>
     (\<forall>a i j i' j' pa. (a, Pg i j) \<in> L \<and> (a, Pg i' j') \<in> L \<and> frame_of v a (Pg i j) = Some pa \<and>
        frame_of v a (Pg i' j') = Some pa \<longrightarrow> i = i' \<and> j = j') \<and>
     (\<forall>a i pa. (a, L3T i) \<in> L \<and> frame_of v a (L3T i) = Some pa \<longrightarrow> has (l2e v a i) DESC_TABLE) \<and>
     (\<forall>a i j pa. (a, Pg i j) \<in> L \<and> frame_of v a (Pg i j) = Some pa \<longrightarrow> plain (entry v a i j))"

definition vm_ok :: "nat set \<Rightarrow> vm \<Rightarrow> (nat \<Rightarrow> nat) \<Rightarrow> (nat \<times> tref) set \<Rightarrow> bool" where
  "vm_ok pool v H L \<longleftrightarrow>
     (\<exists>xs. frames_ok pool (vm_pmem v) (vm_rc v) H xs) \<and> (\<forall>pa\<in>pool. pa < 2 ^ 48) \<and>
     finite (dom (spaces v)) \<and> 0 \<notin> dom (spaces v) \<and> rooted L \<and> refs_ok v H L"

lemma frame_of_space: "frame_of v a r = Some pa \<Longrightarrow> a \<in> dom (spaces v)"
  by (cases r) (auto split: if_splits)

lemma frame_of_bound: "frame_of v a r = Some pa \<Longrightarrow> r \<in> {L1T, L2T} \<union> L3T ` {..<512} \<union> case_prod Pg ` ({..<512} \<times> {..<512})"
  by (cases r) (auto split: if_splits)

lemma finite_refs: "finite (dom (spaces v)) \<Longrightarrow> finite (refs_to v L pa)"
proof -
  assume "finite (dom (spaces v))"
  then have "finite (dom (spaces v) \<times> ({L1T, L2T} \<union> L3T ` {..<512} \<union> case_prod Pg ` ({..<512} \<times> {..<512})))"
    by simp
  moreover have "refs_to v L pa \<subseteq> dom (spaces v) \<times> ({L1T, L2T} \<union> L3T ` {..<512} \<union> case_prod Pg ` ({..<512} \<times> {..<512}))"
    using frame_of_space frame_of_bound by (fastforce simp: refs_to_def)
  ultimately show ?thesis by (rule rev_finite_subset)
qed

lemma vm_ok_refs:
  assumes "vm_ok pool v H L"
  shows "finite (refs_to v L pa)" "card (refs_to v L pa) \<le> H pa" "rooted L" "finite (dom (spaces v))"
    "0 \<notin> dom (spaces v)"
  using assms finite_refs by (auto simp: vm_ok_def refs_ok_def)

lemma vm_ok_owner:
  assumes "vm_ok pool v H L" "(a, r) \<in> L" "frame_of v a r = Some pa"
  shows "1 \<le> H pa" "pa \<in> pool" "frame_addr pa" "page_ok pa"
proof -
  have "(a, r) \<in> refs_to v L pa" using assms(2,3) by (simp add: refs_to_def)
  then have "card (refs_to v L pa) \<noteq> 0" using vm_ok_refs(1) [OF assms(1)] by auto
  then show h: "1 \<le> H pa" using vm_ok_refs(2) [OF assms(1), of pa] by simp
  then show p: "pa \<in> pool" using assms(1) by (fastforce simp: vm_ok_def frames_ok_def)
  then show "page_ok pa" using assms(1) by (auto simp: vm_ok_def frames_ok_def)
  then show "frame_addr pa" using assms(1) p by (auto simp: vm_ok_def frame_addr_def page_ok_def)
qed

lemma vm_ok_exclusive:
  assumes "vm_ok pool v H L" "(a, r) \<in> L" "frame_of v a r = Some pa" "exclusive v a r"
    and "(b, s) \<in> L" "frame_of v b s = Some pa"
  shows "b = a \<and> s = r"
proof -
  have "H pa = 1" using assms(1-4) unfolding vm_ok_def refs_ok_def by blast
  then have "card (refs_to v L pa) \<le> 1" using vm_ok_refs(2) [OF assms(1), of pa] by simp
  moreover have "(a, r) \<in> refs_to v L pa" "(b, s) \<in> refs_to v L pa" using assms by (simp_all add: refs_to_def)
  ultimately show ?thesis
    using card_le_Suc0_iff_eq [OF vm_ok_refs(1) [OF assms(1), of pa]] by (auto simp: refs_to_def)
qed

lemma vm_ok_one: "vm_ok pool v H L \<Longrightarrow> (a, r) \<in> L \<Longrightarrow> frame_of v a r = Some pa \<Longrightarrow> exclusive v a r \<Longrightarrow> H pa = 1"
  unfolding vm_ok_def refs_ok_def by blast

lemma page_words_disjoint:
  assumes "frame_addr p" "frame_addr q" "p + 8 * i = q + 8 * j" "i < 512" "j < 512"
  shows "p = q \<and> i = j"
proof (cases "p = q")
  case False
  then show ?thesis
    using page_offset_unique [of p q "8 * i" "8 * j"] assms by (auto simp: frame_addr_def)
qed (use assms in simp)

section \<open>What a change of memory leaves alone\<close>

text \<open>The words of the frames that the references of \<open>L\<close> name.\<close>

definition agree :: "vm \<Rightarrow> vm \<Rightarrow> (nat \<times> tref) set \<Rightarrow> bool" where
  "agree v v' L \<longleftrightarrow> (\<forall>a r pa k. (a, r) \<in> L \<and> frame_of v a r = Some pa \<and> k < 512 \<longrightarrow>
     mem (vm_pmem v') (pa + 8 * k) = mem (vm_pmem v) (pa + 8 * k))"

definition same_roots :: "vm \<Rightarrow> vm \<Rightarrow> bool" where
  "same_roots v v' \<longleftrightarrow> (\<forall>a. (spaces v' a = None \<longleftrightarrow> spaces v a = None) \<and>
     l1_pa (asp v' a) = l1_pa (asp v a) \<and> l2_pa (asp v' a) = l2_pa (asp v a))"

lemma rd64_agree:
  "agree v v' L \<Longrightarrow> (a, r) \<in> L \<Longrightarrow> frame_of v a r = Some pa \<Longrightarrow> k < 512 \<Longrightarrow>
   rd64 v' (pa + 8 * k) = rd64 v (pa + 8 * k)"
  by (simp add: agree_def rd64_def)

lemma l2e_agree:
  assumes "agree v v' L" "same_roots v v'" "(a, L2T) \<in> L" "spaces v a \<noteq> None" "i < 512"
  shows "l2e v' a i = l2e v a i"
  using rd64_agree [OF assms(1,3) _ assms(5)] assms(2,4) by (simp add: l2e_def same_roots_def)

lemma entry_agree:
  assumes "agree v v' L" "same_roots v v'" "rooted L" "(a, L3T i) \<in> L" "spaces v a \<noteq> None" "i < 512" "j < 512"
  shows "entry v' a i j = entry v a i j"
proof -
  have "(a, L2T) \<in> L" using assms(3,4) by (auto simp: rooted_def)
  note l2 = l2e_agree [OF assms(1,2) this assms(5,6)]
  show ?thesis
    using rd64_agree [OF assms(1,4), of "desc_pa (l2e v a i)" j] assms by (auto simp: entry_def l2)
qed

lemma frame_of_agree:
  assumes "agree v v' L" "same_roots v v'" "rooted L" "(a, r) \<in> L"
  shows "frame_of v' a r = frame_of v a r"
proof (cases "spaces v a = None")
  case True
  then show ?thesis using assms(2) by (cases r) (auto simp: same_roots_def)
next
  case False
  then show ?thesis
  proof (cases r)
    case (L3T i)
    then have "i < 512 \<Longrightarrow> l2e v' a i = l2e v a i"
      using l2e_agree [OF assms(1,2)] False assms(3,4) by (auto simp: rooted_def)
    then show ?thesis using assms(2) L3T by (auto simp: same_roots_def)
  next
    case (Pg i j)
    then have "i < 512 \<Longrightarrow> j < 512 \<Longrightarrow> entry v' a i j = entry v a i j"
      using entry_agree [OF assms(1-3) rootedD(1) [OF assms(3)]] False assms(4) by blast
    then show ?thesis using assms(2) Pg by (auto simp: same_roots_def)
  qed (use assms(2) in \<open>auto simp: same_roots_def\<close>)
qed

lemma refs_ok_agree:
  assumes "refs_ok v H L" "agree v v' L" "same_roots v v'" "rooted L"
    and "\<And>pa. card (refs_to v L pa) \<le> H' pa"
    and "\<And>a r pa. (a, r) \<in> L \<Longrightarrow> frame_of v a r = Some pa \<Longrightarrow> H pa = 1 \<Longrightarrow> exclusive v a r \<Longrightarrow> H' pa = 1"
  shows "refs_ok v' H' L"
proof -
  note fr = frame_of_agree [OF assms(2-4)]
  have refs: "refs_to v' L pa = refs_to v L pa" for pa using fr by (auto simp: refs_to_def)
  have e: "entry v' a i j = entry v a i j" if "(a, Pg i j) \<in> L" "frame_of v a (Pg i j) = Some pa" for a i j pa
    using that(2) entry_agree [OF assms(2-4) rootedD(1) [OF assms(4) that(1)]] by (auto split: if_splits)
  have l: "l2e v' a i = l2e v a i" if "(a, L3T i) \<in> L" "frame_of v a (L3T i) = Some pa" for a i pa
    using that l2e_agree [OF assms(2,3)] assms(4) by (auto simp: rooted_def split: if_splits)
  have ex: "exclusive v' a r = exclusive v a r" if "(a, r) \<in> L" "frame_of v a r = Some pa" for a r pa
    using e that by (cases r) auto
  have "H' pa = 1" if "(a, r) \<in> L" "frame_of v' a r = Some pa" "exclusive v' a r" for a r pa
  proof (rule assms(6) [OF that(1)])
    show "frame_of v a r = Some pa" using fr that by simp
    then show "exclusive v a r" using ex that by blast
    then show "H pa = 1" using assms(1) that \<open>frame_of v a r = Some pa\<close> unfolding refs_ok_def by blast
  qed
  moreover have "i = i' \<and> j = j'" if "(a, Pg i j) \<in> L" "(a, Pg i' j') \<in> L"
    "frame_of v' a (Pg i j) = Some pa" "frame_of v' a (Pg i' j') = Some pa" for a i j i' j' pa
    using assms(1) that fr unfolding refs_ok_def by metis
  moreover have "has (l2e v' a i) DESC_TABLE" if "(a, L3T i) \<in> L" "frame_of v' a (L3T i) = Some pa" for a i pa
    using assms(1) that fr l unfolding refs_ok_def by metis
  moreover have "plain (entry v' a i j)" if "(a, Pg i j) \<in> L" "frame_of v' a (Pg i j) = Some pa" for a i j pa
    using assms(1) that fr e unfolding refs_ok_def by metis
  ultimately show ?thesis unfolding refs_ok_def refs using assms(5) by blast
qed

section \<open>What a space sees\<close>

text \<open>The words of a page, and the page behind entry \<open>j\<close> of table \<open>i\<close>: contents, whether the
  process may write it (now, or after a copy), whether it may execute it.\<close>

definition frame_words :: "vm \<Rightarrow> nat \<Rightarrow> nat \<Rightarrow> u64" where
  "frame_words v pa = (\<lambda>k. if k < 512 then rd64 v (pa + 8 * k) else 0)"

definition may_write :: "u64 \<Rightarrow> bool" where
  "may_write e \<longleftrightarrow> ap_field e = DESC_AP_RW_EL0 \<or> has e DESC_SW_COW"

type_synonym view_page = "(nat \<Rightarrow> u64) \<times> bool \<times> bool"

definition seen :: "vm \<Rightarrow> nat \<Rightarrow> nat \<Rightarrow> nat \<Rightarrow> view_page option" where
  "seen v a i j = map_option (\<lambda>pa. (frame_words v pa, may_write (entry v a i j), \<not> has (entry v a i j) DESC_UXN))
     (frame_of v a (Pg i j))"

lemma seen_agree:
  assumes "agree v v' L" "same_roots v v'" "rooted L" "(a, Pg i j) \<in> L"
  shows "seen v' a i j = seen v a i j"
proof (cases "frame_of v a (Pg i j)")
  case None
  then show ?thesis using frame_of_agree [OF assms] by (simp add: seen_def)
next
  case (Some pa)
  then have "entry v' a i j = entry v a i j"
    using entry_agree [OF assms(1-3) rootedD(1) [OF assms(3,4)]] by (auto split: if_splits)
  moreover have "frame_words v' pa = frame_words v pa"
    using assms(1) [unfolded agree_def, rule_format, of a "Pg i j" pa] assms(4) Some
    by (simp add: frame_words_def rd64_def fun_eq_iff)
  ultimately show ?thesis
    unfolding seen_def frame_of_agree [OF assms] Some by simp
qed

section \<open>Memory only\<close>

lemma set_pmem_simps [simp]:
  "vm_pmem (set_pmem v m) = m" "spaces (set_pmem v m) = spaces v" "vm_rc (set_pmem v m) = vm_rc v"
  "vm_kern (set_pmem v m) = vm_kern v" "asp (set_pmem v m) a = asp v a" "l1_pgtable (set_pmem v m) = l1_pgtable v"
  "set_pmem v (vm_pmem v) = v" "set_pmem (set_pmem v m) m' = set_pmem v m'"
  by (simp_all add: set_pmem_def asp_def)

lemma wr64_simps [simp]:
  "mem (vm_pmem (wr64 v p w)) = (mem (vm_pmem v))(p := unat w)" "spaces (wr64 v p w) = spaces v"
  "vm_rc (wr64 v p w) = vm_rc v" "vm_kern (wr64 v p w) = vm_kern v" "asp (wr64 v p w) a = asp v a"
  "l1_pgtable (wr64 v p w) = l1_pgtable v" "wr64 (wr64 v p x) p w = wr64 v p w"
  by (simp_all add: wr64_def)

lemma rd64_wr64 [simp]: "rd64 (wr64 v p w) q = (if q = p then w else rd64 v q)"
  by (simp add: rd64_def)

lemma upd_as_simps [simp]:
  "vm_cache (upd_as v a f) = vm_cache v" "vm_rc (upd_as v a f) = vm_rc v" "vm_kern (upd_as v a f) = vm_kern v"
  "l1_pgtable (upd_as v a f) = l1_pgtable v" "asp (upd_as v a f) b = (if b = a then f (asp v a) else asp v b)"
  "spaces (upd_as v a f) = (spaces v)(a := Some (f (asp v a)))"
  by (simp_all add: upd_as_def asp_def)

lemma same_roots_refl [simp]: "spaces v' = spaces v \<Longrightarrow> same_roots v v'"
  by (simp add: same_roots_def asp_def)

lemma same_roots_dom: "same_roots v v' \<Longrightarrow> dom (spaces v') = dom (spaces v)"
  by (simp add: same_roots_def set_eq_iff domIff del: not_None_eq)

lemma same_roots_trans: "same_roots u v \<Longrightarrow> same_roots v w \<Longrightarrow> same_roots u w"
  by (simp add: same_roots_def)

lemma same_roots_upd_as:
  "spaces v a \<noteq> None \<Longrightarrow> (\<And>s. l1_pa (f s) = l1_pa s \<and> l2_pa (f s) = l2_pa s) \<Longrightarrow> same_roots v (upd_as v a f)"
  by (auto simp: same_roots_def)

lemma agree_same [simp]: "vm_pmem v' = vm_pmem v \<Longrightarrow> agree v v' L"
  by (simp add: agree_def)

lemma agree_trans:
  assumes "agree u v L" "agree v w L" "same_roots u v" "rooted L"
  shows "agree u w L"
  using assms frame_of_agree [OF assms(1,3,4)] unfolding agree_def by metis

text \<open>The tables and the frames are as they were; only the rest of the spaces has changed.\<close>

lemma same_tables:
  assumes "vm_ok pool v H L" "vm_pmem v' = vm_pmem v" "vm_rc v' = vm_rc v" "same_roots v v'"
  shows "vm_ok pool v' H L" "seen v' = seen v" "frame_of v' = frame_of v" "entry v' = entry v"
proof -
  have r: "rd64 v' = rd64 v" by (simp add: rd64_def assms(2) fun_eq_iff)
  show e: "entry v' = entry v" using assms(4) by (simp add: fun_eq_iff entry_def l2e_def r same_roots_def)
  show f: "frame_of v' = frame_of v"
  proof (intro ext)
    fix a x
    show "frame_of v' a x = frame_of v a x"
      using assms(4) by (cases x) (auto simp: e l2e_def r same_roots_def)
  qed
  show "seen v' = seen v" by (simp add: fun_eq_iff seen_def f e frame_words_def r)
  have "refs_ok v' H L"
    by (rule refs_ok_agree [OF _ _ assms(4)]) (use assms(1,2) vm_ok_refs(2) [OF assms(1)] in \<open>auto simp: vm_ok_def\<close>)
  then show "vm_ok pool v' H L" using assms same_roots_dom [OF assms(4)] by (simp add: vm_ok_def)
qed

lemma card_refs_0: "vm_ok pool v H L \<Longrightarrow> H pa = 0 \<Longrightarrow> refs_to v L pa = {}"
  using vm_ok_refs(1,2) [of pool v H L pa] by simp

lemma vm_ok_frames: "vm_ok pool v H L \<Longrightarrow> \<exists>xs. frames_ok pool (vm_pmem v) (vm_rc v) H xs"
  by (simp add: vm_ok_def)

text \<open>A change of memory and of the owners that the references do not notice.\<close>

lemma vm_ok_quiet:
  assumes ok: "vm_ok pool v H L" and fr: "frames_ok pool (vm_pmem v') (vm_rc v') H' xs"
    and ag: "agree v v' L" and sp: "same_roots v v'"
    and le: "\<And>pa. card (refs_to v L pa) \<le> H' pa"
    and ex: "\<And>a r pa. (a, r) \<in> L \<Longrightarrow> frame_of v a r = Some pa \<Longrightarrow> H pa = 1 \<Longrightarrow> exclusive v a r \<Longrightarrow> H' pa = 1"
  shows "vm_ok pool v' H' L"
proof -
  have "refs_ok v' H' L"
    by (rule refs_ok_agree [OF _ ag sp _ le ex]) (use ok in \<open>simp_all add: vm_ok_def\<close>)
  then show ?thesis using ok fr same_roots_dom [OF sp] unfolding vm_ok_def by auto
qed

section \<open>Taking, sharing and releasing a frame\<close>

lemma alloc_page_fails: "vm_alloc_page v = (v', 0) \<Longrightarrow> vm_ok pool v H L \<Longrightarrow> v' = v"
proof -
  assume a: "vm_alloc_page v = (v', 0)" and ok: "vm_ok pool v H L"
  then obtain xs where x: "frames_ok pool (vm_pmem v) (vm_rc v) H xs" by (auto simp: vm_ok_def)
  show "v' = v"
  proof (cases "free_head (vm_pmem v) = 0")
    case True
    then show ?thesis using a by (simp add: vm_alloc_page_def pmem_alloc_page_def)
  next
    case False
    then show ?thesis using a by (simp add: vm_alloc_page_def pmem_alloc_page_def Let_def)
  qed
qed

lemma alloc_page_ok:
  assumes ok: "vm_ok pool v H L" and al: "vm_alloc_page v = (v', pa)" "pa \<noteq> 0"
  shows "vm_ok pool v' (H(pa := 1)) L" "agree v v' L" "H pa = 0" "refs_to v L pa = {}" "refs_to v' L pa = {}"
    "frame_words v' pa = (\<lambda>_. 0)" "frame_addr pa" "pa \<in> pool" "spaces v' = spaces v" "vm_rc v' = vm_rc v"
    "vm_kern v' = vm_kern v" "\<And>q. frame_addr q \<Longrightarrow> q \<noteq> pa \<Longrightarrow> frame_words v' q = frame_words v q"
proof -
  obtain xs where fr: "frames_ok pool (vm_pmem v) (vm_rc v) H xs" using vm_ok_frames [OF ok] ..
  obtain m where m: "pmem_alloc_page (vm_pmem v) = (m, pa)" "v' = set_pmem v m"
    using al by (auto simp: vm_alloc_page_def split: prod.splits)
  obtain ys where ys: "xs = pa # ys" "frames_ok pool m (vm_rc v) (H(pa := H pa + 1)) ys"
    "mem m = zero_page (mem (vm_pmem v)) pa"
    using frames_alloc [OF fr m(1) al(2)] by metis
  have pa: "pa \<in> pool" "H pa = 0" using fr ys(1) by (auto simp: frames_ok_def)
  show "H pa = 0" "pa \<in> pool" by (fact pa)+
  show "frame_addr pa" using ok pa fr by (auto simp: vm_ok_def frames_ok_def frame_addr_def page_ok_def)
  note f = this
  show e: "refs_to v L pa = {}" by (rule card_refs_0 [OF ok pa(2)])
  show sp: "spaces v' = spaces v" "vm_rc v' = vm_rc v" "vm_kern v' = vm_kern v" by (simp_all add: m(2))
  have z: "mem (vm_pmem v') = zero_page (mem (vm_pmem v)) pa" by (simp add: m(2) ys(3))
  show "frame_words v' pa = (\<lambda>_. 0)" by (auto simp: fun_eq_iff frame_words_def rd64_def z zero_page_apply)
  have other: "mem (vm_pmem v') (q + 8 * k) = mem (vm_pmem v) (q + 8 * k)" if "frame_addr q" "q \<noteq> pa" "k < 512" for q k
    using page_words_disjoint [OF that(1) f, of k] that(2,3) by (auto simp: z zero_page_apply)
  then show "\<And>q. frame_addr q \<Longrightarrow> q \<noteq> pa \<Longrightarrow> frame_words v' q = frame_words v q"
    by (auto simp: frame_words_def rd64_def fun_eq_iff)
  have ne: "frame_of v a r = Some q \<Longrightarrow> (a, r) \<in> L \<Longrightarrow> q \<noteq> pa" for a r q using e by (auto simp: refs_to_def)
  show ag: "agree v v' L"
    using other ne vm_ok_owner(3) [OF ok] unfolding agree_def by blast
  show "vm_ok pool v' (H(pa := 1)) L"
  proof (rule vm_ok_quiet [OF ok _ ag])
    show "frames_ok pool (vm_pmem v') (vm_rc v') (H(pa := 1)) ys" using ys(2) pa(2) by (simp add: m(2))
    show "card (refs_to v L q) \<le> (H(pa := 1)) q" for q using vm_ok_refs(2) [OF ok, of q] e by simp
    show "(H(pa := 1)) q = 1" if "H q = 1" for q using that by simp
  qed (simp add: sp)
  have "frame_of v' a r = frame_of v a r" if "(a, r) \<in> L" for a r
    using frame_of_agree [OF ag _ vm_ok_refs(3) [OF ok] that] sp by simp
  then show "refs_to v' L pa = {}" using e by (auto simp: refs_to_def)
qed

lemma refs_agree:
  "agree v v' L \<Longrightarrow> same_roots v v' \<Longrightarrow> rooted L \<Longrightarrow> refs_to v' L pa = refs_to v L pa"
  using frame_of_agree by (auto simp: refs_to_def)

lemma share_page_ok:
  assumes ok: "vm_ok pool v H L" and H: "1 \<le> H pa" "H pa < 65535"
    and ne: "\<And>a r. (a, r) \<in> L \<Longrightarrow> frame_of v a r = Some pa \<Longrightarrow> \<not> exclusive v a r"
  shows "vm_ok pool (v\<lparr>vm_rc := pmem_refcount_share (vm_rc v) pa\<rparr>) (H(pa := H pa + 1)) L"
proof -
  obtain xs where fr: "frames_ok pool (vm_pmem v) (vm_rc v) H xs" using vm_ok_frames [OF ok] ..
  show ?thesis
  proof (rule vm_ok_quiet [OF ok])
    show "frames_ok pool (vm_pmem (v\<lparr>vm_rc := pmem_refcount_share (vm_rc v) pa\<rparr>))
        (vm_rc (v\<lparr>vm_rc := pmem_refcount_share (vm_rc v) pa\<rparr>)) (H(pa := H pa + 1)) xs"
      using frames_share [OF fr H] by simp
    show "card (refs_to v L q) \<le> (H(pa := H pa + 1)) q" for q using vm_ok_refs(2) [OF ok, of q] by (cases "q = pa") simp_all
    show "(H(pa := H pa + 1)) q = 1" if "(a, r) \<in> L" "frame_of v a r = Some q" "H q = 1" "exclusive v a r" for a r q
      using ne that by auto
  qed simp_all
qed

text \<open>Giving up an ownership that no reference stands for.\<close>

lemma release_page_ok:
  assumes ok: "vm_ok pool v H L" and spare: "card (refs_to v L pa) < H pa"
  defines "v' \<equiv> vm_dec_and_free v pa"
  shows "vm_ok pool v' (H(pa := H pa - 1)) L" "agree v v' L" "spaces v' = spaces v" "vm_kern v' = vm_kern v"
proof -
  obtain xs where fr: "frames_ok pool (vm_pmem v) (vm_rc v) H xs" using vm_ok_frames [OF ok] ..
  obtain m r where mr: "pmem_dec_and_free (vm_pmem v) (vm_rc v) pa = (m, r)" by fastforce
  have v': "v' = (set_pmem v m)\<lparr>vm_rc := r\<rparr>" by (simp add: v'_def vm_dec_and_free_def mr)
  have H: "1 \<le> H pa" using spare by simp
  obtain ys where ys: "frames_ok pool m r (H(pa := H pa - 1)) ys" using frames_release [OF fr H mr] by blast
  show sp: "spaces v' = spaces v" "vm_kern v' = vm_kern v" by (simp_all add: v')
  have pa: "pa \<in> pool" using fr H by (force simp: frames_ok_def)
  have fa: "frame_addr pa" using ok pa fr by (auto simp: vm_ok_def frames_ok_def frame_addr_def page_ok_def)
  have "mem m = mem (vm_pmem v) \<or> H pa = 1 \<and> (\<forall>a. a \<noteq> pa \<longrightarrow> mem m a = mem (vm_pmem v) a)"
  proof (cases "2 \<le> pmem_refcount_get (vm_rc v) pa")
    case True
    then show ?thesis using mr by (auto simp: pmem_dec_and_free_def Let_def split: if_splits)
  next
    case False
    have "count_ok (pmem_refcount_get (vm_rc v) pa) (H pa)" using fr pa by (auto simp: frames_ok_def)
    from count_okD(2) [OF this False] H have "H pa = 1" by simp
    then show ?thesis
      using mr False by (auto simp: pmem_dec_and_free_def Let_def pmem_free_page_def push_free_def split: if_splits)
  qed
  then show ag: "agree v v' L"
  proof
    assume "mem m = mem (vm_pmem v)"
    then show ?thesis by (simp add: agree_def v')
  next
    assume a: "H pa = 1 \<and> (\<forall>a. a \<noteq> pa \<longrightarrow> mem m a = mem (vm_pmem v) a)"
    then have "refs_to v L pa = {}" using spare vm_ok_refs(1) [OF ok, of pa] by simp
    then have ne: "frame_of v b s = Some q \<Longrightarrow> (b, s) \<in> L \<Longrightarrow> q \<noteq> pa" for b s q by (auto simp: refs_to_def)
    show ?thesis unfolding agree_def
    proof clarify
      fix b s q k assume h: "(b, s) \<in> L" "frame_of v b s = Some q" "(k :: nat) < 512"
      have "q + 8 * k \<noteq> pa"
        using page_words_disjoint [OF vm_ok_owner(3) [OF ok h(1,2)] fa, of k 0] ne [OF h(2,1)] h(3) by auto
      then show "mem (vm_pmem v') (q + 8 * k) = mem (vm_pmem v) (q + 8 * k)" using a by (simp add: v')
    qed
  qed
  show "vm_ok pool v' (H(pa := H pa - 1)) L"
  proof (rule vm_ok_quiet [OF ok _ ag])
    show "frames_ok pool (vm_pmem v') (vm_rc v') (H(pa := H pa - 1)) ys" using ys by (simp add: v')
    show "card (refs_to v L q) \<le> (H(pa := H pa - 1)) q" for q using vm_ok_refs(2) [OF ok, of q] spare by (cases "q = pa") simp_all
    show "(H(pa := H pa - 1)) q = 1" if h: "(a, s) \<in> L" "frame_of v a s = Some q" "H q = 1" for a s q
    proof -
      have "(a, s) \<in> refs_to v L q" using h by (simp add: refs_to_def)
      then have "card (refs_to v L q) \<noteq> 0" using vm_ok_refs(1) [OF ok, of q] by auto
      then show ?thesis using h(3) spare by auto
    qed
  qed (simp add: sp)
qed

section \<open>Writing a frame that no reference names\<close>

lemma page_range_disjoint:
  assumes "frame_addr p" "frame_addr q" "p \<noteq> q" "k < 512"
  shows "\<not> (p \<le> q + 8 * k \<and> q + 8 * k < p + 4096)"
  using page_offset_unique [of q p "8 * k" "q + 8 * k - p"] assms by (auto simp: frame_addr_def)

lemma poke_page_ok:
  assumes ok: "vm_ok pool v H L" and H: "1 \<le> H pa" and fa: "frame_addr pa" and ne: "refs_to v L pa = {}"
    and m: "\<forall>x. m x \<noteq> mem (vm_pmem v) x \<longrightarrow> pa \<le> x \<and> x < pa + 4096"
  defines "v' \<equiv> set_pmem v ((vm_pmem v)\<lparr>mem := m\<rparr>)"
  shows "vm_ok pool v' H L" "agree v v' L"
proof -
  obtain xs where fr: "frames_ok pool (vm_pmem v) (vm_rc v) H xs" using vm_ok_frames [OF ok] ..
  show ag: "agree v v' L" unfolding agree_def
  proof clarify
    fix b s q k assume h: "(b, s) \<in> L" "frame_of v b s = Some q" "(k :: nat) < 512"
    have "q \<noteq> pa" using ne h(1,2) by (auto simp: refs_to_def)
    then have "\<not> (pa \<le> q + 8 * k \<and> q + 8 * k < pa + 4096)"
      using page_range_disjoint [OF fa vm_ok_owner(3) [OF ok h(1,2)] _ h(3)] by simp
    then show "mem (vm_pmem v') (q + 8 * k) = mem (vm_pmem v) (q + 8 * k)" using m by (auto simp: v'_def)
  qed
  show "vm_ok pool v' H L"
  proof (rule vm_ok_quiet [OF ok _ ag])
    show "frames_ok pool (vm_pmem v') (vm_rc v') H xs"
      using frames_poke [OF fr H] m by (simp add: v'_def)
  qed (use vm_ok_refs(2) [OF ok] in \<open>simp_all add: v'_def\<close>)
qed

lemma copy_page_words:
  assumes "frame_addr d" "frame_addr s" "d \<noteq> s" "n \<le> 512"
  shows "fold (\<lambda>i v. wr64 v (d + 8 * i) (rd64 v (s + 8 * i))) [0..<n] v =
     set_pmem v ((vm_pmem v)\<lparr>mem := \<lambda>x. if \<exists>i<n. x = d + 8 * i
       then unat (rd64 v (s + (x - d))) else mem (vm_pmem v) x\<rparr>)"
  using assms(4)
proof (induction n)
  case 0
  then show ?case by simp
next
  case (Suc n)
  let ?m = "\<lambda>n x. if \<exists>i<n. x = d + 8 * i then unat (rd64 v (s + (x - d))) else mem (vm_pmem v) x"
  let ?u = "set_pmem v ((vm_pmem v)\<lparr>mem := ?m n\<rparr>)"
  have "rd64 ?u (s + 8 * n) = rd64 v (s + 8 * n)"
    using page_words_disjoint [OF assms(1,2), of _ n] assms(3) Suc.prems by (auto simp: rd64_def)
  moreover have "(?m n)(d + 8 * n := unat (rd64 v (s + 8 * n))) = ?m (Suc n)"
    by (auto simp: fun_eq_iff less_Suc_eq)
  ultimately show ?case using Suc by (simp add: wr64_def)
qed

lemma copy_page_ok:
  assumes ok: "vm_ok pool v H L" and H: "1 \<le> H d" and fa: "frame_addr d" "frame_addr s" "d \<noteq> s"
    and ne: "refs_to v L d = {}"
  defines "v' \<equiv> copy_page v d s"
  shows "vm_ok pool v' H L" "agree v v' L" "frame_words v' d = frame_words v s" "spaces v' = spaces v"
    "vm_rc v' = vm_rc v" "vm_kern v' = vm_kern v" "\<And>q. frame_addr q \<Longrightarrow> q \<noteq> d \<Longrightarrow> frame_words v' q = frame_words v q"
proof -
  let ?m = "\<lambda>x. if \<exists>i<512. x = d + 8 * i then unat (rd64 v (s + (x - d))) else mem (vm_pmem v) x"
  have v': "v' = set_pmem v ((vm_pmem v)\<lparr>mem := ?m\<rparr>)"
    using copy_page_words [OF fa, of 512] by (simp add: v'_def copy_page_def)
  have "\<forall>x. ?m x \<noteq> mem (vm_pmem v) x \<longrightarrow> d \<le> x \<and> x < d + 4096" by auto
  from poke_page_ok [OF ok H fa(1) ne this] show "vm_ok pool v' H L" "agree v v' L" by (simp_all only: v')
  show "spaces v' = spaces v" "vm_rc v' = vm_rc v" "vm_kern v' = vm_kern v" by (simp_all add: v')
  show "frame_words v' d = frame_words v s" by (auto simp: frame_words_def rd64_def v' fun_eq_iff)
  show "frame_words v' q = frame_words v q" if "frame_addr q" "q \<noteq> d" for q
    using page_words_disjoint [OF that(1) fa(1)] that(2)
    by (auto simp: frame_words_def rd64_def v' fun_eq_iff; blast)
qed

section \<open>Writing an entry\<close>

text \<open>Entry \<open>j\<close> of the table \<open>l3\<close> of space \<open>a\<close> becomes \<open>e\<close>: nothing else is read differently.\<close>

definition table_write ::
  "nat set \<Rightarrow> vm \<Rightarrow> (nat \<Rightarrow> nat) \<Rightarrow> (nat \<times> tref) set \<Rightarrow> nat \<Rightarrow> nat \<Rightarrow> nat \<Rightarrow> nat \<Rightarrow> bool" where
  "table_write pool v H L a i l3 j \<longleftrightarrow>
     vm_ok pool v H L \<and> (a, L3T i) \<in> L \<and> frame_of v a (L3T i) = Some l3 \<and> j < 512"

lemma table_writeD:
  assumes "table_write pool v H L a i l3 j"
  shows "vm_ok pool v H L" "(a, L3T i) \<in> L" "frame_of v a (L3T i) = Some l3" "j < 512" "rooted L"
    "spaces v a \<noteq> None" "i < 512" "has (l2e v a i) DESC_VALID" "l3 = desc_pa (l2e v a i)" "frame_addr l3"
    "(a, L2T) \<in> L"
proof -
  show w: "vm_ok pool v H L" "(a, L3T i) \<in> L" "frame_of v a (L3T i) = Some l3" "j < 512"
    using assms by (simp_all add: table_write_def)
  show "frame_addr l3" by (rule vm_ok_owner(3) [OF w(1-3)])
  show "rooted L" by (rule vm_ok_refs(3) [OF w(1)])
  then show "(a, L2T) \<in> L" using rootedD(2) w(2) by blast
qed (use assms in \<open>auto simp: table_write_def split: if_splits\<close>)

lemma other_frame:
  "table_write pool v H L a i l3 j \<Longrightarrow> (b, r) \<in> L \<Longrightarrow> frame_of v b r = Some q \<Longrightarrow> (b, r) \<noteq> (a, L3T i) \<Longrightarrow> q \<noteq> l3"
  using vm_ok_exclusive [of pool v H L a "L3T i" l3] by (auto simp: table_write_def)

lemma l2e_written:
  assumes w: "table_write pool v H L a i l3 j" and b: "(b, L2T) \<in> L" "spaces v b \<noteq> None" "i' < 512"
  shows "l2e (wr64 v (l3 + 8 * j) e) b i' = l2e v b i'"
proof -
  note w' = table_writeD [OF w]
  have f: "frame_of v b L2T = Some (l2_pa (asp v b))" using b by simp
  have "l2_pa (asp v b) \<noteq> l3" using other_frame [OF w b(1) f] by simp
  then show ?thesis
    using page_words_disjoint [OF vm_ok_owner(3) [OF w'(1) b(1) f] w'(10), of i' j] b(3) w'(4)
    by (auto simp: l2e_def)
qed

lemma entry_written:
  "table_write pool v H L a i l3 j \<Longrightarrow> entry (wr64 v (l3 + 8 * j) e) a i j = e"
  using l2e_written [of pool v H L a i l3 j a i e] table_writeD [of pool v H L a i l3 j] by (simp add: entry_def)

lemma entry_unwritten:
  assumes w: "table_write pool v H L a i l3 j"
    and b: "(b, L3T i') \<in> L" "spaces v b \<noteq> None" "i' < 512" "j' < 512" "(b, i', j') \<noteq> (a, i, j)"
  shows "entry (wr64 v (l3 + 8 * j) e) b i' j' = entry v b i' j'"
proof -
  note w' = table_writeD [OF w]
  note l2 = l2e_written [OF w rootedD(2) [OF w'(5) b(1)] b(2,3)]
  show ?thesis
  proof (cases "has (l2e v b i') DESC_VALID")
    case True
    then have f: "frame_of v b (L3T i') = Some (desc_pa (l2e v b i'))" using b by simp
    have "desc_pa (l2e v b i') + 8 * j' \<noteq> l3 + 8 * j"
    proof
      assume eq: "desc_pa (l2e v b i') + 8 * j' = l3 + 8 * j"
      have "desc_pa (l2e v b i') = l3 \<and> j' = j"
        by (rule page_words_disjoint [OF vm_ok_owner(3) [OF w'(1) b(1) f] w'(10) eq b(4) w'(4)])
      then show False using other_frame [OF w b(1) f] b(5) by auto
    qed
    then show ?thesis by (simp add: entry_def l2)
  qed (simp add: entry_def l2)
qed

lemma frame_unwritten:
  assumes w: "table_write pool v H L a i l3 j" and b: "(b, r) \<in> L" "(b, r) \<noteq> (a, Pg i j)"
  shows "frame_of (wr64 v (l3 + 8 * j) e) b r = frame_of v b r"
proof (cases "spaces v b = None")
  case True
  then show ?thesis by (cases r) simp_all
next
  case False
  note rt = table_writeD(5) [OF w]
  show ?thesis
  proof (cases r)
    case (L3T i')
    then have "i' < 512 \<Longrightarrow> l2e (wr64 v (l3 + 8 * j) e) b i' = l2e v b i'"
      using l2e_written [OF w rootedD(2) [OF rt] False] b(1) by blast
    then show ?thesis using L3T by auto
  next
    case (Pg i' j')
    then have "i' < 512 \<Longrightarrow> j' < 512 \<Longrightarrow> entry (wr64 v (l3 + 8 * j) e) b i' j' = entry v b i' j'"
      using entry_unwritten [OF w rootedD(1) [OF rt] False] b by blast
    then show ?thesis using Pg by auto
  qed simp_all
qed

lemma words_unwritten:
  assumes "table_write pool v H L a i l3 j" "frame_addr q" "q \<noteq> l3"
  shows "frame_words (wr64 v (l3 + 8 * j) e) q = frame_words v q"
  using page_words_disjoint [OF assms(2) table_writeD(10) [OF assms(1)], of _ j] table_writeD(4) [OF assms(1)] assms(3)
  by (auto simp: frame_words_def fun_eq_iff)

lemma seen_unwritten:
  assumes w: "table_write pool v H L a i l3 j" and b: "(b, Pg i' j') \<in> L" "(b, i', j') \<noteq> (a, i, j)"
  shows "seen (wr64 v (l3 + 8 * j) e) b i' j' = seen v b i' j'"
proof -
  note w' = table_writeD [OF w]
  have f: "frame_of (wr64 v (l3 + 8 * j) e) b (Pg i' j') = frame_of v b (Pg i' j')"
    using b(2) by (intro frame_unwritten [OF w b(1)]) auto
  show ?thesis
  proof (cases "frame_of v b (Pg i' j')")
    case None
    then show ?thesis using f by (simp only: seen_def) simp
  next
    case (Some pa)
    have "entry (wr64 v (l3 + 8 * j) e) b i' j' = entry v b i' j'"
      using entry_unwritten [OF w rootedD(1) [OF w'(5) b(1)] _ _ _ b(2)] Some by (auto split: if_splits)
    moreover have "frame_words (wr64 v (l3 + 8 * j) e) pa = frame_words v pa"
      using words_unwritten [OF w vm_ok_owner(3) [OF w'(1) b(1) Some]] other_frame [OF w b(1) Some] by simp
    ultimately show ?thesis unfolding seen_def f Some by simp
  qed
qed

lemma frames_unwritten:
  assumes w: "table_write pool v H L a i l3 j"
  shows "\<exists>xs. frames_ok pool (vm_pmem (wr64 v (l3 + 8 * j) e)) (vm_rc v) H xs"
proof -
  note w' = table_writeD [OF w]
  obtain xs where fr: "frames_ok pool (vm_pmem v) (vm_rc v) H xs" using vm_ok_frames [OF w'(1)] ..
  have "\<forall>x. ((mem (vm_pmem v))(l3 + 8 * j := unat e)) x \<noteq> mem (vm_pmem v) x \<longrightarrow> l3 \<le> x \<and> x < l3 + 4096"
    using w'(4) by auto
  from frames_poke [OF fr vm_ok_owner(1) [OF w'(1-3)] this] show ?thesis
    unfolding wr64_def set_pmem_simps by blast
qed

lemma exclusive_unwritten:
  assumes w: "table_write pool v H L a i l3 j"
    and b: "(b, r) \<in> L" "frame_of v b r = Some q" "(b, r) \<noteq> (a, Pg i j)"
  shows "exclusive (wr64 v (l3 + 8 * j) e) b r = exclusive v b r"
proof (cases r)
  case (Pg i' j')
  then show ?thesis
    using entry_unwritten [OF w rootedD(1) [OF table_writeD(5) [OF w]], of b i' j'] b by (auto split: if_splits)
qed simp_all

lemma frame_written:
  "table_write pool v H L a i l3 j \<Longrightarrow>
   frame_of (wr64 v (l3 + 8 * j) e) a (Pg i j) = (if has e DESC_VALID then Some (desc_pa e) else None)"
  using entry_written [of pool v H L a i l3 j e] table_writeD [of pool v H L a i l3 j] by auto

text \<open>The rest of the invariant, given the references to \<open>e\<close>.\<close>

lemma vm_ok_written:
  fixes e :: u64
  assumes w: "table_write pool v H L a i l3 j"
  defines "v' \<equiv> wr64 v (l3 + 8 * j) e"
  assumes le: "\<And>pa. card (refs_to v' L pa) \<le> H pa"
    and new: "\<And>pa. (a, Pg i j) \<in> L \<Longrightarrow> has e DESC_VALID \<Longrightarrow> pa = desc_pa e \<Longrightarrow> plain e \<and>
      (ap_field e = DESC_AP_RW_EL0 \<longrightarrow> H pa = 1) \<and>
      (\<forall>i' j'. (a, Pg i' j') \<in> L \<longrightarrow> (i', j') \<noteq> (i, j) \<longrightarrow> frame_of v a (Pg i' j') \<noteq> Some pa)"
  shows "vm_ok pool v' H L"
proof -
  note w' = table_writeD [OF w] and at = frame_written [OF w, of e, folded v'_def]
    and fs = frame_unwritten [OF w, of _ _ e, folded v'_def]
    and ew = entry_written [OF w, of e, folded v'_def]
  have R: "refs_ok v H L" using w'(1) by (simp add: vm_ok_def)
  have "refs_ok v' H L" unfolding refs_ok_def
  proof (intro conjI allI impI; (elim conjE)?)
    show "card (refs_to v' L pa) \<le> H pa" for pa by (rule le)
  next
    fix b r pa assume h: "(b, r) \<in> L" "frame_of v' b r = Some pa" "exclusive v' b r"
    show "H pa = 1"
    proof (cases "(b, r) = (a, Pg i j)")
      case True
      then show ?thesis using h new [of pa] at by (auto simp: ew split: if_splits)
    next
      case False
      then have f: "frame_of v b r = Some pa" using fs [OF h(1)] h(2) by simp
      then have "exclusive v b r" using exclusive_unwritten [OF w h(1) f False] h(3) by (simp add: v'_def)
      then show ?thesis using vm_ok_one [OF w'(1) h(1) f] by simp
    qed
  next
    fix b i1 j1 i2 j2 pa
    assume h: "(b, Pg i1 j1) \<in> L" "(b, Pg i2 j2) \<in> L" "frame_of v' b (Pg i1 j1) = Some pa"
      "frame_of v' b (Pg i2 j2) = Some pa"
    have dup: False if "(a, Pg k1 l1) \<in> L" "frame_of v' a (Pg k1 l1) = Some pa" "(a, Pg i j) \<in> L"
      "frame_of v' a (Pg i j) = Some pa" "(k1, l1) \<noteq> (i, j)" for k1 l1
      using new [OF that(3), of pa] that fs [OF that(1)] at by (auto split: if_splits)
    consider "(b, i1, j1) = (a, i, j)" | "(b, i2, j2) = (a, i, j)"
      | "(b, Pg i1 j1) \<noteq> (a, Pg i j)" "(b, Pg i2 j2) \<noteq> (a, Pg i j)" by auto
    then have "i1 = i2 \<and> j1 = j2"
    proof cases
      case 3
      then have "frame_of v b (Pg i1 j1) = Some pa" "frame_of v b (Pg i2 j2) = Some pa"
        using fs h by metis+
      then show ?thesis using R h(1,2) unfolding refs_ok_def by blast
    qed (use dup h in blast)+
    then show "i1 = i2" "j1 = j2" by simp_all
  next
    fix b i' pa assume h: "(b, L3T i') \<in> L" "frame_of v' b (L3T i') = Some pa"
    then have f: "frame_of v b (L3T i') = Some pa" using fs [OF h(1)] by (simp del: frame_of.simps)
    then have "has (l2e v b i') DESC_TABLE" using R h(1) unfolding refs_ok_def by blast
    then show "has (l2e v' b i') DESC_TABLE"
      using l2e_written [OF w rootedD(2) [OF w'(5) h(1)], of i' e] f by (simp add: v'_def split: if_splits)
  next
    fix b i' j' pa assume h: "(b, Pg i' j') \<in> L" "frame_of v' b (Pg i' j') = Some pa"
    show "plain (entry v' b i' j')"
    proof (cases "(b, i', j') = (a, i, j)")
      case True
      then show ?thesis using new [of pa] h at by (auto simp: ew split: if_splits)
    next
      case False
      then have f: "frame_of v b (Pg i' j') = Some pa" using fs [OF h(1)] h(2) by auto
      then have "plain (entry v b i' j')" using R h(1) unfolding refs_ok_def by blast
      then show ?thesis
        using entry_unwritten [OF w rootedD(1) [OF w'(5) h(1)] _ _ _ False, of e] f
        by (simp add: v'_def split: if_splits)
    qed
  qed
  then show ?thesis using w'(1) frames_unwritten [OF w, of e] by (auto simp: vm_ok_def v'_def)
qed

end
