(* ===== verification/AddrSpaceSteps.thy ===== *)
theory AddrSpaceSteps
  imports AddrSpaceInv
begin

text \<open>
  The steps the operations on address spaces are made of, each with its effect on the owners of
  the frames and on what the spaces see: an entry cleared or filled, a table made, a space
  made or taken apart.
\<close>

declare frame_of.simps [simp del]

lemma frame_of_PgD:
  "frame_of v a (Pg i j) = Some pa \<Longrightarrow>
   spaces v a \<noteq> None \<and> i < 512 \<and> j < 512 \<and> has (entry v a i j) DESC_VALID \<and> desc_pa (entry v a i j) = pa"
  by (simp add: frame_of.simps split: if_splits)

lemma frame_of_L3D:
  "frame_of v a (L3T i) = Some pa \<Longrightarrow>
   spaces v a \<noteq> None \<and> i < 512 \<and> has (l2e v a i) DESC_VALID \<and> desc_pa (l2e v a i) = pa"
  by (simp add: frame_of.simps split: if_splits)

lemma frame_of_L2: "spaces v a \<noteq> None \<Longrightarrow> frame_of v a L2T = Some (l2_pa (asp v a))"
  by (simp add: frame_of.simps)

section \<open>Clearing and filling an entry\<close>

lemma clear_entry_ok:
  assumes w: "table_write pool v H L a i l3 j" and e: "\<not> has e DESC_VALID"
  defines "v' \<equiv> wr64 v (l3 + 8 * j) e"
  shows "vm_ok pool v' H L" "frame_of v' a (Pg i j) = None" "refs_to v' L pa = refs_to v L pa - {(a, Pg i j)}"
proof -
  note w' = table_writeD [OF w]
  show none: "frame_of v' a (Pg i j) = None" using frame_written [OF w, of e] e by (simp add: v'_def)
  have "frame_of v' b r = frame_of v b r" if "(b, r) \<in> L" "(b, r) \<noteq> (a, Pg i j)" for b r
    using frame_unwritten [OF w that] by (simp add: v'_def)
  note u = this
  show r: "refs_to v' L pa = refs_to v L pa - {(a, Pg i j)}" for pa
  proof (rule set_eqI)
    show "x \<in> refs_to v' L pa \<longleftrightarrow> x \<in> refs_to v L pa - {(a, Pg i j)}" for x
      using u [of "fst x" "snd x"] none by (cases "x = (a, Pg i j)") (auto simp: refs_to_def)
  qed
  have "card (refs_to v' L q) \<le> H q" for q
    using card_Diff1_le [of "refs_to v L q" "(a, Pg i j)"] vm_ok_refs(2) [OF w'(1), of q] unfolding r by simp
  then show "vm_ok pool v' H L"
    using vm_ok_written [OF w, of e] e by (simp add: v'_def)
qed

lemma set_entry_ok:
  assumes w: "table_write pool v H L a i l3 j" and none: "frame_of v a (Pg i j) = None"
    and e: "e = leaf pa rw x cow" "frame_addr pa" "\<not> (rw \<and> cow)" and spare: "card (refs_to v L pa) < H pa"
    and one: "rw \<Longrightarrow> H pa = 1"
    and fresh: "\<And>i' j'. (a, Pg i' j') \<in> L \<Longrightarrow> frame_of v a (Pg i' j') \<noteq> Some pa"
  defines "v' \<equiv> wr64 v (l3 + 8 * j) e"
  shows "vm_ok pool v' H L" "frame_of v' a (Pg i j) = Some pa"
    "seen v' a i j = Some (frame_words v pa, rw \<or> cow, x)"
    "refs_to v' L q \<subseteq> refs_to v L q \<union> (if q = pa then {(a, Pg i j)} else {})"
proof -
  note w' = table_writeD [OF w]
  note f = leaf_fields [OF e(2), of rw x cow, folded e(1)]
  show at: "frame_of v' a (Pg i j) = Some pa" using frame_written [OF w, of e] f by (simp add: v'_def)
  have u: "frame_of v' b r = frame_of v b r" if "(b, r) \<in> L" "(b, r) \<noteq> (a, Pg i j)" for b r
    using frame_unwritten [OF w that] by (simp add: v'_def)
  show r: "refs_to v' L q \<subseteq> refs_to v L q \<union> (if q = pa then {(a, Pg i j)} else {})" for q
  proof
    show "y \<in> refs_to v L q \<union> (if q = pa then {(a, Pg i j)} else {})" if "y \<in> refs_to v' L q" for y
      using u [of "fst y" "snd y"] at that by (cases "y = (a, Pg i j)") (auto simp: refs_to_def)
  qed
  have "card (refs_to v' L q) \<le> H q" for q
  proof -
    have "card (refs_to v' L q) \<le> card (refs_to v L q \<union> (if q = pa then {(a, Pg i j)} else {}))"
      using r vm_ok_refs(1) [OF w'(1), of q] by (intro card_mono) auto
    also have "\<dots> \<le> card (refs_to v L q) + (if q = pa then 1 else 0)"
      using card_insert_le_m1 [of 1] by (simp add: card_insert_if vm_ok_refs(1) [OF w'(1)])
    finally show ?thesis using vm_ok_refs(2) [OF w'(1), of q] spare by (cases "q = pa") simp_all
  qed
  then show "vm_ok pool v' H L"
    unfolding v'_def
    by (rule vm_ok_written [OF w]) (use f one fresh e(3) in \<open>auto simp: v'_def plain_def split: if_splits\<close>)
  have "pa \<noteq> l3"
  proof
    assume "pa = l3"
    then have "(a, L3T i) \<in> refs_to v L pa" using w' by (simp add: refs_to_def)
    then have "1 \<le> card (refs_to v L pa)" using vm_ok_refs(1) [OF w'(1), of pa] card_gt_0_iff by (metis One_nat_def Suc_leI empty_iff)
    moreover have "H pa = 1" using vm_ok_one [OF w'(1-3)] \<open>pa = l3\<close> by simp
    ultimately show False using spare by simp
  qed
  then have "frame_words v' pa = frame_words v pa" using words_unwritten [OF w e(2)] by (simp add: v'_def)
  moreover have "entry v' a i j = e" using entry_written [OF w] by (simp add: v'_def)
  ultimately show "seen v' a i j = Some (frame_words v pa, rw \<or> cow, x)"
    unfolding seen_def at using f by (auto simp: may_write_def)
qed

text \<open>Memory changes within a page that its process may write now.\<close>

lemma poke_frame_ok:
  assumes ok: "vm_ok pool v H L" and p: "(a, Pg i j) \<in> L" "frame_of v a (Pg i j) = Some pa"
    "ap_field (entry v a i j) = DESC_AP_RW_EL0" and m: "\<forall>x. m x \<noteq> mem (vm_pmem v) x \<longrightarrow> pa \<le> x \<and> x < pa + 4096"
  defines "v' \<equiv> set_pmem v ((vm_pmem v)\<lparr>mem := m\<rparr>)"
  shows "vm_ok pool v' H L" "frame_of v' a (Pg i j) = Some pa" "entry v' a i j = entry v a i j"
    "agree v v' (L - {(a, Pg i j)})"
proof -
  let ?L = "L - {(a, Pg i j)}"
  note fa = vm_ok_owner(3) [OF ok p(1,2)] and rt = vm_ok_refs(3) [OF ok]
  have rt': "rooted ?L" using rt by (auto simp: rooted_def)
  have ex: "q \<noteq> pa" if "(b, r) \<in> ?L" "frame_of v b r = Some q" for b r q
    using vm_ok_exclusive [OF ok p(1,2), of b r] p(3) that by auto
  have "mem (vm_pmem v') (q + 8 * l) = mem (vm_pmem v) (q + 8 * l)"
    if h: "(b, r) \<in> ?L" "frame_of v b r = Some q" "l < 512" for b r q l
    using page_range_disjoint [OF fa vm_ok_owner(3) [OF ok _ h(2)] _ h(3)] ex [OF h(1,2)] h m by (auto simp: v'_def)
  then show ag: "agree v v' ?L" unfolding agree_def by blast
  have sr: "same_roots v v'" by (simp add: v'_def)
  have sp: "spaces v a \<noteq> None" "i < 512" "j < 512" using frame_of_PgD [OF p(2)] by simp_all
  have l3: "(a, L3T i) \<in> ?L" using rootedD(1) [OF rt p(1)] by simp
  show e: "entry v' a i j = entry v a i j" by (rule entry_agree [OF ag sr rt' l3 sp])
  then show f: "frame_of v' a (Pg i j) = Some pa" using p(2) by (simp add: v'_def frame_of.simps split: if_splits)
  have fr: "frame_of v' b r = frame_of v b r" if "(b, r) \<in> L" for b r
    using frame_of_agree [OF ag sr rt', of b r] that f p(2) by (cases "(b, r) = (a, Pg i j)") auto
  obtain xs where x: "frames_ok pool (vm_pmem v) (vm_rc v) H xs" using vm_ok_frames [OF ok] ..
  from frames_poke [OF x vm_ok_owner(1) [OF ok p(1,2)] m]
  have x': "frames_ok pool (vm_pmem v') (vm_rc v') H xs" unfolding v'_def set_pmem_simps .
  have ent: "entry v' b i' j' = entry v b i' j'" if "(b, Pg i' j') \<in> L" "frame_of v b (Pg i' j') = Some q" for b i' j' q
    using frame_of_PgD [OF that(2)] entry_agree [OF ag sr rt', of b i' j'] rootedD(1) [OF rt that(1)] by simp
  have l2: "l2e v' b i' = l2e v b i'" if "(b, L3T i') \<in> L" "frame_of v b (L3T i') = Some q" for b i' q
    using frame_of_L3D [OF that(2)] l2e_agree [OF ag sr, of b i'] rootedD(2) [OF rt that(1)] by simp
  have R: "refs_ok v H L" using ok by (simp add: vm_ok_def)
  have "exclusive v' b r = exclusive v b r" if "(b, r) \<in> L" "frame_of v b r = Some q" for b r q
    using ent that by (cases r) auto
  then have "refs_ok v' H L" unfolding refs_ok_def refs_to_def
    using R [unfolded refs_ok_def refs_to_def] fr ent l2 by (auto cong: conj_cong)
  then show "vm_ok pool v' H L" using ok x' by (auto simp: vm_ok_def v'_def)
qed

text \<open>A user process stores a word into such a page.\<close>

lemma store_word_ok:
  fixes w :: u64
  assumes ok: "vm_ok pool v H L" and p: "(a, Pg i j) \<in> L" "frame_of v a (Pg i j) = Some pa"
    "ap_field (entry v a i j) = DESC_AP_RW_EL0" and k: "k < 512"
  defines "v' \<equiv> wr64 v (pa + 8 * k) w"
  shows "vm_ok pool v' H L" "frame_of v' a (Pg i j) = Some pa" "entry v' a i j = entry v a i j"
    "frame_words v' pa = (frame_words v pa)(k := w)"
    "agree v v' (L - {(a, Pg i j)})"
proof -
  have "\<forall>x. ((mem (vm_pmem v))(pa + 8 * k := unat w)) x \<noteq> mem (vm_pmem v) x \<longrightarrow> pa \<le> x \<and> x < pa + 4096"
    using k by auto
  note f = poke_frame_ok [OF ok p this, folded wr64_def, folded v'_def]
  show "vm_ok pool v' H L" "frame_of v' a (Pg i j) = Some pa" "entry v' a i j = entry v a i j"
    "agree v v' (L - {(a, Pg i j)})" by (fact f)+
  show "frame_words v' pa = (frame_words v pa)(k := w)" using k by (auto simp: frame_words_def v'_def fun_eq_iff)
qed

section \<open>Making a table\<close>

lemma refs_emptyD: "refs_to v L pa = {} \<Longrightarrow> (b, r) \<in> L \<Longrightarrow> frame_of v b r \<noteq> Some pa"
  by (auto simp: refs_to_def)

text \<open>An empty table goes into entry \<open>i\<close> of the second table of space \<open>a\<close>.\<close>

lemma l2_write_ok:
  assumes ok: "vm_ok pool v H L" and a: "(a, L2T) \<in> L" "spaces v a \<noteq> None" "i < 512" "frame_of v a (L3T i) = None"
    and l3: "H l3 = 1" "refs_to v L l3 = {}" "frame_addr l3" "frame_words v l3 = (\<lambda>_. 0)"
  defines "v' \<equiv> wr64 v (l2_pa (asp v a) + 8 * i) (page_bits l3 OR DESC_VALID OR DESC_TABLE)"
  shows "vm_ok pool v' H L" "frame_of v' a (L3T i) = Some l3"
    "\<And>b i' j'. (b, L3T i') \<in> L \<Longrightarrow> spaces v b \<noteq> None \<Longrightarrow> i' < 512 \<Longrightarrow> j' < 512 \<Longrightarrow> entry v' b i' j' = entry v b i' j'"
    "\<And>b r. (b, r) \<in> L \<Longrightarrow> (b, r) \<noteq> (a, L3T i) \<Longrightarrow> frame_of v' b r = frame_of v b r"
    "\<And>q. frame_addr q \<Longrightarrow> q \<noteq> l2_pa (asp v a) \<Longrightarrow> frame_words v' q = frame_words v q"
proof -
  note rt = vm_ok_refs(3) [OF ok] and t = table_desc [OF l3(3)]
  have fa: "frame_of v a L2T = Some (l2_pa (asp v a))" using a by (simp add: frame_of_L2)
  note fl2 = vm_ok_owner(3) [OF ok a(1) fa]
  have other: "q \<noteq> l2_pa (asp v a)" if "(b, r) \<in> L" "frame_of v b r = Some q" "(b, r) \<noteq> (a, L2T)" for b r q
    using vm_ok_exclusive [OF ok a(1) fa _ that(1)] that(2,3) by auto
  have sp: "spaces v' b = spaces v b" "asp v' b = asp v b" for b by (simp_all add: v'_def)
  show words: "frame_words v' q = frame_words v q" if "frame_addr q" "q \<noteq> l2_pa (asp v a)" for q
    using page_words_disjoint [OF that(1) fl2, of _ i] a(3) that(2) by (auto simp: frame_words_def v'_def fun_eq_iff)
  have l2: "l2e v' b i' = (if (b, i') = (a, i) then page_bits l3 OR DESC_VALID OR DESC_TABLE else l2e v b i')"
    if b: "(b, L2T) \<in> L" "spaces v b \<noteq> None" "i' < 512" for b i'
    using page_words_disjoint [OF vm_ok_owner(3) [OF ok b(1) frame_of_L2 [OF b(2)]] fl2, of i' i]
      other [OF b(1) frame_of_L2 [OF b(2)]] a(3) b(3) by (auto simp: l2e_def v'_def)
  have inv: "\<not> has (l2e v a i) DESC_VALID" using a(2-4) by (simp add: frame_of.simps split: if_splits)
  have "l3 \<noteq> l2_pa (asp v a)" using refs_emptyD [OF l3(2) a(1)] fa by auto
  then have z: "rd64 v' (l3 + 8 * j') = 0" if "j' < 512" for j'
    using fun_cong [OF l3(4), of j'] fun_cong [OF words [OF l3(3)], of j'] that by (simp add: frame_words_def)
  show ent: "entry v' b i' j' = entry v b i' j'"
    if b: "(b, L3T i') \<in> L" "spaces v b \<noteq> None" "i' < 512" "j' < 512" for b i' j'
  proof (cases "(b, i') = (a, i)")
    case True
    then show ?thesis using l2 [OF rootedD(2) [OF rt b(1)] b(2,3)] inv t z [OF b(4)] by (simp add: entry_def)
  next
    case False
    then have e: "l2e v' b i' = l2e v b i'" using l2 [OF rootedD(2) [OF rt b(1)] b(2,3)] by auto
    show ?thesis
    proof (cases "has (l2e v b i') DESC_VALID")
      case True
      then have f: "frame_of v b (L3T i') = Some (desc_pa (l2e v b i'))" using b by (simp add: frame_of.simps)
      have "frame_words v' (desc_pa (l2e v b i')) j' = frame_words v (desc_pa (l2e v b i')) j'"
        using words [OF vm_ok_owner(3) [OF ok b(1) f]] other [OF b(1) f] by simp
      then show ?thesis using b(4) by (simp add: entry_def e frame_words_def)
    qed (simp add: entry_def e)
  qed
  show fr: "frame_of v' b r = frame_of v b r" if "(b, r) \<in> L" "(b, r) \<noteq> (a, L3T i)" for b r
  proof (cases "spaces v b = None")
    case True
    then show ?thesis by (cases r) (simp_all add: frame_of.simps sp)
  next
    case False
    then show ?thesis using that l2 [of b] ent [of b] rootedD [OF rt]
      by (cases r) (auto simp: frame_of.simps sp)
  qed
  show new: "frame_of v' a (L3T i) = Some l3"
    using l2 [OF a(1,2), of i] a t by (simp add: frame_of.simps sp)
  have refs: "refs_to v' L q \<subseteq> refs_to v L q \<union> (if q = l3 then {(a, L3T i)} else {})" for q
  proof
    show "y \<in> refs_to v L q \<union> (if q = l3 then {(a, L3T i)} else {})" if "y \<in> refs_to v' L q" for y
      using fr [of "fst y" "snd y"] new that by (cases "y = (a, L3T i)") (auto simp: refs_to_def)
  qed
  have le: "card (refs_to v' L q) \<le> H q" for q
  proof (cases "q = l3")
    case True
    then have "refs_to v' L q \<subseteq> {(a, L3T i)}" using refs [of q] l3(2) by simp
    from card_mono [OF _ this] show ?thesis using l3(1) True by simp
  next
    case False
    then have "refs_to v' L q \<subseteq> refs_to v L q" using refs [of q] by simp
    from card_mono [OF vm_ok_refs(1) [OF ok] this] show ?thesis using vm_ok_refs(2) [OF ok, of q] by simp
  qed
  have R: "refs_ok v H L" using ok by (simp add: vm_ok_def)
  have pg: "frame_of v' b (Pg i' j') = frame_of v b (Pg i' j')" if "(b, Pg i' j') \<in> L" for b i' j'
    using fr that by blast
  have ent': "entry v' b i' j' = entry v b i' j'" if "(b, Pg i' j') \<in> L" "frame_of v b (Pg i' j') = Some q" for b i' j' q
    using ent [OF rootedD(1) [OF rt that(1)]] frame_of_PgD [OF that(2)] by blast
  have "refs_ok v' H L" unfolding refs_ok_def
  proof (intro conjI allI impI; (elim conjE)?)
    show "card (refs_to v' L q) \<le> H q" for q by (rule le)
  next
    fix b r q assume h: "(b, r) \<in> L" "frame_of v' b r = Some q" "exclusive v' b r"
    show "H q = 1"
    proof (cases "(b, r) = (a, L3T i)")
      case True
      then show ?thesis using h new l3(1) by auto
    next
      case False
      then have f: "frame_of v b r = Some q" using fr h by simp
      then have "exclusive v b r" using h ent' by (cases r) auto
      then show ?thesis using vm_ok_one [OF ok h(1) f] by simp
    qed
  next
    fix b i1 j1 i2 j2 q
    assume "(b, Pg i1 j1) \<in> L" "(b, Pg i2 j2) \<in> L" "frame_of v' b (Pg i1 j1) = Some q"
      "frame_of v' b (Pg i2 j2) = Some q"
    then have "i1 = i2 \<and> j1 = j2" using R pg unfolding refs_ok_def by metis
    then show "i1 = i2" "j1 = j2" by simp_all
  next
    fix b i' q assume h: "(b, L3T i') \<in> L" "frame_of v' b (L3T i') = Some q"
    show "has (l2e v' b i') DESC_TABLE"
    proof (cases "(b, i') = (a, i)")
      case True
      then show ?thesis using l2 [OF a(1,2), of i] a t by simp
    next
      case False
      then have f: "frame_of v b (L3T i') = Some q" using fr [OF h(1)] h(2) by auto
      then have "has (l2e v b i') DESC_TABLE" using R h(1) unfolding refs_ok_def by blast
      then show ?thesis using l2 [OF rootedD(2) [OF rt h(1)]] frame_of_L3D [OF f] False by auto
    qed
  next
    fix b i' j' q assume h: "(b, Pg i' j') \<in> L" "frame_of v' b (Pg i' j') = Some q"
    then have f: "frame_of v b (Pg i' j') = Some q" using pg by simp
    then have "plain (entry v b i' j')" using R h(1) unfolding refs_ok_def by blast
    then show "plain (entry v' b i' j')" using ent' [OF h(1) f] by simp
  qed
  moreover have "\<exists>xs. frames_ok pool (vm_pmem v') (vm_rc v') H xs"
  proof -
    obtain xs where x: "frames_ok pool (vm_pmem v) (vm_rc v) H xs" using vm_ok_frames [OF ok] ..
    let ?p = "l2_pa (asp v a)"
    let ?w = "unat (page_bits l3 OR DESC_VALID OR DESC_TABLE)"
    have "\<forall>x. ((mem (vm_pmem v))(?p + 8 * i := ?w)) x \<noteq> mem (vm_pmem v) x \<longrightarrow> ?p \<le> x \<and> x < ?p + 4096"
      using a(3) by auto
    from frames_poke [OF x vm_ok_owner(1) [OF ok a(1) fa] this]
    show ?thesis unfolding v'_def wr64_def set_pmem_simps by blast
  qed
  ultimately show "vm_ok pool v' H L" using ok by (auto simp: vm_ok_def v'_def)
qed

text \<open>
  A step that only takes frames: what every space sees is as it was, and the owned frames keep
  their owners, their references and, where no reference names them, their contents.
\<close>

definition quiet_vm :: "(nat \<times> tref) set \<Rightarrow> vm \<Rightarrow> (nat \<Rightarrow> nat) \<Rightarrow> vm \<Rightarrow> (nat \<Rightarrow> nat) \<Rightarrow> bool" where
  "quiet_vm L v H v' H' \<longleftrightarrow> same_roots v v' \<and>
     (\<forall>b i j. (b, Pg i j) \<in> L \<longrightarrow> frame_of v' b (Pg i j) = frame_of v b (Pg i j) \<and> seen v' b i j = seen v b i j) \<and>
     (\<forall>b i j. (b, L3T i) \<in> L \<and> spaces v b \<noteq> None \<and> i < 512 \<and> j < 512 \<longrightarrow> entry v' b i j = entry v b i j) \<and>
     (\<forall>b i q. (b, L3T i) \<in> L \<and> frame_of v b (L3T i) = Some q \<longrightarrow> frame_of v' b (L3T i) = Some q) \<and>
     (\<forall>q. 1 \<le> H q \<longrightarrow> H' q = H q \<and> refs_to v' L q = refs_to v L q \<and>
        (refs_to v L q = {} \<and> frame_addr q \<longrightarrow> frame_words v' q = frame_words v q))"

lemma quiet_vmD:
  assumes "quiet_vm L v H v' H'"
  shows "same_roots v v'"
    "(b, Pg i j) \<in> L \<Longrightarrow> frame_of v' b (Pg i j) = frame_of v b (Pg i j)"
    "(b, Pg i j) \<in> L \<Longrightarrow> seen v' b i j = seen v b i j"
    "(b, L3T i) \<in> L \<Longrightarrow> spaces v b \<noteq> None \<Longrightarrow> i < 512 \<Longrightarrow> j < 512 \<Longrightarrow> entry v' b i j = entry v b i j"
    "(b, L3T i) \<in> L \<Longrightarrow> frame_of v b (L3T i) = Some q \<Longrightarrow> frame_of v' b (L3T i) = Some q"
    "1 \<le> H q \<Longrightarrow> H' q = H q" "1 \<le> H q \<Longrightarrow> refs_to v' L q = refs_to v L q"
    "1 \<le> H q \<Longrightarrow> refs_to v L q = {} \<Longrightarrow> frame_addr q \<Longrightarrow> frame_words v' q = frame_words v q"
  using assms unfolding quiet_vm_def by blast+

lemma quiet_vm_refl [simp]: "quiet_vm L v H v H"
  by (simp add: quiet_vm_def)

lemma quiet_vm_trans:
  assumes "quiet_vm L u G v H" "quiet_vm L v H w K"
  shows "quiet_vm L u G w K"
proof -
  have sp: "spaces v b \<noteq> None" if "spaces u b \<noteq> None" for b
    using quiet_vmD(1) [OF assms(1)] that by (simp add: same_roots_def)
  show ?thesis unfolding quiet_vm_def
  proof (intro conjI allI impI; (elim conjE)?)
    show "same_roots u w" by (rule same_roots_trans [OF quiet_vmD(1) [OF assms(1)] quiet_vmD(1) [OF assms(2)]])
  qed (use quiet_vmD(2-8) [OF assms(1)] quiet_vmD(2-8) [OF assms(2)] sp in metis)+
qed

lemma quiet_agree:
  assumes "rooted L" "agree v v' L" "same_roots v v'" "\<And>q. 1 \<le> H q \<Longrightarrow> H' q = H q"
    and "\<And>q. 1 \<le> H q \<Longrightarrow> refs_to v L q = {} \<Longrightarrow> frame_addr q \<Longrightarrow> frame_words v' q = frame_words v q"
  shows "quiet_vm L v H v' H'"
  unfolding quiet_vm_def
proof (intro conjI allI impI; (elim conjE)?)
  show "refs_to v' L q = refs_to v L q" for q by (rule refs_agree [OF assms(2,3,1)])
  show "seen v' b i j = seen v b i j" if "(b, Pg i j) \<in> L" for b i j
    by (rule seen_agree [OF assms(2,3,1) that])
  show "entry v' b i j = entry v b i j" if "(b, L3T i) \<in> L" "spaces v b \<noteq> None" "i < 512" "j < 512" for b i j
    by (rule entry_agree [OF assms(2,3,1) that])
qed (use assms frame_of_agree [OF assms(2,3,1)] in auto)

lemma alloc_quiet:
  assumes "vm_ok pool v H L" "vm_alloc_page v = (v', pa)" "pa \<noteq> 0"
  shows "quiet_vm L v H v' (H(pa := 1))"
proof -
  note al = alloc_page_ok [OF assms]
  show ?thesis
  proof (rule quiet_agree [OF vm_ok_refs(3) [OF assms(1)] al(2)])
    fix q assume "1 \<le> H q"
    then have ne: "q \<noteq> pa" using al(3) by auto
    then show "(H(pa := 1)) q = H q" by simp
    show "frame_words v' q = frame_words v q" if "frame_addr q" by (rule al(12) [OF that ne])
  qed (simp add: al(9))
qed

definition whole :: "(nat \<times> tref) set \<Rightarrow> nat \<Rightarrow> bool" where
  "whole L a \<longleftrightarrow> (\<forall>r. (a, r) \<in> L)"

lemma wholeD [simp]: "whole L a \<Longrightarrow> (a, r) \<in> L"
  by (simp add: whole_def)

lemma l3_for_ok:
  assumes ok: "vm_ok pool v H L" and a: "whole L a" "spaces v a \<noteq> None" and l: "l3_for v a va = (v', l3)"
  obtains H' where "vm_ok pool v' H' L" "quiet_vm L v H v' H'" "spaces v' = spaces v" "vm_kern v' = vm_kern v"
    "vm_rc v' = vm_rc v" "l3 = 0 \<Longrightarrow> v' = v \<and> H' = H"
    "\<And>j. l3 \<noteq> 0 \<Longrightarrow> j < 512 \<Longrightarrow> table_write pool v' H' L a (L2_INDEX va) l3 j"
    "\<And>q. H' q \<noteq> H q \<Longrightarrow> H q = 0 \<and> H' q = 1 \<and> refs_to v' L q = {(a, L3T (L2_INDEX va))}"
proof -
  let ?i = "L2_INDEX va"
  have i: "?i < 512" by (simp add: L2_INDEX_def)
  let ?e = "l2e v a ?i"
  have l': "l3_for v a va = (if has ?e DESC_VALID then (v, desc_pa ?e)
      else let (v1, l3) = vm_alloc_page v in
           if l3 = 0 then (v1, 0)
           else (wr64 v1 (l2_pa (asp v a) + 8 * ?i) (page_bits l3 OR DESC_VALID OR DESC_TABLE), l3))"
    by (simp add: l3_for_def l2e_def Let_def)
  show thesis
  proof (cases "has ?e DESC_VALID")
    case True
    then have "l3_for v a va = (v, desc_pa ?e)" unfolding l' by simp
    then have "v' = v" "l3 = desc_pa ?e" using l by (metis prod.inject)+
    moreover from this(2) have "frame_of v a (L3T ?i) = Some l3" using True a i by (simp add: frame_of.simps)
    ultimately have "frame_of v a (L3T ?i) = Some l3" "v' = v" by blast+
    then show thesis using vm_ok_owner(4) [OF ok, of a "L3T ?i"] a ok
      by (intro that [of H]) (auto simp: table_write_def page_ok_def)
  next
    case False
    then have none: "frame_of v a (L3T ?i) = None" by (simp add: frame_of.simps)
    obtain v1 p where al: "vm_alloc_page v = (v1, p)" by fastforce
    show thesis
    proof (cases "p = 0")
      case True
      then have "v' = v" "l3 = 0" using l l' False al alloc_page_fails [of v v1 pool H L] ok by auto
      then show thesis using ok by (intro that [of H]) auto
    next
      case p: False
      then have v': "l3 = p" "v' = wr64 v1 (l2_pa (asp v a) + 8 * ?i) (page_bits p OR DESC_VALID OR DESC_TABLE)"
        using l l' False al by auto
      note al' = alloc_page_ok [OF ok al p]
      have asp: "asp v1 a = asp v a" using al'(9) by (simp add: asp_def)
      have none': "frame_of v1 a (L3T ?i) = None"
        using frame_of_agree [OF al'(2) _ vm_ok_refs(3) [OF ok], of a "L3T ?i"] none a al'(9) by simp
      have sp1: "spaces v1 a \<noteq> None" using a al'(9) by simp
      note w = l2_write_ok [OF al'(1) wholeD [OF a(1)] sp1 i none' _ al'(5,7,6), unfolded asp, folded v'(2)]
      have H1: "(H(p := 1)) p = 1" by simp
      note w = w [OF H1]
      have q1: "quiet_vm L v H v1 (H(p := 1))" by (rule alloc_quiet [OF ok al p])
      have sp: "spaces v' = spaces v" by (simp add: v' al'(9))
      have refs: "refs_to v' L q = refs_to v1 L q" if "q \<noteq> p" for q
      proof (rule set_eqI)
        show "x \<in> refs_to v' L q \<longleftrightarrow> x \<in> refs_to v1 L q" for x
          using w(2) none' w(4) [of "fst x" "snd x"] that by (cases "x = (a, L3T ?i)") (auto simp: refs_to_def)
      qed
      have refp: "refs_to v' L p = {(a, L3T ?i)}"
      proof (rule set_eqI)
        show "x \<in> refs_to v' L p \<longleftrightarrow> x \<in> {(a, L3T ?i)}" for x
          using w(2) a(1) w(4) [of "fst x" "snd x"] refs_emptyD [OF al'(5), of "fst x" "snd x"]
          by (cases "x = (a, L3T ?i)") (auto simp: refs_to_def)
      qed
      have l2: "frame_of v1 a L2T = Some (l2_pa (asp v a))" using sp1 asp by (simp add: frame_of_L2)
      have pg: "frame_of v' b (Pg i' j') = frame_of v1 b (Pg i' j')" if "(b, Pg i' j') \<in> L" for b i' j'
        using w(4) [OF that] by simp
      have seen: "seen v' b i' j' = seen v1 b i' j'" if b: "(b, Pg i' j') \<in> L" for b i' j'
      proof (cases "frame_of v1 b (Pg i' j')")
        case None
        then show ?thesis using pg [OF b] by (simp add: seen_def)
      next
        case (Some q)
        have "entry v' b i' j' = entry v1 b i' j'"
          using w(3) [OF rootedD(1) [OF vm_ok_refs(3) [OF ok] b]] frame_of_PgD [OF Some] by blast
        moreover have "q \<noteq> l2_pa (asp v a)"
          using vm_ok_exclusive [OF al'(1) wholeD [OF a(1)] l2 _ b] Some by auto
        then have "frame_words v' q = frame_words v1 q"
          using w(5) vm_ok_owner(3) [OF al'(1) b Some] by simp
        ultimately show ?thesis using pg [OF b] Some by (simp add: seen_def)
      qed
      have words: "frame_words v' q = frame_words v1 q" if "refs_to v1 L q = {}" "frame_addr q" for q
        using w(5) [OF that(2)] refs_emptyD [OF that(1) wholeD [OF a(1)], of L2T] l2 by blast
      note d1 = quiet_vmD [OF q1]
      have "quiet_vm L v H v' (H(p := 1))" unfolding quiet_vm_def
      proof (intro conjI allI impI; (elim conjE)?)
        show "same_roots v v'" using sp by simp
        fix q assume q: "1 \<le> H q"
        then have ne: "q \<noteq> p" using al'(3) by auto
        then show "(H(p := 1)) q = H q" by simp
        show r: "refs_to v' L q = refs_to v L q" using refs [OF ne] d1(7) [OF q] by simp
        assume e: "refs_to v L q = {}" "frame_addr q"
        then show "frame_words v' q = frame_words v q"
          using d1(8) [OF q e] words [of q] d1(7) [OF q] by simp
      next
        fix b i' j' assume "(b, Pg i' j') \<in> L"
        then show "frame_of v' b (Pg i' j') = frame_of v b (Pg i' j')" "seen v' b i' j' = seen v b i' j'"
          using pg seen d1(2,3) by simp_all
      next
        fix b i' and j' :: nat assume "(b, L3T i') \<in> L" "spaces v b \<noteq> None" "i' < 512" "j' < 512"
        then show "entry v' b i' j' = entry v b i' j'" using w(3) [of b i' j'] d1(4) al'(9) by simp
      next
        fix b i' q assume b: "(b, L3T i') \<in> L" "frame_of v b (L3T i') = Some q"
        then show "frame_of v' b (L3T i') = Some q"
          using w(4) [OF b(1)] d1(5) [OF b] none by (cases "(b, i') = (a, ?i)") auto
      qed
      moreover have "table_write pool v' (H(p := 1)) L a ?i l3 j" if "j < 512" for j
        using w(1,2) a that v'(1) by (simp add: table_write_def)
      ultimately show thesis using w(1) sp al'(3,10,11) refp p v'(1)
        by (intro that [of "H(p := 1)"]) (auto simp: v'(2) split: if_splits)
    qed
  qed
qed

section \<open>Overwriting an entry\<close>

text \<open>
  What the spaces see and where their tables are, outside the entries of \<open>A\<close>.
\<close>

definition changes :: "(nat \<times> tref) set \<Rightarrow> (nat \<times> nat \<times> nat) set \<Rightarrow> vm \<Rightarrow> vm \<Rightarrow> bool" where
  "changes L A v v' \<longleftrightarrow> same_roots v v' \<and>
     (\<forall>b i j. (b, Pg i j) \<in> L \<and> (b, i, j) \<notin> A \<longrightarrow>
        frame_of v' b (Pg i j) = frame_of v b (Pg i j) \<and> seen v' b i j = seen v b i j) \<and>
     (\<forall>b i j. (b, L3T i) \<in> L \<and> spaces v b \<noteq> None \<and> i < 512 \<and> j < 512 \<and> (b, i, j) \<notin> A \<longrightarrow>
        entry v' b i j = entry v b i j) \<and>
     (\<forall>b i q. (b, L3T i) \<in> L \<and> frame_of v b (L3T i) = Some q \<longrightarrow> frame_of v' b (L3T i) = Some q)"

lemma changesD:
  assumes "changes L A v v'"
  shows "same_roots v v'"
    "(b, Pg i j) \<in> L \<Longrightarrow> (b, i, j) \<notin> A \<Longrightarrow> frame_of v' b (Pg i j) = frame_of v b (Pg i j)"
    "(b, Pg i j) \<in> L \<Longrightarrow> (b, i, j) \<notin> A \<Longrightarrow> seen v' b i j = seen v b i j"
    "(b, L3T i) \<in> L \<Longrightarrow> spaces v b \<noteq> None \<Longrightarrow> i < 512 \<Longrightarrow> j < 512 \<Longrightarrow> (b, i, j) \<notin> A \<Longrightarrow>
      entry v' b i j = entry v b i j"
    "(b, L3T i) \<in> L \<Longrightarrow> frame_of v b (L3T i) = Some q \<Longrightarrow> frame_of v' b (L3T i) = Some q"
  using assms unfolding changes_def by blast+

lemma same_roots_space: "same_roots v v' \<Longrightarrow> spaces v' b \<noteq> None \<longleftrightarrow> spaces v b \<noteq> None"
  by (simp add: same_roots_def del: not_None_eq)

lemma changes_refl [simp]: "changes L A v v"
  by (simp add: changes_def)

lemma changes_trans:
  assumes "changes L A u v" "changes L B v w"
  shows "changes L (A \<union> B) u w"
proof -
  have sp: "spaces v b \<noteq> None" if "spaces u b \<noteq> None" for b
    using same_roots_space [OF changesD(1) [OF assms(1)]] that by blast
  show ?thesis unfolding changes_def
  proof (intro conjI allI impI; (elim conjE)?)
    show "same_roots u w" by (rule same_roots_trans [OF changesD(1) [OF assms(1)] changesD(1) [OF assms(2)]])
  qed (use changesD(2-5) [OF assms(1)] changesD(2-5) [OF assms(2)] sp in \<open>metis UnI1 UnI2\<close>)+
qed

lemma changes_mono: "changes L A v v' \<Longrightarrow> A \<subseteq> B \<Longrightarrow> changes L B v v'"
  unfolding changes_def by blast

lemma quiet_changes: "quiet_vm L v H v' H' \<Longrightarrow> changes L {} v v'"
  unfolding quiet_vm_def changes_def by blast

lemma agree_changes:
  assumes "rooted L" "agree v v' L" "same_roots v v'"
  shows "changes L {} v v'"
  using quiet_changes [OF quiet_agree [OF assms, of "\<lambda>_. 0" "\<lambda>_. 0"]] by simp

lemma written_changes:
  assumes w: "table_write pool v H L a i l3 j"
  shows "changes L {(a, i, j)} v (wr64 v (l3 + 8 * j) e)"
  unfolding changes_def
proof (intro conjI allI impI; (elim conjE)?)
  fix b i' j' assume b: "(b, Pg i' j') \<in> L" "(b, i', j') \<notin> {(a, i, j)}"
  show "frame_of (wr64 v (l3 + 8 * j) e) b (Pg i' j') = frame_of v b (Pg i' j')"
    using b(2) by (intro frame_unwritten [OF w b(1)]) auto
  show "seen (wr64 v (l3 + 8 * j) e) b i' j' = seen v b i' j'"
    using b(2) by (intro seen_unwritten [OF w b(1)]) auto
next
  fix b i' and j' :: nat
  assume b: "(b, L3T i') \<in> L" "spaces v b \<noteq> None" "i' < 512" "j' < 512" "(b, i', j') \<notin> {(a, i, j)}"
  show "entry (wr64 v (l3 + 8 * j) e) b i' j' = entry v b i' j'"
    using b(5) by (intro entry_unwritten [OF w b(1-4)]) auto
next
  fix b i' q assume b: "(b, L3T i') \<in> L" "frame_of v b (L3T i') = Some q"
  then show "frame_of (wr64 v (l3 + 8 * j) e) b (L3T i') = Some q"
    using frame_unwritten [OF w b(1)] by simp
qed simp

lemma table_write_again:
  assumes w: "table_write pool v H L a i l3 j" and ok: "vm_ok pool v' H' L" and c: "changes L A v v'" and k: "k < 512"
  shows "table_write pool v' H' L a i l3 k"
  using changesD(5) [OF c table_writeD(2,3) [OF w]] table_writeD(2) [OF w] ok k by (simp add: table_write_def)

lemma overwrite_ok:
  assumes w: "table_write pool v H L a i l3 j" and L: "(a, Pg i j) \<in> L"
    and e: "e = leaf pa rw x cow" "frame_addr pa" "\<not> (rw \<and> cow)"
    and spare: "card (refs_to v L pa - {(a, Pg i j)}) < H pa" and one: "rw \<Longrightarrow> H pa = 1"
    and fresh: "\<And>i' j'. (a, Pg i' j') \<in> L \<Longrightarrow> (i', j') \<noteq> (i, j) \<Longrightarrow> frame_of v a (Pg i' j') \<noteq> Some pa"
  defines "v' \<equiv> wr64 v (l3 + 8 * j) e"
  shows "vm_ok pool v' H L" "frame_of v' a (Pg i j) = Some pa"
    "seen v' a i j = Some (frame_words v pa, rw \<or> cow, x)"
    "refs_to v' L q \<subseteq> (refs_to v L q - {(a, Pg i j)}) \<union> (if q = pa then {(a, Pg i j)} else {})"
    "entry v' a i j = e" "changes L {(a, i, j)} v v'"
proof -
  let ?c = "wr64 v (l3 + 8 * j) 0"
  note cl = clear_entry_ok [OF w invalid_words(1)]
  have wc: "table_write pool ?c H L a i l3 j"
    by (rule table_write_again [OF w cl(1) written_changes [OF w] table_writeD(4) [OF w]])
  have fr: "frame_of ?c a (Pg i' j') \<noteq> Some pa" if "(a, Pg i' j') \<in> L" for i' j'
    using fresh [OF that] cl(2) frame_unwritten [OF w that] by (cases "(i', j') = (i, j)") auto
  have "card (refs_to ?c L pa) < H pa" using spare by (simp add: cl(3))
  note s = set_entry_ok [OF wc cl(2) e this one fr, simplified, folded v'_def]
  show "vm_ok pool v' H L" "frame_of v' a (Pg i j) = Some pa" using s by simp_all
  show "refs_to v' L q \<subseteq> (refs_to v L q - {(a, Pg i j)}) \<union> (if q = pa then {(a, Pg i j)} else {})"
    using s(4) [of q] by (simp add: cl(3))
  show "entry v' a i j = e" unfolding v'_def by (rule entry_written [OF w])
  show "changes L {(a, i, j)} v v'" unfolding v'_def by (rule written_changes [OF w])
  have "pa \<noteq> l3"
  proof
    assume p: "pa = l3"
    then have "(a, L3T i) \<in> refs_to v L pa - {(a, Pg i j)}" using table_writeD [OF w] by (simp add: refs_to_def)
    then have "0 < card (refs_to v L pa - {(a, Pg i j)})"
      using vm_ok_refs(1) [OF table_writeD(1) [OF w], of pa] by (auto simp: card_gt_0_iff)
    moreover have "H pa = 1" using vm_ok_one [OF table_writeD(1-3) [OF w]] p by simp
    ultimately show False using spare by simp
  qed
  then have "frame_words ?c pa = frame_words v pa" by (rule words_unwritten [OF w e(2)])
  then show "seen v' a i j = Some (frame_words v pa, rw \<or> cow, x)" using s(3) by simp
qed

end
