(* ===== verification/AddrSpaceCow.thy ===== *)
theory AddrSpaceCow
  imports AddrSpaceSteps
begin

text \<open>
  Copy on write: a fault that is resolved changes nothing that any process sees, and leaves the
  page with one owner, the process that faulted.
\<close>

section \<open>Looking an entry up\<close>

lemma index_less [simp]: "L2_INDEX va < 512" "L3_INDEX va < 512"
  by (simp_all add: L2_INDEX_def L3_INDEX_def)

lemma lookup_Some:
  assumes "l3_entry_lookup v a va = Some p" "spaces v a \<noteq> None"
  obtains l3 where "frame_of v a (L3T (L2_INDEX va)) = Some l3" "p = l3 + 8 * L3_INDEX va"
    "rd64 v p = entry v a (L2_INDEX va) (L3_INDEX va)"
proof
  let ?e = "l2e v a (L2_INDEX va)"
  have e: "has ?e DESC_VALID" "p = desc_pa ?e + 8 * L3_INDEX va"
    using assms by (auto simp: l3_entry_lookup_def l2e_def Let_def split: if_splits)
  show "frame_of v a (L3T (L2_INDEX va)) = Some (desc_pa ?e)" using e assms(2) by (simp add: frame_of.simps)
  show "p = desc_pa ?e + 8 * L3_INDEX va" by (fact e)
  show "rd64 v p = entry v a (L2_INDEX va) (L3_INDEX va)" using e by (simp add: entry_def)
qed

lemma lookup_None:
  assumes "l3_entry_lookup v a va = None" "vm_ok pool v H L" "whole L a" "spaces v a \<noteq> None"
  shows "entry v a (L2_INDEX va) j = 0"
proof -
  let ?e = "l2e v a (L2_INDEX va)"
  have "\<not> has ?e DESC_VALID"
  proof
    assume v: "has ?e DESC_VALID"
    then have "frame_of v a (L3T (L2_INDEX va)) = Some (desc_pa ?e)" using assms(4) by (simp add: frame_of.simps)
    then have "has ?e DESC_TABLE" using assms(2,3) unfolding vm_ok_def refs_ok_def by (metis wholeD)
    then show False using v assms(1) by (simp add: l3_entry_lookup_def l2e_def Let_def)
  qed
  then show ?thesis by (simp add: entry_def)
qed

lemma entry_frame:
  "spaces v a \<noteq> None \<Longrightarrow> i < 512 \<Longrightarrow> j < 512 \<Longrightarrow> has (entry v a i j) DESC_VALID \<Longrightarrow>
   frame_of v a (Pg i j) = Some (desc_pa (entry v a i j))"
  by (simp add: frame_of.simps)

lemma entry_plain:
  assumes "vm_ok pool v H L" "(a, Pg i j) \<in> L" "frame_of v a (Pg i j) = Some pa"
  shows "plain (entry v a i j)"
  using assms unfolding vm_ok_def refs_ok_def by blast

lemma entry_page_once:
  assumes "vm_ok pool v H L" "(a, Pg i j) \<in> L" "frame_of v a (Pg i j) = Some pa"
    "(a, Pg i' j') \<in> L" "(i', j') \<noteq> (i, j)"
  shows "frame_of v a (Pg i' j') \<noteq> Some pa"
  using assms unfolding vm_ok_def refs_ok_def by blast

section \<open>The count of a frame\<close>

lemma vm_ok_count:
  assumes "vm_ok pool v H L" "(a, r) \<in> L" "frame_of v a r = Some pa"
  shows "count_ok (pmem_refcount_get (vm_rc v) pa) (H pa)"
  using vm_ok_owner(2) [OF assms] assms(1) by (auto simp: vm_ok_def frames_ok_def)

lemma untrack_ok:
  assumes ok: "vm_ok pool v H L" and pa: "pa \<in> pool" "H pa = 1" and one: "pmem_refcount_get (vm_rc v) pa = 1"
  shows "vm_ok pool (v\<lparr>vm_rc := fst (pmem_refcount_dec (vm_rc v) pa)\<rparr>) H L"
proof -
  obtain xs where fr: "frames_ok pool (vm_pmem v) (vm_rc v) H xs" using vm_ok_frames [OF ok] ..
  have rng: "pa_in_range (vm_rc v) pa" and rep: "pmem_rep (vm_pmem v) xs" "set xs = {q \<in> pool. H q = 0}"
    using fr pa by (auto simp: frames_ok_def)
  have "H(pa := 1) = H" using pa by auto
  then have "frames_ok pool (vm_pmem v) (fst (pmem_refcount_dec (vm_rc v) pa)) H xs"
    using frames_update [OF fr pa(1) dec_table [OF rng], of 1 "vm_pmem v" xs] rep one
    by (simp add: count_ok_def)
  then show ?thesis
    by (intro vm_ok_quiet [OF ok, where xs = xs]) (use vm_ok_refs(2) [OF ok] in simp_all)
qed

lemma dec_is_release:
  assumes "2 \<le> pmem_refcount_get (vm_rc v) pa" "pa \<noteq> 0"
  shows "v\<lparr>vm_rc := fst (pmem_refcount_dec (vm_rc v) pa)\<rparr> = vm_dec_and_free v pa"
  using assms by (simp add: vm_dec_and_free_def pmem_dec_and_free_def Let_def)

section \<open>The fault\<close>

text \<open>The resolution of a fault: what it leaves in the entry.\<close>

definition cow_resolved :: "nat set \<Rightarrow> (nat \<times> tref) set \<Rightarrow> vm \<Rightarrow> nat \<Rightarrow> nat \<Rightarrow> nat \<Rightarrow> vm \<Rightarrow> bool" where
  "cow_resolved pool L v a i j v' \<longleftrightarrow>
     (\<exists>H'. vm_ok pool v' H' L) \<and> changes L {(a, i, j)} v v' \<and> seen v' a i j = seen v a i j \<and>
     frame_of v' a (Pg i j) \<noteq> None \<and> ap_field (entry v' a i j) = DESC_AP_RW_EL0 \<and>
     spaces v' = spaces v \<and> vm_kern v' = vm_kern v"

lemma cow_sole_owner:
  assumes ok: "vm_ok pool v H L" and a: "whole L a" and w: "table_write pool v H L a i l3 j"
    and e: "frame_of v a (Pg i j) = Some pa" "may_write (entry v a i j)"
    and rc: "pmem_refcount_get (vm_rc v) pa \<le> 1"
  defines "v1 \<equiv> (if pmem_refcount_get (vm_rc v) pa = 1
                  then v\<lparr>vm_rc := fst (pmem_refcount_dec (vm_rc v) pa)\<rparr> else v)"
  shows "cow_resolved pool L v a i j (wr64 v1 (l3 + 8 * j) (leaf pa True (\<not> has (entry v a i j) DESC_UXN) False))"
proof -
  let ?x = "\<not> has (entry v a i j) DESC_UXN"
  note own = vm_ok_owner [OF ok wholeD [OF a] e(1)]
  have "\<not> 2 \<le> pmem_refcount_get (vm_rc v) pa" using rc by (auto simp: word_le_nat_alt)
  then have H: "H pa = 1" using count_okD(2) [OF vm_ok_count [OF ok wholeD [OF a] e(1)]] own(1) by simp
  have ok1: "vm_ok pool v1 H L" unfolding v1_def using ok untrack_ok [OF ok own(2) H] by simp
  have sp: "spaces v1 = spaces v" "vm_pmem v1 = vm_pmem v" "vm_kern v1 = vm_kern v" by (simp_all add: v1_def)
  have c1: "changes L {} v v1" by (rule agree_changes [OF vm_ok_refs(3) [OF ok]]) (simp_all add: sp)
  have w1: "table_write pool v1 H L a i l3 j"
    by (rule table_write_again [OF w ok1 c1 table_writeD(4) [OF w]])
  have "refs_to v1 L pa = refs_to v L pa"
    by (rule refs_agree [OF _ _ vm_ok_refs(3) [OF ok]]) (simp_all add: sp)
  moreover have "(a, Pg i j) \<in> refs_to v L pa" using e(1) a by (simp add: refs_to_def)
  ultimately have spare: "card (refs_to v1 L pa - {(a, Pg i j)}) < H pa"
    using vm_ok_refs(1,2) [OF ok, of pa] H by (metis card_Diff1_less le_neq_implies_less less_le_trans)
  have once: "frame_of v1 a (Pg i' j') \<noteq> Some pa" if "(i', j') \<noteq> (i, j)" for i' j'
    using entry_page_once [OF ok wholeD [OF a] e(1) wholeD [OF a] that] changesD(2) [OF c1 wholeD [OF a]] by simp
  have rw: "\<not> (True \<and> False)" by simp
  note o = overwrite_ok [OF w1 wholeD [OF a] refl own(3) rw spare H once, where x = ?x]
  have "frame_words v1 pa = frame_words v pa" by (simp add: frame_words_def rd64_def sp fun_eq_iff)
  moreover have "seen v a i j = Some (frame_words v pa, True, ?x)" using e by (simp add: seen_def)
  ultimately show ?thesis
    using o changes_trans [OF c1 o(6)] leaf_fields(7) [OF own(3)] sp by (auto simp: cow_resolved_def)
qed

lemma cow_copy:
  assumes ok: "vm_ok pool v H L" and a: "whole L a" and w: "table_write pool v H L a i l3 j"
    and e: "frame_of v a (Pg i j) = Some old" "may_write (entry v a i j)"
    and rc: "\<not> pmem_refcount_get (vm_rc v) old \<le> 1" and al: "vm_alloc_page v = (v1, new)" "new \<noteq> 0"
  defines "v2 \<equiv> wr64 (copy_page v1 new old) (l3 + 8 * j) (leaf new True (\<not> has (entry v a i j) DESC_UXN) False)"
  shows "cow_resolved pool L v a i j (v2\<lparr>vm_rc := fst (pmem_refcount_dec (vm_rc v2) old)\<rparr>)"
proof -
  let ?x = "\<not> has (entry v a i j) DESC_UXN"
  note rt = vm_ok_refs(3) [OF ok] and own = vm_ok_owner [OF ok wholeD [OF a] e(1)]
  note al' = alloc_page_ok [OF ok al]
  let ?G = "H(new := 1)"
  have ne: "old \<noteq> new" using al'(3) own(1) by auto
  have rc2: "2 \<le> pmem_refcount_get (vm_rc v) old" using rc by (auto simp: word_le_nat_alt)
  then have H2: "2 \<le> H old"
    using count_okD(1) [OF vm_ok_count [OF ok wholeD [OF a] e(1)]] by (simp add: word_le_nat_alt)
  define u where "u = copy_page v1 new old"
  have G: "1 \<le> ?G new" "?G new = 1" by simp_all
  note cp = copy_page_ok [OF al'(1) G(1) al'(7) own(3) ne [symmetric] al'(5), folded u_def]
  have ag: "agree v u L" by (rule agree_trans [OF al'(2) cp(2) _ rt]) (simp add: al'(9))
  have sp: "spaces u = spaces v" "vm_kern u = vm_kern v" "vm_rc u = vm_rc v" by (simp_all add: cp al')
  have cu: "changes L {} v u" by (rule agree_changes [OF rt ag]) (simp add: sp)
  have ru: "refs_to u L q = refs_to v L q" for q by (rule refs_agree [OF ag _ rt]) (simp add: sp)
  have wu: "table_write pool u ?G L a i l3 j"
    by (rule table_write_again [OF w cp(1) cu table_writeD(4) [OF w]])
  have spare: "card (refs_to u L new - {(a, Pg i j)}) < ?G new" by (simp add: ru al'(4))
  have once: "frame_of u a (Pg i' j') \<noteq> Some new" for i' j'
    using refs_emptyD [OF al'(4) wholeD [OF a]] changesD(2) [OF cu wholeD [OF a]] by simp
  have rw: "\<not> (True \<and> False)" by simp
  note o = overwrite_ok [OF wu wholeD [OF a] refl al'(7) rw spare G(2) once, where x = ?x, folded v2_def [folded u_def]]
  have "refs_to v2 L old \<subseteq> refs_to v L old - {(a, Pg i j)}" using o(4) [of old] ne by (simp add: ru)
  then have "card (refs_to v2 L old) \<le> card (refs_to v L old - {(a, Pg i j)})"
    using vm_ok_refs(1) [OF ok, of old] by (intro card_mono) auto
  also have "\<dots> < card (refs_to v L old)"
    using vm_ok_refs(1) [OF ok, of old] e(1) a by (intro card_Diff1_less) (simp_all add: refs_to_def)
  also have "\<dots> \<le> ?G old" using vm_ok_refs(2) [OF ok, of old] ne by simp
  finally have "card (refs_to v2 L old) < ?G old" .
  note rel = release_page_ok [OF o(1) this]
  have r2: "vm_rc v2 = vm_rc v" by (simp add: v2_def sp flip: u_def)
  have v': "v2\<lparr>vm_rc := fst (pmem_refcount_dec (vm_rc v2) old)\<rparr> = vm_dec_and_free v2 old"
    using own(4) rc2 by (intro dec_is_release) (simp_all add: r2 page_ok_def)
  have c3: "changes L {} v2 (vm_dec_and_free v2 old)"
    by (rule agree_changes [OF rt rel(2)]) (simp add: rel(3))
  have p2: "(a, Pg i j) \<in> L" using a by simp
  have en: "entry (vm_dec_and_free v2 old) a i j = entry v2 a i j"
    using changesD(4) [OF c3 wholeD [OF a]] frame_of_PgD [OF o(2)] by simp
  have "frame_words u new = frame_words v old" using cp(3) al'(12) [OF own(3) ne] by simp
  moreover have "seen v a i j = Some (frame_words v old, True, ?x)" using e by (simp add: seen_def)
  moreover have "seen (vm_dec_and_free v2 old) a i j = seen v2 a i j" "frame_of (vm_dec_and_free v2 old) a (Pg i j) = Some new"
    using changesD(2,3) [OF c3 p2] o(2) by simp_all
  moreover have "changes L {(a, i, j)} v (vm_dec_and_free v2 old)"
    using changes_trans [OF changes_trans [OF cu o(6)] c3] by simp
  moreover have "spaces (vm_dec_and_free v2 old) = spaces v" "vm_kern (vm_dec_and_free v2 old) = vm_kern v"
    unfolding rel(3,4) by (simp_all add: v2_def sp flip: u_def)
  ultimately show ?thesis
    unfolding v' cow_resolved_def using o(3,5) rel(1) leaf_fields(7) [OF al'(7)] by (auto simp: en)
qed

lemma cow_fault_attrs:
  "(ATTR_NORMAL OR DESC_AF OR DESC_SH_INNER OR DESC_PXN OR (if x then 0 else DESC_UXN) OR DESC_VALID OR DESC_PAGE) OR
     DESC_AP_RW_EL0 OR page_bits pa = leaf pa True x False"
  by (simp add: leaf_def leaf_flags_def page_attrs_def ac_simps)

lemma cow_fault_eq:
  assumes "a \<noteq> 0" "USER_VA_BASE \<le> align_down 4096 fault" "align_down 4096 fault < USER_VA_END"
    "l3_entry_lookup v a (align_down 4096 fault) = Some p" "rd64 v p = e"
    "has e DESC_VALID" "has e DESC_SW_COW" "ap_field e = DESC_AP_RO_EL0"
  shows "address_space_handle_cow_fault v a fault =
    (let x = (\<not> has e DESC_UXN); old = desc_pa e in
     if pmem_refcount_get (vm_rc v) old \<le> 1 then
       (wr64 (if pmem_refcount_get (vm_rc v) old = 1 then v\<lparr>vm_rc := fst (pmem_refcount_dec (vm_rc v) old)\<rparr> else v)
          p (leaf old True x False), 0)
     else let (v1, new) = vm_alloc_page v in
       if new = 0 then (v1, -1)
       else let v2 = wr64 (copy_page v1 new old) p (leaf new True x False) in
         (v2\<lparr>vm_rc := fst (pmem_refcount_dec (vm_rc v2) old)\<rparr>, 0))"
  using assms by (simp add: address_space_handle_cow_fault_def Let_def cow_fault_attrs not_less not_le
      split del: if_split cong: if_cong)

lemma cow_fault_ok:
  assumes ok: "vm_ok pool v H L" and a: "whole L a" "spaces v a \<noteq> None"
    and f: "address_space_handle_cow_fault v a fault = (v', r)"
  shows "r = 0 \<and> cow_resolved pool L v a (L2_INDEX (align_down 4096 fault)) (L3_INDEX (align_down 4096 fault)) v' \<or>
    r = -1 \<and> v' = v"
proof -
  let ?va = "align_down 4096 fault"
  let ?i = "L2_INDEX ?va" and ?j = "L3_INDEX ?va"
  show ?thesis
  proof (cases "l3_entry_lookup v a ?va")
    case None
    then show ?thesis using f by (auto simp: address_space_handle_cow_fault_def Let_def split: if_splits)
  next
    case (Some p)
    then obtain l3 where l3: "frame_of v a (L3T ?i) = Some l3" "p = l3 + 8 * ?j" "rd64 v p = entry v a ?i ?j"
      using lookup_Some a(2) by blast
    let ?e = "entry v a ?i ?j"
    have w: "table_write pool v H L a ?i l3 ?j" using ok a l3 by (simp add: table_write_def)
    let ?ok = "a \<noteq> 0 \<and> USER_VA_BASE \<le> ?va \<and> ?va < USER_VA_END \<and> has ?e DESC_VALID \<and> has ?e DESC_SW_COW \<and>
       ap_field ?e = DESC_AP_RO_EL0"
    show ?thesis
    proof (cases ?ok)
      case False
      then show ?thesis using f Some l3(3)
        by (auto simp: address_space_handle_cow_fault_def Let_def not_less not_le split: if_splits)
    next
      case True
      let ?old = "desc_pa ?e"
      have fr: "frame_of v a (Pg ?i ?j) = Some ?old" using True a by (intro entry_frame) simp_all
      have mw: "may_write ?e" using True by (simp add: may_write_def)
      note own = vm_ok_owner [OF ok wholeD [OF a(1)] fr]
      have tr: "a \<noteq> 0" "USER_VA_BASE \<le> ?va" "?va < USER_VA_END" "has ?e DESC_VALID" "has ?e DESC_SW_COW"
        "ap_field ?e = DESC_AP_RO_EL0" using True by simp_all
      note d = f [unfolded cow_fault_eq [OF tr(1-3) Some l3(3) tr(4-6)] Let_def l3(2)]
      show ?thesis
      proof (cases "pmem_refcount_get (vm_rc v) ?old \<le> 1")
        case rc: True
        show ?thesis using cow_sole_owner [OF ok a(1) w fr mw rc] d rc by (simp only: if_True prod.inject) blast
      next
        case rc: False
        obtain v1 new where al: "vm_alloc_page v = (v1, new)" by fastforce
        show ?thesis
        proof (cases "new = 0")
          case True
          then have "v1 = v" using alloc_page_fails [OF _ ok, of v1] al by simp
          then show ?thesis using d rc al True by simp
        next
          case new: False
          then show ?thesis
            using cow_copy [OF ok a(1) w fr mw rc al new] d rc al by simp
        qed
      qed
    qed
  qed
qed

end
