(* ===== verification/AddrSpaceFork.thy ===== *)
theory AddrSpaceFork
  imports AddrSpaceCow
begin

text \<open>
  Making and copying address spaces.  \<open>address_space_create\<close> gives a space that sees nothing;
  \<open>address_space_clone_cow\<close> gives a child that sees what its parent sees, and no process sees
  the difference.
\<close>

section \<open>Fields that do not matter to the tables\<close>

text \<open>Only the page counters of the spaces have changed.\<close>

definition counts_only :: "vm \<Rightarrow> vm \<Rightarrow> bool" where
  "counts_only v v' \<longleftrightarrow> vm_kern v' = vm_kern v \<and>
     (\<forall>b. \<exists>n. spaces v' b = map_option (\<lambda>s. s\<lparr>user_pages_alloced := n\<rparr>) (spaces v b))"

lemma counts_only_same: "spaces v' = spaces v \<Longrightarrow> vm_kern v' = vm_kern v \<Longrightarrow> counts_only v v'"
proof -
  assume s: "spaces v' = spaces v" "vm_kern v' = vm_kern v"
  have "spaces v b = map_option (\<lambda>s. s\<lparr>user_pages_alloced := user_pages_alloced (asp v b)\<rparr>) (spaces v b)" for b
    by (cases "spaces v b") (simp_all add: asp_def)
  then show ?thesis unfolding counts_only_def using s by metis
qed

lemma counts_only_trans: "counts_only u v \<Longrightarrow> counts_only v w \<Longrightarrow> counts_only u w"
  unfolding counts_only_def
proof (elim conjE, intro conjI allI)
  fix b
  assume u: "\<forall>b. \<exists>n. spaces v b = map_option (\<lambda>s. s\<lparr>user_pages_alloced := n\<rparr>) (spaces u b)"
    and w: "\<forall>b. \<exists>n. spaces w b = map_option (\<lambda>s. s\<lparr>user_pages_alloced := n\<rparr>) (spaces v b)"
  obtain m n where "spaces v b = map_option (\<lambda>s. s\<lparr>user_pages_alloced := m\<rparr>) (spaces u b)"
    "spaces w b = map_option (\<lambda>s. s\<lparr>user_pages_alloced := n\<rparr>) (spaces v b)" using u w by blast
  then show "\<exists>n. spaces w b = map_option (\<lambda>s. s\<lparr>user_pages_alloced := n\<rparr>) (spaces u b)"
    by (intro exI [of _ n]) (cases "spaces u b", simp_all)
qed simp

lemma counts_only_asp:
  assumes "counts_only v v'" "spaces v b \<noteq> None"
  shows "\<exists>n. asp v' b = (asp v b)\<lparr>user_pages_alloced := n\<rparr>" "spaces v' b \<noteq> None"
proof -
  obtain n where "spaces v' b = map_option (\<lambda>s. s\<lparr>user_pages_alloced := n\<rparr>) (spaces v b)"
    using assms(1) by (auto simp: counts_only_def)
  then show "\<exists>n. asp v' b = (asp v b)\<lparr>user_pages_alloced := n\<rparr>" "spaces v' b \<noteq> None"
    using assms(2) by (auto simp: asp_def)
qed

lemma counts_only_dom: "counts_only v v' \<Longrightarrow> dom (spaces v') = dom (spaces v)"
proof (rule set_eqI)
  fix b assume "counts_only v v'"
  then obtain n where "spaces v' b = map_option (\<lambda>s. s\<lparr>user_pages_alloced := n\<rparr>) (spaces v b)"
    by (auto simp: counts_only_def)
  then show "b \<in> dom (spaces v') \<longleftrightarrow> b \<in> dom (spaces v)" by (auto simp: dom_def)
qed

lemma counts_only_upd:
  assumes "spaces v a \<noteq> None" "f (asp v a) = (asp v a)\<lparr>user_pages_alloced := n\<rparr>"
  shows "counts_only v (upd_as v a f)"
proof -
  have "\<exists>m. spaces (upd_as v a f) b = map_option (\<lambda>s. s\<lparr>user_pages_alloced := m\<rparr>) (spaces v b)" for b
  proof (cases "b = a")
    case True
    then show ?thesis using assms by (intro exI [of _ n]) (auto simp: asp_def)
  next
    case False
    then show ?thesis
      by (intro exI [of _ "user_pages_alloced (asp v b)"]) (cases "spaces v b", simp_all add: asp_def)
  qed
  then show ?thesis by (simp add: counts_only_def)
qed

lemma count_page_only: "spaces v a \<noteq> None \<Longrightarrow> counts_only v (count_page v a)"
  unfolding count_page_def by (rule counts_only_upd) simp_all

lemma uncount_page_only: "spaces v a \<noteq> None \<Longrightarrow> counts_only v (uncount_page v a)"
  unfolding uncount_page_def by (auto intro: counts_only_upd counts_only_same)

lemma counts_roots:
  assumes c: "counts_only v v'"
  shows "same_roots v v'"
proof -
  have "(spaces v' a = None \<longleftrightarrow> spaces v a = None) \<and> l1_pa (asp v' a) = l1_pa (asp v a) \<and>
      l2_pa (asp v' a) = l2_pa (asp v a)" for a
  proof (cases "spaces v a = None")
    case True
    then have "spaces v' a = None" using counts_only_dom [OF c] by (metis domIff)
    then show ?thesis using True by (simp add: asp_def)
  next
    case False
    then show ?thesis using counts_only_asp [OF c False] by auto
  qed
  then show ?thesis by (simp add: same_roots_def)
qed

lemma page_count_simps [simp]:
  "vm_cache (count_page v a) = vm_cache v" "vm_rc (count_page v a) = vm_rc v" "vm_kern (count_page v a) = vm_kern v"
  "vm_cache (uncount_page v a) = vm_cache v" "vm_rc (uncount_page v a) = vm_rc v" "vm_kern (uncount_page v a) = vm_kern v"
  by (simp_all add: count_page_def uncount_page_def)

lemma count_roots:
  "spaces v a \<noteq> None \<Longrightarrow> same_roots v (count_page v a)" "spaces v a \<noteq> None \<Longrightarrow> same_roots v (uncount_page v a)"
  by (simp_all add: count_page_def uncount_page_def same_roots_upd_as)

lemma same_tables_changes:
  assumes "vm_ok pool v H L" "vm_pmem v' = vm_pmem v" "vm_rc v' = vm_rc v" "same_roots v v'"
  shows "changes L {} v v'"
  by (rule agree_changes [OF vm_ok_refs(3) [OF assms(1)]]) (simp_all add: assms)

section \<open>User addresses\<close>

lemma slot_va_index [simp]:
  assumes "i < 512" "j < 512"
  shows "L2_INDEX (slot_va i j) = i" "L3_INDEX (slot_va i j) = j"
proof -
  have e: "slot_va i j = j * 2 ^ 12 + (2 ^ 15 + i) * 2 ^ 21" by (simp add: slot_va_def)
  have "j * 2 ^ 12 < (2 :: nat) ^ 21" using assms(2) by simp
  then have "slot_va i j div 2 ^ 21 = 2 ^ 15 + i" unfolding e by simp
  moreover have "(2 ^ 15 + i) mod 512 = i" using mod_mult_self1 [of i 64 512] assms(1) by (simp add: add.commute)
  ultimately show "L2_INDEX (slot_va i j) = i" by (simp only: L2_INDEX_def)
  have "slot_va i j = (j + (2 ^ 15 + i) * 512) * 2 ^ 12" by (simp add: slot_va_def)
  then have "slot_va i j div 2 ^ 12 = j + (2 ^ 15 + i) * 512" by simp
  moreover have "(j + (2 ^ 15 + i) * 512) mod 512 = j" unfolding mod_mult_self1 using assms(2) by simp
  ultimately show "L3_INDEX (slot_va i j) = j" by (simp only: L3_INDEX_def)
qed

lemma slot_inj: "512 * i + j = 512 * i' + j' \<Longrightarrow> j < 512 \<Longrightarrow> j' < 512 \<Longrightarrow> i = i' \<and> j = (j' :: nat)"
proof -
  assume h: "512 * i + j = 512 * i' + j'" "j < 512" "j' < 512"
  have "(512 * i + j) div 512 = i" "(512 * i' + j') div 512 = i'" using h(2,3) by simp_all
  then show ?thesis using h(1) by simp
qed

lemma rd64_rc [simp]: "rd64 (v\<lparr>vm_rc := r\<rparr>) = rd64 v"
  by (simp add: rd64_def fun_eq_iff)

lemma frame_words_rc [simp]: "frame_words (v\<lparr>vm_rc := r\<rparr>) = frame_words v"
  by (simp add: frame_words_def fun_eq_iff)

section \<open>Sharing one page\<close>

lemma guard_ok:
  assumes ok: "vm_ok pool v H L" and d: "whole L dst" "spaces v dst \<noteq> None" "i < 512" "j < 512"
    and g: "address_space_install_guard v dst (slot_va i j) = (v', r)"
  shows "\<exists>H'. vm_ok pool v' H' L \<and> changes L {(dst, i, j)} v v' \<and> counts_only v v' \<and>
    (\<forall>q. 1 \<le> H q \<longrightarrow> H' q = H q) \<and> (r = 0 \<longrightarrow> frame_of v' dst (Pg i j) = None)"
proof -
  obtain v1 l3 where l: "l3_for v dst (slot_va i j) = (v1, l3)" by fastforce
  obtain H1 where 1: "vm_ok pool v1 H1 L" "quiet_vm L v H v1 H1" "spaces v1 = spaces v" "vm_kern v1 = vm_kern v"
    "\<And>k. l3 \<noteq> 0 \<Longrightarrow> k < 512 \<Longrightarrow> table_write pool v1 H1 L dst (L2_INDEX (slot_va i j)) l3 k"
    using l3_for_ok [OF ok d(1,2) l] by metis
  have c1: "changes L {} v v1" "counts_only v v1" by (rule quiet_changes [OF 1(2)], rule counts_only_same [OF 1(3,4)])
  have "dst \<noteq> 0" using d(2) vm_ok_refs(5) [OF ok] by auto
  have al: "slot_va i j mod 4096 = 0" by (simp add: slot_va_def)
  show ?thesis
  proof (cases "l3 = 0")
    case True
    then have "v' = v1" "r \<noteq> 0" using g l al \<open>dst \<noteq> 0\<close> by (auto simp: address_space_install_guard_def)
    then show ?thesis using 1(1) c1 quiet_vmD(6) [OF 1(2)] changes_mono [OF c1(1)] by blast
  next
    case False
    then have v': "v' = wr64 v1 (l3 + 8 * j) DESC_SW_GUARD" "r = 0"
      using g l al d \<open>dst \<noteq> 0\<close> by (auto simp: address_space_install_guard_def)
    have w: "table_write pool v1 H1 L dst i l3 j" using 1(5) [OF False d(4)] d by simp
    note cl = clear_entry_ok [OF w invalid_words(2), folded v'(1)]
    have "counts_only v1 v'" by (rule counts_only_same) (simp_all add: v')
    then show ?thesis
      using cl(1,2) quiet_vmD(6) [OF 1(2)] counts_only_trans [OF c1(2)]
        changes_trans [OF c1(1) written_changes [OF w, of DESC_SW_GUARD, folded v'(1)]] by auto
  qed
qed

lemma same_roots_sym: "same_roots v v' \<Longrightarrow> same_roots v' v"
  by (simp add: same_roots_def)

lemma seen_frame_words:
  "seen v a i j = Some (f, x) \<Longrightarrow> frame_of v a (Pg i j) = Some pa \<Longrightarrow> frame_words v pa = f"
  by (simp add: seen_def)

text \<open>The order in which the code writes does not matter: the three steps are downgrade, share, map.\<close>

lemma share_entry_ok:
  assumes ok: "vm_ok pool v H L" and s: "whole L src" "table_write pool v H L src i src_l3 j"
    and d: "whole L dst" "spaces v dst \<noteq> None" "src \<noteq> dst"
    and e: "frame_of v src (Pg i j) = Some pa" and few: "H pa < 65535"
    and un: "\<And>i' j'. frame_of v dst (Pg i' j') \<noteq> Some pa"
    and l: "l3_for v dst (slot_va i j) = (v1, dst_l3)" "dst_l3 \<noteq> 0"
  defines "e' \<equiv> cow_desc (entry v src i j)"
  defines "v3 \<equiv> wr64 (count_page (wr64 v1 (dst_l3 + 8 * j) e') dst) (src_l3 + 8 * j) e'"
  defines "v' \<equiv> v3\<lparr>vm_rc := pmem_refcount_share (vm_rc v3) pa\<rparr>"
  shows "\<exists>H'. vm_ok pool v' H' L \<and> changes L {(src, i, j), (dst, i, j)} v v' \<and> counts_only v v' \<and>
    (\<forall>q. 1 \<le> H q \<and> q \<noteq> pa \<longrightarrow> H' q = H q) \<and>
    frame_of v' src (Pg i j) = Some pa \<and> frame_of v' dst (Pg i j) = Some pa \<and>
    seen v' src i j = seen v src i j \<and> seen v' dst i j = seen v src i j"
proof -
  note rt = vm_ok_refs(3) [OF ok] and P = frame_of_PgD [OF e]
  have ij: "i < 512" "j < 512" and sp: "spaces v src \<noteq> None" using P by simp_all
  let ?x = "\<not> has (entry v src i j) DESC_UXN" and ?w = "may_write (entry v src i j)"
  have e': "e' = leaf pa False ?x ?w" using P by (simp add: e'_def cow_desc_leaf may_write_def)
  obtain H1 where 1: "vm_ok pool v1 H1 L" "quiet_vm L v H v1 H1" "spaces v1 = spaces v" "vm_kern v1 = vm_kern v"
    "vm_rc v1 = vm_rc v" "\<And>k. k < 512 \<Longrightarrow> table_write pool v1 H1 L dst i dst_l3 k"
    using l3_for_ok [OF ok d(1,2) l(1)] l(2) slot_va_index(1) [OF ij] by metis
  note own = vm_ok_owner [OF ok wholeD [OF s(1)] e]
  have H1: "H1 pa = H pa" by (rule quiet_vmD(6) [OF 1(2) own(1)])
  have c1: "changes L {} v v1" by (rule quiet_changes [OF 1(2)])
  have fr1: "frame_of v1 b (Pg i' j') = frame_of v b (Pg i' j')" if "whole L b" for b i' j'
    using changesD(2) [OF c1 wholeD [OF that]] by simp
  \<comment> \<open>downgrade\<close>
  have w1: "table_write pool v1 H1 L src i src_l3 j" by (rule table_write_again [OF s(2) 1(1) c1 ij(2)])
  let ?v2 = "wr64 v1 (src_l3 + 8 * j) e'"
  have "card (refs_to v1 L pa - {(src, Pg i j)}) < card (refs_to v1 L pa)"
    using fr1 [OF s(1)] e s(1) by (intro card_Diff1_less vm_ok_refs(1) [OF 1(1)]) (simp add: refs_to_def)
  then have spare: "card (refs_to v1 L pa - {(src, Pg i j)}) < H1 pa" using vm_ok_refs(2) [OF 1(1), of pa] by simp
  have once: "frame_of v1 src (Pg i' j') \<noteq> Some pa" if "(i', j') \<noteq> (i, j)" for i' j'
    using entry_page_once [OF ok wholeD [OF s(1)] e wholeD [OF s(1)] that] fr1 [OF s(1)] by simp
  have rw: "\<not> (False \<and> ?w)" and no: "False \<Longrightarrow> H1 pa = 1" by simp_all
  note o2 = overwrite_ok [OF w1 wholeD [OF s(1)] e' own(3) rw spare no once]
  have f2: "ap_field (entry ?v2 src i j) \<noteq> DESC_AP_RW_EL0" using o2(5) leaf_fields(7) [OF own(3)] by (simp add: e')
  \<comment> \<open>share\<close>
  let ?v3 = "?v2\<lparr>vm_rc := pmem_refcount_share (vm_rc ?v2) pa\<rparr>"
  have ne: "\<not> exclusive ?v2 b r" if "(b, r) \<in> L" "frame_of ?v2 b r = Some pa" for b r
    using vm_ok_exclusive [OF o2(1) that _ wholeD [OF s(1)] o2(2)] f2 by auto
  have ok3: "vm_ok pool ?v3 (H1(pa := H1 pa + 1)) L"
    by (rule share_page_ok [OF o2(1) _ _ ne]) (use own(1) few H1 in simp_all)
  have c3: "changes L {} ?v2 ?v3" by (rule agree_changes [OF rt]) simp_all
  \<comment> \<open>map\<close>
  have c123: "changes L {(src, i, j)} v ?v3" using changes_trans [OF changes_trans [OF c1 o2(6)] c3] by simp
  have w3: "table_write pool ?v3 (H1(pa := H1 pa + 1)) L dst i dst_l3 j"
    by (rule table_write_again [OF 1(6) [OF ij(2)] ok3 changes_trans [OF o2(6) c3] ij(2)])
  have un3: "frame_of ?v3 dst (Pg i' j') \<noteq> Some pa" for i' j'
    using un changesD(2) [OF c123 wholeD [OF d(1)]] d(3) by simp
  have "refs_to ?v3 L pa = refs_to ?v2 L pa" by (rule refs_agree [OF _ _ rt]) simp_all
  then have "card (refs_to ?v3 L pa) \<le> H1 pa" using vm_ok_refs(2) [OF o2(1), of pa] by simp
  then have spare3: "card (refs_to ?v3 L pa - {(dst, Pg i j)}) < (H1(pa := H1 pa + 1)) pa"
    using card_Diff1_le [of "refs_to ?v3 L pa" "(dst, Pg i j)"] by simp
  have no3: "False \<Longrightarrow> (H1(pa := H1 pa + 1)) pa = 1" by simp
  note o4 = overwrite_ok [OF w3 wholeD [OF d(1)] e' own(3) rw spare3 no3 un3]
  let ?v4 = "wr64 ?v3 (dst_l3 + 8 * j) e'"
  \<comment> \<open>the code's state\<close>
  have pm: "vm_pmem v' = vm_pmem ?v4"
    by (simp add: v'_def v3_def wr64_def set_pmem_def fun_upd_twist)
       (auto simp: fun_eq_iff)
  have rc: "vm_rc v' = vm_rc ?v4" by (simp add: v'_def v3_def)
  have spc: "spaces v' = spaces (count_page v dst)"
    by (simp add: v'_def v3_def count_page_def 1(3) asp_def)
  have roots: "same_roots ?v4 v'" using count_roots(1) [OF d(2)] 1(3) spc by (simp add: same_roots_def asp_def)
  note t = same_tables [OF o4(1) pm rc roots] and c5 = same_tables_changes [OF o4(1) pm rc roots]
  have c: "changes L {(src, i, j), (dst, i, j)} v v'"
    using changes_trans [OF changes_trans [OF c123 o4(6)] c5] by (simp add: insert_commute)
  have k: "counts_only v v'" using count_page_only [OF d(2)] spc 1(4)
    by (simp add: counts_only_def v'_def v3_def)
  have fw: "frame_words v1 pa = frame_words v pa"
    using changesD(2,3) [OF c1 wholeD [OF s(1)], of i j] e by (simp add: seen_def)
  have fw3: "frame_words ?v3 pa = frame_words v1 pa"
    by (rule trans [OF _ seen_frame_words [OF o2(3,2)]]) (simp only: frame_words_rc)
  have sv: "seen v src i j = Some (frame_words v pa, ?w, ?x)" using e by (simp add: seen_def)
  have "seen v' dst i j = Some (frame_words v pa, ?w, ?x)" 
    by (simp only: t(2) o4(3) fw3 fw) simp
  moreover have "seen v' src i j = seen ?v2 src i j"
    using changesD(3) [OF o4(6) wholeD [OF s(1)], of i j] changesD(3) [OF c3 wholeD [OF s(1)], of i j] d(3)
    by (simp only: t(2)) simp
  moreover have "frame_of v' src (Pg i j) = Some pa"
    using changesD(2) [OF o4(6) wholeD [OF s(1)], of i j] changesD(2) [OF c3 wholeD [OF s(1)], of i j] d(3) o2(2)
    by (simp only: t(3)) simp
  moreover have "frame_of v' dst (Pg i j) = Some pa" by (simp only: t(3) o4(2))
  moreover have "\<forall>q. 1 \<le> H q \<and> q \<noteq> pa \<longrightarrow> (H1(pa := H1 pa + 1)) q = H q" using quiet_vmD(6) [OF 1(2)] by simp
  ultimately show ?thesis using t(1) c k o2(3) fw sv by auto
qed

section \<open>The loops of the clone\<close>

text \<open>
  The slots before \<open>n\<close> have been copied.  The pages of the rest can still be shared: their count
  does not overflow.
\<close>

definition cloned :: "nat set \<Rightarrow> vm \<Rightarrow> nat \<Rightarrow> nat \<Rightarrow> nat \<Rightarrow> vm \<Rightarrow> bool" where
  "cloned pool u src dst n v \<longleftrightarrow>
     (\<exists>H. vm_ok pool v H UNIV \<and>
        (\<forall>i j q. n \<le> 512 * i + j \<and> frame_of u src (Pg i j) = Some q \<longrightarrow> H q < 65535)) \<and>
     changes UNIV ({src, dst} \<times> UNIV) u v \<and> counts_only u v \<and>
     (\<forall>i j. frame_of v src (Pg i j) = frame_of u src (Pg i j) \<and> seen v src i j = seen u src i j) \<and>
     (\<forall>i j. i < 512 \<and> j < 512 \<longrightarrow>
        (if 512 * i + j < n
         then frame_of v dst (Pg i j) = frame_of u src (Pg i j) \<and> seen v dst i j = seen u src i j
         else frame_of v dst (Pg i j) = None))"

definition clone_base :: "nat set \<Rightarrow> vm \<Rightarrow> nat \<Rightarrow> nat \<Rightarrow> bool" where
  "clone_base pool u src dst \<longleftrightarrow> src \<noteq> dst \<and> spaces u src \<noteq> None \<and> spaces u dst \<noteq> None \<and>
     (\<exists>H. vm_ok pool u H UNIV)"

lemma whole_UNIV [simp]: "whole UNIV a"
  by (simp add: whole_def)

lemma seen_None: "frame_of v a (Pg i j) = None \<Longrightarrow> seen v a i j = None"
  by (simp add: seen_def)

text \<open>One slot done: what the step has to say.\<close>

lemma cloned_next:
  assumes b: "clone_base pool u src dst" and c: "cloned pool u src dst (512 * i + j) v" and ij: "i < 512" "j < 512"
    and ok: "vm_ok pool v' H' UNIV" and ch: "changes UNIV {(src, i, j), (dst, i, j)} v v'" "counts_only v v'"
    and few: "\<And>i' j' q. 512 * i + j < 512 * i' + j' \<Longrightarrow> frame_of u src (Pg i' j') = Some q \<Longrightarrow> H' q < 65535"
    and at: "frame_of v' src (Pg i j) = frame_of u src (Pg i j)" "seen v' src i j = seen u src i j"
      "frame_of v' dst (Pg i j) = frame_of u src (Pg i j)" "seen v' dst i j = seen u src i j"
  shows "cloned pool u src dst (Suc (512 * i + j)) v'"
proof -
  note c' = c [unfolded cloned_def]
  have "changes UNIV ({src, dst} \<times> UNIV) u v'"
    by (rule changes_mono [OF changes_trans [OF _ ch(1)]]) (use c' in auto)
  moreover have "counts_only u v'" using c' counts_only_trans ch(2) by blast
  moreover have "frame_of v' src (Pg i' j') = frame_of u src (Pg i' j') \<and> seen v' src i' j' = seen u src i' j'" for i' j'
    using changesD(2,3) [OF ch(1), of src i' j'] c' at(1,2) b by (cases "(i', j') = (i, j)") (auto simp: clone_base_def)
  moreover have "if 512 * i' + j' < Suc (512 * i + j)
      then frame_of v' dst (Pg i' j') = frame_of u src (Pg i' j') \<and> seen v' dst i' j' = seen u src i' j'
      else frame_of v' dst (Pg i' j') = None" if k: "i' < 512" "j' < 512" for i' j'
  proof (cases "(i', j') = (i, j)")
    case True
    then show ?thesis using at by simp
  next
    case False
    then have "frame_of v' dst (Pg i' j') = frame_of v dst (Pg i' j')" "seen v' dst i' j' = seen v dst i' j'"
      using changesD(2,3) [OF ch(1), of dst i' j'] b by (auto simp: clone_base_def)
    moreover have "512 * i' + j' \<noteq> 512 * i + j" using slot_inj [of i' j' i j] False k ij by auto
    ultimately show ?thesis using c' k by (auto simp: less_Suc_eq)
  qed
  moreover have "\<exists>H. vm_ok pool v' H UNIV \<and>
      (\<forall>i' j' q. Suc (512 * i + j) \<le> 512 * i' + j' \<and> frame_of u src (Pg i' j') = Some q \<longrightarrow> H q < 65535)"
    using ok few Suc_le_lessD by (intro exI [of _ H']) blast
  ultimately show ?thesis unfolding cloned_def by blast
qed

text \<open>The state that a failed clone leaves: the parent and the others see what they saw.\<close>

definition clone_stopped :: "nat set \<Rightarrow> vm \<Rightarrow> nat \<Rightarrow> nat \<Rightarrow> vm \<Rightarrow> bool" where
  "clone_stopped pool u src dst v \<longleftrightarrow>
     (\<exists>H. vm_ok pool v H UNIV) \<and> changes UNIV ({src, dst} \<times> UNIV) u v \<and> counts_only u v \<and>
     (\<forall>i j. frame_of v src (Pg i j) = frame_of u src (Pg i j) \<and> seen v src i j = seen u src i j)"

lemma cloned_stopped: "cloned pool u src dst n v \<Longrightarrow> clone_stopped pool u src dst v"
  unfolding cloned_def clone_stopped_def by blast

lemma clone_step:
  assumes b: "clone_base pool u src dst" and c: "cloned pool u src dst (512 * i + j) v" and ij: "i < 512" "j < 512"
    and t: "frame_of v src (L3T i) = Some src_l3"
    and f: "clone_cow_entry v src_l3 dst i j (rd64 v (src_l3 + 8 * j)) = (v', done)"
  shows "(if done then cloned pool u src dst (Suc (512 * i + j)) v' else clone_stopped pool u src dst v') \<and>
    changes UNIV {(src, i, j), (dst, i, j)} v v'"
proof -
  obtain H where ok: "vm_ok pool v H UNIV"
    and few: "\<And>i' j' q. 512 * i + j \<le> 512 * i' + j' \<Longrightarrow> frame_of u src (Pg i' j') = Some q \<Longrightarrow> H q < 65535"
    using c unfolding cloned_def by blast
  note c' = c [unfolded cloned_def]
  have cs: "counts_only u v" using c' by blast
  have d: "spaces v dst \<noteq> None" "spaces v src \<noteq> None" "src \<noteq> dst"
    using counts_only_asp(2) [OF cs] b by (auto simp: clone_base_def)
  have here: "frame_of v src (Pg i j) = frame_of u src (Pg i j)" "seen v src i j = seen u src i j"
    "frame_of v dst (Pg i j) = None" using c' ij by auto
  have e: "rd64 v (src_l3 + 8 * j) = entry v src i j" using frame_of_L3D [OF t] by (simp add: entry_def)
  show ?thesis
  proof (cases "has (entry v src i j) DESC_VALID")
    case False
    then have none: "frame_of v src (Pg i j) = None" by (simp add: frame_of.simps)
    show ?thesis
    proof (cases "has (entry v src i j) DESC_SW_GUARD")
      case True
      then obtain r where g: "address_space_install_guard v dst (slot_va i j) = (v', r)" "done \<longleftrightarrow> r = 0"
        using f False by (auto simp: clone_cow_entry_def e split: prod.splits)
      obtain H' where 1: "vm_ok pool v' H' UNIV" "changes UNIV {(dst, i, j)} v v'" "counts_only v v'"
        "\<And>q. 1 \<le> H q \<Longrightarrow> H' q = H q" "r = 0 \<Longrightarrow> frame_of v' dst (Pg i j) = None"
        using guard_ok [OF ok whole_UNIV d(1) ij g(1)] by blast
      have src': "frame_of v' src (Pg i j) = frame_of u src (Pg i j)" "seen v' src i j = seen u src i j"
        using changesD(2,3) [OF 1(2), of src i j] d(3) here by simp_all
      have ch: "changes UNIV {(src, i, j), (dst, i, j)} v v'" by (rule changes_mono [OF 1(2)]) simp
      show ?thesis
      proof (cases "r = 0")
        case True
        have "cloned pool u src dst (Suc (512 * i + j)) v'"
        proof (rule cloned_next [OF b c ij 1(1) ch 1(3) _ src'])
          show "H' q < 65535" if h: "512 * i + j < 512 * i' + j'" "frame_of u src (Pg i' j') = Some q" for i' j' q
          proof -
            have "frame_of v src (Pg i' j') = Some q" using c' h(2) by simp
            then have "1 \<le> H q" using vm_ok_owner(1) [OF ok, of src "Pg i' j'"] by simp
            then show ?thesis using 1(4) few [OF _ h(2)] h(1) by simp
          qed
          show "frame_of v' dst (Pg i j) = frame_of u src (Pg i j)" using 1(5) True none here by simp
          then show "seen v' dst i j = seen u src i j" using none here seen_None by metis
        qed
        then show ?thesis using True g(2) ch by simp
      next
        case False
        have "changes UNIV ({src, dst} \<times> UNIV) u v'"
          by (rule changes_mono [OF changes_trans [OF _ ch]]) (use c' in auto)
        moreover have "frame_of v' src (Pg i' j') = frame_of u src (Pg i' j') \<and> seen v' src i' j' = seen u src i' j'" for i' j'
          using changesD(2,3) [OF 1(2), of src i' j'] d(3) c' by simp
        ultimately show ?thesis
          using False g(2) 1(1) counts_only_trans [OF cs 1(3)] ch by (auto simp: clone_stopped_def)
      qed
    next
      case no: False
      then have v': "v' = v" "done" using f False by (simp_all add: clone_cow_entry_def e)
      have "cloned pool u src dst (Suc (512 * i + j)) v"
        by (rule cloned_next [OF b c ij ok _ _ _ here(1,2)])
          (use here none few [OF less_imp_le] seen_None in \<open>auto intro: counts_only_same\<close>)
      then show ?thesis using v' by simp
    qed
  next
    case True
    let ?pa = "desc_pa (entry v src i j)"
    have fr: "frame_of v src (Pg i j) = Some ?pa" by (rule entry_frame [OF d(2) ij True])
    have pl: "plain (entry v src i j)" by (rule entry_plain [OF ok _ fr]) simp
    obtain v1 l3 where l: "l3_for v dst (slot_va i j) = (v1, l3)" by fastforce
    show ?thesis
    proof (cases "l3 = 0")
      case z: True
      then have "v1 = v" using l3_for_ok [OF ok whole_UNIV d(1) l] by metis
      then have "v' = v" "\<not> done" using f True pl l z by (auto simp: clone_cow_entry_def e plain_def)
      then show ?thesis using cloned_stopped [OF c] by simp
    next
      case nz: False
      have f': "(wr64 (count_page (wr64 v1 (l3 + 8 * j) (cow_desc (entry v src i j))) dst) (src_l3 + 8 * j)
            (cow_desc (entry v src i j)))
          \<lparr>vm_rc := pmem_refcount_share (vm_rc (wr64 (count_page (wr64 v1 (l3 + 8 * j) (cow_desc (entry v src i j))) dst)
            (src_l3 + 8 * j) (cow_desc (entry v src i j)))) ?pa\<rparr> = v' \<and> done"
        using f True pl l nz ij by (simp add: clone_cow_entry_def e plain_def Let_def)
      have un: "frame_of v dst (Pg i' j') \<noteq> Some ?pa" for i' j'
      proof
        assume a: "frame_of v dst (Pg i' j') = Some ?pa"
        then have k: "i' < 512" "j' < 512" using frame_of_PgD by blast+
        have "512 * i' + j' < 512 * i + j" "frame_of v dst (Pg i' j') = frame_of u src (Pg i' j')"
          using c' k a by (metis option.distinct(1))+
        then have "frame_of v src (Pg i' j') = Some ?pa" "(i', j') \<noteq> (i, j)" using c' a by auto
        then show False using entry_page_once [OF ok UNIV_I fr UNIV_I] by blast
      qed
      have w: "table_write pool v H UNIV src i src_l3 j" using ok t ij by (simp add: table_write_def)
      have "H ?pa < 65535" using few [of i j] fr here by simp
      from share_entry_ok [OF ok whole_UNIV w whole_UNIV d(1,3) fr this un l nz]
      obtain H' where 1: "vm_ok pool v' H' UNIV" "changes UNIV {(src, i, j), (dst, i, j)} v v'" "counts_only v v'"
        "\<And>q. 1 \<le> H q \<Longrightarrow> q \<noteq> ?pa \<Longrightarrow> H' q = H q"
        "frame_of v' src (Pg i j) = Some ?pa" "frame_of v' dst (Pg i j) = Some ?pa"
        "seen v' src i j = seen v src i j" "seen v' dst i j = seen v src i j"
        unfolding f' [THEN conjunct1] by blast
      have "cloned pool u src dst (Suc (512 * i + j)) v'"
      proof (rule cloned_next [OF b c ij 1(1-3)])
        show "H' q < 65535" if h: "512 * i + j < 512 * i' + j'" "frame_of u src (Pg i' j') = Some q" for i' j' q
        proof -
          have q: "frame_of v src (Pg i' j') = Some q" using c' h(2) by simp
          then have "1 \<le> H q" using vm_ok_owner(1) [OF ok, of src "Pg i' j'"] by simp
          moreover have "q \<noteq> ?pa" using entry_page_once [OF ok UNIV_I fr UNIV_I, of i' j'] q h(1) by auto
          ultimately show ?thesis using 1(4) few [OF _ h(2)] h(1) by simp
        qed
      qed (use 1 fr here in simp_all)
      then show ?thesis using f' 1(2) by simp
    qed
  qed
qed

lemma clone_l3_ok:
  assumes "clone_base pool u src dst" "cloned pool u src dst (512 * i + j) v" "i < 512" "j + n = 512"
    "frame_of v src (L3T i) = Some src_l3"
    "clone_l3 (\<lambda>v l3. clone_cow_entry v l3 dst) v src_l3 i j n = (v', done)"
  shows "if done then cloned pool u src dst (512 * (i + 1)) v' else clone_stopped pool u src dst v'"
  using assms(2,4-6)
proof (induction n arbitrary: v j)
  case 0
  then show ?case by (simp add: add.commute)
next
  case (Suc n)
  obtain v1 ok where s: "clone_cow_entry v src_l3 dst i j (rd64 v (src_l3 + 8 * j)) = (v1, ok)" by fastforce
  have st: "if ok then cloned pool u src dst (Suc (512 * i + j)) v1 else clone_stopped pool u src dst v1"
    and ch: "changes UNIV {(src, i, j), (dst, i, j)} v v1"
    using clone_step [OF assms(1) Suc.prems(1) assms(3) _ Suc.prems(3) s] Suc.prems(2) by auto
  show ?case
  proof (cases ok)
    case True
    have "frame_of v1 src (L3T i) = Some src_l3" using changesD(5) [OF ch _ Suc.prems(3)] by simp
    then show ?thesis using Suc.IH [of "j + 1" v1] st True Suc.prems s by simp
  next
    case False
    then show ?thesis using st Suc.prems(4) s by simp
  qed
qed

lemma cloned_skip:
  assumes b: "clone_base pool u src dst" and c: "cloned pool u src dst (512 * i) v"
    and none: "\<And>j. frame_of v src (Pg i j) = None"
  shows "cloned pool u src dst (512 * (i + 1)) v"
proof -
  note c' = c [unfolded cloned_def]
  have u: "frame_of u src (Pg i j) = None" "seen u src i j = None" for j
    using c' none seen_None by metis+
  have "if 512 * i' + j' < 512 * (i + 1)
      then frame_of v dst (Pg i' j') = frame_of u src (Pg i' j') \<and> seen v dst i' j' = seen u src i' j'
      else frame_of v dst (Pg i' j') = None" if k: "i' < 512" "j' < 512" for i' j'
  proof (cases "512 * i' + j' < 512 * i")
    case True
    then show ?thesis using c' k by auto
  next
    case False
    then have n: "frame_of v dst (Pg i' j') = None" using c' k by metis
    have "i' = i" if "512 * i' + j' < 512 * (i + 1)"
    proof -
      have "i' < i + 1" using that by (simp add: not_less [symmetric])
      moreover have "i \<le> i'" using False k(2) by linarith
      ultimately show ?thesis by simp
    qed
    then show ?thesis using n u seen_None [OF n] by auto
  qed
  moreover obtain H where ok: "vm_ok pool v H UNIV"
    and few: "\<And>i' j' q. 512 * i \<le> 512 * i' + j' \<Longrightarrow> frame_of u src (Pg i' j') = Some q \<Longrightarrow> H q < 65535"
    using c' by blast
  have "H q < 65535" if "512 * (i + 1) \<le> 512 * i' + j'" "frame_of u src (Pg i' j') = Some q" for i' j' q
    by (rule few [OF _ that(2)]) (use that(1) in simp)
  then have "\<exists>H. vm_ok pool v H UNIV \<and>
      (\<forall>i' j' q. 512 * (i + 1) \<le> 512 * i' + j' \<and> frame_of u src (Pg i' j') = Some q \<longrightarrow> H q < 65535)"
    using ok by blast
  ultimately show ?thesis using c' unfolding cloned_def by blast
qed

lemma l2e_tables:
  assumes "vm_ok pool v H UNIV" "spaces v a \<noteq> None" "i < 512" "has (l2e v a i) DESC_VALID"
  shows "has (l2e v a i) DESC_TABLE" "frame_of v a (L3T i) = Some (desc_pa (l2e v a i))"
proof -
  show f: "frame_of v a (L3T i) = Some (desc_pa (l2e v a i))" using assms by (simp add: frame_of.simps)
  show "has (l2e v a i) DESC_TABLE" using assms(1) f unfolding vm_ok_def refs_ok_def by blast
qed

lemma clone_l2_ok:
  assumes "clone_base pool u src dst" "cloned pool u src dst (512 * i) v" "i + n = 512"
    "clone_l2 (\<lambda>v l3. clone_cow_entry v l3 dst) v (l2_pa (asp u src)) i n = (v', done)"
  shows "if done then cloned pool u src dst 262144 v' else clone_stopped pool u src dst v'"
  using assms(2-4)
proof (induction n arbitrary: v i)
  case 0
  then show ?case by simp
next
  case (Suc n)
  note c' = Suc.prems(1) [unfolded cloned_def]
  have cs: "counts_only u v" using c' by blast
  have sp: "spaces v src \<noteq> None" and l2: "l2_pa (asp v src) = l2_pa (asp u src)"
    using counts_only_asp [OF cs, of src] assms(1) by (auto simp: clone_base_def)
  have e: "rd64 v (l2_pa (asp u src) + 8 * i) = l2e v src i" by (simp add: l2e_def l2)
  obtain H where ok: "vm_ok pool v H UNIV" using c' by blast
  have i: "i < 512" using Suc.prems(2) by simp
  show ?case
  proof (cases "has (l2e v src i) DESC_VALID")
    case False
    then have "frame_of v src (Pg i j) = None" for j by (simp add: frame_of.simps entry_def)
    from cloned_skip [OF assms(1) Suc.prems(1) this]
    show ?thesis using Suc.IH [of "i + 1" v] Suc.prems False e by simp
  next
    case True
    note t = l2e_tables [OF ok sp i True]
    obtain v1 okk where s: "clone_l3 (\<lambda>v l3. clone_cow_entry v l3 dst) v (desc_pa (l2e v src i)) i 0 512 = (v1, okk)"
      by fastforce
    have "if okk then cloned pool u src dst (512 * (i + 1)) v1 else clone_stopped pool u src dst v1"
      using clone_l3_ok [OF assms(1) _ i _ t(2) s] Suc.prems(1) by simp
    then show ?thesis using Suc.IH [of "i + 1" v1] Suc.prems True t(1) e s by (cases okk) simp_all
  qed
qed

section \<open>A new space\<close>

lemma frame_of_other:
  "spaces v' b = spaces v b \<Longrightarrow> rd64 v' = rd64 v \<Longrightarrow> frame_of v' b r = frame_of v b r"
  by (cases r) (simp_all add: frame_of.simps l2e_def entry_def asp_def)

lemma seen_other: "spaces v' b = spaces v b \<Longrightarrow> rd64 v' = rd64 v \<Longrightarrow> seen v' b i j = seen v b i j"
proof -
  assume h: "spaces v' b = spaces v b" "rd64 v' = rd64 v"
  have "frame_words v' = frame_words v" by (simp add: frame_words_def h(2) fun_eq_iff)
  moreover have "entry v' b i j = entry v b i j" by (simp add: entry_def l2e_def asp_def h)
  ultimately show ?thesis unfolding seen_def frame_of_other [OF h] by simp
qed

text \<open>Two fresh frames, the second empty, become the root and the second table of a new space.\<close>

lemma add_space_ok:
  assumes ok: "vm_ok pool v H UNIV" and new: "spaces v a = None" "a \<noteq> 0" and ne: "l1_pa s \<noteq> l2_pa s"
    and l1: "H (l1_pa s) = 1" "refs_to v UNIV (l1_pa s) = {}"
    and l2: "H (l2_pa s) = 1" "refs_to v UNIV (l2_pa s) = {}" "frame_words v (l2_pa s) = (\<lambda>_. 0)"
  defines "v' \<equiv> v\<lparr>spaces := (spaces v)(a := Some s)\<rparr>"
  shows "vm_ok pool v' H UNIV" "frame_of v' a (Pg i j) = None" "b \<noteq> a \<Longrightarrow> seen v' b = seen v b"
    "b \<noteq> a \<Longrightarrow> frame_of v' b = frame_of v b"
proof -
  have rd: "rd64 v' = rd64 v" by (simp add: v'_def rd64_def fun_eq_iff)
  have other: "frame_of v' b r = frame_of v b r" if "b \<noteq> a" for b r
    using that by (intro frame_of_other [OF _ rd]) (simp add: v'_def)
  then show "b \<noteq> a \<Longrightarrow> frame_of v' b = frame_of v b" by blast
  show "b \<noteq> a \<Longrightarrow> seen v' b = seen v b"
    by (intro ext seen_other [OF _ rd]) (simp add: v'_def)
  have asp: "asp v' a = s" "spaces v' a = Some s" by (simp_all add: v'_def asp_def)
  have z: "l2e v' a i = 0" if "i < 512" for i
    using fun_cong [OF l2(3), of i] that by (simp add: l2e_def asp rd frame_words_def)
  then have e0: "entry v' a i j = 0" if "i < 512" for i j using that by (simp add: entry_def)
  have new_fr: "frame_of v' a r = (case r of L1T \<Rightarrow> Some (l1_pa s) | L2T \<Rightarrow> Some (l2_pa s) | _ \<Rightarrow> None)" for r
    using z e0 by (cases r) (auto simp: frame_of.simps asp)
  then show "frame_of v' a (Pg i j) = None" by simp
  have sub: "refs_to v' UNIV q \<subseteq> refs_to v UNIV q \<union> (if q = l1_pa s then {(a, L1T)} else {}) \<union>
      (if q = l2_pa s then {(a, L2T)} else {})" for q
  proof
    show "y \<in> refs_to v UNIV q \<union> (if q = l1_pa s then {(a, L1T)} else {}) \<union> (if q = l2_pa s then {(a, L2T)} else {})"
      if "y \<in> refs_to v' UNIV q" for y
      using that new_fr [of "snd y"] other [of "fst y" "snd y"]
      by (cases y; cases "fst y = a"; cases "snd y") (auto simp: refs_to_def)
  qed
  have le: "card (refs_to v' UNIV q) \<le> H q" for q
  proof -
    consider "q = l1_pa s" | "q = l2_pa s" | "q \<noteq> l1_pa s" "q \<noteq> l2_pa s" by blast
    then show ?thesis
    proof cases
      case 1
      then have "refs_to v' UNIV q \<subseteq> {(a, L1T)}" using sub [of q] l1(2) ne by simp
      from card_mono [OF _ this] show ?thesis using 1 l1(1) by simp
    next
      case 2
      then have "refs_to v' UNIV q \<subseteq> {(a, L2T)}" using sub [of q] l2(2) ne by simp
      from card_mono [OF _ this] show ?thesis using 2 l2(1) by simp
    next
      case 3
      then have "refs_to v' UNIV q \<subseteq> refs_to v UNIV q" using sub [of q] by simp
      from card_mono [OF vm_ok_refs(1) [OF ok] this] show ?thesis using vm_ok_refs(2) [OF ok, of q] by simp
    qed
  qed
  have R: "refs_ok v H UNIV" using ok by (simp add: vm_ok_def)
  have aspo: "asp v' b = asp v b" if "b \<noteq> a" for b using that by (simp add: asp_def v'_def)
  have ent: "entry v' b i j = entry v b i j" "l2e v' b i = l2e v b i" if "b \<noteq> a" for b i j
    by (simp_all add: entry_def l2e_def rd aspo [OF that])
  have "refs_ok v' H UNIV" unfolding refs_ok_def
  proof (intro conjI allI impI; (elim conjE)?)
    show "card (refs_to v' UNIV q) \<le> H q" for q by (rule le)
  next
    fix b r q assume h: "frame_of v' b r = Some q" "exclusive v' b r"
    show "H q = 1"
    proof (cases "b = a")
      case True
      then show ?thesis using h new_fr [of r] l1(1) l2(1) by (cases r) auto
    next
      case False
      have "exclusive v b r" using h(2) ent [OF False] by (cases r) auto
      then show ?thesis using vm_ok_one [OF ok UNIV_I] h(1) other [OF False] by simp
    qed
  next
    fix b i1 j1 i2 j2 q
    assume "frame_of v' b (Pg i1 j1) = Some q" "frame_of v' b (Pg i2 j2) = Some q"
    then have "i1 = i2 \<and> j1 = j2"
      using R other new_fr unfolding refs_ok_def by (cases "b = a") (auto, metis+)
    then show "i1 = i2" "j1 = j2" by simp_all
  next
    fix b i q assume h: "frame_of v' b (L3T i) = Some q"
    then have "b \<noteq> a" using new_fr [of "L3T i"] by auto
    then show "has (l2e v' b i) DESC_TABLE" using R h other ent unfolding refs_ok_def by (metis UNIV_I)
  next
    fix b i j q assume h: "frame_of v' b (Pg i j) = Some q"
    then have "b \<noteq> a" using new_fr [of "Pg i j"] by auto
    then show "plain (entry v' b i j)" using R h other ent unfolding refs_ok_def by (metis UNIV_I)
  qed
  then show "vm_ok pool v' H UNIV" using ok new(2) by (auto simp: vm_ok_def v'_def)
qed

lemma wr64_spaces: "wr64 (v\<lparr>spaces := S\<rparr>) p w = (wr64 v p w)\<lparr>spaces := S\<rparr>"
  by (simp add: wr64_def set_pmem_def)

lemma copy_l1:
  "(fold (\<lambda>i v. if i = 64 then v else wr64 v (l1 + 8 * i) (l1_pgtable v ! i)) ks (v\<lparr>spaces := S\<rparr>) =
      (fold (\<lambda>i v. if i = 64 then v else wr64 v (l1 + 8 * i) (l1_pgtable v ! i)) ks v)\<lparr>spaces := S\<rparr>)"
  by (induction ks arbitrary: v) (simp_all add: wr64_spaces split: if_splits)

lemma copy_l1_mem:
  assumes "\<forall>i\<in>set ks. i < 512"
  shows "\<exists>m. fold (\<lambda>i v. if i = 64 then v else wr64 v (l1 + 8 * i) (l1_pgtable v ! i)) ks v =
      set_pmem v ((vm_pmem v)\<lparr>mem := m\<rparr>) \<and>
    (\<forall>x. m x \<noteq> mem (vm_pmem v) x \<longrightarrow> l1 \<le> x \<and> x < l1 + 4096)"
  using assms
proof (induction ks arbitrary: v)
  case Nil
  then show ?case by (intro exI [of _ "mem (vm_pmem v)"]) simp
next
  case (Cons i ks)
  show ?case
  proof (cases "i = 64")
    case True
    then show ?thesis using Cons by simp
  next
    case False
    let ?v = "wr64 v (l1 + 8 * i) (l1_pgtable v ! i)"
    obtain m where m: "fold (\<lambda>i v. if i = 64 then v else wr64 v (l1 + 8 * i) (l1_pgtable v ! i)) ks ?v =
        set_pmem ?v ((vm_pmem ?v)\<lparr>mem := m\<rparr>)"
      "\<forall>x. m x \<noteq> mem (vm_pmem ?v) x \<longrightarrow> l1 \<le> x \<and> x < l1 + 4096"
      using Cons.IH [of ?v] Cons.prems by auto
    have "set_pmem ?v ((vm_pmem ?v)\<lparr>mem := m\<rparr>) = set_pmem v ((vm_pmem v)\<lparr>mem := m\<rparr>)" by (simp add: wr64_def)
    moreover have "\<forall>x. m x \<noteq> mem (vm_pmem v) x \<longrightarrow> l1 \<le> x \<and> x < l1 + 4096"
    proof (intro allI impI)
      fix x assume x: "m x \<noteq> mem (vm_pmem v) x"
      show "l1 \<le> x \<and> x < l1 + 4096"
      proof (cases "x = l1 + 8 * i")
        case True
        then show ?thesis using Cons.prems by simp
      next
        case False
        then show ?thesis using m(2) x by simp
      qed
    qed
    ultimately show ?thesis using m(1) False by (intro exI [of _ m]) simp
  qed
qed

lemma kmalloc_simps:
  assumes "vm_kmalloc v n = Some (v', p)"
  shows "vm_cache v' = vm_cache v" "vm_rc v' = vm_rc v" "spaces v' = spaces v" "l1_pgtable v' = l1_pgtable v"
  using assms by (auto simp: vm_kmalloc_def)

lemma kfree_simps:
  assumes "vm_kfree v p = Some v'"
  shows "vm_cache v' = vm_cache v" "vm_rc v' = vm_rc v" "spaces v' = spaces v" "l1_pgtable v' = l1_pgtable v"
  using assms by (auto simp: vm_kfree_def)

text \<open>Nothing in the tables or the frames has changed that a space can see.\<close>

lemma heap_only:
  assumes "vm_ok pool v H L" "vm_cache v' = vm_cache v" "vm_rc v' = vm_rc v" "spaces v' = spaces v"
  shows "vm_ok pool v' H L" "seen v' = seen v" "frame_of v' = frame_of v" "refs_to v' = refs_to v" "frame_words v' = frame_words v"
proof -
  have p: "vm_pmem v' = vm_pmem v" by (simp add: assms(2))
  note t = same_tables [OF assms(1) p assms(3) same_roots_refl [OF assms(4)]]
  show "vm_ok pool v' H L" "seen v' = seen v" "frame_of v' = frame_of v" by (fact t)+
  show "refs_to v' = refs_to v" by (simp add: fun_eq_iff refs_to_def t(3))
  show "frame_words v' = frame_words v" by (simp add: fun_eq_iff frame_words_def rd64_def p)
qed

definition new_space :: "nat \<Rightarrow> nat \<Rightarrow> address_space" where
  "new_space l1 l2 = \<lparr>l1_pa = l1, l2_pa = l2, user_pages_alloced = 0, heap_brk = USER_HEAP_BASE, vmas = [],
     mmap_brk = USER_MMAP_BASE, wm_freelist = [], as_refcount = 1\<rparr>"

text \<open>What making a space does: the others see what they saw, and the new one sees nothing.\<close>

definition created :: "nat set \<Rightarrow> vm \<Rightarrow> (nat \<Rightarrow> nat) \<Rightarrow> vm \<Rightarrow> nat \<Rightarrow> bool" where
  "created pool v H v' a \<longleftrightarrow>
     (\<exists>H'. vm_ok pool v' H' UNIV \<and> (\<forall>q. 1 \<le> H q \<longrightarrow> H' q = H q)) \<and>
     (\<forall>b. b \<noteq> a \<or> a = 0 \<longrightarrow> seen v' b = seen v b) \<and>
     (\<forall>b i j. b \<noteq> a \<or> a = 0 \<longrightarrow> frame_of v' b (Pg i j) = frame_of v b (Pg i j)) \<and>
     (if a = 0 then spaces v' = spaces v
      else spaces v a = None \<and> (\<exists>l1 l2. spaces v' = (spaces v)(a := Some (new_space l1 l2))) \<and>
           (\<forall>i j. frame_of v' a (Pg i j) = None))"

lemma created_none:
  assumes "vm_ok pool v' H' UNIV" "quiet_vm UNIV v H v' H'" "spaces v' = spaces v"
  shows "created pool v H v' 0"
proof -
  have "seen v' b = seen v b" for b using quiet_vmD(3) [OF assms(2)] by (intro ext) simp
  then show ?thesis
    unfolding created_def using assms quiet_vmD(2,6) [OF assms(2)] by (intro conjI exI [of _ H']) simp_all
qed

lemma new_space_ok:
  assumes ok: "vm_ok pool v H UNIV" and a: "spaces v a = None" "a \<noteq> 0"
    and al: "vm_alloc_page v = (v2, l1)" "l1 \<noteq> 0" "vm_alloc_page v2 = (v3, l2)" "l2 \<noteq> 0"
  defines "v4 \<equiv> v3\<lparr>spaces := (spaces v3)(a := Some (new_space l1 l2))\<rparr>"
  defines "v5 \<equiv> fold (\<lambda>i v. if i = 64 then v else wr64 v (l1 + 8 * i) (l1_pgtable v ! i)) [0..<512] v4"
  shows "created pool v H (wr64 v5 (l1 + 8 * 64) w) a"
proof -
  note 1 = alloc_page_ok [OF ok al(1,2)]
  note 2 = alloc_page_ok [OF 1(1) al(3,4)]
  let ?H = "H(l1 := 1, l2 := 1)"
  have ne: "l1 \<noteq> l2" using 2(3) by auto
  have q: "quiet_vm UNIV v H v3 ?H"
    by (rule quiet_vm_trans [OF alloc_quiet [OF ok al(1,2)] alloc_quiet [OF 1(1) al(3,4)]])
  have r1: "refs_to v3 UNIV l1 = {}"
    using refs_agree [OF 2(2) _ vm_ok_refs(3) [OF 1(1)]] 1(5) 2(9) by simp
  let ?f = "fold (\<lambda>i v. if i = 64 then v else wr64 v (l1 + 8 * i) (l1_pgtable v ! i)) [0..<512] v3"
  obtain m0 where m0: "?f = set_pmem v3 ((vm_pmem v3)\<lparr>mem := m0\<rparr>)"
    "\<forall>x. m0 x \<noteq> mem (vm_pmem v3) x \<longrightarrow> l1 \<le> x \<and> x < l1 + 4096"
    using copy_l1_mem [of "[0..<512]" l1 v3] by auto
  define m where "m = m0(l1 + 8 * 64 := unat w)"
  define u where "u = set_pmem v3 ((vm_pmem v3)\<lparr>mem := m\<rparr>)"
  have m: "\<forall>x. m x \<noteq> mem (vm_pmem v3) x \<longrightarrow> l1 \<le> x \<and> x < l1 + 4096" using m0(2) by (auto simp: m_def)
  have wu: "wr64 ?f (l1 + 8 * 64) w = u" unfolding m0(1) by (simp add: u_def m_def wr64_def)
  have v': "wr64 v5 (l1 + 8 * 64) w = u\<lparr>spaces := (spaces u)(a := Some (new_space l1 l2))\<rparr>"
    unfolding v5_def v4_def copy_l1 wr64_spaces wu by (simp add: u_def)
  have H1: "1 \<le> ?H l1" by simp
  note p = poke_page_ok [OF 2(1) H1 1(7) r1 m, folded u_def]
  have su: "spaces u = spaces v3" by (simp add: u_def)
  have refu: "refs_to u UNIV q = refs_to v3 UNIV q" for q
    by (rule refs_agree [OF p(2) _ vm_ok_refs(3) [OF 2(1)]]) (simp add: su)
  have words: "frame_words u q = frame_words v3 q" if "frame_addr q" "q \<noteq> l1" for q
  proof
    fix k
    have "k < 512 \<Longrightarrow> m (q + 8 * k) = mem (vm_pmem v3) (q + 8 * k)"
      using page_range_disjoint [OF 1(7) that(1) that(2) [symmetric], of k] m by blast
    then show "frame_words u q k = frame_words v3 q k" by (simp add: frame_words_def rd64_def u_def)
  qed
  have rt: "rooted UNIV" by (rule vm_ok_refs(3) [OF ok])
  have a3: "agree v v3 UNIV" by (rule agree_trans [OF 1(2) 2(2) _ rt]) (simp add: 1(9))
  have au: "agree v u UNIV" by (rule agree_trans [OF a3 p(2) _ rt]) (simp add: 1(9) 2(9))
  have su': "spaces u = spaces v" by (simp add: su 1(9) 2(9))
  have quv: "quiet_vm UNIV v H u ?H"
  proof (rule quiet_agree [OF rt au])
    fix q assume h: "1 \<le> H q" "refs_to v UNIV q = {}" "frame_addr q"
    then have "q \<noteq> l1" using 1(3) by auto
    then show "frame_words u q = frame_words v q" using words [OF h(3)] quiet_vmD(8) [OF q h] by simp
  qed (use quiet_vmD(6) [OF q] in \<open>simp_all add: su'\<close>)
  have z: "frame_words u l2 = (\<lambda>_. 0)" using words [OF 2(7)] ne 2(6) by simp
  have au': "spaces u a = None" using a su' by simp
  have ns: "l1_pa (new_space l1 l2) = l1" "l2_pa (new_space l1 l2) = l2" by (simp_all add: new_space_def)
  have own: "?H l1 = 1" "?H l2 = 1" and ru: "refs_to u UNIV l1 = {}" "refs_to u UNIV l2 = {}"
    using ne refu r1 2(5) by simp_all
  note ad' = add_space_ok [OF p(1) au' a(2), of "new_space l1 l2", unfolded ns, OF ne own(1) ru(1) own(2) ru(2) z,
      folded v']
  let ?v = "wr64 v5 (l1 + 8 * 64) w"
  have "seen ?v b = seen v b" if "b \<noteq> a" for b
    unfolding ad'(3) [OF that] using quiet_vmD(3) [OF quv] by (intro ext) simp
  moreover have "frame_of ?v b (Pg i j) = frame_of v b (Pg i j)" if "b \<noteq> a" for b i j
    unfolding ad'(4) [OF that] using quiet_vmD(2) [OF quv] by simp
  moreover have "spaces ?v = (spaces v)(a := Some (new_space l1 l2))"
    unfolding v' by (simp add: su')
  moreover have "\<exists>H'. vm_ok pool ?v H' UNIV \<and> (\<forall>q. 1 \<le> H q \<longrightarrow> H' q = H q)"
    using ad'(1) quiet_vmD(6) [OF quv] by blast
  ultimately show ?thesis
    unfolding created_def using ad'(2) a by auto
qed

lemma create_ok:
  assumes ok: "vm_ok pool v H UNIV" and c: "address_space_create v = Some (v', a)"
    and fresh: "\<And>v1 p. vm_kmalloc v 80 = Some (v1, p) \<Longrightarrow> p \<noteq> 0 \<Longrightarrow> spaces v p = None"
  shows "created pool v H v' a"
proof -
  obtain v1 p where k: "vm_kmalloc v 80 = Some (v1, p)"
    using c by (auto simp: address_space_create_def Option.bind_eq_Some_conv)
  note ks = kmalloc_simps [OF k]
  note h1 = heap_only [OF ok ks(1-3)]
  have q1: "quiet_vm UNIV v H v1 H"
    by (rule quiet_agree [OF vm_ok_refs(3) [OF ok]]) (simp_all add: ks h1)
  have lift: "created pool v H v' x" if "created pool v1 H v' x" for x
    using that unfolding created_def ks(3) h1(2,3) .
  have freed: "created pool v H v' 0"
    if "vm_ok pool u G UNIV" "quiet_vm UNIV v1 H u G" "spaces u = spaces v1" "vm_kfree u p = Some v'" for u G
  proof -
    note kf = kfree_simps [OF that(4)]
    note h2 = heap_only [OF that(1) kf(1-3)]
    have "quiet_vm UNIV u G v' G"
      by (rule quiet_agree [OF vm_ok_refs(3) [OF ok]]) (simp_all add: kf h2)
    then have "quiet_vm UNIV v1 H v' G" by (rule quiet_vm_trans [OF that(2)])
    then show ?thesis using that(3) kf(3) by (intro lift created_none [OF h2(1)]) simp_all
  qed
  show ?thesis
  proof (cases "p = 0")
    case True
    then have "v' = v1" "a = 0" using c k by (simp_all add: address_space_create_def)
    then show ?thesis using created_none [OF h1(1) q1 ks(3)] by simp
  next
    case p: False
    obtain v2 l1 where al1: "vm_alloc_page v1 = (v2, l1)" by fastforce
    obtain v3 l2 where al2: "vm_alloc_page v2 = (v3, l2)" by fastforce
    note cc = c [unfolded address_space_create_def k, simplified, unfolded al1, simplified p Let_def, simplified]
    show ?thesis
    proof (cases "l1 = 0")
      case True
      then have "v2 = v1" using alloc_page_fails [OF _ h1(1)] al1 by simp
      moreover have "vm_kfree v2 p = Some v'" "a = 0" using cc True by auto
      ultimately show ?thesis using freed [OF h1(1)] by simp
    next
      case l1: False
      note a1 = alloc_page_ok [OF h1(1) al1 l1]
      note q2 = alloc_quiet [OF h1(1) al1 l1]
      show ?thesis
      proof (cases "l2 = 0")
        case True
        then have "v3 = v2" using alloc_page_fails [OF _ a1(1)] al2 by simp
        moreover have "vm_kfree v3 p = Some v'" "a = 0" using cc l1 True al2 by auto
        ultimately show ?thesis using freed [OF a1(1) q2 a1(9)] by simp
      next
        case l2: False
        have sp: "spaces v1 p = None" using fresh [OF k p] by (simp add: ks(3))
        note n = new_space_ok [OF h1(1) sp p al1 l1 al2 l2, of "page_bits l2 OR DESC_VALID OR DESC_TABLE"]
        have "a = p" "v' = wr64 (fold (\<lambda>i v. if i = 64 then v else wr64 v (l1 + 8 * i) (l1_pgtable v ! i)) [0..<512]
            (v3\<lparr>spaces := (spaces v3)(p := Some (new_space l1 l2))\<rparr>)) (l1 + 8 * 64)
              (page_bits l2 OR DESC_VALID OR DESC_TABLE)"
          using cc l1 l2 al2 by (auto simp: new_space_def)
        then show ?thesis using n by (intro lift) simp
      qed
    qed
  qed
qed

end
