(* ===== verification/AddrSpaceDrop.thy ===== *)
theory AddrSpaceDrop
  imports AddrSpaceFork
begin

text \<open>
  Taking an address space apart.  Its references leave the set \<open>L\<close> one by one, each with the
  ownership it stood for, so that the invariant holds between any two frees; the other
  spaces see what they saw.
\<close>

section \<open>Dropping references\<close>

lemma vm_ok_fewer:
  assumes ok: "vm_ok pool v H L" and sub: "M \<subseteq> L" and rt: "rooted M"
  shows "vm_ok pool v H M"
proof -
  have "refs_to v M q \<subseteq> refs_to v L q" for q using sub by (auto simp: refs_to_def)
  then have "card (refs_to v M q) \<le> H q" for q
    using card_mono [OF vm_ok_refs(1) [OF ok]] vm_ok_refs(2) [OF ok, of q] le_trans by blast
  moreover have "refs_ok v H L" using ok by (simp add: vm_ok_def)
  ultimately have "refs_ok v H M" using sub unfolding refs_ok_def by blast
  then show ?thesis using ok rt by (simp add: vm_ok_def)
qed

lemma refs_to_less:
  assumes ok: "vm_ok pool v H L" and sub: "M \<subseteq> L" and r: "(a, r) \<in> L" "(a, r) \<notin> M" "frame_of v a r = Some pa"
  shows "card (refs_to v M pa) < H pa"
proof -
  have "refs_to v M pa \<subset> refs_to v L pa" using sub r by (auto simp: refs_to_def)
  then have "card (refs_to v M pa) < card (refs_to v L pa)" by (rule psubset_card_mono [OF vm_ok_refs(1) [OF ok]])
  then show ?thesis using vm_ok_refs(2) [OF ok, of pa] by simp
qed

text \<open>A table page goes back to the allocator directly.\<close>

lemma free_page_ok:
  assumes ok: "vm_ok pool v H L" and one: "H pa = 1" and none: "refs_to v L pa = {}"
  defines "v' \<equiv> vm_free_page v pa"
  shows "vm_ok pool v' (H(pa := 0)) L" "agree v v' L" "spaces v' = spaces v" "vm_kern v' = vm_kern v"
proof -
  obtain xs where fr: "frames_ok pool (vm_pmem v) (vm_rc v) H xs" using vm_ok_frames [OF ok] ..
  have pa: "pa \<in> pool" using fr one by (force simp: frames_ok_def)
  have p: "page_ok pa" and fa: "frame_addr pa"
    using ok pa fr by (auto simp: vm_ok_def frames_ok_def frame_addr_def page_ok_def)
  have v': "v' = set_pmem v (push_free (vm_pmem v) pa)"
    using p by (auto simp: v'_def vm_free_page_def pmem_free_page_def page_ok_def)
  show sp: "spaces v' = spaces v" "vm_kern v' = vm_kern v" by (simp_all add: v')
  have "mem (vm_pmem v') (q + 8 * k) = mem (vm_pmem v) (q + 8 * k)"
    if "(b, r) \<in> L" "frame_of v b r = Some q" "k < 512" for b r q k
    using page_words_disjoint [OF vm_ok_owner(3) [OF ok that(1,2)] fa, of k 0] refs_emptyD [OF none that(1)] that
    by (auto simp: v' push_free_def)
  then show ag: "agree v v' L" unfolding agree_def by blast
  show "vm_ok pool v' (H(pa := 0)) L"
  proof (rule vm_ok_quiet [OF ok _ ag])
    show "frames_ok pool (vm_pmem v') (vm_rc v') (H(pa := 0)) (pa # xs)"
      using frames_free [OF fr one] p by (auto simp: v' pmem_free_page_def page_ok_def)
    show "card (refs_to v L q) \<le> (H(pa := 0)) q" for q
      using vm_ok_refs(2) [OF ok, of q] none by (cases "q = pa") simp_all
    show "(H(pa := 0)) q = 1" if "(b, r) \<in> L" "frame_of v b r = Some q" "H q = 1" for b r q
      using that refs_emptyD [OF none that(1)] by auto
  qed (simp add: sp)
qed

section \<open>The loops of the teardown\<close>

text \<open>What is left of space \<open>a\<close> before entry \<open>j\<close> of table \<open>i\<close>, with all of the others.\<close>

definition left :: "nat \<Rightarrow> nat \<Rightarrow> nat \<Rightarrow> (nat \<times> tref) set" where
  "left a i j = {(b, r). b \<noteq> a \<or>
     (case r of L3T k \<Rightarrow> i \<le> k | Pg k m \<Rightarrow> i < k \<or> k = i \<and> j \<le> m | _ \<Rightarrow> True)}"

definition others :: "nat \<Rightarrow> (nat \<times> tref) set" where
  "others a = {(b, r). b \<noteq> a}"

lemma left_sets [simp]:
  "rooted (left a i j)" "rooted (others a)" "others a \<subseteq> left a i j" "left a i (Suc j) \<subseteq> left a i j"
  "left a (Suc i) 0 \<subseteq> left a i j" "(a, L2T) \<in> left a i j" "(a, L1T) \<in> left a i j" "(a, L3T k) \<in> left a i j \<longleftrightarrow> i \<le> k"
  by (auto simp: rooted_def left_def others_def split: tref.splits)

lemma agree_mono: "agree v v' L \<Longrightarrow> M \<subseteq> L \<Longrightarrow> agree v v' M"
  unfolding agree_def by blast

lemma others_agree:
  "agree v v' L \<Longrightarrow> others a \<subseteq> L \<Longrightarrow> spaces v' = spaces v \<Longrightarrow> changes (others a) {} v v'"
  by (rule agree_changes [OF left_sets(2) agree_mono]) simp_all

lemma teardown_l3_ok:
  assumes "vm_ok pool v H (left a i j)" "spaces v a \<noteq> None" "frame_of v a (L3T i) = Some l3" "i < 512" "j + n = 512"
  shows "\<exists>H'. vm_ok pool (teardown_l3 v l3 j n) H' (left a i 512) \<and>
    changes (others a) {} v (teardown_l3 v l3 j n) \<and> spaces (teardown_l3 v l3 j n) = spaces v \<and>
    vm_kern (teardown_l3 v l3 j n) = vm_kern v \<and> frame_of (teardown_l3 v l3 j n) a (L3T i) = Some l3"
  using assms
proof (induction n arbitrary: v H j)
  case 0
  then show ?case by auto
next
  case (Suc n)
  note ok = Suc.prems(1) and sp = Suc.prems(2) and l3 = Suc.prems(3) and i = Suc.prems(4)
  have j: "j < 512" using Suc.prems(5) by simp
  let ?M = "left a i (Suc j)"
  have okM: "vm_ok pool v H ?M" by (rule vm_ok_fewer [OF ok]) simp_all
  have e: "rd64 v (l3 + 8 * j) = entry v a i j" using frame_of_L3D [OF l3] by (simp add: entry_def)
  show ?case
  proof (cases "has (entry v a i j) DESC_VALID")
    case False
    then show ?thesis using Suc.IH [OF okM sp l3 i] Suc.prems(5) e by simp
  next
    case True
    let ?pa = "desc_pa (entry v a i j)"
    have fr: "frame_of v a (Pg i j) = Some ?pa" by (rule entry_frame [OF sp i j True])
    have in_L: "(a, Pg i j) \<in> left a i j" "(a, Pg i j) \<notin> ?M" by (simp_all add: left_def)
    have "plain (entry v a i j)" by (rule entry_plain [OF ok in_L(1) fr])
    then have d: "drop_page v (entry v a i j) = vm_dec_and_free v ?pa" by (simp add: drop_page_def plain_def)
    note rel = release_page_ok [OF okM refs_to_less [OF ok left_sets(4) in_L fr]]
    let ?v = "vm_dec_and_free v ?pa"
    have l3': "frame_of ?v a (L3T i) = Some l3"
      using frame_of_agree [OF rel(2) _ left_sets(1), of a "L3T i"] l3 by (simp add: rel(3))
    have sp': "spaces ?v a \<noteq> None" by (simp only: rel(3) sp not_False_eq_True)
    obtain H' where "vm_ok pool (teardown_l3 ?v l3 (Suc j) n) H' (left a i 512)"
      "changes (others a) {} ?v (teardown_l3 ?v l3 (Suc j) n)" "spaces (teardown_l3 ?v l3 (Suc j) n) = spaces ?v"
      "vm_kern (teardown_l3 ?v l3 (Suc j) n) = vm_kern ?v" "frame_of (teardown_l3 ?v l3 (Suc j) n) a (L3T i) = Some l3"
      using Suc.IH [OF rel(1) sp' l3' i] Suc.prems(5) by auto
    moreover have "changes (others a) {} v ?v" by (rule others_agree [OF rel(2)]) (simp_all add: rel(3))
    ultimately show ?thesis
      using True e d changes_trans [of "others a" "{}" v ?v "{}"] by (auto simp: rel(3,4))
  qed
qed

lemma teardown_l2_ok:
  assumes "vm_ok pool v H (left a i 0)" "spaces v a \<noteq> None" "i + n = 512" "l2 = l2_pa (asp v a)"
  shows "\<exists>H'. vm_ok pool (teardown_l2 v l2 i n) H' (left a 512 0) \<and>
    changes (others a) {} v (teardown_l2 v l2 i n) \<and> spaces (teardown_l2 v l2 i n) = spaces v \<and>
    vm_kern (teardown_l2 v l2 i n) = vm_kern v"
  using assms
proof (induction n arbitrary: v H i)
  case 0
  then show ?case by auto
next
  case (Suc n)
  note ok = Suc.prems(1) and sp = Suc.prems(2) and l2 = Suc.prems(4)
  have i: "i < 512" using Suc.prems(3) by simp
  have e: "rd64 v (l2 + 8 * i) = l2e v a i" by (simp add: l2e_def l2)
  have okM: "vm_ok pool v H (left a (Suc i) 0)" by (rule vm_ok_fewer [OF ok]) simp_all
  show ?case
  proof (cases "has (l2e v a i) DESC_VALID")
    case False
    then show ?thesis using Suc.IH [OF okM sp] Suc.prems(3,4) e by simp
  next
    case True
    let ?l3 = "desc_pa (l2e v a i)"
    have l3: "frame_of v a (L3T i) = Some ?l3" using True sp i by (simp add: frame_of.simps)
    have tab: "has (l2e v a i) DESC_TABLE"
      using ok l3 unfolding vm_ok_def refs_ok_def by (metis left_sets(8) order_refl)
    let ?u = "teardown_l3 v ?l3 0 512"
    obtain G where u: "vm_ok pool ?u G (left a i 512)" "changes (others a) {} v ?u" "spaces ?u = spaces v"
      "vm_kern ?u = vm_kern v" "frame_of ?u a (L3T i) = Some ?l3"
      using teardown_l3_ok [OF ok sp l3 i] by auto
    have in_L: "(a, L3T i) \<in> left a i 512" "(a, L3T i) \<notin> left a (Suc i) 0" by simp_all
    have one: "G ?l3 = 1" by (rule vm_ok_one [OF u(1) in_L(1) u(5)]) simp
    have okN: "vm_ok pool ?u G (left a (Suc i) 0)" by (rule vm_ok_fewer [OF u(1)]) simp_all
    have "card (refs_to ?u (left a (Suc i) 0) ?l3) < 1"
      using refs_to_less [OF u(1) left_sets(5) in_L u(5)] one by simp
    then have none: "refs_to ?u (left a (Suc i) 0) ?l3 = {}" using vm_ok_refs(1) [OF okN, of ?l3] by simp
    note f = free_page_ok [OF okN one none]
    let ?w = "vm_free_page ?u ?l3"
    have spw: "spaces ?w a \<noteq> None" "l2 = l2_pa (asp ?w a)" using sp l2 by (simp_all add: asp_def f(3) u(3))
    obtain H' where "vm_ok pool (teardown_l2 ?w l2 (Suc i) n) H' (left a 512 0)"
      "changes (others a) {} ?w (teardown_l2 ?w l2 (Suc i) n)" "spaces (teardown_l2 ?w l2 (Suc i) n) = spaces ?w"
      "vm_kern (teardown_l2 ?w l2 (Suc i) n) = vm_kern ?w"
      using Suc.IH [OF f(1) spw(1)] Suc.prems(3) spw(2) by auto
    moreover have "changes (others a) {} ?u ?w" by (rule others_agree [OF f(2)]) (simp_all add: f(3))
    then have "changes (others a) {} v ?w" using changes_trans [OF u(2)] by fastforce
    ultimately show ?thesis
      using True tab e changes_trans [of "others a" "{}" v ?w "{}"] by (auto simp: f(3,4) u(3,4) Let_def)
  qed
qed

section \<open>The last reference to a space\<close>

lemma free_nodes_simps:
  "free_nodes v ps = Some v' \<Longrightarrow> vm_cache v' = vm_cache v \<and> vm_rc v' = vm_rc v \<and> spaces v' = spaces v"
proof (induction ps arbitrary: v)
  case (Cons p ps)
  then obtain v1 where "vm_kfree v p = Some v1" "free_nodes v1 ps = Some v'"
    by (auto simp: Option.bind_eq_Some_conv)
  then show ?case using Cons.IH [of v1] kfree_simps [of v p v1] by auto
qed simp

text \<open>The fields of a space that the teardown empties have no part in the tables.\<close>

definition same_vm :: "vm \<Rightarrow> vm \<Rightarrow> bool" where
  "same_vm v v' \<longleftrightarrow> vm_cache v' = vm_cache v \<and> vm_rc v' = vm_rc v \<and> same_roots v v' \<and> dom (spaces v') = dom (spaces v)"

lemma same_vm_trans: "same_vm u v \<Longrightarrow> same_vm v w \<Longrightarrow> same_vm u w"
  by (auto simp: same_vm_def intro: same_roots_trans)

lemma same_vm_spaces: "vm_cache v' = vm_cache v \<Longrightarrow> vm_rc v' = vm_rc v \<Longrightarrow> spaces v' = spaces v \<Longrightarrow> same_vm v v'"
  by (simp add: same_vm_def)

lemma same_vm_upd:
  "spaces v a \<noteq> None \<Longrightarrow> (\<And>s. l1_pa (f s) = l1_pa s \<and> l2_pa (f s) = l2_pa s) \<Longrightarrow> same_vm v (upd_as v a f)"
  using same_roots_upd_as [of v a f] same_roots_dom [of v "upd_as v a f"] by (simp add: same_vm_def)

lemma same_vm_ok:
  assumes "vm_ok pool v H L" "same_vm v v'"
  shows "vm_ok pool v' H L" "seen v' = seen v" "frame_of v' = frame_of v"
  using same_tables [OF assms(1), of v'] assms(2) by (simp_all add: same_vm_def)

lemma remove_space_ok:
  assumes ok: "vm_ok pool v H (others a)"
  defines "v' \<equiv> v\<lparr>spaces := (spaces v)(a := None)\<rparr>"
  shows "vm_ok pool v' H UNIV" "b \<noteq> a \<Longrightarrow> seen v' b = seen v b" "seen v' a = (\<lambda>_ _. None)"
    "b \<noteq> a \<Longrightarrow> frame_of v' b = frame_of v b"
proof -
  have rd: "rd64 v' = rd64 v" by (simp add: v'_def rd64_def fun_eq_iff)
  have sp: "spaces v' b = spaces v b" if "b \<noteq> a" for b using that by (simp add: v'_def)
  have fr: "frame_of v' b r = frame_of v b r" if "b \<noteq> a" for b r by (rule frame_of_other [OF sp [OF that] rd])
  then show "b \<noteq> a \<Longrightarrow> frame_of v' b = frame_of v b" by blast
  show "b \<noteq> a \<Longrightarrow> seen v' b = seen v b" by (intro ext seen_other [OF sp rd])
  have gone: "frame_of v' a r = None" for r by (cases r) (simp_all add: frame_of.simps v'_def)
  then show "seen v' a = (\<lambda>_ _. None)" by (simp add: seen_def fun_eq_iff)
  have ent: "entry v' b i j = entry v b i j" "l2e v' b i = l2e v b i" if "b \<noteq> a" for b i j
    by (simp_all add: entry_def l2e_def rd asp_def sp [OF that])
  have refs: "refs_to v' UNIV q = refs_to v (others a) q" for q
  proof (rule set_eqI)
    show "x \<in> refs_to v' UNIV q \<longleftrightarrow> x \<in> refs_to v (others a) q" for x
      using fr [of "fst x" "snd x"] gone [of "snd x"]
      by (cases "fst x = a") (auto simp: refs_to_def others_def split_beta)
  qed
  have R: "refs_ok v H (others a)" using ok by (simp add: vm_ok_def)
  have live: "b \<noteq> a \<and> (b, r) \<in> others a \<and> frame_of v b r = Some q" if "frame_of v' b r = Some q" for b r q
    using that gone fr by (cases "b = a") (auto simp: others_def)
  have ex: "exclusive v' b r = exclusive v b r" if "b \<noteq> a" for b r using ent [OF that] by (cases r) simp_all
  have "refs_ok v' H UNIV" unfolding refs_ok_def refs
  proof (intro conjI allI impI; (elim conjE)?)
    show "card (refs_to v (others a) q) \<le> H q" for q by (rule vm_ok_refs(2) [OF ok])
    show "H q = 1" if "frame_of v' b r = Some q" "exclusive v' b r" for b r q
      using R live [OF that(1)] ex that(2) unfolding refs_ok_def by blast
    show "i1 = i2" "j1 = j2" if "frame_of v' b (Pg i1 j1) = Some q" "frame_of v' b (Pg i2 j2) = Some q" for b i1 i2 j1 j2 q
      using R live [OF that(1)] live [OF that(2)] unfolding refs_ok_def by blast+
    show "has (l2e v' b i) DESC_TABLE" if "frame_of v' b (L3T i) = Some q" for b i q
      using R live [OF that] ent unfolding refs_ok_def by metis
    show "plain (entry v' b i j)" if "frame_of v' b (Pg i j) = Some q" for b i j q
      using R live [OF that] ent unfolding refs_ok_def by metis
  qed
  then show "vm_ok pool v' H UNIV" using ok by (auto simp: vm_ok_def v'_def rooted_def)
qed

section \<open>Dropping a reference to a space\<close>

definition dropped :: "nat set \<Rightarrow> vm \<Rightarrow> nat \<Rightarrow> vm \<Rightarrow> bool" where
  "dropped pool v a v' \<longleftrightarrow>
     (\<exists>H. vm_ok pool v' H UNIV) \<and> (\<forall>b. b \<noteq> a \<longrightarrow> seen v' b = seen v b \<and> spaces v' b = spaces v b) \<and>
     (let n = as_refcount (asp v a) - 1 in
      if n > 0 then seen v' a = seen v a \<and> spaces v' a = Some ((asp v a)\<lparr>as_refcount := n\<rparr>)
      else spaces v' a = None)"

lemma frame_of_L1: "spaces v a \<noteq> None \<Longrightarrow> frame_of v a L1T = Some (l1_pa (asp v a))"
  by (simp add: frame_of.simps)

text \<open>One of the two top tables goes: the references \<open>M\<close> stay.\<close>

lemma free_table_ok:
  assumes ok: "vm_ok pool v H L" and M: "M \<subseteq> L" "rooted M" "(a, r) \<in> L" "(a, r) \<notin> M" "others a \<subseteq> M"
    and f: "frame_of v a r = Some pa" "exclusive v a r"
  defines "v' \<equiv> vm_free_page v pa"
  shows "\<exists>H'. vm_ok pool v' H' M" "b \<noteq> a \<Longrightarrow> seen v' b = seen v b" "spaces v' = spaces v"
proof -
  have okM: "vm_ok pool v H M" by (rule vm_ok_fewer [OF ok M(1,2)])
  have one: "H pa = 1" by (rule vm_ok_one [OF ok M(3) f])
  have "card (refs_to v M pa) < 1" using refs_to_less [OF ok M(1,3,4) f(1)] one by simp
  then have none: "refs_to v M pa = {}" using vm_ok_refs(1) [OF okM, of pa] by simp
  note p = free_page_ok [OF okM one none, folded v'_def]
  show "\<exists>H'. vm_ok pool v' H' M" "spaces v' = spaces v" using p(1,3) by blast+
  have "changes (others a) {} v v'" by (rule others_agree [OF p(2) M(5) p(3)])
  from changesD(3) [OF this] show "b \<noteq> a \<Longrightarrow> seen v' b = seen v b" by (intro ext) (simp add: others_def)
qed

lemma nodes_same_vm:
  assumes "free_nodes v ps = Some u" "spaces v a \<noteq> None"
    "\<And>s. l1_pa (f s) = l1_pa s \<and> l2_pa (f s) = l2_pa s"
  shows "same_vm v (upd_as u a f)"
proof -
  note s = free_nodes_simps [OF assms(1)]
  show ?thesis
    by (rule same_vm_trans [OF same_vm_spaces same_vm_upd]) (use s assms(2,3) in simp_all)
qed

lemma same_vm_space: "same_vm v v' \<Longrightarrow> spaces v a \<noteq> None \<Longrightarrow> spaces v' a \<noteq> None"
  by (auto simp: same_vm_def dom_def)

lemma teardown_lists_ok:
  assumes "vm_ok pool v H L" "spaces v a \<noteq> None" "teardown_vmas v a = Some u" "teardown_wm_freelist u a = Some w"
  shows "vm_ok pool w H L" "seen w = seen v" "spaces w a \<noteq> None" "b \<noteq> a \<Longrightarrow> spaces w b = spaces v b"
    "l1_pa (asp w a) = l1_pa (asp v a)" "l2_pa (asp w a) = l2_pa (asp v a)"
proof -
  obtain x where x: "free_nodes v (map fst (vmas (asp v a))) = Some x" "u = upd_as x a (\<lambda>s. s\<lparr>vmas := []\<rparr>)"
    using assms(3) by (auto simp: teardown_vmas_def)
  obtain y where y: "free_nodes u (map fst (wm_freelist (asp u a))) = Some y" "w = upd_as y a (\<lambda>s. s\<lparr>wm_freelist := []\<rparr>)"
    using assms(4) by (auto simp: teardown_wm_freelist_def)
  have u: "same_vm v u" unfolding x(2) by (rule nodes_same_vm [OF x(1) assms(2)]) simp
  have w: "same_vm u w" unfolding y(2) by (rule nodes_same_vm [OF y(1) same_vm_space [OF u assms(2)]]) simp
  note vw = same_vm_trans [OF u w]
  show "vm_ok pool w H L" "seen w = seen v" by (rule same_vm_ok [OF assms(1) vw])+
  show "spaces w a \<noteq> None" by (rule same_vm_space [OF vw assms(2)])
  show "b \<noteq> a \<Longrightarrow> spaces w b = spaces v b"
    using free_nodes_simps [OF x(1)] free_nodes_simps [OF y(1)] by (simp add: x(2) y(2) upd_as_def)
  show "l1_pa (asp w a) = l1_pa (asp v a)" "l2_pa (asp w a) = l2_pa (asp v a)"
    using vw assms(2) by (auto simp: same_vm_def same_roots_def asp_def)
qed

lemma destroy_last_ok:
  assumes ok: "vm_ok pool v H UNIV" and a: "spaces v a \<noteq> None"
    and d: "do { v3 \<leftarrow> teardown_vmas (teardown_user_range v a) a; v4 \<leftarrow> teardown_wm_freelist v3 a;
             let v5 = vm_free_page v4 (l2_pa (asp v4 a));
             let v6 = vm_free_page v5 (l1_pa (asp v5 a));
             v7 \<leftarrow> vm_kfree v6 a;
             Some (v7\<lparr>spaces := (spaces v7)(a := None)\<rparr>) } = Some v'"
  shows "(\<exists>H. vm_ok pool v' H UNIV)" "b \<noteq> a \<Longrightarrow> seen v' b = seen v b" "b \<noteq> a \<Longrightarrow> spaces v' b = spaces v b"
    "spaces v' a = None"
proof -
  let ?v2 = "teardown_user_range v a"
  obtain v3 v4 where 3: "teardown_vmas ?v2 a = Some v3" "teardown_wm_freelist v3 a = Some v4"
    using d by (auto simp: Option.bind_eq_Some_conv)
  let ?v5 = "vm_free_page v4 (l2_pa (asp v4 a))"
  let ?v6 = "vm_free_page ?v5 (l1_pa (asp ?v5 a))"
  obtain v7 where 7: "vm_kfree ?v6 a = Some v7" "v' = v7\<lparr>spaces := (spaces v7)(a := None)\<rparr>"
    using d 3 by (auto simp: Option.bind_eq_Some_conv Let_def)
  obtain H2 where 2: "vm_ok pool ?v2 H2 (left a 512 0)" "changes (others a) {} v ?v2" "spaces ?v2 = spaces v"
    using teardown_l2_ok [OF vm_ok_fewer [OF ok subset_UNIV left_sets(1) [of a 0 0]] a, of 512 "l2_pa (asp v a)"] by (auto simp: teardown_user_range_def)
  have a2: "spaces ?v2 a \<noteq> None" by (simp only: 2(3) a not_False_eq_True)
  note l = teardown_lists_ok [OF 2(1) a2 3]
  let ?M = "insert (a, L1T) (others a)"
  have m: "?M \<subseteq> left a 512 0" "rooted ?M" "(a, L2T) \<notin> ?M" "others a \<subseteq> ?M" "(a, L1T) \<notin> others a"
    by (auto simp: left_def others_def rooted_def)
  note 5 = free_table_ok [OF l(1) m(1,2) left_sets(6) m(3,4) frame_of_L2 [OF l(3)]]
  obtain H5 where 5: "vm_ok pool ?v5 H5 ?M" "\<And>b. b \<noteq> a \<Longrightarrow> seen ?v5 b = seen v4 b" "spaces ?v5 = spaces v4"
    using 5 by auto
  have a5: "spaces ?v5 a \<noteq> None" by (simp only: 5(3) l(3) not_False_eq_True)
  note 6 = free_table_ok [OF 5(1) m(4) left_sets(2) insertI1 m(5) order_refl frame_of_L1 [OF a5]]
  obtain H6 where 6: "vm_ok pool ?v6 H6 (others a)" "\<And>b. b \<noteq> a \<Longrightarrow> seen ?v6 b = seen ?v5 b" "spaces ?v6 = spaces ?v5"
    using 6 by auto
  note k = kfree_simps [OF 7(1)]
  note h = heap_only [OF 6(1) k(1-3)]
  note r = remove_space_ok [OF h(1), folded 7(2)]
  show "\<exists>H. vm_ok pool v' H UNIV" using r(1) by blast
  show "spaces v' a = None" by (simp add: 7(2))
  show "spaces v' b = spaces v b" if "b \<noteq> a" using that l(4) [OF that] by (simp add: 7(2) k(3) 6(3) 5(3) 2(3))
  have "seen ?v2 b = seen v b" if "b \<noteq> a" using changesD(3) [OF 2(2)] that by (intro ext) (simp add: others_def)
  then show "seen v' b = seen v b" if "b \<noteq> a" using that r(2) h(2) 6(2) 5(2) l(2) by simp
qed

lemma destroy_ok:
  assumes ok: "vm_ok pool v H UNIV" and a: "spaces v a \<noteq> None" and d: "address_space_destroy v a = Some v'"
  shows "dropped pool v a v'"
proof -
  let ?n = "as_refcount (asp v a) - 1"
  let ?v1 = "upd_as v a (\<lambda>s. s\<lparr>as_refcount := ?n\<rparr>)"
  have s: "same_vm v ?v1" by (rule same_vm_upd [OF a]) simp
  note 1 = same_vm_ok [OF ok s]
  have o: "spaces ?v1 b = spaces v b" if "b \<noteq> a" for b using that by (simp add: upd_as_def)
  have ne: "a \<noteq> 0" using vm_ok_refs(5) [OF ok] a by auto
  show ?thesis
  proof (cases "?n > 0")
    case True
    then have "v' = ?v1" using d ne by (simp add: address_space_destroy_def Let_def)
    then show ?thesis using True 1 o by (auto simp: dropped_def Let_def upd_as_def asp_def)
  next
    case False
    note dd = destroy_last_ok [OF 1(1) same_vm_space [OF s a], of v']
    show ?thesis unfolding dropped_def Let_def if_not_P [OF False]
      using dd d ne False 1(2) o by (simp add: address_space_destroy_def Let_def)
  qed
qed

end
