(* ===== verification/AddrSpaceClone.thy ===== *)
theory AddrSpaceClone
  imports AddrSpaceDrop
begin

text \<open>
  The copy-on-write fork as a whole: the child sees what its parent sees, nobody else notices, and a
  fork that fails leaves nothing behind but the marks in the tables of the parent.
\<close>

section \<open>The fork\<close>

text \<open>What a fork does; a child of 0 is the failure.\<close>

definition forked :: "nat set \<Rightarrow> vm \<Rightarrow> nat \<Rightarrow> vm \<Rightarrow> nat \<Rightarrow> bool" where
  "forked pool v src v' dst \<longleftrightarrow>
     (\<exists>H. vm_ok pool v' H UNIV) \<and>
     (\<forall>b. b \<noteq> dst \<or> dst = 0 \<longrightarrow> seen v' b = seen v b \<and>
        (\<exists>n. spaces v' b = map_option (\<lambda>s. s\<lparr>user_pages_alloced := n\<rparr>) (spaces v b))) \<and>
     (dst \<noteq> 0 \<longrightarrow> spaces v dst = None \<and> seen v' dst = seen v src \<and>
        (\<exists>s. spaces v' dst = Some s \<and> as_refcount s = 1 \<and> heap_brk s = heap_brk (asp v src) \<and> vmas s = []))"

lemma seen_no_space: "spaces v a = None \<Longrightarrow> seen v a = (\<lambda>_ _. None)"
  by (simp add: fun_eq_iff seen_def frame_of.simps)

lemma seen_in_tables: "seen v a i j = Some x \<Longrightarrow> i < 512 \<and> j < 512"
  by (auto simp: seen_def frame_of.simps split: if_splits)

lemma frame_in_tables: "frame_of v a (Pg i j) = Some x \<Longrightarrow> i < 512 \<and> j < 512"
  by (auto simp: frame_of.simps split: if_splits)

lemma cloned_start:
  assumes c: "created pool v H v1 dst" "dst \<noteq> 0" and ok: "vm_ok pool v H UNIV" and src: "spaces v src \<noteq> None"
    and few: "\<And>i j q. frame_of v src (Pg i j) = Some q \<Longrightarrow> H q < 65535"
  shows "clone_base pool v1 src dst" "cloned pool v1 src dst 0 v1"
proof -
  note c' = c(1) [unfolded created_def]
  have ne: "src \<noteq> dst" using c' c(2) src by auto
  obtain H' where h: "vm_ok pool v1 H' UNIV" "\<And>q. 1 \<le> H q \<Longrightarrow> H' q = H q" using c' by blast
  have sp: "spaces v1 src \<noteq> None" "spaces v1 dst \<noteq> None" using c' c(2) src ne by auto
  show "clone_base pool v1 src dst" using ne sp h(1) by (auto simp: clone_base_def)
  have few': "H' q < 65535" if "frame_of v1 src (Pg i j) = Some q" for i j q
  proof -
    have f: "frame_of v src (Pg i j) = Some q" using that c' ne by simp
    then show ?thesis using h(2) [OF vm_ok_owner(1) [OF ok UNIV_I f]] few by simp
  qed
  show "cloned pool v1 src dst 0 v1"
    unfolding cloned_def using h(1) few' c' c(2)
    by (intro conjI exI [of _ H'] allI impI counts_only_same) (auto simp: c(2))
qed

lemma clone_others:
  assumes "created pool v H v1 dst" "dst \<noteq> 0" "b \<noteq> dst" "changes UNIV ({src, dst} \<times> UNIV) v1 v2"
    "\<And>i j. seen v2 src i j = seen v1 src i j"
  shows "seen v2 b = seen v b"
proof -
  have "seen v2 b i j = seen v1 b i j" for i j
    using changesD(3) [OF assms(4) UNIV_I, of b i j] assms(3,5) by (cases "b = src") auto
  then show ?thesis using assms(1-3) by (auto simp: created_def fun_eq_iff)
qed

lemma created_counts:
  assumes "created pool v H v1 dst" "dst \<noteq> 0" "b \<noteq> dst" "counts_only v1 v2"
  shows "\<exists>n. spaces v2 b = map_option (\<lambda>s. s\<lparr>user_pages_alloced := n\<rparr>) (spaces v b)"
proof -
  have "spaces v1 b = spaces v b" using assms(1-3) by (auto simp: created_def)
  then show ?thesis using assms(4) unfolding counts_only_def by metis
qed

lemma clone_finished:
  assumes c: "created pool v H v1 dst" "dst \<noteq> 0" and src: "src \<noteq> dst" "spaces v src \<noteq> None"
    and d: "cloned pool v1 src dst 262144 v2"
  shows "forked pool v src (upd_as v2 dst (\<lambda>s. s\<lparr>heap_brk := heap_brk (asp v2 src)\<rparr>)) dst"
    (is "forked _ _ _ ?v _")
proof -
  note c' = c(1) [unfolded created_def] and d' = d [unfolded cloned_def]
  obtain H2 where h: "vm_ok pool v2 H2 UNIV" using d' by blast
  have cs: "counts_only v1 v2" using d' by blast
  have v1d: "spaces v1 dst \<noteq> None" "spaces v1 src = spaces v src" using c' c(2) src by auto
  note sd = counts_only_asp [OF cs v1d(1)]
  have s: "same_vm v2 ?v" by (rule same_vm_upd [OF sd(2)]) simp
  note ok = same_vm_ok [OF h s]
  have a1: "asp v1 dst = new_space (l1_pa (asp v1 dst)) (l2_pa (asp v1 dst))"
    using c' c(2) by (auto simp: asp_def new_space_def)
  have oth: "seen ?v b = seen v b" if "b \<noteq> dst" for b
    unfolding ok(2) by (rule clone_others [OF c that]) (use d' in auto)
  have rec: "\<exists>n. spaces ?v b = map_option (\<lambda>s. s\<lparr>user_pages_alloced := n\<rparr>) (spaces v b)" if "b \<noteq> dst" for b
    using created_counts [OF c that cs] that by (simp add: upd_as_def)
  have "seen v2 dst i j = seen v1 src i j" for i j
  proof (cases "i < 512 \<and> j < 512")
    case True
    then have "512 * i + j < 262144" by simp
    then show ?thesis using d' True by metis
  next
    case False
    then show ?thesis using seen_in_tables by (metis not_Some_eq)
  qed
  moreover have "seen v1 src = seen v src" using c' src(1) by simp
  ultimately have child: "seen ?v dst = seen v src" by (simp add: ok(2) fun_eq_iff)
  obtain n where n: "asp v2 dst = (asp v1 dst)\<lparr>user_pages_alloced := n\<rparr>" using sd(1) by blast
  obtain m where m: "asp v2 src = (asp v1 src)\<lparr>user_pages_alloced := m\<rparr>"
    using counts_only_asp(1) [OF cs, of src] v1d(2) src(2) by auto
  have asrc: "asp v1 src = asp v src" using v1d(2) by (simp add: asp_def)
  have "\<exists>s. spaces ?v dst = Some s \<and> as_refcount s = 1 \<and> heap_brk s = heap_brk (asp v src) \<and> vmas s = []"
    using n a1 m asrc by (simp add: upd_as_def new_space_def) (metis address_space.select_convs(8,5))
  then show ?thesis unfolding forked_def
    using ok(1) oth rec child c(2) c' by auto
qed

lemma clone_failed:
  assumes c: "created pool v H v1 dst" "dst \<noteq> 0" and src: "src \<noteq> dst" "spaces v src \<noteq> None"
    and d: "clone_stopped pool v1 src dst v2" and k: "address_space_destroy v2 dst = Some v'"
  shows "forked pool v src v' 0"
proof -
  note c' = c(1) [unfolded created_def] and d' = d [unfolded clone_stopped_def]
  obtain H2 where h: "vm_ok pool v2 H2 UNIV" using d' by blast
  have cs: "counts_only v1 v2" using d' by blast
  have v1d: "spaces v1 dst \<noteq> None" using c' c(2) by auto
  note sd = counts_only_asp [OF cs v1d]
  have "as_refcount (asp v1 dst) = 1" using c' c(2) by (auto simp: asp_def new_space_def)
  then have "as_refcount (asp v2 dst) = 1" using sd(1) by auto
  then have dr: "\<exists>H. vm_ok pool v' H UNIV" "b \<noteq> dst \<Longrightarrow> seen v' b = seen v2 b \<and> spaces v' b = spaces v2 b"
    "spaces v' dst = None" for b
    using destroy_ok [OF h sd(2) k] by (simp_all add: dropped_def)
  have gone: "spaces v dst = None" using c' c(2) by simp
  have "seen v' b = seen v b" for b
  proof (cases "b = dst")
    case True
    then show ?thesis using seen_no_space gone dr(3) by simp
  next
    case False
    then show ?thesis using dr(2) clone_others [OF c False, of src v2] d' by auto
  qed
  moreover have "\<exists>n. spaces v' b = map_option (\<lambda>s. s\<lparr>user_pages_alloced := n\<rparr>) (spaces v b)" for b
    using created_counts [OF c _ cs, of b] dr(2,3) gone by (cases "b = dst") auto
  ultimately show ?thesis using dr(1) by (simp add: forked_def)
qed

lemma fork_ok:
  assumes ok: "vm_ok pool v H UNIV" and src: "spaces v src \<noteq> None"
    and fresh: "\<And>v1 p. vm_kmalloc v 80 = Some (v1, p) \<Longrightarrow> p \<noteq> 0 \<Longrightarrow> spaces v p = None"
    and few: "\<And>i j q. frame_of v src (Pg i j) = Some q \<Longrightarrow> H q < 65535"
    and k: "address_space_clone_cow v src = Some (v', dst)"
  shows "forked pool v src v' dst"
proof -
  have s0: "src \<noteq> 0" using vm_ok_refs(5) [OF ok] src by auto
  obtain v1 d where cr: "address_space_create v = Some (v1, d)"
    using k s0 by (auto simp: address_space_clone_cow_def clone_with_def Option.bind_eq_Some_conv)
  have c: "created pool v H v1 d" by (rule create_ok [OF ok cr]) (rule fresh)
  show ?thesis
  proof (cases "d = 0")
    case True
    have n: "\<exists>n. x = map_option (\<lambda>s. s\<lparr>user_pages_alloced := n\<rparr>) x" for x :: "address_space option"
      by (cases x) (auto intro: exI [of _ "user_pages_alloced (the x)"])
    have "v' = v1" "dst = 0" using k s0 cr True by (simp_all add: address_space_clone_cow_def clone_with_def)
    then show ?thesis using c True n by (auto simp: forked_def created_def)
  next
    case d: False
    note st = cloned_start [OF c d ok src few]
    have ne: "src \<noteq> d" using st(1) by (simp add: clone_base_def)
    obtain v2 fin where l: "clone_l2 (\<lambda>v l3. clone_cow_entry v l3 d) v1 (l2_pa (asp v1 src)) 0 512 = (v2, fin)"
      by fastforce
    have r: "if fin then cloned pool v1 src d 262144 v2 else clone_stopped pool v1 src d v2"
      by (rule clone_l2_ok [OF st(1) _ _ l]) (use st(2) in simp_all)
    show ?thesis
    proof (cases fin)
      case True
      then have "v' = upd_as v2 d (\<lambda>s. s\<lparr>heap_brk := heap_brk (asp v2 src)\<rparr>)" "dst = d"
        using k s0 cr d l by (auto simp: address_space_clone_cow_def clone_with_def)
      then show ?thesis using clone_finished [OF c d ne src, of v2] r True by simp
    next
      case False
      then show ?thesis using clone_failed [OF c d ne src] r k s0 cr d l
        by (auto simp: address_space_clone_cow_def clone_with_def)
    qed
  qed
qed

end
