(* ===== verification/AddrSpaceMap.thy ===== *)
theory AddrSpaceMap
  imports AddrSpaceClone
begin

text \<open>
  Pages that come and go one at a time: the fault that fills an anonymous mapping, the program
  break, \<open>munmap\<close>.  Each step changes what one space sees of one page.
\<close>

section \<open>A page appears\<close>

text \<open>What a step on the page at \<open>va\<close> of space \<open>a\<close> may change.\<close>

definition page_step :: "nat set \<Rightarrow> (nat \<times> nat \<times> nat) set \<Rightarrow> vm \<Rightarrow> vm \<Rightarrow> bool" where
  "page_step pool A v v' \<longleftrightarrow> (\<exists>H. vm_ok pool v' H UNIV) \<and> changes UNIV A v v' \<and> counts_only v v'"

abbreviation slot_of :: "nat \<Rightarrow> nat \<Rightarrow> nat \<times> nat \<times> nat" where
  "slot_of a va \<equiv> (a, L2_INDEX va, L3_INDEX va)"

lemma page_stepD:
  assumes "page_step pool A v v'"
  obtains H where "vm_ok pool v' H UNIV" "changes UNIV A v v'" "counts_only v v'"
  using assms unfolding page_step_def by blast

lemma page_step_refl: "vm_ok pool v H UNIV \<Longrightarrow> page_step pool A v v"
  unfolding page_step_def using changes_mono [OF changes_refl] counts_only_same by blast

lemma page_step_trans: "page_step pool A u v \<Longrightarrow> page_step pool B v w \<Longrightarrow> page_step pool (A \<union> B) u w"
  unfolding page_step_def using changes_trans counts_only_trans by blast

lemma page_step_mono: "page_step pool A v v' \<Longrightarrow> A \<subseteq> B \<Longrightarrow> page_step pool B v v'"
  unfolding page_step_def using changes_mono by blast

lemma page_step_seen:
  assumes "page_step pool A v v'" "(b, i, j) \<notin> A"
  shows "seen v' b i j = seen v b i j"
  using assms changesD(3) [of UNIV A v v' b i j] by (simp add: page_step_def)

lemma count_page_step:
  assumes "vm_ok pool v H UNIV" "spaces v a \<noteq> None"
  shows "page_step pool {} v (count_page v a)" "seen (count_page v a) = seen v" "entry (count_page v a) = entry v"
    "page_step pool {} v (uncount_page v a)" "seen (uncount_page v a) = seen v"
proof -
  note t = same_tables [OF assms(1), of "count_page v a"] and u = same_tables [OF assms(1), of "uncount_page v a"]
  note ct = same_tables_changes [OF assms(1), of "count_page v a"] and cu = same_tables_changes [OF assms(1), of "uncount_page v a"]
  note r = count_roots [OF assms(2)]
  show "seen (count_page v a) = seen v" "entry (count_page v a) = entry v" using t r by simp_all
  show "seen (uncount_page v a) = seen v" using u r by simp
  show "page_step pool {} v (count_page v a)" "page_step pool {} v (uncount_page v a)"
    unfolding page_step_def using t(1) u(1) ct cu r count_page_only [OF assms(2)] uncount_page_only [OF assms(2)] by auto
qed

lemma install_page_ok:
  fixes rw x :: bool
  assumes ok: "vm_ok pool v H UNIV" and a: "spaces v a \<noteq> None"
    and own: "H pa = 1" "refs_to v UNIV pa = {}" "frame_addr pa"
    and l: "l3_for v a va = (v1, l3)" "l3 \<noteq> 0"
  defines "v' \<equiv> count_page (wr64 v1 (l3 + 8 * L3_INDEX va) (leaf pa rw x False)) a"
  shows "page_step pool {slot_of a va} v v'" "seen v' a (L2_INDEX va) (L3_INDEX va) = Some (frame_words v pa, rw, x)"
    "rw \<Longrightarrow> ap_field (entry v' a (L2_INDEX va) (L3_INDEX va)) = DESC_AP_RW_EL0"
    "frame_of v' a (Pg (L2_INDEX va) (L3_INDEX va)) = Some pa"
proof -
  let ?i = "L2_INDEX va" and ?j = "L3_INDEX va"
  obtain H1 where 1: "vm_ok pool v1 H1 UNIV" "quiet_vm UNIV v H v1 H1" "spaces v1 = spaces v" "vm_kern v1 = vm_kern v"
    "table_write pool v1 H1 UNIV a ?i l3 ?j"
    using l3_for_ok [OF ok whole_UNIV a l(1)] l(2) index_less(2) by metis
  have q: "1 \<le> H pa" using own(1) by simp
  have r: "refs_to v1 UNIV pa = {}" "H1 pa = 1" using quiet_vmD(6,7) [OF 1(2) q] own by simp_all
  have w: "frame_words v1 pa = frame_words v pa" by (rule quiet_vmD(8) [OF 1(2) q own(2,3)])
  have spare: "card (refs_to v1 UNIV pa - {(a, Pg ?i ?j)}) < H1 pa" using r by simp
  have fr: "frame_of v1 a (Pg i' j') \<noteq> Some pa" for i' j' using refs_emptyD [OF r(1)] by simp
  let ?e = "leaf pa rw x False"
  let ?v2 = "wr64 v1 (l3 + 8 * ?j) ?e"
  have nb: "\<not> (rw \<and> False)" by simp
  note o = overwrite_ok [OF 1(5) UNIV_I refl own(3) nb spare r(2) fr]
  have a2: "spaces ?v2 a \<noteq> None" by (simp only: wr64_simps 1(3) a not_False_eq_True)
  note c = count_page_step [OF o(1) a2, folded v'_def]
  have "page_step pool {} v v1"
    unfolding page_step_def using 1(1) quiet_changes [OF 1(2)] counts_only_same [OF 1(3,4)] by blast
  moreover have "page_step pool {slot_of a va} v1 ?v2"
    unfolding page_step_def using o(1,6) counts_only_same [of ?v2 v1] by auto
  ultimately show "page_step pool {slot_of a va} v v'"
    using page_step_trans [OF page_step_trans] c(1) by fastforce
  show "seen v' a ?i ?j = Some (frame_words v pa, rw, x)" unfolding c(2) o(3) w by simp
  show "rw \<Longrightarrow> ap_field (entry v' a ?i ?j) = DESC_AP_RW_EL0"
    unfolding c(3) o(5) using leaf_fields(7) [OF own(3)] by simp
  have "frame_of v' = frame_of ?v2"
    unfolding v'_def by (rule same_tables(3) [OF o(1)]) (use count_roots [OF a2] in simp_all)
  then show "frame_of v' a (Pg ?i ?j) = Some pa" using o(2) by simp
qed

text \<open>The allocation of the page and its table; the page goes back if there is none.\<close>

lemma fresh_page_ok:
  assumes ok: "vm_ok pool v H UNIV" and a: "spaces v a \<noteq> None"
    and al: "vm_alloc_page v = (v1, pa)" "pa \<noteq> 0" and l: "l3_for v1 a va = (v2, l3)"
  shows "l3 = 0 \<Longrightarrow> page_step pool {} v (vm_free_page v2 pa)"
    "l3 \<noteq> 0 \<Longrightarrow> v' = count_page (wr64 v2 (l3 + 8 * L3_INDEX va) (leaf pa rw x False)) a \<Longrightarrow>
      page_step pool {slot_of a va} v v' \<and> seen v' a (L2_INDEX va) (L3_INDEX va) = Some (\<lambda>_. 0, rw, x) \<and>
      (rw \<longrightarrow> ap_field (entry v' a (L2_INDEX va) (L3_INDEX va)) = DESC_AP_RW_EL0)"
proof -
  note p = alloc_page_ok [OF ok al]
  have a1: "spaces v1 a \<noteq> None" by (simp only: p(9) a not_False_eq_True)
  have s1: "page_step pool {} v v1"
    unfolding page_step_def using p(1) agree_changes [OF vm_ok_refs(3) [OF ok] p(2)] counts_only_same [OF p(9,11)]
    by (auto simp: p(9))
  {
    assume "l3 = 0"
    then have v2: "v2 = v1" using l3_for_ok [OF p(1) whole_UNIV a1 l] by metis
    have one: "(H(pa := 1)) pa = 1" by simp
    note f = free_page_ok [OF p(1) one p(5)]
    have "page_step pool {} v1 (vm_free_page v1 pa)"
      unfolding page_step_def using f(1) agree_changes [OF vm_ok_refs(3) [OF ok] f(2)] counts_only_same [OF f(3,4)]
      by (auto simp: f(3))
    then show "page_step pool {} v (vm_free_page v2 pa)" using page_step_trans [OF s1] v2 by fastforce
  next
    assume l3: "l3 \<noteq> 0" and v': "v' = count_page (wr64 v2 (l3 + 8 * L3_INDEX va) (leaf pa rw x False)) a"
    have one: "(H(pa := 1)) pa = 1" by simp
    note i = install_page_ok [OF p(1) a1 one p(5,7) l l3, of rw x, folded v']
    show "page_step pool {slot_of a va} v v' \<and> seen v' a (L2_INDEX va) (L3_INDEX va) = Some (\<lambda>_. 0, rw, x) \<and>
        (rw \<longrightarrow> ap_field (entry v' a (L2_INDEX va) (L3_INDEX va)) = DESC_AP_RW_EL0)"
      using page_step_trans [OF s1 i(1)] i(2,3) p(6) by simp
  }
qed

section \<open>The fault in a mapping\<close>

lemma vma_find_in: "vma_find xs va = Some y \<Longrightarrow> y \<in> set xs"
  by (induction xs) (auto split: if_splits)

lemma unmapped_slot:
  assumes "vm_ok pool v H UNIV" "spaces v a \<noteq> None"
    "\<not> (case l3_entry_lookup v a va of None \<Rightarrow> False | Some p \<Rightarrow> has (rd64 v p) DESC_VALID)"
  shows "seen v a (L2_INDEX va) (L3_INDEX va) = None"
proof (cases "l3_entry_lookup v a va")
  case None
  then show ?thesis using lookup_None [OF None assms(1) whole_UNIV assms(2)] by (simp add: seen_def frame_of.simps)
next
  case (Some p)
  obtain l3 where "rd64 v p = entry v a (L2_INDEX va) (L3_INDEX va)" using lookup_Some [OF Some assms(2)] by metis
  then show ?thesis using assms(3) Some by (simp add: seen_def frame_of.simps)
qed

definition all_anon :: "vm \<Rightarrow> bool" where
  "all_anon v \<longleftrightarrow> (\<forall>a s y. spaces v a = Some s \<and> y \<in> set (vmas s) \<longrightarrow> v_kind (snd y) = VMA_ANON)"

definition lazy_page :: "vm \<Rightarrow> nat \<Rightarrow> nat \<Rightarrow> bool option" where
  "lazy_page v a va = map_option (\<lambda>(p, x). v_prot x AND PROT_WRITE \<noteq> 0) (vma_find (vmas (asp v a)) va)"

lemma mmap_fault_ok:
  assumes ok: "vm_ok pool v H UNIV" and a: "spaces v a \<noteq> None" and an: "all_anon v"
    and f: "address_space_handle_mmap_fault v a fault_va is_write = (v', r)"
  defines "va \<equiv> align_down 4096 fault_va"
  shows "r = 0 \<and> page_step pool {slot_of a va} v v' \<and> USER_VA_BASE \<le> va \<and> va < USER_VA_END \<and>
      seen v a (L2_INDEX va) (L3_INDEX va) = None \<and>
      (\<exists>rw. lazy_page v a va = Some rw \<and> (is_write \<longrightarrow> rw) \<and>
        (rw \<longrightarrow> ap_field (entry v' a (L2_INDEX va) (L3_INDEX va)) = DESC_AP_RW_EL0) \<and>
        seen v' a (L2_INDEX va) (L3_INDEX va) = Some (\<lambda>_. 0, rw, False)) \<or>
    r = -1 \<and> page_step pool {} v v'"
proof -
  note stay = page_step_refl [OF ok, of "{}"]
  have f0: "v' = v \<and> r = -1" if "a = 0 \<or> va < USER_VA_BASE \<or> \<not> va < USER_VA_END \<or> vma_find (vmas (asp v a)) va = None"
    using that f by (auto simp: address_space_handle_mmap_fault_def Let_def va_def [symmetric] split: if_splits)
  show ?thesis
  proof (cases "a = 0 \<or> va < USER_VA_BASE \<or> \<not> va < USER_VA_END \<or> vma_find (vmas (asp v a)) va = None")
    case True
    then show ?thesis using f0 stay by blast
  next
    case False
    then obtain p x where x: "vma_find (vmas (asp v a)) va = Some (p, x)" by auto
    have k: "v_kind x = VMA_ANON" using vma_find_in [OF x] an a by (fastforce simp: all_anon_def asp_def)
    let ?rw = "v_prot x AND PROT_WRITE \<noteq> 0"
    let ?m = "case l3_entry_lookup v a va of None \<Rightarrow> False | Some p \<Rightarrow> has (rd64 v p) DESC_VALID"
    have f1: "(if is_write \<and> \<not> ?rw then (v, -1) else if ?m then (v, -1) else
        let (v1, pa) = vm_alloc_page v in
        if pa = 0 then (v1, -1)
        else let (v2, l3) = l3_for v1 a va in
          if l3 = 0 then (vm_free_page v2 pa, -1)
          else (count_page (wr64 v2 (l3 + 8 * L3_INDEX va) (leaf pa ?rw False False)) a, 0)) = (v', r)"
      using f False x k
      by (simp add: address_space_handle_mmap_fault_def va_def [symmetric] build_user_desc_leaf not_less not_le
          split del: if_split cong: if_cong)
    show ?thesis
    proof (cases "is_write \<and> \<not> ?rw \<or> ?m")
      case True
      then show ?thesis using f1 stay by (auto split: if_splits)
    next
      case n: False
      then have none: "seen v a (L2_INDEX va) (L3_INDEX va) = None" by (intro unmapped_slot [OF ok a]) simp
      obtain v1 pa where al: "vm_alloc_page v = (v1, pa)" by fastforce
      obtain v2 l3 where l: "l3_for v1 a va = (v2, l3)" by fastforce
      show ?thesis
      proof (cases "pa = 0")
        case True
        then have "v1 = v" using alloc_page_fails [OF _ ok, of v1] al by simp
        then show ?thesis using f1 n al True stay by (auto split: if_splits)
      next
        case pa: False
        note fp = fresh_page_ok [OF ok a al pa l]
        show ?thesis
        proof (cases "l3 = 0")
          case True
          then have "r = -1" "v' = vm_free_page v2 pa" using f1 n al l pa by (auto split: if_splits)
          then show ?thesis using fp(1) [OF True] by simp
        next
          case l3: False
          then have "r = 0" and v': "v' = count_page (wr64 v2 (l3 + 8 * L3_INDEX va) (leaf pa ?rw False False)) a"
            using f1 n al l pa by (auto split: if_splits)
          moreover have "lazy_page v a va = Some ?rw" by (simp add: lazy_page_def x)
          moreover have "is_write \<longrightarrow> ?rw" using n by blast
          ultimately show ?thesis using fp(2) [OF l3 v'] False none by auto
        qed
      qed
    qed
  qed
qed

section \<open>A page goes\<close>

definition drop_at :: "vm \<Rightarrow> nat \<Rightarrow> nat \<Rightarrow> vm" where
  "drop_at v a va =
     (case l3_entry_lookup v a va of
        None \<Rightarrow> v
      | Some p \<Rightarrow>
          let e = rd64 v p in
          if \<not> has e DESC_VALID then v else uncount_page (vm_dec_and_free (wr64 v p 0) (desc_pa e)) a)"

lemma drop_at_ok:
  assumes ok: "vm_ok pool v H UNIV" and a: "spaces v a \<noteq> None"
  shows "page_step pool {slot_of a va} v (drop_at v a va)" "seen (drop_at v a va) a (L2_INDEX va) (L3_INDEX va) = None"
proof -
  let ?i = "L2_INDEX va" and ?j = "L3_INDEX va"
  have "page_step pool {slot_of a va} v (drop_at v a va) \<and> seen (drop_at v a va) a ?i ?j = None"
  proof (cases "case l3_entry_lookup v a va of None \<Rightarrow> False | Some p \<Rightarrow> has (rd64 v p) DESC_VALID")
    case False
    then have "drop_at v a va = v" by (auto simp: drop_at_def Let_def split: option.splits)
    then show ?thesis using unmapped_slot [OF ok a False] page_step_refl [OF ok] by simp
  next
    case True
    then obtain p where p: "l3_entry_lookup v a va = Some p" "has (rd64 v p) DESC_VALID" by (auto split: option.splits)
    obtain l3 where l3: "frame_of v a (L3T ?i) = Some l3" "p = l3 + 8 * ?j" "rd64 v p = entry v a ?i ?j"
      using lookup_Some [OF p(1) a] by metis
    have w: "table_write pool v H UNIV a ?i l3 ?j" using ok l3 by (simp add: table_write_def)
    let ?pa = "desc_pa (entry v a ?i ?j)"
    have f: "frame_of v a (Pg ?i ?j) = Some ?pa" using p(2) l3(3) by (intro entry_frame [OF a]) simp_all
    let ?v1 = "wr64 v (l3 + 8 * ?j) 0"
    note c = clear_entry_ok [OF w invalid_words(1)]
    have "card (refs_to ?v1 UNIV ?pa) < card (refs_to v UNIV ?pa)"
      unfolding c(3) using f by (intro card_Diff1_less vm_ok_refs(1) [OF ok]) (simp add: refs_to_def)
    then have spare: "card (refs_to ?v1 UNIV ?pa) < H ?pa" using vm_ok_refs(2) [OF ok, of ?pa] by simp
    note r = release_page_ok [OF c(1) spare]
    let ?v2 = "vm_dec_and_free ?v1 ?pa"
    have a2: "spaces ?v2 a \<noteq> None" by (simp only: r(3) wr64_simps a not_False_eq_True)
    note u = count_page_step [OF r(1) a2]
    have d: "drop_at v a va = uncount_page ?v2 a" using p l3 by (simp add: drop_at_def Let_def)
    have 1: "page_step pool {slot_of a va} v ?v1"
      unfolding page_step_def using c(1) written_changes [OF w] counts_only_same [of ?v1 v] by auto
    have ch: "changes UNIV {} ?v1 ?v2" by (rule agree_changes [OF vm_ok_refs(3) [OF ok] r(2)]) (simp add: r(3))
    then have 2: "page_step pool {} ?v1 ?v2"
      unfolding page_step_def using r(1) counts_only_same [OF r(3,4)] by auto
    have "seen ?v2 a ?i ?j = seen ?v1 a ?i ?j" using changesD(3) [OF ch UNIV_I] by simp
    moreover have "seen ?v1 a ?i ?j = None" by (rule seen_None [OF c(2)])
    ultimately show ?thesis
      using page_step_trans [OF page_step_trans [OF 1 2] u(4)] by (simp add: d u(5))
  qed
  then show "page_step pool {slot_of a va} v (drop_at v a va)" "seen (drop_at v a va) a ?i ?j = None" by simp_all
qed

text \<open>The pages from \<open>va\<close> on.\<close>

definition slots :: "nat \<Rightarrow> nat list \<Rightarrow> (nat \<times> nat \<times> nat) set" where
  "slots a vas = slot_of a ` set vas"

lemma slots_simps [simp]: "slots a [] = {}" "slots a (va # vas) = insert (slot_of a va) (slots a vas)"
  by (simp_all add: slots_def)

lemma page_step_space: "page_step pool A v v' \<Longrightarrow> spaces v a \<noteq> None \<Longrightarrow> spaces v' a \<noteq> None"
  unfolding page_step_def using counts_only_asp(2) by blast

lemma drop_all_ok:
  assumes "vm_ok pool v H UNIV" "spaces v a \<noteq> None"
  shows "page_step pool (slots a vas) v (fold (\<lambda>va v. drop_at v a va) vas v) \<and>
    (\<forall>va\<in>set vas. seen (fold (\<lambda>va v. drop_at v a va) vas v) a (L2_INDEX va) (L3_INDEX va) = None)"
  using assms
proof (induction vas arbitrary: v H)
  case Nil
  then show ?case using page_step_refl by simp
next
  case (Cons va vas)
  note d = drop_at_ok [OF Cons.prems, of va]
  obtain H1 where 1: "vm_ok pool (drop_at v a va) H1 UNIV" using d(1) page_stepD by metis
  note ih = Cons.IH [OF 1 page_step_space [OF d(1) Cons.prems(2)]]
  have "seen (fold (\<lambda>va v. drop_at v a va) vas (drop_at v a va)) a (L2_INDEX va) (L3_INDEX va) = None"
  proof (cases "slot_of a va \<in> slots a vas")
    case True
    then show ?thesis using ih by (force simp: slots_def)
  next
    case False
    then show ?thesis using page_step_seen [OF conjunct1 [OF ih] False] d(2) by simp
  qed
  then show ?case using ih page_step_trans [OF d(1)] by fastforce
qed

section \<open>The program break\<close>

text \<open>The pages from \<open>va\<close> up to \<open>stop\<close>.\<close>

function pages_to :: "nat \<Rightarrow> nat \<Rightarrow> nat list" where
  "pages_to va stop = (if va < stop then va # pages_to (va + 4096) stop else [])"
  by pat_completeness auto
termination by (relation "measure (\<lambda>(va, stop). stop - va)") auto

declare pages_to.simps [simp del]

lemma brk_shrink_drops: "brk_shrink v a va stop = fold (\<lambda>va v. drop_at v a va) (pages_to va stop) v"
proof (induction v a va stop rule: brk_shrink.induct)
  case (1 v a va stop)
  show ?case
  proof (cases "va < stop")
    case True
    have "brk_shrink v a va stop = brk_shrink (drop_at v a va) a (va + 4096) stop"
      using True by (subst brk_shrink.simps) (simp add: drop_at_def Let_def cong: option.case_cong)
    also have "\<dots> = fold (\<lambda>va v. drop_at v a va) (pages_to (va + 4096) stop) (drop_at v a va)"
      using "1.IH" [OF True] by (simp add: drop_at_def Let_def cong: option.case_cong)
    finally show ?thesis using True by (simp add: pages_to.simps [of va])
  qed (simp add: brk_shrink.simps pages_to.simps [of va])
qed

lemma map_one:
  assumes "va < 2 ^ 64" "pa < 2 ^ 64"
  shows "address_space_map v a va pa 1 rw x =
    (if a = 0 \<or> va mod 4096 \<noteq> 0 \<or> pa mod 4096 \<noteq> 0 \<or> va < USER_VA_BASE \<or> add64 va 4096 > USER_VA_END then (v, -1)
     else let (v1, l3) = l3_for v a va in
       if l3 = 0 then (v1, -1) else (count_page (wr64 v1 (l3 + 8 * L3_INDEX va) (leaf pa rw x False)) a, 0))"
proof -
  have "add64 va (mul64 0 4096) = va" "add64 pa (mul64 0 4096) = pa" "mul64 1 4096 = 4096"
    using assms by (simp_all add: add64_def mul64_def)
  moreover have "map_loop v a va pa b 0 1 = map_loop v a va pa b 0 (Suc 0)" for b by simp
  ultimately show ?thesis unfolding address_space_map_def
    by (simp add: map_writes_leaf del: One_nat_def cong: if_cong split: prod.split)
qed

lemma alloc_undo_ok:
  assumes ok: "vm_ok pool v H UNIV" and al: "vm_alloc_page v = (v1, pa)" "pa \<noteq> 0"
  shows "page_step pool {} v (vm_free_page v1 pa)"
proof -
  note p = alloc_page_ok [OF ok al]
  have one: "(H(pa := 1)) pa = 1" by simp
  note f = free_page_ok [OF p(1) one p(5)]
  have "page_step pool {} v v1"
    unfolding page_step_def using p(1) agree_changes [OF vm_ok_refs(3) [OF ok] p(2)] counts_only_same [OF p(9,11)]
    by (auto simp: p(9))
  moreover have "page_step pool {} v1 (vm_free_page v1 pa)"
    unfolding page_step_def using f(1) agree_changes [OF vm_ok_refs(3) [OF ok] f(2)] counts_only_same [OF f(3,4)]
    by (auto simp: f(3))
  ultimately show ?thesis using page_step_trans by fastforce
qed

lemma grow_one_ok:
  assumes ok: "vm_ok pool v H UNIV" and a: "spaces v a \<noteq> None" and va: "va < 2 ^ 64"
    and al: "vm_alloc_page v = (v1, pa)" "pa \<noteq> 0" and m: "address_space_map v1 a va pa 1 True False = (v2, r)"
  shows "r = 0 \<and> page_step pool {slot_of a va} v v2 \<and> seen v2 a (L2_INDEX va) (L3_INDEX va) = Some (\<lambda>_. 0, True, False) \<or>
    r = -1 \<and> page_step pool {} v (vm_free_page v2 pa)"
proof -
  have pa: "pa < 2 ^ 64" using alloc_page_ok(7) [OF ok al] by (simp add: frame_addr_def)
  obtain u l3 where l: "l3_for v1 a va = (u, l3)" by fastforce
  note f = fresh_page_ok [OF ok a al l]
  let ?u = "count_page (wr64 u (l3 + 8 * L3_INDEX va) (leaf pa True False False)) a"
  have "v2 = v1 \<and> r = -1 \<or> l3 = 0 \<and> v2 = u \<and> r = -1 \<or> l3 \<noteq> 0 \<and> v2 = ?u \<and> r = 0"
    using m [unfolded map_one [OF va pa]] l by (auto split: if_splits)
  then show ?thesis using alloc_undo_ok [OF ok al] f(1) f(2) [of ?u True False] by auto
qed

lemma brk_grow_ok:
  assumes "vm_ok pool v H UNIV" "spaces v a \<noteq> None" "stop < 2 ^ 64" "brk_grow v a va stop = (v', r)"
  shows "\<exists>vas rest. pages_to va stop = vas @ rest \<and> (if r = 0 then rest = [] else r = -1) \<and>
    page_step pool (slots a vas) v v' \<and>
    (\<forall>va\<in>set vas. seen v' a (L2_INDEX va) (L3_INDEX va) = Some (\<lambda>_. 0, True, False))"
  using assms
proof (induction v a va stop arbitrary: H rule: brk_grow.induct)
  case (1 v a va stop)
  note ok = "1.prems"(1) and a = "1.prems"(2)
  show ?case
  proof (cases "va < stop")
    case False
    then have "v' = v" "r = 0" "pages_to va stop = []"
      using "1.prems"(4) by (simp_all add: brk_grow.simps [of v] pages_to.simps [of va])
    then show ?thesis using page_step_refl [OF ok] by auto
  next
    case True
    obtain v1 pa where al: "vm_alloc_page v = (v1, pa)" by fastforce
    obtain v2 m where m: "address_space_map v1 a va pa 1 True False = (v2, m)" by fastforce
    have e: "pages_to va stop = va # pages_to (va + 4096) stop" using True by (simp add: pages_to.simps [of va])
    have stop: "r = -1 \<Longrightarrow> page_step pool {} v v' \<Longrightarrow> ?thesis"
      by (rule exI [of _ "[]"]) (simp add: e)
    have g: "(if pa = 0 then (v1, -1) else if m \<noteq> 0 then (vm_free_page v2 pa, -1) else brk_grow v2 a (va + 4096) stop) = (v', r)"
      using "1.prems"(4) True al m by (simp add: brk_grow.simps [of v] del: One_nat_def split del: if_split cong: if_cong)
    show ?thesis
    proof (cases "pa = 0")
      case True
      then have "v1 = v" using alloc_page_fails [OF _ ok, of v1] al by simp
      then show ?thesis using g True page_step_refl [OF ok] by (intro stop) simp_all
    next
      case pa: False
      have va: "va < 2 ^ 64" using True "1.prems"(3) by simp
      note o = grow_one_ok [OF ok a va al pa m]
      show ?thesis
      proof (cases "m = 0")
        case False
        then show ?thesis using g o pa by (intro stop) auto
      next
        case m0: True
        then have s: "page_step pool {slot_of a va} v v2" "seen v2 a (L2_INDEX va) (L3_INDEX va) = Some (\<lambda>_. 0, True, False)"
          using o by auto
        obtain H2 where 2: "vm_ok pool v2 H2 UNIV" using s(1) page_stepD by metis
        have g2: "brk_grow v2 a (va + 4096) stop = (v', r)" using g pa m0 by simp
        have mm: "\<not> m \<noteq> 0" using m0 by simp
        obtain vas rest where ih: "pages_to (va + 4096) stop = vas @ rest" "if r = 0 then rest = [] else r = -1"
          "page_step pool (slots a vas) v2 v'"
          "\<forall>va\<in>set vas. seen v' a (L2_INDEX va) (L3_INDEX va) = Some (\<lambda>_. 0, True, False)"
          using "1.IH" [OF True al [symmetric] refl pa m [symmetric] refl mm 2 page_step_space [OF s(1) a] "1.prems"(3) g2] by blast
        have "seen v' a (L2_INDEX va) (L3_INDEX va) = Some (\<lambda>_. 0, True, False)"
        proof (cases "slot_of a va \<in> slots a vas")
          case True
          then show ?thesis using ih(4) by (force simp: slots_def)
        next
          case False
          then show ?thesis using page_step_seen [OF ih(3) False] s(2) by simp
        qed
        then show ?thesis using ih page_step_trans [OF s(1) ih(3)]
          by (intro exI [of _ "va # vas"] exI [of _ rest]) (simp add: e)
      qed
    qed
  qed
qed

section \<open>Steps that also change the records of a space\<close>

lemma page_step_anon: "page_step pool A v v' \<Longrightarrow> all_anon v \<Longrightarrow> all_anon v'"
  unfolding page_step_def counts_only_def all_anon_def
proof (elim conjE, intro allI impI)
  fix a s y
  assume c: "\<forall>b. \<exists>n. spaces v' b = map_option (\<lambda>s. s\<lparr>user_pages_alloced := n\<rparr>) (spaces v b)"
    and h: "\<forall>a s y. spaces v a = Some s \<and> y \<in> set (vmas s) \<longrightarrow> v_kind (snd y) = VMA_ANON"
    and y: "spaces v' a = Some s \<and> y \<in> set (vmas s)"
  obtain n t where "spaces v a = Some t" "s = t\<lparr>user_pages_alloced := n\<rparr>" using c y by (metis map_option_eq_Some)
  then show "v_kind (snd y) = VMA_ANON" using h [rule_format, of a t y] y by simp
qed

definition mem_step :: "nat set \<Rightarrow> (nat \<times> nat \<times> nat) set \<Rightarrow> vm \<Rightarrow> vm \<Rightarrow> bool" where
  "mem_step pool A v v' \<longleftrightarrow> (\<exists>H. vm_ok pool v' H UNIV) \<and> (all_anon v \<longrightarrow> all_anon v') \<and>
     dom (spaces v') = dom (spaces v) \<and> (\<forall>b i j. (b, i, j) \<notin> A \<longrightarrow> seen v' b i j = seen v b i j)"

lemma page_mem_step: "page_step pool A v v' \<Longrightarrow> mem_step pool A v v'"
  unfolding mem_step_def using page_step_seen page_step_anon
  by (auto simp: page_step_def dest!: counts_only_dom)

lemma mem_step_trans: "mem_step pool A u v \<Longrightarrow> mem_step pool B v w \<Longrightarrow> mem_step pool (A \<union> B) u w"
  unfolding mem_step_def by simp

lemma mem_stepD:
  assumes "mem_step pool A v v'"
  shows "\<exists>H. vm_ok pool v' H UNIV" "spaces v a \<noteq> None \<Longrightarrow> spaces v' a \<noteq> None" "all_anon v \<Longrightarrow> all_anon v'"
    "(b, i, j) \<notin> A \<Longrightarrow> seen v' b i j = seen v b i j"
  using assms unfolding mem_step_def by (simp_all add: dom_def set_eq_iff)

lemma same_vm_step:
  assumes "vm_ok pool v H UNIV" "same_vm v v'" "all_anon v \<longrightarrow> all_anon v'"
  shows "mem_step pool {} v v'"
  using same_vm_ok [OF assms(1,2)] assms(2,3) by (auto simp: mem_step_def same_vm_def)

lemma mem_step_refl: "vm_ok pool v H UNIV \<Longrightarrow> mem_step pool {} v v"
  by (rule page_mem_step [OF page_step_refl])

lemma upd_as_step:
  assumes "vm_ok pool v H UNIV" "spaces v a \<noteq> None" "\<And>s. l1_pa (f s) = l1_pa s \<and> l2_pa (f s) = l2_pa s"
    "\<And>y. all_anon v \<Longrightarrow> y \<in> set (vmas (f (asp v a))) \<Longrightarrow> v_kind (snd y) = VMA_ANON"
  shows "mem_step pool {} v (upd_as v a f)"
proof (rule same_vm_step [OF assms(1) same_vm_upd [OF assms(2,3)]])
  show "all_anon v \<longrightarrow> all_anon (upd_as v a f)"
  proof
    assume an: "all_anon v"
    show "all_anon (upd_as v a f)" unfolding all_anon_def
    proof (intro allI impI, elim conjE)
      fix b s y assume "spaces (upd_as v a f) b = Some s" "y \<in> set (vmas s)"
      then show "v_kind (snd y) = VMA_ANON"
        using assms(4) [OF an, of y] an [unfolded all_anon_def, rule_format, of b s y]
        by (cases "b = a") (auto simp: upd_as_def)
    qed
  qed
qed

lemma space_anon: "all_anon v \<Longrightarrow> spaces v a \<noteq> None \<Longrightarrow> y \<in> set (vmas (asp v a)) \<Longrightarrow> v_kind (snd y) = VMA_ANON"
  unfolding all_anon_def asp_def by fastforce

lemma heap_step:
  assumes "vm_ok pool v H UNIV" "vm_cache v' = vm_cache v" "vm_rc v' = vm_rc v" "spaces v' = spaces v"
  shows "mem_step pool {} v v'"
  by (rule same_vm_step [OF assms(1) same_vm_spaces]) (simp_all add: assms all_anon_def)

text \<open>The pages of \<open>S\<close> become \<open>x\<close>.\<close>

definition put_pages :: "(nat \<Rightarrow> nat \<Rightarrow> nat \<Rightarrow> view_page option) \<Rightarrow> (nat \<times> nat \<times> nat) set \<Rightarrow> view_page option \<Rightarrow>
    nat \<Rightarrow> nat \<Rightarrow> nat \<Rightarrow> view_page option" where
  "put_pages M S x = (\<lambda>b i j. if (b, i, j) \<in> S then x else M b i j)"

lemma put_pages_seen:
  assumes "mem_step pool (slots a vas) v v'" "\<forall>va\<in>set vas. seen v' a (L2_INDEX va) (L3_INDEX va) = x"
  shows "seen v' = put_pages (seen v) (slots a vas) x"
  using mem_stepD(4) [OF assms(1)] assms(2) by (auto simp: put_pages_def slots_def fun_eq_iff)

section \<open>The calls of a process\<close>

definition fresh_page :: "view_page option" where
  "fresh_page = Some (\<lambda>_. 0, True, False)"

text \<open>The break that a call with \<open>n\<close> asks for.\<close>

definition brk_of :: "nat \<Rightarrow> nat" where
  "brk_of n = (if align_up64 4096 n < USER_HEAP_BASE then USER_HEAP_BASE else align_up64 4096 n)"

lemma set_brk_ok:
  assumes ok: "vm_ok pool v H UNIV" and a: "spaces v a \<noteq> None" and s: "address_space_set_brk v a n = (v', r)"
  defines "b \<equiv> brk_of n" and "old \<equiv> heap_brk (asp v a)"
  shows "if r = 0
    then mem_step pool (slots a (pages_to old b @ pages_to b old)) v v' \<and>
      seen v' = put_pages (put_pages (seen v) (slots a (pages_to old b)) fresh_page) (slots a (pages_to b old)) None
    else r = -1 \<and> (\<exists>vas rest. pages_to old b = vas @ rest \<and> mem_step pool (slots a vas) v v' \<and>
      seen v' = put_pages (seen v) (slots a vas) fresh_page)"
proof -
  have a0: "a \<noteq> 0" using vm_ok_refs(5) [OF ok] a by auto
  have none: "\<not> x < y \<Longrightarrow> pages_to x y = []" for x y by (subst pages_to.simps) simp
  let ?set = "\<lambda>v. upd_as v a (\<lambda>s. s\<lparr>heap_brk := b\<rparr>)"
  have set_to: "mem_step pool A v (?set u)" "seen (?set u) = seen u" if h: "page_step pool A v u" for u A
  proof -
    obtain G where G: "vm_ok pool u G UNIV" using h page_stepD by metis
    note au = page_step_space [OF h a]
    have st: "mem_step pool {} u (?set u)"
      by (rule upd_as_step [OF G au]) (use space_anon [OF _ au] in simp_all)
    then show "mem_step pool A v (?set u)" using mem_step_trans [OF page_mem_step [OF h] st] by simp
    show "seen (?set u) = seen u" using mem_stepD(4) [OF st] by (simp add: fun_eq_iff)
  qed
  have e: "(if b > USER_HEAP_MAX then (v, -1)
      else if b > old then let (v1, r) = brk_grow v a old b in if r \<noteq> 0 then (v1, -1) else (?set v1, 0)
      else if b < old then (?set (brk_shrink v a b old), 0) else (?set v, 0)) = (v', r)"
    using s a0 by (simp add: address_space_set_brk_def b_def brk_of_def old_def Let_def split del: if_split cong: if_cong)
  consider "b > USER_HEAP_MAX" | "b \<le> USER_HEAP_MAX" "b > old" | "b \<le> USER_HEAP_MAX" "b \<le> old" by linarith
  then show ?thesis
  proof cases
    case 1
    then have "v' = v" "r = -1" using e by simp_all
    moreover have "\<exists>vas rest. pages_to old b = vas @ rest \<and> mem_step pool (slots a vas) v v \<and>
        seen v = put_pages (seen v) (slots a vas) fresh_page"
      by (rule exI [of _ "[]"]) (use mem_step_refl [OF ok] in \<open>simp add: put_pages_def\<close>)
    ultimately show ?thesis by simp
  next
    case 2
    obtain v1 r1 where g: "brk_grow v a old b = (v1, r1)" by fastforce
    have b64: "b < 2 ^ 64" using 2(1) by simp
    obtain vas rest where vr: "pages_to old b = vas @ rest" "if r1 = 0 then rest = [] else r1 = -1"
      "page_step pool (slots a vas) v v1" "\<forall>va\<in>set vas. seen v1 a (L2_INDEX va) (L3_INDEX va) = fresh_page"
      using brk_grow_ok [OF ok a b64 g] by (auto simp: fresh_page_def)
    note p = put_pages_seen [OF page_mem_step [OF vr(3)] vr(4)]
    show ?thesis
    proof (cases "r1 = 0")
      case True
      then have "v' = ?set v1" "r = 0" using e 2 g by simp_all
      then show ?thesis using True vr(1,2) set_to [OF vr(3)] p 2(2)
        by (simp add: none put_pages_def [of _ "{}"])
    next
      case False
      then have "v' = v1" "r = -1" using e 2 g by simp_all
      then show ?thesis using vr(1) page_mem_step [OF vr(3)] p by auto
    qed
  next
    case 3
    obtain u where u: "u = brk_shrink v a b old" by simp
    have f: "page_step pool (slots a (pages_to b old)) v u"
      "\<forall>va\<in>set (pages_to b old). seen u a (L2_INDEX va) (L3_INDEX va) = None"
      using drop_all_ok [OF ok a] by (simp_all add: u brk_shrink_drops)
    have "v' = ?set u" "r = 0" using e 3 by (auto simp: u brk_shrink.simps [of v a b old] split: if_splits)
    then show ?thesis using set_to [OF f(1)] put_pages_seen [OF page_mem_step [OF f(1)] f(2)] 3(2)
      by (simp add: none put_pages_def [of _ "{}"])
  qed
qed

lemma vma_insert_set: "set (vma_insert_sorted xs y) = insert y (set xs)"
  by (induction xs) auto

lemma mmap_anon_ok:
  assumes ok: "vm_ok pool v H UNIV" and a: "spaces v a \<noteq> None"
    and m: "address_space_mmap_anon v a pages prot = Some (v', va)"
  shows "mem_step pool {} v v'"
proof -
  obtain u b where br: "mmap_brk_alloc v a pages = (u, b)" by fastforce
  have keep: "mem_step pool {} w (upd_as w a f)"
    if w: "mem_step pool {} v w" and f: "\<And>s. l1_pa (f s) = l1_pa s \<and> l2_pa (f s) = l2_pa s \<and> vmas (f s) = vmas s" for w f
  proof -
    obtain G where G: "vm_ok pool w G UNIV" using mem_stepD(1) [OF w] by blast
    note aw = mem_stepD(2) [OF w a]
    show ?thesis by (rule upd_as_step [OF G aw]) (use f space_anon [OF _ aw] in auto)
  qed
  have u: "mem_step pool {} v u"
    using br keep [OF mem_step_refl [OF ok]] mem_step_refl [OF ok]
    by (auto simp: mmap_brk_alloc_def Let_def split: if_splits)
  have chain: "mem_step pool {} v z" if "mem_step pool {} v y" "mem_step pool {} y z" for y z
    using mem_step_trans [OF that] by simp
  consider "v' = v" | "v' = u"
    | x where "v_kind x = VMA_ANON" "mmap_record u a pages x = Some (v', va)"
  proof -
    have "v' = v \<or> v' = u \<or> (\<exists>x. v_kind x = VMA_ANON \<and> mmap_record u a pages x = Some (v', va))"
      using m br by (fastforce simp: address_space_mmap_anon_def split: if_splits)
    then show thesis using that by blast
  qed
  then show ?thesis
  proof cases
    case (3 x)
    obtain w p where k: "vm_kmalloc u 48 = Some (w, p)"
      using 3(2) by (auto simp: mmap_record_def Option.bind_eq_Some_conv)
    obtain G where G: "vm_ok pool u G UNIV" using mem_stepD(1) [OF u] by blast
    have w: "mem_step pool {} v w" by (rule chain [OF u heap_step [OF G]]) (simp_all add: kmalloc_simps [OF k])
    obtain G' where G': "vm_ok pool w G' UNIV" using mem_stepD(1) [OF w] by blast
    note aw = mem_stepD(2) [OF w a]
    show ?thesis
    proof (cases "p = 0")
      case True
      then have "v' = mmap_brk_undo w a pages" using 3(2) k by (simp add: mmap_record_def)
      then show ?thesis using chain [OF w keep [OF w]] by (simp add: mmap_brk_undo_def)
    next
      case False
      then have v': "v' = upd_as w a (\<lambda>s. s\<lparr>vmas := vma_insert_sorted (vmas s) (p, x)\<rparr>)"
        using 3(2) k by (simp add: mmap_record_def)
      have "mem_step pool {} w v'" unfolding v'
        by (rule upd_as_step [OF G' aw]) (use space_anon [OF _ aw] 3(1) in \<open>auto simp: vma_insert_set\<close>)
      then show ?thesis by (rule chain [OF w])
    qed
  qed (use u mem_step_refl [OF ok] in auto)
qed

lemma unmap_drops:
  assumes "vm_ok pool v H UNIV" "spaces v a \<noteq> None"
  shows "unmap_pages v a va p len = fold (\<lambda>va v. drop_at v a va) (map (add64 va) (pages_to p len)) v"
  using assms
proof (induction v a va p len arbitrary: H rule: unmap_pages.induct)
  case (1 v a va p len)
  note ok = "1.prems"(1) and a = "1.prems"(2)
  show ?case
  proof (cases "p < len")
    case True
    let ?u = "drop_at v a (add64 va p)"
    have body: "(case l3_entry_lookup v a (add64 va p) of None \<Rightarrow> v
        | Some q \<Rightarrow> let e = rd64 v q in
            if \<not> has e DESC_VALID then v
            else let v1 = wr64 v q 0;
                     v2 = (if has e DESC_SW_PAGECACHE then vm_cache_release v1 (desc_pa e) else vm_dec_and_free v1 (desc_pa e))
                 in uncount_page v2 a) = ?u"
    proof (cases "l3_entry_lookup v a (add64 va p)")
      case (Some q)
      obtain l3 where "rd64 v q = entry v a (L2_INDEX (add64 va p)) (L3_INDEX (add64 va p))"
        using lookup_Some [OF Some a] by metis
      moreover have "\<not> has (entry v a (L2_INDEX (add64 va p)) (L3_INDEX (add64 va p))) DESC_SW_PAGECACHE"
        if "has (entry v a (L2_INDEX (add64 va p)) (L3_INDEX (add64 va p))) DESC_VALID"
        using entry_plain [OF ok UNIV_I entry_frame [OF a index_less that]] by (simp add: plain_def)
      ultimately show ?thesis using Some by (auto simp: drop_at_def Let_def)
    qed (simp add: drop_at_def)
    note d = drop_at_ok [OF ok a, of "add64 va p"]
    obtain G where "vm_ok pool ?u G UNIV" using d(1) page_stepD by metis
    from "1.IH" [OF True refl, unfolded body, OF this page_step_space [OF d(1) a]]
    have "unmap_pages ?u a va (p + 4096) len =
        fold (\<lambda>va v. drop_at v a va) (map (add64 va) (pages_to (p + 4096) len)) ?u" .
    moreover have "unmap_pages v a va p len = unmap_pages ?u a va (p + 4096) len"
      using True by (subst unmap_pages.simps) (simp only: Let_def body [unfolded Let_def] if_True)
    ultimately show ?thesis using True by (subst pages_to.simps) simp
  qed (simp add: unmap_pages.simps pages_to.simps [of p])
qed

text \<open>The pages of the mapping that starts at \<open>va\<close>.\<close>

definition mapped_pages :: "vm \<Rightarrow> nat \<Rightarrow> nat \<Rightarrow> nat list" where
  "mapped_pages v a va =
     (case first_index (\<lambda>y. v_va (snd y) = va) (vmas (asp v a)) of
        None \<Rightarrow> []
      | Some i \<Rightarrow> map (add64 va) (pages_to 0 (v_len (snd (vmas (asp v a) ! i)))))"

lemma munmap_ok:
  assumes ok: "vm_ok pool v H UNIV" and a: "spaces v a \<noteq> None"
    and m: "address_space_munmap v a va = Some (v', r)"
  shows "r = -1 \<and> v' = v \<or>
    r = 0 \<and> mem_step pool (slots a (mapped_pages v a va)) v v' \<and>
      seen v' = put_pages (seen v) (slots a (mapped_pages v a va)) None"
proof -
  have a0: "a \<noteq> 0" using vm_ok_refs(5) [OF ok] a by auto
  show ?thesis
  proof (cases "first_index (\<lambda>y. v_va (snd y) = va) (vmas (asp v a))")
    case None
    then show ?thesis using m a0 by (simp add: address_space_munmap_def)
  next
    case (Some i)
    obtain q x where x: "vmas (asp v a) ! i = (q, x)" by fastforce
    have va: "v_va x = va" using Some x by (auto simp: first_index_Some)
    let ?f = "\<lambda>s. s\<lparr>vmas := take i (vmas s) @ drop (i + 1) (vmas s)\<rparr>"
    let ?u = "upd_as v a ?f"
    have u: "mem_step pool {} v ?u"
      by (rule upd_as_step [OF ok a])
         (use space_anon [OF _ a] in \<open>auto dest: in_set_takeD in_set_dropD\<close>)
    obtain G where G: "vm_ok pool ?u G UNIV" using mem_stepD(1) [OF u] by blast
    note au = mem_stepD(2) [OF u a]
    let ?vas = "mapped_pages v a va"
    have vas: "?vas = map (add64 va) (pages_to 0 (v_len x))" by (simp add: mapped_pages_def Some x)
    let ?w = "fold (\<lambda>va v. drop_at v a va) ?vas ?u"
    have w: "unmap_pages ?u a va 0 (v_len x) = ?w" unfolding vas by (rule unmap_drops [OF G au])
    have d: "page_step pool (slots a ?vas) ?u ?w" "\<forall>va\<in>set ?vas. seen ?w a (L2_INDEX va) (L3_INDEX va) = None"
      using drop_all_ok [OF G au] by blast+
    have "map_option (\<lambda>v. (v, 0)) (vm_kfree (unmap_pages ?u a va 0 (v_len x)) q) = Some (v', r)"
      using m a0 Some x va by (simp add: address_space_munmap_def Let_def)
    then have k: "vm_kfree ?w q = Some v'" "r = 0" unfolding w by auto
    obtain G' where G': "vm_ok pool ?w G' UNIV" using d(1) unfolding page_step_def by blast
    have f: "mem_step pool {} ?w v'" by (rule heap_step [OF G']) (simp_all add: kfree_simps [OF k(1)])
    have s: "mem_step pool (slots a ?vas) v v'"
      using mem_step_trans [OF mem_step_trans [OF u page_mem_step [OF d(1)]] f] by simp
    have "seen v' = seen ?w" using mem_stepD(4) [OF f] by (simp add: fun_eq_iff)
    then show ?thesis using put_pages_seen [OF s] d(2) s k(2) by simp
  qed
qed

end
