(* ===== verification/UserAccess.thy ===== *)
theory UserAccess
  imports AddrSpace
begin

text \<open>
  How the processor and the kernel reach user memory: the data aborts of \<open>svc_dispatch\<close>
  (\<open>kernel/core/syscall.c\<close>) and the copies of \<open>kernel/core/uaccess.c\<close>.

  The processor translates an address with the descriptor that the tables of the current space hold
  for it; its caches of translations are not modelled.  A copy by the kernel goes through the
  user mapping: \<open>None\<close> is its data abort in the kernel, which stops the machine.
\<close>

abbreviation (input) ENAMETOOLONG :: int where "ENAMETOOLONG \<equiv> 36"

section \<open>One access\<close>

datatype mmu_fault = Translation_fault | Permission_fault

definition translate :: "vm \<Rightarrow> nat \<Rightarrow> nat \<Rightarrow> bool \<Rightarrow> nat + mmu_fault" where
  "translate v a va is_write =
     (if va < USER_VA_BASE \<or> va \<ge> USER_VA_END then Inr Permission_fault
      else let e = address_space_lookup_pte v a va in
           if \<not> has e DESC_VALID then Inr Translation_fault
           else if is_write \<and> ap_field e \<noteq> DESC_AP_RW_EL0 then Inr Permission_fault
           else Inl (desc_pa e + va mod PAGE_SIZE))"

definition load8 :: "vm \<Rightarrow> nat \<Rightarrow> nat \<Rightarrow> byte option" where
  "load8 v a va =
     (case translate v a va False of Inl p \<Rightarrow> Some (peek8 (mem (vm_pmem v)) p) | Inr _ \<Rightarrow> None)"

definition store8 :: "vm \<Rightarrow> nat \<Rightarrow> nat \<Rightarrow> byte \<Rightarrow> vm option" where
  "store8 v a va b =
     (case translate v a va True of
        Inl p \<Rightarrow> Some (set_pmem v ((vm_pmem v)\<lparr>mem := poke8 (mem (vm_pmem v)) p b\<rparr>))
      | Inr _ \<Rightarrow> None)"

text \<open>
  The branch of \<open>svc_dispatch\<close> for a data abort from a user process: the instruction is executed
  again, or the thread is killed, with or without the message about its stack.
\<close>

datatype abort_result = Resume | Stack_overflow | Killed

definition data_abort :: "vm \<Rightarrow> nat \<Rightarrow> nat \<Rightarrow> bool \<Rightarrow> mmu_fault \<Rightarrow> vm \<times> abort_result" where
  "data_abort v a far is_write f =
     (if a \<noteq> 0 \<and> has (address_space_lookup_pte v a far) DESC_SW_GUARD then (v, Stack_overflow)
      else
        let (v1, r1) = (if f = Translation_fault \<and> a \<noteq> 0 then address_space_handle_mmap_fault v a far is_write
                        else (v, -1))
        in if r1 = 0 then (v1, Resume)
           else
             let (v2, r2) = (if is_write \<and> f = Permission_fault \<and> a \<noteq> 0
                             then address_space_handle_cow_fault v1 a far else (v1, -1))
             in if r2 = 0 then (v2, Resume) else (v2, Killed))"

section \<open>Copies by the kernel\<close>

definition range_in_user :: "nat \<Rightarrow> nat \<Rightarrow> bool" where
  "range_in_user uptr len =
     (if uptr < USER_VA_BASE \<or> uptr \<ge> USER_VA_END then False
      else if len > USER_VA_END then False
      else if add64 uptr len > USER_VA_END then False
      else True)"

definition uaccess_check :: "nat \<Rightarrow> nat \<Rightarrow> int" where
  "uaccess_check uptr len = (if range_in_user uptr len then 0 else - EFAULT)"

definition prefault_user_write :: "vm \<Rightarrow> nat \<Rightarrow> nat \<Rightarrow> vm \<times> int" where
  "prefault_user_write v a va =
     (if a = 0 then (v, -1)
      else address_space_make_writable (fst (address_space_handle_mmap_fault v a va True)) a va)"

definition prefault_user_read :: "vm \<Rightarrow> nat \<Rightarrow> nat \<Rightarrow> vm" where
  "prefault_user_read v a va =
     (if a = 0 then v else fst (address_space_handle_mmap_fault v a va False))"

text \<open>The loops over the pages from \<open>p\<close> to \<open>stop\<close>, the last one included.\<close>

function prefault_reads :: "vm \<Rightarrow> nat \<Rightarrow> nat \<Rightarrow> nat \<Rightarrow> vm" where
  "prefault_reads v a p stop =
     (if p \<le> stop then prefault_reads (prefault_user_read v a p) a (p + PAGE_SIZE) stop else v)"
  by pat_completeness auto
termination by (relation "measure (\<lambda>(v, a, p, stop). Suc stop - p)") auto

function prefault_writes :: "vm \<Rightarrow> nat \<Rightarrow> nat \<Rightarrow> nat \<Rightarrow> vm \<times> int" where
  "prefault_writes v a p stop =
     (if p \<le> stop then
        let (v1, r) = prefault_user_write v a p in
        if r < 0 then (v1, - EFAULT) else prefault_writes v1 a (p + PAGE_SIZE) stop
      else (v, 0))"
  by pat_completeness auto
termination by (relation "measure (\<lambda>(v, a, p, stop). Suc stop - p)") auto

declare prefault_reads.simps [simp del] prefault_writes.simps [simp del]

fun load_bytes :: "vm \<Rightarrow> nat \<Rightarrow> nat \<Rightarrow> nat \<Rightarrow> byte list option" where
  "load_bytes v a va 0 = Some []"
| "load_bytes v a va (Suc n) =
     do { b \<leftarrow> load8 v a va; bs \<leftarrow> load_bytes v a (va + 1) n; Some (b # bs) }"

fun store_bytes :: "vm \<Rightarrow> nat \<Rightarrow> nat \<Rightarrow> byte list \<Rightarrow> vm option" where
  "store_bytes v a va [] = Some v"
| "store_bytes v a va (b # bs) = do { v1 \<leftarrow> store8 v a va b; store_bytes v1 a (va + 1) bs }"

definition copy_from_user :: "vm \<Rightarrow> nat \<Rightarrow> nat \<Rightarrow> nat \<Rightarrow> (vm \<times> int \<times> byte list) option" where
  "copy_from_user v a uptr len =
     (if \<not> range_in_user uptr len then Some (v, - EFAULT, [])
      else
        let v1 = (if len > 0 \<and> a \<noteq> 0
                  then prefault_reads v a (align_down PAGE_SIZE uptr) (align_down PAGE_SIZE (uptr + len - 1)) else v)
        in do { bs \<leftarrow> load_bytes v1 a uptr len; Some (v1, 0, bs) })"

definition copy_to_user :: "vm \<Rightarrow> nat \<Rightarrow> nat \<Rightarrow> byte list \<Rightarrow> (vm \<times> int) option" where
  "copy_to_user v a uptr bs =
     (if \<not> range_in_user uptr (length bs) then Some (v, - EFAULT)
      else
        let (v1, r) = (if bs \<noteq> [] \<and> a \<noteq> 0
                       then prefault_writes v a (align_down PAGE_SIZE uptr)
                              (align_down PAGE_SIZE (uptr + length bs - 1))
                       else (v, 0))
        in if r < 0 then Some (v1, r)
           else do { v2 \<leftarrow> store_bytes v1 a uptr bs; Some (v2, 0) })"

text \<open>The walk of \<open>ustrnlen\<close>: \<open>Inl i\<close> is the NUL at \<open>i\<close>, \<open>Inr\<close> the end of the cap.\<close>

fun strn_walk :: "vm \<Rightarrow> nat \<Rightarrow> nat \<Rightarrow> nat \<Rightarrow> nat \<Rightarrow> (nat + unit) option" where
  "strn_walk v a uptr i 0 = Some (Inr ())"
| "strn_walk v a uptr i (Suc n) =
     do { b \<leftarrow> load8 v a (uptr + i); if b = 0 then Some (Inl i) else strn_walk v a uptr (i + 1) n }"

definition ustrnlen :: "vm \<Rightarrow> nat \<Rightarrow> nat \<Rightarrow> nat \<Rightarrow> int option" where
  "ustrnlen v a uptr maxlen =
     (if uptr < USER_VA_BASE \<or> uptr \<ge> USER_VA_END then Some (- EFAULT)
      else
        let avail = USER_VA_END - uptr; cap = (if maxlen < avail then maxlen else avail)
        in do { w \<leftarrow> strn_walk v a uptr 0 cap;
                (case w of
                   Inl i \<Rightarrow> Some (int i)
                 | Inr _ \<Rightarrow> if cap < maxlen then Some (- EFAULT) else Some (- ENAMETOOLONG)) })"

definition copy_string_from_user :: "vm \<Rightarrow> nat \<Rightarrow> nat \<Rightarrow> nat \<Rightarrow> (vm \<times> int \<times> byte list) option" where
  "copy_string_from_user v a uptr kdst_size =
     (if kdst_size = 0 then Some (v, - ENAMETOOLONG, [])
      else do {
        n \<leftarrow> ustrnlen v a uptr kdst_size;
        if n < 0 then Some (v, n, [])
        else do { (v1, rc, bs) \<leftarrow> copy_from_user v a uptr (nat n + 1);
                  if rc < 0 then Some (v1, rc, bs) else Some (v1, n, bs) } })"

end
