(* ===== verification/UserMem.thy ===== *)
theory UserMem
  imports AddrSpaceMap UserAccess
begin

text \<open>
  What a process reads and writes through its tables is what it sees: a load returns the byte of
  its view, a store changes that byte of that view and nothing else.
\<close>

section \<open>Bytes\<close>

lemma get_put_byte:
  assumes "k < 8" "k' < 8"
  shows "get_byte (put_byte w k b) k' = (if k' = k then b else get_byte w k')"
proof (cases "k' = k")
  case True
  have "n < 8 \<Longrightarrow> 8 * k + n < 64" for n using assms(1) by simp
  then show ?thesis using True
    by (intro bit_eqI) (auto simp: get_byte_def put_byte_def bit_simps)
next
  case False
  have "n < 8 \<Longrightarrow> 8 * k' + n < 64" for n using assms(2) by simp
  moreover have "8 * k \<le> 8 * k' + n \<Longrightarrow> \<not> 8 * k' + n - 8 * k < 8" if "n < 8" for n
    using False that by arith
  ultimately show ?thesis using False
    by (intro bit_eqI) (auto simp: get_byte_def put_byte_def bit_simps dest: bit_imp_le_length)
qed

definition byte_of :: "view_page \<Rightarrow> nat \<Rightarrow> byte" where
  "byte_of p off = get_byte (fst p (off div 8)) (off mod 8)"

definition with_byte :: "view_page \<Rightarrow> nat \<Rightarrow> byte \<Rightarrow> view_page" where
  "with_byte p off b = ((fst p)(off div 8 := put_byte (fst p (off div 8)) (off mod 8) b), snd p)"

lemma byte_of_with_byte: "byte_of (with_byte p off b) off' = (if off' = off then b else byte_of p off')"
proof (cases "off' div 8 = off div 8")
  case True
  moreover have "off' = off \<longleftrightarrow> off' mod 8 = off mod 8" using True by (metis div_mult_mod_eq)
  ultimately show ?thesis by (simp add: byte_of_def with_byte_def get_put_byte)
qed (auto simp: byte_of_def with_byte_def)

section \<open>Addresses and slots\<close>

definition user_va :: "nat \<Rightarrow> bool" where
  "user_va va \<longleftrightarrow> USER_VA_BASE \<le> va \<and> va < USER_VA_END"

lemma user_va_parts:
  assumes "user_va va"
  shows "va = USER_VA_BASE + 2097152 * L2_INDEX va + 4096 * L3_INDEX va + va mod 4096"
proof -
  define d where "d = va - 68719476736"
  have va: "va = 68719476736 + d" and d: "d < 1073741824" using assms by (auto simp: user_va_def d_def)
  have "L2_INDEX va = (64 * 512 + d div 2097152) mod 512"
    using div_mult_self3 [of 2097152 32768 d] by (simp add: L2_INDEX_def va)
  then have "L2_INDEX va = d div 2097152" unfolding mod_mult_self3 using d by simp
  moreover have "L3_INDEX va = (32768 * 512 + d div 4096) mod 512"
    using div_mult_self3 [of 4096 16777216 d] by (simp add: L3_INDEX_def va)
  then have "L3_INDEX va = d div 4096 mod 512" unfolding mod_mult_self3 .
  moreover have "va mod 4096 = d mod 4096" using mod_mult_self3 [of 16777216 4096 d] by (simp add: va)
  moreover have "d = 2097152 * (d div 2097152) + 4096 * (d div 4096 mod 512) + d mod 4096"
  proof -
    have "d div 4096 div 512 = d div 2097152" by (simp add: div_mult2_eq [symmetric])
    then have "d div 4096 = 512 * (d div 2097152) + d div 4096 mod 512"
      using mult_div_mod_eq [of 512 "d div 4096"] by simp
    then show ?thesis using mult_div_mod_eq [of 4096 d] by linarith
  qed
  ultimately show ?thesis using va by linarith
qed

lemma same_slot_page:
  assumes "user_va va" "user_va va'" "slot_of a va = slot_of a' va'"
  shows "va div 4096 = va' div 4096"
proof -
  have "va - va mod 4096 = va' - va' mod 4096"
    using user_va_parts [OF assms(1)] user_va_parts [OF assms(2)] assms(3) by simp
  then show ?thesis by (simp add: minus_mod_eq_mult_div)
qed

lemma same_page_slot: "va div 4096 = va' div 4096 \<Longrightarrow> slot_of a va = slot_of a va'"
proof -
  assume h: "va div 4096 = va' div 4096"
  have "L3_INDEX x = x div 4096 mod 512" "L2_INDEX x = x div 4096 div 512 mod 512" for x
    by (simp_all add: L3_INDEX_def L2_INDEX_def div_mult2_eq [symmetric])
  then show ?thesis by (simp add: h)
qed

lemma page_start_slot: "slot_of a (align_down 4096 va) = slot_of a va"
  by (rule same_page_slot) (simp add: align_down_def minus_mod_eq_mult_div)

section \<open>Translation\<close>

lemma lookup_pte_entry:
  assumes "vm_ok pool v H UNIV" "spaces v a \<noteq> None"
  shows "address_space_lookup_pte v a va = entry v a (L2_INDEX va) (L3_INDEX va)"
proof -
  have "a \<noteq> 0" using vm_ok_refs(5) [OF assms(1)] assms(2) by auto
  then show ?thesis using l2e_tables(1) [OF assms index_less(1)]
    by (auto simp: address_space_lookup_pte_def entry_def l2e_def Let_def)
qed

lemma translate_frame:
  assumes "vm_ok pool v H UNIV" "spaces v a \<noteq> None" "user_va va"
  shows "translate v a va w = (case frame_of v a (Pg (L2_INDEX va) (L3_INDEX va)) of
    None \<Rightarrow> Inr Translation_fault
  | Some pa \<Rightarrow> if w \<and> ap_field (entry v a (L2_INDEX va) (L3_INDEX va)) \<noteq> DESC_AP_RW_EL0 then Inr Permission_fault
      else Inl (pa + va mod 4096))"
  using assms by (simp add: translate_def lookup_pte_entry [OF assms(1,2)] user_va_def frame_of.simps Let_def)

lemma translate_user_va: "translate v a va w = Inl p \<Longrightarrow> user_va va"
  by (auto simp: translate_def user_va_def split: if_splits)

text \<open>A word in a page, by the address of a byte of it.\<close>

lemma byte_in_page:
  assumes "frame_addr pa" "off < 4096"
  shows "8 * ((pa + off) div 8) = pa + 8 * (off div 8)" "(pa + off) mod 8 = off mod 8" "off div 8 < 512"
proof -
  have "8 dvd (4096 :: nat)" "4096 dvd pa" using assms(1) by (auto simp: frame_addr_def)
  then have "8 dvd pa" by (rule dvd_trans)
  then obtain q where q: "pa = 8 * q" by (rule dvdE)
  show "8 * ((pa + off) div 8) = pa + 8 * (off div 8)" "(pa + off) mod 8 = off mod 8" by (simp_all add: q)
  show "off div 8 < 512" using assms(2) by simp
qed

lemma peek8_page:
  assumes "frame_addr pa" "off < 4096"
  shows "peek8 (mem (vm_pmem v)) (pa + off) = get_byte (frame_words v pa (off div 8)) (off mod 8)"
  using byte_in_page [OF assms] by (simp add: peek8_def frame_words_def rd64_def)

lemma poke8_page:
  assumes "frame_addr pa" "off < 4096"
  shows "set_pmem v ((vm_pmem v)\<lparr>mem := poke8 (mem (vm_pmem v)) (pa + off) b\<rparr>) =
    wr64 v (pa + 8 * (off div 8)) (put_byte (rd64 v (pa + 8 * (off div 8))) (off mod 8) b)"
  using byte_in_page [OF assms] by (simp add: poke8_def wr64_def rd64_def)

section \<open>Loads and stores\<close>

definition page_at :: "vm \<Rightarrow> nat \<Rightarrow> nat \<Rightarrow> view_page option" where
  "page_at v a va = seen v a (L2_INDEX va) (L3_INDEX va)"

lemma load8_seen:
  assumes "vm_ok pool v H UNIV" "spaces v a \<noteq> None" "user_va va"
  shows "load8 v a va = map_option (\<lambda>p. byte_of p (va mod 4096)) (page_at v a va)"
proof (cases "frame_of v a (Pg (L2_INDEX va) (L3_INDEX va))")
  case None
  then show ?thesis by (simp add: load8_def translate_frame [OF assms] page_at_def seen_def)
next
  case (Some pa)
  note f = vm_ok_owner(3) [OF assms(1) UNIV_I Some]
  have "va mod 4096 < 4096" by simp
  then show ?thesis using peek8_page [OF f]
    by (simp add: load8_def translate_frame [OF assms] Some page_at_def seen_def byte_of_def)
qed

definition writable :: "vm \<Rightarrow> nat \<Rightarrow> nat \<Rightarrow> bool" where
  "writable v a va \<longleftrightarrow> user_va va \<and> frame_of v a (Pg (L2_INDEX va) (L3_INDEX va)) \<noteq> None \<and>
     ap_field (entry v a (L2_INDEX va) (L3_INDEX va)) = DESC_AP_RW_EL0"

text \<open>Whether a page can be written is not changed by a step on other pages.\<close>

lemma writable_kept:
  assumes "page_step pool A v v'" "spaces v a \<noteq> None" "slot_of a va \<notin> A" "writable v a va"
  shows "writable v' a va"
proof -
  have c: "changes UNIV A v v'" using assms(1) by (simp add: page_step_def)
  show ?thesis
    using assms(4) changesD(2) [OF c UNIV_I assms(3)] changesD(4) [OF c UNIV_I assms(2) index_less assms(3)]
    by (simp add: writable_def)
qed

lemma store8_ok:
  assumes ok: "vm_ok pool v H UNIV" and a: "spaces v a \<noteq> None"
  shows "store8 v a va b \<noteq> None \<longleftrightarrow> writable v a va"
    "store8 v a va b = Some v' \<Longrightarrow> page_step pool {slot_of a va} v v' \<and> writable v' a va \<and>
      (\<exists>p. page_at v a va = Some p \<and> fst (snd p) \<and> page_at v' a va = Some (with_byte p (va mod 4096) b))"
proof -
  let ?i = "L2_INDEX va" and ?j = "L3_INDEX va" and ?off = "va mod 4096"
  show "store8 v a va b \<noteq> None \<longleftrightarrow> writable v a va"
  proof (cases "user_va va")
    case True
    then show ?thesis by (auto simp: store8_def translate_frame [OF ok a True] writable_def split: option.split)
  next
    case False
    then show ?thesis using translate_user_va [of v a va True] by (auto simp: store8_def writable_def split: sum.split)
  qed
  then have "writable v a va" if "store8 v a va b = Some v'" using that by simp
  assume s: "store8 v a va b = Some v'"
  then have w: "writable v a va" using \<open>store8 v a va b \<noteq> None \<longleftrightarrow> writable v a va\<close> by simp
  then obtain pa where pa: "frame_of v a (Pg ?i ?j) = Some pa" "ap_field (entry v a ?i ?j) = DESC_AP_RW_EL0" "user_va va"
    by (auto simp: writable_def)
  note f = vm_ok_owner(3) [OF ok UNIV_I pa(1)]
  have off: "?off < 4096" by simp
  let ?w = "put_byte (rd64 v (pa + 8 * (?off div 8))) (?off mod 8) b"
  have v': "v' = wr64 v (pa + 8 * (?off div 8)) ?w"
    using s poke8_page [OF f off] by (simp add: store8_def translate_frame [OF ok a pa(3)] pa(1,2))
  note st = store_word_ok [OF ok UNIV_I pa(1,2) byte_in_page(3) [OF f off], of ?w, folded v']
  have rt: "rooted (UNIV - {(a, Pg ?i ?j)})" by (auto simp: rooted_def)
  have "changes (UNIV - {(a, Pg ?i ?j)}) {} v v'" by (rule agree_changes [OF rt st(5)]) (simp add: v')
  then have "changes UNIV {slot_of a va} v v'" unfolding changes_def by auto
  then have ps: "page_step pool {slot_of a va} v v'"
    unfolding page_step_def using st(1) counts_only_same [of v' v] by (auto simp: v')
  have "frame_words v pa (?off div 8) = rd64 v (pa + 8 * (?off div 8))"
    using byte_in_page(3) [OF f off] by (simp add: frame_words_def)
  then have "page_at v' a va = Some (with_byte (frame_words v pa, may_write (entry v a ?i ?j), \<not> has (entry v a ?i ?j) DESC_UXN) ?off b)"
    by (simp add: page_at_def seen_def st(2-4) with_byte_def)
  moreover have "page_at v a va = Some (frame_words v pa, may_write (entry v a ?i ?j), \<not> has (entry v a ?i ?j) DESC_UXN)"
    by (simp add: page_at_def seen_def pa(1))
  moreover have "may_write (entry v a ?i ?j)" by (simp add: may_write_def pa(2))
  moreover have "writable v' a va" using pa st(2,3) by (simp add: writable_def)
  ultimately show "page_step pool {slot_of a va} v v' \<and> writable v' a va \<and>
      (\<exists>p. page_at v a va = Some p \<and> fst (snd p) \<and> page_at v' a va = Some (with_byte p ?off b))"
    using ps by (intro conjI exI) auto
qed

section \<open>Faults\<close>

lemma user_va_aligned: "user_va (align_down 4096 va) \<longleftrightarrow> user_va va"
proof -
  have "align_down 4096 va \<le> va" "va < align_down 4096 va + 4096" "4096 dvd align_down 4096 va"
    using align_down_gt [of 4096 va] by simp_all
  moreover from this(3) obtain q where "align_down 4096 va = 4096 * q" by (rule dvdE)
  ultimately show ?thesis by (auto simp: user_va_def)
qed

lemma cow_fault_step:
  assumes ok: "vm_ok pool v H UNIV" and a: "spaces v a \<noteq> None"
    and f: "address_space_handle_cow_fault v a fault = (v', r)"
  shows "r = 0 \<and> page_step pool {slot_of a fault} v v' \<and> page_at v' a fault = page_at v a fault \<and> writable v' a fault \<or>
    r = -1 \<and> v' = v"
proof -
  have sl: "L2_INDEX (align_down 4096 fault) = L2_INDEX fault" "L3_INDEX (align_down 4096 fault) = L3_INDEX fault"
    using page_start_slot [of a fault] by simp_all
  have u: "user_va fault" if "r = 0"
    using f that unfolding user_va_aligned [of fault, symmetric]
    by (auto simp: address_space_handle_cow_fault_def Let_def user_va_def split: if_splits)
  show ?thesis using cow_fault_ok [OF ok whole_UNIV a f] unfolding sl
  proof
    assume h: "r = 0 \<and> cow_resolved pool UNIV v a (L2_INDEX fault) (L3_INDEX fault) v'"
    then have "page_step pool {slot_of a fault} v v'"
      unfolding page_step_def cow_resolved_def using counts_only_same by blast
    then show ?thesis using h u by (simp add: cow_resolved_def writable_def page_at_def)
  qed simp
qed

lemma mmap_fault_step:
  assumes ok: "vm_ok pool v H UNIV" and a: "spaces v a \<noteq> None" and an: "all_anon v"
    and f: "address_space_handle_mmap_fault v a va w = (v', r)"
  shows "r = 0 \<and> page_step pool {slot_of a va} v v' \<and> user_va va \<and> page_at v a va = None \<and>
      (w \<longrightarrow> writable v' a va) \<and> (\<exists>rw. page_at v' a va = Some (\<lambda>_. 0, rw, False)) \<or>
    r = -1 \<and> page_step pool {} v v'"
proof -
  have sl: "L2_INDEX (align_down 4096 va) = L2_INDEX va" "L3_INDEX (align_down 4096 va) = L3_INDEX va"
    using page_start_slot [of a va] by simp_all
  show ?thesis
    using mmap_fault_ok [OF ok a an f] user_va_aligned [of va]
    unfolding sl page_at_def user_va_def writable_def by (auto simp: seen_def)
qed

text \<open>
  An abort that is resumed leaves a page on which the access succeeds: a fresh zero page of a
  mapping, or the page the process saw, now its own.  Every other abort changes nothing it sees.
\<close>

lemma translate_writable:
  assumes "vm_ok pool v H UNIV" "spaces v a \<noteq> None" "writable v a va"
  shows "\<exists>p. translate v a va w = Inl p"
  using assms(3) by (auto simp: writable_def translate_frame [OF assms(1,2)])

lemma translate_page:
  assumes "vm_ok pool v H UNIV" "spaces v a \<noteq> None" "user_va va" "page_at v a va \<noteq> None"
  shows "\<exists>p. translate v a va False = Inl p"
  using assms(4) by (auto simp: translate_frame [OF assms(1-3)] page_at_def seen_def)

lemma data_abort_ok:
  assumes ok: "vm_ok pool v H UNIV" and a: "spaces v a \<noteq> None" and an: "all_anon v"
    and d: "data_abort v a va w f = (v', r)"
  shows "r = Resume \<and> page_step pool {slot_of a va} v v' \<and> (\<exists>p. translate v' a va w = Inl p) \<and>
      (if f = Translation_fault then page_at v a va = None \<and> (\<exists>rw. page_at v' a va = Some (\<lambda>_. 0, rw, False))
       else page_at v' a va = page_at v a va) \<or>
    r \<noteq> Resume \<and> page_step pool {} v v'"
proof -
  have a0: "a \<noteq> 0" using vm_ok_refs(5) [OF ok] a by auto
  note stay = page_step_refl [OF ok, of "{}"]
  show ?thesis
  proof (cases "has (address_space_lookup_pte v a va) DESC_SW_GUARD")
    case True
    then show ?thesis using d a0 stay by (simp add: data_abort_def)
  next
    case g: False
    show ?thesis
    proof (cases f)
      case Translation_fault
      obtain u m where m: "address_space_handle_mmap_fault v a va w = (u, m)" by fastforce
      have "v' = u \<and> r = (if m = 0 then Resume else Killed)"
        using d g a0 m Translation_fault by (auto simp: data_abort_def split: if_splits)
      moreover note mf = mmap_fault_step [OF ok a an m]
      moreover have "\<exists>p. translate u a va w = Inl p"
        if h: "page_step pool {slot_of a va} v u" "user_va va" "w \<longrightarrow> writable u a va" "page_at u a va \<noteq> None"
      proof -
        obtain G where G: "vm_ok pool u G UNIV" using h(1) page_stepD by metis
        note su = page_step_space [OF h(1) a]
        show ?thesis
        proof (cases w)
          case True
          then show ?thesis using translate_writable [OF G su] h(3) by blast
        next
          case False
          then show ?thesis using translate_page [OF G su h(2,4)] by simp
        qed
      qed
      ultimately show ?thesis using Translation_fault by auto
    next
      case Permission_fault
      obtain u m where m: "address_space_handle_cow_fault v a va = (u, m)" by fastforce
      have "if w \<and> m = 0 then v' = u \<and> r = Resume else r = Killed \<and> (v' = v \<or> w \<and> v' = u)"
        using d g a0 m Permission_fault by (auto simp: data_abort_def split: if_splits)
      moreover note cf = cow_fault_step [OF ok a m]
      moreover have "\<exists>p. translate u a va w = Inl p" if h: "page_step pool {slot_of a va} v u" "writable u a va"
      proof -
        obtain G where "vm_ok pool u G UNIV" using h(1) page_stepD by metis
        then show ?thesis by (rule translate_writable [OF _ page_step_space [OF h(1) a] h(2)])
      qed
      ultimately show ?thesis using Permission_fault stay by (auto split: if_splits)
    qed
  qed
qed

section \<open>Preparing the pages of a copy\<close>

lemma make_writable_ok:
  assumes ok: "vm_ok pool v H UNIV" and a: "spaces v a \<noteq> None" and m: "address_space_make_writable v a va = (v', r)"
  shows "r = 0 \<and> page_step pool {slot_of a va} v v' \<and> page_at v' a va = page_at v a va \<and> writable v' a va \<or>
    r = -1 \<and> v' = v"
proof -
  have sl: "L2_INDEX (align_down 4096 va) = L2_INDEX va" "L3_INDEX (align_down 4096 va) = L3_INDEX va"
    using page_start_slot [of a va] by simp_all
  have a0: "a \<noteq> 0" using vm_ok_refs(5) [OF ok] a by auto
  note stay = page_step_refl [OF ok, of "{slot_of a va}"]
  show ?thesis
  proof (cases "user_va va \<and> l3_entry_lookup v a (align_down 4096 va) \<noteq> None")
    case False
    then have "v' = v \<and> r = -1" using m a0 unfolding user_va_aligned [of va, symmetric]
      by (auto simp: address_space_make_writable_def Let_def user_va_def split: if_splits)
    then show ?thesis by simp
  next
    case True
    then obtain p where p: "l3_entry_lookup v a (align_down 4096 va) = Some p" by auto
    have e: "rd64 v p = entry v a (L2_INDEX va) (L3_INDEX va)" using lookup_Some [OF p a] sl by metis
    let ?e = "entry v a (L2_INDEX va) (L3_INDEX va)"
    have u: "USER_VA_BASE \<le> align_down 4096 va" "align_down 4096 va < USER_VA_END"
      using True user_va_aligned [of va] by (simp_all add: user_va_def)
    have d: "(if \<not> has ?e DESC_VALID then (v, -1) else if ap_field ?e = DESC_AP_RW_EL0 then (v, 0)
        else if \<not> has ?e DESC_SW_COW then (v, -1)
        else address_space_handle_cow_fault v a (align_down 4096 va)) = (v', r)"
      using m a0 u p e by (simp add: address_space_make_writable_def Let_def not_less not_le split del: if_split)
    have w: "writable u a (align_down 4096 va) \<longleftrightarrow> writable u a va" "page_at u a (align_down 4096 va) = page_at u a va" for u
      by (simp_all only: writable_def page_at_def sl user_va_aligned)
    show ?thesis
    proof (cases "has ?e DESC_VALID \<and> (ap_field ?e = DESC_AP_RW_EL0 \<or> has ?e DESC_SW_COW)")
      case False
      then have "v' = v" "r = -1" using d by (auto split: if_splits)
      then show ?thesis by simp
    next
      case v: True
      show ?thesis
      proof (cases "ap_field ?e = DESC_AP_RW_EL0")
        case ap: True
        then have "v' = v" "r = 0" using d v by simp_all
        moreover have "writable v a va" using v ap True entry_frame [OF a index_less] by (simp add: writable_def)
        ultimately show ?thesis using stay by simp
      next
        case False
        then have "address_space_handle_cow_fault v a (align_down 4096 va) = (v', r)" using d v by simp
        from cow_fault_step [OF ok a this] show ?thesis unfolding sl w .
      qed
    qed
  qed
qed

text \<open>A page of the range that was not there is a zero page afterwards; the others are as they were.\<close>

definition filled :: "vm \<Rightarrow> nat \<Rightarrow> nat \<Rightarrow> vm \<Rightarrow> bool" where
  "filled v a va v' \<longleftrightarrow> page_at v' a va = page_at v a va \<or>
     page_at v a va = None \<and> (\<exists>rw. page_at v' a va = Some (\<lambda>_. 0, rw, False))"

lemma prefault_user_write_ok:
  assumes ok: "vm_ok pool v H UNIV" and a: "spaces v a \<noteq> None" and an: "all_anon v"
    and p: "prefault_user_write v a va = (v', r)"
  shows "page_step pool {slot_of a va} v v' \<and> filled v a va v' \<and> (r = 0 \<and> writable v' a va \<or> r = -1)"
proof -
  have a0: "a \<noteq> 0" using vm_ok_refs(5) [OF ok] a by auto
  obtain u m where m: "address_space_handle_mmap_fault v a va True = (u, m)" by fastforce
  note mf = mmap_fault_step [OF ok a an m]
  then have s: "page_step pool {slot_of a va} v u" using page_step_mono [of pool "{}" v u] by blast
  have e: "page_at u a va = page_at v a va" if "page_step pool {} v u"
    using page_step_seen [OF that, of a] by (simp add: page_at_def)
  obtain G where G: "vm_ok pool u G UNIV" using s page_stepD by metis
  have "address_space_make_writable u a va = (v', r)" using p a0 m by (simp add: prefault_user_write_def)
  note w = make_writable_ok [OF G page_step_space [OF s a] this]
  then have "page_step pool {slot_of a va} v v'" using page_step_trans [OF s, of "{slot_of a va}" v'] s by auto
  moreover have "page_at v' a va = page_at u a va" using w by auto
  ultimately show ?thesis using mf e w by (auto simp: filled_def)
qed

end
