(* ===== verification/UserCopy.thy ===== *)
theory UserCopy
  imports UserMem
begin

text \<open>
  The copies of the kernel to and from user memory: \<open>copy_to_user\<close> never faults in the kernel, writes
  its bytes or reports the error, and \<open>copy_from_user\<close> reads them back.
\<close>

section \<open>Pages and bytes\<close>

lemma in_pages_to: "m \<le> q \<Longrightarrow> 4096 * q < stop \<Longrightarrow> 4096 * q \<in> set (pages_to (4096 * m) stop)"
proof (induction "q - m" arbitrary: m)
  case 0
  then show ?case by (subst pages_to.simps) simp
next
  case (Suc n)
  then have "4096 * q \<in> set (pages_to (4096 * Suc m) stop)" by (intro Suc.hyps(1)) simp_all
  then show ?case using Suc.prems by (subst pages_to.simps) (simp add: add.commute)
qed

lemma pages_cover:
  assumes "u \<le> x" "x < u + n"
  shows "align_down 4096 x \<in> set (pages_to (align_down 4096 u) (Suc (align_down 4096 (u + n - 1))))"
proof -
  have m: "align_down 4096 y = 4096 * (y div 4096)" for y by (simp add: align_down_def minus_mod_eq_mult_div)
  have "u div 4096 \<le> x div 4096" "x div 4096 \<le> (u + n - 1) div 4096" using assms by (simp_all add: div_le_mono)
  then show ?thesis unfolding m by (intro in_pages_to) simp_all
qed

definition byte_at :: "vm \<Rightarrow> nat \<Rightarrow> nat \<Rightarrow> byte option" where
  "byte_at v a x = map_option (\<lambda>p. byte_of p (x mod 4096)) (page_at v a x)"

lemma load8_byte: "vm_ok pool v H UNIV \<Longrightarrow> spaces v a \<noteq> None \<Longrightarrow> user_va x \<Longrightarrow> load8 v a x = byte_at v a x"
  by (simp add: load8_seen byte_at_def)

lemma same_slot_page_at: "slot_of a x = slot_of a y \<Longrightarrow> page_at v a x = page_at v a y"
  by (simp add: page_at_def)

lemma page_step_page: "page_step pool A v v' \<Longrightarrow> slot_of a x \<notin> A \<Longrightarrow> page_at v' a x = page_at v a x"
  using page_step_seen by (simp add: page_at_def)

lemma writable_user: "writable v a x \<Longrightarrow> user_va x"
  by (simp add: writable_def)

lemma writable_same_slot: "writable v a x \<Longrightarrow> slot_of a x = slot_of a y \<Longrightarrow> user_va y \<Longrightarrow> writable v a y"
  by (simp add: writable_def)

lemma store8_byte:
  assumes ok: "vm_ok pool v H UNIV" and a: "spaces v a \<noteq> None" and w: "writable v a va" and x: "user_va x"
  shows "\<exists>v'. store8 v a va b = Some v' \<and> page_step pool {slot_of a va} v v' \<and>
    (\<forall>y. writable v a y \<longrightarrow> writable v' a y) \<and> byte_at v' a x = (if x = va then Some b else byte_at v a x)"
proof -
  obtain v' where s: "store8 v a va b = Some v'" using store8_ok(1) [OF ok a, of va b] w by auto
  obtain p where p: "page_step pool {slot_of a va} v v'" "writable v' a va" "page_at v a va = Some p"
    "page_at v' a va = Some (with_byte p (va mod 4096) b)"
    using store8_ok(2) [OF ok a s] by blast
  have "writable v' a y" if "writable v a y" for y
  proof (cases "slot_of a y = slot_of a va")
    case True
    then show ?thesis using writable_same_slot [OF p(2)] writable_user [OF that] by metis
  next
    case False
    then show ?thesis using writable_kept [OF p(1) a _ that] by auto
  qed
  moreover have "byte_at v' a x = (if x = va then Some b else byte_at v a x)"
  proof (cases "slot_of a x = slot_of a va")
    case True
    have "x div 4096 = va div 4096" by (rule same_slot_page [OF x writable_user [OF w] True])
    then have "x = va \<longleftrightarrow> x mod 4096 = va mod 4096" by (metis div_mult_mod_eq)
    then show ?thesis using same_slot_page_at [OF True] p(3,4) by (simp add: byte_at_def byte_of_with_byte)
  next
    case False
    then show ?thesis using page_step_page [OF p(1)] by (auto simp: byte_at_def)
  qed
  ultimately show ?thesis using s p(1) by blast
qed

lemma store_bytes_ok:
  assumes "vm_ok pool v H UNIV" "spaces v a \<noteq> None" "\<forall>k<length bs. writable v a (va + k)"
  shows "\<exists>v'. store_bytes v a va bs = Some v' \<and> page_step pool ({a} \<times> UNIV) v v' \<and>
    (\<forall>x. user_va x \<longrightarrow> byte_at v' a x = (if va \<le> x \<and> x < va + length bs then Some (bs ! (x - va)) else byte_at v a x))"
  using assms
proof (induction bs arbitrary: v H va)
  case Nil
  then show ?case using page_step_refl by auto
next
  case (Cons b bs)
  note ok = Cons.prems(1) and a = Cons.prems(2)
  have w: "writable v a va" using Cons.prems(3) by force
  obtain v1 where s: "store8 v a va b = Some v1" using store8_ok(1) [OF ok a, of va b] w by auto
  have b1: "page_step pool {slot_of a va} v v1" "writable v a y \<Longrightarrow> writable v1 a y"
    "user_va x \<Longrightarrow> byte_at v1 a x = (if x = va then Some b else byte_at v a x)" for x y
    using store8_byte [OF ok a w writable_user [OF w], of b] store8_byte [OF ok a w, of x b] s by auto
  obtain G where G: "vm_ok pool v1 G UNIV" using b1(1) page_stepD by metis
  have "\<forall>k<length bs. writable v1 a (va + 1 + k)"
    using Cons.prems(3) b1(2) by (metis Suc_less_eq length_Cons add.assoc plus_1_eq_Suc)
  from Cons.IH [OF G page_step_space [OF b1(1) a] this]
  obtain v' where v': "store_bytes v1 a (va + 1) bs = Some v'" "page_step pool ({a} \<times> UNIV) v1 v'"
    "\<And>x. user_va x \<Longrightarrow> byte_at v' a x = (if va + 1 \<le> x \<and> x < va + 1 + length bs then Some (bs ! (x - (va + 1))) else byte_at v1 a x)"
    by blast
  have "byte_at v' a x = (if va \<le> x \<and> x < va + length (b # bs) then Some ((b # bs) ! (x - va)) else byte_at v a x)"
    if "user_va x" for x
    using v'(3) [OF that] b1(3) [OF that] by (cases "x = va") (auto simp: nth_Cons' Suc_le_eq)
  moreover have "page_step pool ({a} \<times> UNIV) v v'"
    by (rule page_step_mono [OF page_step_trans [OF b1(1) v'(2)]]) auto
  ultimately show ?case using s v'(1) by auto
qed

lemma load_bytes_ok:
  assumes "vm_ok pool v H UNIV" "spaces v a \<noteq> None" "\<forall>k<n. user_va (va + k) \<and> byte_at v a (va + k) = Some (f k)"
  shows "load_bytes v a va n = Some (map f [0..<n])"
  using assms(3)
proof (induction n arbitrary: va f)
  case (Suc n)
  have "load8 v a va = Some (f 0)" using Suc.prems load8_byte [OF assms(1,2), of va] by force
  moreover have "load_bytes v a (va + 1) n = Some (map (\<lambda>k. f (Suc k)) [0..<n])"
    by (rule Suc.IH) (use Suc.prems in \<open>metis Suc_less_eq add.assoc plus_1_eq_Suc\<close>)
  ultimately show ?case by (simp add: map_upt_Suc del: upt_Suc)
qed simp

section \<open>Preparing a range\<close>

lemma filled_trans: "filled u a x v \<Longrightarrow> filled v a x w \<Longrightarrow> filled u a x w"
  by (auto simp: filled_def)

lemma filled_refl [simp]: "filled v a x v"
  by (simp add: filled_def)

lemma filled_all:
  assumes "page_step pool {slot_of a va} v v'" "filled v a va v'"
  shows "filled v a x v'"
proof (cases "slot_of a x = slot_of a va")
  case True
  show ?thesis using assms(2) same_slot_page_at [OF True] by (simp add: filled_def)
next
  case False
  then have "page_at v' a x = page_at v a x" by (intro page_step_page [OF assms(1)]) simp
  then show ?thesis by (simp add: filled_def)
qed

lemma own_slot: "{slot_of a va} \<subseteq> {a} \<times> UNIV"
  by simp

lemma prefault_writes_ok:
  assumes "vm_ok pool v H UNIV" "spaces v a \<noteq> None" "all_anon v" "prefault_writes v a p stop = (v', r)"
  shows "page_step pool ({a} \<times> UNIV) v v' \<and> (\<forall>x. filled v a x v') \<and>
    (r = 0 \<and> (\<forall>va\<in>set (pages_to p (Suc stop)). writable v' a va) \<and> (\<forall>x. writable v a x \<longrightarrow> writable v' a x) \<or>
     r = - EFAULT)"
  using assms
proof (induction v a p stop arbitrary: H rule: prefault_writes.induct)
  case (1 v a p stop)
  note ok = "1.prems"(1) and a = "1.prems"(2) and an = "1.prems"(3)
  show ?case
  proof (cases "p \<le> stop")
    case False
    then have "v' = v" "r = 0" "pages_to p (Suc stop) = []"
      using "1.prems"(4) by (simp_all add: prefault_writes.simps [of v] pages_to.simps [of p])
    then show ?thesis using page_step_refl [OF ok] by simp
  next
    case True
    obtain v1 r1 where f: "prefault_user_write v a p = (v1, r1)" by fastforce
    note s = prefault_user_write_ok [OF ok a an f]
    then have fa: "filled v a x v1" for x using filled_all by blast
    have s1: "page_step pool ({a} \<times> UNIV) v v1" by (rule page_step_mono [OF conjunct1 [OF s] own_slot])
    have g: "(if r1 < 0 then (v1, - EFAULT) else prefault_writes v1 a (p + 4096) stop) = (v', r)"
      using "1.prems"(4) True f by (simp add: prefault_writes.simps [of v] split del: if_split)
    show ?thesis
    proof (cases "r1 < 0")
      case True
      then show ?thesis using g s1 fa by simp
    next
      case nn: False
      then have w: "writable v1 a p" using s by auto
      have k1: "writable v1 a x" if x: "writable v a x" for x
      proof (cases "slot_of a x = slot_of a p")
        case True
        then show ?thesis using writable_same_slot [OF w] writable_user [OF x] by metis
      next
        case False
        then show ?thesis using writable_kept [OF conjunct1 [OF s] a _ x] by auto
      qed
      obtain G where G: "vm_ok pool v1 G UNIV" using s1 page_stepD by metis
      have g': "prefault_writes v1 a (p + 4096) stop = (v', r)" using g nn by simp
      note ih = "1.IH" [OF True f [symmetric] refl nn G page_step_space [OF s1 a] page_step_anon [OF s1 an] g']
      have "pages_to p (Suc stop) = p # pages_to (p + 4096) (Suc stop)" using True by (subst pages_to.simps) simp
      moreover have "page_step pool ({a} \<times> UNIV) v v'" using page_step_trans [OF s1] ih by fastforce
      moreover have "filled v a x v'" for x using filled_trans [OF fa] ih by blast
      ultimately show ?thesis using ih w k1 by auto
    qed
  qed
qed

lemma prefault_reads_ok:
  assumes "vm_ok pool v H UNIV" "spaces v a \<noteq> None" "all_anon v"
  shows "page_step pool ({a} \<times> UNIV) v (prefault_reads v a p stop) \<and> (\<forall>x. filled v a x (prefault_reads v a p stop))"
  using assms
proof (induction v a p stop arbitrary: H rule: prefault_reads.induct)
  case (1 v a p stop)
  note ok = "1.prems"(1) and a = "1.prems"(2) and an = "1.prems"(3)
  show ?case
  proof (cases "p \<le> stop")
    case False
    then show ?thesis using page_step_refl [OF ok] by (simp add: prefault_reads.simps [of v])
  next
    case True
    have a0: "a \<noteq> 0" using vm_ok_refs(5) [OF ok] a by auto
    obtain v1 m where m: "address_space_handle_mmap_fault v a p False = (v1, m)" by fastforce
    have v1: "prefault_user_read v a p = v1" using a0 m by (simp add: prefault_user_read_def)
    note f = mmap_fault_step [OF ok a an m]
    have s1: "page_step pool ({a} \<times> UNIV) v v1"
    proof (cases "m = 0")
      case True
      then have "page_step pool {slot_of a p} v v1" using f by simp
      then show ?thesis by (rule page_step_mono [OF _ own_slot])
    next
      case False
      then have "page_step pool {} v v1" using f by blast
      then show ?thesis by (rule page_step_mono [OF _ empty_subsetI])
    qed
    have fa: "filled v a x v1" for x
    proof (cases "m = 0")
      case True
      then have "page_step pool {slot_of a p} v v1" "filled v a p v1" using f by (auto simp: filled_def)
      then show ?thesis by (rule filled_all)
    next
      case False
      then have "page_at v1 a x = page_at v a x" using f page_step_page [of pool "{}" v v1] by auto
      then show ?thesis by (simp add: filled_def)
    qed
    obtain G where G: "vm_ok pool v1 G UNIV" using s1 page_stepD by metis
    note ih = "1.IH" [OF True, unfolded v1, OF G page_step_space [OF s1 a] page_step_anon [OF s1 an]]
    have "prefault_reads v a p stop = prefault_reads v1 a (p + 4096) stop"
      using True by (subst prefault_reads.simps) (simp add: v1)
    moreover have "page_step pool ({a} \<times> UNIV) v (prefault_reads v1 a (p + 4096) stop)"
      using page_step_trans [OF s1] ih by fastforce
    ultimately show ?thesis using ih filled_trans [OF fa] by simp
  qed
qed

section \<open>The copies\<close>

text \<open>What a process sees of a byte after a copy that wrote nothing there.\<close>

definition kept_byte :: "vm \<Rightarrow> nat \<Rightarrow> nat \<Rightarrow> vm \<Rightarrow> bool" where
  "kept_byte v a x v' \<longleftrightarrow> byte_at v' a x = byte_at v a x \<or> byte_at v a x = None \<and> byte_at v' a x = Some 0"

lemma get_byte_0 [simp]: "get_byte 0 k = 0"
  by (simp add: get_byte_def)

lemma filled_kept: "filled v a x v' \<Longrightarrow> kept_byte v a x v'"
  by (auto simp: filled_def kept_byte_def byte_at_def byte_of_def)

lemma range_in_user_va:
  assumes "range_in_user u n" "x < n"
  shows "user_va (u + x)"
proof -
  have "u < USER_VA_END" "n \<le> USER_VA_END" "USER_VA_BASE \<le> u" "add64 u n \<le> USER_VA_END"
    using assms(1) by (auto simp: range_in_user_def split: if_splits)
  moreover from this have "add64 u n = u + n" by (intro add64_exact) simp
  ultimately show ?thesis using assms(2) by (simp add: user_va_def)
qed

lemma copy_to_user_ok:
  assumes ok: "vm_ok pool v H UNIV" and a: "spaces v a \<noteq> None" and an: "all_anon v"
  shows "\<exists>v' r. copy_to_user v a u bs = Some (v', r) \<and> page_step pool ({a} \<times> UNIV) v v' \<and>
    (if r = 0 then \<forall>x. user_va x \<longrightarrow>
       (if u \<le> x \<and> x < u + length bs then byte_at v' a x = Some (bs ! (x - u)) else kept_byte v a x v')
     else r = - EFAULT \<and> (\<forall>x. kept_byte v a x v'))"
proof (cases "range_in_user u (length bs)")
  case False
  then show ?thesis using page_step_refl [OF ok] by (simp add: copy_to_user_def kept_byte_def)
next
  case rng: True
  have a0: "a \<noteq> 0" using vm_ok_refs(5) [OF ok] a by auto
  show ?thesis
  proof (cases "bs = []")
    case True
    then show ?thesis using rng page_step_refl [OF ok] by (auto simp: copy_to_user_def kept_byte_def)
  next
    case ne: False
    let ?p = "align_down 4096 u" and ?q = "align_down 4096 (u + length bs - 1)"
    obtain v1 r1 where f: "prefault_writes v a ?p ?q = (v1, r1)" by fastforce
    note s = prefault_writes_ok [OF ok a an f]
    have c: "copy_to_user v a u bs = (if r1 < 0 then Some (v1, r1) else map_option (\<lambda>v. (v, 0)) (store_bytes v1 a u bs))"
      using rng ne a0 f by (simp add: copy_to_user_def map_option_case split: option.split)
    show ?thesis
    proof (cases "r1 = 0")
      case False
      then have "r1 = - EFAULT" using s by blast
      then show ?thesis using c s filled_kept by auto
    next
      case True
      have w: "\<forall>k<length bs. writable v1 a (u + k)"
      proof (intro allI impI)
        fix k assume k: "k < length bs"
        have "align_down 4096 (u + k) \<in> set (pages_to ?p (Suc ?q))" using k by (intro pages_cover) simp_all
        then have "writable v1 a (align_down 4096 (u + k))" using s True by auto
        then show "writable v1 a (u + k)"
          by (rule writable_same_slot [OF _ page_start_slot range_in_user_va [OF rng k]])
      qed
      obtain G where G: "vm_ok pool v1 G UNIV" using s page_stepD by metis
      note a1 = page_step_space [OF conjunct1 [OF s] a]
      from store_bytes_ok [OF G a1 w]
      obtain v' where v': "store_bytes v1 a u bs = Some v'" "page_step pool ({a} \<times> UNIV) v1 v'"
        "\<And>x. user_va x \<Longrightarrow> byte_at v' a x = (if u \<le> x \<and> x < u + length bs then Some (bs ! (x - u)) else byte_at v1 a x)"
        by blast
      have "page_step pool ({a} \<times> UNIV) v v'" using page_step_trans [OF conjunct1 [OF s] v'(2)] by simp
      moreover have "kept_byte v a x v'" if "user_va x" "\<not> (u \<le> x \<and> x < u + length bs)" for x
        using v'(3) [OF that(1)] that(2) filled_kept s unfolding kept_byte_def by auto
      ultimately show ?thesis using c True v'(1,3) by auto
    qed
  qed
qed

lemma copy_from_user_ok:
  assumes ok: "vm_ok pool v H UNIV" and a: "spaces v a \<noteq> None" and an: "all_anon v"
    and rng: "range_in_user u n" and b: "\<forall>k<n. byte_at v a (u + k) = Some (f k)"
  shows "\<exists>v'. copy_from_user v a u n = Some (v', 0, map f [0..<n]) \<and> page_step pool ({a} \<times> UNIV) v v' \<and>
    (\<forall>x. filled v a x v')"
proof -
  define v1 where "v1 = (if n > 0 \<and> a \<noteq> 0 then prefault_reads v a (align_down 4096 u) (align_down 4096 (u + n - 1)) else v)"
  have s: "page_step pool ({a} \<times> UNIV) v v1 \<and> (\<forall>x. filled v a x v1)"
    unfolding v1_def using prefault_reads_ok [OF ok a an] page_step_refl [OF ok] by simp
  obtain G where G: "vm_ok pool v1 G UNIV" using s page_stepD by metis
  have "byte_at v1 a (u + k) = Some (f k)" if "k < n" for k
    using b that filled_kept [of v a "u + k" v1] s by (auto simp: kept_byte_def)
  then have "load_bytes v1 a u n = Some (map f [0..<n])"
    using range_in_user_va [OF rng] by (intro load_bytes_ok [OF G page_step_space [OF conjunct1 [OF s] a]]) blast
  moreover have "copy_from_user v a u n = do { bs \<leftarrow> load_bytes v1 a u n; Some (v1, 0, bs) }"
    by (simp only: copy_from_user_def v1_def Let_def rng not_True_eq_False if_False)
  ultimately show ?thesis using s by simp
qed

end
