(* ===== verification/Elf.thy ===== *)
theory Elf
  imports UserCopy
begin

text \<open>
  The program loader: \<open>kernel/core/elf.c\<close>.  The file is a list of bytes; \<open>None\<close> is the outcome
  of a load that reads past its end.  Pages are written through the identity mapping, as
  in \<open>AddrSpace\<close>; an argument is the list of its bytes without the NUL, none of them 0.
\<close>

section \<open>The file\<close>

abbreviation (input) PT_LOAD :: nat where "PT_LOAD \<equiv> 1"
abbreviation (input) ET_EXEC :: nat where "ET_EXEC \<equiv> 2"
abbreviation (input) EM_AARCH64 :: nat where "EM_AARCH64 \<equiv> 183"
abbreviation (input) USER_STACK_PAGES :: nat where "USER_STACK_PAGES \<equiv> 16"
abbreviation (input) USER_STACK_TOP :: nat where "USER_STACK_TOP \<equiv> 0x1040000000"
abbreviation (input) USER_STACK_GUARD_VA :: nat where "USER_STACK_GUARD_VA \<equiv> 0x103FFEF000"
abbreviation (input) MAX_USER_ARGV :: nat where "MAX_USER_ARGV \<equiv> 64"

fun le_val :: "byte list \<Rightarrow> nat" where
  "le_val [] = 0"
| "le_val (b # bs) = unat b + 256 * le_val bs"

text \<open>A read of \<open>n\<close> bytes at offset \<open>off\<close>.\<close>

definition rd_le :: "byte list \<Rightarrow> nat \<Rightarrow> nat \<Rightarrow> nat option" where
  "rd_le dat off n = (if off + n \<le> length dat then Some (le_val (take n (drop off dat))) else None)"

record elf64_phdr =
  p_offset :: nat
  p_vaddr :: nat
  p_filesz :: nat
  p_memsz :: nat

text \<open>The fields the loader reads of a program header of type \<open>PT_LOAD\<close>.\<close>

definition phdr_at :: "byte list \<Rightarrow> nat \<Rightarrow> elf64_phdr option" where
  "phdr_at dat off =
     do { po \<leftarrow> rd_le dat (add64 off 8) 8; pv \<leftarrow> rd_le dat (add64 off 16) 8;
          pf \<leftarrow> rd_le dat (add64 off 32) 8; pm \<leftarrow> rd_le dat (add64 off 40) 8;
          Some \<lparr>p_offset = po, p_vaddr = pv, p_filesz = pf, p_memsz = pm\<rparr> }"

section \<open>Segments\<close>

text \<open>The copy into the page at \<open>pa\<close>, for the bytes \<open>b\<close> of the list.\<close>

fun fill_page :: "byte list \<Rightarrow> elf64_phdr \<Rightarrow> nat \<Rightarrow> nat \<Rightarrow> nat list \<Rightarrow> (nat \<Rightarrow> nat) \<Rightarrow> (nat \<Rightarrow> nat) option" where
  "fill_page dat ph pg_va pa [] m = Some m"
| "fill_page dat ph pg_va pa (b # bs) m =
     (let va_byte = add64 pg_va b in
      if va_byte \<ge> p_vaddr ph \<and> va_byte < add64 (p_vaddr ph) (p_filesz ph) then
        do { x \<leftarrow> rd_le dat (add64 (p_offset ph) (va_byte - p_vaddr ph)) 1;
             fill_page dat ph pg_va pa bs (poke8 m (pa + b) (word_of_nat x)) }
      else fill_page dat ph pg_va pa bs m)"

text \<open>The pages from number \<open>k\<close> on, \<open>n\<close> of them.\<close>

fun load_pages :: "byte list \<Rightarrow> elf64_phdr \<Rightarrow> nat \<Rightarrow> nat \<Rightarrow> vm \<Rightarrow> nat \<Rightarrow> nat \<Rightarrow> (vm \<times> int) option" where
  "load_pages dat ph a va_lo v k 0 = Some (v, 0)"
| "load_pages dat ph a va_lo v k (Suc n) =
     (let (v1, pg_pa) = vm_alloc_page v in
      if pg_pa = 0 then Some (v1, -1)
      else
        let pg_va = add64 va_lo (mul64 k PAGE_SIZE) in
        do { m \<leftarrow> fill_page dat ph pg_va pg_pa [0..<PAGE_SIZE] (mem (vm_pmem v1));
             let (v2, r) = address_space_map (set_pmem v1 ((vm_pmem v1)\<lparr>mem := m\<rparr>)) a pg_va pg_pa 1 True True;
             if r \<noteq> 0 then Some (v2, -1) else load_pages dat ph a va_lo v2 (k + 1) n })"

text \<open>The headers from number \<open>i\<close> on, \<open>n\<close> of them; the last result is \<open>seen_load\<close>.\<close>

fun load_segments :: "byte list \<Rightarrow> nat \<Rightarrow> nat \<Rightarrow> nat \<Rightarrow> vm \<Rightarrow> nat \<Rightarrow> nat \<Rightarrow> bool \<Rightarrow> (vm \<times> int \<times> bool) option" where
  "load_segments dat e_phoff e_phentsize a v i 0 seen_load = Some (v, 0, seen_load)"
| "load_segments dat e_phoff e_phentsize a v i (Suc n) seen_load =
     (let off = add64 e_phoff (i * e_phentsize) in
      do { t \<leftarrow> rd_le dat off 4;
           if t \<noteq> PT_LOAD then load_segments dat e_phoff e_phentsize a v (i + 1) n seen_load
           else do {
             ph \<leftarrow> phdr_at dat off;
             let va_lo = align_down PAGE_SIZE (p_vaddr ph);
             let va_hi = align_down PAGE_SIZE (add64 (add64 (p_vaddr ph) (p_memsz ph)) (PAGE_SIZE - 1));
             let pages = sub64 va_hi va_lo div PAGE_SIZE;
             if pages = 0 then load_segments dat e_phoff e_phentsize a v (i + 1) n seen_load
             else do {
               (v1, r) \<leftarrow> load_pages dat ph a va_lo v 0 pages;
               if r \<noteq> 0 then Some (v1, r, seen_load)
               else load_segments dat e_phoff e_phentsize a v1 (i + 1) n True } } })"

section \<open>The stack\<close>

text \<open>The pages of the stack from number \<open>k\<close> on; the last result is the page at the top.\<close>

fun load_stack :: "nat \<Rightarrow> vm \<Rightarrow> nat \<Rightarrow> nat \<Rightarrow> nat \<Rightarrow> vm \<times> int \<times> nat" where
  "load_stack a v k 0 top_pa = (v, 0, top_pa)"
| "load_stack a v k (Suc n) top_pa =
     (let (v1, pa) = vm_alloc_page v in
      if pa = 0 then (v1, -1, top_pa)
      else
        let va = USER_STACK_TOP - USER_STACK_PAGES * PAGE_SIZE + k * PAGE_SIZE;
            (v2, r) = address_space_map v1 a va pa 1 True False
        in if r \<noteq> 0 then (v2, -1, top_pa)
           else load_stack a v2 (k + 1) n (if k = USER_STACK_PAGES - 1 then pa else top_pa))"

text \<open>The strings from offset \<open>cursor\<close> on, each with its NUL.\<close>

fun poke_bytes :: "(nat \<Rightarrow> nat) \<Rightarrow> nat \<Rightarrow> byte list \<Rightarrow> (nat \<Rightarrow> nat)" where
  "poke_bytes m p [] = m"
| "poke_bytes m p (b # bs) = poke_bytes (poke8 m p b) (p + 1) bs"

fun put_strings :: "(nat \<Rightarrow> nat) \<Rightarrow> nat \<Rightarrow> byte list list \<Rightarrow> (nat \<Rightarrow> nat)" where
  "put_strings m p [] = m"
| "put_strings m p (s # ss) = put_strings (poke8 (poke_bytes m p s) (p + length s) 0) (p + length s + 1) ss"

fun arg_vas :: "nat \<Rightarrow> byte list list \<Rightarrow> nat list" where
  "arg_vas va [] = []"
| "arg_vas va (s # ss) = va # arg_vas (va + length s + 1) ss"

definition strings_bytes :: "byte list list \<Rightarrow> nat" where
  "strings_bytes argv = (\<Sum>s\<leftarrow>argv. length s + 1)"

definition align_up16 :: "nat \<Rightarrow> nat" where
  "align_up16 n = align_down 16 (n + 15)"

definition frame_bytes :: "byte list list \<Rightarrow> nat" where
  "frame_bytes argv = align_up16 (8 + (length argv + 1) * 8 + 8 + strings_bytes argv)"

fun poke_words :: "(nat \<Rightarrow> nat) \<Rightarrow> nat \<Rightarrow> nat list \<Rightarrow> (nat \<Rightarrow> nat)" where
  "poke_words m p [] = m"
| "poke_words m p (w # ws) = poke_words (m(p := w)) (p + 8) ws"

text \<open>The result is the memory and the stack pointer; \<open>None\<close> stands for \<open>-1\<close>.\<close>

definition build_user_init_stack :: "(nat \<Rightarrow> nat) \<Rightarrow> nat \<Rightarrow> byte list list \<Rightarrow> ((nat \<Rightarrow> nat) \<times> nat) option" where
  "build_user_init_stack m page argv =
     (let total = frame_bytes argv; n = strings_bytes argv in
      if length argv > MAX_USER_ARGV then None
      else if total > PAGE_SIZE then None
      else
        let m1 = poke_bytes m page (replicate PAGE_SIZE 0);
            m2 = put_strings m1 (page + (PAGE_SIZE - n)) argv;
            m3 = poke_words m2 (page + (PAGE_SIZE - total))
                   (length argv # arg_vas (USER_STACK_TOP - n) argv @ [0, 0])
        in Some (m3, USER_STACK_TOP - total))"

section \<open>The loader\<close>

record user_image =
  entry_va :: nat
  stack_top_va :: nat

definition elf_header_ok :: "byte list \<Rightarrow> bool" where
  "elf_header_ok dat \<longleftrightarrow>
     length dat \<ge> 64 \<and>
     dat ! 0 = 0x7F \<and> dat ! 1 = 0x45 \<and> dat ! 2 = 0x4C \<and> dat ! 3 = 0x46 \<and>
     dat ! 4 = 2 \<and> dat ! 5 = 1 \<and>
     rd_le dat 16 2 = Some ET_EXEC \<and> rd_le dat 18 2 = Some EM_AARCH64"

definition load_image ::
  "nat \<Rightarrow> byte list list \<Rightarrow> nat \<Rightarrow> vm \<Rightarrow> user_image \<Rightarrow> vm \<times> int \<times> user_image" where
  "load_image a argv e_entry v img =
     (let img1 = img\<lparr>entry_va := e_entry\<rparr>;
          (v1, r, top_pa) = load_stack a v 0 USER_STACK_PAGES 0
      in if r \<noteq> 0 then (v1, -1, img1)
         else
           let (v2, r) = address_space_install_guard v1 a USER_STACK_GUARD_VA in
           if r \<noteq> 0 then (v2, -1, img1)
           else
             (case build_user_init_stack (mem (vm_pmem v2)) top_pa argv of
                None \<Rightarrow> (v2, -1, img1)
              | Some (m, sp) \<Rightarrow> (set_pmem v2 ((vm_pmem v2)\<lparr>mem := m\<rparr>), 0, img1\<lparr>stack_top_va := sp\<rparr>)))"

definition elf_load_user ::
  "vm \<Rightarrow> byte list \<Rightarrow> nat \<Rightarrow> byte list list \<Rightarrow> user_image \<Rightarrow> (vm \<times> int \<times> user_image) option" where
  "elf_load_user v dat a argv img =
     (if a = 0 then Some (v, -1, img)
      else if \<not> elf_header_ok dat then Some (v, -1, img)
      else do {
        e_entry \<leftarrow> rd_le dat 24 8; e_phoff \<leftarrow> rd_le dat 32 8;
        e_phentsize \<leftarrow> rd_le dat 54 2; e_phnum \<leftarrow> rd_le dat 56 2;
        (v1, r, seen_load) \<leftarrow> load_segments dat e_phoff e_phentsize a v 0 e_phnum False;
        if r \<noteq> 0 then Some (v1, -1, img)
        else if \<not> seen_load then Some (v1, -1, img)
        else Some (load_image a argv e_entry v1 img) })"

section \<open>Bytes of memory\<close>

lemma peek8_poke8: "peek8 (poke8 m p b) q = (if q = p then b else peek8 m q)"
proof (cases "q div 8 = p div 8")
  case True
  moreover have "q = p \<longleftrightarrow> q mod 8 = p mod 8" using True by (metis div_mult_mod_eq)
  ultimately show ?thesis by (simp add: peek8_def poke8_def get_put_byte)
qed (auto simp: peek8_def poke8_def)

lemma poke8_other: "poke8 m p b x \<noteq> m x \<Longrightarrow> x = 8 * (p div 8)"
  by (simp add: poke8_def split: if_splits)

definition within :: "nat \<Rightarrow> (nat \<Rightarrow> nat) \<Rightarrow> (nat \<Rightarrow> nat) \<Rightarrow> bool" where
  "within pa m m' \<longleftrightarrow> (\<forall>x. m' x \<noteq> m x \<longrightarrow> pa \<le> x \<and> x < pa + 4096)"

lemma within_refl [simp]: "within pa m m"
  by (simp add: within_def)

lemma within_trans: "within pa m m' \<Longrightarrow> within pa m' m'' \<Longrightarrow> within pa m m''"
  unfolding within_def by metis

lemma within_poke8:
  assumes "frame_addr pa" "pa \<le> p" "p < pa + 4096"
  shows "within pa m (poke8 m p b)"
proof -
  obtain off where p: "p = pa + off" "off < 4096" using assms(2,3) by (metis le_iff_add nat_add_left_cancel_less)
  then have "8 * (p div 8) = pa + 8 * (off div 8)" "off div 8 < 512"
    using byte_in_page [OF assms(1) p(2)] by simp_all
  then show ?thesis using poke8_other unfolding within_def by fastforce
qed

lemma peek8_poke_bytes:
  "peek8 (poke_bytes m p bs) q = (if p \<le> q \<and> q < p + length bs then bs ! (q - p) else peek8 m q)"
  by (induction m p bs rule: poke_bytes.induct) (auto simp: peek8_poke8 nth_Cons' Suc_le_eq)

lemma within_poke_bytes:
  "frame_addr pa \<Longrightarrow> pa \<le> p \<Longrightarrow> p + length bs \<le> pa + 4096 \<Longrightarrow> within pa m (poke_bytes m p bs)"
  by (induction m p bs rule: poke_bytes.induct) (auto intro: within_trans [OF within_poke8])

lemma poke_bytes_append: "poke_bytes m p (xs @ ys) = poke_bytes (poke_bytes m p xs) (p + length xs) ys"
  by (induction m p xs rule: poke_bytes.induct) simp_all

text \<open>The strings are the bytes of all of them in a row.\<close>

definition string_area :: "byte list list \<Rightarrow> byte list" where
  "string_area argv = concat (map (\<lambda>s. s @ [0]) argv)"

lemma length_string_area: "length (string_area argv) = strings_bytes argv"
  by (induction argv) (simp_all add: string_area_def strings_bytes_def)

lemma put_strings_bytes: "put_strings m p argv = poke_bytes m p (string_area argv)"
  by (induction m p argv rule: put_strings.induct) (simp_all add: string_area_def poke_bytes_append)

lemma peek8_word:
  assumes "8 dvd p"
  shows "peek8 (m(p := w)) q = (if p \<le> q \<and> q < p + 8 then get_byte (word_of_nat w) (q - p) else peek8 m q)"
proof -
  obtain k where p: "p = 8 * k" using assms by (rule dvdE)
  define d where "d = q div 8"
  have b: "8 * d \<le> q" "q < 8 * d + 8" "q mod 8 = q - 8 * d"
    using mult_div_mod_eq [of 8 q] mod_less_divisor [of 8 q] by (simp_all add: d_def minus_mult_div_eq_mod)
  have e: "8 * d = p \<longleftrightarrow> p \<le> q \<and> q < p + 8" unfolding p
  proof
    assume h: "8 * k \<le> q \<and> q < 8 * k + 8"
    have "\<not> d < k" "\<not> k < d" using b h by linarith+
    then show "8 * d = 8 * k" by simp
  qed (use b in simp)
  show ?thesis unfolding peek8_def d_def [symmetric] using b(3) e by auto
qed

lemma peek8_poke_words:
  assumes "8 dvd p"
  shows "peek8 (poke_words m p ws) q =
    (if p \<le> q \<and> q < p + 8 * length ws then get_byte (word_of_nat (ws ! ((q - p) div 8))) ((q - p) mod 8) else peek8 m q)"
  using assms
proof (induction m p ws rule: poke_words.induct)
  case (2 m p w ws)
  have d: "8 dvd p + 8" using "2.prems" by simp
  show ?case
  proof (cases "p \<le> q \<and> q < p + 8")
    case True
    then have "\<not> p + 8 \<le> q" "q - p < 8" by linarith+
    then have "\<not> p + 8 \<le> q" "(q - p) div 8 = 0" "(q - p) mod 8 = q - p" by simp_all
    then show ?thesis unfolding poke_words.simps "2.IH" [OF d] peek8_word [OF "2.prems"] using True by simp
  next
    case False
    have "(q - p) div 8 = Suc ((q - (p + 8)) div 8)" "(q - p) mod 8 = (q - (p + 8)) mod 8" if "p + 8 \<le> q"
      using le_Suc_ex [OF that] by (auto simp: add.assoc)
    then show ?thesis unfolding poke_words.simps "2.IH" [OF d] peek8_word [OF "2.prems"] using False by auto
  qed
qed auto

lemma within_word: "pa \<le> p \<Longrightarrow> p < pa + 4096 \<Longrightarrow> within pa m (m(p := w))"
  by (simp add: within_def)

lemma within_poke_words:
  "pa \<le> p \<Longrightarrow> p + 8 * length ws \<le> pa + 4096 \<Longrightarrow> within pa m (poke_words m p ws)"
  by (induction m p ws rule: poke_words.induct) (auto intro: within_trans [OF within_word])

section \<open>The copy into a page\<close>

lemma rd_le_byte: "rd_le dat off (Suc 0) = (if off < length dat then Some (unat (dat ! off)) else None)"
  by (auto simp: rd_le_def take_Suc_conv_app_nth hd_drop_conv_nth take_Suc)

definition in_segment :: "elf64_phdr \<Rightarrow> nat \<Rightarrow> bool" where
  "in_segment ph x \<longleftrightarrow> x \<ge> p_vaddr ph \<and> x < add64 (p_vaddr ph) (p_filesz ph)"

definition file_byte :: "byte list \<Rightarrow> elf64_phdr \<Rightarrow> nat \<Rightarrow> byte" where
  "file_byte dat ph x = dat ! add64 (p_offset ph) (x - p_vaddr ph)"

lemma fill_page_bytes:
  assumes "fill_page dat ph va pa bs m = Some m'" "distinct bs" "\<forall>b\<in>set bs. b < 4096" "frame_addr pa"
  shows "within pa m m' \<and> (\<forall>b. peek8 m' (pa + b) =
    (if b \<in> set bs \<and> in_segment ph (add64 va b) then file_byte dat ph (add64 va b) else peek8 m (pa + b)))"
  using assms
proof (induction bs arbitrary: m)
  case (Cons c bs)
  have d: "distinct bs" "\<forall>b\<in>set bs. b < 4096" "c \<notin> set bs" "c < 4096" using Cons.prems by auto
  show ?case
  proof (cases "in_segment ph (add64 va c)")
    case True
    then have "fill_page dat ph va pa bs (poke8 m (pa + c) (file_byte dat ph (add64 va c))) = Some m'"
      using Cons.prems(1) by (auto simp: Let_def in_segment_def file_byte_def rd_le_byte split: if_splits)
    note ih = Cons.IH [OF this d(1,2) Cons.prems(4)]
    have "within pa m (poke8 m (pa + c) (file_byte dat ph (add64 va c)))"
      using d(4) Cons.prems(4) by (intro within_poke8) simp_all
    then show ?thesis using ih True d(3) within_trans by (auto simp: peek8_poke8)
  next
    case False
    then have "fill_page dat ph va pa bs m = Some m'" using Cons.prems(1) by (auto simp: Let_def in_segment_def)
    then show ?thesis using Cons.IH [OF _ d(1,2) Cons.prems(4)] False by auto
  qed
qed simp

lemma fill_page_Some:
  assumes "\<forall>b\<in>set bs. in_segment ph (add64 va b) \<longrightarrow> add64 (p_offset ph) (add64 va b - p_vaddr ph) < length dat"
  shows "fill_page dat ph va pa bs m \<noteq> None"
  using assms by (induction bs arbitrary: m) (auto simp: Let_def in_segment_def rd_le_byte)

section \<open>Frames enough\<close>

definition free_count :: "vm \<Rightarrow> nat" where
  "free_count v = free_pages (vm_pmem v)"

lemma free_count_simps [simp]:
  "free_count (wr64 v p w) = free_count v" "free_count (upd_as v a f) = free_count v"
  "free_count (count_page v a) = free_count v" "free_count (set_pmem v ((vm_pmem v)\<lparr>mem := m\<rparr>)) = free_count v"
  by (simp_all add: free_count_def wr64_def count_page_def)

lemma alloc_page_free:
  assumes ok: "vm_ok pool v H L" and al: "vm_alloc_page v = (v', pa)"
  shows "pa = 0 \<Longrightarrow> free_count v = 0" "pa \<noteq> 0 \<Longrightarrow> free_count v = Suc (free_count v')"
proof -
  obtain xs where rep: "pmem_rep (vm_pmem v) xs" using vm_ok_frames [OF ok] by (auto simp: frames_ok_def)
  obtain m where m: "pmem_alloc_page (vm_pmem v) = (m, pa)" "v' = set_pmem v m"
    using al by (auto simp: vm_alloc_page_def split: prod.splits)
  have "(pa = 0 \<longrightarrow> free_count v = 0) \<and> (pa \<noteq> 0 \<longrightarrow> free_count v = Suc (free_count v'))"
  proof (cases xs)
    case Nil
    then have "pa = 0" using m(1) rep alloc_empty by fastforce
    then show ?thesis using rep Nil by (simp add: free_count_def pmem_rep_def)
  next
    case (Cons x ys)
    then obtain s' where "pmem_alloc_page (vm_pmem v) = (s', x)" "pmem_rep s' ys" "x \<noteq> 0"
      using alloc_nonempty rep by metis
    then show ?thesis using m rep Cons by (simp add: free_count_def pmem_rep_def)
  qed
  then show "pa = 0 \<Longrightarrow> free_count v = 0" "pa \<noteq> 0 \<Longrightarrow> free_count v = Suc (free_count v')" by simp_all
qed

lemma l3_for_free:
  assumes ok: "vm_ok pool v H UNIV" and a: "spaces v a \<noteq> None" and l: "l3_for v a va = (v', l3)" and f: "0 < free_count v"
  shows "l3 \<noteq> 0" "free_count v \<le> Suc (free_count v')"
proof -
  let ?e = "l2e v a (L2_INDEX va)"
  have l': "l3_for v a va = (if has ?e DESC_VALID then (v, desc_pa ?e)
      else let (v1, l3) = vm_alloc_page v in
           if l3 = 0 then (v1, 0)
           else (wr64 v1 (l2_pa (asp v a) + 8 * L2_INDEX va) (page_bits l3 OR DESC_VALID OR DESC_TABLE), l3))"
    by (simp add: l3_for_def l2e_def Let_def)
  have "l3 \<noteq> 0 \<and> free_count v \<le> Suc (free_count v')"
  proof (cases "has ?e DESC_VALID")
    case True
    then have "frame_of v a (L3T (L2_INDEX va)) = Some (desc_pa ?e)" using a index_less(1) by (simp add: frame_of.simps)
    then have "desc_pa ?e \<noteq> 0" using vm_ok_owner(4) [OF ok UNIV_I] by (fastforce simp: page_ok_def)
    then show ?thesis using l l' True by auto
  next
    case False
    obtain v1 p where al: "vm_alloc_page v = (v1, p)" by fastforce
    show ?thesis using l l' False al alloc_page_free [OF ok al] f by (auto split: if_splits)
  qed
  then show "l3 \<noteq> 0" "free_count v \<le> Suc (free_count v')" by simp_all
qed

section \<open>One page\<close>

definition user_page :: "nat \<Rightarrow> bool" where
  "user_page va \<longleftrightarrow> va mod 4096 = 0 \<and> USER_VA_BASE \<le> va \<and> va + 4096 \<le> USER_VA_END"

lemma user_page_va: "user_page va \<Longrightarrow> user_va va" "user_page va \<Longrightarrow> va < 2 ^ 64"
  by (auto simp: user_page_def user_va_def)

lemma map_page_ok:
  assumes ok: "vm_ok pool v H UNIV" and a: "spaces v a \<noteq> None" and va: "va < 2 ^ 64"
    and own: "H pa = 1" "refs_to v UNIV pa = {}" "frame_addr pa"
    and m: "address_space_map v a va pa 1 rw x = (v', r)"
  shows "r = 0 \<and> page_step pool {slot_of a va} v v' \<and> page_at v' a va = Some (frame_words v pa, rw, x) \<and>
      frame_of v' a (Pg (L2_INDEX va) (L3_INDEX va)) = Some pa \<and>
      (rw \<longrightarrow> ap_field (entry v' a (L2_INDEX va) (L3_INDEX va)) = DESC_AP_RW_EL0) \<or> r = -1 \<and> v' = v"
    "user_page va \<Longrightarrow> 0 < free_count v \<Longrightarrow> r = 0 \<and> free_count v \<le> Suc (free_count v')"
proof -
  have pa: "pa < 2 ^ 64" "pa mod 4096 = 0" using own(3) by (auto simp: frame_addr_def)
  have a0: "a \<noteq> 0" using vm_ok_refs(5) [OF ok] a by auto
  obtain u l3 where l: "l3_for v a va = (u, l3)" by fastforce
  let ?u = "count_page (wr64 u (l3 + 8 * L3_INDEX va) (leaf pa rw x False)) a"
  note e = m [unfolded map_one [OF va pa(1)] l prod.case]
  have u: "l3 = 0 \<Longrightarrow> u = v" using l3_for_ok [OF ok whole_UNIV a l] by metis
  note i = install_page_ok [OF ok a own l, of rw x]
  show "r = 0 \<and> page_step pool {slot_of a va} v v' \<and> page_at v' a va = Some (frame_words v pa, rw, x) \<and>
      frame_of v' a (Pg (L2_INDEX va) (L3_INDEX va)) = Some pa \<and>
      (rw \<longrightarrow> ap_field (entry v' a (L2_INDEX va) (L3_INDEX va)) = DESC_AP_RW_EL0) \<or> r = -1 \<and> v' = v"
  proof (cases "l3 \<noteq> 0 \<and> v' = ?u \<and> r = 0")
    case True
    then show ?thesis using i by (simp add: page_at_def)
  next
    case False
    then have "r = -1 \<and> v' = v" using e u by (auto split: if_splits)
    then show ?thesis by simp
  qed
  assume p: "user_page va" and f: "0 < free_count v"
  note lf = l3_for_free [OF ok a l f]
  have "add64 va 4096 = va + 4096" using p by (intro add64_exact) (auto simp: user_page_def)
  then show "r = 0 \<and> free_count v \<le> Suc (free_count v')"
    using e p lf a0 pa(2) by (auto simp: user_page_def split: if_splits)
qed

text \<open>A fresh page, with the bytes \<open>m\<close> gives it, becomes the page at \<open>va\<close>; where it is not mapped the
  frame stays with the kernel.\<close>

lemma new_page_ok:
  assumes ok: "vm_ok pool v H UNIV" and a: "spaces v a \<noteq> None" and va: "va < 2 ^ 64"
    and al: "vm_alloc_page v = (v1, pa)" "pa \<noteq> 0" and w: "within pa (mem (vm_pmem v1)) m"
    and mp: "address_space_map (set_pmem v1 ((vm_pmem v1)\<lparr>mem := m\<rparr>)) a va pa 1 rw x = (v', r)"
  shows "r = 0 \<and> page_step pool {slot_of a va} v v' \<and>
      (\<exists>p. page_at v' a va = Some (p, rw, x) \<and> (\<forall>off<4096. byte_of (p, rw, x) off = peek8 m (pa + off))) \<and>
      frame_of v' a (Pg (L2_INDEX va) (L3_INDEX va)) = Some pa \<and>
      (rw \<longrightarrow> ap_field (entry v' a (L2_INDEX va) (L3_INDEX va)) = DESC_AP_RW_EL0) \<or> r = -1 \<and> page_step pool {} v v'"
    "user_page va \<Longrightarrow> 2 \<le> free_count v \<Longrightarrow> r = 0 \<and> free_count v \<le> free_count v' + 2"
    "off < 4096 \<Longrightarrow> peek8 (mem (vm_pmem v1)) (pa + off) = 0"
proof -
  note p = alloc_page_ok [OF ok al]
  let ?G = "H(pa := 1)" and ?u = "set_pmem v1 ((vm_pmem v1)\<lparr>mem := m\<rparr>)"
  have G: "1 \<le> ?G pa" "?G pa = 1" by simp_all
  note k = poke_page_ok [OF p(1) G(1) p(7,5) w [unfolded within_def]]
  have rt: "rooted (UNIV :: (nat \<times> tref) set)" by (rule vm_ok_refs(3) [OF ok])
  have ag: "agree v ?u UNIV" by (rule agree_trans [OF p(2) k(2) _ rt]) (simp add: p(9))
  have s: "page_step pool {} v ?u"
    unfolding page_step_def using k(1) agree_changes [OF rt ag] counts_only_same [of ?u v] by (auto simp: p(9,11))
  have refs: "refs_to ?u UNIV pa = {}" using refs_agree [OF ag _ rt] by (simp add: p(4,9))
  have a': "spaces ?u a \<noteq> None" using a p(9) by simp
  note mo = map_page_ok [OF k(1) a' va G(2) refs p(7) mp]
  have b: "byte_of (frame_words ?u pa, rw, x) off = peek8 m (pa + off)" if "off < 4096" for off
    using peek8_page [OF p(7) that, of ?u] by (simp add: byte_of_def)
  show "r = 0 \<and> page_step pool {slot_of a va} v v' \<and>
      (\<exists>p. page_at v' a va = Some (p, rw, x) \<and> (\<forall>off<4096. byte_of (p, rw, x) off = peek8 m (pa + off))) \<and>
      frame_of v' a (Pg (L2_INDEX va) (L3_INDEX va)) = Some pa \<and>
      (rw \<longrightarrow> ap_field (entry v' a (L2_INDEX va) (L3_INDEX va)) = DESC_AP_RW_EL0) \<or> r = -1 \<and> page_step pool {} v v'"
    using mo(1) b s page_step_trans [OF s, of "{slot_of a va}" v'] by auto
  show "r = 0 \<and> free_count v \<le> free_count v' + 2" if "user_page va" "2 \<le> free_count v"
    using mo(2) [OF that(1)] alloc_page_free(2) [OF ok al] that(2) by simp
  show "peek8 (mem (vm_pmem v1)) (pa + off) = 0" if "off < 4096"
    using peek8_page [OF p(7) that, of v1] p(6) by (simp add: get_byte_def)
qed

lemma in_page:
  assumes "user_page va"
  shows "va \<le> x \<and> x < va + 4096 \<longleftrightarrow> x div 4096 = va div 4096" "x div 4096 = va div 4096 \<Longrightarrow> x mod 4096 = x - va"
proof -
  have va: "va = 4096 * (va div 4096)" using assms mult_div_mod_eq [of 4096 va] by (simp add: user_page_def)
  have x: "x = 4096 * (x div 4096) + x mod 4096" "x mod 4096 < 4096" by simp_all
  show "va \<le> x \<and> x < va + 4096 \<longleftrightarrow> x div 4096 = va div 4096"
  proof
    assume h: "va \<le> x \<and> x < va + 4096"
    have "\<not> x div 4096 < va div 4096" "\<not> va div 4096 < x div 4096" using h va x by linarith+
    then show "x div 4096 = va div 4096" by simp
  next
    assume h: "x div 4096 = va div 4096"
    then show "va \<le> x \<and> x < va + 4096" using va x unfolding h by linarith
  qed
  show "x mod 4096 = x - va" if "x div 4096 = va div 4096" using va x unfolding that by linarith
qed

lemma new_page_bytes:
  assumes "page_step pool {slot_of a va} v v'" "page_at v' a va = Some p" "user_page va" "user_va x"
    and "\<And>off. off < 4096 \<Longrightarrow> byte_of p off = f (va + off)"
  shows "byte_at v' a x = (if va \<le> x \<and> x < va + 4096 then Some (f x) else byte_at v a x)"
proof (cases "x div 4096 = va div 4096")
  case True
  have s: "slot_of a x = slot_of a va" by (rule same_page_slot [OF True])
  have b: "va \<le> x \<and> x < va + 4096" "x mod 4096 = x - va" using in_page [OF assms(3)] True by simp_all
  have "page_at v' a x = Some p" using s assms(2) by (simp add: page_at_def)
  then show ?thesis using assms(5) [of "x - va"] b by (simp add: byte_at_def)
next
  case False
  then have "slot_of a x \<noteq> slot_of a va"
    using same_slot_page [OF assms(4) user_page_va(1) [OF assms(3)], of a a] by blast
  then have "page_at v' a x = page_at v a x" using page_step_seen [OF assms(1)] by (simp add: page_at_def)
  moreover have "\<not> (va \<le> x \<and> x < va + 4096)" using in_page(1) [OF assms(3), of x] False by simp
  ultimately show ?thesis by (auto simp: byte_at_def)
qed

section \<open>The pages of a segment\<close>

text \<open>A file that overflows nothing: its segments lie in the range of user addresses, are not longer
  in the file than in memory, and the file holds them.\<close>

definition segment_ok :: "byte list \<Rightarrow> elf64_phdr \<Rightarrow> bool" where
  "segment_ok dat ph \<longleftrightarrow> USER_VA_BASE \<le> p_vaddr ph \<and> p_vaddr ph + p_memsz ph \<le> USER_VA_END \<and>
     p_filesz ph \<le> p_memsz ph \<and> p_offset ph + p_filesz ph \<le> length dat \<and> length dat < 2 ^ 64"

text \<open>What the process should find at address \<open>x\<close> of the segment: the byte of the file, or 0.\<close>

definition segment_byte :: "byte list \<Rightarrow> elf64_phdr \<Rightarrow> nat \<Rightarrow> byte" where
  "segment_byte dat ph x =
     (if p_vaddr ph \<le> x \<and> x < p_vaddr ph + p_filesz ph then dat ! (p_offset ph + (x - p_vaddr ph)) else 0)"

lemma segment_exact:
  assumes s: "segment_ok dat ph" and x: "va \<le> x" "x < va + 4096" "user_page va"
  shows "add64 va (x - va) = x"
    "in_segment ph x \<longleftrightarrow> p_vaddr ph \<le> x \<and> x < p_vaddr ph + p_filesz ph"
    "in_segment ph x \<Longrightarrow> add64 (p_offset ph) (x - p_vaddr ph) < length dat"
    "in_segment ph x \<Longrightarrow> file_byte dat ph x = segment_byte dat ph x"
proof -
  have e: "add64 (p_vaddr ph) (p_filesz ph) = p_vaddr ph + p_filesz ph"
    using s by (intro add64_exact) (auto simp: segment_ok_def)
  show "add64 va (x - va) = x" using x by (simp add: add64_def user_page_def)
  show i: "in_segment ph x \<longleftrightarrow> p_vaddr ph \<le> x \<and> x < p_vaddr ph + p_filesz ph" by (simp add: in_segment_def e)
  assume "in_segment ph x"
  then have h: "p_vaddr ph \<le> x \<and> x < p_vaddr ph + p_filesz ph" by (simp add: i)
  then have lt: "p_offset ph + (x - p_vaddr ph) < length dat" "length dat < 2 ^ 64"
    using s by (auto simp: segment_ok_def)
  then have e2: "add64 (p_offset ph) (x - p_vaddr ph) = p_offset ph + (x - p_vaddr ph)"
    by (intro add64_exact) linarith
  show "add64 (p_offset ph) (x - p_vaddr ph) < length dat" using lt by (simp add: e2)
  show "file_byte dat ph x = segment_byte dat ph x" using h by (simp add: file_byte_def segment_byte_def e2)
qed

lemma segment_page:
  assumes ok: "vm_ok pool v H UNIV" and a: "spaces v a \<noteq> None" and s: "segment_ok dat ph" and va: "user_page va"
    and al: "vm_alloc_page v = (v1, pa)" "pa \<noteq> 0"
  obtains m v2 r where "fill_page dat ph va pa [0..<4096] (mem (vm_pmem v1)) = Some m"
    "address_space_map (set_pmem v1 ((vm_pmem v1)\<lparr>mem := m\<rparr>)) a va pa 1 True True = (v2, r)"
    "r = 0 \<and> page_step pool {slot_of a va} v v2 \<or> r = -1 \<and> page_step pool {} v v2"
    "2 \<le> free_count v \<Longrightarrow> r = 0 \<and> free_count v \<le> free_count v2 + 2"
    "\<And>x. r = 0 \<Longrightarrow> user_va x \<Longrightarrow>
      byte_at v2 a x = (if va \<le> x \<and> x < va + 4096 then Some (segment_byte dat ph x) else byte_at v a x)"
proof -
  note fa = alloc_page_ok(7) [OF ok al]
  note ex = segment_exact [OF s _ _ va]
  have "fill_page dat ph va pa [0..<4096] (mem (vm_pmem v1)) \<noteq> None"
  proof (rule fill_page_Some, intro ballI impI)
    fix b assume b: "b \<in> set [0..<4096]" "in_segment ph (add64 va b)"
    have "add64 va b = va + b" using ex(1) [of "va + b"] b(1) by simp
    then show "add64 (p_offset ph) (add64 va b - p_vaddr ph) < length dat" using ex(3) [of "va + b"] b by simp
  qed
  then obtain m where m: "fill_page dat ph va pa [0..<4096] (mem (vm_pmem v1)) = Some m" by blast
  have mb: "within pa (mem (vm_pmem v1)) m" "\<And>b. peek8 m (pa + b) =
      (if b < 4096 \<and> in_segment ph (add64 va b) then file_byte dat ph (add64 va b) else peek8 (mem (vm_pmem v1)) (pa + b))"
    using fill_page_bytes [OF m _ _ fa] by auto
  obtain v2 r where mp: "address_space_map (set_pmem v1 ((vm_pmem v1)\<lparr>mem := m\<rparr>)) a va pa 1 True True = (v2, r)"
    by fastforce
  note np = new_page_ok [OF ok a user_page_va(2) [OF va] al mb(1) mp]
  have byte: "peek8 m (pa + off) = segment_byte dat ph (va + off)" if off: "off < 4096" for off
  proof -
    have x: "va \<le> va + off" "va + off < va + 4096" using off by simp_all
    have "peek8 m (pa + off) = (if in_segment ph (va + off) then file_byte dat ph (va + off) else 0)"
      using mb(2) [of off] np(3) [OF off] ex(1) [OF x] off by simp
    then show ?thesis using ex(2) [OF x] ex(4) [OF x] by (auto simp: segment_byte_def)
  qed
  have "byte_at v2 a x = (if va \<le> x \<and> x < va + 4096 then Some (segment_byte dat ph x) else byte_at v a x)"
    if "r = 0" "user_va x" for x
  proof -
    have r0: "r = 0" by (rule that(1))
    obtain p where p: "page_step pool {slot_of a va} v v2" "page_at v2 a va = Some (p, True, True)"
      "\<And>off. off < 4096 \<Longrightarrow> byte_of (p, True, True) off = peek8 m (pa + off)" using np(1) r0 by auto
    show ?thesis by (rule new_page_bytes [OF p(1,2) va that(2)]) (simp add: p(3) byte)
  qed
  then show thesis using m mp np(1,2) va by (intro that [of m v2 r]) auto
qed

text \<open>A load of pages that is cut short leaves the pages loaded so far.\<close>

lemma load_pages_image:
  assumes "vm_ok pool v H UNIV" "spaces v a \<noteq> None" "segment_ok dat ph" "\<forall>i<n. user_page (va_lo + (k + i) * 4096)"
  shows "\<exists>v' r. load_pages dat ph a va_lo v k n = Some (v', r) \<and>
    (2 * n \<le> free_count v \<longrightarrow> r = 0 \<and> free_count v \<le> free_count v' + 2 * n) \<and>
    (r = 0 \<longrightarrow> (\<forall>x. user_va x \<longrightarrow> byte_at v' a x =
      (if va_lo + k * 4096 \<le> x \<and> x < va_lo + (k + n) * 4096 then Some (segment_byte dat ph x) else byte_at v a x)))"
  using assms
proof (induction n arbitrary: v H k)
  case 0
  then show ?case by auto
next
  case (Suc n)
  let ?va = "va_lo + k * 4096"
  have va: "user_page ?va" using Suc.prems(4) by force
  have e: "add64 va_lo (mul64 k 4096) = ?va" using va by (simp add: add64_def mul64_def user_page_def)
  obtain v1 pa where al: "vm_alloc_page v = (v1, pa)" by fastforce
  show ?case
  proof (cases "pa = 0")
    case True
    then show ?thesis using al alloc_page_free(1) [OF Suc.prems(1) al True] by simp
  next
    case pa: False
    obtain m v2 r where st: "fill_page dat ph ?va pa [0..<4096] (mem (vm_pmem v1)) = Some m"
      "address_space_map (set_pmem v1 ((vm_pmem v1)\<lparr>mem := m\<rparr>)) a ?va pa 1 True True = (v2, r)"
      "r = 0 \<and> page_step pool {slot_of a ?va} v v2 \<or> r = -1 \<and> page_step pool {} v v2"
      "2 \<le> free_count v \<Longrightarrow> r = 0 \<and> free_count v \<le> free_count v2 + 2"
      "\<And>x. r = 0 \<Longrightarrow> user_va x \<Longrightarrow>
        byte_at v2 a x = (if ?va \<le> x \<and> x < ?va + 4096 then Some (segment_byte dat ph x) else byte_at v a x)"
      by (rule segment_page [OF Suc.prems(1-3) va al pa]) blast
    have l: "load_pages dat ph a va_lo v k (Suc n) =
        (if r \<noteq> 0 then Some (v2, -1) else load_pages dat ph a va_lo v2 (k + 1) n)"
      using al pa st(1,2) by (simp add: e del: One_nat_def)
    show ?thesis
    proof (cases "r = 0")
      case False
      then show ?thesis using l st(4) by auto
    next
      case True
      then have ps: "page_step pool {slot_of a ?va} v v2" using st(3) by simp
      obtain G where G: "vm_ok pool v2 G UNIV" using ps page_stepD by metis
      have "\<forall>i<n. user_page (va_lo + (k + 1 + i) * 4096)"
        using Suc.prems(4) [rule_format, of "Suc i" for i] by simp
      from Suc.IH [OF G page_step_space [OF ps Suc.prems(2)] Suc.prems(3) this]
      obtain v' r' where v': "load_pages dat ph a va_lo v2 (k + 1) n = Some (v', r')"
        "2 * n \<le> free_count v2 \<Longrightarrow> r' = 0 \<and> free_count v2 \<le> free_count v' + 2 * n"
        "\<And>x. r' = 0 \<Longrightarrow> user_va x \<Longrightarrow> byte_at v' a x =
          (if va_lo + (k + 1) * 4096 \<le> x \<and> x < va_lo + (k + 1 + n) * 4096 then Some (segment_byte dat ph x) else byte_at v2 a x)"
        by blast
      have "byte_at v' a x =
          (if ?va \<le> x \<and> x < va_lo + (k + Suc n) * 4096 then Some (segment_byte dat ph x) else byte_at v a x)"
        if "r' = 0" "user_va x" for x
        using v'(3) [OF that] st(5) [OF True that(2)] by (auto simp: algebra_simps)
      then show ?thesis using l True v'(1,2) st(4) by auto
    qed
  qed
qed

text \<open>Whatever the file says, only the space that is loaded changes.\<close>

lemma load_pages_step:
  assumes "vm_ok pool v H UNIV" "spaces v a \<noteq> None" "load_pages dat ph a va_lo v k n = Some (v', r)"
  shows "(r = 0 \<or> r = -1) \<and> page_step pool ({a} \<times> UNIV) v v'"
  using assms
proof (induction n arbitrary: v H k)
  case 0
  then show ?case using page_step_refl by auto
next
  case (Suc n)
  obtain v1 pa where al: "vm_alloc_page v = (v1, pa)" by fastforce
  show ?case
  proof (cases "pa = 0")
    case True
    then have "v' = v" "r = -1" using Suc.prems(3) al alloc_page_fails [OF _ Suc.prems(1), of v1] by auto
    then show ?thesis using page_step_refl [OF Suc.prems(1)] by simp
  next
    case pa: False
    let ?va = "add64 va_lo (mul64 k 4096)"
    obtain m where m0: "fill_page dat ph ?va pa [0..<4096] (mem (vm_pmem v1)) = Some m"
      using Suc.prems(3) al pa by (auto simp: Let_def Option.bind_eq_Some_conv simp del: One_nat_def)
    obtain v2 r2 where mp: "address_space_map (set_pmem v1 ((vm_pmem v1)\<lparr>mem := m\<rparr>)) a ?va pa 1 True True = (v2, r2)"
      by fastforce
    have m: "fill_page dat ph ?va pa [0..<4096] (mem (vm_pmem v1)) = Some m"
      "address_space_map (set_pmem v1 ((vm_pmem v1)\<lparr>mem := m\<rparr>)) a ?va pa 1 True True = (v2, r2)"
      "(if r2 \<noteq> 0 then Some (v2, -1) else load_pages dat ph a va_lo v2 (k + 1) n) = Some (v', r)"
      using Suc.prems(3) al pa m0 mp by (simp_all add: Let_def del: One_nat_def)
    have w: "within pa (mem (vm_pmem v1)) m"
      using fill_page_bytes [OF m(1) _ _ alloc_page_ok(7) [OF Suc.prems(1) al pa]] by auto
    have va: "?va < 2 ^ 64" by (simp add: add64_def)
    have s: "page_step pool ({a} \<times> UNIV) v v2" "r2 = 0 \<or> r2 = -1"
      using new_page_ok(1) [OF Suc.prems(1,2) va al pa w m(2)] page_step_mono [of pool _ v v2 "{a} \<times> UNIV"] by auto
    obtain G where G: "vm_ok pool v2 G UNIV" using s(1) page_stepD by metis
    show ?thesis
    proof (cases "r2 = 0")
      case True
      then have "load_pages dat ph a va_lo v2 (k + 1) n = Some (v', r)" using m(3) by simp
      from Suc.IH [OF G page_step_space [OF s(1) Suc.prems(2)] this] show ?thesis using page_step_trans [OF s(1)] by fastforce
    next
      case False
      then show ?thesis using m(3) s by auto
    qed
  qed
qed

section \<open>The segments of a file\<close>

text \<open>The program headers of type \<open>PT_LOAD\<close>, and what the file puts where.\<close>

fun segments :: "byte list \<Rightarrow> nat \<Rightarrow> nat \<Rightarrow> nat \<Rightarrow> nat \<Rightarrow> elf64_phdr list option" where
  "segments dat e_phoff e_phentsize i 0 = Some []"
| "segments dat e_phoff e_phentsize i (Suc n) =
     (let off = add64 e_phoff (i * e_phentsize) in
      do { t \<leftarrow> rd_le dat off 4;
           if t \<noteq> PT_LOAD then segments dat e_phoff e_phentsize (i + 1) n
           else do { ph \<leftarrow> phdr_at dat off;
                     phs \<leftarrow> segments dat e_phoff e_phentsize (i + 1) n;
                     Some (ph # phs) } })"

definition seg_lo :: "elf64_phdr \<Rightarrow> nat" where
  "seg_lo ph = align_down 4096 (p_vaddr ph)"

definition seg_hi :: "elf64_phdr \<Rightarrow> nat" where
  "seg_hi ph = align_down 4096 (p_vaddr ph + p_memsz ph + 4095)"

definition seg_pages :: "elf64_phdr \<Rightarrow> nat" where
  "seg_pages ph = (seg_hi ph - seg_lo ph) div 4096"

definition covers :: "elf64_phdr \<Rightarrow> nat \<Rightarrow> bool" where
  "covers ph x \<longleftrightarrow> seg_lo ph \<le> x \<and> x < seg_hi ph"

definition file_image :: "byte list \<Rightarrow> elf64_phdr list \<Rightarrow> (nat \<Rightarrow> byte option) \<Rightarrow> nat \<Rightarrow> byte option" where
  "file_image dat phs f = fold (\<lambda>ph f x. if covers ph x then Some (segment_byte dat ph x) else f x) phs f"

lemma file_image_simps [simp]:
  "file_image dat [] f = f"
  "file_image dat (ph # phs) f = file_image dat phs (\<lambda>x. if covers ph x then Some (segment_byte dat ph x) else f x)"
  by (simp_all add: file_image_def)

lemma file_image_cong: "f x = g x \<Longrightarrow> file_image dat phs f x = file_image dat phs g x"
proof (induction phs arbitrary: f g)
  case (Cons ph phs)
  show ?case unfolding file_image_simps by (rule Cons.IH) (simp add: Cons.prems)
qed simp

lemma segment_range:
  assumes "segment_ok dat ph"
  shows "align_down 4096 (add64 (add64 (p_vaddr ph) (p_memsz ph)) 4095) = seg_hi ph"
    "sub64 (seg_hi ph) (seg_lo ph) div 4096 = seg_pages ph" "seg_lo ph + seg_pages ph * 4096 = seg_hi ph"
    "i < seg_pages ph \<Longrightarrow> user_page (seg_lo ph + i * 4096)"
proof -
  let ?lo = "p_vaddr ph" and ?e = "p_vaddr ph + p_memsz ph"
  have b: "USER_VA_BASE \<le> ?lo" "?e \<le> USER_VA_END" using assms by (auto simp: segment_ok_def)
  have e1: "add64 (p_vaddr ph) (p_memsz ph) = ?e" using b by (intro add64_exact) simp
  have e2: "add64 ?e 4095 = ?e + 4095" using b by (intro add64_exact) simp
  show "align_down 4096 (add64 (add64 (p_vaddr ph) (p_memsz ph)) 4095) = seg_hi ph"
    unfolding e1 e2 by (simp add: seg_hi_def)
  have al: "seg_lo ph = 4096 * (?lo div 4096)" "seg_hi ph = 4096 * ((?e + 4095) div 4096)"
    by (simp_all add: seg_lo_def seg_hi_def align_down_def minus_mod_eq_mult_div)
  have base: "(16777216 :: nat) \<le> ?lo div 4096" using div_le_mono [OF b(1), of 4096] by simp
  have top: "(?e + 4095) div 4096 \<le> 17039360" using div_le_mono [of "?e + 4095" 69793222655 4096] b(2) by simp
  have le: "?lo div 4096 \<le> (?e + 4095) div 4096" by (rule div_le_mono) simp
  define p q where "p = ?lo div 4096" and "q = (?e + 4095) div 4096"
  note pq = al(1) [folded p_def] al(2) [folded q_def] base [folded p_def] top [folded q_def] le [folded p_def q_def]
  have pages: "seg_pages ph = q - p" using pq(5) by (simp add: seg_pages_def pq(1,2) diff_mult_distrib2 [symmetric])
  have "sub64 (seg_hi ph) (seg_lo ph) = seg_hi ph - seg_lo ph"
    by (rule sub64_exact) (use pq in simp_all)
  then show "sub64 (seg_hi ph) (seg_lo ph) div 4096 = seg_pages ph" by (simp add: seg_pages_def)
  show "seg_lo ph + seg_pages ph * 4096 = seg_hi ph" using pq by (simp add: pages)
  show "user_page (seg_lo ph + i * 4096)" if "i < seg_pages ph"
    using that pq unfolding user_page_def pages by (auto simp: mod_mult_self1)
qed

lemma load_segments_image:
  assumes "vm_ok pool v H UNIV" "spaces v a \<noteq> None" "segments dat e_phoff e_phentsize i n = Some phs"
    "\<forall>ph\<in>set phs. segment_ok dat ph"
  shows "\<exists>v' r s. load_segments dat e_phoff e_phentsize a v i n b = Some (v', r, s) \<and>
    (2 * (\<Sum>ph\<leftarrow>phs. seg_pages ph) \<le> free_count v \<longrightarrow>
       r = 0 \<and> free_count v \<le> free_count v' + 2 * (\<Sum>ph\<leftarrow>phs. seg_pages ph)) \<and>
    (r = 0 \<longrightarrow> (s \<longleftrightarrow> b \<or> (\<exists>ph\<in>set phs. seg_pages ph \<noteq> 0)) \<and>
       (\<forall>x. user_va x \<longrightarrow> byte_at v' a x = file_image dat phs (byte_at v a) x))"
  using assms
proof (induction n arbitrary: v H i phs b)
  case 0
  then show ?case by auto
next
  case (Suc n)
  let ?off = "add64 e_phoff (i * e_phentsize)"
  obtain t where t: "rd_le dat ?off 4 = Some t" using Suc.prems(3) by (auto simp: Let_def Option.bind_eq_Some_conv)
  show ?case
  proof (cases "t = 1")
    case False
    then have "segments dat e_phoff e_phentsize (i + 1) n = Some phs" using Suc.prems(3) t by (simp add: Let_def)
    from Suc.IH [OF Suc.prems(1,2) this Suc.prems(4)] show ?thesis using False t by (simp add: Let_def)
  next
    case True
    obtain ph rest where ph: "phdr_at dat ?off = Some ph" "segments dat e_phoff e_phentsize (i + 1) n = Some rest"
      "phs = ph # rest"
      using Suc.prems(3) t True by (auto simp: Let_def Option.bind_eq_Some_conv)
    have s: "segment_ok dat ph" "\<forall>ph\<in>set rest. segment_ok dat ph" using Suc.prems(4) ph(3) by simp_all
    note r = segment_range [OF s(1)]
    have e: "load_segments dat e_phoff e_phentsize a v i (Suc n) b =
      (if seg_pages ph = 0 then load_segments dat e_phoff e_phentsize a v (i + 1) n b
       else do { (v1, r) \<leftarrow> load_pages dat ph a (seg_lo ph) v 0 (seg_pages ph);
                 if r \<noteq> 0 then Some (v1, r, b) else load_segments dat e_phoff e_phentsize a v1 (i + 1) n True })"
      using t True ph(1) r(1,2) by (simp add: Let_def seg_lo_def [symmetric])
    show ?thesis
    proof (cases "seg_pages ph = 0")
      case True
      then have "\<not> covers ph x" for x using r(3) by (simp add: covers_def)
      then show ?thesis using Suc.IH [OF Suc.prems(1,2) ph(2) s(2), of b] True e by (simp add: ph(3))
    next
      case False
      obtain v1 r1 where v1: "load_pages dat ph a (seg_lo ph) v 0 (seg_pages ph) = Some (v1, r1)"
        "2 * seg_pages ph \<le> free_count v \<Longrightarrow> r1 = 0 \<and> free_count v \<le> free_count v1 + 2 * seg_pages ph"
        "\<And>x. r1 = 0 \<Longrightarrow> user_va x \<Longrightarrow>
          byte_at v1 a x = (if covers ph x then Some (segment_byte dat ph x) else byte_at v a x)"
        using load_pages_image [OF Suc.prems(1,2) s(1), of "seg_pages ph" "seg_lo ph" 0] r(3,4)
        by (auto simp: covers_def)
      have ps: "page_step pool ({a} \<times> UNIV) v v1" using load_pages_step [OF Suc.prems(1,2) v1(1)] ..
      show ?thesis
      proof (cases "r1 = 0")
        case r1: False
        then have "load_segments dat e_phoff e_phentsize a v i (Suc n) b = Some (v1, r1, b)" using e False v1(1) by simp
        then show ?thesis using v1(2) r1 by (auto simp: ph(3))
      next
        case r1: True
        obtain G where G: "vm_ok pool v1 G UNIV" using ps page_stepD by metis
        from Suc.IH [OF G page_step_space [OF ps Suc.prems(2)] ph(2) s(2), of True]
        obtain v' r' s' where v': "load_segments dat e_phoff e_phentsize a v1 (i + 1) n True = Some (v', r', s')"
          "2 * (\<Sum>ph\<leftarrow>rest. seg_pages ph) \<le> free_count v1 \<Longrightarrow>
             r' = 0 \<and> free_count v1 \<le> free_count v' + 2 * (\<Sum>ph\<leftarrow>rest. seg_pages ph)"
          "r' = 0 \<Longrightarrow> s'" "\<And>x. r' = 0 \<Longrightarrow> user_va x \<Longrightarrow> byte_at v' a x = file_image dat rest (byte_at v1 a) x"
          by auto
        have "file_image dat rest (byte_at v1 a) x = file_image dat phs (byte_at v a) x" if "user_va x" for x
          unfolding ph(3) file_image_simps by (rule file_image_cong) (rule v1(3) [OF r1 that])
        then show ?thesis using e False v1(1,2) r1 v' by (auto simp: ph(3))
      qed
    qed
  qed
qed

lemma load_segments_step:
  assumes "vm_ok pool v H UNIV" "spaces v a \<noteq> None"
    "load_segments dat e_phoff e_phentsize a v i n b = Some (v', r, b')"
  shows "(r = 0 \<or> r = -1) \<and> page_step pool ({a} \<times> UNIV) v v'"
  using assms
proof (induction n arbitrary: v H i b)
  case 0
  then show ?case using page_step_refl by auto
next
  case (Suc n)
  let ?off = "add64 e_phoff (i * e_phentsize)"
  obtain t where t: "rd_le dat ?off 4 = Some t" using Suc.prems(3) by (auto simp: Let_def Option.bind_eq_Some_conv)
  note ih = Suc.IH [OF Suc.prems(1,2)]
  show ?case
  proof (cases "t = 1")
    case False
    then show ?thesis using ih Suc.prems(3) t by (simp add: Let_def)
  next
    case True
    obtain ph where ph: "phdr_at dat ?off = Some ph"
      using Suc.prems(3) t True by (auto simp: Let_def Option.bind_eq_Some_conv)
    define lo pages where "lo = align_down 4096 (p_vaddr ph)"
      and "pages = sub64 (align_down 4096 (add64 (add64 (p_vaddr ph) (p_memsz ph)) 4095)) lo div 4096"
    have e: "(if pages = 0 then load_segments dat e_phoff e_phentsize a v (i + 1) n b
       else do { (v1, r) \<leftarrow> load_pages dat ph a lo v 0 pages;
                 if r \<noteq> 0 then Some (v1, r, b) else load_segments dat e_phoff e_phentsize a v1 (i + 1) n True }) =
       Some (v', r, b')"
      using Suc.prems(3) t True ph by (simp add: Let_def lo_def pages_def cong: if_cong)
    show ?thesis
    proof (cases "pages = 0")
      case True
      then show ?thesis using ih e by simp
    next
      case False
      obtain v1 r1 where l: "load_pages dat ph a lo v 0 pages = Some (v1, r1)"
        using e False by (auto simp: Option.bind_eq_Some_conv)
      note s = load_pages_step [OF Suc.prems(1,2) l]
      obtain G where G: "vm_ok pool v1 G UNIV" using s page_stepD by metis
      show ?thesis
        using e False l s Suc.IH [OF G page_step_space [OF conjunct2 [OF s] Suc.prems(2)], of "i + 1" True]
          page_step_trans [OF conjunct2 [OF s], of "{a} \<times> UNIV" v'] by (auto split: if_splits)
    qed
  qed
qed

section \<open>The pages of the stack\<close>

abbreviation (input) STACK_BOT :: nat where "STACK_BOT \<equiv> 0x103FFF0000"
abbreviation (input) STACK_TOP_PAGE :: nat where "STACK_TOP_PAGE \<equiv> 0x103FFFF000"

definition own_page :: "vm \<Rightarrow> nat \<Rightarrow> nat \<Rightarrow> nat \<Rightarrow> bool" where
  "own_page v a va pa \<longleftrightarrow> frame_of v a (Pg (L2_INDEX va) (L3_INDEX va)) = Some pa \<and>
     ap_field (entry v a (L2_INDEX va) (L3_INDEX va)) = DESC_AP_RW_EL0"

lemma load_stack_ok:
  assumes "vm_ok pool v H UNIV" "spaces v a \<noteq> None" "load_stack a v k n t = (v', r, top_pa)" "k + n \<le> 16"
  shows "(r = 0 \<or> r = -1) \<and> page_step pool ({a} \<times> UNIV) v v' \<and>
    (2 * n \<le> free_count v \<longrightarrow> r = 0 \<and> free_count v \<le> free_count v' + 2 * n) \<and>
    (r = 0 \<longrightarrow> (\<forall>x. user_va x \<longrightarrow> byte_at v' a x =
       (if STACK_BOT + k * 4096 \<le> x \<and> x < STACK_BOT + (k + n) * 4096 then Some 0 else byte_at v a x)) \<and>
       (0 < n \<and> k + n = 16 \<longrightarrow> own_page v' a STACK_TOP_PAGE top_pa))"
  using assms
proof (induction n arbitrary: v H k t)
  case 0
  then show ?case using page_step_refl by auto
next
  case (Suc n)
  let ?va = "STACK_BOT + k * 4096"
  have va: "user_page ?va" using Suc.prems(4) by (simp add: user_page_def mod_mult_self1)
  obtain v1 pa where al: "vm_alloc_page v = (v1, pa)" by fastforce
  show ?case
  proof (cases "pa = 0")
    case True
    then have "v' = v" "r = -1" using Suc.prems(3) al alloc_page_fails [OF _ Suc.prems(1), of v1] by auto
    then show ?thesis using page_step_refl [OF Suc.prems(1)] alloc_page_free(1) [OF Suc.prems(1) al True] by simp
  next
    case pa: False
    obtain v2 r2 where m: "address_space_map v1 a ?va pa 1 True False = (v2, r2)" by fastforce
    then have mp: "address_space_map (set_pmem v1 ((vm_pmem v1)\<lparr>mem := mem (vm_pmem v1)\<rparr>)) a ?va pa 1 True False = (v2, r2)"
      by simp
    note np = new_page_ok [OF Suc.prems(1,2) user_page_va(2) [OF va] al pa within_refl mp]
    have e: "(if r2 \<noteq> 0 then (v2, -1, t) else load_stack a v2 (k + 1) n (if k = 15 then pa else t)) = (v', r, top_pa)"
      using Suc.prems(3) al pa m by (simp del: One_nat_def cong: if_cong)
    show ?thesis
    proof (cases "r2 = 0")
      case False
      then have "r = -1" "page_step pool {} v v'" "\<not> 2 \<le> free_count v" using e np(1,2) va by auto
      then show ?thesis using page_step_mono [of pool "{}" v v'] by simp
    next
      case True
      then obtain p where st: "page_step pool {slot_of a ?va} v v2" "page_at v2 a ?va = Some (p, True, False)"
        "\<And>off. off < 4096 \<Longrightarrow> byte_of (p, True, False) off = peek8 (mem (vm_pmem v1)) (pa + off)"
        "own_page v2 a ?va pa"
        using np(1) by (auto simp: own_page_def)
      have z: "byte_at v2 a x = (if ?va \<le> x \<and> x < ?va + 4096 then Some 0 else byte_at v a x)" if "user_va x" for x
        by (rule new_page_bytes [OF st(1,2) va that, where f = "\<lambda>_. 0"]) (simp add: st(3) np(3))
      obtain G where G: "vm_ok pool v2 G UNIV" using st(1) page_stepD by metis
      have l: "load_stack a v2 (k + 1) n (if k = 15 then pa else t) = (v', r, top_pa)" using e True by simp
      note ih = Suc.IH [OF G page_step_space [OF st(1) Suc.prems(2)] l]
      have "page_step pool ({a} \<times> UNIV) v v'"
        by (rule page_step_mono [OF page_step_trans [OF st(1)]]) (use ih Suc.prems(4) in auto)
      moreover have "r = 0 \<and> free_count v \<le> free_count v' + 2 * Suc n" if "2 * Suc n \<le> free_count v"
        using ih Suc.prems(4) np(2) [OF va] that by auto
      moreover have "byte_at v' a x =
          (if ?va \<le> x \<and> x < STACK_BOT + (k + Suc n) * 4096 then Some 0 else byte_at v a x)" if "r = 0" "user_va x" for x
        using ih Suc.prems(4) z [OF that(2)] that by (auto simp: algebra_simps)
      moreover have "own_page v' a STACK_TOP_PAGE top_pa" if "r = 0" "k + Suc n = 16"
      proof (cases n)
        case 0
        then have "k = 15" using that(2) by simp
        then have "v' = v2" "top_pa = pa" "?va = STACK_TOP_PAGE" using l 0 by simp_all
        then show ?thesis using st(4) by (simp only:)
      next
        case (Suc j)
        then show ?thesis using ih that by simp
      qed
      ultimately show ?thesis using ih Suc.prems(4) by auto
    qed
  qed
qed

lemma page_step_own:
  assumes "page_step pool A v v'" "spaces v a \<noteq> None" "slot_of a va \<notin> A" "own_page v a va pa"
  shows "own_page v' a va pa"
proof -
  have c: "changes UNIV A v v'" using assms(1) by (simp add: page_step_def)
  show ?thesis
    using assms(4) changesD(2) [OF c UNIV_I assms(3)] changesD(4) [OF c UNIV_I assms(2) index_less assms(3)]
    by (simp add: own_page_def)
qed

lemma install_guard_ok:
  assumes ok: "vm_ok pool v H UNIV" and a: "spaces v a \<noteq> None" and va: "va mod 4096 = 0"
    and g: "address_space_install_guard v a va = (v', r)"
  shows "r = 0 \<and> page_step pool {slot_of a va} v v' \<and> page_at v' a va = None \<or> r = -1 \<and> v' = v"
    "0 < free_count v \<Longrightarrow> r = 0"
proof -
  have a0: "a \<noteq> 0" using vm_ok_refs(5) [OF ok] a by auto
  obtain v1 l3 where l: "l3_for v a va = (v1, l3)" by fastforce
  have e: "(if l3 = 0 then (v1, -1) else (wr64 v1 (l3 + 8 * L3_INDEX va) DESC_SW_GUARD, 0)) = (v', r)"
    using g a0 va l by (simp add: address_space_install_guard_def)
  show "0 < free_count v \<Longrightarrow> r = 0" using e l3_for_free [OF ok a l] by (simp split: if_splits)
  obtain H1 where 1: "vm_ok pool v1 H1 UNIV" "quiet_vm UNIV v H v1 H1" "spaces v1 = spaces v" "vm_kern v1 = vm_kern v"
    "l3 = 0 \<Longrightarrow> v1 = v" "l3 \<noteq> 0 \<Longrightarrow> table_write pool v1 H1 UNIV a (L2_INDEX va) l3 (L3_INDEX va)"
    using l3_for_ok [OF ok whole_UNIV a l] index_less(2) by metis
  show "r = 0 \<and> page_step pool {slot_of a va} v v' \<and> page_at v' a va = None \<or> r = -1 \<and> v' = v"
  proof (cases "l3 = 0")
    case True
    then show ?thesis using e 1(5) by simp
  next
    case False
    then have v': "v' = wr64 v1 (l3 + 8 * L3_INDEX va) DESC_SW_GUARD" "r = 0" using e by simp_all
    note w = 1(6) [OF False]
    note c = clear_entry_ok [OF w invalid_words(2)]
    have "page_step pool {} v v1"
      unfolding page_step_def using 1(1) quiet_changes [OF 1(2)] counts_only_same [OF 1(3,4)] by blast
    moreover have "page_step pool {slot_of a va} v1 v'"
      unfolding page_step_def v'(1) using c(1) written_changes [OF w] counts_only_same [of "wr64 v1 _ _" v1] by auto
    ultimately have "page_step pool {slot_of a va} v v'" using page_step_trans by fastforce
    then show ?thesis using c(2) v' by (simp add: page_at_def seen_def)
  qed
qed

section \<open>The first frame\<close>

text \<open>The byte at offset \<open>off\<close> of the top page of the stack.\<close>

definition frame_words_of :: "byte list list \<Rightarrow> nat list" where
  "frame_words_of argv = length argv # arg_vas (USER_STACK_TOP - strings_bytes argv) argv @ [0, 0]"

definition init_byte :: "byte list list \<Rightarrow> nat \<Rightarrow> byte" where
  "init_byte argv off =
     (let p = 4096 - frame_bytes argv; q = 4096 - strings_bytes argv in
      if p \<le> off \<and> off < p + 8 * (length argv + 3)
      then get_byte (word_of_nat (frame_words_of argv ! ((off - p) div 8))) ((off - p) mod 8)
      else if q \<le> off then string_area argv ! (off - q) else 0)"

definition argv_fits :: "byte list list \<Rightarrow> bool" where
  "argv_fits argv \<longleftrightarrow> length argv \<le> MAX_USER_ARGV \<and> frame_bytes argv \<le> 4096"

lemma length_arg_vas [simp]: "length (arg_vas va argv) = length argv"
  by (induction va argv rule: arg_vas.induct) simp_all

lemma length_frame_words [simp]: "length (frame_words_of argv) = length argv + 3"
  by (simp add: frame_words_of_def)

lemma frame_bytes_bounds:
  "8 * (length argv + 3) + strings_bytes argv \<le> frame_bytes argv" "16 dvd frame_bytes argv"
proof -
  have "8 + (length argv + 1) * 8 + 8 + strings_bytes argv = 8 * (length argv + 3) + strings_bytes argv" by simp
  then have e: "frame_bytes argv = align_down 16 (8 * (length argv + 3) + strings_bytes argv + 15)"
    by (simp add: frame_bytes_def align_up16_def algebra_simps)
  show "8 * (length argv + 3) + strings_bytes argv \<le> frame_bytes argv"
    using align_down_gt [of 16 "8 * (length argv + 3) + strings_bytes argv + 15"] unfolding e by linarith
  show "16 dvd frame_bytes argv" unfolding e by simp
qed

lemma init_stack_eq:
  "build_user_init_stack m page argv =
    (if argv_fits argv
     then Some (poke_words (poke_bytes (poke_bytes m page (replicate 4096 0))
         (page + (4096 - strings_bytes argv)) (string_area argv)) (page + (4096 - frame_bytes argv)) (frame_words_of argv),
       USER_STACK_TOP - frame_bytes argv)
     else None)"
  by (simp add: build_user_init_stack_def argv_fits_def Let_def put_strings_bytes frame_words_of_def)

lemma init_stack_bytes:
  assumes "build_user_init_stack m page argv = Some (m', sp)" "frame_addr page"
  shows "within page m m'" "off < 4096 \<Longrightarrow> peek8 m' (page + off) = init_byte argv off"
proof -
  have f: "frame_bytes argv \<le> 4096" and m': "m' = poke_words (poke_bytes (poke_bytes m page (replicate 4096 0))
         (page + (4096 - strings_bytes argv)) (string_area argv)) (page + (4096 - frame_bytes argv)) (frame_words_of argv)"
    using assms(1) by (auto simp: init_stack_eq argv_fits_def split: if_splits)
  note b = frame_bytes_bounds [of argv]
  have d: "8 dvd page + (4096 - frame_bytes argv)"
  proof -
    have "8 dvd (4096 :: nat)" "(8 :: nat) dvd 16" "4096 dvd page" using assms(2) by (auto simp: frame_addr_def)
    then have "8 dvd page" "8 dvd frame_bytes argv" "8 dvd (4096 :: nat)" using b(2) dvd_trans by blast+
    then show ?thesis by (intro dvd_add dvd_diff_nat)
  qed
  have "within page m (poke_bytes m page (replicate 4096 0))" using assms(2) by (intro within_poke_bytes) simp_all
  moreover have "within page m1 (poke_bytes m1 (page + (4096 - strings_bytes argv)) (string_area argv))" for m1
    using assms(2) b(1) f by (intro within_poke_bytes) (simp_all add: length_string_area)
  moreover have "within page m1 (poke_words m1 (page + (4096 - frame_bytes argv)) (frame_words_of argv))" for m1
    using b(1) f by (intro within_poke_words) simp_all
  ultimately show "within page m m'" unfolding m' using within_trans by blast
  show "peek8 m' (page + off) = init_byte argv off" if off: "off < 4096"
  proof -
    let ?p = "4096 - frame_bytes argv" and ?q = "4096 - strings_bytes argv"
    have e: "page + off - (page + x) = off - x" "page + x \<le> page + off \<longleftrightarrow> x \<le> off" for x by simp_all
    have l: "page + off < page + ?p + 8 * length (frame_words_of argv) \<longleftrightarrow> off < ?p + 8 * (length argv + 3)" by simp
    have "off < ?q + strings_bytes argv" "page + off < page + ?q + strings_bytes argv" using off f b(1) by linarith+
    then show ?thesis
      unfolding m' peek8_poke_words [OF d] peek8_poke_bytes e l init_byte_def Let_def length_string_area
      using off by simp
  qed
qed

lemma init_stack_ok:
  assumes ok: "vm_ok pool v H UNIV" and a: "spaces v a \<noteq> None" and o: "own_page v a STACK_TOP_PAGE page"
    and b: "build_user_init_stack (mem (vm_pmem v)) page argv = Some (m, sp)"
  defines "v' \<equiv> set_pmem v ((vm_pmem v)\<lparr>mem := m\<rparr>)"
  shows "page_step pool {slot_of a STACK_TOP_PAGE} v v'"
    "user_va x \<Longrightarrow> byte_at v' a x =
      (if STACK_TOP_PAGE \<le> x then Some (init_byte argv (x - STACK_TOP_PAGE)) else byte_at v a x)"
proof -
  let ?va = STACK_TOP_PAGE
  let ?i = "L2_INDEX ?va" and ?j = "L3_INDEX ?va"
  have o': "frame_of v a (Pg ?i ?j) = Some page" "ap_field (entry v a ?i ?j) = DESC_AP_RW_EL0"
    using o by (simp_all add: own_page_def)
  note fa = vm_ok_owner(3) [OF ok UNIV_I o'(1)]
  note s = init_stack_bytes [OF b fa]
  note f = poke_frame_ok [OF ok UNIV_I o' s(1) [unfolded within_def], folded v'_def]
  have rt: "rooted (UNIV - {(a, Pg ?i ?j)})" by (auto simp: rooted_def)
  have "changes (UNIV - {(a, Pg ?i ?j)}) {} v v'" by (rule agree_changes [OF rt f(4)]) (simp add: v'_def)
  then have "changes UNIV {slot_of a ?va} v v'" unfolding changes_def by auto
  then show ps: "page_step pool {slot_of a ?va} v v'"
    unfolding page_step_def using f(1) counts_only_same [of v' v] by (auto simp: v'_def)
  obtain p where p: "page_at v' a ?va = Some p" "fst p = frame_words v' page"
    by (simp add: page_at_def seen_def f(2))
  have u: "user_page ?va" by (simp add: user_page_def)
  have "byte_of p off = init_byte argv off" if "off < 4096" for off
    using peek8_page [OF fa that, of v'] s(2) [OF that] p(2) by (simp add: byte_of_def v'_def)
  then have "byte_at v' a x = (if ?va \<le> x \<and> x < ?va + 4096 then Some (init_byte argv (x - ?va)) else byte_at v a x)"
    if "user_va x" for x
    using new_page_bytes [OF ps p(1) u that, where f = "\<lambda>x. init_byte argv (x - ?va)"] by simp
  then show "byte_at v' a x = (if ?va \<le> x then Some (init_byte argv (x - ?va)) else byte_at v a x)" if "user_va x"
    using that by (auto simp: user_va_def)
qed

section \<open>What a process starts with\<close>

definition program_segments :: "byte list \<Rightarrow> elf64_phdr list option" where
  "program_segments dat =
     do { e_phoff \<leftarrow> rd_le dat 32 8; e_phentsize \<leftarrow> rd_le dat 54 2; e_phnum \<leftarrow> rd_le dat 56 2;
          segments dat e_phoff e_phentsize 0 e_phnum }"

definition elf_ok :: "byte list \<Rightarrow> elf64_phdr list \<Rightarrow> bool" where
  "elf_ok dat phs \<longleftrightarrow> elf_header_ok dat \<and> program_segments dat = Some phs \<and>
     (\<forall>ph\<in>set phs. segment_ok dat ph) \<and> (\<exists>ph\<in>set phs. seg_pages ph \<noteq> 0)"

text \<open>The stack above the guard page, the file below.\<close>

definition process_image :: "byte list \<Rightarrow> elf64_phdr list \<Rightarrow> byte list list \<Rightarrow> (nat \<Rightarrow> byte option) \<Rightarrow> nat \<Rightarrow> byte option" where
  "process_image dat phs argv f x =
     (if STACK_TOP_PAGE \<le> x then Some (init_byte argv (x - STACK_TOP_PAGE))
      else if STACK_BOT \<le> x then Some 0
      else if USER_STACK_GUARD_VA \<le> x then None
      else file_image dat phs f x)"

lemma rd_le_Some: "off + n \<le> length dat \<Longrightarrow> \<exists>x. rd_le dat off n = Some x"
  by (simp add: rd_le_def)

lemma load_image_ok:
  assumes ok: "vm_ok pool v H UNIV" and a: "spaces v a \<noteq> None" and l: "load_image a argv e v img = (v', r, img')"
  shows "(r = 0 \<or> r = -1) \<and> page_step pool ({a} \<times> UNIV) v v' \<and>
    (argv_fits argv \<and> 33 \<le> free_count v \<longrightarrow> r = 0) \<and>
    (r = 0 \<longrightarrow> argv_fits argv \<and> img' = img\<lparr>entry_va := e, stack_top_va := USER_STACK_TOP - frame_bytes argv\<rparr> \<and>
      (\<forall>x. user_va x \<longrightarrow> byte_at v' a x = process_image dat [] argv (byte_at v a) x))"
proof -
  obtain v1 r1 top_pa where 1: "load_stack a v 0 16 0 = (v1, r1, top_pa)" using prod_cases3 by metis
  note s1 = load_stack_ok [OF ok a 1]
  have p1: "page_step pool ({a} \<times> UNIV) v v1" using s1 by simp
  obtain G where G: "vm_ok pool v1 G UNIV" using p1 page_stepD by metis
  note a1 = page_step_space [OF p1 a]
  show ?thesis
  proof (cases "r1 = 0")
    case False
    then have "v' = v1" "r = -1" using l 1 by (auto simp: load_image_def)
    then show ?thesis using s1 False by auto
  next
    case r1: True
    obtain v2 r2 where 2: "address_space_install_guard v1 a USER_STACK_GUARD_VA = (v2, r2)" by fastforce
    note s2 = install_guard_ok [OF G a1 _ 2, simplified]
    show ?thesis
    proof (cases "r2 = 0")
      case False
      then have "v' = v2" "r = -1" using l 1 2 r1 by (auto simp: load_image_def)
      moreover have "v2 = v1" "\<not> 0 < free_count v1" using s2 False by auto
      ultimately show ?thesis using s1 p1 by auto
    next
      case r2: True
      then have p2: "page_step pool {slot_of a USER_STACK_GUARD_VA} v1 v2" "page_at v2 a USER_STACK_GUARD_VA = None"
        using s2(1) by auto
      obtain K where K: "vm_ok pool v2 K UNIV" using p2(1) page_stepD by metis
      note a2 = page_step_space [OF p2(1) a1]
      have u: "user_page USER_STACK_GUARD_VA" "user_va STACK_TOP_PAGE" by (simp_all add: user_page_def user_va_def)
      have ne: "slot_of a STACK_TOP_PAGE \<notin> {slot_of a USER_STACK_GUARD_VA}"
        by (simp add: L2_INDEX_def L3_INDEX_def)
      have o: "own_page v2 a STACK_TOP_PAGE top_pa" by (rule page_step_own [OF p2(1) a1 ne]) (use s1 r1 in simp)
      have p12: "page_step pool ({a} \<times> UNIV) v v2"
        by (rule page_step_mono [OF page_step_trans [OF p1 p2(1)]]) auto
      show ?thesis
      proof (cases "build_user_init_stack (mem (vm_pmem v2)) top_pa argv")
        case None
        then have "v' = v2" "r = -1" using l 1 2 r1 r2 by (auto simp: load_image_def)
        then show ?thesis using p12 None by (simp add: init_stack_eq split: if_splits)
      next
        case (Some p)
        then obtain m sp where b: "build_user_init_stack (mem (vm_pmem v2)) top_pa argv = Some (m, sp)" by (cases p) auto
        have v': "v' = set_pmem v2 ((vm_pmem v2)\<lparr>mem := m\<rparr>)" "r = 0" "img' = img\<lparr>entry_va := e, stack_top_va := sp\<rparr>"
          using l 1 2 r1 r2 b by (auto simp: load_image_def)
        have sp: "argv_fits argv" "sp = USER_STACK_TOP - frame_bytes argv" using b by (auto simp: init_stack_eq split: if_splits)
        note i = init_stack_ok [OF K a2 o b, folded v'(1)]
        have "byte_at v' a x = process_image dat [] argv (byte_at v a) x" if x: "user_va x" for x
        proof -
          have 0: "byte_at v1 a x = (if STACK_BOT \<le> x \<and> x < USER_STACK_TOP then Some 0 else byte_at v a x)"
            using s1 r1 x by simp
          have "byte_at v2 a x = (if USER_STACK_GUARD_VA \<le> x \<and> x < USER_STACK_GUARD_VA + 4096 then None else byte_at v1 a x)"
          proof (cases "x div 4096 = USER_STACK_GUARD_VA div 4096")
            case True
            have "page_at v2 a x = None" using same_page_slot [OF True, of a] p2(2) by (simp add: page_at_def)
            then show ?thesis using in_page(1) [OF u(1), of x] True by (simp add: byte_at_def)
          next
            case False
            then have "slot_of a x \<noteq> slot_of a USER_STACK_GUARD_VA"
              using same_slot_page [OF x user_page_va(1) [OF u(1)], of a a] by blast
            then have "page_at v2 a x = page_at v1 a x" using page_step_seen [OF p2(1)] by (simp add: page_at_def)
            moreover have "\<not> (USER_STACK_GUARD_VA \<le> x \<and> x < USER_STACK_GUARD_VA + 4096)"
              using in_page(1) [OF u(1), of x] False by simp
            ultimately show ?thesis by (auto simp: byte_at_def)
          qed
          then show ?thesis using i(2) [OF x] 0 x by (auto simp: process_image_def user_va_def)
        qed
        moreover have "page_step pool ({a} \<times> UNIV) v v'"
          by (rule page_step_mono [OF page_step_trans [OF p12 i(1)]]) auto
        ultimately show ?thesis using v'(2,3) sp by simp
      qed
    qed
  qed
qed

text \<open>Whatever the file holds, the loader changes the space it loads and no other.\<close>

lemma elf_load_step:
  assumes ok: "vm_ok pool v H UNIV" and a: "spaces v a \<noteq> None" and l: "elf_load_user v dat a argv img = Some (v', r, img')"
  shows "(r = 0 \<or> r = -1) \<and> page_step pool ({a} \<times> UNIV) v v'"
proof -
  have stay: "page_step pool ({a} \<times> UNIV) v v" using page_step_mono [OF page_step_refl [OF ok, of "{}"]] by simp
  show ?thesis
  proof (cases "a = 0 \<or> \<not> elf_header_ok dat")
    case True
    then have "v' = v" "r = -1" using l by (auto simp: elf_load_user_def split: if_splits)
    then show ?thesis using stay by simp
  next
    case False
    then obtain e ph es n v1 r1 s where s: "load_segments dat ph es a v 0 n False = Some (v1, r1, s)"
      "(if r1 \<noteq> 0 then Some (v1, -1, img) else if \<not> s then Some (v1, -1, img)
        else Some (load_image a argv e v1 img)) = Some (v', r, img')"
      using l by (auto simp: elf_load_user_def Option.bind_eq_Some_conv)
    note p = load_segments_step [OF ok a s(1)]
    obtain G where G: "vm_ok pool v1 G UNIV" using p page_stepD by metis
    show ?thesis
    proof (cases "r1 = 0 \<and> s")
      case True
      then have "load_image a argv e v1 img = (v', r, img')" using s(2) by simp
      from load_image_ok [OF G page_step_space [OF conjunct2 [OF p] a] this]
      show ?thesis using page_step_trans [OF conjunct2 [OF p]] by fastforce
    next
      case False
      then show ?thesis using s(2) p by (auto split: if_splits)
    qed
  qed
qed

lemma elf_load_image:
  assumes ok: "vm_ok pool v H UNIV" and a: "spaces v a \<noteq> None" and e: "elf_ok dat phs"
  shows "\<exists>v' r img'. elf_load_user v dat a argv img = Some (v', r, img') \<and>
    (argv_fits argv \<and> 2 * (\<Sum>ph\<leftarrow>phs. seg_pages ph) + 33 \<le> free_count v \<longrightarrow> r = 0) \<and>
    (r = 0 \<longrightarrow> argv_fits argv \<and> rd_le dat 24 8 = Some (entry_va img') \<and>
      stack_top_va img' = USER_STACK_TOP - frame_bytes argv \<and>
      (\<forall>x. user_va x \<longrightarrow> byte_at v' a x = process_image dat phs argv (byte_at v a) x))"
proof -
  have a0: "a \<noteq> 0" using vm_ok_refs(5) [OF ok] a by auto
  have h: "elf_header_ok dat" "\<forall>ph\<in>set phs. segment_ok dat ph" "\<exists>ph\<in>set phs. seg_pages ph \<noteq> 0"
    using e by (simp_all add: elf_ok_def)
  obtain en where en: "rd_le dat 24 8 = Some en" using h(1) rd_le_Some [of 24 8 dat] by (auto simp: elf_header_ok_def)
  obtain ph es n where hd: "rd_le dat 32 8 = Some ph" "rd_le dat 54 2 = Some es" "rd_le dat 56 2 = Some n"
    "segments dat ph es 0 n = Some phs"
    using e by (auto simp: elf_ok_def program_segments_def Option.bind_eq_Some_conv)
  obtain v1 r1 s where s: "load_segments dat ph es a v 0 n False = Some (v1, r1, s)"
    "2 * (\<Sum>ph\<leftarrow>phs. seg_pages ph) \<le> free_count v \<Longrightarrow>
       r1 = 0 \<and> free_count v \<le> free_count v1 + 2 * (\<Sum>ph\<leftarrow>phs. seg_pages ph)"
    "r1 = 0 \<Longrightarrow> s" "\<And>x. r1 = 0 \<Longrightarrow> user_va x \<Longrightarrow> byte_at v1 a x = file_image dat phs (byte_at v a) x"
    using load_segments_image [OF ok a hd(4) h(2), of False] h(3) by auto
  have l: "elf_load_user v dat a argv img =
    (if r1 \<noteq> 0 then Some (v1, -1, img) else Some (load_image a argv en v1 img))"
    using a0 h(1) en hd(1-3) s(1,3) by (simp add: elf_load_user_def)
  show ?thesis
  proof (cases "r1 = 0")
    case False
    then show ?thesis using l s(2) by auto
  next
    case True
    note p = load_segments_step [OF ok a s(1)]
    obtain G where G: "vm_ok pool v1 G UNIV" using p page_stepD by metis
    obtain v' r img' where i: "load_image a argv en v1 img = (v', r, img')" using prod_cases3 by metis
    note li = load_image_ok [OF G page_step_space [OF conjunct2 [OF p] a] i]
    have "process_image dat [] argv (byte_at v1 a) x = process_image dat phs argv (byte_at v a) x" if "user_va x" for x
      using s(4) [OF True that] by (simp add: process_image_def)
    then show ?thesis using l True i li s(2) en by auto
  qed
qed

section \<open>The arguments, as the program reads them\<close>

definition load64 :: "vm \<Rightarrow> nat \<Rightarrow> nat \<Rightarrow> nat option" where
  "load64 v a va = map_option le_val (load_bytes v a va 8)"

definition args_at :: "vm \<Rightarrow> nat \<Rightarrow> nat \<Rightarrow> byte list list \<Rightarrow> bool" where
  "args_at v a sp argv \<longleftrightarrow>
     16 dvd sp \<and> load64 v a sp = Some (length argv) \<and>
     (\<forall>i<length argv. \<exists>p. load64 v a (sp + 8 + 8 * i) = Some p \<and>
        load_bytes v a p (length (argv ! i) + 1) = Some (argv ! i @ [0])) \<and>
     load64 v a (sp + 8 + 8 * length argv) = Some 0 \<and> load64 v a (sp + 16 + 8 * length argv) = Some 0"

lemma le_val_word: "le_val (map (get_byte w) [0..<n]) = unat w mod 2 ^ (8 * n)"
proof (induction n arbitrary: w)
  case (Suc n)
  have sh: "map (get_byte w) [0..<Suc n] = get_byte w 0 # map (get_byte (drop_bit 8 w)) [0..<n]"
    unfolding upt_conv_Cons [OF zero_less_Suc] list.map map_Suc_upt [symmetric] map_map
    by (simp add: get_byte_def o_def algebra_simps)
  have b: "unat (get_byte w 0) = unat w mod 256" by (simp add: get_byte_def unsigned_ucast_eq take_bit_eq_mod)
  have d: "unat (drop_bit 8 w) = unat w div 256" by (simp add: drop_bit_eq_div unat_div_distrib)
  have "unat w mod 256 + 256 * (unat w div 256 mod 2 ^ (8 * n)) = unat w mod (256 * 2 ^ (8 * n))"
    by (simp add: mod_mult2_eq)
  moreover have "(256 :: nat) * 2 ^ (8 * n) = 2 ^ (8 * Suc n)" by (simp add: power_add)
  ultimately show ?case unfolding sh le_val.simps Suc.IH b d by simp
qed simp

lemma le_val_word8: "le_val (map (get_byte w) [0..<8]) = unat w"
  using le_val_word [of w 8] unsigned_less [of w, where ?'a = nat] by simp

lemma string_area_split:
  "i < length argv \<Longrightarrow>
   string_area argv = string_area (take i argv) @ (argv ! i @ [0]) @ string_area (drop (Suc i) argv)"
  by (subst (1) id_take_nth_drop [of i argv]) (simp_all add: string_area_def)

lemma arg_vas_nth: "i < length argv \<Longrightarrow> arg_vas va argv ! i = va + length (string_area (take i argv))"
proof (induction va argv arbitrary: i rule: arg_vas.induct)
  case (2 va s ss)
  then show ?case by (cases i) (simp_all add: string_area_def)
qed simp

lemma frame_words_nth:
  "frame_words_of argv ! 0 = length argv"
  "i < length argv \<Longrightarrow> frame_words_of argv ! Suc i = USER_STACK_TOP - strings_bytes argv + length (string_area (take i argv))"
  "frame_words_of argv ! Suc (length argv) = 0" "frame_words_of argv ! Suc (Suc (length argv)) = 0"
  by (simp_all add: frame_words_of_def nth_append arg_vas_nth)

definition frame_seen :: "nat set \<Rightarrow> vm \<Rightarrow> nat \<Rightarrow> byte list list \<Rightarrow> bool" where
  "frame_seen pool v a argv \<longleftrightarrow> (\<exists>H. vm_ok pool v H UNIV) \<and> spaces v a \<noteq> None \<and> argv_fits argv \<and>
     (\<forall>x. STACK_TOP_PAGE \<le> x \<and> x < USER_STACK_TOP \<longrightarrow> byte_at v a x = Some (init_byte argv (x - STACK_TOP_PAGE)))"

lemma frame_seen_fits:
  assumes "frame_seen pool v a argv"
  shows "8 * (length argv + 3) + strings_bytes argv \<le> frame_bytes argv" "frame_bytes argv \<le> 4096" "length argv \<le> 64"
  using frame_bytes_bounds(1) [of argv] assms by (simp_all add: frame_seen_def argv_fits_def)

lemma load_init_bytes:
  assumes s: "frame_seen pool v a argv" and le: "off + n \<le> 4096"
  shows "load_bytes v a (STACK_TOP_PAGE + off) n = Some (map (\<lambda>k. init_byte argv (off + k)) [0..<n])"
proof -
  obtain H where ok: "vm_ok pool v H UNIV" "spaces v a \<noteq> None" using s by (auto simp: frame_seen_def)
  show ?thesis
  proof (rule load_bytes_ok [OF ok], intro allI impI)
    fix k assume k: "k < n"
    then have "STACK_TOP_PAGE \<le> STACK_TOP_PAGE + off + k" "STACK_TOP_PAGE + off + k < USER_STACK_TOP" using le by simp_all
    then show "user_va (STACK_TOP_PAGE + off + k) \<and>
        byte_at v a (STACK_TOP_PAGE + off + k) = Some (init_byte argv (off + k))"
      using s by (simp add: frame_seen_def user_va_def add.assoc)
  qed
qed

lemma load_init_word:
  assumes s: "frame_seen pool v a argv" and k: "k < length argv + 3" and w: "frame_words_of argv ! k < 2 ^ 64"
  shows "load64 v a (USER_STACK_TOP - frame_bytes argv + 8 * k) = Some (frame_words_of argv ! k)"
proof -
  let ?p = "4096 - frame_bytes argv"
  have f: "8 * (length argv + 3) \<le> frame_bytes argv" "frame_bytes argv \<le> 4096"
    using frame_seen_fits [OF s] by simp_all
  have ad: "USER_STACK_TOP - frame_bytes argv + 8 * k = STACK_TOP_PAGE + (?p + 8 * k)" using f by simp
  have b: "init_byte argv (?p + 8 * k + j) = get_byte (word_of_nat (frame_words_of argv ! k)) j" if j: "j < 8" for j
  proof -
    have "?p + 8 * k + j - ?p = 8 * k + j" "(8 * k + j) div 8 = k" "(8 * k + j) mod 8 = j" using j by simp_all
    moreover have "?p + 8 * k + j < ?p + 8 * (length argv + 3)" using k j by simp
    ultimately show ?thesis by (simp add: init_byte_def)
  qed
  have m: "map (\<lambda>j. init_byte argv (?p + 8 * k + j)) [0..<8] =
      map (get_byte (word_of_nat (frame_words_of argv ! k))) [0..<8]"
    by (rule map_cong [OF refl]) (use b in simp)
  have "8 * k + 8 \<le> frame_bytes argv" using f(1) k by simp
  then have "?p + 8 * k + 8 \<le> 4096" using f(2) by simp
  from load_init_bytes [OF s this]
  have "load64 v a (STACK_TOP_PAGE + (?p + 8 * k)) = Some (unat (word_of_nat (frame_words_of argv ! k) :: u64))"
    unfolding load64_def m by (simp only: option.map le_val_word8)
  then show ?thesis unfolding ad using w by (simp add: unsigned_of_nat take_bit_nat_eq_self_iff)
qed

lemma load_init_string:
  assumes s: "frame_seen pool v a argv" and i: "i < length argv"
  shows "load_bytes v a (USER_STACK_TOP - strings_bytes argv + length (string_area (take i argv))) (length (argv ! i) + 1) =
    Some (argv ! i @ [0])"
proof -
  let ?q = "4096 - strings_bytes argv" and ?l = "length (string_area (take i argv))"
  note f = frame_seen_fits [OF s]
  have len: "?l + (length (argv ! i) + 1) \<le> strings_bytes argv"
    using string_area_split [OF i] unfolding length_string_area [symmetric] by simp
  have ad: "USER_STACK_TOP - strings_bytes argv + ?l = STACK_TOP_PAGE + (?q + ?l)" using f by simp
  have b: "init_byte argv (?q + ?l + j) = (argv ! i @ [0]) ! j" if j: "j < length (argv ! i) + 1" for j
  proof -
    have "init_byte argv (?q + ?l + j) = string_area argv ! (?l + j)"
      using f by (auto simp: init_byte_def Let_def)
    also have "\<dots> = (argv ! i @ [0]) ! j"
      using j by (subst string_area_split [OF i]) (simp add: nth_append)
    finally show ?thesis .
  qed
  have "?q + ?l + (length (argv ! i) + 1) \<le> 4096" using len f by linarith
  from load_init_bytes [OF s this] have "load_bytes v a (STACK_TOP_PAGE + (?q + ?l)) (length (argv ! i) + 1) =
      Some (map (\<lambda>j. init_byte argv (?q + ?l + j)) [0..<length (argv ! i) + 1])" .
  also have "map (\<lambda>j. init_byte argv (?q + ?l + j)) [0..<length (argv ! i) + 1] = argv ! i @ [0]"
    by (rule nth_equalityI) (use b in \<open>simp_all del: upt_Suc\<close>)
  finally show ?thesis unfolding ad .
qed

lemma frame_args:
  assumes s: "frame_seen pool v a argv"
  shows "args_at v a (USER_STACK_TOP - frame_bytes argv) argv"
proof -
  let ?sp = "USER_STACK_TOP - frame_bytes argv"
  note w = load_init_word [OF s] and f = frame_seen_fits [OF s]
  have n: "strings_bytes argv \<le> 4096" using f by simp
  have "16 dvd ?sp" using frame_bytes_bounds(2) [of argv] by (intro dvd_diff_nat) simp_all
  moreover have "load64 v a ?sp = Some (length argv)" using w [of 0] f(3) by (simp add: frame_words_nth)
  moreover have "\<exists>p. load64 v a (?sp + 8 + 8 * i) = Some p \<and>
      load_bytes v a p (length (argv ! i) + 1) = Some (argv ! i @ [0])" if i: "i < length argv" for i
  proof -
    have "length (string_area (take i argv)) \<le> strings_bytes argv"
      using string_area_split [OF i] unfolding length_string_area [symmetric] by simp
    then have "frame_words_of argv ! Suc i < 2 ^ 64" using n by (simp add: frame_words_nth(2) [OF i])
    from w [OF _ this] have "load64 v a (?sp + 8 + 8 * i) =
        Some (USER_STACK_TOP - strings_bytes argv + length (string_area (take i argv)))"
      using i by (simp add: frame_words_nth(2) [OF i] algebra_simps)
    then show ?thesis using load_init_string [OF s i] by blast
  qed
  moreover have "load64 v a (?sp + 8 + 8 * length argv) = Some 0" "load64 v a (?sp + 16 + 8 * length argv) = Some 0"
    using w [of "Suc (length argv)"] w [of "Suc (Suc (length argv))"] by (simp_all add: frame_words_nth algebra_simps)
  ultimately show ?thesis by (simp add: args_at_def)
qed

lemma elf_load_frame:
  assumes ok: "vm_ok pool v H UNIV" and a: "spaces v a \<noteq> None" and l: "elf_load_user v dat a argv img = Some (v', 0, img')"
  shows "frame_seen pool v' a argv" "stack_top_va img' = USER_STACK_TOP - frame_bytes argv"
proof -
  have c: "\<not> (a = 0 \<or> \<not> elf_header_ok dat)" using l by (auto simp: elf_load_user_def split: if_splits)
  obtain e ph es n v1 r1 s where s: "load_segments dat ph es a v 0 n False = Some (v1, r1, s)"
    "(if r1 \<noteq> 0 then Some (v1, -1, img) else if \<not> s then Some (v1, -1, img)
      else Some (load_image a argv e v1 img)) = Some (v', 0, img')"
    using l c by (auto simp: elf_load_user_def Option.bind_eq_Some_conv)
  note p = load_segments_step [OF ok a s(1)]
  obtain G where G: "vm_ok pool v1 G UNIV" using p page_stepD by metis
  have "load_image a argv e v1 img = (v', 0, img')" using s(2) by (simp split: if_splits)
  note i = load_image_ok [OF G page_step_space [OF conjunct2 [OF p] a] this]
  obtain K where K: "vm_ok pool v' K UNIV" using i page_stepD by metis
  have "byte_at v' a x = Some (init_byte argv (x - STACK_TOP_PAGE))" if "STACK_TOP_PAGE \<le> x" "x < USER_STACK_TOP" for x
  proof -
    have "user_va x" using that by (simp add: user_va_def)
    then have "byte_at v' a x = process_image [] [] argv (byte_at v1 a) x" using i [of "[]"] by blast
    then show ?thesis using that(1) by (simp add: process_image_def)
  qed
  moreover have "page_step pool ({a} \<times> UNIV) v v'" using elf_load_step [OF ok a l] ..
  ultimately show "frame_seen pool v' a argv" "stack_top_va img' = USER_STACK_TOP - frame_bytes argv"
    using K i page_step_space [of pool _ v v' a] a by (auto simp: frame_seen_def)
qed

end
