(* ===== verification/UserRun.thy ===== *)
theory UserRun
  imports Elf
begin

text \<open>
  All of it together: processes that load, store, fault, fork, map, unmap, move their break and end,
  in any order, with the kernel loading programs and copying to and from their memory.  What happens is explained by a
  machine in which every process has a memory of its own, copied as a whole at a fork: there are
  no frames, tables, reference counts or faults in it.
\<close>

section \<open>Private memories\<close>

type_synonym memory = "nat \<Rightarrow> nat \<Rightarrow> nat \<Rightarrow> view_page option"

abbreviation (input) nothing :: "nat \<Rightarrow> nat \<Rightarrow> view_page option" where "nothing \<equiv> \<lambda>_ _. None"

datatype event =
  Loaded nat nat byte
| Stored nat nat byte
| Filled nat nat
| Copied_out nat nat "byte list" int
| Copied_in nat nat "byte list"
| Brk nat nat nat int
| Unmapped nat "nat list"
| Created nat
| Forked nat nat
| Execed nat "byte list" "byte list list" int
| Ended nat

definition mpage :: "memory \<Rightarrow> nat \<Rightarrow> nat \<Rightarrow> view_page option" where
  "mpage M a va = M a (L2_INDEX va) (L3_INDEX va)"

definition mbyte :: "memory \<Rightarrow> nat \<Rightarrow> nat \<Rightarrow> byte option" where
  "mbyte M a va = map_option (\<lambda>p. byte_of p (va mod 4096)) (mpage M a va)"

text \<open>A byte that was there is there still; a page that was missing may have come, with zeros.\<close>

definition kept :: "memory \<Rightarrow> nat \<Rightarrow> nat \<Rightarrow> memory \<Rightarrow> bool" where
  "kept M a x M' \<longleftrightarrow> mbyte M' a x = mbyte M a x \<or> mbyte M a x = None \<and> mbyte M' a x = Some 0"

fun explains :: "event \<Rightarrow> memory \<Rightarrow> memory \<Rightarrow> bool" where
  "explains (Loaded a va b) M M' = (M' = M \<and> mbyte M a va = Some b)"
| "explains (Stored a va b) M M' =
     (\<exists>p. mpage M a va = Some p \<and> fst (snd p) \<and>
        M' = put_pages M {slot_of a va} (Some (with_byte p (va mod 4096) b)))"
| "explains (Filled a va) M M' =
     (mpage M a va = None \<and> (\<exists>rw. M' = put_pages M {slot_of a va} (Some (\<lambda>_. 0, rw, False))))"
| "explains (Copied_out a u bs r) M M' =
     ((\<forall>b. b \<noteq> a \<longrightarrow> M' b = M b) \<and>
      (if r = 0 then \<forall>x. user_va x \<longrightarrow>
         (if u \<le> x \<and> x < u + length bs then mbyte M' a x = Some (bs ! (x - u)) else kept M a x M')
       else \<forall>x. kept M a x M'))"
| "explains (Copied_in a u bs) M M' =
     ((\<forall>b. b \<noteq> a \<longrightarrow> M' b = M b) \<and> (\<forall>x. kept M a x M') \<and>
      (\<forall>k<length bs. mbyte M' a (u + k) = Some (bs ! k)))"
| "explains (Brk a old new r) M M' =
     (if r = 0 then M' = put_pages (put_pages M (slots a (pages_to old new)) fresh_page) (slots a (pages_to new old)) None
      else \<exists>vas rest. pages_to old new = vas @ rest \<and> M' = put_pages M (slots a vas) fresh_page)"
| "explains (Unmapped a vas) M M' = (M' = put_pages M (slots a vas) None)"
| "explains (Created a) M M' = (M a = nothing \<and> M' = M)"
| "explains (Forked p c) M M' = (M c = nothing \<and> M' = M(c := M p))"
| "explains (Execed a dat argv r) M M' =
     ((\<forall>b. b \<noteq> a \<longrightarrow> M' b = M b) \<and>
      (\<forall>phs. r = 0 \<and> elf_ok dat phs \<longrightarrow> (\<forall>x. user_va x \<longrightarrow> mbyte M' a x = process_image dat phs argv (mbyte M a) x)))"
| "explains (Ended a) M M' = (M' = M(a := nothing))"

inductive explained :: "memory \<Rightarrow> event list \<Rightarrow> memory \<Rightarrow> bool" where
  explained_start: "explained M [] M"
| explained_next: "explained M es M' \<Longrightarrow> explains e M' M'' \<Longrightarrow> explained M (es @ [e]) M''"

inductive_simps explained_nil: "explained M [] M'"
inductive_simps explained_snoc: "explained M (es @ [e]) M'"

section \<open>The machine\<close>

text \<open>
  The heap is the allocator's, and the structures of the spaces are blocks of it; a page of the
  process that forks has fewer than 65535 sharers.
\<close>

definition own_heap :: "vm \<Rightarrow> bool" where
  "own_heap v \<longleftrightarrow> (\<exists>R. heap_live (kheap (kmem (vm_kern v))) R \<and> dom (spaces v) \<subseteq> fst ` R)"

definition can_share :: "vm \<Rightarrow> nat \<Rightarrow> bool" where
  "can_share v a \<longleftrightarrow> (\<forall>i j q. frame_of v a (Pg i j) = Some q \<longrightarrow> pmem_refcount_get (vm_rc v) q < 65535)"

inductive vm_run :: "vm \<Rightarrow> event list \<Rightarrow> vm \<Rightarrow> bool" where
  run_start: "vm_run u [] u"
| run_load: "vm_run u es v \<Longrightarrow> spaces v a \<noteq> None \<Longrightarrow> load8 v a va = Some b \<Longrightarrow> vm_run u (es @ [Loaded a va b]) v"
| run_store: "vm_run u es v \<Longrightarrow> spaces v a \<noteq> None \<Longrightarrow> store8 v a va b = Some v' \<Longrightarrow>
    vm_run u (es @ [Stored a va b]) v'"
| run_fault: "vm_run u es v \<Longrightarrow> spaces v a \<noteq> None \<Longrightarrow> translate v a va w = Inr f \<Longrightarrow>
    data_abort v a va w f = (v', r) \<Longrightarrow>
    vm_run u (es @ (if f = Translation_fault \<and> r = Resume then [Filled a va] else [])) v'"
| run_copy_out: "vm_run u es v \<Longrightarrow> spaces v a \<noteq> None \<Longrightarrow> copy_to_user v a p bs = Some (v', r) \<Longrightarrow>
    vm_run u (es @ [Copied_out a p bs r]) v'"
| run_copy_in: "vm_run u es v \<Longrightarrow> spaces v a \<noteq> None \<Longrightarrow> copy_from_user v a p n = Some (v', r, bs) \<Longrightarrow>
    vm_run u (es @ [Copied_in a p bs]) v'"
| run_brk: "vm_run u es v \<Longrightarrow> spaces v a \<noteq> None \<Longrightarrow> address_space_set_brk v a n = (v', r) \<Longrightarrow>
    vm_run u (es @ [Brk a (heap_brk (asp v a)) (brk_of n) r]) v'"
| run_mmap: "vm_run u es v \<Longrightarrow> spaces v a \<noteq> None \<Longrightarrow> address_space_mmap_anon v a pages prot = Some (v', va) \<Longrightarrow>
    vm_run u es v'"
| run_munmap: "vm_run u es v \<Longrightarrow> spaces v a \<noteq> None \<Longrightarrow> address_space_munmap v a va = Some (v', r) \<Longrightarrow>
    vm_run u (es @ (if r = 0 then [Unmapped a (mapped_pages v a va)] else [])) v'"
| run_create: "vm_run u es v \<Longrightarrow> own_heap v \<Longrightarrow> address_space_create v = Some (v', a) \<Longrightarrow>
    vm_run u (es @ (if a = 0 then [] else [Created a])) v'"
| run_fork: "vm_run u es v \<Longrightarrow> own_heap v \<Longrightarrow> spaces v p \<noteq> None \<Longrightarrow> can_share v p \<Longrightarrow>
    address_space_clone_cow v p = Some (v', c) \<Longrightarrow> vm_run u (es @ (if c = 0 then [] else [Forked p c])) v'"
| run_exec: "vm_run u es v \<Longrightarrow> spaces v a \<noteq> None \<Longrightarrow> elf_load_user v dat a argv img = Some (v', r, img') \<Longrightarrow>
    vm_run u (es @ [Execed a dat argv r]) v'"
| run_share: "vm_run u es v \<Longrightarrow> spaces v a \<noteq> None \<Longrightarrow> vm_run u es (address_space_share v a)"
| run_destroy: "vm_run u es v \<Longrightarrow> spaces v a \<noteq> None \<Longrightarrow> address_space_destroy v a = Some v' \<Longrightarrow>
    vm_run u (es @ (if as_refcount (asp v a) = 1 then [Ended a] else [])) v'"
| run_take: "vm_run u es v \<Longrightarrow> vm_alloc_page v = (v', pa) \<Longrightarrow> vm_run u es v'"
| run_kernel: "vm_run u es v \<Longrightarrow> vm_run u es (v\<lparr>vm_kern := k\<rparr>)"

section \<open>Each step is explained\<close>

definition good :: "nat set \<Rightarrow> vm \<Rightarrow> bool" where
  "good pool v \<longleftrightarrow> (\<exists>H. vm_ok pool v H UNIV) \<and> all_anon v"

lemma goodE:
  assumes "good pool v"
  obtains H where "vm_ok pool v H UNIV" "all_anon v"
  using assms by (auto simp: good_def)

lemma mem_step_good: "mem_step pool A v v' \<Longrightarrow> good pool v \<Longrightarrow> good pool v'"
  unfolding good_def mem_step_def by blast

lemma page_step_good: "page_step pool A v v' \<Longrightarrow> good pool v \<Longrightarrow> good pool v'"
  by (rule mem_step_good [OF page_mem_step])

lemma mpage_seen: "mpage (seen v) a va = page_at v a va" "mbyte (seen v) a va = byte_at v a va"
  by (simp_all add: mpage_def page_at_def mbyte_def byte_at_def)

lemma kept_seen: "kept (seen v) a x (seen v') \<longleftrightarrow> kept_byte v a x v'"
  by (simp add: kept_def kept_byte_def mpage_seen)

lemma quiet_seen: "mem_step pool {} v v' \<Longrightarrow> seen v' = seen v"
  using mem_stepD(4) by (simp add: fun_eq_iff)

lemma one_page_seen:
  assumes "page_step pool {slot_of a va} v v'" "page_at v' a va = x"
  shows "seen v' = put_pages (seen v) {slot_of a va} x"
  using put_pages_seen [OF page_mem_step, of pool a "[va]" v v' x] assms by (simp add: page_at_def)

lemma others_seen: "page_step pool ({a} \<times> UNIV) v v' \<Longrightarrow> b \<noteq> a \<Longrightarrow> seen v' b = seen v b"
  using page_step_seen [of pool "{a} \<times> UNIV" v v' b] by (intro ext) simp

lemma load_explained:
  assumes "good pool v" "spaces v a \<noteq> None" "load8 v a va = Some b"
  shows "explains (Loaded a va b) (seen v) (seen v)"
proof -
  obtain H where ok: "vm_ok pool v H UNIV" using assms(1) by (rule goodE)
  have "user_va va" using assms(3) translate_user_va by (auto simp: load8_def split: sum.splits)
  then show ?thesis using load8_byte [OF ok assms(2)] assms(3) by (simp add: mpage_seen)
qed

lemma store_explained:
  assumes "good pool v" "spaces v a \<noteq> None" "store8 v a va b = Some v'"
  shows "good pool v' \<and> explains (Stored a va b) (seen v) (seen v')"
proof -
  obtain H where ok: "vm_ok pool v H UNIV" using assms(1) by (rule goodE)
  obtain p where p: "page_step pool {slot_of a va} v v'" "page_at v a va = Some p" "fst (snd p)"
    "page_at v' a va = Some (with_byte p (va mod 4096) b)"
    using store8_ok(2) [OF ok assms(2,3)] by blast
  show ?thesis using page_step_good [OF p(1) assms(1)] p(2,3) one_page_seen [OF p(1,4)] by (simp add: mpage_seen)
qed

lemma fault_explained:
  assumes "good pool v" "spaces v a \<noteq> None" "data_abort v a va w f = (v', r)"
  shows "good pool v' \<and>
    (if f = Translation_fault \<and> r = Resume then explains (Filled a va) (seen v) (seen v') else seen v' = seen v)"
proof -
  obtain H where ok: "vm_ok pool v H UNIV" "all_anon v" using assms(1) by (rule goodE)
  note d = data_abort_ok [OF ok(1) assms(2) ok(2) assms(3)]
  show ?thesis
  proof (cases "r = Resume")
    case False
    then have "page_step pool {} v v'" using d by simp
    then show ?thesis using False page_step_good assms(1) quiet_seen [OF page_mem_step] by simp
  next
    case True
    then have s: "page_step pool {slot_of a va} v v'" using d by simp
    have same: "seen v' = seen v" if "page_at v' a va = page_at v a va"
      unfolding one_page_seen [OF s that] by (auto simp: put_pages_def page_at_def fun_eq_iff)
    show ?thesis using page_step_good [OF s assms(1)] d True same one_page_seen [OF s]
      by (cases f) (auto simp: mpage_seen)
  qed
qed

lemma copy_out_explained:
  assumes "good pool v" "spaces v a \<noteq> None" "copy_to_user v a p bs = Some (v', r)"
  shows "good pool v' \<and> explains (Copied_out a p bs r) (seen v) (seen v')"
proof -
  obtain H where ok: "vm_ok pool v H UNIV" "all_anon v" using assms(1) by (rule goodE)
  have s: "page_step pool ({a} \<times> UNIV) v v'" "if r = 0 then \<forall>x. user_va x \<longrightarrow>
       (if p \<le> x \<and> x < p + length bs then byte_at v' a x = Some (bs ! (x - p)) else kept_byte v a x v')
     else r = - EFAULT \<and> (\<forall>x. kept_byte v a x v')"
    using copy_to_user_ok [OF ok(1) assms(2) ok(2), of p bs] assms(3) by auto
  show ?thesis using page_step_good [OF s(1) assms(1)] others_seen [OF s(1)] s(2)
    by (auto simp: mpage_seen kept_seen split: if_splits)
qed

lemma exec_explained:
  assumes "good pool v" "spaces v a \<noteq> None" "elf_load_user v dat a argv img = Some (v', r, img')"
  shows "good pool v' \<and> explains (Execed a dat argv r) (seen v) (seen v')"
proof -
  obtain H where ok: "vm_ok pool v H UNIV" using assms(1) by (rule goodE)
  have s: "page_step pool ({a} \<times> UNIV) v v'" using elf_load_step [OF ok assms(2,3)] ..
  have "byte_at v' a x = process_image dat phs argv (byte_at v a) x" if "r = 0" "elf_ok dat phs" "user_va x" for phs x
    using elf_load_image [OF ok assms(2) that(2), of argv img] assms(3) that(1,3) by auto
  moreover have "mbyte (seen v) a = byte_at v a" by (simp add: fun_eq_iff mpage_seen)
  ultimately show ?thesis using page_step_good [OF s assms(1)] others_seen [OF s] by (simp add: mpage_seen)
qed

lemma load_bytes_Some: "load_bytes v a va n = Some bs \<Longrightarrow> length bs = n \<and> (\<forall>k<n. load8 v a (va + k) = Some (bs ! k))"
proof (induction n arbitrary: va bs)
  case (Suc n)
  then obtain b cs where b: "load8 v a va = Some b" "load_bytes v a (va + 1) n = Some cs" "bs = b # cs"
    by (auto simp: Option.bind_eq_Some_conv)
  have "load8 v a (va + k) = Some (bs ! k)" if "k < Suc n" for k
    using Suc.IH [OF b(2)] that b(1,3) by (cases k) auto
  then show ?case using Suc.IH [OF b(2)] b(3) by simp
qed simp

lemma copy_in_explained:
  assumes "good pool v" "spaces v a \<noteq> None" "copy_from_user v a p n = Some (v', r, bs)"
  shows "good pool v' \<and> explains (Copied_in a p bs) (seen v) (seen v')"
proof (cases "range_in_user p n")
  case False
  then show ?thesis using assms by (auto simp: copy_from_user_def kept_def)
next
  case rng: True
  obtain H where ok: "vm_ok pool v H UNIV" "all_anon v" using assms(1) by (rule goodE)
  define v1 where "v1 = (if n > 0 \<and> a \<noteq> 0 then prefault_reads v a (align_down 4096 p) (align_down 4096 (p + n - 1)) else v)"
  have s: "page_step pool ({a} \<times> UNIV) v v1 \<and> (\<forall>x. filled v a x v1)"
    unfolding v1_def using prefault_reads_ok [OF ok(1) assms(2) ok(2)] page_step_refl [OF ok(1)] by simp
  have c: "copy_from_user v a p n = do { bs \<leftarrow> load_bytes v1 a p n; Some (v1, 0, bs) }"
    by (simp only: copy_from_user_def v1_def Let_def rng not_True_eq_False if_False)
  have b: "v' = v1" "load_bytes v1 a p n = Some bs"
    using assms(3) [unfolded c] by (auto simp: Option.bind_eq_Some_conv)
  obtain G where G: "vm_ok pool v1 G UNIV" using s page_stepD by metis
  have "byte_at v1 a (p + k) = Some (bs ! k)" if "k < length bs" for k
    using load_bytes_Some [OF b(2)] that load8_byte [OF G page_step_space [OF conjunct1 [OF s] assms(2)]]
      range_in_user_va [OF rng] by metis
  then show ?thesis
    using page_step_good [OF conjunct1 [OF s] assms(1)] others_seen [OF conjunct1 [OF s]] s
    by (simp add: b(1) mpage_seen kept_seen filled_kept)
qed

lemma brk_explained:
  assumes "good pool v" "spaces v a \<noteq> None" "address_space_set_brk v a n = (v', r)"
  shows "good pool v' \<and> explains (Brk a (heap_brk (asp v a)) (brk_of n) r) (seen v) (seen v')"
proof -
  obtain H where ok: "vm_ok pool v H UNIV" using assms(1) by (rule goodE)
  show ?thesis using set_brk_ok [OF ok assms(2,3)] mem_step_good [OF _ assms(1)] by (auto split: if_splits)
qed

lemma munmap_explained:
  assumes "good pool v" "spaces v a \<noteq> None" "address_space_munmap v a va = Some (v', r)"
  shows "good pool v' \<and> (if r = 0 then explains (Unmapped a (mapped_pages v a va)) (seen v) (seen v') else seen v' = seen v)"
proof -
  obtain H where ok: "vm_ok pool v H UNIV" using assms(1) by (rule goodE)
  show ?thesis using munmap_ok [OF ok assms(2,3)] mem_step_good [OF _ assms(1)] assms(1) by auto
qed

lemma fresh_pointer:
  assumes "own_heap v" "vm_kmalloc v 80 = Some (v', p)" "p \<noteq> 0"
  shows "spaces v p = None"
proof -
  obtain R where R: "heap_live (kheap (kmem (vm_kern v))) R" "dom (spaces v) \<subseteq> fst ` R"
    using assms(1) by (auto simp: own_heap_def)
  obtain h where h: "kmalloc (kheap (kmem (vm_kern v))) 80 = Some (h, p)"
    using assms(2) by (auto simp: vm_kmalloc_def)
  have "p \<notin> fst ` R"
    by (rule ka.alloc_returns [OF R(1), of 80]) (use h assms(3) in auto)
  then show ?thesis using R(2) by blast
qed

lemma create_explained:
  assumes "good pool v" "own_heap v" "address_space_create v = Some (v', a)"
  shows "good pool v' \<and> (if a = 0 then seen v' = seen v else explains (Created a) (seen v) (seen v'))"
proof -
  obtain H where ok: "vm_ok pool v H UNIV" "all_anon v" using assms(1) by (rule goodE)
  have c: "created pool v H v' a"
    by (rule create_ok [OF ok(1) assms(3)]) (rule fresh_pointer [OF assms(2)])
  note c' = c [unfolded created_def]
  have "all_anon v'"
  proof (cases "a = 0")
    case True
    then show ?thesis using c' ok(2) by (simp add: all_anon_def)
  next
    case False
    then show ?thesis using c' ok(2) by (auto simp: all_anon_def new_space_def split: if_splits)
  qed
  moreover have "seen v' a = (\<lambda>_ _. None)" if "a \<noteq> 0" using c' that seen_None by (simp add: fun_eq_iff)
  moreover have "seen v a = (\<lambda>_ _. None)" if "a \<noteq> 0" using c' that seen_no_space by simp
  moreover have "seen v' b = seen v b" if "b \<noteq> a \<or> a = 0" for b using c' that by blast
  ultimately show ?thesis using c' unfolding good_def by (auto simp: fun_eq_iff) (metis+)
qed

lemma fork_explained:
  assumes "good pool v" "own_heap v" "spaces v p \<noteq> None" "can_share v p" "address_space_clone_cow v p = Some (v', c)"
  shows "good pool v' \<and> (if c = 0 then seen v' = seen v else explains (Forked p c) (seen v) (seen v'))"
proof -
  obtain H where ok: "vm_ok pool v H UNIV" "all_anon v" using assms(1) by (rule goodE)
  have few: "H q < 65535" if f: "frame_of v p (Pg i j) = Some q" for i j q
  proof -
    have "pmem_refcount_get (vm_rc v) q < 65535" using assms(4) f by (auto simp: can_share_def)
    then have "unat (pmem_refcount_get (vm_rc v) q) < 65535" by (simp add: word_less_nat_alt)
    then show ?thesis using vm_ok_count [OF ok(1) UNIV_I f] by (auto simp: count_ok_def)
  qed
  have fk: "forked pool v p v' c"
    by (rule fork_ok [OF ok(1) assms(3) fresh_pointer [OF assms(2)] few assms(5)])
  note f = fk [unfolded forked_def]
  have "all_anon v'" unfolding all_anon_def
  proof (intro allI impI, elim conjE)
    fix b s y assume s: "spaces v' b = Some s" "y \<in> set (vmas s)"
    show "v_kind (snd y) = VMA_ANON"
    proof (cases "b = c \<and> c \<noteq> 0")
      case True
      then show ?thesis using f s by auto
    next
      case False
      then obtain n where "spaces v' b = map_option (\<lambda>s. s\<lparr>user_pages_alloced := n\<rparr>) (spaces v b)" using f by blast
      then obtain t where "spaces v b = Some t" "vmas s = vmas t" using s(1) by (cases "spaces v b") auto
      then show ?thesis using ok(2) [unfolded all_anon_def, rule_format, of b t y] s(2) by simp
    qed
  qed
  moreover have "seen v c = (\<lambda>_ _. None)" if "c \<noteq> 0" using f that seen_no_space by simp
  ultimately show ?thesis using f unfolding good_def by (auto simp: fun_eq_iff)
qed

lemma share_explained:
  assumes "good pool v" "spaces v a \<noteq> None"
  shows "good pool (address_space_share v a) \<and> seen (address_space_share v a) = seen v"
proof -
  obtain H where ok: "vm_ok pool v H UNIV" using assms(1) by (rule goodE)
  have "mem_step pool {} v (upd_as v a (\<lambda>s. s\<lparr>as_refcount := as_refcount s + 1\<rparr>))"
    by (rule upd_as_step [OF ok assms(2)]) (use space_anon [OF _ assms(2)] in simp_all)
  then have "mem_step pool {} v (address_space_share v a)"
    using mem_step_refl [OF ok] by (simp add: address_space_share_def)
  then show ?thesis using mem_step_good [OF _ assms(1)] quiet_seen by blast
qed

lemma destroy_explained:
  assumes "good pool v" "spaces v a \<noteq> None" "address_space_destroy v a = Some v'"
  shows "good pool v' \<and>
    (if as_refcount (asp v a) = 1 then explains (Ended a) (seen v) (seen v') else seen v' = seen v)"
proof -
  obtain H where ok: "vm_ok pool v H UNIV" "all_anon v" using assms(1) by (rule goodE)
  note d = destroy_ok [OF ok(1) assms(2,3), unfolded dropped_def Let_def]
  let ?n = "as_refcount (asp v a) - 1"
  have n: "?n > 0 \<longleftrightarrow> as_refcount (asp v a) \<noteq> 1" by (simp add: word_neq_0_conv [symmetric])
  have "all_anon v'" unfolding all_anon_def
  proof (intro allI impI, elim conjE)
    fix b s y assume s: "spaces v' b = Some s" "y \<in> set (vmas s)"
    show "v_kind (snd y) = VMA_ANON"
    proof (cases "b = a")
      case True
      then have "vmas s = vmas (asp v a)" using d s(1) by (auto split: if_splits)
      then show ?thesis using space_anon [OF ok(2) assms(2)] s(2) by simp
    next
      case False
      then have "spaces v b = Some s" using d s(1) by simp
      then show ?thesis using ok(2) [unfolded all_anon_def, rule_format, of b s y] s(2) by simp
    qed
  qed
  moreover have "seen v' = (if as_refcount (asp v a) = 1 then (seen v)(a := \<lambda>_ _. None) else seen v)"
  proof
    fix b show "seen v' b = (if as_refcount (asp v a) = 1 then (seen v)(a := \<lambda>_ _. None) else seen v) b"
      using d n seen_no_space [of v' a] by (cases "b = a") (auto split: if_splits)
  qed
  ultimately show ?thesis using d by (auto simp: good_def)
qed

lemma take_explained:
  assumes "good pool v" "vm_alloc_page v = (v', pa)"
  shows "good pool v' \<and> seen v' = seen v"
proof -
  obtain H where ok: "vm_ok pool v H UNIV" using assms(1) by (rule goodE)
  show ?thesis
  proof (cases "pa = 0")
    case True
    then show ?thesis using alloc_page_fails [OF _ ok] assms by simp
  next
    case False
    note p = alloc_page_ok [OF ok assms(2) False]
    have "page_step pool {} v v'"
      unfolding page_step_def using p(1) agree_changes [OF vm_ok_refs(3) [OF ok] p(2)] counts_only_same [OF p(9,11)]
      by (auto simp: p(9))
    then show ?thesis using page_step_good [OF _ assms(1)] quiet_seen [OF page_mem_step] by blast
  qed
qed

lemma run_explained:
  assumes "vm_run u es v" "good pool u"
  shows "good pool v \<and> explained (seen u) es (seen v)"
  using assms
proof (induction rule: vm_run.induct)
  case (run_start u)
  then show ?case by (simp add: explained_start)
next
  case (run_load u es v a va b)
  then show ?case using load_explained explained_next by blast
next
  case (run_store u es v a va b v')
  then show ?case using store_explained explained_next by blast
next
  case (run_fault u es v a va w f v' r)
  then show ?case using fault_explained [OF _ run_fault.hyps(2,4)] explained_next by (auto split: if_splits)
next
  case (run_copy_out u es v a p bs v' r)
  then show ?case using copy_out_explained explained_next by blast
next
  case (run_copy_in u es v a p n v' r bs)
  then show ?case using copy_in_explained explained_next by blast
next
  case (run_brk u es v a n v' r)
  then show ?case using brk_explained explained_next by blast
next
  case (run_mmap u es v a pages prot v' va)
  then obtain H where "vm_ok pool v H UNIV" using goodE by metis
  from mmap_anon_ok [OF this run_mmap.hyps(2,3)] show ?case
    using run_mmap mem_step_good quiet_seen by metis
next
  case (run_munmap u es v a va v' r)
  then show ?case using munmap_explained [OF _ run_munmap.hyps(2,3)] explained_next by (auto split: if_splits)
next
  case (run_create u es v v' a)
  then show ?case using create_explained [OF _ run_create.hyps(2,3)] explained_next by (auto split: if_splits)
next
  case (run_fork u es v p v' c)
  then show ?case using fork_explained [OF _ run_fork.hyps(2-5)] explained_next by (auto split: if_splits)
next
  case (run_exec u es v a dat argv img v' r img')
  then show ?case using exec_explained explained_next by blast
next
  case (run_share u es v a)
  then show ?case using share_explained by metis
next
  case (run_destroy u es v a v')
  then show ?case using destroy_explained [OF _ run_destroy.hyps(2,3)] explained_next by (auto split: if_splits)
next
  case (run_take u es v v' pa)
  then show ?case using take_explained by metis
next
  case (run_kernel u es v k)
  then obtain H where "vm_ok pool v H UNIV" using goodE by metis
  then have "mem_step pool {} v (v\<lparr>vm_kern := k\<rparr>)" by (rule heap_step) simp_all
  then show ?case using run_kernel mem_step_good quiet_seen by metis
qed

end
