(* ===== verification/UserProps.thy ===== *)
theory UserProps
  imports UserRun
begin

text \<open>
  The properties of the memory of processes: the whole virtual memory system refines private memories,
  and the copies of the kernel are exact; with the state after a fork on which both are tried.
\<close>

section \<open>An example\<close>

text \<open>
  Two processes after a fork: the tables of the first in the frames from \<open>0x1000\<close>, of the second
  from \<open>0x4000\<close>, their one page shared in \<open>0x7000\<close>, one frame free at \<open>0x8000\<close>.
\<close>

definition ex_mem :: "nat \<Rightarrow> nat" where
  "ex_mem = (\<lambda>_. 0)(0x2000 := unat (page_bits 0x3000 OR DESC_VALID OR DESC_TABLE),
     0x5000 := unat (page_bits 0x6000 OR DESC_VALID OR DESC_TABLE),
     0x3000 := unat (leaf 0x7000 False False True), 0x6000 := unat (leaf 0x7000 False False True))"

definition ex_vm :: vm where
  "ex_vm = \<lparr>vm_kern = undefined,
     vm_cache = \<lparr>g_slots = [], pc_clock = 0, pc_inited = True, pc_hits = 0, pc_misses = 0, pc_evicts = 0,
       pc_pmem = \<lparr>free_head = 0x8000, total_pages = 8, free_pages = 1, mem = ex_mem\<rparr>\<rparr>,
     vm_rc = \<lparr>g_rc = Some [0, 0, 0, 0, 0, 0, 2, 0], g_base = 0x1000, g_npages = 8\<rparr>,
     l1_pgtable = [], spaces = [64 \<mapsto> new_space 0x1000 0x2000, 128 \<mapsto> new_space 0x4000 0x5000]\<rparr>"

definition ex_pool :: "nat set" where
  "ex_pool = {0x1000, 0x2000, 0x3000, 0x4000, 0x5000, 0x6000, 0x7000, 0x8000}"

definition ex_owners :: "nat \<Rightarrow> nat" where
  "ex_owners pa = (if pa \<in> ex_pool then if pa = 0x7000 then 2 else if pa = 0x8000 then 0 else 1 else 0)"

definition ex_frame :: "nat \<Rightarrow> tref \<Rightarrow> nat option" where
  "ex_frame a r =
     (if a = 64 \<or> a = 128 then
        let b = (if a = 64 then 0x1000 else 0x4000) in
        (case r of L1T \<Rightarrow> Some b | L2T \<Rightarrow> Some (b + 0x1000) | L3T i \<Rightarrow> if i = 0 then Some (b + 0x2000) else None
         | Pg i j \<Rightarrow> if i = 0 \<and> j = 0 then Some 0x7000 else None)
      else None)"

lemma ex_frame_addr: "frame_addr 0x3000" "frame_addr 0x6000" "frame_addr 0x7000"
  by (simp_all add: frame_addr_def)

lemma ex_l2e:
  assumes "i < 512"
  shows "l2e ex_vm 64 i = (if i = 0 then page_bits 0x3000 OR DESC_VALID OR DESC_TABLE else 0)"
    "l2e ex_vm 128 i = (if i = 0 then page_bits 0x6000 OR DESC_VALID OR DESC_TABLE else 0)"
  using assms by (simp_all add: l2e_def rd64_def ex_vm_def ex_mem_def asp_def new_space_def)

lemma ex_entry:
  assumes "a = 64 \<or> a = 128" "i < 512" "j < 512"
  shows "entry ex_vm a i j = (if i = 0 \<and> j = 0 then leaf 0x7000 False False True else 0)"
proof -
  have "rd64 ex_vm (0x3000 + 8 * j) = (if j = 0 then leaf 0x7000 False False True else 0)"
    "rd64 ex_vm (0x6000 + 8 * j) = (if j = 0 then leaf 0x7000 False False True else 0)"
    using assms(3) by (simp_all add: rd64_def ex_vm_def ex_mem_def)
  then show ?thesis
    using assms ex_l2e [OF assms(2)] table_desc [OF ex_frame_addr(1)] table_desc [OF ex_frame_addr(2)]
    by (auto simp: entry_def)
qed

lemma ex_frame_of: "frame_of ex_vm a r = ex_frame a r"
proof (cases "a = 64 \<or> a = 128")
  case False
  then show ?thesis by (cases r) (auto simp: frame_of.simps ex_frame_def ex_vm_def)
next
  case True
  have s: "spaces ex_vm a \<noteq> None" using True by (auto simp: ex_vm_def)
  note t = table_desc [OF ex_frame_addr(1)] table_desc [OF ex_frame_addr(2)]
  note l = leaf_fields [OF ex_frame_addr(3), of False False True]
  show ?thesis
  proof (cases r)
    case (L3T i)
    then show ?thesis using True s t ex_l2e [of i] by (auto simp: frame_of.simps ex_frame_def)
  next
    case (Pg i j)
    then show ?thesis using True s l ex_entry [OF True, of i j] by (auto simp: frame_of.simps ex_frame_def)
  qed (use True in \<open>auto simp: frame_of.simps ex_frame_def ex_vm_def asp_def new_space_def\<close>)
qed

definition ex_all :: "(nat \<times> tref) list" where
  "ex_all = [(64, L1T), (64, L2T), (64, L3T 0), (64, Pg 0 0), (128, L1T), (128, L2T), (128, L3T 0), (128, Pg 0 0)]"

lemma ex_frame_all: "ex_frame a r = Some q \<Longrightarrow> (a, r) \<in> set ex_all"
  by (cases r) (auto simp: ex_frame_def ex_all_def Let_def split: if_splits)

lemma ex_refs: "card (refs_to ex_vm L q) \<le> ex_owners q"
proof -
  let ?f = "filter (\<lambda>(a, r). ex_frame a r = Some q) ex_all"
  have "refs_to ex_vm L q \<subseteq> set ?f" using ex_frame_all by (auto simp: refs_to_def ex_frame_of)
  then have "card (refs_to ex_vm L q) \<le> length ?f"
    using card_length [of ?f] card_mono [OF finite_set, of "refs_to ex_vm L q" ?f] by linarith
  also have "\<dots> \<le> ex_owners q"
    by (simp add: ex_all_def ex_frame_def ex_owners_def ex_pool_def)
  finally show ?thesis .
qed

lemma ex_ok: "vm_ok ex_pool ex_vm ex_owners UNIV" "all_anon ex_vm"
proof -
  show "all_anon ex_vm" by (auto simp: all_anon_def ex_vm_def new_space_def split: if_splits)
  have "frames_ok ex_pool (vm_pmem ex_vm) (vm_rc ex_vm) ex_owners [0x8000]"
    unfolding frames_ok_def
    by (auto simp: ex_pool_def ex_owners_def ex_vm_def ex_mem_def pmem_rep_def rc_ok_def page_ok_def pa_in_range_def
        pmem_refcount_get_def pa_to_idx_def count_ok_def)
  moreover have "refs_ok ex_vm ex_owners UNIV"
    unfolding refs_ok_def
  proof (intro conjI allI impI; (elim conjE)?)
    show "card (refs_to ex_vm UNIV q) \<le> ex_owners q" for q by (rule ex_refs)
    show "ex_owners q = 1" if "frame_of ex_vm a r = Some q" "exclusive ex_vm a r" for a r q
    proof -
      have m: "(a, r) \<in> set ex_all" using ex_frame_all that(1) by (simp add: ex_frame_of)
      have "r \<noteq> Pg 0 0" using that(2) m ex_entry [of a 0 0] leaf_fields(7) [OF ex_frame_addr(3)] by (auto simp: ex_all_def)
      then show ?thesis using that(1) m
        by (auto simp: ex_frame_of ex_all_def ex_frame_def ex_owners_def ex_pool_def)
    qed
    show "i1 = i2" "j1 = j2"
      if "frame_of ex_vm a (Pg i1 j1) = Some q" "frame_of ex_vm a (Pg i2 j2) = Some q" for a i1 i2 j1 j2 q
      using that by (auto simp: ex_frame_of ex_frame_def split: if_splits)
    show "has (l2e ex_vm a i) DESC_TABLE" if "frame_of ex_vm a (L3T i) = Some q" for a i q
      using that ex_l2e [of 0] table_desc(3) [OF ex_frame_addr(1)] table_desc(3) [OF ex_frame_addr(2)]
      by (auto simp: ex_frame_of ex_frame_def split: if_splits)
    show "plain (entry ex_vm a i j)" if "frame_of ex_vm a (Pg i j) = Some q" for a i j q
      using that ex_entry [of a 0 0] leaf_fields [OF ex_frame_addr(3), of False False True]
      by (auto simp: ex_frame_of ex_frame_def plain_def split: if_splits)
  qed
  ultimately show "vm_ok ex_pool ex_vm ex_owners UNIV"
    by (auto simp: vm_ok_def ex_pool_def ex_vm_def rooted_def)
qed

lemma ex_va [simp]: "L2_INDEX 0x1000000000 = 0" "L3_INDEX 0x1000000000 = 0" "user_va 0x1000000000"
  "align_down 4096 0x1000000000 = 0x1000000000"
  by (simp_all add: L2_INDEX_def L3_INDEX_def user_va_def align_down_def)

lemma ex_spaces: "spaces ex_vm 64 \<noteq> None" "spaces ex_vm 128 \<noteq> None"
  by (simp_all add: ex_vm_def)

lemma ex_translate: "translate ex_vm 64 0x1000000000 True = Inr Permission_fault"
  using ex_entry [of 64 0 0] leaf_fields(7) [OF ex_frame_addr(3)]
  by (simp add: translate_frame [OF ex_ok(1) ex_spaces(1)] ex_frame_of ex_frame_def)

lemma ex_cow: "snd (address_space_handle_cow_fault ex_vm 64 0x1000000000) = 0"
proof -
  note l = leaf_fields [OF ex_frame_addr(3), of False False True]
  have p: "l3_entry_lookup ex_vm 64 (align_down 4096 0x1000000000) = Some 0x3000"
    using ex_l2e(1) [of 0] table_desc [OF ex_frame_addr(1)] by (simp add: l3_entry_lookup_def l2e_def Let_def)
  have e: "rd64 ex_vm 0x3000 = leaf 0x7000 False False True" by (simp add: rd64_def ex_vm_def ex_mem_def)
  have rc: "pmem_refcount_get (vm_rc ex_vm) 0x7000 = 2"
    by (simp add: ex_vm_def pmem_refcount_get_def pa_in_range_def pa_to_idx_def)
  have al: "snd (vm_alloc_page ex_vm) = 0x8000"
    by (simp add: vm_alloc_page_def pmem_alloc_page_def ex_vm_def Let_def)
  show ?thesis
    using al by (subst cow_fault_eq [OF _ _ _ p e]) (simp_all add: l rc Let_def split_beta)
qed

lemma ex_abort: "\<exists>v. data_abort ex_vm 64 0x1000000000 True Permission_fault = (v, Resume)"
proof -
  have "\<not> has (leaf 0x7000 False False True) DESC_SW_GUARD"
    unfolding leaf_def by (subst desc_fields(2) [OF ex_frame_addr(3) leaf_flags(1) flag_constants(7)]) (simp add: leaf_flags_def page_attrs_def has_def desc_bits)
  moreover have "address_space_lookup_pte ex_vm 64 0x1000000000 = leaf 0x7000 False False True"
    using ex_entry [of 64 0 0] by (simp add: lookup_pte_entry [OF ex_ok(1) ex_spaces(1)])
  moreover obtain v where "address_space_handle_cow_fault ex_vm 64 0x1000000000 = (v, 0)"
    using ex_cow by (metis prod.collapse)
  ultimately show ?thesis by (simp add: data_abort_def)
qed

section \<open>The properties\<close>

text \<open>C1. Whatever the processes and the kernel do, in any order, every process has a memory of its own:
  the loads, stores, copies, faults, break and mapping calls, forks, program loads and ends of all of them are those of a
  machine without frames, tables or sharing in which a fork copies the memory of the parent as a whole and
  a store changes one byte of the memory of the process that makes it.\<close>

theorem processes_have_private_memory:
  assumes "vm_run u es v" "vm_ok pool u H UNIV" "all_anon u"
  shows "explained (seen u) es (seen v)"
  using run_explained [OF assms(1), of pool] assms(2,3) by (auto simp: good_def)

text \<open>After the fork the first process stores a byte; the second still sees the old one.\<close>

lemma ex_run: "\<exists>v. vm_run ex_vm [Stored 64 0x1000000000 7] v"
proof -
  obtain v1 where v1: "data_abort ex_vm 64 0x1000000000 True Permission_fault = (v1, Resume)" using ex_abort ..
  note d = data_abort_ok [OF ex_ok(1) ex_spaces(1) ex_ok(2) v1]
  have a1: "spaces v1 64 \<noteq> None" using d page_step_space [OF _ ex_spaces(1)] by blast
  have "vm_run ex_vm [] v1"
    using vm_run.run_fault [OF vm_run.run_start ex_spaces(1) ex_translate v1] by simp
  moreover obtain v2 where "store8 v1 64 0x1000000000 7 = Some v2" using d by (auto simp: store8_def)
  ultimately have "vm_run ex_vm ([] @ [Stored 64 0x1000000000 7]) v2" by (rule vm_run.run_store [OF _ a1])
  then show ?thesis by auto
qed

theorem processes_have_private_memory_witness:
  "\<exists>v. explained (seen ex_vm) [Stored 64 0x1000000000 7] (seen v) \<and>
    mbyte (seen v) 64 0x1000000000 = Some 7 \<and> mbyte (seen v) 128 0x1000000000 = Some 0"
proof -
  obtain v where "vm_run ex_vm [Stored 64 0x1000000000 7] v" using ex_run ..
  note e = processes_have_private_memory [OF this ex_ok]
  then obtain p where "mpage (seen ex_vm) 64 0x1000000000 = Some p"
    "seen v = put_pages (seen ex_vm) {slot_of 64 0x1000000000} (Some (with_byte p 0 7))"
    using explained_snoc [of "seen ex_vm" "[]"] by (auto simp: explained_nil)
  moreover have "rd64 ex_vm 0x7000 = 0" by (simp add: rd64_def ex_vm_def ex_mem_def)
  then have "mbyte (seen ex_vm) 128 0x1000000000 = Some 0"
    by (simp add: mbyte_def mpage_def seen_def ex_frame_of ex_frame_def byte_of_def frame_words_def)
  ultimately have "mbyte (seen v) 64 0x1000000000 = Some 7" "mbyte (seen v) 128 0x1000000000 = Some 0"
    by (simp_all add: mbyte_def mpage_def put_pages_def byte_of_with_byte)
  then show ?thesis using e by blast
qed

text \<open>C8. \<open>copy_to_user\<close> never faults in the kernel, whatever address a process passes; when it reports
  success \<open>copy_from_user\<close> reads the bytes back, and otherwise it reports \<open>EFAULT\<close> and no byte the
  process had has changed.  Other processes see nothing of it.\<close>

theorem copy_to_user_round_trip:
  assumes "vm_ok pool v H UNIV" "all_anon v" "spaces v a \<noteq> None"
  shows "\<exists>v' r. copy_to_user v a p bs = Some (v', r) \<and> (\<forall>b. b \<noteq> a \<longrightarrow> seen v' b = seen v b) \<and>
    (if r = 0 then \<exists>w. copy_from_user v' a p (length bs) = Some (w, 0, bs)
     else r = - EFAULT \<and> (\<forall>x c. mbyte (seen v) a x = Some c \<longrightarrow> mbyte (seen v') a x = Some c))"
proof -
  obtain v' r where c: "copy_to_user v a p bs = Some (v', r)" "page_step pool ({a} \<times> UNIV) v v'"
    "if r = 0 then \<forall>x. user_va x \<longrightarrow>
       (if p \<le> x \<and> x < p + length bs then byte_at v' a x = Some (bs ! (x - p)) else kept_byte v a x v')
     else r = - EFAULT \<and> (\<forall>x. kept_byte v a x v')"
    using copy_to_user_ok [OF assms(1,3,2)] by blast
  obtain G where G: "vm_ok pool v' G UNIV" using c(2) page_stepD by metis
  have rng: "range_in_user p (length bs)" if "r = 0" using c(1) that by (auto simp: copy_to_user_def split: if_splits)
  have "\<exists>w. copy_from_user v' a p (length bs) = Some (w, 0, bs)" if r: "r = 0"
  proof -
    have "\<forall>k<length bs. byte_at v' a (p + k) = Some (bs ! k)"
      using c(3) r range_in_user_va [OF rng [OF r]] by auto
    from copy_from_user_ok [OF G page_step_space [OF c(2) assms(3)] page_step_anon [OF c(2) assms(2)] rng [OF r] this]
    show ?thesis by (auto simp: map_nth)
  qed
  moreover have "byte_at v' a x = Some c" if "r \<noteq> 0" "byte_at v a x = Some c" for x c
    using c(3) that unfolding kept_byte_def by (metis option.distinct(1))
  ultimately show ?thesis using c(1,3) others_seen [OF c(2)] by (auto simp: mpage_seen split: if_splits)
qed

lemma ex_prefault: "snd (prefault_writes ex_vm 64 0x1000000000 0x1000000000) = 0"
proof -
  have a: "asp ex_vm 64 = new_space 0x1000 0x2000" by (simp add: asp_def ex_vm_def)
  have m: "address_space_handle_mmap_fault ex_vm 64 0x1000000000 True = (ex_vm, -1)"
    by (simp add: address_space_handle_mmap_fault_def a new_space_def)
  note l = leaf_fields [OF ex_frame_addr(3), of False False True]
  have "l3_entry_lookup ex_vm 64 0x1000000000 = Some 0x3000"
    using ex_l2e(1) [of 0] table_desc [OF ex_frame_addr(1)] by (simp add: l3_entry_lookup_def l2e_def Let_def)
  moreover have "rd64 ex_vm 0x3000 = leaf 0x7000 False False True" by (simp add: rd64_def ex_vm_def ex_mem_def)
  ultimately have "address_space_make_writable ex_vm 64 0x1000000000 = address_space_handle_cow_fault ex_vm 64 0x1000000000"
    by (simp add: address_space_make_writable_def l)
  then have "snd (prefault_user_write ex_vm 64 0x1000000000) = 0" by (simp add: prefault_user_write_def m ex_cow)
  then show ?thesis by (subst prefault_writes.simps) (simp add: split_beta prefault_writes.simps [of _ _ "0x1000001000"])
qed

theorem copy_to_user_round_trip_witness:
  "\<exists>v' w. copy_to_user ex_vm 64 0x1000000000 [1, 2, 3] = Some (v', 0) \<and>
    (\<forall>b. b \<noteq> 64 \<longrightarrow> seen v' b = seen ex_vm b) \<and>
    copy_from_user v' 64 0x1000000000 (length [1, 2, 3 :: byte]) = Some (w, 0, [1, 2, 3])"
proof -
  obtain v' r where c: "copy_to_user ex_vm 64 0x1000000000 [1, 2, 3] = Some (v', r)"
    "\<forall>b. b \<noteq> 64 \<longrightarrow> seen v' b = seen ex_vm b"
    "if r = 0 then \<exists>w. copy_from_user v' 64 0x1000000000 (length [1, 2, 3 :: byte]) = Some (w, 0, [1, 2, 3])
     else r = - EFAULT \<and> (\<forall>x c. mbyte (seen ex_vm) 64 x = Some c \<longrightarrow> mbyte (seen v') 64 x = Some c)"
    using copy_to_user_round_trip [OF ex_ok ex_spaces(1), of "0x1000000000" "[1, 2, 3]"]
    by (elim exE conjE) (rule that)
  obtain v1 where p: "prefault_writes ex_vm 64 0x1000000000 0x1000000000 = (v1, 0)"
    using ex_prefault by (metis prod.collapse)
  have "range_in_user 0x1000000000 (Suc (Suc (Suc 0)))" by (simp add: range_in_user_def add64_def)
  moreover have "align_down 4096 0x1000000002 = 0x1000000000" by (simp add: align_down_def)
  ultimately have e: "copy_to_user ex_vm 64 0x1000000000 [1, 2, 3] =
      do { v2 \<leftarrow> store_bytes v1 64 0x1000000000 [1, 2, 3]; Some (v2, 0) }"
    by (simp add: copy_to_user_def p del: store_bytes.simps)
  have "r = 0" using c(1) [unfolded e] by (auto simp: Option.bind_eq_Some_conv simp del: store_bytes.simps)
  then show ?thesis using c by auto
qed

end
