(* ===== verification/ElfProps.thy ===== *)
theory ElfProps
  imports UserRun
begin

text \<open>
  The properties of the program loader, with a file and a machine on which they are tried: one empty
  address space, 38 free frames.
\<close>

section \<open>An example\<close>

definition ex_elf :: "byte list" where
  "ex_elf =
     [0x7F, 0x45, 0x4C, 0x46, 2, 1, 1, 0, 0, 0, 0, 0, 0, 0, 0, 0] @
     [2, 0, 183, 0, 1, 0, 0, 0] @ [0, 0, 0, 0, 16, 0, 0, 0] @ [64, 0, 0, 0, 0, 0, 0, 0] @ [0, 0, 0, 0, 0, 0, 0, 0] @
     [0, 0, 0, 0, 64, 0, 56, 0, 1, 0, 0, 0, 0, 0, 0, 0] @
     [1, 0, 0, 0, 7, 0, 0, 0] @ [120, 0, 0, 0, 0, 0, 0, 0] @ [0, 0, 0, 0, 16, 0, 0, 0] @ [0, 0, 0, 0, 16, 0, 0, 0] @
     [4, 0, 0, 0, 0, 0, 0, 0] @ [8, 0, 0, 0, 0, 0, 0, 0] @ [0, 16, 0, 0, 0, 0, 0, 0] @ [1, 2, 3, 4]"

definition ex_phdr :: elf64_phdr where
  "ex_phdr = \<lparr>p_offset = 120, p_vaddr = 0x1000000000, p_filesz = 4, p_memsz = 8\<rparr>"

lemma ex_elf_length: "length ex_elf = 124"
  by (simp add: ex_elf_def)

lemma ex_elf_fields:
  "rd_le ex_elf 16 2 = Some 2" "rd_le ex_elf 18 2 = Some 183" "rd_le ex_elf 24 8 = Some 0x1000000000"
  "rd_le ex_elf 32 8 = Some 64" "rd_le ex_elf 54 2 = Some 56" "rd_le ex_elf 56 2 = Some 1"
  "rd_le ex_elf 64 4 = Some 1" "rd_le ex_elf 72 8 = Some 120" "rd_le ex_elf 80 8 = Some 0x1000000000"
  "rd_le ex_elf 96 8 = Some 4" "rd_le ex_elf 104 8 = Some 8"
  by (simp_all add: rd_le_def ex_elf_length) (simp_all add: ex_elf_def)

lemma ex_elf_header: "elf_header_ok ex_elf"
  by (simp add: elf_header_ok_def ex_elf_fields ex_elf_length) (simp add: ex_elf_def)

lemma ex_elf_segments: "program_segments ex_elf = Some [ex_phdr]"
  by (simp add: program_segments_def ex_elf_fields phdr_at_def ex_phdr_def add64_def Let_def)

lemma ex_phdr_ok: "segment_ok ex_elf ex_phdr" "seg_pages ex_phdr = 1"
  by (simp_all add: segment_ok_def ex_phdr_def ex_elf_length seg_pages_def seg_hi_def seg_lo_def align_down_def)

lemma ex_elf_ok: "elf_ok ex_elf [ex_phdr]"
  by (simp add: elf_ok_def ex_elf_header ex_elf_segments ex_phdr_ok)

text \<open>The machine: the two tables of the space in the first frames, the others free.\<close>

definition ex_free :: "nat list" where
  "ex_free = map (\<lambda>i. 0x3000 + 0x1000 * i) [0..<38]"

definition ex_next :: "nat \<Rightarrow> nat" where
  "ex_next x = (if 0x3000 \<le> x \<and> x < 0x28000 \<and> x mod 0x1000 = 0 then x + 0x1000 else 0)"

definition ex_new :: vm where
  "ex_new = \<lparr>vm_kern = undefined,
     vm_cache = \<lparr>g_slots = [], pc_clock = 0, pc_inited = True, pc_hits = 0, pc_misses = 0, pc_evicts = 0,
       pc_pmem = \<lparr>free_head = 0x3000, total_pages = 40, free_pages = 38, mem = ex_next\<rparr>\<rparr>,
     vm_rc = \<lparr>g_rc = Some (replicate 40 0), g_base = 0x1000, g_npages = 40\<rparr>,
     l1_pgtable = [], spaces = [64 \<mapsto> new_space 0x1000 0x2000]\<rparr>"

definition new_pool :: "nat set" where
  "new_pool = (\<lambda>i. 0x1000 + 0x1000 * i) ` {..<40}"

definition new_owners :: "nat \<Rightarrow> nat" where
  "new_owners pa = (if pa = 0x1000 \<or> pa = 0x2000 then 1 else 0)"

lemma new_frame_of: "frame_of ex_new a r = (if a = 64 then (case r of L1T \<Rightarrow> Some 0x1000 | L2T \<Rightarrow> Some 0x2000 | _ \<Rightarrow> None) else None)"
proof -
  have "rd64 ex_new (0x2000 + 8 * i) = 0" if "i < 512" for i using that by (auto simp: rd64_def ex_new_def ex_next_def)
  then have "l2e ex_new 64 i = 0" if "i < 512" for i
    using that by (simp add: l2e_def asp_def ex_new_def new_space_def)
  then show ?thesis
    by (cases r) (auto simp: frame_of.simps ex_new_def asp_def new_space_def entry_def)
qed

lemma new_linked: "k \<le> 38 \<Longrightarrow> linked ex_next (if k = 0 then 0 else 0x29000 - 0x1000 * k) (map (\<lambda>i. 0x3000 + 0x1000 * i) [38 - k..<38])"
proof (induction k)
  case (Suc k)
  let ?x = "0x29000 - 0x1000 * Suc k"
  have l: "[38 - Suc k..<38] = (38 - Suc k) # [38 - k..<38]"
  proof -
    have "Suc (38 - Suc k) = 38 - k" using Suc.prems by simp
    then show ?thesis using upt_conv_Cons [of "38 - Suc k" 38] by simp
  qed
  have x: "0x3000 + 0x1000 * (38 - Suc k) = ?x" "?x \<noteq> 0" using Suc.prems by simp_all
  have "?x = 4096 * (41 - Suc k)" using Suc.prems by simp
  then have "?x mod 4096 = 0" by (simp only: mod_mult_self1_is_0)
  then have "ex_next ?x = (if k = 0 then 0 else 0x29000 - 0x1000 * k)" using Suc.prems by (auto simp: ex_next_def)
  then show ?case using Suc x unfolding l by simp
qed simp

lemma new_frame_cases:
  "frame_of ex_new a r = Some pa \<Longrightarrow> a = 64 \<and> (r = L1T \<and> pa = 0x1000 \<or> r = L2T \<and> pa = 0x2000)"
  by (cases r) (auto simp only: new_frame_of option.inject option.distinct tref.simps split: if_splits)

lemma new_frames: "frames_ok new_pool (vm_pmem ex_new) (vm_rc ex_new) new_owners ex_free"
  unfolding frames_ok_def
proof (intro conjI)
  have "linked ex_next 0x3000 ex_free" using new_linked [of 38] by (simp add: ex_free_def)
  then show "pmem_rep (vm_pmem ex_new) ex_free"
    by (auto simp: pmem_rep_def ex_new_def ex_free_def page_ok_def distinct_map inj_on_def)
  show "set ex_free = {pa \<in> new_pool. new_owners pa = 0}"
  proof (intro set_eqI iffI)
    fix pa assume "pa \<in> {pa \<in> new_pool. new_owners pa = 0}"
    then obtain i where i: "i < 40" "pa = 0x1000 + 0x1000 * i" "i \<noteq> 0" "i \<noteq> 1"
      by (auto simp: new_pool_def new_owners_def split: if_splits)
    then obtain j where "i = j + 2" by (metis le_Suc_ex One_nat_def Suc_leI add.commute less_2_cases not_less)
    then show "pa \<in> set ex_free" using i(1,2) by (auto simp: ex_free_def)
  next
    fix pa assume "pa \<in> set ex_free"
    then obtain i where "i < 38" "pa = 0x3000 + 0x1000 * i" by (auto simp: ex_free_def)
    then have "i + 2 < 40" "pa = 0x1000 + 0x1000 * (i + 2)" "new_owners pa = 0" by (simp_all add: new_owners_def)
    then show "pa \<in> {pa \<in> new_pool. new_owners pa = 0}" unfolding new_pool_def by blast
  qed
  show "\<forall>pa\<in>new_pool. page_ok pa \<and> pa_in_range (vm_rc ex_new) pa \<and>
      count_ok (pmem_refcount_get (vm_rc ex_new) pa) (new_owners pa)"
    by (auto simp: new_pool_def page_ok_def pa_in_range_def pmem_refcount_get_def pa_to_idx_def ex_new_def count_ok_def
        new_owners_def)
qed (auto simp: new_pool_def ex_new_def rc_ok_def new_owners_def image_iff)

lemma new_ok: "vm_ok new_pool ex_new new_owners UNIV" "spaces ex_new 64 \<noteq> None" "free_count ex_new = 38"
proof -
  have "card (refs_to ex_new UNIV pa) \<le> new_owners pa" for pa
  proof -
    let ?S = "if pa = 0x1000 then {(64 :: nat, L1T)} else if pa = 0x2000 then {(64, L2T)} else {}"
    have "refs_to ex_new UNIV pa \<subseteq> ?S"
      using new_frame_cases by (fastforce simp: refs_to_def simp del: frame_of.simps)
    then have "card (refs_to ex_new UNIV pa) \<le> card ?S" by (intro card_mono) simp_all
    then show ?thesis by (auto simp: new_owners_def)
  qed
  moreover have "new_owners pa = 1" if "frame_of ex_new a r = Some pa" for a r pa
    using new_frame_cases [OF that] by (auto simp: new_owners_def)
  ultimately have "refs_ok ex_new new_owners UNIV"
    unfolding refs_ok_def using new_frame_cases by blast
  then show "vm_ok new_pool ex_new new_owners UNIV"
    using new_frames by (auto simp: vm_ok_def rooted_def new_pool_def ex_new_def)
qed (simp_all add: ex_new_def free_count_def)

lemma ex_argv_fits: "argv_fits [[0x61], [0x62, 0x63]]"
  by (simp add: argv_fits_def frame_bytes_def align_up16_def align_down_def strings_bytes_def)

definition ex_img :: user_image where
  "ex_img = \<lparr>entry_va = 0, stack_top_va = 0\<rparr>"

section \<open>The properties\<close>

text \<open>C9. With memory enough, loading a well-formed file succeeds and gives the process the memory the file
  describes: the bytes of each segment at their addresses, zeros after them up to the end of the page, the
  zeroed stack with the arguments at its top, the guard page that is not there, and every address
  the file says nothing about as it was.  Other processes see nothing of it.\<close>

theorem exec_loads_the_program:
  assumes "vm_ok pool v H UNIV" "spaces v a \<noteq> None" "elf_ok dat phs" "argv_fits argv"
    "2 * (\<Sum>ph\<leftarrow>phs. seg_pages ph) + 33 \<le> free_count v"
  shows "\<exists>v' img'. elf_load_user v dat a argv img = Some (v', 0, img') \<and> rd_le dat 24 8 = Some (entry_va img') \<and>
    (\<exists>G. vm_ok pool v' G UNIV) \<and> (\<forall>b. b \<noteq> a \<longrightarrow> seen v' b = seen v b) \<and>
    (\<forall>x. user_va x \<longrightarrow> load8 v' a x = process_image dat phs argv (load8 v a) x)"
proof -
  obtain v' img' where l: "elf_load_user v dat a argv img = Some (v', 0, img')" "rd_le dat 24 8 = Some (entry_va img')"
    "\<forall>x. user_va x \<longrightarrow> byte_at v' a x = process_image dat phs argv (byte_at v a) x"
    using elf_load_image [OF assms(1-3), of argv img] assms(4,5) by auto
  have s: "page_step pool ({a} \<times> UNIV) v v'" using elf_load_step [OF assms(1,2) l(1)] ..
  obtain G where G: "vm_ok pool v' G UNIV" using s page_stepD by metis
  have "load8 v' a x = process_image dat phs argv (load8 v a) x" if x: "user_va x" for x
    using l(3) x load8_byte [OF G page_step_space [OF s assms(2)] x] load8_byte [OF assms(1,2) x]
      file_image_cong [of "load8 v a" x "byte_at v a" dat phs] by (simp add: process_image_def)
  then show ?thesis using l(1,2) G others_seen [OF s] by blast
qed

theorem exec_loads_the_program_witness:
  "\<exists>v' img'. elf_load_user ex_new ex_elf 64 [[0x61], [0x62, 0x63]] ex_img = Some (v', 0, img') \<and>
    entry_va img' = 0x1000000000 \<and>
    map (load8 v' 64) [0x1000000000, 0x1000000003, 0x1000000004, 0x1000001000] = [Some 1, Some 4, Some 0, None]"
proof -
  obtain v' img' where l: "elf_load_user ex_new ex_elf 64 [[0x61], [0x62, 0x63]] ex_img = Some (v', 0, img')"
    "rd_le ex_elf 24 8 = Some (entry_va img')"
    "\<And>x. user_va x \<Longrightarrow> load8 v' 64 x = process_image ex_elf [ex_phdr] [[0x61], [0x62, 0x63]] (load8 ex_new 64) x"
    using exec_loads_the_program [OF new_ok(1,2) ex_elf_ok ex_argv_fits, of ex_img]
    by (auto simp: ex_phdr_ok new_ok(3))
  have none: "load8 ex_new 64 0x1000001000 = None"
    by (simp add: load8_seen [OF new_ok(1,2)] user_va_def page_at_def seen_def new_frame_of)
  have "map (load8 v' 64) [0x1000000000, 0x1000000003, 0x1000000004, 0x1000001000] = [Some 1, Some 4, Some 0, None]"
    by (simp add: l(3) user_va_def process_image_def covers_def seg_lo_def seg_hi_def align_down_def ex_phdr_def
        segment_byte_def none) (simp add: ex_elf_def)
  then show ?thesis using l(1,2) by (auto simp: ex_elf_fields)
qed

text \<open>C10. The arguments of exec round trip: after any successful load, of any file, the program that starts finds
  at its stack pointer, which is a multiple of 16, their number, then pointers to the strings it was
  given, each with its NUL, and the two null pointers that end the arguments and the environment.\<close>

theorem exec_passes_arguments:
  assumes "vm_ok pool v H UNIV" "spaces v a \<noteq> None" "elf_load_user v dat a argv img = Some (v', 0, img')"
  shows "args_at v' a (stack_top_va img') argv"
  unfolding elf_load_frame(2) [OF assms] by (rule frame_args [OF elf_load_frame(1) [OF assms]])

theorem exec_passes_arguments_witness:
  "\<exists>v' img'. elf_load_user ex_new ex_elf 64 [[0x61], [0x62, 0x63]] ex_img = Some (v', 0, img') \<and>
    args_at v' 64 (stack_top_va img') [[0x61], [0x62, 0x63]]"
proof -
  obtain v' img' where l: "elf_load_user ex_new ex_elf 64 [[0x61], [0x62, 0x63]] ex_img = Some (v', 0, img')"
    using elf_load_image [OF new_ok(1,2) ex_elf_ok, of "[[0x61], [0x62, 0x63]]" ex_img] ex_argv_fits
    by (auto simp: ex_phdr_ok new_ok(3))
  from exec_passes_arguments [OF new_ok(1,2) l] show ?thesis using l by blast
qed

end
