(* ===== verification/Udp.thy ===== *)
theory Udp
  imports Tcp
begin

text \<open>
  UDP and ICMP: \<open>kernel/core/udp.c\<close>, \<open>kernel/core/icmp.c\<close>, with the wire formats of their headers.
  The callbacks that the kernel binds to ports are two, those of the DHCP client and of the resolver;
  \<open>udp_handle\<close> takes what they do as a parameter, which their clients fill.  The callback for
  echo replies only reports them; \<open>pongs\<close> collects its calls.
\<close>

section \<open>Ports\<close>

abbreviation (input) UDP_BIND_CAP :: nat where "UDP_BIND_CAP \<equiv> 8"
abbreviation (input) UDP_HDR_LEN :: nat where "UDP_HDR_LEN \<equiv> 8"

datatype udp_rx_cb = Dhcp_rx | Dns_rx

record udp_binding =
  ub_valid :: bool
  ub_port :: u16
  ub_cb :: udp_rx_cb

record udp = tcp +
  g_bind :: "udp_binding list"
  g_reply_cb :: bool
  pongs :: "(byte list \<times> u16 \<times> u16) list"

definition bound_to :: "u16 \<Rightarrow> udp_binding \<Rightarrow> bool" where
  "bound_to port b \<longleftrightarrow> ub_valid b \<and> ub_port b = port"

text \<open>\<open>None\<close> is the null callback, which releases the port.\<close>

definition udp_bind :: "u16 \<Rightarrow> udp_rx_cb option \<Rightarrow> 'a udp_scheme \<Rightarrow> 'a udp_scheme \<times> int" where
  "udp_bind port cb s =
     (case first_index (bound_to port) (g_bind s) of
        Some i \<Rightarrow>
          (case cb of
             None \<Rightarrow> (s\<lparr>g_bind := (g_bind s)[i := (g_bind s ! i)\<lparr>ub_valid := False\<rparr>]\<rparr>, 0)
           | Some c \<Rightarrow> (s\<lparr>g_bind := (g_bind s)[i := (g_bind s ! i)\<lparr>ub_cb := c\<rparr>]\<rparr>, 0))
      | None \<Rightarrow>
          (case cb of
             None \<Rightarrow> (s, 0)
           | Some c \<Rightarrow>
               (case first_index (\<lambda>b. \<not> ub_valid b) (g_bind s) of
                  None \<Rightarrow> (s, -1)
                | Some i \<Rightarrow> (s\<lparr>g_bind := (g_bind s)[i := \<lparr>ub_valid = True, ub_port = port, ub_cb = c\<rparr>]\<rparr>, 0))))"

definition find_binding :: "u16 \<Rightarrow> 'a udp_scheme \<Rightarrow> udp_rx_cb option" where
  "find_binding port s = map_option (\<lambda>i. ub_cb (g_bind s ! i)) (first_index (bound_to port) (g_bind s))"

section \<open>Datagrams\<close>

definition udp_compute_checksum :: "byte list \<Rightarrow> byte list \<Rightarrow> byte list \<Rightarrow> u16" where
  "udp_compute_checksum src_ip dst_ip pkt =
     (let n = length pkt in
      if n > 1500 then 0
      else net_ipv4_checksum (src_ip @ dst_ip @ [0, IPV4_PROTO_UDP, of_nat (n div 256), of_nat (n mod 256)] @ pkt))"

definition udp_hdr :: "u16 \<Rightarrow> u16 \<Rightarrow> u16 \<Rightarrow> u16 \<Rightarrow> byte list" where
  "udp_hdr src_port dst_port len checksum =
     put16 (net_cpu_to_be16 src_port) @ put16 (net_cpu_to_be16 dst_port) @ put16 (net_cpu_to_be16 len) @ put16 checksum"

text \<open>A computed checksum of 0 goes out as \<open>0xFFFF\<close>.\<close>

definition nonzero_sum :: "u16 \<Rightarrow> u16" where
  "nonzero_sum c = (if c = 0 then 0xFFFF else c)"

text \<open>The length of the datagram is a 32-bit sum; the callers send less than 1472 bytes.\<close>

definition udp_send ::
    "netdev \<Rightarrow> byte list option \<Rightarrow> byte list \<Rightarrow> u16 \<Rightarrow> u16 \<Rightarrow> byte list \<Rightarrow> 'a udp_scheme \<Rightarrow> 'a udp_scheme \<times> int" where
  "udp_send d src_ip dst_ip src_port dst_port payload s =
     (let udp_len = (UDP_HDR_LEN + length payload) mod 2 ^ 32 in
      if udp_len > 1500 - IPV4_HDR_LEN then (s, -1)
      else
        let src = (case src_ip of None \<Rightarrow> g_ip s | Some ip \<Rightarrow> ip);
            cks = nonzero_sum (udp_compute_checksum src dst_ip (udp_hdr src_port dst_port (of_nat udp_len) 0 @ payload))
        in net_ipv4_send_from d src dst_ip IPV4_PROTO_UDP (udp_hdr src_port dst_port (of_nat udp_len) cks @ payload) s)"

text \<open>The checks of \<open>udp_handle\<close>: source port, destination port and body of an accepted datagram.\<close>

definition udp_accept :: "byte list \<Rightarrow> byte list \<Rightarrow> byte list \<Rightarrow> (u16 \<times> u16 \<times> byte list) option" where
  "udp_accept src_ip dst_ip p =
     (if length p < UDP_HDR_LEN then None
      else
        let udp_len = unat (net_be16_to_cpu (get16 p 4)) in
        if udp_len < UDP_HDR_LEN \<or> udp_len > length p then None
        else if get16 p 6 \<noteq> 0 \<and>
            (udp_len > 1500 \<or>
             get16 p 6 \<noteq> nonzero_sum (udp_compute_checksum src_ip dst_ip ((take udp_len p)[6 := 0, 7 := 0]))) then None
        else Some (net_be16_to_cpu (get16 p 0), net_be16_to_cpu (get16 p 2), part UDP_HDR_LEN (udp_len - UDP_HDR_LEN) p))"

text \<open>What a callback does with the source address, the source port and the body.\<close>

type_synonym 's udp_call = "udp_rx_cb \<Rightarrow> byte list \<Rightarrow> u16 \<Rightarrow> byte list \<Rightarrow> 's \<Rightarrow> 's"

definition udp_handle :: "'a udp_scheme udp_call \<Rightarrow> 'a udp_scheme handler" where
  "udp_handle call src_ip dst_ip p s =
     (case udp_accept src_ip dst_ip p of
        None \<Rightarrow> s
      | Some (src_port, dst_port, body) \<Rightarrow>
          (case find_binding dst_port s of None \<Rightarrow> s | Some cb \<Rightarrow> call cb src_ip src_port body s))"

section \<open>Echo\<close>

abbreviation (input) ICMP_ECHO_HDR_LEN :: nat where "ICMP_ECHO_HDR_LEN \<equiv> 8"
abbreviation (input) ICMP_TYPE_ECHO_REPLY :: byte where "ICMP_TYPE_ECHO_REPLY \<equiv> 0"
abbreviation (input) ICMP_TYPE_ECHO_REQUEST :: byte where "ICMP_TYPE_ECHO_REQUEST \<equiv> 8"

definition icmp_set_echo_reply_callback :: "bool \<Rightarrow> 'a udp_scheme \<Rightarrow> 'a udp_scheme" where
  "icmp_set_echo_reply_callback cb s = s\<lparr>g_reply_cb := cb\<rparr>"

definition icmp_handle :: "netdev \<Rightarrow> 'a udp_scheme handler" where
  "icmp_handle d src_ip dst_ip p s =
     (if length p < ICMP_ECHO_HDR_LEN then s
      else if length p > 1500 then s
      else
        let buf = p[2 := 0, 3 := 0] in
        if net_ipv4_checksum buf \<noteq> get16 p 2 then s
        else if p ! 0 = ICMP_TYPE_ECHO_REPLY then
          (if g_reply_cb s
           then s\<lparr>pongs := pongs s @ [(src_ip, net_be16_to_cpu (get16 p 4), net_be16_to_cpu (get16 p 6))]\<rparr> else s)
        else if p ! 0 \<noteq> ICMP_TYPE_ECHO_REQUEST then s
        else
          let buf1 = buf[0 := ICMP_TYPE_ECHO_REPLY, 1 := 0]
          in fst (net_ipv4_send d src_ip IPV4_PROTO_ICMP
                    (take 2 buf1 @ put16 (net_ipv4_checksum buf1) @ drop 4 buf1) s))"

definition icmp_echo :: "byte \<Rightarrow> u16 \<Rightarrow> u16 \<Rightarrow> u16 \<Rightarrow> byte list" where
  "icmp_echo type checksum ident seq =
     [type, 0] @ put16 checksum @ put16 (net_cpu_to_be16 ident) @ put16 (net_cpu_to_be16 seq)"

definition icmp_send_echo :: "netdev \<Rightarrow> byte list \<Rightarrow> u16 \<Rightarrow> u16 \<Rightarrow> 'a udp_scheme \<Rightarrow> 'a udp_scheme \<times> int" where
  "icmp_send_echo d dst_ip ident seq s =
     net_ipv4_send d dst_ip IPV4_PROTO_ICMP
       (icmp_echo ICMP_TYPE_ECHO_REQUEST (net_ipv4_checksum (icmp_echo ICMP_TYPE_ECHO_REQUEST 0 ident seq)) ident seq) s"

section \<open>The table of ports is a finite map\<close>

definition ports_ok :: "'a udp_scheme \<Rightarrow> bool" where
  "ports_ok s \<longleftrightarrow> length (g_bind s) = UDP_BIND_CAP \<and>
     (\<forall>i<8. \<forall>j<8. ub_valid (g_bind s ! i) \<and> ub_valid (g_bind s ! j) \<and> ub_port (g_bind s ! i) = ub_port (g_bind s ! j) \<longrightarrow> i = j)"

lemma find_binding_Some:
  assumes "ports_ok s"
  shows "find_binding port s = Some c \<longleftrightarrow> (\<exists>i<8. bound_to port (g_bind s ! i) \<and> ub_cb (g_bind s ! i) = c)"
proof -
  have u: "i = j" if "i < 8" "j < 8" "bound_to port (g_bind s ! i)" "bound_to port (g_bind s ! j)" for i j
    using assms that by (simp add: ports_ok_def bound_to_def)
  have l: "length (g_bind s) = 8" using assms by (simp add: ports_ok_def)
  show ?thesis
  proof
    assume "find_binding port s = Some c"
    then obtain i where "first_index (bound_to port) (g_bind s) = Some i" "ub_cb (g_bind s ! i) = c"
      by (auto simp: find_binding_def)
    then show "\<exists>i<8. bound_to port (g_bind s ! i) \<and> ub_cb (g_bind s ! i) = c" using l by (auto simp: first_index_Some)
  next
    assume "\<exists>i<8. bound_to port (g_bind s ! i) \<and> ub_cb (g_bind s ! i) = c"
    then obtain i where i: "i < 8" "bound_to port (g_bind s ! i)" "ub_cb (g_bind s ! i) = c" by blast
    moreover have "\<not> bound_to port (g_bind s ! j)" if "j < i" for j using u [of j i] i(1,2) that by auto
    ultimately have "first_index (bound_to port) (g_bind s) = Some i" using l by (simp add: first_index_Some)
    then show "find_binding port s = Some c" using i(3) by (simp add: find_binding_def)
  qed
qed

lemma udp_bind_map:
  assumes ok: "ports_ok s" and b: "udp_bind port cb s = (s', r)"
  shows "r = 0 \<and> ports_ok s' \<and> (\<forall>p. find_binding p s' = (if p = port then cb else find_binding p s)) \<or>
    r = -1 \<and> s' = s \<and> cb \<noteq> None \<and> find_binding port s = None \<and> (\<forall>i<8. ub_valid (g_bind s ! i))"
proof -
  have l: "length (g_bind s) = 8" using ok by (simp add: ports_ok_def)
  have step: "ports_ok s' \<and> (\<forall>p. find_binding p s' = (if p = port then cb else find_binding p s))"
    if i: "i < 8" "g_bind s' = (g_bind s)[i := x]" and o: "\<And>j. j < 8 \<Longrightarrow> j \<noteq> i \<Longrightarrow> \<not> bound_to port (g_bind s ! j)"
      and x: "ub_port x = port" "ub_valid x \<longleftrightarrow> cb \<noteq> None" "cb \<noteq> None \<Longrightarrow> ub_cb x = the cb"
      and old: "bound_to port (g_bind s ! i) \<or> \<not> ub_valid (g_bind s ! i)" for i x
  proof -
    have n: "g_bind s' ! j = (if j = i then x else g_bind s ! j)" if "j < 8" for j using i l that by simp
    have ok': "ports_ok s'"
      unfolding ports_ok_def
    proof (intro conjI allI impI)
      fix j k assume jk: "j < 8" "k < 8"
        "ub_valid (g_bind s' ! j) \<and> ub_valid (g_bind s' ! k) \<and> ub_port (g_bind s' ! j) = ub_port (g_bind s' ! k)"
      show "j = k"
        using jk n [OF jk(1)] n [OF jk(2)] o [OF jk(1)] o [OF jk(2)] x(1) ok
        by (auto simp: bound_to_def ports_ok_def split: if_splits)
    qed (simp add: i l)
    have "find_binding p s' = Some c \<longleftrightarrow> (if p = port then cb else find_binding p s) = Some c" for p c
      unfolding find_binding_Some [OF ok'] if_distrib [of "\<lambda>x. x = Some c"] find_binding_Some [OF ok]
      using n x o i(1) old by (auto simp: bound_to_def split: if_splits)
    then have "find_binding p s' = (if p = port then cb else find_binding p s)" for p
      by (metis option.exhaust)
    then show ?thesis using ok' by blast
  qed
  show ?thesis
  proof (cases "first_index (bound_to port) (g_bind s)")
    case (Some i)
    then have i: "i < 8" "bound_to port (g_bind s ! i)" using l by (auto simp: first_index_Some)
    have "\<not> bound_to port (g_bind s ! j)" if "j < 8" "j \<noteq> i" for j
      using ok i that by (auto simp: ports_ok_def bound_to_def)
    note st = step [OF i(1) _ this]
    show ?thesis
    proof (cases cb)
      case None
      then show ?thesis using b Some st [of "(g_bind s ! i)\<lparr>ub_valid := False\<rparr>"] i(2)
        by (auto simp: udp_bind_def bound_to_def)
    next
      case (Some c)
      then show ?thesis
        using b \<open>first_index (bound_to port) (g_bind s) = Some i\<close> st [of "(g_bind s ! i)\<lparr>ub_cb := c\<rparr>"] i(2)
        by (auto simp: udp_bind_def bound_to_def)
    qed
  next
    case None
    then have none: "\<not> bound_to port (g_bind s ! j)" if "j < 8" for j using l that by (auto simp: first_index_None)
    have fn: "find_binding port s = None" using None by (simp add: find_binding_def)
    note free = None
    show ?thesis
    proof (cases cb)
      case None
      then show ?thesis using b free ok fn by (auto simp: udp_bind_def)
    next
      case (Some c)
      show ?thesis
      proof (cases "first_index (\<lambda>b. \<not> ub_valid b) (g_bind s)")
        case None
        then have "(s', r) = (s, -1)" using b by (simp add: udp_bind_def free Some)
        moreover have "\<forall>i<8. ub_valid (g_bind s ! i)" using None l by (simp add: first_index_None)
        ultimately show ?thesis using Some fn by simp
      next
        case (Some i)
        then have "i < 8" "\<not> ub_valid (g_bind s ! i)" using l by (auto simp: first_index_Some)
        then show ?thesis
          using b free \<open>cb = Some c\<close> Some none
            step [of i "\<lparr>ub_valid = True, ub_port = port, ub_cb = c\<rparr>"]
          by (auto simp: udp_bind_def)
      qed
    qed
  qed
qed

section \<open>What is sent is what is received\<close>

lemma udp_hdr_fields:
  assumes "h = udp_hdr sp dp n ck @ rest"
  shows "get16 h 0 = net_cpu_to_be16 sp" "get16 h 2 = net_cpu_to_be16 dp" "get16 h 4 = net_cpu_to_be16 n" "get16 h 6 = ck"
    "h[6 := 0, 7 := 0] = udp_hdr sp dp n 0 @ rest" "length h = 8 + length rest"
proof -
  let ?a = "put16 (net_cpu_to_be16 sp)" and ?b = "put16 (net_cpu_to_be16 dp)" and ?n = "put16 (net_cpu_to_be16 n)"
  have h: "h = ?a @ ?b @ ?n @ put16 ck @ rest" by (simp add: assms udp_hdr_def)
  show "get16 h 0 = net_cpu_to_be16 sp" by (simp add: h)
  show "get16 h 2 = net_cpu_to_be16 dp" unfolding h by (subst get16_skip) simp_all
  have h4: "h = (?a @ ?b) @ ?n @ put16 ck @ rest" by (simp add: h)
  show "get16 h 4 = net_cpu_to_be16 n" unfolding h4 by (subst get16_skip) simp_all
  have h6: "h = (?a @ ?b @ ?n) @ put16 ck @ rest" by (simp add: h)
  show "get16 h 6 = ck" unfolding h6 by (subst get16_skip) simp_all
  show "h[6 := 0, 7 := 0] = udp_hdr sp dp n 0 @ rest"
    unfolding h6 using put16_clear [of "?a @ ?b @ ?n" 6 ck rest] by (simp add: udp_hdr_def)
  show "length h = 8 + length rest" by (simp add: h)
qed

lemma udp_accept_sent:
  assumes "length p \<le> 1472"
  shows "udp_accept src dst (udp_hdr sp dp (of_nat (8 + length p))
      (nonzero_sum (udp_compute_checksum src dst (udp_hdr sp dp (of_nat (8 + length p)) 0 @ p))) @ p) = Some (sp, dp, p)"
proof -
  let ?n = "of_nat (8 + length p) :: u16"
  have "unat (of_nat k :: u16) = k" if "k \<le> 65535" for k
    using that by (simp add: unsigned_of_nat take_bit_nat_eq_self_iff)
  then have n: "unat ?n = 8 + length p" using assms by (simp only:)
  define h where "h = udp_hdr sp dp ?n (nonzero_sum (udp_compute_checksum src dst (udp_hdr sp dp ?n 0 @ p))) @ p"
  note f = udp_hdr_fields [OF h_def]
  have t: "take (8 + length p) h = h" "part 8 (length p) h = p"
    by (simp_all add: f(6)) (simp add: h_def udp_hdr_def part_def)
  show ?thesis
    unfolding h_def [symmetric] udp_accept_def Let_def f be16_twice n t
    using assms by (simp add: t(2))
qed

lemma local_addr: "net_is_local_ip ip s = net_is_local_ip ip t" if "g_ip s = g_ip t"
  using that by (simp add: net_is_local_ip_def)

text \<open>C35. A datagram sent from the host to one of its own addresses goes to the end of the loopback queue; taken in
  again, its checksum is found right and the callback bound to its port gets the address and the port of
  the sender and the bytes that were sent.  Nothing happens when no callback is bound.\<close>

theorem udp_loopback_delivery:
  fixes s :: "'a udp_scheme" and call :: "'a udp_scheme udp_call"
  assumes "nd_present d" "addr (g_ip s)" "addr dst" "length (g_mac s) = 6" "net_is_local_ip dst s" "lo_ok s"
    "length (lo_frames s) < 63" "length p \<le> 1472"
  shows "\<exists>f s'. udp_send d None dst sp dp p s = (s', 0) \<and> lo_ok s' \<and> lo_frames s' = lo_frames s @ [f] \<and>
    (\<forall>r. net_is_local_ip dst r \<longrightarrow> rx_dispatch d icmp (udp_handle call) tcp f r =
       (case find_binding dp r of None \<Rightarrow> r | Some cb \<Rightarrow> call cb (g_ip s) sp p r))"
proof -
  let ?pkt = "udp_hdr sp dp (of_nat (8 + length p))
      (nonzero_sum (udp_compute_checksum (g_ip s) dst (udp_hdr sp dp (of_nat (8 + length p)) 0 @ p))) @ p"
  have n: "(8 + length p) mod 4294967296 = 8 + length p" using assms(8) by simp
  have send: "udp_send d None dst sp dp p s = net_ipv4_send_from d (g_ip s) dst 17 ?pkt s"
    using assms(8) by (simp add: udp_send_def Let_def n)
  have len: "length ?pkt \<le> 1480" using assms(8) by (simp add: udp_hdr_def)
  obtain s' f where s': "net_ipv4_send_from d (g_ip s) dst 17 ?pkt s = (s', 0)" "lo_ok s'" "lo_frames s' = lo_frames s @ [f]"
    "g_ip s' = g_ip s" "g_mac s' = g_mac s"
    and rx: "\<And>icmp udp tcp (r :: 'a udp_scheme). net_is_local_ip dst r \<Longrightarrow>
       rx_dispatch d icmp udp tcp f r = rx_handle_ipv4 icmp udp tcp f r \<and> ipv4_accept f r = Some (17, g_ip s, dst, ?pkt)"
    by (rule send_local [OF assms(1) len assms(2-7), where proto = 17 and 'b = "'a udp_ext tcp_ext"]) blast
  have "rx_dispatch d icmp (udp_handle call) tcp f r =
      (case find_binding dp r of None \<Rightarrow> r | Some cb \<Rightarrow> call cb (g_ip s) sp p r)" if "net_is_local_ip dst r" for r :: "'a udp_scheme"
    using rx [OF that] udp_accept_sent [OF assms(8)] by (simp add: rx_handle_ipv4_def udp_handle_def)
  then show ?thesis using s' send by auto
qed

definition demo_udp :: udp where
  "demo_udp = \<lparr>g_initted = True, g_mac = [2, 0, 0, 0, 0, 1], g_ip = [10, 0, 2, 15], g_gw = [10, 0, 2, 2],
     g_msk = [255, 255, 255, 0], g_dns = [10, 0, 2, 3], g_arp = [], g_lo_buf = replicate 64 [], g_lo_head = 0,
     g_lo_tail = 0, g_ip_id = 0, wire = [], waits = 0, g_conns = replicate 16 zero_conn,
     g_poll_counter = 0, g_next_eph_port = 49152, isns = 0, segs = [],
     g_bind = \<lparr>ub_valid = True, ub_port = 5353, ub_cb = Dns_rx\<rparr> #
       replicate 7 \<lparr>ub_valid = False, ub_port = 0, ub_cb = Dhcp_rx\<rparr>, g_reply_cb = True, pongs = []\<rparr>"

definition demo_card :: netdev where
  "demo_card = \<lparr>nd_present = True, nd_tx = (\<lambda>_. 0), nd_heard = (\<lambda>_. [])\<rparr>"

lemma demo_udp_local:
  "nd_present demo_card" "addr (g_ip demo_udp)" "addr [127, 0, 0, 1]" "length (g_mac demo_udp) = 6"
  "net_is_local_ip [127, 0, 0, 1] demo_udp" "net_is_local_ip (g_ip demo_udp) demo_udp" "lo_ok demo_udp"
  "length (lo_frames demo_udp) < 63" "lo_frames demo_udp = []" "g_reply_cb demo_udp"
  by (simp_all add: demo_udp_def demo_card_def addr_def net_is_local_ip_def lo_ok_def lo_frames_def)

lemma demo_udp_ports: "ports_ok demo_udp"
  by (auto simp: demo_udp_def ports_ok_def nth_Cons split: nat.splits)

abbreviation "demo_call \<equiv> (\<lambda>cb ip port body (r :: udp). r\<lparr>pongs := (ip @ body, port, 0) # pongs r\<rparr>)"

lemma udp_loopback_delivery_witness:
  "\<exists>f s'. udp_send demo_card None [127, 0, 0, 1] 1024 5353 [65, 66] demo_udp = (s', 0) \<and> lo_ok s' \<and>
     lo_frames s' = [f] \<and>
     rx_dispatch demo_card (\<lambda>_ _ _. id) (udp_handle demo_call) (\<lambda>_ _ _. id) f demo_udp =
       demo_udp\<lparr>pongs := [([10, 0, 2, 15, 65, 66], 1024, 0)]\<rparr>"
proof -
  have len: "length [65, 66 :: byte] \<le> 1472" by simp
  have b: "find_binding 5353 demo_udp = Some Dns_rx" "pongs demo_udp = []" "g_ip demo_udp = [10, 0, 2, 15]"
    by (simp_all add: demo_udp_def find_binding_def bound_to_def)
  show ?thesis
    using udp_loopback_delivery [OF demo_udp_local(1-5,7,8) len, of 1024 5353 "\<lambda>_ _ _. id" demo_call "\<lambda>_ _ _. id"]
      demo_udp_local(5,9)
    by (auto simp: b)
qed

section \<open>Ping\<close>

lemma icmp_echo_fields:
  assumes "h = icmp_echo ty ck ident seq"
  shows "h ! 0 = ty" "get16 h 2 = ck" "get16 h 4 = net_cpu_to_be16 ident" "get16 h 6 = net_cpu_to_be16 seq"
    "h[2 := 0, 3 := 0] = icmp_echo ty 0 ident seq" "length h = 8" "take 2 h @ put16 c @ drop 4 h = icmp_echo ty c ident seq"
    "h[0 := ty', Suc 0 := 0] = icmp_echo ty' ck ident seq"
proof -
  have h: "h = [ty, 0] @ put16 ck @ put16 (net_cpu_to_be16 ident) @ put16 (net_cpu_to_be16 seq)"
    by (simp add: assms icmp_echo_def)
  show "h ! 0 = ty" "length h = 8" "take 2 h @ put16 c @ drop 4 h = icmp_echo ty c ident seq"
    "h[0 := ty', Suc 0 := 0] = icmp_echo ty' ck ident seq"
    by (simp_all add: h icmp_echo_def)
  show "get16 h 2 = ck" unfolding h by (subst get16_skip) simp_all
  have h4: "h = ([ty, 0] @ put16 ck) @ put16 (net_cpu_to_be16 ident) @ put16 (net_cpu_to_be16 seq)" by (simp add: h)
  show "get16 h 4 = net_cpu_to_be16 ident" unfolding h4 by (subst get16_skip) simp_all
  have h6: "h = ([ty, 0] @ put16 ck @ put16 (net_cpu_to_be16 ident)) @ put16 (net_cpu_to_be16 seq)" by (simp add: h)
  show "get16 h 6 = net_cpu_to_be16 seq" unfolding h6 by (subst get16_skip) simp_all
  show "h[2 := 0, 3 := 0] = icmp_echo ty 0 ident seq"
    unfolding h using put16_clear [of "[ty, 0]" 2 ck] by (simp add: icmp_echo_def)
qed

lemma icmp_handle_request:
  assumes "h = icmp_echo 8 (net_ipv4_checksum (icmp_echo 8 0 ident seq)) ident seq"
  shows "icmp_handle d src dst h s =
    fst (net_ipv4_send d src 1 (icmp_echo 0 (net_ipv4_checksum (icmp_echo 0 0 ident seq)) ident seq) s)"
  using icmp_echo_fields [OF assms] icmp_echo_fields(7,8) [OF refl, where ck = 0]
  by (simp add: icmp_handle_def Let_def)

lemma icmp_handle_reply:
  assumes "h = icmp_echo 0 (net_ipv4_checksum (icmp_echo 0 0 ident seq)) ident seq" "g_reply_cb s"
  shows "icmp_handle d src dst h s = s\<lparr>pongs := pongs s @ [(src, ident, seq)]\<rparr>"
  using icmp_echo_fields [OF assms(1)] assms(2) by (simp add: icmp_handle_def Let_def)

lemma udp_more:
  assumes "net.more (s :: 'a udp_scheme) = net.more t"
  shows "g_bind s = g_bind t" "g_reply_cb s = g_reply_cb t" "pongs s = pongs t"
  using assms by (cases s; cases t; simp)+

lemma pop_one:
  assumes "lo_ok s" "lo_frames s = [f]"
  shows "loopback_loop rx (Suc n) s = (let (s2, k) = loopback_loop rx n (rx f (snd (lo_pop s))) in (s2, Suc k))"
    "lo_ok (snd (lo_pop s))" "lo_frames (snd (lo_pop s)) = []"
proof -
  have p: "lo_ok (snd (lo_pop s))" "fst (lo_pop s) = f" "lo_frames (snd (lo_pop s)) = []"
    using lo_pop_spec [OF assms(1)] assms(2) by auto
  then show "lo_ok (snd (lo_pop s))" "lo_frames (snd (lo_pop s)) = []" by simp_all
  have "g_lo_head s \<noteq> g_lo_tail s" using lo_nonempty [OF assms(1)] assms(2) by simp
  then show "loopback_loop rx (Suc n) s = (let (s2, k) = loopback_loop rx n (rx f (snd (lo_pop s))) in (s2, Suc k))"
    using p(2) by (simp add: lo_pop_def Let_def)
qed

text \<open>The host answers its own ping, within one drain of the loopback queue: the callback is told the identifier and
  the sequence number of the request.  The reply comes from the configured address, whichever
  address of the host was pinged.\<close>

theorem ping_self:
  fixes s :: "'a udp_scheme"
  assumes "nd_present d" "addr (g_ip s)" "addr dst" "length (g_mac s) = 6" "net_is_local_ip dst s"
    "net_is_local_ip (g_ip s) s" "lo_ok s" "lo_frames s = []" "g_reply_cb s"
  shows "\<exists>s1 s2. icmp_send_echo d dst ident seq s = (s1, 0) \<and>
    loopback_drain (rx_dispatch d (icmp_handle d) udp tcp) s1 = (s2, 2) \<and>
    pongs s2 = pongs s @ [(g_ip s, ident, seq)] \<and> lo_frames s2 = []"
proof -
  let ?q = "icmp_echo 8 (net_ipv4_checksum (icmp_echo 8 0 ident seq)) ident seq"
  let ?a = "icmp_echo 0 (net_ipv4_checksum (icmp_echo 0 0 ident seq)) ident seq"
  let ?rx = "rx_dispatch d (icmp_handle d) udp tcp"
  have len: "length ?q \<le> 1480" "length ?a \<le> 1480" using icmp_echo_fields(6) by simp_all
  have room: "length (lo_frames s) < 63" using assms(8) by simp
  obtain s1 f where 1: "net_ipv4_send_from d (g_ip s) dst 1 ?q s = (s1, 0)" "lo_ok s1" "lo_frames s1 = lo_frames s @ [f]"
    "g_ip s1 = g_ip s" "g_mac s1 = g_mac s"
    and rx1: "\<And>icmp udp tcp (r :: 'a udp_scheme). net_is_local_ip dst r \<Longrightarrow>
       rx_dispatch d icmp udp tcp f r = rx_handle_ipv4 icmp udp tcp f r \<and> ipv4_accept f r = Some (1, g_ip s, dst, ?q)"
    by (rule send_local [OF assms(1) len(1) assms(2-5,7) room, where proto = 1 and 'b = "'a udp_ext tcp_ext"]) blast
  have f1: "lo_frames s1 = [f]" using 1(3) assms(8) by simp
  define t where "t = snd (lo_pop s1)"
  note p1 = pop_one [OF 1(2) f1, folded t_def]
  have tf: "g_ip t = g_ip s" "g_mac t = g_mac s" "net.more t = net.more s1" by (simp_all add: t_def lo_pop_def 1(4,5))
  have more1: "net.more s1 = net.more s" using net_ipv4_send_from_more [of d "g_ip s" dst 1 ?q s] 1(1) by simp
  have loc: "net_is_local_ip dst t" "net_is_local_ip (g_ip s) t" using assms(5,6) local_addr [OF tf(1)] by simp_all
  have mac: "length (g_mac t) = 6" using assms(4) tf(2) by simp
  have room2: "length (lo_frames t) < 63" using p1(3) by simp
  obtain s2 g where 2: "net_ipv4_send_from d (g_ip s) (g_ip s) 1 ?a t = (s2, 0)" "lo_ok s2" "lo_frames s2 = lo_frames t @ [g]"
    "g_ip s2 = g_ip t" "g_mac s2 = g_mac t"
    and rx2: "\<And>icmp udp tcp (r :: 'a udp_scheme). net_is_local_ip (g_ip s) r \<Longrightarrow>
       rx_dispatch d icmp udp tcp g r = rx_handle_ipv4 icmp udp tcp g r \<and> ipv4_accept g r = Some (1, g_ip s, g_ip s, ?a)"
    by (rule send_local [OF assms(1) len(2) assms(2,2) mac loc(2) p1(2) room2, where proto = 1 and 'b = "'a udp_ext tcp_ext"]) blast
  have h1: "?rx f t = s2"
    using rx1 [OF loc(1), of "icmp_handle d" udp tcp] 2(1) tf(1)
    by (simp add: rx_handle_ipv4_def icmp_handle_request [OF refl] net_ipv4_send_def)
  have f2: "lo_frames s2 = [g]" using 2(3) p1(3) by simp
  define u where "u = snd (lo_pop s2)"
  note p2 = pop_one [OF 2(2) f2, folded u_def]
  have uf: "g_ip u = g_ip s" "net.more u = net.more s2" by (simp_all add: u_def lo_pop_def 2(4) tf(1))
  have "net.more s2 = net.more t" using net_ipv4_send_from_more [of d "g_ip s" "g_ip s" 1 ?a t] 2(1) by simp
  then have m: "net.more u = net.more s" using uf(2) tf(3) more1 by simp
  have cb: "g_reply_cb u" using udp_more(2) [OF m] assms(9) by simp
  have "?rx g u = u\<lparr>pongs := pongs s @ [(g_ip s, ident, seq)]\<rparr>"
    using rx2 [of u "icmp_handle d" udp tcp] assms(6) local_addr [OF uf(1)] udp_more(3) [OF m]
    by (simp add: rx_handle_ipv4_def icmp_handle_reply [OF refl cb])
  moreover define w where "w = u\<lparr>pongs := pongs s @ [(g_ip s, ident, seq)]\<rparr>"
  ultimately have h2: "?rx g u = w" by simp
  have lw: "lo_ok w" "lo_frames w = []" using p2(2,3) by (simp_all add: w_def lo_ok_def lo_frames_def)
  have "loopback_loop ?rx 254 w = (w, 0)"
    using lo_nonempty [OF lw(1)] lw(2) by (simp add: numeral_eq_Suc)
  then have "loopback_loop ?rx (Suc (Suc 254)) s1 = (w, Suc (Suc 0))"
    by (simp only: p1(1) h1 p2(1) h2 Let_def prod.case)
  then have "loopback_drain ?rx s1 = (w, 2)" by (simp add: loopback_drain_def)
  moreover have "pongs w = pongs s @ [(g_ip s, ident, seq)]" by (simp add: w_def)
  ultimately show ?thesis using 1(1) lw(2) by (auto simp: icmp_send_echo_def net_ipv4_send_def)
qed

lemma ping_self_witness:
  "\<exists>s1 s2. icmp_send_echo demo_card [127, 0, 0, 1] 7 1 demo_udp = (s1, 0) \<and>
    loopback_drain (rx_dispatch demo_card (icmp_handle demo_card) (\<lambda>_ _ _. id) (\<lambda>_ _ _. id)) s1 = (s2, 2) \<and>
    pongs s2 = [([10, 0, 2, 15], 7, 1)] \<and> lo_frames s2 = []"
proof -
  have b: "pongs demo_udp = []" "g_ip demo_udp = [10, 0, 2, 15]" by (simp_all add: demo_udp_def)
  show ?thesis using ping_self [OF demo_udp_local(1-7,9,10)] by (auto simp: b)
qed

end
