(* ===== verification/Spec2Isabelle.thy ===== *)
theory Spec2Isabelle
  imports Heap Pmem Pipe Journal BlkCache BlockCache Osfs2Files Tmpfs Osfs2Mount PageCache Csprng TcpStream
    Osfs1Props SrvProps VfsProps SchedProps UserProps ElfProps Udp
begin

text \<open>
  The kernel of VibeOS (\<open>src/kernel\<close>), a small operating system for 64-bit ARM: memory and address
  spaces, threads, pipes, services, file systems, caches, the network stack and the random number
  generator.  Every definition is a
  translation of one function, or of a stretch of one, of the C code; names are those of the code.

  \<^bold>\<open>Conventions.\<close>  A C structure is a \<open>record\<close>, a table a list, an enumeration a \<open>datatype\<close>.  Integers that
  wrap are words of their width; indices and lengths that the code keeps in range are \<open>nat\<close>.
  Operations take the state and return it.  A NULL or \<open>-1\<close> result is \<open>None\<close> where the caller
  only tests for it, an integer where the value matters.  Loops are recursive functions with a
  termination proof; where the code's loop ends only on a well-formed structure (the walks of the
  heap) they are \<open>partial_function (option)\<close>, and theorems say that they return.  A call that may block
  takes the list of its wake-ups, so that anything can happen while it sleeps.  Devices are
  parameters.  Where a lock is dropped inside an operation the phases between are modelled
  (\<^verbatim>\<open>PageCache\<close>).  Elsewhere an operation is one step up to its next blocking point, as it is on one
  processor; the code has no lock over the whole kernel, so on several processors this holds only for
  the operations that hold a lock of their own, and the races found between the others are findings of the
  manifest, outside the theorems.

  \<^bold>\<open>Theories.\<close>
  \<^item> \<^verbatim>\<open>Prelude\<close>: 64-bit arithmetic, alignment, table search, C strings, little-endian fields, splices.
  \<^item> \<^verbatim>\<open>Contracts\<close>: the interfaces between the parts as locales with the lemmas their clients share: an
    allocator, a bounded queue, blocks behind a cache, a name store.  Each is interpreted on
    the code of the part that provides it.
  \<^item> \<^verbatim>\<open>Heap\<close> (\<open>core/heap.c\<close>): headers in memory; refinement of first fit on a list of blocks,
    coalescing, disjointness of the buffers handed out.
  \<^item> \<^verbatim>\<open>Pmem\<close> (\<open>core/pmem.c\<close>, \<open>pmem_refcount.c\<close>): the free list inside the free pages, the reference
    counts of copy-on-write; no frame is lost or handed out twice.
  \<^item> \<^verbatim>\<open>Pipe\<close> (\<open>core/pipe.c\<close>, \<open>pty.c\<close>): order, blocking, wake-ups, end of file, life time.
  \<^item> \<^verbatim>\<open>Disk\<close>, \<^verbatim>\<open>Journal\<close> (\<open>core/osfs2_journal.c\<close>): a disk whose writes may fail or stop, the write-ahead
    journal; a commit is atomic under power loss.
  \<^item> \<^verbatim>\<open>Lru\<close>, \<^verbatim>\<open>BlkCache\<close> (\<open>device/blk_cache.c\<close>), \<^verbatim>\<open>BlockCache\<close> (\<open>core/osfs2_cache.c\<close>): the read cache and
    the write-back cache refine a store of blocks.
  \<^item> \<^verbatim>\<open>Osfs2\<close>, \<^verbatim>\<open>Osfs2Store\<close>, \<^verbatim>\<open>Osfs2Files\<close>, \<^verbatim>\<open>Osfs2Mount\<close> (\<open>core/osfs2.c\<close>): the file system: bitmaps,
    inodes, the block tree, directories and paths, the mount methods; reading, writing and truncating
    keep every other file as it is.
  \<^item> \<^verbatim>\<open>FileDesc\<close>, \<^verbatim>\<open>Tmpfs\<close> (\<open>core/tmpfs.c\<close>, \<open>vfs.h\<close>): descriptors and the memory file system.
  \<^item> \<^verbatim>\<open>PageCache\<close> (\<open>core/page_cache.c\<close>): pages of files shared between address spaces, on several
    processors.
  \<^item> \<^verbatim>\<open>Csprng\<close> (\<open>core/random.c\<close>): ChaCha20, against RFC 7539 on bytes and its test vectors, and the
    stream of random bytes.
  \<^item> \<^verbatim>\<open>Inet\<close> (\<open>core/net.c\<close>), \<^verbatim>\<open>Tcp\<close>, \<^verbatim>\<open>TcpWire\<close>, \<^verbatim>\<open>TcpStream\<close> (\<open>core/tcp.c\<close>): Ethernet, ARP, IPv4, the loopback
    queue, and TCP: encoding and decoding are inverse, and a connection delivers the
    stream it was given over a network that loses, repeats and reorders.  \<^verbatim>\<open>Udp\<close> (\<open>core/udp.c\<close>,
    \<open>icmp.c\<close>): the table of ports is a finite map, a datagram and a ping to the host itself arrive.
  \<^item> \<^verbatim>\<open>Srv\<close>, \<^verbatim>\<open>SrvProps\<close> (\<open>core/srv.c\<close>): the service bus; messages arrive whole, in order and once.
  \<^item> \<^verbatim>\<open>Osfs1\<close>, \<^verbatim>\<open>Osfs1Props\<close> (\<open>core/osfs.c\<close>): the read-only file system.
  \<^item> \<^verbatim>\<open>Vfs\<close>, \<^verbatim>\<open>VfsFiles\<close>, \<^verbatim>\<open>VfsProps\<close> (\<open>core/vfs.c\<close>): mounts, embedded files, descriptor tables and the
    calls on them, which dispatch to the file systems, pipes, sockets and services.
  \<^item> \<^verbatim>\<open>Sched\<close>, \<^verbatim>\<open>SchedOps\<close> (\<open>core/thread.c\<close>): threads, run queues, switching, sleeping and blocking,
    signals, wait and exit on four processors; \<^verbatim>\<open>SchedInv\<close>, \<^verbatim>\<open>SchedNew\<close>, \<^verbatim>\<open>SchedReach\<close>, \<^verbatim>\<open>SchedTurns\<close>,
    \<^verbatim>\<open>SchedProps\<close>: the run queues are well formed in every reachable state, and a ready thread gets its
    turn.  The steps leave out what goes wrong on a processor without an idle thread (processor 0): a
    thread that puts itself to sleep while it stands woken in the queue, and an exit with nothing to
    switch to.
  \<^item> \<^verbatim>\<open>AddrSpace\<close> (\<open>arch/address_space.c\<close>): page tables as words of physical memory, creation and teardown,
    cloning, copy on write, the program break, mappings on demand, the ranges of the window manager.
    \<^verbatim>\<open>AddrSpaceInv\<close>: the invariant that ties descriptors, ownership and reference counts together, and
    what a space sees (\<open>seen\<close>).  \<^verbatim>\<open>AddrSpaceSteps\<close>, \<^verbatim>\<open>AddrSpaceCow\<close>, \<^verbatim>\<open>AddrSpaceFork\<close>, \<^verbatim>\<open>AddrSpaceDrop\<close>,
    \<^verbatim>\<open>AddrSpaceClone\<close>, \<^verbatim>\<open>AddrSpaceMap\<close>: each operation keeps it and changes only the view it should.
  \<^item> \<^verbatim>\<open>UserAccess\<close> (\<open>core/uaccess.c\<close>, the data aborts of \<open>core/syscall.c\<close>), \<^verbatim>\<open>UserMem\<close>, \<^verbatim>\<open>UserCopy\<close>:
    loads and stores through the tables, faults, the copies of the kernel.  \<^verbatim>\<open>Elf\<close> (\<open>core/elf.c\<close>): the
    loader of programs, what a process finds in its memory and how it gets its arguments.  \<^verbatim>\<open>UserRun\<close>,
    \<^verbatim>\<open>UserProps\<close>: all of it as one machine, refined by private memories; \<^verbatim>\<open>ElfProps\<close>: the properties of
    the loader.

  \<^bold>\<open>Composition.\<close>  Pipes, tmpfs and the reference counts take their storage from the modelled heap and
  page allocator; OSFS-2 runs over the block cache, which runs over the journal, which runs over the
  disk; TCP runs over IPv4, whose state its record extends.  The record \<open>kern\<close> puts services, descriptor
  tables, the network and the file systems side by side; the scheduler contains it, and \<open>thread_exit\<close> and
  the closing of descriptors deliver the wake-ups of pipes to the threads.  The record \<open>vm\<close> puts the address
  spaces beside it, with the page cache, the page allocator inside that, and the reference counts.

  \<^bold>\<open>Interleaving.\<close>  A call that switches says so in its result (\<open>YReturn\<close>, \<open>YSwitch\<close>, \<open>YPanic\<close>); between two
  switches an operation is one step, and the steps of the processors and of the interrupts interleave
  freely; that an operation of the scheduler is not cut short by another processor is an
  assumption of the model, and where the code does not ensure it the manifest has a finding.  For address spaces one access, fault or call is a step.  The private memories of \<open>UserRun\<close> are
  proved for anonymous memory; pages of the page cache and of windows are modelled but not in its runs.

  \<^bold>\<open>Bounds.\<close>  The copy loops of files take the length of the request as fuel, which the theorems show
  to be enough; the loopback drain is bounded by 256 as in the code.  The loops over page tables have
  the 512 entries of the code.  A fork in a run needs pages with fewer than 65535 sharers, the width of
  the counts.

  \<^bold>\<open>Not modelled.\<close>  Device registers, the assembly of boot, exceptions and context switches, the barriers and
  the translation caches of the processors; serial output; and the parts of the kernel listed as
  not modelled in the manifest: the dispatch of system calls, user-space file systems, procfs and
  strace, the clients of DNS and DHCP, the device tree, the window system and the
  drivers; and the user programs.
\<close>

end
